(* ===== verification/Prelude.thy ===== *)
theory Prelude
  imports Main "HOL-Library.Word" "HOL-Library.Sublist"
begin

text \<open>
  Shared foundations of the library.

  \<^item> The ways a C execution can go wrong (\<open>ub\<close>) and the result type \<open>'a res\<close> of
    every operation that can reach one of them, with its sequencing \<open>rbind\<close>.
  \<^item> The collections \<open>c_simps\<close> (equations of the C library model) and \<open>step_simps\<close>
    (one-step behaviour of handlers), used as \<^theory_text>\<open>simp add:\<close> bundles.
  \<^item> Generic facts on lists, array writes and arithmetic modulo an array size that
    several components use.
\<close>

named_theorems c_simps "equations of the C library model"
named_theorems step_simps "one-step behaviour of handlers"

section \<open>Undefined behaviour as a value\<close>

text \<open>
  The C sources can leave the defined part of the language. Each such place is an
  \<open>Inl\<close> of the result, so that "no undefined behaviour" is a theorem, not a convention.
\<close>

datatype ub =
    BufferOverflow   \<comment> \<open>write past the end of an array\<close>
  | OverRead         \<comment> \<open>read past the end of an array, for example an unterminated string\<close>
  | NullDeref        \<comment> \<open>use of a null pointer, a null function pointer included\<close>
  | IntOverflow      \<comment> \<open>signed overflow\<close>
  | Uninit           \<comment> \<open>use of an indeterminate value\<close>
  | UseAfterFree     \<comment> \<open>access to memory that is not allocated\<close>
  | AssertFail       \<comment> \<open>a failed \<open>assert\<close>, or an \<open>exit\<close> in the middle of serving\<close>

type_synonym 'a res = "ub + 'a"
type_synonym fd = int

fun rbind :: "'a res \<Rightarrow> ('a \<Rightarrow> 'b res) \<Rightarrow> 'b res" where
  "rbind (Inl e) f = Inl e"
| "rbind (Inr x) f = f x"

lemma rbind_eq_Inr: "rbind m f = Inr y \<longleftrightarrow> (\<exists>x. m = Inr x \<and> f x = Inr y)"
  by (cases m) auto

lemma rbind_eq_Inl: "rbind m f = Inl e \<longleftrightarrow> m = Inl e \<or> (\<exists>x. m = Inr x \<and> f x = Inl e)"
  by (cases m) auto

lemma rbind_Inr_right [simp]: "rbind m Inr = m"
  by (cases m) auto

lemma rbind_assoc: "rbind (rbind m f) g = rbind m (\<lambda>x. rbind (f x) g)"
  by (cases m) auto

fun_cases rbind_InrE: "rbind m f = Inr y"

text \<open>The range of C's \<open>int\<close> on the platforms the Makefiles build for.\<close>

abbreviation (input) INT_MAX :: int where "INT_MAX \<equiv> 2147483647"
abbreviation (input) INT_MIN :: int where "INT_MIN \<equiv> - 2147483648"

definition int_range :: "int \<Rightarrow> bool" where
  "int_range x \<longleftrightarrow> INT_MIN \<le> x \<and> x \<le> INT_MAX"

definition int_chk :: "int \<Rightarrow> int res" where
  "int_chk x = (if int_range x then Inr x else Inl IntOverflow)"

text \<open>Return codes of \<open>common.h\<close>.\<close>

abbreviation (input) SUCCESS :: int where "SUCCESS \<equiv> 0"
abbreviation (input) FAILURE :: int where "FAILURE \<equiv> - 1"

section \<open>Array writes\<close>

text \<open>\<open>blit xs i ys\<close> overwrites \<open>xs\<close> from index \<open>i\<close> with \<open>ys\<close>, as \<open>memcpy\<close> into an
  array does; the callers check that it fits.\<close>

definition blit :: "'a list \<Rightarrow> nat \<Rightarrow> 'a list \<Rightarrow> 'a list" where
  "blit xs i ys = take i xs @ ys @ drop (i + length ys) xs"

lemma length_blit [simp]: "i + length ys \<le> length xs \<Longrightarrow> length (blit xs i ys) = length xs"
  by (simp add: blit_def)

lemma take_blit [simp]: "i \<le> length xs \<Longrightarrow> take i (blit xs i ys) = take i xs"
  by (simp add: blit_def)

lemma blit_append: "i = length xs \<Longrightarrow> length ys \<le> n \<Longrightarrow>
  blit (xs @ replicate n z) i ys = (xs @ ys) @ replicate (n - length ys) z"
  by (simp add: blit_def)

lemma blit_Nil [simp]: "blit xs i [] = xs"
  by (simp add: blit_def)

lemma blit_blit:
  assumes "i + length xs + length ys \<le> length zs"
  shows "blit (blit zs i xs) (i + length xs) ys = blit zs i (xs @ ys)"
proof -
  have "length (take i zs) = i" using assms by simp
  then have "take (i + length xs) (take i zs @ xs @ drop (i + length xs) zs) = take i zs @ xs"
    and "drop (i + length xs + length ys) (take i zs @ xs @ drop (i + length xs) zs) = drop (i + length xs + length ys) zs"
    by (simp_all add: ac_simps)
  then show ?thesis by (simp add: blit_def ac_simps)
qed

section \<open>Index arithmetic of ring buffers\<close>

text \<open>Reading a ring of size \<open>n\<close> from index \<open>i\<close>, \<open>k\<close> elements.\<close>

definition ring_read :: "'a list \<Rightarrow> nat \<Rightarrow> nat \<Rightarrow> 'a list" where
  "ring_read buf i k = map (\<lambda>j. buf ! ((i + j) mod length buf)) [0..<k]"

lemma length_ring_read [simp]: "length (ring_read buf i k) = k"
  by (simp add: ring_read_def)

lemma ring_read_0 [simp]: "ring_read buf i 0 = []"
  by (simp add: ring_read_def)

lemma nth_ring_read [simp]:
  "j < k \<Longrightarrow> ring_read buf i k ! j = buf ! ((i + j) mod length buf)"
  by (simp add: ring_read_def)

lemma mod_add_neq:
  fixes i :: nat
  assumes "j < k" and "k < n"
  shows "(i + j) mod n \<noteq> (i + k) mod n"
proof
  assume "(i + j) mod n = (i + k) mod n"
  then have "n dvd (i + k) - (i + j)"
    using assms mod_eq_dvd_iff_nat [of "i + j" "i + k" n] by (metis add_le_cancel_left less_imp_le_nat)
  with assms show False by (auto dest: dvd_imp_le)
qed

lemma ring_read_snoc:
  assumes "k < length buf"
  shows "ring_read (buf[(i + k) mod length buf := x]) i (Suc k) = ring_read buf i k @ [x]"
proof (rule nth_equalityI)
  show "length (ring_read (buf[(i + k) mod length buf := x]) i (Suc k)) =
      length (ring_read buf i k @ [x])" by simp
next
  fix j
  assume "j < length (ring_read (buf[(i + k) mod length buf := x]) i (Suc k))"
  then have j: "j < Suc k" by simp
  have pos: "0 < length buf" using assms by linarith
  show "ring_read (buf[(i + k) mod length buf := x]) i (Suc k) ! j = (ring_read buf i k @ [x]) ! j"
  proof (cases "j = k")
    case True
    then show ?thesis using pos by (simp add: nth_append)
  next
    case False
    with j have "j < k" by simp
    then have "(i + k) mod length buf \<noteq> (i + j) mod length buf"
      using assms mod_add_neq [of j k "length buf" i] by auto
    then show ?thesis using \<open>j < k\<close> by (simp add: nth_append)
  qed
qed

lemma ring_read_Cons:
  "ring_read buf i (Suc k) = buf ! (i mod length buf) # ring_read buf (Suc i) k"
proof -
  have "map (\<lambda>j. buf ! ((i + j) mod length buf)) (map Suc [0..<k]) =
      map (\<lambda>j. buf ! ((Suc i + j) mod length buf)) [0..<k]"
    by simp
  then show ?thesis
    by (simp add: ring_read_def upt_conv_Cons map_Suc_upt [symmetric] del: upt_Suc)
qed

lemma ring_read_mod: "ring_read buf (i mod length buf) k = ring_read buf i k"
  by (simp add: ring_read_def mod_add_left_eq)

section \<open>Small list facts\<close>

lemma takeWhile_append_stop: "\<forall>x\<in>set xs. P x \<Longrightarrow> \<not> P y \<Longrightarrow> takeWhile P (xs @ y # ys) = xs"
  by (induction xs) auto

lemma takeWhile_replicate_stop [simp]:
  "\<forall>x\<in>set xs. P x \<Longrightarrow> \<not> P y \<Longrightarrow> takeWhile P (xs @ replicate n y) = xs"
  by (induction xs) (cases n, auto)

lemma length_takeWhile_less:
  "x \<in> set xs \<Longrightarrow> \<not> P x \<Longrightarrow> length (takeWhile P xs) < length xs"
  by (induction xs) auto

end
