(* ===== verification/C_Library.thy ===== *)
theory C_Library
  imports Prelude
begin

text \<open>
  What the sources use of the C library: strings in fixed arrays (\<open>string.h\<close>), decimal
  conversion (\<open>atoi\<close>, \<open>%d\<close>, \<open>%3d\<close>), buffered streams (\<open>fread\<close>, \<open>feof\<close>, \<open>ferror\<close>)
  and \<open>inet_addr\<close>. An array of \<open>char\<close> is a list whose length is the array's size; the
  string stored in it is what precedes the first NUL.
\<close>

section \<open>Strings in arrays\<close>

definition NUL :: char where "NUL = CHR 0x00"

lemma char_eq_NUL [simp]:
  "Char a b c d e f g h = NUL \<longleftrightarrow> \<not> (a \<or> b \<or> c \<or> d \<or> e \<or> f \<or> g \<or> h)"
  "NUL = Char a b c d e f g h \<longleftrightarrow> \<not> (a \<or> b \<or> c \<or> d \<or> e \<or> f \<or> g \<or> h)"
  by (auto simp: NUL_def)

definition cstr :: "string \<Rightarrow> string" where
  "cstr a = takeWhile (\<lambda>c. c \<noteq> NUL) a"

definition terminated :: "string \<Rightarrow> bool" where
  "terminated a \<longleftrightarrow> NUL \<in> set a"

definition no_nul :: "string \<Rightarrow> bool" where
  "no_nul s \<longleftrightarrow> NUL \<notin> set s"

abbreviation zeros :: "nat \<Rightarrow> string" where
  "zeros n \<equiv> replicate n NUL"

lemma no_nul_simps [simp]:
  "no_nul []" "no_nul (c # s) \<longleftrightarrow> c \<noteq> NUL \<and> no_nul s"
  "no_nul (s @ t) \<longleftrightarrow> no_nul s \<and> no_nul t"
  by (auto simp: no_nul_def)

lemma no_nul_take [simp]: "no_nul s \<Longrightarrow> no_nul (take n s)"
  by (auto simp: no_nul_def dest: in_set_takeD)

lemma no_nul_drop [simp]: "no_nul s \<Longrightarrow> no_nul (drop n s)"
  by (auto simp: no_nul_def dest: in_set_dropD)

lemma no_nul_cstr [simp]: "no_nul (cstr a)"
  by (auto simp: no_nul_def cstr_def dest: set_takeWhileD)

lemma cstr_no_nul [simp]: "no_nul s \<Longrightarrow> cstr s = s"
  by (auto simp: no_nul_def cstr_def takeWhile_eq_all_conv)

lemma cstr_stop [simp]: "no_nul s \<Longrightarrow> cstr (s @ NUL # t) = s"
  by (auto simp: no_nul_def cstr_def intro: takeWhile_append_stop)

lemma cstr_zeros [simp]: "no_nul s \<Longrightarrow> cstr (s @ zeros n) = s"
  unfolding no_nul_def cstr_def by (rule takeWhile_replicate_stop) auto

lemma cstr_only_zeros [simp]: "cstr (zeros n) = []"
  by (cases n) (auto simp: cstr_def)

lemma cstr_append: "no_nul s \<Longrightarrow> cstr (s @ t) = s @ cstr t"
  by (induction s) (simp_all add: cstr_def)

lemma cstr_Cons [simp]: "cstr (c # s) = (if c = NUL then [] else c # cstr s)"
  by (simp add: cstr_def)

lemma cstr_Nil [simp]: "cstr [] = []"
  by (simp add: cstr_def)

lemma length_cstr_le [simp]: "length (cstr a) \<le> length a"
  by (simp add: cstr_def length_takeWhile_le)

lemma length_cstr_terminated: "terminated a \<Longrightarrow> length (cstr a) < length a"
  unfolding terminated_def cstr_def by (rule length_takeWhile_less) auto

lemma terminated_append [simp]: "terminated (s @ t) \<longleftrightarrow> terminated s \<or> terminated t"
  by (auto simp: terminated_def)

lemma terminated_zeros [simp]: "terminated (zeros n) \<longleftrightarrow> 0 < n"
  by (auto simp: terminated_def)

lemma terminated_Cons [simp]: "terminated (c # s) \<longleftrightarrow> c = NUL \<or> terminated s"
  by (auto simp: terminated_def)

lemma not_terminated_no_nul: "\<not> terminated s \<longleftrightarrow> no_nul s"
  by (simp add: terminated_def no_nul_def)

text \<open>\<open>strncpy (dst, src, n)\<close>: at most \<open>n\<close> bytes of the string, padded with NUL to \<open>n\<close>.\<close>

definition strncpy_bytes :: "string \<Rightarrow> nat \<Rightarrow> string" where
  "strncpy_bytes src n = take n (cstr src @ zeros n)"

definition strncpy :: "string \<Rightarrow> string \<Rightarrow> nat \<Rightarrow> string res" where
  "strncpy dst src n =
     (if n \<le> length dst then Inr (blit dst 0 (strncpy_bytes src n)) else Inl BufferOverflow)"

text \<open>\<open>strcpy (dst, src)\<close>: the string and its NUL.\<close>

definition strcpy :: "string \<Rightarrow> string \<Rightarrow> string res" where
  "strcpy dst src =
     (if length (cstr src) < length dst then Inr (blit dst 0 (cstr src @ [NUL]))
      else Inl BufferOverflow)"

text \<open>\<open>strncat (dst, src, n)\<close>: at most \<open>n\<close> bytes of the string after the string in \<open>dst\<close>,
  and a NUL.\<close>

definition strncat :: "string \<Rightarrow> string \<Rightarrow> nat \<Rightarrow> string res" where
  "strncat dst src n =
     (let d = cstr dst; s = take n (cstr src) in
      if length d + length s < length dst then Inr (blit dst (length d) (s @ [NUL]))
      else Inl BufferOverflow)"

definition strcmp_eq :: "string \<Rightarrow> string \<Rightarrow> bool" where
  "strcmp_eq s t \<longleftrightarrow> cstr s = cstr t"

definition strncmp_eq :: "string \<Rightarrow> string \<Rightarrow> nat \<Rightarrow> bool" where
  "strncmp_eq s t n \<longleftrightarrow> take n (cstr s @ [NUL]) = take n (cstr t @ [NUL])"

text \<open>\<open>strchr\<close> and \<open>strstr\<close> on the string: the offset of the first occurrence.\<close>

fun find_char :: "char \<Rightarrow> string \<Rightarrow> nat option" where
  "find_char c [] = None"
| "find_char c (x # xs) = (if x = c then Some 0 else map_option Suc (find_char c xs))"

definition strchr :: "string \<Rightarrow> char \<Rightarrow> nat option" where
  "strchr s c = find_char c (cstr s)"

fun find_str :: "string \<Rightarrow> string \<Rightarrow> nat option" where
  "find_str needle [] = (if needle = [] then Some 0 else None)"
| "find_str needle (x # xs) =
     (if prefix needle (x # xs) then Some 0 else map_option Suc (find_str needle xs))"

definition strstr :: "string \<Rightarrow> string \<Rightarrow> nat option" where
  "strstr s needle = find_str (cstr needle) (cstr s)"

lemma find_char_None: "find_char c s = None \<longleftrightarrow> c \<notin> set s"
  by (induction s) auto

lemma find_char_Some:
  "find_char c s = Some i \<longleftrightarrow> i < length s \<and> s ! i = c \<and> c \<notin> set (take i s)"
proof (induction s arbitrary: i)
  case (Cons x xs)
  then show ?case by (cases i) auto
qed simp

lemma find_char_split:
  "c \<notin> set s \<Longrightarrow> find_char c (s @ c # t) = Some (length s)"
  by (induction s) auto

lemma find_char_SomeE:
  assumes "find_char c s = Some i"
  obtains a b where "s = a @ c # b" and "c \<notin> set a" and "i = length a"
proof -
  from assms have i: "i < length s" "s ! i = c" "c \<notin> set (take i s)"
    by (auto simp: find_char_Some)
  then have "s = take i s @ c # drop (Suc i) s"
    using id_take_nth_drop by blast
  with i show ?thesis using that [of "take i s" "drop (Suc i) s"] by simp
qed

lemma find_str_None: "find_str needle s = None \<longleftrightarrow> \<not> sublist needle s"
  by (induction s) (auto simp: sublist_Cons_right)

lemma strstr_iff: "no_nul needle \<Longrightarrow> (strstr s needle \<noteq> None) \<longleftrightarrow> sublist needle (cstr s)"
  by (simp add: strstr_def find_str_None)

lemma length_strncpy_bytes [simp]: "length (strncpy_bytes src n) = n"
  by (simp add: strncpy_bytes_def)

lemma strncpy_Inr: "strncpy dst src n = Inr a \<Longrightarrow> length a = length dst"
  by (auto simp: strncpy_def split: if_splits)

lemma strncpy_zeros:
  assumes "no_nul src" and "length src = n" and "n \<le> m"
  shows "strncpy (zeros m) src n = Inr (src @ zeros (m - n))"
  using assms by (simp add: strncpy_def blit_def strncpy_bytes_def)

section \<open>Decimal numbers\<close>

fun show_nat :: "nat \<Rightarrow> string" where
  "show_nat n = (if n < 10 then [char_of (48 + n)]
     else show_nat (n div 10) @ [char_of (48 + n mod 10)])"

declare show_nat.simps [simp del]

text \<open>\<open>%d\<close> and \<open>%3d\<close>.\<close>

definition show_int :: "int \<Rightarrow> string" where
  "show_int i = (if i < 0 then CHR ''-'' # show_nat (nat (- i)) else show_nat (nat i))"

definition show_int3 :: "int \<Rightarrow> string" where
  "show_int3 i = replicate (3 - length (show_int i)) (CHR '' '') @ show_int i"

definition isdigit :: "char \<Rightarrow> bool" where
  "isdigit c \<longleftrightarrow> of_char c \<in> {48..57::nat}"

definition isspace :: "char \<Rightarrow> bool" where
  "isspace c \<longleftrightarrow> c = CHR '' '' \<or> of_char c \<in> {9..13::nat}"

definition digit_val :: "char \<Rightarrow> nat" where
  "digit_val c = of_char c - 48"

definition read_nat :: "string \<Rightarrow> nat" where
  "read_nat s = foldl (\<lambda>n c. 10 * n + digit_val c) 0 (takeWhile isdigit s)"

text \<open>\<open>atoi\<close>: leading white space, an optional sign, digits; 0 when there is no number.
  The value is unbounded here: where it may leave the range of \<open>int\<close> the callers say so.\<close>

definition atoi :: "string \<Rightarrow> int" where
  "atoi a =
     (case dropWhile isspace (cstr a) of
        [] \<Rightarrow> 0
      | c # s \<Rightarrow>
          if c = CHR ''-'' then - int (read_nat s)
          else if c = CHR ''+'' then int (read_nat s)
          else int (read_nat (c # s)))"

lemma of_char_digit: "d < 10 \<Longrightarrow> of_char (char_of (48 + d) :: char) = 48 + d"
  for d :: nat
  by (simp add: of_char_of)

lemma isdigit_digit: "d < 10 \<Longrightarrow> isdigit (char_of (48 + d))" for d :: nat
  by (simp add: isdigit_def of_char_digit)

lemma digit_val_digit: "d < 10 \<Longrightarrow> digit_val (char_of (48 + d)) = d" for d :: nat
  by (simp add: digit_val_def of_char_digit)

lemma show_nat_digits: "\<forall>c\<in>set (show_nat n). isdigit c"
proof (induction n rule: show_nat.induct)
  case (1 n)
  show ?case
  proof (cases "n < 10")
    case True
    then show ?thesis by (subst show_nat.simps) (simp add: isdigit_digit)
  next
    case False
    with "1.IH" have "\<forall>c\<in>set (show_nat (n div 10)). isdigit c" by simp
    with False show ?thesis by (subst show_nat.simps) (auto simp: isdigit_digit)
  qed
qed

lemma show_nat_value: "foldl (\<lambda>m c. 10 * m + digit_val c) 0 (show_nat n) = n"
proof (induction n rule: show_nat.induct)
  case (1 n)
  show ?case
  proof (cases "n < 10")
    case True
    then show ?thesis by (subst show_nat.simps) (simp add: digit_val_digit)
  next
    case False
    with "1.IH" have "foldl (\<lambda>m c. 10 * m + digit_val c) 0 (show_nat (n div 10)) = n div 10"
      by simp
    with False show ?thesis
      by (subst show_nat.simps) (simp add: digit_val_digit)
  qed
qed

lemma show_nat_Cons: obtains c s where "show_nat n = c # s" and "isdigit c"
proof -
  have "show_nat n \<noteq> []" by (subst show_nat.simps) simp
  then obtain c s where "show_nat n = c # s" by (cases "show_nat n") auto
  with show_nat_digits [of n] that show ?thesis by simp
qed

lemma isdigit_not [simp]:
  "isdigit c \<Longrightarrow> c \<noteq> NUL" "isdigit c \<Longrightarrow> \<not> isspace c" "isdigit c \<Longrightarrow> c \<noteq> CHR ''-''"
  "isdigit c \<Longrightarrow> c \<noteq> CHR ''+''" "isdigit c \<Longrightarrow> c \<noteq> CHR '' ''" "isdigit c \<Longrightarrow> c \<noteq> CHR ''?''"
  by (auto simp: isdigit_def isspace_def NUL_def)

lemma no_nul_show_nat [simp]: "no_nul (show_nat n)"
  using show_nat_digits [of n] by (auto simp: no_nul_def dest: isdigit_not(1))

lemma no_nul_show_int [simp]: "no_nul (show_int i)"
  by (auto simp: show_int_def NUL_def)

lemma read_nat_append:
  assumes "\<forall>c\<in>set s. isdigit c" and "t = [] \<or> \<not> isdigit (hd t)"
  shows "read_nat (s @ t) = foldl (\<lambda>n c. 10 * n + digit_val c) 0 s"
proof -
  have "takeWhile isdigit t = []" using assms(2) by (cases t) auto
  then have "takeWhile isdigit (s @ t) = s"
    using assms(1) by (simp add: takeWhile_append2)
  then show ?thesis by (simp add: read_nat_def)
qed

lemma read_nat_show_nat:
  "t = [] \<or> \<not> isdigit (hd t) \<Longrightarrow> read_nat (show_nat n @ t) = n"
  using show_nat_digits show_nat_value by (simp add: read_nat_append)

lemma atoi_spaces_nat:
  assumes "no_nul t" and "t = [] \<or> \<not> isdigit (hd t)"
  shows "atoi (replicate k (CHR '' '') @ show_nat n @ t) = int n"
proof -
  obtain c s where cs: "show_nat n = c # s" "isdigit c" by (rule show_nat_Cons)
  have sp: "dropWhile isspace (replicate k (CHR '' '') @ show_nat n @ t) = show_nat n @ t"
    using cs by (induction k) (auto, simp add: isspace_def)
  have nn: "no_nul (replicate k (CHR '' '') @ show_nat n @ t)"
    using assms(1) by (induction k) (auto simp: NUL_def)
  have "atoi (replicate k (CHR '' '') @ show_nat n @ t) = int (read_nat (show_nat n @ t))"
    using cs nn sp by (simp add: atoi_def)
  with read_nat_show_nat [OF assms(2)] show ?thesis by simp
qed

lemma atoi_show_int [simp]: "atoi (show_int i) = i"
proof (cases "i < 0")
  case True
  have "read_nat (show_nat (nat (- i))) = nat (- i)"
    using read_nat_show_nat [of "[]"] by simp
  with True show ?thesis by (simp add: show_int_def atoi_def isspace_def NUL_def)
next
  case False
  then show ?thesis
    using atoi_spaces_nat [of "[]" 0 "nat i"] by (simp add: show_int_def)
qed

lemma atoi_show_int3 [simp]: "0 \<le> i \<Longrightarrow> atoi (show_int3 i) = i"
  using atoi_spaces_nat [of "[]" _ "nat i"] by (simp add: show_int3_def show_int_def)

lemma length_show_nat_small: "length (show_nat n) \<le> 3 \<longleftrightarrow> n < 1000"
proof -
  have a: "show_nat n = (if n < 10 then [char_of (48 + n)]
     else if n < 100 then [char_of (48 + n div 10), char_of (48 + n mod 10)]
     else if n < 1000 then [char_of (48 + n div 100), char_of (48 + n div 10 mod 10), char_of (48 + n mod 10)]
     else show_nat (n div 1000) @ [char_of (48 + n div 100 mod 10), char_of (48 + n div 10 mod 10), char_of (48 + n mod 10)])"
    by (subst show_nat.simps, subst show_nat.simps, subst show_nat.simps)
       (auto simp: div_mult2_eq [symmetric])
  have "show_nat (n div 1000) \<noteq> []" by (subst show_nat.simps) simp
  then show ?thesis by (subst a) (auto simp: length_greater_0_conv [symmetric] simp del: length_greater_0_conv)
qed

lemma length_show_int3: "0 \<le> i \<Longrightarrow> i < 1000 \<Longrightarrow> length (show_int3 i) = 3"
  using length_show_nat_small [of "nat i"] by (simp add: show_int3_def show_int_def)

lemma length_show_int3_long: "1000 \<le> i \<Longrightarrow> 3 < length (show_int3 i)"
  using length_show_nat_small [of "nat i"] by (auto simp: show_int3_def show_int_def)

lemma no_nul_show_int3 [simp]: "no_nul (show_int3 i)"
  by (simp add: show_int3_def) (simp add: no_nul_def NUL_def)

text \<open>An upper bound on the width of \<open>%d\<close>, for the fixed buffers it is printed into.\<close>

lemma length_show_nat_le: "n < 10 ^ k \<Longrightarrow> 0 < k \<Longrightarrow> length (show_nat n) \<le> k"
proof (induction k arbitrary: n)
  case (Suc k)
  show ?case
  proof (cases "n < 10")
    case True
    then show ?thesis by (subst show_nat.simps) simp
  next
    case False
    then have "0 < k" using Suc.prems(1) by (cases k) auto
    moreover have "n div 10 < 10 ^ k" using Suc.prems(1) by (simp add: less_mult_imp_div_less mult.commute)
    ultimately have "length (show_nat (n div 10)) \<le> k" using Suc.IH by blast
    then show ?thesis by (subst show_nat.simps) simp
  qed
qed simp

lemma length_show_nat_ge: "10 ^ k \<le> n \<Longrightarrow> k < length (show_nat n)"
proof (induction k arbitrary: n)
  case 0
  have "show_nat n \<noteq> []" by (subst show_nat.simps) simp
  then show ?case by simp
next
  case (Suc k)
  then have "10 ^ k \<le> n div 10" by (simp add: less_eq_div_iff_mult_less_eq mult.commute)
  moreover have "1 \<le> (10 :: nat) ^ k" by simp
  ultimately have "k < length (show_nat (n div 10))" "\<not> n < 10" using Suc by auto
  then show ?case by (subst show_nat.simps) simp
qed

lemma length_show_int_le: "int_range i \<Longrightarrow> length (show_int i) \<le> 11"
proof -
  assume i: "int_range i"
  then have "nat i < 10 ^ 10" and "nat (- i) < 10 ^ 10" by (auto simp: int_range_def)
  then have "length (show_nat (nat i)) \<le> 10" and "length (show_nat (nat (- i))) \<le> 10"
    by (blast intro: length_show_nat_le zero_less_numeral)+
  then show ?thesis by (simp add: show_int_def)
qed

end
