(* ===== verification/World.thy ===== *)
theory World
  imports C_Library
begin

text \<open>
  What the servers see of the operating system.

  The record \<open>env\<close> holds the behaviour of everything that is not part of the program: the
  files that can be opened, the programs that can be run, the remote FastCGI server, the
  clock and the outcome of the system calls that can fail. The definitions of the servers
  take it as an argument, so every theorem quantifies over it.

  The record \<open>world\<close> is the state on the other side of the system-call interface: the bytes
  each descriptor has accepted, the results the kernel will give to the coming \<open>send\<close>s,
  the epoll interest set, the descriptors that were closed and the number of \<open>FILE\<close>
  streams and client sockets that are open.
\<close>

section \<open>Files and buffered streams\<close>

text \<open>
  A file as \<open>fopen\<close>, \<open>fseek\<close>, \<open>ftell\<close> and \<open>fread\<close> see it: its bytes, whether it can be
  sought and told, and the offset at which the device reports a read error (if any).
\<close>

record filedata =
  f_data :: string
  f_seek_ok :: bool
  f_tell_ok :: bool
  f_bad :: "nat option"

text \<open>A \<open>FILE\<close>: what is left to read, and the end-of-file and error indicators.\<close>

record stream =
  s_rest :: string
  s_eof :: bool
  s_err :: bool
  s_bad :: "nat option"
  s_file :: filedata

definition open_stream :: "filedata \<Rightarrow> stream" where
  "open_stream f = \<lparr>s_rest = f_data f, s_eof = False, s_err = False, s_bad = f_bad f, s_file = f\<rparr>"

text \<open>\<open>rewind\<close> goes back to the start and clears both indicators.\<close>

definition rewind :: "stream \<Rightarrow> stream" where
  "rewind st = open_stream (s_file st)"

text \<open>
  \<open>fread (buf, 1, n, st)\<close>: as many bytes as there are up to \<open>n\<close>. The end-of-file indicator
  is set when the stream ends before \<open>n\<close> bytes, the error indicator when the device fails
  before \<open>n\<close> bytes.
\<close>

definition fread :: "nat \<Rightarrow> stream \<Rightarrow> string \<times> stream" where
  "fread n st =
     (case s_bad st of
        None \<Rightarrow> (take n (s_rest st),
                 st\<lparr>s_rest := drop n (s_rest st), s_eof := s_eof st \<or> length (s_rest st) < n\<rparr>)
      | Some b \<Rightarrow>
          if b < n \<and> b \<le> length (s_rest st)
          then (take b (s_rest st),
                st\<lparr>s_rest := drop b (s_rest st), s_err := True, s_bad := Some 0\<rparr>)
          else (take n (s_rest st),
                st\<lparr>s_rest := drop n (s_rest st), s_bad := Some (b - n),
                   s_eof := s_eof st \<or> length (s_rest st) < n\<rparr>))"

lemma fread_good:
  "s_bad st = None \<Longrightarrow> fread n st = (take n (s_rest st),
     st\<lparr>s_rest := drop n (s_rest st), s_eof := s_eof st \<or> length (s_rest st) < n\<rparr>)"
  by (simp add: fread_def)

lemma fread_length: "fread n st = (bs, st') \<Longrightarrow> length bs \<le> n"
  by (auto simp: fread_def split: option.splits if_splits)

lemma fread_rest: "fread n st = (bs, st') \<Longrightarrow> s_rest st = bs @ s_rest st'"
  by (auto simp: fread_def split: option.splits if_splits)

text \<open>A read that sets neither indicator made progress: it returned all \<open>n\<close> bytes.\<close>

lemma fread_progress:
  "fread n st = (bs, st') \<Longrightarrow> \<not> s_eof st' \<Longrightarrow> \<not> s_err st' \<Longrightarrow> length bs = n"
  by (auto simp: fread_def split: option.splits if_splits)

section \<open>The environment and the kernel state\<close>

datatype epoll_op = EPOLL_CTL_ADD | EPOLL_CTL_MOD | EPOLL_CTL_DEL

text \<open>The event bits of \<open>sys/epoll.h\<close>, as a set of flags.\<close>

datatype epoll_flag = EPOLLIN | EPOLLOUT | EPOLLERR | EPOLLHUP | EPOLLRDHUP

type_synonym events = "epoll_flag set"

record env =
  e_files :: "string \<Rightarrow> filedata option"            \<comment> \<open>what \<open>fopen (path, "r")\<close> finds\<close>
  e_exec :: "string list \<Rightarrow> string list \<Rightarrow> filedata option"
    \<comment> \<open>\<open>execve (argv, envp)\<close>: its standard output; \<open>None\<close> when \<open>fdopen\<close> gives no stream\<close>
  e_date :: string                              \<comment> \<open>the string \<open>strftime\<close> makes\<close>
  e_regex_ok :: bool                            \<comment> \<open>memory suffices for \<open>regcomp\<close> and \<open>regexec\<close>\<close>
  e_fcntl_get :: "fd \<Rightarrow> int"                   \<comment> \<open>\<open>fcntl (fd, F_GETFL)\<close>\<close>
  e_fcntl_set :: "fd \<Rightarrow> int"                   \<comment> \<open>\<open>fcntl (fd, F_SETFL, flags)\<close>\<close>
  e_errno :: int                                \<comment> \<open>\<open>errno\<close> after a failed call\<close>
  e_epoll_ok :: "epoll_op \<Rightarrow> fd \<Rightarrow> bool"       \<comment> \<open>resources suffice for \<open>epoll_ctl\<close>\<close>
  e_socket :: int                               \<comment> \<open>the descriptor of a new client socket\<close>
  e_connect :: "nat \<Rightarrow> nat \<Rightarrow> bool"            \<comment> \<open>\<open>connect\<close> to an IPv4 address and port\<close>
  e_fcgi_send :: "string \<Rightarrow> int"               \<comment> \<open>bytes the FastCGI server accepts\<close>
  e_fcgi_reply :: "string \<Rightarrow> string list"      \<comment> \<open>what successive \<open>read\<close>s return\<close>

record world =
  w_sent :: "fd \<Rightarrow> string"             \<comment> \<open>bytes accepted on each descriptor, in order\<close>
  w_send_rets :: "int list"            \<comment> \<open>results of the next \<open>send\<close>s; \<open>[]\<close>: everything\<close>
  w_interest :: "fd \<Rightarrow> events option"  \<comment> \<open>the epoll interest set\<close>
  w_open :: "fd set"                   \<comment> \<open>connection descriptors that are open\<close>
  w_closed :: "fd list"                \<comment> \<open>descriptors closed, latest first\<close>
  w_streams :: int                     \<comment> \<open>\<open>FILE\<close> streams opened and not closed\<close>
  w_socks :: int                       \<comment> \<open>FastCGI sockets opened and not closed\<close>

definition fopen :: "env \<Rightarrow> string \<Rightarrow> world \<Rightarrow> stream option \<times> world" where
  "fopen E path w =
     (case e_files E (cstr path) of
        None \<Rightarrow> (None, w)
      | Some f \<Rightarrow> (Some (open_stream f), w\<lparr>w_streams := w_streams w + 1\<rparr>))"

definition fclose :: "world \<Rightarrow> world" where
  "fclose w = w\<lparr>w_streams := w_streams w - 1\<rparr>"

text \<open>\<open>send (fd, bs, length bs, 0)\<close>: the kernel accepts a prefix, or nothing.\<close>

definition send :: "fd \<Rightarrow> string \<Rightarrow> world \<Rightarrow> int \<times> world" where
  "send d bs w =
     (case w_send_rets w of
        [] \<Rightarrow> (int (length bs), w\<lparr>w_sent := (w_sent w)(d := w_sent w d @ bs)\<rparr>)
      | r # rs \<Rightarrow>
          (let k = min (nat r) (length bs) in
           (if r < 0 then r else int k,
            w\<lparr>w_sent := (w_sent w)(d := w_sent w d @ take k bs), w_send_rets := rs\<rparr>)))"

text \<open>\<open>epoll_ctl\<close>: fails when resources do not suffice for an addition or a change, when an
  added descriptor is present already or a modified or deleted one is not.\<close>

definition epoll_ctl :: "env \<Rightarrow> epoll_op \<Rightarrow> fd \<Rightarrow> events \<Rightarrow> world \<Rightarrow> bool \<times> world" where
  "epoll_ctl E oper d evs w =
     (if oper \<noteq> EPOLL_CTL_DEL \<and> \<not> e_epoll_ok E oper d then (False, w)
      else case oper of
        EPOLL_CTL_ADD \<Rightarrow>
          if w_interest w d = None
          then (True, w\<lparr>w_interest := (w_interest w)(d := Some evs)\<rparr>) else (False, w)
      | EPOLL_CTL_MOD \<Rightarrow>
          if w_interest w d \<noteq> None
          then (True, w\<lparr>w_interest := (w_interest w)(d := Some evs)\<rparr>) else (False, w)
      | EPOLL_CTL_DEL \<Rightarrow>
          if w_interest w d \<noteq> None
          then (True, w\<lparr>w_interest := (w_interest w)(d := None)\<rparr>) else (False, w))"

text \<open>\<open>close\<close> also removes the descriptor from the epoll interest set.\<close>

definition sys_close :: "fd \<Rightarrow> world \<Rightarrow> world" where
  "sys_close d w = w\<lparr>w_interest := (w_interest w)(d := None), w_open := w_open w - {d},
     w_closed := d # w_closed w\<rparr>"

text \<open>\<open>accept\<close>: the kernel hands out a descriptor that is not open; a candidate that is
  negative or open stands for a failed call.\<close>

definition sys_accept :: "fd \<Rightarrow> world \<Rightarrow> fd \<times> world" where
  "sys_accept n w =
     (if n < 0 \<or> n \<in> w_open w then (- 1, w) else (n, w\<lparr>w_open := insert n (w_open w)\<rparr>))"

lemma send_full: "w_send_rets w = [] \<Longrightarrow>
  send d bs w = (int (length bs), w\<lparr>w_sent := (w_sent w)(d := w_sent w d @ bs)\<rparr>)"
  by (simp add: send_def)

lemma send_frame [simp]:
  "w_interest (snd (send d bs w)) = w_interest w"
  "w_closed (snd (send d bs w)) = w_closed w"
  "w_open (snd (send d bs w)) = w_open w"
  "w_streams (snd (send d bs w)) = w_streams w"
  "w_socks (snd (send d bs w)) = w_socks w"
  by (simp_all add: send_def Let_def split: list.splits)

text \<open>Whatever the kernel does, what a descriptor has accepted only grows.\<close>

lemma send_prefix: "prefix (w_sent w d') (w_sent (snd (send d bs w)) d')"
  by (simp add: send_def Let_def split: list.splits)

lemma fclose_frame [simp]:
  "w_interest (fclose w) = w_interest w" "w_sent (fclose w) = w_sent w"
  "w_closed (fclose w) = w_closed w" "w_send_rets (fclose w) = w_send_rets w"
  "w_socks (fclose w) = w_socks w" "w_open (fclose w) = w_open w" "w_streams (fclose w) = w_streams w - 1"
  by (simp_all add: fclose_def)

lemma sys_close_frame [simp]:
  "w_sent (sys_close d w) = w_sent w" "w_send_rets (sys_close d w) = w_send_rets w"
  "w_streams (sys_close d w) = w_streams w" "w_socks (sys_close d w) = w_socks w"
  "w_interest (sys_close d w) = (w_interest w)(d := None)"
  "w_closed (sys_close d w) = d # w_closed w" "w_open (sys_close d w) = w_open w - {d}"
  by (simp_all add: sys_close_def)

section \<open>IPv4 addresses\<close>

text \<open>
  \<open>inet_addr\<close> on the two kinds of text the sources pass: four decimal fields, or a host
  name. A text that is not an address gives \<open>INADDR_NONE\<close>.
\<close>

definition INADDR_NONE :: nat where "INADDR_NONE = 4294967295"

fun split_on :: "char \<Rightarrow> string \<Rightarrow> string list" where
  "split_on c [] = [[]]"
| "split_on c (x # xs) =
     (if x = c then [] # split_on c xs
      else case split_on c xs of [] \<Rightarrow> [[x]] | f # fs \<Rightarrow> (x # f) # fs)"

definition octet :: "string \<Rightarrow> nat option" where
  "octet s = (if s \<noteq> [] \<and> list_all isdigit s \<and> read_nat s \<le> 255 then Some (read_nat s) else None)"

definition inet_addr :: "string \<Rightarrow> nat" where
  "inet_addr s =
     (case map octet (split_on (CHR ''.'') s) of
        [Some a, Some b, Some c, Some d] \<Rightarrow> ((a * 256 + b) * 256 + c) * 256 + d
      | _ \<Rightarrow> INADDR_NONE)"

end
