(* ===== verification/Http_Request.thy ===== *)
theory Http_Request
  imports World
begin

text \<open>
  The request side of HTTP: the regular expression of \<open>process_http_request\<close> with its
  POSIX meaning, the executable matcher, and the two versions of \<open>process_http_request\<close>
  (\<open>web_server/ed_http.c\<close>, the same text in \<open>amped_server\<close>; and \<open>mt_server/ed_http.c\<close>,
  which clears \<open>page\<close> first). The struct \<open>parsed_request_t\<close> of \<open>ed_epoll_event.h\<close> is here
  because the parser writes it.
\<close>

section \<open>Regular expressions\<close>

datatype rx = Eps | Chr char | Any | OneOf string | Seq rx rx | Star rx

definition tolower :: "char \<Rightarrow> char" where
  "tolower c = (if of_char c \<in> {65..90::nat} then char_of (of_char c + 32 :: nat) else c)"

inductive_set star :: "string set \<Rightarrow> string set" for A where
  star_Nil: "[] \<in> star A"
| star_App: "u \<in> A \<Longrightarrow> v \<in> star A \<Longrightarrow> u @ v \<in> star A"

text \<open>The strings an expression matches under \<open>REG_ICASE\<close>; without \<open>REG_NEWLINE\<close>, the dot
  matches line ends too.\<close>

primrec lang :: "rx \<Rightarrow> string set" where
  "lang Eps = {[]}"
| "lang (Chr c) = {[d] | d. tolower d = tolower c}"
| "lang Any = {[d] | d. True}"
| "lang (OneOf cs) = {[d] | d. d \<in> set cs}"
| "lang (Seq r s) = {u @ v | u v. u \<in> lang r \<and> v \<in> lang s}"
| "lang (Star r) = star (lang r)"

definition Lit :: "string \<Rightarrow> rx" where
  "Lit s = foldr (\<lambda>c r. Seq (Chr c) r) s Eps"

abbreviation CR :: char where "CR \<equiv> CHR 0x0D"
abbreviation LF :: char where "LF \<equiv> CHR 0x0A"

text \<open>The pattern \<^verbatim>\<open>^(GET) (.*) HTTP/1\\.[01]\r\n((.*)\r\n)*$\<close>, cut at its groups 1 and 2.\<close>

definition rx_method :: rx where "rx_method = Lit ''GET''"
definition rx_page :: rx where "rx_page = Star Any"
definition rx_tail :: rx where
  "rx_tail = Seq (Lit '' HTTP/1.'') (Seq (OneOf ''01'') (Seq (Lit [CR, LF])
     (Star (Seq (Star Any) (Lit [CR, LF])))))"

text \<open>A way to match the whole (anchored) pattern: \<open>m\<close> is group 1 and \<open>p\<close> is group 2.\<close>

definition rx_match :: "string \<Rightarrow> string \<Rightarrow> string \<Rightarrow> bool" where
  "rx_match h m p \<longleftrightarrow> (\<exists>sp t. h = m @ sp @ p @ t \<and> m \<in> lang rx_method \<and> sp \<in> lang (Chr (CHR '' ''))
     \<and> p \<in> lang rx_page \<and> t \<in> lang rx_tail)"

text \<open>POSIX: among the ways to match, an earlier group takes as much as it can.\<close>

definition posix_match :: "string \<Rightarrow> string \<Rightarrow> string \<Rightarrow> bool" where
  "posix_match h m p \<longleftrightarrow> rx_match h m p \<and> (\<forall>m' p'. rx_match h m' p' \<longrightarrow> length p' \<le> length p)"

section \<open>The executable matcher\<close>

definition tail_matches :: "string \<Rightarrow> bool" where
  "tail_matches t \<longleftrightarrow>
     11 \<le> length t \<and> map tolower (take 8 t) = '' http/1.'' \<and> t ! 8 \<in> set ''01''
     \<and> t ! 9 = CR \<and> t ! 10 = LF \<and> (drop 11 t = [] \<or> suffix [CR, LF] (drop 11 t))"

fun last_split :: "string \<Rightarrow> nat \<Rightarrow> nat option" where
  "last_split b 0 = (if tail_matches b then Some 0 else None)"
| "last_split b (Suc k) = (if tail_matches (drop (Suc k) b) then Some (Suc k) else last_split b k)"

definition regexec_request :: "string \<Rightarrow> (string \<times> string) option" where
  "regexec_request h =
     (if map tolower (take 4 h) = ''get '' then
        map_option (\<lambda>k. (take 3 h, take k (drop 4 h))) (last_split (drop 4 h) (length h - 4))
      else None)"

subsection \<open>The matcher finds the POSIX match\<close>

lemma lang_Lit: "u \<in> lang (Lit s) \<longleftrightarrow> map tolower u = map tolower s"
proof (induction s arbitrary: u)
  case Nil
  then show ?case by (simp add: Lit_def)
next
  case (Cons c s)
  have "Lit (c # s) = Seq (Chr c) (Lit s)" by (simp add: Lit_def)
  then have "u \<in> lang (Lit (c # s)) \<longleftrightarrow> (\<exists>d v. u = [d] @ v \<and> tolower d = tolower c \<and> v \<in> lang (Lit s))"
    by (simp only: lang.simps(2,5)) blast
  with Cons.IH show ?case by (cases u) auto
qed

lemma lang_dots [simp]: "u \<in> lang (Star Any)"
proof (induction u)
  case (Cons c u)
  have "[c] \<in> lang Any" by simp
  moreover from Cons have "u \<in> star (lang Any)" by simp
  ultimately have "[c] @ u \<in> star (lang Any)" by (rule star_App)
  then show ?case by simp
qed (simp add: star_Nil)

lemma tolower_lits [simp]:
  "tolower (CHR ''H'') = CHR ''h''" "tolower (CHR ''T'') = CHR ''t''" "tolower (CHR ''P'') = CHR ''p''"
  "tolower (CHR ''/'') = CHR ''/''" "tolower (CHR ''1'') = CHR ''1''" "tolower (CHR ''.'') = CHR ''.''"
  "tolower (CHR ''G'') = CHR ''g''" "tolower (CHR ''E'') = CHR ''e''"
  by code_simp+

lemma map_tolower_lits [simp]:
  "map tolower '' HTTP/1.'' = '' http/1.''" "map tolower ''GET'' = ''get''"
  "tolower (CHR '' '') = CHR '' ''"
  by code_simp+

lemma length_http: "length '' http/1.'' = 8" "length ''get'' = 3" "length ''get '' = 4"
  by simp_all

lemma tolower_CR [simp]: "tolower d = CR \<longleftrightarrow> d = CR"
  by (auto simp: tolower_def of_char_of split: if_splits dest: arg_cong [where f = "of_char :: char \<Rightarrow> nat"])

lemma tolower_LF [simp]: "tolower d = LF \<longleftrightarrow> d = LF"
  by (auto simp: tolower_def of_char_of split: if_splits dest: arg_cong [where f = "of_char :: char \<Rightarrow> nat"])

lemma tolower_CR_LF [simp]: "tolower CR = CR" "tolower LF = LF"
  by (simp_all add: tolower_def)

lemma lang_crlf: "u \<in> lang (Lit [CR, LF]) \<longleftrightarrow> u = [CR, LF]"
  by (auto simp: lang_Lit map_eq_Cons_conv)

lemma lang_lines: "u \<in> lang (Star (Seq (Star Any) (Lit [CR, LF]))) \<longleftrightarrow> u = [] \<or> suffix [CR, LF] u"
proof
  have "u = [] \<or> suffix [CR, LF] u" if "u \<in> star {x @ y | x y. x \<in> lang (Star Any) \<and> y \<in> lang (Lit [CR, LF])}"
    using that
  proof (induction rule: star.induct)
    case (star_App u v)
    then show ?case by (auto simp: lang_crlf suffix_def simp del: lang.simps)
  qed simp
  then show "u \<in> lang (Star (Seq (Star Any) (Lit [CR, LF]))) \<Longrightarrow> u = [] \<or> suffix [CR, LF] u"
    by (simp only: lang.simps)
next
  assume "u = [] \<or> suffix [CR, LF] u"
  then show "u \<in> lang (Star (Seq (Star Any) (Lit [CR, LF])))"
  proof
    assume "suffix [CR, LF] u"
    then obtain v where u: "u = v @ [CR, LF]" by (auto simp: suffix_def)
    have "u \<in> lang (Seq (Star Any) (Lit [CR, LF]))"
      unfolding lang.simps(5) u using lang_dots lang_crlf by blast
    from star_App [OF this star_Nil] show ?thesis by (simp only: lang.simps append_Nil2)
  qed (simp add: star_Nil)
qed

lemma tail_matches_lang: "t \<in> lang rx_tail \<longleftrightarrow> tail_matches t"
proof
  assume "t \<in> lang rx_tail"
  then obtain a d r where t: "t = a @ [d] @ [CR, LF] @ r" and a: "a \<in> lang (Lit '' HTTP/1.'')"
    and d: "d \<in> set ''01''" and r: "r = [] \<or> suffix [CR, LF] r"
    unfolding rx_tail_def lang.simps(4,5) lang_lines [symmetric] lang_crlf by blast
  have am: "map tolower a = '' http/1.''" using a by (simp only: lang_Lit map_tolower_lits)
  then have la: "length a = 8" by (metis length_map length_http)
  show "tail_matches t"
    using am d r la by (auto simp: tail_matches_def t nth_append)
next
  assume m: "tail_matches t"
  have t: "t = take 8 t @ [t ! 8] @ [CR, LF] @ drop 11 t"
  proof -
    from m have l: "11 \<le> length t" by (simp add: tail_matches_def)
    have "t = take 8 t @ t ! 8 # t ! 9 # t ! 10 # drop 11 t"
      using l Cons_nth_drop_Suc [of 8 t] Cons_nth_drop_Suc [of 9 t] Cons_nth_drop_Suc [of 10 t]
        append_take_drop_id [of 8 t] by auto
    then show ?thesis using m by (simp add: tail_matches_def)
  qed
  have a: "take 8 t \<in> lang (Lit '' HTTP/1.'')"
    using m by (simp only: tail_matches_def lang_Lit map_tolower_lits)
  have d: "[t ! 8] \<in> lang (OneOf ''01'')" using m by (simp add: tail_matches_def)
  have r: "drop 11 t \<in> lang (Star (Seq (Star Any) (Lit [CR, LF])))"
    using m by (simp only: lang_lines tail_matches_def)
  have c: "[CR, LF] \<in> lang (Lit [CR, LF])" by (simp only: lang_crlf)
  show "t \<in> lang rx_tail"
    unfolding rx_tail_def lang.simps(5)
    by (subst t) (use a d r c in blast)
qed

lemma last_split_Some:
  "last_split b n = Some k \<longleftrightarrow> k \<le> n \<and> tail_matches (drop k b) \<and> (\<forall>j\<le>n. tail_matches (drop j b) \<longrightarrow> j \<le> k)"
proof (induction n)
  case (Suc n)
  then show ?case by (auto simp: le_Suc_eq)
qed auto

lemma last_split_None: "last_split b n = None \<longleftrightarrow> (\<forall>j\<le>n. \<not> tail_matches (drop j b))"
  by (induction n) (auto simp: le_Suc_eq)

lemma rx_match_iff:
  "rx_match h m p \<longleftrightarrow> map tolower (take 4 h) = ''get '' \<and> m = take 3 h \<and>
     p = take (length p) (drop 4 h) \<and> tail_matches (drop (length p) (drop 4 h))" (is "_ \<longleftrightarrow> ?R")
proof
  assume "rx_match h m p"
  then obtain sp t where h0: "h = m @ sp @ p @ t" and m: "map tolower m = ''get''"
    and sp: "sp \<in> lang (Chr (CHR '' ''))" and t: "tail_matches t"
    unfolding rx_match_def rx_method_def lang_Lit map_tolower_lits tail_matches_lang by metis
  from sp obtain d where "sp = [d]" and d: "tolower d = CHR '' ''" by auto
  with h0 have h: "h = m @ [d] @ p @ t" by simp
  have lm: "length m = 3" using m by (metis length_map length_http(2))
  have "take 4 h = m @ [d]" and "take 3 h = m" and "drop 4 h = p @ t"
    using lm by (simp_all add: h)
  moreover have "map tolower (m @ [d]) = ''get ''" using m d by simp
  ultimately show ?R using t by simp
next
  assume R: ?R
  then have "length (map tolower (take 4 h)) = 4" by (metis length_http(3))
  then have l: "4 \<le> length h" by simp
  have h4: "take 4 h = take 3 h @ [h ! 3]"
    using l take_Suc_conv_app_nth [of 3 h] by (simp add: numeral_eq_Suc)
  have "h = take 4 h @ drop 4 h" by simp
  also have "drop 4 h = p @ drop (length p) (drop 4 h)"
    using R by (metis append_take_drop_id)
  finally have "h = m @ [h ! 3] @ p @ drop (length p) (drop 4 h)"
    using R h4 by simp
  moreover have "m \<in> lang rx_method" and "[h ! 3] \<in> lang (Chr (CHR '' ''))"
    using R h4 by (simp_all only: rx_method_def lang_Lit map_tolower_lits lang.simps) auto
  ultimately show "rx_match h m p"
    unfolding rx_match_def rx_page_def using R tail_matches_lang lang_dots by blast
qed

lemma regexec_request_posix:
  "regexec_request h = Some (m, p) \<longleftrightarrow> posix_match h m p"
proof -
  let ?b = "drop 4 h" and ?n = "length h - 4"
  have le: "length q \<le> ?n" if "q = take (length q) ?b" for q
    using that by (metis length_drop length_take min.cobounded1)
  show ?thesis
  proof
    assume "regexec_request h = Some (m, p)"
    then obtain k where g: "map tolower (take 4 h) = ''get ''" and k: "last_split ?b ?n = Some k"
      and mp: "m = take 3 h" "p = take k ?b"
      by (auto simp only: regexec_request_def split: if_splits)
    from k have kn: "k \<le> ?n" and tm: "tail_matches (drop k ?b)"
      and mx: "\<And>j. j \<le> ?n \<Longrightarrow> tail_matches (drop j ?b) \<Longrightarrow> j \<le> k"
      by (auto simp only: last_split_Some)
    have lp: "length p = k" using mp kn by simp
    then have "rx_match h m p" using g mp tm by (simp only: rx_match_iff)
    moreover have "length p' \<le> length p" if "rx_match h m' p'" for m' p'
      using that le mx lp by (metis rx_match_iff)
    ultimately show "posix_match h m p" by (auto simp only: posix_match_def)
  next
    assume pm: "posix_match h m p"
    then have R: "map tolower (take 4 h) = ''get ''" "m = take 3 h" "p = take (length p) ?b"
      "tail_matches (drop (length p) ?b)"
      by (simp_all only: posix_match_def rx_match_iff)
    have "j \<le> length p" if "j \<le> ?n" "tail_matches (drop j ?b)" for j
    proof -
      have lj: "length (take j ?b) = j" using that(1) by simp
      then have "rx_match h m (take j ?b)" using R that(2) by (simp only: rx_match_iff)
      with pm lj show ?thesis by (metis posix_match_def)
    qed
    then have "last_split ?b ?n = Some (length p)"
      using R(3,4) le by (auto simp only: last_split_Some)
    then show "regexec_request h = Some (m, p)"
      using R(1,2) R(3) [symmetric] by (simp add: regexec_request_def)
  qed
qed

subsection \<open>Requests as clients write them\<close>

text \<open>A request line, followed by header lines or nothing.\<close>

definition request_text :: "string \<Rightarrow> string \<Rightarrow> string" where
  "request_text p hdrs = ''GET '' @ p @ '' HTTP/1.0'' @ [CR, LF] @ hdrs"

definition plain_headers :: "string \<Rightarrow> bool" where
  "plain_headers hdrs \<longleftrightarrow> (hdrs = [] \<or> suffix [CR, LF] hdrs) \<and>
     (\<forall>k\<le>length hdrs. map tolower (take 8 (drop k hdrs)) \<noteq> '' http/1.'')"

lemma tail_matches_hd: "tail_matches t \<Longrightarrow> t \<noteq> [] \<and> hd t = CHR '' ''"
proof -
  assume m: "tail_matches t"
  then obtain c t' where t: "t = c # t'" by (cases t) (auto simp: tail_matches_def)
  with m have "tolower c = CHR '' ''" by (simp add: tail_matches_def)
  then have "c = CHR '' ''"
    by (auto simp: tolower_def of_char_of split: if_splits
        dest: arg_cong [where f = "of_char :: char \<Rightarrow> nat"])
  with t show ?thesis by simp
qed

lemma tail_of_request:
  assumes "plain_headers hdrs"
  shows "tail_matches ('' HTTP/1.0'' @ [CR, LF] @ hdrs)"
    and "0 < k \<Longrightarrow> k \<le> 11 + length hdrs \<Longrightarrow> \<not> tail_matches (drop k ('' HTTP/1.0'' @ [CR, LF] @ hdrs))"
proof -
  show "tail_matches ('' HTTP/1.0'' @ [CR, LF] @ hdrs)"
    using assms by (auto simp: tail_matches_def plain_headers_def)
next
  assume k: "0 < k" "k \<le> 11 + length hdrs"
  show "\<not> tail_matches (drop k ('' HTTP/1.0'' @ [CR, LF] @ hdrs))"
  proof (cases "k < 11")
    case True
    then have "k \<in> set [1..<11]" using k by simp
    moreover have "[1..<11] = [1,2,3,4,5,6,7,8,9,10::nat]" by code_simp
    ultimately have "k \<in> set [1,2,3,4,5,6,7,8,9,10]" by (simp only:)
    then show ?thesis by (auto dest!: tail_matches_hd)
  next
    case False
    have "drop k (('' HTTP/1.0'' @ [CR, LF]) @ hdrs) = drop (k - 11) hdrs"
      unfolding drop_append using False by (simp add: numeral_eq_Suc)
    then have d: "drop k ('' HTTP/1.0'' @ [CR, LF] @ hdrs) = drop (k - 11) hdrs" by simp
    have "k - 11 \<le> length hdrs" using k by simp
    then have "map tolower (take 8 (drop (k - 11) hdrs)) \<noteq> '' http/1.''"
      using assms by (auto simp only: plain_headers_def)
    then show ?thesis unfolding d tail_matches_def by blast
  qed
qed

lemma regexec_request_text:
  assumes "plain_headers hdrs"
  shows "regexec_request (request_text p hdrs) = Some (''GET'', p)"
proof -
  let ?t = "'' HTTP/1.0'' @ [CR, LF] @ hdrs"
  have b: "drop 4 (request_text p hdrs) = p @ ?t" by (simp add: request_text_def)
  have n: "length (request_text p hdrs) - 4 = length p + (11 + length hdrs)"
    by (simp add: request_text_def)
  have "last_split (p @ ?t) (length p + (11 + length hdrs)) = Some (length p)"
    unfolding last_split_Some
  proof (intro conjI allI impI)
    show "tail_matches (drop (length p) (p @ ?t))"
      using tail_of_request(1) [OF assms] by simp
    fix j assume "j \<le> length p + (11 + length hdrs)" "tail_matches (drop j (p @ ?t))"
    then show "j \<le> length p"
      using tail_of_request(2) [OF assms, of "j - length p"] by (intro leI) auto
  qed simp
  moreover have "map tolower (take 4 (request_text p hdrs)) = ''get ''"
    by (simp add: request_text_def)
  ultimately show ?thesis
    unfolding regexec_request_def b n by (simp add: request_text_def)
qed

section \<open>The parsed request\<close>

text \<open>The states of a request; the last three are used by \<open>amped_server\<close> only.\<close>

datatype status =
    STATUS_REQUEST_START
  | STATUS_REQUEST_FINISH
  | STATUS_FILE_FOUND
  | STATUS_HEADER_WRITTEN
  | STATUS_DATA_WRITING
  | STATUS_CGI_FILE_FOUND
  | STATUS_CGI_PROC_RUNNING
  | STATUS_CGI_RESPONSE_WRITING
  | STATUS_MAP_REQUESTED
  | STATUS_MAP_DONE
  | STATUS_WAITLISTED

abbreviation MAX_LINE :: nat where "MAX_LINE \<equiv> 1024"

record parsed_request =
  page :: string
  status :: status
  fp :: "stream option"
  response_size :: int
  cgi_command :: string
  cgi_query_str :: string

text \<open>What \<open>memset\<close> to zero makes of it.\<close>

definition zero_request :: parsed_request where
  "zero_request = \<lparr>page = zeros MAX_LINE, status = STATUS_REQUEST_START, fp = None,
     response_size = 0, cgi_command = zeros MAX_LINE, cgi_query_str = zeros MAX_LINE\<rparr>"

section \<open>process\_http\_request\<close>

text \<open>The part after the match: copy both groups, replace the root page.\<close>

definition store_page :: "string \<Rightarrow> string \<Rightarrow> parsed_request \<Rightarrow> (int \<times> parsed_request) res" where
  "store_page m p req =
     rbind (strncpy (zeros MAX_LINE) m (length m)) (\<lambda>_.
     rbind (strncpy (page req) p (length p)) (\<lambda>pg.
     rbind (if strncmp_eq pg ''/'' 2 then strcpy pg ''/index.html'' else Inr pg) (\<lambda>pg'.
     Inr (SUCCESS, req\<lparr>page := pg'\<rparr>))))"

definition process_http_request ::
  "env \<Rightarrow> string \<Rightarrow> parsed_request \<Rightarrow> (int \<times> parsed_request) res" where
  "process_http_request E header req =
     (if \<not> e_regex_ok E then Inr (FAILURE, req)
      else if \<not> terminated header then Inl OverRead
      else case regexec_request (cstr header) of
        None \<Rightarrow> Inr (FAILURE, req)
      | Some (m, p) \<Rightarrow> store_page m p req)"

text \<open>\<open>mt_server\<close> clears \<open>page\<close> before it copies.\<close>

definition mt_process_http_request ::
  "env \<Rightarrow> string \<Rightarrow> parsed_request \<Rightarrow> (int \<times> parsed_request) res" where
  "mt_process_http_request E header req =
     (if \<not> e_regex_ok E then Inr (FAILURE, req)
      else if \<not> terminated header then Inl OverRead
      else case regexec_request (cstr header) of
        None \<Rightarrow> Inr (FAILURE, req)
      | Some (m, p) \<Rightarrow> store_page m p (req\<lparr>page := zeros MAX_LINE\<rparr>))"

text \<open>The page the root is replaced by.\<close>

definition page_of :: "string \<Rightarrow> string" where
  "page_of p = (if p = ''/'' then ''/index.html'' else p)"

lemma length_method: "regexec_request h = Some (m, p) \<Longrightarrow> length m = 3"
proof -
  assume "regexec_request h = Some (m, p)"
  then have "map tolower (take 4 h) = ''get ''" and m: "m = take 3 h"
    by (auto simp: regexec_request_posix posix_match_def rx_match_iff)
  then have "length h \<ge> 4" by (metis length_http(3) length_map length_take min.absorb_iff1 min.commute)
  then show ?thesis using m by simp
qed

lemma regexec_no_nul: "regexec_request h = Some (m, p) \<Longrightarrow> no_nul h \<Longrightarrow> no_nul m \<and> no_nul p"
  by (auto simp: regexec_request_def split: if_splits)

lemma store_page_fits:
  assumes "length m = 3" and "length (page req) = MAX_LINE" and "length p \<le> MAX_LINE"
  shows "\<exists>pg. store_page m p req = Inr (SUCCESS, req\<lparr>page := pg\<rparr>) \<and> length pg = MAX_LINE"
  using assms by (auto simp: store_page_def strncpy_def strcpy_def)

lemma store_page_clear:
  assumes "length m = 3" and "page req = zeros MAX_LINE" and "length p < MAX_LINE" and "no_nul p"
  shows "\<exists>pg. store_page m p req = Inr (SUCCESS, req\<lparr>page := pg\<rparr>) \<and> cstr pg = page_of p
    \<and> length pg = MAX_LINE \<and> terminated pg"
proof -
  have cp: "strncpy (zeros MAX_LINE) p (length p) = Inr (p @ zeros (MAX_LINE - length p))"
    using assms by (intro strncpy_zeros) auto
  have m: "strncpy (zeros MAX_LINE) m (length m) = Inr (blit (zeros MAX_LINE) 0 (strncpy_bytes m (length m)))"
    using assms by (simp add: strncpy_def)
  have root: "strncmp_eq (p @ zeros (MAX_LINE - length p)) ''/'' 2 \<longleftrightarrow> p = ''/''"
  proof -
    have "cstr (p @ zeros (MAX_LINE - length p)) = p" using assms by simp
    then show ?thesis using assms
      by (cases p rule: remdups_adj.cases) (auto simp: strncmp_eq_def)
  qed
  show ?thesis
  proof (cases "p = ''/''")
    case True
    then have "strcpy (p @ zeros (MAX_LINE - length p)) ''/index.html'' = Inr (''/index.html'' @ zeros 1013)"
      by (simp add: strcpy_def blit_def flip: replicate_Suc)
    then show ?thesis using True root cp m assms
      by (intro exI [of _ "''/index.html'' @ zeros 1013"]) (simp add: store_page_def page_of_def)
  next
    case False
    then show ?thesis using root cp m assms
      by (auto simp: store_page_def page_of_def)
  qed
qed

lemma store_page_overflow:
  assumes "length m = 3" and "length (page req) = MAX_LINE" and "MAX_LINE < length p"
  shows "store_page m p req = Inl BufferOverflow"
  using assms by (simp add: store_page_def strncpy_def)

end
