(* ===== verification/Http_Response.thy ===== *)
theory Http_Response
  imports Http_Request
begin

text \<open>
  The response side of HTTP: \<open>write_http_response_header\<close>, \<open>_data\<close> and \<open>_error\<close> of
  \<open>web_server/common.c\<close> (the same file in the three servers), the MIME table, the path of
  a page, the split of a CGI request at its question mark, \<open>run_cgi_file\<close>, and the message
  that asks the FastCGI server to run an application.
\<close>

abbreviation READ_CHUNK_SIZE :: nat where "READ_CHUNK_SIZE \<equiv> 1024"

section \<open>Responses\<close>

definition http_header :: "env \<Rightarrow> string \<Rightarrow> int \<Rightarrow> int \<Rightarrow> string \<Rightarrow> string" where
  "http_header E type len code code_str =
     ''HTTP/1.0 '' @ show_int code @ '' '' @ code_str @ [LF]
     @ ''Date: '' @ (if length (e_date E) < 128 then e_date E else []) @ [LF]
     @ ''Content-type: '' @ type @ [LF]
     @ ''Content-length: '' @ show_int len @ [LF, LF]"

definition write_http_response_header ::
  "env \<Rightarrow> fd \<Rightarrow> string \<Rightarrow> int \<Rightarrow> int \<Rightarrow> string \<Rightarrow> world \<Rightarrow> (int \<times> world) res" where
  "write_http_response_header E d type len code code_str w =
     (let h = http_header E type len code code_str in
      if length h < 1024 then Inr (SUCCESS, snd (send d h w)) else Inl BufferOverflow)"

definition write_http_response_data :: "fd \<Rightarrow> string \<Rightarrow> world \<Rightarrow> int \<times> world" where
  "write_http_response_data d bs w = (SUCCESS, snd (send d bs w))"

definition write_http_response_error :: "env \<Rightarrow> int \<Rightarrow> fd \<Rightarrow> world \<Rightarrow> (int \<times> world) res" where
  "write_http_response_error E err_code d w =
     (let (err_header, err_output) =
        (if err_code = 404 then (''Not found'', ''Page Not Found'')
         else (''Internal Server Error'', ''Internal Server Error''));
        len = int (length err_output) in
      rbind (write_http_response_header E d ''text/plain'' len err_code err_header w) (\<lambda>(_, w').
      Inr (SUCCESS, snd (write_http_response_data d err_output w'))))"

text \<open>Every header the servers write fits the 1024-byte buffer it is printed into.\<close>

lemma http_header_fits:
  assumes "int_range len" and "int_range code" and "length code_str \<le> 21" and "length type \<le> 16"
  shows "length (http_header E type len code code_str) < 1024"
  using assms length_show_int_le [of len] length_show_int_le [of code]
  by (simp add: http_header_def)

lemma write_header_ok:
  assumes "int_range len" and "int_range code" and "length code_str \<le> 21" and "length type \<le> 16"
  shows "write_http_response_header E d type len code code_str w =
    Inr (SUCCESS, snd (send d (http_header E type len code code_str) w))"
  using http_header_fits [OF assms, of E] by (simp add: write_http_response_header_def Let_def)

text \<open>The whole text of an error response.\<close>

definition error_text :: "env \<Rightarrow> int \<Rightarrow> string" where
  "error_text E code = (if code = 404
     then http_header E ''text/plain'' 14 404 ''Not found'' @ ''Page Not Found''
     else http_header E ''text/plain'' 21 code ''Internal Server Error'' @ ''Internal Server Error'')"

definition error_world :: "env \<Rightarrow> int \<Rightarrow> fd \<Rightarrow> world \<Rightarrow> world" where
  "error_world E code d w = (if code = 404
     then snd (send d ''Page Not Found'' (snd (send d (http_header E ''text/plain'' 14 404 ''Not found'') w)))
     else snd (send d ''Internal Server Error''
       (snd (send d (http_header E ''text/plain'' 21 code ''Internal Server Error'') w))))"

lemma write_error_ok:
  "int_range code \<Longrightarrow> write_http_response_error E code d w = Inr (SUCCESS, error_world E code d w)"
  by (simp add: write_http_response_error_def error_world_def write_header_ok int_range_def
      write_http_response_data_def)

lemma error_world_frame [simp]:
  "w_interest (error_world E code d w) = w_interest w"
  "w_closed (error_world E code d w) = w_closed w"
  "w_open (error_world E code d w) = w_open w"
  "w_streams (error_world E code d w) = w_streams w"
  "w_socks (error_world E code d w) = w_socks w"
  by (simp_all add: error_world_def)

lemma error_world_sent:
  "w_send_rets w = [] \<Longrightarrow> error_world E code d w =
     w\<lparr>w_sent := (w_sent w)(d := w_sent w d @ error_text E code)\<rparr>"
  by (auto simp: error_world_def error_text_def send_full)

section \<open>MIME types\<close>

definition get_file_type :: "string \<Rightarrow> string res" where
  "get_file_type name =
     (if \<not> terminated name then Inl OverRead
      else Inr
       (if strstr name ''.html'' \<noteq> None then ''text/html''
        else if strstr name ''.jpg'' \<noteq> None then ''image/jpg''
        else if strstr name ''.gif'' \<noteq> None then ''image/gif''
        else if strstr name ''.js'' \<noteq> None then ''text/javascript'' @ [LF]
        else if strstr name ''.css'' \<noteq> None then ''text/css''
        else ''text/plain''))"

lemma get_file_type_length: "get_file_type name = Inr ty \<Longrightarrow> length ty \<le> 16"
  by (auto simp: get_file_type_def split: if_splits)

text \<open>The type depends on the string only, not on what follows it in its array.\<close>

lemma get_file_type_cstr: "terminated a \<Longrightarrow> get_file_type (cstr a @ [NUL]) = get_file_type a"
proof -
  assume t: "terminated a"
  have s: "strstr (cstr a @ [NUL]) n = strstr a n" for n by (simp add: strstr_def)
  show ?thesis unfolding get_file_type_def s using t by simp
qed

section \<open>Paths and CGI requests\<close>

abbreviation WWW_PATH :: string where "WWW_PATH \<equiv> ''www''"

text \<open>\<open>strcpy (file_path, WWW_PATH); strncat (file_path, page, MAX_LINE - 5);\<close>\<close>

definition make_file_path :: "string \<Rightarrow> string res" where
  "make_file_path pg =
     rbind (strcpy (zeros MAX_LINE) WWW_PATH) (\<lambda>fpath. strncat fpath pg (MAX_LINE - 5))"

lemma make_file_path_ok:
  "\<exists>z. make_file_path pg = Inr ((WWW_PATH @ take 1019 (cstr pg)) @ zeros (Suc z))
       \<and> 3 + length (take 1019 (cstr pg)) + Suc z = MAX_LINE"
proof -
  let ?s = "take 1019 (cstr pg)"
  have c: "strcpy (zeros MAX_LINE) WWW_PATH = Inr (WWW_PATH @ zeros 1021)"
    by (simp add: strcpy_def blit_def flip: replicate_Suc)
  have s: "length ?s \<le> 1019" by simp
  have "blit (WWW_PATH @ zeros 1021) 3 (?s @ [NUL]) = (WWW_PATH @ ?s @ [NUL]) @ zeros (1021 - length (?s @ [NUL]))"
    using s by (subst blit_append) (simp_all del: length_take)
  also have "\<dots> = (WWW_PATH @ ?s) @ zeros (Suc (1020 - length ?s))"
    using s by simp
  finally have "strncat (WWW_PATH @ zeros 1021) pg 1019 = Inr ((WWW_PATH @ ?s) @ zeros (Suc (1020 - length ?s)))"
    using s by (simp add: strncat_def Let_def numeral_3_eq_3)
  with c s show ?thesis
    by (intro exI [of _ "1020 - length ?s"]) (simp add: make_file_path_def)
qed

text \<open>The program and the query of a path: what precedes and follows the first \<^verbatim>\<open>?\<close>.\<close>

definition split_query :: "string \<Rightarrow> string \<times> string" where
  "split_query s =
     (case strchr s (CHR ''?'') of
        None \<Rightarrow> (cstr s, [])
      | Some i \<Rightarrow> (take i (cstr s), drop (Suc i) (cstr s)))"

lemma split_query_text: "no_nul c \<Longrightarrow> no_nul q \<Longrightarrow> CHR ''?'' \<notin> set c \<Longrightarrow>
  split_query (c @ CHR ''?'' # q) = (c, q)"
  by (simp add: split_query_def strchr_def find_char_split)

lemma split_query_length:
  "split_query s = (c, q) \<Longrightarrow> length c + length q \<le> length (cstr s)"
  by (auto simp: split_query_def strchr_def split: option.splits dest: find_char_Some [THEN iffD1])

lemma split_query_no_nul: "split_query s = (c, q) \<Longrightarrow> no_nul c \<and> no_nul q"
  by (auto simp: split_query_def split: option.splits)

text \<open>
  \<open>run_cgi_file\<close>: the shell runs the program with the query in its environment; its
  standard output is read from a pipe. The query is printed into a 1024-byte buffer.
\<close>

definition cgi_argv :: "string \<Rightarrow> string list" where
  "cgi_argv command = [''/bin/sh'', ''-c'', command]"

definition cgi_envp :: "string \<Rightarrow> string list" where
  "cgi_envp query_str =
     [''SERVER_SOFTWARE=ssuman_web_server'', ''SERVER_NAME=ssuman_18845.com'',
      ''GATEWAY_INTERFACE=CGI/1.0'', ''SERVER_PROTOCOL=HTTP/1.0'', ''REQUEST_METHOD=GET'',
      ''QUERY_STRING='' @ query_str]"

definition run_cgi_file :: "env \<Rightarrow> string \<Rightarrow> string \<Rightarrow> world \<Rightarrow> (stream option \<times> world) res" where
  "run_cgi_file E command query_str w =
     (if MAX_LINE \<le> length (''QUERY_STRING='' @ query_str) then Inl BufferOverflow
      else case e_exec E (cgi_argv command) (cgi_envp query_str) of
        None \<Rightarrow> Inr (None, w)
      | Some f \<Rightarrow> Inr (Some (open_stream f), w\<lparr>w_streams := w_streams w + 1\<rparr>))"

section \<open>The request to the FastCGI server\<close>

text \<open>
  Three characters of length, the application's name, three characters of length, the
  query: \<open>sprintf (request_query, "%3d%s%3d%s", \<dots>)\<close>.
\<close>

definition fcgi_request :: "string \<Rightarrow> string \<Rightarrow> string" where
  "fcgi_request command query_str =
     show_int3 (int (length command)) @ command @ show_int3 (int (length query_str)) @ query_str"

definition print_fcgi_request :: "string \<Rightarrow> string \<Rightarrow> string res" where
  "print_fcgi_request command query_str =
     (let s = fcgi_request command query_str in
      if length s < MAX_LINE then Inr s else Inl BufferOverflow)"

lemma length_show_int3_le: "0 \<le> i \<Longrightarrow> i < 10000 \<Longrightarrow> length (show_int3 i) \<le> 4"
  using length_show_nat_le [of "nat i" 4] by (simp add: show_int3_def show_int_def nat_less_iff)

lemma print_fcgi_request_ok:
  assumes "length command + length query_str \<le> 1010"
  shows "print_fcgi_request command query_str = Inr (fcgi_request command query_str)"
proof -
  have "length (show_int3 (int (length command))) \<le> 4" "length (show_int3 (int (length query_str))) \<le> 4"
    using assms by (simp_all add: length_show_int3_le)
  then have "length (fcgi_request command query_str) < MAX_LINE"
    using assms by (simp add: fcgi_request_def)
  then show ?thesis by (simp add: print_fcgi_request_def)
qed

text \<open>The loop that copies the FastCGI server's reply to the client until \<open>read\<close> returns
  nothing more; the socket is closed at the end.\<close>

fun fcgi_forward :: "fd \<Rightarrow> string list \<Rightarrow> world \<Rightarrow> world" where
  "fcgi_forward d [] w = w\<lparr>w_socks := w_socks w - 1\<rparr>"
| "fcgi_forward d (c # cs) w =
     (if c = [] then w\<lparr>w_socks := w_socks w - 1\<rparr>
      else fcgi_forward d cs (snd (write_http_response_data d (take READ_CHUNK_SIZE c) w)))"

lemma fcgi_forward_frame [simp]:
  "w_interest (fcgi_forward d cs w) = w_interest w"
  "w_closed (fcgi_forward d cs w) = w_closed w"
  "w_open (fcgi_forward d cs w) = w_open w"
  "w_streams (fcgi_forward d cs w) = w_streams w"
  "w_socks (fcgi_forward d cs w) = w_socks w - 1"
  by (induction d cs w rule: fcgi_forward.induct) (simp_all add: write_http_response_data_def)

lemma fcgi_forward_sent:
  assumes "w_send_rets w = []" and "\<forall>c\<in>set cs. c \<noteq> [] \<and> length c \<le> READ_CHUNK_SIZE"
  shows "fcgi_forward d cs w =
    w\<lparr>w_sent := (w_sent w)(d := w_sent w d @ concat cs), w_socks := w_socks w - 1\<rparr>"
  using assms
proof (induction cs arbitrary: w)
  case (Cons c cs)
  then show ?case by (simp add: write_http_response_data_def send_full fun_upd_def cong: if_cong)
qed simp

end
