(* ===== verification/Ed_Epoll.thy ===== *)
theory Ed_Epoll
  imports Http_Response
begin

text \<open>
  The event layer of the event-driven servers, \<open>ed_epoll_event.c\<close> and \<open>ed_epoll_event.h\<close>:
  the client table, the epoll object, and its operations \<open>setnonblock\<close>, \<open>ed_epoll_init\<close>,
  \<open>ed_epoll_add\<close>, \<open>ed_epoll_set\<close> and \<open>ed_epoll_del\<close>. The operations are the same code in
  \<open>web_server\<close> and \<open>amped_server\<close>, whose structs add fields at the end; they are defined on
  extensible records, so that both servers use one definition.
\<close>

section \<open>The structs\<close>

datatype cb = Ed_accept_callback | Ed_socket_callback | Ed_reader_callback

text \<open>
  The \<open>void *data\<close> registered with a descriptor: null, the \<open>page\<close> array of the client of a
  descriptor, or a local array (with the string it held when its address was taken).
\<close>

datatype ptr = Null | Page fd | Stack string

abbreviation REQUEST_SIZE :: nat where "REQUEST_SIZE \<equiv> 4096"
abbreviation BUF_SIZE_PER_READ :: nat where "BUF_SIZE_PER_READ \<equiv> 1024"
abbreviation MAX_ED_EVENTS :: int where "MAX_ED_EVENTS \<equiv> 65535"

record ed_client =
  callback :: "cb option"
  data :: ptr
  client_fd :: fd
  buffer :: string
  buf_len :: int
  buf_parsed_len :: int
  http_req :: parsed_request

record 'c ed_epoll =
  maxfds :: int
  epoll_fd :: fd
  listener_fd :: fd
  ed_clients :: "fd \<Rightarrow> 'c"
  fds_used :: int

text \<open>\<open>client->http_req\<close> of a descriptor, and an assignment to its fields.\<close>

definition req_of :: "('a ed_client_scheme, 'b) ed_epoll_scheme \<Rightarrow> fd \<Rightarrow> parsed_request" where
  "req_of ep d = http_req (ed_clients ep d)"

definition upd_client :: "fd \<Rightarrow> ('c \<Rightarrow> 'c) \<Rightarrow> ('c, 'b) ed_epoll_scheme \<Rightarrow> ('c, 'b) ed_epoll_scheme" where
  "upd_client d f ep = ep\<lparr>ed_clients := (ed_clients ep)(d := f (ed_clients ep d))\<rparr>"

definition upd_req :: "fd \<Rightarrow> (parsed_request \<Rightarrow> parsed_request) \<Rightarrow>
    ('a ed_client_scheme, 'b) ed_epoll_scheme \<Rightarrow> ('a ed_client_scheme, 'b) ed_epoll_scheme" where
  "upd_req d f ep = upd_client d (\<lambda>c. c\<lparr>http_req := f (http_req c)\<rparr>) ep"

lemma upd_client_simps [simp]:
  "maxfds (upd_client d f ep) = maxfds ep" "fds_used (upd_client d f ep) = fds_used ep"
  "ed_clients (upd_client d f ep) = (ed_clients ep)(d := f (ed_clients ep d))"
  by (simp_all add: upd_client_def)

lemma upd_req_simps [simp]:
  "maxfds (upd_req d f ep) = maxfds ep" "fds_used (upd_req d f ep) = fds_used ep"
  "req_of (upd_req d f ep) d' = (if d' = d then f (req_of ep d) else req_of ep d')"
  by (simp_all add: upd_req_def req_of_def)

lemma upd_req_client [simp]:
  "callback (ed_clients (upd_req d f ep) d') = callback (ed_clients ep d')"
  "data (ed_clients (upd_req d f ep) d') = data (ed_clients ep d')"
  "client_fd (ed_clients (upd_req d f ep) d') = client_fd (ed_clients ep d')"
  "buffer (ed_clients (upd_req d f ep) d') = buffer (ed_clients ep d')"
  "buf_len (ed_clients (upd_req d f ep) d') = buf_len (ed_clients ep d')"
  by (simp_all add: upd_req_def)

lemma upd_req_upd_req [simp]: "upd_req d g (upd_req d f ep) = upd_req d (\<lambda>r. g (f r)) ep"
  by (simp add: upd_req_def upd_client_def)

section \<open>Operations\<close>

text \<open>\<open>setnonblock\<close>: read the flags, write them back with \<open>O_NONBLOCK\<close>.\<close>

definition setnonblock :: "env \<Rightarrow> fd \<Rightarrow> int" where
  "setnonblock E d =
     (if e_fcntl_get E d < 0 then e_fcntl_get E d
      else if e_fcntl_set E d < 0 then -1 else 0)"

text \<open>The fields that \<open>ed_epoll_init\<close> and \<open>ed_epoll_del\<close> reset.\<close>

definition clear_client :: "'a ed_client_scheme \<Rightarrow> 'a ed_client_scheme" where
  "clear_client c = c\<lparr>callback := None, data := Null, buffer := zeros REQUEST_SIZE,
     buf_len := 0, buf_parsed_len := 0, http_req := zero_request\<rparr>"

abbreviation ENOMEM :: int where "ENOMEM \<equiv> 12"

text \<open>
  \<open>ed_epoll_init\<close>: \<open>mem\<close> is what \<open>malloc\<close> returned for the client table (its contents are
  arbitrary), \<open>efd\<close> what \<open>epoll_create\<close> returned, and \<open>ev_mem\<close> whether the allocation of
  the event array succeeded.
\<close>

definition ed_epoll_init :: "env \<Rightarrow> (fd \<Rightarrow> 'a ed_client_scheme) option \<Rightarrow> fd \<Rightarrow> bool \<Rightarrow>
    ('a ed_client_scheme, 'b) ed_epoll_scheme \<Rightarrow> int \<Rightarrow>
    int \<times> ('a ed_client_scheme, 'b) ed_epoll_scheme" where
  "ed_epoll_init E mem efd ev_mem ep maxf =
     (let ep1 = ep\<lparr>maxfds := maxf, fds_used := 0\<rparr> in
      case mem of
        None \<Rightarrow> (ENOMEM, ep1)
      | Some cs \<Rightarrow>
          (let ep2 = ep1\<lparr>ed_clients := (\<lambda>i. if 0 \<le> i \<and> i < maxf then clear_client (cs i) else cs i),
                         epoll_fd := efd\<rparr> in
           if efd = -1 then (e_errno E, ep2)
           else if \<not> ev_mem then (ENOMEM, ep2) else (0, ep2)))"

definition ed_epoll_add :: "env \<Rightarrow> fd \<Rightarrow> cb \<Rightarrow> ptr \<Rightarrow>
    ('a ed_client_scheme, 'b) ed_epoll_scheme \<Rightarrow> world \<Rightarrow>
    int \<times> ('a ed_client_scheme, 'b) ed_epoll_scheme \<times> world" where
  "ed_epoll_add E d call dat ep w =
     (if maxfds ep \<le> d then (FAILURE, ep, w)
      else
        let (ok, w') = epoll_ctl E EPOLL_CTL_ADD d {EPOLLIN, EPOLLOUT, EPOLLERR, EPOLLHUP, EPOLLRDHUP} w in
        if \<not> ok then (e_errno E, ep, w')
        else (SUCCESS,
              upd_client d (\<lambda>c. c\<lparr>callback := Some call, data := dat, client_fd := d\<rparr>)
                (ep\<lparr>fds_used := fds_used ep + 1\<rparr>), w'))"

definition ed_epoll_set :: "env \<Rightarrow> fd \<Rightarrow> events \<Rightarrow> ptr \<Rightarrow>
    ('a ed_client_scheme, 'b) ed_epoll_scheme \<Rightarrow> world \<Rightarrow>
    int \<times> ('a ed_client_scheme, 'b) ed_epoll_scheme \<times> world" where
  "ed_epoll_set E d eventcode dat ep w =
     (let (ok, w') = epoll_ctl E EPOLL_CTL_MOD d (eventcode \<union> {EPOLLERR, EPOLLHUP, EPOLLRDHUP}) w in
      if \<not> ok then (FAILURE, ep, w')
      else (SUCCESS, upd_client d (\<lambda>c. c\<lparr>data := dat\<rparr>) ep, w'))"

definition ed_epoll_del :: "env \<Rightarrow> fd \<Rightarrow>
    ('a ed_client_scheme, 'b) ed_epoll_scheme \<Rightarrow> world \<Rightarrow>
    int \<times> ('a ed_client_scheme, 'b) ed_epoll_scheme \<times> world" where
  "ed_epoll_del E d ep w =
     (let (ok, w') = epoll_ctl E EPOLL_CTL_DEL d {} w in
      if \<not> ok then (FAILURE, ep, w')
      else (SUCCESS,
            upd_client d (\<lambda>c. (clear_client c)\<lparr>client_fd := 0\<rparr>)
              (ep\<lparr>fds_used := fds_used ep - 1\<rparr>), w'))"

text \<open>\<open>ed_epoll_del\<close> and \<open>close_socket\<close>, as the callbacks use them together.\<close>

definition drop_conn :: "env \<Rightarrow> fd \<Rightarrow> ('a ed_client_scheme, 'b) ed_epoll_scheme \<Rightarrow> world \<Rightarrow>
    ('a ed_client_scheme, 'b) ed_epoll_scheme \<times> world" where
  "drop_conn E d ep w = (let (_, ep', w') = ed_epoll_del E d ep w in (ep', sys_close d w'))"

section \<open>Behaviour of the operations\<close>

lemma setnonblock_ok: "setnonblock E d < 0 \<longleftrightarrow> e_fcntl_get E d < 0 \<or> e_fcntl_set E d < 0"
  by (simp add: setnonblock_def)

lemma ed_epoll_add_ok [step_simps]:
  "d < maxfds ep \<Longrightarrow> e_epoll_ok E EPOLL_CTL_ADD d \<Longrightarrow> w_interest w d = None \<Longrightarrow>
   ed_epoll_add E d call dat ep w =
     (0, upd_client d (\<lambda>c. c\<lparr>callback := Some call, data := dat, client_fd := d\<rparr>)
           (ep\<lparr>fds_used := fds_used ep + 1\<rparr>),
      w\<lparr>w_interest := (w_interest w)(d \<mapsto> {EPOLLIN, EPOLLOUT, EPOLLERR, EPOLLHUP, EPOLLRDHUP})\<rparr>)"
  by (simp add: ed_epoll_add_def epoll_ctl_def)

lemma ed_epoll_add_cases:
  obtains (fail) "d \<ge> maxfds ep \<or> \<not> e_epoll_ok E EPOLL_CTL_ADD d \<or> w_interest w d \<noteq> None"
      and "snd (ed_epoll_add E d call dat ep w) = (ep, w)"
  | (ok) "d < maxfds ep" "e_epoll_ok E EPOLL_CTL_ADD d" "w_interest w d = None"
proof (cases "d \<ge> maxfds ep \<or> \<not> e_epoll_ok E EPOLL_CTL_ADD d \<or> w_interest w d \<noteq> None")
  case True
  then have "snd (ed_epoll_add E d call dat ep w) = (ep, w)"
    by (auto simp: ed_epoll_add_def epoll_ctl_def)
  with True fail show ?thesis by blast
next
  case False
  with ok show ?thesis by simp
qed

lemma ed_epoll_set_ok [step_simps]:
  "e_epoll_ok E EPOLL_CTL_MOD d \<Longrightarrow> w_interest w d \<noteq> None \<Longrightarrow>
   ed_epoll_set E d evs dat ep w =
     (0, upd_client d (\<lambda>c. c\<lparr>data := dat\<rparr>) ep,
      w\<lparr>w_interest := (w_interest w)(d \<mapsto> evs \<union> {EPOLLERR, EPOLLHUP, EPOLLRDHUP})\<rparr>)"
  by (simp add: ed_epoll_set_def epoll_ctl_def)

lemma ed_epoll_set_fail [step_simps]:
  "\<not> e_epoll_ok E EPOLL_CTL_MOD d \<or> w_interest w d = None \<Longrightarrow>
   ed_epoll_set E d evs dat ep w = (- 1, ep, w)"
  by (auto simp: ed_epoll_set_def epoll_ctl_def)

lemma ed_epoll_del_ok [step_simps]:
  "w_interest w d \<noteq> None \<Longrightarrow>
   ed_epoll_del E d ep w =
     (0, upd_client d (\<lambda>c. (clear_client c)\<lparr>client_fd := 0\<rparr>) (ep\<lparr>fds_used := fds_used ep - 1\<rparr>),
      w\<lparr>w_interest := (w_interest w)(d := None)\<rparr>)"
  by (simp add: ed_epoll_del_def epoll_ctl_def)

lemma clear_client_simps [simp]:
  "callback (clear_client c) = None" "data (clear_client c) = Null"
  "buffer (clear_client c) = zeros REQUEST_SIZE" "buf_len (clear_client c) = 0"
  "http_req (clear_client c) = zero_request" "client_fd (clear_client c) = client_fd c"
  by (simp_all add: clear_client_def)

section \<open>The invariant of the client table\<close>

text \<open>
  A well-formed client: the arrays have their sizes, the fill level is within the buffer, and
  a stream is there in every state that reads one.
\<close>

definition req_ok :: "parsed_request \<Rightarrow> bool" where
  "req_ok r \<longleftrightarrow> length (page r) = MAX_LINE
     \<and> length (cgi_command r) = MAX_LINE \<and> length (cgi_query_str r) = MAX_LINE
     \<and> terminated (cgi_command r) \<and> terminated (cgi_query_str r)
     \<and> length (cstr (cgi_query_str r)) \<le> 1010
     \<and> (status r \<in> {STATUS_FILE_FOUND, STATUS_HEADER_WRITTEN, STATUS_DATA_WRITING,
          STATUS_CGI_PROC_RUNNING, STATUS_CGI_RESPONSE_WRITING} \<longrightarrow> fp r \<noteq> None)"

definition client_ok :: "'a ed_client_scheme \<Rightarrow> bool" where
  "client_ok c \<longleftrightarrow> length (buffer c) = REQUEST_SIZE \<and> 0 \<le> buf_len c \<and> buf_len c \<le> int REQUEST_SIZE
     \<and> req_ok (http_req c)"

text \<open>The descriptors the epoll object manages: those in the kernel's interest set.\<close>

definition registered :: "world \<Rightarrow> fd set" where
  "registered w = {d. w_interest w d \<noteq> None}"

text \<open>
  The invariant: \<open>fds_used\<close> counts the interest set, all of it inside the table; a
  descriptor has a callback exactly when it is in the interest set, and is then open; every
  client is well-formed; the pointer kept with a connection is null or that connection's own page.
\<close>

definition table_inv :: "('a ed_client_scheme, 'b) ed_epoll_scheme \<Rightarrow> world \<Rightarrow> bool" where
  "table_inv ep w \<longleftrightarrow>
     finite (registered w) \<and> registered w \<subseteq> w_open w \<and> fds_used ep = int (card (registered w))
     \<and> (\<forall>d\<in>registered w. 0 \<le> d \<and> d < maxfds ep)
     \<and> (\<forall>d. 0 \<le> d \<and> d < maxfds ep \<longrightarrow> (callback (ed_clients ep d) \<noteq> None \<longleftrightarrow> d \<in> registered w))
     \<and> (\<forall>d. 0 \<le> d \<and> d < maxfds ep \<longrightarrow> client_ok (ed_clients ep d))
     \<and> (\<forall>d\<in>registered w. callback (ed_clients ep d) = Some Ed_socket_callback \<longrightarrow>
          data (ed_clients ep d) \<in> {Null, Page d})"

lemma client_ok_clear [simp]: "client_ok ((clear_client c)\<lparr>client_fd := n\<rparr>)" "client_ok (clear_client c)"
  by (simp_all add: client_ok_def req_ok_def zero_request_def)

lemma registered_upd [simp]:
  "registered (w\<lparr>w_interest := f\<rparr>) = {d. f d \<noteq> None}"
  by (simp add: registered_def)

lemma table_invD:
  assumes "table_inv ep w"
  shows "finite (registered w)" "fds_used ep = int (card (registered w))"
    "\<And>d. w_interest w d \<noteq> None \<Longrightarrow> 0 \<le> d \<and> d < maxfds ep \<and> d \<in> w_open w"
    "\<And>d. w_interest w d \<noteq> None \<Longrightarrow> callback (ed_clients ep d) \<noteq> None"
    "\<And>d. 0 \<le> d \<Longrightarrow> d < maxfds ep \<Longrightarrow> w_interest w d = None \<Longrightarrow> callback (ed_clients ep d) = None"
    "\<And>d. 0 \<le> d \<Longrightarrow> d < maxfds ep \<Longrightarrow> client_ok (ed_clients ep d)"
    "\<And>d. w_interest w d \<noteq> None \<Longrightarrow> callback (ed_clients ep d) = Some Ed_socket_callback \<Longrightarrow>
      data (ed_clients ep d) \<in> {Null, Page d}"
  using assms by (auto simp: table_inv_def registered_def)

text \<open>The invariant only looks at the interest set of the world.\<close>

lemma table_inv_world: "w_interest w' = w_interest w \<Longrightarrow> w_open w' = w_open w \<Longrightarrow> table_inv ep w' \<longleftrightarrow> table_inv ep w"
  by (simp add: table_inv_def registered_def)

text \<open>Changing one client to a well-formed one that keeps its callback and a safe pointer.\<close>

lemma table_inv_upd_client:
  assumes "table_inv ep w"
    and "callback (f (ed_clients ep d)) = callback (ed_clients ep d)"
    and "client_ok (ed_clients ep d) \<Longrightarrow> client_ok (f (ed_clients ep d))"
    and "data (f (ed_clients ep d)) \<in> {data (ed_clients ep d), Null, Page d}"
  shows "table_inv (upd_client d f ep) w"
  using assms unfolding table_inv_def by auto

lemma table_inv_upd_req:
  assumes "table_inv ep w" and "req_ok (req_of ep d) \<Longrightarrow> req_ok (f (req_of ep d))"
  shows "table_inv (upd_req d f ep) w"
  unfolding upd_req_def using assms
  by (intro table_inv_upd_client) (auto simp: client_ok_def req_of_def)

lemma table_inv_add:
  assumes inv: "table_inv ep w" and d: "0 \<le> d" "d \<in> w_open w"
  shows "table_inv (fst (snd (ed_epoll_add E d call Null ep w))) (snd (snd (ed_epoll_add E d call Null ep w)))"
proof (cases rule: ed_epoll_add_cases [of ep d E w call Null])
  case fail
  then show ?thesis using inv by (simp add: prod_eq_iff)
next
  case ok
  have reg: "registered (w\<lparr>w_interest := (w_interest w)(d \<mapsto> evs)\<rparr>) = insert d (registered w)" for evs
    by (auto simp: registered_def)
  have new: "d \<notin> registered w" using ok by (simp add: registered_def)
  let ?f = "\<lambda>c. c\<lparr>callback := Some call, data := Null, client_fd := d\<rparr>"
  have cl: "client_ok (?f (ed_clients ep d))"
    using table_invD(6) [OF inv d(1) ok(1)] by (simp add: client_ok_def)
  show ?thesis
    using inv new ok d cl
    unfolding ed_epoll_add_ok [OF ok] fst_conv snd_conv table_inv_def reg
    by auto
qed

lemma table_inv_set:
  assumes "table_inv ep w" and "dat \<in> {Null, Page d}"
  shows "table_inv (fst (snd (ed_epoll_set E d evs dat ep w))) (snd (snd (ed_epoll_set E d evs dat ep w)))"
proof (cases "e_epoll_ok E EPOLL_CTL_MOD d \<and> w_interest w d \<noteq> None")
  case True
  let ?w = "w\<lparr>w_interest := (w_interest w)(d \<mapsto> evs \<union> {EPOLLERR, EPOLLHUP, EPOLLRDHUP})\<rparr>"
  have "registered ?w = registered w" using True by (auto simp: registered_def)
  moreover have "table_inv (upd_client d (\<lambda>c. c\<lparr>data := dat\<rparr>) ep) w"
    using assms by (intro table_inv_upd_client) (auto simp: client_ok_def)
  ultimately have "table_inv (upd_client d (\<lambda>c. c\<lparr>data := dat\<rparr>) ep) ?w"
    unfolding table_inv_def by simp
  with True show ?thesis by (simp add: ed_epoll_set_ok)
next
  case False
  then have "ed_epoll_set E d evs dat ep w = (- 1, ep, w)" by (intro ed_epoll_set_fail) blast
  with assms(1) show ?thesis by simp
qed

lemma table_inv_drop:
  assumes inv: "table_inv ep w" and reg: "w_interest w d \<noteq> None"
  shows "table_inv (fst (drop_conn E d ep w)) (snd (drop_conn E d ep w))"
proof -
  have r: "registered (w\<lparr>w_interest := (w_interest w)(d := None)\<rparr>) = registered w - {d}"
    by (auto simp: registered_def)
  have r': "registered (sys_close d (w\<lparr>w_interest := (w_interest w)(d := None)\<rparr>)) = registered w - {d}"
    by (auto simp: registered_def)
  have mem: "d \<in> registered w" using reg by (simp add: registered_def)
  have card: "fds_used ep - 1 = int (card (registered w - {d}))"
    using card_Suc_Diff1 [OF table_invD(1) [OF inv] mem] table_invD(2) [OF inv] by linarith
  let ?ep = "upd_client d (\<lambda>c. (clear_client c)\<lparr>client_fd := 0\<rparr>) (ep\<lparr>fds_used := fds_used ep - 1\<rparr>)"
  have "table_inv ?ep (sys_close d (w\<lparr>w_interest := (w_interest w)(d := None)\<rparr>))"
    unfolding table_inv_def r'
  proof (intro conjI)
    show "fds_used ?ep = int (card (registered w - {d}))" using card by simp
  qed (use inv mem in \<open>auto simp: table_inv_def\<close>)
  then show ?thesis unfolding drop_conn_def ed_epoll_del_ok [OF reg] by simp
qed

end
