(* ===== verification/Sped.thy ===== *)
theory Sped
  imports Ed_Epoll
begin

text \<open>
  The single-process event-driven server: \<open>web_server/ed_http.c\<close> (a response is written in
  stages, one per writable event) and \<open>web_server/ed_server.c\<close> (the callbacks, the
  dispatcher of \<open>ed_epoll_event.c\<close> and the event loop). The FastCGI client is the same code
  in \<open>amped_server\<close> and is defined on the extensible records.
\<close>

type_synonym sped = "ed_client ed_epoll"

section \<open>Responses in stages\<close>

text \<open>The string behind a \<open>char *\<close> argument.\<close>

definition deref :: "('a ed_client_scheme, 'b) ed_epoll_scheme \<Rightarrow> ptr \<Rightarrow> string res" where
  "deref ep p =
     (case p of Null \<Rightarrow> Inl NullDeref | Page f \<Rightarrow> Inr (page (req_of ep f)) | Stack s \<Rightarrow> Inr s)"

text \<open>Reading an array as a string: without a NUL the read runs past its end.\<close>

definition read_cstr :: "string \<Rightarrow> string res" where
  "read_cstr a = (if terminated a then Inr (cstr a) else Inl OverRead)"

text \<open>Conversion of a \<open>ssize_t\<close> to \<open>int\<close> (two's complement).\<close>

definition to_int :: "int \<Rightarrow> int" where
  "to_int x = (x + 2 ^ 31) mod 2 ^ 32 - 2 ^ 31"

definition set_status :: "status \<Rightarrow> parsed_request \<Rightarrow> parsed_request" where
  "set_status s r = r\<lparr>status := s\<rparr>"

text \<open>The end of a failed request: the error response, \<open>STATUS_REQUEST_FINISH\<close>, \<open>FAILURE\<close>.\<close>

definition fail_request :: "env \<Rightarrow> int \<Rightarrow> fd \<Rightarrow> ('a ed_client_scheme, 'b) ed_epoll_scheme \<Rightarrow> world \<Rightarrow>
    (int \<times> ('a ed_client_scheme, 'b) ed_epoll_scheme \<times> world) res" where
  "fail_request E code d ep w =
     rbind (write_http_response_error E code d w) (\<lambda>(_, w').
     Inr (FAILURE, upd_req d (set_status STATUS_REQUEST_FINISH) ep, w'))"

subsection \<open>write\_http\_cgi\_response\<close>

definition cgi_start :: "env \<Rightarrow> string \<Rightarrow> fd \<Rightarrow> ('a ed_client_scheme, 'b) ed_epoll_scheme \<Rightarrow> world \<Rightarrow>
    (int \<times> ('a ed_client_scheme, 'b) ed_epoll_scheme \<times> world) res" where
  "cgi_start E file_path d ep w =
     (let (command, query_str) = split_query file_path in
      case fopen E command w of
        (None, w1) \<Rightarrow> fail_request E 404 d ep w1
      | (Some _, w1) \<Rightarrow>
          rbind (strncpy (cgi_command (req_of ep d)) command MAX_LINE) (\<lambda>cc.
          rbind (strncpy (cgi_query_str (req_of ep d)) query_str MAX_LINE) (\<lambda>cq.
          Inr (SUCCESS,
            upd_req d (\<lambda>r. r\<lparr>status := STATUS_CGI_FILE_FOUND, cgi_command := cc, cgi_query_str := cq\<rparr>) ep,
            fclose w1))))"

definition cgi_spawn :: "env \<Rightarrow> fd \<Rightarrow> ('a ed_client_scheme, 'b) ed_epoll_scheme \<Rightarrow> world \<Rightarrow>
    (int \<times> ('a ed_client_scheme, 'b) ed_epoll_scheme \<times> world) res" where
  "cgi_spawn E d ep w =
     rbind (read_cstr (cgi_command (req_of ep d))) (\<lambda>command.
     rbind (read_cstr (cgi_query_str (req_of ep d))) (\<lambda>query_str.
     rbind (run_cgi_file E command query_str w) (\<lambda>(st, w1).
     case st of
       None \<Rightarrow> fail_request E 500 d ep w1
     | Some s \<Rightarrow> Inr (SUCCESS, upd_req d (\<lambda>r. r\<lparr>status := STATUS_CGI_PROC_RUNNING, fp := Some s\<rparr>) ep, w1))))"

definition cgi_copy :: "fd \<Rightarrow> ('a ed_client_scheme, 'b) ed_epoll_scheme \<Rightarrow> world \<Rightarrow>
    (int \<times> ('a ed_client_scheme, 'b) ed_epoll_scheme \<times> world) res" where
  "cgi_copy d ep w =
     (case fp (req_of ep d) of
        None \<Rightarrow> Inl NullDeref
      | Some st \<Rightarrow>
          let (bs, st') = fread READ_CHUNK_SIZE st in
          if s_err st' then
            Inr (FAILURE, upd_req d (\<lambda>r. r\<lparr>status := STATUS_REQUEST_FINISH, fp := None\<rparr>) ep, fclose w)
          else
            let (_, w1) = write_http_response_data d bs w in
            if s_eof st' then
              Inr (SUCCESS, upd_req d (\<lambda>r. r\<lparr>status := STATUS_REQUEST_FINISH, fp := None\<rparr>) ep, fclose w1)
            else
              Inr (SUCCESS, upd_req d (\<lambda>r. r\<lparr>status := STATUS_CGI_RESPONSE_WRITING, fp := Some st'\<rparr>) ep, w1))"

definition write_http_cgi_response :: "env \<Rightarrow> string \<Rightarrow> fd \<Rightarrow> sped \<Rightarrow> world \<Rightarrow> (int \<times> sped \<times> world) res" where
  "write_http_cgi_response E file_path d ep w =
     (let s = status (req_of ep d) in
      if s = STATUS_REQUEST_START then cgi_start E file_path d ep w
      else if s = STATUS_CGI_FILE_FOUND then cgi_spawn E d ep w
      else if s = STATUS_CGI_PROC_RUNNING \<or> s = STATUS_CGI_RESPONSE_WRITING then cgi_copy d ep w
      else Inr (SUCCESS, ep, w))"

subsection \<open>write\_http\_fastcgi\_response\<close>

text \<open>
  The argument \<open>data + 13\<close> points into the \<open>page\<close> array of the client of \<open>f\<close>; the code
  overwrites the question mark there. A socket is left open on the two error paths after
  it was created.
\<close>

definition write_http_fastcgi_response :: "env \<Rightarrow> string \<Rightarrow> string \<Rightarrow> fd \<Rightarrow> nat \<Rightarrow> fd \<Rightarrow>
    ('a ed_client_scheme, 'b) ed_epoll_scheme \<Rightarrow> world \<Rightarrow>
    (int \<times> ('a ed_client_scheme, 'b) ed_epoll_scheme \<times> world) res" where
  "write_http_fastcgi_response E serv_addr serv_port f off d ep w =
     (let file_path = drop off (page (req_of ep f)) in
      if \<not> terminated file_path then Inl OverRead
      else
        let (command, query_str) = split_query file_path;
            ep1 = (case strchr file_path (CHR ''?'') of
                     None \<Rightarrow> ep
                   | Some i \<Rightarrow> upd_req f (\<lambda>r. r\<lparr>page := (page r)[off + i := NUL]\<rparr>) ep) in
        rbind (print_fcgi_request command query_str) (\<lambda>request_query.
        if e_socket E < 0 then fail_request E 500 d ep1 w
        else
          let w1 = w\<lparr>w_socks := w_socks w + 1\<rparr> in
          if \<not> e_connect E (inet_addr serv_addr) (nat (atoi serv_port)) then fail_request E 500 d ep1 w1
          else if e_fcgi_send E request_query \<noteq> int (length request_query) then fail_request E 500 d ep1 w1
          else Inr (SUCCESS, upd_req d (set_status STATUS_REQUEST_FINISH) ep1,
                    fcgi_forward d (e_fcgi_reply E request_query) w1)))"

abbreviation sped_serv_addr :: string where "sped_serv_addr \<equiv> ''settlers.lab.ece.cmu.local''"
abbreviation serv_port :: string where "serv_port \<equiv> ''12345''"

subsection \<open>write\_http\_response\<close>

text \<open>First stage of a new request: hand it to CGI or FastCGI, or find the file.\<close>

definition stage_find :: "env \<Rightarrow> string \<Rightarrow> string \<Rightarrow> fd \<Rightarrow> fd \<Rightarrow> sped \<Rightarrow> world \<Rightarrow> (int \<times> sped \<times> world) res" where
  "stage_find E pg file_path f d ep w =
     (if strncmp_eq pg ''/cgi-bin/'' 9 then
        rbind (write_http_cgi_response E file_path d ep w) (\<lambda>(_, ep', w'). Inr (SUCCESS, ep', w'))
      else if strncmp_eq pg ''/fastcgi-bin/'' 13 then
        rbind (write_http_fastcgi_response E sped_serv_addr serv_port f 13 d ep w) (\<lambda>(_, ep', w').
        Inr (SUCCESS, upd_req d (set_status STATUS_REQUEST_FINISH) ep', w'))
      else case fopen E file_path w of
        (None, w1) \<Rightarrow> fail_request E 404 d ep w1
      | (Some st, w1) \<Rightarrow>
          Inr (SUCCESS, upd_req d (\<lambda>r. r\<lparr>status := STATUS_FILE_FOUND, fp := Some st\<rparr>) ep, w1))"

text \<open>Second stage: the size of the file and the header.\<close>

definition stage_header :: "env \<Rightarrow> string \<Rightarrow> fd \<Rightarrow> sped \<Rightarrow> world \<Rightarrow> (int \<times> sped \<times> world) res" where
  "stage_header E pg d ep w =
     (case fp (req_of ep d) of
        None \<Rightarrow> Inl NullDeref
      | Some st \<Rightarrow>
          if \<not> f_seek_ok (s_file st) then
            fail_request E 500 d (upd_req d (\<lambda>r. r\<lparr>fp := None\<rparr>) ep) (fclose w)
          else if \<not> f_tell_ok (s_file st) then
            fail_request E 500 d (upd_req d (\<lambda>r. r\<lparr>fp := None\<rparr>) ep) (fclose w)
          else
            let len = to_int (int (length (f_data (s_file st)))) in
            rbind (get_file_type pg) (\<lambda>type.
            rbind (write_http_response_header E d type len 200 ''OK'' w) (\<lambda>(_, w1).
            Inr (SUCCESS, upd_req d (\<lambda>r. r\<lparr>status := STATUS_HEADER_WRITTEN, fp := Some (rewind st),
                   response_size := len\<rparr>) ep, w1))))"

text \<open>Third stage: one chunk of the file.\<close>

definition stage_data :: "env \<Rightarrow> fd \<Rightarrow> sped \<Rightarrow> world \<Rightarrow> (int \<times> sped \<times> world) res" where
  "stage_data E d ep w =
     (case fp (req_of ep d) of
        None \<Rightarrow> Inl NullDeref
      | Some st \<Rightarrow>
          let (bs, st') = fread READ_CHUNK_SIZE st in
          if s_err st' then
            fail_request E 500 d (upd_req d (\<lambda>r. r\<lparr>fp := None\<rparr>) ep) (fclose w)
          else
            let (ep1, w1) =
              (if s_eof st'
               then (upd_req d (\<lambda>r. r\<lparr>status := STATUS_REQUEST_FINISH, fp := None\<rparr>) ep, fclose w)
               else (upd_req d (\<lambda>r. r\<lparr>status := STATUS_DATA_WRITING, fp := Some st'\<rparr>) ep, w)) in
            Inr (SUCCESS, ep1,
                 if bs \<noteq> [] then snd (write_http_response_data d bs w1) else w1))"

definition write_http_response :: "env \<Rightarrow> fd \<Rightarrow> ptr \<Rightarrow> sped \<Rightarrow> world \<Rightarrow> (int \<times> sped \<times> world) res" where
  "write_http_response E d dat ep w =
     rbind (deref ep dat) (\<lambda>pg.
     rbind (make_file_path pg) (\<lambda>file_path.
     let s = status (req_of ep d) in
     if s = STATUS_CGI_FILE_FOUND \<or> s = STATUS_CGI_PROC_RUNNING \<or> s = STATUS_CGI_RESPONSE_WRITING then
       rbind (write_http_cgi_response E file_path d ep w) (\<lambda>(_, ep', w'). Inr (SUCCESS, ep', w'))
     else if s = STATUS_REQUEST_START then
       stage_find E pg file_path (case dat of Page f \<Rightarrow> f | _ \<Rightarrow> d) d ep w
     else if s = STATUS_FILE_FOUND then stage_header E pg d ep w
     else if s = STATUS_HEADER_WRITTEN \<or> s = STATUS_DATA_WRITING then stage_data E d ep w
     else Inr (SUCCESS, ep, w)))"

section \<open>Callbacks and the event loop\<close>

text \<open>
  One event as \<open>epoll_wait\<close> reports it, with what the kernel will answer to the calls its
  handler makes: the descriptors successive \<open>accept\<close>s return before one fails, and the
  bytes \<open>read\<close> finds (\<open>None\<close>: \<open>read\<close> returns \<open>-1\<close>).
\<close>

record epoll_event =
  ev_fd :: fd
  ev_events :: events
  ev_accepts :: "fd list"
  ev_read :: "string option"

fun accept_loop :: "env \<Rightarrow> fd list \<Rightarrow> ('a ed_client_scheme, 'b) ed_epoll_scheme \<Rightarrow> world \<Rightarrow>
    ('a ed_client_scheme, 'b) ed_epoll_scheme \<times> world" where
  "accept_loop E [] ep w = (ep, w)"
| "accept_loop E (n # ns) ep w =
     (let (new_fd, w1) = sys_accept n w in
      if new_fd = -1 then (ep, w1)
      else if setnonblock E new_fd < 0 then (ep, sys_close new_fd w1)
      else let (_, ep', w2) = ed_epoll_add E new_fd Ed_socket_callback Null ep w1 in
           accept_loop E ns ep' w2)"

definition ed_accept_callback :: "env \<Rightarrow> epoll_event \<Rightarrow> ('a ed_client_scheme, 'b) ed_epoll_scheme \<Rightarrow> world \<Rightarrow>
    ('a ed_client_scheme, 'b) ed_epoll_scheme \<times> world" where
  "ed_accept_callback E ev ep w = accept_loop E (ev_accepts ev) ep w"

text \<open>The readable branch of \<open>ed_socket_callback\<close>: fill the buffer, try to parse it.\<close>

definition max_read :: "int \<Rightarrow> nat" where
  "max_read len = (if len + int BUF_SIZE_PER_READ \<le> int REQUEST_SIZE then BUF_SIZE_PER_READ
                   else nat (int REQUEST_SIZE - len))"

definition fill_buffer :: "fd \<Rightarrow> string \<Rightarrow> ('a ed_client_scheme, 'b) ed_epoll_scheme \<Rightarrow>
    ('a ed_client_scheme, 'b) ed_epoll_scheme" where
  "fill_buffer d input ep =
     (let bs = take (max_read (buf_len (ed_clients ep d))) input in
      upd_client d (\<lambda>c. c\<lparr>buffer := blit (buffer c) (nat (buf_len c)) bs,
                         buf_len := buf_len c + int (length bs)\<rparr>) ep)"

text \<open>What follows the call of \<open>process_http_request\<close>: a parsed request waits for a writable
  event, an illegal one ends the connection, an incomplete one waits for more input.\<close>

definition request_parsed :: "env \<Rightarrow> fd \<Rightarrow> int \<Rightarrow> parsed_request \<Rightarrow>
    ('a ed_client_scheme, 'b) ed_epoll_scheme \<Rightarrow> world \<Rightarrow>
    ('a ed_client_scheme, 'b) ed_epoll_scheme \<times> world" where
  "request_parsed E d rc r ep w =
     (let c = ed_clients ep d in
      if rc = SUCCESS then
        let (_, ep', w') = ed_epoll_set E d {EPOLLOUT} (Page d) (upd_client d (\<lambda>c. c\<lparr>http_req := r\<rparr>) ep) w in
        (ep', w')
      else if 0 < buf_len c \<and> buffer c ! nat (buf_len c - 1) = LF then drop_conn E d ep w
      else (ep, w))"

definition read_request :: "env \<Rightarrow> fd \<Rightarrow> string option \<Rightarrow>
    ('a ed_client_scheme, 'b) ed_epoll_scheme \<Rightarrow> world \<Rightarrow>
    (('a ed_client_scheme, 'b) ed_epoll_scheme \<times> world) res" where
  "read_request E d rd ep w =
     (case rd of
        None \<Rightarrow> Inr (ep, w)
      | Some input \<Rightarrow>
          let ep1 = fill_buffer d input ep; c = ed_clients ep1 d in
          rbind (process_http_request E (buffer c) (http_req c)) (\<lambda>(rc, r).
          Inr (request_parsed E d rc r ep1 w)))"

definition ed_socket_callback :: "env \<Rightarrow> epoll_event \<Rightarrow> ptr \<Rightarrow> sped \<Rightarrow> world \<Rightarrow> (sped \<times> world) res" where
  "ed_socket_callback E ev dat ep w =
     (let d = ev_fd ev; evs = ev_events ev in
      if EPOLLERR \<in> evs then Inr (ep, w)
      else if EPOLLHUP \<in> evs then Inr (drop_conn E d ep w)
      else if EPOLLRDHUP \<in> evs then Inr (drop_conn E d ep w)
      else if EPOLLOUT \<in> evs then
        (if dat \<noteq> Null then
           rbind (write_http_response E d dat ep w) (\<lambda>(_, ep1, w1).
           if status (req_of ep1 d) = STATUS_REQUEST_FINISH then Inr (drop_conn E d ep1 w1)
           else Inr (ep1, w1))
         else let (_, ep1, w1) = ed_epoll_set E d {EPOLLIN} Null ep w in Inr (ep1, w1))
      else if EPOLLIN \<in> evs then read_request E d (ev_read ev) ep w
      else Inr (ep, w))"

text \<open>\<open>ed_epoll_dispatch_events\<close>: the events \<open>epoll_wait\<close> returned, one after the other. A
  null callback is called all the same (after a message).\<close>

fun ed_epoll_dispatch_events :: "env \<Rightarrow> epoll_event list \<Rightarrow> sped \<Rightarrow> world \<Rightarrow> (sped \<times> world) res" where
  "ed_epoll_dispatch_events E [] ep w = Inr (ep, w)"
| "ed_epoll_dispatch_events E (ev # evs) ep w =
     (if ev_fd ev < 0 \<or> fds_used ep \<le> 0 then ed_epoll_dispatch_events E evs ep w
      else if maxfds ep \<le> ev_fd ev then Inl OverRead
      else
        let c = ed_clients ep (ev_fd ev) in
        case callback c of
          Some Ed_accept_callback \<Rightarrow>
            (let (ep1, w1) = ed_accept_callback E ev ep w in ed_epoll_dispatch_events E evs ep1 w1)
        | Some Ed_socket_callback \<Rightarrow>
            rbind (ed_socket_callback E ev (data c) ep w) (\<lambda>(ep1, w1).
            ed_epoll_dispatch_events E evs ep1 w1)
        | _ \<Rightarrow> Inl NullDeref)"

text \<open>\<open>handle_epoll_events\<close>: the loop never ends; this is its effect on a sequence of
  results of \<open>epoll_wait\<close>.\<close>

fun handle_epoll_events :: "env \<Rightarrow> epoll_event list list \<Rightarrow> sped \<Rightarrow> world \<Rightarrow> (sped \<times> world) res" where
  "handle_epoll_events E [] ep w = Inr (ep, w)"
| "handle_epoll_events E (evs # batches) ep w =
     rbind (ed_epoll_dispatch_events E evs ep w) (\<lambda>(ep1, w1). handle_epoll_events E batches ep1 w1)"

end
