(* ===== verification/Sped_Correct.thy ===== *)
theory Sped_Correct
  imports Sped
begin

text \<open>
  Safety of the single-process event-driven server: every handler keeps the invariant of
  the client table, the dispatcher never calls a null callback, and the only undefined
  behaviour a client can provoke is the overflow of \<open>page\<close> or the read past an
  unterminated array.
\<close>

section \<open>What a response stage may change\<close>

definition req_step :: "fd \<Rightarrow> ('a ed_client_scheme, 'b) ed_epoll_scheme \<Rightarrow>
    ('a ed_client_scheme, 'b) ed_epoll_scheme \<Rightarrow> bool" where
  "req_step d ep ep' \<longleftrightarrow> (\<exists>f. ep' = upd_req d f ep \<and> (req_ok (req_of ep d) \<longrightarrow> req_ok (f (req_of ep d))))"

definition same_fds :: "world \<Rightarrow> world \<Rightarrow> bool" where
  "same_fds w w' \<longleftrightarrow> w_interest w' = w_interest w \<and> w_open w' = w_open w \<and> w_closed w' = w_closed w"

lemma req_stepI: "(req_ok (req_of ep d) \<Longrightarrow> req_ok (f (req_of ep d))) \<Longrightarrow> req_step d ep (upd_req d f ep)"
  by (auto simp: req_step_def)

lemma req_step_refl [simp]: "req_step d ep ep"
proof -
  have "ep = upd_req d id ep" by (simp add: upd_req_def upd_client_def)
  then show ?thesis unfolding req_step_def by (metis id_apply)
qed

lemma req_step_trans: "req_step d ep ep1 \<Longrightarrow> req_step d ep1 ep2 \<Longrightarrow> req_step d ep ep2"
  unfolding req_step_def by (metis (no_types, lifting) upd_req_simps(3) upd_req_upd_req)

lemma req_step_upd: "req_step d ep ep1 \<Longrightarrow> (\<And>r. req_ok r \<Longrightarrow> req_ok (f r)) \<Longrightarrow> req_step d ep (upd_req d f ep1)"
  by (rule req_step_trans) (auto intro: req_stepI)

lemma req_step_inv: "req_step d ep ep' \<Longrightarrow> table_inv ep w \<Longrightarrow> table_inv ep' w"
  by (auto simp: req_step_def intro: table_inv_upd_req)

lemma req_step_ok: "req_step d ep ep' \<Longrightarrow> req_ok (req_of ep d) \<Longrightarrow> req_ok (req_of ep' d)"
  by (auto simp: req_step_def)

lemma same_fds_simps [simp]:
  "same_fds w w" "same_fds w (snd (send d bs w')) \<longleftrightarrow> same_fds w w'"
  "same_fds w (fclose w') \<longleftrightarrow> same_fds w w'" "same_fds w (error_world E code d w') \<longleftrightarrow> same_fds w w'"
  "same_fds w (fcgi_forward d cs w') \<longleftrightarrow> same_fds w w'"
  "same_fds w (w'\<lparr>w_socks := n\<rparr>) \<longleftrightarrow> same_fds w w'" "same_fds w (w'\<lparr>w_streams := n\<rparr>) \<longleftrightarrow> same_fds w w'"
  by (simp_all add: same_fds_def)

lemma same_fds_inv: "same_fds w w' \<Longrightarrow> table_inv ep w' \<longleftrightarrow> table_inv ep w"
  unfolding same_fds_def by (metis table_inv_world)

lemma int_range_codes [simp]: "int_range 404" "int_range 500" "int_range 200"
  by (simp_all add: int_range_def)

lemma to_int_range [simp]: "int_range (to_int x)"
proof -
  have "0 \<le> (x + 2 ^ 31) mod 2 ^ 32" "(x + 2 ^ 31) mod 2 ^ 32 < 2 ^ 32" by simp_all
  then show ?thesis unfolding int_range_def to_int_def by simp
qed

lemma req_ok_status_finish [simp]:
  "req_ok r \<Longrightarrow> req_ok (set_status STATUS_REQUEST_FINISH r)"
  "req_ok r \<Longrightarrow> req_ok (r\<lparr>status := STATUS_REQUEST_FINISH, fp := x\<rparr>)"
  "req_ok r \<Longrightarrow> req_ok (set_status STATUS_REQUEST_FINISH (r\<lparr>fp := x\<rparr>))"
  "req_ok r \<Longrightarrow> req_ok (set_status STATUS_REQUEST_FINISH (r\<lparr>page := (page r)[i := NUL]\<rparr>))"
  by (simp_all add: req_ok_def set_status_def)

lemma req_ok_stream [simp]:
  "req_ok r \<Longrightarrow> req_ok (r\<lparr>status := s, fp := Some st\<rparr>)"
  "req_ok r \<Longrightarrow> req_ok (r\<lparr>status := s, fp := Some st, response_size := n\<rparr>)"
  by (simp_all add: req_ok_def)

text \<open>An error response always succeeds, and ends the request.\<close>

lemma fail_request_eq:
  "int_range code \<Longrightarrow> fail_request E code d ep w =
     Inr (-1, upd_req d (set_status STATUS_REQUEST_FINISH) ep, error_world E code d w)"
  by (simp add: fail_request_def write_error_ok)

lemma fopen_cases:
  obtains "e_files E (cstr path) = None" "fopen E path w = (None, w)"
  | f where "e_files E (cstr path) = Some f" "fopen E path w = (Some (open_stream f), w\<lparr>w_streams := w_streams w + 1\<rparr>)"
  by (cases "e_files E (cstr path)") (auto simp: fopen_def)

section \<open>CGI\<close>

lemma cgi_query_fits:
  assumes "strncmp_eq pg ''/cgi-bin/'' 9" and "make_file_path pg = Inr a" and "split_query a = (c, q)"
  shows "length c \<le> 1022" and "length q \<le> 1009"
proof -
  obtain z where a: "a = (WWW_PATH @ take 1019 (cstr pg)) @ zeros (Suc z)"
    using assms(2) make_file_path_ok [of pg] by auto
  then have ca: "cstr a = WWW_PATH @ take 1019 (cstr pg)" by simp
  then have la: "length (cstr a) \<le> 1022" by simp
  with split_query_length [OF assms(3)] show "length c \<le> 1022" by linarith
  have "take 9 (cstr pg @ [NUL]) = ''/cgi-bin/''" using assms(1) by (simp add: strncmp_eq_def)
  then have p9: "take 9 (cstr pg) = ''/cgi-bin/''"
    using no_nul_cstr [of pg] by (auto simp: take_Cons' split: if_splits) 
  have t12: "take 12 (cstr a) = ''www/cgi-bin/''"
    using p9 by (simp add: ca min_def)
  show "length q \<le> 1009"
  proof (cases "find_char (CHR ''?'') (cstr a)")
    case None
    then show ?thesis using assms(3) by (simp add: split_query_def strchr_def)
  next
    case (Some i)
    then have i: "i < length (cstr a)" "cstr a ! i = CHR ''?''" by (auto simp: find_char_Some)
    have "\<not> i < 12"
    proof
      assume "i < 12"
      then have "CHR ''?'' \<in> set (take 12 (cstr a))"
        using i by (metis in_set_conv_nth length_take min_less_iff_conj nth_take)
      then show False by (simp add: t12)
    qed
    then show ?thesis using Some assms(3) la by (auto simp: split_query_def strchr_def)
  qed
qed

lemma strncpy_copied:
  assumes "strncpy dst t MAX_LINE = Inr a" "no_nul t" "length t \<le> 1022"
  shows "terminated a \<and> cstr a = t"
proof -
  have "a = (t @ zeros (MAX_LINE - length t)) @ drop MAX_LINE dst"
    using assms by (auto simp: strncpy_def blit_def strncpy_bytes_def split: if_splits)
  then have "a = t @ NUL # (zeros (1023 - length t) @ drop MAX_LINE dst)"
    using assms by (simp flip: replicate_Suc)
  then show ?thesis using assms(2) by simp
qed

lemma cgi_start_step:
  assumes "cgi_start E file_path d ep w = Inr (rc, ep', w')"
    and "length (fst (split_query file_path)) \<le> 1022" and "length (snd (split_query file_path)) \<le> 1009"
  shows "req_step d ep ep' \<and> same_fds w w'"
proof -
  obtain c q where cq: "split_query file_path = (c, q)" by fastforce
  have nn: "no_nul c" "no_nul q" using split_query_no_nul [OF cq] by simp_all
  have ln: "length c \<le> 1022" "length q \<le> 1022" "length q \<le> 1009" using assms(2,3) cq by simp_all
  show ?thesis
  proof (cases rule: fopen_cases [of E c w])
    case 1
    then show ?thesis using assms(1) cq by (auto simp: cgi_start_def fail_request_eq intro!: req_stepI)
  next
    case (2 f)
    with assms(1) cq obtain cc cq' where
      cc: "strncpy (cgi_command (req_of ep d)) c MAX_LINE = Inr cc"
      and cq': "strncpy (cgi_query_str (req_of ep d)) q MAX_LINE = Inr cq'"
      and ep': "ep' = upd_req d (\<lambda>r. r\<lparr>status := STATUS_CGI_FILE_FOUND, cgi_command := cc, cgi_query_str := cq'\<rparr>) ep"
      and w': "w' = fclose (w\<lparr>w_streams := w_streams w + 1\<rparr>)"
      by (auto simp: cgi_start_def rbind_eq_Inr)
    have "req_step d ep ep'"
      unfolding ep' using strncpy_Inr [OF cc] strncpy_Inr [OF cq']
        strncpy_copied [OF cc nn(1) ln(1)] strncpy_copied [OF cq' nn(2) ln(2)] ln(3)
      by (intro req_stepI) (simp add: req_ok_def)
    then show ?thesis using w' by simp
  qed
qed

lemma cgi_spawn_step:
  "cgi_spawn E d ep w = Inr (rc, ep', w') \<Longrightarrow> req_step d ep ep' \<and> same_fds w w'"
proof -
  assume "cgi_spawn E d ep w = Inr (rc, ep', w')"
  then obtain command q st w1 where run: "run_cgi_file E command q w = Inr (st, w1)"
    and r: "(case st of None \<Rightarrow> fail_request E 500 d ep w1
     | Some s \<Rightarrow> Inr (0, upd_req d (\<lambda>r. r\<lparr>status := STATUS_CGI_PROC_RUNNING, fp := Some s\<rparr>) ep, w1))
     = Inr (rc, ep', w')"
    unfolding cgi_spawn_def rbind_eq_Inr by auto
  have "same_fds w w1" using run by (auto simp: run_cgi_file_def split: if_splits option.splits)
  with r show ?thesis
    by (cases st) (auto simp: fail_request_eq intro!: req_stepI)
qed

lemma cgi_copy_step:
  "cgi_copy d ep w = Inr (rc, ep', w') \<Longrightarrow> req_step d ep ep' \<and> same_fds w w'"
  by (auto simp: cgi_copy_def write_http_response_data_def Let_def
      intro!: req_stepI split: if_splits option.splits prod.splits)

lemma fastcgi_step:
  assumes "write_http_fastcgi_response E addr port d off d ep w = Inr (rc, ep', w')"
  shows "req_step d ep ep' \<and> same_fds w w'"
proof -
  show ?thesis
    using assms unfolding write_http_fastcgi_response_def Let_def
    by (cases "split_query (drop off (page (req_of ep d)))",
        cases "strchr (drop off (page (req_of ep d))) (CHR ''?'')")
       (auto simp: rbind_eq_Inr fail_request_eq intro!: req_stepI split: if_splits)
qed

section \<open>The stages of write\_http\_response\<close>

lemma stage_header_step:
  "stage_header E pg d ep w = Inr (rc, ep', w') \<Longrightarrow> req_step d ep ep' \<and> same_fds w w'"
  by (auto simp: stage_header_def rbind_eq_Inr fail_request_eq Let_def write_http_response_header_def
      intro!: req_stepI split: if_splits option.splits)

lemma stage_data_step:
  "stage_data E d ep w = Inr (rc, ep', w') \<Longrightarrow> req_step d ep ep' \<and> same_fds w w'"
  by (auto simp: stage_data_def fail_request_eq Let_def write_http_response_data_def
      intro!: req_stepI split: if_splits option.splits prod.splits)

lemma write_http_cgi_response_step:
  assumes "write_http_cgi_response E a d ep w = Inr (rc, ep', w')"
    and "status (req_of ep d) = STATUS_REQUEST_START \<Longrightarrow>
      length (fst (split_query a)) \<le> 1022 \<and> length (snd (split_query a)) \<le> 1009"
  shows "req_step d ep ep' \<and> same_fds w w'"
  using assms unfolding write_http_cgi_response_def Let_def
  by (simp split: if_splits) (blast dest: cgi_start_step cgi_spawn_step cgi_copy_step)+

lemma stage_find_step:
  assumes "stage_find E pg a d d ep w = Inr (rc, ep', w')" and "make_file_path pg = Inr a"
  shows "req_step d ep ep' \<and> same_fds w w'"
proof (cases "strncmp_eq pg ''/cgi-bin/'' 9")
  case True
  obtain c q where cq: "split_query a = (c, q)" by fastforce
  from True assms(1) obtain rc' where r: "write_http_cgi_response E a d ep w = Inr (rc', ep', w')"
    by (auto simp: stage_find_def rbind_eq_Inr)
  show ?thesis
    using cgi_query_fits [OF True assms(2) cq] cq
    by (intro write_http_cgi_response_step [OF r]) simp
next
  case False
  show ?thesis
  proof (cases "strncmp_eq pg ''/fastcgi-bin/'' 13")
    case True
    with False assms(1) show ?thesis
      by (auto simp: stage_find_def rbind_eq_Inr dest!: fastcgi_step) (erule req_step_upd, simp)
  next
    case nf: False
    show ?thesis
      using False nf assms(1)
      by (cases rule: fopen_cases [of E a w])
         (auto simp: stage_find_def fail_request_eq intro!: req_stepI)
  qed
qed

lemma write_http_response_step:
  assumes "write_http_response E d (Page d) ep w = Inr (rc, ep', w')"
  shows "req_step d ep ep' \<and> same_fds w w'"
proof -
  let ?pg = "page (req_of ep d)" and ?s = "status (req_of ep d)"
  obtain a where a: "make_file_path ?pg = Inr a"
    using make_file_path_ok [of ?pg] by blast
  show ?thesis
  proof (cases "?s = STATUS_CGI_FILE_FOUND \<or> ?s = STATUS_CGI_PROC_RUNNING \<or> ?s = STATUS_CGI_RESPONSE_WRITING")
    case True
    with assms a obtain rc' where "write_http_cgi_response E a d ep w = Inr (rc', ep', w')"
      by (auto simp: write_http_response_def deref_def rbind_eq_Inr)
    then show ?thesis by (rule write_http_cgi_response_step) (use True in auto)
  next
    case False
    with assms a show ?thesis
      by (simp add: write_http_response_def deref_def Let_def split: if_splits)
         (blast dest: stage_find_step [OF _ a] stage_header_step stage_data_step)+
  qed
qed

section \<open>The callbacks keep the invariant\<close>

lemma store_page_effect:
  assumes "store_page m p r = Inr (rc, r')"
  shows "rc = 0 \<and> (\<exists>pg. r' = r\<lparr>page := pg\<rparr> \<and> length pg = length (page r))"
proof -
  have sc: "strcpy a t = Inr b \<Longrightarrow> length b = length a" for a t b
    by (auto simp: strcpy_def split: if_splits)
  show ?thesis
    using assms by (auto simp: store_page_def rbind_eq_Inr dest!: strncpy_Inr sc split: if_splits)
qed

lemma process_http_request_effect:
  assumes "process_http_request E h r = Inr (rc, r')"
  shows "(\<exists>pg. r' = r\<lparr>page := pg\<rparr> \<and> length pg = length (page r))"
proof -
  have refl: "\<exists>pg. q = q\<lparr>page := pg\<rparr> \<and> length pg = length (page q)" for q :: parsed_request
    by (rule exI [of _ "page q"]) simp
  show ?thesis
    using assms refl
    by (auto simp: process_http_request_def dest!: store_page_effect split: if_splits option.splits)
qed

lemma process_http_request_req_ok:
  assumes "process_http_request E h r = Inr (rc, r')" and "req_ok r"
  shows "req_ok r'"
proof -
  obtain pg where "r' = r\<lparr>page := pg\<rparr>" "length pg = length (page r)"
    using process_http_request_effect [OF assms(1)] by blast
  with assms(2) show ?thesis by (simp add: req_ok_def)
qed

text \<open>Descriptors other than the one an event is for stay in the interest set.\<close>

definition others_stay :: "fd \<Rightarrow> world \<Rightarrow> world \<Rightarrow> bool" where
  "others_stay d w w' \<longleftrightarrow> (\<forall>d'. d' \<noteq> d \<longrightarrow> w_interest w d' \<noteq> None \<longrightarrow> w_interest w' d' \<noteq> None)"

lemma drop_conn_effect:
  assumes "table_inv ep w" and "w_interest w d \<noteq> None" and "drop_conn E d ep w = (ep', w')"
  shows "table_inv ep' w' \<and> others_stay d w w'"
proof -
  have "others_stay d w w'"
    using assms(2,3) by (auto simp: drop_conn_def ed_epoll_del_ok others_stay_def)
  with table_inv_drop [OF assms(1,2), of E] assms(3) show ?thesis by simp
qed

lemma ed_epoll_set_effect:
  assumes "table_inv ep w" and "dat \<in> {Null, Page d}" and "ed_epoll_set E d evs dat ep w = (rc, ep', w')"
  shows "table_inv ep' w' \<and> others_stay d w w'"
proof -
  have "others_stay d w w'"
    using assms(3) by (auto simp: ed_epoll_set_def epoll_ctl_def others_stay_def split: if_splits)
  with table_inv_set [OF assms(1,2), of E evs] assms(3) show ?thesis by simp
qed

lemma max_read_le: "0 \<le> n \<Longrightarrow> n \<le> int REQUEST_SIZE \<Longrightarrow> nat n + max_read n \<le> REQUEST_SIZE"
  by (auto simp: max_read_def)

lemma fill_buffer_inv:
  assumes inv: "table_inv ep w" and reg: "w_interest w d \<noteq> None"
  shows "table_inv (fill_buffer d input ep) w"
proof -
  have cl: "client_ok (ed_clients ep d)" using table_invD(3,6) [OF inv] reg by blast
  then have "nat (buf_len (ed_clients ep d)) + length (take (max_read (buf_len (ed_clients ep d))) input) \<le> REQUEST_SIZE"
    using max_read_le [of "buf_len (ed_clients ep d)"] by (auto simp: client_ok_def)
  then show ?thesis
    unfolding fill_buffer_def Let_def using inv cl
    by (intro table_inv_upd_client) (auto simp: client_ok_def)
qed

lemma request_parsed_effect:
  assumes inv: "table_inv ep w" and reg: "w_interest w d \<noteq> None" and q: "req_ok r"
    and r: "request_parsed E d rc r ep w = (ep', w')"
  shows "table_inv ep' w' \<and> others_stay d w w'"
proof (cases "rc = 0")
  case True
  have "table_inv (upd_client d (\<lambda>c. c\<lparr>http_req := r\<rparr>) ep) w"
    using inv q by (intro table_inv_upd_client) (auto simp: client_ok_def)
  with True r show ?thesis
    using ed_epoll_set_effect [of "upd_client d (\<lambda>c. c\<lparr>http_req := r\<rparr>) ep" w "Page d" d E "{EPOLLOUT}"]
    by (auto simp: request_parsed_def Let_def split: prod.splits)
next
  case False
  with r show ?thesis
    using drop_conn_effect [OF inv reg, of E ep' w'] inv
    by (auto simp: request_parsed_def Let_def others_stay_def split: if_splits)
qed

lemma read_request_effect:
  assumes inv: "table_inv ep w" and reg: "w_interest w d \<noteq> None"
    and r: "read_request E d rd ep w = Inr (ep', w')"
  shows "table_inv ep' w' \<and> others_stay d w w'"
proof (cases rd)
  case None
  with r inv show ?thesis by (simp add: read_request_def others_stay_def)
next
  case (Some input)
  let ?ep = "fill_buffer d input ep"
  have inv1: "table_inv ?ep w" by (rule fill_buffer_inv [OF inv reg])
  then have "req_ok (http_req (ed_clients ?ep d))"
    using table_invD(3,6) [OF inv1] reg by (auto simp: client_ok_def)
  moreover from r Some obtain rc q where
    "process_http_request E (buffer (ed_clients ?ep d)) (http_req (ed_clients ?ep d)) = Inr (rc, q)"
    and "request_parsed E d rc q ?ep w = (ep', w')"
    by (auto simp: read_request_def rbind_eq_Inr Let_def)
  ultimately show ?thesis
    using request_parsed_effect [OF inv1 reg] process_http_request_req_ok by blast
qed

lemma ed_socket_callback_effect:
  assumes inv: "table_inv ep w" and reg: "w_interest w (ev_fd ev) \<noteq> None"
    and dat: "dat \<in> {Null, Page (ev_fd ev)}"
    and r: "ed_socket_callback E ev dat ep w = Inr (ep', w')"
  shows "table_inv ep' w' \<and> others_stay (ev_fd ev) w w'"
proof -
  let ?d = "ev_fd ev"
  have refl: "table_inv ep w \<and> others_stay ?d w w" using inv by (simp add: others_stay_def)
  have drp: "Inr (drop_conn E ?d ep w) = Inr (ep', w') \<Longrightarrow> ?thesis"
    using drop_conn_effect [OF inv reg, of E] by simp
  have wr: ?thesis if "dat \<noteq> Null" and
      q: "rbind (write_http_response E ?d dat ep w) (\<lambda>(_, ep1, w1).
           if status (req_of ep1 ?d) = STATUS_REQUEST_FINISH then Inr (drop_conn E ?d ep1 w1)
           else Inr (ep1, w1)) = Inr (ep', w')"
  proof -
    from that dat have "dat = Page ?d" by simp
    with q obtain rc ep1 w1 where w1: "write_http_response E ?d (Page ?d) ep w = Inr (rc, ep1, w1)"
      and k: "(if status (req_of ep1 ?d) = STATUS_REQUEST_FINISH then Inr (drop_conn E ?d ep1 w1)
           else Inr (ep1, w1) :: (sped \<times> world) res) = Inr (ep', w')"
      by (auto simp: rbind_eq_Inr)
    from write_http_response_step [OF w1] have st: "req_step ?d ep ep1" "same_fds w w1" by simp_all
    then have inv1: "table_inv ep1 w1" using inv req_step_inv same_fds_inv by blast
    have reg1: "w_interest w1 ?d \<noteq> None" using st(2) reg by (simp add: same_fds_def)
    show ?thesis using k drop_conn_effect [OF inv1 reg1, of E] inv1 st(2)
      by (auto simp: others_stay_def same_fds_def split: if_splits)
  qed
  have set: "(let (_, ep1, w1) = ed_epoll_set E ?d {EPOLLIN} Null ep w in Inr (ep1, w1)) = (Inr (ep', w') :: (sped \<times> world) res) \<Longrightarrow> ?thesis"
    using ed_epoll_set_effect [OF inv, of Null ?d E "{EPOLLIN}"] by (auto split: prod.splits)
  show ?thesis
    using r unfolding ed_socket_callback_def Let_def
    by (simp split: if_splits) (use refl drp wr set read_request_effect [OF inv reg] in \<open>auto simp: Let_def\<close>)
qed

lemma accept_loop_effect:
  assumes "table_inv ep w" and "accept_loop E ns ep w = (ep', w')"
  shows "table_inv ep' w' \<and> (\<forall>d. w_interest w d \<noteq> None \<longrightarrow> w_interest w' d \<noteq> None)"
  using assms
proof (induction E ns ep w rule: accept_loop.induct)
  case (2 E n ns ep w)
  show ?case
  proof (cases "n < 0 \<or> n \<in> w_open w")
    case True
    with 2 show ?thesis by (simp add: sys_accept_def)
  next
    case False
    let ?w1 = "w\<lparr>w_open := insert n (w_open w)\<rparr>"
    have unreg: "w_interest w n = None" using False table_invD(3) [OF "2.prems"(1), of n] by blast
    have inv1: "table_inv ep ?w1"
      using "2.prems"(1) by (auto simp: table_inv_def registered_def)
    show ?thesis
    proof (cases "setnonblock E n < 0")
      case True
      have "(w_interest w)(n := None) = w_interest w" using unreg by auto
      moreover have "insert n (w_open w) - {n} = w_open w" using False by auto
      ultimately have "table_inv ep (sys_close n ?w1) \<longleftrightarrow> table_inv ep w"
        by (intro table_inv_world) simp_all
      then have "table_inv ep (sys_close n ?w1)" using "2.prems"(1) by simp
      then show ?thesis using "2.prems"(2) False True unreg by (auto simp: sys_accept_def)
    next
      case nb: False
      obtain rc ep2 w2 where add: "ed_epoll_add E n Ed_socket_callback Null ep ?w1 = (rc, ep2, w2)"
        by (cases "ed_epoll_add E n Ed_socket_callback Null ep ?w1") auto
      have inv2: "table_inv ep2 w2"
        using table_inv_add [OF inv1, of n E Ed_socket_callback] False add by simp
      have st2: "\<forall>d. w_interest w d \<noteq> None \<longrightarrow> w_interest w2 d \<noteq> None"
        using add by (auto simp: ed_epoll_add_def epoll_ctl_def split: if_splits)
      have "accept_loop E ns ep2 w2 = (ep', w')"
        using "2.prems"(2) False nb add by (simp add: sys_accept_def)
      with "2.IH" [of "(n, ?w1)" n ?w1 "(rc, ep2, w2)" rc "(ep2, w2)" ep2 w2] inv2 add False nb st2
      show ?thesis by (auto simp: sys_accept_def)
    qed
  qed
qed simp

section \<open>Undefined behaviour a client can provoke\<close>

lemma cgi_start_total:
  assumes "req_ok (req_of ep d)"
  shows "\<exists>x. cgi_start E a d ep w = Inr x"
proof -
  obtain c q where cq: "split_query a = (c, q)" by fastforce
  show ?thesis
    using assms cq by (cases rule: fopen_cases [of E c w])
      (auto simp: cgi_start_def fail_request_eq strncpy_def req_ok_def)
qed

lemma cgi_spawn_total:
  assumes "req_ok (req_of ep d)"
  shows "\<exists>x. cgi_spawn E d ep w = Inr x"
  using assms
  by (auto simp: cgi_spawn_def read_cstr_def req_ok_def run_cgi_file_def fail_request_eq
      split: option.splits)

lemma cgi_copy_total: "fp (req_of ep d) \<noteq> None \<Longrightarrow> \<exists>x. cgi_copy d ep w = Inr x"
  by (auto simp: cgi_copy_def Let_def split: prod.splits)

lemma write_http_cgi_response_total:
  assumes "req_ok (req_of ep d)"
  shows "\<exists>x. write_http_cgi_response E a d ep w = Inr x"
  using cgi_start_total [OF assms] cgi_spawn_total [OF assms] cgi_copy_total [of ep d w] assms
  by (auto simp: write_http_cgi_response_def Let_def req_ok_def)

lemma terminated_drop_prefix:
  assumes "strncmp_eq a t (length t)" and "no_nul t" and "terminated a"
  shows "terminated (drop (length t) a)"
proof -
  have "take (length t) (cstr a @ [NUL]) = t" using assms by (simp add: strncmp_eq_def)
  then have p: "take (length t) (cstr a) = t"
    using assms(2) by (cases "length t \<le> length (cstr a)") (auto simp: no_nul_def)
  have "length (cstr a) < length a" by (rule length_cstr_terminated [OF assms(3)])
  have "a = cstr a @ dropWhile (\<lambda>c. c \<noteq> NUL) a" by (simp add: cstr_def)
  moreover have "terminated (dropWhile (\<lambda>c. c \<noteq> NUL) a)"
    using assms(3) calculation by (metis not_terminated_no_nul no_nul_cstr terminated_append)
  moreover have "length t \<le> length (cstr a)" using p by (metis length_take min.cobounded1)
  ultimately show ?thesis by (metis drop_append terminated_append diff_is_0_eq drop0)
qed

lemma fastcgi_total:
  assumes "terminated (drop off (page (req_of ep f)))" and "length (page (req_of ep f)) - off \<le> 1011"
  shows "\<exists>x. write_http_fastcgi_response E addr port f off d ep w = Inr x"
proof -
  let ?p = "drop off (page (req_of ep f))"
  obtain c q where cq: "split_query ?p = (c, q)" by fastforce
  have "length c + length q \<le> 1010"
    using split_query_length [OF cq] length_cstr_terminated [OF assms(1)] assms(2) by simp
  then have "print_fcgi_request c q = Inr (fcgi_request c q)" by (rule print_fcgi_request_ok)
  then show ?thesis
    using assms(1) cq by (auto simp: write_http_fastcgi_response_def Let_def fail_request_eq)
qed

lemma stage_header_total:
  assumes "fp (req_of ep d) \<noteq> None" and "terminated pg"
  shows "\<exists>x. stage_header E pg d ep w = Inr x"
proof -
  obtain ty where ty: "get_file_type pg = Inr ty" using assms(2) by (auto simp: get_file_type_def)
  from get_file_type_length [OF this] have "write_http_response_header E d ty (to_int n) 200 ''OK'' w
     = Inr (0, snd (send d (http_header E ty (to_int n) 200 ''OK'') w))" for n
    by (intro write_header_ok) simp_all
  with ty assms(1) show ?thesis by (auto simp: stage_header_def fail_request_eq Let_def)
qed

lemma stage_data_total: "fp (req_of ep d) \<noteq> None \<Longrightarrow> \<exists>x. stage_data E d ep w = Inr x"
  by (auto simp: stage_data_def fail_request_eq Let_def split: prod.splits)

text \<open>Writing a response is defined whenever the page in the request is a proper string.\<close>

lemma write_http_response_total:
  assumes ok: "req_ok (req_of ep d)" and t: "terminated (page (req_of ep d))"
  shows "\<exists>x. write_http_response E d (Page d) ep w = Inr x"
proof -
  let ?pg = "page (req_of ep d)"
  obtain a where a: "make_file_path ?pg = Inr a" using make_file_path_ok [of ?pg] by blast
  obtain x where x: "write_http_cgi_response E a d ep w = Inr x"
    using write_http_cgi_response_total [OF ok] by blast
  have fc: "\<exists>x. write_http_fastcgi_response E sped_serv_addr serv_port d 13 d ep w = Inr x"
    if "strncmp_eq ?pg ''/fastcgi-bin/'' 13"
  proof (rule fastcgi_total)
    show "terminated (drop 13 ?pg)"
      using terminated_drop_prefix [of ?pg "''/fastcgi-bin/''"] that t by (simp add: eval_nat_numeral)
    show "length ?pg - 13 \<le> 1011" using ok by (simp add: req_ok_def)
  qed
  have fd: "\<exists>x. stage_find E ?pg a d d ep w = Inr x"
    using x fc by (cases rule: fopen_cases [of E a w])
      (auto simp: stage_find_def fail_request_eq split: prod.splits)
  show ?thesis
    using a x fd stage_header_total [of ep d ?pg E w] stage_data_total [of ep d E w] t ok
    by (auto simp: write_http_response_def deref_def Let_def req_ok_def split: prod.splits)
qed

text \<open>Conversely, the only thing that can go wrong there is a read past an unterminated page.\<close>

lemma fastcgi_ub:
  assumes "write_http_fastcgi_response E addr port f off d ep w = Inl e"
    and "length (page (req_of ep f)) - off \<le> 1011"
  shows "e = OverRead"
proof (cases "terminated (drop off (page (req_of ep f)))")
  case True
  then show ?thesis using fastcgi_total [OF True assms(2), of E addr port d w] assms(1) by simp
next
  case False
  then show ?thesis using assms(1) by (simp add: write_http_fastcgi_response_def Let_def)
qed

lemma stage_header_ub:
  assumes "stage_header E pg d ep w = Inl e" and "fp (req_of ep d) \<noteq> None"
  shows "e = OverRead"
proof (cases "terminated pg")
  case True
  then show ?thesis using stage_header_total [OF assms(2) True, of E w] assms(1) by simp
next
  case False
  then show ?thesis using assms
    by (auto simp: stage_header_def get_file_type_def fail_request_eq Let_def split: if_splits)
qed

lemma stage_find_ub:
  assumes "stage_find E pg a d d ep w = Inl e" and ok: "req_ok (req_of ep d)"
  shows "e = OverRead"
proof -
  obtain x where x: "write_http_cgi_response E a d ep w = Inr x"
    using write_http_cgi_response_total [OF ok] by blast
  have "length (page (req_of ep d)) - 13 \<le> 1011" using ok by (simp add: req_ok_def)
  then show ?thesis
    using x assms(1) by (cases rule: fopen_cases [of E a w])
      (auto simp: stage_find_def fail_request_eq rbind_eq_Inl dest: fastcgi_ub split: prod.splits if_splits)
qed

lemma write_http_response_ub:
  assumes ok: "req_ok (req_of ep d)" and r: "write_http_response E d (Page d) ep w = Inl e"
  shows "e = OverRead \<and> \<not> terminated (page (req_of ep d))"
proof -
  let ?pg = "page (req_of ep d)"
  obtain a where a: "make_file_path ?pg = Inr a" using make_file_path_ok [of ?pg] by blast
  obtain x where x: "write_http_cgi_response E a d ep w = Inr x"
    using write_http_cgi_response_total [OF ok] by blast
  have "e = OverRead"
    using r a x stage_find_ub [of E ?pg a d ep w e] stage_header_ub [of E ?pg d ep w e]
      stage_data_total [of ep d E w] ok
    by (auto simp: write_http_response_def deref_def Let_def req_ok_def split: prod.splits if_splits)
  then show ?thesis using write_http_response_total [OF ok, of E w] r by auto
qed

lemma process_http_request_ub:
  "process_http_request E h r = Inl e \<Longrightarrow> e = OverRead \<or> e = BufferOverflow"
  by (auto simp: process_http_request_def store_page_def rbind_eq_Inl strncpy_def strcpy_def
      split: if_splits option.splits)

lemma ed_socket_callback_ub:
  assumes ok: "req_ok (req_of ep (ev_fd ev))" and dat: "dat \<in> {Null, Page (ev_fd ev)}"
    and r: "ed_socket_callback E ev dat ep w = Inl e"
  shows "e = OverRead \<or> e = BufferOverflow"
proof -
  have rd: "read_request E (ev_fd ev) x ep w = Inl e \<Longrightarrow> ?thesis" for x
    by (auto simp: read_request_def rbind_eq_Inl Let_def dest: process_http_request_ub split: option.splits)
  have wr: "write_http_response E (ev_fd ev) dat ep w = Inl e \<Longrightarrow> dat \<noteq> Null \<Longrightarrow> ?thesis"
    using dat write_http_response_ub [OF ok] by auto
  show ?thesis
    using r rd wr unfolding ed_socket_callback_def Let_def
    by (auto simp: rbind_eq_Inl split: if_splits prod.splits)
qed

section \<open>The dispatcher\<close>

text \<open>The callbacks this server registers.\<close>

definition sped_cbs :: "('a ed_client_scheme, 'b) ed_epoll_scheme \<Rightarrow> bool" where
  "sped_cbs ep \<longleftrightarrow> (\<forall>d. 0 \<le> d \<and> d < maxfds ep \<longrightarrow> callback (ed_clients ep d) \<noteq> Some Ed_reader_callback)"

lemma sped_cbs_upd [simp]:
  "sped_cbs (upd_req d f ep) = sped_cbs ep"
  "sped_cbs ep \<Longrightarrow> callback (g (ed_clients ep d)) \<noteq> Some Ed_reader_callback \<Longrightarrow> sped_cbs (upd_client d g ep)"
  "sped_cbs (ep\<lparr>fds_used := n\<rparr>) = sped_cbs ep"
  by (simp_all add: sped_cbs_def)

lemma sped_cbs_step: "req_step d ep ep' \<Longrightarrow> sped_cbs ep \<Longrightarrow> sped_cbs ep'"
  by (auto simp: req_step_def)

lemma sped_cbs_drop: "sped_cbs ep \<Longrightarrow> drop_conn E d ep w = (ep', w') \<Longrightarrow> sped_cbs ep'"
  by (auto simp: drop_conn_def ed_epoll_del_def Let_def split: prod.splits if_splits)

lemma sped_cbs_set: "sped_cbs ep \<Longrightarrow> ed_epoll_set E d evs x ep w = (rc, ep', w') \<Longrightarrow> sped_cbs ep'"
  by (auto simp: ed_epoll_set_def sped_cbs_def split: prod.splits if_splits)

lemma sped_cbs_add: "sped_cbs ep \<Longrightarrow> c \<noteq> Ed_reader_callback \<Longrightarrow>
    ed_epoll_add E d c x ep w = (rc, ep', w') \<Longrightarrow> sped_cbs ep'"
  by (auto simp: ed_epoll_add_def split: prod.splits if_splits)

lemma sped_cbs_accept: "sped_cbs ep \<Longrightarrow> accept_loop E ns ep w = (ep', w') \<Longrightarrow> sped_cbs ep'"
proof (induction E ns ep w rule: accept_loop.induct)
  case (2 E n ns ep w)
  show ?case
    using "2.prems" by (auto split: prod.splits if_splits dest: sped_cbs_add intro: "2.IH" [OF refl _ _ _ refl])
qed simp

lemma sped_cbs_read: "sped_cbs ep \<Longrightarrow> read_request E d rd ep w = Inr (ep', w') \<Longrightarrow> sped_cbs ep'"
proof -
  assume c: "sped_cbs ep"
  have f: "sped_cbs (fill_buffer d input ep)" for input
    using c by (auto simp: fill_buffer_def Let_def sped_cbs_def)
  have p: "sped_cbs a \<Longrightarrow> request_parsed E d rc r a w = (ep', w') \<Longrightarrow> sped_cbs ep'" for rc r a
    by (auto simp: request_parsed_def Let_def sped_cbs_def [of "upd_client _ _ _"] dest: sped_cbs_drop
        split: if_splits prod.splits) (erule sped_cbs_set [rotated], simp add: sped_cbs_def)
  show "read_request E d rd ep w = Inr (ep', w') \<Longrightarrow> sped_cbs ep'"
    using c f p by (auto simp: read_request_def Let_def rbind_eq_Inr split: option.splits)
qed

lemma sped_cbs_socket:
  assumes c: "sped_cbs ep" and dat: "dat \<in> {Null, Page (ev_fd ev)}"
    and r: "ed_socket_callback E ev dat ep w = Inr (ep', w')"
  shows "sped_cbs ep'"
proof -
  have wr: "sped_cbs ep1" if "write_http_response E (ev_fd ev) dat ep w = Inr (rc, ep1, w1)" "dat \<noteq> Null" for rc ep1 w1
  proof -
    have "dat = Page (ev_fd ev)" using that dat by simp
    then show ?thesis using write_http_response_step [of E "ev_fd ev" ep w] that c sped_cbs_step by blast
  qed
  show ?thesis
    using r c wr unfolding ed_socket_callback_def Let_def
    by (auto simp: rbind_eq_Inr split: if_splits prod.splits
        dest: sped_cbs_drop sped_cbs_set sped_cbs_read)
qed

text \<open>
  What \<open>epoll_wait\<close> may report: every descriptor at most once, and only descriptors of the
  interest set.
\<close>

definition kernel_events :: "world \<Rightarrow> epoll_event list \<Rightarrow> bool" where
  "kernel_events w evs \<longleftrightarrow> distinct (map ev_fd evs) \<and> (\<forall>ev\<in>set evs. w_interest w (ev_fd ev) \<noteq> None)"

definition sped_inv :: "sped \<Rightarrow> world \<Rightarrow> bool" where
  "sped_inv ep w \<longleftrightarrow> table_inv ep w \<and> sped_cbs ep"

text \<open>The outcome of handling events: the invariant again, or one of the two faults.\<close>

definition safe_outcome :: "(sped \<times> world) res \<Rightarrow> bool" where
  "safe_outcome x = (case x of Inl e \<Rightarrow> e = OverRead \<or> e = BufferOverflow
     | Inr (ep, w) \<Rightarrow> sped_inv ep w)"

lemma dispatch_safe:
  assumes "sped_inv ep w" and "kernel_events w evs"
  shows "safe_outcome (ed_epoll_dispatch_events E evs ep w)"
  using assms
proof (induction evs arbitrary: ep w)
  case Nil
  then show ?case by (simp add: safe_outcome_def)
next
  case (Cons ev evs)
  let ?d = "ev_fd ev" and ?c = "ed_clients ep (ev_fd ev)"
  from Cons.prems have inv: "table_inv ep w" and cb: "sped_cbs ep"
    and reg: "w_interest w ?d \<noteq> None" and k: "\<forall>e\<in>set evs. ev_fd e \<noteq> ?d" "kernel_events w evs"
    by (auto simp: sped_inv_def kernel_events_def image_iff)
  have rng: "0 \<le> ?d" "?d < maxfds ep" using table_invD(3) [OF inv reg] by simp_all
  have used: "0 < fds_used ep"
    using table_invD(1,2) [OF inv] reg by (auto simp: registered_def card_gt_0_iff)
  have cok: "client_ok ?c" using table_invD(6) [OF inv rng] .
  consider (acc) "callback ?c = Some Ed_accept_callback" | (sock) "callback ?c = Some Ed_socket_callback"
    using table_invD(4) [OF inv reg] cb rng unfolding sped_cbs_def by (metis cb.exhaust option.exhaust)
  then show ?case
  proof cases
    case acc
    obtain ep1 w1 where a: "accept_loop E (ev_accepts ev) ep w = (ep1, w1)" by fastforce
    have "sped_inv ep1 w1" "kernel_events w1 evs"
      using accept_loop_effect [OF inv a] sped_cbs_accept [OF cb a] k
      by (auto simp: sped_inv_def kernel_events_def)
    from Cons.IH [OF this] show ?thesis using acc rng used a by (simp add: ed_accept_callback_def Let_def)
  next
    case sock
    have dat: "data ?c \<in> {Null, Page ?d}" using table_invD(7) [OF inv reg sock] .
    show ?thesis
    proof (cases "ed_socket_callback E ev (data ?c) ep w")
      case (Inl e)
      have "req_ok (req_of ep ?d)" using cok by (simp add: client_ok_def req_of_def)
      from ed_socket_callback_ub [OF this dat Inl] Inl show ?thesis
        using sock rng used by (simp add: safe_outcome_def)
    next
      case (Inr x)
      then obtain ep1 w1 where s: "ed_socket_callback E ev (data ?c) ep w = Inr (ep1, w1)"
        by (cases x) auto
      have "sped_inv ep1 w1" "kernel_events w1 evs"
        using ed_socket_callback_effect [OF inv reg dat s] sped_cbs_socket [OF cb dat s] k
        by (auto simp: sped_inv_def kernel_events_def others_stay_def)
      from Cons.IH [OF this] show ?thesis using sock rng used s by (simp add: Let_def)
    qed
  qed
qed

section \<open>Start-up and the event loop\<close>

text \<open>
  The states the server goes through: from the table that \<open>main\<close> builds (an empty interest
  set, then the listener), by batches of kernel events.
\<close>

inductive sped_reach :: "env \<Rightarrow> sped \<Rightarrow> world \<Rightarrow> sped \<Rightarrow> world \<Rightarrow> bool" for E ep0 w0 where
  start: "sped_reach E ep0 w0 ep0 w0"
| batch: "sped_reach E ep0 w0 ep w \<Longrightarrow> kernel_events w evs \<Longrightarrow>
    ed_epoll_dispatch_events E evs ep w = Inr (ep', w') \<Longrightarrow> sped_reach E ep0 w0 ep' w'"

lemma sped_reach_inv: "sped_reach E ep0 w0 ep w \<Longrightarrow> sped_inv ep0 w0 \<Longrightarrow> sped_inv ep w"
proof (induction rule: sped_reach.induct)
  case (batch ep w evs ep' w')
  then show ?case using dispatch_safe [of ep w evs E] by (simp add: safe_outcome_def)
qed

text \<open>The loop of \<open>handle_epoll_events\<close> stays within the reachable states.\<close>

fun kernel_batches :: "env \<Rightarrow> epoll_event list list \<Rightarrow> sped \<Rightarrow> world \<Rightarrow> bool" where
  "kernel_batches E [] ep w = True"
| "kernel_batches E (evs # bs) ep w =
     (kernel_events w evs \<and> (case ed_epoll_dispatch_events E evs ep w of
        Inl _ \<Rightarrow> True | Inr (ep', w') \<Rightarrow> kernel_batches E bs ep' w'))"

lemma handle_epoll_events_safe:
  "sped_inv ep w \<Longrightarrow> kernel_batches E bs ep w \<Longrightarrow> safe_outcome (handle_epoll_events E bs ep w)"
proof (induction bs arbitrary: ep w)
  case (Cons evs bs)
  then have "safe_outcome (ed_epoll_dispatch_events E evs ep w)" by (simp add: dispatch_safe)
  with Cons show ?case
    by (cases "ed_epoll_dispatch_events E evs ep w") (auto simp: safe_outcome_def)
qed (simp add: safe_outcome_def)

text \<open>\<open>ed_epoll_init\<close> establishes the invariant, whatever was in the memory it got.\<close>

lemma ed_epoll_init_inv:
  assumes "ed_epoll_init E mem efd ev_mem ep maxf = (0, ep')" and "registered w = {}"
    and "e_errno E \<noteq> 0"
  shows "table_inv ep' w \<and> maxfds ep' = maxf"
  using assms by (auto simp: ed_epoll_init_def Let_def table_inv_def split: option.splits if_splits)

end
