(* ===== verification/Server_Socket.thy ===== *)
theory Server_Socket
  imports World
begin

text \<open>
  Start-up code that every server shares: \<open>set_signal_handlers\<close>, \<open>start_server_socket\<close> and
  \<open>close_socket\<close> of \<open>common.c\<close>. What the kernel answers to the calls made for one entry of
  the \<open>getaddrinfo\<close> list is a record; the list itself is \<open>None\<close> when \<open>getaddrinfo\<close> fails.
\<close>

record addrinfo =
  ai_sock :: fd        \<comment> \<open>what \<open>socket\<close> returns\<close>
  ai_reuse_ok :: bool  \<comment> \<open>\<open>setsockopt\<close> succeeds\<close>
  ai_bind_ok :: bool   \<comment> \<open>\<open>bind\<close> succeeds\<close>

record startup =
  su_signal_ok :: bool                  \<comment> \<open>\<open>signal (SIGPIPE, SIG_IGN)\<close> succeeds\<close>
  su_addrs :: "addrinfo list option"    \<comment> \<open>the result of \<open>getaddrinfo\<close>\<close>
  su_listen_ok :: bool                  \<comment> \<open>\<open>listen\<close> succeeds\<close>

text \<open>A new socket is a descriptor that was not open.\<close>

definition sys_socket :: "fd \<Rightarrow> world \<Rightarrow> fd \<times> world" where
  "sys_socket n w =
     (if n < 0 \<or> n \<in> w_open w then (- 1, w) else (n, w\<lparr>w_open := insert n (w_open w)\<rparr>))"

definition set_signal_handlers :: "startup \<Rightarrow> bool" where
  "set_signal_handlers su = su_signal_ok su"

definition close_socket :: "fd \<Rightarrow> world \<Rightarrow> world" where
  "close_socket d w = sys_close d w"

datatype bind_result = Bound fd | Gave_up | Exhausted

text \<open>The loop over the list: a socket that cannot be created or bound is given up for the
  next entry, a socket whose option cannot be set ends the attempt.\<close>

fun bind_first :: "addrinfo list \<Rightarrow> world \<Rightarrow> bind_result \<times> world" where
  "bind_first [] w = (Exhausted, w)"
| "bind_first (a # as) w =
     (let (sockfd, w1) = sys_socket (ai_sock a) w in
      if sockfd = -1 then bind_first as w1
      else if \<not> ai_reuse_ok a then (Gave_up, close_socket sockfd w1)
      else if \<not> ai_bind_ok a then bind_first as (close_socket sockfd w1)
      else (Bound sockfd, w1))"

text \<open>
  \<open>start_server_socket\<close>: the port is printed into six bytes; the second component tells
  whether the address list was freed.
\<close>

definition start_server_socket :: "startup \<Rightarrow> int \<Rightarrow> world \<Rightarrow> (int \<times> bool \<times> world) res" where
  "start_server_socket su server_port w =
     (if 6 \<le> length (show_int server_port) then Inl BufferOverflow
      else case su_addrs su of
        None \<Rightarrow> Inr (FAILURE, True, w)
      | Some as \<Rightarrow>
          (case bind_first as w of
             (Exhausted, w1) \<Rightarrow> Inr (FAILURE, False, w1)
           | (Gave_up, w1) \<Rightarrow> Inr (FAILURE, False, w1)
           | (Bound sockfd, w1) \<Rightarrow>
               if \<not> su_listen_ok su then Inr (FAILURE, True, close_socket sockfd w1)
               else Inr (sockfd, True, w1)))"

section \<open>No socket is leaked\<close>

text \<open>Two worlds agree on everything but the log of closed descriptors.\<close>

definition same_but_log :: "world \<Rightarrow> world \<Rightarrow> bool" where
  "same_but_log w w' \<longleftrightarrow> w_open w' = w_open w \<and> w_interest w' = w_interest w
     \<and> w_sent w' = w_sent w \<and> w_streams w' = w_streams w \<and> w_socks w' = w_socks w
     \<and> w_send_rets w' = w_send_rets w"

lemma socket_close:
  assumes "sys_socket n w = (d, w1)" and "d \<noteq> -1" and "\<forall>d. w_interest w d \<noteq> None \<longrightarrow> d \<in> w_open w"
  shows "same_but_log w (close_socket d w1)"
proof -
  have d: "d = n" "n \<notin> w_open w" "w1 = w\<lparr>w_open := insert n (w_open w)\<rparr>"
    using assms(1,2) by (auto simp: sys_socket_def split: if_splits)
  then have "(w_interest w)(n := None) = w_interest w" using assms(3) by (intro fun_upd_idem) blast
  then show ?thesis using d by (simp add: same_but_log_def close_socket_def)
qed

lemma same_but_log_trans: "same_but_log a b \<Longrightarrow> same_but_log b c \<Longrightarrow> same_but_log a c"
  by (simp add: same_but_log_def)

lemma bind_first_effect:
  assumes "bind_first as w = (r, w')" and "\<forall>d. w_interest w d \<noteq> None \<longrightarrow> d \<in> w_open w"
  shows "case r of
      Bound d \<Rightarrow> 0 \<le> d \<and> d \<notin> w_open w \<and> same_but_log (w\<lparr>w_open := insert d (w_open w)\<rparr>) w'
    | _ \<Rightarrow> same_but_log w w'"
  using assms
proof (induction as arbitrary: w)
  case Nil
  then show ?case by (auto simp: same_but_log_def)
next
  case (Cons a as)
  obtain s w1 where s: "sys_socket (ai_sock a) w = (s, w1)" by fastforce
  show ?case
  proof (cases "s = -1")
    case True
    then have "w1 = w" using s by (auto simp: sys_socket_def split: if_splits)
    with Cons True s show ?thesis by simp
  next
    case False
    have c: "same_but_log w (close_socket s w1)" using socket_close [OF s False Cons.prems(2)] .
    have n: "0 \<le> s" "s \<notin> w_open w" "w1 = w\<lparr>w_open := insert s (w_open w)\<rparr>"
      using s False by (auto simp: sys_socket_def split: if_splits)
    show ?thesis
    proof (cases "ai_reuse_ok a \<and> \<not> ai_bind_ok a")
      case True
      have prem: "bind_first as (close_socket s w1) = (r, w')"
        "\<forall>d. w_interest (close_socket s w1) d \<noteq> None \<longrightarrow> d \<in> w_open (close_socket s w1)"
        using Cons.prems True s False c by (auto simp: same_but_log_def)
      from Cons.IH [OF this] c show ?thesis
        by (cases r) (auto simp: same_but_log_def)
    next
      case nb: False
      with Cons.prems(1) s False c n show ?thesis
        by (auto simp: same_but_log_def split: if_splits)
    qed
  qed
qed

text \<open>
  The result is a listening socket that was not open before, and no other was opened; on
  every failure the set of open descriptors is what it was.
\<close>

lemma start_server_socket_effect:
  assumes "start_server_socket su port w = Inr (rc, freed, w')"
    and "\<forall>d. w_interest w d \<noteq> None \<longrightarrow> d \<in> w_open w"
  shows "(0 \<le> rc \<and> freed \<and> rc \<notin> w_open w \<and> same_but_log (w\<lparr>w_open := insert rc (w_open w)\<rparr>) w')
    \<or> (rc = -1 \<and> same_but_log w w')"
proof (cases "su_addrs su")
  case None
  with assms(1) show ?thesis by (auto simp: start_server_socket_def same_but_log_def split: if_splits)
next
  case (Some as)
  obtain r w1 where b: "bind_first as w = (r, w1)" by fastforce
  have eff: "case r of Bound d \<Rightarrow> 0 \<le> d \<and> d \<notin> w_open w \<and> same_but_log (w\<lparr>w_open := insert d (w_open w)\<rparr>) w1
    | _ \<Rightarrow> same_but_log w w1" using bind_first_effect [OF b assms(2)] .
  show ?thesis
  proof (cases r)
    case (Bound d)
    then have d: "0 \<le> d" "d \<notin> w_open w" "same_but_log (w\<lparr>w_open := insert d (w_open w)\<rparr>) w1"
      using eff by simp_all
    then have "(w_interest w)(d := None) = w_interest w" using assms(2) by (intro fun_upd_idem) blast
    then have "same_but_log w (close_socket d w1)"
      using d by (simp add: same_but_log_def close_socket_def)
    with d assms(1) Some b Bound show ?thesis
      by (auto simp: start_server_socket_def split: if_splits)
  qed (use assms(1) Some b eff in \<open>auto simp: start_server_socket_def split: if_splits\<close>)
qed

lemma start_server_socket_defined:
  assumes "0 < port" and "port \<le> 99999"
  shows "\<exists>x. start_server_socket su port w = Inr x"
proof -
  have "length (show_int port) \<le> 5"
    using assms length_show_nat_le [of "nat port" 5] by (simp add: show_int_def)
  then show ?thesis
    by (auto simp: start_server_socket_def split: option.split prod.split bind_result.split)
qed

text \<open>A port with six digits overflows the array it is printed into.\<close>

lemma start_server_socket_long_port:
  assumes "100000 \<le> port"
  shows "start_server_socket su port w = Inl BufferOverflow"
proof -
  have "5 < length (show_nat (nat port))"
    using assms by (intro length_show_nat_ge) simp
  then show ?thesis using assms by (simp add: start_server_socket_def show_int_def)
qed

end
