(* ===== verification/Sped_Main.thy ===== *)
theory Sped_Main
  imports Sped_Correct Server_Socket
begin

text \<open>
  \<open>main\<close> of \<open>web_server/ed_server.c\<close>: check the arguments, set up the epoll object and the
  listening socket, register it and enter the loop. Every state of the loop satisfies the
  invariant of the client table.
\<close>

datatype main_result = Exit int | Serving sped world

text \<open>
  \<open>argv\<close> is the argument vector, \<open>mem\<close>, \<open>efd\<close> and \<open>ev_mem\<close> are as in \<open>ed_epoll_init\<close>;
  \<open>ep0\<close> is the zeroed static object.
\<close>

definition sped_main :: "env \<Rightarrow> startup \<Rightarrow> string list \<Rightarrow> (fd \<Rightarrow> ed_client) option \<Rightarrow> fd \<Rightarrow> bool \<Rightarrow>
    sped \<Rightarrow> world \<Rightarrow> main_result res" where
  "sped_main E su argv mem efd ev_mem ep0 w =
     (if length argv < 2 \<or> atoi (argv ! 1) \<le> 0 then Inr (Exit 1)
      else if \<not> set_signal_handlers su then Inr (Exit 1)
      else
        let (rc, ep1) = ed_epoll_init E mem efd ev_mem ep0 MAX_ED_EVENTS in
        if rc \<noteq> 0 then Inr (Exit 1)
        else rbind (start_server_socket su (atoi (argv ! 1)) w) (\<lambda>(server_sockfd, _, w1).
          if server_sockfd < 0 then Inr (Exit 1)
          else if setnonblock E server_sockfd < 0 then Inr (Exit 1)
          else let (_, ep2, w2) = ed_epoll_add E server_sockfd Ed_accept_callback Null ep1 w1 in
               Inr (Serving ep2 w2)))"

text \<open>A process that has just started has nothing in its interest set.\<close>

definition boot :: "world \<Rightarrow> bool" where
  "boot w \<longleftrightarrow> (\<forall>d. w_interest w d = None)"

lemma sped_main_inv:
  assumes m: "sped_main E su argv mem efd ev_mem ep0 w = Inr (Serving ep w')"
    and b: "boot w" and e: "e_errno E \<noteq> 0"
  shows "sped_inv ep w'"
proof -
  obtain rc ep1 where i: "ed_epoll_init E mem efd ev_mem ep0 MAX_ED_EVENTS = (rc, ep1)" by fastforce
  with m have rc: "rc = 0" by (auto simp: sped_main_def split: if_splits)
  from m i rc obtain s fr w1 where
    s: "start_server_socket su (atoi (argv ! 1)) w = Inr (s, fr, w1)" and pos: "0 \<le> s"
    and add: "\<exists>x. ed_epoll_add E s Ed_accept_callback Null ep1 w1 = (x, ep, w')"
    by (auto simp: sped_main_def rbind_eq_Inr split: if_splits prod.splits)
  have w1: "same_but_log (w\<lparr>w_open := insert s (w_open w)\<rparr>) w1"
    using start_server_socket_effect [OF s] b pos by (auto simp: boot_def)
  have "registered w1 = {}" using w1 b by (simp add: same_but_log_def registered_def boot_def)
  from ed_epoll_init_inv [OF i [unfolded rc] this e] have inv: "table_inv ep1 w1" "maxfds ep1 = MAX_ED_EVENTS"
    by simp_all
  have cbs: "sped_cbs ep1"
    using i rc e by (auto simp: ed_epoll_init_def Let_def sped_cbs_def split: option.splits if_splits)
  have "s \<in> w_open w1" using w1 by (simp add: same_but_log_def)
  then show ?thesis
    using add table_inv_add [OF inv(1) pos, of E Ed_accept_callback] sped_cbs_add [OF cbs, of Ed_accept_callback]
    by (auto simp: sped_inv_def)
qed

lemma sped_main_reach:
  assumes "sped_main E su argv mem efd ev_mem ep0 w = Inr (Serving ep1 w1)"
    and "boot w" and "e_errno E \<noteq> 0" and "sped_reach E ep1 w1 ep w'" and "kernel_events w' evs"
  shows "sped_inv ep w' \<and> safe_outcome (ed_epoll_dispatch_events E evs ep w')"
  using sped_reach_inv [OF assms(4) sped_main_inv [OF assms(1-3)]] dispatch_safe assms(5) by blast

end
