(* ===== verification/Bounded_Fifo.thy ===== *)
theory Bounded_Fifo
  imports Prelude
begin

text \<open>
  The contract of a bounded queue. The FastCGI server keeps its accepted requests in one, the
  threaded server hands connections to its threads through one, and both rely on the same
  laws: what was put in comes out, once, in order, and never more than the capacity is held.
  The locale states the laws and proves what follows for any sequence of operations.
\<close>

datatype 'a qop = Put 'a | Get

text \<open>
  Run a sequence of operations; the result lists the elements that were accepted and those
  that came out, in order. An operation that is refused changes nothing.
\<close>

fun q_exec :: "('a \<Rightarrow> 'q \<Rightarrow> 'q option) \<Rightarrow> ('q \<Rightarrow> ('a \<times> 'q) option) \<Rightarrow> 'a qop list \<Rightarrow> 'q \<Rightarrow>
    'a list \<times> 'a list \<times> 'q" where
  "q_exec put get [] q = ([], [], q)"
| "q_exec put get (Put x # ops) q =
     (case put x q of
        None \<Rightarrow> q_exec put get ops q
      | Some q1 \<Rightarrow> let (acc, got, q2) = q_exec put get ops q1 in (x # acc, got, q2))"
| "q_exec put get (Get # ops) q =
     (case get q of
        None \<Rightarrow> q_exec put get ops q
      | Some (x, q1) \<Rightarrow> let (acc, got, q2) = q_exec put get ops q1 in (acc, x # got, q2))"

locale bounded_fifo =
  fixes put :: "'a \<Rightarrow> 'q \<Rightarrow> 'q option"
    and get :: "'q \<Rightarrow> ('a \<times> 'q) option"
    and contents :: "'q \<Rightarrow> 'a list"
    and inv :: "'q \<Rightarrow> bool"
    and cap :: "'q \<Rightarrow> nat"
  assumes bound: "inv q \<Longrightarrow> length (contents q) \<le> cap q"
    and put_room: "inv q \<Longrightarrow> length (contents q) < cap q \<Longrightarrow>
      \<exists>q'. put x q = Some q' \<and> inv q' \<and> contents q' = contents q @ [x] \<and> cap q' = cap q"
    and put_full: "inv q \<Longrightarrow> length (contents q) = cap q \<Longrightarrow> put x q = None"
    and get_some: "inv q \<Longrightarrow> contents q = x # xs \<Longrightarrow>
      \<exists>q'. get q = Some (x, q') \<and> inv q' \<and> contents q' = xs \<and> cap q' = cap q"
    and get_none: "inv q \<Longrightarrow> contents q = [] \<Longrightarrow> get q = None"
begin

lemma put_cases:
  assumes "inv q"
  shows "(put x q = None \<and> length (contents q) = cap q) \<or>
    (\<exists>q'. put x q = Some q' \<and> inv q' \<and> contents q' = contents q @ [x] \<and> cap q' = cap q)"
  using bound [OF assms] put_room [OF assms] put_full [OF assms] by (metis nat_less_le)

lemma get_cases:
  assumes "inv q"
  shows "(get q = None \<and> contents q = []) \<or>
    (\<exists>x xs q'. get q = Some (x, q') \<and> contents q = x # xs \<and> inv q' \<and> contents q' = xs \<and> cap q' = cap q)"
  using get_some [OF assms] get_none [OF assms] by (cases "contents q") auto

text \<open>Nothing is lost, duplicated or reordered.\<close>

lemma fifo:
  assumes "inv q" and "q_exec put get ops q = (acc, got, q')"
  shows "inv q' \<and> cap q' = cap q \<and> contents q @ acc = got @ contents q'"
  using assms
proof (induction ops arbitrary: q acc got)
  case Nil
  then show ?case by simp
next
  case (Cons oper ops)
  show ?case
  proof (cases oper)
    case (Put x)
    show ?thesis
    proof (cases "put x q")
      case None
      with Cons Put show ?thesis by auto
    next
      case (Some q1)
      then have q1: "inv q1" "contents q1 = contents q @ [x]" "cap q1 = cap q"
        using put_cases [OF Cons.prems(1), of x] by auto
      obtain a where a: "q_exec put get ops q1 = (a, got, q')" "acc = x # a"
        using Cons.prems(2) Put Some by (auto split: prod.splits)
      from Cons.IH [OF q1(1) a(1)] q1 a(2) show ?thesis by simp
    qed
  next
    case Get
    show ?thesis
    proof (cases "get q")
      case None
      with Cons Get show ?thesis by auto
    next
      case (Some y)
      then obtain x xs q1 where q1: "get q = Some (x, q1)" "contents q = x # xs" "inv q1" "contents q1 = xs" "cap q1 = cap q"
        using get_cases [OF Cons.prems(1)] by auto
      obtain g where g: "q_exec put get ops q1 = (acc, g, q')" "got = x # g"
        using Cons.prems(2) Get q1(1) by (auto split: prod.splits)
      from Cons.IH [OF q1(3) g(1)] q1 g(2) show ?thesis by simp
    qed
  qed
qed

text \<open>The queue behaves as a list with a length limit (functional refinement).\<close>

lemma refines_put: "inv q \<Longrightarrow> map_option contents (put x q) =
    (if length (contents q) < cap q then Some (contents q @ [x]) else None)"
  using put_cases [of q x] put_full [of q x] bound [of q] by auto

lemma refines_get: "inv q \<Longrightarrow> map_option (map_prod id contents) (get q) =
    (case contents q of [] \<Rightarrow> None | x # xs \<Rightarrow> Some (x, xs))"
  using get_cases [of q] by auto

end

end
