(* ===== verification/Fastcgi_Queue.thy ===== *)
theory Fastcgi_Queue
  imports Bounded_Fifo Http_Response
begin

text \<open>
  The request queue of an application in \<open>fastcgi_server.c\<close>: the struct \<open>apps_info_t\<close> of
  \<open>fastcgi_server.h\<close>, the insertion in \<open>accept_fastcgi_requests\<close> and the removal in
  \<open>run_app_by_thread\<close>. The flag \<open>is_queue_full\<close> tells a full ring from an empty one.
\<close>

abbreviation APP_NAME_LEN :: nat where "APP_NAME_LEN \<equiv> 256"
abbreviation MAX_REQUESTS :: nat where "MAX_REQUESTS \<equiv> 64"

record apps_info =
  thread_count :: int
  app_name :: string
  accepted_requests :: "fd list"
  get_index :: nat
  put_index :: nat
  is_queue_full :: bool

text \<open>\<open>if (++index == MAX_REQUESTS) index = 0\<close>\<close>

definition advance :: "nat \<Rightarrow> nat" where
  "advance i = (if Suc i = MAX_REQUESTS then 0 else Suc i)"

definition put_request :: "fd \<Rightarrow> apps_info \<Rightarrow> apps_info option" where
  "put_request fd a =
     (if is_queue_full a then None
      else
        let a1 = a\<lparr>accepted_requests := (accepted_requests a)[put_index a := fd],
                   put_index := advance (put_index a)\<rparr> in
        Some (if get_index a1 = put_index a1 then a1\<lparr>is_queue_full := True\<rparr> else a1))"

text \<open>The test a worker makes before it takes a request.\<close>

definition queue_empty :: "apps_info \<Rightarrow> bool" where
  "queue_empty a \<longleftrightarrow> get_index a = put_index a \<and> \<not> is_queue_full a"

definition get_request :: "apps_info \<Rightarrow> (fd \<times> apps_info) option" where
  "get_request a =
     (if queue_empty a then None
      else Some (accepted_requests a ! get_index a,
                 a\<lparr>get_index := advance (get_index a), is_queue_full := False\<rparr>))"

section \<open>The queue is a bounded FIFO\<close>

definition queue_inv :: "apps_info \<Rightarrow> bool" where
  "queue_inv a \<longleftrightarrow> length (accepted_requests a) = MAX_REQUESTS \<and> get_index a < MAX_REQUESTS
     \<and> put_index a < MAX_REQUESTS \<and> (is_queue_full a \<longrightarrow> get_index a = put_index a)"

definition queue_len :: "apps_info \<Rightarrow> nat" where
  "queue_len a = (if is_queue_full a then MAX_REQUESTS
     else (MAX_REQUESTS + put_index a - get_index a) mod MAX_REQUESTS)"

definition queued :: "apps_info \<Rightarrow> fd list" where
  "queued a = ring_read (accepted_requests a) (get_index a) (queue_len a)"

lemma length_queued [simp]: "length (queued a) = queue_len a"
  by (simp add: queued_def)

lemma queued_Nil: "queued a = [] \<longleftrightarrow> queue_len a = 0"
  by (metis length_queued length_0_conv)

lemma advance_mod: "i < MAX_REQUESTS \<Longrightarrow> advance i = Suc i mod MAX_REQUESTS"
  by (auto simp: advance_def)

lemma queue_len_bound: "queue_len a \<le> MAX_REQUESTS"
  by (simp add: queue_len_def less_imp_le_nat)

lemma queue_len_cases:
  assumes "queue_inv a"
  shows "queue_len a = (if is_queue_full a then MAX_REQUESTS
     else if get_index a \<le> put_index a then put_index a - get_index a
     else MAX_REQUESTS + put_index a - get_index a)"
proof -
  have "(MAX_REQUESTS + put_index a - get_index a) mod MAX_REQUESTS =
      (if get_index a \<le> put_index a then put_index a - get_index a
       else MAX_REQUESTS + put_index a - get_index a)"
    using assms by (auto simp: queue_inv_def mod_if)
  then show ?thesis by (simp add: queue_len_def)
qed

lemma put_index_of: "queue_inv a \<Longrightarrow> put_index a = (get_index a + queue_len a) mod MAX_REQUESTS"
  by (auto simp: queue_len_cases) (auto simp: queue_inv_def mod_if)

lemma queue_len_full: "queue_inv a \<Longrightarrow> is_queue_full a \<longleftrightarrow> queue_len a = MAX_REQUESTS"
  by (auto simp: queue_len_cases) (auto simp: queue_inv_def split: if_splits)

lemma queue_empty_len: "queue_inv a \<Longrightarrow> queue_empty a \<longleftrightarrow> queue_len a = 0"
  by (auto simp: queue_len_cases queue_empty_def) (auto simp: queue_inv_def split: if_splits)

lemma put_request_ok:
  assumes inv: "queue_inv a" and room: "\<not> is_queue_full a"
  obtains a' where "put_request x a = Some a'" "queue_inv a'" "queued a' = queued a @ [x]"
    "queue_len a' = Suc (queue_len a)"
proof -
  obtain a' where p: "put_request x a = Some a'" using room by (auto simp: put_request_def Let_def)
  have f: "get_index a' = get_index a" "put_index a' = advance (put_index a)"
    "accepted_requests a' = (accepted_requests a)[put_index a := x]"
    "is_queue_full a' \<longleftrightarrow> get_index a = advance (put_index a)"
    using p room by (auto simp: put_request_def Let_def split: if_splits)
  have inv': "queue_inv a'"
    using inv f by (auto simp: queue_inv_def advance_def)
  have len: "queue_len a' = Suc (queue_len a)"
    using inv room f by (simp add: queue_len_cases [OF inv] queue_len_cases [OF inv'])
      (auto simp: queue_inv_def advance_def)
  have lt: "queue_len a < length (accepted_requests a)"
    using len queue_len_bound [of a'] inv by (simp add: queue_inv_def)
  have "queued a' = queued a @ [x]"
    unfolding queued_def len f using ring_read_snoc [OF lt, of "get_index a" x] put_index_of [OF inv] inv
    by (simp add: queue_inv_def)
  with p inv' len show ?thesis using that by blast
qed

lemma get_request_ok:
  assumes inv: "queue_inv a" and ne: "\<not> queue_empty a"
  obtains a' where "get_request a = Some (hd (queued a), a')" "queue_inv a'" "queued a' = tl (queued a)"
    "queue_len a = Suc (queue_len a')"
proof -
  let ?a = "a\<lparr>get_index := advance (get_index a), is_queue_full := False\<rparr>"
  have g: "get_request a = Some (accepted_requests a ! get_index a, ?a)"
    using ne by (simp add: get_request_def)
  have inv': "queue_inv ?a" using inv by (auto simp: queue_inv_def advance_def)
  have len: "queue_len a = Suc (queue_len ?a)"
    using inv ne by (simp add: queue_len_cases [OF inv] queue_len_cases [OF inv'] queue_empty_def)
      (auto simp: queue_inv_def advance_def)
  have n: "length (accepted_requests a) = MAX_REQUESTS" "get_index a < MAX_REQUESTS"
    using inv by (simp_all add: queue_inv_def)
  have "queued a = accepted_requests a ! get_index a # queued ?a"
    unfolding queued_def len ring_read_Cons
    using n ring_read_mod [of "accepted_requests a" "Suc (get_index a)"] by (simp add: advance_mod)
  then show ?thesis using that g inv' len by simp
qed

interpretation request_queue: bounded_fifo put_request get_request queued queue_inv "\<lambda>_. MAX_REQUESTS"
proof
  fix a x assume inv: "queue_inv a"
  show "length (queued a) \<le> MAX_REQUESTS" by (simp add: queue_len_bound)
  show "length (queued a) < MAX_REQUESTS \<Longrightarrow>
      \<exists>a'. put_request x a = Some a' \<and> queue_inv a' \<and> queued a' = queued a @ [x] \<and> MAX_REQUESTS = MAX_REQUESTS"
    using put_request_ok [OF inv, of x] queue_len_full [OF inv] by (metis length_queued nat_neq_iff)
  show "length (queued a) = MAX_REQUESTS \<Longrightarrow> put_request x a = None"
    using queue_len_full [OF inv] by (simp add: put_request_def)
  show "queued a = x # xs \<Longrightarrow>
      \<exists>a'. get_request a = Some (x, a') \<and> queue_inv a' \<and> queued a' = xs \<and> MAX_REQUESTS = MAX_REQUESTS" for xs
    using get_request_ok [OF inv] queue_empty_len [OF inv] length_queued [of a] by (metis list.sel(1,3) length_Cons nat.distinct(1))
  show "queued a = [] \<Longrightarrow> get_request a = None"
    using queue_empty_len [OF inv] length_queued [of a] by (simp add: get_request_def)
qed

text \<open>The frame of both operations: the application keeps its name.\<close>

lemma put_request_frame: "put_request x a = Some a' \<Longrightarrow> app_name a' = app_name a \<and> thread_count a' = thread_count a"
  by (auto simp: put_request_def Let_def split: if_splits)

end
