(* ===== verification/Scan.thy ===== *)
theory Scan
  imports C_Library
begin

text \<open>
  The conversions of the \<open>scanf\<close> family that the sources use: \<open>%d\<close>, \<open>%s\<close> and white space,
  with the round trip of what \<open>%d\<close> prints.
\<close>

text \<open>\<open>%d\<close>, \<open>%s\<close> and white space of \<open>fscanf\<close>.\<close>

definition scan_ws :: "string \<Rightarrow> string" where
  "scan_ws s = dropWhile isspace s"

definition scan_digits :: "string \<Rightarrow> (nat \<times> string) option" where
  "scan_digits s = (if s \<noteq> [] \<and> isdigit (hd s) then Some (read_nat s, dropWhile isdigit s) else None)"

definition scan_int :: "string \<Rightarrow> (int \<times> string) option" where
  "scan_int s =
     (case scan_ws s of
        [] \<Rightarrow> None
      | c # s1 \<Rightarrow>
          if c = CHR ''-'' then map_option (\<lambda>(n, r). (- int n, r)) (scan_digits s1)
          else if c = CHR ''+'' then map_option (\<lambda>(n, r). (int n, r)) (scan_digits s1)
          else map_option (\<lambda>(n, r). (int n, r)) (scan_digits (c # s1)))"

text \<open>\<open>%d\<close> into an \<open>int\<close>: a number outside its range is undefined behaviour.\<close>

definition scan_d :: "string \<Rightarrow> (int \<times> string) option res" where
  "scan_d s =
     (case scan_int s of
        None \<Rightarrow> Inr None
      | Some (i, r) \<Rightarrow> if int_range i then Inr (Some (i, r)) else Inl IntOverflow)"

definition scan_word :: "string \<Rightarrow> (string \<times> string) option" where
  "scan_word s = (let s1 = scan_ws s; v = takeWhile (\<lambda>c. \<not> isspace c) s1 in
     if v = [] then None else Some (v, dropWhile (\<lambda>c. \<not> isspace c) s1))"

lemma isspace_LF [simp]: "isspace (CHR 0x0A)" by (simp add: isspace_def)
lemma not_isdigit_LF [simp]: "\<not> isdigit (CHR 0x0A)" by (simp add: isdigit_def)

lemma digit_not_space: "isdigit c \<Longrightarrow> \<not> isspace c"
  by (auto simp: isdigit_def isspace_def)

lemma scan_int_show:
  assumes "0 \<le> i" and "t = [] \<or> \<not> isdigit (hd t)"
  shows "scan_int (show_int i @ t) = Some (i, t)"
proof -
  obtain c s where cs: "show_nat (nat i) = c # s" "isdigit c" by (rule show_nat_Cons)
  have d: "\<forall>x\<in>set (c # s). isdigit x" using show_nat_digits [of "nat i"] cs by simp
  then have dw: "dropWhile isdigit ((c # s) @ t) = t"
    using assms(2) by (cases t) (auto simp: dropWhile_append)
  have r: "read_nat ((c # s) @ t) = nat i"
    using read_nat_show_nat [OF assms(2), of "nat i"] cs by simp
  have c: "\<not> isspace c" "c \<noteq> CHR ''-''" "c \<noteq> CHR ''+''" "c \<noteq> CHR ''-''"
    using cs(2) digit_not_space by (auto simp: isdigit_def)
  show ?thesis
    using assms(1) cs c r dw
    by (simp add: scan_int_def scan_ws_def show_int_def scan_digits_def)
qed

lemma scan_d_show:
  assumes "0 \<le> i" and "i \<le> INT_MAX" and "t = [] \<or> \<not> isdigit (hd t)"
  shows "scan_d (show_int i @ t) = Inr (Some (i, t))"
  using scan_int_show [OF assms(1,3)] assms(1,2) by (simp add: scan_d_def int_range_def)

lemma scan_word_text:
  assumes "name \<noteq> []" and "\<forall>c\<in>set name. \<not> isspace c"
  shows "scan_word (name @ CHR 0x0A # t) = Some (name, CHR 0x0A # t)"
proof -
  have "dropWhile isspace (name @ CHR 0x0A # t) = name @ CHR 0x0A # t"
    using assms by (cases name) auto
  moreover have "takeWhile (\<lambda>c. \<not> isspace c) (name @ CHR 0x0A # t) = name"
    using assms(2) by (intro takeWhile_append_stop) auto
  moreover have "dropWhile (\<lambda>c. \<not> isspace c) (name @ CHR 0x0A # t) = CHR 0x0A # t"
    using assms(2) by (subst dropWhile_append2) auto
  ultimately show ?thesis using assms(1) by (simp add: scan_word_def scan_ws_def Let_def)
qed

lemma scan_word_end:
  assumes "name \<noteq> []" and "\<forall>c\<in>set name. \<not> isspace c"
  shows "scan_word name = Some (name, [])"
proof -
  have a: "dropWhile isspace name = name" using assms by (cases name) auto
  have b: "takeWhile (\<lambda>c. \<not> isspace c) name = name" using assms(2) by (simp add: takeWhile_eq_all_conv)
  have c: "dropWhile (\<lambda>c. \<not> isspace c) name = []" using assms(2) by (simp add: dropWhile_eq_Nil_conv)
  show ?thesis unfolding scan_word_def scan_ws_def Let_def a b c using assms(1) by simp
qed

lemma scan_ws_space:
  "scan_int (CHR '' '' # s) = scan_int s" "scan_d (CHR '' '' # s) = scan_d s" "scan_word (CHR '' '' # s) = scan_word s"
  by (simp_all add: scan_d_def scan_int_def scan_word_def scan_ws_def isspace_def)

end
