(* ===== verification/Fastcgi_Server.thy ===== *)
theory Fastcgi_Server
  imports Fastcgi_Queue Server_Socket Scan
begin

text \<open>
  The FastCGI server, \<open>fastcgi_server.c\<close> (the same file in the three servers): its
  configuration file, the thread pools, the loop that accepts requests and queues them by
  application, and the call of a plugin on a request. A connection is the list of segments
  that successive \<open>read\<close>s see.
\<close>

section \<open>The configuration file\<close>

text \<open>\<open>fscanf (fp, "%d-%s\n", \<dots>)\<close>, \<open>None\<close> when a conversion fails.\<close>

definition scan_app :: "string \<Rightarrow> (int \<times> string \<times> string) option res" where
  "scan_app s =
     rbind (scan_d s) (\<lambda>r. Inr
       (case r of
          None \<Rightarrow> None
        | Some (tc, s1) \<Rightarrow>
            (case s1 of
               [] \<Rightarrow> None
             | c # s2 \<Rightarrow>
                 if c \<noteq> CHR ''-'' then None
                 else case scan_word s2 of
                   None \<Rightarrow> None
                 | Some (name, s3) \<Rightarrow> Some (tc, name, scan_ws s3))))"

definition new_app :: "int \<Rightarrow> string \<Rightarrow> apps_info" where
  "new_app tc name = \<lparr>thread_count = tc, app_name = name @ zeros (APP_NAME_LEN - length name),
     accepted_requests = replicate MAX_REQUESTS 0, get_index = 0, put_index = 0, is_queue_full = False\<rparr>"

text \<open>
  The loop over the entries. \<open>mok n\<close>: an allocation for \<open>n\<close> elements succeeds; a negative
  count becomes a size no allocation can serve. \<open>Inr None\<close> is the early return on a failed
  allocation. What is left in the array behind the name does not matter to the program; here
  it is zero.
\<close>

fun read_apps :: "(int \<Rightarrow> bool) \<Rightarrow> nat \<Rightarrow> string \<Rightarrow> apps_info list option res" where
  "read_apps mok 0 s = Inr (Some [])"
| "read_apps mok (Suc k) s =
     rbind (scan_app s) (\<lambda>r. case r of
        None \<Rightarrow> Inl Uninit
      | Some (tc, name, s1) \<Rightarrow>
          if APP_NAME_LEN \<le> length name then Inl BufferOverflow
          else if tc < 0 \<or> \<not> mok tc then Inr None
          else rbind (read_apps mok k s1) (\<lambda>as. Inr (map_option (\<lambda>xs. new_app tc name # xs) as)))"

definition read_fastcgi_config :: "env \<Rightarrow> (int \<Rightarrow> bool) \<Rightarrow> world \<Rightarrow> (int \<times> apps_info list \<times> world) res" where
  "read_fastcgi_config E mok w =
     (case fopen E ''fastcgi.config'' w of
        (None, w1) \<Rightarrow> Inr (FAILURE, [], w1)
      | (Some st, w1) \<Rightarrow>
          rbind (scan_d (s_rest st)) (\<lambda>r. case r of
             None \<Rightarrow> Inl Uninit
           | Some (n, s1) \<Rightarrow>
               if n < 0 \<or> \<not> mok n then Inr (FAILURE, [], fclose w1)
               else rbind (read_apps mok (nat n) (scan_ws s1)) (\<lambda>as.
                 case as of None \<Rightarrow> Inr (FAILURE, [], fclose w1)
                          | Some xs \<Rightarrow> Inr (SUCCESS, xs, fclose w1))))"

text \<open>The threads that \<open>create_app_threads\<close> starts, as pairs of application and number;
  \<open>ok i j\<close>: \<open>pthread_create\<close> succeeds.\<close>

definition create_app_threads :: "(nat \<Rightarrow> nat \<Rightarrow> bool) \<Rightarrow> apps_info list \<Rightarrow> (nat \<times> nat) list" where
  "create_app_threads ok apps =
     concat (map (\<lambda>i. map (Pair i) (filter (ok i) [0..<nat (thread_count (apps ! i))])) [0..<length apps])"

section \<open>Accepting requests\<close>

text \<open>What descriptor 1 refers to: where it pointed when the server started, or a connection.\<close>

datatype sink = Terminal | Conn fd

record fcgi =
  apps :: "apps_info list"
  app_index :: int                      \<comment> \<open>the local variable, kept from request to request\<close>
  conn_in :: "fd \<Rightarrow> string list"        \<comment> \<open>what is still to be read from a queued connection\<close>
  stdout_fd :: sink                     \<comment> \<open>standard output, which all threads share\<close>
  stdout_buf :: string                  \<comment> \<open>the buffer of the stream \<open>stdout\<close>\<close>
  terminal :: string                    \<comment> \<open>what was written to the output of the start\<close>

record fcgi_conn =
  fc_fd :: fd                           \<comment> \<open>what \<open>accept\<close> returned\<close>
  fc_in :: "string list"                \<comment> \<open>its segments\<close>
  fc_lock_ok :: bool                    \<comment> \<open>\<open>pthread_mutex_lock\<close> succeeds\<close>

text \<open>\<open>read\<close> returns what is there, up to the count.\<close>

definition sock_read :: "nat \<Rightarrow> string list \<Rightarrow> string \<times> string list" where
  "sock_read n segs =
     (case segs of
        [] \<Rightarrow> ([], [])
      | c # cs \<Rightarrow> if n = 0 then ([], segs)
                   else (take n c, if length c \<le> n then cs else drop n c # cs))"

text \<open>\<open>read\<close> into a zeroed array; a negative count is a size above \<open>SSIZE_MAX\<close>, which
  \<open>read\<close> refuses.\<close>

definition read_buf :: "nat \<Rightarrow> int \<Rightarrow> string list \<Rightarrow> (string \<times> string list) res" where
  "read_buf sz n segs =
     (if n < 0 then Inr (zeros sz, segs)
      else let (bs, segs') = sock_read (nat n) segs in
        if length bs \<le> sz then Inr (blit (zeros sz) 0 bs, segs') else Inl BufferOverflow)"

text \<open>The search loop leaves \<open>app_index\<close> alone when there is no match.\<close>

definition find_app :: "apps_info list \<Rightarrow> string \<Rightarrow> int \<Rightarrow> int" where
  "find_app as name old =
     (case find (\<lambda>i. strcmp_eq name (app_name (as ! i))) [0..<length as] of
        None \<Rightarrow> old | Some i \<Rightarrow> int i)"

definition refuse :: "env \<Rightarrow> int \<Rightarrow> fd \<Rightarrow> fcgi \<Rightarrow> world \<Rightarrow> (fcgi \<times> world) res" where
  "refuse E code d s w = rbind (write_http_response_error E code d w) (\<lambda>(_, w'). Inr (s, close_socket d w'))"

definition accept_request :: "env \<Rightarrow> fcgi_conn \<Rightarrow> fcgi \<Rightarrow> world \<Rightarrow> (fcgi \<times> world) res" where
  "accept_request E c s w =
     (let d = fc_fd c in
      if d < 0 then Inr (s, w)
      else
        rbind (read_buf 4 3 (fc_in c)) (\<lambda>(app_len_str, in1).
        rbind (read_buf APP_NAME_LEN (atoi app_len_str) in1) (\<lambda>(name, in2).
        let i = find_app (apps s) name (app_index s);
            s1 = s\<lparr>app_index := i\<rparr> in
        if i \<noteq> -1 then
          (if \<not> fc_lock_ok c then refuse E 500 d s1 w
           else case put_request d (apps s ! nat i) of
             None \<Rightarrow> refuse E 500 d s1 w
           | Some a \<Rightarrow> Inr (s1\<lparr>apps := (apps s)[nat i := a], conn_in := (conn_in s)(d := in2)\<rparr>, w))
        else refuse E 404 d s1 w)))"

fun accept_fastcgi_requests :: "env \<Rightarrow> fcgi_conn list \<Rightarrow> fcgi \<Rightarrow> world \<Rightarrow> (fcgi \<times> world) res" where
  "accept_fastcgi_requests E [] s w = Inr (s, w)"
| "accept_fastcgi_requests E (c # cs) s w =
     rbind (accept_request E c s w) (\<lambda>(s1, w1). accept_fastcgi_requests E cs s1 w1)"

section \<open>Serving a request\<close>

type_synonym plugin = "string \<Rightarrow> string res"

text \<open>
  \<open>load_plugin_func\<close>: \<open>dl lib sym\<close> stands for the dynamic loader. The library's name is
  printed into 1024 bytes.
\<close>

definition load_plugin_func :: "(string \<Rightarrow> string \<Rightarrow> plugin option) \<Rightarrow> string \<Rightarrow> plugin option res" where
  "load_plugin_func dl name =
     (if \<not> terminated name then Inl OverRead
      else let libname = ''./lib'' @ cstr name @ ''.so'' in
        if MAX_LINE \<le> length libname then Inl BufferOverflow else Inr (dl libname (cstr name)))"

text \<open>
  Writing to descriptor 1 and \<open>fflush (stdout)\<close>. A connection is blocking, so all bytes are
  written.
\<close>

definition stdout_write :: "string \<Rightarrow> fcgi \<times> world \<Rightarrow> fcgi \<times> world" where
  "stdout_write bs = (\<lambda>(s, w).
     case stdout_fd s of
       Terminal \<Rightarrow> (s\<lparr>terminal := terminal s @ bs\<rparr>, w)
     | Conn d \<Rightarrow> (s, w\<lparr>w_sent := (w_sent w)(d := w_sent w d @ bs)\<rparr>))"

definition fflush_stdout :: "fcgi \<times> world \<Rightarrow> fcgi \<times> world" where
  "fflush_stdout = (\<lambda>(s, w). stdout_write (stdout_buf s) (s\<lparr>stdout_buf := []\<rparr>, w))"

text \<open>\<open>printf\<close>: the text goes to the buffer of the stream, and the library writes out the first
  \<open>n\<close> bytes of the buffer on its own account (it is full, or a line ended); how many is not the
  program's choice.\<close>

definition printf_stdout :: "nat \<Rightarrow> string \<Rightarrow> fcgi \<times> world \<Rightarrow> fcgi \<times> world" where
  "printf_stdout n out = (\<lambda>(s, w).
     let buf = stdout_buf s @ out in stdout_write (take n buf) (s\<lparr>stdout_buf := drop n buf\<rparr>, w))"

text \<open>\<open>dup (STDOUT_FILENO)\<close>: the new descriptor refers to what descriptor 1 refers to.\<close>

definition dup_stdout :: "fd \<Rightarrow> fcgi \<times> world \<Rightarrow> sink \<times> fcgi \<times> world" where
  "dup_stdout bkp = (\<lambda>(s, w). (stdout_fd s, s, if bkp < 0 then w else w\<lparr>w_open := insert bkp (w_open w)\<rparr>))"

text \<open>\<open>dup2 (from, STDOUT_FILENO)\<close>, where \<open>d\<close> is what \<open>from\<close> refers to; it fails, and the result is not
  tested, when \<open>from\<close> is the \<open>-1\<close> of a failed \<open>dup\<close>.\<close>

definition dup2_stdout :: "fd \<Rightarrow> sink \<Rightarrow> fcgi \<times> world \<Rightarrow> fcgi \<times> world" where
  "dup2_stdout from d = (\<lambda>(s, w). (if from < 0 then s else s\<lparr>stdout_fd := d\<rparr>, w))"

text \<open>
  \<open>call_plugin_function\<close>: read the query, point standard output to the connection, run the
  plugin, flush, point standard output back, close the connection. \<open>stdout_bkp\<close> is what
  \<open>dup (STDOUT_FILENO)\<close> returns (negative when there is no descriptor left), and \<open>n\<close> how much
  of the output the library writes before it is flushed.
\<close>

definition call_plugin_function :: "fd \<Rightarrow> plugin \<Rightarrow> fd \<Rightarrow> nat \<Rightarrow> fcgi \<Rightarrow> world \<Rightarrow> (fcgi \<times> world) res" where
  "call_plugin_function sockfd plugin_func stdout_bkp n s w =
     rbind (read_buf 4 3 (conn_in s sockfd)) (\<lambda>(query_len_str, in1).
     rbind (if 0 < atoi query_len_str then read_buf APP_NAME_LEN (atoi query_len_str) in1
            else Inr (zeros APP_NAME_LEN, in1)) (\<lambda>(query_str, in2).
     let x1 = fflush_stdout (s\<lparr>conn_in := (conn_in s)(sockfd := in2)\<rparr>, w);
         (bkp, x2) = dup_stdout stdout_bkp x1;
         x3 = dup2_stdout sockfd (Conn sockfd) x2 in
     rbind (plugin_func query_str) (\<lambda>out.
     let x4 = fflush_stdout (printf_stdout n out x3);
         (s5, w5) = dup2_stdout stdout_bkp bkp x4 in
     Inr (s5, close_socket stdout_bkp (close_socket sockfd w5)))))"

text \<open>One turn of the loop of \<open>run_app_by_thread\<close>; \<open>None\<close> while the thread waits.\<close>

definition run_app_once :: "plugin \<Rightarrow> nat \<Rightarrow> fd \<Rightarrow> nat \<Rightarrow> fcgi \<Rightarrow> world \<Rightarrow> (fcgi \<times> world) res option" where
  "run_app_once plugin_func i stdout_bkp n s w =
     (case get_request (apps s ! i) of
        None \<Rightarrow> None
      | Some (d, a) \<Rightarrow> Some (call_plugin_function d plugin_func stdout_bkp n (s\<lparr>apps := (apps s)[i := a]\<rparr>) w))"

text \<open>\<open>main\<close> up to the accept loop: \<open>None\<close> is \<open>exit (1)\<close>.\<close>

definition fastcgi_main :: "env \<Rightarrow> startup \<Rightarrow> (int \<Rightarrow> bool) \<Rightarrow> (nat \<Rightarrow> nat \<Rightarrow> bool) \<Rightarrow> world \<Rightarrow>
    (fd \<times> (nat \<times> nat) list \<times> fcgi \<times> world) option res" where
  "fastcgi_main E su mok ok w =
     (if \<not> set_signal_handlers su then Inr None
      else rbind (start_server_socket su 12345 w) (\<lambda>(server_fd, _, w1).
        if server_fd < 0 then Inr None
        else rbind (read_fastcgi_config E mok w1) (\<lambda>(rc, as, w2).
          if rc \<noteq> 0 then Inr None
          else Inr (Some (server_fd, create_app_threads ok as,
                 \<lparr>apps = as, app_index = - 1, conn_in = (\<lambda>_. []), stdout_fd = Terminal, stdout_buf = [],
                   terminal = []\<rparr>, w2)))))"

end
