(* ===== verification/Fastcgi_Correct.thy ===== *)
theory Fastcgi_Correct
  imports Fastcgi_Server
begin

text \<open>
  Correctness of the FastCGI server: the configuration file is read back as it was written,
  the request that the web servers print reaches the queue of its application and its plugin
  with the query, the queues keep their invariant, and the ways a request is refused.
\<close>

section \<open>Configuration round trip\<close>

definition app_line :: "int \<times> string \<Rightarrow> string" where
  "app_line = (\<lambda>(tc, name). show_int tc @ ''-'' @ name @ [LF])"

definition config_text :: "(int \<times> string) list \<Rightarrow> string" where
  "config_text cfg = show_int (int (length cfg)) @ [LF] @ concat (map app_line cfg)"

text \<open>An entry the format can express.\<close>

definition app_entry :: "int \<times> string \<Rightarrow> bool" where
  "app_entry = (\<lambda>(tc, name). 0 \<le> tc \<and> tc \<le> INT_MAX \<and> name \<noteq> [] \<and> length name < APP_NAME_LEN \<and> (\<forall>c\<in>set name. \<not> isspace c))"

lemma scan_ws_lines: "list_all app_entry cfg \<Longrightarrow> scan_ws (LF # concat (map app_line cfg)) = concat (map app_line cfg)"
proof (cases cfg)
  case (Cons e es)
  assume "list_all app_entry cfg"
  then have "0 \<le> fst e" using Cons by (auto simp: app_entry_def)
  moreover obtain c s where "show_nat (nat (fst e)) = c # s" "isdigit c" by (rule show_nat_Cons)
  ultimately show ?thesis using Cons digit_not_space
    by (auto simp: scan_ws_def app_line_def show_int_def split: prod.splits)
qed (simp add: scan_ws_def)

lemma scan_app_line:
  assumes "app_entry (tc, name)" and "list_all app_entry cfg"
  shows "scan_app (app_line (tc, name) @ concat (map app_line cfg)) = Inr (Some (tc, name, concat (map app_line cfg)))"
proof -
  have "scan_d (show_int tc @ CHR ''-'' # name @ LF # concat (map app_line cfg)) =
      Inr (Some (tc, CHR ''-'' # name @ LF # concat (map app_line cfg)))"
    using assms(1) by (intro scan_d_show) (auto simp: app_entry_def isdigit_def)
  moreover have "scan_word (name @ LF # concat (map app_line cfg)) = Some (name, LF # concat (map app_line cfg))"
    using assms(1) by (intro scan_word_text) (auto simp: app_entry_def)
  ultimately show ?thesis
    using scan_ws_lines [OF assms(2)] by (simp add: scan_app_def app_line_def)
qed

lemma read_apps_lines:
  assumes "list_all app_entry cfg" and "\<forall>(tc, name)\<in>set cfg. mok tc"
  shows "read_apps mok (length cfg) (concat (map app_line cfg)) = Inr (Some (map (\<lambda>(tc, name). new_app tc name) cfg))"
  using assms
proof (induction cfg)
  case (Cons e cfg)
  obtain tc name where e: "e = (tc, name)" by (cases e)
  have en: "app_entry (tc, name)" "list_all app_entry cfg" using Cons.prems(1) e by simp_all
  have IH: "read_apps mok (length cfg) (concat (map app_line cfg)) = Inr (Some (map (\<lambda>(tc, name). new_app tc name) cfg))"
    using Cons by simp
  show ?case
    using scan_app_line [OF en] en(1) Cons.prems(2) IH e by (simp add: app_entry_def)
qed simp

lemma config_round_trip:
  assumes "list_all app_entry cfg" and "\<forall>(tc, name)\<in>set cfg. mok tc" and "mok (int (length cfg))"
    and "int (length cfg) \<le> INT_MAX" and "e_files E ''fastcgi.config'' = Some f" and "f_data f = config_text cfg"
  shows "read_fastcgi_config E mok w = Inr (0, map (\<lambda>(tc, name). new_app tc name) cfg, w)"
proof -
  let ?ls = "concat (map app_line cfg)"
  have "scan_d (config_text cfg) = Inr (Some (int (length cfg), LF # ?ls))"
    unfolding config_text_def using scan_d_show [of "int (length cfg)" "LF # ?ls"] assms(4) by simp
  then show ?thesis
    using assms scan_ws_lines [OF assms(1)] read_apps_lines [OF assms(1,2)]
    by (simp add: read_fastcgi_config_def fopen_def open_stream_def fclose_def)
qed

lemma queue_inv_new_app [simp]: "queue_inv (new_app tc name)" "queued (new_app tc name) = []"
  by (simp_all add: new_app_def queue_inv_def queued_def queue_len_def)

lemma length_create_app_threads:
  assumes "\<forall>i j. ok i j"
  shows "length (create_app_threads ok as) = sum_list (map (\<lambda>a. nat (thread_count a)) as)"
proof -
  have f: "filter (ok i) xs = xs" for i xs using assms by simp
  have "length (create_app_threads ok as) = sum_list (map (\<lambda>i. nat (thread_count (as ! i))) [0..<length as])"
    by (simp add: create_app_threads_def length_concat f comp_def)
  also have "map (\<lambda>i. nat (thread_count (as ! i))) [0..<length as] = map (\<lambda>a. nat (thread_count a)) as"
    by (rule nth_equalityI) simp_all
  finally show ?thesis .
qed

section \<open>The request protocol\<close>

lemma read_len3:
  assumes "0 \<le> n" and "n < 1000"
  shows "read_buf 4 3 [show_int3 n @ t] = Inr (show_int3 n @ [NUL], if t = [] then [] else [t])"
    and "atoi (show_int3 n @ [NUL]) = n"
proof -
  have l: "length (show_int3 n) = 3" using assms by (rule length_show_int3)
  then show "read_buf 4 3 [show_int3 n @ t] = Inr (show_int3 n @ [NUL], if t = [] then [] else [t])"
    by (simp add: read_buf_def sock_read_def blit_def)
  have "atoi (show_int3 n @ [NUL]) = atoi (show_int3 n)" by (simp add: atoi_def)
  then show "atoi (show_int3 n @ [NUL]) = n" using assms(1) by simp
qed

lemma read_text:
  assumes "length p \<le> sz"
  shows "read_buf sz (int (length p)) [p @ t] =
    Inr (p @ zeros (sz - length p), if p = [] then [t] else if t = [] then [] else [t])"
  using assms by (auto simp: read_buf_def sock_read_def blit_def)

lemma find_app_known:
  assumes "i < length as" and "cstr (app_name (as ! i)) = cstr name"
    and "\<forall>j<i. cstr (app_name (as ! j)) \<noteq> cstr name"
  shows "find_app as name old = int i"
proof -
  have "find (\<lambda>i. strcmp_eq name (app_name (as ! i))) [0..<length as] = Some i"
    unfolding find_Some_iff using assms by (intro exI [of _ i]) (auto simp: strcmp_eq_def)
  then show ?thesis by (simp add: find_app_def)
qed

lemma find_app_unknown:
  assumes "\<forall>a\<in>set as. cstr (app_name a) \<noteq> cstr name"
  shows "find_app as name old = old"
proof -
  have "find (\<lambda>i. strcmp_eq name (app_name (as ! i))) [0..<length as] = None"
    unfolding find_None_iff using assms by (auto simp: strcmp_eq_def dest: nth_mem)
  then show ?thesis by (simp add: find_app_def)
qed

text \<open>A request that arrives in one segment is parsed into its name and the rest.\<close>

lemma accept_request_parse:
  assumes "0 \<le> fc_fd c" and "fc_in c = [fcgi_request command query]" and "length command \<le> APP_NAME_LEN"
  shows "accept_request E c s w =
    (let i = find_app (apps s) (command @ zeros (APP_NAME_LEN - length command)) (app_index s);
         s1 = s\<lparr>app_index := i\<rparr>; d = fc_fd c in
     if i \<noteq> -1 then
       (if \<not> fc_lock_ok c then refuse E 500 d s1 w
        else case put_request d (apps s ! nat i) of
          None \<Rightarrow> refuse E 500 d s1 w
        | Some a \<Rightarrow> Inr (s1\<lparr>apps := (apps s)[nat i := a],
            conn_in := (conn_in s)(d := [show_int3 (int (length query)) @ query])\<rparr>, w))
     else refuse E 404 d s1 w)"
proof -
  let ?n = "int (length command)" and ?t = "show_int3 (int (length query)) @ query"
  have ne: "show_int3 (int (length query)) \<noteq> []"
    by (simp add: show_int3_def show_int_def) (metis list.distinct(1) show_nat_Cons)
  have 1: "read_buf 4 3 (fc_in c) = Inr (show_int3 ?n @ [NUL], [command @ ?t])"
    and at: "atoi (show_int3 ?n @ [NUL]) = ?n"
    using read_len3(1) [of ?n "command @ ?t"] read_len3(2) [of ?n] assms(2,3) ne by (auto simp: fcgi_request_def)
  have 2: "read_buf APP_NAME_LEN ?n [command @ ?t] = Inr (command @ zeros (APP_NAME_LEN - length command), [?t])"
    using read_text [OF assms(3), of ?t] ne by auto
  show ?thesis using assms(1) 1 at 2 by (simp add: accept_request_def Let_def)
qed

text \<open>
  The query of a queued request reaches the plugin, and what the plugin prints reaches the
  connection, however much of it the library has written before the flush, when standard output
  is not redirected by another call. It is given back unless \<open>dup\<close> had failed.
\<close>

definition stdout_after :: "fd \<Rightarrow> fd \<Rightarrow> fcgi \<Rightarrow> fcgi \<Rightarrow> bool" where
  "stdout_after d bkp s s' \<longleftrightarrow> stdout_fd s' = (if bkp < 0 then Conn d else Terminal) \<and> stdout_buf s' = []
     \<and> terminal s' = terminal s @ stdout_buf s"

lemmas stdout_simps = stdout_write_def fflush_stdout_def printf_stdout_def dup_stdout_def dup2_stdout_def

lemma call_plugin_query:
  assumes "conn_in s d = [show_int3 (int (length query)) @ query]" and "length query \<le> APP_NAME_LEN"
    and "plug (query @ zeros (APP_NAME_LEN - length query)) = Inr out" and "0 \<le> d" and "stdout_fd s = Terminal"
  shows "\<exists>s'. call_plugin_function d plug bkp n s w =
      Inr (s', close_socket bkp (close_socket d (w\<lparr>w_sent := (w_sent w)(d := w_sent w d @ out)\<rparr>)))
    \<and> apps s' = apps s \<and> app_index s' = app_index s \<and> stdout_after d bkp s s'"
proof -
  let ?n = "int (length query)"
  have 1: "read_buf 4 3 (conn_in s d) = Inr (show_int3 ?n @ [NUL], if query = [] then [] else [query])"
    and at: "atoi (show_int3 ?n @ [NUL]) = ?n"
    using read_len3(1) [of ?n query] read_len3(2) [of ?n] assms(1,2) by auto
  have 2: "read_buf APP_NAME_LEN ?n [query @ []] =
      Inr (query @ zeros (APP_NAME_LEN - length query), [])" if "query \<noteq> []"
    using read_text [OF assms(2), of "[]"] that by simp
  show ?thesis
    using assms 1 at 2 by (cases "query = []")
      (auto simp: call_plugin_function_def stdout_simps stdout_after_def close_socket_def sys_close_def Let_def
        intro!: world.equality)
qed

section \<open>The invariant of the server\<close>

definition fcgi_inv :: "fcgi \<Rightarrow> bool" where
  "fcgi_inv s \<longleftrightarrow> list_all queue_inv (apps s)
     \<and> (app_index s = - 1 \<or> (0 \<le> app_index s \<and> app_index s < int (length (apps s))))"

lemma refuse_eq:
  "int_range code \<Longrightarrow> refuse E code d s w = Inr (s, close_socket d (error_world E code d w))"
  by (simp add: refuse_def write_error_ok)

lemma error_codes [simp]: "int_range 404" "int_range 500"
  by (simp_all add: int_range_def)

lemma find_app_range:
  assumes "find_app as name old = i"
  shows "i = old \<or> (0 \<le> i \<and> i < int (length as))"
  using assms by (auto simp: find_app_def find_Some_iff split: option.splits)

text \<open>
  The bytes that the two reads of an accepted connection deliver as the name, and what is left
  to read.
\<close>

definition conn_name :: "fcgi_conn \<Rightarrow> string \<times> string list" where
  "conn_name c =
     (let (l, in1) = sock_read 3 (fc_in c) in
      if atoi l < 0 then ([], in1) else sock_read (nat (atoi l)) in1)"

text \<open>The application a name is routed to: the first one of that name, or else the application of
  the request before (\<open>-1\<close> when there was none).\<close>

definition routed :: "fcgi \<Rightarrow> string \<Rightarrow> int \<Rightarrow> bool" where
  "routed s name i \<longleftrightarrow>
     (if \<exists>a\<in>set (apps s). cstr (app_name a) = name
      then \<exists>j<length (apps s). i = int j \<and> cstr (app_name (apps s ! j)) = name
        \<and> (\<forall>k<j. cstr (app_name (apps s ! k)) \<noteq> name)
      else i = app_index s)"

lemma find_app_routed: "routed s (cstr name) (find_app (apps s) name (app_index s))"
proof (cases "\<exists>a\<in>set (apps s). cstr (app_name a) = cstr name")
  case True
  then obtain j where j: "j < length (apps s)" "cstr (app_name (apps s ! j)) = cstr name"
    by (auto simp: in_set_conv_nth)
  define k where "k = (LEAST j. cstr (app_name (apps s ! j)) = cstr name)"
  have k: "cstr (app_name (apps s ! k)) = cstr name" "\<forall>l<k. cstr (app_name (apps s ! l)) \<noteq> cstr name" "k \<le> j"
    unfolding k_def using j(2) LeastI [of "\<lambda>j. cstr (app_name (apps s ! j)) = cstr name" j]
      Least_le [of "\<lambda>j. cstr (app_name (apps s ! j)) = cstr name" j] not_less_Least by auto
  then have "find_app (apps s) name (app_index s) = int k" using j(1) by (intro find_app_known) simp_all
  with True k j(1) show ?thesis unfolding routed_def by auto
next
  case False
  then show ?thesis using find_app_unknown [of "apps s" name "app_index s"] by (auto simp: routed_def)
qed

lemma cstr_pad [simp]: "cstr (s @ zeros n) = cstr s"
  by (induction s) simp_all

lemma atoi_zeros [simp]: "atoi (s @ zeros n) = atoi s"
  by (simp add: atoi_def)

lemma blit_zeros: "length bs \<le> n \<Longrightarrow> blit (zeros n) 0 bs = bs @ zeros (n - length bs)"
  by (simp add: blit_def)

lemma sock_read_length: "length (fst (sock_read n segs)) \<le> n"
  by (auto simp: sock_read_def split: list.splits)

lemma show_int3_not_Nil: "show_int3 (int n) \<noteq> []"
  by (simp add: show_int3_def show_int_def) (metis list.distinct(1) show_nat_Cons)

lemma conn_name_request:
  assumes "fc_in c = [fcgi_request command query]" and "command \<noteq> []" and "length command < 1000"
  shows "conn_name c = (command, [show_int3 (int (length query)) @ query])"
proof -
  have "length (show_int3 (int (length command))) = 3" using assms(3) by (intro length_show_int3) simp_all
  then show ?thesis using assms show_int3_not_Nil [of "length query"]
    by (simp add: conn_name_def sock_read_def fcgi_request_def Let_def)
qed

text \<open>What a connection with a name of at most 256 bytes comes to.\<close>

lemma accept_request_read:
  assumes d: "0 \<le> fc_fd c" and n: "conn_name c = (bs, in2)"
  shows "accept_request E c s w =
    (if APP_NAME_LEN < length bs then Inl BufferOverflow
     else let i = find_app (apps s) (bs @ zeros (APP_NAME_LEN - length bs)) (app_index s); s1 = s\<lparr>app_index := i\<rparr> in
       if i \<noteq> -1 then
         (if \<not> fc_lock_ok c then refuse E 500 (fc_fd c) s1 w
          else case put_request (fc_fd c) (apps s ! nat i) of
            None \<Rightarrow> refuse E 500 (fc_fd c) s1 w
          | Some a \<Rightarrow> Inr (s1\<lparr>apps := (apps s)[nat i := a], conn_in := (conn_in s)(fc_fd c := in2)\<rparr>, w))
       else refuse E 404 (fc_fd c) s1 w)"
proof -
  obtain l in1 where l: "sock_read 3 (fc_in c) = (l, in1)" by fastforce
  then have ll: "length l \<le> 3" using sock_read_length [of 3 "fc_in c"] by simp
  then have 1: "read_buf 4 3 (fc_in c) = Inr (l @ zeros (4 - length l), in1)"
    using l by (simp add: read_buf_def blit_zeros)
  have 2: "read_buf APP_NAME_LEN (atoi l) in1 =
      (if APP_NAME_LEN < length bs then Inl BufferOverflow else Inr (bs @ zeros (APP_NAME_LEN - length bs), in2))"
    using n l by (auto simp: read_buf_def conn_name_def blit_zeros)
  show ?thesis using d 1 2 by (simp add: accept_request_def Let_def)
qed

text \<open>
  What becomes of an accepted connection whose name is routed to application \<open>i\<close>: 404 when
  there is none, 500 when the lock fails or the queue is full, and otherwise it waits in the
  queue of that application, behind the requests that are there.
\<close>

definition accept_effect :: "env \<Rightarrow> fcgi_conn \<Rightarrow> string list \<Rightarrow> fcgi \<Rightarrow> world \<Rightarrow> fcgi \<Rightarrow> world \<Rightarrow> bool" where
  "accept_effect E c in2 s w s' w' \<longleftrightarrow>
     (let i = app_index s'; d = fc_fd c in
      if i = - 1 then s' = s\<lparr>app_index := i\<rparr> \<and> w' = close_socket d (error_world E 404 d w)
      else if \<not> fc_lock_ok c \<or> length (queued (apps s ! nat i)) = MAX_REQUESTS
      then s' = s\<lparr>app_index := i\<rparr> \<and> w' = close_socket d (error_world E 500 d w)
      else w' = w \<and> (\<exists>a. s' = s\<lparr>app_index := i, apps := (apps s)[nat i := a], conn_in := (conn_in s)(d := in2)\<rparr>
        \<and> queued a = queued (apps s ! nat i) @ [d]))"

lemma accept_request_total:
  assumes inv: "fcgi_inv s" and d: "0 \<le> fc_fd c" and n: "conn_name c = (bs, in2)" and l: "length bs \<le> APP_NAME_LEN"
  shows "\<exists>s' w'. accept_request E c s w = Inr (s', w') \<and> routed s (cstr bs) (app_index s')
    \<and> accept_effect E c in2 s w s' w' \<and> fcgi_inv s'"
proof -
  define i where "i = find_app (apps s) (bs @ zeros (APP_NAME_LEN - length bs)) (app_index s)"
  have rt: "routed s (cstr bs) i" using find_app_routed [of s "bs @ zeros (APP_NAME_LEN - length bs)"] by (simp add: i_def)
  have rng: "i = - 1 \<or> (0 \<le> i \<and> i < int (length (apps s)))"
    using find_app_range [OF i_def [symmetric]] inv by (auto simp: fcgi_inv_def)
  have inv1: "fcgi_inv (s\<lparr>app_index := i\<rparr>)" using inv rng by (auto simp: fcgi_inv_def)
  note e = accept_request_read [OF d n, of E s w, folded i_def]
  show ?thesis
  proof (cases "i = - 1 \<or> \<not> fc_lock_ok c")
    case True
    with e l rt inv1 show ?thesis by (auto simp: refuse_eq accept_effect_def Let_def)
  next
    case False
    have qi: "queue_inv (apps s ! nat i)" using False rng inv by (auto simp: fcgi_inv_def list_all_length)
    show ?thesis
    proof (cases "length (queued (apps s ! nat i)) < MAX_REQUESTS")
      case True
      from request_queue.put_room [OF qi True, of "fc_fd c"] obtain a where
        a: "put_request (fc_fd c) (apps s ! nat i) = Some a" "queue_inv a" "queued a = queued (apps s ! nat i) @ [fc_fd c]"
        by auto
      let ?s = "s\<lparr>app_index := i, apps := (apps s)[nat i := a], conn_in := (conn_in s)(fc_fd c := in2)\<rparr>"
      have "fcgi_inv ?s" using inv1 a(2) rng False by (auto simp: fcgi_inv_def list_all_length nth_list_update)
      moreover have "accept_request E c s w = Inr (?s, w)" using e l False a(1) by simp
      moreover have "accept_effect E c in2 s w ?s w" using False True a(3) by (auto simp: accept_effect_def Let_def)
      ultimately show ?thesis using rt by (intro exI [of _ ?s] exI [of _ w]) simp
    next
      case full: False
      then have f: "length (queued (apps s ! nat i)) = MAX_REQUESTS" using request_queue.bound [OF qi] by simp
      then have "put_request (fc_fd c) (apps s ! nat i) = None" by (rule request_queue.put_full [OF qi])
      with e l False f rt inv1 show ?thesis by (auto simp: refuse_eq accept_effect_def Let_def)
    qed
  qed
qed

lemma accept_request_inv:
  assumes "fcgi_inv s" and "0 \<le> fc_fd c" and "accept_request E c s w = Inr (s', w')"
  shows "fcgi_inv s'"
proof -
  obtain bs in2 where n: "conn_name c = (bs, in2)" by fastforce
  have "length bs \<le> APP_NAME_LEN" using accept_request_read [OF assms(2) n, of E s w] assms(3) by (auto split: if_splits)
  from accept_request_total [OF assms(1,2) n this, of E w] assms(3) show ?thesis by auto
qed

lemma accept_fastcgi_requests_inv:
  "fcgi_inv s \<Longrightarrow> accept_fastcgi_requests E cs s w = Inr (s', w') \<Longrightarrow> fcgi_inv s'"
proof (induction cs arbitrary: s w)
  case (Cons c cs)
  then obtain s1 w1 where c: "accept_request E c s w = Inr (s1, w1)"
    and r: "accept_fastcgi_requests E cs s1 w1 = Inr (s', w')"
    by (auto simp: rbind_eq_Inr)
  have "fcgi_inv s1"
    using accept_request_inv [OF Cons.prems(1) _ c] c Cons.prems(1)
    by (cases "0 \<le> fc_fd c") (auto simp: accept_request_def)
  with Cons.IH r show ?case by blast
qed simp

text \<open>The only fault a peer can cause here is the overflow of the name.\<close>

lemma accept_request_ub: "accept_request E c s w = Inl e \<Longrightarrow> e = BufferOverflow"
  by (auto simp: accept_request_def rbind_eq_Inl Let_def refuse_eq read_buf_def
      split: if_splits option.splits prod.splits)

text \<open>
  A request for a configured application on an idle queue: it is queued and the next free
  thread of the application answers it with the output of the plugin.
\<close>

lemma fastcgi_request_served:
  assumes inv: "fcgi_inv s" and c: "0 \<le> fc_fd c" "fc_lock_ok c" "fc_in c = [fcgi_request command query]"
    and cmd: "no_nul command" "length command < APP_NAME_LEN" and q: "length query \<le> APP_NAME_LEN"
    and i: "i < length (apps s)" "cstr (app_name (apps s ! i)) = command"
      "\<forall>j<i. cstr (app_name (apps s ! j)) \<noteq> command"
    and idle: "queued (apps s ! i) = []"
    and plug: "plug (query @ zeros (APP_NAME_LEN - length query)) = Inr out" and out: "stdout_fd s = Terminal"
  shows "\<exists>s1 s2. accept_request E c s w = Inr (s1, w) \<and> queued (apps s1 ! i) = [fc_fd c]
    \<and> run_app_once plug i bkp n s1 w = Some (Inr (s2, close_socket bkp (close_socket (fc_fd c)
        (w\<lparr>w_sent := (w_sent w)(fc_fd c := w_sent w (fc_fd c) @ out)\<rparr>))))
    \<and> queued (apps s2 ! i) = [] \<and> stdout_after (fc_fd c) bkp s s2"
proof -
  let ?name = "command @ zeros (APP_NAME_LEN - length command)"
  have nm: "cstr ?name = command" using cmd(1) by simp
  have f: "find_app (apps s) ?name (app_index s) = int i"
    using find_app_known [of i "apps s" ?name "app_index s"] i unfolding nm by simp
  have qi: "queue_inv (apps s ! i)" using inv i(1) by (auto simp: fcgi_inv_def list_all_length)
  obtain a where a: "put_request (fc_fd c) (apps s ! i) = Some a" "queue_inv a" "queued a = [fc_fd c]"
    using request_queue.put_room [OF qi, of "fc_fd c"] idle by auto
  define s1 where "s1 = s\<lparr>app_index := int i, apps := (apps s)[i := a],
      conn_in := (conn_in s)(fc_fd c := [show_int3 (int (length query)) @ query])\<rparr>"
  have acc: "accept_request E c s w = Inr (s1, w)"
    using accept_request_parse [OF c(1,3), of E s w] cmd(2) f c(2) a(1) by (simp add: Let_def s1_def)
  have ai: "apps s1 ! i = a" "i < length (apps s1)" using i(1) by (simp_all add: s1_def)
  obtain a' where a': "get_request a = Some (fc_fd c, a')" "queued a' = []"
    using request_queue.get_some [OF a(2,3)] by auto
  have ci: "conn_in (s1\<lparr>apps := (apps s1)[i := a']\<rparr>) (fc_fd c) = [show_int3 (int (length query)) @ query]"
    by (simp add: s1_def)
  let ?s = "s1\<lparr>apps := (apps s1)[i := a']\<rparr>"
  have t: "stdout_fd ?s = Terminal" "terminal ?s = terminal s" "stdout_buf ?s = stdout_buf s"
    using out by (simp_all add: s1_def)
  from call_plugin_query [where plug = plug, OF ci q plug c(1) t(1), of bkp n w] obtain s2 where
    s2: "call_plugin_function (fc_fd c) plug bkp n ?s w = Inr (s2, close_socket bkp (close_socket (fc_fd c)
        (w\<lparr>w_sent := (w_sent w)(fc_fd c := w_sent w (fc_fd c) @ out)\<rparr>)))"
    "apps s2 = (apps s1)[i := a']" "stdout_after (fc_fd c) bkp ?s s2" by auto
  have "run_app_once plug i bkp n s1 w = Some (Inr (s2, close_socket bkp (close_socket (fc_fd c)
      (w\<lparr>w_sent := (w_sent w)(fc_fd c := w_sent w (fc_fd c) @ out)\<rparr>))))"
    using s2(1) a'(1) ai by (simp add: run_app_once_def)
  moreover have "stdout_after (fc_fd c) bkp s s2" using s2(3) t by (simp add: stdout_after_def)
  ultimately show ?thesis using acc s2(2) a(3) a'(2) ai by auto
qed

text \<open>A full queue is refused with an internal server error.\<close>

lemma full_queue_refused:
  assumes "fcgi_inv s" and "0 \<le> fc_fd c" "fc_lock_ok c" "fc_in c = [fcgi_request command query]"
    and "no_nul command" "length command < APP_NAME_LEN"
    and i: "i < length (apps s)" "cstr (app_name (apps s ! i)) = command"
      "\<forall>j<i. cstr (app_name (apps s ! j)) \<noteq> command"
    and "length (queued (apps s ! i)) = MAX_REQUESTS"
  shows "accept_request E c s w =
    Inr (s\<lparr>app_index := int i\<rparr>, close_socket (fc_fd c) (error_world E 500 (fc_fd c) w))"
proof -
  have nm: "cstr (command @ zeros (APP_NAME_LEN - length command)) = command" using assms(5) by simp
  have f: "find_app (apps s) (command @ zeros (APP_NAME_LEN - length command)) (app_index s) = int i"
    using find_app_known [of i "apps s" "command @ zeros (APP_NAME_LEN - length command)"] i unfolding nm by simp
  have qi: "queue_inv (apps s ! i)" using assms(1) i(1) by (auto simp: fcgi_inv_def list_all_length)
  have "put_request (fc_fd c) (apps s ! i) = None"
    using request_queue.put_full [OF qi] assms(10) by simp
  then show ?thesis
    using accept_request_parse [OF assms(2,4), of E s w] assms(3,6) f by (simp add: Let_def refuse_eq)
qed

text \<open>
  An unknown application: \<open>app_index\<close> is not reset, so only a server that has never seen a
  known one answers 404; afterwards the request goes to the application of the request before.
\<close>

lemma unknown_app:
  assumes "0 \<le> fc_fd c" "fc_lock_ok c" "fc_in c = [fcgi_request command query]"
    and "no_nul command" "length command < APP_NAME_LEN"
    and u: "\<forall>a\<in>set (apps s). cstr (app_name a) \<noteq> command"
  shows "app_index s = - 1 \<Longrightarrow>
      accept_request E c s w = Inr (s, close_socket (fc_fd c) (error_world E 404 (fc_fd c) w))"
    and "app_index s = int i \<Longrightarrow> put_request (fc_fd c) (apps s ! i) = Some a \<Longrightarrow>
      accept_request E c s w = Inr (s\<lparr>apps := (apps s)[i := a],
        conn_in := (conn_in s)(fc_fd c := [show_int3 (int (length query)) @ query])\<rparr>, w)"
proof -
  have nm: "cstr (command @ zeros (APP_NAME_LEN - length command)) = command" using assms(4) by simp
  have f: "find_app (apps s) (command @ zeros (APP_NAME_LEN - length command)) (app_index s) = app_index s"
    using find_app_unknown [of "apps s" "command @ zeros (APP_NAME_LEN - length command)"] u unfolding nm by blast
  note p = accept_request_parse [OF assms(1,3), of E s w]
  show "app_index s = - 1 \<Longrightarrow>
      accept_request E c s w = Inr (s, close_socket (fc_fd c) (error_world E 404 (fc_fd c) w))"
    using p assms(5) f by (simp add: Let_def refuse_eq)
  show "app_index s = int i \<Longrightarrow> put_request (fc_fd c) (apps s ! i) = Some a \<Longrightarrow>
      accept_request E c s w = Inr (s\<lparr>apps := (apps s)[i := a],
        conn_in := (conn_in s)(fc_fd c := [show_int3 (int (length query)) @ query])\<rparr>, w)"
    using p assms(2,5) f by (simp add: Let_def)
qed

text \<open>A name or a query of 257 to 999 characters overflows the array it is read into.\<close>

lemma long_name_overflows:
  assumes "0 \<le> fc_fd c" "fc_in c = [fcgi_request command query]"
    and "APP_NAME_LEN < length command" "length command < 1000"
  shows "accept_request E c s w = Inl BufferOverflow"
proof -
  let ?n = "int (length command)" and ?t = "show_int3 (int (length query)) @ query"
  have 1: "read_buf 4 3 (fc_in c) = Inr (show_int3 ?n @ [NUL], [command @ ?t])"
    and at: "atoi (show_int3 ?n @ [NUL]) = ?n"
    using read_len3(1) [of ?n "command @ ?t"] read_len3(2) [of ?n] assms by (auto simp: fcgi_request_def)
  have "read_buf APP_NAME_LEN ?n [command @ ?t] = Inl BufferOverflow"
    using assms(3) by (auto simp: read_buf_def sock_read_def)
  with 1 at assms(1) show ?thesis by (simp add: accept_request_def Let_def)
qed

end
