(* ===== verification/Plugins.thy ===== *)
theory Plugins
  imports Fastcgi_Correct
begin

text \<open>
  The plugins of the FastCGI server: \<open>sumnumbers.c\<close>, \<open>generate_text.c\<close> and \<open>hello.c\<close>. A
  plugin maps the array with the query to what it prints.
\<close>

abbreviation CRLF :: string where "CRLF \<equiv> [CR, LF]"

section \<open>hello\<close>

definition hello :: plugin where
  "hello query_str = Inr (''HTTP/1.0 200 OK'' @ CRLF @ ''Content-type: text/html'' @ CRLF @ CRLF
     @ ''Hello world!<br>'' @ CRLF)"

section \<open>sumnumbers\<close>

text \<open>The number of one of the two arguments: \<open>key=digits\<close> in a 32-byte array; \<open>None\<close> is the
  return of \<open>-1\<close>.\<close>

definition sum_arg :: "string \<Rightarrow> string \<Rightarrow> int option res" where
  "sum_arg key str =
     (if \<not> terminated str then Inl OverRead
      else if strchr str (CHR ''&'') \<noteq> None then Inr None
      else case strchr str (CHR ''='') of
        None \<Rightarrow> Inr None
      | Some j \<Rightarrow>
          if \<not> strcmp_eq (str[j := NUL]) key then Inr None
          else let n = atoi (drop (Suc j) str) in
            if int_range n then Inr (Some n) else Inl IntOverflow)"

definition sum_internal :: "string \<Rightarrow> (int \<times> int \<times> int) option res" where
  "sum_internal query_str =
     (if \<not> terminated query_str then Inl OverRead
      else case strchr query_str (CHR ''&'') of
        None \<Rightarrow> Inr None
      | Some pos \<Rightarrow>
          rbind (strncpy (zeros 32) query_str pos) (\<lambda>str1.
          rbind (strcpy (zeros 32) (drop (Suc pos) query_str)) (\<lambda>str2.
          rbind (sum_arg ''num1'' str1) (\<lambda>r1.
          case r1 of
            None \<Rightarrow> Inr None
          | Some num1 \<Rightarrow>
              rbind (sum_arg ''num2'' str2) (\<lambda>r2.
              case r2 of
                None \<Rightarrow> Inr None
              | Some num2 \<Rightarrow>
                  if int_range (num1 + num2) then Inr (Some (num1, num2, num1 + num2)) else Inl IntOverflow)))))"

definition sumnumbers :: plugin where
  "sumnumbers query_str =
     rbind (sum_internal query_str) (\<lambda>r.
     Inr (''HTTP/1.0 200 OK'' @ CRLF @ ''Content-type: text/html'' @ CRLF @ CRLF
       @ (case r of
            None \<Rightarrow> ''<h2>Invalid Numbers passed: '' @ cstr query_str @ ''</h2>''
          | Some (num1, num2, s) \<Rightarrow> ''<h2>Number1: '' @ show_int num1 @ '', Number2: '' @ show_int num2
              @ '', Sum: '' @ show_int s @ ''</h2>'')
       @ CRLF))"

section \<open>generate\_text\<close>

abbreviation MAXGENERATE :: int where "MAXGENERATE \<equiv> 210000"

text \<open>\<open>sscanf (env, "n=%d\n", &size)\<close>.\<close>

definition scan_size :: "string \<Rightarrow> int option" where
  "scan_size s =
     (if take 2 s = ''n='' then map_option fst (scan_int (drop 2 s)) else None)"

definition generate_msg :: "nat \<Rightarrow> string" where
  "generate_msg n = map (\<lambda>i. char_of (33 + i mod 93)) [0..<n]"

definition generate_error :: "string \<Rightarrow> string option res" where
  "generate_error env =
     (case scan_size (cstr env) of
        None \<Rightarrow> Inr (Some (''Can'' @ [CHR 0x27] @ ''t scan buffer!<br/>Usage: generate_tex?n=X<br/>'' @ CRLF))
      | Some n \<Rightarrow>
          if \<not> int_range n then Inl IntOverflow
          else if n < 0 \<or> MAXGENERATE - 1 < n
          then Inr (Some (''Size must be between '' @ show_int 0 @ '' and '' @ show_int (MAXGENERATE - 1)))
          else Inr None)"

text \<open>
  The header of the body is built by \<open>sprintf\<close> from itself; \<open>content\<close> stands for what that
  call leaves in the array.
\<close>

definition generate_text :: "string \<Rightarrow> plugin" where
  "generate_text content env =
     (if \<not> terminated env then Inl OverRead
      else rbind (generate_error env) (\<lambda>err.
        Inr (case err of
          Some e \<Rightarrow> ''Content-length: '' @ show_int (int (length content + length e)) @ CRLF
            @ ''Content-type: text/html'' @ CRLF @ CRLF @ content @ e
        | None \<Rightarrow>
            let n = nat (the (scan_size (cstr env))) in
            ''Content-length: '' @ show_int (int (length content + n)) @ CRLF
            @ ''Content-type: text/html'' @ CRLF @ CRLF @ content @ generate_msg n @ CRLF)))"

section \<open>Correctness of the sum\<close>

definition sum_query :: "int \<Rightarrow> int \<Rightarrow> string" where
  "sum_query a b = ''num1='' @ show_int a @ ''&num2='' @ show_int b"

lemma sum_arg_text:
  assumes "no_nul key" and "CHR ''='' \<notin> set key" "CHR ''&'' \<notin> set key" and "int_range n"
  shows "sum_arg key (key @ ''='' @ show_int n @ NUL # t) = Inr (Some n)"
proof -
  let ?s = "key @ CHR ''='' # show_int n @ NUL # t"
  have d: "c \<in> set (show_int n) \<Longrightarrow> c = CHR ''-'' \<or> isdigit c" for c
    using show_nat_digits by (auto simp: show_int_def split: if_splits)
  have na: "CHR ''&'' \<notin> set (show_int n)" "CHR ''='' \<notin> set (show_int n)"
    using d [of "CHR ''&''"] d [of "CHR ''=''"] by (auto simp: isdigit_def)
  have c: "cstr ?s = key @ CHR ''='' # show_int n"
    using assms(1) by (simp add: cstr_append)
  have amp: "strchr ?s (CHR ''&'') = None"
    unfolding strchr_def c find_char_None using na assms(3) by auto
  have eq: "strchr ?s (CHR ''='') = Some (length key)"
    unfolding strchr_def c using assms(2) by (rule find_char_split)
  have k: "cstr (?s[length key := NUL]) = key" using assms(1) by simp
  have "atoi (show_int n @ NUL # t) = atoi (show_int n)" by (simp add: atoi_def)
  then show ?thesis
    using amp eq k assms(1,4) by (simp add: sum_arg_def strcmp_eq_def)
qed

lemma sum_internal_query:
  assumes "int_range a" "int_range b" "int_range (a + b)"
  shows "sum_internal (sum_query a b @ NUL # t) = Inr (Some (a, b, a + b))"
proof -
  let ?l = "''num1='' @ show_int a" and ?r = "''num2='' @ show_int b"
  have la: "length (show_int a) \<le> 11" "length (show_int b) \<le> 11"
    using assms length_show_int_le by blast+
  have d: "c \<in> set (show_int n) \<Longrightarrow> c = CHR ''-'' \<or> isdigit c" for c n
    using show_nat_digits by (auto simp: show_int_def split: if_splits)
  have na: "CHR ''&'' \<notin> set ?l"
    using d [of "CHR ''&''" a] by (auto simp: isdigit_def)
  have q: "sum_query a b @ NUL # t = ?l @ CHR ''&'' # ?r @ NUL # t" by (simp add: sum_query_def)
  have cq: "cstr (sum_query a b @ NUL # t) = ?l @ CHR ''&'' # ?r"
    unfolding q by (subst cstr_append, simp)+ simp
  have amp: "strchr (sum_query a b @ NUL # t) (CHR ''&'') = Some (length ?l)"
    unfolding strchr_def cq by (rule find_char_split [OF na])
  have s1: "strncpy (zeros 32) (sum_query a b @ NUL # t) (length ?l) = Inr (?l @ NUL # zeros (31 - length ?l))"
  proof -
    have "strncpy_bytes (sum_query a b @ NUL # t) (length ?l) = ?l"
      unfolding strncpy_bytes_def cq by simp
    then show ?thesis using la by (simp add: strncpy_def blit_def flip: replicate_Suc)
  qed
  have s2: "strcpy (zeros 32) (drop (Suc (length ?l)) (sum_query a b @ NUL # t)) = Inr (?r @ NUL # zeros (31 - length ?r))"
  proof -
    have "drop (Suc (length ?l)) (sum_query a b @ NUL # t) = ?r @ NUL # t" unfolding q by simp
    moreover have "cstr (?r @ NUL # t) = ?r" by (rule cstr_stop) simp
    ultimately show ?thesis using la by (simp add: strcpy_def blit_def)
  qed
  have t: "terminated (sum_query a b @ NUL # t)" by simp
  have a1: "sum_arg ''num1'' (?l @ NUL # zeros (31 - length ?l)) = Inr (Some a)"
    and a2: "sum_arg ''num2'' (?r @ NUL # zeros (31 - length ?r)) = Inr (Some b)"
    using sum_arg_text [of "''num1''" a] sum_arg_text [of "''num2''" b] assms by simp_all
  show ?thesis
    unfolding sum_internal_def amp option.case s1 s2 rbind.simps a1 a2 using assms(3) t by simp
qed

text \<open>The plugin on the query array of the server.\<close>

lemma sumnumbers_query:
  assumes "int_range a" "int_range b" "int_range (a + b)" and "length (sum_query a b) < n"
  shows "sumnumbers (sum_query a b @ zeros (n - length (sum_query a b))) =
    Inr (''HTTP/1.0 200 OK'' @ CRLF @ ''Content-type: text/html'' @ CRLF @ CRLF
      @ ''<h2>Number1: '' @ show_int a @ '', Number2: '' @ show_int b @ '', Sum: '' @ show_int (a + b) @ ''</h2>''
      @ CRLF)"
proof -
  have "zeros (n - length (sum_query a b)) = NUL # zeros (n - length (sum_query a b) - 1)"
    using assms(4) by (cases "n - length (sum_query a b)") auto
  then have "sum_internal (sum_query a b @ zeros (n - length (sum_query a b))) = Inr (Some (a, b, a + b))"
    using sum_internal_query [OF assms(1-3)] by metis
  then show ?thesis by (simp add: sumnumbers_def)
qed

lemma sum_query_length: "int_range a \<Longrightarrow> int_range b \<Longrightarrow> length (sum_query a b) \<le> 33"
  using length_show_int_le [of a] length_show_int_le [of b] by (simp add: sum_query_def)

text \<open>An argument of 32 characters or more overflows its array.\<close>

lemma sum_internal_overflow:
  assumes "no_nul p" and "CHR ''&'' \<notin> set p" and "32 < length p"
  shows "sum_internal (p @ CHR ''&'' # q @ [NUL]) = Inl BufferOverflow"
proof -
  have "cstr (p @ CHR ''&'' # q @ [NUL]) = p @ CHR ''&'' # cstr (q @ [NUL])"
    using assms(1) by (simp add: cstr_append)
  then have "strchr (p @ CHR ''&'' # q @ [NUL]) (CHR ''&'') = Some (length p)"
    using assms(2) by (simp add: strchr_def find_char_split)
  then show ?thesis using assms(3) by (simp add: sum_internal_def strncpy_def)
qed

section \<open>Generated text\<close>

lemma generate_msg_printable: "c \<in> set (generate_msg n) \<Longrightarrow> (33 :: nat) \<le> of_char c \<and> of_char c \<le> (125 :: nat)"
proof -
  assume "c \<in> set (generate_msg n)"
  then obtain i where "c = char_of (33 + i mod 93 :: nat)" by (auto simp: generate_msg_def)
  moreover have "i mod 93 < 93" by simp
  ultimately show ?thesis by (simp add: of_char_of)
qed

text \<open>On a size in range, the body is the content, the text and a line end, two bytes more
  than the header announces.\<close>

lemma generate_text_size:
  assumes "n < 210000" and "length (show_nat n) < m"
  shows "generate_text content (''n='' @ show_nat n @ zeros m) =
    Inr (''Content-length: '' @ show_int (int (length content + n)) @ CRLF
      @ ''Content-type: text/html'' @ CRLF @ CRLF @ content @ generate_msg n @ CRLF)"
proof -
  have c: "cstr (''n='' @ show_nat n @ zeros m) = ''n='' @ show_nat n" by (simp add: cstr_append)
  have "scan_int (show_nat n @ []) = Some (int n, [])"
    using scan_int_show [of "int n" "[]"] by (simp add: show_int_def)
  then have "scan_size (''n='' @ show_nat n) = Some (int n)" by (simp add: scan_size_def)
  then show ?thesis using assms c by (simp add: generate_text_def generate_error_def int_range_def Let_def)
qed

end
