(* ===== verification/Fastcgi_Threads.thy ===== *)
theory Fastcgi_Threads
  imports Fastcgi_Correct
begin

text \<open>
  The threads of the FastCGI server. Part one: the accepting thread and the pool of an
  application around the mutex and the condition variable of its queue (the loops of
  \<open>accept_fastcgi_requests\<close> and \<open>run_app_by_thread\<close>), as a step relation with every
  interleaving. \<open>pthread_cond_signal\<close> wakes one blocked thread when there is one, and a failing
  lock refuses the connection; failures of the other calls on the mutex and the condition
  variable, whose results the code does not use, are left out. Part two: the redirection of standard output in \<open>call_plugin_function\<close>,
  which the pools share.
\<close>

section \<open>The queue under its mutex\<close>

text \<open>Where a thread of the pool is: about to lock, about to test the queue, blocked on the
  condition variable, about to unlock with a request, running the plugin.\<close>

datatype wpc = W_lock | W_check | W_blocked | W_unlock fd | W_call fd

text \<open>Where the accepting thread is.\<close>

datatype apc = A_idle | A_lock fd | A_put fd | A_full fd | A_signal | A_unlock

datatype holder = Acceptor | Worker nat

record pool =
  p_app :: apps_info
  p_mutex :: "holder option"
  p_acc :: apc
  p_work :: "nat \<Rightarrow> wpc"
  p_put :: "fd list"    \<comment> \<open>requests put into the queue so far\<close>
  p_taken :: "fd list"  \<comment> \<open>requests taken out of it so far\<close>

inductive pool_step :: "nat \<Rightarrow> pool \<Rightarrow> pool \<Rightarrow> bool" for n where
  acc_accept: "p_acc s = A_idle \<Longrightarrow> pool_step n s (s\<lparr>p_acc := A_lock d\<rparr>)"
| acc_lock: "p_acc s = A_lock d \<Longrightarrow> p_mutex s = None \<Longrightarrow>
    pool_step n s (s\<lparr>p_acc := A_put d, p_mutex := Some Acceptor\<rparr>)"
| acc_lock_fail: "p_acc s = A_lock d \<Longrightarrow> pool_step n s (s\<lparr>p_acc := A_full d\<rparr>)"
| acc_put: "p_acc s = A_put d \<Longrightarrow> put_request d (p_app s) = Some a \<Longrightarrow>
    pool_step n s (s\<lparr>p_acc := A_signal, p_app := a, p_put := p_put s @ [d]\<rparr>)"
| acc_full: "p_acc s = A_put d \<Longrightarrow> put_request d (p_app s) = None \<Longrightarrow>
    pool_step n s (s\<lparr>p_acc := A_full d, p_mutex := None\<rparr>)"
| acc_refuse: "p_acc s = A_full d \<Longrightarrow> pool_step n s (s\<lparr>p_acc := A_idle\<rparr>)"
| acc_signal: "p_acc s = A_signal \<Longrightarrow> i < n \<Longrightarrow> p_work s i = W_blocked \<Longrightarrow>
    pool_step n s (s\<lparr>p_acc := A_unlock, p_work := (p_work s)(i := W_lock)\<rparr>)"
| acc_signal_none: "p_acc s = A_signal \<Longrightarrow> \<forall>i<n. p_work s i \<noteq> W_blocked \<Longrightarrow>
    pool_step n s (s\<lparr>p_acc := A_unlock\<rparr>)"
| acc_unlock: "p_acc s = A_unlock \<Longrightarrow> pool_step n s (s\<lparr>p_acc := A_idle, p_mutex := None\<rparr>)"
| work_lock: "i < n \<Longrightarrow> p_work s i = W_lock \<Longrightarrow> p_mutex s = None \<Longrightarrow>
    pool_step n s (s\<lparr>p_work := (p_work s)(i := W_check), p_mutex := Some (Worker i)\<rparr>)"
| work_wait: "i < n \<Longrightarrow> p_work s i = W_check \<Longrightarrow> queue_empty (p_app s) \<Longrightarrow>
    pool_step n s (s\<lparr>p_work := (p_work s)(i := W_blocked), p_mutex := None\<rparr>)"
| work_take: "i < n \<Longrightarrow> p_work s i = W_check \<Longrightarrow> get_request (p_app s) = Some (d, a) \<Longrightarrow>
    pool_step n s (s\<lparr>p_work := (p_work s)(i := W_unlock d), p_app := a, p_taken := p_taken s @ [d]\<rparr>)"
| work_unlock: "i < n \<Longrightarrow> p_work s i = W_unlock d \<Longrightarrow>
    pool_step n s (s\<lparr>p_work := (p_work s)(i := W_call d), p_mutex := None\<rparr>)"
| work_call: "i < n \<Longrightarrow> p_work s i = W_call d \<Longrightarrow>
    pool_step n s (s\<lparr>p_work := (p_work s)(i := W_lock)\<rparr>)"

text \<open>POSIX also lets \<open>pthread_cond_wait\<close> return without a signal. Such a wake-up is a step of its own:
  nothing may depend on it, and nothing may break by it.\<close>

inductive pool_spurious :: "nat \<Rightarrow> pool \<Rightarrow> pool \<Rightarrow> bool" for n where
  wake: "i < n \<Longrightarrow> p_work s i = W_blocked \<Longrightarrow> pool_spurious n s (s\<lparr>p_work := (p_work s)(i := W_lock)\<rparr>)"

definition pool_init :: "apps_info \<Rightarrow> pool" where
  "pool_init a = \<lparr>p_app = a, p_mutex = None, p_acc = A_idle, p_work = (\<lambda>_. W_lock), p_put = [], p_taken = []\<rparr>"

text \<open>The mutex is held exactly by the thread that is in a critical section.\<close>

definition w_crit :: "wpc \<Rightarrow> bool" where
  "w_crit p \<longleftrightarrow> p = W_check \<or> (\<exists>d. p = W_unlock d)"

definition a_crit :: "apc \<Rightarrow> bool" where
  "a_crit p \<longleftrightarrow> (\<exists>d. p = A_put d) \<or> p = A_signal \<or> p = A_unlock"

lemma crit_simps [simp]:
  "\<not> w_crit W_lock" "w_crit W_check" "\<not> w_crit W_blocked" "w_crit (W_unlock d)" "\<not> w_crit (W_call d)"
  "\<not> a_crit A_idle" "\<not> a_crit (A_lock d)" "a_crit (A_put d)" "\<not> a_crit (A_full d)" "a_crit A_signal" "a_crit A_unlock"
  by (simp_all add: w_crit_def a_crit_def)

definition pool_inv :: "nat \<Rightarrow> pool \<Rightarrow> bool" where
  "pool_inv n s \<longleftrightarrow> queue_inv (p_app s)
     \<and> (a_crit (p_acc s) \<longleftrightarrow> p_mutex s = Some Acceptor)
     \<and> (\<forall>i<n. w_crit (p_work s i) \<longleftrightarrow> p_mutex s = Some (Worker i))
     \<and> (\<forall>i. p_mutex s = Some (Worker i) \<longrightarrow> i < n)
     \<and> p_put s = p_taken s @ queued (p_app s)
     \<and> (queued (p_app s) \<noteq> [] \<longrightarrow> p_acc s = A_signal \<or> (\<exists>i<n. p_work s i \<noteq> W_blocked))"

lemma pool_inv_init: "queue_inv a \<Longrightarrow> queued a = [] \<Longrightarrow> pool_inv n (pool_init a)"
  by (simp add: pool_inv_def pool_init_def)

lemma pool_step_inv:
  assumes "pool_step n s s'" and "pool_inv n s" and "0 < n"
  shows "pool_inv n s'"
  using assms
proof (induction rule: pool_step.induct)
  case (acc_put s d a)
  then have "queue_inv a \<and> queued a = queued (p_app s) @ [d]"
    using request_queue.put_cases [of "p_app s" d] by (auto simp: pool_inv_def)
  with acc_put show ?case by (auto simp: pool_inv_def)
next
  case (work_take i s d a)
  then obtain xs where "queue_inv a" "queued (p_app s) = d # xs" "queued a = xs"
    using request_queue.get_cases [of "p_app s"] by (auto simp: pool_inv_def)
  with work_take show ?case by (auto simp: pool_inv_def)
next
  case (work_wait i s)
  then have "queued (p_app s) = []"
    using queue_empty_len [of "p_app s"] by (auto simp: pool_inv_def queued_Nil)
  with work_wait show ?case by (auto simp: pool_inv_def)
qed (auto simp: pool_inv_def)

lemma pool_spurious_inv: "pool_spurious n s s' \<Longrightarrow> pool_inv n s \<Longrightarrow> pool_inv n s'"
  by (erule pool_spurious.cases) (auto simp: pool_inv_def)

inductive pool_reach :: "nat \<Rightarrow> apps_info \<Rightarrow> pool \<Rightarrow> bool" for n a where
  init: "pool_reach n a (pool_init a)"
| step: "pool_reach n a s \<Longrightarrow> pool_step n s s' \<Longrightarrow> pool_reach n a s'"
| spurious: "pool_reach n a s \<Longrightarrow> pool_spurious n s s' \<Longrightarrow> pool_reach n a s'"

lemma pool_reach_inv:
  assumes "pool_reach n a s" and "queue_inv a" "queued a = []" "0 < n"
  shows "pool_inv n s"
  using assms
proof (induction rule: pool_reach.induct)
  case init
  then show ?case by (simp add: pool_inv_init)
next
  case (step s s')
  then show ?case using pool_step_inv by blast
next
  case (spurious s s')
  then show ?case using pool_spurious_inv by blast
qed

text \<open>At most one thread is in a critical section.\<close>

lemma pool_mutex:
  assumes "pool_inv n s" and "i < n" "w_crit (p_work s i)"
  shows "\<not> a_crit (p_acc s) \<and> (\<forall>j<n. w_crit (p_work s j) \<longrightarrow> j = i)"
  using assms unfolding pool_inv_def by (metis holder.distinct(1) holder.inject option.inject)

text \<open>
  A request in the queue is not forgotten: from every state, the threads can take the oldest
  one. The three lemmas follow whoever holds the mutex.
\<close>

lemma taken_step: "pool_step n s t \<Longrightarrow> p_taken t = x \<Longrightarrow> \<exists>s'. (pool_step n)\<^sup>*\<^sup>* s s' \<and> p_taken s' = x"
  by blast

lemma taken_via: "pool_step n s t \<Longrightarrow> \<exists>s'. (pool_step n)\<^sup>*\<^sup>* t s' \<and> p_taken s' = x \<Longrightarrow>
    \<exists>s'. (pool_step n)\<^sup>*\<^sup>* s s' \<and> p_taken s' = x"
  by (blast intro: converse_rtranclp_into_rtranclp)

lemma take_free:
  assumes inv: "pool_inv n s" and free: "p_mutex s = None" and q: "queued (p_app s) = d # ds"
  shows "\<exists>s'. (pool_step n)\<^sup>*\<^sup>* s s' \<and> p_taken s' = p_taken s @ [d]"
proof -
  have "p_acc s \<noteq> A_signal" using inv free by (auto simp: pool_inv_def)
  then obtain i where i: "i < n" "p_work s i \<noteq> W_blocked" using inv q by (auto simp: pool_inv_def)
  have nc: "\<not> w_crit (p_work s i)" using inv free i(1) by (auto simp: pool_inv_def)
  obtain a where g: "get_request (p_app s) = Some (d, a)"
    using request_queue.get_some [of "p_app s" d ds] inv q by (auto simp: pool_inv_def)
  have lk: "\<exists>s'. (pool_step n)\<^sup>*\<^sup>* t s' \<and> p_taken s' = p_taken s @ [d]"
    if t: "p_work t i = W_lock" "p_mutex t = None" "p_app t = p_app s" "p_taken t = p_taken s" for t
  proof -
    let ?t1 = "t\<lparr>p_work := (p_work t)(i := W_check), p_mutex := Some (Worker i)\<rparr>"
    have 1: "pool_step n t ?t1" using t i(1) by (intro work_lock)
    have 2: "pool_step n ?t1 (?t1\<lparr>p_work := (p_work ?t1)(i := W_unlock d), p_app := a, p_taken := p_taken ?t1 @ [d]\<rparr>)"
      using t i(1) g by (intro work_take) simp_all
    show ?thesis by (rule taken_via [OF 1], rule taken_step [OF 2]) (simp add: t(4))
  qed
  consider "p_work s i = W_lock" | c where "p_work s i = W_call c"
    using i(2) nc by (cases "p_work s i") auto
  then show ?thesis
  proof cases
    case 1
    then show ?thesis using lk free by blast
  next
    case (2 c)
    then have "pool_step n s (s\<lparr>p_work := (p_work s)(i := W_lock)\<rparr>)" using i(1) by (intro work_call)
    then show ?thesis using lk [of "s\<lparr>p_work := (p_work s)(i := W_lock)\<rparr>"] free
      by (auto intro: converse_rtranclp_into_rtranclp)
  qed
qed

lemma take_worker:
  assumes inv: "pool_inv n s" and n: "0 < n" and m: "p_mutex s = Some (Worker i)" and q: "queued (p_app s) = d # ds"
  shows "\<exists>s'. (pool_step n)\<^sup>*\<^sup>* s s' \<and> p_taken s' = p_taken s @ [d]"
proof -
  have i: "i < n" "w_crit (p_work s i)" using inv m by (auto simp: pool_inv_def)
  obtain a where g: "get_request (p_app s) = Some (d, a)"
    using request_queue.get_some [of "p_app s" d ds] inv q by (auto simp: pool_inv_def)
  consider "p_work s i = W_check" | c where "p_work s i = W_unlock c"
    using i(2) by (auto simp: w_crit_def)
  then show ?thesis
  proof cases
    case 1
    then have "pool_step n s (s\<lparr>p_work := (p_work s)(i := W_unlock d), p_app := a, p_taken := p_taken s @ [d]\<rparr>)"
      using i(1) g by (intro work_take)
    then show ?thesis by (rule taken_step) simp
  next
    case (2 c)
    let ?t = "s\<lparr>p_work := (p_work s)(i := W_call c), p_mutex := None\<rparr>"
    have st: "pool_step n s ?t" using 2 i(1) by (intro work_unlock)
    then show ?thesis using take_free [OF pool_step_inv [OF st inv n], of d ds] q
      by (auto intro: converse_rtranclp_into_rtranclp)
  qed
qed

lemma take_acceptor:
  assumes inv: "pool_inv n s" and n: "0 < n" and m: "p_mutex s = Some Acceptor" and q: "queued (p_app s) = d # ds"
  shows "\<exists>s'. (pool_step n)\<^sup>*\<^sup>* s s' \<and> p_taken s' = p_taken s @ [d]"
proof -
  have unl: "\<exists>s'. (pool_step n)\<^sup>*\<^sup>* t s' \<and> p_taken s' = p_taken t @ [d]"
    if t: "pool_inv n t" "p_acc t = A_unlock" "queued (p_app t) = d # ds'" for t ds'
  proof -
    have st: "pool_step n t (t\<lparr>p_acc := A_idle, p_mutex := None\<rparr>)" using t(2) by (rule acc_unlock)
    from take_free [OF pool_step_inv [OF st t(1) n], of d ds'] t(3) st show ?thesis
      by (auto intro: converse_rtranclp_into_rtranclp)
  qed
  have sgn: "\<exists>s'. (pool_step n)\<^sup>*\<^sup>* t s' \<and> p_taken s' = p_taken t @ [d]"
    if t: "pool_inv n t" "p_acc t = A_signal" "queued (p_app t) = d # ds'" for t ds'
  proof -
    obtain t' where st: "pool_step n t t'" and t': "p_acc t' = A_unlock" "p_app t' = p_app t" "p_taken t' = p_taken t"
      using t(2) by (cases "\<forall>i<n. p_work t i \<noteq> W_blocked")
        (auto dest: acc_signal_none acc_signal)
    from unl [OF pool_step_inv [OF st t(1) n] t'(1)] t' t(3) st show ?thesis
      by (auto intro: converse_rtranclp_into_rtranclp)
  qed
  have ac: "a_crit (p_acc s)" using inv m by (auto simp: pool_inv_def)
  consider "p_acc s = A_unlock" | "p_acc s = A_signal" | x where "p_acc s = A_put x"
    using ac by (auto simp: a_crit_def)
  then show ?thesis
  proof cases
    case 1
    then show ?thesis using unl inv q by blast
  next
    case 2
    then show ?thesis using sgn inv q by blast
  next
    case (3 x)
    show ?thesis
    proof (cases "put_request x (p_app s)")
      case None
      have st: "pool_step n s (s\<lparr>p_acc := A_full x, p_mutex := None\<rparr>)" using 3 None by (rule acc_full)
      show ?thesis using take_free [OF pool_step_inv [OF st inv n], of d ds] q by (intro taken_via [OF st]) auto
    next
      case (Some a)
      then have qa: "queued a = d # (ds @ [x])"
        using request_queue.put_cases [of "p_app s" x] inv q by (auto simp: pool_inv_def)
      have st: "pool_step n s (s\<lparr>p_acc := A_signal, p_app := a, p_put := p_put s @ [x]\<rparr>)" using 3 Some by (rule acc_put)
      show ?thesis using sgn [OF pool_step_inv [OF st inv n], of "ds @ [x]"] qa by (intro taken_via [OF st]) auto
    qed
  qed
qed

lemma pool_progress:
  assumes "pool_inv n s" and "0 < n" and "queued (p_app s) = d # ds"
  shows "\<exists>s'. (pool_step n)\<^sup>*\<^sup>* s s' \<and> p_taken s' = p_taken s @ [d]"
  using take_free [OF assms(1) _ assms(3)] take_worker [OF assms(1,2) _ assms(3)] take_acceptor [OF assms(1,2) _ assms(3)]
  by (cases "p_mutex s") (auto, metis holder.exhaust)

section \<open>Standard output\<close>

text \<open>
  \<open>call_plugin_function\<close> points standard output, which all threads share, to its connection:
  \<open>dup\<close>, \<open>dup2\<close>, run the plugin and flush, \<open>dup2\<close> back.
\<close>

datatype ppc = P_dup | P_redirect sink | P_run sink | P_restore sink | P_done

record pout =
  o_stdout :: sink
  o_pc :: "nat \<Rightarrow> ppc"
  o_got :: "sink \<Rightarrow> string"

text \<open>Thread \<open>i\<close> serves connection \<open>conn i\<close> and its plugin prints \<open>txt i\<close>.\<close>

definition pout_next :: "(nat \<Rightarrow> fd) \<Rightarrow> (nat \<Rightarrow> string) \<Rightarrow> nat \<Rightarrow> pout \<Rightarrow> pout" where
  "pout_next conn txt i s =
     (case o_pc s i of
        P_dup \<Rightarrow> s\<lparr>o_pc := (o_pc s)(i := P_redirect (o_stdout s))\<rparr>
      | P_redirect bkp \<Rightarrow> s\<lparr>o_pc := (o_pc s)(i := P_run bkp), o_stdout := Conn (conn i)\<rparr>
      | P_run bkp \<Rightarrow> s\<lparr>o_pc := (o_pc s)(i := P_restore bkp),
           o_got := (o_got s)(o_stdout s := o_got s (o_stdout s) @ txt i)\<rparr>
      | P_restore bkp \<Rightarrow> s\<lparr>o_pc := (o_pc s)(i := P_done), o_stdout := bkp\<rparr>
      | P_done \<Rightarrow> s)"

text \<open>A schedule is the list of the threads that make the next step.\<close>

definition pout_run :: "(nat \<Rightarrow> fd) \<Rightarrow> (nat \<Rightarrow> string) \<Rightarrow> nat list \<Rightarrow> pout \<Rightarrow> pout" where
  "pout_run conn txt sched s = fold (pout_next conn txt) sched s"

definition pout_init :: pout where
  "pout_init = \<lparr>o_stdout = Terminal, o_pc = (\<lambda>_. P_dup), o_got = (\<lambda>_. [])\<rparr>"

text \<open>Alone, a call delivers its output and gives standard output back.\<close>

lemma pout_alone:
  "o_pc s i = P_dup \<Longrightarrow>
   pout_run conn txt [i, i, i, i] s = s\<lparr>o_pc := (o_pc s)(i := P_done),
     o_got := (o_got s)(Conn (conn i) := o_got s (Conn (conn i)) @ txt i)\<rparr>"
  by (simp add: pout_run_def pout_next_def)

text \<open>Calls one after the other deliver every output to its own connection.\<close>

lemma pout_sequential:
  assumes "distinct is" and "\<forall>i\<in>set is. o_pc s i = P_dup" and "inj_on conn (set is)"
  shows "o_stdout (pout_run conn txt (concat (map (\<lambda>i. [i, i, i, i]) is)) s) = o_stdout s
    \<and> (\<forall>i\<in>set is. o_got (pout_run conn txt (concat (map (\<lambda>i. [i, i, i, i]) is)) s) (Conn (conn i)) =
        o_got s (Conn (conn i)) @ txt i)
    \<and> (\<forall>c. c \<notin> (\<lambda>i. Conn (conn i)) ` set is \<longrightarrow>
        o_got (pout_run conn txt (concat (map (\<lambda>i. [i, i, i, i]) is)) s) c = o_got s c)"
  using assms
proof (induction "is" arbitrary: s)
  case Nil
  then show ?case by (simp add: pout_run_def)
next
  case (Cons i "is")
  let ?s1 = "pout_run conn txt [i, i, i, i] s"
  have s1: "?s1 = s\<lparr>o_pc := (o_pc s)(i := P_done),
     o_got := (o_got s)(Conn (conn i) := o_got s (Conn (conn i)) @ txt i)\<rparr>"
    using Cons.prems(2) by (intro pout_alone) simp
  have run: "pout_run conn txt (concat (map (\<lambda>i. [i, i, i, i]) (i # is))) s =
      pout_run conn txt (concat (map (\<lambda>i. [i, i, i, i]) is)) ?s1"
    by (simp add: pout_run_def)
  have nc: "\<forall>j\<in>set is. conn j \<noteq> conn i" using Cons.prems(1,3) by (auto simp: inj_on_def)
  then have ni: "Conn (conn i) \<notin> (\<lambda>i. Conn (conn i)) ` set is" by auto
  have "distinct is" "\<forall>j\<in>set is. o_pc ?s1 j = P_dup" "inj_on conn (set is)"
    using Cons.prems by (auto simp: s1 inj_on_def)
  from Cons.IH [OF this] show ?case unfolding run using nc ni by (simp add: s1)
qed

text \<open>
  Two calls at once can mix: the second thread's redirection takes over the output of the
  first, and restores the connection of the first as standard output.
\<close>

lemma pout_race:
  assumes "conn 0 \<noteq> conn 1"
  shows "let s = pout_run conn txt [0, 0, 1, 1, 0, 0, 1, 1] pout_init in
    o_pc s 0 = P_done \<and> o_pc s 1 = P_done \<and> o_got s (Conn (conn 0)) = []
    \<and> o_got s (Conn (conn 1)) = txt 0 \<and> o_got s Terminal = txt 1 \<and> o_stdout s = Conn (conn 0)"
  using assms by (simp add: pout_run_def pout_next_def pout_init_def Let_def)

end
