(* ===== verification/Rio.thy ===== *)
theory Rio
  imports World
begin

text \<open>
  The buffered input of the threaded server: the Rio package of \<open>mt_server/csapp.c\<close>. The
  kernel's answers to the coming \<open>read\<close>s on the descriptor are a list; reading from the
  empty list is end of file. The theorem on \<open>rio_readlineb\<close> says that the line it returns
  depends on the bytes only, not on how the network cut them into segments.
\<close>

datatype read_result = Data string | Eintr | Read_error

abbreviation RIO_BUFSIZE :: nat where "RIO_BUFSIZE \<equiv> 8192"

record rio =
  rio_fd :: fd
  rio_cnt :: int
  rio_bufptr :: nat
  rio_buf :: string

definition rio_readinitb :: "fd \<Rightarrow> string \<Rightarrow> rio" where
  "rio_readinitb d junk = \<lparr>rio_fd = d, rio_cnt = 0, rio_bufptr = 0, rio_buf = junk\<rparr>"

text \<open>
  The refill loop of \<open>rio_read\<close>. The first component is what \<open>rio_read\<close> returns when it
  stops there: \<open>-1\<close> after an error, \<open>0\<close> at end of file.
\<close>

fun rio_fill :: "rio \<Rightarrow> read_result list \<Rightarrow> int option \<times> rio \<times> read_result list" where
  "rio_fill rp [] = (if 0 < rio_cnt rp then (None, rp, []) else (Some 0, rp\<lparr>rio_cnt := 0\<rparr>, []))"
| "rio_fill rp (r # inp) =
     (if 0 < rio_cnt rp then (None, rp, r # inp)
      else case r of
        Eintr \<Rightarrow> rio_fill (rp\<lparr>rio_cnt := - 1\<rparr>) inp
      | Read_error \<Rightarrow> (Some (- 1), rp\<lparr>rio_cnt := - 1\<rparr>, inp)
      | Data bs \<Rightarrow>
          let got = take RIO_BUFSIZE bs;
              rest = (if length bs \<le> RIO_BUFSIZE then inp else Data (drop RIO_BUFSIZE bs) # inp) in
          if got = [] then (Some 0, rp\<lparr>rio_cnt := 0\<rparr>, rest)
          else (None, rp\<lparr>rio_cnt := int (length got), rio_bufptr := 0,
                         rio_buf := blit (rio_buf rp) 0 got\<rparr>, rest))"

text \<open>\<open>rio_read\<close>: its result and the bytes it copies to the user's buffer.\<close>

definition rio_read :: "rio \<Rightarrow> read_result list \<Rightarrow> nat \<Rightarrow> int \<times> string \<times> rio \<times> read_result list" where
  "rio_read rp inp n =
     (case rio_fill rp inp of
        (Some rc, rp1, inp1) \<Rightarrow> (rc, [], rp1, inp1)
      | (None, rp1, inp1) \<Rightarrow>
          let cnt = (if rio_cnt rp1 < int n then nat (rio_cnt rp1) else n) in
          (int cnt, take cnt (drop (rio_bufptr rp1) (rio_buf rp1)),
           rp1\<lparr>rio_bufptr := rio_bufptr rp1 + cnt, rio_cnt := rio_cnt rp1 - int cnt\<rparr>, inp1))"

text \<open>
  The loop of \<open>rio_readlineb\<close>, from counter \<open>n\<close>, with \<open>k\<close> turns left, into an array of \<open>cap\<close>
  bytes; \<open>acc\<close> is what was stored, and a store behind the array is a fault. The result: the
  return value, and what is in the user's buffer (\<open>None\<close>: nothing was written to it).
\<close>

type_synonym line_result = "int \<times> string option \<times> rio \<times> read_result list"

definition store_nul :: "nat \<Rightarrow> nat \<Rightarrow> string \<Rightarrow> rio \<Rightarrow> read_result list \<Rightarrow> line_result res" where
  "store_nul cap n acc rp inp =
     (if length acc < cap then Inr (int n, Some (acc @ [NUL]), rp, inp) else Inl BufferOverflow)"

fun readline_loop :: "nat \<Rightarrow> nat \<Rightarrow> nat \<Rightarrow> string \<Rightarrow> rio \<Rightarrow> read_result list \<Rightarrow> line_result res" where
  "readline_loop cap 0 n acc rp inp = store_nul cap n acc rp inp"
| "readline_loop cap (Suc k) n acc rp inp =
     (let (rc, bs, rp1, inp1) = rio_read rp inp 1 in
      if rc = 1 then
        (if cap \<le> length acc then Inl BufferOverflow
         else if bs = [CHR 0x0A] then store_nul cap n (acc @ bs) rp1 inp1
         else readline_loop cap k (Suc n) (acc @ bs) rp1 inp1)
      else if rc = 0 then
        (if n = 1 then Inr (0, None, rp1, inp1) else store_nul cap n acc rp1 inp1)
      else Inr (- 1, None, rp1, inp1))"

definition rio_readlineb :: "rio \<Rightarrow> read_result list \<Rightarrow> nat \<Rightarrow> nat \<Rightarrow> line_result res" where
  "rio_readlineb rp inp cap maxlen = readline_loop cap (maxlen - 1) 1 [] rp inp"

text \<open>\<open>rio_readnb\<close>: its loop makes at most one turn per byte; an interrupted \<open>rio_read\<close> cannot
  be seen here because \<open>rio_read\<close> retries itself.\<close>

function rio_readnb_loop :: "nat \<Rightarrow> string \<Rightarrow> rio \<Rightarrow> read_result list \<Rightarrow>
    (string option) \<times> rio \<times> read_result list" where
  "rio_readnb_loop nleft acc rp inp =
     (if nleft = 0 then (Some acc, rp, inp)
      else
        let (rc, bs, rp1, inp1) = rio_read rp inp nleft in
        if rc < 0 then (None, rp1, inp1)
        else if rc = 0 then (Some acc, rp1, inp1)
        else rio_readnb_loop (nleft - nat rc) (acc @ bs) rp1 inp1)"
  by pat_completeness auto
termination by (relation "measure fst") auto

definition rio_readnb :: "rio \<Rightarrow> read_result list \<Rightarrow> nat \<Rightarrow> string option \<times> rio \<times> read_result list" where
  "rio_readnb rp inp n = rio_readnb_loop n [] rp inp"

text \<open>The unbuffered pair. \<open>rio_readn\<close> on the kernel's answers:\<close>

fun rio_readn :: "nat \<Rightarrow> read_result list \<Rightarrow> string option \<times> read_result list" where
  "rio_readn nleft [] = (Some [], [])"
| "rio_readn nleft (r # inp) =
     (if nleft = 0 then (Some [], r # inp)
      else case r of
        Eintr \<Rightarrow> rio_readn nleft inp
      | Read_error \<Rightarrow> (None, inp)
      | Data bs \<Rightarrow>
          if bs = [] then (Some [], inp)
          else if nleft < length bs then (Some (take nleft bs), Data (drop nleft bs) # inp)
          else let (x, inp1) = rio_readn (nleft - length bs) inp in (map_option (\<lambda>t. bs @ t) x, inp1))"

text \<open>\<open>rio_writen\<close>: the kernel takes \<open>Took k\<close> bytes, is interrupted, or fails; what it has
  accepted is the second component. With no more answers it takes everything.\<close>

datatype write_result = Took nat | Wintr | Write_error

fun rio_writen :: "string \<Rightarrow> write_result list \<Rightarrow> bool \<times> string" where
  "rio_writen bs [] = (True, bs)"
| "rio_writen bs (r # out) =
     (if bs = [] then (True, [])
      else case r of
        Wintr \<Rightarrow> rio_writen bs out
      | Write_error \<Rightarrow> (False, [])
      | Took k \<Rightarrow>
          if k = 0 then (False, [])
          else let (ok, done) = rio_writen (drop k bs) out in (ok, take k bs @ done))"

section \<open>Lines\<close>

text \<open>The bytes still to come, in the buffer and from the kernel.\<close>

fun incoming :: "read_result list \<Rightarrow> string" where
  "incoming [] = []"
| "incoming (Data bs # inp) = bs @ incoming inp"
| "incoming (_ # inp) = incoming inp"

definition unread :: "rio \<Rightarrow> string" where
  "unread rp = take (nat (rio_cnt rp)) (drop (rio_bufptr rp) (rio_buf rp))"

definition rio_bytes :: "rio \<Rightarrow> read_result list \<Rightarrow> string" where
  "rio_bytes rp inp = unread rp @ incoming inp"

definition rio_inv :: "rio \<Rightarrow> bool" where
  "rio_inv rp \<longleftrightarrow> length (rio_buf rp) = RIO_BUFSIZE \<and> (0 < rio_cnt rp \<longrightarrow>
     rio_bufptr rp + nat (rio_cnt rp) \<le> RIO_BUFSIZE)"

text \<open>A connection without errors: no failing \<open>read\<close>, no empty segment.\<close>

definition good_input :: "read_result list \<Rightarrow> bool" where
  "good_input inp \<longleftrightarrow> (\<forall>r\<in>set inp. r \<noteq> Read_error \<and> r \<noteq> Data [])"

lemma rio_fill_good:
  assumes "rio_inv rp" and "good_input inp"
  shows "\<exists>rp' inp'. rio_inv rp' \<and> good_input inp' \<and> rio_bytes rp' inp' = rio_bytes rp inp
    \<and> rio_fill rp inp = (if rio_bytes rp inp = [] then Some 0 else None, rp', inp')
    \<and> (rio_bytes rp inp \<noteq> [] \<longrightarrow> 0 < rio_cnt rp')"
  using assms
proof (induction rp inp rule: rio_fill.induct)
  case (1 rp)
  then show ?case
    by (cases "0 < rio_cnt rp") (auto simp: rio_bytes_def unread_def rio_inv_def)
next
  case (2 rp r inp)
  show ?case
  proof (cases "0 < rio_cnt rp")
    case True
    then have "unread rp \<noteq> []" using "2.prems"(1) by (auto simp: unread_def rio_inv_def)
    with True 2 show ?thesis by (auto simp: rio_bytes_def)
  next
    case False
    then have u: "unread rp = []" by (simp add: unread_def)
    show ?thesis
    proof (cases r)
      case (Data bs)
      then have ne: "bs \<noteq> []" using "2.prems"(2) by (auto simp: good_input_def)
      let ?g = "take RIO_BUFSIZE bs"
      let ?rp = "rp\<lparr>rio_cnt := int (length ?g), rio_bufptr := 0, rio_buf := blit (rio_buf rp) 0 ?g\<rparr>"
      let ?in = "if length bs \<le> RIO_BUFSIZE then inp else Data (drop RIO_BUFSIZE bs) # inp"
      have fill: "rio_fill rp (r # inp) = (None, ?rp, ?in)"
        using False Data ne by (auto simp: Let_def)
      have "unread ?rp = ?g" by (auto simp: unread_def blit_def min_def)
      moreover have "?g @ incoming ?in = bs @ incoming inp" by (auto simp: take_all)
      ultimately have "rio_bytes ?rp ?in = rio_bytes rp (r # inp)"
        using u Data by (simp add: rio_bytes_def)
      moreover have "rio_inv ?rp" using "2.prems"(1) by (simp add: rio_inv_def)
      moreover have "good_input ?in" using "2.prems"(2) Data by (auto simp: good_input_def)
      moreover have "rio_bytes rp (r # inp) \<noteq> []" using Data ne by (simp add: rio_bytes_def)
      ultimately show ?thesis using fill ne by auto
    next
      case Eintr
      have "rio_inv (rp\<lparr>rio_cnt := - 1\<rparr>)" "good_input inp" using "2.prems" by (auto simp: rio_inv_def good_input_def)
      moreover have "rio_bytes (rp\<lparr>rio_cnt := - 1\<rparr>) inp = rio_bytes rp (r # inp)"
        using u Eintr by (simp add: rio_bytes_def unread_def)
      ultimately show ?thesis using "2.IH" [OF False Eintr] False Eintr by auto
    next
      case Read_error
      with 2 show ?thesis by (auto simp: good_input_def)
    qed
  qed
qed

lemma rio_read_good:
  assumes "rio_inv rp" and "good_input inp" and "0 < n"
  shows "\<exists>bs rp' inp'. rio_read rp inp n = (int (length bs), bs, rp', inp') \<and> length bs \<le> n
    \<and> rio_inv rp' \<and> good_input inp' \<and> rio_bytes rp inp = bs @ rio_bytes rp' inp'
    \<and> (rio_bytes rp inp \<noteq> [] \<longrightarrow> bs \<noteq> [])"
proof -
  obtain rp1 inp1 where f: "rio_inv rp1" "good_input inp1" "rio_bytes rp1 inp1 = rio_bytes rp inp"
    "rio_fill rp inp = (if rio_bytes rp inp = [] then Some 0 else None, rp1, inp1)"
    "rio_bytes rp inp \<noteq> [] \<Longrightarrow> 0 < rio_cnt rp1"
    using rio_fill_good [OF assms(1,2)] by blast
  show ?thesis
  proof (cases "rio_bytes rp inp = []")
    case True
    then show ?thesis using f by (auto simp: rio_read_def)
  next
    case False
    define cnt where "cnt = (if rio_cnt rp1 < int n then nat (rio_cnt rp1) else n)"
    define bs where "bs = take cnt (drop (rio_bufptr rp1) (rio_buf rp1))"
    define rp2 where "rp2 = rp1\<lparr>rio_bufptr := rio_bufptr rp1 + cnt, rio_cnt := rio_cnt rp1 - int cnt\<rparr>"
    have pos: "0 < rio_cnt rp1" using f(5) False .
    have c: "0 < cnt" "cnt \<le> n" "int cnt \<le> rio_cnt rp1" using pos assms(3) by (auto simp: cnt_def)
    have room: "rio_bufptr rp1 + nat (rio_cnt rp1) \<le> length (rio_buf rp1)"
      using f(1) pos by (simp add: rio_inv_def)
    have l: "length bs = cnt" using c room by (simp add: bs_def)
    have "unread rp1 = bs @ unread rp2"
    proof -
      have "nat (rio_cnt rp1) = cnt + nat (rio_cnt rp1 - int cnt)" using c(3) by simp
      then have "unread rp1 = take cnt (drop (rio_bufptr rp1) (rio_buf rp1))
          @ take (nat (rio_cnt rp1 - int cnt)) (drop cnt (drop (rio_bufptr rp1) (rio_buf rp1)))"
        unfolding unread_def by (metis take_add)
      then show ?thesis by (simp add: bs_def rp2_def unread_def add.commute)
    qed
    then have by2: "rio_bytes rp inp = bs @ rio_bytes rp2 inp1"
      using f(3) by (simp add: rio_bytes_def)
    have "rio_inv rp2" using f(1) c(3) room by (auto simp: rio_inv_def rp2_def)
    moreover have "rio_read rp inp n = (int (length bs), bs, rp2, inp1)"
      using f(4) False l by (simp add: rio_read_def Let_def cnt_def bs_def rp2_def)
    ultimately show ?thesis using f(2) by2 c l by auto
  qed
qed

lemma rio_read_byte:
  assumes "rio_inv rp" and "good_input inp"
  shows "case rio_bytes rp inp of
      [] \<Rightarrow> \<exists>rp' inp'. rio_read rp inp 1 = (0, [], rp', inp') \<and> rio_inv rp' \<and> good_input inp' \<and> rio_bytes rp' inp' = []
    | c # s \<Rightarrow> \<exists>rp' inp'. rio_read rp inp 1 = (1, [c], rp', inp') \<and> rio_inv rp' \<and> good_input inp' \<and> rio_bytes rp' inp' = s"
proof -
  obtain bs rp' inp' where r: "rio_read rp inp 1 = (int (length bs), bs, rp', inp')" "length bs \<le> 1"
    "rio_inv rp'" "good_input inp'" "rio_bytes rp inp = bs @ rio_bytes rp' inp'" "rio_bytes rp inp \<noteq> [] \<longrightarrow> bs \<noteq> []"
    using rio_read_good [OF assms, of 1] by auto
  then show ?thesis
    by (cases bs) (auto split: list.split)
qed

text \<open>A line: up to and including the first line feed, at most \<open>k\<close> bytes.\<close>

fun line_of :: "nat \<Rightarrow> string \<Rightarrow> string" where
  "line_of 0 s = []"
| "line_of (Suc k) [] = []"
| "line_of (Suc k) (c # s) = (if c = CHR 0x0A then [c] else c # line_of k s)"

lemma line_of_prefix: "s = line_of k s @ drop (length (line_of k s)) s"
  by (induction k s rule: line_of.induct) auto

lemma line_of_length: "length (line_of k s) \<le> k"
  by (induction k s rule: line_of.induct) auto

lemma line_of_Nil: "line_of k s = [] \<longleftrightarrow> k = 0 \<or> s = []"
  by (cases k; cases s) auto

lemma line_of_line: "CHR 0x0A \<notin> set l \<Longrightarrow> length l < k \<Longrightarrow> line_of k (l @ CHR 0x0A # s) = l @ [CHR 0x0A]"
proof (induction l arbitrary: k)
  case Nil
  then show ?case by (cases k) auto
next
  case (Cons c l)
  then show ?case by (cases k) auto
qed

text \<open>The return value: the bytes of the line, or one more when the line feed is missing.\<close>

definition line_rc :: "nat \<Rightarrow> string \<Rightarrow> nat" where
  "line_rc n l = (if l \<noteq> [] \<and> last l = CHR 0x0A then n + length l - 1 else n + length l)"

lemma readline_loop_spec:
  assumes "rio_inv rp" and "good_input inp" and "0 < n" and "1 < n \<or> rio_bytes rp inp \<noteq> []"
    and "length acc + k < cap"
  shows "\<exists>rp' inp'. readline_loop cap k n acc rp inp = Inr
      (int (line_rc n (line_of k (rio_bytes rp inp))), Some (acc @ line_of k (rio_bytes rp inp) @ [NUL]), rp', inp')
    \<and> rio_inv rp' \<and> good_input inp'
    \<and> rio_bytes rp' inp' = drop (length (line_of k (rio_bytes rp inp))) (rio_bytes rp inp)"
  using assms
proof (induction k arbitrary: n acc rp inp)
  case 0
  then show ?case by (simp add: line_rc_def store_nul_def)
next
  case (Suc k)
  show ?case
  proof (cases "rio_bytes rp inp")
    case Nil
    with Suc.prems rio_read_byte [OF Suc.prems(1,2)] show ?thesis by (auto simp: line_rc_def store_nul_def)
  next
    case (Cons c s)
    obtain rp1 inp1 where r: "rio_read rp inp 1 = (1, [c], rp1, inp1)" "rio_inv rp1" "good_input inp1"
      "rio_bytes rp1 inp1 = s"
      using rio_read_byte [OF Suc.prems(1,2)] Cons by auto
    show ?thesis
    proof (cases "c = CHR 0x0A")
      case True
      with r Cons Suc.prems(5) show ?thesis by (auto simp: line_rc_def store_nul_def)
    next
      case False
      have "0 < Suc n" "1 < Suc n \<or> rio_bytes rp1 inp1 \<noteq> []" "length (acc @ [c]) + k < cap"
        using Suc.prems(3,5) by simp_all
      from Suc.IH [OF r(2,3) this] r Cons False Suc.prems(5) show ?thesis
        by (auto simp: line_rc_def)
    qed
  qed
qed

lemma rio_readlineb_line:
  assumes "rio_inv rp" and "good_input inp" and "rio_bytes rp inp \<noteq> []" and "maxlen \<le> cap" and "0 < cap"
  shows "\<exists>rp' inp'. rio_readlineb rp inp cap maxlen = Inr
      (int (line_rc 1 (line_of (maxlen - 1) (rio_bytes rp inp))),
       Some (line_of (maxlen - 1) (rio_bytes rp inp) @ [NUL]), rp', inp')
    \<and> rio_inv rp' \<and> good_input inp'
    \<and> rio_bytes rp' inp' = drop (length (line_of (maxlen - 1) (rio_bytes rp inp))) (rio_bytes rp inp)"
  unfolding rio_readlineb_def
  using readline_loop_spec [OF assms(1,2), of 1 "[]" "maxlen - 1" cap] assms(3-5) by simp

lemma rio_readlineb_eof:
  assumes "rio_inv rp" and "good_input inp" and "rio_bytes rp inp = []" and "1 < maxlen"
  shows "\<exists>rp' inp'. rio_readlineb rp inp cap maxlen = Inr (0, None, rp', inp')
    \<and> rio_inv rp' \<and> good_input inp' \<and> rio_bytes rp' inp' = []"
proof -
  obtain k where k: "maxlen - 1 = Suc k" using assms(4) by (cases "maxlen - 1") auto
  show ?thesis
    unfolding rio_readlineb_def k using rio_read_byte [OF assms(1,2)] assms(3) by auto
qed

text \<open>The return value counts the bytes of a complete line; for a line that was cut it is one
  too many.\<close>

lemma line_rc_complete: "l \<noteq> [] \<Longrightarrow> last l = CHR 0x0A \<Longrightarrow> line_rc 1 l = length l"
  by (simp add: line_rc_def)

lemma line_rc_cut: "l = [] \<or> last l \<noteq> CHR 0x0A \<Longrightarrow> line_rc 1 l = length l + 1"
  by (auto simp: line_rc_def)

section \<open>Blocks\<close>

lemma rio_readnb_loop_spec:
  assumes "rio_inv rp" and "good_input inp"
  shows "\<exists>rp' inp'. rio_readnb_loop nleft acc rp inp = (Some (acc @ take nleft (rio_bytes rp inp)), rp', inp')
    \<and> rio_inv rp' \<and> good_input inp' \<and> rio_bytes rp' inp' = drop nleft (rio_bytes rp inp)"
  using assms
proof (induction nleft acc rp inp rule: rio_readnb_loop.induct)
  case (1 nleft acc rp inp)
  show ?case
  proof (cases "nleft = 0")
    case True
    with 1 show ?thesis by auto
  next
    case False
    then obtain bs rp1 inp1 where r: "rio_read rp inp nleft = (int (length bs), bs, rp1, inp1)" "length bs \<le> nleft"
      "rio_inv rp1" "good_input inp1" "rio_bytes rp inp = bs @ rio_bytes rp1 inp1" "rio_bytes rp inp \<noteq> [] \<longrightarrow> bs \<noteq> []"
      using rio_read_good [OF "1.prems", of nleft] by auto
    show ?thesis
    proof (cases "bs = []")
      case True
      with r False show ?thesis by auto
    next
      case ne: False
      obtain rp2 inp2 where IH: "rio_readnb_loop (nleft - length bs) (acc @ bs) rp1 inp1 =
          (Some ((acc @ bs) @ take (nleft - length bs) (rio_bytes rp1 inp1)), rp2, inp2)"
        "rio_inv rp2" "good_input inp2" "rio_bytes rp2 inp2 = drop (nleft - length bs) (rio_bytes rp1 inp1)"
        using "1.IH" [OF False r(1) [symmetric] refl refl refl] r(3,4) ne by auto
      have "rio_readnb_loop nleft acc rp inp = rio_readnb_loop (nleft - length bs) (acc @ bs) rp1 inp1"
        using False ne r(1) by (subst rio_readnb_loop.simps) (simp add: Let_def)
      then show ?thesis using IH r(2,5) by (auto simp: r(5))
    qed
  qed
qed

lemma rio_readn_spec:
  assumes "good_input inp"
  shows "\<exists>inp'. rio_readn n inp = (Some (take n (incoming inp)), inp') \<and> incoming inp' = drop n (incoming inp)"
  using assms
proof (induction n inp rule: rio_readn.induct)
  case (1 n)
  then show ?case by simp
next
  case (2 n r inp)
  have g: "good_input inp" using "2.prems" by (simp add: good_input_def)
  show ?case
  proof (cases "n = 0")
    case True
    then show ?thesis by simp
  next
    case n: False
    show ?thesis
    proof (cases r)
      case (Data bs)
      then have ne: "bs \<noteq> []" using "2.prems" by (auto simp: good_input_def)
      show ?thesis
      proof (cases "n < length bs")
        case True
        with n Data ne show ?thesis by simp
      next
        case False
        from "2.IH"(1) [OF n Data ne False g] n Data ne False show ?thesis by auto
      qed
    qed (use "2.IH"(2) [OF n _ g] n "2.prems" in \<open>auto simp: good_input_def\<close>)
  qed
qed

text \<open>What \<open>rio_writen\<close> hands to the kernel is a prefix, and all of it on success.\<close>

lemma rio_writen_spec: "rio_writen bs out = (ok, sent) \<Longrightarrow> prefix sent bs \<and> (ok \<longrightarrow> sent = bs)"
proof (induction bs out arbitrary: ok sent rule: rio_writen.induct)
  case (1 bs)
  then show ?case by simp
next
  case (2 bs r out)
  show ?case
  proof (cases "bs = []")
    case True
    with "2.prems" show ?thesis by simp
  next
    case ne: False
    show ?thesis
    proof (cases r)
      case (Took k)
      show ?thesis
      proof (cases "k = 0")
        case True
        with "2.prems" ne Took show ?thesis by simp
      next
        case False
        obtain d where d: "rio_writen (drop k bs) out = (ok, d)" "sent = take k bs @ d"
          using "2.prems" ne Took False by (auto split: prod.splits)
        from "2.IH"(1) [OF ne Took False d(1)] d(2) show ?thesis
          by (metis append_take_drop_id same_prefix_prefix)
      qed
    qed (use "2.prems" "2.IH"(2) [OF ne] ne in auto)
  qed
qed

end
