(* ===== verification/Mt_Server.thy ===== *)
theory Mt_Server
  imports Sped Rio
begin

text \<open>
  The threaded server: \<open>mt_server/ed_http.c\<close> (the response in one go, with loops where the
  event-driven servers have stages) and the request side of \<open>mt_server/ed_server.c\<close>. A thread
  may wait for ever in \<open>read_request_headers\<close>, so that loop is a \<^theory_text>\<open>partial_function\<close> and
  not returning is \<open>None\<close>.
\<close>

section \<open>Responses\<close>

text \<open>The loop that copies a file; an error response follows what was sent when \<open>fread\<close> fails.\<close>

function mt_file_loop :: "env \<Rightarrow> fd \<Rightarrow> stream \<Rightarrow> world \<Rightarrow> (int \<times> world) res" where
  "mt_file_loop E d st w =
     (if s_eof st then Inr (SUCCESS, fclose w)
      else
        let (bs, st') = fread READ_CHUNK_SIZE st in
        if s_err st' then
          rbind (write_http_response_error E 500 d (fclose w)) (\<lambda>(_, w1). Inr (FAILURE, w1))
        else mt_file_loop E d st' (if bs \<noteq> [] then snd (write_http_response_data d bs w) else w))"
  by pat_completeness auto
termination
proof (relation "measure (\<lambda>(E, d, st, w). (if s_eof st then 0 else 1) + length (s_rest st))")
  fix E :: env and d :: fd and st :: stream and w :: world and x bs st'
  assume "\<not> s_eof st" and f: "x = fread READ_CHUNK_SIZE st" "(bs, st') = x" and "\<not> s_err st'"
  then have "s_eof st' \<or> length bs = READ_CHUNK_SIZE"
    using fread_progress [of READ_CHUNK_SIZE st bs st'] by auto
  moreover have "s_rest st = bs @ s_rest st'" using fread_rest f by metis
  ultimately show "((E, d, st', if bs \<noteq> [] then snd (write_http_response_data d bs w) else w), E, d, st, w)
      \<in> measure (\<lambda>(E, d, st, w). (if s_eof st then 0 else 1) + length (s_rest st))"
    using \<open>\<not> s_eof st\<close> by auto
qed auto

text \<open>The loop that copies the output of a CGI program.\<close>

function mt_cgi_loop :: "fd \<Rightarrow> stream \<Rightarrow> world \<Rightarrow> int \<times> world" where
  "mt_cgi_loop d st w =
     (if s_eof st then (SUCCESS, fclose w)
      else
        let (bs, st') = fread READ_CHUNK_SIZE st in
        if s_err st' then (FAILURE, fclose w)
        else mt_cgi_loop d st' (snd (write_http_response_data d bs w)))"
  by pat_completeness auto
termination
proof (relation "measure (\<lambda>(d, st, w). (if s_eof st then 0 else 1) + length (s_rest st))")
  fix d :: fd and st :: stream and w :: world and x bs st'
  assume "\<not> s_eof st" and f: "x = fread READ_CHUNK_SIZE st" "(bs, st') = x" and "\<not> s_err st'"
  then have "s_eof st' \<or> length bs = READ_CHUNK_SIZE"
    using fread_progress [of READ_CHUNK_SIZE st bs st'] by auto
  moreover have "s_rest st = bs @ s_rest st'" using fread_rest f by metis
  ultimately show "((d, st', snd (write_http_response_data d bs w)), d, st, w)
      \<in> measure (\<lambda>(d, st, w). (if s_eof st then 0 else 1) + length (s_rest st))"
    using \<open>\<not> s_eof st\<close> by auto
qed auto

declare mt_file_loop.simps [simp del] mt_cgi_loop.simps [simp del]

definition mt_fail :: "env \<Rightarrow> int \<Rightarrow> fd \<Rightarrow> world \<Rightarrow> (int \<times> world) res" where
  "mt_fail E code d w = rbind (write_http_response_error E code d w) (\<lambda>(_, w'). Inr (FAILURE, w'))"

definition mt_write_http_cgi_response :: "env \<Rightarrow> string \<Rightarrow> fd \<Rightarrow> world \<Rightarrow> (int \<times> world) res" where
  "mt_write_http_cgi_response E file_path d w =
     (let (command, query_str) = split_query file_path in
      case fopen E command w of
        (None, w1) \<Rightarrow> mt_fail E 404 d w1
      | (Some _, w1) \<Rightarrow>
          rbind (run_cgi_file E command query_str (fclose w1)) (\<lambda>(st, w2).
          case st of
            None \<Rightarrow> mt_fail E 500 d w2
          | Some s \<Rightarrow> Inr (mt_cgi_loop d s w2)))"

definition mt_write_http_fastcgi_response :: "env \<Rightarrow> string \<Rightarrow> fd \<Rightarrow> world \<Rightarrow> (int \<times> world) res" where
  "mt_write_http_fastcgi_response E file_path d w =
     (if \<not> terminated file_path then Inl OverRead
      else
        let (command, query_str) = split_query file_path in
        rbind (print_fcgi_request command query_str) (\<lambda>request_query.
        if e_socket E < 0 then mt_fail E 500 d w
        else
          let w1 = w\<lparr>w_socks := w_socks w + 1\<rparr> in
          if \<not> e_connect E (inet_addr sped_serv_addr) (nat (atoi serv_port)) then mt_fail E 500 d w1
          else if e_fcgi_send E request_query \<noteq> int (length request_query) then mt_fail E 500 d w1
          else Inr (SUCCESS, fcgi_forward d (e_fcgi_reply E request_query) w1)))"

definition mt_send_file :: "env \<Rightarrow> string \<Rightarrow> string \<Rightarrow> fd \<Rightarrow> world \<Rightarrow> (int \<times> world) res" where
  "mt_send_file E pg file_path d w =
     (case fopen E file_path w of
        (None, w1) \<Rightarrow> mt_fail E 404 d w1
      | (Some st, w1) \<Rightarrow>
          if \<not> f_seek_ok (s_file st) then mt_fail E 500 d (fclose w1)
          else if \<not> f_tell_ok (s_file st) then mt_fail E 500 d (fclose w1)
          else
            rbind (get_file_type pg) (\<lambda>type.
            rbind (write_http_response_header E d type (to_int (int (length (f_data (s_file st))))) 200 ''OK'' w1)
              (\<lambda>(_, w2). mt_file_loop E d (rewind st) w2)))"

definition mt_write_http_response :: "env \<Rightarrow> fd \<Rightarrow> parsed_request \<Rightarrow> world \<Rightarrow> (int \<times> world) res" where
  "mt_write_http_response E d hreq w =
     (let pg = page hreq in
      rbind (make_file_path pg) (\<lambda>file_path.
      if strncmp_eq pg ''/cgi-bin/'' 9 then
        rbind (mt_write_http_cgi_response E file_path d w) (\<lambda>(_, w'). Inr (SUCCESS, w'))
      else if strncmp_eq pg ''/fastcgi-bin/'' 13 then
        rbind (mt_write_http_fastcgi_response E (drop 13 pg) d w) (\<lambda>(_, w'). Inr (SUCCESS, w'))
      else mt_send_file E pg file_path d w))"

section \<open>Requests\<close>

abbreviation MAXLINE :: nat where "MAXLINE \<equiv> 8192"

text \<open>The loop of \<open>read_request_headers\<close>, whose \<open>temp_buf\<close> has \<open>MAXLINE\<close> bytes; at end of file \<open>rio_readlineb\<close> returns 0 and leaves
  the buffer as it was.\<close>

partial_function (option) skip_headers ::
    "string \<Rightarrow> rio \<Rightarrow> read_result list \<Rightarrow> (int \<times> rio \<times> read_result list) res option" where
  "skip_headers temp_buf rp inp =
     (if strcmp_eq temp_buf [CR, LF] then Some (Inr (SUCCESS, rp, inp))
      else case rio_readlineb rp inp MAXLINE MAXLINE of
        Inl e \<Rightarrow> Some (Inl e)
      | Inr (rc, buf, rp1, inp1) \<Rightarrow>
          if rc < 0 then Some (Inr (rc, rp1, inp1))
          else skip_headers (case buf of None \<Rightarrow> temp_buf | Some b \<Rightarrow> b) rp1 inp1)"

definition read_request_headers ::
    "rio \<Rightarrow> read_result list \<Rightarrow> (int \<times> rio \<times> read_result list) res option" where
  "read_request_headers rp inp =
     (case rio_readlineb rp inp MAXLINE MAXLINE of
        Inl e \<Rightarrow> Some (Inl e)
      | Inr (rc, buf, rp1, inp1) \<Rightarrow>
          if rc < 0 then Some (Inr (rc, rp1, inp1))
          else case buf of
            None \<Rightarrow> Some (Inl Uninit)
          | Some b \<Rightarrow> skip_headers b rp1 inp1)"

text \<open>
  \<open>handle_request\<close>: \<open>junk\<close> and \<open>req0\<close> are the indeterminate contents of its local
  variables, \<open>header\<close> has \<open>MAX_LINE\<close> bytes. A connection that ends before the first byte leaves the header indeterminate.
\<close>

definition handle_request ::
    "env \<Rightarrow> string \<Rightarrow> parsed_request \<Rightarrow> fd \<Rightarrow> read_result list \<Rightarrow> world \<Rightarrow> world res option" where
  "handle_request E junk req0 d inp w =
     (case rio_readlineb (rio_readinitb d junk) inp MAX_LINE MAX_LINE of
        Inl e \<Rightarrow> Some (Inl e)
      | Inr (rc, header, rp1, inp1) \<Rightarrow>
          if rc < 0 then Some (Inr w)
          else case header of
            None \<Rightarrow> Some (Inl Uninit)
          | Some h \<Rightarrow>
              (case mt_process_http_request E h req0 of
                 Inl e \<Rightarrow> Some (Inl e)
               | Inr (rc1, hreq) \<Rightarrow>
                   if rc1 \<noteq> SUCCESS then Some (Inr w)
                   else case read_request_headers rp1 inp1 of
                     None \<Rightarrow> None
                   | Some (Inl e) \<Rightarrow> Some (Inl e)
                   | Some (Inr (rc2, _, _)) \<Rightarrow>
                       if rc2 \<noteq> SUCCESS then Some (Inr w)
                       else Some (rbind (mt_write_http_response E d hreq w) (\<lambda>(_, w'). Inr w'))))"

text \<open>One turn of the loop of \<open>conn_handler\<close> on a connection it got from the buffer.\<close>

definition conn_handler_once ::
    "env \<Rightarrow> string \<Rightarrow> parsed_request \<Rightarrow> fd \<Rightarrow> read_result list \<Rightarrow> world \<Rightarrow> world res option" where
  "conn_handler_once E junk req0 d inp w =
     map_option (\<lambda>r. rbind r (\<lambda>w'. Inr (sys_close d w'))) (handle_request E junk req0 d inp w)"

end
