(* ===== verification/Chunk_Copy.thy ===== *)
theory Chunk_Copy
  imports World
begin

text \<open>
  The copy loops of the servers. A file, the output of a CGI program or a shared segment goes
  to the client in chunks of a fixed size: once per writable event in the event-driven
  servers, once per turn of a loop in the threaded one. All of them stop at the first chunk
  that comes out short. The locale states what one step does and proves what all of them do.
\<close>

text \<open>A fixed number of steps of an operation that may fail.\<close>

fun iter_res :: "nat \<Rightarrow> ('s \<Rightarrow> 's res) \<Rightarrow> 's \<Rightarrow> 's res" where
  "iter_res 0 f s = Inr s"
| "iter_res (Suc n) f s = rbind (f s) (iter_res n f)"

lemma iter_res_add: "iter_res (m + n) f s = rbind (iter_res m f s) (iter_res n f)"
proof (induction m arbitrary: s)
  case (Suc m)
  then show ?case by (cases "f s") simp_all
qed simp

lemma iter_res_1 [simp]: "iter_res (Suc 0) f s = f s"
  by (cases "f s") simp_all

lemma iter_res_then: "f s = Inr s1 \<Longrightarrow> iter_res n f s1 = r \<Longrightarrow> iter_res (Suc n) f s = r"
  by simp

locale chunk_copier =
  fixes step :: "'s \<Rightarrow> 's res"
    and chunk :: nat
    and streaming :: "'s \<Rightarrow> 'a list \<Rightarrow> bool"   \<comment> \<open>the second argument is still to be copied\<close>
    and out :: "'s \<Rightarrow> 'a list"                 \<comment> \<open>what was copied\<close>
    and keeps :: "'s \<Rightarrow> 's \<Rightarrow> bool"           \<comment> \<open>nothing else changed\<close>
    and finished :: "'s \<Rightarrow> 's \<Rightarrow> bool"        \<comment> \<open>the copy is over, resources released\<close>
  assumes chunk_pos: "0 < chunk"
    and step_more: "streaming s r \<Longrightarrow> chunk \<le> length r \<Longrightarrow>
      \<exists>s'. step s = Inr s' \<and> streaming s' (drop chunk r) \<and> out s' = out s @ take chunk r \<and> keeps s s'"
    and step_last: "streaming s r \<Longrightarrow> length r < chunk \<Longrightarrow>
      \<exists>s'. step s = Inr s' \<and> out s' = out s @ r \<and> finished s s'"
    and keeps_trans: "keeps s s' \<Longrightarrow> keeps s' s'' \<Longrightarrow> keeps s s''"
    and keeps_refl: "keeps s s"
    and finished_keeps: "keeps s s' \<Longrightarrow> finished s' s'' \<Longrightarrow> finished s s''"
begin

text \<open>After \<open>k\<close> steps, \<open>k\<close> chunks are out and the copy is still going on.\<close>

lemma copy_partial:
  "streaming s r \<Longrightarrow> k \<le> length r div chunk \<Longrightarrow>
   \<exists>s'. iter_res k step s = Inr s' \<and> streaming s' (drop (k * chunk) r)
     \<and> out s' = out s @ take (k * chunk) r \<and> keeps s s'"
proof (induction k)
  case 0
  then show ?case by (auto intro: keeps_refl)
next
  case (Suc k)
  then obtain s1 where s1: "iter_res k step s = Inr s1" "streaming s1 (drop (k * chunk) r)"
    "out s1 = out s @ take (k * chunk) r" "keeps s s1" by fastforce
  have "Suc k * chunk \<le> length r"
    using Suc.prems(2) chunk_pos by (simp add: less_eq_div_iff_mult_less_eq)
  then have "chunk \<le> length (drop (k * chunk) r)" by simp
  from step_more [OF s1(2) this] obtain s2 where
    s2: "step s1 = Inr s2" "streaming s2 (drop chunk (drop (k * chunk) r))"
      "out s2 = out s1 @ take chunk (drop (k * chunk) r)" "keeps s1 s2" by blast
  have "iter_res (Suc k) step s = Inr s2"
    using iter_res_add [of k 1 step s] s1(1) s2(1) by simp
  moreover have "out s2 = out s @ take (Suc k * chunk) r"
    using s1(3) s2(3) by (simp add: add.commute flip: take_add)
  ultimately show ?case using s2(2) keeps_trans [OF s1(4) s2(4)] by (auto simp: add.commute)
qed

text \<open>The whole copy takes one step per full chunk and one more, whatever the size.\<close>

lemma copy_all:
  assumes "streaming s r"
  shows "\<exists>s'. iter_res (length r div chunk + 1) step s = Inr s' \<and> out s' = out s @ r \<and> finished s s'"
proof -
  let ?k = "length r div chunk"
  from copy_partial [OF assms order_refl] obtain s1 where
    s1: "iter_res ?k step s = Inr s1" "streaming s1 (drop (?k * chunk) r)"
    "out s1 = out s @ take (?k * chunk) r" "keeps s s1" by blast
  have "length (drop (?k * chunk) r) < chunk"
    using chunk_pos by (simp add: minus_div_mult_eq_mod)
  from step_last [OF s1(2) this] obtain s2 where
    s2: "step s1 = Inr s2" "out s2 = out s1 @ drop (?k * chunk) r" "finished s1 s2" by blast
  have "iter_res (?k + 1) step s = Inr s2"
    using iter_res_add [of ?k 1 step s] s1(1) s2(1) by simp
  then show ?thesis using s1(3) s2(2) finished_keeps [OF s1(4) s2(3)] by auto
qed

end

end
