(* ===== verification/Sped_Serve.thy ===== *)
theory Sped_Serve
  imports Sped_Correct Chunk_Copy
begin

text \<open>
  What a client of the single-process server receives. A static page takes one writable
  event to find the file, one for the header and then one per chunk; the client gets the
  header and exactly the bytes of the file, the connection is closed and nothing leaks. The
  output of a CGI program goes the same way.
\<close>

section \<open>One writable event of a connection\<close>

definition out_event :: "fd \<Rightarrow> epoll_event" where
  "out_event d = \<lparr>ev_fd = d, ev_events = {EPOLLOUT}, ev_accepts = [], ev_read = None\<rparr>"

definition out_step :: "env \<Rightarrow> fd \<Rightarrow> sped \<times> world \<Rightarrow> (sped \<times> world) res" where
  "out_step E d = (\<lambda>(ep, w). ed_epoll_dispatch_events E [out_event d] ep w)"

text \<open>A connection that waits to be written, on a kernel that takes all it is given.\<close>

definition serving :: "fd \<Rightarrow> sped \<times> world \<Rightarrow> bool" where
  "serving d = (\<lambda>(ep, w). 0 \<le> d \<and> d < maxfds ep \<and> 0 < fds_used ep
     \<and> callback (ed_clients ep d) = Some Ed_socket_callback \<and> data (ed_clients ep d) = Page d
     \<and> w_interest w d \<noteq> None \<and> w_send_rets w = [])"

text \<open>Everything but the request of \<open>d\<close> and its output is as it was; \<open>k\<close> more streams are open.\<close>

definition conn_keeps :: "fd \<Rightarrow> int \<Rightarrow> sped \<times> world \<Rightarrow> sped \<times> world \<Rightarrow> bool" where
  "conn_keeps d k = (\<lambda>(ep, w) (ep', w').
     (\<forall>d'. d' \<noteq> d \<longrightarrow> ed_clients ep' d' = ed_clients ep d' \<and> w_sent w' d' = w_sent w d')
     \<and> maxfds ep' = maxfds ep \<and> fds_used ep' = fds_used ep \<and> w_streams w' = w_streams w + k
     \<and> w_socks w' = w_socks w \<and> w_closed w' = w_closed w \<and> w_open w' = w_open w
     \<and> w_interest w' = w_interest w)"

text \<open>The connection is gone: its client is cleared, its descriptor closed and out of the interest set.\<close>

definition conn_done :: "fd \<Rightarrow> int \<Rightarrow> sped \<times> world \<Rightarrow> sped \<times> world \<Rightarrow> bool" where
  "conn_done d k = (\<lambda>(ep, w) (ep', w').
     (\<forall>d'. d' \<noteq> d \<longrightarrow> ed_clients ep' d' = ed_clients ep d' \<and> w_sent w' d' = w_sent w d')
     \<and> callback (ed_clients ep' d) = None \<and> http_req (ed_clients ep' d) = zero_request
     \<and> maxfds ep' = maxfds ep \<and> fds_used ep' = fds_used ep - 1 \<and> w_streams w' = w_streams w + k
     \<and> w_socks w' = w_socks w \<and> w_closed w' = d # w_closed w \<and> w_open w' = w_open w - {d}
     \<and> w_interest w' = (w_interest w)(d := None))"

lemma conn_keeps_trans: "conn_keeps d j s s1 \<Longrightarrow> conn_keeps d k s1 s2 \<Longrightarrow> conn_keeps d (j + k) s s2"
  by (cases s; cases s1; cases s2) (simp add: conn_keeps_def)

lemma conn_keeps_done: "conn_keeps d j s s1 \<Longrightarrow> conn_done d k s1 s2 \<Longrightarrow> conn_done d (j + k) s s2"
  by (cases s; cases s1; cases s2) (simp add: conn_keeps_def conn_done_def)

lemma conn_keeps_refl: "conn_keeps d 0 s s"
  by (cases s) (simp add: conn_keeps_def)

lemma conn_done_drop:
  assumes "w_interest w d \<noteq> None" and "conn_keeps d k s (ep, w)"
  shows "conn_done d k s (drop_conn E d ep w)"
    and "w_sent (snd (drop_conn E d ep w)) = w_sent w"
  using assms
  by (cases s, auto simp: conn_keeps_def conn_done_def drop_conn_def ed_epoll_del_ok fun_upd_def)

text \<open>A writable event is one stage of the response, and the end of the connection when the
  stage finished the request.\<close>

lemma out_step_eq:
  assumes "serving d (ep, w)"
  shows "out_step E d (ep, w) = rbind (write_http_response E d (Page d) ep w) (\<lambda>(_, ep1, w1).
     if status (req_of ep1 d) = STATUS_REQUEST_FINISH then Inr (drop_conn E d ep1 w1) else Inr (ep1, w1))"
  using assms
  by (cases "write_http_response E d (Page d) ep w")
     (auto simp: out_step_def serving_def out_event_def ed_socket_callback_def Let_def split: prod.splits)

lemma serving_upd_req:
  "serving d (upd_req d f ep, w') \<longleftrightarrow> serving d (ep, w)"
  if "w_interest w' = w_interest w" "w_send_rets w' = w_send_rets w"
  using that by (simp add: serving_def)

section \<open>Copying a file\<close>

text \<open>The request of \<open>d\<close> is in one of the states \<open>S\<close> and its stream has \<open>r\<close> left.\<close>

definition sending :: "status set \<Rightarrow> fd \<Rightarrow> sped \<times> world \<Rightarrow> string \<Rightarrow> bool" where
  "sending S d = (\<lambda>(ep, w) r. serving d (ep, w) \<and> status (req_of ep d) \<in> S
     \<and> (\<exists>st. fp (req_of ep d) = Some st \<and> s_rest st = r \<and> s_bad st = None \<and> \<not> s_eof st \<and> \<not> s_err st))"

abbreviation file_states :: "status set" where
  "file_states \<equiv> {STATUS_HEADER_WRITTEN, STATUS_DATA_WRITING}"

abbreviation cgi_states :: "status set" where
  "cgi_states \<equiv> {STATUS_CGI_PROC_RUNNING, STATUS_CGI_RESPONSE_WRITING}"

text \<open>The two copying stages agree on a stream without read errors.\<close>

lemma copy_stage:
  assumes "sending S d (ep, w) r" and "S = file_states \<or> S = cgi_states"
  shows "\<exists>f. write_http_response E d (Page d) ep w =
      Inr (0, upd_req d f ep,
        (if length r < READ_CHUNK_SIZE then fclose else id)
          (w\<lparr>w_sent := (w_sent w)(d := w_sent w d @ take READ_CHUNK_SIZE r)\<rparr>))
    \<and> (if length r < READ_CHUNK_SIZE then status (f (req_of ep d)) = STATUS_REQUEST_FINISH
       else status (f (req_of ep d)) \<in> S \<and> status (f (req_of ep d)) \<noteq> STATUS_REQUEST_FINISH
         \<and> (\<exists>st. fp (f (req_of ep d)) = Some st \<and> s_rest st = drop READ_CHUNK_SIZE r
            \<and> s_bad st = None \<and> \<not> s_eof st \<and> \<not> s_err st))"
proof -
  obtain st where st: "fp (req_of ep d) = Some st" "s_rest st = r" "s_bad st = None" "\<not> s_eof st" "\<not> s_err st"
    and sv: "serving d (ep, w)" and s: "status (req_of ep d) \<in> S"
    using assms(1) by (auto simp: sending_def)
  have full: "w_send_rets w = []" using sv by (simp add: serving_def)
  obtain a where a: "make_file_path (page (req_of ep d)) = Inr a"
    using make_file_path_ok by blast
  have idu: "(w_sent w)(d := w_sent w d) = w_sent w" by simp
  from assms(2) show ?thesis
  proof
    assume S: "S = file_states"
    then have "write_http_response E d (Page d) ep w = stage_data E d ep w"
      using s a by (auto simp: write_http_response_def deref_def)
    then show ?thesis
      using st S full by (auto simp: stage_data_def fread_good Let_def write_http_response_data_def send_full
          fclose_def intro!: exI)
  next
    assume S: "S = cgi_states"
    then have "write_http_response E d (Page d) ep w = cgi_copy d ep w"
      using s a st by (auto simp: write_http_response_def deref_def write_http_cgi_response_def
          cgi_copy_def fread_good Let_def write_http_response_data_def)
    then show ?thesis
      using st S full by (auto simp: cgi_copy_def fread_good Let_def write_http_response_data_def send_full
          fclose_def intro!: exI)
  qed
qed

lemma conn_keeps_send:
  "w' = w\<lparr>w_sent := (w_sent w)(d := x), w_streams := w_streams w + k\<rparr> \<Longrightarrow> conn_keeps d k (ep, w) (upd_req d f ep, w')"
  by (auto simp: conn_keeps_def upd_req_def)

lemma conn_keeps_streams: "conn_keeps d k (ep, w) (upd_req d f ep, w\<lparr>w_streams := w_streams w + k\<rparr>)"
  by (rule conn_keeps_send [where x = "w_sent w d"]) simp

lemma copy_more:
  assumes "sending S d (ep, w) r" and "S = file_states \<or> S = cgi_states" and "READ_CHUNK_SIZE \<le> length r"
  shows "\<exists>ep' w'. out_step E d (ep, w) = Inr (ep', w') \<and> sending S d (ep', w') (drop READ_CHUNK_SIZE r)
    \<and> w_sent w' d = w_sent w d @ take READ_CHUNK_SIZE r \<and> conn_keeps d 0 (ep, w) (ep', w')"
proof -
  let ?w = "w\<lparr>w_sent := (w_sent w)(d := w_sent w d @ take READ_CHUNK_SIZE r)\<rparr>"
  have sv: "serving d (ep, w)" using assms(1) by (simp add: sending_def)
  obtain f where f: "write_http_response E d (Page d) ep w = Inr (0, upd_req d f ep, ?w)"
    and q: "status (f (req_of ep d)) \<in> S" "status (f (req_of ep d)) \<noteq> STATUS_REQUEST_FINISH"
      "\<exists>st. fp (f (req_of ep d)) = Some st \<and> s_rest st = drop READ_CHUNK_SIZE r
            \<and> s_bad st = None \<and> \<not> s_eof st \<and> \<not> s_err st"
    using copy_stage [OF assms(1,2), of E] assms(3) by auto
  have "out_step E d (ep, w) = Inr (upd_req d f ep, ?w)"
    using out_step_eq [OF sv] f q(2) by simp
  moreover have "sending S d (upd_req d f ep, ?w) (drop READ_CHUNK_SIZE r)"
    using sv q serving_upd_req [of ?w w d f ep] by (simp add: sending_def)
  moreover have "conn_keeps d 0 (ep, w) (upd_req d f ep, ?w)"
    by (rule conn_keeps_send) simp
  ultimately show ?thesis by force
qed

lemma copy_last:
  assumes "sending S d (ep, w) r" and "S = file_states \<or> S = cgi_states" and "length r < READ_CHUNK_SIZE"
  shows "\<exists>ep' w'. out_step E d (ep, w) = Inr (ep', w') \<and> w_sent w' d = w_sent w d @ r
    \<and> conn_done d (- 1) (ep, w) (ep', w')"
proof -
  let ?w = "fclose (w\<lparr>w_sent := (w_sent w)(d := w_sent w d @ r)\<rparr>)"
  have sv: "serving d (ep, w)" using assms(1) by (simp add: sending_def)
  obtain f where f: "write_http_response E d (Page d) ep w = Inr (0, upd_req d f ep, ?w)"
    and q: "status (f (req_of ep d)) = STATUS_REQUEST_FINISH"
    using copy_stage [OF assms(1,2), of E] assms(3) by auto
  have step: "out_step E d (ep, w) = Inr (drop_conn E d (upd_req d f ep) ?w)"
    using out_step_eq [OF sv] f q by simp
  have "conn_keeps d (- 1) (ep, w) (upd_req d f ep, ?w)"
    by (rule conn_keeps_send) (simp add: fclose_def)
  moreover have "w_interest ?w d \<noteq> None" using sv by (simp add: serving_def)
  ultimately have "conn_done d (- 1) (ep, w) (drop_conn E d (upd_req d f ep) ?w)"
    "w_sent (snd (drop_conn E d (upd_req d f ep) ?w)) = w_sent ?w"
    using conn_done_drop by blast+
  then show ?thesis using step by (cases "drop_conn E d (upd_req d f ep) ?w") auto
qed

interpretation sped_file: chunk_copier "out_step E d" READ_CHUNK_SIZE "sending file_states d"
    "\<lambda>s. w_sent (snd s) d" "conn_keeps d 0" "conn_done d (- 1)"
  for E :: env and d :: fd
proof unfold_locales
  fix s :: "sped \<times> world" and r assume "sending file_states d s r" and "READ_CHUNK_SIZE \<le> length r"
  then show "\<exists>s'. out_step E d s = Inr s' \<and> sending file_states d s' (drop READ_CHUNK_SIZE r) \<and>
      w_sent (snd s') d = w_sent (snd s) d @ take READ_CHUNK_SIZE r \<and> conn_keeps d 0 s s'"
    using copy_more [of file_states d "fst s" "snd s" r E] by auto
next
  fix s :: "sped \<times> world" and r assume "sending file_states d s r" and "length r < READ_CHUNK_SIZE"
  then show "\<exists>s'. out_step E d s = Inr s' \<and> w_sent (snd s') d = w_sent (snd s) d @ r \<and> conn_done d (- 1) s s'"
    using copy_last [of file_states d "fst s" "snd s" r E] by auto
qed (use conn_keeps_trans [of d 0 _ _ 0] conn_keeps_done [of d 0 _ _ "- 1"] in \<open>auto intro: conn_keeps_refl\<close>)

interpretation sped_cgi: chunk_copier "out_step E d" READ_CHUNK_SIZE "sending cgi_states d"
    "\<lambda>s. w_sent (snd s) d" "conn_keeps d 0" "conn_done d (- 1)"
  for E :: env and d :: fd
proof unfold_locales
  fix s :: "sped \<times> world" and r assume "sending cgi_states d s r" and "READ_CHUNK_SIZE \<le> length r"
  then show "\<exists>s'. out_step E d s = Inr s' \<and> sending cgi_states d s' (drop READ_CHUNK_SIZE r) \<and>
      w_sent (snd s') d = w_sent (snd s) d @ take READ_CHUNK_SIZE r \<and> conn_keeps d 0 s s'"
    using copy_more [of cgi_states d "fst s" "snd s" r E] by auto
next
  fix s :: "sped \<times> world" and r assume "sending cgi_states d s r" and "length r < READ_CHUNK_SIZE"
  then show "\<exists>s'. out_step E d s = Inr s' \<and> w_sent (snd s') d = w_sent (snd s) d @ r \<and> conn_done d (- 1) s s'"
    using copy_last [of cgi_states d "fst s" "snd s" r E] by auto
qed (use conn_keeps_trans [of d 0 _ _ 0] conn_keeps_done [of d 0 _ _ "- 1"] in \<open>auto intro: conn_keeps_refl\<close>)

section \<open>Serving a request\<close>

text \<open>The request was just parsed: nothing was done for it yet.\<close>

definition fresh :: "fd \<Rightarrow> string \<Rightarrow> sped \<times> world \<Rightarrow> bool" where
  "fresh d p = (\<lambda>(ep, w). serving d (ep, w) \<and> status (req_of ep d) = STATUS_REQUEST_START
     \<and> terminated (page (req_of ep d)) \<and> cstr (page (req_of ep d)) = p)"

definition static_page :: "string \<Rightarrow> bool" where
  "static_page p \<longleftrightarrow> \<not> strncmp_eq p ''/cgi-bin/'' 9 \<and> \<not> strncmp_eq p ''/fastcgi-bin/'' 13"

lemma strncmp_cstr [simp]: "strncmp_eq (cstr a) t n = strncmp_eq a t n"
  by (simp add: strncmp_eq_def)

definition www_path :: "string \<Rightarrow> string" where
  "www_path p = WWW_PATH @ take 1019 p"

lemma www_path_cstr: "\<exists>a. make_file_path pg = Inr a \<and> cstr a = www_path (cstr pg)"
proof -
  obtain z where a: "make_file_path pg = Inr ((WWW_PATH @ take 1019 (cstr pg)) @ zeros (Suc z))"
    using make_file_path_ok [of pg] by blast
  have "cstr ((WWW_PATH @ take 1019 (cstr pg)) @ zeros (Suc z)) = www_path (cstr pg)"
    unfolding www_path_def by (intro cstr_zeros) simp
  with a show ?thesis by blast
qed

text \<open>A file that can be read to its end and whose size fits an \<open>int\<close>.\<close>

definition readable_file :: "filedata \<Rightarrow> bool" where
  "readable_file f \<longleftrightarrow> f_seek_ok f \<and> f_tell_ok f \<and> f_bad f = None \<and> length (f_data f) < 2 ^ 31"

text \<open>The first event on a static page looks for the file.\<close>

lemma find_event:
  assumes "fresh d p (ep, w)" and "static_page p"
  shows "out_step E d (ep, w) =
    (case e_files E (www_path p) of
       None \<Rightarrow> Inr (drop_conn E d (upd_req d (set_status STATUS_REQUEST_FINISH) ep)
                 (w\<lparr>w_sent := (w_sent w)(d := w_sent w d @ error_text E 404)\<rparr>))
     | Some f \<Rightarrow> Inr (upd_req d (\<lambda>r. r\<lparr>status := STATUS_FILE_FOUND, fp := Some (open_stream f)\<rparr>) ep,
                 w\<lparr>w_streams := w_streams w + 1\<rparr>))"
proof -
  let ?pg = "page (req_of ep d)"
  from assms(1) have sv: "serving d (ep, w)" and st: "status (req_of ep d) = STATUS_REQUEST_START"
    and t: "terminated ?pg" and p: "cstr ?pg = p" by (auto simp: fresh_def)
  obtain a where a: "make_file_path ?pg = Inr a" and c: "cstr a = www_path p"
    using www_path_cstr p by blast
  have full: "w_send_rets w = []" using sv by (simp add: serving_def)
  have np: "\<not> strncmp_eq ?pg ''/cgi-bin/'' 9" "\<not> strncmp_eq ?pg ''/fastcgi-bin/'' 13"
    using assms(2) p by (auto simp: static_page_def)
  have "write_http_response E d (Page d) ep w = (case e_files E (www_path p) of
       None \<Rightarrow> fail_request E 404 d ep w
     | Some f \<Rightarrow> Inr (0, upd_req d (\<lambda>r. r\<lparr>status := STATUS_FILE_FOUND, fp := Some (open_stream f)\<rparr>) ep,
                 w\<lparr>w_streams := w_streams w + 1\<rparr>))"
    unfolding write_http_response_def deref_def ptr.case rbind.simps a Let_def
    using np st by (simp add: stage_find_def fopen_def c split: option.split)
  then show ?thesis
    using out_step_eq [OF sv, of E] full
    by (simp add: fail_request_eq error_world_sent set_status_def split: option.split)
qed

text \<open>The second event writes the header.\<close>

lemma header_event:
  assumes sv: "serving d (ep, w)" and st: "status (req_of ep d) = STATUS_FILE_FOUND"
    and f: "fp (req_of ep d) = Some (open_stream f)" "readable_file f"
    and ty: "get_file_type (page (req_of ep d)) = Inr ty"
  shows "\<exists>ep' w'. out_step E d (ep, w) = Inr (ep', w') \<and> sending file_states d (ep', w') (f_data f)
    \<and> w_sent w' d = w_sent w d @ http_header E ty (int (length (f_data f))) 200 ''OK''
    \<and> conn_keeps d 0 (ep, w) (ep', w')"
proof -
  let ?n = "int (length (f_data f))"
  let ?h = "http_header E ty ?n 200 ''OK''"
  let ?w = "w\<lparr>w_sent := (w_sent w)(d := w_sent w d @ ?h)\<rparr>"
  let ?g = "\<lambda>r. r\<lparr>status := STATUS_HEADER_WRITTEN, fp := Some (rewind (open_stream f)), response_size := ?n\<rparr>"
  obtain a where a: "make_file_path (page (req_of ep d)) = Inr a" using make_file_path_ok by blast
  have full: "w_send_rets w = []" using sv by (simp add: serving_def)
  have len: "to_int ?n = ?n" using f(2) by (simp add: readable_file_def to_int_def)
  have "write_http_response_header E d ty ?n 200 ''OK'' w = Inr (0, ?w)"
    using get_file_type_length [OF ty] to_int_range [of ?n] len full
    by (simp add: write_header_ok send_full)
  then have "write_http_response E d (Page d) ep w = Inr (0, upd_req d ?g ep, ?w)"
    using a st f ty len
    by (simp add: write_http_response_def deref_def stage_header_def open_stream_def readable_file_def Let_def)
  then have "out_step E d (ep, w) = Inr (upd_req d ?g ep, ?w)"
    using out_step_eq [OF sv, of E] by simp
  moreover have "sending file_states d (upd_req d ?g ep, ?w) (f_data f)"
    using sv f(2) serving_upd_req [of ?w w d ?g ep]
    by (simp add: sending_def rewind_def open_stream_def readable_file_def)
  moreover have "conn_keeps d 0 (ep, w) (upd_req d ?g ep, ?w)" by (rule conn_keeps_send) simp
  ultimately show ?thesis by force
qed

text \<open>
  All events together. The number of events is fixed by the size of the file; the other
  connections see nothing of it.
\<close>

lemma static_page_served:
  assumes fr: "fresh d p s" and sp: "static_page p" and f: "e_files E (www_path p) = Some f" "readable_file f"
    and ty: "get_file_type (p @ [NUL]) = Inr ty"
  shows "\<exists>s'. iter_res (length (f_data f) div READ_CHUNK_SIZE + 3) (out_step E d) s = Inr s'
    \<and> w_sent (snd s') d = w_sent (snd s) d @ http_header E ty (int (length (f_data f))) 200 ''OK'' @ f_data f
    \<and> conn_done d 0 s s'"
proof -
  obtain ep w where s: "s = (ep, w)" by (cases s)
  let ?g = "\<lambda>r. r\<lparr>status := STATUS_FILE_FOUND, fp := Some (open_stream f)\<rparr>"
  let ?ep1 = "upd_req d ?g ep" and ?w1 = "w\<lparr>w_streams := w_streams w + 1\<rparr>"
  have sv: "serving d (ep, w)" and pg: "terminated (page (req_of ep d))" "cstr (page (req_of ep d)) = p"
    using fr s by (auto simp: fresh_def)
  have 1: "out_step E d s = Inr (?ep1, ?w1)" using find_event [of d p ep w E] fr sp f s by simp
  have k1: "conn_keeps d 1 s (?ep1, ?w1)" unfolding s by (rule conn_keeps_streams)
  have "get_file_type (page (req_of ep d)) = Inr ty"
    using ty pg get_file_type_cstr [of "page (req_of ep d)"] by simp
  then obtain ep2 w2 where 2: "out_step E d (?ep1, ?w1) = Inr (ep2, w2)" "sending file_states d (ep2, w2) (f_data f)"
    "w_sent w2 d = w_sent w d @ http_header E ty (int (length (f_data f))) 200 ''OK''"
    "conn_keeps d 0 (?ep1, ?w1) (ep2, w2)"
    using header_event [of d ?ep1 ?w1 f ty E] f(2) sv serving_upd_req [of ?w1 w d ?g ep] by auto
  obtain s' where 3: "iter_res (length (f_data f) div READ_CHUNK_SIZE + 1) (out_step E d) (ep2, w2) = Inr s'"
    "w_sent (snd s') d = w_sent w2 d @ f_data f" "conn_done d (- 1) (ep2, w2) s'"
    using sped_file.copy_all [OF 2(2), of E] by auto
  have "iter_res (length (f_data f) div READ_CHUNK_SIZE + 3) (out_step E d) s = Inr s'"
    using 1 2(1) 3(1) by (simp add: numeral_3_eq_3)
  moreover have "conn_done d 0 s s'"
    using conn_keeps_done [OF conn_keeps_trans [OF k1 2(4)] 3(3)] by simp
  ultimately show ?thesis using 2(3) 3(2) s by auto
qed

lemma missing_page_404:
  assumes "fresh d p s" and "static_page p" and "e_files E (www_path p) = None"
  shows "\<exists>s'. out_step E d s = Inr s' \<and> w_sent (snd s') d = w_sent (snd s) d @ error_text E 404
    \<and> conn_done d 0 s s'"
proof -
  obtain ep w where s: "s = (ep, w)" by (cases s)
  let ?ep = "upd_req d (set_status STATUS_REQUEST_FINISH) ep"
    and ?w = "w\<lparr>w_sent := (w_sent w)(d := w_sent w d @ error_text E 404)\<rparr>"
  have i: "w_interest ?w d \<noteq> None" using assms(1) s by (simp add: fresh_def serving_def)
  have "conn_keeps d 0 s (?ep, ?w)" unfolding s by (rule conn_keeps_send) simp
  from conn_done_drop [OF i this, of E] find_event [of d p ep w E] assms s show ?thesis by simp
qed

section \<open>CGI\<close>

text \<open>The first event on a CGI page looks for the program, the second starts it.\<close>

lemma cgi_events:
  assumes fr: "fresh d p (ep, w)" and cg: "strncmp_eq p ''/cgi-bin/'' 9" and ok: "req_ok (req_of ep d)"
    and cq: "split_query (www_path p) = (c, q)" and g: "e_files E c = Some g"
    and x: "e_exec E (cgi_argv c) (cgi_envp q) = Some f" "f_bad f = None"
  shows "\<exists>s'. iter_res 2 (out_step E d) (ep, w) = Inr s' \<and> sending cgi_states d s' (f_data f)
    \<and> w_sent (snd s') d = w_sent w d \<and> conn_keeps d 1 (ep, w) s'"
proof -
  let ?pg = "page (req_of ep d)"
  from fr have sv: "serving d (ep, w)" and st: "status (req_of ep d) = STATUS_REQUEST_START"
    and p: "cstr ?pg = p" by (auto simp: fresh_def)
  obtain a where a: "make_file_path ?pg = Inr a" and c: "cstr a = www_path p"
    using www_path_cstr p by blast
  have w: "cstr (www_path p) = www_path p" using c no_nul_cstr [of a] by simp
  have "split_query a = split_query (www_path p)" unfolding split_query_def strchr_def c w ..
  with cq have sq: "split_query a = (c, q)" by simp
  have cg': "strncmp_eq ?pg ''/cgi-bin/'' 9" using cg p by auto
  have ln: "length c \<le> 1022" "length q \<le> 1009" using cgi_query_fits [OF cg' a sq] .
  have nn: "no_nul c" "no_nul q" using split_query_no_nul [OF sq] by simp_all
  obtain cc where cc: "strncpy (cgi_command (req_of ep d)) c MAX_LINE = Inr cc"
    using ok by (auto simp: strncpy_def req_ok_def)
  obtain qq where qq: "strncpy (cgi_query_str (req_of ep d)) q MAX_LINE = Inr qq"
    using ok by (auto simp: strncpy_def req_ok_def)
  have tc: "terminated cc \<and> cstr cc = c" using strncpy_copied [OF cc nn(1) ln(1)] .
  have tq: "terminated qq \<and> cstr qq = q" using strncpy_copied [OF qq nn(2)] ln(2) by simp
  let ?f1 = "\<lambda>r. r\<lparr>status := STATUS_CGI_FILE_FOUND, cgi_command := cc, cgi_query_str := qq\<rparr>"
  let ?f2 = "\<lambda>r. r\<lparr>status := STATUS_CGI_PROC_RUNNING, fp := Some (open_stream f)\<rparr>"
  let ?w2 = "w\<lparr>w_streams := w_streams w + 1\<rparr>"
  have "write_http_response E d (Page d) ep w = Inr (0, upd_req d ?f1 ep, w)"
    using a st cg' sq g cc qq nn
    by (simp add: write_http_response_def deref_def stage_find_def write_http_cgi_response_def cgi_start_def
        fopen_def fclose_def Let_def)
  then have 1: "out_step E d (ep, w) = Inr (upd_req d ?f1 ep, w)" using out_step_eq [OF sv, of E] by simp
  have sv1: "serving d (upd_req d ?f1 ep, w)" using sv serving_upd_req [of w w d ?f1 ep] by simp
  have "write_http_response E d (Page d) (upd_req d ?f1 ep) w = Inr (0, upd_req d ?f2 (upd_req d ?f1 ep), ?w2)"
    using a x tc tq ln
    by (simp add: write_http_response_def deref_def write_http_cgi_response_def cgi_spawn_def read_cstr_def
        run_cgi_file_def Let_def del: upd_req_upd_req)
  then have 2: "out_step E d (upd_req d ?f1 ep, w) = Inr (upd_req d ?f2 (upd_req d ?f1 ep), ?w2)"
    using out_step_eq [OF sv1, of E] by (simp del: upd_req_upd_req)
  have "sending cgi_states d (upd_req d ?f2 (upd_req d ?f1 ep), ?w2) (f_data f)"
    using sv1 serving_upd_req [of ?w2 w d ?f2 "upd_req d ?f1 ep"] x(2)
    by (simp add: sending_def open_stream_def del: upd_req_upd_req)
  moreover have "iter_res 2 (out_step E d) (ep, w) = Inr (upd_req d ?f2 (upd_req d ?f1 ep), ?w2)"
    using 1 2 by (simp add: numeral_2_eq_2 del: upd_req_upd_req)
  moreover have "conn_keeps d 1 (ep, w) (upd_req d (\<lambda>r. ?f2 (?f1 r)) ep, ?w2)" by (rule conn_keeps_streams)
  ultimately show ?thesis by (auto simp: upd_req_upd_req)
qed

lemma cgi_page_served:
  assumes "fresh d p s" and "strncmp_eq p ''/cgi-bin/'' 9" and "req_ok (req_of (fst s) d)"
    and "split_query (www_path p) = (c, q)" and "e_files E c = Some g"
    and "e_exec E (cgi_argv c) (cgi_envp q) = Some f" and "f_bad f = None"
  shows "\<exists>s'. iter_res (length (f_data f) div READ_CHUNK_SIZE + 3) (out_step E d) s = Inr s'
    \<and> w_sent (snd s') d = w_sent (snd s) d @ f_data f \<and> conn_done d 0 s s'"
proof -
  obtain s1 where 1: "iter_res 2 (out_step E d) s = Inr s1" "sending cgi_states d s1 (f_data f)"
    "w_sent (snd s1) d = w_sent (snd s) d" "conn_keeps d 1 s s1"
    using cgi_events [of d p "fst s" "snd s" c q E g f] assms by auto
  obtain s' where 2: "iter_res (length (f_data f) div READ_CHUNK_SIZE + 1) (out_step E d) s1 = Inr s'"
    "w_sent (snd s') d = w_sent (snd s1) d @ f_data f" "conn_done d (- 1) s1 s'"
    using sped_cgi.copy_all [OF 1(2), of E] by auto
  have "iter_res (2 + (length (f_data f) div READ_CHUNK_SIZE + 1)) (out_step E d) s = Inr s'"
    using iter_res_add [of 2 _ "out_step E d" s] 1(1) 2(1) by simp
  then show ?thesis using 1(3) 2(2) conn_keeps_done [OF 1(4) 2(3)]
    by (auto simp: numeral_3_eq_3)
qed

section \<open>From the request to the response\<close>

text \<open>A readable event with the bytes of a request, on a connection that was just accepted.\<close>

definition in_event :: "fd \<Rightarrow> string \<Rightarrow> epoll_event" where
  "in_event d bs = \<lparr>ev_fd = d, ev_events = {EPOLLIN}, ev_accepts = [], ev_read = Some bs\<rparr>"

definition accepted :: "fd \<Rightarrow> sped \<times> world \<Rightarrow> bool" where
  "accepted d = (\<lambda>(ep, w). 0 \<le> d \<and> d < maxfds ep \<and> 0 < fds_used ep
     \<and> callback (ed_clients ep d) = Some Ed_socket_callback \<and> buffer (ed_clients ep d) = zeros REQUEST_SIZE
     \<and> buf_len (ed_clients ep d) = 0 \<and> http_req (ed_clients ep d) = zero_request
     \<and> w_interest w d \<noteq> None \<and> w_send_rets w = [])"

definition request_bytes :: "string \<Rightarrow> string \<Rightarrow> bool" where
  "request_bytes p hdrs \<longleftrightarrow> plain_headers hdrs \<and> no_nul p \<and> no_nul hdrs \<and> length (request_text p hdrs) \<le> BUF_SIZE_PER_READ"

lemma request_filled:
  assumes "accepted d (ep, w)" and "length r \<le> BUF_SIZE_PER_READ"
  shows "ed_clients (fill_buffer d r ep) d = (ed_clients ep d)\<lparr>buffer := r @ zeros (REQUEST_SIZE - length r),
      buf_len := int (length r)\<rparr>"
  using assms by (simp add: accepted_def fill_buffer_def max_read_def blit_def)

lemma zero_request_page [simp]: "page zero_request = zeros MAX_LINE" "status zero_request = STATUS_REQUEST_START"
  by (simp_all add: zero_request_def)

lemma process_request_text:
  assumes "request_bytes p hdrs" and "e_regex_ok E" and "n \<noteq> 0"
  shows "\<exists>pg. process_http_request E (request_text p hdrs @ zeros n) zero_request = Inr (0, zero_request\<lparr>page := pg\<rparr>)
    \<and> cstr pg = page_of p \<and> length pg = MAX_LINE \<and> terminated pg"
proof -
  have n: "no_nul (request_text p hdrs)" "length p < MAX_LINE"
    using assms(1) by (auto simp: request_bytes_def request_text_def)
  have "regexec_request (request_text p hdrs) = Some (''GET'', p)"
    using assms(1) by (intro regexec_request_text) (simp add: request_bytes_def)
  moreover have "no_nul p" using assms(1) by (simp add: request_bytes_def)
  ultimately show ?thesis
    using store_page_clear [of "''GET''" zero_request p] n assms by (simp add: process_http_request_def)
qed

lemma request_read:
  assumes a: "accepted d (ep, w)" and r: "request_bytes p hdrs" and rx: "e_regex_ok E"
    and set_ok: "e_epoll_ok E EPOLL_CTL_MOD d"
  shows "\<exists>ep' w'. ed_epoll_dispatch_events E [in_event d (request_text p hdrs)] ep w = Inr (ep', w')
    \<and> fresh d (page_of p) (ep', w') \<and> req_ok (req_of ep' d) \<and> w_sent w' = w_sent w
    \<and> (\<forall>d'. d' \<noteq> d \<longrightarrow> ed_clients ep' d' = ed_clients ep d') \<and> fds_used ep' = fds_used ep
    \<and> w_streams w' = w_streams w \<and> w_closed w' = w_closed w \<and> w_open w' = w_open w"
proof -
  let ?t = "request_text p hdrs"
  have l: "length ?t \<le> BUF_SIZE_PER_READ" using r by (simp add: request_bytes_def)
  let ?ep = "fill_buffer d ?t ep"
  note c = request_filled [OF a l]
  obtain pg where pg: "process_http_request E (?t @ zeros (REQUEST_SIZE - length ?t)) zero_request =
      Inr (0, zero_request\<lparr>page := pg\<rparr>)" "cstr pg = page_of p" "length pg = MAX_LINE" "terminated pg"
    using process_request_text [OF r rx, of "REQUEST_SIZE - length ?t"] l by auto
  let ?e1 = "upd_client d (\<lambda>c. c\<lparr>http_req := zero_request\<lparr>page := pg\<rparr>\<rparr>) ?ep"
  let ?e2 = "upd_client d (\<lambda>c. c\<lparr>data := Page d\<rparr>) ?e1"
  let ?w = "w\<lparr>w_interest := (w_interest w)(d \<mapsto> {EPOLLOUT} \<union> {EPOLLERR, EPOLLHUP, EPOLLRDHUP})\<rparr>"
  have "ed_epoll_set E d {EPOLLOUT} (Page d) ?e1 w = (0, ?e2, ?w)"
    using a set_ok by (intro ed_epoll_set_ok) (simp_all add: accepted_def)
  moreover have "http_req (ed_clients ep d) = zero_request" using a by (simp add: accepted_def)
  ultimately have "read_request E d (Some ?t) ep w = Inr (?e2, ?w)"
    by (simp add: read_request_def Let_def c pg(1) request_parsed_def)
  moreover have "ed_epoll_dispatch_events E [in_event d ?t] ep w = rbind (read_request E d (Some ?t) ep w) Inr"
    using a by (cases "read_request E d (Some ?t) ep w")
      (auto simp: accepted_def in_event_def ed_socket_callback_def)
  ultimately have "ed_epoll_dispatch_events E [in_event d ?t] ep w = Inr (?e2, ?w)" by simp
  moreover have "maxfds ?ep = maxfds ep" "fds_used ?ep = fds_used ep"
      "\<And>d'. d' \<noteq> d \<Longrightarrow> ed_clients ?ep d' = ed_clients ep d'"
    by (simp_all add: fill_buffer_def Let_def)
  moreover have "fresh d (page_of p) (?e2, ?w)" "req_ok (req_of ?e2 d)"
    using a pg c calculation(2-)
    by (simp_all add: fresh_def serving_def accepted_def req_of_def req_ok_def zero_request_def)
  ultimately show ?thesis by auto
qed

text \<open>The bytes of a request in, the bytes of the file out, the connection closed.\<close>

lemma request_answered:
  assumes "accepted d (ep, w)" and "request_bytes p hdrs" and "e_regex_ok E" and "e_epoll_ok E EPOLL_CTL_MOD d"
    and "static_page (page_of p)" and "e_files E (www_path (page_of p)) = Some f" and "readable_file f"
    and "get_file_type (page_of p @ [NUL]) = Inr ty"
  shows "\<exists>s' ep' w'. ed_epoll_dispatch_events E [in_event d (request_text p hdrs)] ep w = Inr s'
    \<and> iter_res (length (f_data f) div READ_CHUNK_SIZE + 3) (out_step E d) s' = Inr (ep', w')
    \<and> w_sent w' d = w_sent w d @ http_header E ty (int (length (f_data f))) 200 ''OK'' @ f_data f
    \<and> (\<forall>d'. d' \<noteq> d \<longrightarrow> ed_clients ep' d' = ed_clients ep d' \<and> w_sent w' d' = w_sent w d')
    \<and> callback (ed_clients ep' d) = None \<and> fds_used ep' = fds_used ep - 1 \<and> w_streams w' = w_streams w
    \<and> w_closed w' = d # w_closed w \<and> w_interest w' d = None"
proof -
  obtain ep1 w1 where r: "ed_epoll_dispatch_events E [in_event d (request_text p hdrs)] ep w = Inr (ep1, w1)"
      "fresh d (page_of p) (ep1, w1)" "w_sent w1 = w_sent w" "w_streams w1 = w_streams w" "w_closed w1 = w_closed w"
      "\<forall>d'. d' \<noteq> d \<longrightarrow> ed_clients ep1 d' = ed_clients ep d'" "fds_used ep1 = fds_used ep"
    using request_read [OF assms(1-4)] by blast
  obtain s2 where s2: "iter_res (length (f_data f) div READ_CHUNK_SIZE + 3) (out_step E d) (ep1, w1) = Inr s2"
      "w_sent (snd s2) d = w_sent w1 d @ http_header E ty (int (length (f_data f))) 200 ''OK'' @ f_data f"
      "conn_done d 0 (ep1, w1) s2"
    using static_page_served [OF r(2) assms(5-8)] by auto
  obtain ep2 w2 where "s2 = (ep2, w2)" by fastforce
  with r s2 show ?thesis
    by (intro exI [of _ "(ep1, w1)"] exI [of _ ep2] exI [of _ w2]) (simp add: conn_done_def)
qed

section \<open>The FastCGI client\<close>

text \<open>The request of the client and what the page argument becomes.\<close>

lemma fastcgi_outcome:
  assumes t: "terminated (drop off (page (req_of ep f)))" and l: "length (page (req_of ep f)) - off \<le> 1011"
    and cq: "split_query (drop off (page (req_of ep f))) = (command, query_str)" and sock: "0 \<le> e_socket E"
  shows "\<exists>ep'. write_http_fastcgi_response E addr port f off d ep w =
    (let q = fcgi_request command query_str; w1 = w\<lparr>w_socks := w_socks w + 1\<rparr> in
     if e_connect E (inet_addr addr) (nat (atoi port)) \<and> e_fcgi_send E q = int (length q)
     then Inr (0, ep', fcgi_forward d (e_fcgi_reply E q) w1)
     else Inr (- 1, ep', error_world E 500 d w1)) \<and> status (req_of ep' d) = STATUS_REQUEST_FINISH"
proof -
  have "length command + length query_str \<le> length (cstr (drop off (page (req_of ep f))))"
    using cq by (rule split_query_length)
  also have "\<dots> < length (drop off (page (req_of ep f)))" using t by (rule length_cstr_terminated)
  finally have "print_fcgi_request command query_str = Inr (fcgi_request command query_str)"
    using l by (intro print_fcgi_request_ok) simp
  then show ?thesis
    using t cq sock
    by (auto simp: write_http_fastcgi_response_def fail_request_eq set_status_def Let_def split: option.split
        intro!: exI [of _ "upd_req d (set_status STATUS_REQUEST_FINISH) _"])
qed

lemma fastcgi_forwarded:
  assumes "terminated (drop off (page (req_of ep f)))" and "length (page (req_of ep f)) - off \<le> 1011"
    and "split_query (drop off (page (req_of ep f))) = (command, query_str)" and "0 \<le> e_socket E"
    and "e_connect E (inet_addr addr) (nat (atoi port))"
    and "e_fcgi_send E (fcgi_request command query_str) = int (length (fcgi_request command query_str))"
    and "\<forall>c\<in>set (e_fcgi_reply E (fcgi_request command query_str)). c \<noteq> [] \<and> length c \<le> READ_CHUNK_SIZE"
    and "w_send_rets w = []"
  shows "\<exists>ep'. write_http_fastcgi_response E addr port f off d ep w =
      Inr (0, ep', w\<lparr>w_sent := (w_sent w)(d := w_sent w d @ concat (e_fcgi_reply E (fcgi_request command query_str)))\<rparr>)
    \<and> status (req_of ep' d) = STATUS_REQUEST_FINISH"
proof -
  have "fcgi_forward d (e_fcgi_reply E (fcgi_request command query_str)) (w\<lparr>w_socks := w_socks w + 1\<rparr>) =
      w\<lparr>w_sent := (w_sent w)(d := w_sent w d @ concat (e_fcgi_reply E (fcgi_request command query_str)))\<rparr>"
    using assms(7,8) by (simp add: fcgi_forward_sent)
  with fastcgi_outcome [OF assms(1-4), of addr port d w] assms(5,6) show ?thesis by (auto simp: Let_def)
qed

text \<open>The address this server is configured with is a host name, which \<open>inet_addr\<close> does not
  resolve: the connection goes to the broadcast address. When that fails, every FastCGI page is
  an error, and the socket made for it stays open.\<close>

lemma inet_addr_host: "inet_addr sped_serv_addr = INADDR_NONE"
  by (simp add: inet_addr_def octet_def isdigit_def)

lemma serv_port_number: "atoi serv_port = 12345"
  by (simp add: atoi_def isspace_def read_nat_def isdigit_def digit_val_def)

lemma fastcgi_unreachable:
  assumes "terminated (drop off (page (req_of ep f)))" and "length (page (req_of ep f)) - off \<le> 1011"
    and "0 \<le> e_socket E" and "\<not> e_connect E INADDR_NONE 12345"
  shows "\<exists>ep' w'. write_http_fastcgi_response E sped_serv_addr serv_port f off d ep w = Inr (- 1, ep', w')
    \<and> w' = error_world E 500 d (w\<lparr>w_socks := w_socks w + 1\<rparr>) \<and> w_socks w' = w_socks w + 1"
proof -
  obtain command query_str where cq: "split_query (drop off (page (req_of ep f))) = (command, query_str)" by fastforce
  have "\<not> e_connect E (inet_addr sped_serv_addr) (nat (atoi serv_port))"
    using assms(4) unfolding inet_addr_host serv_port_number by simp
  with fastcgi_outcome [OF assms(1,2) cq assms(3), of sped_serv_addr serv_port d w] show ?thesis
    by (auto simp: Let_def simp del: append_Cons)
qed

end
