(* ===== verification/Mt_Correct.thy ===== *)
theory Mt_Correct
  imports Mt_Server Sped_Serve
begin

text \<open>
  Correctness of the threaded server: its copy loops deliver a stream whole, a request is
  answered with the bytes the single-process server would send, the only undefined behaviour
  a client can provoke is the use of a line that never arrived, and a client that closes
  before the empty line keeps its thread for ever.
\<close>

section \<open>The copy loops\<close>

lemma mt_file_loop_copies:
  assumes "s_bad st = None" "\<not> s_eof st" "\<not> s_err st" "w_send_rets w = []"
  shows "mt_file_loop E d st w = Inr (0, fclose (w\<lparr>w_sent := (w_sent w)(d := w_sent w d @ s_rest st)\<rparr>))"
  using assms
proof (induction "length (s_rest st)" arbitrary: st w rule: less_induct)
  case less
  let ?bs = "take READ_CHUNK_SIZE (s_rest st)"
  let ?st = "st\<lparr>s_rest := drop READ_CHUNK_SIZE (s_rest st), s_eof := length (s_rest st) < READ_CHUNK_SIZE\<rparr>"
  let ?w = "w\<lparr>w_sent := (w_sent w)(d := w_sent w d @ ?bs)\<rparr>"
  have "(if ?bs \<noteq> [] then snd (write_http_response_data d ?bs w) else w) = ?w"
    using less.prems(4) by (auto simp: write_http_response_data_def send_full)
  then have step: "mt_file_loop E d st w = mt_file_loop E d ?st ?w"
    using less.prems by (subst mt_file_loop.simps) (simp add: fread_good)
  show ?case
  proof (cases "length (s_rest st) < READ_CHUNK_SIZE")
    case True
    then show ?thesis unfolding step by (subst mt_file_loop.simps) simp
  next
    case False
    then have "mt_file_loop E d ?st ?w =
        Inr (0, fclose (?w\<lparr>w_sent := (w_sent ?w)(d := w_sent ?w d @ s_rest ?st)\<rparr>))"
      using less.prems by (intro less.hyps) auto
    then show ?thesis unfolding step by simp
  qed
qed

lemma mt_cgi_loop_copies:
  assumes "s_bad st = None" "\<not> s_eof st" "\<not> s_err st" "w_send_rets w = []"
  shows "mt_cgi_loop d st w = (0, fclose (w\<lparr>w_sent := (w_sent w)(d := w_sent w d @ s_rest st)\<rparr>))"
  using assms
proof (induction "length (s_rest st)" arbitrary: st w rule: less_induct)
  case less
  let ?bs = "take READ_CHUNK_SIZE (s_rest st)"
  let ?st = "st\<lparr>s_rest := drop READ_CHUNK_SIZE (s_rest st), s_eof := length (s_rest st) < READ_CHUNK_SIZE\<rparr>"
  let ?w = "w\<lparr>w_sent := (w_sent w)(d := w_sent w d @ ?bs)\<rparr>"
  have step: "mt_cgi_loop d st w = mt_cgi_loop d ?st ?w"
    using less.prems by (subst mt_cgi_loop.simps) (simp add: fread_good write_http_response_data_def send_full)
  show ?case
  proof (cases "length (s_rest st) < READ_CHUNK_SIZE")
    case True
    then show ?thesis unfolding step by (subst mt_cgi_loop.simps) simp
  next
    case False
    then have "mt_cgi_loop d ?st ?w =
        (0, fclose (?w\<lparr>w_sent := (w_sent ?w)(d := w_sent ?w d @ s_rest ?st)\<rparr>))"
      using less.prems by (intro less.hyps) auto
    then show ?thesis unfolding step by simp
  qed
qed

section \<open>What a client receives\<close>

lemma mt_static_page:
  assumes pg: "terminated (page r)" "cstr (page r) = p" and sp: "static_page p" and full: "w_send_rets w = []"
    and f: "e_files E (www_path p) = Some f" "readable_file f" and ty: "get_file_type (p @ [NUL]) = Inr ty"
  shows "mt_write_http_response E d r w =
    Inr (0, w\<lparr>w_sent := (w_sent w)(d := w_sent w d @ http_header E ty (int (length (f_data f))) 200 ''OK'' @ f_data f)\<rparr>)"
proof -
  let ?n = "int (length (f_data f))" and ?w1 = "w\<lparr>w_streams := w_streams w + 1\<rparr>"
  let ?h = "http_header E ty ?n 200 ''OK''"
  obtain a where a: "make_file_path (page r) = Inr a" and c: "cstr a = www_path p"
    using www_path_cstr pg(2) by blast
  have np: "\<not> strncmp_eq (page r) ''/cgi-bin/'' 9" "\<not> strncmp_eq (page r) ''/fastcgi-bin/'' 13"
    using sp pg(2) by (auto simp: static_page_def)
  have ty': "get_file_type (page r) = Inr ty" using ty pg get_file_type_cstr [of "page r"] by simp
  have len: "to_int ?n = ?n" using f(2) by (simp add: readable_file_def to_int_def)
  have hd: "write_http_response_header E d ty ?n 200 ''OK'' ?w1 =
      Inr (0, ?w1\<lparr>w_sent := (w_sent w)(d := w_sent w d @ ?h)\<rparr>)"
    using get_file_type_length [OF ty] to_int_range [of ?n] len full by (simp add: write_header_ok send_full)
  have lp: "mt_file_loop E d (open_stream f) (?w1\<lparr>w_sent := (w_sent w)(d := w_sent w d @ ?h)\<rparr>) =
      Inr (0, w\<lparr>w_sent := (w_sent w)(d := w_sent w d @ ?h @ f_data f)\<rparr>)"
    using f(2) full by (subst mt_file_loop_copies) (simp_all add: open_stream_def readable_file_def fclose_def)
  have "mt_send_file E (page r) a d w =
      Inr (0, w\<lparr>w_sent := (w_sent w)(d := w_sent w d @ ?h @ f_data f)\<rparr>)"
    using f c ty' len hd lp
    by (simp add: mt_send_file_def fopen_def readable_file_def rewind_def open_stream_def)
  then show ?thesis using a np by (simp add: mt_write_http_response_def)
qed

lemma mt_missing_page:
  assumes pg: "cstr (page r) = p" and sp: "static_page p" and full: "w_send_rets w = []"
    and f: "e_files E (www_path p) = None"
  shows "mt_write_http_response E d r w =
    Inr (- 1, w\<lparr>w_sent := (w_sent w)(d := w_sent w d @ error_text E 404)\<rparr>)"
proof -
  obtain a where a: "make_file_path (page r) = Inr a" and c: "cstr a = www_path p"
    using www_path_cstr pg by blast
  have np: "\<not> strncmp_eq (page r) ''/cgi-bin/'' 9" "\<not> strncmp_eq (page r) ''/fastcgi-bin/'' 13"
    using sp pg by (auto simp: static_page_def)
  show ?thesis using a np c f full
    by (simp add: mt_write_http_response_def mt_send_file_def fopen_def mt_fail_def write_error_ok error_world_sent)
qed

lemma mt_cgi_page:
  assumes pg: "cstr (page r) = p" and cg: "strncmp_eq p ''/cgi-bin/'' 9" and full: "w_send_rets w = []"
    and cq: "split_query (www_path p) = (c, q)" and g: "e_files E c = Some g"
    and x: "e_exec E (cgi_argv c) (cgi_envp q) = Some f" "f_bad f = None"
  shows "mt_write_http_response E d r w =
    Inr (0, w\<lparr>w_sent := (w_sent w)(d := w_sent w d @ f_data f)\<rparr>)"
proof -
  obtain a where a: "make_file_path (page r) = Inr a" and c: "cstr a = www_path p"
    using www_path_cstr pg by blast
  have w: "cstr (www_path p) = www_path p" using c no_nul_cstr [of a] by simp
  have "split_query a = split_query (www_path p)" unfolding split_query_def strchr_def c w ..
  with cq have sq: "split_query a = (c, q)" by simp
  have cg': "strncmp_eq (page r) ''/cgi-bin/'' 9" using cg pg by auto
  have ln: "length q \<le> 1009" using cgi_query_fits(2) [OF cg' a sq] .
  have nn: "no_nul c" using split_query_no_nul [OF sq] by simp
  have "mt_cgi_loop d (open_stream f) (w\<lparr>w_streams := w_streams w + 1\<rparr>) =
      (0, w\<lparr>w_sent := (w_sent w)(d := w_sent w d @ f_data f)\<rparr>)"
    using x(2) full by (subst mt_cgi_loop_copies) (simp_all add: open_stream_def fclose_def)
  then show ?thesis
    using a cg' sq g x(1) ln nn
    by (simp add: mt_write_http_response_def mt_write_http_cgi_response_def fopen_def run_cgi_file_def fclose_def)
qed

section \<open>Reading the header lines\<close>

text \<open>Header lines: each ends at its only line feed, fits the buffer and is not empty.\<close>

definition header_lines :: "string list \<Rightarrow> bool" where
  "header_lines ls \<longleftrightarrow> (\<forall>l\<in>set ls. LF \<notin> set l \<and> length l + 2 \<le> MAXLINE \<and> no_nul l \<and> l \<noteq> [CR])"

definition lines_text :: "string list \<Rightarrow> string" where
  "lines_text ls = concat (map (\<lambda>l. l @ [LF]) ls)"

text \<open>Reading one line of a connection.\<close>

lemma read_line:
  assumes "rio_inv rp" "good_input inp" "rio_bytes rp inp = l @ LF # s" "LF \<notin> set l" "length l + 2 \<le> m"
  shows "\<exists>rp' inp'. rio_readlineb rp inp m m = Inr (int (length l + 1), Some (l @ [LF, NUL]), rp', inp')
    \<and> rio_inv rp' \<and> good_input inp' \<and> rio_bytes rp' inp' = s"
proof -
  have "line_of (m - 1) (rio_bytes rp inp) = l @ [LF]"
    unfolding assms(3) using assms(4,5) by (intro line_of_line) auto
  then show ?thesis
    using rio_readlineb_line [OF assms(1,2), of m m] assms(3,5) by (simp add: line_rc_def)
qed

lemma skip_headers_returns:
  assumes "rio_inv rp" "good_input inp" "header_lines ls"
    and "(buf = [CR, LF, NUL] \<and> ls = [] \<and> rio_bytes rp inp = rest) \<or>
      (cstr buf \<noteq> [CR, LF] \<and> rio_bytes rp inp = lines_text ls @ [CR, LF] @ rest)"
  shows "\<exists>rp' inp'. skip_headers buf rp inp = Some (Inr (0, rp', inp')) \<and> rio_bytes rp' inp' = rest"
  using assms
proof (induction ls arbitrary: buf rp inp)
  case Nil
  show ?case
  proof (cases "cstr buf = [CR, LF]")
    case True
    with Nil.prems show ?thesis by (subst skip_headers.simps) (auto simp: strcmp_eq_def)
  next
    case False
    then have b: "rio_bytes rp inp = [CR] @ LF # rest" using Nil.prems(4) by (auto simp: lines_text_def)
    obtain rp1 inp1 where r: "rio_readlineb rp inp MAXLINE MAXLINE = Inr (2, Some [CR, LF, NUL], rp1, inp1)"
      "rio_bytes rp1 inp1 = rest"
      using read_line [OF Nil.prems(1,2) b, of MAXLINE] by auto
    have "skip_headers [CR, LF, NUL] rp1 inp1 = Some (Inr (0, rp1, inp1))"
      by (subst skip_headers.simps) (simp add: strcmp_eq_def)
    with False r show ?thesis by (subst skip_headers.simps) (simp add: strcmp_eq_def)
  qed
next
  case (Cons l ls)
  have nb: "cstr buf \<noteq> [CR, LF]" and b: "rio_bytes rp inp = l @ LF # lines_text ls @ [CR, LF] @ rest"
    using Cons.prems(4) by (auto simp: lines_text_def)
  have l: "LF \<notin> set l" "length l + 2 \<le> MAXLINE" "no_nul l" "l \<noteq> [CR]" and ls: "header_lines ls"
    using Cons.prems(3) by (auto simp: header_lines_def)
  obtain rp1 inp1 where r: "rio_readlineb rp inp MAXLINE MAXLINE = Inr (int (length l + 1), Some (l @ [LF, NUL]), rp1, inp1)"
    "rio_inv rp1" "good_input inp1" "rio_bytes rp1 inp1 = lines_text ls @ [CR, LF] @ rest"
    using read_line [OF Cons.prems(1,2) b l(1,2)] by auto
  have "cstr (l @ [LF, NUL]) = l @ [LF]" using cstr_stop [of "l @ [LF]" "[]"] l(3) by simp
  then have "cstr (l @ [LF, NUL]) \<noteq> [CR, LF]" using l(4) by (cases l) auto
  from Cons.IH [OF r(2,3) ls, of "l @ [LF, NUL]"] this r(4) obtain rp' inp' where
    "skip_headers (l @ [LF, NUL]) rp1 inp1 = Some (Inr (0, rp', inp'))" "rio_bytes rp' inp' = rest" by auto
  then show ?case using nb r(1) by (subst skip_headers.simps) (simp add: strcmp_eq_def)
qed

text \<open>A client that closes without the empty line keeps the thread in the loop.\<close>

lemma skip_headers_diverges:
  assumes "rio_inv rp" "good_input inp" "rio_bytes rp inp = []" "cstr buf \<noteq> [CR, LF]"
  shows "skip_headers buf rp inp = None"
proof -
  let ?P = "\<lambda>b r i (y :: (int \<times> rio \<times> read_result list) res).
    \<not> (rio_inv r \<and> good_input i \<and> rio_bytes r i = [] \<and> cstr b \<noteq> [CR, LF])"
  have "?P b r i y" if "skip_headers b r i = Some y" for b r i y
  proof (rule skip_headers.raw_induct [where P = ?P, OF _ that])
    fix skip b r i y
    assume IH: "\<And>b r i y. skip b r i = Some y \<Longrightarrow> ?P b r i y"
      and body: "(if strcmp_eq b [CR, LF] then Some (Inr (0, r, i))
      else case rio_readlineb r i MAXLINE MAXLINE of Inl e \<Rightarrow> Some (Inl e) | Inr (rc, buf, rp1, inp1) \<Rightarrow>
          if rc < 0 then Some (Inr (rc, rp1, inp1))
          else skip (case buf of None \<Rightarrow> b | Some c \<Rightarrow> c) rp1 inp1) = Some y"
    show "?P b r i y"
    proof
      assume a: "rio_inv r \<and> good_input i \<and> rio_bytes r i = [] \<and> cstr b \<noteq> [CR, LF]"
      then obtain r' i' where e: "rio_readlineb r i MAXLINE MAXLINE = Inr (0, None, r', i')" "rio_inv r'" "good_input i'"
        "rio_bytes r' i' = []"
        using rio_readlineb_eof [of r i MAXLINE MAXLINE] by auto
      then have "skip b r' i' = Some y" using body a by (simp add: strcmp_eq_def)
      from IH [OF this] e a show False by blast
    qed
  qed
  then show ?thesis using assms by (cases "skip_headers buf rp inp") blast+
qed

lemma read_request_headers_returns:
  assumes "rio_inv rp" "good_input inp" "header_lines ls" "rio_bytes rp inp = lines_text ls @ [CR, LF] @ rest"
  shows "\<exists>rp' inp'. read_request_headers rp inp = Some (Inr (0, rp', inp')) \<and> rio_bytes rp' inp' = rest"
proof (cases ls)
  case Nil
  then have b: "rio_bytes rp inp = [CR] @ LF # rest" using assms(4) by (simp add: lines_text_def)
  obtain rp1 inp1 where r: "rio_readlineb rp inp MAXLINE MAXLINE = Inr (2, Some [CR, LF, NUL], rp1, inp1)"
    "rio_inv rp1" "good_input inp1" "rio_bytes rp1 inp1 = rest"
    using read_line [OF assms(1,2) b, of MAXLINE] by auto
  then show ?thesis
    using skip_headers_returns [OF r(2,3), of "[]" "[CR, LF, NUL]" rest]
    by (auto simp: read_request_headers_def header_lines_def)
next
  case (Cons l ls')
  then have b: "rio_bytes rp inp = l @ LF # lines_text ls' @ [CR, LF] @ rest"
    using assms(4) by (simp add: lines_text_def)
  have l: "LF \<notin> set l" "length l + 2 \<le> MAXLINE" "no_nul l" "l \<noteq> [CR]" and ls: "header_lines ls'"
    using assms(3) Cons by (auto simp: header_lines_def)
  obtain rp1 inp1 where r: "rio_readlineb rp inp MAXLINE MAXLINE = Inr (int (length l + 1), Some (l @ [LF, NUL]), rp1, inp1)"
    "rio_inv rp1" "good_input inp1" "rio_bytes rp1 inp1 = lines_text ls' @ [CR, LF] @ rest"
    using read_line [OF assms(1,2) b l(1,2)] by auto
  have "cstr (l @ [LF, NUL]) = l @ [LF]" using cstr_stop [of "l @ [LF]" "[]"] l(3) by simp
  then have "cstr (l @ [LF, NUL]) \<noteq> [CR, LF]" using l(4) by (cases l) auto
  with skip_headers_returns [OF r(2,3) ls, of "l @ [LF, NUL]" rest] r
  show ?thesis by (auto simp: read_request_headers_def)
qed

section \<open>A whole request\<close>

definition request_line :: "string \<Rightarrow> string" where
  "request_line p = ''GET '' @ p @ '' HTTP/1.0'' @ [CR]"

text \<open>What a page name must be for the request line to fit the buffer.\<close>

definition page_name :: "string \<Rightarrow> bool" where
  "page_name p \<longleftrightarrow> LF \<notin> set p \<and> no_nul p \<and> length p \<le> 1008"

lemma mt_parse_line:
  assumes "page_name p" and "e_regex_ok E"
  shows "\<exists>r. mt_process_http_request E (request_line p @ [LF, NUL]) req0 = Inr (0, r)
    \<and> terminated (page r) \<and> cstr (page r) = page_of p"
proof -
  have nn: "no_nul p" "length p < MAX_LINE" using assms(1) by (auto simp: page_name_def)
  have t: "terminated (request_line p @ [LF, NUL])" by simp
  have c: "cstr (request_line p @ [LF, NUL]) = request_text p []"
    using cstr_stop [of "request_line p @ [LF]" "[]"] nn(1) by (simp add: request_line_def request_text_def)
  have "plain_headers []" by (simp add: plain_headers_def)
  then have "regexec_request (cstr (request_line p @ [LF, NUL])) = Some (''GET'', p)"
    unfolding c by (rule regexec_request_text)
  then show ?thesis
    using store_page_clear [of "''GET''" "req0\<lparr>page := zeros MAX_LINE\<rparr>" p] nn t assms(2)
    by (auto simp: mt_process_http_request_def)
qed

lemma rio_readinitb_inv [simp]:
  "length junk = RIO_BUFSIZE \<Longrightarrow> rio_inv (rio_readinitb d junk)"
  "rio_bytes (rio_readinitb d junk) inp = incoming inp"
  by (simp_all add: rio_readinitb_def rio_inv_def rio_bytes_def unread_def)

lemma handle_request_parsed:
  assumes j: "length junk = RIO_BUFSIZE" and inp: "good_input inp"
    and b: "incoming inp = request_line p @ [LF] @ lines_text ls @ [CR, LF] @ rest"
    and p: "page_name p" and ls: "header_lines ls" and rx: "e_regex_ok E"
  shows "\<exists>r. handle_request E junk req0 d inp w =
      Some (rbind (mt_write_http_response E d r w) (\<lambda>(_, w'). Inr w'))
    \<and> terminated (page r) \<and> cstr (page r) = page_of p"
proof -
  have b1: "rio_bytes (rio_readinitb d junk) inp = request_line p @ LF # lines_text ls @ [CR, LF] @ rest"
    using b by simp
  have l: "LF \<notin> set (request_line p)" "length (request_line p) + 2 \<le> MAX_LINE"
    using p by (auto simp: request_line_def page_name_def)
  obtain rp1 inp1 where r1: "rio_readlineb (rio_readinitb d junk) inp MAX_LINE MAX_LINE =
      Inr (int (length (request_line p) + 1), Some (request_line p @ [LF, NUL]), rp1, inp1)"
    "rio_inv rp1" "good_input inp1" "rio_bytes rp1 inp1 = lines_text ls @ [CR, LF] @ rest"
    using read_line [OF rio_readinitb_inv(1) [OF j] inp b1 l] by blast
  obtain r where r: "mt_process_http_request E (request_line p @ [LF, NUL]) req0 = Inr (0, r)"
    "terminated (page r)" "cstr (page r) = page_of p"
    using mt_parse_line [OF p rx] by blast
  obtain rp2 inp2 where h: "read_request_headers rp1 inp1 = Some (Inr (0, rp2, inp2))"
    using read_request_headers_returns [OF r1(2,3) ls r1(4)] by blast
  show ?thesis using r1(1) r h by (intro exI [of _ r]) (simp add: handle_request_def)
qed

text \<open>A connection that ends after the request line: the answer is never written.\<close>

lemma handle_request_stuck:
  assumes j: "length junk = RIO_BUFSIZE" and inp: "good_input inp"
    and b: "incoming inp = request_line p @ [LF] @ l @ [LF]"
    and p: "page_name p" and l: "LF \<notin> set l" "length l + 2 \<le> MAXLINE" "no_nul l" "l \<noteq> [CR]"
    and rx: "e_regex_ok E"
  shows "handle_request E junk req0 d inp w = None"
proof -
  have b1: "rio_bytes (rio_readinitb d junk) inp = request_line p @ LF # l @ [LF]"
    using b by simp
  have rl: "LF \<notin> set (request_line p)" "length (request_line p) + 2 \<le> MAX_LINE"
    using p by (auto simp: request_line_def page_name_def)
  obtain rp1 inp1 where r1: "rio_readlineb (rio_readinitb d junk) inp MAX_LINE MAX_LINE =
      Inr (int (length (request_line p) + 1), Some (request_line p @ [LF, NUL]), rp1, inp1)"
    "rio_inv rp1" "good_input inp1" "rio_bytes rp1 inp1 = l @ [LF]"
    using read_line [OF rio_readinitb_inv(1) [OF j] inp b1 rl] by blast
  obtain r where r: "mt_process_http_request E (request_line p @ [LF, NUL]) req0 = Inr (0, r)"
    using mt_parse_line [OF p rx] by blast
  obtain rp2 inp2 where r2: "rio_readlineb rp1 inp1 MAXLINE MAXLINE = Inr (int (length l + 1), Some (l @ [LF, NUL]), rp2, inp2)"
    "rio_inv rp2" "good_input inp2" "rio_bytes rp2 inp2 = []"
    using read_line [OF r1(2,3), of l "[]" MAXLINE] r1(4) l(1,2) by auto
  have "cstr (l @ [LF, NUL]) = l @ [LF]" using cstr_stop [of "l @ [LF]" "[]"] l(3) by simp
  then have "cstr (l @ [LF, NUL]) \<noteq> [CR, LF]" using l(4) by (cases l) auto
  with skip_headers_diverges [OF r2(2-4)] have "read_request_headers rp1 inp1 = None"
    using r2(1) by (simp add: read_request_headers_def)
  then show ?thesis using r1(1) r by (simp add: handle_request_def)
qed

section \<open>Undefined behaviour\<close>

lemma rio_read_one: "rio_read rp inp 1 = (1, bs, rp', inp') \<Longrightarrow> length bs \<le> 1"
  by (auto simp: rio_read_def Let_def split: prod.splits option.splits if_splits)

text \<open>A line fits its array, whatever the reads return, when the bound of the loop is not larger than the array.\<close>

lemma readline_buffer:
  "length acc + k < cap \<Longrightarrow> \<exists>rc buf rp' inp'. readline_loop cap k n acc rp inp = Inr (rc, buf, rp', inp')
    \<and> (\<forall>b. buf = Some b \<longrightarrow> terminated b \<and> length b \<le> length acc + k + 1)"
proof (induction k arbitrary: n acc rp inp)
  case 0
  then show ?case by (auto simp: store_nul_def)
next
  case (Suc k)
  obtain rc1 bs rp1 inp1 where r: "rio_read rp inp 1 = (rc1, bs, rp1, inp1)" by (metis prod_cases4)
  have l: "length bs \<le> 1" if "rc1 = 1" using rio_read_one [of rp inp bs rp1 inp1] r that by simp
  show ?case
  proof (cases "rc1 = 1 \<and> bs \<noteq> [LF]")
    case True
    then have "length (acc @ bs) + k < cap" using l Suc.prems by simp
    from Suc.IH [OF this, of "Suc n" rp1 inp1] True l Suc.prems show ?thesis
      unfolding readline_loop.simps r by fastforce
  next
    case False
    then show ?thesis using Suc.prems unfolding readline_loop.simps r by (auto simp: store_nul_def)
  qed
qed

lemma readlineb_buffer:
  "0 < m \<Longrightarrow> \<exists>rc buf rp' inp'. rio_readlineb rp inp m m = Inr (rc, buf, rp', inp')
    \<and> (\<forall>b. buf = Some b \<longrightarrow> terminated b \<and> length b \<le> m)"
  using readline_buffer [of "[]" "m - 1" m 1 rp inp] by (simp add: rio_readlineb_def)

lemma skip_headers_defined: "skip_headers b r i = Some (Inl e) \<Longrightarrow> False"
proof -
  let ?P = "\<lambda>(b :: string) (r :: rio) (i :: read_result list) (y :: (int \<times> rio \<times> read_result list) res). \<exists>x. y = Inr x"
  have "?P b r i y" if "skip_headers b r i = Some y" for b r i y
  proof (rule skip_headers.raw_induct [where P = ?P, OF _ that])
    fix skip b r i y
    assume IH: "\<And>b r i y. skip b r i = Some y \<Longrightarrow> ?P b r i y"
      and body: "(if strcmp_eq b [CR, LF] then Some (Inr (0, r, i))
      else case rio_readlineb r i MAXLINE MAXLINE of Inl e \<Rightarrow> Some (Inl e) | Inr (rc, buf, rp1, inp1) \<Rightarrow>
          if rc < 0 then Some (Inr (rc, rp1, inp1))
          else skip (case buf of None \<Rightarrow> b | Some c \<Rightarrow> c) rp1 inp1) = Some y"
    obtain rc buf rp' inp' where "rio_readlineb r i MAXLINE MAXLINE = Inr (rc, buf, rp', inp')"
      using readlineb_buffer [of MAXLINE r i] by auto
    then show "?P b r i y" using body IH by (auto split: if_splits)
  qed
  then show "skip_headers b r i = Some (Inl e) \<Longrightarrow> False" by blast
qed

lemma read_headers_ub:
  assumes "read_request_headers rp inp = Some (Inl e)"
  shows "e = Uninit"
proof -
  obtain rc buf rp' inp' where "rio_readlineb rp inp MAXLINE MAXLINE = Inr (rc, buf, rp', inp')"
    using readlineb_buffer [of MAXLINE rp inp] by auto
  with assms skip_headers_defined show ?thesis
    by (auto simp: read_request_headers_def split: if_splits option.splits)
qed

lemma regexec_length: "regexec_request h = Some (m, p) \<Longrightarrow> length p \<le> length h"
  by (auto simp: regexec_request_def split: if_splits)

lemma mt_parse_defined:
  assumes "terminated h" "length h \<le> MAX_LINE"
  shows "\<exists>rc r. mt_process_http_request E h req0 = Inr (rc, r) \<and> (rc = 0 \<longrightarrow> terminated (page r) \<and> length (page r) = MAX_LINE)"
proof (cases "regexec_request (cstr h)")
  case None
  then show ?thesis using assms by (auto simp: mt_process_http_request_def)
next
  case (Some mp)
  obtain m p where mp: "mp = (m, p)" by (cases mp)
  have m: "length m = 3" using length_method Some mp by simp
  have l: "length p < MAX_LINE"
    using regexec_length Some mp length_cstr_terminated [OF assms(1)] assms(2) by fastforce
  have n: "no_nul p" using regexec_no_nul Some mp by simp
  show ?thesis
    using store_page_clear [of m "req0\<lparr>page := zeros MAX_LINE\<rparr>" p] m l n Some mp assms(1)
    by (auto simp: mt_process_http_request_def)
qed

lemma mt_fail_total: "int_range code \<Longrightarrow> \<exists>x. mt_fail E code d w = Inr x"
  by (simp add: mt_fail_def write_error_ok)

lemma mt_file_loop_total: "\<exists>x. mt_file_loop E d st w = Inr x"
proof (induction E d st w rule: mt_file_loop.induct)
  case (1 E d st w)
  show ?case
    using "1.IH" by (subst mt_file_loop.simps) (auto simp: write_error_ok split: prod.splits)
qed

lemma mt_cgi_total:
  assumes "strncmp_eq pg ''/cgi-bin/'' 9" "make_file_path pg = Inr a"
  shows "\<exists>x. mt_write_http_cgi_response E a d w = Inr x"
proof -
  obtain c q where cq: "split_query a = (c, q)" by fastforce
  have "length q \<le> 1009" using cgi_query_fits(2) [OF assms cq] .
  then have run: "\<exists>st w2. run_cgi_file E c q w' = Inr (st, w2)" for w'
    by (auto simp: run_cgi_file_def split: option.split)
  obtain x w1 where f: "fopen E c w = (x, w1)" by fastforce
  obtain st w2 where "run_cgi_file E c q (fclose w1) = Inr (st, w2)" using run by blast
  then show ?thesis
    using f mt_fail_total [of 404 E d w1] mt_fail_total [of 500 E d w2]
    by (cases x; cases st) (simp_all add: mt_write_http_cgi_response_def cq)
qed

lemma mt_fastcgi_total:
  assumes "terminated pg" "length pg \<le> 1011"
  shows "\<exists>x. mt_write_http_fastcgi_response E pg d w = Inr x"
proof -
  obtain c q where cq: "split_query pg = (c, q)" by fastforce
  have "length c + length q \<le> 1010"
    using split_query_length [OF cq] length_cstr_terminated [OF assms(1)] assms(2) by simp
  then have "print_fcgi_request c q = Inr (fcgi_request c q)" by (rule print_fcgi_request_ok)
  then show ?thesis
    using assms(1) cq by (auto simp: mt_write_http_fastcgi_response_def mt_fail_def write_error_ok Let_def)
qed

lemma mt_write_http_response_total:
  assumes t: "terminated (page r)" and l: "length (page r) = MAX_LINE"
  shows "\<exists>x. mt_write_http_response E d r w = Inr x"
proof -
  obtain a where a: "make_file_path (page r) = Inr a" using make_file_path_ok by blast
  obtain ty where ty: "get_file_type (page r) = Inr ty" using t by (auto simp: get_file_type_def)
  have fc: "\<exists>x. mt_write_http_fastcgi_response E (drop 13 (page r)) d w = Inr x"
    if "strncmp_eq (page r) ''/fastcgi-bin/'' 13"
  proof (rule mt_fastcgi_total)
    show "terminated (drop 13 (page r))"
      using terminated_drop_prefix [of "page r" "''/fastcgi-bin/''"] that t by (simp add: eval_nat_numeral)
    show "length (drop 13 (page r)) \<le> 1011" using l by simp
  qed
  have "write_http_response_header E d ty (to_int n) 200 ''OK'' w' =
      Inr (0, snd (send d (http_header E ty (to_int n) 200 ''OK'') w'))" for n w'
    using get_file_type_length [OF ty] by (intro write_header_ok) simp_all
  then have fl: "\<exists>x. mt_send_file E (page r) a d w = Inr x"
    using ty mt_file_loop_total mt_fail_total [of 404 E d] mt_fail_total [of 500 E d]
    by (cases rule: fopen_cases [of E a w]) (auto simp: mt_send_file_def)
  show ?thesis
    using a fc fl mt_cgi_total [OF _ a, of E d w] by (auto simp: mt_write_http_response_def Let_def)
qed

text \<open>Whatever arrives, and however the reads go: the only fault is the use of a line that was
  not read.\<close>

lemma handle_request_ub:
  assumes "handle_request E junk req0 d inp w = Some (Inl e)"
  shows "e = Uninit"
proof -
  obtain rc hd rp1 inp1 where r: "rio_readlineb (rio_readinitb d junk) inp MAX_LINE MAX_LINE = Inr (rc, hd, rp1, inp1)"
    "\<forall>h. hd = Some h \<longrightarrow> terminated h \<and> length h \<le> MAX_LINE"
    using readlineb_buffer [of MAX_LINE "rio_readinitb d junk" inp] by auto
  show ?thesis
  proof (cases hd)
    case None
    with assms r(1) show ?thesis by (simp add: handle_request_def split: if_splits)
  next
    case (Some h)
    then have "terminated h" "length h \<le> MAX_LINE" using r(2) by simp_all
    then obtain rc1 q where q: "mt_process_http_request E h req0 = Inr (rc1, q)"
      "rc1 = 0 \<Longrightarrow> terminated (page q) \<and> length (page q) = MAX_LINE"
      using mt_parse_defined by blast
    have resp: "\<exists>x. mt_write_http_response E d q w = Inr x" if "rc1 = 0"
      using q(2) that mt_write_http_response_total by blast
    show ?thesis
      using assms r(1) Some q(1) read_headers_ub resp
      by (auto simp: handle_request_def rbind_eq_Inl split: if_splits option.splits sum.splits)
  qed
qed

section \<open>The two servers send the same bytes\<close>

lemma mt_serves_static:
  assumes "length junk = RIO_BUFSIZE" "good_input inp"
    "incoming inp = request_line p @ [LF] @ lines_text ls @ [CR, LF] @ rest"
    "page_name p" "header_lines ls" "e_regex_ok E" "w_send_rets w = []"
    and "static_page (page_of p)" "e_files E (www_path (page_of p)) = Some f" "readable_file f"
    "get_file_type (page_of p @ [NUL]) = Inr ty"
  shows "conn_handler_once E junk req0 d inp w =
    Some (Inr (sys_close d (w\<lparr>w_sent := (w_sent w)(d := w_sent w d
      @ http_header E ty (int (length (f_data f))) 200 ''OK'' @ f_data f)\<rparr>)))"
proof -
  obtain r where r: "handle_request E junk req0 d inp w =
      Some (rbind (mt_write_http_response E d r w) (\<lambda>(_, w'). Inr w'))"
    "terminated (page r)" "cstr (page r) = page_of p"
    using handle_request_parsed [OF assms(1-6)] by blast
  from mt_static_page [OF r(2,3) assms(8,7,9,10,11)] r(1) show ?thesis
    by (simp add: conn_handler_once_def)
qed

lemma same_static_response:
  assumes sped: "fresh d p (ep, w)" and mt: "terminated (page r)" "cstr (page r) = p" "w_send_rets w' = []"
    and p: "static_page p" "e_files E (www_path p) = Some f" "readable_file f"
  shows "\<exists>s1 w1 resp. iter_res (length (f_data f) div READ_CHUNK_SIZE + 3) (out_step E d) (ep, w) = Inr s1
    \<and> mt_write_http_response E d' r w' = Inr (0, w1)
    \<and> w_sent (snd s1) d = w_sent w d @ resp \<and> w_sent w1 d' = w_sent w' d' @ resp"
proof -
  obtain ty where ty: "get_file_type (p @ [NUL]) = Inr ty" by (auto simp: get_file_type_def)
  from static_page_served [OF sped p ty] mt_static_page [OF mt(1,2) p(1) mt(3) p(2,3) ty, of d']
  show ?thesis by auto
qed

lemma same_missing_response:
  assumes sped: "fresh d p (ep, w)" and mt: "cstr (page r) = p" "w_send_rets w' = []"
    and p: "static_page p" "e_files E (www_path p) = None"
  shows "\<exists>s1 rc w1. out_step E d (ep, w) = Inr s1 \<and> mt_write_http_response E d' r w' = Inr (rc, w1)
    \<and> w_sent (snd s1) d = w_sent w d @ error_text E 404 \<and> w_sent w1 d' = w_sent w' d' @ error_text E 404"
  using missing_page_404 [OF sped p] mt_missing_page [OF mt(1) p(1) mt(2) p(2), of d'] by auto

end
