(* ===== verification/Sbuf.thy ===== *)
theory Sbuf
  imports Bounded_Fifo
begin

text \<open>
  The buffer of accepted connections in the threaded server, \<open>mt_server/sbuf.c\<close> and
  \<open>sbuf.h\<close>, with the semaphores \<open>P\<close> and \<open>V\<close> of \<open>csapp.c\<close>. Part one: the two operations run
  to completion are a bounded FIFO. Part two: the main thread and the connection threads in
  every interleaving, one step per semaphore operation or access.
\<close>

record sbuf =
  sb_buf :: "int list"
  sb_n :: nat
  sb_front :: nat
  sb_rear :: nat
  sb_mutex :: nat
  sb_slots :: nat
  sb_items :: nat

definition sbuf_init :: "nat \<Rightarrow> sbuf" where
  "sbuf_init n = \<lparr>sb_buf = replicate n 0, sb_n = n, sb_front = 0, sb_rear = 0,
     sb_mutex = 1, sb_slots = n, sb_items = 0\<rparr>"

text \<open>The two accesses between \<open>P (mutex)\<close> and \<open>V (mutex)\<close>; the counters are \<open>int\<close>s that
  only grow.\<close>

definition sb_store :: "int \<Rightarrow> sbuf \<Rightarrow> sbuf res" where
  "sb_store item sp =
     (if int (sb_rear sp) = INT_MAX then Inl IntOverflow
      else Inr (sp\<lparr>sb_rear := sb_rear sp + 1,
                   sb_buf := (sb_buf sp)[(sb_rear sp + 1) mod sb_n sp := item]\<rparr>))"

definition sb_load :: "sbuf \<Rightarrow> (int \<times> sbuf) res" where
  "sb_load sp =
     (if int (sb_front sp) = INT_MAX then Inl IntOverflow
      else Inr (sb_buf sp ! ((sb_front sp + 1) mod sb_n sp), sp\<lparr>sb_front := sb_front sp + 1\<rparr>))"

text \<open>\<open>sbuf_insert\<close> and \<open>sbuf_remove\<close> without interference: \<open>None\<close> while the caller blocks or
  after an overflow.\<close>

definition sbuf_insert :: "int \<Rightarrow> sbuf \<Rightarrow> sbuf option" where
  "sbuf_insert item sp =
     (if sb_slots sp = 0 \<or> sb_mutex sp = 0 then None
      else case sb_store item (sp\<lparr>sb_slots := sb_slots sp - 1\<rparr>) of
        Inl _ \<Rightarrow> None
      | Inr sp1 \<Rightarrow> Some (sp1\<lparr>sb_items := sb_items sp1 + 1\<rparr>))"

definition sbuf_remove :: "sbuf \<Rightarrow> (int \<times> sbuf) option" where
  "sbuf_remove sp =
     (if sb_items sp = 0 \<or> sb_mutex sp = 0 then None
      else case sb_load (sp\<lparr>sb_items := sb_items sp - 1\<rparr>) of
        Inl _ \<Rightarrow> None
      | Inr (item, sp1) \<Rightarrow> Some (item, sp1\<lparr>sb_slots := sb_slots sp1 + 1\<rparr>))"

section \<open>The contents\<close>

definition sb_len :: "sbuf \<Rightarrow> nat" where
  "sb_len sp = sb_rear sp - sb_front sp"

definition sb_contents :: "sbuf \<Rightarrow> int list" where
  "sb_contents sp = ring_read (sb_buf sp) (Suc (sb_front sp)) (sb_len sp)"

definition sb_ring :: "sbuf \<Rightarrow> bool" where
  "sb_ring sp \<longleftrightarrow> 0 < sb_n sp \<and> length (sb_buf sp) = sb_n sp \<and> sb_front sp \<le> sb_rear sp \<and> sb_len sp \<le> sb_n sp"

lemma length_sb_contents [simp]: "length (sb_contents sp) = sb_len sp"
  by (simp add: sb_contents_def)

lemma sb_store_ok:
  assumes "sb_ring sp" "sb_len sp < sb_n sp" "sb_store x sp = Inr sp'"
  shows "sb_ring sp' \<and> sb_contents sp' = sb_contents sp @ [x] \<and> sb_len sp' = Suc (sb_len sp)"
proof -
  have sp': "sp' = sp\<lparr>sb_rear := sb_rear sp + 1, sb_buf := (sb_buf sp)[(sb_rear sp + 1) mod sb_n sp := x]\<rparr>"
    using assms(3) by (simp add: sb_store_def split: if_splits)
  have r: "length (sb_buf sp) = sb_n sp" "sb_front sp \<le> sb_rear sp" using assms(1) by (simp_all add: sb_ring_def)
  have len: "sb_len sp' = Suc (sb_len sp)" using r by (simp add: sp' sb_len_def)
  have idx: "Suc (sb_front sp) + sb_len sp = sb_rear sp + 1" using r by (simp add: sb_len_def)
  have "sb_contents sp' = ring_read ((sb_buf sp)[(Suc (sb_front sp) + sb_len sp) mod length (sb_buf sp) := x])
      (Suc (sb_front sp)) (Suc (sb_len sp))"
    unfolding sb_contents_def len idx by (simp add: sp' r)
  also have "\<dots> = sb_contents sp @ [x]"
    unfolding sb_contents_def using assms(2) r by (intro ring_read_snoc) simp
  finally show ?thesis using assms(1,2) len by (simp add: sb_ring_def sp')
qed

lemma sb_load_ok:
  assumes "sb_ring sp" "0 < sb_len sp" "sb_load sp = Inr (x, sp')"
  shows "sb_ring sp' \<and> sb_contents sp = x # sb_contents sp' \<and> sb_len sp = Suc (sb_len sp')"
proof -
  have x: "x = sb_buf sp ! (Suc (sb_front sp) mod sb_n sp)" and sp': "sp' = sp\<lparr>sb_front := sb_front sp + 1\<rparr>"
    using assms(3) by (simp_all add: sb_load_def split: if_splits)
  have r: "length (sb_buf sp) = sb_n sp" using assms(1) by (simp add: sb_ring_def)
  have len: "sb_len sp = Suc (sb_len sp')" using assms(2) by (simp add: sp' sb_len_def)
  have "sb_contents sp = x # sb_contents sp'"
    unfolding sb_contents_def len ring_read_Cons by (simp add: x sp' r)
  then show ?thesis using assms(1,2) len by (auto simp: sb_ring_def sp' sb_len_def)
qed

section \<open>The operations one at a time\<close>

lemma sb_sem_simps [simp]:
  "sb_len (sp\<lparr>sb_items := k\<rparr>) = sb_len sp" "sb_len (sp\<lparr>sb_slots := k\<rparr>) = sb_len sp" "sb_len (sp\<lparr>sb_mutex := k\<rparr>) = sb_len sp"
  "sb_contents (sp\<lparr>sb_items := k\<rparr>) = sb_contents sp" "sb_contents (sp\<lparr>sb_slots := k\<rparr>) = sb_contents sp"
  "sb_contents (sp\<lparr>sb_mutex := k\<rparr>) = sb_contents sp"
  "sb_ring (sp\<lparr>sb_items := k\<rparr>) = sb_ring sp" "sb_ring (sp\<lparr>sb_slots := k\<rparr>) = sb_ring sp"
  "sb_ring (sp\<lparr>sb_mutex := k\<rparr>) = sb_ring sp"
  by (simp_all add: sb_len_def sb_contents_def sb_ring_def)

text \<open>The same operations with counters that cannot overflow.\<close>

definition sbuf_put :: "int \<Rightarrow> sbuf \<Rightarrow> sbuf option" where
  "sbuf_put item sp =
     (if sb_slots sp = 0 \<or> sb_mutex sp = 0 then None
      else Some (sp\<lparr>sb_slots := sb_slots sp - 1, sb_rear := sb_rear sp + 1,
             sb_buf := (sb_buf sp)[(sb_rear sp + 1) mod sb_n sp := item], sb_items := sb_items sp + 1\<rparr>))"

definition sbuf_get :: "sbuf \<Rightarrow> (int \<times> sbuf) option" where
  "sbuf_get sp =
     (if sb_items sp = 0 \<or> sb_mutex sp = 0 then None
      else Some (sb_buf sp ! ((sb_front sp + 1) mod sb_n sp),
             sp\<lparr>sb_items := sb_items sp - 1, sb_front := sb_front sp + 1, sb_slots := sb_slots sp + 1\<rparr>))"

definition sb_quiet :: "sbuf \<Rightarrow> bool" where
  "sb_quiet sp \<longleftrightarrow> sb_ring sp \<and> sb_mutex sp = 1 \<and> sb_slots sp = sb_n sp - sb_len sp \<and> sb_items sp = sb_len sp"

lemma sbuf_init_quiet: "0 < n \<Longrightarrow> sb_quiet (sbuf_init n) \<and> sb_contents (sbuf_init n) = []"
  by (simp add: sbuf_init_def sb_quiet_def sb_ring_def sb_len_def sb_contents_def)

lemma sbuf_put_ok:
  assumes "sb_quiet sp" "sb_len sp < sb_n sp"
  obtains sp' where "sbuf_put x sp = Some sp'" "sb_quiet sp'" "sb_contents sp' = sb_contents sp @ [x]" "sb_n sp' = sb_n sp"
proof -
  obtain sp' where p: "sbuf_put x sp = Some sp'" using assms by (simp add: sbuf_put_def sb_quiet_def)
  then have sp': "sp' = sp\<lparr>sb_slots := sb_slots sp - 1, sb_rear := sb_rear sp + 1,
      sb_buf := (sb_buf sp)[(sb_rear sp + 1) mod sb_n sp := x], sb_items := sb_items sp + 1\<rparr>"
    by (auto simp: sbuf_put_def split: if_splits)
  have r: "length (sb_buf sp) = sb_n sp" "sb_front sp \<le> sb_rear sp"
    using assms(1) by (simp_all add: sb_quiet_def sb_ring_def)
  have len: "sb_len sp' = Suc (sb_len sp)" using r by (simp add: sp' sb_len_def)
  have idx: "Suc (sb_front sp) + sb_len sp = sb_rear sp + 1" using r by (simp add: sb_len_def)
  have "sb_contents sp' = ring_read ((sb_buf sp)[(Suc (sb_front sp) + sb_len sp) mod length (sb_buf sp) := x])
      (Suc (sb_front sp)) (Suc (sb_len sp))"
    unfolding sb_contents_def len idx by (simp add: sp' r)
  also have "\<dots> = sb_contents sp @ [x]"
    unfolding sb_contents_def using assms(2) r by (intro ring_read_snoc) simp
  finally have c: "sb_contents sp' = sb_contents sp @ [x]" .
  have "sb_quiet sp'"
    using assms len by (simp add: sb_quiet_def sb_ring_def) (simp add: sp')
  with p c show ?thesis using that by (simp add: sp')
qed

lemma sbuf_get_ok:
  assumes "sb_quiet sp" "sb_contents sp = x # xs"
  obtains sp' where "sbuf_get sp = Some (x, sp')" "sb_quiet sp'" "sb_contents sp' = xs" "sb_n sp' = sb_n sp"
proof -
  have pos: "0 < sb_len sp" using assms(2) length_sb_contents [of sp] by simp
  define sp' where "sp' = sp\<lparr>sb_items := sb_items sp - 1, sb_front := sb_front sp + 1, sb_slots := sb_slots sp + 1\<rparr>"
  have len: "sb_len sp = Suc (sb_len sp')" using pos by (simp add: sp'_def sb_len_def)
  have r: "length (sb_buf sp) = sb_n sp" using assms(1) by (simp add: sb_quiet_def sb_ring_def)
  have "sb_contents sp = sb_buf sp ! (Suc (sb_front sp) mod sb_n sp) # sb_contents sp'"
    unfolding sb_contents_def len ring_read_Cons by (simp add: sp'_def r)
  then have "sb_buf sp ! (Suc (sb_front sp) mod sb_n sp) = x" "sb_contents sp' = xs" using assms(2) by simp_all
  moreover have "sb_quiet sp'"
    using assms(1) len pos by (simp add: sb_quiet_def sb_ring_def) (auto simp: sp'_def sb_len_def)
  moreover have "sbuf_get sp = Some (sb_buf sp ! (Suc (sb_front sp) mod sb_n sp), sp')"
    using assms(1) pos by (simp add: sbuf_get_def sb_quiet_def sp'_def)
  ultimately show ?thesis using that by (simp add: sp'_def)
qed

interpretation conn_buffer: bounded_fifo sbuf_put sbuf_get sb_contents sb_quiet sb_n
proof
  fix sp x assume q: "sb_quiet sp"
  show "length (sb_contents sp) \<le> sb_n sp" using q by (simp add: sb_quiet_def sb_ring_def)
  show "length (sb_contents sp) < sb_n sp \<Longrightarrow> \<exists>sp'. sbuf_put x sp = Some sp' \<and> sb_quiet sp'
      \<and> sb_contents sp' = sb_contents sp @ [x] \<and> sb_n sp' = sb_n sp"
    using sbuf_put_ok [OF q, of x] by (metis length_sb_contents)
  show "length (sb_contents sp) = sb_n sp \<Longrightarrow> sbuf_put x sp = None"
    using q by (simp add: sbuf_put_def sb_quiet_def)
  show "sb_contents sp = x # xs \<Longrightarrow> \<exists>sp'. sbuf_get sp = Some (x, sp') \<and> sb_quiet sp'
      \<and> sb_contents sp' = xs \<and> sb_n sp' = sb_n sp" for xs
    using sbuf_get_ok [OF q, of x xs] by metis
  show "sb_contents sp = [] \<Longrightarrow> sbuf_get sp = None"
    using q length_sb_contents [of sp] by (simp add: sbuf_get_def sb_quiet_def)
qed

text \<open>The real operations agree with them until a counter reaches the end of \<open>int\<close>.\<close>

definition sb_young :: "nat \<Rightarrow> sbuf \<Rightarrow> bool" where
  "sb_young k sp \<longleftrightarrow> int (sb_rear sp) + int k \<le> INT_MAX \<and> sb_front sp \<le> sb_rear sp"

lemma sbuf_insert_put: "sb_young (Suc k) sp \<Longrightarrow> sbuf_insert x sp = sbuf_put x sp"
  by (auto simp: sbuf_insert_def sbuf_put_def sb_store_def sb_young_def)

lemma sbuf_remove_get: "sb_young (Suc k) sp \<Longrightarrow> sbuf_remove sp = sbuf_get sp"
  by (auto simp: sbuf_remove_def sbuf_get_def sb_load_def sb_young_def)

lemma sb_young_step:
  "sb_young (Suc k) sp \<Longrightarrow> sbuf_put x sp = Some sp' \<Longrightarrow> sb_young k sp'"
  "sb_young (Suc k) sp \<Longrightarrow> sb_quiet sp \<Longrightarrow> sbuf_get sp = Some (y, sp') \<Longrightarrow> sb_young k sp'"
  "sb_young (Suc k) sp \<Longrightarrow> sb_young k sp"
  by (auto simp: sb_young_def sbuf_put_def sbuf_get_def sb_quiet_def sb_len_def split: if_splits)

lemma sbuf_exec:
  assumes "sb_quiet sp" "sb_young (length ops) sp"
  shows "q_exec sbuf_insert sbuf_remove ops sp = q_exec sbuf_put sbuf_get ops sp"
  using assms
proof (induction ops arbitrary: sp)
  case (Cons oper ops)
  have y: "sb_young (Suc (length ops)) sp" using Cons.prems(2) by simp
  show ?case
  proof (cases oper)
    case (Put x)
    show ?thesis
    proof (cases "sbuf_put x sp")
      case None
      then show ?thesis using Put Cons.IH [OF Cons.prems(1) sb_young_step(3) [OF y]] sbuf_insert_put [OF y] by simp
    next
      case (Some sp')
      have "sb_quiet sp'" using conn_buffer.put_cases [OF Cons.prems(1), of x] Some by auto
      then show ?thesis
        using Put Some Cons.IH [OF _ sb_young_step(1) [OF y Some]] sbuf_insert_put [OF y] by simp
    qed
  next
    case Get
    show ?thesis
    proof (cases "sbuf_get sp")
      case None
      then show ?thesis using Get Cons.IH [OF Cons.prems(1) sb_young_step(3) [OF y]] sbuf_remove_get [OF y] by simp
    next
      case (Some z)
      then obtain v sp' where z: "sbuf_get sp = Some (v, sp')" by (cases z) auto
      have "sb_quiet sp'" using conn_buffer.get_cases [OF Cons.prems(1)] z by auto
      then show ?thesis
        using Get z Cons.IH [OF _ sb_young_step(2) [OF y Cons.prems(1) z]] sbuf_remove_get [OF y] by simp
    qed
  qed
qed simp

text \<open>After \<open>INT_MAX\<close> insertions the next one overflows.\<close>

lemma sb_store_overflow: "int (sb_rear sp) = INT_MAX \<Longrightarrow> sb_store x sp = Inl IntOverflow"
  by (simp add: sb_store_def)

end
