(* ===== verification/Sbuf_Threads.thy ===== *)
theory Sbuf_Threads
  imports Sbuf Server_Socket
begin

text \<open>
  The main thread (\<open>sbuf_insert\<close> in the accept loop of \<open>mt_server/ed_server.c\<close>) and the
  connection threads (\<open>sbuf_remove\<close> in \<open>conn_handler\<close>), one step per semaphore operation or
  access to the buffer, in every interleaving; and the start of the main thread.
\<close>

datatype mpc = I_idle | I_slots int | I_mutex int | I_store int | I_unlock | I_announce
datatype rpc = R_items | R_mutex | R_load | R_unlock int | R_announce int | R_work int

record mt =
  m_sb :: sbuf
  m_main :: mpc
  m_thr :: "nat \<Rightarrow> rpc"
  m_put :: "int list"
  m_taken :: "int list"

inductive mt_step :: "nat \<Rightarrow> mt \<Rightarrow> mt \<Rightarrow> bool" for n where
  accept: "m_main s = I_idle \<Longrightarrow> 0 \<le> x \<Longrightarrow> mt_step n s (s\<lparr>m_main := I_slots x\<rparr>)"
| p_slots: "m_main s = I_slots x \<Longrightarrow> 0 < sb_slots (m_sb s) \<Longrightarrow>
    mt_step n s (s\<lparr>m_main := I_mutex x, m_sb := (m_sb s)\<lparr>sb_slots := sb_slots (m_sb s) - 1\<rparr>\<rparr>)"
| p_mutex: "m_main s = I_mutex x \<Longrightarrow> 0 < sb_mutex (m_sb s) \<Longrightarrow>
    mt_step n s (s\<lparr>m_main := I_store x, m_sb := (m_sb s)\<lparr>sb_mutex := sb_mutex (m_sb s) - 1\<rparr>\<rparr>)"
| store: "m_main s = I_store x \<Longrightarrow> sb_store x (m_sb s) = Inr sp \<Longrightarrow>
    mt_step n s (s\<lparr>m_main := I_unlock, m_sb := sp, m_put := m_put s @ [x]\<rparr>)"
| v_mutex: "m_main s = I_unlock \<Longrightarrow>
    mt_step n s (s\<lparr>m_main := I_announce, m_sb := (m_sb s)\<lparr>sb_mutex := sb_mutex (m_sb s) + 1\<rparr>\<rparr>)"
| v_items: "m_main s = I_announce \<Longrightarrow>
    mt_step n s (s\<lparr>m_main := I_idle, m_sb := (m_sb s)\<lparr>sb_items := sb_items (m_sb s) + 1\<rparr>\<rparr>)"
| t_items: "i < n \<Longrightarrow> m_thr s i = R_items \<Longrightarrow> 0 < sb_items (m_sb s) \<Longrightarrow>
    mt_step n s (s\<lparr>m_thr := (m_thr s)(i := R_mutex), m_sb := (m_sb s)\<lparr>sb_items := sb_items (m_sb s) - 1\<rparr>\<rparr>)"
| t_mutex: "i < n \<Longrightarrow> m_thr s i = R_mutex \<Longrightarrow> 0 < sb_mutex (m_sb s) \<Longrightarrow>
    mt_step n s (s\<lparr>m_thr := (m_thr s)(i := R_load), m_sb := (m_sb s)\<lparr>sb_mutex := sb_mutex (m_sb s) - 1\<rparr>\<rparr>)"
| load: "i < n \<Longrightarrow> m_thr s i = R_load \<Longrightarrow> sb_load (m_sb s) = Inr (x, sp) \<Longrightarrow>
    mt_step n s (s\<lparr>m_thr := (m_thr s)(i := R_unlock x), m_sb := sp, m_taken := m_taken s @ [x]\<rparr>)"
| t_unlock: "i < n \<Longrightarrow> m_thr s i = R_unlock x \<Longrightarrow>
    mt_step n s (s\<lparr>m_thr := (m_thr s)(i := R_announce x), m_sb := (m_sb s)\<lparr>sb_mutex := sb_mutex (m_sb s) + 1\<rparr>\<rparr>)"
| t_slots: "i < n \<Longrightarrow> m_thr s i = R_announce x \<Longrightarrow>
    mt_step n s (s\<lparr>m_thr := (m_thr s)(i := R_work x), m_sb := (m_sb s)\<lparr>sb_slots := sb_slots (m_sb s) + 1\<rparr>\<rparr>)"
| work: "i < n \<Longrightarrow> m_thr s i = R_work x \<Longrightarrow> mt_step n s (s\<lparr>m_thr := (m_thr s)(i := R_items)\<rparr>)"

definition mt_init :: "nat \<Rightarrow> mt" where
  "mt_init k = \<lparr>m_sb = sbuf_init k, m_main = I_idle, m_thr = (\<lambda>_. R_items), m_put = [], m_taken = []\<rparr>"

inductive mt_reach :: "nat \<Rightarrow> nat \<Rightarrow> mt \<Rightarrow> bool" for n k where
  init: "mt_reach n k (mt_init k)"
| step: "mt_reach n k s \<Longrightarrow> mt_step n s s' \<Longrightarrow> mt_reach n k s'"

section \<open>Counting threads\<close>

definition cnt :: "nat \<Rightarrow> (rpc \<Rightarrow> bool) \<Rightarrow> (nat \<Rightarrow> rpc) \<Rightarrow> nat" where
  "cnt n P f = (\<Sum>i<n. if P (f i) then 1 else 0)"

lemma cnt_upd:
  assumes "i < n"
  shows "cnt n P (f(i := q)) + (if P (f i) then 1 else 0) = cnt n P f + (if P q then 1 else 0)"
proof -
  have "cnt n P f = (if P (f i) then 1 else 0) + (\<Sum>j\<in>{..<n} - {i}. if P (f j) then 1 else 0)"
    unfolding cnt_def using assms by (subst sum.remove [of _ i]) auto
  moreover have "cnt n P (f(i := q)) = (if P q then 1 else 0) + (\<Sum>j\<in>{..<n} - {i}. if P (f j) then 1 else 0)"
    unfolding cnt_def using assms by (subst sum.remove [of _ i]) auto
  ultimately show ?thesis by simp
qed

lemma cnt_pos: "i < n \<Longrightarrow> P (f i) \<Longrightarrow> 0 < cnt n P f"
  using cnt_upd [of i n P f "f i"] unfolding cnt_def
  by (subst sum.remove [of _ i]) auto

lemma cnt_two:
  assumes "i < n" "j < n" "i \<noteq> j" "P (f i)" "P (f j)"
  shows "2 \<le> cnt n P f"
proof -
  have "cnt n P f = (\<Sum>k\<in>{..<n} - {i}. if P (f k) then 1 else 0) + 1"
    unfolding cnt_def using assms by (subst sum.remove [of _ i]) auto
  also have "(\<Sum>k\<in>{..<n} - {i}. if P (f k) then 1 else 0) = (1 :: nat) + (\<Sum>k\<in>{..<n} - {i} - {j}. if P (f k) then 1 else 0)"
    using assms by (subst sum.remove [of _ j]) auto
  finally show ?thesis by simp
qed

text \<open>Inside the mutex; after taking an item and before the load; after the load and before the
  slot is announced.\<close>

fun r_locked :: "rpc \<Rightarrow> bool" where
  "r_locked R_load = True" | "r_locked (R_unlock x) = True" | "r_locked _ = False"

fun r_owes_load :: "rpc \<Rightarrow> bool" where
  "r_owes_load R_mutex = True" | "r_owes_load R_load = True" | "r_owes_load _ = False"

fun r_owes_slot :: "rpc \<Rightarrow> bool" where
  "r_owes_slot (R_unlock x) = True" | "r_owes_slot (R_announce x) = True" | "r_owes_slot _ = False"

fun i_locked :: "mpc \<Rightarrow> nat" where
  "i_locked (I_store x) = 1" | "i_locked I_unlock = 1" | "i_locked _ = 0"

fun i_owes_store :: "mpc \<Rightarrow> nat" where
  "i_owes_store (I_mutex x) = 1" | "i_owes_store (I_store x) = 1" | "i_owes_store _ = 0"

fun i_owes_item :: "mpc \<Rightarrow> nat" where
  "i_owes_item I_unlock = 1" | "i_owes_item I_announce = 1" | "i_owes_item _ = 0"

definition mt_inv :: "nat \<Rightarrow> mt \<Rightarrow> bool" where
  "mt_inv n s \<longleftrightarrow> sb_ring (m_sb s)
     \<and> sb_mutex (m_sb s) + i_locked (m_main s) + cnt n r_locked (m_thr s) = 1
     \<and> sb_slots (m_sb s) + i_owes_store (m_main s) + sb_len (m_sb s) + cnt n r_owes_slot (m_thr s) = sb_n (m_sb s)
     \<and> sb_items (m_sb s) + i_owes_item (m_main s) + cnt n r_owes_load (m_thr s) = sb_len (m_sb s)
     \<and> m_put s = m_taken s @ sb_contents (m_sb s)"

lemma mt_inv_init: "0 < k \<Longrightarrow> mt_inv n (mt_init k)"
  by (simp add: mt_inv_def mt_init_def sbuf_init_def sb_ring_def sb_len_def sb_contents_def cnt_def)

lemma sb_frame:
  "sb_store x sp = Inr sp' \<Longrightarrow> sb_mutex sp' = sb_mutex sp \<and> sb_slots sp' = sb_slots sp \<and> sb_items sp' = sb_items sp \<and> sb_n sp' = sb_n sp"
  "sb_load sp = Inr (y, sp') \<Longrightarrow> sb_mutex sp' = sb_mutex sp \<and> sb_slots sp' = sb_slots sp \<and> sb_items sp' = sb_items sp \<and> sb_n sp' = sb_n sp"
  by (auto simp: sb_store_def sb_load_def split: if_splits)

lemma mt_step_inv:
  assumes "mt_step n s s'" and "mt_inv n s"
  shows "mt_inv n s'"
  using assms
proof (induction rule: mt_step.induct)
  case (store s x sp)
  then have "sb_len (m_sb s) < sb_n (m_sb s)" by (simp add: mt_inv_def)
  with store sb_store_ok [of "m_sb s" x sp] sb_frame(1) [of x "m_sb s" sp] show ?case by (simp add: mt_inv_def)
next
  case (load i s x sp)
  have "0 < cnt n r_owes_load (m_thr s)" using load.hyps by (intro cnt_pos [of i]) simp_all
  then have "0 < sb_len (m_sb s)" using load.prems by (simp add: mt_inv_def)
  with load.hyps load.prems sb_load_ok [of "m_sb s" x sp] sb_frame(2) [of "m_sb s" x sp]
    cnt_upd [of i n r_locked "m_thr s" "R_unlock x"] cnt_upd [of i n r_owes_load "m_thr s" "R_unlock x"]
    cnt_upd [of i n r_owes_slot "m_thr s" "R_unlock x"]
  show ?case by (simp add: mt_inv_def)
next
  case (t_items i s)
  with cnt_upd [of i n r_locked "m_thr s" R_mutex] cnt_upd [of i n r_owes_load "m_thr s" R_mutex]
    cnt_upd [of i n r_owes_slot "m_thr s" R_mutex] show ?case by (simp add: mt_inv_def)
next
  case (t_mutex i s)
  with cnt_upd [of i n r_locked "m_thr s" R_load] cnt_upd [of i n r_owes_load "m_thr s" R_load]
    cnt_upd [of i n r_owes_slot "m_thr s" R_load] show ?case by (simp add: mt_inv_def)
next
  case (t_unlock i s x)
  with cnt_upd [of i n r_locked "m_thr s" "R_announce x"] cnt_upd [of i n r_owes_load "m_thr s" "R_announce x"]
    cnt_upd [of i n r_owes_slot "m_thr s" "R_announce x"] show ?case by (simp add: mt_inv_def)
next
  case (t_slots i s x)
  with cnt_upd [of i n r_locked "m_thr s" "R_work x"] cnt_upd [of i n r_owes_load "m_thr s" "R_work x"]
    cnt_upd [of i n r_owes_slot "m_thr s" "R_work x"] show ?case by (simp add: mt_inv_def)
next
  case (work i s x)
  with cnt_upd [of i n r_locked "m_thr s" R_items] cnt_upd [of i n r_owes_load "m_thr s" R_items]
    cnt_upd [of i n r_owes_slot "m_thr s" R_items] show ?case by (simp add: mt_inv_def)
qed (auto simp: mt_inv_def)

lemma mt_reach_inv: "mt_reach n k s \<Longrightarrow> 0 < k \<Longrightarrow> mt_inv n s"
  by (induction rule: mt_reach.induct) (auto intro: mt_inv_init mt_step_inv)

text \<open>Mutual exclusion.\<close>

lemma mt_mutex:
  assumes "mt_inv n s" and "i < n" "r_locked (m_thr s i)"
  shows "i_locked (m_main s) = 0 \<and> (\<forall>j<n. r_locked (m_thr s j) \<longrightarrow> j = i)"
proof -
  have c: "cnt n r_locked (m_thr s) \<le> 1" "0 < cnt n r_locked (m_thr s)"
    using assms cnt_pos [of i n r_locked "m_thr s"] by (auto simp: mt_inv_def)
  then have "i_locked (m_main s) = 0" using assms(1) by (simp add: mt_inv_def)
  moreover have "j = i" if "j < n" "r_locked (m_thr s j)" for j
    using cnt_two [of i n j r_locked "m_thr s"] assms(2,3) that c(1) by force
  ultimately show ?thesis by blast
qed

text \<open>The buffer is never overrun nor read when it is empty.\<close>

lemma mt_access_safe:
  assumes "mt_inv n s"
  shows "m_main s = I_store x \<Longrightarrow> sb_len (m_sb s) < sb_n (m_sb s)"
    and "i < n \<Longrightarrow> m_thr s i = R_load \<Longrightarrow> 0 < sb_len (m_sb s)"
proof -
  show "m_main s = I_store x \<Longrightarrow> sb_len (m_sb s) < sb_n (m_sb s)" using assms by (simp add: mt_inv_def)
  assume "i < n" "m_thr s i = R_load"
  then have "0 < cnt n r_owes_load (m_thr s)" by (intro cnt_pos [of i]) simp_all
  then show "0 < sb_len (m_sb s)" using assms by (simp add: mt_inv_def)
qed

text \<open>Only descriptors of accepted connections enter the buffer: a failed \<open>accept\<close> is skipped.\<close>

fun i_item :: "mpc \<Rightarrow> int" where
  "i_item (I_slots x) = x" | "i_item (I_mutex x) = x" | "i_item (I_store x) = x" | "i_item _ = 0"

definition mt_accepted :: "mt \<Rightarrow> bool" where
  "mt_accepted s \<longleftrightarrow> 0 \<le> i_item (m_main s) \<and> (\<forall>x\<in>set (m_put s). 0 \<le> x)"

lemma mt_step_accepted: "mt_step n s s' \<Longrightarrow> mt_accepted s \<Longrightarrow> mt_accepted s'"
  by (induction rule: mt_step.induct) (auto simp: mt_accepted_def)

lemma mt_reach_accepted: "mt_reach n k s \<Longrightarrow> mt_accepted s"
proof (induction rule: mt_reach.induct)
  case init
  show ?case by (simp add: mt_accepted_def mt_init_def)
qed (rule mt_step_accepted)

lemma mt_reach_steps: "(mt_step n)\<^sup>*\<^sup>* (mt_init k) s \<Longrightarrow> mt_reach n k s"
  by (induction rule: rtranclp_induct) (auto intro: mt_reach.intros)

section \<open>The main thread\<close>

abbreviation (input) NTHREADS :: nat where "NTHREADS \<equiv> 64"
abbreviation (input) SBUFSIZE :: nat where "SBUFSIZE \<equiv> 65535"

text \<open>\<open>main\<close> of \<open>mt_server/ed_server.c\<close>, up to the accept loop, whose iterations are the steps
  \<open>accept\<close> to \<open>v_items\<close>. \<open>init_ok\<close>: the memory of the buffer, its semaphores and the threads
  could be had; the wrappers of \<open>csapp.c\<close> exit with 0 when not.\<close>

datatype mt_result = Mt_exit int | Mt_serving fd mt world

definition mt_main :: "startup \<Rightarrow> string list \<Rightarrow> bool \<Rightarrow> world \<Rightarrow> mt_result res" where
  "mt_main su argv init_ok w =
     (if length argv < 2 \<or> atoi (argv ! 1) \<le> 0 then Inr (Mt_exit 1)
      else if \<not> set_signal_handlers su then Inr (Mt_exit 1)
      else rbind (start_server_socket su (atoi (argv ! 1)) w) (\<lambda>(server_sockfd, _, w1).
        if server_sockfd < 0 then Inr (Mt_exit 1)
        else if \<not> init_ok then Inr (Mt_exit 0)
        else Inr (Mt_serving server_sockfd (mt_init SBUFSIZE) w1)))"

lemma mt_main_serving: "mt_main su argv init_ok w = Inr (Mt_serving d s w') \<Longrightarrow> s = mt_init SBUFSIZE \<and> 0 \<le> d"
  by (auto simp: mt_main_def rbind_eq_Inr split: if_splits)

end
