(* ===== verification/Amped.thy ===== *)
theory Amped
  imports Sped Server_Socket
begin

text \<open>
  The asymmetric multi-process event-driven server: \<open>amped_server/ed_epoll_event.c\<close> (the
  helper table), \<open>ed_http.c\<close> (the response goes through a helper process and shared memory),
  \<open>ed_server.c\<close> (the callback on the sockets of the helpers, the main program) and the helper
  program \<open>reader_slave.c\<close>. The client table is the one of \<open>Ed_Epoll\<close>, on extended records.
\<close>

section \<open>Structs\<close>

abbreviation (input) N_HELPER_PROCS :: nat where "N_HELPER_PROCS \<equiv> 128"
abbreviation (input) INIT_KEY :: int where "INIT_KEY \<equiv> 1"

record amped_client = ed_client +
  shm_key :: int
  shm_id :: int

text \<open>\<open>hi_client\<close> points to a client of the table: it is the index of that client.\<close>

record helper =
  hi_fd :: fd
  hi_client :: "fd option"

record 'c amped_epoll = "'c ed_epoll" +
  helpers_inuse :: int
  helper_info :: "helper list"
  next_key :: int

type_synonym amped = "amped_client amped_epoll"

text \<open>System V shared memory by key, and what was written to the socket of each helper.\<close>

record ipc =
  k_shm :: "int \<Rightarrow> string option"
  k_req :: "fd \<Rightarrow> string list"

text \<open>
  Behaviour outside the program. \<open>stale s\<close> is what is found at the address of a local array
  that held \<open>s\<close> after its function has returned; \<open>helper_takes\<close>: a \<open>write\<close> to a helper takes
  the whole message; \<open>shm_rm_ok\<close>: \<open>shmctl\<close> and \<open>shmdt\<close> succeed.
\<close>

record aenv =
  stale :: "string \<Rightarrow> string"
  helper_takes :: "fd \<Rightarrow> string \<Rightarrow> bool"
  shm_rm_ok :: "int \<Rightarrow> bool"

section \<open>The helper table\<close>

definition find_helper :: "(helper \<Rightarrow> bool) \<Rightarrow> amped \<Rightarrow> int" where
  "find_helper P ep =
     (case find (\<lambda>i. P (helper_info ep ! i)) [0..<length (helper_info ep)] of
        None \<Rightarrow> - 1 | Some i \<Rightarrow> int i)"

definition hi_get_helper_index :: "amped \<Rightarrow> fd \<Rightarrow> int" where
  "hi_get_helper_index ep d = find_helper (\<lambda>h. hi_fd h = d) ep"

definition hi_get_next_helper :: "amped \<Rightarrow> int" where
  "hi_get_next_helper ep = find_helper (\<lambda>h. hi_client h = None) ep"

definition hi_get_helper_for_fd :: "amped \<Rightarrow> fd \<Rightarrow> int" where
  "hi_get_helper_for_fd ep d =
     find_helper (\<lambda>h. case hi_client h of None \<Rightarrow> False | Some c \<Rightarrow> client_fd (ed_clients ep c) = d) ep"

definition set_helper :: "nat \<Rightarrow> fd option \<Rightarrow> amped \<Rightarrow> amped" where
  "set_helper i c ep = ep\<lparr>helper_info := (helper_info ep)[i := (helper_info ep ! i)\<lparr>hi_client := c\<rparr>]\<rparr>"

definition amped_epoll_init :: "env \<Rightarrow> (fd \<Rightarrow> amped_client) option \<Rightarrow> fd \<Rightarrow> bool \<Rightarrow> helper list option \<Rightarrow>
    amped \<Rightarrow> int \<Rightarrow> int \<times> amped" where
  "amped_epoll_init E mem efd ev_mem hmem ep maxf =
     (let (rc, ep1) = ed_epoll_init E mem efd ev_mem (if mem = None then ep else ep\<lparr>next_key := INIT_KEY\<rparr>) maxf in
      if rc \<noteq> 0 then (rc, ep1)
      else case hmem of
        None \<Rightarrow> (ENOMEM, ep1)
      | Some hs \<Rightarrow> (0, ep1\<lparr>helper_info := hs, helpers_inuse := 0\<rparr>))"

section \<open>Responses\<close>

definition amped_cgi_response :: "env \<Rightarrow> string \<Rightarrow> fd \<Rightarrow> amped \<Rightarrow> world \<Rightarrow> (int \<times> amped \<times> world) res" where
  "amped_cgi_response E file_path d ep w =
     (let s = status (req_of ep d) in
      if s = STATUS_REQUEST_START then cgi_start E file_path d ep w
      else if s = STATUS_CGI_FILE_FOUND then cgi_spawn E d ep w
      else if s = STATUS_CGI_PROC_RUNNING then cgi_copy d ep w
      else Inr (SUCCESS, ep, w))"

abbreviation amped_serv_addr :: string where "amped_serv_addr \<equiv> ''127.0.0.1''"

text \<open>First stage; the buffer is cleared for the reply of the helper.\<close>

definition amped_find :: "env \<Rightarrow> string \<Rightarrow> string \<Rightarrow> fd \<Rightarrow> fd \<Rightarrow> amped \<Rightarrow> world \<Rightarrow> (int \<times> amped \<times> world) res" where
  "amped_find E pg file_path f d ep w =
     (if strncmp_eq pg ''/cgi-bin/'' 9 then
        rbind (amped_cgi_response E file_path d ep w) (\<lambda>(_, ep', w'). Inr (SUCCESS, ep', w'))
      else if strncmp_eq pg ''/fastcgi-bin/'' 13 then
        rbind (write_http_fastcgi_response E amped_serv_addr serv_port f 13 d ep w) (\<lambda>(_, ep', w').
        Inr (SUCCESS, upd_req d (set_status STATUS_REQUEST_FINISH) ep', w'))
      else case fopen E file_path w of
        (None, w1) \<Rightarrow> fail_request E 404 d ep w1
      | (Some st, w1) \<Rightarrow>
          Inr (SUCCESS,
            upd_client d (\<lambda>c. c\<lparr>http_req := (http_req c)\<lparr>status := STATUS_FILE_FOUND, fp := Some st\<rparr>,
                buffer := blit (buffer c) 0 (zeros READ_CHUNK_SIZE), buf_len := 0\<rparr>) ep, w1))"

text \<open>Give the request to a free helper: take the next key, register the path as the data of
  the helper's socket. The path is a local array of the caller.\<close>

definition assign_helper :: "env \<Rightarrow> string \<Rightarrow> nat \<Rightarrow> fd \<Rightarrow> amped \<Rightarrow> world \<Rightarrow> amped \<times> world" where
  "assign_helper E file_path i d ep w =
     (let ep1 = set_helper i (Some d) ep;
          ep2 = ep1\<lparr>helpers_inuse := helpers_inuse ep1 + 1\<rparr>;
          ep3 = upd_client d (\<lambda>c. c\<lparr>shm_key := next_key ep2\<rparr>) (ep2\<lparr>next_key := next_key ep2 + 1\<rparr>);
          (_, ep4, w1) = ed_epoll_set E (hi_fd (helper_info ep3 ! i)) {EPOLLOUT} (Stack file_path) ep3 w in
      (upd_req d (set_status STATUS_HEADER_WRITTEN) ep4, w1))"

definition amped_header :: "env \<Rightarrow> string \<Rightarrow> string \<Rightarrow> fd \<Rightarrow> amped \<Rightarrow> world \<Rightarrow> (int \<times> amped \<times> world) res" where
  "amped_header E pg file_path d ep w =
     (case fp (req_of ep d) of
        None \<Rightarrow> Inl NullDeref
      | Some st \<Rightarrow>
          let ep0 = upd_req d (\<lambda>r. r\<lparr>fp := None\<rparr>) ep in
          if \<not> f_seek_ok (s_file st) then fail_request E 500 d ep0 (fclose w)
          else if \<not> f_tell_ok (s_file st) then fail_request E 500 d ep0 (fclose w)
          else
            let len = to_int (int (length (f_data (s_file st))));
                ep1 = upd_req d (\<lambda>r. r\<lparr>response_size := len\<rparr>) ep0 in
            rbind (get_file_type pg) (\<lambda>type.
            rbind (write_http_response_header E d type len 200 ''OK'' (fclose w)) (\<lambda>(_, w1).
            let i = hi_get_next_helper ep1 in
            if i = - 1 then Inr (SUCCESS, upd_req d (set_status STATUS_WAITLISTED) ep1, w1)
            else let (ep2, w2) = assign_helper E file_path (nat i) d ep1 w1 in Inr (SUCCESS, ep2, w2))))"

definition amped_waitlisted :: "env \<Rightarrow> string \<Rightarrow> fd \<Rightarrow> amped \<Rightarrow> world \<Rightarrow> (int \<times> amped \<times> world) res" where
  "amped_waitlisted E file_path d ep w =
     (if helpers_inuse ep = int N_HELPER_PROCS then Inr (SUCCESS, ep, w)
      else
        let i = hi_get_next_helper ep in
        if i = - 1 then Inl BufferOverflow
        else let (ep1, w1) = assign_helper E file_path (nat i) d ep w in Inr (SUCCESS, ep1, w1))"

definition amped_map_requested :: "fd \<Rightarrow> amped \<Rightarrow> world \<Rightarrow> (int \<times> amped \<times> world) res" where
  "amped_map_requested d ep w =
     (let buf = buffer (ed_clients ep d) in
      if \<not> terminated buf then Inl OverRead
      else if \<not> strcmp_eq buf ''done'' then Inr (SUCCESS, ep, w)
      else Inr (SUCCESS, upd_req d (set_status STATUS_DATA_WRITING) ep, w))"

text \<open>The loop over the whole chunks of the segment.\<close>

fun send_chunks :: "fd \<Rightarrow> nat \<Rightarrow> string \<Rightarrow> world \<Rightarrow> string \<times> world" where
  "send_chunks d 0 shm w = (shm, w)"
| "send_chunks d (Suc n) shm w =
     send_chunks d n (drop READ_CHUNK_SIZE shm) (snd (write_http_response_data d (take READ_CHUNK_SIZE shm) w))"

text \<open>Third stage: attach the segment, send it, remove it, free the helper.\<close>

definition amped_data :: "aenv \<Rightarrow> fd \<Rightarrow> amped \<Rightarrow> ipc \<Rightarrow> world \<Rightarrow> (int \<times> amped \<times> ipc \<times> world) res" where
  "amped_data A d ep k w =
     (let size = response_size (req_of ep d); key = shm_key (ed_clients ep d) in
      case k_shm k key of
        None \<Rightarrow> Inl NullDeref
      | Some seg \<Rightarrow>
          if size < 0 \<or> int (length seg) < size then Inl OverRead
          else
            let (shm, w1) = send_chunks d (nat size div READ_CHUNK_SIZE) seg w;
                (_, w2) = write_http_response_data d (take (nat size mod READ_CHUNK_SIZE) shm) w1;
                k1 = k\<lparr>k_shm := (k_shm k)(key := None)\<rparr> in
            if \<not> shm_rm_ok A key then Inl AssertFail
            else
              let i = hi_get_helper_for_fd ep (client_fd (ed_clients ep d)) in
              if i = - 1 then Inl AssertFail
              else
                let ep1 = set_helper (nat i) None ep in
                Inr (SUCCESS,
                  upd_req d (set_status STATUS_REQUEST_FINISH) (ep1\<lparr>helpers_inuse := helpers_inuse ep1 - 1\<rparr>),
                  k1, w2))"

definition amped_write_http_response :: "env \<Rightarrow> aenv \<Rightarrow> fd \<Rightarrow> ptr \<Rightarrow> amped \<Rightarrow> ipc \<Rightarrow> world \<Rightarrow>
    (int \<times> amped \<times> ipc \<times> world) res" where
  "amped_write_http_response E A d dat ep k w =
     rbind (deref ep dat) (\<lambda>pg.
     rbind (make_file_path pg) (\<lambda>file_path.
     let s = status (req_of ep d);
         lift = (\<lambda>r. rbind r (\<lambda>(rc, ep', w'). Inr (rc, ep', k, w'))) in
     if s = STATUS_CGI_FILE_FOUND \<or> s = STATUS_CGI_PROC_RUNNING \<or> s = STATUS_CGI_RESPONSE_WRITING then
       lift (rbind (amped_cgi_response E file_path d ep w) (\<lambda>(_, ep', w'). Inr (SUCCESS, ep', w')))
     else if s = STATUS_REQUEST_START then
       lift (amped_find E pg file_path (case dat of Page f \<Rightarrow> f | _ \<Rightarrow> d) d ep w)
     else if s = STATUS_FILE_FOUND then lift (amped_header E pg file_path d ep w)
     else if s = STATUS_WAITLISTED then lift (amped_waitlisted E file_path d ep w)
     else if s = STATUS_MAP_REQUESTED then lift (amped_map_requested d ep w)
     else if s = STATUS_DATA_WRITING then amped_data A d ep k w
     else Inr (SUCCESS, ep, k, w)))"

section \<open>Callbacks\<close>

definition amped_socket_callback :: "env \<Rightarrow> aenv \<Rightarrow> epoll_event \<Rightarrow> ptr \<Rightarrow> amped \<Rightarrow> ipc \<Rightarrow> world \<Rightarrow>
    (amped \<times> ipc \<times> world) res" where
  "amped_socket_callback E A ev dat ep k w =
     (let d = ev_fd ev; evs = ev_events ev; lift = (\<lambda>(ep', w'). Inr (ep', k, w')) in
      if EPOLLERR \<in> evs then Inr (ep, k, w)
      else if EPOLLHUP \<in> evs then lift (drop_conn E d ep w)
      else if EPOLLRDHUP \<in> evs then lift (drop_conn E d ep w)
      else if EPOLLOUT \<in> evs then
        (if dat \<noteq> Null then
           rbind (amped_write_http_response E A d dat ep k w) (\<lambda>(_, ep1, k1, w1).
           if status (req_of ep1 d) = STATUS_REQUEST_FINISH
           then (let (ep2, w2) = drop_conn E d ep1 w1 in Inr (ep2, k1, w2))
           else Inr (ep1, k1, w1))
         else let (_, ep1, w1) = ed_epoll_set E d {EPOLLIN} Null ep w in Inr (ep1, k, w1))
      else if EPOLLIN \<in> evs then rbind (read_request E d (ev_read ev) ep w) lift
      else Inr (ep, k, w))"

text \<open>What is printed for the helper: key, size and path.\<close>

definition helper_request :: "int \<Rightarrow> int \<Rightarrow> string \<Rightarrow> string" where
  "helper_request key sz path = show_int key @ '' '' @ show_int sz @ '' '' @ path"

definition reader_out :: "env \<Rightarrow> aenv \<Rightarrow> fd \<Rightarrow> ptr \<Rightarrow> fd option \<Rightarrow> amped \<Rightarrow> ipc \<Rightarrow> world \<Rightarrow>
    (amped \<times> ipc \<times> world) res" where
  "reader_out E A helper_fd dat req_client ep k w =
     (case (dat, req_client) of
        (Null, _) \<Rightarrow> Inr (ep, k, w)
      | (_, None) \<Rightarrow> Inr (ep, k, w)
      | (_, Some c) \<Rightarrow>
          if status (req_of ep c) \<noteq> STATUS_HEADER_WRITTEN then
            (let (_, ep1, w1) = ed_epoll_set E helper_fd {EPOLLIN} Null ep w in Inr (ep1, k, w1))
          else
            let path = (case dat of Stack s \<Rightarrow> stale A s | Page f \<Rightarrow> page (req_of ep f) | Null \<Rightarrow> []);
                request = helper_request (shm_key (ed_clients ep c)) (response_size (req_of ep c)) (cstr path) in
            if MAX_LINE \<le> length request then Inl BufferOverflow
            else if \<not> helper_takes A helper_fd request then Inl AssertFail
            else Inr (upd_req c (set_status STATUS_MAP_REQUESTED) ep,
                      k\<lparr>k_req := (k_req k)(helper_fd := k_req k helper_fd @ [request @ [NUL]])\<rparr>, w))"

definition reader_in :: "fd option \<Rightarrow> string option \<Rightarrow> amped \<Rightarrow> ipc \<Rightarrow> world \<Rightarrow> (amped \<times> ipc \<times> world) res" where
  "reader_in req_client rd ep k w =
     (case req_client of
        None \<Rightarrow> Inl NullDeref
      | Some c \<Rightarrow>
          if status (req_of ep c) \<noteq> STATUS_MAP_REQUESTED then Inl AssertFail
          else case rd of
            None \<Rightarrow> Inr (ep, k, w)
          | Some input \<Rightarrow>
              let cl = ed_clients ep c; bs = take MAX_LINE input in
              if length (buffer cl) < nat (buf_len cl) + length bs then Inl BufferOverflow
              else Inr (upd_client c (\<lambda>cl. cl\<lparr>buffer := blit (buffer cl) (nat (buf_len cl)) bs,
                     buf_len := buf_len cl + int (length bs)\<rparr>) ep, k, w))"

definition ed_reader_callback :: "env \<Rightarrow> aenv \<Rightarrow> epoll_event \<Rightarrow> ptr \<Rightarrow> amped \<Rightarrow> ipc \<Rightarrow> world \<Rightarrow>
    (amped \<times> ipc \<times> world) res" where
  "ed_reader_callback E A ev dat ep k w =
     (let helper_fd = ev_fd ev; evs = ev_events ev; i = hi_get_helper_index ep helper_fd in
      if EPOLLERR \<in> evs then Inr (ep, k, w)
      else if EPOLLHUP \<in> evs \<or> EPOLLRDHUP \<in> evs then Inl AssertFail
      else if EPOLLOUT \<in> evs then
        (if i < 0 then Inl OverRead
         else reader_out E A helper_fd dat (hi_client (helper_info ep ! nat i)) ep k w)
      else if EPOLLIN \<in> evs then
        (if i < 0 then Inl OverRead
         else reader_in (hi_client (helper_info ep ! nat i)) (ev_read ev) ep k w)
      else Inr (ep, k, w))"

fun amped_dispatch_events :: "env \<Rightarrow> aenv \<Rightarrow> epoll_event list \<Rightarrow> amped \<Rightarrow> ipc \<Rightarrow> world \<Rightarrow>
    (amped \<times> ipc \<times> world) res" where
  "amped_dispatch_events E A [] ep k w = Inr (ep, k, w)"
| "amped_dispatch_events E A (ev # evs) ep k w =
     (if ev_fd ev < 0 \<or> fds_used ep \<le> 0 then amped_dispatch_events E A evs ep k w
      else if maxfds ep \<le> ev_fd ev then Inl OverRead
      else
        let c = ed_clients ep (ev_fd ev) in
        case callback c of
          None \<Rightarrow> Inl NullDeref
        | Some Ed_accept_callback \<Rightarrow>
            (let (ep1, w1) = ed_accept_callback E ev ep w in amped_dispatch_events E A evs ep1 k w1)
        | Some Ed_socket_callback \<Rightarrow>
            rbind (amped_socket_callback E A ev (data c) ep k w) (\<lambda>(ep1, k1, w1).
            amped_dispatch_events E A evs ep1 k1 w1)
        | Some Ed_reader_callback \<Rightarrow>
            rbind (ed_reader_callback E A ev (data c) ep k w) (\<lambda>(ep1, k1, w1).
            amped_dispatch_events E A evs ep1 k1 w1))"

text \<open>\<open>handle_epoll_events\<close> on a sequence of results of \<open>epoll_wait\<close>.\<close>

fun amped_handle_epoll_events :: "env \<Rightarrow> aenv \<Rightarrow> epoll_event list list \<Rightarrow> amped \<Rightarrow> ipc \<Rightarrow> world \<Rightarrow>
    (amped \<times> ipc \<times> world) res" where
  "amped_handle_epoll_events E A [] ep k w = Inr (ep, k, w)"
| "amped_handle_epoll_events E A (evs # batches) ep k w =
     rbind (amped_dispatch_events E A evs ep k w) (\<lambda>(ep1, k1, w1).
     amped_handle_epoll_events E A batches ep1 k1 w1)"

end
