(* ===== verification/Reader_Slave.thy ===== *)
theory Reader_Slave
  imports Amped Scan
begin

text \<open>
  The helper program \<open>amped_server/reader_slave.c\<close>: one turn of its loop, from the request on
  its socket to the reply, and the start of the helpers: \<open>create_generic_slave\<close> of
  \<open>amped_server/ed_http.c\<close> and \<open>main\<close> of \<open>amped_server/ed_server.c\<close>.
\<close>

section \<open>One request\<close>

text \<open>\<open>sscanf (request, "%d %d %s", &key, &size, file_path)\<close>\<close>

definition scan_request :: "string \<Rightarrow> (int \<times> int \<times> string) option res" where
  "scan_request s =
     rbind (scan_d s) (\<lambda>r.
     case r of
       None \<Rightarrow> Inr None
     | Some (key, s1) \<Rightarrow>
         rbind (scan_d s1) (\<lambda>r. Inr
           (case r of
              None \<Rightarrow> None
            | Some (sz, s2) \<Rightarrow>
                (case scan_word s2 of None \<Rightarrow> None | Some (path, _) \<Rightarrow> Some (key, sz, path)))))"

text \<open>
  \<open>shmget (key, size, IPC_CREAT | 0666)\<close>: an existing segment must be large enough, a new one
  is filled with zeros and must have at least one byte. \<open>room\<close>: the system has memory for it.
\<close>

definition shmget_create :: "bool \<Rightarrow> int \<Rightarrow> int \<Rightarrow> ipc \<Rightarrow> ipc option" where
  "shmget_create room key sz k =
     (case k_shm k key of
        Some seg \<Rightarrow> if 0 \<le> sz \<and> sz \<le> int (length seg) then Some k else None
      | None \<Rightarrow> if 1 \<le> sz \<and> room then Some (k\<lparr>k_shm := (k_shm k)(key \<mapsto> zeros (nat sz))\<rparr>) else None)"

text \<open>
  The outcomes of a turn: a reply, \<open>exit (0)\<close>, or no end (the copy loop tests for end of file
  only, so a read error keeps it running).
\<close>

datatype slave_result = Replied string ipc | Exited | Hung

text \<open>The copy loop: chunk after chunk into the segment, from offset \<open>off\<close>; \<open>None\<close> when it
  does not end.\<close>

function slave_copy :: "stream \<Rightarrow> nat \<Rightarrow> string \<Rightarrow> string res option" where
  "slave_copy st off seg =
     (if s_eof st then Some (Inr seg)
      else
        let (bs, st') = fread READ_CHUNK_SIZE st in
        if length seg < off + length bs then Some (Inl BufferOverflow)
        else if s_err st' then None
        else slave_copy st' (off + length bs) (blit seg off bs))"
  by pat_completeness auto
termination
proof (relation "measure (\<lambda>(st, off, seg). (if s_eof st then 0 else 1) + length (s_rest st))")
  fix st :: stream and off :: nat and seg :: string and x bs st'
  assume "\<not> s_eof st" and f: "x = fread READ_CHUNK_SIZE st" "(bs, st') = x" and "\<not> s_err st'"
  then have "s_eof st' \<or> length bs = READ_CHUNK_SIZE"
    using fread_progress [of READ_CHUNK_SIZE st bs st'] by auto
  moreover have "s_rest st = bs @ s_rest st'" using fread_rest f by metis
  ultimately show "((st', off + length bs, blit seg off bs), st, off, seg)
      \<in> measure (\<lambda>(st, off, seg). (if s_eof st then 0 else 1) + length (s_rest st))"
    using \<open>\<not> s_eof st\<close> by auto
qed auto

declare slave_copy.simps [simp del]

text \<open>
  A turn on the bytes of a request. The result of \<open>fopen\<close> is compared with 0 by \<open><\<close>, which is
  never true of a pointer: a missing file is a null stream that the copy loop uses.
\<close>

definition slave_turn :: "env \<Rightarrow> bool \<Rightarrow> string \<Rightarrow> ipc \<Rightarrow> slave_result res" where
  "slave_turn E room request k =
     (if request = [] then Inr Exited
      else if \<not> terminated request then Inl OverRead
      else rbind (scan_request (cstr request)) (\<lambda>r.
        case r of
        None \<Rightarrow> Inr Exited
      | Some (key, sz, path) \<Rightarrow>
          (case shmget_create room key sz k of
             None \<Rightarrow> Inr Exited
           | Some k1 \<Rightarrow>
               (case e_files E path of
                  None \<Rightarrow> Inl NullDeref
                | Some f \<Rightarrow>
                    (case slave_copy (open_stream f) 0 (the (k_shm k1 key)) of
                       None \<Rightarrow> Inr Hung
                     | Some (Inl e) \<Rightarrow> Inl e
                     | Some (Inr seg) \<Rightarrow>
                         Inr (Replied (''done'' @ [NUL]) (k1\<lparr>k_shm := (k_shm k1)(key \<mapsto> seg)\<rparr>)))))))"

section \<open>Starting the helpers\<close>

text \<open>The answers of the kernel for one helper: the pair of sockets, and whether \<open>fork\<close> worked.\<close>

record slave_start =
  ss_pair :: "(fd \<times> fd) option"
  ss_fork_ok :: bool

definition create_generic_slave :: "slave_start \<Rightarrow> world \<Rightarrow> fd \<times> world" where
  "create_generic_slave ss w =
     (case ss_pair ss of
        None \<Rightarrow> (- 1, w)
      | Some (a, b) \<Rightarrow>
          let w1 = w\<lparr>w_open := insert a (insert b (w_open w))\<rparr> in
          if \<not> ss_fork_ok ss then (- 1, w1) else (a, sys_close b w1))"

text \<open>The loop of \<open>main\<close> over the helpers.\<close>

fun start_helpers :: "env \<Rightarrow> slave_start list \<Rightarrow> nat \<Rightarrow> amped \<Rightarrow> world \<Rightarrow> amped \<times> world" where
  "start_helpers E [] i ep w = (ep, w)"
| "start_helpers E (ss # sss) i ep w =
     (let (d, w1) = create_generic_slave ss w;
          ep1 = ep\<lparr>helper_info := (helper_info ep)[i := \<lparr>hi_fd = d, hi_client = None\<rparr>]\<rparr>;
          (_, ep2, w2) = ed_epoll_add E d Ed_reader_callback Null ep1 w1 in
      start_helpers E sss (Suc i) ep2 w2)"

definition amped_main :: "env \<Rightarrow> startup \<Rightarrow> string list \<Rightarrow> slave_start list \<Rightarrow> (fd \<Rightarrow> amped_client) option \<Rightarrow> fd \<Rightarrow> bool \<Rightarrow>
    helper list option \<Rightarrow> amped \<Rightarrow> world \<Rightarrow> (amped \<times> world) option res" where
  "amped_main E su argv sss mem efd ev_mem hmem ep0 w =
     (if length argv < 2 \<or> atoi (argv ! 1) \<le> 0 then Inr None
      else if \<not> set_signal_handlers su then Inr None
      else
        let (rc, ep1) = amped_epoll_init E mem efd ev_mem hmem ep0 MAX_ED_EVENTS in
        if rc \<noteq> 0 then Inr None
        else
          let (ep2, w1) = start_helpers E (take N_HELPER_PROCS sss) 0 ep1 w in
          rbind (start_server_socket su (atoi (argv ! 1)) w1) (\<lambda>(server_sockfd, _, w2).
          if server_sockfd < 0 then Inr None
          else if setnonblock E server_sockfd < 0 then Inr None
          else let (_, ep3, w3) = ed_epoll_add E server_sockfd Ed_accept_callback Null ep2 w2 in
               Inr (Some (ep3, w3))))"

section \<open>A request is copied into its segment\<close>

lemma slave_copy_all:
  assumes "s_bad st = None" "\<not> s_eof st" "\<not> s_err st" "off + length (s_rest st) \<le> length seg"
  shows "slave_copy st off seg = Some (Inr (blit seg off (s_rest st)))"
  using assms
proof (induction "length (s_rest st)" arbitrary: st off seg rule: less_induct)
  case less
  let ?bs = "take READ_CHUNK_SIZE (s_rest st)"
  let ?st = "st\<lparr>s_rest := drop READ_CHUNK_SIZE (s_rest st), s_eof := length (s_rest st) < READ_CHUNK_SIZE\<rparr>"
  have step: "slave_copy st off seg = slave_copy ?st (off + length ?bs) (blit seg off ?bs)"
    using less.prems by (subst slave_copy.simps) (auto simp: fread_good)
  show ?case
  proof (cases "length (s_rest st) < READ_CHUNK_SIZE")
    case True
    then show ?thesis unfolding step by (subst slave_copy.simps) simp
  next
    case False
    have l: "length (blit seg off ?bs) = length seg" using less.prems(4) by (intro length_blit) simp
    have "slave_copy ?st (off + length ?bs) (blit seg off ?bs) =
        Some (Inr (blit (blit seg off ?bs) (off + length ?bs) (s_rest ?st)))"
      using less.prems False l by (intro less.hyps) auto
    also have "blit (blit seg off ?bs) (off + length ?bs) (s_rest ?st) = blit seg off (s_rest st)"
      using less.prems(4) by (subst blit_blit) simp_all
    finally show ?thesis unfolding step .
  qed
qed

lemma scan_request_text:
  assumes "0 \<le> key" "key \<le> INT_MAX" "0 \<le> sz" "sz \<le> INT_MAX" "path \<noteq> []" "\<forall>c\<in>set path. \<not> isspace c"
  shows "scan_request (helper_request key sz path) = Inr (Some (key, sz, path))"
proof -
  have "scan_d (show_int key @ CHR '' '' # show_int sz @ CHR '' '' # path) =
      Inr (Some (key, CHR '' '' # show_int sz @ CHR '' '' # path))"
    using assms(1,2) by (intro scan_d_show) (simp_all add: isdigit_def)
  moreover have "scan_d (show_int sz @ CHR '' '' # path) = Inr (Some (sz, CHR '' '' # path))"
    using assms(3,4) by (intro scan_d_show) (simp_all add: isdigit_def)
  ultimately show ?thesis
    using scan_word_end [OF assms(5,6)] by (simp add: scan_request_def helper_request_def scan_ws_space)
qed

text \<open>The helper puts the file into a fresh segment of its size and says so.\<close>

lemma slave_turn_done:
  assumes "0 \<le> key" "path \<noteq> []" "\<forall>c\<in>set path. \<not> isspace c" "no_nul path"
    and rng: "key \<le> INT_MAX" "int (length (f_data f)) \<le> INT_MAX"
    and f: "e_files E path = Some f" "f_bad f = None" "f_data f \<noteq> []" and fresh: "k_shm k key = None"
  shows "slave_turn E True (helper_request key (int (length (f_data f))) path @ [NUL]) k =
    Inr (Replied (''done'' @ [NUL]) (k\<lparr>k_shm := (k_shm k)(key \<mapsto> f_data f)\<rparr>))"
proof -
  let ?n = "int (length (f_data f))"
  have c: "cstr (helper_request key ?n path @ [NUL]) = helper_request key ?n path"
    using assms(4) by (intro cstr_stop) (simp add: helper_request_def)
  have s: "scan_request (helper_request key ?n path) = Inr (Some (key, ?n, path))"
    using assms(1-3) rng by (intro scan_request_text) simp_all
  have g: "shmget_create True key ?n k = Some (k\<lparr>k_shm := (k_shm k)(key \<mapsto> zeros (length (f_data f)))\<rparr>)"
    using fresh f(3) by (simp add: shmget_create_def Suc_le_eq)
  have "slave_copy (open_stream f) 0 (zeros (length (f_data f))) = Some (Inr (f_data f))"
    using f(2) by (subst slave_copy_all) (simp_all add: open_stream_def blit_def)
  then show ?thesis using c s g f by (simp add: slave_turn_def)
qed

text \<open>An empty file: no segment can be made for it, and the helper ends.\<close>

lemma slave_turn_empty:
  assumes "0 \<le> key" "path \<noteq> []" "\<forall>c\<in>set path. \<not> isspace c" "no_nul path" and "k_shm k key = None"
    and "key \<le> INT_MAX"
  shows "slave_turn E room (helper_request key 0 path @ [NUL]) k = Inr Exited"
proof -
  have c: "cstr (helper_request key 0 path @ [NUL]) = helper_request key 0 path"
    using assms(4) by (intro cstr_stop) (simp add: helper_request_def)
  have s: "scan_request (helper_request key 0 path) = Inr (Some (key, 0, path))"
    using assms(1-3,6) by (intro scan_request_text) simp_all
  then show ?thesis using c assms(5) by (simp add: slave_turn_def shmget_create_def)
qed

end
