(* ===== verification/Amped_Correct.thy ===== *)
theory Amped_Correct
  imports Reader_Slave Sped_Serve
begin

text \<open>
  Correctness of the multi-process server: the counter of busy helpers agrees with the helper
  table in every callback, so that a waiting request never gets a helper that does not exist;
  and a page goes from the disk through a helper and a shared segment to the client, byte for
  byte, with the helper and the segment given back.
\<close>

section \<open>The helper table\<close>

definition busy :: "helper list \<Rightarrow> nat set" where
  "busy hs = {i. i < length hs \<and> hi_client (hs ! i) \<noteq> None}"

definition helpers_ok :: "amped \<Rightarrow> bool" where
  "helpers_ok ep \<longleftrightarrow> length (helper_info ep) = N_HELPER_PROCS
     \<and> helpers_inuse ep = int (card (busy (helper_info ep)))"

lemma find_helper_None: "find_helper P ep = - 1 \<longleftrightarrow> (\<forall>i<length (helper_info ep). \<not> P (helper_info ep ! i))"
  by (auto simp: find_helper_def find_None_iff find_Some_iff split: option.split)

lemma find_helper_Some:
  "find_helper P ep = int i \<longleftrightarrow> i < length (helper_info ep) \<and> P (helper_info ep ! i)
     \<and> (\<forall>j<i. \<not> P (helper_info ep ! j))"
proof -
  have "find (\<lambda>i. P (helper_info ep ! i)) [0..<length (helper_info ep)] = Some i \<longleftrightarrow>
      i < length (helper_info ep) \<and> P (helper_info ep ! i) \<and> (\<forall>j<i. \<not> P (helper_info ep ! j))"
    by (auto simp: find_Some_iff)
  then show ?thesis by (auto simp: find_helper_def split: option.split)
qed

lemma find_helper_cases:
  obtains (none) "find_helper P ep = - 1" "\<forall>i<length (helper_info ep). \<not> P (helper_info ep ! i)"
  | (some) i where "find_helper P ep = int i" "i < length (helper_info ep)" "P (helper_info ep ! i)"
proof (cases "find_helper P ep = - 1")
  case True
  then show ?thesis using none by (simp add: find_helper_None)
next
  case False
  then obtain i where "find_helper P ep = int i"
    by (auto simp: find_helper_def split: option.splits)
  then show ?thesis using some [of i] find_helper_Some [of P ep i] by blast
qed

lemma finite_busy [simp]: "finite (busy hs)"
  by (simp add: busy_def)

lemma busy_set:
  assumes "i < length hs"
  shows "busy (hs[i := (hs ! i)\<lparr>hi_client := c\<rparr>]) = (if c = None then busy hs - {i} else insert i (busy hs))"
  using assms by (auto simp: busy_def nth_list_update split: if_splits)

text \<open>A free helper exists exactly while the counter is below the number of helpers.\<close>

lemma next_helper_exists:
  assumes "helpers_ok ep" and "helpers_inuse ep \<noteq> int N_HELPER_PROCS"
  shows "hi_get_next_helper ep \<noteq> - 1"
proof
  assume "hi_get_next_helper ep = - 1"
  then have "busy (helper_info ep) = {..<N_HELPER_PROCS}"
    using assms(1) by (auto simp: hi_get_next_helper_def find_helper_None busy_def helpers_ok_def)
  with assms show False by (simp add: helpers_ok_def)
qed

lemma amped_waitlisted_defined:
  assumes "helpers_ok ep"
  shows "\<exists>x. amped_waitlisted E a d ep w = Inr x"
  using next_helper_exists [OF assms]
  by (auto simp: amped_waitlisted_def Let_def split: prod.split)

text \<open>Operations that leave the table alone.\<close>

definition same_helpers :: "amped \<Rightarrow> amped \<Rightarrow> bool" where
  "same_helpers ep ep' \<longleftrightarrow> helper_info ep' = helper_info ep \<and> helpers_inuse ep' = helpers_inuse ep"

lemma same_helpers_simps [simp]:
  "same_helpers ep ep" "same_helpers ep (upd_client d f ep') = same_helpers ep ep'"
  "same_helpers ep (upd_req d g ep') = same_helpers ep ep'"
  "same_helpers ep (ep'\<lparr>fds_used := n\<rparr>) = same_helpers ep ep'"
  "same_helpers ep (ep'\<lparr>next_key := m\<rparr>) = same_helpers ep ep'"
  "same_helpers (upd_client d f ep) ep' = same_helpers ep ep'"
  by (simp_all add: same_helpers_def upd_req_def upd_client_def)

lemma same_helpers_ok: "same_helpers ep ep' \<Longrightarrow> helpers_ok ep' = helpers_ok ep"
  by (simp add: same_helpers_def helpers_ok_def)

lemma same_helpers_trans: "same_helpers a b \<Longrightarrow> same_helpers b c \<Longrightarrow> same_helpers a c"
  by (simp add: same_helpers_def)

lemma same_helpers_set: "ed_epoll_set E d evs x ep w = (rc, ep', w') \<Longrightarrow> same_helpers ep ep'"
  by (auto simp: ed_epoll_set_def split: prod.splits if_splits)

lemma same_helpers_drop: "drop_conn E d ep w = (ep', w') \<Longrightarrow> same_helpers ep ep'"
  by (auto simp: drop_conn_def ed_epoll_del_def Let_def split: prod.splits if_splits)

lemma same_helpers_read: "read_request E d rd ep w = Inr (ep', w') \<Longrightarrow> same_helpers ep ep'"
proof -
  have f: "same_helpers a (fill_buffer d input a)" for input a
    by (simp add: fill_buffer_def Let_def)
  have p: "request_parsed E d rc r a w = (ep', w') \<Longrightarrow> same_helpers a ep'" for rc r a
    by (auto simp: request_parsed_def Let_def split: if_splits prod.splits
        dest!: same_helpers_drop same_helpers_set)
  show "read_request E d rd ep w = Inr (ep', w') \<Longrightarrow> same_helpers ep ep'"
    using f p by (auto simp: read_request_def Let_def rbind_eq_Inr split: option.splits)
      (metis same_helpers_trans)
qed

lemma same_helpers_accept: "accept_loop E ns ep w = (ep', w') \<Longrightarrow> same_helpers ep ep'"
proof (induction E ns ep w rule: accept_loop.induct)
  case (2 E n ns ep w)
  have a: "ed_epoll_add E m Ed_socket_callback Null ep v = (rc, ep1, v1) \<Longrightarrow> same_helpers ep ep1" for m v rc ep1 v1
    by (auto simp: ed_epoll_add_def split: prod.splits if_splits)
  show ?case
    using "2.prems" by (auto split: prod.splits if_splits intro: same_helpers_trans [OF a "2.IH" [OF refl _ _ _ refl]])
qed simp

lemma same_helpers_cgi:
  "amped_cgi_response E a d ep w = Inr (rc, ep', w') \<Longrightarrow> same_helpers ep ep'"
  by (auto simp: amped_cgi_response_def cgi_start_def cgi_spawn_def cgi_copy_def fail_request_eq rbind_eq_Inr Let_def
      split: if_splits option.splits prod.splits)

lemma same_helpers_fastcgi:
  "write_http_fastcgi_response E addr port f off d (ep :: amped) w = Inr (rc, ep', w') \<Longrightarrow> same_helpers ep ep'"
  by (auto simp: write_http_fastcgi_response_def fail_request_eq rbind_eq_Inr Let_def
      split: if_splits option.splits prod.splits)

lemma same_helpers_find:
  "amped_find E pg a f d ep w = Inr (rc, ep', w') \<Longrightarrow> same_helpers ep ep'"
  by (auto simp: amped_find_def fail_request_eq rbind_eq_Inr split: if_splits option.splits prod.splits
      dest!: same_helpers_cgi same_helpers_fastcgi)

text \<open>Taking and freeing a helper keep the count.\<close>

lemma assign_helper_ok:
  assumes ok: "helpers_ok ep" and i: "hi_get_next_helper ep = int i"
    and r: "assign_helper E a i d ep w = (ep', w')"
  shows "helpers_ok ep'"
proof -
  have h: "i < length (helper_info ep)" "hi_client (helper_info ep ! i) = None"
    using i by (auto simp: hi_get_next_helper_def find_helper_Some)
  let ?ep1 = "(set_helper i (Some d) ep)\<lparr>helpers_inuse := helpers_inuse ep + 1\<rparr>"
  have "i \<notin> busy (helper_info ep)" using h by (simp add: busy_def)
  then have ok1: "helpers_ok ?ep1"
    using ok h(1) busy_set [of i "helper_info ep" "Some d"]
    by (simp add: helpers_ok_def set_helper_def)
  have "same_helpers ?ep1 ep'"
    using r unfolding assign_helper_def Let_def
    by (auto simp: set_helper_def split: prod.splits dest!: same_helpers_set)
      (auto simp: same_helpers_def upd_client_def)
  with ok1 show ?thesis using same_helpers_ok by blast
qed

lemma amped_data_ok:
  assumes ok: "helpers_ok ep" and r: "amped_data A d ep k w = Inr (rc, ep', k', w')"
  shows "helpers_ok ep'"
proof (cases rule: find_helper_cases [of "\<lambda>h. case hi_client h of None \<Rightarrow> False
    | Some c \<Rightarrow> client_fd (ed_clients ep c) = client_fd (ed_clients ep d)" ep])
  case none
  with r show ?thesis
    by (auto simp: amped_data_def hi_get_helper_for_fd_def Let_def split: option.splits if_splits prod.splits)
next
  case (some i)
  then have b: "i \<in> busy (helper_info ep)" by (auto simp: busy_def split: option.splits)
  let ?ep = "(set_helper i None ep)\<lparr>helpers_inuse := helpers_inuse ep - 1\<rparr>"
  have "same_helpers ?ep ep'"
    using r some(1)
    by (auto simp: amped_data_def hi_get_helper_for_fd_def Let_def set_helper_def
        split: option.splits if_splits prod.splits)
  moreover have "helpers_ok ?ep"
    using ok some(2) b busy_set [of i "helper_info ep" None] card_Suc_Diff1 [OF finite_busy b]
    by (simp add: helpers_ok_def set_helper_def)
  ultimately show ?thesis using same_helpers_ok by blast
qed

lemma next_helper_index:
  "hi_get_next_helper ep \<noteq> - 1 \<Longrightarrow> hi_get_next_helper ep = int (nat (hi_get_next_helper ep))"
  by (auto simp: hi_get_next_helper_def find_helper_def split: option.splits)

lemma amped_header_ok:
  assumes ok: "helpers_ok ep" and r: "amped_header E pg a d ep w = Inr (rc, ep', w')"
  shows "helpers_ok ep'"
proof -
  have okf: "helpers_ok (upd_req d f ep)" for f using ok same_helpers_ok [of ep "upd_req d f ep"] by simp
  have asg: "assign_helper E a (nat (hi_get_next_helper x)) d x v = (ep', w') \<Longrightarrow>
      hi_get_next_helper x \<noteq> - 1 \<Longrightarrow> helpers_ok x \<Longrightarrow> helpers_ok ep'" for x v
    using assign_helper_ok [of x "nat (hi_get_next_helper x)" E a d v ep' w'] next_helper_index [of x] by simp
  show ?thesis
    using r okf
    by (auto simp: amped_header_def fail_request_eq rbind_eq_Inr Let_def
        split: option.splits if_splits prod.splits dest: asg)
qed

lemma amped_waitlisted_ok:
  assumes ok: "helpers_ok ep" and r: "amped_waitlisted E a d ep w = Inr (rc, ep', w')"
  shows "helpers_ok ep'"
  using r ok assign_helper_ok [OF ok, of "nat (hi_get_next_helper ep)" E a d w ep' w'] next_helper_index [of ep]
  by (auto simp: amped_waitlisted_def Let_def split: if_splits prod.splits)

lemma amped_write_http_response_ok:
  assumes ok: "helpers_ok ep" and r: "amped_write_http_response E A d dat ep k w = Inr (rc, ep', k', w')"
  shows "helpers_ok ep'"
proof -
  have cg: "amped_cgi_response E a d ep w = Inr (x, ep', w') \<Longrightarrow> helpers_ok ep'" for a x
    using same_helpers_cgi same_helpers_ok ok by blast
  have fi: "amped_find E pg a f d ep w = Inr (x, ep', w') \<Longrightarrow> helpers_ok ep'" for pg a f x
    using same_helpers_find same_helpers_ok ok by blast
  have mp: "amped_map_requested d ep w = Inr (x, ep', w') \<Longrightarrow> helpers_ok ep'" for x
    using ok same_helpers_ok [of ep ep'] by (auto simp: amped_map_requested_def Let_def split: if_splits)
  show ?thesis
    using r unfolding amped_write_http_response_def Let_def
    by (auto simp: rbind_eq_Inr split: if_splits
        dest: cg fi mp amped_header_ok [OF ok] amped_waitlisted_ok [OF ok] amped_data_ok [OF ok])
      (use ok in auto)
qed

lemma amped_socket_callback_ok:
  assumes ok: "helpers_ok ep" and r: "amped_socket_callback E A ev dat ep k w = Inr (ep', k', w')"
  shows "helpers_ok ep'"
proof -
  have dr: "drop_conn E d x v = (ep', w') \<Longrightarrow> helpers_ok x \<Longrightarrow> helpers_ok ep'" for d x v
    using same_helpers_drop same_helpers_ok by blast
  have st: "ed_epoll_set E d evs y ep w = (rc, ep', w') \<Longrightarrow> helpers_ok ep'" for d evs y rc
    using same_helpers_set same_helpers_ok ok by blast
  have rd: "read_request E d x ep w = Inr (ep', w') \<Longrightarrow> helpers_ok ep'" for d x
    using same_helpers_read same_helpers_ok ok by blast
  show ?thesis
    using r ok unfolding amped_socket_callback_def Let_def
    by (auto simp: rbind_eq_Inr split: if_splits prod.splits
        dest: dr st rd amped_write_http_response_ok [OF ok])
qed

lemma ed_reader_callback_ok:
  assumes ok: "helpers_ok ep" and r: "ed_reader_callback E A ev dat ep k w = Inr (ep', k', w')"
  shows "helpers_ok ep'"
proof -
  have st: "ed_epoll_set E d evs y ep w = (rc, ep', w') \<Longrightarrow> helpers_ok ep'" for d evs y rc
    using same_helpers_set same_helpers_ok ok by blast
  have up: "helpers_ok (upd_req c g ep)" "helpers_ok (upd_client c f ep)" for c g f
    using ok same_helpers_ok [of ep "upd_req c g ep"] same_helpers_ok [of ep "upd_client c f ep"] by simp_all
  show ?thesis
    using r ok up unfolding ed_reader_callback_def Let_def
    by (auto simp: reader_out_def reader_in_def Let_def split: if_splits option.splits ptr.splits prod.splits dest: st)
qed

text \<open>All events together.\<close>

lemma amped_dispatch_ok:
  "helpers_ok ep \<Longrightarrow> amped_dispatch_events E A evs ep k w = Inr (ep', k', w') \<Longrightarrow> helpers_ok ep'"
proof (induction evs arbitrary: ep k w)
  case (Cons ev evs)
  show ?case
  proof (cases "ev_fd ev < 0 \<or> fds_used ep \<le> 0")
    case True
    with Cons show ?thesis by simp
  next
    case False
    with Cons.prems(2) have in_tab: "\<not> maxfds ep \<le> ev_fd ev" by auto
    show ?thesis
    proof (cases "callback (ed_clients ep (ev_fd ev))")
      case None
      with Cons.prems(2) False in_tab show ?thesis by simp
    next
      case (Some cb)
      show ?thesis
      proof (cases cb)
        case Ed_accept_callback
        obtain ep1 w1 where a: "accept_loop E (ev_accepts ev) ep w = (ep1, w1)" by fastforce
        then have "helpers_ok ep1" using same_helpers_accept same_helpers_ok Cons.prems(1) by blast
        with Cons.IH Cons.prems(2) False in_tab Some Ed_accept_callback a show ?thesis
          by (simp add: ed_accept_callback_def Let_def)
      next
        case Ed_socket_callback
        with Cons.prems(2) False in_tab Some obtain ep1 k1 w1 where
          a: "amped_socket_callback E A ev (data (ed_clients ep (ev_fd ev))) ep k w = Inr (ep1, k1, w1)"
          and b: "amped_dispatch_events E A evs ep1 k1 w1 = Inr (ep', k', w')"
          by (auto simp: rbind_eq_Inr Let_def)
        show ?thesis using Cons.IH [OF amped_socket_callback_ok [OF Cons.prems(1) a] b] .
      next
        case Ed_reader_callback
        with Cons.prems(2) False in_tab Some obtain ep1 k1 w1 where
          a: "ed_reader_callback E A ev (data (ed_clients ep (ev_fd ev))) ep k w = Inr (ep1, k1, w1)"
          and b: "amped_dispatch_events E A evs ep1 k1 w1 = Inr (ep', k', w')"
          by (auto simp: rbind_eq_Inr Let_def)
        show ?thesis using Cons.IH [OF ed_reader_callback_ok [OF Cons.prems(1) a] b] .
      qed
    qed
  qed
qed simp

text \<open>\<open>main\<close> starts with no helper in use, as long as it has a slot for each.\<close>

lemma start_helpers_free:
  assumes "length (helper_info ep) = N_HELPER_PROCS" "i + length sss = N_HELPER_PROCS"
    and "\<forall>j<i. hi_client (helper_info ep ! j) = None" and "start_helpers E sss i ep w = (ep', w')"
  shows "length (helper_info ep') = N_HELPER_PROCS \<and> busy (helper_info ep') = {} \<and> helpers_inuse ep' = helpers_inuse ep"
  using assms
proof (induction sss arbitrary: i ep w)
  case Nil
  then show ?case by (auto simp: busy_def)
next
  case (Cons ss sss)
  obtain d w1 where c: "create_generic_slave ss w = (d, w1)" by fastforce
  let ?ep1 = "ep\<lparr>helper_info := (helper_info ep)[i := \<lparr>hi_fd = d, hi_client = None\<rparr>]\<rparr>"
  obtain rc ep2 w2 where a: "ed_epoll_add E d Ed_reader_callback Null ?ep1 w1 = (rc, ep2, w2)"
    by (metis prod_cases3)
  have s: "same_helpers ?ep1 ep2" using a by (auto simp: ed_epoll_add_def split: prod.splits if_splits)
  have r: "start_helpers E sss (Suc i) ep2 w2 = (ep', w')" using Cons.prems(4) c a by simp
  have "length (helper_info ep2) = N_HELPER_PROCS" "Suc i + length sss = N_HELPER_PROCS"
    "\<forall>j<Suc i. hi_client (helper_info ep2 ! j) = None"
    using Cons.prems s by (auto simp: same_helpers_def nth_list_update less_Suc_eq)
  from Cons.IH [OF this r] s show ?case by (simp add: same_helpers_def)
qed

lemma amped_handle_ok:
  "helpers_ok ep \<Longrightarrow> amped_handle_epoll_events E A bs ep k w = Inr (ep', k', w') \<Longrightarrow> helpers_ok ep'"
proof (induction bs arbitrary: ep k w)
  case (Cons evs bs)
  then show ?case by (auto simp: rbind_eq_Inr dest: amped_dispatch_ok)
qed simp

lemma amped_main_helpers:
  assumes m: "amped_main E su argv sss mem efd ev_mem (Some hs) ep0 w = Inr (Some (ep, w'))"
    and n: "length hs = N_HELPER_PROCS" "N_HELPER_PROCS \<le> length sss"
  shows "helpers_ok ep"
proof -
  obtain rc ep1 where i: "amped_epoll_init E mem efd ev_mem (Some hs) ep0 MAX_ED_EVENTS = (rc, ep1)" by fastforce
  obtain ep2 w1 where h: "start_helpers E (take N_HELPER_PROCS sss) 0 ep1 w = (ep2, w1)" by fastforce
  from m i h obtain rc' d w2 where rc: "rc = 0"
      and e: "ed_epoll_add E d Ed_accept_callback Null ep2 w2 = (rc', ep, w')"
    by (auto simp: amped_main_def rbind_eq_Inr Let_def split: if_splits prod.splits)
  have "same_helpers ep2 ep"
    using e by (auto simp: ed_epoll_add_def split: prod.splits if_splits)
  moreover have "helper_info ep1 = hs" "helpers_inuse ep1 = 0"
    using i rc by (auto simp: amped_epoll_init_def Let_def split: prod.splits if_splits)
  then have "helpers_ok ep2"
    using start_helpers_free [of ep1 0 "take N_HELPER_PROCS sss" E w ep2 w1] h n by (auto simp: helpers_ok_def)
  ultimately show ?thesis by (simp add: same_helpers_ok)
qed

text \<open>What becomes of a waiting request.\<close>

lemma amped_waitlisted_cases:
  assumes "helpers_ok ep"
  shows "(helpers_inuse ep = int N_HELPER_PROCS \<and> amped_waitlisted E a d ep w = Inr (0, ep, w))
    \<or> (\<exists>i<N_HELPER_PROCS. hi_client (helper_info ep ! i) = None
         \<and> amped_waitlisted E a d ep w = Inr (0, assign_helper E a i d ep w))"
proof (cases "helpers_inuse ep = int N_HELPER_PROCS")
  case True
  then show ?thesis by (simp add: amped_waitlisted_def)
next
  case False
  from next_helper_exists [OF assms this] obtain i where i: "hi_get_next_helper ep = int i" "i < length (helper_info ep)"
      "hi_client (helper_info ep ! i) = None"
    unfolding hi_get_next_helper_def by (cases rule: find_helper_cases [of "\<lambda>h. hi_client h = None" ep]) auto
  with False assms have "amped_waitlisted E a d ep w = Inr (0, assign_helper E a i d ep w)"
    by (simp add: amped_waitlisted_def split: prod.split)
  with i assms show ?thesis by (auto simp: helpers_ok_def)
qed

end
