(* ===== verification/Amped_Serve.thy ===== *)
theory Amped_Serve
  imports Amped_Correct
begin

text \<open>
  A static page through the multi-process server: the client's socket becomes writable, a
  helper is asked, the helper fills a shared segment and answers, the segment goes to the
  client. One lemma per step, then all of them.
\<close>

type_synonym astate = "amped \<times> ipc \<times> world"

definition a_out :: "env \<Rightarrow> aenv \<Rightarrow> fd \<Rightarrow> astate \<Rightarrow> astate res" where
  "a_out E A d = (\<lambda>(ep, k, w). amped_dispatch_events E A [out_event d] ep k w)"

text \<open>
  A helper handles the first request on its socket; the master then sees its reply, or the
  end of the connection when the helper has exited. \<open>room\<close>: there is memory for a segment.
\<close>

definition helper_turn :: "env \<Rightarrow> aenv \<Rightarrow> bool \<Rightarrow> fd \<Rightarrow> astate \<Rightarrow> astate res" where
  "helper_turn E A room h = (\<lambda>(ep, k, w).
     case k_req k h of
       [] \<Rightarrow> Inr (ep, k, w)
     | r # rs \<Rightarrow>
         rbind (slave_turn E room r (k\<lparr>k_req := (k_req k)(h := rs)\<rparr>)) (\<lambda>res.
         case res of
           Replied reply k1 \<Rightarrow> amped_dispatch_events E A
             [\<lparr>ev_fd = h, ev_events = {EPOLLIN}, ev_accepts = [], ev_read = Some reply\<rparr>] ep k1 w
         | Exited \<Rightarrow> amped_dispatch_events E A
             [\<lparr>ev_fd = h, ev_events = {EPOLLHUP}, ev_accepts = [], ev_read = None\<rparr>] ep k w
         | Hung \<Rightarrow> Inr (ep, k\<lparr>k_req := (k_req k)(h := rs)\<rparr>, w)))"

section \<open>The state of a connection and its helper\<close>

text \<open>Connection \<open>d\<close> asks for page \<open>p\<close> and is in state \<open>st\<close>; \<open>h\<close> is the socket of helper
  \<open>i\<close>, and no other helper works for a client with that descriptor.\<close>

definition a_conn :: "fd \<Rightarrow> fd \<Rightarrow> nat \<Rightarrow> string \<Rightarrow> status \<Rightarrow> astate \<Rightarrow> bool" where
  "a_conn d h i p st = (\<lambda>(ep, k, w).
     0 \<le> d \<and> d < maxfds ep \<and> 0 \<le> h \<and> h < maxfds ep \<and> d \<noteq> h \<and> 0 < fds_used ep
     \<and> callback (ed_clients ep d) = Some Ed_socket_callback \<and> callback (ed_clients ep h) = Some Ed_reader_callback
     \<and> data (ed_clients ep d) = Page d \<and> client_fd (ed_clients ep d) = d
     \<and> w_interest w d \<noteq> None \<and> w_interest w h \<noteq> None \<and> w_send_rets w = []
     \<and> status (req_of ep d) = st \<and> terminated (page (req_of ep d)) \<and> cstr (page (req_of ep d)) = p
     \<and> length (buffer (ed_clients ep d)) = REQUEST_SIZE
     \<and> i < length (helper_info ep) \<and> hi_fd (helper_info ep ! i) = h \<and> (\<forall>j<i. hi_fd (helper_info ep ! j) \<noteq> h)
     \<and> (\<forall>j<length (helper_info ep). j \<noteq> i \<longrightarrow>
          (case hi_client (helper_info ep ! j) of None \<Rightarrow> True | Some c \<Rightarrow> client_fd (ed_clients ep c) \<noteq> d)))"

text \<open>Helper \<open>i\<close> is the next one to be taken.\<close>

definition a_free :: "nat \<Rightarrow> astate \<Rightarrow> bool" where
  "a_free i = (\<lambda>(ep, k, w). hi_client (helper_info ep ! i) = None \<and> (\<forall>j<i. hi_client (helper_info ep ! j) \<noteq> None))"

text \<open>The reply buffer of the connection is empty.\<close>

definition a_clear :: "fd \<Rightarrow> astate \<Rightarrow> bool" where
  "a_clear d = (\<lambda>(ep, k, w). take READ_CHUNK_SIZE (buffer (ed_clients ep d)) = zeros READ_CHUNK_SIZE
     \<and> buf_len (ed_clients ep d) = 0)"

text \<open>The helper works for the connection, with the given key and size.\<close>

definition a_bound :: "fd \<Rightarrow> nat \<Rightarrow> int \<Rightarrow> int \<Rightarrow> astate \<Rightarrow> bool" where
  "a_bound d i key sz = (\<lambda>(ep, k, w). hi_client (helper_info ep ! i) = Some d
     \<and> shm_key (ed_clients ep d) = key \<and> response_size (req_of ep d) = sz)"

lemma a_out_eq:
  assumes "a_conn d h i p st (ep, k, w)"
  shows "a_out E A d (ep, k, w) = rbind (amped_write_http_response E A d (Page d) ep k w) (\<lambda>(_, ep1, k1, w1).
     if status (req_of ep1 d) = STATUS_REQUEST_FINISH
     then (let (ep2, w2) = drop_conn E d ep1 w1 in Inr (ep2, k1, w2)) else Inr (ep1, k1, w1))"
  using assms
  by (cases "amped_write_http_response E A d (Page d) ep k w")
     (auto simp: a_out_def a_conn_def out_event_def amped_socket_callback_def Let_def split: prod.splits)

text \<open>Step one: the file is found.\<close>

lemma a_find:
  assumes c: "a_conn d h i p STATUS_REQUEST_START (ep, k, w)" and fr: "a_free i (ep, k, w)"
    and sp: "static_page p" and f: "e_files E (www_path p) = Some f"
  shows "\<exists>ep' w'. a_out E A d (ep, k, w) = Inr (ep', k, w') \<and> a_conn d h i p STATUS_FILE_FOUND (ep', k, w')
    \<and> a_free i (ep', k, w') \<and> a_clear d (ep', k, w') \<and> fp (req_of ep' d) = Some (open_stream f)
    \<and> w' = w\<lparr>w_streams := w_streams w + 1\<rparr> \<and> next_key ep' = next_key ep \<and> helpers_inuse ep' = helpers_inuse ep"
proof -
  let ?pg = "page (req_of ep d)"
  obtain a where a: "make_file_path ?pg = Inr a" and ca: "cstr a = www_path p"
    using www_path_cstr [of ?pg] c by (auto simp: a_conn_def)
  have np: "\<not> strncmp_eq ?pg ''/cgi-bin/'' 9" "\<not> strncmp_eq ?pg ''/fastcgi-bin/'' 13"
    using sp c by (auto simp: static_page_def a_conn_def)
  let ?g = "\<lambda>c. c\<lparr>http_req := (http_req c)\<lparr>status := STATUS_FILE_FOUND, fp := Some (open_stream f)\<rparr>,
                buffer := blit (buffer c) 0 (zeros READ_CHUNK_SIZE), buf_len := 0\<rparr>"
  let ?ep = "upd_client d ?g ep" and ?w = "w\<lparr>w_streams := w_streams w + 1\<rparr>"
  have st: "status (req_of ep d) = STATUS_REQUEST_START" using c by (simp add: a_conn_def)
  have "amped_write_http_response E A d (Page d) ep k w = Inr (0, ?ep, k, ?w)"
    using a np st f ca by (simp add: amped_write_http_response_def deref_def amped_find_def fopen_def)
  moreover have rq: "req_of ?ep d = (req_of ep d)\<lparr>status := STATUS_FILE_FOUND, fp := Some (open_stream f)\<rparr>"
    by (simp add: req_of_def)
  ultimately have out: "a_out E A d (ep, k, w) = Inr (?ep, k, ?w)" using a_out_eq [OF c, of E A] by simp
  have l: "length (buffer (ed_clients ep d)) = REQUEST_SIZE" using c by (simp add: a_conn_def)
  have hs: "helper_info ?ep = helper_info ep" "next_key ?ep = next_key ep" "helpers_inuse ?ep = helpers_inuse ep"
    by (simp_all add: upd_client_def)
  have "a_conn d h i p STATUS_FILE_FOUND (?ep, k, ?w)"
    using c l rq hs by (auto simp: a_conn_def split: option.splits)
  moreover have "a_clear d (?ep, k, ?w)" using l by (simp add: a_clear_def blit_def)
  moreover have "a_free i (?ep, k, ?w)" using fr hs by (simp add: a_free_def)
  ultimately show ?thesis using out rq hs by auto
qed

text \<open>Taking a helper.\<close>

lemma assign_effect:
  assumes c: "a_conn d h i p st (ep, k, w)" and ok: "e_epoll_ok E EPOLL_CTL_MOD h"
  shows "\<exists>ep' w'. assign_helper E a i d ep w = (ep', w') \<and> a_conn d h i p STATUS_HEADER_WRITTEN (ep', k, w')
    \<and> a_bound d i (next_key ep) (response_size (req_of ep d)) (ep', k, w')
    \<and> data (ed_clients ep' h) = Stack a \<and> buffer (ed_clients ep' d) = buffer (ed_clients ep d)
    \<and> buf_len (ed_clients ep' d) = buf_len (ed_clients ep d)
    \<and> next_key ep' = next_key ep + 1 \<and> helpers_inuse ep' = helpers_inuse ep + 1
    \<and> w_sent w' = w_sent w \<and> w_streams w' = w_streams w \<and> w_closed w' = w_closed w"
proof -
  let ?ep3 = "upd_client d (\<lambda>c. c\<lparr>shm_key := next_key ep\<rparr>)
      ((set_helper i (Some d) ep)\<lparr>helpers_inuse := helpers_inuse ep + 1, next_key := next_key ep + 1\<rparr>)"
  let ?w = "w\<lparr>w_interest := (w_interest w)(h \<mapsto> {EPOLLOUT} \<union> {EPOLLERR, EPOLLHUP, EPOLLRDHUP})\<rparr>"
  let ?ep4 = "upd_req d (set_status STATUS_HEADER_WRITTEN) (upd_client h (\<lambda>c. c\<lparr>data := Stack a\<rparr>) ?ep3)"
  have hs: "hi_fd (helper_info ?ep3 ! i) = h" "w_interest w h \<noteq> None" "d \<noteq> h" "i < length (helper_info ep)"
    using c by (auto simp: a_conn_def set_helper_def upd_client_def)
  have e: "assign_helper E a i d ep w = (?ep4, ?w)"
    unfolding assign_helper_def Let_def using ed_epoll_set_ok [OF ok hs(2), of "{EPOLLOUT}" "Stack a" ?ep3] hs(1)
    by (simp add: set_helper_def)
  have nth: "helper_info ?ep4 ! j = (if j = i then (helper_info ep ! i)\<lparr>hi_client := Some d\<rparr> else helper_info ep ! j)"
    if "j < length (helper_info ep)" for j
    using that by (simp add: set_helper_def upd_client_def upd_req_def)
  have len: "length (helper_info ?ep4) = length (helper_info ep)"
    by (simp add: set_helper_def upd_client_def upd_req_def)
  have cl: "client_fd (ed_clients ?ep4 x) = client_fd (ed_clients ep x)" for x
    by (simp add: upd_client_def upd_req_def set_helper_def)
  have rq: "req_of ?ep4 d = (req_of ep d)\<lparr>status := STATUS_HEADER_WRITTEN\<rparr>"
    using hs(3) by (simp add: req_of_def upd_req_def upd_client_def set_helper_def set_status_def)
  have dd: "ed_clients ?ep4 d = (ed_clients ep d)\<lparr>shm_key := next_key ep, http_req := req_of ?ep4 d\<rparr>"
    "ed_clients ?ep4 h = (ed_clients ep h)\<lparr>data := Stack a\<rparr>"
    using hs(3) rq by (simp_all add: upd_req_def upd_client_def set_helper_def req_of_def set_status_def)
  have mx: "maxfds ?ep4 = maxfds ep" "fds_used ?ep4 = fds_used ep" "next_key ?ep4 = next_key ep + 1"
    "helpers_inuse ?ep4 = helpers_inuse ep + 1"
    by (simp_all add: upd_req_def upd_client_def set_helper_def)
  have "a_conn d h i p STATUS_HEADER_WRITTEN (?ep4, k, ?w)"
    using c unfolding a_conn_def prod.case cl len rq dd mx
    by (auto simp: nth split: option.splits)
  moreover have "a_bound d i (next_key ep) (response_size (req_of ep d)) (?ep4, k, ?w)"
    unfolding a_bound_def prod.case nth [OF hs(4)] dd(1) rq by simp
  moreover have "data (ed_clients ?ep4 h) = Stack a" "buffer (ed_clients ?ep4 d) = buffer (ed_clients ep d)"
    "buf_len (ed_clients ?ep4 d) = buf_len (ed_clients ep d)" unfolding dd by simp_all
  ultimately show ?thesis using e mx by auto
qed

text \<open>Step two: the header, and a helper for the request.\<close>

lemma a_header:
  assumes c: "a_conn d h i p STATUS_FILE_FOUND (ep, k, w)" and fr: "a_free i (ep, k, w)" and cl: "a_clear d (ep, k, w)"
    and f: "fp (req_of ep d) = Some (open_stream f)" "readable_file f"
    and ty: "get_file_type (p @ [NUL]) = Inr ty" and ok: "e_epoll_ok E EPOLL_CTL_MOD h"
  shows "\<exists>ep' w' a. a_out E A d (ep, k, w) = Inr (ep', k, w') \<and> a_conn d h i p STATUS_HEADER_WRITTEN (ep', k, w')
    \<and> a_bound d i (next_key ep) (int (length (f_data f))) (ep', k, w') \<and> a_clear d (ep', k, w')
    \<and> data (ed_clients ep' h) = Stack a \<and> cstr a = www_path p
    \<and> next_key ep' = next_key ep + 1 \<and> helpers_inuse ep' = helpers_inuse ep + 1
    \<and> w_sent w' = (w_sent w)(d := w_sent w d @ http_header E ty (int (length (f_data f))) 200 ''OK'')
    \<and> w_streams w' = w_streams w - 1 \<and> w_closed w' = w_closed w"
proof -
  let ?n = "int (length (f_data f))"
  let ?h = "http_header E ty ?n 200 ''OK''"
  let ?w1 = "(fclose w)\<lparr>w_sent := (w_sent w)(d := w_sent w d @ ?h)\<rparr>"
  let ?ep1 = "upd_req d (\<lambda>r. r\<lparr>fp := None, response_size := ?n\<rparr>) ep"
  obtain a where a: "make_file_path (page (req_of ep d)) = Inr a" and ca: "cstr a = www_path p"
    using www_path_cstr [of "page (req_of ep d)"] c by (auto simp: a_conn_def)
  have full: "w_send_rets w = []" and pg: "terminated (page (req_of ep d))" "cstr (page (req_of ep d)) = p"
    and st: "status (req_of ep d) = STATUS_FILE_FOUND"
    using c by (auto simp: a_conn_def)
  have ty': "get_file_type (page (req_of ep d)) = Inr ty" using ty pg get_file_type_cstr [of "page (req_of ep d)"] by simp
  have len: "to_int ?n = ?n" using f(2) by (simp add: readable_file_def to_int_def)
  have hd: "write_http_response_header E d ty ?n 200 ''OK'' (fclose w) = Inr (0, ?w1)"
    using get_file_type_length [OF ty] to_int_range [of ?n] len full by (simp add: write_header_ok send_full)
  have hs1: "helper_info ?ep1 = helper_info ep" by (simp add: upd_req_def upd_client_def)
  have nx: "hi_get_next_helper ?ep1 = int i"
    unfolding hi_get_next_helper_def find_helper_Some hs1 using c fr by (auto simp: a_conn_def a_free_def)
  have c1: "a_conn d h i p STATUS_FILE_FOUND (?ep1, k, ?w1)"
    using c unfolding a_conn_def prod.case hs1 by (auto simp: upd_req_def split: option.splits) (simp_all add: req_of_def)
  obtain ep' w' where asg: "assign_helper E a i d ?ep1 ?w1 = (ep', w')"
    and r: "a_conn d h i p STATUS_HEADER_WRITTEN (ep', k, w')"
      "a_bound d i (next_key ?ep1) (response_size (req_of ?ep1 d)) (ep', k, w')"
      "data (ed_clients ep' h) = Stack a" "buffer (ed_clients ep' d) = buffer (ed_clients ?ep1 d)"
      "buf_len (ed_clients ep' d) = buf_len (ed_clients ?ep1 d)"
      "next_key ep' = next_key ?ep1 + 1" "helpers_inuse ep' = helpers_inuse ?ep1 + 1"
      "w_sent w' = w_sent ?w1" "w_streams w' = w_streams ?w1" "w_closed w' = w_closed ?w1"
    using assign_effect [OF c1 ok, of a] by blast
  have nk: "next_key ?ep1 = next_key ep" "helpers_inuse ?ep1 = helpers_inuse ep" "response_size (req_of ?ep1 d) = ?n"
    by (simp_all add: upd_req_def upd_client_def req_of_def)
  have "amped_header E (page (req_of ep d)) a d ep w = Inr (0, ep', w')"
    using f ty' len hd nx asg
    by (simp add: amped_header_def readable_file_def open_stream_def Let_def)
  then have "amped_write_http_response E A d (Page d) ep k w = Inr (0, ep', k, w')"
    using a st by (simp add: amped_write_http_response_def deref_def)
  moreover have "status (req_of ep' d) = STATUS_HEADER_WRITTEN" using r(1) by (simp add: a_conn_def)
  ultimately have "a_out E A d (ep, k, w) = Inr (ep', k, w')" using a_out_eq [OF c, of E A] by simp
  moreover have "a_clear d (ep', k, w')" using cl r(4,5) by (simp add: a_clear_def)
  ultimately show ?thesis using r ca nk by auto
qed

lemma a_conn_status:
  assumes "a_conn d h i p st (ep, k, w)"
  shows "a_conn d h i p st' (upd_req d (set_status st') ep, k', w)"
proof -
  have hs: "helper_info (upd_req d (set_status st') ep) = helper_info ep"
    by (simp add: upd_req_def upd_client_def)
  show ?thesis using assms unfolding a_conn_def prod.case hs by (auto simp: set_status_def split: option.splits)
qed

text \<open>Step three: the request goes to the helper. The path is read from the array of a function
  that has returned; \<open>stale\<close> says what is there.\<close>

lemma a_ask:
  assumes c: "a_conn d h i p STATUS_HEADER_WRITTEN (ep, k, w)" and b: "a_bound d i key sz (ep, k, w)"
    and dat: "data (ed_clients ep h) = Stack a" and ca: "cstr (stale A a) = www_path p"
    and fits: "length (helper_request key sz (www_path p)) < MAX_LINE"
    and takes: "helper_takes A h (helper_request key sz (www_path p))" and cl: "a_clear d (ep, k, w)"
  shows "\<exists>ep'. a_out E A h (ep, k, w) =
      Inr (ep', k\<lparr>k_req := (k_req k)(h := k_req k h @ [helper_request key sz (www_path p) @ [NUL]])\<rparr>, w)
    \<and> (\<forall>k'. a_conn d h i p STATUS_MAP_REQUESTED (ep', k', w) \<and> a_bound d i key sz (ep', k', w) \<and> a_clear d (ep', k', w))
    \<and> data (ed_clients ep' h) = Stack a \<and> helpers_inuse ep' = helpers_inuse ep"
proof -
  let ?ep = "upd_req d (set_status STATUS_MAP_REQUESTED) ep"
  have ix: "hi_get_helper_index ep h = int i"
    unfolding hi_get_helper_index_def find_helper_Some using c by (auto simp: a_conn_def)
  have hc: "hi_client (helper_info ep ! i) = Some d" "shm_key (ed_clients ep d) = key" "response_size (req_of ep d) = sz"
    using b by (auto simp: a_bound_def)
  have st: "status (req_of ep d) = STATUS_HEADER_WRITTEN" using c by (simp add: a_conn_def)
  have "a_out E A h (ep, k, w) =
      Inr (?ep, k\<lparr>k_req := (k_req k)(h := k_req k h @ [helper_request key sz (www_path p) @ [NUL]])\<rparr>, w)"
    using c dat ix hc st ca fits takes
    by (simp add: a_out_def a_conn_def out_event_def ed_reader_callback_def reader_out_def Let_def)
  moreover have hs: "helper_info ?ep = helper_info ep" "next_key ?ep = next_key ep" "helpers_inuse ?ep = helpers_inuse ep"
    by (simp_all add: upd_req_def upd_client_def)
  have "a_conn d h i p STATUS_MAP_REQUESTED (?ep, k', w)" for k'
    using c by (rule a_conn_status)
  moreover have "a_bound d i key sz (?ep, k', w)" for k'
    using b unfolding a_bound_def prod.case hs by (simp add: set_status_def) (simp add: upd_req_def)
  moreover have "a_clear d (?ep, k', w)" for k' using cl by (simp add: a_clear_def)
  moreover have "data (ed_clients ?ep h) = Stack a" using dat by simp
  ultimately show ?thesis using hs by blast
qed

text \<open>The next writable event of the helper's socket makes the master wait for the reply.\<close>

lemma a_listen:
  assumes c: "\<And>k. a_conn d h i p STATUS_MAP_REQUESTED (ep, k, w)" and b: "\<And>k. a_bound d i key sz (ep, k, w)"
    and dat: "data (ed_clients ep h) = Stack a" and cl: "\<And>k. a_clear d (ep, k, w)"
    and ok: "e_epoll_ok E EPOLL_CTL_MOD h"
  shows "\<exists>ep' w'. a_out E A h (ep, k, w) = Inr (ep', k, w')
    \<and> (\<forall>k'. a_conn d h i p STATUS_MAP_REQUESTED (ep', k', w') \<and> a_bound d i key sz (ep', k', w') \<and> a_clear d (ep', k', w'))
    \<and> helpers_inuse ep' = helpers_inuse ep \<and> w_sent w' = w_sent w \<and> w_streams w' = w_streams w \<and> w_closed w' = w_closed w
    \<and> (\<exists>evs. w_interest w' h = Some evs \<and> EPOLLIN \<in> evs)"
proof -
  let ?ep = "upd_client h (\<lambda>c. c\<lparr>data := Null\<rparr>) ep"
  let ?w = "w\<lparr>w_interest := (w_interest w)(h \<mapsto> {EPOLLIN} \<union> {EPOLLERR, EPOLLHUP, EPOLLRDHUP})\<rparr>"
  have ix: "hi_get_helper_index ep h = int i"
    unfolding hi_get_helper_index_def find_helper_Some using c [of k] by (auto simp: a_conn_def)
  have hc: "hi_client (helper_info ep ! i) = Some d" using b [of k] by (simp add: a_bound_def)
  have "ed_epoll_set E h {EPOLLIN} Null ep w = (0, ?ep, ?w)"
    using c [of k] ok by (intro ed_epoll_set_ok) (simp_all add: a_conn_def)
  then have "a_out E A h (ep, k, w) = Inr (?ep, k, ?w)"
    using c [of k] dat ix hc
    by (simp add: a_out_def a_conn_def out_event_def ed_reader_callback_def reader_out_def Let_def)
  moreover have hs: "helper_info ?ep = helper_info ep" "helpers_inuse ?ep = helpers_inuse ep"
    by (simp_all add: upd_client_def)
  have dh: "d \<noteq> h" using c [of k] by (simp add: a_conn_def)
  have cf: "client_fd (ed_clients ?ep x) = client_fd (ed_clients ep x)" for x by simp
  have "a_conn d h i p STATUS_MAP_REQUESTED (?ep, k', ?w)" for k'
    using c [of k'] unfolding a_conn_def prod.case hs cf by (auto simp: req_of_def)
  moreover have "a_bound d i key sz (?ep, k', ?w)" "a_clear d (?ep, k', ?w)" for k'
    using b [of k'] cl [of k'] dh unfolding a_bound_def a_clear_def prod.case hs by (auto simp: req_of_def)
  ultimately show ?thesis using hs by (intro exI [of _ ?ep] exI [of _ ?w]) auto
qed

text \<open>Step four: the helper fills the segment and its reply arrives.\<close>

lemma a_reply:
  assumes c: "a_conn d h i p STATUS_MAP_REQUESTED (ep, k, w)" and b: "a_bound d i key (int (length (f_data f))) (ep, k, w)"
    and cl: "a_clear d (ep, k, w)" and rq: "k_req k h = [helper_request key (int (length (f_data f))) q @ [NUL]]"
    and f: "e_files E q = Some f" "f_bad f = None" "f_data f \<noteq> []" "int (length (f_data f)) \<le> INT_MAX"
    and key: "0 \<le> key" "key \<le> INT_MAX" "k_shm k key = None" and q: "\<forall>c\<in>set q. \<not> isspace c" "no_nul q" "q \<noteq> []"
  shows "\<exists>ep' k'. helper_turn E A True h (ep, k, w) = Inr (ep', k', w)
    \<and> a_conn d h i p STATUS_MAP_REQUESTED (ep', k', w) \<and> a_bound d i key (int (length (f_data f))) (ep', k', w)
    \<and> cstr (buffer (ed_clients ep' d)) = ''done'' \<and> terminated (buffer (ed_clients ep' d))
    \<and> k_shm k' = (k_shm k)(key \<mapsto> f_data f) \<and> helpers_inuse ep' = helpers_inuse ep"
proof -
  let ?k0 = "k\<lparr>k_req := (k_req k)(h := [])\<rparr>"
  let ?k1 = "?k0\<lparr>k_shm := (k_shm k)(key \<mapsto> f_data f)\<rparr>"
  let ?g = "\<lambda>cl. cl\<lparr>buffer := blit (buffer cl) 0 (''done'' @ [NUL]), buf_len := 5\<rparr>"
  let ?ep = "upd_client d ?g ep"
  have sl: "slave_turn E True (helper_request key (int (length (f_data f))) q @ [NUL]) ?k0 =
      Inr (Replied (''done'' @ [NUL]) ?k1)"
    using slave_turn_done [of key q f E ?k0] key q f by simp
  have ix: "hi_get_helper_index ep h = int i"
    unfolding hi_get_helper_index_def find_helper_Some using c by (auto simp: a_conn_def)
  have hc: "hi_client (helper_info ep ! i) = Some d" using b by (simp add: a_bound_def)
  have bl: "length (buffer (ed_clients ep d)) = REQUEST_SIZE" "buf_len (ed_clients ep d) = 0"
    "status (req_of ep d) = STATUS_MAP_REQUESTED"
    using c cl by (simp_all add: a_conn_def a_clear_def)
  have ht: "helper_turn E A True h (ep, k, w) = Inr (upd_client d (\<lambda>cl. cl\<lparr>buffer := blit (buffer cl) (nat (buf_len cl)) (''done'' @ [NUL]),
        buf_len := buf_len cl + 5\<rparr>) ep, ?k1, w)"
    using rq sl c ix hc bl
    by (simp add: helper_turn_def a_conn_def ed_reader_callback_def reader_in_def Let_def)
  also have "upd_client d (\<lambda>cl. cl\<lparr>buffer := blit (buffer cl) (nat (buf_len cl)) (''done'' @ [NUL]), buf_len := buf_len cl + 5\<rparr>) ep = ?ep"
    using bl(2) by (simp add: upd_client_def)
  finally have ht: "helper_turn E A True h (ep, k, w) = Inr (?ep, ?k1, w)" .
  have hs: "helper_info ?ep = helper_info ep" "helpers_inuse ?ep = helpers_inuse ep" by (simp_all add: upd_client_def)
  have buf: "buffer (ed_clients ?ep d) = ''done'' @ NUL # drop 5 (buffer (ed_clients ep d))"
    by (simp add: blit_def eval_nat_numeral)
  have "a_conn d h i p STATUS_MAP_REQUESTED (?ep, ?k1, w)"
    using c bl(1) unfolding a_conn_def prod.case hs by (auto simp: req_of_def split: option.splits)
  moreover have "a_bound d i key (int (length (f_data f))) (?ep, ?k1, w)"
    using b unfolding a_bound_def prod.case hs by (simp add: req_of_def)
  moreover have "cstr (buffer (ed_clients ?ep d)) = ''done''" "terminated (buffer (ed_clients ?ep d))"
    unfolding buf by simp_all
  ultimately show ?thesis using ht hs by auto
qed

text \<open>Step five: the reply is recognised.\<close>

lemma a_mapped:
  assumes c: "a_conn d h i p STATUS_MAP_REQUESTED (ep, k, w)" and b: "a_bound d i key sz (ep, k, w)"
    and dn: "cstr (buffer (ed_clients ep d)) = ''done''" "terminated (buffer (ed_clients ep d))"
  shows "\<exists>ep'. a_out E A d (ep, k, w) = Inr (ep', k, w) \<and> a_conn d h i p STATUS_DATA_WRITING (ep', k, w)
    \<and> a_bound d i key sz (ep', k, w) \<and> helpers_inuse ep' = helpers_inuse ep"
proof -
  let ?ep = "upd_req d (set_status STATUS_DATA_WRITING) ep"
  obtain a where a: "make_file_path (page (req_of ep d)) = Inr a" using make_file_path_ok by blast
  have st: "status (req_of ep d) = STATUS_MAP_REQUESTED" using c by (simp add: a_conn_def)
  have "amped_write_http_response E A d (Page d) ep k w = Inr (0, ?ep, k, w)"
    using a st dn by (simp add: amped_write_http_response_def deref_def amped_map_requested_def strcmp_eq_def Let_def)
  then have "a_out E A d (ep, k, w) = Inr (?ep, k, w)" using a_out_eq [OF c, of E A] by (simp add: set_status_def)
  moreover have hs: "helper_info ?ep = helper_info ep" "helpers_inuse ?ep = helpers_inuse ep"
    by (simp_all add: upd_req_def upd_client_def)
  have "a_conn d h i p STATUS_DATA_WRITING (?ep, k, w)"
    using c by (rule a_conn_status)
  moreover have "a_bound d i key sz (?ep, k, w)"
    using b unfolding a_bound_def prod.case hs by (simp add: set_status_def) (simp add: upd_req_def)
  ultimately show ?thesis using hs by blast
qed

text \<open>Step six: the segment goes to the client, the helper is freed, the connection closed.\<close>

lemma send_chunks_all:
  "w_send_rets w = [] \<Longrightarrow> send_chunks d n shm w = (drop (n * READ_CHUNK_SIZE) shm,
     w\<lparr>w_sent := (w_sent w)(d := w_sent w d @ take (n * READ_CHUNK_SIZE) shm)\<rparr>)"
proof (induction n arbitrary: shm w)
  case (Suc n)
  let ?c = "take READ_CHUNK_SIZE shm" and ?r = "drop READ_CHUNK_SIZE shm"
  let ?w = "w\<lparr>w_sent := (w_sent w)(d := w_sent w d @ ?c)\<rparr>"
  have "send_chunks d (Suc n) shm w = send_chunks d n ?r ?w"
    using Suc.prems by (simp add: write_http_response_data_def send_full)
  also have "\<dots> = (drop (n * READ_CHUNK_SIZE) ?r,
      ?w\<lparr>w_sent := (w_sent ?w)(d := w_sent ?w d @ take (n * READ_CHUNK_SIZE) ?r)\<rparr>)"
    using Suc.prems by (intro Suc.IH) simp
  finally show ?case by (simp add: take_add add.commute fun_upd_def cong: if_cong)
qed simp

lemma a_data:
  assumes c: "a_conn d h i p STATUS_DATA_WRITING (ep, k, w)" and b: "a_bound d i key (int (length seg)) (ep, k, w)"
    and seg: "k_shm k key = Some seg" and rm: "shm_rm_ok A key"
  shows "\<exists>ep' k' w'. a_out E A d (ep, k, w) = Inr (ep', k', w')
    \<and> w_sent w' d = w_sent w d @ seg \<and> w_closed w' = d # w_closed w \<and> w_streams w' = w_streams w
    \<and> w_interest w' d = None \<and> k_shm k' = (k_shm k)(key := None)
    \<and> hi_client (helper_info ep' ! i) = None \<and> helpers_inuse ep' = helpers_inuse ep - 1
    \<and> callback (ed_clients ep' d) = None"
proof -
  obtain a where a: "make_file_path (page (req_of ep d)) = Inr a" using make_file_path_ok by blast
  have st: "status (req_of ep d) = STATUS_DATA_WRITING" and full: "w_send_rets w = []"
    and il: "i < length (helper_info ep)" and cf: "client_fd (ed_clients ep d) = d" and reg: "w_interest w d \<noteq> None"
    using c by (auto simp: a_conn_def)
  have hc: "hi_client (helper_info ep ! i) = Some d" "shm_key (ed_clients ep d) = key"
    "response_size (req_of ep d) = int (length seg)" using b by (auto simp: a_bound_def)
  have oth: "\<not> (case hi_client (helper_info ep ! j) of None \<Rightarrow> False | Some c \<Rightarrow> client_fd (ed_clients ep c) = d)"
    if "j < i" for j
  proof -
    have "case hi_client (helper_info ep ! j) of None \<Rightarrow> True | Some c \<Rightarrow> client_fd (ed_clients ep c) \<noteq> d"
      using c that il by (simp add: a_conn_def)
    then show ?thesis by (simp split: option.splits)
  qed
  have "hi_get_helper_for_fd ep d = int i"
    unfolding hi_get_helper_for_fd_def find_helper_Some using hc(1) cf il oth by simp
  then have ix: "hi_get_helper_for_fd ep (client_fd (ed_clients ep d)) = int i" using cf by simp
  let ?w = "w\<lparr>w_sent := (w_sent w)(d := w_sent w d @ seg)\<rparr>"
  let ?k = "k\<lparr>k_shm := (k_shm k)(key := None)\<rparr>"
  let ?ep = "upd_req d (set_status STATUS_REQUEST_FINISH)
      ((set_helper i None ep)\<lparr>helpers_inuse := helpers_inuse (set_helper i None ep) - 1\<rparr>)"
  let ?m = "length seg div READ_CHUNK_SIZE" and ?q = "length seg mod READ_CHUNK_SIZE"
  have tk: "take (?m * READ_CHUNK_SIZE) seg @ take ?q (drop (?m * READ_CHUNK_SIZE) seg) = seg"
    by (simp flip: take_add)
  have "amped_data A d ep k w = Inr (0, ?ep, ?k, ?w)"
    using hc seg rm ix full tk
    by (simp add: amped_data_def Let_def send_chunks_all write_http_response_data_def send_full del: append_take_drop_id)
  then have resp: "amped_write_http_response E A d (Page d) ep k w = Inr (0, ?ep, ?k, ?w)"
    using a st by (simp add: amped_write_http_response_def deref_def)
  have "status (req_of ?ep d) = STATUS_REQUEST_FINISH" by (simp add: set_status_def)
  then have out: "a_out E A d (ep, k, w) = (let (ep2, w2) = drop_conn E d ?ep ?w in Inr (ep2, ?k, w2))"
    using a_out_eq [OF c, of E A] resp by simp
  have dr: "drop_conn E d ?ep ?w = (upd_client d (\<lambda>c. (clear_client c)\<lparr>client_fd := 0\<rparr>) (?ep\<lparr>fds_used := fds_used ?ep - 1\<rparr>),
      sys_close d (?w\<lparr>w_interest := (w_interest w)(d := None)\<rparr>))"
    using reg by (simp add: drop_conn_def ed_epoll_del_ok)
  show ?thesis unfolding out dr Let_def prod.case
    by (intro exI conjI, rule refl) (use il in \<open>simp_all add: set_helper_def upd_client_def upd_req_def\<close>)
qed

section \<open>The whole way of a page\<close>

text \<open>The first events of a page that can be read: the file is found, the header is sent, and a helper
  is bound to the connection.\<close>

lemma amped_page_started:
  assumes c: "a_conn d h i p STATUS_REQUEST_START (ep, k, w)" and fr: "a_free i (ep, k, w)"
    and f: "static_page p" "e_files E (www_path p) = Some f" "readable_file f"
    and ty: "get_file_type (p @ [NUL]) = Inr ty" and ok: "e_epoll_ok E EPOLL_CTL_MOD h"
  shows "\<exists>ep' w' a. iter_res 2 (a_out E A d) (ep, k, w) = Inr (ep', k, w')
    \<and> a_conn d h i p STATUS_HEADER_WRITTEN (ep', k, w') \<and> a_clear d (ep', k, w')
    \<and> a_bound d i (next_key ep) (int (length (f_data f))) (ep', k, w')
    \<and> data (ed_clients ep' h) = Stack a \<and> cstr a = www_path p \<and> helpers_inuse ep' = helpers_inuse ep + 1
    \<and> w_streams w' = w_streams w \<and> w_closed w' = w_closed w
    \<and> w_sent w' = (w_sent w)(d := w_sent w d @ http_header E ty (int (length (f_data f))) 200 ''OK'')"
proof -
  let ?key = "next_key ep" and ?n = "int (length (f_data f))"
  obtain ep1 w1 where 1: "a_out E A d (ep, k, w) = Inr (ep1, k, w1)" "a_conn d h i p STATUS_FILE_FOUND (ep1, k, w1)"
    "a_free i (ep1, k, w1)" "a_clear d (ep1, k, w1)" "fp (req_of ep1 d) = Some (open_stream f)"
    "w1 = w\<lparr>w_streams := w_streams w + 1\<rparr>" "next_key ep1 = ?key" "helpers_inuse ep1 = helpers_inuse ep"
    using a_find [OF c fr f(1,2)] by blast
  obtain ep2 w2 a where 2: "a_out E A d (ep1, k, w1) = Inr (ep2, k, w2)"
    "a_conn d h i p STATUS_HEADER_WRITTEN (ep2, k, w2)" "a_bound d i ?key ?n (ep2, k, w2)" "a_clear d (ep2, k, w2)"
    "data (ed_clients ep2 h) = Stack a" "cstr a = www_path p" "helpers_inuse ep2 = helpers_inuse ep + 1"
    "w_sent w2 = (w_sent w1)(d := w_sent w1 d @ http_header E ty ?n 200 ''OK'')" "w_streams w2 = w_streams w1 - 1"
    "w_closed w2 = w_closed w1"
    using a_header [OF 1(2-5) f(3) ty ok, of A] 1(7,8) by auto
  have "iter_res 2 (a_out E A d) (ep, k, w) = Inr (ep2, k, w2)" using 1(1) 2(1) by (simp add: numeral_2_eq_2)
  then show ?thesis using 1(6) 2 by auto
qed

text \<open>The events from the request in the helper's hands on: the helper's turn and its reply, and two
  writable events of the connection. The path is the one in the request.\<close>

definition amped_delivery :: "env \<Rightarrow> aenv \<Rightarrow> fd \<Rightarrow> fd \<Rightarrow> astate \<Rightarrow> astate res" where
  "amped_delivery E A d h s = rbind (helper_turn E A True h s) (iter_res 2 (a_out E A d))"

lemma amped_page_delivered:
  assumes c: "a_conn d h i p STATUS_MAP_REQUESTED (ep, k, w)" and b: "a_bound d i key (int (length (f_data f))) (ep, k, w)"
    and cl: "a_clear d (ep, k, w)" and rq: "k_req k h = [helper_request key (int (length (f_data f))) q @ [NUL]]"
    and f: "e_files E q = Some f" "f_bad f = None" "f_data f \<noteq> []" "int (length (f_data f)) \<le> INT_MAX"
    and key: "0 \<le> key" "key \<le> INT_MAX" "k_shm k key = None" and q: "\<forall>c\<in>set q. \<not> isspace c" "no_nul q" "q \<noteq> []"
    and rm: "shm_rm_ok A key"
  shows "\<exists>ep' k' w'. amped_delivery E A d h (ep, k, w) = Inr (ep', k', w')
    \<and> w_sent w' d = w_sent w d @ f_data f \<and> w_closed w' = d # w_closed w \<and> w_streams w' = w_streams w
    \<and> k_shm k' = k_shm k \<and> hi_client (helper_info ep' ! i) = None \<and> helpers_inuse ep' = helpers_inuse ep - 1"
proof -
  let ?n = "int (length (f_data f))"
  from a_reply [OF c b cl rq f key q, of A] obtain ep4 k4 where
    4: "helper_turn E A True h (ep, k, w) = Inr (ep4, k4, w)"
    "a_conn d h i p STATUS_MAP_REQUESTED (ep4, k4, w)" "a_bound d i key ?n (ep4, k4, w)"
    "cstr (buffer (ed_clients ep4 d)) = ''done''" "terminated (buffer (ed_clients ep4 d))"
    "k_shm k4 = (k_shm k)(key \<mapsto> f_data f)" "helpers_inuse ep4 = helpers_inuse ep"
    by blast
  from a_mapped [OF 4(2-5), of E A] obtain ep5 where
    5: "a_out E A d (ep4, k4, w) = Inr (ep5, k4, w)" "a_conn d h i p STATUS_DATA_WRITING (ep5, k4, w)"
    "a_bound d i key ?n (ep5, k4, w)" "helpers_inuse ep5 = helpers_inuse ep4" by blast
  have "k_shm k4 key = Some (f_data f)" using 4(6) by simp
  from a_data [OF 5(2,3) this rm, of E] obtain ep6 k6 w6 where
    6: "a_out E A d (ep5, k4, w) = Inr (ep6, k6, w6)" "w_sent w6 d = w_sent w d @ f_data f"
    "w_closed w6 = d # w_closed w" "w_streams w6 = w_streams w" "k_shm k6 = (k_shm k4)(key := None)"
    "hi_client (helper_info ep6 ! i) = None" "helpers_inuse ep6 = helpers_inuse ep5 - 1" by blast
  have "amped_delivery E A d h (ep, k, w) = Inr (ep6, k6, w6)"
    using 4(1) 5(1) 6(1) by (simp add: amped_delivery_def numeral_2_eq_2)
  moreover have "k_shm k6 = k_shm k" using 6(5) 4(6) key(3) by (auto simp: fun_upd_idem)
  ultimately show ?thesis using 4(7) 5(4) 6 by auto
qed

section \<open>Two ways to stop the server\<close>

text \<open>A client that hangs up while its helper works: the reply finds a cleared client, and the
  assertion on its state fails.\<close>

definition hup_event :: "fd \<Rightarrow> epoll_event" where
  "hup_event d = \<lparr>ev_fd = d, ev_events = {EPOLLRDHUP}, ev_accepts = [], ev_read = None\<rparr>"

definition reply_event :: "fd \<Rightarrow> epoll_event" where
  "reply_event h = \<lparr>ev_fd = h, ev_events = {EPOLLIN}, ev_accepts = [], ev_read = Some (''done'' @ [NUL])\<rparr>"

lemma amped_hangup_aborts:
  assumes c: "a_conn d h i p STATUS_MAP_REQUESTED (ep, k, w)" and b: "a_bound d i key sz (ep, k, w)"
    and more: "1 < fds_used ep"
  shows "amped_dispatch_events E A [hup_event d, reply_event h] ep k w = Inl AssertFail"
proof -
  let ?ep = "upd_client d (\<lambda>c. (clear_client c)\<lparr>client_fd := 0\<rparr>) (ep\<lparr>fds_used := fds_used ep - 1\<rparr>)"
  have reg: "w_interest w d \<noteq> None" using c by (simp add: a_conn_def)
  have dr: "\<exists>w'. drop_conn E d ep w = (?ep, w')" using reg by (simp add: drop_conn_def ed_epoll_del_ok)
  have hs: "helper_info ?ep = helper_info ep" by (simp add: upd_client_def)
  have ix: "hi_get_helper_index ?ep h = int i"
    unfolding hi_get_helper_index_def find_helper_Some hs using c by (auto simp: a_conn_def)
  have hc: "hi_client (helper_info ?ep ! i) = Some d" using b unfolding hs by (simp add: a_bound_def)
  have st: "status (req_of ?ep d) = STATUS_REQUEST_START" by (simp add: req_of_def zero_request_def)
  obtain w' where 1: "amped_dispatch_events E A [hup_event d, reply_event h] ep k w =
      amped_dispatch_events E A [reply_event h] ?ep k w'"
    using dr c by (auto simp: a_conn_def hup_event_def amped_socket_callback_def Let_def)
  show ?thesis unfolding 1
    using c more ix hc st by (simp add: a_conn_def reply_event_def ed_reader_callback_def reader_in_def Let_def)
qed

text \<open>An empty page: the helper cannot make a segment of size zero and exits, and the master
  asserts that a helper never hangs up.\<close>

lemma amped_empty_page_aborts:
  assumes c: "a_conn d h i p STATUS_MAP_REQUESTED (ep, k, w)"
    and rq: "k_req k h = [helper_request key 0 (www_path p) @ [NUL]]"
    and key: "0 \<le> key" "key \<le> INT_MAX" "k_shm k key = None" and sp: "\<forall>c\<in>set (www_path p). \<not> isspace c"
  shows "helper_turn E A room h (ep, k, w) = Inl AssertFail"
proof -
  have nn: "no_nul (www_path p)" using c by (auto simp: a_conn_def www_path_def)
  have "slave_turn E room (helper_request key 0 (www_path p) @ [NUL]) (k\<lparr>k_req := (k_req k)(h := [])\<rparr>) = Inr Exited"
    using slave_turn_empty [of key "www_path p" "k\<lparr>k_req := (k_req k)(h := [])\<rparr>" E room] key sp nn
    by (simp add: www_path_def)
  then show ?thesis
    using rq c by (simp add: helper_turn_def a_conn_def ed_reader_callback_def Let_def)
qed

section \<open>CGI pages stop after one chunk\<close>

text \<open>A connection that copies the output of a CGI program, in the given state.\<close>

definition a_cgi :: "fd \<Rightarrow> status \<Rightarrow> astate \<Rightarrow> bool" where
  "a_cgi d st = (\<lambda>(ep, k, w). 0 \<le> d \<and> d < maxfds ep \<and> 0 < fds_used ep
     \<and> callback (ed_clients ep d) = Some Ed_socket_callback \<and> data (ed_clients ep d) = Page d
     \<and> w_send_rets w = [] \<and> status (req_of ep d) = st)"

lemma a_cgi_out:
  assumes "a_cgi d st (ep, k, w)" and "st = STATUS_CGI_PROC_RUNNING \<or> st = STATUS_CGI_RESPONSE_WRITING"
    and "amped_cgi_response E a d ep w = Inr (rc, ep', w')" and "make_file_path (page (req_of ep d)) = Inr a"
    and "status (req_of ep' d) \<noteq> STATUS_REQUEST_FINISH"
  shows "a_out E A d (ep, k, w) = Inr (ep', k, w')"
  using assms by (auto simp: a_cgi_def a_out_def out_event_def amped_socket_callback_def amped_write_http_response_def deref_def)

lemma a_cgi_stall:
  assumes "a_cgi d STATUS_CGI_RESPONSE_WRITING s"
  shows "iter_res n (a_out E A d) s = Inr s"
proof (induction n)
  case (Suc n)
  obtain ep k w where s: "s = (ep, k, w)" by (cases s) auto
  obtain a where a: "make_file_path (page (req_of ep d)) = Inr a" using make_file_path_ok by blast
  have "amped_cgi_response E a d ep w = Inr (0, ep, w)"
    using assms by (simp add: s a_cgi_def amped_cgi_response_def)
  then have "a_out E A d s = Inr s"
    unfolding s using assms a by (intro a_cgi_out [where a = a]) (auto simp: s a_cgi_def)
  with Suc show ?case by simp
qed simp

lemma amped_cgi_cut:
  assumes c: "a_cgi d STATUS_CGI_PROC_RUNNING (ep, k, w)"
    and st: "fp (req_of ep d) = Some st" "s_bad st = None" "\<not> s_eof st" "\<not> s_err st"
    and long: "READ_CHUNK_SIZE \<le> length (s_rest st)"
  shows "\<exists>ep' w'. iter_res (Suc n) (a_out E A d) (ep, k, w) = Inr (ep', k, w')
    \<and> w_sent w' d = w_sent w d @ take READ_CHUNK_SIZE (s_rest st)
    \<and> w_closed w' = w_closed w \<and> w_streams w' = w_streams w"
proof -
  obtain a where a: "make_file_path (page (req_of ep d)) = Inr a" using make_file_path_ok by blast
  let ?w = "w\<lparr>w_sent := (w_sent w)(d := w_sent w d @ take READ_CHUNK_SIZE (s_rest st))\<rparr>"
  let ?ep = "upd_req d (\<lambda>r. r\<lparr>status := STATUS_CGI_RESPONSE_WRITING,
      fp := Some (st\<lparr>s_rest := drop READ_CHUNK_SIZE (s_rest st), s_eof := False\<rparr>)\<rparr>) ep"
  have "amped_cgi_response E a d ep w = Inr (0, ?ep, ?w)"
    using c st long
    by (simp add: a_cgi_def amped_cgi_response_def cgi_copy_def fread_good write_http_response_data_def send_full)
  then have o: "a_out E A d (ep, k, w) = Inr (?ep, k, ?w)"
    using c a by (intro a_cgi_out [where a = a]) auto
  have "a_cgi d STATUS_CGI_RESPONSE_WRITING (?ep, k, ?w)" using c by (simp add: a_cgi_def)
  from a_cgi_stall [OF this, of n E A] o show ?thesis by simp
qed

end
