(* ===== verification/Examples.thy ===== *)
theory Examples
  imports Sped_Main Plugins Fastcgi_Threads Mt_Correct Sbuf_Threads Amped_Serve
begin

text \<open>
  Concrete data: a document root with one page and one CGI program, a kernel that grants every
  call, and the three servers with one connection on descriptor 5. The properties are applied
  to them, which shows that their hypotheses can hold together.
\<close>

section \<open>The operating system\<close>

definition text_file :: "string \<Rightarrow> filedata" where
  "text_file s = \<lparr>f_data = s, f_seek_ok = True, f_tell_ok = True, f_bad = None\<rparr>"

definition demo_config :: "(int \<times> string) list" where
  "demo_config = [(2, ''sumnumbers''), (1, ''hello'')]"

definition demo_env :: env where
  "demo_env = \<lparr>
     e_files = (\<lambda>path.
       if path = ''www/a.html'' then Some (text_file ''hello'')
       else if path = ''www/cgi-bin/x'' then Some (text_file ''#!'')
       else if path = ''fastcgi.config'' then Some (text_file (config_text demo_config))
       else None),
     e_exec = (\<lambda>argv envp. Some (text_file ''out'')),
     e_date = ''now'', e_regex_ok = True, e_fcntl_get = (\<lambda>_. 0), e_fcntl_set = (\<lambda>_. 0), e_errno = 1,
     e_epoll_ok = (\<lambda>_ _. True), e_socket = 9, e_connect = (\<lambda>addr port. addr \<noteq> INADDR_NONE),
     e_fcgi_send = (\<lambda>s. int (length s)), e_fcgi_reply = (\<lambda>_. [''ok''])\<rparr>"

definition demo_world :: world where
  "demo_world = \<lparr>w_sent = (\<lambda>_. []), w_send_rets = [],
     w_interest = (\<lambda>d. if d = 4 \<or> d = 5 \<or> d = 7 then Some {EPOLLOUT} else None),
     w_open = {4, 5, 7}, w_closed = [], w_streams = 0, w_socks = 0\<rparr>"

definition boot_world :: world where
  "boot_world = \<lparr>w_sent = (\<lambda>_. []), w_send_rets = [], w_interest = (\<lambda>_. None),
     w_open = {}, w_closed = [], w_streams = 0, w_socks = 0\<rparr>"

definition demo_startup :: startup where
  "demo_startup = \<lparr>su_signal_ok = True,
     su_addrs = Some [\<lparr>ai_sock = 4, ai_reuse_ok = True, ai_bind_ok = True\<rparr>], su_listen_ok = True\<rparr>"

lemma demo_files [simp]:
  "e_files demo_env ''www/a.html'' = Some (text_file ''hello'')"
  "e_files demo_env ''www/b.html'' = None"
  "e_files demo_env ''www/cgi-bin/x'' = Some (text_file ''#!'')"
  "e_files demo_env ''fastcgi.config'' = Some (text_file (config_text demo_config))"
  by (simp_all add: demo_env_def)

lemma demo_env_simps [simp]:
  "e_exec demo_env argv envp = Some (text_file ''out'')" "e_regex_ok demo_env" "e_errno demo_env = 1"
  "e_epoll_ok demo_env oper d" "e_socket demo_env = 9" "e_fcntl_get demo_env d = 0" "e_fcntl_set demo_env d = 0"
  "e_connect demo_env a n \<longleftrightarrow> a \<noteq> INADDR_NONE" "e_fcgi_send demo_env s = int (length s)"
  by (simp_all add: demo_env_def)

lemma text_file_simps [simp]:
  "f_data (text_file s) = s" "f_bad (text_file s) = None" "length s < 2 ^ 31 \<Longrightarrow> readable_file (text_file s)"
  by (simp_all add: text_file_def readable_file_def)

lemma demo_paths [simp]:
  "www_path ''/a.html'' = ''www/a.html''" "www_path ''/b.html'' = ''www/b.html''"
  "www_path ''/cgi-bin/x?q'' = ''www/cgi-bin/x?q''"
  "static_page ''/a.html''" "static_page ''/b.html''" "strncmp_eq ''/cgi-bin/x?q'' ''/cgi-bin/'' 9"
  by (simp_all add: www_path_def static_page_def strncmp_eq_def)

lemma demo_type: "get_file_type (''/a.html'' @ [NUL]) = Inr ''text/html''"
  by (simp add: get_file_type_def strstr_def)

lemma demo_query: "split_query ''www/cgi-bin/x?q'' = (''www/cgi-bin/x'', ''q'')"
  using split_query_text [of "''www/cgi-bin/x''" "''q''"] by simp

lemma boot_simps [simp]: "boot boot_world" "w_interest boot_world d = None" "w_open boot_world = {}"
  by (simp_all add: boot_def boot_world_def)

lemma demo_world_simps [simp]:
  "w_sent demo_world d = []" "w_send_rets demo_world = []" "w_closed demo_world = []" "w_streams demo_world = 0"
  "w_interest demo_world 4 = Some {EPOLLOUT}" "w_interest demo_world 5 = Some {EPOLLOUT}"
  "w_interest demo_world 7 = Some {EPOLLOUT}"
  by (simp_all add: demo_world_def)

section \<open>The event-driven servers\<close>

definition demo_req :: "string \<Rightarrow> parsed_request" where
  "demo_req p = zero_request\<lparr>page := p @ zeros (MAX_LINE - length p)\<rparr>"

definition demo_client :: "string \<Rightarrow> ed_client" where
  "demo_client p = \<lparr>callback = Some Ed_socket_callback, data = Page 5, client_fd = 5,
     buffer = zeros REQUEST_SIZE, buf_len = 0, buf_parsed_len = 0, http_req = demo_req p\<rparr>"

definition demo_ep :: "string \<Rightarrow> sped" where
  "demo_ep p = \<lparr>maxfds = 65535, epoll_fd = 3, listener_fd = 4, ed_clients = (\<lambda>_. demo_client p), fds_used = 2\<rparr>"

definition zero_client :: ed_client where
  "zero_client = \<lparr>callback = None, data = Null, client_fd = 0, buffer = zeros REQUEST_SIZE,
     buf_len = 0, buf_parsed_len = 0, http_req = zero_request\<rparr>"

definition zero_ep :: sped where
  "zero_ep = \<lparr>maxfds = 0, epoll_fd = 0, listener_fd = 0, ed_clients = (\<lambda>_. zero_client), fds_used = 0\<rparr>"

lemma demo_req_simps [simp]:
  "page (demo_req p) = p @ zeros (MAX_LINE - length p)" "status (demo_req p) = STATUS_REQUEST_START"
  "fp (demo_req p) = None" "cgi_command (demo_req p) = zeros MAX_LINE" "cgi_query_str (demo_req p) = zeros MAX_LINE"
  by (simp_all add: demo_req_def zero_request_def)

lemma demo_req_of [simp]: "req_of (demo_ep p) d = demo_req p"
  by (simp add: req_of_def demo_ep_def demo_client_def)

lemma demo_req_ok: "length p < MAX_LINE \<Longrightarrow> req_ok (demo_req p)"
  by (simp add: req_ok_def)

lemma demo_fresh:
  assumes "no_nul p" "length p < MAX_LINE"
  shows "fresh 5 p (demo_ep p, demo_world)"
  using assms by (simp add: fresh_def serving_def demo_world_def) (simp add: demo_ep_def demo_client_def)

text \<open>A connection that was just accepted.\<close>

definition new_ep :: sped where
  "new_ep = (demo_ep ''/'')\<lparr>ed_clients := (\<lambda>_. zero_client\<lparr>callback := Some Ed_socket_callback\<rparr>)\<rparr>"

lemma new_accepted: "accepted 5 (new_ep, demo_world)"
  by (simp add: accepted_def new_ep_def demo_ep_def zero_client_def demo_world_def)

lemma demo_request_bytes: "request_bytes ''/a.html'' [CR, LF]"
proof -
  have "k \<le> 2 \<Longrightarrow> k = 0 \<or> k = 1 \<or> k = 2" for k :: nat by linarith
  then have "plain_headers [CR, LF]" by (fastforce simp: plain_headers_def numeral_2_eq_2)
  then show ?thesis by (simp add: request_bytes_def request_text_def)
qed

lemma demo_port: "atoi ''8080'' = 8080" "length (show_int 8080) = 4"
  by (simp_all add: atoi_def isspace_def read_nat_def isdigit_def digit_val_def show_int_def show_nat.simps)

lemma demo_main:
  "\<exists>ep w. sped_main demo_env demo_startup [''server'', ''8080''] (Some (\<lambda>_. zero_client)) 3 True zero_ep boot_world =
      Inr (Serving ep w) \<and> w_interest w 4 \<noteq> None"
proof -
  show ?thesis
    by (simp add: sped_main_def demo_port set_signal_handlers_def demo_startup_def ed_epoll_init_def start_server_socket_def
        sys_socket_def setnonblock_def ed_epoll_add_def epoll_ctl_def zero_ep_def)
qed

text \<open>The multi-process server: connection 5, and helper 0 on socket 7, free or at work for a client.\<close>

definition demo_aclient :: "string \<Rightarrow> status \<Rightarrow> amped_client" where
  "demo_aclient p st = \<lparr>callback = Some Ed_socket_callback, data = Page 5, client_fd = 5,
     buffer = zeros REQUEST_SIZE, buf_len = 0, buf_parsed_len = 0,
     http_req = (demo_req p)\<lparr>status := st\<rparr>, shm_key = 1, shm_id = 0\<rparr>"

definition demo_amped :: "string \<Rightarrow> status \<Rightarrow> fd option \<Rightarrow> amped" where
  "demo_amped p st c = \<lparr>maxfds = 65535, epoll_fd = 3, listener_fd = 4,
     ed_clients = (\<lambda>d. if d = 7 then (demo_aclient [] STATUS_REQUEST_START)\<lparr>callback := Some Ed_reader_callback, client_fd := 7\<rparr>
                       else demo_aclient p st),
     fds_used = 3, helpers_inuse = (if c = None then 0 else 1),
     helper_info = map (\<lambda>i. \<lparr>hi_fd = 7 + int i, hi_client = if i = 0 then c else None\<rparr>) [0..<128],
     next_key = 1\<rparr>"

definition demo_aenv :: aenv where
  "demo_aenv = \<lparr>stale = (\<lambda>s. s), helper_takes = (\<lambda>_ _. True), shm_rm_ok = (\<lambda>_. True)\<rparr>"

definition demo_ipc :: ipc where
  "demo_ipc = \<lparr>k_shm = (\<lambda>_. None), k_req = (\<lambda>_. [])\<rparr>"

lemma demo_aconn:
  assumes "no_nul p" "length p < MAX_LINE"
  shows "a_conn 5 7 0 p st (demo_amped p st c, k, demo_world)"
  using assms by (simp add: a_conn_def req_of_def) (simp add: demo_amped_def demo_aclient_def)

lemma demo_amped_simps [simp]:
  "next_key (demo_amped p st c) = 1" "fds_used (demo_amped p st c) = 3"
  "k_req demo_ipc h = []" "k_shm demo_ipc key = None"
  by (simp_all add: demo_amped_def demo_ipc_def)

lemma demo_afree: "a_free 0 (demo_amped p st None, k, w)"
  by (simp add: a_free_def demo_amped_def)

lemma demo_abound: "a_bound 5 0 1 0 (demo_amped p st (Some 5), k, w)"
  by (simp add: a_bound_def demo_amped_def demo_aclient_def req_of_def demo_req_def zero_request_def)

lemma demo_ahelpers: "helpers_ok (demo_amped p st (Some 5))"
proof -
  have "busy (map (\<lambda>i. \<lparr>hi_fd = 7 + int i, hi_client = if i = 0 then Some 5 else None\<rparr>) [0..<128]) = {0}"
    by (auto simp: busy_def split: if_splits)
  then show ?thesis by (simp add: helpers_ok_def demo_amped_def)
qed

text \<open>A connection whose helper has been asked for a file of five bytes.\<close>

definition demo_asked :: "amped" where
  "demo_asked = upd_req 5 (\<lambda>r. r\<lparr>response_size := 5\<rparr>) (demo_amped ''/a.html'' STATUS_MAP_REQUESTED (Some 5))"

definition demo_asked_ipc :: ipc where
  "demo_asked_ipc = demo_ipc\<lparr>k_req := (\<lambda>_. [])(7 := [helper_request 1 5 ''www/a.html'' @ [NUL]])\<rparr>"

lemma demo_asked_ok:
  "a_conn 5 7 0 ''/a.html'' STATUS_MAP_REQUESTED (demo_asked, k, demo_world)"
  "a_bound 5 0 1 5 (demo_asked, k, demo_world)" "a_clear 5 (demo_asked, k, demo_world)"
  "k_req demo_asked_ipc 7 = [helper_request 1 5 ''www/a.html'' @ [NUL]]" "k_shm demo_asked_ipc key = None"
proof -
  have c: "a_conn 5 7 0 ''/a.html'' STATUS_MAP_REQUESTED (demo_amped ''/a.html'' STATUS_MAP_REQUESTED (Some 5), k, demo_world)"
    by (rule demo_aconn) simp_all
  have hs: "helper_info demo_asked = helper_info (demo_amped ''/a.html'' STATUS_MAP_REQUESTED (Some 5))"
    by (simp add: demo_asked_def upd_req_def upd_client_def)
  show "a_conn 5 7 0 ''/a.html'' STATUS_MAP_REQUESTED (demo_asked, k, demo_world)"
    using c unfolding a_conn_def prod.case hs by (auto simp: demo_asked_def split: option.splits)
  show "a_bound 5 0 1 5 (demo_asked, k, demo_world)"
    using demo_abound [of "''/a.html''" STATUS_MAP_REQUESTED k demo_world] unfolding a_bound_def prod.case hs
    by (simp add: demo_asked_def) (simp add: upd_req_def)
  show "a_clear 5 (demo_asked, k, demo_world)"
    by (simp add: a_clear_def demo_asked_def) (simp add: demo_amped_def demo_aclient_def)
  show "k_req demo_asked_ipc 7 = [helper_request 1 5 ''www/a.html'' @ [NUL]]" "k_shm demo_asked_ipc key = None"
    by (simp_all add: demo_asked_ipc_def)
qed

definition demo_start :: "slave_start list" where
  "demo_start = map (\<lambda>i. \<lparr>ss_pair = Some (100 + 2 * int i, 101 + 2 * int i), ss_fork_ok = True\<rparr>) [0..<128]"

lemma start_helpers_open:
  assumes "x \<notin> w_open w" and "\<forall>ss\<in>set sss. \<forall>a b. ss_pair ss = Some (a, b) \<longrightarrow> x \<noteq> a \<and> x \<noteq> b"
  shows "x \<notin> w_open (snd (start_helpers E sss i ep w))"
  using assms
proof (induction sss arbitrary: i ep w)
  case (Cons ss sss)
  obtain d w1 where c: "create_generic_slave ss w = (d, w1)" by fastforce
  then have "x \<notin> w_open w1"
    using Cons.prems by (auto simp: create_generic_slave_def Let_def split: option.splits if_splits)
  moreover have "w_open (snd (snd (ed_epoll_add E d cb x' (ep' :: amped) w1))) = w_open w1" for cb x' ep'
    by (simp add: ed_epoll_add_def epoll_ctl_def)
  ultimately show ?case using Cons by (simp add: c split_beta Let_def)
qed simp

lemma demo_amped_main:
  "\<exists>ep w. amped_main demo_env demo_startup [''server'', ''8080''] demo_start (Some (\<lambda>_. demo_aclient [] STATUS_REQUEST_START)) 3 True
      (Some (replicate 128 \<lparr>hi_fd = 0, hi_client = None\<rparr>)) (demo_amped [] STATUS_REQUEST_START None) boot_world =
      Inr (Some (ep, w))"
proof -
  obtain ep1 where i: "amped_epoll_init demo_env (Some (\<lambda>_. demo_aclient [] STATUS_REQUEST_START)) 3 True
      (Some (replicate 128 \<lparr>hi_fd = 0, hi_client = None\<rparr>)) (demo_amped [] STATUS_REQUEST_START None) MAX_ED_EVENTS = (0, ep1)"
    by (simp add: amped_epoll_init_def ed_epoll_init_def)
  obtain ep2 w1 where h: "start_helpers demo_env (take 128 demo_start) 0 ep1 boot_world = (ep2, w1)" by fastforce
  have "4 \<notin> w_open (snd (start_helpers demo_env (take 128 demo_start) 0 ep1 boot_world))"
    by (rule start_helpers_open) (auto simp: demo_start_def)
  then have o: "4 \<notin> w_open w1" by (simp add: h)
  show ?thesis
    by (simp add: amped_main_def demo_port set_signal_handlers_def demo_startup_def i h start_server_socket_def
        sys_socket_def o setnonblock_def split: prod.split)
qed

section \<open>The threaded server\<close>

text \<open>A request that arrives in two segments.\<close>

definition demo_input :: "read_result list" where
  "demo_input = [Data ''GET /a.h'', Eintr, Data (''tml HTTP/1.0'' @ [CR, LF] @ ''Host: x'' @ [CR, LF, CR, LF])]"

lemma demo_input_simps [simp]:
  "good_input demo_input"
  "incoming demo_input = request_line ''/a.html'' @ [LF] @ lines_text [''Host: x'' @ [CR]] @ [CR, LF] @ []"
  by (simp_all add: good_input_def demo_input_def request_line_def lines_text_def)

lemma demo_page_name: "page_name ''/a.html''" "page_of ''/a.html'' = ''/a.html''"
  by (simp_all add: page_name_def page_of_def)

lemma demo_header_lines: "header_lines [''Host: x'' @ [CR]]"
  by (simp add: header_lines_def)

section \<open>The FastCGI server\<close>

definition demo_fcgi :: fcgi where
  "demo_fcgi = \<lparr>apps = [new_app 2 ''sumnumbers''], app_index = - 1, conn_in = (\<lambda>_. []), stdout_fd = Terminal,
     stdout_buf = [], terminal = []\<rparr>"

definition demo_conn :: "string \<Rightarrow> string \<Rightarrow> fcgi_conn" where
  "demo_conn command query = \<lparr>fc_fd = 5, fc_in = [fcgi_request command query], fc_lock_ok = True\<rparr>"

lemma demo_fcgi_simps [simp]:
  "fcgi_inv demo_fcgi" "stdout_fd demo_fcgi = Terminal" "apps demo_fcgi = [new_app 2 ''sumnumbers'']" "app_index demo_fcgi = - 1"
  "fc_fd (demo_conn c q) = 5" "fc_in (demo_conn c q) = [fcgi_request c q]" "fc_lock_ok (demo_conn c q)"
  by (simp_all add: demo_fcgi_def fcgi_inv_def demo_conn_def)

lemma replicate_numeral_2: "replicate 2 x = [x, x]"
  by (simp add: numeral_2_eq_2)

lemma cstr_new_app [simp]: "no_nul name \<Longrightarrow> cstr (app_name (new_app tc name)) = name"
  by (simp add: new_app_def)

text \<open>A pool in which a request was just put into the queue.\<close>

lemma demo_pool: "\<exists>s. pool_reach 2 (new_app 2 ''sumnumbers'') s \<and> queued (p_app s) = [9]"
proof -
  let ?a = "new_app 2 ''sumnumbers''"
  have not_full: "\<not> is_queue_full ?a" by (simp add: new_app_def)
  obtain a' where a': "put_request 9 ?a = Some a'" "queued a' = [9]"
    using put_request_ok [OF queue_inv_new_app(1) not_full] by (metis append_Nil queue_inv_new_app(2))
  let ?s1 = "(pool_init ?a)\<lparr>p_acc := A_lock 9\<rparr>"
  let ?s2 = "?s1\<lparr>p_acc := A_put 9, p_mutex := Some Acceptor\<rparr>"
  let ?s3 = "?s2\<lparr>p_acc := A_signal, p_app := a', p_put := p_put ?s2 @ [9]\<rparr>"
  have "pool_reach 2 ?a ?s1"
    by (rule pool_reach.step [OF pool_reach.init], rule acc_accept) (simp add: pool_init_def)
  then have "pool_reach 2 ?a ?s2"
    by (rule pool_reach.step, intro acc_lock) (simp_all add: pool_init_def)
  then have "pool_reach 2 ?a ?s3"
    by (rule pool_reach.step, intro acc_put) (simp_all add: pool_init_def a')
  with a' show ?thesis by (intro exI [of _ ?s3]) simp
qed

text \<open>A threaded server that has just stored a connection.\<close>

lemma demo_mt_main:
  "\<exists>d w. mt_main demo_startup [''server'', ''8080''] True boot_world = Inr (Mt_serving d (mt_init 65535) w)"
  by (simp add: mt_main_def demo_port set_signal_handlers_def demo_startup_def start_server_socket_def sys_socket_def)

lemma demo_mt: "\<exists>s. (mt_step 64)\<^sup>*\<^sup>* (mt_init 65535) s \<and> m_put s = [9]"
proof -
  let ?s0 = "mt_init 65535"
  let ?s1 = "?s0\<lparr>m_main := I_slots 9\<rparr>"
  let ?s2 = "?s1\<lparr>m_main := I_mutex 9, m_sb := (m_sb ?s1)\<lparr>sb_slots := sb_slots (m_sb ?s1) - 1\<rparr>\<rparr>"
  let ?s3 = "?s2\<lparr>m_main := I_store 9, m_sb := (m_sb ?s2)\<lparr>sb_mutex := sb_mutex (m_sb ?s2) - 1\<rparr>\<rparr>"
  have "mt_step 64 ?s0 ?s1" by (rule accept) (simp_all add: mt_init_def)
  moreover have "mt_step 64 ?s1 ?s2" by (intro p_slots) (simp_all add: mt_init_def sbuf_init_def)
  moreover have "mt_step 64 ?s2 ?s3" by (intro p_mutex) (simp_all add: mt_init_def sbuf_init_def)
  ultimately have r: "(mt_step 64)\<^sup>*\<^sup>* ?s0 ?s3" by (meson r_into_rtranclp rtranclp_trans)
  obtain sp where sp: "sb_store 9 (m_sb ?s3) = Inr sp" by (simp add: sb_store_def mt_init_def sbuf_init_def)
  let ?s4 = "?s3\<lparr>m_main := I_unlock, m_sb := sp, m_put := m_put ?s3 @ [9]\<rparr>"
  have "mt_step 64 ?s3 ?s4" using sp by (intro store) simp_all
  with r have "(mt_step 64)\<^sup>*\<^sup>* ?s0 ?s4" by (rule rtranclp.rtrancl_into_rtrancl)
  then show ?thesis by (intro exI [of _ ?s4]) (simp add: mt_init_def)
qed

text \<open>The FastCGI client on a page with a query.\<close>

lemma demo_fastcgi:
  "split_query (drop 13 (page (demo_req ''/fastcgi-bin/hello?x''))) = (''hello'', ''x'')"
  "inet_addr ''127.0.0.1'' \<noteq> INADDR_NONE" "e_fcgi_reply demo_env q = [''ok'']"
proof -
  show "split_query (drop 13 (page (demo_req ''/fastcgi-bin/hello?x''))) = (''hello'', ''x'')"
    by (simp add: split_query_def strchr_def)
  show "inet_addr ''127.0.0.1'' \<noteq> INADDR_NONE"
    by (simp add: inet_addr_def octet_def isdigit_def read_nat_def digit_val_def INADDR_NONE_def)
  show "e_fcgi_reply demo_env q = [''ok'']" by (simp add: demo_env_def)
qed

text \<open>A FastCGI server whose only queue is full.\<close>

definition full_fcgi :: fcgi where
  "full_fcgi = demo_fcgi\<lparr>apps := [(new_app 2 ''sumnumbers'')\<lparr>is_queue_full := True\<rparr>]\<rparr>"

lemma demo_full: "fcgi_inv full_fcgi" "apps full_fcgi = [(new_app 2 ''sumnumbers'')\<lparr>is_queue_full := True\<rparr>]"
  "queue_len ((new_app 2 ''sumnumbers'')\<lparr>is_queue_full := True\<rparr>) = 64"
  "cstr (app_name ((new_app 2 ''sumnumbers'')\<lparr>is_queue_full := True\<rparr>)) = ''sumnumbers''"
  by (simp_all add: full_fcgi_def demo_fcgi_def fcgi_inv_def queue_inv_def new_app_def queue_len_def)

text \<open>A connection of the multi-process server that copies the output of a CGI program.\<close>

definition demo_acgi :: amped where
  "demo_acgi = upd_req 5 (\<lambda>r. r\<lparr>fp := Some (open_stream (text_file (replicate 2000 (CHR ''a''))))\<rparr>)
     (demo_amped ''/cgi-bin/x'' STATUS_CGI_PROC_RUNNING None)"

lemma demo_acgi_ok:
  "a_cgi 5 STATUS_CGI_PROC_RUNNING (demo_acgi, k, demo_world)"
  "fp (req_of demo_acgi 5) = Some (open_stream (text_file (replicate 2000 (CHR ''a''))))"
  by (simp_all add: a_cgi_def demo_acgi_def) (simp_all add: demo_amped_def demo_aclient_def req_of_def)

end
