(* ===== verification/Userver_Queue.thy ===== *)
theory Userver_Queue
  imports Bounded_Fifo
begin

text \<open>
  The queue of \<open>userver-0.9.0/queue.c\<close> and \<open>queue.h\<close>, in which that server keeps the idle
  FastCGI sockets and the requests that wait for one: a ring with one place more than its
  capacity, and an insertion at the front besides the usual two operations. The assertions of
  the code are branches of the model; they never fail on a well-formed queue, and every sequence
  of calls returns what the same calls on a bounded list return.
\<close>

record uqueue =
  uq_arraysize :: nat
  uq_head :: nat
  uq_tail :: nat
  uq_elements :: int
  uq_data :: "int list"

definition SIZE_MAX1 :: nat where "SIZE_MAX1 = 2 ^ 64"

text \<open>\<open>alloc_queue\<close>: \<open>mem\<close> is the memory for the data (its contents are arbitrary), \<open>None\<close>
  when there is none; the addition is one of \<open>size_t\<close>, and a size that the \<open>int\<close> field
  cannot hold is a fault.\<close>

definition alloc_queue :: "(nat \<Rightarrow> int list option) \<Rightarrow> nat \<Rightarrow> uqueue option res" where
  "alloc_queue mem maxsize =
     (let arraysize = (maxsize + 1) mod SIZE_MAX1 in
      if arraysize = 0 then Inl AssertFail
      else if INT_MAX < int arraysize then Inl IntOverflow
      else Inr (map_option (\<lambda>d. \<lparr>uq_arraysize = arraysize, uq_head = 0, uq_tail = 0, uq_elements = 0,
             uq_data = d\<rparr>) (mem arraysize)))"

definition queue_size :: "uqueue \<Rightarrow> int res" where
  "queue_size q =
     (let tmp = int (uq_tail q) - int (uq_head q);
          size = (if 0 \<le> tmp then tmp else tmp + int (uq_arraysize q)) in
      if uq_elements q = size then Inr size else Inl AssertFail)"

text \<open>\<open>assert (q->elements == queue_size (q))\<close>\<close>

definition assert_size :: "uqueue \<Rightarrow> 'a \<Rightarrow> ('a \<times> uqueue) res" where
  "assert_size q v = rbind (queue_size q) (\<lambda>n. if uq_elements q = n then Inr (v, q) else Inl AssertFail)"

definition queue_put :: "uqueue \<Rightarrow> int \<Rightarrow> (int \<times> uqueue) res" where
  "queue_put q v =
     (let newtail = (uq_tail q + 1) mod uq_arraysize q in
      if newtail = uq_head q then Inr (- 1, q)
      else if length (uq_data q) \<le> uq_tail q then Inl BufferOverflow
      else assert_size (q\<lparr>uq_data := (uq_data q)[uq_tail q := v], uq_tail := newtail,
                          uq_elements := uq_elements q + 1\<rparr>) 0)"

definition queue_push :: "uqueue \<Rightarrow> int \<Rightarrow> (int \<times> uqueue) res" where
  "queue_push q v =
     (let newhead = (if uq_head q = 0 then uq_arraysize q - 1 else uq_head q - 1) in
      if newhead = uq_tail q then Inr (- 1, q)
      else if length (uq_data q) \<le> newhead then Inl BufferOverflow
      else assert_size (q\<lparr>uq_head := newhead, uq_data := (uq_data q)[newhead := v],
                          uq_elements := uq_elements q + 1\<rparr>) 0)"

definition queue_get :: "uqueue \<Rightarrow> (int \<times> uqueue) res" where
  "queue_get q =
     (if uq_head q = uq_tail q then Inr (- 1, q)
      else if length (uq_data q) \<le> uq_head q then Inl OverRead
      else assert_size (q\<lparr>uq_head := (uq_head q + 1) mod uq_arraysize q, uq_elements := uq_elements q - 1\<rparr>)
             (uq_data q ! uq_head q))"

definition queue_peek :: "uqueue \<Rightarrow> (int \<times> uqueue) res" where
  "queue_peek q = (if length (uq_data q) \<le> uq_head q then Inl OverRead else assert_size q (uq_data q ! uq_head q))"

definition queue_maxsize :: "uqueue \<Rightarrow> int" where
  "queue_maxsize q = int (uq_arraysize q) - 1"

definition queue_is_empty :: "uqueue \<Rightarrow> bool res" where
  "queue_is_empty q =
     (let is_empty = (uq_head q = uq_tail q) in
      if is_empty \<and> uq_elements q \<noteq> 0 then Inl AssertFail else Inr is_empty)"

definition queue_is_full :: "uqueue \<Rightarrow> bool res" where
  "queue_is_full q =
     (let is_full = ((uq_tail q + 1) mod uq_arraysize q = uq_head q) in
      if is_full \<and> uq_elements q \<noteq> int (uq_arraysize q) - 1 then Inl AssertFail else Inr is_full)"

section \<open>The invariant and the contents\<close>

definition uq_len :: "uqueue \<Rightarrow> nat" where
  "uq_len q = (uq_tail q + uq_arraysize q - uq_head q) mod uq_arraysize q"

definition uq_contents :: "uqueue \<Rightarrow> int list" where
  "uq_contents q = ring_read (uq_data q) (uq_head q) (uq_len q)"

definition uq_inv :: "uqueue \<Rightarrow> bool" where
  "uq_inv q \<longleftrightarrow> length (uq_data q) = uq_arraysize q \<and> uq_head q < uq_arraysize q \<and> uq_tail q < uq_arraysize q
     \<and> uq_elements q = int (uq_len q)"

definition uq_cap :: "uqueue \<Rightarrow> nat" where
  "uq_cap q = uq_arraysize q - 1"

lemma length_uq_contents [simp]: "length (uq_contents q) = uq_len q"
  by (simp add: uq_contents_def)

lemma uq_len_cases:
  assumes "uq_head q < uq_arraysize q" and "uq_tail q < uq_arraysize q"
  shows "uq_len q = (if uq_head q \<le> uq_tail q then uq_tail q - uq_head q else uq_tail q + uq_arraysize q - uq_head q)"
  using assms by (auto simp: uq_len_def not_le mod_if)

lemma uq_tail_of:
  assumes "uq_head q < uq_arraysize q" and "uq_tail q < uq_arraysize q"
  shows "uq_tail q = (uq_head q + uq_len q) mod uq_arraysize q"
  using assms by (auto simp: uq_len_cases [OF assms] mod_if)

text \<open>The assertions hold.\<close>

lemma queue_size_ok: "uq_inv q \<Longrightarrow> queue_size q = Inr (int (uq_len q))"
  by (auto simp: queue_size_def uq_inv_def uq_len_cases)

lemma assert_size_ok: "uq_inv q \<Longrightarrow> assert_size q v = Inr (v, q)"
  by (simp add: assert_size_def queue_size_ok uq_inv_def)

lemma mod_step: "i < n \<Longrightarrow> (i + 1) mod n = (if i + 1 = n then 0 else i + 1)" for i n :: nat
  by (simp add: mod_if)

lemma uq_full:
  assumes "uq_inv q"
  shows "(uq_tail q + 1) mod uq_arraysize q = uq_head q \<longleftrightarrow> uq_len q = uq_cap q"
    and "(if uq_head q = 0 then uq_arraysize q - 1 else uq_head q - 1) = uq_tail q \<longleftrightarrow> uq_len q = uq_cap q"
proof -
  have b: "uq_head q < uq_arraysize q" "uq_tail q < uq_arraysize q" using assms by (auto simp: uq_inv_def)
  note len = uq_len_cases [OF b]
  show "(uq_tail q + 1) mod uq_arraysize q = uq_head q \<longleftrightarrow> uq_len q = uq_cap q"
    unfolding mod_step [OF b(2)] len uq_cap_def using b by auto
  show "(if uq_head q = 0 then uq_arraysize q - 1 else uq_head q - 1) = uq_tail q \<longleftrightarrow> uq_len q = uq_cap q"
    unfolding len uq_cap_def using b by auto
qed

lemma uq_empty: "uq_inv q \<Longrightarrow> uq_head q = uq_tail q \<longleftrightarrow> uq_len q = 0"
  by (auto simp: uq_len_cases uq_inv_def)

lemma uq_bound: "uq_inv q \<Longrightarrow> uq_len q \<le> uq_cap q"
  by (auto simp: uq_len_cases uq_inv_def uq_cap_def)

section \<open>Behaviour of the operations\<close>

lemma queue_put_ok:
  assumes inv: "uq_inv q" and room: "uq_len q < uq_cap q"
  obtains q' where "queue_put q x = Inr (0, q')" "uq_inv q'" "uq_contents q' = uq_contents q @ [x]"
    "uq_arraysize q' = uq_arraysize q"
proof -
  let ?n = "uq_arraysize q" and ?t = "(uq_tail q + 1) mod uq_arraysize q"
  let ?q = "q\<lparr>uq_data := (uq_data q)[uq_tail q := x], uq_tail := ?t, uq_elements := uq_elements q + 1\<rparr>"
  have b: "uq_head q < ?n" "uq_tail q < ?n" "length (uq_data q) = ?n" using inv by (auto simp: uq_inv_def)
  have nf: "?t \<noteq> uq_head q" using uq_full(1) [OF inv] room by simp
  have l: "uq_len ?q = Suc (uq_len q)"
    using nf b room unfolding uq_len_def uq_cap_def by (auto simp: mod_if split: if_splits)
  then have i: "uq_inv ?q" using inv b by (simp add: uq_inv_def mod_step split: if_splits)
  have "uq_tail q = (uq_head q + uq_len q) mod length (uq_data q)" using uq_tail_of [OF b(1,2)] b(3) by simp
  then have "uq_contents ?q = uq_contents q @ [x]"
    using ring_read_snoc [of "uq_len q" "uq_data q" "uq_head q" x] room b(3) l
    by (simp add: uq_contents_def uq_cap_def)
  moreover have "queue_put q x = Inr (0, ?q)" using nf b assert_size_ok [OF i] by (simp add: queue_put_def)
  ultimately show ?thesis using that [of ?q] i by simp
qed

lemma queue_get_ok:
  assumes inv: "uq_inv q" and ne: "uq_contents q = x # xs"
  obtains q' where "queue_get q = Inr (x, q')" "uq_inv q'" "uq_contents q' = xs" "uq_arraysize q' = uq_arraysize q"
proof -
  let ?n = "uq_arraysize q" and ?h = "(uq_head q + 1) mod uq_arraysize q"
  let ?q = "q\<lparr>uq_head := ?h, uq_elements := uq_elements q - 1\<rparr>"
  have b: "uq_head q < ?n" "uq_tail q < ?n" "length (uq_data q) = ?n" using inv by (auto simp: uq_inv_def)
  have len: "uq_len q = Suc (length xs)" using arg_cong [OF ne, of length] by simp
  then have nz: "uq_head q \<noteq> uq_tail q" using uq_empty [OF inv] by simp
  have l: "uq_len q = Suc (uq_len ?q)"
    using nz b unfolding uq_len_def by (auto simp: mod_if split: if_splits)
  then have i: "uq_inv ?q" using inv b by (simp add: uq_inv_def mod_step split: if_splits)
  have "uq_contents q = uq_data q ! uq_head q # ring_read (uq_data q) (Suc (uq_head q)) (uq_len ?q)"
    using ring_read_Cons [of "uq_data q" "uq_head q" "uq_len ?q"] b l by (simp add: uq_contents_def)
  moreover have "uq_contents ?q = ring_read (uq_data q) (Suc (uq_head q)) (uq_len ?q)"
    using ring_read_mod [of "uq_data q" "Suc (uq_head q)" "uq_len ?q"] b by (simp add: uq_contents_def)
  ultimately have "uq_data q ! uq_head q = x" "uq_contents ?q = xs" using ne by simp_all
  moreover from this(1) have "queue_get q = Inr (x, ?q)" using nz b assert_size_ok [OF i] by (simp add: queue_get_def)
  ultimately show ?thesis using that [of ?q] i by simp
qed

text \<open>Insertion at the front.\<close>

lemma ring_read_front:
  assumes "i < length buf" and "k < length buf"
  shows "ring_read (buf[i := x]) i (Suc k) = x # ring_read buf (Suc i) k"
proof -
  have "ring_read (buf[i := x]) (Suc i) k = ring_read buf (Suc i) k"
  proof (rule nth_equalityI)
    fix j assume "j < length (ring_read (buf[i := x]) (Suc i) k)"
    then have "0 < Suc j" "Suc j < length buf" "j < k" using assms by auto
    from mod_add_neq [OF this(1,2), of i] show "ring_read (buf[i := x]) (Suc i) k ! j = ring_read buf (Suc i) k ! j"
      using \<open>j < k\<close> assms(1) by simp
  qed simp
  then show ?thesis using assms by (simp add: ring_read_Cons)
qed

lemma queue_push_ok:
  assumes inv: "uq_inv q" and room: "uq_len q < uq_cap q"
  obtains q' where "queue_push q x = Inr (0, q')" "uq_inv q'" "uq_contents q' = x # uq_contents q"
    "uq_arraysize q' = uq_arraysize q"
proof -
  let ?n = "uq_arraysize q" and ?h = "if uq_head q = 0 then uq_arraysize q - 1 else uq_head q - 1"
  let ?q = "q\<lparr>uq_head := ?h, uq_data := (uq_data q)[?h := x], uq_elements := uq_elements q + 1\<rparr>"
  have b: "uq_head q < ?n" "uq_tail q < ?n" "length (uq_data q) = ?n" using inv by (auto simp: uq_inv_def)
  have nf: "?h \<noteq> uq_tail q" using uq_full(2) [OF inv] room by simp
  have h: "?h < ?n" "Suc ?h mod ?n = uq_head q" using b by auto
  have l: "uq_len ?q = Suc (uq_len q)"
    using nf b room unfolding uq_len_def uq_cap_def by (auto simp: mod_if split: if_splits)
  then have i: "uq_inv ?q" using inv h(1) by (simp add: uq_inv_def del: if_split_asm split del: if_split)
  have "uq_contents ?q = x # ring_read (uq_data q) (Suc ?h) (uq_len q)"
    using ring_read_front [of ?h "uq_data q" "uq_len q" x] h(1) b(3) room l
    by (simp add: uq_contents_def uq_cap_def split del: if_split)
  also have "ring_read (uq_data q) (Suc ?h) (uq_len q) = uq_contents q"
    using ring_read_mod [of "uq_data q" "Suc ?h" "uq_len q"] h(2) b(3) by (simp add: uq_contents_def split del: if_split)
  finally have "uq_contents ?q = x # uq_contents q" .
  moreover have "queue_push q x = Inr (0, ?q)"
    using nf h(1) b(3) assert_size_ok [OF i] by (simp add: queue_push_def Let_def split del: if_split)
  ultimately show ?thesis using that [of ?q] i by simp
qed

section \<open>Behaviour at the ends\<close>

lemma queue_full_refused:
  assumes "uq_inv q" and "\<not> length (uq_contents q) < uq_cap q"
  shows "queue_push q x = Inr (- 1, q)" and "queue_put q x = Inr (- 1, q)"
proof -
  have l: "uq_len q = uq_cap q" using assms uq_bound [OF assms(1)] by simp
  show "queue_push q x = Inr (- 1, q)"
    using uq_full(2) [OF assms(1)] l by (simp add: queue_push_def Let_def split del: if_split)
  show "queue_put q x = Inr (- 1, q)" using uq_full(1) [OF assms(1)] l by (simp add: queue_put_def)
qed

lemma queue_empty_get:
  assumes "uq_inv q" and "uq_contents q = []"
  shows "queue_get q = Inr (- 1, q)"
  using uq_empty [OF assms(1)] arg_cong [OF assms(2), of length] by (simp add: queue_get_def)

lemma queue_is_empty_ok: "uq_inv q \<Longrightarrow> queue_is_empty q = Inr (uq_contents q = [])"
  using uq_empty [of q] by (auto simp: queue_is_empty_def uq_inv_def Let_def simp flip: length_0_conv)

lemma queue_is_full_ok: "uq_inv q \<Longrightarrow> queue_is_full q = Inr (length (uq_contents q) = uq_cap q)"
  using uq_full(1) [of q] by (auto simp: queue_is_full_def uq_inv_def uq_cap_def)

text \<open>\<open>queue_peek\<close> does not test for the empty queue: there it returns whatever the array holds.\<close>

lemma queue_peek_ok:
  assumes inv: "uq_inv q" and ne: "uq_contents q = x # xs"
  shows "queue_peek q = Inr (x, q)"
proof -
  have b: "uq_head q < uq_arraysize q" "length (uq_data q) = uq_arraysize q" using inv by (auto simp: uq_inv_def)
  have "uq_len q = Suc (length xs)" using arg_cong [OF ne, of length] by simp
  then have "uq_contents q = uq_data q ! uq_head q # ring_read (uq_data q) (Suc (uq_head q)) (length xs)"
    using ring_read_Cons [of "uq_data q" "uq_head q" "length xs"] b by (simp add: uq_contents_def)
  then have "uq_data q ! uq_head q = x" using ne by simp
  then show ?thesis using b assert_size_ok [OF inv] by (simp add: queue_peek_def)
qed

section \<open>Sequences of calls against the bounded list\<close>

text \<open>The calls a client can make, their return values, and the same calls on a list that has
  room for \<open>cap\<close> elements. A failed assertion or an access outside the array is a fault of
  \<open>uq_exec\<close>, not a refusal.\<close>

datatype uq_op = QPut int | QPush int | QGet | QSize | QIsEmpty | QIsFull

definition uq_call :: "uq_op \<Rightarrow> uqueue \<Rightarrow> (int \<times> uqueue) res" where
  "uq_call c q = (case c of
     QPut x \<Rightarrow> queue_put q x
   | QPush x \<Rightarrow> queue_push q x
   | QGet \<Rightarrow> queue_get q
   | QSize \<Rightarrow> rbind (queue_size q) (\<lambda>n. Inr (n, q))
   | QIsEmpty \<Rightarrow> rbind (queue_is_empty q) (\<lambda>b. Inr (of_bool b, q))
   | QIsFull \<Rightarrow> rbind (queue_is_full q) (\<lambda>b. Inr (of_bool b, q)))"

primrec uq_exec :: "uq_op list \<Rightarrow> uqueue \<Rightarrow> (int list \<times> uqueue) res" where
  "uq_exec [] q = Inr ([], q)"
| "uq_exec (c # cs) q =
     rbind (uq_call c q) (\<lambda>(v, q'). rbind (uq_exec cs q') (\<lambda>(vs, q''). Inr (v # vs, q'')))"

fun list_call :: "nat \<Rightarrow> uq_op \<Rightarrow> int list \<Rightarrow> int \<times> int list" where
  "list_call cap (QPut x) xs = (if length xs < cap then (0, xs @ [x]) else (- 1, xs))"
| "list_call cap (QPush x) xs = (if length xs < cap then (0, x # xs) else (- 1, xs))"
| "list_call cap QGet [] = (- 1, [])"
| "list_call cap QGet (x # xs) = (x, xs)"
| "list_call cap QSize xs = (int (length xs), xs)"
| "list_call cap QIsEmpty xs = (of_bool (xs = []), xs)"
| "list_call cap QIsFull xs = (of_bool (length xs = cap), xs)"

primrec list_exec :: "nat \<Rightarrow> uq_op list \<Rightarrow> int list \<Rightarrow> int list \<times> int list" where
  "list_exec cap [] xs = ([], xs)"
| "list_exec cap (c # cs) xs =
     (let (v, xs') = list_call cap c xs; (vs, xs'') = list_exec cap cs xs' in (v # vs, xs''))"

text \<open>Every call refines its list counterpart, and so does every sequence.\<close>

lemma uq_call_refines:
  assumes inv: "uq_inv q"
  shows "\<exists>q'. uq_call c q = Inr (fst (list_call (uq_cap q) c (uq_contents q)), q') \<and> uq_inv q'
    \<and> uq_contents q' = snd (list_call (uq_cap q) c (uq_contents q)) \<and> uq_cap q' = uq_cap q"
proof (cases c)
  case (QPut x)
  show ?thesis
  proof (cases "length (uq_contents q) < uq_cap q")
    case True
    then have "uq_len q < uq_cap q" by simp
    from queue_put_ok [OF inv this, of x] obtain q' where "queue_put q x = Inr (0, q')" "uq_inv q'"
        "uq_contents q' = uq_contents q @ [x]" "uq_arraysize q' = uq_arraysize q" by blast
    then show ?thesis using True QPut by (auto simp: uq_call_def uq_cap_def)
  next
    case False
    then show ?thesis using queue_full_refused(2) [OF inv False, of x] inv QPut by (simp add: uq_call_def)
  qed
next
  case (QPush x)
  show ?thesis
  proof (cases "length (uq_contents q) < uq_cap q")
    case True
    then have "uq_len q < uq_cap q" by simp
    from queue_push_ok [OF inv this, of x] obtain q' where "queue_push q x = Inr (0, q')" "uq_inv q'"
        "uq_contents q' = x # uq_contents q" "uq_arraysize q' = uq_arraysize q" by blast
    then show ?thesis using True QPush by (auto simp: uq_call_def uq_cap_def)
  next
    case False
    then show ?thesis using queue_full_refused(1) [OF inv False, of x] inv QPush by (simp add: uq_call_def)
  qed
next
  case QGet
  show ?thesis
  proof (cases "uq_contents q")
    case Nil
    then show ?thesis using queue_empty_get [OF inv Nil] inv QGet by (simp add: uq_call_def)
  next
    case (Cons x xs)
    from queue_get_ok [OF inv Cons] obtain q' where "queue_get q = Inr (x, q')" "uq_inv q'" "uq_contents q' = xs"
        "uq_arraysize q' = uq_arraysize q" by blast
    then show ?thesis using Cons QGet by (auto simp: uq_call_def uq_cap_def)
  qed
qed (simp_all add: uq_call_def inv queue_size_ok [OF inv] queue_is_empty_ok [OF inv] queue_is_full_ok [OF inv])

lemma uq_exec_refines:
  assumes "uq_inv q"
  shows "\<exists>q'. uq_exec cs q = Inr (fst (list_exec (uq_cap q) cs (uq_contents q)), q') \<and> uq_inv q'
    \<and> uq_contents q' = snd (list_exec (uq_cap q) cs (uq_contents q)) \<and> uq_cap q' = uq_cap q"
  using assms
proof (induction cs arbitrary: q)
  case Nil
  then show ?case by simp
next
  case (Cons c cs)
  from uq_call_refines [OF Cons.prems, of c] obtain q1 where 1:
      "uq_call c q = Inr (fst (list_call (uq_cap q) c (uq_contents q)), q1)" "uq_inv q1"
      "uq_contents q1 = snd (list_call (uq_cap q) c (uq_contents q))" "uq_cap q1 = uq_cap q"
    by blast
  from Cons.IH [OF 1(2)] show ?case
    using 1 by (auto simp: split_beta Let_def)
qed

lemma alloc_queue_inv:
  assumes "alloc_queue mem maxsize = Inr (Some q)" and "\<And>n d. mem n = Some d \<Longrightarrow> length d = n" and "maxsize < SIZE_MAX1"
  shows "uq_inv q \<and> uq_contents q = [] \<and> uq_cap q = maxsize"
proof -
  have "(maxsize + 1) mod SIZE_MAX1 = maxsize + 1"
    using assms(1,3) by (cases "maxsize + 1 = SIZE_MAX1") (auto simp: alloc_queue_def)
  then show ?thesis
    using assms(1,2) by (auto simp: alloc_queue_def Let_def uq_inv_def uq_len_def uq_contents_def uq_cap_def split: if_splits)
qed

end
