(* ===== verification/Userver_Bitmap.thy ===== *)
theory Userver_Bitmap
  imports Prelude
begin

text \<open>
  The allocation bitmap of \<open>userver-0.9.0/bitmap.c\<close> and \<open>bitmap.h\<close>: words of 32 bits, the
  bits past the end of the last word set once and for all, and a count of the free places.
  The search for a free place goes word by word and then by a shifted mask, as in the code; it
  finds the lowest free place. The statistics counters of the server are left out.
\<close>

unbundle bit_operations_syntax

abbreviation (input) WORD_BITS :: nat where "WORD_BITS \<equiv> 32"
abbreviation UINT_MAX :: "32 word" where "UINT_MAX \<equiv> - 1"

record bitmap =
  bm_size :: nat
  bm_num_free :: int
  bm_map_bytes :: nat
  bm_map :: "32 word list"

definition ROUND_UP :: "nat \<Rightarrow> nat \<Rightarrow> nat" where
  "ROUND_UP v n = (if v mod n \<noteq> 0 then v - v mod n + n else v)"

section \<open>Operations\<close>

text \<open>The loop of \<open>bitmap_init\<close>, with \<open>sz\<close> bits left and the pointer at word \<open>i\<close>.\<close>

function bitmap_init_loop :: "nat \<Rightarrow> nat \<Rightarrow> 32 word list \<Rightarrow> 32 word list" where
  "bitmap_init_loop sz i m =
     (if sz = 0 then m
      else if sz < WORD_BITS then m[i := push_bit (sz - 1) (UINT_MAX - 1)]
      else bitmap_init_loop (sz - WORD_BITS) (Suc i) (m[i := 0]))"
  by pat_completeness auto
termination by (relation "measure fst") auto

declare bitmap_init_loop.simps [simp del]

definition bitmap_init :: "bitmap \<Rightarrow> bitmap" where
  "bitmap_init b = b\<lparr>bm_map := bitmap_init_loop (bm_size b) 0 (bm_map b), bm_num_free := int (bm_size b)\<rparr>"

text \<open>\<open>alloc_bitmap\<close>: \<open>mem\<close> gives the words of the map, with arbitrary contents, or \<open>None\<close>; the
  sizes are within \<open>size_t\<close>, and one that the \<open>int\<close> count cannot hold is a fault.\<close>

definition alloc_bitmap :: "(nat \<Rightarrow> 32 word list option) \<Rightarrow> nat \<Rightarrow> bitmap option res" where
  "alloc_bitmap mem sz =
     (if ROUND_UP sz WORD_BITS div 8 = 0 then Inl AssertFail
      else if INT_MAX < int sz then Inl IntOverflow
      else Inr (map_option (\<lambda>m. bitmap_init \<lparr>bm_size = sz, bm_num_free = 0,
                  bm_map_bytes = ROUND_UP sz WORD_BITS div 8, bm_map = m\<rparr>)
             (mem (ROUND_UP sz WORD_BITS div WORD_BITS))))"

text \<open>The inner loop of \<open>bitmap_find_and_set\<close>: the first index whose mask is not set in the word.\<close>

function find_mask :: "nat \<Rightarrow> 32 word \<Rightarrow> 32 word \<Rightarrow> nat \<Rightarrow> (32 word \<times> nat) option" where
  "find_mask sz v msk index =
     (if index < sz then
        (if v AND msk = 0 then Some (msk, index) else find_mask sz v (push_bit 1 msk) (Suc index))
      else None)"
  by pat_completeness auto
termination by (relation "measure (\<lambda>(sz, v, msk, index). sz - index)") auto

declare find_mask.simps [simp del]

text \<open>The outer loop, at word \<open>i\<close> and \<open>index\<close>. The inner loop leaves \<open>index\<close> at \<open>sz\<close> when it
  finds nothing.\<close>

function find_and_set :: "bitmap \<Rightarrow> nat \<Rightarrow> nat \<Rightarrow> (int \<times> bitmap) res" where
  "find_and_set b i index =
     (if index < bm_size b then
        (if length (bm_map b) \<le> i then Inl OverRead
         else if bm_map b ! i \<noteq> UINT_MAX then
           (case find_mask (bm_size b) (bm_map b ! i) 1 index of
              Some (msk, j) \<Rightarrow>
                if bm_num_free b \<le> 0 then Inl AssertFail
                else Inr (int j, b\<lparr>bm_map := (bm_map b)[i := bm_map b ! i OR msk],
                                  bm_num_free := bm_num_free b - 1\<rparr>)
            | None \<Rightarrow> find_and_set b (Suc i) (bm_size b + WORD_BITS))
         else find_and_set b (Suc i) (index + WORD_BITS))
      else if bm_num_free b = 0 then Inr (- 1, b) else Inl AssertFail)"
  by pat_completeness auto
termination by (relation "measure (\<lambda>(b, i, index). bm_size b - index)") auto

declare find_and_set.simps [simp del]

definition bitmap_find_and_set :: "bitmap \<Rightarrow> (int \<times> bitmap) res" where
  "bitmap_find_and_set b = find_and_set b 0 0"

definition bitmap_is_set :: "bitmap \<Rightarrow> int \<Rightarrow> bool res" where
  "bitmap_is_set b index =
     (if index < 0 \<or> int (bm_size b) \<le> index then Inl AssertFail
      else let i = nat index in
        if length (bm_map b) \<le> i div WORD_BITS then Inl OverRead
        else Inr (drop_bit (i mod WORD_BITS) (bm_map b ! (i div WORD_BITS)) AND 1 \<noteq> 0))"

definition bitmap_clear :: "bitmap \<Rightarrow> int \<Rightarrow> bitmap res" where
  "bitmap_clear b index =
     (if index < 0 \<or> int (bm_size b) \<le> index then Inl AssertFail
      else
        let i = nat index; v = bm_map b ! (i div WORD_BITS); msk = push_bit (i mod WORD_BITS) 1 in
        if length (bm_map b) \<le> i div WORD_BITS then Inl OverRead
        else if v AND msk \<noteq> 0 then
          (let b' = b\<lparr>bm_map := (bm_map b)[i div WORD_BITS := v AND NOT msk],
                     bm_num_free := bm_num_free b + 1\<rparr> in
           if 0 < bm_num_free b' \<and> bm_num_free b' \<le> int (bm_size b) then Inr b' else Inl AssertFail)
        else Inr b)"

section \<open>The invariant\<close>

definition bm_bit :: "bitmap \<Rightarrow> nat \<Rightarrow> bool" where
  "bm_bit b i = bit (bm_map b ! (i div WORD_BITS)) (i mod WORD_BITS)"

definition bm_free :: "bitmap \<Rightarrow> nat set" where
  "bm_free b = {i. i < bm_size b \<and> \<not> bm_bit b i}"

definition bm_inv :: "bitmap \<Rightarrow> bool" where
  "bm_inv b \<longleftrightarrow> bm_size b \<le> WORD_BITS * length (bm_map b)
     \<and> (\<forall>i. bm_size b \<le> i \<and> i < WORD_BITS * length (bm_map b) \<longrightarrow> bm_bit b i)
     \<and> bm_num_free b = int (card (bm_free b))"

lemma finite_bm_free [simp]: "finite (bm_free b)"
  by (simp add: bm_free_def)

lemma div_lt: "i < 32 * n \<Longrightarrow> i div 32 < n" for i n :: nat
  by (simp add: less_mult_imp_div_less mult.commute)

section \<open>The search\<close>

lemma find_mask_step:
  assumes "k < WORD_BITS" "base + k < sz"
  shows "find_mask sz v (2 ^ k) (base + k) =
    (if bit v k then find_mask sz v (2 ^ Suc k) (base + Suc k) else Some (2 ^ k, base + k))"
proof -
  have "v AND 2 ^ k = 0 \<longleftrightarrow> \<not> bit v k" by (rule and_exp_eq_0_iff_not_bit)
  moreover have "push_bit 1 (2 ^ k :: 32 word) = 2 ^ Suc k" by (simp add: push_bit_eq_mult)
  ultimately show ?thesis using assms by (subst find_mask.simps) (simp add: mult.commute)
qed

lemma find_mask_finds:
  assumes "k \<le> j" "j < WORD_BITS" "base + j < sz" "\<not> bit v j" "\<forall>i. k \<le> i \<and> i < j \<longrightarrow> bit v i"
  shows "find_mask sz v (2 ^ k) (base + k) = Some (2 ^ j, base + j)"
  using assms
proof (induction "j - k" arbitrary: k)
  case 0
  then show ?case by (simp add: find_mask_step)
next
  case (Suc n)
  then have k: "k < j" by simp
  then have "find_mask sz v (2 ^ Suc k) (base + Suc k) = Some (2 ^ j, base + j)"
    using Suc.hyps(2) Suc.prems by (intro Suc.hyps(1)) auto
  moreover have "bit v k" using Suc.prems(5) k by simp
  ultimately show ?case using find_mask_step [of k base sz v] k Suc.prems by simp
qed

lemma not_full_word:
  fixes v :: "32 word"
  assumes "v \<noteq> UINT_MAX"
  obtains j where "j < WORD_BITS" "\<not> bit v j" "\<forall>i<j. bit v i"
proof -
  from assms have "\<exists>j. j < 32 \<and> \<not> bit v j" by (auto simp: bit_eq_iff bit_minus_1_iff dest: bit_imp_le_length)
  then obtain j where "j < 32 \<and> \<not> bit v j" and "\<forall>i<j. \<not> (i < 32 \<and> \<not> bit v i)"
    using exists_least_iff [of "\<lambda>j. j < 32 \<and> \<not> bit v j"] by blast
  then show ?thesis using that [of j] by (metis less_trans)
qed

text \<open>From word \<open>i\<close> on, when all places before it are taken: the lowest free place, or none.\<close>

lemma find_and_set_spec:
  assumes "bm_inv b" and "\<forall>j<32 * i. bm_bit b j" and "i \<le> length (bm_map b)"
  shows "(bm_free b = {} \<and> find_and_set b i (32 * i) = Inr (- 1, b)) \<or>
    (\<exists>j\<in>bm_free b. (\<forall>k<j. bm_bit b k) \<and> find_and_set b i (32 * i) =
       Inr (int j, b\<lparr>bm_map := (bm_map b)[j div 32 := bm_map b ! (j div 32) OR 2 ^ (j mod 32)],
                    bm_num_free := bm_num_free b - 1\<rparr>))"
  using assms
proof (induction "length (bm_map b) - i" arbitrary: i)
  case 0
  then have "bm_free b = {}" "\<not> 32 * i < bm_size b" by (auto simp: bm_free_def bm_inv_def)
  then show ?case using 0 by (subst find_and_set.simps) (auto simp: bm_inv_def)
next
  case (Suc n)
  show ?case
  proof (cases "32 * i < bm_size b")
    case False
    then have "bm_free b = {}" using Suc.prems(2) by (auto simp: bm_free_def)
    then show ?thesis using False Suc.prems(1) by (subst find_and_set.simps) (auto simp: bm_inv_def)
  next
    case True
    have bits: "bit (bm_map b ! i) k = bm_bit b (32 * i + k)" if "k < 32" for k
      using that by (simp add: bm_bit_def)
    have il: "i < length (bm_map b)" using Suc.hyps(2) by simp
    show ?thesis
    proof (cases "bm_map b ! i = UINT_MAX")
      case full: True
      then have "\<forall>k<32. bm_bit b (32 * i + k)" using bits by (simp add: bit_minus_1_iff)
      then have "\<forall>j<32 * Suc i. bm_bit b j"
        using Suc.prems(2) by (metis add_diff_inverse_nat less_diff_conv2 mult_Suc_right add.commute not_less nat_add_left_cancel_less)
      from Suc.hyps(1) [OF _ Suc.prems(1) this] Suc.hyps(2) full True il show ?thesis
        by (subst find_and_set.simps, subst (3) find_and_set.simps) (simp add: add.commute)
    next
      case nf: False
      obtain k where k: "k < 32" "\<not> bit (bm_map b ! i) k" "\<forall>j<k. bit (bm_map b ! i) j"
        using not_full_word [OF nf] by blast
      have nb: "\<not> bm_bit b (32 * i + k)" using bits k by simp
      have "32 * i + k < 32 * length (bm_map b)" using il k(1) by linarith
      then have lt: "32 * i + k < bm_size b" using nb Suc.prems(1) unfolding bm_inv_def by (meson not_le_imp_less)
      then have mem: "32 * i + k \<in> bm_free b" using nb by (simp add: bm_free_def)
      then have pos: "\<not> bm_num_free b \<le> 0" using Suc.prems(1) by (auto simp: bm_inv_def card_eq_0_iff)
      have "find_mask (bm_size b) (bm_map b ! i) 1 (32 * i) = Some (2 ^ k, 32 * i + k)"
        using find_mask_finds [of 0 k "32 * i" "bm_size b" "bm_map b ! i"] k lt by simp
      then have "find_and_set b i (32 * i) = Inr (int (32 * i + k),
          b\<lparr>bm_map := (bm_map b)[i := bm_map b ! i OR 2 ^ k], bm_num_free := bm_num_free b - 1\<rparr>)"
        using True nf pos il by (subst find_and_set.simps) simp
      moreover have "\<forall>j<32 * i + k. bm_bit b j"
        using Suc.prems(2) k bits by (metis add_diff_inverse_nat less_trans nat_add_left_cancel_less)
      ultimately show ?thesis using mem k(1) by (intro disjI2 bexI [OF _ mem]) simp
    qed
  qed
qed

section \<open>Effect of the operations\<close>

text \<open>Replacing one bit changes the free places by one.\<close>

lemma bm_bit_update:
  assumes j: "j < 32 * length (bm_map b)" and i: "i < 32 * length (bm_map b)"
    and v: "\<And>k. k < 32 \<Longrightarrow> bit v k = (if k = j mod 32 then x else bit (bm_map b ! (j div 32)) k)"
  shows "bm_bit (b\<lparr>bm_map := (bm_map b)[j div 32 := v], bm_num_free := n\<rparr>) i = (if i = j then x else bm_bit b i)"
proof -
  have e: "i = j \<longleftrightarrow> i div 32 = j div 32 \<and> i mod 32 = j mod 32" by (metis div_mult_mod_eq)
  show ?thesis
  proof (cases "i div 32 = j div 32")
    case True
    then show ?thesis using v [of "i mod 32"] div_lt [OF j] by (simp add: bm_bit_def e)
  next
    case False
    then show ?thesis by (simp add: bm_bit_def e)
  qed
qed

lemma bm_update_inv:
  assumes inv: "bm_inv b" and j: "j < bm_size b"
    and v: "\<And>k. k < 32 \<Longrightarrow> bit v k = (if k = j mod 32 then x else bit (bm_map b ! (j div 32)) k)"
    and n: "n = int (card (if x then bm_free b - {j} else insert j (bm_free b)))"
    and b': "b' = b\<lparr>bm_map := (bm_map b)[j div 32 := v], bm_num_free := n\<rparr>"
  shows "bm_inv b' \<and> bm_free b' = (if x then bm_free b - {j} else insert j (bm_free b))"
proof -
  have sz: "bm_size b \<le> 32 * length (bm_map b)" using inv by (simp add: bm_inv_def)
  then have j': "j < 32 * length (bm_map b)" using j by simp
  have bits: "bm_bit b' i = (if i = j then x else bm_bit b i)" if "i < 32 * length (bm_map b)" for i
    unfolding b' using bm_bit_update [OF j' that v] by simp
  have fr: "i \<in> bm_free b' \<longleftrightarrow> i < bm_size b \<and> \<not> (if i = j then x else bm_bit b i)" for i
    using bits [of i] sz by (auto simp: bm_free_def b')
  have "bm_free b' = (if x then bm_free b - {j} else insert j (bm_free b))"
    by (rule set_eqI, unfold fr) (use j in \<open>auto simp: bm_free_def\<close>)
  moreover have "\<forall>i. bm_size b \<le> i \<and> i < 32 * length (bm_map b) \<longrightarrow> bm_bit b' i"
    using inv bits j by (auto simp: bm_inv_def)
  ultimately show ?thesis using inv n by (auto simp: bm_inv_def b')
qed

text \<open>\<open>bitmap_find_and_set\<close> takes the lowest free place, and \<open>-1\<close> means that there is none.\<close>

lemma bitmap_find_and_set_ok:
  assumes "bm_inv b"
  shows "(bm_free b = {} \<and> bitmap_find_and_set b = Inr (- 1, b)) \<or>
    (\<exists>b'. bm_free b \<noteq> {} \<and> bitmap_find_and_set b = Inr (int (Min (bm_free b)), b') \<and> bm_inv b' \<and> bm_size b' = bm_size b
       \<and> bm_free b' = bm_free b - {Min (bm_free b)})"
proof -
  from find_and_set_spec [OF assms, of 0] consider
    (none) "bm_free b = {}" "bitmap_find_and_set b = Inr (- 1, b)"
  | (some) j where "j \<in> bm_free b" "\<forall>k<j. bm_bit b k" "bitmap_find_and_set b =
       Inr (int j, b\<lparr>bm_map := (bm_map b)[j div 32 := bm_map b ! (j div 32) OR 2 ^ (j mod 32)],
                    bm_num_free := bm_num_free b - 1\<rparr>)"
    by (auto simp: bitmap_find_and_set_def)
  then show ?thesis
  proof cases
    case some
    then have m: "Min (bm_free b) = j" by (intro Min_eqI) (auto simp: bm_free_def not_less [symmetric])
    have lt: "j < bm_size b" using some(1) by (simp add: bm_free_def)
    have v: "bit (bm_map b ! (j div 32) OR 2 ^ (j mod 32)) k = (if k = j mod 32 then True else bit (bm_map b ! (j div 32)) k)"
      if "k < 32" for k using that by (auto simp: bit_or_iff bit_exp_iff)
    have "bm_num_free b - 1 = int (card (bm_free b - {j}))"
      using assms some(1) card_Suc_Diff1 [OF finite_bm_free some(1)] by (simp add: bm_inv_def)
    then have n: "bm_num_free b - 1 = int (card (if True then bm_free b - {j} else insert j (bm_free b)))" by simp
    from bm_update_inv [OF assms lt v n refl] some m show ?thesis by auto
  qed simp
qed

text \<open>A place of the bitmap lies in a word of its map.\<close>

lemma bm_word: "bm_inv b \<Longrightarrow> i < bm_size b \<Longrightarrow> i div 32 < length (bm_map b)"
  by (rule div_lt) (simp add: bm_inv_def)

lemma bitmap_clear_ok:
  assumes inv: "bm_inv b" and i: "i < bm_size b"
  shows "\<exists>b'. bitmap_clear b (int i) = Inr b' \<and> bm_inv b' \<and> bm_size b' = bm_size b \<and> bm_free b' = insert i (bm_free b)"
proof (cases "bm_bit b i")
  case False
  then have "bitmap_clear b (int i) = Inr b"
    using i bm_word [OF inv i] by (simp add: bitmap_clear_def Let_def push_bit_eq_mult and_exp_eq_0_iff_not_bit bm_bit_def)
  then show ?thesis using inv i False by (auto simp: bm_free_def)
next
  case True
  let ?v = "bm_map b ! (i div 32) AND NOT (2 ^ (i mod 32))"
  let ?b = "b\<lparr>bm_map := (bm_map b)[i div 32 := ?v], bm_num_free := bm_num_free b + 1\<rparr>"
  have v: "bit ?v k = (if k = i mod 32 then False else bit (bm_map b ! (i div 32)) k)" if "k < 32" for k
    using that by (auto simp: bit_and_iff bit_not_iff bit_exp_iff)
  have nm: "i \<notin> bm_free b" using True by (simp add: bm_free_def)
  then have "bm_num_free b + 1 = int (card (insert i (bm_free b)))" using inv by (simp add: bm_inv_def)
  then have n: "bm_num_free b + 1 = int (card (if False then bm_free b - {i} else insert i (bm_free b)))" by simp
  have e: "bm_inv ?b \<and> bm_free ?b = insert i (bm_free b)"
    using bm_update_inv [OF inv i v n refl] by simp
  have "card (bm_free ?b) \<le> card {..<bm_size b}" by (rule card_mono) (auto simp: bm_free_def)
  then have le: "0 < bm_num_free b + 1 \<and> bm_num_free b + 1 \<le> int (bm_size b)" using e inv by (auto simp: bm_inv_def)
  have "bitmap_clear b (int i) = Inr ?b"
    using i True le bm_word [OF inv i] by (simp add: bitmap_clear_def Let_def push_bit_eq_mult and_exp_eq_0_iff_not_bit bm_bit_def)
  with e show ?thesis by auto
qed

lemma bitmap_is_set_ok: "bm_inv b \<Longrightarrow> i < bm_size b \<Longrightarrow> bitmap_is_set b (int i) = Inr (bm_bit b i)"
  using bm_word [of b i] by (simp add: bitmap_is_set_def bm_bit_def bit_iff_odd_drop_bit and_one_eq odd_iff_mod_2_eq_one)

section \<open>A new bitmap\<close>

lemma bit_last_word: "0 < n \<Longrightarrow> n < 32 \<Longrightarrow> k < 32 \<Longrightarrow> bit (push_bit (n - 1) (UINT_MAX - 1) :: 32 word) k \<longleftrightarrow> n \<le> k"
proof -
  assume "0 < n" "n < 32" "k < 32"
  moreover have "UINT_MAX - 1 = NOT 1" by simp
  ultimately show ?thesis by (auto simp: bit_push_bit_iff bit_not_iff bit_1_iff simp del: not_one_eq)
qed

lemma length_init_loop [simp]: "length (bitmap_init_loop sz i m) = length m"
  by (induction sz i m rule: bitmap_init_loop.induct) (subst bitmap_init_loop.simps, simp)

lemma init_loop_before: "k < i \<Longrightarrow> bitmap_init_loop sz i m ! k = m ! k"
  by (induction sz i m rule: bitmap_init_loop.induct) (subst bitmap_init_loop.simps, simp)

lemma init_loop_bits:
  assumes "32 * i + sz \<le> 32 * length m" "32 * length m < 32 * i + sz + 32" "32 * i \<le> p" "p < 32 * length m"
  shows "bit (bitmap_init_loop sz i m ! (p div 32)) (p mod 32) \<longleftrightarrow> 32 * i + sz \<le> p"
  using assms
proof (induction sz i m rule: bitmap_init_loop.induct)
  case (1 sz i m)
  consider "sz = 0" | "0 < sz" "sz < 32" | "32 \<le> sz" by linarith
  then show ?case
  proof cases
    case 1
    then have "length m \<le> i" using "1.prems"(2) by linarith
    then show ?thesis using "1.prems" by linarith
  next
    case 2
    then have "length m = Suc i" using "1.prems" by linarith
    then have pi: "p div 32 = i" "i < length m" using "1.prems" by auto
    then have "p mod 32 = p - 32 * i" using minus_div_mult_eq_mod [of p 32] by (simp add: mult.commute)
    then show ?thesis using pi 2 "1.prems" bit_last_word [of sz "p mod 32"] by (subst bitmap_init_loop.simps) auto
  next
    case 3
    have e: "bitmap_init_loop sz i m = bitmap_init_loop (sz - 32) (Suc i) (m[i := 0])"
      using 3 by (subst bitmap_init_loop.simps) simp
    show ?thesis
    proof (cases "32 * Suc i \<le> p")
      case True
      then show ?thesis unfolding e using 3 "1.prems" "1.IH" by simp
    next
      case False
      then have "p div 32 = i" "i < length m" using "1.prems" by auto
      then show ?thesis unfolding e using 3 False "1.prems" by (simp add: init_loop_before)
    qed
  qed
qed

lemma round_up_32:
  assumes "0 < n"
  shows "n \<le> 32 * (ROUND_UP n 32 div 32)" "32 * (ROUND_UP n 32 div 32) < n + 32" "ROUND_UP n 32 div 8 \<noteq> 0"
proof -
  have d: "n - n mod 32 = 32 * (n div 32)" by (simp add: minus_mod_eq_mult_div)
  have r: "ROUND_UP n 32 = (if n mod 32 \<noteq> 0 then 32 * (n div 32 + 1) else 32 * (n div 32))"
    unfolding ROUND_UP_def d by auto
  then have q: "32 * (ROUND_UP n 32 div 32) = ROUND_UP n 32" by simp
  have m: "n = 32 * (n div 32) + n mod 32" "n mod 32 < 32" by simp_all
  show "n \<le> 32 * (ROUND_UP n 32 div 32)" unfolding q unfolding r using m by (auto split: if_split)
  show "32 * (ROUND_UP n 32 div 32) < n + 32"
  proof (cases "n mod 32 = 0")
    case False
    then have "32 * (n div 32) < n" using m(1) by linarith
    then show ?thesis unfolding q unfolding r using False by simp
  qed (simp add: q r)
  have "32 \<le> ROUND_UP n 32" unfolding r using m assms by (cases "n div 32") auto
  then show "ROUND_UP n 32 div 8 \<noteq> 0" by simp
qed

lemma alloc_bitmap_ok:
  assumes "0 < sz" and "int sz \<le> INT_MAX" and "mem (ROUND_UP sz 32 div 32) = Some m" and "length m = ROUND_UP sz 32 div 32"
  shows "\<exists>b. alloc_bitmap mem sz = Inr (Some b) \<and> bm_inv b \<and> bm_free b = {..<sz} \<and> bm_size b = sz"
proof -
  have r: "sz \<le> 32 * length m" "32 * length m < sz + 32" "ROUND_UP sz 32 div 8 \<noteq> 0"
    using assms(1) unfolding assms(4) by (simp_all add: round_up_32)
  let ?b = "\<lparr>bm_size = sz, bm_num_free = int sz, bm_map_bytes = ROUND_UP sz 32 div 8, bm_map = bitmap_init_loop sz 0 m\<rparr>"
  have "bm_bit ?b p \<longleftrightarrow> sz \<le> p" if "p < 32 * length m" for p
    using init_loop_bits [of 0 sz m p] r that by (simp add: bm_bit_def)
  then have "bm_free ?b = {..<sz}" "\<forall>i. sz \<le> i \<and> i < 32 * length m \<longrightarrow> bm_bit ?b i"
    using r(1) by (auto simp: bm_free_def)
  then have "bm_inv ?b" using r(1) by (simp add: bm_inv_def)
  moreover have "alloc_bitmap mem sz = Inr (Some ?b)"
    using r(3) assms(2,3) by (simp add: alloc_bitmap_def bitmap_init_def)
  ultimately show ?thesis using \<open>bm_free ?b = {..<sz}\<close> by (intro exI [of _ ?b]) simp
qed

end
