(* ===== verification/Linked_List.thy ===== *)
theory Linked_List
  imports Prelude
begin

text \<open>
  Doubly linked lists that live in the fields of array entries, as the bundled servers use them:
  \<open>nx\<close> and \<open>pv\<close> read the two link fields of an entry, and \<open>e\<close> turns an entry into the value
  a link to it has (an index, or a pointer that is not null). \<open>linked e nx pv xs\<close> says that
  neighbours of \<open>xs\<close> are linked to each other; what the outer links of the list are is left to
  the clients, which differ in it.
\<close>

fun linked :: "('n \<Rightarrow> 'p) \<Rightarrow> ('n \<Rightarrow> 'p) \<Rightarrow> ('n \<Rightarrow> 'p) \<Rightarrow> 'n list \<Rightarrow> bool" where
  "linked e nx pv (x # y # xs) = (nx x = e y \<and> pv y = e x \<and> linked e nx pv (y # xs))"
| "linked e nx pv [x] = True"
| "linked e nx pv [] = True"

lemma linked_Cons:
  "linked e nx pv (x # xs) \<longleftrightarrow> (xs \<noteq> [] \<longrightarrow> nx x = e (hd xs) \<and> pv (hd xs) = e x) \<and> linked e nx pv xs"
  by (cases xs) auto

lemma linked_append:
  "linked e nx pv (xs @ ys) \<longleftrightarrow> linked e nx pv xs \<and> linked e nx pv ys
     \<and> (xs \<noteq> [] \<and> ys \<noteq> [] \<longrightarrow> nx (last xs) = e (hd ys) \<and> pv (hd ys) = e (last xs))"
  by (induction xs) (auto simp: linked_Cons)

text \<open>Only the forward links of all but the last entry and the backward links of all but the
  first matter.\<close>

lemma linked_cong:
  assumes "\<And>x. x \<in> set (butlast xs) \<Longrightarrow> nx' x = nx x" and "\<And>x. x \<in> set (tl xs) \<Longrightarrow> pv' x = pv x"
  shows "linked e nx' pv' xs = linked e nx pv xs"
  using assms
proof (induction xs)
  case (Cons x xs)
  then have "linked e nx' pv' xs = linked e nx pv xs" by (cases xs) auto
  then show ?case using Cons.prems by (cases xs) auto
qed simp

lemma linked_nx [simp]: "x \<notin> set (butlast xs) \<Longrightarrow> linked e (nx(x := p)) pv xs = linked e nx pv xs"
  by (rule linked_cong) auto

lemma linked_pv [simp]: "x \<notin> set (tl xs) \<Longrightarrow> linked e nx (pv(x := p)) xs = linked e nx pv xs"
  by (rule linked_cong) auto

lemma notin_butlast: "x \<notin> set xs \<Longrightarrow> x \<notin> set (butlast xs)"
  by (auto dest: in_set_butlastD)

lemma notin_tl: "x \<notin> set xs \<Longrightarrow> x \<notin> set (tl xs)"
  by (cases xs) auto

lemma last_notin_butlast: "distinct xs \<Longrightarrow> xs \<noteq> [] \<Longrightarrow> last xs \<notin> set (butlast xs)"
  by (metis append_butlast_last_id distinct_append disjoint_iff list.set_intros(1))

lemma hd_notin_tl: "distinct xs \<Longrightarrow> xs \<noteq> [] \<Longrightarrow> hd xs \<notin> set (tl xs)"
  by (cases xs) auto

text \<open>A new entry at the front, and at the rear.\<close>

lemma linked_push_front:
  assumes "linked e nx pv xs" and "distinct (x # xs)" and "xs \<noteq> []"
  shows "linked e (nx(x := e (hd xs))) (pv(hd xs := e x)) (x # xs)"
  using assms by (simp add: linked_Cons notin_butlast hd_notin_tl)

lemma linked_push_rear:
  assumes "linked e nx pv xs" and "distinct (x # xs)" and "xs \<noteq> []"
  shows "linked e (nx(last xs := e x)) (pv(x := e (last xs))) (xs @ [x])"
  using assms by (simp add: linked_append notin_tl last_notin_butlast)

text \<open>An entry between two others is taken out by linking these to each other.\<close>

lemma linked_unlink:
  assumes "linked e nx pv (xs @ x # ys)" and "distinct (xs @ x # ys)" and "xs \<noteq> []" and "ys \<noteq> []"
  shows "linked e (nx(last xs := e (hd ys))) (pv(hd ys := e (last xs))) (xs @ ys)"
    and "nx x = e (hd ys)" and "pv x = e (last xs)"
proof -
  have l: "linked e nx pv xs" "linked e nx pv ys" using assms(1) by (auto simp: linked_append linked_Cons)
  have "last xs \<notin> set ys" "hd ys \<notin> set xs" using assms(2-4) by (auto simp: disjoint_iff)
  then show "linked e (nx(last xs := e (hd ys))) (pv(hd ys := e (last xs))) (xs @ ys)"
    using l assms(2-4) by (simp add: linked_append notin_butlast notin_tl last_notin_butlast hd_notin_tl)
  show "nx x = e (hd ys)" "pv x = e (last xs)" using assms(1,3,4) by (auto simp: linked_append linked_Cons)
qed

text \<open>The pointers to the first and to the last entry.\<close>

definition ends :: "'n list \<Rightarrow> 'n option \<times> 'n option" where
  "ends ns = (if ns = [] then (None, None) else (Some (hd ns), Some (last ns)))"

text \<open>A list with pointers to both ends, and null links at the ends; \<open>al\<close> says which entries are
  allocated.\<close>

definition dll :: "('n \<Rightarrow> 'n option) \<Rightarrow> ('n \<Rightarrow> 'n option) \<Rightarrow> 'n option \<Rightarrow> 'n option \<Rightarrow> ('n \<Rightarrow> bool) \<Rightarrow> 'n list \<Rightarrow> bool" where
  "dll nx pv h t al xs \<longleftrightarrow> distinct xs \<and> (\<forall>p\<in>set xs. al p) \<and> linked Some nx pv xs \<and> h = fst (ends xs) \<and> t = snd (ends xs)
     \<and> (xs \<noteq> [] \<longrightarrow> pv (hd xs) = None \<and> nx (last xs) = None)"

lemma dll_cong:
  assumes "\<And>p. p \<in> set xs \<Longrightarrow> nx' p = nx p \<and> pv' p = pv p \<and> al' p = al p"
  shows "dll nx' pv' h t al' xs = dll nx pv h t al xs"
proof -
  have "linked Some nx' pv' xs = linked Some nx pv xs"
    by (rule linked_cong) (use assms in \<open>auto dest: in_set_butlastD list.set_sel(2)\<close>, metis assms list.set_sel(2) tl_Nil empty_iff list.set(1))
  then show ?thesis using assms by (cases "xs = []") (auto simp: dll_def)
qed

lemma dll_links:
  assumes "dll nx pv h t al (as @ p # bs)"
  shows "pv p = (if as = [] then None else Some (last as))" "nx p = (if bs = [] then None else Some (hd bs))" "al p"
    "as \<noteq> [] \<Longrightarrow> al (last as) \<and> last as \<noteq> p" "bs \<noteq> [] \<Longrightarrow> al (hd bs) \<and> hd bs \<noteq> p" "as \<noteq> [] \<Longrightarrow> bs \<noteq> [] \<Longrightarrow> last as \<noteq> hd bs"
  using assms by (auto simp: dll_def linked_append linked_Cons) (metis disjoint_iff hd_in_set last_in_set)

lemma dll_remove:
  assumes "dll nx pv h t al (as @ p # bs)"
  shows "dll (if as = [] then nx else nx(last as := nx p)) (if bs = [] then pv else pv(hd bs := pv p))
    (if as = [] then nx p else h) (if bs = [] then pv p else t) al (as @ bs)"
proof -
  note l = dll_links [OF assms]
  let ?nx = "if as = [] then nx else nx(last as := nx p)" let ?pv = "if bs = [] then pv else pv(hd bs := pv p)"
  have k: "linked Some nx pv (as @ p # bs)" and d: "distinct (as @ p # bs)" using assms by (auto simp: dll_def)
  have "linked Some ?nx ?pv (as @ bs)"
    using linked_unlink [OF k d] k d l by (auto simp: linked_append linked_Cons notin_butlast notin_tl hd_notin_tl last_notin_butlast)
  moreover have "as \<noteq> [] \<Longrightarrow> bs \<noteq> [] \<Longrightarrow> last as \<noteq> last bs \<and> hd as \<noteq> hd bs"
    using d by (metis disjoint_iff distinct.simps(2) distinct_append hd_in_set last_in_set set_subset_Cons subsetD)
  then have "as @ bs \<noteq> [] \<longrightarrow> ?pv (hd (as @ bs)) = None \<and> ?nx (last (as @ bs)) = None"
    using assms l by (auto simp: dll_def)
  ultimately show ?thesis using assms l by (auto simp: dll_def ends_def)
qed

lemma dll_push:
  assumes "dll nx pv h t al xs" and "al p" and "p \<notin> set xs"
  shows "dll (nx(p := h)) ((if xs = [] then pv else pv(hd xs := Some p))(p := None)) (Some p) (if xs = [] then Some p else t) al (p # xs)"
proof -
  have l: "linked Some nx pv xs" and d: "distinct (p # xs)" and h: "xs \<noteq> [] \<Longrightarrow> h = Some (hd xs) \<and> hd xs \<noteq> p \<and> last xs \<noteq> p"
    using assms by (auto simp: dll_def ends_def)
  have "linked Some (nx(p := h)) ((if xs = [] then pv else pv(hd xs := Some p))(p := None)) (p # xs)"
    using linked_push_front [OF l d] l h d by (cases "xs = []") (auto simp: linked_Cons notin_butlast notin_tl hd_notin_tl)
  then show ?thesis using assms h by (auto simp: dll_def ends_def)
qed

section \<open>Link fields in a store\<close>

text \<open>An update of one entry of an array keeps the fields that it does not touch.\<close>

lemma nth_update_keep: "(\<And>y. g (f y) = g y) \<Longrightarrow> g (xs[p := f (xs ! p)] ! i) = g (xs ! i)"
  by (cases "p < length xs") (auto simp: nth_list_update list_update_beyond not_less)

lemma nth_update_set: "p < length xs \<Longrightarrow> (\<lambda>i. g (xs[p := y] ! i)) = (\<lambda>i. g (xs ! i))(p := g y)"
  by (auto simp: nth_list_update fun_eq_iff)

text \<open>
  What the list operations need of the array they work on: reading and writing the two link
  fields of its entries.
\<close>

locale link_store =
  fixes e :: "'n \<Rightarrow> 'p"
    and nx pv :: "'s \<Rightarrow> 'n \<Rightarrow> 'p"
    and set_nx set_pv :: "'n \<Rightarrow> 'p \<Rightarrow> 's \<Rightarrow> 's"
    and entry :: "'s \<Rightarrow> 'n \<Rightarrow> bool"
  assumes nx_set_nx: "entry s x \<Longrightarrow> nx (set_nx x p s) = (nx s)(x := p)"
    and pv_set_nx: "pv (set_nx x p s) = pv s"
    and nx_set_pv: "nx (set_pv x p s) = nx s"
    and pv_set_pv: "entry s x \<Longrightarrow> pv (set_pv x p s) = (pv s)(x := p)"
    and entry_set_nx: "entry (set_nx x p s) = entry s"
    and entry_set_pv: "entry (set_pv x p s) = entry s"
begin

lemmas link_simps = nx_set_nx pv_set_nx nx_set_pv pv_set_pv entry_set_nx entry_set_pv

lemma push_front:
  assumes "linked e (nx s) (pv s) xs" and "distinct (x # xs)" and "xs \<noteq> []" and "entry s x" and "entry s (hd xs)"
  shows "linked e (nx (set_pv (hd xs) (e x) (set_nx x (e (hd xs)) s)))
     (pv (set_pv (hd xs) (e x) (set_nx x (e (hd xs)) s))) (x # xs)"
  using linked_push_front [OF assms(1-3)] assms(4,5) by (simp add: link_simps)

lemma push_rear:
  assumes "linked e (nx s) (pv s) xs" and "distinct (x # xs)" and "xs \<noteq> []" and "entry s x" and "entry s (last xs)"
  shows "linked e (nx (set_nx (last xs) (e x) (set_pv x (e (last xs)) s)))
     (pv (set_nx (last xs) (e x) (set_pv x (e (last xs)) s))) (xs @ [x])"
  using linked_push_rear [OF assms(1-3)] assms(4,5) by (simp add: link_simps)

lemma unlink:
  assumes "linked e (nx s) (pv s) (xs @ x # ys)" and "distinct (xs @ x # ys)" and "xs \<noteq> []" and "ys \<noteq> []"
    and "entry s (last xs)" and "entry s (hd ys)"
  shows "linked e (nx (set_pv (hd ys) (pv s x) (set_nx (last xs) (nx s x) s)))
     (pv (set_pv (hd ys) (pv s x) (set_nx (last xs) (nx s x) s))) (xs @ ys)"
  using linked_unlink [OF assms(1-4)] assms(5,6) by (simp add: link_simps)

end

section \<open>Singly linked lists\<close>

text \<open>The entries of a list from its first link on, up to the null pointer; the free lists of the
  servers are of this kind.\<close>

fun chain :: "('n \<Rightarrow> 'n option) \<Rightarrow> 'n option \<Rightarrow> 'n list \<Rightarrow> bool" where
  "chain nx p [] = (p = None)"
| "chain nx p (x # xs) = (p = Some x \<and> chain nx (nx x) xs)"

lemma chain_cong: "(\<And>x. x \<in> set xs \<Longrightarrow> nx' x = nx x) \<Longrightarrow> chain nx' p xs = chain nx p xs"
  by (induction xs arbitrary: p) auto

lemma chain_upd [simp]: "x \<notin> set xs \<Longrightarrow> chain (nx(x := q)) p xs = chain nx p xs"
  by (rule chain_cong) auto

lemma chain_None [simp]: "chain nx None xs \<longleftrightarrow> xs = []"
  by (cases xs) auto

lemma chain_Some: "chain nx (Some x) xs \<longleftrightarrow> (\<exists>ys. xs = x # ys \<and> chain nx (nx x) ys)"
  by (cases xs) auto

text \<open>The entries \<open>i, ..., n - 1\<close> in the order of the array.\<close>

lemma chain_upt:
  assumes "\<And>j. i \<le> j \<Longrightarrow> Suc j < n \<Longrightarrow> nx j = Some (Suc j)" and "nx (n - 1) = None" and "i < n"
  shows "chain nx (Some i) [i..<n]"
  using assms
proof (induction "n - i" arbitrary: i)
  case (Suc k)
  then have u: "[i..<n] = i # [Suc i..<n]" by (simp add: upt_rec)
  show ?case
  proof (cases "Suc i < n")
    case True
    then have "chain nx (Some (Suc i)) [Suc i..<n]" using Suc by simp
    then show ?thesis using Suc.prems(1) [of i] True u by simp
  next
    case False
    then have "n = Suc i" using Suc.prems(3) by simp
    then show ?thesis using Suc.prems(2) by simp
  qed
qed simp

end
