(* ===== verification/Userver_Q.thy ===== *)
theory Userver_Q
  imports Linked_List "HOL-Library.Multiset"
begin

text \<open>
  The queue of descriptors of \<open>userver-0.9.0/q.c\<close>: a doubly linked list through a fixed array of
  nodes, an index from descriptors to their nodes so that any descriptor can be deleted in
  constant time, a free list, and a list of changes that are put off until \<open>q_sync\<close>. A pointer
  to a node is its index in \<open>node_array\<close>. The operations implement insertion at either end and
  deletion on lists.
\<close>

record q_node =
  n_fd :: int
  n_next :: "nat option"
  n_prev :: "nat option"

datatype todo_type = TODO_ADD | TODO_DELETE

record fdq =
  q_front :: "nat option"
  q_rear :: "nat option"
  max_size :: nat
  cur_size :: int
  fd_array :: "nat option list"
  node_array :: "q_node list"
  first_free :: "nat option"
  q_todo :: "(int \<times> todo_type) list"    \<comment> \<open>the first \<open>todo_count\<close> entries of \<open>todo\<close>\<close>

abbreviation (input) Q_ADD_TO_REAR :: int where "Q_ADD_TO_REAR \<equiv> 0"
abbreviation (input) Q_ADD_TO_FRONT :: int where "Q_ADD_TO_FRONT \<equiv> 1"

section \<open>Operations\<close>

definition upd_node :: "nat \<Rightarrow> (q_node \<Rightarrow> q_node) \<Rightarrow> fdq \<Rightarrow> fdq" where
  "upd_node p f s = s\<lparr>node_array := (node_array s)[p := f (node_array s ! p)]\<rparr>"

abbreviation set_next :: "nat \<Rightarrow> nat option \<Rightarrow> fdq \<Rightarrow> fdq" where
  "set_next p v \<equiv> upd_node p (\<lambda>n. n\<lparr>n_next := v\<rparr>)"

abbreviation set_prev :: "nat \<Rightarrow> nat option \<Rightarrow> fdq \<Rightarrow> fdq" where
  "set_prev p v \<equiv> upd_node p (\<lambda>n. n\<lparr>n_prev := v\<rparr>)"

definition q_next :: "fdq \<Rightarrow> nat \<Rightarrow> nat option" where
  "q_next s p = n_next (node_array s ! p)"

definition q_prev :: "fdq \<Rightarrow> nat \<Rightarrow> nat option" where
  "q_prev s p = n_prev (node_array s ! p)"

definition q_fd :: "fdq \<Rightarrow> nat \<Rightarrow> int" where
  "q_fd s p = n_fd (node_array s ! p)"

text \<open>\<open>q_init\<close>: \<open>mem\<close> is the memory of the nodes, with arbitrary contents.\<close>

definition q_init :: "q_node list \<Rightarrow> nat \<Rightarrow> fdq \<Rightarrow> fdq res" where
  "q_init mem max_nodes s =
     (if max_nodes = 0 then Inl AssertFail
      else Inr (s\<lparr>max_size := max_nodes, fd_array := replicate max_nodes None,
             node_array := map (\<lambda>i. (mem ! i)\<lparr>n_fd := -1, n_next := Some (Suc i)\<rparr>) [0..<max_nodes - 1]
                @ [(mem ! (max_nodes - 1))\<lparr>n_next := None\<rparr>],
             first_free := Some 0, cur_size := 0, q_todo := []\<rparr>))"

definition q_get_node :: "fdq \<Rightarrow> (nat \<times> fdq) res" where
  "q_get_node s =
     (case first_free s of
        None \<Rightarrow> Inl AssertFail
      | Some p \<Rightarrow> Inr (p, s\<lparr>first_free := q_next s p\<rparr>))"

definition q_free_node :: "nat \<Rightarrow> fdq \<Rightarrow> fdq" where
  "q_free_node p s =
     (let s1 = upd_node p (\<lambda>n. n\<lparr>n_fd := -1\<rparr>) s; old_first = first_free s1 in
      set_next p old_first (s1\<lparr>first_free := Some p\<rparr>))"

text \<open>The assertion of the source admits \<open>fd = max_size\<close>, one past the end of \<open>fd_array\<close>.\<close>

definition q_enter_fd :: "int \<Rightarrow> nat \<Rightarrow> fdq \<Rightarrow> fdq res" where
  "q_enter_fd fd q_new s =
     (if length (fd_array s) \<le> nat fd then Inl OverRead
      else if fd_array s ! nat fd \<noteq> None then Inl AssertFail
      else Inr (s\<lparr>fd_array := (fd_array s)[nat fd := Some q_new]\<rparr>))"

definition q_add_to_front :: "int \<Rightarrow> fdq \<Rightarrow> fdq res" where
  "q_add_to_front fd s =
     rbind (q_get_node s) (\<lambda>(q_new, s1).
     if fd < 0 \<or> int (max_size s1) < fd then Inl AssertFail
     else
       rbind (q_enter_fd fd q_new
         (set_prev q_new None (set_next q_new (q_front s1) (upd_node q_new (\<lambda>n. n\<lparr>n_fd := fd\<rparr>) s1)))) (\<lambda>s2.
       let s3 = (case q_front s2 of None \<Rightarrow> s2 | Some f \<Rightarrow> set_prev f (Some q_new) s2);
           s4 = (if q_rear s3 = None then s3\<lparr>q_rear := Some q_new\<rparr> else s3) in
       Inr (s4\<lparr>q_front := Some q_new, cur_size := cur_size s4 + 1\<rparr>)))"

definition q_add_to_rear :: "int \<Rightarrow> fdq \<Rightarrow> fdq res" where
  "q_add_to_rear fd s =
     rbind (q_get_node s) (\<lambda>(q_new, s1).
     if fd < 0 \<or> int (max_size s1) < fd then Inl AssertFail
     else
       rbind (q_enter_fd fd q_new
         (set_next q_new None (set_prev q_new (q_rear s1) (upd_node q_new (\<lambda>n. n\<lparr>n_fd := fd\<rparr>) s1)))) (\<lambda>s2.
       let s3 = (case q_rear s2 of None \<Rightarrow> s2 | Some r \<Rightarrow> set_next r (Some q_new) s2);
           s4 = (if q_front s3 = None then s3\<lparr>q_front := Some q_new\<rparr> else s3) in
       Inr (s4\<lparr>q_rear := Some q_new, cur_size := cur_size s4 + 1\<rparr>)))"

text \<open>The four cases of \<open>q_delete\<close>: the only node, the front, the rear, a node in the middle.\<close>

definition q_unlink :: "nat \<Rightarrow> fdq \<Rightarrow> fdq res" where
  "q_unlink p s =
     (if q_front s = Some p \<and> q_rear s = Some p then Inr (s\<lparr>q_front := None, q_rear := None\<rparr>)
      else if q_front s = Some p then
        (case q_next s p of
           None \<Rightarrow> Inl NullDeref
         | Some n \<Rightarrow> Inr (set_prev n None (s\<lparr>q_front := Some n\<rparr>)))
      else if q_rear s = Some p then
        (case q_prev s p of
           None \<Rightarrow> Inl NullDeref
         | Some r \<Rightarrow> Inr (set_next r None (s\<lparr>q_rear := Some r\<rparr>)))
      else if cur_size s < 3 then Inl AssertFail
      else
        (case (q_prev s p, q_next s p) of
           (Some tmp, Some n) \<Rightarrow> Inr (set_prev n (q_prev s p) (set_next tmp (q_next s p) s))
         | _ \<Rightarrow> Inl NullDeref))"

definition q_delete :: "int \<Rightarrow> fdq \<Rightarrow> fdq res" where
  "q_delete fd s =
     (if fd < 0 \<or> int (max_size s) \<le> fd then Inl AssertFail
      else
        case fd_array s ! nat fd of
          None \<Rightarrow> Inl AssertFail
        | Some p \<Rightarrow>
            rbind (q_unlink p s) (\<lambda>s1.
            let s2 = q_free_node p (s1\<lparr>fd_array := (fd_array s1)[nat fd := None]\<rparr>);
                s3 = s2\<lparr>cur_size := cur_size s2 - 1\<rparr> in
            if cur_size s3 < 0 then Inl AssertFail else Inr s3))"

text \<open>The array \<open>todo\<close> has \<open>max_size\<close> entries.\<close>

definition q_later :: "todo_type \<Rightarrow> int \<Rightarrow> fdq \<Rightarrow> fdq res" where
  "q_later t fd s =
     (if fd < 0 \<or> int (max_size s) < fd then Inl AssertFail
      else if max_size s \<le> length (q_todo s) then Inl BufferOverflow
      else Inr (s\<lparr>q_todo := q_todo s @ [(fd, t)]\<rparr>))"

definition q_to_add :: "int \<Rightarrow> fdq \<Rightarrow> fdq res" where
  "q_to_add = q_later TODO_ADD"

definition q_to_delete :: "int \<Rightarrow> fdq \<Rightarrow> fdq res" where
  "q_to_delete = q_later TODO_DELETE"

definition q_apply :: "int \<Rightarrow> int \<times> todo_type \<Rightarrow> fdq \<Rightarrow> fdq res" where
  "q_apply add_to = (\<lambda>(fd, t) s.
     if fd < 0 \<or> int (max_size s) < fd then Inl AssertFail
     else case t of
       TODO_ADD \<Rightarrow> if add_to = Q_ADD_TO_FRONT then q_add_to_front fd s
                   else if add_to = Q_ADD_TO_REAR then q_add_to_rear fd s else Inr s
     | TODO_DELETE \<Rightarrow> q_delete fd s)"

fun q_sync_loop :: "int \<Rightarrow> (int \<times> todo_type) list \<Rightarrow> fdq \<Rightarrow> fdq res" where
  "q_sync_loop add_to [] s = Inr s"
| "q_sync_loop add_to (t # ts) s = rbind (q_apply add_to t s) (q_sync_loop add_to ts)"

definition q_sync :: "int \<Rightarrow> fdq \<Rightarrow> fdq res" where
  "q_sync add_to s = rbind (q_sync_loop add_to (q_todo s) s) (\<lambda>s1. Inr (s1\<lparr>q_todo := []\<rparr>))"

section \<open>The node array as a link store\<close>

lemma length_upd_node [simp]: "length (node_array (upd_node p f s)) = length (node_array s)"
  by (simp add: upd_node_def)

lemma upd_node_frame [simp]:
  "q_front (upd_node p f s) = q_front s" "q_rear (upd_node p f s) = q_rear s"
  "max_size (upd_node p f s) = max_size s" "cur_size (upd_node p f s) = cur_size s"
  "fd_array (upd_node p f s) = fd_array s" "first_free (upd_node p f s) = first_free s"
  "q_todo (upd_node p f s) = q_todo s"
  by (simp_all add: upd_node_def)

interpretation fd_queue: link_store Some q_next q_prev "\<lambda>p v. set_next p v" "\<lambda>p v. set_prev p v"
    "\<lambda>s p. p < length (node_array s)"
  by unfold_locales
    (auto simp: q_next_def q_prev_def upd_node_def fun_eq_iff nth_list_update intro: nth_update_keep)

lemma q_fd_upd [simp]:
  "q_fd (set_next p v s) = q_fd s" "q_fd (set_prev p v s) = q_fd s"
  "q_next (upd_node p (\<lambda>n. n\<lparr>n_fd := x\<rparr>) s) = q_next s" "q_prev (upd_node p (\<lambda>n. n\<lparr>n_fd := x\<rparr>) s) = q_prev s"
  "p < length (node_array s) \<Longrightarrow> q_fd (upd_node p (\<lambda>n. n\<lparr>n_fd := x\<rparr>) s) = (q_fd s)(p := x)"
  by (auto simp: q_fd_def q_next_def q_prev_def upd_node_def fun_eq_iff nth_list_update intro: nth_update_keep)

lemma q_proj_frame [simp]:
  "q_next (s\<lparr>q_front := a\<rparr>) = q_next s" "q_prev (s\<lparr>q_front := a\<rparr>) = q_prev s" "q_fd (s\<lparr>q_front := a\<rparr>) = q_fd s"
  "q_next (s\<lparr>q_rear := a\<rparr>) = q_next s" "q_prev (s\<lparr>q_rear := a\<rparr>) = q_prev s" "q_fd (s\<lparr>q_rear := a\<rparr>) = q_fd s"
  "q_next (s\<lparr>cur_size := c\<rparr>) = q_next s" "q_prev (s\<lparr>cur_size := c\<rparr>) = q_prev s" "q_fd (s\<lparr>cur_size := c\<rparr>) = q_fd s"
  "q_next (s\<lparr>fd_array := d\<rparr>) = q_next s" "q_prev (s\<lparr>fd_array := d\<rparr>) = q_prev s" "q_fd (s\<lparr>fd_array := d\<rparr>) = q_fd s"
  "q_next (s\<lparr>first_free := a\<rparr>) = q_next s" "q_prev (s\<lparr>first_free := a\<rparr>) = q_prev s" "q_fd (s\<lparr>first_free := a\<rparr>) = q_fd s"
  "q_next (s\<lparr>q_todo := t\<rparr>) = q_next s" "q_prev (s\<lparr>q_todo := t\<rparr>) = q_prev s" "q_fd (s\<lparr>q_todo := t\<rparr>) = q_fd s"
  by (simp_all add: q_next_def q_prev_def q_fd_def fun_eq_iff)

section \<open>The invariant\<close>

text \<open>\<open>ns\<close> are the nodes of the queue in order, \<open>fs\<close> those of the free list.\<close>

definition q_rep :: "fdq \<Rightarrow> nat list \<Rightarrow> nat list \<Rightarrow> bool" where
  "q_rep s ns fs \<longleftrightarrow> length (node_array s) = max_size s \<and> length (fd_array s) = max_size s
     \<and> distinct (ns @ fs) \<and> set ns \<union> set fs = {..<max_size s}
     \<and> linked Some (q_next s) (q_prev s) ns \<and> (q_front s, q_rear s) = ends ns
     \<and> (ns \<noteq> [] \<longrightarrow> q_prev s (hd ns) = None \<and> q_next s (last ns) = None)
     \<and> chain (q_next s) (first_free s) fs \<and> cur_size s = int (length ns)
     \<and> (\<forall>fd<max_size s. \<forall>p. fd_array s ! fd = Some p \<longleftrightarrow> p \<in> set ns \<and> q_fd s p = int fd)
     \<and> (\<forall>p\<in>set ns. 0 \<le> q_fd s p \<and> q_fd s p < int (max_size s))"

definition q_holds :: "fdq \<Rightarrow> int list \<Rightarrow> bool" where
  "q_holds s xs \<longleftrightarrow> (\<exists>ns fs. q_rep s ns fs \<and> xs = map (q_fd s) ns)"

lemma q_rep_inj: "q_rep s ns fs \<Longrightarrow> inj_on (q_fd s) (set ns)"
proof (rule inj_onI)
  fix p p' assume r: "q_rep s ns fs" and p: "p \<in> set ns" "p' \<in> set ns" "q_fd s p = q_fd s p'"
  then have "nat (q_fd s p) < max_size s" "int (nat (q_fd s p)) = q_fd s p" by (auto simp: q_rep_def)
  with r p have "fd_array s ! nat (q_fd s p) = Some p" "fd_array s ! nat (q_fd s p) = Some p'"
    by (auto simp: q_rep_def)
  then show "p = p'" by simp
qed

text \<open>The queue holds every descriptor at most once, hence a descriptor that it does not hold finds
  a free node.\<close>

lemma q_rep_room:
  assumes r: "q_rep s ns fs" and fd: "0 \<le> fd" "fd < int (max_size s)" "fd \<notin> set (map (q_fd s) ns)"
  obtains p fs' where "fs = p # fs'"
proof -
  have d: "distinct (map (q_fd s) ns)" using q_rep_inj [OF r] r by (simp add: q_rep_def distinct_map)
  have "set (fd # map (q_fd s) ns) \<subseteq> {0..<int (max_size s)}" using r fd by (auto simp: q_rep_def)
  then have "card (set (fd # map (q_fd s) ns)) \<le> card {0..<int (max_size s)}" by (rule card_mono [rotated]) simp
  then have "Suc (length ns) \<le> max_size s" using fd(3) d distinct_card [OF d] by simp
  moreover have "length ns + length fs = max_size s"
  proof -
    have "card (set (ns @ fs)) = max_size s" using r by (simp add: q_rep_def)
    then show ?thesis using r distinct_card [of "ns @ fs"] by (simp add: q_rep_def)
  qed
  ultimately show ?thesis using that by (cases fs) auto
qed

lemma q_rep_free:
  assumes "q_rep s ns (p # fs)"
  shows "p < length (node_array s)" "first_free s = Some p" "p \<notin> set ns" "p \<notin> set fs" "chain (q_next s) (q_next s p) fs"
    "\<And>x. x \<in> set ns \<Longrightarrow> x < length (node_array s)"
  using assms by (auto simp: q_rep_def)

lemma q_rep_absent:
  assumes "q_rep s ns fs" and "0 \<le> fd" "fd < int (max_size s)" "fd \<notin> set (map (q_fd s) ns)"
  shows "fd_array s ! nat fd = None" "nat fd < length (fd_array s)"
proof -
  have "fd_array s ! nat fd = Some p \<longleftrightarrow> p \<in> set ns \<and> q_fd s p = fd" for p
    using assms(1-3) by (simp add: q_rep_def)
  then show "fd_array s ! nat fd = None" using assms(4) by (metis (no_types) in_set_conv_nth length_map list.set_map imageI option.exhaust)
  show "nat fd < length (fd_array s)" using assms(1-3) by (simp add: q_rep_def)
qed

lemmas q_op_simps = q_get_node_def q_enter_fd_def q_free_node_def Let_def fd_queue.link_simps

section \<open>Insertion\<close>

text \<open>What both insertions share: the new node \<open>p\<close> comes from the free list and carries \<open>fd\<close>; the
  queue is then \<open>ns'\<close>, the old one with \<open>p\<close> at one of its ends.\<close>

lemma q_rep_insert:
  assumes r: "q_rep s ns (p # fs)" and fd: "0 \<le> fd" "fd < int (max_size s)" "fd \<notin> set (map (q_fd s) ns)"
    and s': "length (node_array s') = length (node_array s)" "fd_array s' = (fd_array s)[nat fd := Some p]"
      "max_size s' = max_size s" "q_fd s' = (q_fd s)(p := fd)" "first_free s' = q_next s p" "cur_size s' = cur_size s + 1"
    and ns': "mset ns' = add_mset p (mset ns)" "linked Some (q_next s') (q_prev s') ns'" "(q_front s', q_rear s') = ends ns'"
      "q_prev s' (hd ns') = None" "q_next s' (last ns') = None" "\<And>x. x \<in> set fs \<Longrightarrow> q_next s' x = q_next s x"
  shows "q_rep s' ns' fs"
proof -
  note f = q_rep_free [OF r]
  have set: "set ns' = insert p (set ns)" using arg_cong [OF ns'(1), of set_mset] by simp
  have len: "length ns' = Suc (length ns)" using arg_cong [OF ns'(1), of size] by simp
  have "distinct ns'" using arg_cong [OF ns'(1), of "\<lambda>m. size m = card (set_mset m)"] f(3) r distinct_card [of ns]
    by (simp add: q_rep_def card_distinct len)
  then have "distinct (ns' @ fs)" using r set f(4) by (auto simp: q_rep_def)
  moreover have "chain (q_next s') (first_free s') fs"
    using f(5) s'(5) ns'(6) chain_cong [of fs "q_next s'" "q_next s"] by simp
  moreover have "fd_array s' ! d = Some x \<longleftrightarrow> x \<in> set ns' \<and> q_fd s' x = int d" if "d < max_size s" for d x
  proof (cases "d = nat fd")
    case True
    then show ?thesis using q_rep_absent [OF r fd] fd(1,3) s'(2,4) set f(3) by auto
  next
    case False
    then have "fd_array s' ! d = Some x \<longleftrightarrow> x \<in> set ns \<and> q_fd s x = int d" using r that s'(2) by (simp add: q_rep_def)
    then show ?thesis using False s'(4) set f(3) fd(1) by auto
  qed
  ultimately show ?thesis using r s' ns' set len fd by (auto simp: q_rep_def)
qed

lemma q_add_to_front_rep:
  assumes r: "q_rep s ns fs" and fd: "0 \<le> fd" "fd < int (max_size s)" "fd \<notin> set (map (q_fd s) ns)"
  obtains s' p fs' where "q_add_to_front fd s = Inr s'" "q_rep s' (p # ns) fs'" "map (q_fd s') (p # ns) = fd # map (q_fd s) ns"
    "q_todo s' = q_todo s" "max_size s' = max_size s"
proof -
  obtain p fs' where fs: "fs = p # fs'" using q_rep_room [OF r fd] .
  note f = q_rep_free [OF r [unfolded fs]] and a = q_rep_absent [OF r fd]
  have fr: "q_front s = fst (ends ns)" "q_rear s = snd (ends ns)" using r by (auto simp: q_rep_def dest: sym)
  let ?m = "(set_prev p None (set_next p (q_front s) (upd_node p (\<lambda>n. n\<lparr>n_fd := fd\<rparr>) (s\<lparr>first_free := q_next s p\<rparr>))))
      \<lparr>fd_array := (fd_array s)[nat fd := Some p]\<rparr>"
  let ?s = "(if ns = [] then ?m\<lparr>q_rear := Some p\<rparr> else set_prev (hd ns) (Some p) ?m)\<lparr>q_front := Some p, cur_size := cur_size s + 1\<rparr>"
  have h: "ns \<noteq> [] \<Longrightarrow> hd ns < length (node_array s) \<and> hd ns \<noteq> p" using f(3,6) by auto
  have "q_add_to_front fd s = Inr ?s"
    using f(2) a fd fr by (simp add: q_add_to_front_def q_op_simps ends_def)
  moreover have "q_rep ?s (p # ns) fs'"
  proof (rule q_rep_insert [OF r [unfolded fs] fd])
    have l: "linked Some (q_next s) (q_prev s) ns" using r by (simp add: q_rep_def)
    have d: "distinct (p # ns)" using r f(3) by (simp add: q_rep_def)
    show "linked Some (q_next ?s) (q_prev ?s) (p # ns)"
      using linked_push_front [OF l d] f(1) h l f(3) fr
      by (cases "ns = []") (auto simp: fd_queue.link_simps linked_Cons ends_def fun_upd_twist [of p] notin_tl)
  qed (use f(1,3,4) h fr r in \<open>auto simp: fd_queue.link_simps ends_def q_rep_def\<close>)
  moreover have "map (q_fd ?s) (p # ns) = fd # map (q_fd s) ns" using f(1,3) by auto
  ultimately show ?thesis by (rule that) simp_all
qed

lemma q_add_to_rear_rep:
  assumes r: "q_rep s ns fs" and fd: "0 \<le> fd" "fd < int (max_size s)" "fd \<notin> set (map (q_fd s) ns)"
  obtains s' p fs' where "q_add_to_rear fd s = Inr s'" "q_rep s' (ns @ [p]) fs'" "map (q_fd s') (ns @ [p]) = map (q_fd s) ns @ [fd]"
    "q_todo s' = q_todo s" "max_size s' = max_size s"
proof -
  obtain p fs' where fs: "fs = p # fs'" using q_rep_room [OF r fd] .
  note f = q_rep_free [OF r [unfolded fs]] and a = q_rep_absent [OF r fd]
  have fr: "q_front s = fst (ends ns)" "q_rear s = snd (ends ns)" using r by (auto simp: q_rep_def dest: sym)
  define m where "m = (set_next p None (set_prev p (q_rear s) (upd_node p (\<lambda>n. n\<lparr>n_fd := fd\<rparr>) (s\<lparr>first_free := q_next s p\<rparr>))))
      \<lparr>fd_array := (fd_array s)[nat fd := Some p]\<rparr>"
  define s' where "s' = (if ns = [] then m\<lparr>q_front := Some p\<rparr> else set_next (last ns) (Some p) m)
      \<lparr>q_rear := Some p, cur_size := cur_size s + 1\<rparr>"
  have h: "last ns < length (node_array s)" "last ns \<noteq> p" "last ns \<notin> set fs'" "hd ns \<noteq> p" if "ns \<noteq> []"
    using that f(3,6) r fs by (auto simp: q_rep_def disjoint_iff)
  have proj: "q_next s' = (if ns = [] then (q_next s)(p := None) else (q_next s)(p := None, last ns := Some p))"
    "q_prev s' = (q_prev s)(p := q_rear s)" "q_fd s' = (q_fd s)(p := fd)"
    using f(1) h(1) by (auto simp: s'_def m_def fd_queue.link_simps)
  have rest: "length (node_array s') = length (node_array s)" "fd_array s' = (fd_array s)[nat fd := Some p]"
      "max_size s' = max_size s" "first_free s' = q_next s p" "cur_size s' = cur_size s + 1" "q_todo s' = q_todo s"
      "(q_front s', q_rear s') = ends (ns @ [p])"
    using fr by (simp_all add: s'_def m_def ends_def)
  have e: "q_add_to_rear fd s = Inr s'"
    using f(2) a fd fr by (simp add: q_add_to_rear_def q_op_simps ends_def s'_def m_def)
  have "q_rep s' (ns @ [p]) fs'"
  proof (rule q_rep_insert [OF r [unfolded fs] fd rest(1-3) proj(3) rest(4,5) _ _ rest(7)])
    have l: "linked Some (q_next s) (q_prev s) ns" using r by (simp add: q_rep_def)
    have d: "distinct (p # ns)" using r f(3) by (simp add: q_rep_def)
    show "linked Some (q_next s') (q_prev s') (ns @ [p])"
    proof (cases "ns = []")
      case False
      then have "linked Some ((q_next s)(p := None)) (q_prev s) ns" using l f(3) by (simp add: notin_butlast)
      from linked_push_rear [OF this d False] False fr show ?thesis unfolding proj by (simp add: ends_def)
    qed simp
    show "q_prev s' (hd (ns @ [p])) = None" using h(4) fr r by (auto simp: proj ends_def q_rep_def)
    show "q_next s' (last (ns @ [p])) = None" using h(2) unfolding proj by (cases "ns = []") auto
    show "q_next s' x = q_next s x" if "x \<in> set fs'" for x
    proof -
      have "x \<noteq> p" "ns \<noteq> [] \<longrightarrow> x \<noteq> last ns" using that f(4) h(3) by auto
      then show ?thesis unfolding proj by simp
    qed
  qed simp
  then show ?thesis using e rest f(3) by (intro that [of s' p fs']) (auto simp: proj(3))
qed

section \<open>Deletion\<close>

lemma ends_front: "distinct (xs @ p # ys) \<Longrightarrow> fst (ends (xs @ p # ys)) = Some p \<longleftrightarrow> xs = []"
  by (cases xs) (auto simp: ends_def)

lemma ends_rear: "distinct (xs @ p # ys) \<Longrightarrow> snd (ends (xs @ p # ys)) = Some p \<longleftrightarrow> ys = []"
  by (cases ys rule: rev_cases) (auto simp: ends_def)

text \<open>Taking a node out of the list changes links of nodes of the list only, and no other field.\<close>

definition q_kept :: "fdq \<Rightarrow> fdq \<Rightarrow> nat list \<Rightarrow> bool" where
  "q_kept s s' ns \<longleftrightarrow> length (node_array s') = length (node_array s) \<and> fd_array s' = fd_array s \<and> max_size s' = max_size s
     \<and> cur_size s' = cur_size s \<and> first_free s' = first_free s \<and> q_todo s' = q_todo s \<and> q_fd s' = q_fd s
     \<and> (\<forall>x. x \<notin> set ns \<longrightarrow> q_next s' x = q_next s x)"

lemma q_unlink_rep:
  assumes r: "q_rep s (xs @ p # ys) fs"
  obtains s' where "q_unlink p s = Inr s'" "q_kept s s' (xs @ ys)" "linked Some (q_next s') (q_prev s') (xs @ ys)"
    "(q_front s', q_rear s') = ends (xs @ ys)"
    "xs @ ys \<noteq> [] \<longrightarrow> q_prev s' (hd (xs @ ys)) = None \<and> q_next s' (last (xs @ ys)) = None"
proof -
  let ?ns = "xs @ p # ys"
  have d: "distinct ?ns" and l: "linked Some (q_next s) (q_prev s) ?ns" and o: "q_prev s (hd ?ns) = None" "q_next s (last ?ns) = None"
    and c: "cur_size s = int (length ?ns)" using r by (auto simp: q_rep_def)
  have fr: "q_front s = fst (ends ?ns)" "q_rear s = snd (ends ?ns)" using r by (auto simp: q_rep_def dest: sym)
  have v: "\<And>x. x \<in> set ?ns \<Longrightarrow> x < length (node_array s)" using r by (auto simp: q_rep_def)
  note fe = ends_front [OF d] ends_rear [OF d]
  consider "xs = []" "ys = []" | "xs = []" "ys \<noteq> []" | "xs \<noteq> []" "ys = []" | "xs \<noteq> []" "ys \<noteq> []" by blast
  then show ?thesis
  proof cases
    case 1
    then show ?thesis using fr fe by (intro that [of "s\<lparr>q_front := None, q_rear := None\<rparr>"]) (simp_all add: q_unlink_def q_kept_def ends_def)
  next
    case 2
    let ?s = "set_prev (hd ys) None (s\<lparr>q_front := Some (hd ys)\<rparr>)"
    have n: "q_next s p = Some (hd ys)" "linked Some (q_next s) (q_prev s) ys" using l 2 by (auto simp: linked_Cons)
    have h: "hd ys < length (node_array s)" "hd ys \<notin> set (tl ys)" using v d 2 by (auto simp: hd_notin_tl)
    show ?thesis
    proof (rule that [of ?s])
      show "q_unlink p s = Inr ?s" using fr fe 2 n by (simp add: q_unlink_def)
    qed (use 2 n h o fr in \<open>auto simp: q_kept_def fd_queue.link_simps ends_def\<close>)
  next
    case 3
    let ?s = "set_next (last xs) None (s\<lparr>q_rear := Some (last xs)\<rparr>)"
    have n: "q_prev s p = Some (last xs)" "linked Some (q_next s) (q_prev s) xs" using l 3 by (auto simp: linked_append)
    have h: "last xs < length (node_array s)" "last xs \<notin> set (butlast xs)" using v d 3 by (auto simp: last_notin_butlast)
    show ?thesis
    proof (rule that [of ?s])
      show "q_unlink p s = Inr ?s" using fr fe 3 n by (simp add: q_unlink_def)
    qed (use 3 n h o fr in \<open>auto simp: q_kept_def fd_queue.link_simps ends_def\<close>)
  next
    case 4
    let ?s = "set_prev (hd ys) (q_prev s p) (set_next (last xs) (q_next s p) s)"
    note u = linked_unlink [OF l d 4]
    have h: "last xs < length (node_array s)" "hd ys < length (node_array s)" using v 4 by auto
    have e: "last xs \<notin> set ys" "hd ys \<notin> set xs" using d 4 by (auto simp: disjoint_iff)
    then have "hd xs \<noteq> hd ys" "last ys \<noteq> last xs" using 4 by (metis hd_in_set, metis last_in_set)
    note e = e this
    have "3 \<le> cur_size s" using c 4 by (cases xs; cases ys) auto
    show ?thesis
    proof (rule that [of ?s])
      show "q_unlink p s = Inr ?s" using fr fe 4 u \<open>3 \<le> cur_size s\<close> by (simp add: q_unlink_def)
      show "linked Some (q_next ?s) (q_prev ?s) (xs @ ys)" using fd_queue.unlink [OF l d 4 h] .
    qed (use 4 e h o fr in \<open>auto simp: q_kept_def fd_queue.link_simps ends_def\<close>)
  qed
qed

lemma q_delete_rep:
  assumes r: "q_rep s (xs @ p # ys) fs"
  obtains s' where "q_delete (q_fd s p) s = Inr s'" "q_rep s' (xs @ ys) (p # fs)" "map (q_fd s') (xs @ ys) = map (q_fd s) (xs @ ys)"
    "q_todo s' = q_todo s" "max_size s' = max_size s"
proof -
  obtain s1 where u: "q_unlink p s = Inr s1" "q_kept s s1 (xs @ ys)" "linked Some (q_next s1) (q_prev s1) (xs @ ys)"
    "(q_front s1, q_rear s1) = ends (xs @ ys)"
    "xs @ ys \<noteq> [] \<longrightarrow> q_prev s1 (hd (xs @ ys)) = None \<and> q_next s1 (last (xs @ ys)) = None"
    using q_unlink_rep [OF r] .
  note k = u(2) [unfolded q_kept_def]
  let ?fd = "q_fd s p"
  have fd: "0 \<le> ?fd" "?fd < int (max_size s)" using r by (auto simp: q_rep_def)
  have a: "fd_array s ! nat ?fd = Some p" and c: "0 < cur_size s" using r fd by (auto simp: q_rep_def)
  have p: "p < length (node_array s)" "p \<notin> set (xs @ ys)" "p \<notin> set fs" using r by (auto simp: q_rep_def)
  define s2 where "s2 = (set_next p (first_free s) (upd_node p (\<lambda>n. n\<lparr>n_fd := -1\<rparr>)
      (s1\<lparr>fd_array := (fd_array s)[nat ?fd := None]\<rparr>) \<lparr>first_free := Some p\<rparr>)) \<lparr>cur_size := cur_size s - 1\<rparr>"
  have proj: "q_next s2 = (q_next s1)(p := first_free s)" "q_prev s2 = q_prev s1" "q_fd s2 = (q_fd s)(p := -1)"
    using p(1) k by (simp_all add: s2_def fd_queue.link_simps)
  have rest: "fd_array s2 = (fd_array s)[nat ?fd := None]" "length (node_array s2) = length (node_array s)" "max_size s2 = max_size s"
    "first_free s2 = Some p" "cur_size s2 = cur_size s - 1" "q_todo s2 = q_todo s" "(q_front s2, q_rear s2) = ends (xs @ ys)"
    using k u(4) by (simp_all add: s2_def)
  have e: "q_delete ?fd s = Inr s2"
    using fd a u(1) k c by (simp add: q_delete_def q_free_node_def s2_def)
  have m: "map (q_fd s2) (xs @ ys) = map (q_fd s) (xs @ ys)" using p(2) unfolding proj(3) by auto
  have "chain (q_next s2) (q_next s2 p) fs"
  proof -
    have "chain (q_next s) (first_free s) fs" "\<forall>x\<in>set fs. x \<notin> set (xs @ ys)" using r by (auto simp: q_rep_def)
    then show ?thesis using k p(3) chain_cong [of fs "q_next s1" "q_next s"] by (auto simp: proj)
  qed
  moreover have "linked Some (q_next s2) (q_prev s2) (xs @ ys)" using u(3) p(2) by (simp add: proj notin_butlast)
  moreover have "fd_array s2 ! d = Some x \<longleftrightarrow> x \<in> set (xs @ ys) \<and> q_fd s2 x = int d" if "d < max_size s" for d x
  proof (cases "d = nat ?fd")
    case True
    have "q_fd s x \<noteq> ?fd" if "x \<in> set (xs @ ys)" for x
      using inj_onD [OF q_rep_inj [OF r], of x p] that p(2) by auto
    moreover have "length (fd_array s) = max_size s" using r by (simp add: q_rep_def)
    ultimately show ?thesis using True that fd p(2) by (auto simp: proj rest)
  next
    case False
    then have "fd_array s2 ! d = Some x \<longleftrightarrow> x \<in> set (xs @ p # ys) \<and> q_fd s x = int d"
      using that r by (simp add: rest q_rep_def)
    then show ?thesis using False p(2) fd by (auto simp: proj)
  qed
  moreover have "xs @ ys \<noteq> [] \<longrightarrow> q_prev s2 (hd (xs @ ys)) = None \<and> q_next s2 (last (xs @ ys)) = None"
  proof
    assume ne: "xs @ ys \<noteq> []"
    then have "last (xs @ ys) \<noteq> p" using p(2) last_in_set by metis
    then show "q_prev s2 (hd (xs @ ys)) = None \<and> q_next s2 (last (xs @ ys)) = None" using u(5) ne unfolding proj by simp
  qed
  ultimately show ?thesis
    using r p(2) e m rest by (intro that [of s2]) (auto simp: q_rep_def proj(3))
qed

section \<open>The operations on the contents\<close>

lemma q_holds_distinct: "q_holds s xs \<Longrightarrow> distinct xs"
  using q_rep_inj by (auto simp: q_holds_def q_rep_def distinct_map)

lemma q_holds_range: "q_holds s xs \<Longrightarrow> x \<in> set xs \<Longrightarrow> 0 \<le> x \<and> x < int (max_size s)"
  by (auto simp: q_holds_def q_rep_def)

lemma q_add_to_front_ok:
  assumes "q_holds s xs" and "0 \<le> fd" "fd < int (max_size s)" "fd \<notin> set xs"
  shows "\<exists>s'. q_add_to_front fd s = Inr s' \<and> q_holds s' (fd # xs) \<and> q_todo s' = q_todo s \<and> max_size s' = max_size s"
proof -
  obtain ns fs where r: "q_rep s ns fs" "xs = map (q_fd s) ns" using assms(1) by (auto simp: q_holds_def)
  from q_add_to_front_rep [OF r(1) assms(2,3)] assms(4) r(2) show ?thesis unfolding q_holds_def by metis
qed

lemma q_add_to_rear_ok:
  assumes "q_holds s xs" and "0 \<le> fd" "fd < int (max_size s)" "fd \<notin> set xs"
  shows "\<exists>s'. q_add_to_rear fd s = Inr s' \<and> q_holds s' (xs @ [fd]) \<and> q_todo s' = q_todo s \<and> max_size s' = max_size s"
proof -
  obtain ns fs where r: "q_rep s ns fs" "xs = map (q_fd s) ns" using assms(1) by (auto simp: q_holds_def)
  from q_add_to_rear_rep [OF r(1) assms(2,3)] assms(4) r(2) show ?thesis unfolding q_holds_def by metis
qed

lemma q_delete_ok:
  assumes h: "q_holds s xs" and fd: "fd \<in> set xs"
  shows "\<exists>s'. q_delete fd s = Inr s' \<and> q_holds s' (remove1 fd xs) \<and> q_todo s' = q_todo s \<and> max_size s' = max_size s"
proof -
  obtain ns fs where r: "q_rep s ns fs" "xs = map (q_fd s) ns" using h by (auto simp: q_holds_def)
  with fd obtain p as bs where ns: "ns = as @ p # bs" "fd = q_fd s p" by (auto dest: split_list)
  have "fd \<notin> set (map (q_fd s) as)" using q_holds_distinct [OF h] by (auto simp: r(2) ns)
  then have "remove1 fd xs = map (q_fd s) (as @ bs)" by (simp add: r(2) ns remove1_append)
  with q_delete_rep [OF r(1) [unfolded ns(1)]] ns(2) show ?thesis unfolding q_holds_def by metis
qed

lemma q_init_ok:
  assumes "q_init mem n s = Inr s'" and "length mem = n" and "q_front s = None" "q_rear s = None"
  shows "q_holds s' [] \<and> max_size s' = n \<and> q_todo s' = []"
proof -
  have n: "0 < n" and s': "s' = s\<lparr>max_size := n, fd_array := replicate n None,
      node_array := map (\<lambda>i. (mem ! i)\<lparr>n_fd := -1, n_next := Some (Suc i)\<rparr>) [0..<n - 1] @ [(mem ! (n - 1))\<lparr>n_next := None\<rparr>],
      first_free := Some 0, cur_size := 0, q_todo := []\<rparr>"
    using assms(1) by (auto simp: q_init_def split: if_splits)
  have "chain (q_next s') (Some 0) [0..<n]"
    by (rule chain_upt) (use n in \<open>auto simp: s' q_next_def nth_append\<close>)
  then have "q_rep s' [] [0..<n]" using n assms(3,4) by (auto simp: q_rep_def s' ends_def)
  then show ?thesis unfolding q_holds_def by (auto simp: s')
qed

section \<open>Changes that are put off\<close>

text \<open>
  The same calls on a list of descriptors \<open>xs\<close> with room for \<open>m\<close>, faults included. An insertion
  takes a node first (the process ends when there is none), and a descriptor equal to
  \<open>m\<close> passes the assertions of the code and indexes \<open>fd_array\<close> past its end.
\<close>

definition list_add :: "bool \<Rightarrow> nat \<Rightarrow> int \<Rightarrow> int list \<Rightarrow> int list res" where
  "list_add front m fd xs =
     (if length xs = m then Inl AssertFail
      else if fd < 0 \<or> int m < fd then Inl AssertFail
      else if fd = int m then Inl OverRead
      else if fd \<in> set xs then Inl AssertFail
      else Inr (if front then fd # xs else xs @ [fd]))"

definition list_delete :: "int \<Rightarrow> int list \<Rightarrow> int list res" where
  "list_delete fd xs = (if fd \<in> set xs then Inr (remove1 fd xs) else Inl AssertFail)"

definition list_apply :: "int \<Rightarrow> nat \<Rightarrow> int \<times> todo_type \<Rightarrow> int list \<Rightarrow> int list res" where
  "list_apply add_to m = (\<lambda>(fd, t) xs.
     if fd < 0 \<or> int m < fd then Inl AssertFail
     else case t of
       TODO_ADD \<Rightarrow> if add_to = Q_ADD_TO_FRONT then list_add True m fd xs
                   else if add_to = Q_ADD_TO_REAR then list_add False m fd xs else Inr xs
     | TODO_DELETE \<Rightarrow> list_delete fd xs)"

fun list_sync :: "int \<Rightarrow> nat \<Rightarrow> (int \<times> todo_type) list \<Rightarrow> int list \<Rightarrow> int list res" where
  "list_sync add_to m [] xs = Inr xs"
| "list_sync add_to m (t # ts) xs = rbind (list_apply add_to m t xs) (list_sync add_to m ts)"

datatype fdq_op = Add_front int | Add_rear int | Delete int | To_add int | To_delete int | Sync int

definition fdq_call :: "fdq_op \<Rightarrow> fdq \<Rightarrow> fdq res" where
  "fdq_call c s = (case c of
     Add_front fd \<Rightarrow> q_add_to_front fd s
   | Add_rear fd \<Rightarrow> q_add_to_rear fd s
   | Delete fd \<Rightarrow> q_delete fd s
   | To_add fd \<Rightarrow> q_to_add fd s
   | To_delete fd \<Rightarrow> q_to_delete fd s
   | Sync add_to \<Rightarrow> q_sync add_to s)"

definition list_later :: "nat \<Rightarrow> todo_type \<Rightarrow> int \<Rightarrow> (int \<times> todo_type) list \<Rightarrow> (int \<times> todo_type) list res" where
  "list_later m t fd ts =
     (if fd < 0 \<or> int m < fd then Inl AssertFail
      else if m \<le> length ts then Inl BufferOverflow else Inr (ts @ [(fd, t)]))"

fun list_fdq_call :: "nat \<Rightarrow> fdq_op \<Rightarrow> int list \<times> (int \<times> todo_type) list \<Rightarrow> (int list \<times> (int \<times> todo_type) list) res" where
  "list_fdq_call m (Add_front fd) (xs, ts) = rbind (list_add True m fd xs) (\<lambda>ys. Inr (ys, ts))"
| "list_fdq_call m (Add_rear fd) (xs, ts) = rbind (list_add False m fd xs) (\<lambda>ys. Inr (ys, ts))"
| "list_fdq_call m (Delete fd) (xs, ts) = rbind (list_delete fd xs) (\<lambda>ys. Inr (ys, ts))"
| "list_fdq_call m (To_add fd) (xs, ts) = rbind (list_later m TODO_ADD fd ts) (\<lambda>us. Inr (xs, us))"
| "list_fdq_call m (To_delete fd) (xs, ts) = rbind (list_later m TODO_DELETE fd ts) (\<lambda>us. Inr (xs, us))"
| "list_fdq_call m (Sync add_to) (xs, ts) = rbind (list_sync add_to m ts xs) (\<lambda>ys. Inr (ys, []))"

fun fdq_exec :: "fdq_op list \<Rightarrow> fdq \<Rightarrow> fdq res" where
  "fdq_exec [] s = Inr s"
| "fdq_exec (c # cs) s = rbind (fdq_call c s) (fdq_exec cs)"

fun list_fdq_exec :: "nat \<Rightarrow> fdq_op list \<Rightarrow> int list \<times> (int \<times> todo_type) list \<Rightarrow>
    (int list \<times> (int \<times> todo_type) list) res" where
  "list_fdq_exec m [] x = Inr x"
| "list_fdq_exec m (c # cs) x = rbind (list_fdq_call m c x) (list_fdq_exec m cs)"

section \<open>Refinement\<close>

text \<open>The queue holds the list, has the given size and the changes that are still to make.\<close>

definition q_abs :: "nat \<Rightarrow> (int \<times> todo_type) list \<Rightarrow> fdq \<Rightarrow> int list \<Rightarrow> bool" where
  "q_abs m ts s xs \<longleftrightarrow> q_holds s xs \<and> max_size s = m \<and> q_todo s = ts"

lemma rel_rbind:
  assumes "rel_sum (=) R x y" and "\<And>a b. R a b \<Longrightarrow> rel_sum (=) S (f a) (g b)"
  shows "rel_sum (=) S (rbind x f) (rbind y g)"
  using assms by (cases x; cases y) auto

lemma q_no_room:
  assumes "q_holds s xs" and "length xs = max_size s"
  shows "first_free s = None"
proof -
  obtain ns fs where r: "q_rep s ns fs" "xs = map (q_fd s) ns" using assms(1) by (auto simp: q_holds_def)
  have "card (set (ns @ fs)) = max_size s" using r(1) by (simp add: q_rep_def)
  then have "length ns + length fs = max_size s" using r(1) distinct_card [of "ns @ fs"] by (simp add: q_rep_def)
  then show ?thesis using assms(2) r by (auto simp: q_rep_def)
qed

lemma q_some_room:
  assumes "q_holds s xs" and "length xs \<noteq> max_size s"
  obtains p ns fs where "q_rep s ns (p # fs)" "xs = map (q_fd s) ns"
proof -
  obtain ns fs where r: "q_rep s ns fs" "xs = map (q_fd s) ns" using assms(1) by (auto simp: q_holds_def)
  have "card (set (ns @ fs)) = max_size s" using r(1) by (simp add: q_rep_def)
  then have "length ns + length fs = max_size s" using r(1) distinct_card [of "ns @ fs"] by (simp add: q_rep_def)
  then show ?thesis using that r assms(2) by (cases fs) auto
qed

text \<open>The faults of an insertion.\<close>

lemma q_add_fault:
  assumes h: "q_holds s xs" and e: "list_add front (max_size s) fd xs = Inl e"
  shows "q_add_to_front fd s = Inl e \<and> q_add_to_rear fd s = Inl e"
proof (cases "length xs = max_size s")
  case True
  then show ?thesis using q_no_room [OF h] e
    by (simp add: list_add_def q_add_to_front_def q_add_to_rear_def q_get_node_def)
next
  case False
  then obtain p ns fs where r: "q_rep s ns (p # fs)" "xs = map (q_fd s) ns" using q_some_room [OF h] by blast
  have l: "length (fd_array s) = max_size s" "first_free s = Some p" using r(1) by (auto simp: q_rep_def)
  have "fd_array s ! nat fd \<noteq> None" if m: "fd \<in> set xs"
  proof -
    obtain x where x: "x \<in> set ns" "q_fd s x = fd" using m r(2) by auto
    then have "fd_array s ! nat fd = Some x" using r(1) by (auto simp: q_rep_def)
    then show ?thesis by simp
  qed
  then show ?thesis using False e l
    by (auto simp: list_add_def q_add_to_front_def q_add_to_rear_def q_get_node_def q_enter_fd_def split: if_splits)
qed

lemma q_add_refines:
  assumes "q_abs m ts s xs"
  shows "rel_sum (=) (q_abs m ts) (q_add_to_front fd s) (list_add True m fd xs)"
    and "rel_sum (=) (q_abs m ts) (q_add_to_rear fd s) (list_add False m fd xs)"
proof -
  have h: "q_holds s xs" "max_size s = m" "q_todo s = ts" using assms by (auto simp: q_abs_def)
  have ok: "0 \<le> fd" "fd < int (max_size s)" "fd \<notin> set xs" if "list_add front m fd xs = Inr ys" for front ys
    using that h(2) by (auto simp: list_add_def split: if_splits)
  show "rel_sum (=) (q_abs m ts) (q_add_to_front fd s) (list_add True m fd xs)"
  proof (cases "list_add True m fd xs")
    case (Inl e)
    then show ?thesis using q_add_fault [OF h(1)] h(2) by simp
  next
    case (Inr ys)
    then have "ys = fd # xs" by (auto simp: list_add_def split: if_splits)
    then show ?thesis using q_add_to_front_ok [OF h(1) ok [OF Inr]] Inr h by (auto simp: q_abs_def)
  qed
  show "rel_sum (=) (q_abs m ts) (q_add_to_rear fd s) (list_add False m fd xs)"
  proof (cases "list_add False m fd xs")
    case (Inl e)
    then show ?thesis using q_add_fault [OF h(1)] h(2) by simp
  next
    case (Inr ys)
    then have "ys = xs @ [fd]" by (auto simp: list_add_def split: if_splits)
    then show ?thesis using q_add_to_rear_ok [OF h(1) ok [OF Inr]] Inr h by (auto simp: q_abs_def)
  qed
qed

lemma q_delete_refines:
  assumes "q_abs m ts s xs"
  shows "rel_sum (=) (q_abs m ts) (q_delete fd s) (list_delete fd xs)"
proof -
  have h: "q_holds s xs" "max_size s = m" "q_todo s = ts" using assms by (auto simp: q_abs_def)
  show ?thesis
  proof (cases "fd \<in> set xs")
    case True
    from q_delete_ok [OF h(1) this] h True show ?thesis by (auto simp: list_delete_def q_abs_def)
  next
    case False
    obtain ns fs where r: "q_rep s ns fs" "xs = map (q_fd s) ns" using h(1) by (auto simp: q_holds_def)
    have "q_delete fd s = Inl AssertFail"
      using q_rep_absent(1) [OF r(1), of fd] False r(2) by (cases "fd < 0 \<or> int (max_size s) \<le> fd") (auto simp: q_delete_def)
    with False show ?thesis by (simp add: list_delete_def)
  qed
qed

lemma q_apply_refines: "q_abs m ts s xs \<Longrightarrow> rel_sum (=) (q_abs m ts) (q_apply add_to t s) (list_apply add_to m t xs)"
  using q_add_refines [of m ts s xs] q_delete_refines [of m ts s xs]
  by (cases t) (auto simp: q_apply_def list_apply_def q_abs_def split: todo_type.split)

lemma q_sync_loop_refines:
  "q_abs m us s xs \<Longrightarrow> rel_sum (=) (q_abs m us) (q_sync_loop add_to ts s) (list_sync add_to m ts xs)"
proof (induction ts arbitrary: s xs)
  case (Cons t ts)
  from rel_rbind [OF q_apply_refines [OF Cons.prems] Cons.IH] show ?case by simp
qed simp

lemma q_holds_todo: "q_holds (s\<lparr>q_todo := us\<rparr>) xs = q_holds s xs"
  by (simp add: q_holds_def q_rep_def)

lemma q_abs_todo: "q_abs m ts s xs \<Longrightarrow> q_abs m us (s\<lparr>q_todo := us\<rparr>) xs"
  by (simp add: q_abs_def q_holds_todo)

lemma fdq_call_refines:
  assumes "q_abs m ts s xs"
  shows "rel_sum (=) (\<lambda>s' (ys, us). q_abs m us s' ys) (fdq_call c s) (list_fdq_call m c (xs, ts))"
proof -
  have keep: "rel_sum (=) (\<lambda>s' (ys, us). q_abs m us s' ys) x (rbind y (\<lambda>ys. Inr (ys, ts)))"
    if "rel_sum (=) (q_abs m ts) x y" for x y
    using that by (cases x; cases y) auto
  have later: "rel_sum (=) (\<lambda>s' (ys, us). q_abs m us s' ys) (q_later t fd s) (rbind (list_later m t fd ts) (\<lambda>us. Inr (xs, us)))"
    for t fd
    using assms q_abs_todo [OF assms] by (auto simp: q_later_def list_later_def q_abs_def)
  have sync: "rel_sum (=) (\<lambda>s' (ys, us). q_abs m us s' ys) (q_sync add_to s) (rbind (list_sync add_to m ts xs) (\<lambda>ys. Inr (ys, [])))"
    for add_to
  proof -
    have "q_todo s = ts" using assms by (simp add: q_abs_def)
    then show ?thesis using q_sync_loop_refines [OF assms, of add_to ts] unfolding q_sync_def
      by (auto elim!: rel_rbind intro: q_abs_todo)
  qed
  show ?thesis
    using keep q_add_refines [OF assms] q_delete_refines [OF assms] later sync
    by (cases c) (simp_all add: fdq_call_def q_to_add_def q_to_delete_def)
qed

lemma fdq_exec_refines:
  "q_abs m ts s xs \<Longrightarrow> rel_sum (=) (\<lambda>s' (ys, us). q_abs m us s' ys) (fdq_exec cs s) (list_fdq_exec m cs (xs, ts))"
proof (induction cs arbitrary: s xs ts)
  case (Cons c cs)
  show ?case unfolding fdq_exec.simps list_fdq_exec.simps
    by (rule rel_rbind [OF fdq_call_refines [OF Cons.prems]]) (use Cons.IH in auto)
qed simp

definition demo_fdq :: fdq where
  "demo_fdq = \<lparr>q_front = None, q_rear = None, max_size = 0, cur_size = 0, fd_array = [], node_array = [],
     first_free = None, q_todo = []\<rparr>"

end
