(* ===== verification/Userver_Info.thy ===== *)
theory Userver_Info
  imports Linked_List World
begin

text \<open>
  The connection table of the userver, \<open>userver-0.9.0/info.c\<close>: an array of entries, a map from
  descriptors to entries, and a free list through the entries that are not in use; and the state
  of a connection, \<open>state.c\<close>. Of the fields of \<open>struct info\<close> the model has those that the
  functions here use; the messages and the delays for tracing are left out.
\<close>

abbreviation (input) NULL_INDEX :: int where "NULL_INDEX \<equiv> - 1"

datatype fsm_state =
    FSM_UNKNOWN | FSM_INITIAL_STATE | FSM_CONNECTING | FSM_READING_REQUEST | FSM_READ_ARRIVED_WHILE_WRITING
  | FSM_WRITING_REPLY | FSM_READING_NEXT_REQUEST | FSM_CLOSING | FSM_CLOSED | FSM_LISTENING
  | FSM_FCGI_WRITING_SET_VALUES | FSM_FCGI_WRITING_BEGIN_REQUEST | FSM_FCGI_WRITING_PARAMS_1
  | FSM_FCGI_WRITING_PARAMS_2 | FSM_FCGI_WRITING_END_PARAMS | FSM_FCGI_WRITING_STDIN
  | FSM_FCGI_WRITING_END_STDIN | FSM_FCGI_WAITING_FOR_REPLY | FSM_FCGI_REQUEST_QUEUED
  | FSM_FCGI_CLEARING_BUFFER | FSM_FCGI_UNBLOCKING | FSM_CONN_ERROR

record info_entry =
  i_sd :: int
  next_free :: int
  i_fsm_state :: fsm_state
  sd_state :: events

record infos =
  info :: "info_entry list"
  sd_map :: "int list"
  info_first_free :: int
  max_fds :: int
  max_sock_sd :: int

section \<open>Operations\<close>

definition upd_info :: "nat \<Rightarrow> (info_entry \<Rightarrow> info_entry) \<Rightarrow> infos \<Rightarrow> infos" where
  "upd_info i f s = s\<lparr>info := (info s)[i := f (info s ! i)]\<rparr>"

text \<open>Writing a field of entry \<open>index\<close>, which may be out of the array.\<close>

definition put_info :: "int \<Rightarrow> (info_entry \<Rightarrow> info_entry) \<Rightarrow> infos \<Rightarrow> infos res" where
  "put_info index f s = (if index < 0 \<or> int (length (info s)) \<le> index then Inl BufferOverflow
     else Inr (upd_info (nat index) f s))"

definition sd_valid :: "infos \<Rightarrow> int \<Rightarrow> bool" where
  "sd_valid s sd \<longleftrightarrow> 0 \<le> sd \<and> sd \<le> max_fds s"

definition info_free_entry :: "int \<Rightarrow> infos \<Rightarrow> infos res" where
  "info_free_entry index s =
     (if index < 0 \<or> max_sock_sd s < index then Inl AssertFail
      else let old_first = info_first_free s in
        put_info index (\<lambda>e. e\<lparr>next_free := old_first\<rparr>) (s\<lparr>info_first_free := index\<rparr>))"

definition info_get_entry :: "infos \<Rightarrow> (int \<times> infos) res" where
  "info_get_entry s =
     (let index = info_first_free s in
      if index = NULL_INDEX \<or> index < 0 \<or> max_fds s < index then Inl AssertFail
      else if int (length (info s)) \<le> index then Inl OverRead
      else Inr (index, upd_info (nat index) (\<lambda>e. e\<lparr>next_free := NULL_INDEX\<rparr>)
                         (s\<lparr>info_first_free := next_free (info s ! nat index)\<rparr>)))"

definition info_add :: "int \<Rightarrow> infos \<Rightarrow> (int \<times> infos) res" where
  "info_add sd s =
     (if \<not> sd_valid s sd \<or> sd_map s ! nat sd \<noteq> NULL_INDEX then Inl AssertFail
      else rbind (info_get_entry s) (\<lambda>(index, s1).
        rbind (put_info index (\<lambda>e. e\<lparr>i_sd := sd\<rparr>) (s1\<lparr>sd_map := (sd_map s1)[nat sd := index]\<rparr>)) (\<lambda>s2.
        Inr (index, s2))))"

definition info_reserve :: "infos \<Rightarrow> (int \<times> infos) res" where
  "info_reserve s = info_get_entry s"

definition info_unreserve :: "int \<Rightarrow> infos \<Rightarrow> infos res" where
  "info_unreserve index s =
     (if index < 0 \<or> max_sock_sd s < index then Inl AssertFail else info_free_entry index s)"

definition info_register :: "int \<Rightarrow> int \<Rightarrow> infos \<Rightarrow> infos res" where
  "info_register index sd s =
     (if \<not> sd_valid s sd \<or> index < 0 \<or> max_sock_sd s < index then Inl AssertFail
      else put_info index (\<lambda>e. e\<lparr>i_sd := sd\<rparr>) (s\<lparr>sd_map := (sd_map s)[nat sd := index]\<rparr>))"

text \<open>\<open>info_delete\<close> writes the entry before it asserts that there is one.\<close>

definition info_delete :: "int \<Rightarrow> infos \<Rightarrow> infos res" where
  "info_delete sd s =
     (if \<not> sd_valid s sd then Inl AssertFail
      else
        let index = sd_map s ! nat sd in
        rbind (put_info index (\<lambda>e. e\<lparr>i_sd := -1, i_fsm_state := FSM_INITIAL_STATE\<rparr>) s) (\<lambda>s1.
        if index = NULL_INDEX then Inl AssertFail
        else rbind (info_free_entry index s1) (\<lambda>s2. Inr (s2\<lparr>sd_map := (sd_map s2)[nat sd := NULL_INDEX]\<rparr>))))"

definition info_index :: "int \<Rightarrow> infos \<Rightarrow> int res" where
  "info_index sd s =
     (if \<not> sd_valid s sd then Inl AssertFail
      else let index = sd_map s ! nat sd in if max_sock_sd s < index then Inl AssertFail else Inr index)"

definition info_ptr :: "int \<Rightarrow> infos \<Rightarrow> nat option res" where
  "info_ptr sd s =
     rbind (info_index sd s) (\<lambda>index.
     if index = NULL_INDEX then Inr None
     else if index < 0 \<or> int (length (info s)) \<le> index then Inl OverRead
     else if i_sd (info s ! nat index) \<noteq> sd then Inl AssertFail
     else Inr (Some (nat index)))"

definition info_map_valid :: "int \<Rightarrow> infos \<Rightarrow> bool res" where
  "info_map_valid sd s = (if \<not> sd_valid s sd then Inl AssertFail else Inr (sd_map s ! nat sd \<noteq> NULL_INDEX))"

text \<open>The end of \<open>info_init\<close>: no descriptor is mapped, and the entries are freed from the last to
  the first; \<open>mem\<close> is the array, whose other fields the loop before it has set.\<close>

fun free_all :: "nat \<Rightarrow> infos \<Rightarrow> infos res" where
  "free_all 0 s = Inr s"
| "free_all (Suc i) s = rbind (info_free_entry (int i) s) (free_all i)"

definition info_init :: "info_entry list \<Rightarrow> int \<Rightarrow> int \<Rightarrow> infos res" where
  "info_init mem mfds msock =
     free_all (length mem)
       \<lparr>info = map (\<lambda>e. e\<lparr>i_sd := -1, i_fsm_state := FSM_INITIAL_STATE\<rparr>) mem,
        sd_map = replicate (nat (mfds + 1)) NULL_INDEX, info_first_free = NULL_INDEX, max_fds = mfds, max_sock_sd = msock\<rparr>"

section \<open>Connection states\<close>

definition set_fsm_state :: "nat \<Rightarrow> fsm_state \<Rightarrow> infos \<Rightarrow> infos" where
  "set_fsm_state ip st s = upd_info ip (\<lambda>e. e\<lparr>i_fsm_state := st\<rparr>) s"

definition info_ptr_or_fail :: "int \<Rightarrow> infos \<Rightarrow> nat res" where
  "info_ptr_or_fail sd s = rbind (info_ptr sd s) (\<lambda>ip. case ip of None \<Rightarrow> Inl AssertFail | Some i \<Rightarrow> Inr i)"

definition info_get_fsm_state :: "int \<Rightarrow> infos \<Rightarrow> fsm_state res" where
  "info_get_fsm_state sd s = rbind (info_ptr_or_fail sd s) (\<lambda>i. Inr (i_fsm_state (info s ! i)))"

definition info_set_fsm_state :: "int \<Rightarrow> fsm_state \<Rightarrow> infos \<Rightarrow> infos res" where
  "info_set_fsm_state sd st s = rbind (info_ptr_or_fail sd s) (\<lambda>i. Inr (set_fsm_state i st s))"

definition get_fsm_state :: "int \<Rightarrow> infos \<Rightarrow> fsm_state res" where
  "get_fsm_state sd s = (if sd \<le> 0 \<or> max_fds s \<le> sd then Inl AssertFail else info_get_fsm_state sd s)"

definition fsm_state_reading :: "int \<Rightarrow> infos \<Rightarrow> bool res" where
  "fsm_state_reading sd s = rbind (get_fsm_state sd s) (\<lambda>st.
     Inr (st = FSM_READING_REQUEST \<or> st = FSM_READING_NEXT_REQUEST \<or> st = FSM_LISTENING))"

definition fsm_state_writing :: "int \<Rightarrow> infos \<Rightarrow> bool res" where
  "fsm_state_writing sd s = rbind (get_fsm_state sd s) (\<lambda>st. Inr (st = FSM_WRITING_REPLY))"

definition sd_state_not_writable :: "nat \<Rightarrow> infos \<Rightarrow> infos" where
  "sd_state_not_writable ip s =
     (let st = sd_state (info s ! ip) in
      if EPOLLHUP \<in> st \<or> EPOLLERR \<in> st then s else upd_info ip (\<lambda>e. e\<lparr>sd_state := st - {EPOLLOUT}\<rparr>) s)"

definition sd_state_not_readable :: "nat \<Rightarrow> infos \<Rightarrow> infos" where
  "sd_state_not_readable ip s =
     (let st = sd_state (info s ! ip) in
      if EPOLLHUP \<in> st \<or> EPOLLERR \<in> st then s else upd_info ip (\<lambda>e. e\<lparr>sd_state := st - {EPOLLIN}\<rparr>) s)"

definition sd_state_update :: "nat \<Rightarrow> events \<Rightarrow> infos \<Rightarrow> infos" where
  "sd_state_update ip evs s =
     (let st = sd_state (info s ! ip) \<union> evs;
          st1 = (if EPOLLIN \<in> evs then insert EPOLLIN st else st);
          st2 = (if EPOLLOUT \<in> evs then insert EPOLLOUT st1 else st1);
          st3 = (if EPOLLERR \<in> evs \<or> EPOLLHUP \<in> evs then st2 \<union> {EPOLLIN, EPOLLOUT} else st2) in
      upd_info ip (\<lambda>e. e\<lparr>sd_state := st3\<rparr>) s)"

section \<open>The table as a map from descriptors to entries\<close>

definition index_of :: "int \<Rightarrow> nat option" where
  "index_of x = (if x < 0 then None else Some (nat x))"

definition info_lookup :: "infos \<Rightarrow> int \<Rightarrow> nat option" where
  "info_lookup s sd = (if sd_valid s sd then index_of (sd_map s ! nat sd) else None)"

definition info_next :: "infos \<Rightarrow> nat \<Rightarrow> nat option" where
  "info_next s i = index_of (next_free (info s ! i))"

text \<open>\<open>fs\<close> are the free entries in order. An entry that is neither free nor the entry of a descriptor
  is reserved.\<close>

definition info_inv :: "infos \<Rightarrow> nat list \<Rightarrow> bool" where
  "info_inv s fs \<longleftrightarrow> int (length (sd_map s)) = max_fds s + 1
     \<and> int (length (info s)) \<le> max_sock_sd s + 1 \<and> max_sock_sd s \<le> max_fds s
     \<and> - 1 \<le> info_first_free s \<and> (\<forall>i\<in>set fs. - 1 \<le> next_free (info s ! i)) \<and> (\<forall>x\<in>set (sd_map s). - 1 \<le> x)
     \<and> distinct fs \<and> set fs \<subseteq> {..<length (info s)} \<and> chain (info_next s) (index_of (info_first_free s)) fs
     \<and> (\<forall>sd i. info_lookup s sd = Some i \<longrightarrow> i < length (info s) \<and> i \<notin> set fs \<and> i_sd (info s ! i) = sd)"

lemma info_simps [simp]:
  "length (info (upd_info i f s)) = length (info s)" "sd_map (upd_info i f s) = sd_map s" "max_fds (upd_info i f s) = max_fds s"
  "max_sock_sd (upd_info i f s) = max_sock_sd s" "info_first_free (upd_info i f s) = info_first_free s"
  "i < length (info s) \<Longrightarrow> info (upd_info i f s) ! j = (if j = i then f (info s ! i) else info s ! j)"
  by (auto simp: upd_info_def)

lemma index_of_simps [simp]: "index_of (int i) = Some i" "index_of (- 1) = None"
  by (simp_all add: index_of_def)

lemma index_of_Some: "index_of x = Some i \<longleftrightarrow> x = int i"
  by (auto simp: index_of_def)

lemma sd_valid_frame [simp]:
  "sd_valid (upd_info i f s) = sd_valid s" "sd_valid (s\<lparr>sd_map := m\<rparr>) = sd_valid s" "sd_valid (s\<lparr>info_first_free := x\<rparr>) = sd_valid s"
  by (simp_all add: sd_valid_def fun_eq_iff)

lemma info_lookup_frame [simp]:
  "info_lookup (upd_info i f s) = info_lookup s" "info_lookup (s\<lparr>info_first_free := x\<rparr>) = info_lookup s"
  by (simp_all add: info_lookup_def fun_eq_iff)

lemma info_lookup_upd:
  assumes "sd_valid s sd" and "int (length (sd_map s)) = max_fds s + 1"
  shows "info_lookup (s\<lparr>sd_map := (sd_map s)[nat sd := x]\<rparr>) = (info_lookup s)(sd := index_of x)"
  using assms by (auto simp: info_lookup_def fun_eq_iff sd_valid_def nth_list_update nat_eq_iff)

lemma info_next_upd:
  "i < length (info s) \<Longrightarrow> info_next (upd_info i f s) = (info_next s)(i := index_of (next_free (f (info s ! i))))"
  by (auto simp: info_next_def fun_eq_iff)

lemma info_next_frame [simp]:
  "info_next (s\<lparr>sd_map := m\<rparr>) = info_next s" "info_next (s\<lparr>info_first_free := x\<rparr>) = info_next s"
  by (simp_all add: info_next_def fun_eq_iff)

section \<open>Behaviour\<close>

lemma info_inv_first:
  assumes "info_inv s (i # fs)"
  shows "info_first_free s = int i" "i < length (info s)" "int i \<le> max_fds s" "int i \<le> max_sock_sd s"
    "chain (info_next s) (info_next s i) fs"
  using assms by (auto simp: info_inv_def index_of_Some)

lemma info_get_entry_ok:
  assumes inv: "info_inv s (i # fs)"
  shows "\<exists>s'. info_get_entry s = Inr (int i, s') \<and> info_inv s' fs \<and> info_lookup s' = info_lookup s
    \<and> sd_map s' = sd_map s \<and> max_fds s' = max_fds s \<and> length (info s') = length (info s) \<and> (\<forall>j. i_sd (info s' ! j) = i_sd (info s ! j))"
proof -
  note f = info_inv_first [OF inv]
  let ?s = "upd_info i (\<lambda>e. e\<lparr>next_free := NULL_INDEX\<rparr>) (s\<lparr>info_first_free := next_free (info s ! i)\<rparr>)"
  have "info_get_entry s = Inr (int i, ?s)" using f by (simp add: info_get_entry_def)
  moreover have "info_inv ?s fs"
    using inv f by (auto simp: info_inv_def info_next_upd info_next_def [symmetric])
  ultimately show ?thesis using f(2) by (intro exI [of _ ?s]) auto
qed

lemma info_free_entry_ok:
  assumes inv: "info_inv s fs" and i: "i < length (info s)" "i \<notin> set fs" "\<forall>sd. info_lookup s sd \<noteq> Some i"
  shows "\<exists>s'. info_free_entry (int i) s = Inr s' \<and> info_inv s' (i # fs) \<and> info_lookup s' = info_lookup s
    \<and> sd_map s' = sd_map s \<and> max_fds s' = max_fds s"
proof -
  let ?s = "upd_info i (\<lambda>e. e\<lparr>next_free := info_first_free s\<rparr>) (s\<lparr>info_first_free := int i\<rparr>)"
  have "info_free_entry (int i) s = Inr ?s" using inv i by (auto simp: info_free_entry_def put_info_def info_inv_def)
  moreover have "info_inv ?s (i # fs)"
    using inv i by (auto simp: info_inv_def info_next_upd)
  ultimately show ?thesis by (intro exI [of _ ?s]) auto
qed

text \<open>\<open>info_add\<close> gives a new descriptor an entry of its own and leaves the others alone.\<close>

lemma info_add_ok:
  assumes inv: "info_inv s (i # fs)" and sd: "sd_valid s sd" "info_lookup s sd = None"
  shows "\<exists>s'. info_add sd s = Inr (int i, s') \<and> info_inv s' fs \<and> info_lookup s' = (info_lookup s)(sd \<mapsto> i)"
proof -
  obtain s1 where s1: "info_get_entry s = Inr (int i, s1)" "info_inv s1 fs" "info_lookup s1 = info_lookup s"
    "sd_map s1 = sd_map s" "max_fds s1 = max_fds s" "length (info s1) = length (info s)" "\<forall>j. i_sd (info s1 ! j) = i_sd (info s ! j)"
    using info_get_entry_ok [OF inv] by blast
  note f = info_inv_first [OF inv]
  have v1: "sd_valid s1 sd" using sd(1) s1(5) by (simp add: sd_valid_def)
  have len: "int (length (sd_map s)) = max_fds s + 1" and "\<forall>x\<in>set (sd_map s). - 1 \<le> x" using inv by (auto simp: info_inv_def)
  then have "- 1 \<le> sd_map s ! nat sd" using sd(1) by (auto simp: sd_valid_def)
  then have m: "sd_map s ! nat sd = NULL_INDEX" using sd by (auto simp: info_lookup_def index_of_def split: if_splits)
  let ?s = "upd_info i (\<lambda>e. e\<lparr>i_sd := sd\<rparr>) (s1\<lparr>sd_map := (sd_map s)[nat sd := int i]\<rparr>)"
  have e: "info_add sd s = Inr (int i, ?s)" using sd(1) m s1 f(2) by (simp add: info_add_def put_info_def)
  have l: "info_lookup ?s = (info_lookup s)(sd \<mapsto> i)"
    using info_lookup_upd [OF v1, of "int i"] s1(3-5) len by simp
  have other: "j \<noteq> i" if "info_lookup s sd' = Some j" for j sd' using inv that by (auto simp: info_inv_def)
  have "info_inv ?s fs"
    unfolding info_inv_def
  proof (intro conjI allI impI)
    fix sd' j assume "info_lookup ?s sd' = Some j"
    then consider "sd' = sd" "j = i" | "sd' \<noteq> sd" "info_lookup s sd' = Some j" unfolding l by (auto split: if_splits)
    then show "j < length (info ?s)" "j \<notin> set fs" "i_sd (info ?s ! j) = sd'"
      using inv f(2) s1(6,7) other by (cases, auto simp: info_inv_def)+
  next
    show "chain (info_next ?s) (index_of (info_first_free ?s)) fs"
      using s1(2) inv f(2) s1(6) by (simp add: info_inv_def info_next_upd)
  next
    show "\<forall>x\<in>set (sd_map ?s). - 1 \<le> x" using s1(2,4) by (auto simp: info_inv_def dest!: set_update_subset_insert [THEN subsetD])
  qed (use s1 inv f(2) in \<open>auto simp: info_inv_def\<close>)
  with e l show ?thesis by blast
qed

lemma info_delete_ok:
  assumes inv: "info_inv s fs" and l: "info_lookup s sd = Some i"
  shows "\<exists>s'. info_delete sd s = Inr s' \<and> info_inv s' (i # fs) \<and> info_lookup s' = (info_lookup s)(sd := None)"
proof -
  have i: "i < length (info s)" "i \<notin> set fs" "i_sd (info s ! i) = sd" using inv l by (auto simp: info_inv_def)
  have v: "sd_valid s sd" and m: "sd_map s ! nat sd = int i"
    using l by (auto simp: info_lookup_def index_of_Some split: if_splits)
  have le: "int i \<le> max_sock_sd s" using inv i(1) by (auto simp: info_inv_def)
  let ?s1 = "upd_info i (\<lambda>e. e\<lparr>i_sd := -1, i_fsm_state := FSM_INITIAL_STATE\<rparr>) s"
  let ?s = "(upd_info i (\<lambda>e. e\<lparr>next_free := info_first_free s\<rparr>) (?s1\<lparr>info_first_free := int i\<rparr>))\<lparr>sd_map := (sd_map s)[nat sd := NULL_INDEX]\<rparr>"
  have e: "info_delete sd s = Inr ?s" using v m i(1) le by (simp add: info_delete_def put_info_def info_free_entry_def)
  have lk: "info_lookup ?s = (info_lookup s)(sd := None)"
    using info_lookup_upd [of "upd_info i (\<lambda>e. e\<lparr>next_free := info_first_free s\<rparr>) (?s1\<lparr>info_first_free := int i\<rparr>)" sd NULL_INDEX] v inv
    by (simp add: info_inv_def)
  have other: "j \<noteq> i" if "info_lookup s sd' = Some j" "sd' \<noteq> sd" for j sd' using inv that i(3) by (auto simp: info_inv_def)
  have "info_inv ?s (i # fs)"
    unfolding info_inv_def
  proof (intro conjI allI impI)
    fix sd' j assume "info_lookup ?s sd' = Some j"
    then have "sd' \<noteq> sd" "info_lookup s sd' = Some j" unfolding lk by (auto split: if_splits)
    then show "j < length (info ?s)" "j \<notin> set (i # fs)" "i_sd (info ?s ! j) = sd'"
      using inv i(1) other by (auto simp: info_inv_def)
  next
    show "chain (info_next ?s) (index_of (info_first_free ?s)) (i # fs)"
      using inv i by (simp add: info_inv_def info_next_upd)
  next
    show "\<forall>x\<in>set (sd_map ?s). - 1 \<le> x" using inv by (auto simp: info_inv_def dest!: set_update_subset_insert [THEN subsetD])
  qed (use inv i in \<open>auto simp: info_inv_def\<close>)
  with e lk show ?thesis by blast
qed

lemma info_index_ok:
  assumes inv: "info_inv s fs" and sd: "sd_valid s sd"
  shows "info_index sd s = Inr (case info_lookup s sd of None \<Rightarrow> NULL_INDEX | Some i \<Rightarrow> int i)"
proof -
  have "- 1 \<le> sd_map s ! nat sd" using inv sd by (auto simp: info_inv_def sd_valid_def)
  moreover have "info_lookup s sd = Some i \<Longrightarrow> int i \<le> max_sock_sd s" for i using inv by (force simp: info_inv_def)
  moreover have "- 1 \<le> max_sock_sd s" using inv by (auto simp: info_inv_def)
  ultimately show ?thesis using sd by (auto simp: info_index_def info_lookup_def index_of_def split: if_splits)
qed

lemma info_ptr_ok: "info_inv s fs \<Longrightarrow> sd_valid s sd \<Longrightarrow> info_ptr sd s = Inr (info_lookup s sd)"
  using info_index_ok [of s fs sd] unfolding info_ptr_def info_inv_def
  by (cases "info_lookup s sd") (fastforce simp: not_le)+

text \<open>Deleting a descriptor that is not in the table writes before the first entry.\<close>

lemma info_delete_missing:
  assumes "sd_valid s sd" and "sd_map s ! nat sd = NULL_INDEX"
  shows "info_delete sd s = Inl BufferOverflow"
  using assms by (simp add: info_delete_def put_info_def)

lemma free_all_ok:
  assumes "info_inv s [n..<length (info s)]" and "n \<le> length (info s)" and "\<forall>sd. info_lookup s sd = None"
  shows "\<exists>s'. free_all n s = Inr s' \<and> info_inv s' [0..<length (info s)] \<and> (\<forall>sd. info_lookup s' sd = None)"
  using assms
proof (induction n arbitrary: s)
  case (Suc n)
  let ?s = "upd_info n (\<lambda>e. e\<lparr>next_free := info_first_free s\<rparr>) (s\<lparr>info_first_free := int n\<rparr>)"
  have e: "info_free_entry (int n) s = Inr ?s" using Suc.prems by (auto simp: info_free_entry_def put_info_def info_inv_def)
  have "n < length (info s)" "n \<notin> set [Suc n..<length (info s)]" using Suc.prems(2) by auto
  from info_free_entry_ok [OF Suc.prems(1) this] Suc.prems(3) e
  have "info_inv ?s (n # [Suc n..<length (info s)])" by auto
  then have "info_inv ?s [n..<length (info ?s)]" using Suc.prems(2) by (simp add: upt_conv_Cons)
  from Suc.IH [OF this] Suc.prems(2,3) e show ?case by simp
qed simp

lemma info_init_ok:
  assumes "int (length mem) \<le> msock + 1" and "msock \<le> mfds"
  shows "\<exists>s. info_init mem mfds msock = Inr s \<and> info_inv s [0..<length mem] \<and> (\<forall>sd. info_lookup s sd = None)"
proof -
  let ?s = "\<lparr>info = map (\<lambda>e. e\<lparr>i_sd := -1, i_fsm_state := FSM_INITIAL_STATE\<rparr>) mem,
        sd_map = replicate (nat (mfds + 1)) NULL_INDEX, info_first_free = NULL_INDEX, max_fds = mfds, max_sock_sd = msock\<rparr>"
  have l: "info_lookup ?s sd = None" for sd by (auto simp: info_lookup_def sd_valid_def)
  then have "info_inv ?s [length (info ?s)..<length (info ?s)]" using assms by (auto simp: info_inv_def)
  from free_all_ok [OF this] l show ?thesis by (simp add: info_init_def)
qed

section \<open>Readiness\<close>

text \<open>After a hang-up or an error a connection stays readable and writable, whatever is cleared.\<close>

lemma sd_state_hup_sticks:
  assumes "ip < length (info s)" and "EPOLLHUP \<in> evs \<or> EPOLLERR \<in> evs"
  shows "let s' = sd_state_not_writable ip (sd_state_not_readable ip (sd_state_update ip evs s)) in
    {EPOLLIN, EPOLLOUT} \<subseteq> sd_state (info s' ! ip)"
  using assms by (auto simp: sd_state_not_writable_def sd_state_not_readable_def sd_state_update_def Let_def)

section \<open>An example table\<close>

definition demo_infos :: "info_entry list" where
  "demo_infos = replicate 3 \<lparr>i_sd = 0, next_free = -7, i_fsm_state = FSM_UNKNOWN, sd_state = {}\<rparr>"

lemma free_all_max_fds: "free_all n s = Inr s' \<Longrightarrow> max_fds s' = max_fds s \<and> length (info s') = length (info s)"
  by (induction n arbitrary: s)
    (auto simp: rbind_eq_Inr info_free_entry_def put_info_def Let_def split: if_splits)

lemma demo_info_table:
  "\<exists>s. info_init demo_infos 9 2 = Inr s \<and> info_inv s [0..<3] \<and> (\<forall>sd. info_lookup s sd = None) \<and> max_fds s = 9"
proof -
  obtain s where s: "info_init demo_infos 9 2 = Inr s" "info_inv s [0..<3]" "\<forall>sd. info_lookup s sd = None"
    using info_init_ok [of demo_infos 2 9] by (auto simp: demo_infos_def)
  moreover have "max_fds s = 9" using s(1) free_all_max_fds unfolding info_init_def by fastforce
  ultimately show ?thesis by blast
qed

lemma demo_info_added: "\<exists>s. info_inv s [1, 2] \<and> info_lookup s 7 = Some 0 \<and> length (info s) = 3 \<and> sd_valid s 7"
proof -
  obtain s where s: "info_init demo_infos 9 2 = Inr s" "info_inv s [0..<3]" "\<forall>sd. info_lookup s sd = None" "max_fds s = 9"
    using demo_info_table by blast
  have len: "length (info s) = 3" using free_all_max_fds s(1) unfolding info_init_def by (fastforce simp: demo_infos_def)
  have v: "sd_valid s 7" using s(4) by (simp add: sd_valid_def)
  have inv: "info_inv s (0 # [1, 2])" using s(2) by (simp add: upt_rec numeral_2_eq_2)
  obtain s' where s': "info_add 7 s = Inr (int 0, s')" "info_inv s' [1, 2]" "info_lookup s' = (info_lookup s)(7 \<mapsto> 0)"
    using info_add_ok [OF inv v] s(3) by metis
  have "length (info s') = length (info s)"
    using s'(1) by (auto simp: info_add_def rbind_eq_Inr info_get_entry_def put_info_def Let_def split: if_splits)
  moreover have "info_lookup s' 7 = Some 0" using s'(3) by simp
  moreover from this have "sd_valid s' 7" by (auto simp: info_lookup_def split: if_splits)
  ultimately show ?thesis using s'(2) len by auto
qed

end
