(* ===== verification/Userver_Lru.thy ===== *)
theory Userver_Lru
  imports Userver_Info
begin

text \<open>
  The least-recently-used order of the connections of the userver, \<open>userver-0.9.0/lru.c\<close>, and the
  function that closes idle connections, \<open>close_idle_conns.c\<close>. The list runs through an array with
  one entry per connection entry and some more; only the links between neighbours are maintained,
  the outer links of its ends are whatever they were. Closing a connection is \<open>do_close\<close>, a
  parameter here.
\<close>

type_synonym timeval = "int \<times> int"

record lru_entry =
  l_time :: timeval
  l_prev :: int
  l_next :: int
  l_sd :: int

record lrus =
  lru :: "lru_entry list"
  lru_head :: int
  lru_tail :: int
  lru_now :: timeval

section \<open>Operations\<close>

definition lru_init :: "timeval \<Rightarrow> nat \<Rightarrow> lrus" where
  "lru_init now n =
     \<lparr>lru = map (\<lambda>i. \<lparr>l_time = (0, 0), l_prev = int i - 1, l_next = int i + 1, l_sd = -1\<rparr>) [0..<n],
      lru_head = 0, lru_tail = int n - 1, lru_now = now\<rparr>"

definition upd_lru :: "nat \<Rightarrow> (lru_entry \<Rightarrow> lru_entry) \<Rightarrow> lrus \<Rightarrow> lrus" where
  "upd_lru i f s = s\<lparr>lru := (lru s)[i := f (lru s ! i)]\<rparr>"

definition put_lru :: "int \<Rightarrow> (lru_entry \<Rightarrow> lru_entry) \<Rightarrow> lrus \<Rightarrow> lrus res" where
  "put_lru i f s = (if i < 0 \<or> int (length (lru s)) \<le> i then Inl BufferOverflow else Inr (upd_lru (nat i) f s))"

text \<open>The links of \<open>self\<close> are read where they are used, after the writes before them.\<close>

definition lru_unlink :: "nat \<Rightarrow> lrus \<Rightarrow> lrus res" where
  "lru_unlink self s =
     (if int self = lru_tail s then Inr (s\<lparr>lru_tail := l_prev (lru s ! self)\<rparr>)
      else rbind (put_lru (l_prev (lru s ! self)) (\<lambda>e. e\<lparr>l_next := l_next (lru s ! self)\<rparr>) s) (\<lambda>s1.
           put_lru (l_next (lru s1 ! self)) (\<lambda>e. e\<lparr>l_prev := l_prev (lru s1 ! self)\<rparr>) s1))"

definition lru_to_front :: "nat \<Rightarrow> lrus \<Rightarrow> lrus res" where
  "lru_to_front self s =
     (if lru_head s \<noteq> lru_tail s \<and> int self \<noteq> lru_head s then
        rbind (lru_unlink self s) (\<lambda>s1.
        rbind (put_lru (lru_head s1) (\<lambda>e. e\<lparr>l_prev := int self\<rparr>)
                 (upd_lru self (\<lambda>e. e\<lparr>l_next := lru_head s1\<rparr>) s1)) (\<lambda>s2.
        Inr (s2\<lparr>lru_head := int self\<rparr>)))
      else Inr s)"

text \<open>\<open>listener\<close> and \<open>special\<close> are the sets of the listening and of the special sockets.\<close>

definition lru_access :: "int set \<Rightarrow> int set \<Rightarrow> infos \<Rightarrow> int \<Rightarrow> lrus \<Rightarrow> lrus res" where
  "lru_access listener special I sd s =
     (if sd \<in> listener then Inl AssertFail
      else if sd \<in> special then Inr s
      else rbind (info_index sd I) (\<lambda>self.
        if self = NULL_INDEX \<or> int (length (lru s)) \<le> self then Inl AssertFail
        else rbind (put_lru self (\<lambda>e. e\<lparr>l_time := lru_now s, l_sd := sd\<rparr>) s) (lru_to_front (nat self))))"

definition lru_closed :: "infos \<Rightarrow> int \<Rightarrow> lrus \<Rightarrow> lrus res" where
  "lru_closed I sd s = rbind (info_index sd I) (\<lambda>self. put_lru self (\<lambda>e. e\<lparr>l_sd := -1\<rparr>) s)"

fun timersub :: "timeval \<Rightarrow> timeval \<Rightarrow> timeval" where
  "timersub (s1, u1) (s2, u2) = (if u1 < u2 then (s1 - s2 - 1, u1 - u2 + 1000000) else (s1 - s2, u1 - u2))"

fun timerless :: "timeval \<Rightarrow> timeval \<Rightarrow> bool" where
  "timerless (s1, u1) (s2, u2) = (if s1 = s2 then u1 < u2 else s1 < s2)"

text \<open>The connection that \<open>close_idle_conns\<close> closes, if any: the one at the tail, when it has been idle
  for longer than the threshold.\<close>

definition idle_victim :: "int set \<Rightarrow> int \<Rightarrow> int \<Rightarrow> timeval \<Rightarrow> lrus \<Rightarrow> int option res" where
  "idle_victim listener idle_threshold num_idle now s =
     (if 0 < num_idle then Inr None
      else if lru_tail s < 0 \<or> int (length (lru s)) \<le> lru_tail s then Inl OverRead
      else
        let t = lru s ! nat (lru_tail s) in
        if timerless (l_time t) (timersub now (idle_threshold, 0)) then
          (if l_sd t = -1 then Inr None
           else if l_sd t \<in> listener then Inl AssertFail
           else Inr (Some (l_sd t)))
        else Inr None)"

definition close_idle_conns :: "int set \<Rightarrow> int \<Rightarrow> infos \<Rightarrow> int \<Rightarrow> timeval \<Rightarrow> (nat \<Rightarrow> lrus \<Rightarrow> lrus res) \<Rightarrow> lrus \<Rightarrow> lrus res" where
  "close_idle_conns listener idle_threshold I num_idle now do_close s =
     rbind (idle_victim listener idle_threshold num_idle now s) (\<lambda>v.
     case v of None \<Rightarrow> Inr s
     | Some sd \<Rightarrow> rbind (info_ptr sd I) (\<lambda>ip. case ip of None \<Rightarrow> Inl AssertFail | Some i \<Rightarrow> do_close i s))"

section \<open>The list\<close>

definition lru_nx :: "lrus \<Rightarrow> nat \<Rightarrow> int" where "lru_nx s i = l_next (lru s ! i)"
definition lru_pv :: "lrus \<Rightarrow> nat \<Rightarrow> int" where "lru_pv s i = l_prev (lru s ! i)"

interpretation lru_list: link_store int lru_nx lru_pv "\<lambda>i v. upd_lru i (\<lambda>e. e\<lparr>l_next := v\<rparr>)" "\<lambda>i v. upd_lru i (\<lambda>e. e\<lparr>l_prev := v\<rparr>)"
    "\<lambda>s i. i < length (lru s)"
  by unfold_locales
    (auto simp: lru_nx_def lru_pv_def upd_lru_def fun_eq_iff nth_list_update intro: nth_update_keep)

definition lru_rep :: "lrus \<Rightarrow> nat list \<Rightarrow> bool" where
  "lru_rep s xs \<longleftrightarrow> xs \<noteq> [] \<and> distinct xs \<and> set xs = {..<length (lru s)} \<and> linked int (lru_nx s) (lru_pv s) xs
     \<and> lru_head s = int (hd xs) \<and> lru_tail s = int (last xs)"

lemma upd_lru_frame [simp]:
  "length (lru (upd_lru i f s)) = length (lru s)" "lru_head (upd_lru i f s) = lru_head s" "lru_tail (upd_lru i f s) = lru_tail s"
  "lru_now (upd_lru i f s) = lru_now s"
  by (simp_all add: upd_lru_def)

lemma lru_link_frame [simp]:
  "lru_nx (s\<lparr>lru_head := h\<rparr>) = lru_nx s" "lru_pv (s\<lparr>lru_head := h\<rparr>) = lru_pv s"
  "lru_nx (s\<lparr>lru_tail := h\<rparr>) = lru_nx s" "lru_pv (s\<lparr>lru_tail := h\<rparr>) = lru_pv s"
  "lru_nx (upd_lru i (\<lambda>e. e\<lparr>l_time := t, l_sd := d\<rparr>) s) = lru_nx s" "lru_pv (upd_lru i (\<lambda>e. e\<lparr>l_time := t, l_sd := d\<rparr>) s) = lru_pv s"
  "lru_nx (upd_lru i (\<lambda>e. e\<lparr>l_sd := d\<rparr>) s) = lru_nx s" "lru_pv (upd_lru i (\<lambda>e. e\<lparr>l_sd := d\<rparr>) s) = lru_pv s"
  by (auto simp: lru_nx_def lru_pv_def upd_lru_def fun_eq_iff intro: nth_update_keep)

lemma lru_data_frame [simp]:
  "l_sd (lru (upd_lru i (\<lambda>e. e\<lparr>l_next := v\<rparr>) s) ! j) = l_sd (lru s ! j)" "l_sd (lru (upd_lru i (\<lambda>e. e\<lparr>l_prev := v\<rparr>) s) ! j) = l_sd (lru s ! j)"
  "l_time (lru (upd_lru i (\<lambda>e. e\<lparr>l_next := v\<rparr>) s) ! j) = l_time (lru s ! j)" "l_time (lru (upd_lru i (\<lambda>e. e\<lparr>l_prev := v\<rparr>) s) ! j) = l_time (lru s ! j)"
  by (auto simp: upd_lru_def intro: nth_update_keep)

lemma lru_init_rep: "0 < n \<Longrightarrow> lru_rep (lru_init now n) [0..<n]"
proof -
  have "linked int (lru_nx (lru_init now n)) (lru_pv (lru_init now n)) [i..<n]" for i
  proof (induction "n - i" arbitrary: i)
    case (Suc k)
    then have "[i..<n] = i # [Suc i..<n]" "linked int (lru_nx (lru_init now n)) (lru_pv (lru_init now n)) [Suc i..<n]"
      by (auto simp: upt_rec)
    then show ?case by (auto simp: linked_Cons lru_nx_def lru_pv_def lru_init_def)
  qed simp
  then show "0 < n \<Longrightarrow> lru_rep (lru_init now n) [0..<n]" by (auto simp: lru_rep_def lru_init_def)
qed

text \<open>\<open>as\<close> are the entries before \<open>i\<close>: the list without \<open>i\<close>, and its tail.\<close>

lemma lru_unlink_rep:
  assumes r: "lru_rep s (as @ i # bs)" and as: "as \<noteq> []"
  obtains s' where "lru_unlink i s = Inr s'" "linked int (lru_nx s') (lru_pv s') (as @ bs)" "lru_tail s' = int (last (as @ bs))"
    "lru_head s' = lru_head s" "length (lru s') = length (lru s)" "lru_now s' = lru_now s"
    "\<And>j. l_sd (lru s' ! j) = l_sd (lru s ! j)" "\<And>j. l_time (lru s' ! j) = l_time (lru s ! j)"
proof (cases "bs = []")
  case True
  let ?s = "s\<lparr>lru_tail := l_prev (lru s ! i)\<rparr>"
  have "lru_pv s i = int (last as)" "linked int (lru_nx s) (lru_pv s) as" using r as True by (auto simp: lru_rep_def linked_append)
  then show ?thesis using r True by (intro that [of ?s]) (auto simp: lru_unlink_def lru_rep_def lru_pv_def)
next
  case False
  have l: "linked int (lru_nx s) (lru_pv s) (as @ i # bs)" and d: "distinct (as @ i # bs)"
    and t: "int i \<noteq> lru_tail s" "lru_tail s = int (last bs)" using r False by (auto simp: lru_rep_def)
  have v: "last as < length (lru s)" "hd bs < length (lru s)" using r as False by (auto simp: lru_rep_def subset_iff)
  note u = linked_unlink [OF l d as False]
  have ne: "last as \<noteq> i" using d as by auto
  let ?s = "upd_lru (hd bs) (\<lambda>e. e\<lparr>l_prev := lru_pv s i\<rparr>) (upd_lru (last as) (\<lambda>e. e\<lparr>l_next := lru_nx s i\<rparr>) s)"
  have "lru_unlink i s = Inr ?s"
  proof -
    let ?s1 = "upd_lru (last as) (\<lambda>e. e\<lparr>l_next := lru_nx s i\<rparr>) s"
    have "lru ?s1 ! i = lru s ! i" using ne by (simp add: upd_lru_def)
    then show ?thesis using t(1) u(2,3) v by (simp add: lru_unlink_def put_lru_def lru_nx_def lru_pv_def)
  qed
  moreover have "linked int (lru_nx ?s) (lru_pv ?s) (as @ bs)" using lru_list.unlink [OF l d as False v] .
  ultimately show ?thesis
    using t False by (intro that [of ?s]) simp_all
qed

lemma lru_to_front_rep:
  assumes r: "lru_rep s xs" and i: "i \<in> set xs"
  shows "\<exists>s'. lru_to_front i s = Inr s' \<and> lru_rep s' (i # remove1 i xs) \<and> length (lru s') = length (lru s)
    \<and> (\<forall>j. l_sd (lru s' ! j) = l_sd (lru s ! j)) \<and> (\<forall>j. l_time (lru s' ! j) = l_time (lru s ! j))"
proof (cases "i = hd xs")
  case True
  moreover have "xs \<noteq> []" using i by auto
  ultimately have "i # remove1 i xs = xs" by (cases xs) auto
  then show ?thesis using r True by (auto simp: lru_to_front_def lru_rep_def)
next
  case False
  obtain as bs where xs: "xs = as @ i # bs" and "i \<notin> set as" using i by (auto dest: split_list_first)
  then have rm: "remove1 i xs = as @ bs" by (simp add: remove1_append)
  have as: "as \<noteq> []" using False xs by auto
  obtain s1 where u: "lru_unlink i s = Inr s1" "linked int (lru_nx s1) (lru_pv s1) (as @ bs)" "lru_tail s1 = int (last (as @ bs))"
    "lru_head s1 = lru_head s" "length (lru s1) = length (lru s)"
    "\<And>j. l_sd (lru s1 ! j) = l_sd (lru s ! j)" "\<And>j. l_time (lru s1 ! j) = l_time (lru s ! j)"
    using lru_unlink_rep [OF r [unfolded xs] as] by metis
  have "hd as \<notin> set (i # bs)" "last (i # bs) \<in> set (i # bs)" using r as by (auto simp: lru_rep_def xs disjoint_iff)
  then have "hd as \<noteq> last (i # bs)" by metis
  then have ht: "lru_head s \<noteq> lru_tail s" using r as by (auto simp: lru_rep_def xs)
  have hd: "lru_head s = int (hd (as @ bs))" "lru_head s \<noteq> int i"
    and v: "i < length (lru s)" "hd (as @ bs) < length (lru s)" and d: "distinct (i # as @ bs)"
    using r as by (auto simp: lru_rep_def xs subset_iff disjoint_iff)
  let ?s = "(upd_lru (hd (as @ bs)) (\<lambda>e. e\<lparr>l_prev := int i\<rparr>) (upd_lru i (\<lambda>e. e\<lparr>l_next := int (hd (as @ bs))\<rparr>) s1))\<lparr>lru_head := int i\<rparr>"
  have "lru_to_front i s = Inr ?s"
    using ht hd u v by (simp add: lru_to_front_def put_lru_def)
  moreover have "lru_rep ?s (i # as @ bs)"
    using lru_list.push_front [OF u(2) d] as v u(3,5) r d by (auto simp: lru_rep_def xs)
  moreover have "l_sd (lru ?s ! j) = l_sd (lru s ! j)" "l_time (lru ?s ! j) = l_time (lru s ! j)" for j
    using u(6,7) by simp_all
  ultimately show ?thesis using rm u(5) by auto
qed

section \<open>Behaviour\<close>

lemma lru_access_ok:
  assumes r: "lru_rep s xs" and inv: "info_inv I fs" and l: "info_lookup I sd = Some i" "i < length (lru s)"
    and sd: "sd \<notin> listener" "sd \<notin> special"
  shows "\<exists>s'. lru_access listener special I sd s = Inr s' \<and> lru_rep s' (i # remove1 i xs) \<and> length (lru s') = length (lru s)
    \<and> (\<forall>j. l_sd (lru s' ! j) = (if j = i then sd else l_sd (lru s ! j)))
    \<and> (\<forall>j. l_time (lru s' ! j) = (if j = i then lru_now s else l_time (lru s ! j)))"
proof -
  have v: "sd_valid I sd" using l(1) by (auto simp: info_lookup_def split: if_splits)
  have ix: "info_index sd I = Inr (int i)" using info_index_ok [OF inv v] l(1) by simp
  let ?s = "upd_lru i (\<lambda>e. e\<lparr>l_time := lru_now s, l_sd := sd\<rparr>) s"
  have "lru_rep ?s xs" using r by (simp add: lru_rep_def)
  moreover have "i \<in> set xs" using r l(2) by (auto simp: lru_rep_def)
  ultimately obtain s' where "lru_to_front i ?s = Inr s'" "lru_rep s' (i # remove1 i xs)" "length (lru s') = length (lru ?s)"
    "\<forall>j. l_sd (lru s' ! j) = l_sd (lru ?s ! j)" "\<forall>j. l_time (lru s' ! j) = l_time (lru ?s ! j)"
    using lru_to_front_rep by blast
  then show ?thesis using sd ix l(2) by (auto simp: lru_access_def put_lru_def upd_lru_def)
qed

lemma lru_closed_ok:
  assumes r: "lru_rep s xs" and inv: "info_inv I fs" and l: "info_lookup I sd = Some i" "i < length (lru s)"
  shows "\<exists>s'. lru_closed I sd s = Inr s' \<and> lru_rep s' xs \<and> length (lru s') = length (lru s)
    \<and> (\<forall>j. l_sd (lru s' ! j) = (if j = i then -1 else l_sd (lru s ! j)))"
proof -
  have v: "sd_valid I sd" using l(1) by (auto simp: info_lookup_def split: if_splits)
  have ix: "info_index sd I = Inr (int i)" using info_index_ok [OF inv v] l(1) by simp
  let ?s = "upd_lru i (\<lambda>e. e\<lparr>l_sd := -1\<rparr>) s"
  have "lru_rep ?s xs" using r by (simp add: lru_rep_def)
  then show ?thesis using ix l(2) by (auto simp: lru_closed_def put_lru_def upd_lru_def)
qed

text \<open>The list is ordered by the time of the last access as long as the clock does not go back.\<close>

definition lru_sorted :: "lrus \<Rightarrow> nat list \<Rightarrow> bool" where
  "lru_sorted s xs \<longleftrightarrow> sorted_wrt (\<lambda>i j. \<not> timerless (l_time (lru s ! i)) (l_time (lru s ! j))) xs"

lemma lru_access_sorted:
  assumes "lru_sorted s xs" and "distinct xs" and now: "\<forall>j. \<not> timerless (lru_now s) (l_time (lru s ! j))"
    and t: "\<forall>j. l_time (lru s' ! j) = (if j = i then lru_now s else l_time (lru s ! j))"
  shows "lru_sorted s' (i # remove1 i xs)"
proof -
  have sub: "set (remove1 i xs) \<subseteq> set xs - {i}" using assms(2) by auto
  have "sorted_wrt (\<lambda>i j. \<not> timerless (l_time (lru s ! i)) (l_time (lru s ! j))) (remove1 i xs)"
    using assms(1) by (induction xs) (auto simp: lru_sorted_def dest: set_remove1_subset [THEN subsetD])
  then have "sorted_wrt (\<lambda>i j. \<not> timerless (l_time (lru s' ! i)) (l_time (lru s' ! j))) (remove1 i xs)"
    by (rule sorted_wrt_mono_rel [rotated]) (use sub t in auto)
  then show ?thesis using t now sub by (auto simp: lru_sorted_def)
qed

section \<open>Idle connections are never closed\<close>

text \<open>A run of the server as the list sees it: accesses and closes, each with the connection table
  of that moment.\<close>

datatype lru_op = Access infos int | Closed infos int

fun lru_apply :: "int set \<Rightarrow> int set \<Rightarrow> lru_op \<Rightarrow> lrus \<Rightarrow> lrus res" where
  "lru_apply listener special (Access I sd) s = lru_access listener special I sd s"
| "lru_apply listener special (Closed I sd) s = lru_closed I sd s"

fun lru_exec :: "int set \<Rightarrow> int set \<Rightarrow> lru_op list \<Rightarrow> lrus \<Rightarrow> lrus res" where
  "lru_exec listener special [] s = Inr s"
| "lru_exec listener special (oper # ops) s = rbind (lru_apply listener special oper s) (lru_exec listener special ops)"

text \<open>The descriptor of an operation is in its table, and the table has at most \<open>n\<close> entries.\<close>

fun op_ok :: "nat \<Rightarrow> lru_op \<Rightarrow> bool" where
  "op_ok n (Access I sd) = ((\<exists>fs. info_inv I fs) \<and> length (info I) \<le> n \<and> info_lookup I sd \<noteq> None)"
| "op_ok n (Closed I sd) = ((\<exists>fs. info_inv I fs) \<and> length (info I) \<le> n \<and> info_lookup I sd \<noteq> None)"

definition tail_unused :: "nat \<Rightarrow> lrus \<Rightarrow> bool" where
  "tail_unused n s \<longleftrightarrow> (\<exists>xs. lru_rep s xs \<and> length (lru s) = Suc n \<and> last xs = n \<and> l_sd (lru s ! n) = -1)"

lemma info_lookup_less: "info_inv I fs \<Longrightarrow> info_lookup I sd = Some i \<Longrightarrow> i < length (info I)"
  by (simp add: info_inv_def)

lemma last_to_front:
  assumes "lru_rep s xs" and "length (lru s) = Suc n" and "last xs = n" and "i < n"
  shows "last (i # remove1 i xs) = n"
proof -
  obtain ys where ys: "xs = ys @ [n]" using assms(1,3) by (metis append_butlast_last_id lru_rep_def)
  have "i \<in> set xs" using assms(1,2,4) by (auto simp: lru_rep_def)
  then have "i \<in> set ys" using ys assms(4) by auto
  then show ?thesis using ys by (simp add: remove1_append)
qed

lemma lru_apply_tail:
  assumes t: "tail_unused n s" and ok: "op_ok n oper" and e: "lru_apply listener special oper s = Inr s'"
  shows "tail_unused n s'"
proof -
  obtain xs where xs: "lru_rep s xs" "length (lru s) = Suc n" "last xs = n" "l_sd (lru s ! n) = -1" using t by (auto simp: tail_unused_def)
  show ?thesis
  proof (cases oper)
    case (Access I sd)
    obtain fs i where i: "info_inv I fs" "info_lookup I sd = Some i" "i < n"
      using ok Access info_lookup_less by fastforce
    show ?thesis
    proof (cases "sd \<in> special \<or> sd \<in> listener")
      case True
      then show ?thesis using e t Access by (auto simp: lru_access_def split: if_splits)
    next
      case False
      have "i < length (lru s)" using i(3) xs(2) by simp
      from lru_access_ok [OF xs(1) i(1,2) this, of listener special] False e Access
      have "lru_rep s' (i # remove1 i xs)" "length (lru s') = Suc n" "l_sd (lru s' ! n) = (if n = i then sd else -1)"
        using xs(2,4) by auto
      with last_to_front [OF xs(1-3) i(3)] i(3) show ?thesis unfolding tail_unused_def by (metis less_irrefl)
    qed
  next
    case (Closed I sd)
    obtain fs i where i: "info_inv I fs" "info_lookup I sd = Some i" "i < n"
      using ok Closed info_lookup_less by fastforce
    have "i < length (lru s)" using i(3) xs(2) by simp
    from lru_closed_ok [OF xs(1) i(1,2) this] e Closed xs show ?thesis unfolding tail_unused_def by auto
  qed
qed

lemma lru_exec_tail:
  assumes "tail_unused n s" and "\<forall>oper\<in>set ops. op_ok n oper" and "lru_exec listener special ops s = Inr s'"
  shows "tail_unused n s'"
  using assms
proof (induction ops arbitrary: s)
  case (Cons oper ops)
  then show ?case using lru_apply_tail by (fastforce simp: rbind_eq_Inr)
qed simp

lemma idle_victim_none: "tail_unused n s \<Longrightarrow> idle_victim listener thold num_idle now s = Inr None"
proof -
  assume t: "tail_unused n s"
  then have tail: "lru_tail s = int n" "n < length (lru s)" "l_sd (lru s ! n) = -1" unfolding tail_unused_def lru_rep_def by force+
  then show ?thesis by (simp add: idle_victim_def Let_def)
qed

lemma lru_init_tail: "tail_unused n (lru_init now (Suc n))"
  using lru_init_rep [of "Suc n" now] by (auto simp: tail_unused_def lru_init_def nth_append intro!: exI [of _ "[0..<Suc n]"])

end
