(* ===== verification/Userver_Parse.thy ===== *)
theory Userver_Parse
  imports Http_Request
begin

text \<open>
  The request parser of the userver, \<open>userver-0.9.0/parse.c\<close>: a state machine that is called with
  the bytes of each \<open>read\<close> and keeps in \<open>struct req\<close> where it is, so that a request may arrive in
  any number of pieces. The build is that of \<open>Makefile.base\<close> on Linux (\<open>CALL_STATS\<close> on,
  \<open>UMEMREDUCTION\<close> and \<open>MOD_SPECWEB99\<close> off).

  The buffer is what the pointers say of it: \<open>mem\<close> is the memory from \<open>cur\<close> to the end of the
  array and \<open>n\<close> is \<open>end - cur\<close>. Two headers are read past \<open>end\<close>, so \<open>n\<close> may become negative. A
  read or write outside an array, a signed overflow, a failed \<open>assert\<close> and an \<open>exit\<close> are \<open>Inl\<close>
  results.
\<close>

section \<open>Data\<close>

abbreviation (input) MAX_TMP_LEN :: nat where "MAX_TMP_LEN \<equiv> 64"
abbreviation (input) MAX_URI_LEN :: nat where "MAX_URI_LEN \<equiv> 140"
abbreviation (input) MAX_COOKIE_LEN :: nat where "MAX_COOKIE_LEN \<equiv> 102"
abbreviation (input) MAX_CONTENT_LEN :: int where "MAX_CONTENT_LEN \<equiv> INT_MAX"
abbreviation (input) TAB :: char where "TAB \<equiv> CHR 0x09"

datatype info_req_state =
    PARSE_METHOD | PARSE_URI | PARSE_VERSION | PARSE_SKIP | PARSE_CR_1 | PARSE_LF_1 | PARSE_HEADER_NAME
  | PARSE_COLON | PARSE_COOKIE | PARSE_IF_MODIFIED_SINCE | PARSE_RANGE_REQUEST | PARSE_CONTENT_LENGTH
  | PARSE_CLIENT_ID | PARSE_CR_2 | PARSE_LF_2 | PARSE_DONE
  | FCGI_READING_HEADER | FCGI_READING_END_REQUEST | FCGI_READING_STDOUT | FCGI_READING_STDERR
  | FCGI_READING_GET_VALUES_RESULT | FCGI_READING_UNKNOWN_TYPE

datatype info_req_method =
  HTTP_NONE | HTTP_SIMPLE | HTTP_GET | HTTP_HEAD | HTTP_POST | HTTP_NOT_IMPL | HTTP_RETURN_ERROR

datatype req_type = REQ_INVALID | REQ_STATIC | REQ_FASTCGI

record ureq =
  q_type :: req_type
  q_app :: "nat option"
  q_state :: info_req_state
  skip_lws :: bool
  q_method :: info_req_method
  q_close :: bool
  query_string :: "nat option"
  cookie_len :: nat
  content_len :: int
  client_id :: "32 word"
  call_id :: "32 word"
  range_start :: int
  range_end :: int
  range_request :: bool
  tmp_len :: nat
  q_tmp :: string
  q_cookie :: string
  q_uri :: string
  ifmodsince :: int

text \<open>What the parser reads outside the request: the length of the document root, the table of
  applications (\<open>uri\<close> and \<open>req_type\<close>), and of the C library the time zone, \<open>mktime\<close> and
  \<open>strptime\<close>, which maps a format, a text and a broken-down time to the rest of the text (\<open>None\<close>
  when it does not match) and the broken-down time it leaves. \<open>u_tm0\<close> is the indeterminate initial value.\<close>

type_synonym utm = "int list"

record parse_env =
  doc_root_len :: nat
  u_apps :: "(string \<times> req_type) list"
  u_strptime :: "string \<Rightarrow> string \<Rightarrow> utm \<Rightarrow> string option \<times> utm"
  u_mktime :: "utm \<Rightarrow> int"
  u_timezone :: int
  u_tm0 :: utm

text \<open>\<open>http_strptime\<close>: the three date formats of HTTP, one after the other; \<open>None\<close> when none of them
  matches the whole text.\<close>

fun http_strptime :: "parse_env \<Rightarrow> string list \<Rightarrow> string \<Rightarrow> utm \<Rightarrow> utm option" where
  "http_strptime e [] buf tm = None"
| "http_strptime e (f # fs) buf tm =
     (case u_strptime e f buf tm of
        (Some [], tm') \<Rightarrow> Some tm'
      | (_, tm') \<Rightarrow> http_strptime e fs buf tm')"

abbreviation http_formats :: "string list" where
  "http_formats \<equiv> [''%a, %d %b %Y %T GMT'', ''%A, %d-%b-%y %T GMT'', ''%a %b %d %T %Y'']"

text \<open>\<open>http_str_to_time\<close>: what it returns, and what it stores.\<close>

definition http_str_to_time :: "parse_env \<Rightarrow> string \<Rightarrow> int \<times> int" where
  "http_str_to_time e buf =
     (case http_strptime e http_formats buf (u_tm0 e) of
        None \<Rightarrow> (0, - 1)
      | Some tm \<Rightarrow> let t = u_mktime e tm - u_timezone e in (t, t))"

text \<open>How an iteration ends: with the loop's state, or at the label \<open>parse_bytes_done\<close> with
  \<open>rc = -1\<close>.\<close>

datatype flow = Go string int ureq | Fail string int ureq

section \<open>Strings\<close>

text \<open>\<open>strchr\<close> and \<open>strstr\<close> stop at the first NUL; in an array without one a search that finds
  nothing runs out of the array.\<close>

definition search :: "(string \<Rightarrow> nat option) \<Rightarrow> string \<Rightarrow> nat option res" where
  "search f a = (case f (cstr a) of Some i \<Rightarrow> Inr (Some i) | None \<Rightarrow> if terminated a then Inr None else Inl OverRead)"

definition schar :: "char \<Rightarrow> int" where
  "schar c = (let k = int (of_char c) in if k < 128 then k else k - 256)"

fun stricmp :: "string \<Rightarrow> string \<Rightarrow> int res" where
  "stricmp (a # s) (b # t) =
     (if tolower a = tolower b \<and> a \<noteq> NUL then stricmp s t else Inr (schar (tolower b) - schar (tolower a)))"
| "stricmp _ _ = Inl OverRead"

fun find_uapp :: "(string \<times> req_type) list \<Rightarrow> string \<Rightarrow> (nat \<times> req_type) option" where
  "find_uapp [] uri = None"
| "find_uapp ((app_uri, ty) # as) uri =
     (if strcmp_eq uri app_uri then Some (0, ty) else map_option (\<lambda>(i, t). (Suc i, t)) (find_uapp as uri))"

section \<open>The arrays of the request\<close>

definition put_tmp :: "char \<Rightarrow> ureq \<Rightarrow> ureq res" where
  "put_tmp c r = (if tmp_len r < length (q_tmp r)
     then Inr (r\<lparr>q_tmp := (q_tmp r)[tmp_len r := c], tmp_len := tmp_len r + 1\<rparr>) else Inl BufferOverflow)"

definition end_tmp :: "ureq \<Rightarrow> ureq res" where
  "end_tmp r = rbind (put_tmp NUL r) (\<lambda>r. Inr (r\<lparr>tmp_len := 0\<rparr>))"

definition tmp_full :: "ureq \<Rightarrow> bool" where
  "tmp_full r \<longleftrightarrow> MAX_TMP_LEN \<le> tmp_len r"

definition put_uri :: "nat \<Rightarrow> char \<Rightarrow> ureq \<Rightarrow> ureq res" where
  "put_uri root c r = (let position = root + tmp_len r in
     if position < length (q_uri r)
     then Inr (r\<lparr>q_uri := (q_uri r)[position := c], tmp_len := tmp_len r + 1\<rparr>) else Inl BufferOverflow)"

definition uri_full :: "nat \<Rightarrow> ureq \<Rightarrow> bool" where
  "uri_full root r \<longleftrightarrow> MAX_URI_LEN \<le> root + tmp_len r"

definition put_cookie :: "char \<Rightarrow> ureq \<Rightarrow> ureq res" where
  "put_cookie c r = (if cookie_len r < length (q_cookie r)
     then Inr (r\<lparr>q_cookie := (q_cookie r)[cookie_len r := c], cookie_len := cookie_len r + 1\<rparr>) else Inl BufferOverflow)"

definition cookie_full :: "ureq \<Rightarrow> bool" where
  "cookie_full r \<longleftrightarrow> MAX_COOKIE_LEN \<le> cookie_len r"

section \<open>Inner loops\<close>

text \<open>\<open>while (cur < end && !stop (*cur)) { store (*cur++); if (full) goto parse_bytes_done; }\<close>\<close>

fun copy_while :: "(char \<Rightarrow> bool) \<Rightarrow> (char \<Rightarrow> ureq \<Rightarrow> ureq res) \<Rightarrow> (ureq \<Rightarrow> bool) \<Rightarrow> string \<Rightarrow> int \<Rightarrow> ureq \<Rightarrow> flow res" where
  "copy_while stop put full [] n r = (if 0 < n then Inl OverRead else Inr (Go [] n r))"
| "copy_while stop put full (c # mem) n r =
     (if n \<le> 0 \<or> stop c then Inr (Go (c # mem) n r)
      else rbind (put c r) (\<lambda>r. if full r then Inr (Fail mem (n - 1) r) else copy_while stop put full mem (n - 1) r))"

text \<open>\<open>while (cur < end && !stop (*cur)) if (isdigit (*cur)) { add; if (over) goto
  parse_bytes_done; cur++; } else goto parse_bytes_done;\<close>\<close>

fun digits_while :: "(char \<Rightarrow> bool) \<Rightarrow> (int \<Rightarrow> ureq \<Rightarrow> ureq res) \<Rightarrow> (ureq \<Rightarrow> bool) \<Rightarrow> string \<Rightarrow> int \<Rightarrow> ureq \<Rightarrow> flow res" where
  "digits_while stop add over [] n r = (if 0 < n then Inl OverRead else Inr (Go [] n r))"
| "digits_while stop add over (c # mem) n r =
     (if n \<le> 0 \<or> stop c then Inr (Go (c # mem) n r)
      else if isdigit c then
        rbind (add (int (digit_val c)) r) (\<lambda>r.
          if over r then Inr (Fail (c # mem) n r) else digits_while stop add over mem (n - 1) r)
      else Inr (Fail (c # mem) n r))"

text \<open>\<open>while (isspace (*cur)) cur++;\<close>, with no test of \<open>end\<close>.\<close>

fun skip_spaces :: "string \<Rightarrow> int \<Rightarrow> ureq \<Rightarrow> flow res" where
  "skip_spaces [] n r = Inl OverRead"
| "skip_spaces (c # mem) n r = (if isspace c then skip_spaces mem (n - 1) r else Inr (Go (c # mem) n r))"

text \<open>Going on after a piece of the code, unless it jumped to the end.\<close>

definition next_flow :: "flow res \<Rightarrow> (string \<Rightarrow> int \<Rightarrow> ureq \<Rightarrow> flow res) \<Rightarrow> flow res" where
  "next_flow m k = rbind m (\<lambda>f. case f of Go mem n r \<Rightarrow> k mem n r | Fail mem n r \<Rightarrow> Inr (Fail mem n r))"

text \<open>\<open>*cur\<close>.\<close>

definition at_cur :: "string \<Rightarrow> (char \<Rightarrow> 'a res) \<Rightarrow> 'a res" where
  "at_cur mem f = (case mem of [] \<Rightarrow> Inl OverRead | c # _ \<Rightarrow> f c)"

text \<open>\<open>if (cur == end) break;\<close> between a loop and what handles the token it has read.\<close>

definition unless_end :: "(string \<Rightarrow> int \<Rightarrow> ureq \<Rightarrow> flow res) \<Rightarrow> string \<Rightarrow> int \<Rightarrow> ureq \<Rightarrow> flow res" where
  "unless_end k mem n r = (if n = 0 then Inr (Go mem n r) else k mem n r)"

definition eol :: "char \<Rightarrow> bool" where
  "eol c \<longleftrightarrow> c = CR \<or> c = LF"

section \<open>One state after another\<close>

text \<open>The pieces of the \<open>switch\<close>, in its order. Each is called with \<open>cur < end\<close>.\<close>

definition parse_header_name :: "string \<Rightarrow> int \<Rightarrow> ureq \<Rightarrow> flow res" where
  "parse_header_name mem n r =
     next_flow (copy_while (\<lambda>c. c = CHR '':'' \<or> isspace c) put_tmp tmp_full mem n r) (unless_end (\<lambda>mem n r.
       rbind (end_tmp r) (\<lambda>r. at_cur mem (\<lambda>c.
         if eol c then Inr (Go mem n (r\<lparr>q_state := if tmp_len r = 0 then PARSE_CR_2 else PARSE_CR_1\<rparr>))
         else Inr (Go mem n (r\<lparr>q_state := PARSE_COLON, skip_lws := True\<rparr>))))))"

text \<open>A second cookie is appended to the first.\<close>

definition start_cookie :: "string \<Rightarrow> int \<Rightarrow> ureq \<Rightarrow> flow res" where
  "start_cookie mem n r =
     (if 0 < cookie_len r then
        if MAX_COOKIE_LEN \<le> cookie_len r + 2 then Inr (Fail mem n r)
        else rbind (put_cookie (CHR '';'') r) (\<lambda>r. rbind (put_cookie (CHR '' '') r) (\<lambda>r.
          Inr (Go (tl mem) (n - 1) (r\<lparr>q_state := PARSE_COOKIE, skip_lws := True\<rparr>))))
      else Inr (Go (tl mem) (n - 1) (r\<lparr>q_state := PARSE_COOKIE, skip_lws := True\<rparr>)))"

fun pick_header :: "(string \<times> 'a) list \<Rightarrow> string \<Rightarrow> 'a option res" where
  "pick_header [] s = Inr None"
| "pick_header ((name, a) # hs) s =
     rbind (stricmp s (name @ [NUL])) (\<lambda>d. if d = 0 then Inr (Some a) else pick_header hs s)"

definition header_names :: "(string \<times> info_req_state) list" where
  "header_names = [(''Content-Length'', PARSE_CONTENT_LENGTH), (''Range'', PARSE_RANGE_REQUEST),
     (''If-Modified-Since'', PARSE_IF_MODIFIED_SINCE), (''Client-Id'', PARSE_CLIENT_ID), (''Cookie'', PARSE_COOKIE)]"

definition parse_colon :: "string \<Rightarrow> int \<Rightarrow> ureq \<Rightarrow> flow res" where
  "parse_colon mem n r = at_cur mem (\<lambda>c.
     if c = CHR '':'' then
       rbind (pick_header header_names (q_tmp r)) (\<lambda>h.
         case h of
           None \<Rightarrow> Inr (Go (tl mem) (n - 1) (r\<lparr>q_state := PARSE_SKIP\<rparr>))
         | Some st \<Rightarrow>
             if st = PARSE_COOKIE then start_cookie mem n r
             else Inr (Go (tl mem) (n - 1) (r\<lparr>q_state := st, skip_lws := True\<rparr>)))
     else Inr (Go mem n (r\<lparr>q_state := PARSE_SKIP\<rparr>)))"

definition parse_cookie :: "string \<Rightarrow> int \<Rightarrow> ureq \<Rightarrow> flow res" where
  "parse_cookie mem n r =
     next_flow (copy_while eol put_cookie cookie_full mem n r) (unless_end (\<lambda>mem n r.
       Inr (Go mem n (r\<lparr>q_state := PARSE_CR_1\<rparr>))))"

definition parse_if_modified_since :: "parse_env \<Rightarrow> string \<Rightarrow> int \<Rightarrow> ureq \<Rightarrow> flow res" where
  "parse_if_modified_since e mem n r =
     next_flow (copy_while eol put_tmp tmp_full mem n r) (unless_end (\<lambda>mem n r.
       rbind (end_tmp r) (\<lambda>r.
         let t = http_str_to_time e (cstr (q_tmp r)); r = r\<lparr>ifmodsince := snd t\<rparr> in
         if fst t = 0 \<and> ifmodsince r \<noteq> 0 then Inr (Fail mem n r)
         else Inr (Go mem n (r\<lparr>q_state := PARSE_CR_1\<rparr>)))))"

definition add_client_id :: "int \<Rightarrow> ureq \<Rightarrow> ureq res" where
  "add_client_id d r = Inr (r\<lparr>client_id := client_id r * 10 + word_of_int d\<rparr>)"

definition add_call_id :: "int \<Rightarrow> ureq \<Rightarrow> ureq res" where
  "add_call_id d r = Inr (r\<lparr>call_id := call_id r * 10 + word_of_int d\<rparr>)"

definition parse_client_id :: "string \<Rightarrow> int \<Rightarrow> ureq \<Rightarrow> flow res" where
  "parse_client_id mem n r =
     next_flow (digits_while isspace add_client_id (\<lambda>r. 4294967295 < uint (client_id r)) mem n r) (\<lambda>mem n r.
     next_flow (skip_spaces mem n r) (\<lambda>mem n r.
     next_flow (digits_while isspace add_call_id (\<lambda>r. 4294967295 < uint (call_id r)) mem n r) (unless_end (\<lambda>mem n r.
       Inr (Go mem n (r\<lparr>q_state := PARSE_HEADER_NAME\<rparr>))))))"

text \<open>\<open>ssize_t\<close> has 64 bits.\<close>

definition ssize_digit :: "int \<Rightarrow> int \<Rightarrow> int res" where
  "ssize_digit v d = (if v * 10 + d < 2 ^ 63 then Inr (v * 10 + d) else Inl IntOverflow)"

definition add_range_start :: "int \<Rightarrow> ureq \<Rightarrow> ureq res" where
  "add_range_start d r = rbind (ssize_digit (range_start r) d) (\<lambda>v. Inr (r\<lparr>range_start := v\<rparr>))"

definition add_range_end :: "int \<Rightarrow> ureq \<Rightarrow> ureq res" where
  "add_range_end d r = rbind (ssize_digit (range_end r) d) (\<lambda>v. Inr (r\<lparr>range_end := v\<rparr>))"

text \<open>The search for \<open>bytes=\<close> only says whether it occurs; the pointer is moved by its length from
  where it is. A header without it ends the process.\<close>

definition parse_range_request :: "string \<Rightarrow> int \<Rightarrow> ureq \<Rightarrow> flow res" where
  "parse_range_request mem n r =
     rbind (search (find_str ''bytes='') mem) (\<lambda>i.
       if i = None then Inl AssertFail
       else
         next_flow (digits_while (\<lambda>c. isspace c \<or> c = CHR ''-'') add_range_start (\<lambda>_. False)
                      (drop 6 mem) (n - 6) (r\<lparr>range_request := True\<rparr>)) (\<lambda>mem n r.
         at_cur mem (\<lambda>c.
           if c \<noteq> CHR ''-'' then Inr (Fail mem n r)
           else
             next_flow (digits_while isspace add_range_end (\<lambda>_. False) (tl mem) (n - 1) r) (unless_end (\<lambda>mem n r.
               Inr (Go mem n (r\<lparr>q_state := PARSE_HEADER_NAME\<rparr>)))))))"

definition add_content_len :: "int \<Rightarrow> ureq \<Rightarrow> ureq res" where
  "add_content_len d r =
     (let v = content_len r * 10 + d in if v \<le> INT_MAX then Inr (r\<lparr>content_len := v\<rparr>) else Inl IntOverflow)"

definition parse_content_length :: "string \<Rightarrow> int \<Rightarrow> ureq \<Rightarrow> flow res" where
  "parse_content_length mem n r =
     next_flow (digits_while isspace add_content_len (\<lambda>r. MAX_CONTENT_LEN < content_len r) mem n r)
       (unless_end (\<lambda>mem n r. Inr (Go mem n (r\<lparr>q_state := PARSE_SKIP\<rparr>))))"

definition parse_skip :: "string \<Rightarrow> int \<Rightarrow> ureq \<Rightarrow> flow res" where
  "parse_skip mem n r =
     next_flow (copy_while eol (\<lambda>_. Inr) (\<lambda>_. False) mem n r) (unless_end (\<lambda>mem n r.
       Inr (Go mem n (r\<lparr>q_state := PARSE_CR_1\<rparr>))))"

definition parse_cr :: "string \<Rightarrow> int \<Rightarrow> ureq \<Rightarrow> flow res" where
  "parse_cr mem n r = at_cur mem (\<lambda>c. Inr (Go (tl mem) (n - 1)
     (r\<lparr>q_state := if c = CR then (if q_state r = PARSE_CR_1 then PARSE_LF_1 else PARSE_LF_2) else PARSE_SKIP\<rparr>)))"

definition end_of_line :: "ureq \<Rightarrow> ureq" where
  "end_of_line r =
     (case q_method r of
        HTTP_NONE \<Rightarrow> r\<lparr>q_state := PARSE_METHOD\<rparr>
      | HTTP_SIMPLE \<Rightarrow> r\<lparr>q_method := HTTP_GET, q_state := PARSE_DONE\<rparr>
      | _ \<Rightarrow> r\<lparr>q_state := if q_state r = PARSE_LF_1 then PARSE_HEADER_NAME else PARSE_DONE\<rparr>)"

definition parse_lf :: "string \<Rightarrow> int \<Rightarrow> ureq \<Rightarrow> flow res" where
  "parse_lf mem n r = at_cur mem (\<lambda>c.
     Inr (Go (tl mem) (n - 1) (if c = LF then end_of_line r else r\<lparr>q_state := PARSE_SKIP\<rparr>)))"

definition set_method :: "ureq \<Rightarrow> ureq" where
  "set_method r =
     (if strcmp_eq (q_tmp r) ''GET'' then r\<lparr>q_method := HTTP_GET, skip_lws := True, q_state := PARSE_URI\<rparr>
      else if strcmp_eq (q_tmp r) ''HEAD'' then r\<lparr>q_method := HTTP_HEAD, skip_lws := True, q_state := PARSE_URI\<rparr>
      else if strcmp_eq (q_tmp r) ''POST'' then r\<lparr>q_method := HTTP_POST, skip_lws := True, q_state := PARSE_URI\<rparr>
      else if cstr (q_tmp r) = [] then r\<lparr>q_state := PARSE_CR_1\<rparr>
      else r\<lparr>q_method := HTTP_NOT_IMPL, skip_lws := True, q_state := PARSE_URI\<rparr>)"

definition parse_method :: "string \<Rightarrow> int \<Rightarrow> ureq \<Rightarrow> flow res" where
  "parse_method mem n r =
     next_flow (copy_while isspace put_tmp tmp_full mem n r) (unless_end (\<lambda>mem n r.
       rbind (end_tmp r) (\<lambda>r. Inr (Go mem n (set_method r)))))"

definition end_uri :: "nat \<Rightarrow> ureq \<Rightarrow> ureq res" where
  "end_uri root r = rbind (put_uri root NUL r) (\<lambda>r. Inr (r\<lparr>tmp_len := 0, skip_lws := True, q_state := PARSE_VERSION\<rparr>))"

definition parse_uri :: "nat \<Rightarrow> string \<Rightarrow> int \<Rightarrow> ureq \<Rightarrow> flow res" where
  "parse_uri root mem n r = at_cur mem (\<lambda>c.
     let (mem, n) = (if c = CHR ''/'' then (tl mem, n - 1) else (mem, n)) in
     next_flow (copy_while isspace (put_uri root) (uri_full root) mem n r) (unless_end (\<lambda>mem n r.
       rbind (end_uri root r) (\<lambda>r. Inr (Go mem n r)))))"

definition parse_version :: "string \<Rightarrow> int \<Rightarrow> ureq \<Rightarrow> flow res" where
  "parse_version mem n r =
     next_flow (copy_while isspace put_tmp tmp_full mem n r) (unless_end (\<lambda>mem n r.
       rbind (end_tmp r) (\<lambda>r.
         if strcmp_eq (q_tmp r) ''HTTP/1.1'' then Inr (Go mem n (r\<lparr>q_close := False, q_state := PARSE_SKIP\<rparr>))
         else if strcmp_eq (q_tmp r) ''HTTP/1.0'' then Inr (Go mem n (r\<lparr>q_close := True, q_state := PARSE_SKIP\<rparr>))
         else if cstr (q_tmp r) = [] then
           if q_method r \<noteq> HTTP_GET then Inr (Fail mem n r)
           else Inr (Go mem n (r\<lparr>q_method := HTTP_SIMPLE, q_close := True, q_state := PARSE_SKIP\<rparr>))
         else Inr (Fail mem n r))))"

definition parse_state :: "parse_env \<Rightarrow> string \<Rightarrow> int \<Rightarrow> ureq \<Rightarrow> flow res" where
  "parse_state e mem n r =
     (case q_state r of
        PARSE_HEADER_NAME \<Rightarrow> parse_header_name mem n r
      | PARSE_COLON \<Rightarrow> parse_colon mem n r
      | PARSE_COOKIE \<Rightarrow> parse_cookie mem n r
      | PARSE_IF_MODIFIED_SINCE \<Rightarrow> parse_if_modified_since e mem n r
      | PARSE_CLIENT_ID \<Rightarrow> parse_client_id mem n r
      | PARSE_RANGE_REQUEST \<Rightarrow> parse_range_request mem n r
      | PARSE_CONTENT_LENGTH \<Rightarrow> parse_content_length mem n r
      | PARSE_SKIP \<Rightarrow> parse_skip mem n r
      | PARSE_CR_1 \<Rightarrow> parse_cr mem n r
      | PARSE_CR_2 \<Rightarrow> parse_cr mem n r
      | PARSE_LF_1 \<Rightarrow> parse_lf mem n r
      | PARSE_LF_2 \<Rightarrow> parse_lf mem n r
      | PARSE_METHOD \<Rightarrow> parse_method mem n r
      | PARSE_URI \<Rightarrow> parse_uri (doc_root_len e) mem n r
      | PARSE_VERSION \<Rightarrow> parse_version mem n r
      | _ \<Rightarrow> Inl AssertFail)"

text \<open>One iteration of the loop.\<close>

definition parse_step :: "parse_env \<Rightarrow> string \<Rightarrow> int \<Rightarrow> ureq \<Rightarrow> flow res" where
  "parse_step e mem n r = at_cur mem (\<lambda>c.
     if skip_lws r \<and> (c = CHR '' '' \<or> c = TAB) then Inr (Go (tl mem) (n - 1) r)
     else parse_state e mem n (r\<lparr>skip_lws := False\<rparr>))"

section \<open>The inner loops keep what they do not write\<close>

lemma next_flow_Inr:
  "next_flow m k = Inr f \<longleftrightarrow>
     (\<exists>mem n r. m = Inr (Go mem n r) \<and> k mem n r = Inr f) \<or> (\<exists>mem n r. f = Fail mem n r \<and> m = Inr f)"
  by (cases m) (auto simp: next_flow_def split: flow.split)

lemma next_flow_Go:
  "next_flow m k = Inr (Go mem' n' r') \<longleftrightarrow> (\<exists>mem n r. m = Inr (Go mem n r) \<and> k mem n r = Inr (Go mem' n' r'))"
  by (auto simp: next_flow_Inr)

lemma next_flow_Inl:
  "next_flow m k = Inl x \<longleftrightarrow> m = Inl x \<or> (\<exists>mem n r. m = Inr (Go mem n r) \<and> k mem n r = Inl x)"
  by (cases m) (auto simp: next_flow_def split: flow.split)

lemma next_flow_simps [simp]:
  "next_flow (Inl x) k = Inl x" "next_flow (Inr (Go mem n r)) k = k mem n r"
  "next_flow (Inr (Fail mem n r)) k = Inr (Fail mem n r)"
  by (simp_all add: next_flow_def)

lemma at_cur_simps [simp]: "at_cur [] f = Inl OverRead" "at_cur (c # mem) f = f c"
  by (simp_all add: at_cur_def)

lemma at_cur_Inr: "at_cur mem f = Inr x \<longleftrightarrow> (\<exists>c m. mem = c # m \<and> f c = Inr x)"
  by (cases mem) auto

lemma copy_while_le: "copy_while stop put full mem n r = Inr (Go mem' n' r') \<Longrightarrow> n' \<le> n"
  by (induction mem arbitrary: n r) (fastforce split: if_splits simp: rbind_eq_Inr)+

lemma copy_while_keeps:
  assumes "copy_while stop put full mem n r = Inr (Go mem' n' r')"
    and "\<And>c r r'. put c r = Inr r' \<Longrightarrow> f r' = f r"
  shows "f r' = f r"
  using assms(1) by (induction mem arbitrary: n r) (fastforce split: if_splits simp: rbind_eq_Inr dest: assms(2))+

lemma digits_while_le: "digits_while stop add over mem n r = Inr (Go mem' n' r') \<Longrightarrow> n' \<le> n"
  by (induction mem arbitrary: n r) (fastforce split: if_splits simp: rbind_eq_Inr)+

lemma digits_while_keeps:
  assumes "digits_while stop add over mem n r = Inr (Go mem' n' r')"
    and "\<And>c r r'. add c r = Inr r' \<Longrightarrow> f r' = f r"
  shows "f r' = f r"
  using assms(1) by (induction mem arbitrary: n r) (fastforce split: if_splits simp: rbind_eq_Inr dest: assms(2))+

lemma skip_spaces_le: "skip_spaces mem n r = Inr f \<Longrightarrow> \<exists>mem' n'. f = Go mem' n' r \<and> n' \<le> n"
  by (induction mem arbitrary: n) (fastforce split: if_splits)+

lemma put_keeps_state:
  "put_tmp c r = Inr r' \<Longrightarrow> q_state r' = q_state r"
  "put_uri root c r = Inr r' \<Longrightarrow> q_state r' = q_state r"
  "put_cookie c r = Inr r' \<Longrightarrow> q_state r' = q_state r"
  "add_client_id d r = Inr r' \<Longrightarrow> q_state r' = q_state r"
  "add_call_id d r = Inr r' \<Longrightarrow> q_state r' = q_state r"
  "add_range_start d r = Inr r' \<Longrightarrow> q_state r' = q_state r"
  "add_range_end d r = Inr r' \<Longrightarrow> q_state r' = q_state r"
  "add_content_len d r = Inr r' \<Longrightarrow> q_state r' = q_state r"
  by (auto simp: put_tmp_def put_uri_def put_cookie_def add_client_id_def add_call_id_def add_range_start_def
      add_range_end_def add_content_len_def rbind_eq_Inr Let_def split: if_splits)

lemma copy_while_state:
  "copy_while stop put_tmp full mem n r = Inr (Go mem' n' r') \<Longrightarrow> q_state r' = q_state r"
  "copy_while stop (put_uri root) full mem n r = Inr (Go mem' n' r') \<Longrightarrow> q_state r' = q_state r"
  "copy_while stop put_cookie full mem n r = Inr (Go mem' n' r') \<Longrightarrow> q_state r' = q_state r"
  "copy_while stop (\<lambda>_. Inr) full mem n r = Inr (Go mem' n' r') \<Longrightarrow> q_state r' = q_state r"
  by (erule copy_while_keeps, simp add: put_keeps_state)+

lemma digits_while_state:
  "digits_while stop add_content_len over mem n r = Inr (Go mem' n' r') \<Longrightarrow> q_state r' = q_state r"
  by (erule digits_while_keeps, simp add: put_keeps_state)

section \<open>Termination\<close>

text \<open>Every iteration consumes a byte, or moves to a state of smaller rank.\<close>

fun state_rank :: "info_req_state \<Rightarrow> nat" where
  "state_rank PARSE_METHOD = 5"
| "state_rank PARSE_URI = 4"
| "state_rank PARSE_VERSION = 3"
| "state_rank PARSE_HEADER_NAME = 4"
| "state_rank PARSE_COLON = 3"
| "state_rank PARSE_CONTENT_LENGTH = 3"
| "state_rank PARSE_SKIP = 2"
| "state_rank PARSE_COOKIE = 2"
| "state_rank PARSE_IF_MODIFIED_SINCE = 2"
| "state_rank _ = 1"

definition progress :: "int \<Rightarrow> info_req_state \<Rightarrow> flow res \<Rightarrow> bool" where
  "progress n st m \<longleftrightarrow> (\<forall>mem' n' r'. m = Inr (Go mem' n' r') \<longrightarrow> n' < n \<or> n' = n \<and> state_rank (q_state r') < state_rank st)"

lemma progressI:
  "(\<And>mem' n' r'. m = Inr (Go mem' n' r') \<Longrightarrow> n' < n \<or> n' = n \<and> state_rank (q_state r') < state_rank st) \<Longrightarrow> progress n st m"
  by (auto simp: progress_def)

lemma progress_Inl [simp]: "progress n st (Inl x)"
  by (simp add: progress_def)

lemma progress_unless_end:
  assumes "0 < n" and m: "\<And>mem' n' r'. m = Inr (Go mem' n' r') \<Longrightarrow> n' \<le> n \<and> q_state r' = st"
    and k: "\<And>mem r mem' n' n'' r'. q_state r = st \<Longrightarrow> k mem n' r = Inr (Go mem' n'' r') \<Longrightarrow> n'' = n' \<and> state_rank (q_state r') < state_rank st"
  shows "progress n st (next_flow m (unless_end k))"
proof (rule progressI)
  fix mem' n' r'
  assume "next_flow m (unless_end k) = Inr (Go mem' n' r')"
  then obtain m0 n0 r0 where "m = Inr (Go m0 n0 r0)" and u: "unless_end k m0 n0 r0 = Inr (Go mem' n' r')"
    by (auto simp: next_flow_Go)
  with m have "n0 \<le> n" "q_state r0 = st" by auto
  with u k [of r0 m0 n0] \<open>0 < n\<close> show "n' < n \<or> n' = n \<and> state_rank (q_state r') < state_rank st"
    by (fastforce simp: unless_end_def split: if_splits)
qed

lemma end_tmp_state: "end_tmp r = Inr r' \<Longrightarrow> q_state r' = q_state r"
  by (auto simp: end_tmp_def rbind_eq_Inr put_keeps_state)

lemma set_method_rank: "state_rank (q_state (set_method r)) < state_rank PARSE_METHOD"
  by (simp add: set_method_def)

lemma progress_copies:
  assumes "0 < n"
  shows "q_state r = PARSE_HEADER_NAME \<Longrightarrow> progress n (q_state r) (parse_header_name mem n r)"
    and "q_state r = PARSE_COOKIE \<Longrightarrow> progress n (q_state r) (parse_cookie mem n r)"
    and "q_state r = PARSE_IF_MODIFIED_SINCE \<Longrightarrow> progress n (q_state r) (parse_if_modified_since e mem n r)"
    and "q_state r = PARSE_SKIP \<Longrightarrow> progress n (q_state r) (parse_skip mem n r)"
    and "q_state r = PARSE_CONTENT_LENGTH \<Longrightarrow> progress n (q_state r) (parse_content_length mem n r)"
    and "q_state r = PARSE_METHOD \<Longrightarrow> progress n (q_state r) (parse_method mem n r)"
    and "q_state r = PARSE_VERSION \<Longrightarrow> progress n (q_state r) (parse_version mem n r)"
proof -
  show "q_state r = PARSE_HEADER_NAME \<Longrightarrow> progress n (q_state r) (parse_header_name mem n r)"
    unfolding parse_header_name_def
    by (rule progress_unless_end [OF assms])
      (auto dest: copy_while_le copy_while_state simp: rbind_eq_Inr at_cur_Inr end_tmp_state split: if_splits)
  show "q_state r = PARSE_COOKIE \<Longrightarrow> progress n (q_state r) (parse_cookie mem n r)"
    unfolding parse_cookie_def
    by (rule progress_unless_end [OF assms]) (auto dest: copy_while_le copy_while_state)
  show "q_state r = PARSE_IF_MODIFIED_SINCE \<Longrightarrow> progress n (q_state r) (parse_if_modified_since e mem n r)"
    unfolding parse_if_modified_since_def
    by (rule progress_unless_end [OF assms])
      (auto dest: copy_while_le copy_while_state simp: rbind_eq_Inr Let_def split: if_splits)
  show "q_state r = PARSE_SKIP \<Longrightarrow> progress n (q_state r) (parse_skip mem n r)"
    unfolding parse_skip_def
    by (rule progress_unless_end [OF assms]) (auto dest: copy_while_le copy_while_state)
  show "q_state r = PARSE_CONTENT_LENGTH \<Longrightarrow> progress n (q_state r) (parse_content_length mem n r)"
    unfolding parse_content_length_def
    by (rule progress_unless_end [OF assms]) (auto dest: digits_while_le digits_while_state)
  show "q_state r = PARSE_METHOD \<Longrightarrow> progress n (q_state r) (parse_method mem n r)"
    unfolding parse_method_def
    by (rule progress_unless_end [OF assms])
      (use set_method_rank in \<open>fastforce dest: copy_while_le copy_while_state simp: rbind_eq_Inr\<close>)+
  show "q_state r = PARSE_VERSION \<Longrightarrow> progress n (q_state r) (parse_version mem n r)"
    unfolding parse_version_def
    by (rule progress_unless_end [OF assms])
      (auto dest: copy_while_le copy_while_state simp: rbind_eq_Inr split: if_splits)
qed

lemma progress_colon:
  assumes "q_state r = PARSE_COLON"
  shows "progress n (q_state r) (parse_colon mem n r)"
  using assms by (intro progressI)
    (auto simp: parse_colon_def at_cur_Inr rbind_eq_Inr start_cookie_def split: if_splits option.splits)

lemma progress_line_end:
  "progress n (q_state r) (parse_cr mem n r)" "progress n (q_state r) (parse_lf mem n r)"
  by (auto intro!: progressI simp: parse_cr_def parse_lf_def at_cur_Inr)

lemma progress_uri:
  assumes "0 < n" and "q_state r = PARSE_URI"
  shows "progress n (q_state r) (parse_uri root mem n r)"
proof (cases mem)
  case (Cons c m)
  let ?k = "unless_end (\<lambda>mem n r. rbind (end_uri root r) (\<lambda>r. Inr (Go mem n r)))"
  have eu: "end_uri root r = Inr r' \<Longrightarrow> q_state r' = PARSE_VERSION" for r r'
    by (auto simp: end_uri_def rbind_eq_Inr)
  have u: "progress n (q_state r) (next_flow (copy_while isspace (put_uri root) (uri_full root) mem n r) ?k)"
    using assms by (intro progress_unless_end) (auto dest: copy_while_le copy_while_state simp: rbind_eq_Inr eu)
  have less: "progress n (q_state r) (next_flow (copy_while isspace (put_uri root) (uri_full root) m (n - 1) r) ?k)"
    by (intro progressI) (fastforce dest: copy_while_le simp: next_flow_Go unless_end_def rbind_eq_Inr split: if_splits)
  from u less Cons show ?thesis by (simp add: parse_uri_def)
qed (simp add: parse_uri_def progress_def)

lemma progress_range:
  assumes "0 < n"
  shows "progress n (q_state r) (parse_range_request mem n r)"
  using assms by (intro progressI)
    (fastforce simp: parse_range_request_def rbind_eq_Inr next_flow_Go unless_end_def at_cur_Inr
      split: if_splits dest!: digits_while_le)

lemma progress_client_id:
  assumes "0 < n"
  shows "progress n (q_state r) (parse_client_id mem n r)"
proof (rule progressI)
  fix mem' n' r'
  assume p: "parse_client_id mem n r = Inr (Go mem' n' r')"
  obtain m1 n1 r1 m2 n2 r2 where
      d: "digits_while isspace add_client_id (\<lambda>r. 4294967295 < uint (client_id r)) mem n r = Inr (Go m1 n1 r1)"
    and s: "skip_spaces m1 n1 r1 = Inr (Go m2 n2 r2)" and "n' \<le> n2"
    using p by (fastforce simp: parse_client_id_def next_flow_Go unless_end_def split: if_splits dest: digits_while_le)
  have "n2 < n"
  proof (cases "n1 = n")
    case True
    with d assms obtain c m where "mem = c # m" and "isspace c" "m1 = mem"
      by (cases mem) (auto split: if_splits simp: rbind_eq_Inr dest!: digits_while_le)
    with s True show ?thesis by (auto dest!: skip_spaces_le)
  next
    case False
    with d s show ?thesis by (auto dest!: digits_while_le skip_spaces_le)
  qed
  with \<open>n' \<le> n2\<close> show "n' < n \<or> n' = n \<and> state_rank (q_state r') < state_rank (q_state r)" by simp
qed

lemma progress_step:
  assumes "0 < n"
  shows "progress n (q_state r) (parse_step e mem n r)"
proof -
  have "progress n (q_state r) (parse_state e mem n r)" for r
    using progress_copies [OF assms, of r] progress_colon [of r n mem] progress_line_end [of n r mem]
      progress_uri [OF assms, of r] progress_range [OF assms, of r mem] progress_client_id [OF assms, of r mem]
    by (cases "q_state r") (simp_all add: parse_state_def)
  from this [of "r\<lparr>skip_lws := False\<rparr>"] show ?thesis
    by (cases mem) (auto simp: parse_step_def progress_def)
qed

section \<open>The parser\<close>

function parse_loop :: "parse_env \<Rightarrow> string \<Rightarrow> int \<Rightarrow> ureq \<Rightarrow> flow res" where
  "parse_loop e mem n r =
     (if n \<le> 0 \<or> q_state r = PARSE_DONE then Inr (Go mem n r)
      else case parse_step e mem n r of
          Inl x \<Rightarrow> Inl x
        | Inr (Fail mem n r) \<Rightarrow> Inr (Fail mem n r)
        | Inr (Go mem n r) \<Rightarrow> parse_loop e mem n r)"
  by pat_completeness auto
termination
proof (relation "measures [\<lambda>(e, mem, n, r). nat n, \<lambda>(e, mem, n, r). state_rank (q_state r)]", goal_cases)
  case (2 e mem n r f mem' n' r')
  then show ?case using progress_step [of n r e mem] by (auto simp: progress_def)
qed simp

declare parse_loop.simps [simp del]

text \<open>\<open>analyze_req\<close>: what follows a question mark is the query; then the type of the request.\<close>

definition cut_query :: "ureq \<Rightarrow> ureq res" where
  "cut_query r =
     rbind (search (find_char (CHR ''?'')) (q_uri r)) (\<lambda>q.
       Inr (case q of
              None \<Rightarrow> r\<lparr>q_type := REQ_INVALID, q_app := None, query_string := None\<rparr>
            | Some i \<Rightarrow> r\<lparr>q_type := REQ_INVALID, q_app := None, query_string := Some (i + 1), q_uri := (q_uri r)[i := NUL]\<rparr>))"

definition set_app :: "(nat \<times> req_type) option \<Rightarrow> ureq \<Rightarrow> ureq" where
  "set_app app r = (case app of None \<Rightarrow> r | Some (i, ty) \<Rightarrow> r\<lparr>q_type := ty, q_app := Some i\<rparr>)"

definition pick_type :: "parse_env \<Rightarrow> ureq \<Rightarrow> ureq res" where
  "pick_type e r =
     rbind (search (find_str ''.php'') (q_uri r)) (\<lambda>php.
       if php \<noteq> None then Inr (set_app (find_uapp (u_apps e) ''php'') r)
       else if 0 < content_len r \<and> q_method r \<noteq> HTTP_POST then Inr r
       else if q_method r = HTTP_POST \<or> query_string r \<noteq> None then
         if \<not> terminated (drop (doc_root_len e) (q_uri r)) then Inl OverRead
         else Inr (set_app (find_uapp (u_apps e) (drop (doc_root_len e) (q_uri r))) r)
       else Inr (r\<lparr>q_type := REQ_STATIC\<rparr>))"

definition analyze_req :: "parse_env \<Rightarrow> ureq \<Rightarrow> ureq res" where
  "analyze_req e r = rbind (cut_query r) (pick_type e)"

text \<open>The result: the return value and the buffer, where \<open>None\<close> says that the pointers were reset
  to its start.\<close>

type_synonym parsed = "int \<times> (string \<times> int) option \<times> ureq"

definition rest_of :: "string \<Rightarrow> int \<Rightarrow> (string \<times> int) option" where
  "rest_of mem n = (if n = 0 then None else Some (mem, n))"

definition parse_bytes :: "parse_env \<Rightarrow> string \<Rightarrow> int \<Rightarrow> ureq \<Rightarrow> parsed res" where
  "parse_bytes e mem n r =
     (if q_state r = PARSE_DONE then Inl AssertFail
      else rbind (parse_loop e mem n r) (\<lambda>f.
        case f of
          Fail mem n r \<Rightarrow> Inr (-1, rest_of mem n, r)
        | Go mem n r \<Rightarrow>
            if q_state r = PARSE_DONE then
              rbind (put_cookie NUL r) (\<lambda>r'.
              rbind (analyze_req e (r'\<lparr>cookie_len := cookie_len r\<rparr>)) (\<lambda>r.
              if q_type r = REQ_INVALID then Inl AssertFail else Inr (0, rest_of mem n, r)))
            else Inr (0, rest_of mem n, r)))"

end
