(* ===== verification/Userver_Parse_Correct.thy ===== *)
theory Userver_Parse_Correct
  imports Userver_Parse
begin

text \<open>
  What the parser of the userver does with arbitrary bytes.

  \<^item> \<open>ureq_ok\<close> is the invariant of \<open>struct req\<close> between two reads: the arrays have their sizes, the
    lengths are within them, and the strings that a later state reads are terminated.
  \<^item> In every state but those of the \<open>Range\<close>, \<open>Client-Id\<close> and \<open>Content-Length\<close> headers an
    iteration has no fault and keeps the invariant; in these it keeps the invariant when it returns.
  \<^item> \<open>reads\<close> is the step relation of the loop, so that a fault can be traced to one of these states.
\<close>

section \<open>The invariant\<close>

definition ureq_ok :: "parse_env \<Rightarrow> ureq \<Rightarrow> bool" where
  "ureq_ok e r \<longleftrightarrow>
     length (q_tmp r) = MAX_TMP_LEN \<and> length (q_cookie r) = MAX_COOKIE_LEN \<and> length (q_uri r) = MAX_URI_LEN \<and>
     doc_root_len e < MAX_URI_LEN \<and> cookie_len r < MAX_COOKIE_LEN \<and>
     (if q_state r = PARSE_URI then doc_root_len e + tmp_len r < MAX_URI_LEN else tmp_len r < MAX_TMP_LEN) \<and>
     (q_state r = PARSE_COLON \<longrightarrow> terminated (q_tmp r)) \<and>
     (q_method r \<noteq> HTTP_NONE \<and> q_state r \<noteq> PARSE_URI \<or> q_state r \<in> {PARSE_DONE, PARSE_VERSION} \<longrightarrow>
        terminated (drop (doc_root_len e) (q_uri r)))"

definition flow_ok :: "parse_env \<Rightarrow> flow \<Rightarrow> bool" where
  "flow_ok e f \<longleftrightarrow> (case f of Go mem n r \<Rightarrow> ureq_ok e r \<and> n \<le> int (length mem) | Fail _ _ _ \<Rightarrow> True)"

lemma flow_ok_simps [simp]:
  "flow_ok e (Go mem n r) \<longleftrightarrow> ureq_ok e r \<and> n \<le> int (length mem)" "flow_ok e (Fail mem n r)"
  by (simp_all add: flow_ok_def)

text \<open>A result with no fault whose state is fine.\<close>

definition safe_flow :: "parse_env \<Rightarrow> flow res \<Rightarrow> bool" where
  "safe_flow e m \<longleftrightarrow> (\<exists>f. m = Inr f \<and> flow_ok e f)"

lemma safe_flow_Inr [simp]: "safe_flow e (Inr f) \<longleftrightarrow> flow_ok e f"
  by (simp add: safe_flow_def)

section \<open>Inner loops\<close>

lemma copy_while_ok:
  assumes "0 \<le> n" "n \<le> int (length mem)" "I r"
    and put: "\<And>c r. I r \<Longrightarrow> \<exists>r'. put c r = Inr r' \<and> (full r' \<or> I r')"
  shows "(\<exists>mem' n' r'. copy_while stop put full mem n r = Inr (Fail mem' n' r')) \<or>
    (\<exists>mem' n' r'. copy_while stop put full mem n r = Inr (Go mem' n' r') \<and> I r' \<and> 0 \<le> n' \<and> n' \<le> int (length mem'))"
  using assms(1-3)
proof (induction mem arbitrary: n r)
  case (Cons c mem)
  obtain r' where "put c r = Inr r'" "full r' \<or> I r'" using put Cons.prems by blast
  with Cons.prems Cons.IH [of "n - 1" r'] show ?case by auto
qed auto

lemma digits_while_ok:
  assumes "digits_while stop add over mem n r = Inr (Go mem' n' r')" "n \<le> int (length mem)"
  shows "n' \<le> int (length mem')"
  using assms by (induction mem arbitrary: n r) (fastforce split: if_splits simp: rbind_eq_Inr)+

lemma skip_spaces_ok: "skip_spaces mem n r = Inr (Go mem' n' r') \<Longrightarrow> n \<le> int (length mem) \<Longrightarrow> n' \<le> int (length mem')"
  by (induction mem arbitrary: n) (fastforce split: if_splits)+

text \<open>A loop that copies, and what follows it unless it reached the end.\<close>

lemma safe_copy:
  assumes "0 \<le> n" "n \<le> int (length mem)" "I r"
    and put: "\<And>c r. I r \<Longrightarrow> \<exists>r'. put c r = Inr r' \<and> (full r' \<or> I r')"
    and ok: "\<And>r. I r \<Longrightarrow> ureq_ok e r"
    and k: "\<And>c mem n r. I r \<Longrightarrow> n \<le> int (length (c # mem)) \<Longrightarrow> safe_flow e (k (c # mem) n r)"
  shows "safe_flow e (next_flow (copy_while stop put full mem n r) (unless_end k))"
proof -
  consider (fail) mem' n' r' where "copy_while stop put full mem n r = Inr (Fail mem' n' r')"
    | (go) mem' n' r' where "copy_while stop put full mem n r = Inr (Go mem' n' r')" "I r'" "0 \<le> n'" "n' \<le> int (length mem')"
    using copy_while_ok [of n mem I r put full stop, OF assms(1-3)] put by blast
  then show ?thesis
  proof cases
    case go
    then show ?thesis using ok k by (cases mem') (auto simp: unless_end_def)
  qed simp
qed

section \<open>One iteration\<close>

text \<open>The invariant of a state whose token goes to \<open>tmp\<close>.\<close>

abbreviation (input) in_state :: "parse_env \<Rightarrow> info_req_state \<Rightarrow> ureq \<Rightarrow> bool" where
  "in_state e st r \<equiv> ureq_ok e r \<and> q_state r = st"

lemma ureq_ok_state:
  "ureq_ok e r \<Longrightarrow> q_state r \<noteq> PARSE_URI \<Longrightarrow> st \<notin> {PARSE_URI, PARSE_COLON, PARSE_DONE, PARSE_VERSION} \<Longrightarrow>
   ureq_ok e (r\<lparr>q_state := st\<rparr>)"
  by (auto simp: ureq_ok_def)

lemma put_tmp_ok:
  "in_state e st r \<Longrightarrow> st \<notin> {PARSE_URI, PARSE_COLON} \<Longrightarrow> \<exists>r'. put_tmp c r = Inr r' \<and> (tmp_full r' \<or> in_state e st r')"
  by (auto simp: put_tmp_def ureq_ok_def tmp_full_def)

lemma put_uri_ok:
  "in_state e PARSE_URI r \<Longrightarrow> \<exists>r'. put_uri (doc_root_len e) c r = Inr r' \<and> (uri_full (doc_root_len e) r' \<or> in_state e PARSE_URI r')"
  by (auto simp: put_uri_def ureq_ok_def uri_full_def Let_def)

lemma put_cookie_ok:
  "in_state e st r \<Longrightarrow> \<exists>r'. put_cookie c r = Inr r' \<and> (cookie_full r' \<or> in_state e st r')"
  by (auto simp: put_cookie_def ureq_ok_def cookie_full_def)

text \<open>After \<open>end_tmp\<close> the token is a string and \<open>tmp\<close> is free for the next.\<close>

lemma end_tmp_ok:
  assumes "ureq_ok e r" "q_state r \<noteq> PARSE_URI"
  obtains r' where "end_tmp r = Inr r'" "ureq_ok e r'" "tmp_len r' = 0" "terminated (q_tmp r')"
    "q_state r' = q_state r" "q_method r' = q_method r" "q_uri r' = q_uri r"
  using assms by (auto simp: end_tmp_def put_tmp_def ureq_ok_def terminated_def set_update_memI)

lemma safe_end_tmp:
  assumes "in_state e st r" "st \<noteq> PARSE_URI"
    and "\<And>r'. \<lbrakk>ureq_ok e r'; q_state r' = st; tmp_len r' = 0; terminated (q_tmp r'); q_method r' = q_method r\<rbrakk> \<Longrightarrow> safe_flow e (f r')"
  shows "safe_flow e (rbind (end_tmp r) f)"
  using assms by (auto elim!: end_tmp_ok [of e r])

lemma tolower_NUL [simp]: "tolower c = NUL \<longleftrightarrow> c = NUL" "NUL = tolower c \<longleftrightarrow> c = NUL" "tolower NUL = NUL"
  by (auto simp: tolower_def NUL_def of_char_of dest: arg_cong [where f = "of_char :: char \<Rightarrow> nat"])

lemma stricmp_total: "terminated s \<Longrightarrow> terminated t \<Longrightarrow> \<exists>d. stricmp s t = Inr d"
  by (induction s t rule: stricmp.induct) (auto simp: terminated_def)

lemma pick_header_total:
  assumes "terminated s"
  shows "\<exists>h. pick_header hs s = Inr h \<and> (\<forall>st. h = Some st \<longrightarrow> st \<in> snd ` set hs)"
proof (induction hs)
  case (Cons h hs)
  obtain name a where h: "h = (name, a)" by (cases h)
  obtain d where "stricmp s (name @ [NUL]) = Inr d" using stricmp_total [OF assms, of "name @ [NUL]"] by auto
  with Cons.IH h show ?case by auto
qed simp

lemma header_states: "snd ` set header_names =
  {PARSE_CONTENT_LENGTH, PARSE_RANGE_REQUEST, PARSE_IF_MODIFIED_SINCE, PARSE_CLIENT_ID, PARSE_COOKIE}"
  by (simp add: header_names_def)

lemma header_name_safe:
  assumes n: "0 < n" "n \<le> int (length mem)" and st: "in_state e PARSE_HEADER_NAME r"
  shows "safe_flow e (parse_header_name mem n r)"
  unfolding parse_header_name_def
proof (rule safe_copy [where I = "in_state e PARSE_HEADER_NAME", OF _ _ _ put_tmp_ok])
  fix c r and mem :: string and n :: int
  assume "in_state e PARSE_HEADER_NAME r" "n \<le> int (length (c # mem))"
  then show "safe_flow e (rbind (end_tmp r) (\<lambda>r. at_cur (c # mem) (\<lambda>ch.
      if eol ch then Inr (Go (c # mem) n (r\<lparr>q_state := if tmp_len r = 0 then PARSE_CR_2 else PARSE_CR_1\<rparr>))
      else Inr (Go (c # mem) n (r\<lparr>q_state := PARSE_COLON, skip_lws := True\<rparr>)))))"
    by (elim conjE, intro safe_end_tmp) (auto simp: ureq_ok_def)
qed (use n st in auto)

lemma cookie_safe:
  assumes n: "0 < n" "n \<le> int (length mem)" and st: "in_state e PARSE_COOKIE r"
  shows "safe_flow e (parse_cookie mem n r)"
  unfolding parse_cookie_def
  by (rule safe_copy [where I = "in_state e PARSE_COOKIE", OF _ _ _ put_cookie_ok]) (use n st in \<open>auto intro: ureq_ok_state\<close>)

lemma skip_safe:
  assumes n: "0 < n" "n \<le> int (length mem)" and st: "in_state e PARSE_SKIP r"
  shows "safe_flow e (parse_skip mem n r)"
  unfolding parse_skip_def
  by (rule safe_copy [where I = "in_state e PARSE_SKIP"]) (use n st in \<open>auto intro: ureq_ok_state\<close>)

lemma if_modified_since_safe:
  assumes n: "0 < n" "n \<le> int (length mem)" and st: "in_state e PARSE_IF_MODIFIED_SINCE r"
  shows "safe_flow e (parse_if_modified_since e mem n r)"
  unfolding parse_if_modified_since_def
proof (rule safe_copy [where I = "in_state e PARSE_IF_MODIFIED_SINCE", OF _ _ _ put_tmp_ok])
  fix c r and mem :: string and n :: int
  assume "in_state e PARSE_IF_MODIFIED_SINCE r" "n \<le> int (length (c # mem))"
  then show "safe_flow e (rbind (end_tmp r) (\<lambda>r.
         let t = http_str_to_time e (cstr (q_tmp r)); r = r\<lparr>ifmodsince := snd t\<rparr> in
         if fst t = 0 \<and> ifmodsince r \<noteq> 0 then Inr (Fail (c # mem) n r)
         else Inr (Go (c # mem) n (r\<lparr>q_state := PARSE_CR_1\<rparr>))))"
    by (elim conjE, intro safe_end_tmp) (auto simp: ureq_ok_def Let_def)
qed (use n st in auto)

lemma method_safe:
  assumes n: "0 < n" "n \<le> int (length mem)" and st: "in_state e PARSE_METHOD r" "q_method r = HTTP_NONE"
  shows "safe_flow e (parse_method mem n r)"
  unfolding parse_method_def
proof (rule safe_copy [where I = "\<lambda>r. in_state e PARSE_METHOD r \<and> q_method r = HTTP_NONE"])
  fix c r and mem :: string and n :: int
  assume "in_state e PARSE_METHOD r \<and> q_method r = HTTP_NONE" "n \<le> int (length (c # mem))"
  then show "safe_flow e (rbind (end_tmp r) (\<lambda>r. Inr (Go (c # mem) n (set_method r))))"
    by (elim conjE, intro safe_end_tmp) (auto simp: ureq_ok_def set_method_def)
next
  fix c r
  assume "in_state e PARSE_METHOD r \<and> q_method r = HTTP_NONE"
  then show "\<exists>r'. put_tmp c r = Inr r' \<and> (tmp_full r' \<or> in_state e PARSE_METHOD r' \<and> q_method r' = HTTP_NONE)"
    using put_tmp_ok [of e r PARSE_METHOD c] by (auto simp: put_tmp_def split: if_splits)
qed (use n st in auto)

lemma version_safe:
  assumes n: "0 < n" "n \<le> int (length mem)" and st: "in_state e PARSE_VERSION r"
  shows "safe_flow e (parse_version mem n r)"
  unfolding parse_version_def
proof (rule safe_copy [where I = "in_state e PARSE_VERSION", OF _ _ _ put_tmp_ok])
  fix c r and mem :: string and n :: int
  assume "in_state e PARSE_VERSION r" "n \<le> int (length (c # mem))"
  then show "safe_flow e (rbind (end_tmp r) (\<lambda>r.
         if strcmp_eq (q_tmp r) ''HTTP/1.1'' then Inr (Go (c # mem) n (r\<lparr>q_close := False, q_state := PARSE_SKIP\<rparr>))
         else if strcmp_eq (q_tmp r) ''HTTP/1.0'' then Inr (Go (c # mem) n (r\<lparr>q_close := True, q_state := PARSE_SKIP\<rparr>))
         else if cstr (q_tmp r) = [] then
           if q_method r \<noteq> HTTP_GET then Inr (Fail (c # mem) n r)
           else Inr (Go (c # mem) n (r\<lparr>q_method := HTTP_SIMPLE, q_close := True, q_state := PARSE_SKIP\<rparr>))
         else Inr (Fail (c # mem) n r)))"
    by (elim conjE, intro safe_end_tmp) (auto simp: ureq_ok_def)
qed (use n st in auto)

lemma colon_safe:
  assumes n: "0 < n" "n \<le> int (length mem)" and st: "in_state e PARSE_COLON r"
  shows "safe_flow e (parse_colon mem n r)"
proof -
  obtain c m where mem: "mem = c # m" using n by (cases mem) auto
  obtain h where h: "pick_header header_names (q_tmp r) = Inr h" "\<And>st. h = Some st \<Longrightarrow> st \<in> snd ` set header_names"
    using st pick_header_total [of "q_tmp r" header_names] by (auto simp: ureq_ok_def)
  have "safe_flow e (start_cookie mem n r)"
    using st n mem by (auto simp: start_cookie_def put_cookie_def ureq_ok_def)
  with h mem n st show ?thesis
    unfolding header_states by (auto simp: parse_colon_def ureq_ok_def split: option.splits)
qed

lemma line_end_safe:
  assumes n: "0 < n" "n \<le> int (length mem)"
  shows "ureq_ok e r \<Longrightarrow> q_state r \<in> {PARSE_CR_1, PARSE_CR_2} \<Longrightarrow> safe_flow e (parse_cr mem n r)"
    and "ureq_ok e r \<Longrightarrow> q_state r \<in> {PARSE_LF_1, PARSE_LF_2} \<Longrightarrow> safe_flow e (parse_lf mem n r)"
  using n by (cases mem; auto simp: parse_cr_def parse_lf_def ureq_ok_def end_of_line_def split: info_req_method.splits)+

lemma uri_safe:
  assumes "0 < n" "n \<le> int (length mem)" "in_state e PARSE_URI r"
  shows "safe_flow e (parse_uri (doc_root_len e) mem n r)"
proof -
  let ?k = "\<lambda>mem n r. rbind (end_uri (doc_root_len e) r) (\<lambda>r. Inr (Go mem n r))"
  have k: "safe_flow e (?k (c # mem) n r)" if "in_state e PARSE_URI r" "n \<le> int (length (c # mem))" for c mem n r
    using that by (auto simp: end_uri_def put_uri_def ureq_ok_def Let_def terminated_def drop_update_swap set_update_memI)
  have "safe_flow e (next_flow (copy_while isspace (put_uri (doc_root_len e)) (uri_full (doc_root_len e)) m n' r) (unless_end ?k))"
    if "0 \<le> n'" "n' \<le> int (length m)" for m n'
    by (rule safe_copy [where I = "in_state e PARSE_URI", OF _ _ _ put_uri_ok]) (use that assms k in auto)
  with assms show ?thesis by (cases mem) (auto simp: parse_uri_def simp del: copy_while.simps)
qed

text \<open>The three headers that can fault keep the invariant when they do not.\<close>

definition keeps :: "parse_env \<Rightarrow> flow res \<Rightarrow> bool" where
  "keeps e m \<longleftrightarrow> (\<forall>mem n r. m = Inr (Go mem n r) \<longrightarrow> ureq_ok e r \<and> n \<le> int (length mem)) \<and> m \<noteq> Inl BufferOverflow"

lemma safe_flow_keeps: "safe_flow e m \<Longrightarrow> keeps e m"
  by (auto simp: safe_flow_def keeps_def)

lemma ureq_ok_numbers [simp]:
  "ureq_ok e (r\<lparr>client_id := i\<rparr>) = ureq_ok e r" "ureq_ok e (r\<lparr>call_id := i\<rparr>) = ureq_ok e r"
  "ureq_ok e (r\<lparr>range_start := z\<rparr>) = ureq_ok e r" "ureq_ok e (r\<lparr>range_end := z\<rparr>) = ureq_ok e r"
  "ureq_ok e (r\<lparr>content_len := z\<rparr>) = ureq_ok e r" "ureq_ok e (r\<lparr>range_request := b\<rparr>) = ureq_ok e r"
  "ureq_ok e (r\<lparr>skip_lws := b\<rparr>) = ureq_ok e r"
  by (simp_all add: ureq_ok_def)

lemma add_keeps_ok:
  "add_client_id d r = Inr r' \<Longrightarrow> ureq_ok e r' = ureq_ok e r"
  "add_call_id d r = Inr r' \<Longrightarrow> ureq_ok e r' = ureq_ok e r"
  "add_range_start d r = Inr r' \<Longrightarrow> ureq_ok e r' = ureq_ok e r"
  "add_range_end d r = Inr r' \<Longrightarrow> ureq_ok e r' = ureq_ok e r"
  "add_content_len d r = Inr r' \<Longrightarrow> ureq_ok e r' = ureq_ok e r"
  by (auto simp: add_client_id_def add_call_id_def add_range_start_def
      add_range_end_def add_content_len_def rbind_eq_Inr Let_def split: if_splits)

lemma digits_while_no_overflow:
  assumes "\<And>d r. add d r \<noteq> Inl BufferOverflow"
  shows "digits_while stop add over mem n r \<noteq> Inl BufferOverflow"
proof (induction mem arbitrary: n r)
  case (Cons c mem)
  then show ?case using assms by (auto simp: rbind_eq_Inl)
qed simp

lemma add_no_overflow:
  "add_client_id d r \<noteq> Inl BufferOverflow" "add_call_id d r \<noteq> Inl BufferOverflow"
  "add_range_start d r \<noteq> Inl BufferOverflow" "add_range_end d r \<noteq> Inl BufferOverflow"
  "add_content_len d r \<noteq> Inl BufferOverflow"
  by (auto simp: add_client_id_def add_call_id_def add_range_start_def
      add_range_end_def add_content_len_def rbind_eq_Inl ssize_digit_def Let_def split: if_splits)

lemma skip_spaces_no_overflow: "skip_spaces mem n r \<noteq> Inl BufferOverflow"
  by (induction mem n r rule: skip_spaces.induct) auto

text \<open>What a loop of digits keeps, for any of the five fields.\<close>

lemma digits_while_fine:
  assumes "digits_while stop add over mem n r = Inr (Go mem' n' r')"
    and "\<And>d r r'. add d r = Inr r' \<Longrightarrow> ureq_ok e r' = ureq_ok e r"
    and "\<And>d r r'. add d r = Inr r' \<Longrightarrow> q_state r' = q_state r"
    and "n \<le> int (length mem)" "in_state e st r"
  shows "in_state e st r' \<and> n' \<le> int (length mem')"
  using digits_while_keeps [where f = "ureq_ok e", OF assms(1)] digits_while_keeps [where f = q_state, OF assms(1)]
    digits_while_ok [OF assms(1,4)] assms(2,3,5) by blast

lemma content_length_keeps:
  assumes "n \<le> int (length mem)" "in_state e PARSE_CONTENT_LENGTH r"
  shows "keeps e (parse_content_length mem n r)"
  unfolding keeps_def
proof (intro conjI allI impI)
  fix mem' n' r'
  assume "parse_content_length mem n r = Inr (Go mem' n' r')"
  then obtain m1 n1 r1 where "digits_while isspace add_content_len (\<lambda>r. MAX_CONTENT_LEN < content_len r) mem n r = Inr (Go m1 n1 r1)"
    and u: "unless_end (\<lambda>mem n r. Inr (Go mem n (r\<lparr>q_state := PARSE_SKIP\<rparr>))) m1 n1 r1 = Inr (Go mem' n' r')"
    by (auto simp: parse_content_length_def next_flow_Go)
  then have "in_state e PARSE_CONTENT_LENGTH r1 \<and> n1 \<le> int (length m1)"
    using assms by (intro digits_while_fine [OF _ add_keeps_ok(5) put_keeps_state(8)]) auto
  with u show "ureq_ok e r'" "n' \<le> int (length mem')"
    by (auto simp: unless_end_def split: if_splits intro: ureq_ok_state)
next
  show "parse_content_length mem n r \<noteq> Inl BufferOverflow"
    by (auto simp: parse_content_length_def next_flow_Inl unless_end_def digits_while_no_overflow add_no_overflow split: if_splits)
qed

lemma client_id_keeps:
  assumes "n \<le> int (length mem)" "in_state e PARSE_CLIENT_ID r"
  shows "keeps e (parse_client_id mem n r)"
  unfolding keeps_def
proof (intro conjI allI impI)
  fix mem' n' r'
  assume "parse_client_id mem n r = Inr (Go mem' n' r')"
  then obtain m1 n1 r1 m2 n2 m3 n3 r3 where
      d: "digits_while isspace add_client_id (\<lambda>r. 4294967295 < uint (client_id r)) mem n r = Inr (Go m1 n1 r1)"
        "skip_spaces m1 n1 r1 = Inr (Go m2 n2 r1)"
        "digits_while isspace add_call_id (\<lambda>r. 4294967295 < uint (call_id r)) m2 n2 r1 = Inr (Go m3 n3 r3)"
    and u: "unless_end (\<lambda>mem n r. Inr (Go mem n (r\<lparr>q_state := PARSE_HEADER_NAME\<rparr>))) m3 n3 r3 = Inr (Go mem' n' r')"
    by (fastforce simp: parse_client_id_def next_flow_Go dest: skip_spaces_le)
  have "in_state e PARSE_CLIENT_ID r1 \<and> n1 \<le> int (length m1)"
    by (rule digits_while_fine [OF d(1) add_keeps_ok(1) put_keeps_state(4)]) (use assms in auto)
  moreover from this have "n2 \<le> int (length m2)" using d(2) skip_spaces_ok by blast
  ultimately have "in_state e PARSE_CLIENT_ID r3 \<and> n3 \<le> int (length m3)"
    by (intro digits_while_fine [OF d(3) add_keeps_ok(2) put_keeps_state(5)]) auto
  with u show "ureq_ok e r'" "n' \<le> int (length mem')"
    by (auto simp: unless_end_def split: if_splits intro: ureq_ok_state)
next
  show "parse_client_id mem n r \<noteq> Inl BufferOverflow"
    by (auto simp: parse_client_id_def next_flow_Inl unless_end_def digits_while_no_overflow add_no_overflow
        skip_spaces_no_overflow split: if_splits)
qed

lemma range_keeps:
  assumes "n \<le> int (length mem)" "in_state e PARSE_RANGE_REQUEST r"
  shows "keeps e (parse_range_request mem n r)"
  unfolding keeps_def
proof (intro conjI allI impI)
  fix mem' n' r'
  assume "parse_range_request mem n r = Inr (Go mem' n' r')"
  then obtain n1 r1 m2 n2 r2 m1 where
      d: "digits_while (\<lambda>c. isspace c \<or> c = CHR ''-'') add_range_start (\<lambda>_. False) (drop 6 mem) (n - 6) (r\<lparr>range_request := True\<rparr>)
          = Inr (Go (CHR ''-'' # m1) n1 r1)"
        "digits_while isspace add_range_end (\<lambda>_. False) m1 (n1 - 1) r1 = Inr (Go m2 n2 r2)"
    and u: "unless_end (\<lambda>mem n r. Inr (Go mem n (r\<lparr>q_state := PARSE_HEADER_NAME\<rparr>))) m2 n2 r2 = Inr (Go mem' n' r')"
    by (fastforce simp: parse_range_request_def next_flow_Go rbind_eq_Inr at_cur_Inr split: if_splits)
  have "in_state e PARSE_RANGE_REQUEST r1 \<and> n1 \<le> int (length (CHR ''-'' # m1))"
    by (rule digits_while_fine [OF d(1) add_keeps_ok(3) put_keeps_state(6)]) (use assms in auto)
  then have "in_state e PARSE_RANGE_REQUEST r2 \<and> n2 \<le> int (length m2)"
    by (intro digits_while_fine [OF d(2) add_keeps_ok(4) put_keeps_state(7)]) auto
  with u show "ureq_ok e r'" "n' \<le> int (length mem')"
    by (auto simp: unless_end_def split: if_splits intro: ureq_ok_state)
next
  show "parse_range_request mem n r \<noteq> Inl BufferOverflow"
    by (auto simp: parse_range_request_def next_flow_Inl rbind_eq_Inl search_def at_cur_def unless_end_def
        digits_while_no_overflow add_no_overflow split: if_splits option.splits list.splits)
qed

text \<open>The headers whose values are read with faults possible.\<close>

definition hazard :: "info_req_state \<Rightarrow> bool" where
  "hazard st \<longleftrightarrow> st \<in> {PARSE_RANGE_REQUEST, PARSE_CLIENT_ID, PARSE_CONTENT_LENGTH}"

text \<open>Only a request whose method is not yet known is in the state that reads it, and only one
  whose method is known is done.\<close>

definition phase_ok :: "ureq \<Rightarrow> bool" where
  "phase_ok r \<longleftrightarrow> q_type r = REQ_INVALID \<and>
     (q_state r = PARSE_METHOD \<longrightarrow> q_method r = HTTP_NONE) \<and> (q_state r = PARSE_DONE \<longrightarrow> q_method r \<noteq> HTTP_NONE) \<and>
     q_state r \<notin> {FCGI_READING_HEADER, FCGI_READING_END_REQUEST, FCGI_READING_STDOUT, FCGI_READING_STDERR,
       FCGI_READING_GET_VALUES_RESULT, FCGI_READING_UNKNOWN_TYPE}"

definition parsing :: "parse_env \<Rightarrow> ureq \<Rightarrow> bool" where
  "parsing e r \<longleftrightarrow> ureq_ok e r \<and> phase_ok r"

lemma parse_state_safe:
  assumes "0 < n" "n \<le> int (length mem)" "parsing e r" "q_state r \<noteq> PARSE_DONE" "\<not> hazard (q_state r)"
  shows "safe_flow e (parse_state e mem n r)"
  using assms header_name_safe [OF assms(1,2)] cookie_safe [OF assms(1,2)] skip_safe [OF assms(1,2)]
    if_modified_since_safe [OF assms(1,2)] method_safe [OF assms(1,2)] version_safe [OF assms(1,2)]
    colon_safe [OF assms(1,2)] line_end_safe [OF assms(1,2)] uri_safe [OF assms(1,2)]
  by (cases "q_state r") (auto simp: parse_state_def parsing_def phase_ok_def hazard_def)

lemma parse_state_keeps:
  assumes "0 < n" "n \<le> int (length mem)" "parsing e r" "q_state r \<noteq> PARSE_DONE"
  shows "keeps e (parse_state e mem n r)"
proof (cases "hazard (q_state r)")
  case True
  with assms content_length_keeps range_keeps client_id_keeps show ?thesis
    by (auto simp: hazard_def parse_state_def parsing_def)
next
  case False
  with assms parse_state_safe show ?thesis by (blast intro: safe_flow_keeps)
qed

text \<open>The inner loops change neither the type nor the method nor the state.\<close>

definition core :: "ureq \<Rightarrow> req_type \<times> info_req_method \<times> info_req_state" where
  "core r = (q_type r, q_method r, q_state r)"

lemma put_core:
  "put_tmp c r = Inr r' \<Longrightarrow> core r' = core r"
  "put_uri root c r = Inr r' \<Longrightarrow> core r' = core r"
  "put_cookie c r = Inr r' \<Longrightarrow> core r' = core r"
  "end_tmp r = Inr r' \<Longrightarrow> core r' = core r"
  "add_client_id d r = Inr r' \<Longrightarrow> core r' = core r"
  "add_call_id d r = Inr r' \<Longrightarrow> core r' = core r"
  "add_range_start d r = Inr r' \<Longrightarrow> core r' = core r"
  "add_range_end d r = Inr r' \<Longrightarrow> core r' = core r"
  "add_content_len d r = Inr r' \<Longrightarrow> core r' = core r"
  by (auto simp: core_def put_tmp_def end_tmp_def put_uri_def put_cookie_def add_client_id_def add_call_id_def
      add_range_start_def add_range_end_def add_content_len_def rbind_eq_Inr Let_def split: if_splits)

lemma loop_core:
  "copy_while stop put_tmp full mem n r = Inr (Go mem' n' r') \<Longrightarrow> core r' = core r"
  "copy_while stop (put_uri root) full mem n r = Inr (Go mem' n' r') \<Longrightarrow> core r' = core r"
  "copy_while stop put_cookie full mem n r = Inr (Go mem' n' r') \<Longrightarrow> core r' = core r"
  "copy_while stop (\<lambda>_. Inr) full mem n r = Inr (Go mem' n' r') \<Longrightarrow> core r' = core r"
  "digits_while stop add_client_id over mem n r = Inr (Go mem' n' r') \<Longrightarrow> core r' = core r"
  "digits_while stop add_call_id over mem n r = Inr (Go mem' n' r') \<Longrightarrow> core r' = core r"
  "digits_while stop add_range_start over mem n r = Inr (Go mem' n' r') \<Longrightarrow> core r' = core r"
  "digits_while stop add_range_end over mem n r = Inr (Go mem' n' r') \<Longrightarrow> core r' = core r"
  "digits_while stop add_content_len over mem n r = Inr (Go mem' n' r') \<Longrightarrow> core r' = core r"
  by ((erule copy_while_keeps | erule digits_while_keeps); simp add: put_core)+

lemma skip_spaces_core: "skip_spaces mem n r = Inr (Go mem' n' r') \<Longrightarrow> core r' = core r"
  by (auto dest: skip_spaces_le)

lemma phase_ok_core: "core r' = core r \<Longrightarrow> phase_ok r' = phase_ok r"
  by (simp add: core_def phase_ok_def)

lemma phase_unless_end:
  assumes "next_flow m (unless_end k) = Inr (Go mem' n' r')" and "phase_ok r"
    and "\<And>mem' n' r'. m = Inr (Go mem' n' r') \<Longrightarrow> core r' = core r"
    and "\<And>mem r1 n1. core r1 = core r \<Longrightarrow> k mem n1 r1 = Inr (Go mem' n' r') \<Longrightarrow> phase_ok r'"
  shows "phase_ok r'"
proof -
  obtain m1 n1 r1 where m: "m = Inr (Go m1 n1 r1)" and u: "unless_end k m1 n1 r1 = Inr (Go mem' n' r')"
    using assms(1) by (auto simp: next_flow_Go)
  from assms(3) [OF m] assms(2) have "phase_ok r1" using phase_ok_core by blast
  with u assms(3) [OF m] assms(4) show ?thesis by (auto simp: unless_end_def split: if_splits)
qed

lemma set_method_phase: "core r1 = core r \<Longrightarrow> phase_ok r \<Longrightarrow> phase_ok (set_method r1)"
  by (auto simp: set_method_def phase_ok_def core_def)

lemma phase_ok_simps [simp]:
  "phase_ok (r\<lparr>skip_lws := b\<rparr>) = phase_ok r" "phase_ok (r\<lparr>range_request := b\<rparr>) = phase_ok r"
  by (simp_all add: phase_ok_def)

lemma phase_copies:
  assumes "phase_ok r"
  shows "parse_header_name mem n r = Inr (Go mem' n' r') \<Longrightarrow> phase_ok r'"
    and "parse_cookie mem n r = Inr (Go mem' n' r') \<Longrightarrow> phase_ok r'"
    and "parse_if_modified_since e mem n r = Inr (Go mem' n' r') \<Longrightarrow> phase_ok r'"
    and "parse_skip mem n r = Inr (Go mem' n' r') \<Longrightarrow> phase_ok r'"
    and "parse_content_length mem n r = Inr (Go mem' n' r') \<Longrightarrow> phase_ok r'"
    and "parse_method mem n r = Inr (Go mem' n' r') \<Longrightarrow> phase_ok r'"
    and "parse_version mem n r = Inr (Go mem' n' r') \<Longrightarrow> phase_ok r'"
proof -
  have state: "phase_ok (r1\<lparr>q_state := st\<rparr>)" if "core r1 = core r" "st \<notin> {PARSE_METHOD, PARSE_DONE}" "state_rank st > 1 \<or> st \<in> {PARSE_CR_1, PARSE_CR_2}" for r1 st
    using that assms by (cases st) (auto simp: core_def phase_ok_def)
  show "parse_header_name mem n r = Inr (Go mem' n' r') \<Longrightarrow> phase_ok r'"
    unfolding parse_header_name_def
    by (erule phase_unless_end [OF _ assms loop_core(1)])
      (auto dest!: put_core(4) simp: rbind_eq_Inr at_cur_Inr intro!: state split: if_splits)
  show "parse_cookie mem n r = Inr (Go mem' n' r') \<Longrightarrow> phase_ok r'"
    unfolding parse_cookie_def
    by (erule phase_unless_end [OF _ assms loop_core(3)]) (use state in auto)
  show "parse_if_modified_since e mem n r = Inr (Go mem' n' r') \<Longrightarrow> phase_ok r'"
    unfolding parse_if_modified_since_def
    by (erule phase_unless_end [OF _ assms loop_core(1)])
      (use assms in \<open>auto dest!: put_core(4) simp: rbind_eq_Inr Let_def phase_ok_def core_def split: if_splits\<close>)
  show "parse_skip mem n r = Inr (Go mem' n' r') \<Longrightarrow> phase_ok r'"
    unfolding parse_skip_def
    by (erule phase_unless_end [OF _ assms loop_core(4)]) (use state in auto)
  show "parse_content_length mem n r = Inr (Go mem' n' r') \<Longrightarrow> phase_ok r'"
    unfolding parse_content_length_def
    by (erule phase_unless_end [OF _ assms loop_core(9)]) (use state in auto)
  show "parse_method mem n r = Inr (Go mem' n' r') \<Longrightarrow> phase_ok r'"
    unfolding parse_method_def
    by (erule phase_unless_end [OF _ assms loop_core(1)])
      (use assms in \<open>auto dest!: put_core(4) simp: rbind_eq_Inr intro!: set_method_phase [of _ r]\<close>)
  show "parse_version mem n r = Inr (Go mem' n' r') \<Longrightarrow> phase_ok r'"
    unfolding parse_version_def
    by (erule phase_unless_end [OF _ assms loop_core(1)])
      (use assms in \<open>auto dest!: put_core(4) simp: rbind_eq_Inr phase_ok_def core_def split: if_splits\<close>)
qed

lemma phase_colon:
  assumes "phase_ok r" "terminated (q_tmp r)" "parse_colon mem n r = Inr (Go mem' n' r')"
  shows "phase_ok r'"
proof -
  obtain h where h: "pick_header header_names (q_tmp r) = Inr h" "\<And>st. h = Some st \<Longrightarrow> st \<in> snd ` set header_names"
    using assms pick_header_total [of "q_tmp r" header_names] by auto
  have state: "phase_ok (r\<lparr>q_state := st\<rparr>)" if "st = PARSE_SKIP \<or> st \<in> snd ` set header_names" for st
    using that assms(1) unfolding header_states by (auto simp: phase_ok_def)
  have "phase_ok r'" if "start_cookie mem n r = Inr (Go mem' n' r')"
    using that assms(1)
    by (auto simp: start_cookie_def put_cookie_def phase_ok_def rbind_eq_Inr split: if_splits)
  moreover have "phase_ok (r\<lparr>q_state := st\<rparr>)" if "h = Some st" for st
    using that h(2) state by blast
  ultimately show ?thesis
    using assms(3) h(1) state by (cases h) (auto simp: parse_colon_def at_cur_Inr split: if_splits)
qed

lemma phase_line_end:
  assumes "phase_ok r"
  shows "parse_cr mem n r = Inr (Go mem' n' r') \<Longrightarrow> phase_ok r'"
    and "parse_lf mem n r = Inr (Go mem' n' r') \<Longrightarrow> phase_ok r'"
  using assms by (auto simp: parse_cr_def parse_lf_def at_cur_Inr phase_ok_def end_of_line_def
      split: info_req_method.splits if_splits)

lemma phase_uri:
  assumes "phase_ok r" "parse_uri root mem n r = Inr (Go mem' n' r')"
  shows "phase_ok r'"
proof -
  obtain m1 n1 where "next_flow (copy_while isspace (put_uri root) (uri_full root) m1 n1 r) (unless_end (\<lambda>mem n r.
       rbind (end_uri root r) (\<lambda>r. Inr (Go mem n r)))) = Inr (Go mem' n' r')"
    using assms(2) by (auto simp: parse_uri_def at_cur_Inr split: if_splits simp del: copy_while.simps)
  then show ?thesis
    by (rule phase_unless_end [OF _ assms(1) loop_core(2)])
      (use assms(1) in \<open>auto simp: end_uri_def rbind_eq_Inr phase_ok_def core_def put_uri_def Let_def split: if_splits\<close>)
qed

lemma phase_numbers:
  assumes "phase_ok r"
  shows "parse_range_request mem n r = Inr (Go mem' n' r') \<Longrightarrow> phase_ok r'"
    and "parse_client_id mem n r = Inr (Go mem' n' r') \<Longrightarrow> phase_ok r'"
proof -
  have k: "unless_end (\<lambda>mem n r. Inr (Go mem n (r\<lparr>q_state := PARSE_HEADER_NAME\<rparr>))) m n1 r1 = Inr (Go mem' n' r') \<Longrightarrow>
      core r1 = core r \<Longrightarrow> phase_ok r'" for m n1 r1
    using assms by (auto simp: unless_end_def phase_ok_def core_def split: if_splits)
  have rr: "core (r\<lparr>range_request := True\<rparr>) = core r" by (simp add: core_def)
  show "parse_range_request mem n r = Inr (Go mem' n' r') \<Longrightarrow> phase_ok r'"
    using rr by (auto simp: parse_range_request_def next_flow_Go rbind_eq_Inr at_cur_Inr dest!: loop_core intro!: k split: if_splits)
  show "parse_client_id mem n r = Inr (Go mem' n' r') \<Longrightarrow> phase_ok r'"
    by (auto simp: parse_client_id_def next_flow_Go dest!: loop_core skip_spaces_core intro!: k)
qed

lemma parse_step_keeps:
  assumes "0 < n" "n \<le> int (length mem)" "parsing e r" "q_state r \<noteq> PARSE_DONE"
  shows "parse_step e mem n r \<noteq> Inl BufferOverflow"
    and "parse_step e mem n r = Inr (Go mem' n' r') \<Longrightarrow> parsing e r' \<and> n' \<le> int (length mem')"
    and "\<not> hazard (q_state r) \<Longrightarrow> \<exists>f. parse_step e mem n r = Inr f"
proof -
  let ?r = "r\<lparr>skip_lws := False\<rparr>"
  have r: "parsing e ?r" "q_state ?r = q_state r" using assms(3) by (simp_all add: parsing_def)
  have ph: "phase_ok ?r" and tm: "q_state r = PARSE_COLON \<Longrightarrow> terminated (q_tmp r)"
    using r(1) assms(3) by (simp_all add: parsing_def ureq_ok_def)
  obtain c m where mem: "mem = c # m" using assms(1,2) by (cases mem) auto
  have keeps: "keeps e (parse_state e mem n ?r)" using assms r by (intro parse_state_keeps) auto
  have phase: "phase_ok r'" if "parse_state e mem n ?r = Inr (Go mem' n' r')" for mem' n' r'
    using that tm phase_copies(1,2,4,5,6,7) [OF ph, of mem n mem' n' r'] phase_copies(3) [OF ph, of e mem n mem' n' r'] phase_colon [OF ph, of mem n mem' n' r']
      phase_line_end [OF ph, of mem n mem' n' r'] phase_uri [OF ph, of _ mem n mem' n' r'] phase_numbers [OF ph, of mem n mem' n' r']
    by (cases "q_state r") (simp_all add: parse_state_def)
  show "parse_step e mem n r \<noteq> Inl BufferOverflow"
    using keeps mem by (auto simp: parse_step_def keeps_def)
  show "parse_step e mem n r = Inr (Go mem' n' r') \<Longrightarrow> parsing e r' \<and> n' \<le> int (length mem')"
    using keeps phase mem assms(2,3) by (auto simp: parse_step_def keeps_def parsing_def split: if_splits)
  show "\<not> hazard (q_state r) \<Longrightarrow> \<exists>f. parse_step e mem n r = Inr f"
    using parse_state_safe [of n mem e ?r] assms r mem by (auto simp: parse_step_def safe_flow_def)
qed

section \<open>The loop\<close>

text \<open>The states the loop goes through.\<close>

inductive reads :: "parse_env \<Rightarrow> string \<times> int \<times> ureq \<Rightarrow> string \<times> int \<times> ureq \<Rightarrow> bool" for e where
  reads_refl: "reads e s s"
| reads_step: "0 < n \<Longrightarrow> q_state r \<noteq> PARSE_DONE \<Longrightarrow> parse_step e mem n r = Inr (Go mem' n' r') \<Longrightarrow>
    reads e (mem', n', r') s \<Longrightarrow> reads e (mem, n, r) s"

lemma parse_loop_safe:
  assumes "n \<le> int (length mem)" "parsing e r"
  shows "(case parse_loop e mem n r of
      Inl x \<Rightarrow> x \<noteq> BufferOverflow \<and> (\<exists>mem' n' r'. reads e (mem, n, r) (mem', n', r') \<and> hazard (q_state r'))
    | Inr (Fail mem' n' r') \<Rightarrow> True
    | Inr (Go mem' n' r') \<Rightarrow> parsing e r' \<and> n' \<le> int (length mem') \<and> (n' \<le> 0 \<or> q_state r' = PARSE_DONE))"
  using assms
proof (induction e mem n r rule: parse_loop.induct)
  case (1 e mem n r)
  show ?case
  proof (cases "n \<le> 0 \<or> q_state r = PARSE_DONE")
    case True
    with 1(2,3) show ?thesis by (subst parse_loop.simps) auto
  next
    case False
    then have pre: "0 < n" "q_state r \<noteq> PARSE_DONE" by auto
    note st = parse_step_keeps [OF pre(1) 1(2,3) pre(2)]
    show ?thesis
    proof (cases "parse_step e mem n r")
      case (Inl x)
      then have "hazard (q_state r)" using st(3) by force
      with Inl st(1) pre show ?thesis by (subst parse_loop.simps) (auto intro: reads_refl)
    next
      case (Inr f)
      show ?thesis
      proof (cases f)
        case (Go mem' n' r')
        with Inr st(2) have ok: "parsing e r'" "n' \<le> int (length mem')" by auto
        from 1(1) [OF False Inr Go ok(2,1)] pre Inr Go show ?thesis
          by (subst parse_loop.simps) (auto split: sum.splits flow.splits intro: reads_step)
      next
        case (Fail mem' n' r')
        with Inr pre show ?thesis by (subst parse_loop.simps) auto
      qed
    qed
  qed
qed

end
