(* ===== verification/Userver_Parse_Split.thy ===== *)
theory Userver_Parse_Split
  imports Userver_Parse_Correct
begin

text \<open>
  A request may arrive in pieces. Here the pieces are related to the whole: parsing \<open>xs @ ys\<close> is
  parsing \<open>xs\<close> and then \<open>ys\<close> from where that ended, except where the parser cannot resume, which is
  inside the values of the \<open>Range\<close> and \<open>Client-Id\<close> headers and before a second slash of the URI.
\<close>

section \<open>Pieces of code that can be interrupted\<close>

text \<open>A piece of code that, stopped by the end of the bytes, can be entered again with more of
  them; and that does not depend on the bytes after those it has looked at.\<close>

definition flags :: "ureq \<Rightarrow> info_req_state \<times> bool" where
  "flags r = (q_state r, skip_lws r)"

definition splits :: "(string \<Rightarrow> int \<Rightarrow> ureq \<Rightarrow> flow res) \<Rightarrow> bool" where
  "splits W \<longleftrightarrow> (\<forall>xs r m n r' ys. W xs (int (length xs)) r = Inr (Go m n r') \<longrightarrow>
     n = int (length m) \<and> (m = [] \<longrightarrow> flags r' = flags r) \<and>
     W (xs @ ys) (int (length (xs @ ys))) r =
       (if m = [] then W ys (int (length ys)) r' else Inr (Go (m @ ys) (int (length (m @ ys))) r')))"

lemma splitsD:
  assumes "splits W" "W xs (int (length xs)) r = Inr (Go m n r')"
  shows "n = int (length m)" and "m = [] \<Longrightarrow> flags r' = flags r"
    and "W (xs @ ys) (int (length (xs @ ys))) r =
       (if m = [] then W ys (int (length ys)) r' else Inr (Go (m @ ys) (int (length (m @ ys))) r'))"
  using assms by (auto simp: splits_def)

lemma copy_while_splits:
  assumes put: "\<And>c r r'. put c r = Inr r' \<Longrightarrow> flags r' = flags r"
  shows "splits (copy_while stop put full)"
  unfolding splits_def
proof (intro allI impI)
  fix xs r m n r' ys
  assume "copy_while stop put full xs (int (length xs)) r = Inr (Go m n r')"
  then show "n = int (length m) \<and> (m = [] \<longrightarrow> flags r' = flags r) \<and> copy_while stop put full (xs @ ys) (int (length (xs @ ys))) r =
      (if m = [] then copy_while stop put full ys (int (length ys)) r' else Inr (Go (m @ ys) (int (length (m @ ys))) r'))"
  proof (induction xs arbitrary: r)
    case (Cons c xs)
    show ?case
    proof (cases "stop c")
      case True
      with Cons.prems show ?thesis by auto
    next
      case False
      then obtain r1 where "put c r = Inr r1" "\<not> full r1"
          "copy_while stop put full xs (int (length xs)) r1 = Inr (Go m n r')"
        using Cons.prems by (auto simp: rbind_eq_Inr split: if_splits)
      with Cons.IH [of r1] False put show ?thesis by auto
    qed
  qed auto
qed

lemma digits_while_splits:
  assumes add: "\<And>d r r'. add d r = Inr r' \<Longrightarrow> flags r' = flags r"
  shows "splits (digits_while stop add over)"
  unfolding splits_def
proof (intro allI impI)
  fix xs r m n r' ys
  assume "digits_while stop add over xs (int (length xs)) r = Inr (Go m n r')"
  then show "n = int (length m) \<and> (m = [] \<longrightarrow> flags r' = flags r) \<and> digits_while stop add over (xs @ ys) (int (length (xs @ ys))) r =
      (if m = [] then digits_while stop add over ys (int (length ys)) r' else Inr (Go (m @ ys) (int (length (m @ ys))) r'))"
  proof (induction xs arbitrary: r)
    case (Cons c xs)
    show ?case
    proof (cases "stop c")
      case True
      with Cons.prems show ?thesis by auto
    next
      case False
      then obtain r1 where "isdigit c" "add (int (digit_val c)) r = Inr r1" "\<not> over r1"
          "digits_while stop add over xs (int (length xs)) r1 = Inr (Go m n r')"
        using Cons.prems by (auto simp: rbind_eq_Inr split: if_splits)
      with Cons.IH [of r1] False add show ?thesis by auto
    qed
  qed auto
qed

text \<open>What follows a loop looks at one byte and leaves the pointer.\<close>

definition one_byte :: "(string \<Rightarrow> int \<Rightarrow> ureq \<Rightarrow> flow res) \<Rightarrow> bool" where
  "one_byte k \<longleftrightarrow> (\<forall>c m n r m' n' r'. k (c # m) n r = Inr (Go m' n' r') \<longrightarrow>
     m' = c # m \<and> n' = n \<and> (\<forall>mem n. k (c # mem) n r = Inr (Go (c # mem) n r')))"

lemma splits_unless_end:
  assumes "splits W" "one_byte k"
  shows "splits (\<lambda>mem n r. next_flow (W mem n r) (unless_end k))"
  unfolding splits_def
proof (intro allI impI)
  fix xs r m n r' ys
  assume "next_flow (W xs (int (length xs)) r) (unless_end k) = Inr (Go m n r')"
  then obtain m1 n1 r1 where w: "W xs (int (length xs)) r = Inr (Go m1 n1 r1)" and u: "unless_end k m1 n1 r1 = Inr (Go m n r')"
    by (auto simp: next_flow_Go)
  note d = splitsD [OF assms(1) w]
  show "n = int (length m) \<and> (m = [] \<longrightarrow> flags r' = flags r) \<and> next_flow (W (xs @ ys) (int (length (xs @ ys))) r) (unless_end k) =
      (if m = [] then next_flow (W ys (int (length ys)) r') (unless_end k) else Inr (Go (m @ ys) (int (length (m @ ys))) r'))"
  proof (cases m1)
    case Nil
    with u d show ?thesis by (auto simp: unless_end_def)
  next
    case (Cons c m2)
    with u d(1) have "k (c # m2) (int (length (c # m2))) r1 = Inr (Go m n r')" by (auto simp: unless_end_def)
    with assms(2) have "m = c # m2" "n = int (length (c # m2))"
        "k (c # m2 @ ys) (int (length (c # m2 @ ys))) r1 = Inr (Go (c # m2 @ ys) (int (length (c # m2 @ ys))) r')"
      unfolding one_byte_def by blast+
    then show ?thesis using Cons d(3) by (simp add: unless_end_def)
  qed
qed

section \<open>The states\<close>

lemma put_flags:
  "put_tmp c r = Inr r' \<Longrightarrow> flags r' = flags r"
  "put_uri root c r = Inr r' \<Longrightarrow> flags r' = flags r"
  "put_cookie c r = Inr r' \<Longrightarrow> flags r' = flags r"
  "add_client_id d r = Inr r' \<Longrightarrow> flags r' = flags r"
  "add_call_id d r = Inr r' \<Longrightarrow> flags r' = flags r"
  "add_range_start d r = Inr r' \<Longrightarrow> flags r' = flags r"
  "add_range_end d r = Inr r' \<Longrightarrow> flags r' = flags r"
  "add_content_len d r = Inr r' \<Longrightarrow> flags r' = flags r"
  by (auto simp: flags_def put_tmp_def put_uri_def put_cookie_def add_client_id_def add_call_id_def
      add_range_start_def add_range_end_def add_content_len_def rbind_eq_Inr Let_def split: if_splits)

lemma loop_splits:
  "splits (copy_while stop put_tmp full)"
  "splits (copy_while stop (put_uri root) full)"
  "splits (copy_while stop put_cookie full)"
  "splits (digits_while stop add_client_id over)"
  "splits (digits_while stop add_call_id over)"
  "splits (digits_while stop add_range_start over)"
  "splits (digits_while stop add_range_end over)"
  "splits (digits_while stop add_content_len over)"
  by ((rule copy_while_splits | rule digits_while_splits); erule put_flags)+

lemma one_byte_const: "one_byte (\<lambda>mem n r. Inr (Go mem n (f r)))"
  by (simp add: one_byte_def)

lemma one_byte_rbind:
  assumes "\<And>r. one_byte (\<lambda>mem n _. g r mem n)"
  shows "one_byte (\<lambda>mem n r. rbind (f r) (\<lambda>r. g r mem n))"
  using assms unfolding one_byte_def rbind_eq_Inr by blast

lemma splits_copies:
  "splits parse_header_name" "splits parse_cookie" "splits (parse_if_modified_since e)" "splits parse_skip"
  "splits parse_content_length" "splits parse_method" "splits parse_version"
proof -
  show "splits parse_header_name"
    unfolding parse_header_name_def [abs_def]
    by (intro splits_unless_end loop_splits one_byte_rbind) (simp_all add: one_byte_def)
  show "splits parse_cookie"
    unfolding parse_cookie_def [abs_def] by (intro splits_unless_end loop_splits one_byte_const)
  show "splits (parse_if_modified_since e)"
    unfolding parse_if_modified_since_def [abs_def]
    by (intro splits_unless_end loop_splits one_byte_rbind) (simp_all add: one_byte_def Let_def)
  show "splits parse_skip"
    unfolding parse_skip_def [abs_def] by (intro splits_unless_end copy_while_splits one_byte_const) simp
  show "splits parse_content_length"
    unfolding parse_content_length_def [abs_def] by (intro splits_unless_end loop_splits one_byte_const)
  show "splits parse_method"
    unfolding parse_method_def [abs_def]
    by (intro splits_unless_end loop_splits one_byte_rbind) (simp_all add: one_byte_def)
  show "splits parse_version"
    unfolding parse_version_def [abs_def]
    by (intro splits_unless_end loop_splits one_byte_rbind) (simp_all add: one_byte_def)
qed

text \<open>The URI: after the first byte its loop can be interrupted, but entered again it would skip a
  slash.\<close>

abbreviation (input) uri_loop :: "nat \<Rightarrow> string \<Rightarrow> int \<Rightarrow> ureq \<Rightarrow> flow res" where
  "uri_loop root mem n r \<equiv> next_flow (copy_while isspace (put_uri root) (uri_full root) mem n r)
     (unless_end (\<lambda>mem n r. rbind (end_uri root r) (\<lambda>r. Inr (Go mem n r))))"

lemma uri_loop_splits: "splits (uri_loop root)"
  by (intro splits_unless_end loop_splits one_byte_rbind) (simp_all add: one_byte_def)

lemma parse_uri_Cons:
  "parse_uri root (c # mem) (int (length (c # mem))) r =
     (if c = CHR ''/'' then uri_loop root mem (int (length mem)) r else uri_loop root (c # mem) (int (length (c # mem))) r)"
  by (simp add: parse_uri_def del: copy_while.simps)

definition resumable :: "string \<Rightarrow> ureq \<Rightarrow> bool" where
  "resumable ys r \<longleftrightarrow> q_state r \<notin> {PARSE_RANGE_REQUEST, PARSE_CLIENT_ID} \<and>
     (q_state r = PARSE_URI \<and> \<not> skip_lws r \<longrightarrow> take 1 ys \<noteq> ''/'')"

text \<open>What an iteration on a piece says about the iteration on the whole.\<close>

definition extends :: "parse_env \<Rightarrow> (string \<Rightarrow> int \<Rightarrow> ureq \<Rightarrow> flow res) \<Rightarrow> string \<Rightarrow> ureq \<Rightarrow> bool" where
  "extends e W xs r \<longleftrightarrow> (\<forall>m n r' ys. W xs (int (length xs)) r = Inr (Go m n r') \<longrightarrow> ys \<noteq> [] \<longrightarrow>
     n = int (length m) \<and>
     (m \<noteq> [] \<longrightarrow> W (xs @ ys) (int (length (xs @ ys))) r = Inr (Go (m @ ys) (int (length (m @ ys))) r')) \<and>
     (m = [] \<and> resumable ys r' \<longrightarrow>
        W (xs @ ys) (int (length (xs @ ys))) r = Inr (Go ys (int (length ys)) r') \<or>
        q_state r' \<noteq> PARSE_DONE \<and> W (xs @ ys) (int (length (xs @ ys))) r = parse_step e ys (int (length ys)) r'))"

lemma extends_splits:
  assumes "splits W" and st: "q_state r \<noteq> PARSE_DONE" "\<not> skip_lws r"
    and H: "\<And>ys r'. ys \<noteq> [] \<Longrightarrow> q_state r' = q_state r \<Longrightarrow> resumable ys r' \<Longrightarrow> \<not> skip_lws r' \<Longrightarrow>
      parse_state e ys (int (length ys)) r' = W ys (int (length ys)) r'"
  shows "extends e W xs r"
  unfolding extends_def
proof (intro allI impI)
  fix m n r' and ys :: string
  assume w: "W xs (int (length xs)) r = Inr (Go m n r')" and ys: "ys \<noteq> []"
  note d = splitsD [OF assms(1) w]
  have "parse_step e ys (int (length ys)) r' = W ys (int (length ys)) r'" if m: "m = []" and "resumable ys r'"
  proof -
    have f: "q_state r' = q_state r" "\<not> skip_lws r'" using d(2) [OF m] st by (auto simp: flags_def)
    then have same: "r'\<lparr>skip_lws := False\<rparr> = r'" by simp
    have "parse_step e ys (int (length ys)) r' = parse_state e ys (int (length ys)) (r'\<lparr>skip_lws := False\<rparr>)"
      using f ys by (cases ys) (simp_all add: parse_step_def del: length_Cons)
    also have "\<dots> = W ys (int (length ys)) r'" unfolding same by (rule H [OF ys f(1) that(2) f(2)])
    finally show ?thesis .
  qed
  with d st show "n = int (length m) \<and>
     (m \<noteq> [] \<longrightarrow> W (xs @ ys) (int (length (xs @ ys))) r = Inr (Go (m @ ys) (int (length (m @ ys))) r')) \<and>
     (m = [] \<and> resumable ys r' \<longrightarrow>
        W (xs @ ys) (int (length (xs @ ys))) r = Inr (Go ys (int (length ys)) r') \<or>
        q_state r' \<noteq> PARSE_DONE \<and> W (xs @ ys) (int (length (xs @ ys))) r = parse_step e ys (int (length ys)) r')"
    by (auto simp: flags_def)
qed

text \<open>The states that look at one byte.\<close>

lemma start_cookie_local:
  assumes "start_cookie (c # mem) (int (length (c # mem))) r = Inr (Go m n r')"
  shows "m = mem \<and> n = int (length mem) \<and> start_cookie (c # mem') (int (length (c # mem'))) r = Inr (Go mem' (int (length mem')) r')"
  using assms by (auto simp: start_cookie_def rbind_eq_Inr split: if_splits)

lemma parse_colon_local:
  assumes "parse_colon (c # mem) (int (length (c # mem))) r = Inr (Go m n r')"
  shows "m = c # mem \<and> n = int (length m) \<and>
      (\<forall>mem. parse_colon (c # mem) (int (length (c # mem))) r = Inr (Go (c # mem) (int (length (c # mem))) r')) \<or>
    m = mem \<and> n = int (length m) \<and>
      (\<forall>mem. parse_colon (c # mem) (int (length (c # mem))) r = Inr (Go mem (int (length mem)) r'))"
proof (cases "c = CHR '':''")
  case True
  with assms obtain h where h: "pick_header header_names (q_tmp r) = Inr h"
    by (auto simp: parse_colon_def rbind_eq_Inr)
  show ?thesis
  proof (cases "h = Some PARSE_COOKIE")
    case True
    with assms h \<open>c = CHR '':''\<close> have "start_cookie (c # mem) (int (length (c # mem))) r = Inr (Go m n r')"
      by (simp add: parse_colon_def)
    from start_cookie_local [OF this] True h \<open>c = CHR '':''\<close> show ?thesis by (simp add: parse_colon_def)
  next
    case False
    with assms h \<open>c = CHR '':''\<close> show ?thesis by (cases h) (auto simp: parse_colon_def)
  qed
next
  case False
  with assms show ?thesis by (auto simp: parse_colon_def)
qed

lemma extends_colon:
  assumes "xs \<noteq> []"
  shows "extends e parse_colon xs r"
  unfolding extends_def
proof (intro allI impI, goal_cases)
  case (1 m n r' ys)
  obtain c mem where xs: "xs = c # mem" using assms by (cases xs) auto
  from parse_colon_local [OF 1(1) [unfolded xs]] show ?case
    unfolding xs by - (elim disjE conjE; drule spec [where x = "mem @ ys"]; auto)
qed

lemma extends_line_end: "xs \<noteq> [] \<Longrightarrow> extends e parse_cr xs r" "xs \<noteq> [] \<Longrightarrow> extends e parse_lf xs r"
  by (cases xs; auto simp: extends_def parse_cr_def parse_lf_def)+

text \<open>The two headers that cannot be resumed do not look past the value when it is complete.\<close>

lemma skip_spaces_append:
  "skip_spaces xs (int (length xs)) r = Inr (Go m n r') \<Longrightarrow>
   m \<noteq> [] \<and> n = int (length m) \<and> skip_spaces (xs @ ys) (int (length (xs @ ys))) r = Inr (Go (m @ ys) (int (length (m @ ys))) r')"
  by (induction xs) (auto split: if_splits)

lemma find_str_append: "find_str t s \<noteq> None \<Longrightarrow> find_str t (s @ u) \<noteq> None"
proof (induction s)
  case (Cons c s)
  have "prefix t (c # s) \<Longrightarrow> prefix t (c # s @ u)" by (metis append_Cons prefix_prefix)
  with Cons show ?case by (auto split: if_splits)
qed (cases u; simp split: if_splits)

lemma cstr_append_cases: "cstr (s @ u) = (if terminated s then cstr s else s @ cstr u)"
  by (induction s) (auto simp: terminated_def)

lemma search_append:
  assumes "search (find_str t) s = Inr (Some i)"
  shows "\<exists>j. search (find_str t) (s @ u) = Inr (Some j)"
proof -
  have "find_str t (cstr s) \<noteq> None" using assms by (auto simp: search_def split: option.splits if_splits)
  then have "find_str t (cstr (s @ u)) \<noteq> None"
    using find_str_append [of t "cstr s" "cstr u"] by (cases "terminated s") (auto simp: cstr_append_cases not_terminated_no_nul)
  then show ?thesis by (auto simp: search_def)
qed

abbreviation (input) back_to_name :: "string \<Rightarrow> int \<Rightarrow> ureq \<Rightarrow> flow res" where
  "back_to_name mem n r \<equiv> Inr (Go mem n (r\<lparr>q_state := PARSE_HEADER_NAME\<rparr>))"

lemma last_number:
  assumes "splits W" "next_flow (W xs (int (length xs)) r) (unless_end back_to_name) = Inr (Go m n r')"
  shows "n = int (length m) \<and> (m = [] \<longrightarrow> flags r' = flags r) \<and>
    (m \<noteq> [] \<longrightarrow> next_flow (W (xs @ ys) (int (length (xs @ ys))) r) (unless_end back_to_name) = Inr (Go (m @ ys) (int (length (m @ ys))) r'))"
  using splitsD(1,2) [OF splits_unless_end [OF assms(1) one_byte_const] assms(2)]
    splitsD(3) [OF splits_unless_end [OF assms(1) one_byte_const] assms(2), of ys] by simp

lemma extends_client_id:
  assumes "q_state r = PARSE_CLIENT_ID"
  shows "extends e parse_client_id xs r"
  unfolding extends_def
proof (intro allI impI)
  fix m n r' and ys :: string
  assume "parse_client_id xs (int (length xs)) r = Inr (Go m n r')" and "ys \<noteq> []"
  then obtain m1 n1 r1 m2 n2 r2 where
      d: "digits_while isspace add_client_id (\<lambda>r. 4294967295 < uint (client_id r)) xs (int (length xs)) r = Inr (Go m1 n1 r1)"
    and s: "skip_spaces m1 n1 r1 = Inr (Go m2 n2 r2)"
    and l: "next_flow (digits_while isspace add_call_id (\<lambda>r. 4294967295 < uint (call_id r)) m2 n2 r2) (unless_end back_to_name) = Inr (Go m n r')"
    by (auto simp: parse_client_id_def next_flow_Go)
  note d' = splitsD [OF loop_splits(4) d]
  have s': "m2 \<noteq> []" "n2 = int (length m2)" "skip_spaces (m1 @ ys) (int (length (m1 @ ys))) r1 = Inr (Go (m2 @ ys) (int (length (m2 @ ys))) r2)"
    using skip_spaces_append [of m1 r1 m2 n2 r2 ys] s d'(1) by simp_all
  have m1: "m1 \<noteq> []" using s by (cases m1) auto
  note l' = last_number [OF loop_splits(5) l [unfolded s'(2)], where ys = ys]
  have flags: "flags r2 = flags r"
    using digits_while_keeps [where f = flags, OF d put_flags(4)] skip_spaces_le [OF s] by auto
  have "parse_client_id (xs @ ys) (int (length (xs @ ys))) r =
      next_flow (digits_while isspace add_call_id (\<lambda>r. 4294967295 < uint (call_id r)) (m2 @ ys) (int (length (m2 @ ys))) r2) (unless_end back_to_name)"
    using d'(3) [of ys] m1 s'(3) by (simp add: parse_client_id_def)
  with l' flags assms show "n = int (length m) \<and>
     (m \<noteq> [] \<longrightarrow> parse_client_id (xs @ ys) (int (length (xs @ ys))) r = Inr (Go (m @ ys) (int (length (m @ ys))) r')) \<and>
     (m = [] \<and> resumable ys r' \<longrightarrow>
        parse_client_id (xs @ ys) (int (length (xs @ ys))) r = Inr (Go ys (int (length ys)) r') \<or>
        q_state r' \<noteq> PARSE_DONE \<and> parse_client_id (xs @ ys) (int (length (xs @ ys))) r = parse_step e ys (int (length ys)) r')"
    by (auto simp: resumable_def flags_def)
qed

lemma find_str_length: "find_str t s = Some i \<Longrightarrow> length t \<le> length s"
proof (induction s arbitrary: i)
  case (Cons c s)
  then show ?case by (fastforce split: if_splits dest: prefix_length_le)
qed (simp split: if_splits)

lemma extends_range:
  assumes "q_state r = PARSE_RANGE_REQUEST"
  shows "extends e parse_range_request xs r"
  unfolding extends_def
proof (intro allI impI)
  fix m n r' and ys :: string
  let ?r = "r\<lparr>range_request := True\<rparr>"
  let ?start = "digits_while (\<lambda>c. isspace c \<or> c = CHR ''-'') add_range_start (\<lambda>_. False)"
  let ?last = "digits_while isspace add_range_end (\<lambda>_. False)"
  assume "parse_range_request xs (int (length xs)) r = Inr (Go m n r')" and "ys \<noteq> []"
  then obtain i m1 n1 r1 where b: "search (find_str ''bytes='') xs = Inr (Some i)"
    and d: "?start (drop 6 xs) (int (length xs) - 6) ?r = Inr (Go (CHR ''-'' # m1) n1 r1)"
    and l: "next_flow (?last m1 (n1 - 1) r1) (unless_end back_to_name) = Inr (Go m n r')"
    by (auto simp: parse_range_request_def next_flow_Go [of "?start _ _ _"] rbind_eq_Inr at_cur_Inr split: if_splits)
  obtain j where b': "search (find_str ''bytes='') (xs @ ys) = Inr (Some j)" using search_append [OF b] by blast
  have six: "6 \<le> length xs"
    using b find_str_length [of "''bytes=''" "cstr xs" i] le_trans [OF _ length_cstr_le [of xs]]
    by (auto simp: search_def numeral_eq_Suc split: option.splits if_splits)
  then have len: "int (length xs) - 6 = int (length (drop 6 xs))" "drop 6 (xs @ ys) = drop 6 xs @ ys"
      "int (length (xs @ ys)) - 6 = int (length (drop 6 xs @ ys))" by simp_all
  note d' = splitsD [OF loop_splits(6) d [unfolded len(1)]]
  have n1: "n1 - 1 = int (length m1)" using d'(1) by simp
  note l' = last_number [OF loop_splits(7) l [unfolded n1], where ys = ys]
  have flags: "flags r1 = flags r"
    using digits_while_keeps [where f = flags, OF d put_flags(6)] by (simp add: flags_def)
  have "parse_range_request (xs @ ys) (int (length (xs @ ys))) r =
      next_flow (?last (m1 @ ys) (int (length (m1 @ ys))) r1) (unless_end back_to_name)"
    using b' d'(3) [of ys] unfolding parse_range_request_def len(2,3) by simp
  with l' flags assms show "n = int (length m) \<and>
     (m \<noteq> [] \<longrightarrow> parse_range_request (xs @ ys) (int (length (xs @ ys))) r = Inr (Go (m @ ys) (int (length (m @ ys))) r')) \<and>
     (m = [] \<and> resumable ys r' \<longrightarrow>
        parse_range_request (xs @ ys) (int (length (xs @ ys))) r = Inr (Go ys (int (length ys)) r') \<or>
        q_state r' \<noteq> PARSE_DONE \<and> parse_range_request (xs @ ys) (int (length (xs @ ys))) r = parse_step e ys (int (length ys)) r')"
    by (auto simp: resumable_def flags_def)
qed

lemma extends_uri:
  assumes "q_state r = PARSE_URI" "\<not> skip_lws r" "xs \<noteq> []"
  shows "extends e (parse_uri (doc_root_len e)) xs r"
proof -
  have H: "parse_state e ys (int (length ys)) r' = uri_loop (doc_root_len e) ys (int (length ys)) r'"
    if "ys \<noteq> []" "q_state r' = q_state r" "resumable ys r'" "\<not> skip_lws r'" for ys r'
    using that assms(1) by (cases ys) (simp_all add: parse_state_def parse_uri_def resumable_def del: copy_while.simps)
  have ext: "extends e (uri_loop (doc_root_len e)) zs r" for zs
    by (rule extends_splits [OF uri_loop_splits]) (use assms(1,2) H in auto)
  obtain c zs where xs: "xs = c # zs" using assms(3) by (cases xs) auto
  have "parse_uri (doc_root_len e) (xs @ us) (int (length (xs @ us))) r =
      uri_loop (doc_root_len e) ((if c = CHR ''/'' then zs else xs) @ us) (int (length ((if c = CHR ''/'' then zs else xs) @ us))) r" for us
    by (cases "c = CHR ''/''") (simp_all only: xs append_Cons parse_uri_Cons simp_thms if_True if_False)
  from this [of "[]"] this ext [of "if c = CHR ''/'' then zs else xs"] show ?thesis
    unfolding extends_def by (simp only: append_Nil2)
qed

lemma extends_parse_state:
  assumes "xs \<noteq> []" "q_state r \<noteq> PARSE_DONE" "\<not> skip_lws r"
  shows "extends e (parse_state e) xs r"
proof -
  have *: "extends e (parse_state e) xs r \<longleftrightarrow> extends e W xs r" if "\<And>zs n. parse_state e zs n r = W zs n r" for W
    using that by (simp add: extends_def)
  have scan: "extends e W xs r" if "splits W" "\<And>ys r'. q_state r' = q_state r \<Longrightarrow> parse_state e ys (int (length ys)) r' = W ys (int (length ys)) r'" for W
    using extends_splits [OF that(1) assms(2,3)] that(2) by blast
  show ?thesis
  proof (cases "q_state r")
    case PARSE_URI
    show ?thesis by (subst * [of "parse_uri (doc_root_len e)"]) (simp_all add: parse_state_def PARSE_URI extends_uri assms)
  next
    case PARSE_COLON
    show ?thesis by (subst * [of parse_colon]) (simp_all add: parse_state_def PARSE_COLON extends_colon assms)
  next
    case PARSE_RANGE_REQUEST
    show ?thesis by (subst * [of parse_range_request]) (simp_all add: parse_state_def PARSE_RANGE_REQUEST extends_range)
  next
    case PARSE_CLIENT_ID
    show ?thesis by (subst * [of parse_client_id]) (simp_all add: parse_state_def PARSE_CLIENT_ID extends_client_id)
  next
    case PARSE_HEADER_NAME
    show ?thesis by (subst * [of parse_header_name], simp add: parse_state_def PARSE_HEADER_NAME, rule scan, rule splits_copies) (simp add: parse_state_def PARSE_HEADER_NAME)
  next
    case PARSE_COOKIE
    show ?thesis by (subst * [of parse_cookie], simp add: parse_state_def PARSE_COOKIE, rule scan, rule splits_copies) (simp add: parse_state_def PARSE_COOKIE)
  next
    case PARSE_IF_MODIFIED_SINCE
    show ?thesis by (subst * [of "parse_if_modified_since e"], simp add: parse_state_def PARSE_IF_MODIFIED_SINCE, rule scan, rule splits_copies) (simp add: parse_state_def PARSE_IF_MODIFIED_SINCE)
  next
    case PARSE_SKIP
    show ?thesis by (subst * [of parse_skip], simp add: parse_state_def PARSE_SKIP, rule scan, rule splits_copies) (simp add: parse_state_def PARSE_SKIP)
  next
    case PARSE_CONTENT_LENGTH
    show ?thesis by (subst * [of parse_content_length], simp add: parse_state_def PARSE_CONTENT_LENGTH, rule scan, rule splits_copies) (simp add: parse_state_def PARSE_CONTENT_LENGTH)
  next
    case PARSE_METHOD
    show ?thesis by (subst * [of parse_method], simp add: parse_state_def PARSE_METHOD, rule scan, rule splits_copies) (simp add: parse_state_def PARSE_METHOD)
  next
    case PARSE_VERSION
    show ?thesis by (subst * [of parse_version], simp add: parse_state_def PARSE_VERSION, rule scan, rule splits_copies) (simp add: parse_state_def PARSE_VERSION)
  next
    case PARSE_CR_1
    show ?thesis by (subst * [of parse_cr]) (simp_all add: parse_state_def PARSE_CR_1 extends_line_end assms)
  next
    case PARSE_CR_2
    show ?thesis by (subst * [of parse_cr]) (simp_all add: parse_state_def PARSE_CR_2 extends_line_end assms)
  next
    case PARSE_LF_1
    show ?thesis by (subst * [of parse_lf]) (simp_all add: parse_state_def PARSE_LF_1 extends_line_end assms)
  next
    case PARSE_LF_2
    show ?thesis by (subst * [of parse_lf]) (simp_all add: parse_state_def PARSE_LF_2 extends_line_end assms)
  qed (use assms(2) in \<open>simp_all add: extends_def parse_state_def\<close>)
qed

text \<open>The same for an iteration of the loop, with its skipping of white space.\<close>

lemma extends_step:
  assumes "xs \<noteq> []" "q_state r \<noteq> PARSE_DONE"
  shows "extends e (parse_step e) xs r"
proof -
  obtain c zs where xs: "xs = c # zs" using assms(1) by (cases xs) auto
  show ?thesis
  proof (cases "skip_lws r \<and> (c = CHR '' '' \<or> c = TAB)")
    case True
    then show ?thesis using xs by (auto simp: extends_def parse_step_def)
  next
    case False
    then have "parse_step e (xs @ us) n r = parse_state e (xs @ us) n (r\<lparr>skip_lws := False\<rparr>)" for us n
      using xs by (auto simp: parse_step_def)
    from this [of "[]"] this extends_parse_state [OF assms(1), of "r\<lparr>skip_lws := False\<rparr>" e] assms(2) show ?thesis
      unfolding extends_def by (simp del: length_append)
  qed
qed

section \<open>The loop\<close>

abbreviation (input) parse_all :: "parse_env \<Rightarrow> string \<Rightarrow> ureq \<Rightarrow> flow res" where
  "parse_all e xs r \<equiv> parse_loop e xs (int (length xs)) r"

lemma parse_loop_done: "n \<le> 0 \<or> q_state r = PARSE_DONE \<Longrightarrow> parse_loop e mem n r = Inr (Go mem n r)"
  by (subst parse_loop.simps) simp

lemma parse_loop_step:
  "0 < n \<Longrightarrow> q_state r \<noteq> PARSE_DONE \<Longrightarrow> parse_loop e mem n r =
     next_flow (parse_step e mem n r) (\<lambda>mem n r. parse_loop e mem n r)"
  by (subst parse_loop.simps) (simp add: next_flow_def split: sum.split flow.split)

lemma parse_loop_result:
  assumes "parse_loop e xs n r = Inr (Go m n' r')" "n = int (length xs)"
  shows "n' = int (length m) \<and> (m = [] \<or> q_state r' = PARSE_DONE)"
  using assms
proof (induction e xs n r rule: parse_loop.induct)
  case (1 e xs n r)
  show ?case
  proof (cases "n \<le> 0 \<or> q_state r = PARSE_DONE")
    case True
    with 1(2,3) show ?thesis by (auto simp: parse_loop_done)
  next
    case False
    then obtain m1 n1 r1 where st: "parse_step e xs n r = Inr (Go m1 n1 r1)" and l: "parse_loop e m1 n1 r1 = Inr (Go m n' r')"
      using 1(2) by (auto simp: parse_loop_step next_flow_Go)
    have "n1 = int (length m1)"
      using extends_step [of xs r e] False 1(3) st by (auto simp: extends_def)
    then show ?thesis using 1(1) [OF False st refl l] by simp
  qed
qed

lemma parse_loop_append:
  assumes "parse_loop e xs n r = Inr (Go m n' r')" "n = int (length xs)" and "m = [] \<longrightarrow> resumable ys r'" "ys \<noteq> []"
  shows "parse_all e (xs @ ys) r = parse_all e (m @ ys) r'"
  using assms(1,2)
proof (induction e xs n r rule: parse_loop.induct)
  case (1 e xs n r)
  show ?case
  proof (cases "n \<le> 0 \<or> q_state r = PARSE_DONE")
    case True
    with 1(2,3) show ?thesis by (auto simp: parse_loop_done)
  next
    case False
    then obtain m1 n1 r1 where st: "parse_step e xs n r = Inr (Go m1 n1 r1)" and l: "parse_loop e m1 n1 r1 = Inr (Go m n' r')"
      using 1(2) by (auto simp: parse_loop_step next_flow_Go)
    have ext: "extends e (parse_step e) xs r" using False 1(3) by (intro extends_step) auto
    have loop: "parse_all e (xs @ ys) r = next_flow (parse_step e (xs @ ys) (int (length (xs @ ys))) r) (parse_loop e)"
      using False 1(3) by (intro parse_loop_step) (simp_all add: add_pos_nonneg)
    have n1: "n1 = int (length m1)" using ext st 1(3) assms(4) unfolding extends_def by blast
    show ?thesis
    proof (cases "m1 = []")
      case True
      with l n1 have r1: "m = []" "r' = r1" by (auto simp: parse_loop_done)
      with True ext st 1(3) assms(3,4) consider
          "parse_step e (xs @ ys) (int (length (xs @ ys))) r = Inr (Go ys (int (length ys)) r1)"
        | "q_state r1 \<noteq> PARSE_DONE" "parse_step e (xs @ ys) (int (length (xs @ ys))) r = parse_step e ys (int (length ys)) r1"
        unfolding extends_def by blast
      then show ?thesis
      proof cases
        case 1
        with loop r1 show ?thesis by simp
      next
        case 2
        with assms(4) have "parse_all e ys r1 = next_flow (parse_step e ys (int (length ys)) r1) (parse_loop e)"
          by (intro parse_loop_step) auto
        with 2 loop r1 show ?thesis by simp
      qed
    next
      case False
      then have "parse_step e (xs @ ys) (int (length (xs @ ys))) r = Inr (Go (m1 @ ys) (int (length (m1 @ ys))) r1)"
        using ext st 1(3) assms(4) unfolding extends_def by blast
      with loop have "parse_all e (xs @ ys) r = parse_all e (m1 @ ys) r1" by simp
      with 1(1) [OF \<open>\<not> (n \<le> 0 \<or> q_state r = PARSE_DONE)\<close> st refl l n1] show ?thesis by simp
    qed
  qed
qed

section \<open>Bytes after the end\<close>

text \<open>The array may hold bytes of earlier reads after \<open>end\<close>. They make no difference to a piece of
  code that returned without them.\<close>

definition stable :: "(string \<Rightarrow> int \<Rightarrow> ureq \<Rightarrow> flow res) \<Rightarrow> string \<Rightarrow> int \<Rightarrow> ureq \<Rightarrow> bool" where
  "stable W xs n r \<longleftrightarrow> (\<forall>m n' r' js. n \<le> int (length xs) \<longrightarrow> W xs n r = Inr (Go m n' r') \<longrightarrow>
     n' \<le> int (length m) \<and> W (xs @ js) n r = Inr (Go (m @ js) n' r'))"

lemma copy_while_stable: "stable (copy_while stop put full) xs n r"
proof (induction xs arbitrary: n r)
  case (Cons c xs n r)
  show ?case
    unfolding stable_def
  proof (intro allI impI, goal_cases)
    case (1 m n' r' js)
    note n = 1(1) and w = 1(2)
    show ?case
    proof (cases "n \<le> 0 \<or> stop c")
      case True
      with n w show ?thesis by auto
    next
      case False
      then obtain r1 where "put c r = Inr r1" "\<not> full r1" "copy_while stop put full xs (n - 1) r1 = Inr (Go m n' r')"
        using w by (auto simp: rbind_eq_Inr split: if_splits)
      with Cons.IH [of "n - 1" r1] False n show ?thesis by (auto simp: stable_def)
    qed
  qed
next
  case (Nil n r)
  show ?case
    unfolding stable_def
  proof (intro allI impI, goal_cases)
    case (1 m n' r' js)
    then show ?case by (cases js) (auto split: if_splits)
  qed
qed

lemma digits_while_stable: "stable (digits_while stop add over) xs n r"
proof (induction xs arbitrary: n r)
  case (Cons c xs n r)
  show ?case
    unfolding stable_def
  proof (intro allI impI, goal_cases)
    case (1 m n' r' js)
    note n = 1(1) and w = 1(2)
    show ?case
    proof (cases "n \<le> 0 \<or> stop c")
      case True
      with n w show ?thesis by auto
    next
      case False
      then obtain r1 where "isdigit c" "add (int (digit_val c)) r = Inr r1" "\<not> over r1" "digits_while stop add over xs (n - 1) r1 = Inr (Go m n' r')"
        using w by (auto simp: rbind_eq_Inr split: if_splits)
      with Cons.IH [of "n - 1" r1] False n show ?thesis by (auto simp: stable_def)
    qed
  qed
next
  case (Nil n r)
  show ?case
    unfolding stable_def
  proof (intro allI impI, goal_cases)
    case (1 m n' r' js)
    then show ?case by (cases js) (auto split: if_splits)
  qed
qed

lemma skip_spaces_stable:
  "skip_spaces xs n r = Inr (Go m n' r') \<Longrightarrow> n \<le> int (length xs) \<Longrightarrow>
   n' \<le> int (length m) \<and> skip_spaces (xs @ js) n r = Inr (Go (m @ js) n' r')"
  by (induction xs n r rule: skip_spaces.induct) (auto split: if_splits)

lemma stable_unless_end:
  assumes "\<And>xs n r. stable W xs n r" "one_byte k" "0 \<le> n" "\<And>m n' r'. W xs n r = Inr (Go m n' r') \<Longrightarrow> 0 \<le> n'"
  shows "stable (\<lambda>mem n r. next_flow (W mem n r) (unless_end k)) xs n r"
  unfolding stable_def
proof (intro allI impI)
  fix m n' r' js
  assume n: "n \<le> int (length xs)" and "next_flow (W xs n r) (unless_end k) = Inr (Go m n' r')"
  then obtain m1 n1 r1 where w: "W xs n r = Inr (Go m1 n1 r1)" and u: "unless_end k m1 n1 r1 = Inr (Go m n' r')"
    by (auto simp: next_flow_Go)
  have s: "n1 \<le> int (length m1)" "W (xs @ js) n r = Inr (Go (m1 @ js) n1 r1)" "0 \<le> n1"
    using assms(1) [of xs n r] assms(4) [OF w] n w by (auto simp: stable_def)
  show "n' \<le> int (length m) \<and> next_flow (W (xs @ js) n r) (unless_end k) = Inr (Go (m @ js) n' r')"
  proof (cases "n1 = 0")
    case True
    with u s show ?thesis by (auto simp: unless_end_def)
  next
    case False
    with s obtain c m2 where m1: "m1 = c # m2" by (cases m1) auto
    with u False have "k (c # m2) n1 r1 = Inr (Go m n' r')" by (simp add: unless_end_def)
    with assms(2) have "m = c # m2" "n' = n1" "k (c # m2 @ js) n1 r1 = Inr (Go (c # m2 @ js) n1 r')"
      unfolding one_byte_def by blast+
    with s m1 False show ?thesis by (simp add: unless_end_def)
  qed
qed

lemma loop_nonneg:
  "copy_while stop put full xs n r = Inr (Go m n' r') \<Longrightarrow> 0 \<le> n \<Longrightarrow> 0 \<le> n'"
  "digits_while stop add over xs n r = Inr (Go m n' r') \<Longrightarrow> 0 \<le> n \<Longrightarrow> 0 \<le> n'"
  by (induction xs arbitrary: n r) (fastforce split: if_splits simp: rbind_eq_Inr)+

lemma stable_const:
  assumes "\<And>xs n r. stable W xs n r"
  shows "stable (\<lambda>mem n r. next_flow (W mem n r) (unless_end (\<lambda>mem n r. Inr (Go mem n (f r))))) xs n r"
  unfolding stable_def
proof (intro allI impI, goal_cases)
  case (1 m n' r' js)
  then obtain m1 n1 r1 where "W xs n r = Inr (Go m1 n1 r1)" and u: "unless_end (\<lambda>mem n r. Inr (Go mem n (f r))) m1 n1 r1 = Inr (Go m n' r')"
    by (auto simp: next_flow_Go)
  then have "n1 \<le> int (length m1)" "W (xs @ js) n r = Inr (Go (m1 @ js) n1 r1)"
    using assms [of xs n r] 1(1) by (auto simp: stable_def)
  with u show ?case by (auto simp: unless_end_def split: if_splits)
qed

lemma stable_copies:
  assumes "0 \<le> n"
  shows "stable parse_header_name xs n r" "stable parse_cookie xs n r" "stable (parse_if_modified_since e) xs n r"
    "stable parse_skip xs n r" "stable parse_content_length xs n r" "stable parse_method xs n r" "stable parse_version xs n r"
    "stable (uri_loop root) xs n r"
proof -
  have copy: "stable (\<lambda>mem n r. next_flow (copy_while stop put full mem n r) (unless_end k)) xs n r" if "one_byte k" for stop put full k
    by (intro stable_unless_end copy_while_stable that assms) (erule loop_nonneg(1) [OF _ assms])
  show "stable parse_header_name xs n r"
    unfolding parse_header_name_def [abs_def] by (intro copy one_byte_rbind) (simp_all add: one_byte_def)
  show "stable parse_cookie xs n r"
    unfolding parse_cookie_def [abs_def] by (intro copy one_byte_const)
  show "stable (parse_if_modified_since e) xs n r"
    unfolding parse_if_modified_since_def [abs_def] by (intro copy one_byte_rbind) (simp_all add: one_byte_def Let_def)
  show "stable parse_skip xs n r"
    unfolding parse_skip_def [abs_def] by (intro copy one_byte_const)
  show "stable parse_content_length xs n r"
    unfolding parse_content_length_def [abs_def] by (intro stable_const digits_while_stable)
  show "stable parse_method xs n r"
    unfolding parse_method_def [abs_def] by (intro copy one_byte_rbind) (simp_all add: one_byte_def)
  show "stable parse_version xs n r"
    unfolding parse_version_def [abs_def] by (intro copy one_byte_rbind) (simp_all add: one_byte_def)
  show "stable (uri_loop root) xs n r"
    by (intro copy one_byte_rbind) (simp_all add: one_byte_def)
qed

lemma stable_client_id: "stable parse_client_id xs n r"
  unfolding stable_def
proof (intro allI impI, goal_cases)
  case (1 m n' r' js)
  let ?last = "\<lambda>mem n r. next_flow (digits_while isspace add_call_id (\<lambda>r. 4294967295 < uint (call_id r)) mem n r) (unless_end back_to_name)"
  obtain m1 n1 r1 m2 n2 r2 where
      d: "digits_while isspace add_client_id (\<lambda>r. 4294967295 < uint (client_id r)) xs n r = Inr (Go m1 n1 r1)"
    and s: "skip_spaces m1 n1 r1 = Inr (Go m2 n2 r2)" and l: "?last m2 n2 r2 = Inr (Go m n' r')"
    using 1 by (auto simp: parse_client_id_def next_flow_Go)
  have d': "n1 \<le> int (length m1)" "digits_while isspace add_client_id (\<lambda>r. 4294967295 < uint (client_id r)) (xs @ js) n r = Inr (Go (m1 @ js) n1 r1)"
    using digits_while_stable d 1(1) unfolding stable_def by blast+
  have s': "n2 \<le> int (length m2)" "skip_spaces (m1 @ js) n1 r1 = Inr (Go (m2 @ js) n2 r2)"
    using skip_spaces_stable [OF s d'(1)] by auto
  have "n' \<le> int (length m)" "?last (m2 @ js) n2 r2 = Inr (Go (m @ js) n' r')"
    using stable_const [OF digits_while_stable] l s'(1) unfolding stable_def by blast+
  with d'(2) s'(2) show ?case by (simp add: parse_client_id_def)
qed

lemma stable_range: "stable parse_range_request xs n r"
  unfolding stable_def
proof (intro allI impI, goal_cases)
  case (1 m n' r' js)
  let ?r = "r\<lparr>range_request := True\<rparr>"
  let ?start = "digits_while (\<lambda>c. isspace c \<or> c = CHR ''-'') add_range_start (\<lambda>_. False)"
  let ?last = "\<lambda>mem n r. next_flow (digits_while isspace add_range_end (\<lambda>_. False) mem n r) (unless_end back_to_name)"
  obtain i m1 n1 r1 where b: "search (find_str ''bytes='') xs = Inr (Some i)"
    and d: "?start (drop 6 xs) (n - 6) ?r = Inr (Go (CHR ''-'' # m1) n1 r1)"
    and l: "?last m1 (n1 - 1) r1 = Inr (Go m n' r')"
    using 1 by (auto simp: parse_range_request_def next_flow_Go [of "?start _ _ _"] rbind_eq_Inr at_cur_Inr split: if_splits)
  obtain j where b': "search (find_str ''bytes='') (xs @ js) = Inr (Some j)" using search_append [OF b] by blast
  have "6 \<le> length xs"
    using b find_str_length [of "''bytes=''" "cstr xs" i] le_trans [OF _ length_cstr_le [of xs]]
    by (auto simp: search_def numeral_eq_Suc split: option.splits if_splits)
  then have dr: "drop 6 (xs @ js) = drop 6 xs @ js" "n - 6 \<le> int (length (drop 6 xs))" using 1(1) by simp_all
  have d': "n1 \<le> int (length (CHR ''-'' # m1))" "?start (drop 6 xs @ js) (n - 6) ?r = Inr (Go ((CHR ''-'' # m1) @ js) n1 r1)"
    using digits_while_stable d dr(2) unfolding stable_def by blast+
  have n1: "n1 - 1 \<le> int (length m1)" using d'(1) by simp
  have "n' \<le> int (length m)" "?last (m1 @ js) (n1 - 1) r1 = Inr (Go (m @ js) n' r')"
    using stable_const [OF digits_while_stable] l n1 unfolding stable_def by blast+
  with d'(2) b' show ?case unfolding parse_range_request_def dr(1) by simp
qed

lemma stable_uri: "0 < n \<Longrightarrow> stable (parse_uri root) xs n r"
proof (cases xs)
  case (Cons c zs)
  assume "0 < n"
  then have "stable (uri_loop root) zs (n - 1) r" "stable (uri_loop root) xs n r" by (intro stable_copies; simp)+
  with Cons show ?thesis
    by (cases "c = CHR ''/''") (simp_all add: stable_def parse_uri_def del: copy_while.simps)
qed (simp add: stable_def parse_uri_def)

lemma parse_colon_shape:
  assumes "parse_colon (c # zs) n r = Inr (Go m n' r')"
  shows "(m = c # zs \<and> n' = n \<or> m = zs \<and> n' = n - 1) \<and> parse_colon (c # zs @ js) n r = Inr (Go (m @ js) n' r')"
proof (cases "c = CHR '':''")
  case True
  with assms obtain h where h: "pick_header header_names (q_tmp r) = Inr h"
    by (auto simp: parse_colon_def rbind_eq_Inr)
  show ?thesis
  proof (cases "h = Some PARSE_COOKIE")
    case c: True
    have "m = zs" "n' = n - 1"
      using assms True h c by (auto simp: parse_colon_def start_cookie_def rbind_eq_Inr split: if_splits)
    moreover have "start_cookie (c # zs @ js) n r = Inr (Go (zs @ js) n' r')" if "start_cookie (c # zs) n r = Inr (Go zs n' r')"
      using that by (auto simp: start_cookie_def rbind_eq_Inr split: if_splits)
    ultimately show ?thesis using assms True h c by (simp add: parse_colon_def)
  next
    case False
    with assms True h show ?thesis by (cases h) (auto simp: parse_colon_def)
  qed
next
  case False
  with assms show ?thesis by (auto simp: parse_colon_def)
qed

lemma stable_bytes:
  "stable parse_colon xs n r" "stable parse_cr xs n r" "stable parse_lf xs n r"
proof -
  show "stable parse_colon xs n r"
    unfolding stable_def
  proof (intro allI impI, goal_cases)
    case (1 m n' r' js)
    then obtain c zs where xs: "xs = c # zs" by (cases xs) (auto simp: parse_colon_def)
    from parse_colon_shape [OF 1(2) [unfolded xs], of js] 1(1) xs show ?case by auto
  qed
  show "stable parse_cr xs n r" "stable parse_lf xs n r"
    by (cases xs; auto simp: stable_def parse_cr_def parse_lf_def)+
qed

lemma stable_step:
  assumes "0 < n"
  shows "stable (parse_step e) xs n r"
proof -
  have n: "0 \<le> n" using assms by simp
  have "stable (parse_state e) xs n r" for r
  proof -
    have via: "stable (parse_state e) xs n r" if "\<And>zs. parse_state e zs n r = W zs n r" "stable W xs n r" for W
      using that by (simp add: stable_def)
    show ?thesis
    proof (cases "q_state r")
      case PARSE_HEADER_NAME
      show ?thesis by (rule via [of parse_header_name]) (simp_all add: parse_state_def PARSE_HEADER_NAME stable_copies [OF n])
    next
      case PARSE_COOKIE
      show ?thesis by (rule via [of parse_cookie]) (simp_all add: parse_state_def PARSE_COOKIE stable_copies [OF n])
    next
      case PARSE_IF_MODIFIED_SINCE
      show ?thesis by (rule via [of "parse_if_modified_since e"]) (simp_all add: parse_state_def PARSE_IF_MODIFIED_SINCE stable_copies [OF n])
    next
      case PARSE_SKIP
      show ?thesis by (rule via [of parse_skip]) (simp_all add: parse_state_def PARSE_SKIP stable_copies [OF n])
    next
      case PARSE_CONTENT_LENGTH
      show ?thesis by (rule via [of parse_content_length]) (simp_all add: parse_state_def PARSE_CONTENT_LENGTH stable_copies [OF n])
    next
      case PARSE_METHOD
      show ?thesis by (rule via [of parse_method]) (simp_all add: parse_state_def PARSE_METHOD stable_copies [OF n])
    next
      case PARSE_VERSION
      show ?thesis by (rule via [of parse_version]) (simp_all add: parse_state_def PARSE_VERSION stable_copies [OF n])
    next
      case PARSE_COLON
      show ?thesis by (rule via [of parse_colon]) (simp_all add: parse_state_def PARSE_COLON stable_bytes)
    next
      case PARSE_CR_1
      show ?thesis by (rule via [of parse_cr]) (simp_all add: parse_state_def PARSE_CR_1 stable_bytes)
    next
      case PARSE_CR_2
      show ?thesis by (rule via [of parse_cr]) (simp_all add: parse_state_def PARSE_CR_2 stable_bytes)
    next
      case PARSE_LF_1
      show ?thesis by (rule via [of parse_lf]) (simp_all add: parse_state_def PARSE_LF_1 stable_bytes)
    next
      case PARSE_LF_2
      show ?thesis by (rule via [of parse_lf]) (simp_all add: parse_state_def PARSE_LF_2 stable_bytes)
    next
      case PARSE_RANGE_REQUEST
      show ?thesis by (rule via [of parse_range_request]) (simp_all add: parse_state_def PARSE_RANGE_REQUEST stable_range)
    next
      case PARSE_CLIENT_ID
      show ?thesis by (rule via [of parse_client_id]) (simp_all add: parse_state_def PARSE_CLIENT_ID stable_client_id)
    next
      case PARSE_URI
      show ?thesis by (rule via [of "parse_uri (doc_root_len e)"]) (simp_all add: parse_state_def PARSE_URI stable_uri [OF assms])
    qed (simp_all add: stable_def parse_state_def)
  qed
  then show ?thesis by (cases xs) (auto simp: stable_def parse_step_def)
qed

lemma parse_loop_stale:
  assumes "parse_loop e xs n r = Inr (Go m n' r')" "n \<le> int (length xs)"
  shows "parse_loop e (xs @ js) n r = Inr (Go (m @ js) n' r')"
  using assms
proof (induction e xs n r rule: parse_loop.induct)
  case (1 e xs n r)
  show ?case
  proof (cases "n \<le> 0 \<or> q_state r = PARSE_DONE")
    case True
    with 1(2) show ?thesis by (simp add: parse_loop_done)
  next
    case False
    then obtain m1 n1 r1 where st: "parse_step e xs n r = Inr (Go m1 n1 r1)" and l: "parse_loop e m1 n1 r1 = Inr (Go m n' r')"
      using 1(2) by (auto simp: parse_loop_step next_flow_Go)
    have "n1 \<le> int (length m1)" "parse_step e (xs @ js) n r = Inr (Go (m1 @ js) n1 r1)"
      using stable_step [of n e xs r] False st 1(3) unfolding stable_def by auto
    with 1(1) [OF False st refl l] False show ?thesis by (simp add: parse_loop_step)
  qed
qed

end
