(* ===== verification/Userver_Read.thy ===== *)
theory Userver_Read
  imports Userver_Parse_Split
begin

text \<open>
  A read on a client connection of the userver: how a request is set up (\<open>socket_setup\<close> of
  \<open>socket_new_conn.c\<close>), what \<open>post_sock_read\<close> of \<open>socket_readable.c\<close> does with the bytes, and how
  the request is reset for the next one (\<open>post_socket_writable\<close> of \<open>socket_writable.c\<close>). The reply
  itself, the interest sets and the statistics are not part of the model.
\<close>

section \<open>Operations\<close>

definition socket_setup_req :: "string \<Rightarrow> ureq \<Rightarrow> ureq res" where
  "socket_setup_req doc_root r =
     (let r = r\<lparr>q_type := REQ_INVALID, q_state := PARSE_METHOD, skip_lws := False, q_method := HTTP_NONE,
                tmp_len := 0, cookie_len := 0, content_len := 0, ifmodsince := 0, q_uri := (q_uri r)[0 := NUL]\<rparr> in
      if cstr doc_root \<noteq> [] then rbind (strncpy (q_uri r) doc_root MAX_URI_LEN) (\<lambda>u. Inr (r\<lparr>q_uri := u\<rparr>))
      else Inr r)"

definition reset_req :: "ureq \<Rightarrow> ureq" where
  "reset_req r = r\<lparr>q_type := REQ_INVALID, q_state := PARSE_METHOD, skip_lws := False, q_method := HTTP_NONE,
     tmp_len := 0, cookie_len := 0, content_len := 0, ifmodsince := 0,
     range_start := 0, range_end := 0, range_request := False\<rparr>"

text \<open>What the caller does next: wait for more bytes, set up a file, or call an application.\<close>

datatype next_action = Read_More ureq | Setup_Http ureq "(string \<times> int) option" | Fcgi_Process ureq "(string \<times> int) option"

text \<open>The client branch of \<open>post_sock_read\<close> while the request is parsed. A request that does not
  parse gets a reply (\<open>reply_status_fill\<close> marks the method) and goes on as a finished one.\<close>

definition post_sock_read :: "parse_env \<Rightarrow> string \<Rightarrow> int \<Rightarrow> ureq \<Rightarrow> next_action res" where
  "post_sock_read e mem n r =
     rbind (parse_bytes e mem n r) (\<lambda>(rc, rest, r).
       let r = (if rc < 0 then r\<lparr>q_method := HTTP_RETURN_ERROR, q_state := PARSE_DONE\<rparr> else r) in
       if q_state r = PARSE_DONE then
         case q_type r of
           REQ_STATIC \<Rightarrow> Inr (Setup_Http r rest)
         | REQ_FASTCGI \<Rightarrow> Inr (Fcgi_Process r rest)
         | REQ_INVALID \<Rightarrow> Inl AssertFail
       else Inr (Read_More r))"

text \<open>
  What \<open>setup_http\<close> does to the URI before it looks for the file: a directory gets the name of its
  index file, by \<open>strcat\<close> without a test for room.
\<close>

abbreviation (input) DEFAULT_NAME :: string where "DEFAULT_NAME \<equiv> ''index.html''"

definition wants_index :: "nat \<Rightarrow> string \<Rightarrow> bool" where
  "wants_index root_len uri \<longleftrightarrow> root_len = length (cstr uri) \<or> uri ! (length (cstr uri) - 1) = CHR ''/''"

definition add_index :: "nat \<Rightarrow> ureq \<Rightarrow> ureq res" where
  "add_index root_len r =
     (if \<not> terminated (q_uri r) then Inl OverRead
      else
        let uri_len = length (cstr (q_uri r)) in
        if root_len \<noteq> uri_len \<and> uri_len = 0 then Inl OverRead
        else if wants_index root_len (q_uri r) then
          (if length (q_uri r) \<le> uri_len + length DEFAULT_NAME then Inl BufferOverflow
           else Inr (r\<lparr>q_uri := blit (q_uri r) uri_len (DEFAULT_NAME @ [NUL])\<rparr>))
        else Inr r)"

section \<open>Safety\<close>

text \<open>A request that needs an application: a query, a script, or content.\<close>

definition dynamic :: "ureq \<Rightarrow> bool" where
  "dynamic r \<longleftrightarrow> CHR ''?'' \<in> set (cstr (q_uri r)) \<or> q_method r = HTTP_POST \<or> 0 < content_len r \<or>
     find_str ''.php'' (cstr (q_uri r)) \<noteq> None"

lemma terminated_drop: "terminated (drop k s) \<Longrightarrow> terminated s"
  by (auto simp: terminated_def dest: in_set_dropD)

lemma terminated_update: "terminated s \<Longrightarrow> i < length s \<Longrightarrow> terminated (s[i := NUL])"
  by (auto simp: terminated_def set_update_memI)

lemma terminated_drop_update:
  assumes "terminated (drop k s)"
  shows "terminated (drop k (s[i := NUL]))"
proof (cases "i < length s")
  case True
  with assms show ?thesis
    by (cases "k \<le> i") (auto simp: terminated_def drop_update_swap drop_update_cancel set_update_memI)
qed (use assms in \<open>simp add: list_update_beyond\<close>)

lemma search_terminated: "terminated a \<Longrightarrow> search f a = Inr (f (cstr a))"
  by (simp add: search_def split: option.split)

lemma cut_query_total:
  assumes "terminated (drop k (q_uri r))"
  obtains r' where "cut_query r = Inr r'" "terminated (drop k (q_uri r'))" "core r' = (REQ_INVALID, q_method r, q_state r)"
    "content_len r' = content_len r"
    "CHR ''?'' \<notin> set (cstr (q_uri r)) \<Longrightarrow> query_string r' = None \<and> q_uri r' = q_uri r"
proof (cases "find_char (CHR ''?'') (cstr (q_uri r))")
  case None
  then show thesis
    using assms by (intro that [of "r\<lparr>q_type := REQ_INVALID, q_app := None, query_string := None\<rparr>"])
      (auto simp: cut_query_def search_terminated [OF terminated_drop] core_def)
next
  case (Some i)
  then have "CHR ''?'' \<in> set (cstr (q_uri r))" using find_char_None [of "CHR ''?''" "cstr (q_uri r)"] by auto
  with Some show thesis
    using assms by (intro that [of "r\<lparr>q_type := REQ_INVALID, q_app := None, query_string := Some (i + 1), q_uri := (q_uri r)[i := NUL]\<rparr>"])
      (auto simp: cut_query_def search_terminated [OF terminated_drop] core_def terminated_drop_update)
qed

lemma set_app_simps [simp]: "q_state (set_app a r) = q_state r" "q_method (set_app a r) = q_method r"
  by (simp_all add: set_app_def split: option.split)

lemma pick_type_total:
  assumes "terminated (drop (doc_root_len e) (q_uri r))"
  obtains r' where "pick_type e r = Inr r'" "q_state r' = q_state r" "q_method r' = q_method r"
    "query_string r = None \<Longrightarrow> q_method r \<noteq> HTTP_POST \<Longrightarrow> content_len r \<le> 0 \<Longrightarrow> find_str ''.php'' (cstr (q_uri r)) = None \<Longrightarrow>
       q_type r' = REQ_STATIC"
proof (cases "pick_type e r")
  case (Inl x)
  with assms show thesis
    by (auto simp: pick_type_def search_terminated [OF terminated_drop] split: if_splits)
next
  case (Inr r')
  then show thesis
    using assms by (intro that [OF Inr]) (auto simp: pick_type_def search_terminated [OF terminated_drop] split: if_splits)
qed

lemma analyze_req_total:
  assumes "ureq_ok e r" "q_state r = PARSE_DONE"
  obtains r' where "analyze_req e r = Inr r'" "q_state r' = PARSE_DONE" "q_method r' = q_method r"
    "\<not> dynamic r \<Longrightarrow> q_type r' = REQ_STATIC"
proof -
  have t: "terminated (drop (doc_root_len e) (q_uri r))" using assms by (auto simp: ureq_ok_def)
  obtain r1 where r1: "cut_query r = Inr r1" "terminated (drop (doc_root_len e) (q_uri r1))"
      "core r1 = (REQ_INVALID, q_method r, q_state r)" "content_len r1 = content_len r"
      "CHR ''?'' \<notin> set (cstr (q_uri r)) \<Longrightarrow> query_string r1 = None \<and> q_uri r1 = q_uri r"
    using cut_query_total [OF t] by blast
  obtain r2 where "pick_type e r1 = Inr r2" "q_state r2 = q_state r1" "q_method r2 = q_method r1"
      "query_string r1 = None \<Longrightarrow> q_method r1 \<noteq> HTTP_POST \<Longrightarrow> content_len r1 \<le> 0 \<Longrightarrow>
         find_str ''.php'' (cstr (q_uri r1)) = None \<Longrightarrow> q_type r2 = REQ_STATIC"
    using pick_type_total [OF r1(2)] by blast
  with r1 assms(2) show thesis by (intro that [of r2]) (auto simp: analyze_req_def core_def dynamic_def)
qed

lemma ureq_ok_put_cookie:
  assumes "ureq_ok e r"
  obtains c where "put_cookie NUL r = Inr (r\<lparr>q_cookie := c, cookie_len := cookie_len r + 1\<rparr>)"
    "ureq_ok e (r\<lparr>q_cookie := c, cookie_len := cookie_len r\<rparr>)"
  using assms by (auto simp: put_cookie_def ureq_ok_def)

text \<open>The type of the request is set only when it is analysed, also when the parser fails.\<close>

definition flow_req :: "flow \<Rightarrow> ureq" where
  "flow_req f = (case f of Go _ _ r \<Rightarrow> r | Fail _ _ r \<Rightarrow> r)"

lemma flow_req_simps [simp]: "flow_req (Go mem n r) = r" "flow_req (Fail mem n r) = r"
  by (simp_all add: flow_req_def)

definition same_type :: "ureq \<Rightarrow> flow res \<Rightarrow> bool" where
  "same_type r m \<longleftrightarrow> (\<forall>f. m = Inr f \<longrightarrow> q_type (flow_req f) = q_type r)"

lemma same_type_simps [simp]: "same_type r (Inl x)" "same_type r (Inr f) \<longleftrightarrow> q_type (flow_req f) = q_type r"
  by (auto simp: same_type_def)

lemma same_type_next:
  assumes "same_type r m" "\<And>mem n r'. q_type r' = q_type r \<Longrightarrow> same_type r (k mem n r')"
  shows "same_type r (next_flow m k)"
proof (cases m)
  case (Inr f)
  with assms show ?thesis by (cases f) auto
qed simp

lemma same_type_rbind:
  assumes "\<And>r'. m = Inr r' \<Longrightarrow> same_type r (k r')"
  shows "same_type r (rbind m k)"
  using assms by (cases m) auto

lemma same_type_end:
  assumes "\<And>mem n r'. q_type r' = q_type r \<Longrightarrow> same_type r (k mem n r')" "q_type r' = q_type r"
  shows "same_type r (unless_end k mem n r')"
  using assms by (simp add: unless_end_def)

lemma same_type_at_cur: "(\<And>c. same_type r (f c)) \<Longrightarrow> same_type r (at_cur mem f)"
  by (cases mem) auto

lemma put_type:
  "put_tmp c r = Inr r' \<Longrightarrow> q_type r' = q_type r" "put_uri root c r = Inr r' \<Longrightarrow> q_type r' = q_type r"
  "put_cookie c r = Inr r' \<Longrightarrow> q_type r' = q_type r" "end_tmp r = Inr r' \<Longrightarrow> q_type r' = q_type r"
  "add_client_id d r = Inr r' \<Longrightarrow> q_type r' = q_type r" "add_call_id d r = Inr r' \<Longrightarrow> q_type r' = q_type r"
  "add_range_start d r = Inr r' \<Longrightarrow> q_type r' = q_type r" "add_range_end d r = Inr r' \<Longrightarrow> q_type r' = q_type r"
  "add_content_len d r = Inr r' \<Longrightarrow> q_type r' = q_type r"
  by (auto dest!: put_core simp: core_def)

lemma end_uri_type: "end_uri root r = Inr r' \<Longrightarrow> q_type r' = q_type r"
  by (auto simp: end_uri_def rbind_eq_Inr put_type)

lemma set_method_type [simp]: "q_type (set_method r) = q_type r"
  by (simp add: set_method_def)

lemma end_of_line_type [simp]: "q_type (end_of_line r) = q_type r"
  by (simp add: end_of_line_def split: info_req_method.split)

lemma same_type_copy:
  assumes "\<And>c r r'. put c r = Inr r' \<Longrightarrow> q_type r' = q_type r"
  shows "q_type r0 = q_type r \<Longrightarrow> same_type r (copy_while stop put full mem n r0)"
proof (induction mem arbitrary: n r0)
  case (Cons c mem)
  then show ?case by (cases "put c r0") (auto dest: assms)
qed simp

lemma same_type_digits:
  assumes "\<And>d r r'. add d r = Inr r' \<Longrightarrow> q_type r' = q_type r"
  shows "q_type r0 = q_type r \<Longrightarrow> same_type r (digits_while stop add over mem n r0)"
proof (induction mem arbitrary: n r0)
  case (Cons c mem)
  then show ?case by (cases "add (int (digit_val c)) r0") (auto dest: assms)
qed simp

lemma same_type_spaces: "q_type r0 = q_type r \<Longrightarrow> same_type r (skip_spaces mem n r0)"
  by (induction mem n r0 rule: skip_spaces.induct) auto

lemmas same_type_rules = same_type_next same_type_end same_type_rbind same_type_at_cur same_type_copy same_type_digits same_type_spaces

lemma same_type_copies:
  "same_type r (parse_header_name mem n r)" "same_type r (parse_cookie mem n r)" "same_type r (parse_if_modified_since e mem n r)"
  "same_type r (parse_skip mem n r)" "same_type r (parse_content_length mem n r)" "same_type r (parse_method mem n r)"
  "same_type r (parse_version mem n r)"
  unfolding parse_header_name_def parse_cookie_def parse_if_modified_since_def parse_skip_def parse_content_length_def
    parse_method_def parse_version_def
  by (intro same_type_rules; auto simp: Let_def dest: put_type intro!: same_type_at_cur)+

lemma same_type_others:
  "same_type r (parse_colon mem n r)" "same_type r (parse_cr mem n r)" "same_type r (parse_lf mem n r)"
  "same_type r (parse_uri root mem n r)" "same_type r (parse_range_request mem n r)" "same_type r (parse_client_id mem n r)"
proof -
  have "same_type r (start_cookie mem n r)"
    by (auto simp: start_cookie_def intro!: same_type_rbind dest!: put_type)
  then show "same_type r (parse_colon mem n r)"
    by (auto simp: parse_colon_def intro!: same_type_at_cur same_type_rbind split: option.split)
  show "same_type r (parse_cr mem n r)" "same_type r (parse_lf mem n r)"
    unfolding parse_cr_def parse_lf_def by (intro same_type_at_cur; simp)+
  have "same_type r (uri_loop root m k r)" for m k
    by (intro same_type_rules; auto dest: put_type end_uri_type)
  then show "same_type r (parse_uri root mem n r)"
    by (cases mem) (simp_all add: parse_uri_def del: copy_while.simps)
  show "same_type r (parse_range_request mem n r)"
    unfolding parse_range_request_def
    by (intro same_type_rules; simp; intro conjI impI same_type_rules; auto dest: put_type intro!: same_type_rules)
  show "same_type r (parse_client_id mem n r)"
    unfolding parse_client_id_def by (intro same_type_rules; auto dest: put_type intro!: same_type_rules)
qed

lemma parse_step_type: "same_type r (parse_step e mem n r)"
proof -
  have "same_type r (parse_state e mem n r)" for r
    by (cases "q_state r") (simp_all add: parse_state_def same_type_copies same_type_others)
  from this [of "r\<lparr>skip_lws := False\<rparr>"] show ?thesis
    unfolding parse_step_def by (intro same_type_at_cur) (simp add: same_type_def)
qed

lemma parse_loop_type: "same_type r (parse_loop e mem n r)"
proof (induction e mem n r rule: parse_loop.induct)
  case (1 e mem n r)
  show ?case
  proof (cases "n \<le> 0 \<or> q_state r = PARSE_DONE")
    case True
    then show ?thesis by (simp add: parse_loop_done)
  next
    case False
    then have l: "parse_loop e mem n r = next_flow (parse_step e mem n r) (parse_loop e)" by (simp add: parse_loop_step)
    show ?thesis
    proof (cases "parse_step e mem n r")
      case (Inr f)
      with parse_step_type [of r e mem n] 1 [OF False Inr] l show ?thesis
        by (cases f) (auto simp: same_type_def)
    qed (simp add: l)
  qed
qed

text \<open>The faults of \<open>parse_bytes\<close>: in the value of a header that can fault, or for a request of an
  application that is not configured.\<close>

lemma parse_bytes_cases:
  assumes "n \<le> int (length mem)" "parsing e r" "q_state r \<noteq> PARSE_DONE"
  shows "case parse_bytes e mem n r of
      Inl x \<Rightarrow> x \<noteq> BufferOverflow \<and>
        ((\<exists>mem' n' r'. reads e (mem, n, r) (mem', n', r') \<and> hazard (q_state r')) \<or>
         x = AssertFail \<and> (\<exists>mem' n' r'. parse_loop e mem n r = Inr (Go mem' n' r') \<and> q_state r' = PARSE_DONE \<and> dynamic r'))
    | Inr (rc, rest, r') \<Rightarrow> rc = 0 \<and> (if q_state r' = PARSE_DONE then q_type r' \<noteq> REQ_INVALID else parsing e r') \<or>
        rc = -1 \<and> q_type r' = REQ_INVALID"
proof (cases "parse_loop e mem n r")
  case (Inl x)
  with parse_loop_safe [OF assms(1,2)] assms(3) show ?thesis by (simp add: parse_bytes_def)
next
  case (Inr f)
  note safe = parse_loop_safe [OF assms(1,2), unfolded Inr]
  show ?thesis
  proof (cases f)
    case (Fail mem' n' r')
    with Inr assms(2,3) parse_loop_type [of r e mem n] show ?thesis
      by (auto simp: parse_bytes_def parsing_def phase_ok_def same_type_def)
  next
    case (Go mem' n' r')
    with safe have ok: "parsing e r'" by simp
    show ?thesis
    proof (cases "q_state r' = PARSE_DONE")
      case False
      with Inr Go assms(3) ok show ?thesis by (auto simp: parse_bytes_def parsing_def phase_ok_def)
    next
      case True
      have rok: "ureq_ok e r'" using ok by (simp add: parsing_def)
      obtain c where c: "put_cookie NUL r' = Inr (r'\<lparr>q_cookie := c, cookie_len := cookie_len r' + 1\<rparr>)"
          "ureq_ok e (r'\<lparr>q_cookie := c, cookie_len := cookie_len r'\<rparr>)"
        using ureq_ok_put_cookie [OF rok] by blast
      let ?r = "r'\<lparr>q_cookie := c\<rparr>"
      have "ureq_ok e ?r" "q_state ?r = PARSE_DONE" "dynamic ?r = dynamic r'" using c(2) True by (simp_all add: dynamic_def)
      then obtain r2 where "analyze_req e ?r = Inr r2" "q_state r2 = PARSE_DONE" "\<not> dynamic r' \<Longrightarrow> q_type r2 = REQ_STATIC"
        using analyze_req_total [of e ?r] by auto
      with Inr Go True c(1) assms(3) show ?thesis by (auto simp: parse_bytes_def)
    qed
  qed
qed

text \<open>A finished request is still well-formed, so it can be reset for the next one.\<close>

definition same_arrays :: "parse_env \<Rightarrow> ureq \<Rightarrow> ureq \<Rightarrow> bool" where
  "same_arrays e r r' \<longleftrightarrow> q_tmp r' = q_tmp r \<and> q_cookie r' = q_cookie r \<and> length (q_uri r') = length (q_uri r) \<and>
     cookie_len r' = cookie_len r \<and> tmp_len r' = tmp_len r \<and> q_state r' = q_state r \<and>
     (terminated (drop (doc_root_len e) (q_uri r)) \<longrightarrow> terminated (drop (doc_root_len e) (q_uri r')))"

lemma cut_query_arrays: "cut_query r = Inr r' \<Longrightarrow> same_arrays e r r'"
proof -
  assume "cut_query r = Inr r'"
  then obtain q where "search (find_char (CHR ''?'')) (q_uri r) = Inr q" "cut_query r = Inr r'" by (auto simp: cut_query_def rbind_eq_Inr)
  then show ?thesis by (cases q) (auto simp: cut_query_def same_arrays_def terminated_drop_update)
qed

lemma set_app_arrays: "same_arrays e r (set_app a r)"
  by (simp add: set_app_def same_arrays_def split: option.split)

lemma pick_type_arrays: "pick_type e r = Inr r' \<Longrightarrow> same_arrays e r r'"
  unfolding pick_type_def rbind_eq_Inr using set_app_arrays by (auto simp: same_arrays_def split: if_splits)

lemma analyze_req_ok:
  assumes "analyze_req e r = Inr r'" "ureq_ok e r" "q_state r = PARSE_DONE"
  shows "ureq_ok e r'"
proof -
  obtain r1 where "same_arrays e r r1" "same_arrays e r1 r'"
    using assms(1) unfolding analyze_req_def rbind_eq_Inr by (blast intro: cut_query_arrays pick_type_arrays)
  with assms(2,3) show ?thesis by (simp add: same_arrays_def ureq_ok_def)
qed

section \<open>A read\<close>

lemma analyze_req_state: "analyze_req e r = Inr r' \<Longrightarrow> q_state r' = q_state r"
proof -
  assume "analyze_req e r = Inr r'"
  then obtain q r1 where "search (find_char (CHR ''?'')) (q_uri r) = Inr q" "cut_query r = Inr r1" "pick_type e r1 = Inr r'"
    by (auto simp: analyze_req_def rbind_eq_Inr cut_query_def)
  moreover from this have "q_state r1 = q_state r" by (cases q) (auto simp: cut_query_def)
  moreover have "pick_type e r1 = Inr r' \<Longrightarrow> q_state r' = q_state r1"
    unfolding pick_type_def rbind_eq_Inr by (auto split: if_splits)
  ultimately show ?thesis by simp
qed

lemma bad_request_aborts:
  assumes "n \<le> int (length mem)" "parsing e r" "q_state r \<noteq> PARSE_DONE" "parse_bytes e mem n r = Inr (rc, rest, r')" "rc \<noteq> 0"
  shows "post_sock_read e mem n r = Inl AssertFail"
  using parse_bytes_cases [OF assms(1-3)] assms(4,5) by (auto simp: post_sock_read_def)

lemma parse_bytes_pieces:
  assumes "parse_bytes e xs (int (length xs)) r = Inr (0, None, r')" "q_state r' \<noteq> PARSE_DONE" "resumable ys r'" "ys \<noteq> []"
  shows "parse_bytes e (xs @ ys) (int (length (xs @ ys))) r = parse_bytes e ys (int (length ys)) r'"
    and "parse_bytes e (xs @ js) (int (length xs)) r = Inr (0, None, r')"
proof -
  have nd: "q_state r \<noteq> PARSE_DONE" using assms(1) by (auto simp: parse_bytes_def)
  obtain m n where l: "parse_loop e xs (int (length xs)) r = Inr (Go m n r')" and rest: "rest_of m n = None"
  proof -
    obtain f where f: "parse_loop e xs (int (length xs)) r = Inr f" using assms(1) nd by (auto simp: parse_bytes_def rbind_eq_Inr)
    show thesis
    proof (cases f)
      case (Fail m n r1)
      with f nd assms(1) show thesis by (simp add: parse_bytes_def)
    next
      case (Go m n r1)
      show thesis
      proof (cases "q_state r1 = PARSE_DONE")
        case True
        with f nd Go assms(1) have "q_state r' = PARSE_DONE"
          by (auto simp: parse_bytes_def rbind_eq_Inr analyze_req_state put_keeps_state split: if_splits)
        with assms(2) show thesis by simp
      next
        case False
        with f nd Go assms(1) show thesis by (intro that) (auto simp: parse_bytes_def)
      qed
    qed
  qed
  have m: "m = []" "n = 0" using parse_loop_result [OF l] rest by (auto simp: rest_of_def split: if_splits)
  have "parse_loop e (xs @ ys) (int (length (xs @ ys))) r = parse_loop e ys (int (length ys)) r'"
    using parse_loop_append [OF l] m assms(3,4) by simp
  with nd assms(2) show "parse_bytes e (xs @ ys) (int (length (xs @ ys))) r = parse_bytes e ys (int (length ys)) r'"
    by (simp add: parse_bytes_def)
  show "parse_bytes e (xs @ js) (int (length xs)) r = Inr (0, None, r')"
    using parse_loop_stale [OF l] m nd assms(2) by (simp add: parse_bytes_def rest_of_def)
qed

lemma parse_bytes_done_ok:
  assumes "n \<le> int (length mem)" "parsing e r" "parse_bytes e mem n r = Inr (0, rest, r')" "q_state r' = PARSE_DONE"
  shows "ureq_ok e r'"
proof -
  have nd: "q_state r \<noteq> PARSE_DONE" using assms(3) by (auto simp: parse_bytes_def)
  obtain f where f: "parse_loop e mem n r = Inr f" using assms(3) nd by (auto simp: parse_bytes_def rbind_eq_Inr)
  show ?thesis
  proof (cases f)
    case (Fail m k r1)
    with f nd assms(3) show ?thesis by (simp add: parse_bytes_def)
  next
    case (Go m k r1)
    with parse_loop_safe [OF assms(1,2)] f have ok: "ureq_ok e r1" by (simp add: parsing_def)
    show ?thesis
    proof (cases "q_state r1 = PARSE_DONE")
      case False
      with f nd Go assms(3,4) show ?thesis by (auto simp: parse_bytes_def)
    next
      case True
      obtain c where "put_cookie NUL r1 = Inr (r1\<lparr>q_cookie := c, cookie_len := cookie_len r1 + 1\<rparr>)"
          "ureq_ok e (r1\<lparr>q_cookie := c, cookie_len := cookie_len r1\<rparr>)"
        using ureq_ok_put_cookie [OF ok] by blast
      with f nd Go True assms(3) show ?thesis
        by (auto simp: parse_bytes_def rbind_eq_Inr split: if_splits intro: analyze_req_ok)
    qed
  qed
qed

section \<open>The requests of a connection\<close>

text \<open>Every request a connection can have, whatever the reads put into its buffer, up to the first
  fault: the next request starts when the reply to the one before is sent.\<close>

inductive client_request :: "parse_env \<Rightarrow> string \<Rightarrow> ureq \<Rightarrow> bool" for e doc where
  new_conn: "length (q_tmp r0) = MAX_TMP_LEN \<Longrightarrow> length (q_cookie r0) = MAX_COOKIE_LEN \<Longrightarrow> length (q_uri r0) = MAX_URI_LEN \<Longrightarrow>
    socket_setup_req doc r0 = Inr r \<Longrightarrow> client_request e doc r"
| more: "client_request e doc r \<Longrightarrow> n \<le> int (length mem) \<Longrightarrow> post_sock_read e mem n r = Inr (Read_More r') \<Longrightarrow> client_request e doc r'"
| file_sent: "client_request e doc r \<Longrightarrow> n \<le> int (length mem) \<Longrightarrow> post_sock_read e mem n r = Inr (Setup_Http r' rest) \<Longrightarrow>
    add_index (doc_root_len e) r' = Inr r'' \<Longrightarrow> client_request e doc (reset_req r'')"
| reply_sent: "client_request e doc r \<Longrightarrow> n \<le> int (length mem) \<Longrightarrow> post_sock_read e mem n r = Inr (Fcgi_Process r' rest) \<Longrightarrow>
    client_request e doc (reset_req r')"

lemma reset_parsing: "ureq_ok e r \<Longrightarrow> q_state r = PARSE_DONE \<Longrightarrow> parsing e (reset_req r)"
  by (simp add: reset_req_def parsing_def phase_ok_def ureq_ok_def)

lemma post_sock_read_Inr:
  assumes "n \<le> int (length mem)" "parsing e r" "q_state r \<noteq> PARSE_DONE" "post_sock_read e mem n r = Inr a"
  shows "case a of Read_More r' \<Rightarrow> parsing e r' \<and> q_state r' \<noteq> PARSE_DONE
    | Setup_Http r' rest \<Rightarrow> ureq_ok e r' \<and> q_state r' = PARSE_DONE | Fcgi_Process r' rest \<Rightarrow> ureq_ok e r' \<and> q_state r' = PARSE_DONE"
proof -
  obtain rc rest r' where p: "parse_bytes e mem n r = Inr (rc, rest, r')"
    using assms(4) by (auto simp: post_sock_read_def rbind_eq_Inr)
  have rc: "rc = 0" using bad_request_aborts [OF assms(1-3) p] assms(4) by auto
  with parse_bytes_cases [OF assms(1-3)] p parse_bytes_done_ok [OF assms(1,2)] assms(4) show ?thesis
    by (auto simp: post_sock_read_def split: if_splits req_type.splits)
qed

lemma add_index_parsing:
  assumes "ureq_ok e r" and "q_state r = PARSE_DONE" and "add_index k r = Inr r'"
  shows "parsing e (reset_req r')"
proof -
  have "length (blit (q_uri r) (length (cstr (q_uri r))) (DEFAULT_NAME @ [NUL])) = length (q_uri r)"
    if "\<not> length (q_uri r) \<le> length (cstr (q_uri r)) + 10"
    using that by (intro length_blit) simp
  then show ?thesis
    using assms by (auto simp: add_index_def Let_def reset_req_def parsing_def phase_ok_def ureq_ok_def split: if_splits)
qed

lemma client_request_ok: "client_request e doc r \<Longrightarrow> doc_root_len e < MAX_URI_LEN \<Longrightarrow> parsing e r \<and> q_state r \<noteq> PARSE_DONE"
proof (induction rule: client_request.induct)
  case (new_conn r0 r)
  then show ?case
    by (auto simp: socket_setup_req_def Let_def strncpy_def parsing_def phase_ok_def ureq_ok_def strncpy_bytes_def split: if_splits)
next
  case (more r n mem r')
  then show ?case using post_sock_read_Inr by fastforce
next
  case (file_sent r n mem r' rest r'')
  then have "ureq_ok e r'" "q_state r' = PARSE_DONE" using post_sock_read_Inr by fastforce+
  from add_index_parsing [OF this file_sent(4)] show ?case by (simp add: reset_req_def)
next
  case (reply_sent r n mem r' rest)
  then have "ureq_ok e r'" "q_state r' = PARSE_DONE" using post_sock_read_Inr by fastforce+
  then show ?case by (simp add: reset_parsing) (simp add: reset_req_def)
qed

text \<open>When the index name overflows the URI.\<close>

lemma add_index_overflow:
  assumes "client_request e doc r" "doc_root_len e < MAX_URI_LEN" "n \<le> int (length mem)"
    and "post_sock_read e mem n r = Inr (Setup_Http r' rest)"
  shows "terminated (q_uri r')" "add_index (doc_root_len e) r' = Inl BufferOverflow \<longleftrightarrow>
    wants_index (doc_root_len e) (q_uri r') \<and> 130 \<le> length (cstr (q_uri r'))"
proof -
  have "ureq_ok e r'" "q_state r' = PARSE_DONE"
    using post_sock_read_Inr [OF assms(3) _ _ assms(4)] client_request_ok [OF assms(1,2)] by auto
  then have t: "terminated (drop (doc_root_len e) (q_uri r'))" "length (q_uri r') = 140" by (auto simp: ureq_ok_def)
  then show u: "terminated (q_uri r')" by (auto intro: terminated_drop)
  show "add_index (doc_root_len e) r' = Inl BufferOverflow \<longleftrightarrow>
    wants_index (doc_root_len e) (q_uri r') \<and> 130 \<le> length (cstr (q_uri r'))"
    using u t(2) by (auto simp: add_index_def Let_def)
qed

end
