(* ===== verification/Userver_Request.thy ===== *)
theory Userver_Request
  imports Userver_Read
begin

text \<open>
  Whole requests: a request line and headers, written out by \<open>render_request\<close>, are parsed back by
  the parser of the userver. The headers are those the parser skips.
\<close>

section \<open>Requests as text\<close>

fun method_name :: "info_req_method \<Rightarrow> string" where
  "method_name HTTP_GET = ''GET''"
| "method_name HTTP_HEAD = ''HEAD''"
| "method_name HTTP_POST = ''POST''"
| "method_name _ = []"

definition version_name :: "bool \<Rightarrow> string" where
  "version_name closes = (if closes then ''HTTP/1.0'' else ''HTTP/1.1'')"

definition render_header :: "string \<times> string \<Rightarrow> string" where
  "render_header h = fst h @ CHR '':'' # snd h @ [CR, LF]"

definition render_request :: "info_req_method \<Rightarrow> string \<Rightarrow> bool \<Rightarrow> (string \<times> string) list \<Rightarrow> string" where
  "render_request m path closes hs =
     method_name m @ '' /'' @ path @ '' '' @ version_name closes @ [CR, LF] @ concat (map render_header hs) @ [CR, LF]"

definition plain_header :: "string \<times> string \<Rightarrow> bool" where
  "plain_header h \<longleftrightarrow> (\<forall>c\<in>set (fst h). c \<noteq> CHR '':'' \<and> \<not> isspace c \<and> c \<noteq> NUL) \<and> length (fst h) < MAX_TMP_LEN \<and>
     map tolower (fst h) \<notin> set (map (\<lambda>(name, _). map tolower name) header_names) \<and> (\<forall>c\<in>set (snd h). \<not> eol c)"

definition plain_path :: "nat \<Rightarrow> string \<Rightarrow> bool" where
  "plain_path root path \<longleftrightarrow> (\<forall>c\<in>set path. \<not> isspace c \<and> c \<noteq> NUL) \<and> root + length path < MAX_URI_LEN"

section \<open>Tokens\<close>

lemma update_blit: "k < length a \<Longrightarrow> blit (a[k := c]) (Suc k) xs = blit a k (c # xs)"
  by (simp add: blit_def take_Suc_conv_app_nth)

lemma copy_tmp_run:
  assumes "\<forall>c\<in>set xs. \<not> stop c" "stop c" "length (q_tmp r) = MAX_TMP_LEN" "tmp_len r + length xs < MAX_TMP_LEN"
  shows "copy_while stop put_tmp tmp_full (xs @ c # rest) (int (length (xs @ c # rest))) r =
    Inr (Go (c # rest) (int (length (c # rest))) (r\<lparr>q_tmp := blit (q_tmp r) (tmp_len r) xs, tmp_len := tmp_len r + length xs\<rparr>))"
  using assms
proof (induction xs arbitrary: r)
  case (Cons x xs)
  then show ?case by (simp add: put_tmp_def tmp_full_def update_blit)
qed simp

lemma copy_uri_run:
  assumes "\<forall>c\<in>set xs. \<not> stop c" "stop c" "length (q_uri r) = MAX_URI_LEN" "root + tmp_len r + length xs < MAX_URI_LEN"
  shows "copy_while stop (put_uri root) (uri_full root) (xs @ c # rest) (int (length (xs @ c # rest))) r =
    Inr (Go (c # rest) (int (length (c # rest))) (r\<lparr>q_uri := blit (q_uri r) (root + tmp_len r) xs, tmp_len := tmp_len r + length xs\<rparr>))"
  using assms
proof (induction xs arbitrary: r)
  case (Cons x xs)
  then show ?case by (simp add: put_uri_def uri_full_def update_blit Let_def)
qed simp

lemma copy_skip_run:
  assumes "\<forall>c\<in>set xs. \<not> stop c" "stop c"
  shows "copy_while stop (\<lambda>_. Inr) (\<lambda>_. False) (xs @ c # rest) (int (length (xs @ c # rest))) r =
    Inr (Go (c # rest) (int (length (c # rest))) r)"
  using assms by (induction xs) auto

text \<open>The array \<open>tmp\<close> after a token.\<close>

definition token :: "string \<Rightarrow> ureq \<Rightarrow> string" where
  "token xs r = (blit (q_tmp r) 0 xs)[length xs := NUL]"

lemma blit_string:
  assumes "no_nul xs" "k + length xs < length a"
  shows "cstr (drop k ((blit a k xs)[k + length xs := NUL])) = xs" "take k ((blit a k xs)[k + length xs := NUL]) = take k a"
    "length ((blit a k xs)[k + length xs := NUL]) = length a"
proof -
  have "(blit a k xs)[k + length xs := NUL] = take k a @ xs @ NUL # drop (Suc (k + length xs)) a"
    using assms(2) by (intro nth_equalityI) (auto simp: blit_def nth_append nth_list_update nth_Cons' min_def)
  with assms show "cstr (drop k ((blit a k xs)[k + length xs := NUL])) = xs" "take k ((blit a k xs)[k + length xs := NUL]) = take k a"
      "length ((blit a k xs)[k + length xs := NUL]) = length a"
    by (simp_all add: min_def)
qed

lemma token_string:
  assumes "no_nul xs" "length xs < length (q_tmp r)"
  shows "cstr (token xs r) = xs" "length (token xs r) = length (q_tmp r)"
  using blit_string [of xs 0 "q_tmp r"] assms by (simp_all add: token_def)

lemma token_run:
  assumes "\<forall>c\<in>set xs. \<not> stop c" "stop c" "length (q_tmp r) = MAX_TMP_LEN" "length xs < MAX_TMP_LEN" "tmp_len r = 0"
  shows "next_flow (copy_while stop put_tmp tmp_full (xs @ c # rest) (int (length (xs @ c # rest))) r)
      (unless_end (\<lambda>mem n r. rbind (end_tmp r) (\<lambda>r. k r mem n))) =
    k (r\<lparr>q_tmp := token xs r, tmp_len := 0\<rparr>) (c # rest) (int (length (c # rest)))"
  using assms by (subst copy_tmp_run) (simp_all add: unless_end_def end_tmp_def put_tmp_def token_def)

section \<open>The parts of a request\<close>

lemma step_plain:
  assumes "\<not> skip_lws r" "mem \<noteq> []"
  shows "parse_step e mem n r = parse_state e mem n r"
proof -
  have same: "r\<lparr>skip_lws := False\<rparr> = r" using assms(1) by simp
  have "parse_step e mem n r = parse_state e mem n (r\<lparr>skip_lws := False\<rparr>)"
    using assms by (cases mem) (auto simp: parse_step_def)
  then show ?thesis unfolding same .
qed

lemma loop_once:
  "xs \<noteq> [] \<Longrightarrow> q_state r \<noteq> PARSE_DONE \<Longrightarrow>
   parse_all e xs r = next_flow (parse_step e xs (int (length xs)) r) (parse_loop e)"
  by (rule parse_loop_step) auto

lemma loop_plain:
  "xs \<noteq> [] \<Longrightarrow> q_state r \<noteq> PARSE_DONE \<Longrightarrow> \<not> skip_lws r \<Longrightarrow>
   parse_all e xs r = next_flow (parse_state e xs (int (length xs)) r) (parse_loop e)"
  by (simp add: loop_once step_plain)

lemma loop_blank:
  "skip_lws r \<Longrightarrow> q_state r \<noteq> PARSE_DONE \<Longrightarrow> parse_all e (CHR '' '' # xs) r = parse_all e xs r"
  by (subst loop_once) (simp_all add: parse_step_def)

lemma loop_nonblank:
  "skip_lws r \<Longrightarrow> c \<noteq> CHR '' '' \<Longrightarrow> c \<noteq> TAB \<Longrightarrow> q_state r \<noteq> PARSE_DONE \<Longrightarrow>
   parse_all e (c # xs) r = next_flow (parse_state e (c # xs) (int (length (c # xs))) (r\<lparr>skip_lws := False\<rparr>)) (parse_loop e)"
  by (subst loop_once) (simp_all add: parse_step_def)

lemma isspace_simps [simp]: "isspace (CHR '' '')" "isspace CR" "isspace LF" "eol CR" "eol LF" "\<not> isspace (CHR '':'')"
    "\<not> isspace (CHR ''/'')" "\<not> eol (CHR '':'')"
  by (simp_all add: isspace_def eol_def)

lemma method_name_simps:
  assumes "m \<in> {HTTP_GET, HTTP_HEAD, HTTP_POST}"
  shows "\<forall>c\<in>set (method_name m). \<not> isspace c" "no_nul (method_name m)" "length (method_name m) < MAX_TMP_LEN"
  using assms by (auto simp: isspace_def)

lemma run_method:
  assumes "m \<in> {HTTP_GET, HTTP_HEAD, HTTP_POST}" "q_state r = PARSE_METHOD" "\<not> skip_lws r" "tmp_len r = 0" "length (q_tmp r) = MAX_TMP_LEN"
  shows "parse_all e (method_name m @ CHR '' '' # rest) r =
    parse_all e (CHR '' '' # rest) (r\<lparr>q_tmp := token (method_name m) r, tmp_len := 0, q_method := m, skip_lws := True, q_state := PARSE_URI\<rparr>)"
proof -
  note name = method_name_simps [OF assms(1)]
  have t: "cstr (token (method_name m) r) = method_name m" using token_string [OF name(2)] name(3) assms(5) by simp
  have "parse_all e (method_name m @ CHR '' '' # rest) r =
      next_flow (parse_method (method_name m @ CHR '' '' # rest) (int (length (method_name m @ CHR '' '' # rest))) r) (parse_loop e)"
    using assms(2,3) by (subst loop_plain) (simp_all add: parse_state_def)
  also have "\<dots> = next_flow (Inr (Go (CHR '' '' # rest) (int (length (CHR '' '' # rest))) (set_method (r\<lparr>q_tmp := token (method_name m) r, tmp_len := 0\<rparr>)))) (parse_loop e)"
    unfolding parse_method_def using name assms by (subst token_run) simp_all
  also have "set_method (r\<lparr>q_tmp := token (method_name m) r, tmp_len := 0\<rparr>) =
      r\<lparr>q_tmp := token (method_name m) r, tmp_len := 0, q_method := m, skip_lws := True, q_state := PARSE_URI\<rparr>"
    using t assms(1) by (auto simp: set_method_def strcmp_eq_def cstr_def)
  finally show ?thesis by simp
qed

text \<open>The array \<open>uri\<close> after the path.\<close>

definition uri_of :: "nat \<Rightarrow> string \<Rightarrow> ureq \<Rightarrow> string" where
  "uri_of root path r = (blit (q_uri r) root path)[root + length path := NUL]"

lemma run_uri:
  assumes "plain_path (doc_root_len e) path" "q_state r = PARSE_URI" "skip_lws r" "tmp_len r = 0" "length (q_uri r) = MAX_URI_LEN"
  shows "parse_all e (CHR '' '' # CHR ''/'' # path @ CHR '' '' # rest) r =
    parse_all e (CHR '' '' # rest) (r\<lparr>q_uri := uri_of (doc_root_len e) path r, tmp_len := 0, skip_lws := True, q_state := PARSE_VERSION\<rparr>)"
proof -
  let ?r = "r\<lparr>skip_lws := False\<rparr>"
  have "parse_all e (CHR '' '' # CHR ''/'' # path @ CHR '' '' # rest) r =
      next_flow (uri_loop (doc_root_len e) (path @ CHR '' '' # rest) (int (length (path @ CHR '' '' # rest))) ?r) (parse_loop e)"
    using assms(2,3)
    by (subst loop_blank, simp, simp, subst loop_nonblank) (simp_all add: parse_state_def parse_uri_def del: copy_while.simps)
  also have "\<dots> = parse_all e (CHR '' '' # rest) (r\<lparr>q_uri := uri_of (doc_root_len e) path r, tmp_len := 0, skip_lws := True, q_state := PARSE_VERSION\<rparr>)"
    using assms by (subst copy_uri_run)
      (auto simp: plain_path_def unless_end_def end_uri_def put_uri_def uri_of_def Let_def)
  finally show ?thesis .
qed

lemma version_name_simps:
  "\<forall>c\<in>set (version_name closes). \<not> isspace c" "no_nul (version_name closes)" "length (version_name closes) < MAX_TMP_LEN"
  "\<exists>v. version_name closes = CHR ''H'' # v"
  by (auto simp: version_name_def isspace_def)

lemma run_version:
  assumes "q_state r = PARSE_VERSION" "skip_lws r" "tmp_len r = 0" "length (q_tmp r) = MAX_TMP_LEN"
  shows "parse_all e (CHR '' '' # version_name closes @ CR # rest) r =
    parse_all e (CR # rest) (r\<lparr>skip_lws := False, q_tmp := token (version_name closes) r, tmp_len := 0, q_close := closes, q_state := PARSE_SKIP\<rparr>)"
proof -
  let ?r = "r\<lparr>skip_lws := False\<rparr>" and ?mem = "version_name closes @ CR # rest"
  have t: "cstr (token (version_name closes) ?r) = version_name closes"
    using token_string [OF version_name_simps(2), of closes ?r] version_name_simps(3) assms(4) by simp
  have "parse_all e (CHR '' '' # ?mem) r = next_flow (parse_version ?mem (int (length ?mem)) ?r) (parse_loop e)"
  proof -
    obtain v where v: "?mem = CHR ''H'' # v" using version_name_simps(4) [of closes] by auto
    show ?thesis
      unfolding v using assms(1,2) by (subst loop_blank, simp, simp, subst loop_nonblank) (simp_all add: parse_state_def)
  qed
  also have "\<dots> = parse_all e (CR # rest) (r\<lparr>skip_lws := False, q_tmp := token (version_name closes) r, tmp_len := 0, q_close := closes, q_state := PARSE_SKIP\<rparr>)"
    unfolding parse_version_def using version_name_simps t assms
    by (subst token_run) (auto simp: strcmp_eq_def version_name_def cstr_def token_def)
  finally show ?thesis .
qed

text \<open>To the end of the line, from the state that skips what is left of it.\<close>

lemma run_line:
  assumes "\<forall>c\<in>set xs. \<not> eol c" "q_state r = PARSE_SKIP" "\<not> skip_lws r" "q_method r \<notin> {HTTP_NONE, HTTP_SIMPLE}"
  shows "parse_all e (xs @ CR # LF # rest) r = parse_all e rest (r\<lparr>q_state := PARSE_HEADER_NAME\<rparr>)"
proof -
  have "parse_all e (xs @ CR # LF # rest) r = parse_all e (CR # LF # rest) (r\<lparr>q_state := PARSE_CR_1\<rparr>)"
    using assms by (subst loop_plain) (simp_all add: parse_state_def parse_skip_def copy_skip_run unless_end_def del: length_append)
  also have "\<dots> = parse_all e (LF # rest) (r\<lparr>q_state := PARSE_LF_1\<rparr>)"
    using assms(3) by (subst loop_plain) (simp_all add: parse_state_def parse_cr_def)
  also have "\<dots> = parse_all e rest (r\<lparr>q_state := PARSE_HEADER_NAME\<rparr>)"
    using assms(3,4) by (subst loop_plain) (auto simp: parse_state_def parse_lf_def end_of_line_def split: info_req_method.split)
  finally show ?thesis .
qed

lemma run_end:
  assumes "q_state r = PARSE_HEADER_NAME" "\<not> skip_lws r" "q_method r \<notin> {HTTP_NONE, HTTP_SIMPLE}" "tmp_len r = 0" "length (q_tmp r) = MAX_TMP_LEN"
  shows "parse_all e (CR # LF # rest) r = Inr (Go rest (int (length rest)) (r\<lparr>q_tmp := token [] r, tmp_len := 0, q_state := PARSE_DONE\<rparr>))"
proof -
  let ?r = "r\<lparr>q_tmp := token [] r, tmp_len := 0\<rparr>"
  have "parse_all e (CR # LF # rest) r = parse_all e (CR # LF # rest) (?r\<lparr>q_state := PARSE_CR_2\<rparr>)"
    using assms by (subst loop_plain) (simp_all add: parse_state_def parse_header_name_def unless_end_def end_tmp_def put_tmp_def token_def)
  also have "\<dots> = parse_all e (LF # rest) (?r\<lparr>q_state := PARSE_LF_2\<rparr>)"
    using assms(2) by (subst loop_plain) (simp_all add: parse_state_def parse_cr_def)
  also have "\<dots> = parse_all e rest (?r\<lparr>q_state := PARSE_DONE\<rparr>)"
    using assms(2,3) by (subst loop_plain) (auto simp: parse_state_def parse_lf_def end_of_line_def split: info_req_method.split)
  finally show ?thesis by (simp add: parse_loop_done)
qed

text \<open>\<open>stricmp\<close> is equality of the strings without case.\<close>

lemma schar_inj: "schar x = schar y \<longleftrightarrow> x = y"
proof
  assume "schar x = schar y"
  then have "schar x mod 256 = schar y mod 256" by simp
  moreover have "schar c mod 256 = int (of_char c mod 256)" for c
    unfolding zmod_int by (simp add: schar_def Let_def del: of_char_mod_256)
  ultimately have "of_char x = (of_char y :: nat)" by simp
  then show "x = y" by simp
qed simp

lemma stricmp_zero:
  assumes "terminated s" "terminated t"
  shows "\<exists>d. stricmp s t = Inr d \<and> (d = 0 \<longleftrightarrow> map tolower (cstr s) = map tolower (cstr t))"
  using assms
proof (induction s t rule: stricmp.induct)
  case (1 a s b t)
  show ?case
  proof (cases "tolower a = tolower b \<and> a \<noteq> NUL")
    case True
    then have "b \<noteq> NUL" by auto
    with True 1 show ?thesis by auto
  next
    case False
    then show ?thesis using tolower_NUL(1) [of a] tolower_NUL(1) [of b] by (auto simp: schar_inj)
  qed
qed (auto simp: terminated_def)

lemma pick_header_none:
  assumes "terminated s" "\<forall>h\<in>set hs. map tolower (cstr s) \<noteq> map tolower (fst h) \<and> no_nul (fst h)"
  shows "pick_header hs s = Inr None"
  using assms(2)
proof (induction hs)
  case (Cons h hs)
  obtain name a where h: "h = (name, a)" by (cases h)
  with Cons.prems have "cstr (name @ [NUL]) = name" by simp
  with stricmp_zero [OF assms(1), of "name @ [NUL]"] Cons h show ?case by auto
qed simp

lemma run_header:
  assumes "plain_header h" "q_state r = PARSE_HEADER_NAME" "\<not> skip_lws r" "q_method r \<notin> {HTTP_NONE, HTTP_SIMPLE}" "tmp_len r = 0"
    "length (q_tmp r) = MAX_TMP_LEN"
  shows "parse_all e (render_header h @ rest) r = parse_all e rest (r\<lparr>q_tmp := token (fst h) r, tmp_len := 0, skip_lws := False\<rparr>)"
proof -
  let ?name = "fst h" and ?v = "snd h @ CR # LF # rest" and ?r = "r\<lparr>q_tmp := token (fst h) r, tmp_len := 0\<rparr>"
  have name: "\<forall>c\<in>set ?name. \<not> (c = CHR '':'' \<or> isspace c)" "no_nul ?name" "length ?name < MAX_TMP_LEN"
    using assms(1) by (auto simp: plain_header_def no_nul_def)
  have t: "cstr (token ?name r) = ?name" using token_string [OF name(2)] name(3) assms(6) by simp
  have "terminated (token ?name r)" using name(3) assms(6) by (auto simp: token_def terminated_def set_update_memI)
  then have pick: "pick_header header_names (token ?name r) = Inr None"
    using assms(1) t by (intro pick_header_none) (auto simp: plain_header_def header_names_def)
  have "parse_all e (render_header h @ rest) r = parse_all e (?name @ CHR '':'' # ?v) r"
    by (simp add: render_header_def)
  also have "\<dots> = parse_all e (CHR '':'' # ?v) (?r\<lparr>q_state := PARSE_COLON, skip_lws := True\<rparr>)"
    using assms(2-6) name
    by (subst loop_plain) (simp_all add: parse_state_def parse_header_name_def token_run del: length_append)
  also have "\<dots> = parse_all e ?v (?r\<lparr>skip_lws := False, q_state := PARSE_SKIP\<rparr>)"
    using pick by (subst loop_nonblank) (simp_all add: parse_state_def parse_colon_def)
  also have "\<dots> = parse_all e rest (?r\<lparr>skip_lws := False, q_state := PARSE_HEADER_NAME\<rparr>)"
    using assms(1,4) by (subst run_line) (simp_all add: plain_header_def)
  also have "?r\<lparr>skip_lws := False, q_state := PARSE_HEADER_NAME\<rparr> = r\<lparr>q_tmp := token (fst h) r, tmp_len := 0, skip_lws := False\<rparr>"
    using assms(2) by simp
  finally show ?thesis .
qed

lemma run_headers:
  assumes "\<forall>h\<in>set hs. plain_header h" "q_state r = PARSE_HEADER_NAME" "\<not> skip_lws r" "q_method r \<notin> {HTTP_NONE, HTTP_SIMPLE}" "tmp_len r = 0"
    "length (q_tmp r) = MAX_TMP_LEN"
  shows "\<exists>t. length t = MAX_TMP_LEN \<and>
    parse_all e (concat (map render_header hs) @ rest) r = parse_all e rest (r\<lparr>q_tmp := t, tmp_len := 0, skip_lws := False\<rparr>)"
  using assms
proof (induction hs arbitrary: r)
  case Nil
  then have "r\<lparr>q_tmp := q_tmp r, tmp_len := 0, skip_lws := False\<rparr> = r" by simp
  with Nil show ?case by (metis append_Nil concat.simps(1) list.map(1))
next
  case (Cons h hs)
  let ?r = "r\<lparr>q_tmp := token (fst h) r, tmp_len := 0, skip_lws := False\<rparr>"
  have "parse_all e (concat (map render_header (h # hs)) @ rest) r = parse_all e (concat (map render_header hs) @ rest) ?r"
    using run_header [of h r e "concat (map render_header hs) @ rest"] Cons.prems by simp
  moreover have "length (q_tmp ?r) = MAX_TMP_LEN" using Cons.prems by (simp add: token_def plain_header_def)
  ultimately show ?case using Cons.IH [of ?r] Cons.prems by auto
qed

lemma run_request:
  assumes "m \<in> {HTTP_GET, HTTP_HEAD, HTTP_POST}" "plain_path (doc_root_len e) path" "\<forall>h\<in>set hs. plain_header h"
    and r: "ureq_ok e r" "q_state r = PARSE_METHOD" "\<not> skip_lws r" "tmp_len r = 0"
  obtains t where "parse_all e (render_request m path closes hs @ rest) r =
    Inr (Go rest (int (length rest)) (r\<lparr>q_method := m, q_uri := uri_of (doc_root_len e) path r, q_close := closes, q_tmp := t, tmp_len := 0,
      skip_lws := False, q_state := PARSE_DONE\<rparr>))"
proof -
  have len: "length (q_tmp r) = MAX_TMP_LEN" "length (q_uri r) = MAX_URI_LEN" using r(1) by (simp_all add: ureq_ok_def)
  let ?h = "concat (map render_header hs) @ [CR, LF] @ rest"
  let ?t1 = "token (method_name m) r"
  let ?r1 = "r\<lparr>q_tmp := ?t1, tmp_len := 0, q_method := m, skip_lws := True, q_state := PARSE_URI\<rparr>"
  let ?r2 = "?r1\<lparr>q_uri := uri_of (doc_root_len e) path r, tmp_len := 0, skip_lws := True, q_state := PARSE_VERSION\<rparr>"
  let ?r3 = "?r2\<lparr>skip_lws := False, q_tmp := token (version_name closes) ?r2, tmp_len := 0, q_close := closes, q_state := PARSE_SKIP\<rparr>"
  have u: "uri_of (doc_root_len e) path ?r1 = uri_of (doc_root_len e) path r" by (simp add: uri_of_def)
  have t1: "length ?t1 = MAX_TMP_LEN" using token_string(2) [of "method_name m" r] method_name_simps [OF assms(1)] len by simp
  have t3: "length (q_tmp ?r3) = MAX_TMP_LEN" using token_string(2) [of "version_name closes" ?r2] version_name_simps t1 by simp
  have "parse_all e (render_request m path closes hs @ rest) r =
      parse_all e (method_name m @ CHR '' '' # CHR ''/'' # path @ CHR '' '' # version_name closes @ CR # LF # ?h) r"
    by (simp add: render_request_def)
  also have "\<dots> = parse_all e (CHR '' '' # CHR ''/'' # path @ CHR '' '' # version_name closes @ CR # LF # ?h) ?r1"
    by (rule run_method) (use assms len in auto)
  also have "\<dots> = parse_all e (CHR '' '' # version_name closes @ CR # LF # ?h) ?r2"
    using run_uri [OF assms(2), of ?r1 "version_name closes @ CR # LF # ?h"] len unfolding u by simp
  also have "\<dots> = parse_all e (CR # LF # ?h) ?r3"
    by (rule run_version) (use t1 in simp_all)
  also have "\<dots> = parse_all e ?h (?r3\<lparr>q_state := PARSE_HEADER_NAME\<rparr>)"
    using run_line [of "[]" ?r3 e ?h] assms(1) by auto
  finally have p: "parse_all e (render_request m path closes hs @ rest) r = parse_all e ?h (?r3\<lparr>q_state := PARSE_HEADER_NAME\<rparr>)" .
  obtain t where t: "length t = MAX_TMP_LEN"
      "parse_all e ?h (?r3\<lparr>q_state := PARSE_HEADER_NAME\<rparr>) = parse_all e ([CR, LF] @ rest) (?r3\<lparr>q_state := PARSE_HEADER_NAME, q_tmp := t, tmp_len := 0, skip_lws := False\<rparr>)"
    using run_headers [OF assms(3), of "?r3\<lparr>q_state := PARSE_HEADER_NAME\<rparr>" e "[CR, LF] @ rest"] t3 assms(1) by auto
  let ?r4 = "?r3\<lparr>q_state := PARSE_HEADER_NAME, q_tmp := t, tmp_len := 0, skip_lws := False\<rparr>"
  have "parse_all e ([CR, LF] @ rest) ?r4 = Inr (Go rest (int (length rest)) (?r4\<lparr>q_tmp := token [] ?r4, tmp_len := 0, q_state := PARSE_DONE\<rparr>))"
    using run_end [of ?r4 e rest] t(1) assms(1) by auto
  with p t(2) show thesis by (intro that [of "token [] ?r4"]) simp
qed

section \<open>Whole requests\<close>

text \<open>A request at its start: a new connection, or the next request of one.\<close>

definition at_start :: "parse_env \<Rightarrow> ureq \<Rightarrow> bool" where
  "at_start e r \<longleftrightarrow> parsing e r \<and> q_state r = PARSE_METHOD \<and> \<not> skip_lws r \<and> tmp_len r = 0 \<and> content_len r = 0 \<and>
     no_nul (take (doc_root_len e) (q_uri r))"

abbreviation (input) doc_of :: "parse_env \<Rightarrow> ureq \<Rightarrow> string" where
  "doc_of e r \<equiv> take (doc_root_len e) (q_uri r)"

lemma uri_of_split:
  assumes "ureq_ok e r" "plain_path (doc_root_len e) path"
  shows "uri_of (doc_root_len e) path r = doc_of e r @ path @ NUL # drop (Suc (doc_root_len e + length path)) (q_uri r)"
  using assms by (intro nth_equalityI)
    (auto simp: uri_of_def ureq_ok_def plain_path_def blit_def nth_append nth_list_update nth_Cons' min_def)

lemma post_sock_read_run:
  assumes "m \<in> {HTTP_GET, HTTP_HEAD, HTTP_POST}" "plain_path (doc_root_len e) path" "\<forall>h\<in>set hs. plain_header h" "at_start e r"
  obtains r1 where "q_method r1 = m" "q_close r1 = closes" "q_uri r1 = uri_of (doc_root_len e) path r" "content_len r1 = 0" "q_state r1 = PARSE_DONE"
    "cookie_len r1 = cookie_len r"
    "parse_bytes e (render_request m path closes hs @ rest) (int (length (render_request m path closes hs @ rest))) r =
      rbind (analyze_req e r1) (\<lambda>r. if q_type r = REQ_INVALID then Inl AssertFail else Inr (0, rest_of rest (int (length rest)), r))"
proof -
  have r: "ureq_ok e r" "q_state r = PARSE_METHOD" "\<not> skip_lws r" "tmp_len r = 0" "content_len r = 0"
    using assms(4) by (auto simp: at_start_def parsing_def)
  obtain t where t: "parse_all e (render_request m path closes hs @ rest) r =
    Inr (Go rest (int (length rest)) (r\<lparr>q_method := m, q_uri := uri_of (doc_root_len e) path r, q_close := closes, q_tmp := t, tmp_len := 0,
      skip_lws := False, q_state := PARSE_DONE\<rparr>))"
    using run_request [OF assms(1-3) r(1-4)] by blast
  let ?r = "r\<lparr>q_method := m, q_uri := uri_of (doc_root_len e) path r, q_close := closes, q_tmp := t, tmp_len := 0,
      skip_lws := False, q_state := PARSE_DONE\<rparr>"
  obtain c where "put_cookie NUL ?r = Inr (?r\<lparr>q_cookie := c, cookie_len := cookie_len ?r + 1\<rparr>)"
    using r(1) by (auto simp: put_cookie_def ureq_ok_def)
  with t r show thesis by (intro that [of "?r\<lparr>q_cookie := c\<rparr>"]) (simp_all add: parse_bytes_def)
qed

lemma post_sock_read_static:
  assumes "m \<in> {HTTP_GET, HTTP_HEAD}" "plain_path (doc_root_len e) path" "\<forall>h\<in>set hs. plain_header h" "at_start e r"
    and static: "CHR ''?'' \<notin> set (doc_of e r @ path)" "find_str ''.php'' (doc_of e r @ path) = None"
  shows "\<exists>r'. post_sock_read e (render_request m path closes hs @ rest) (int (length (render_request m path closes hs @ rest))) r =
      Inr (Setup_Http r' (rest_of rest (int (length rest)))) \<and>
    q_method r' = m \<and> q_close r' = closes \<and> cstr (q_uri r') = doc_of e r @ path \<and> query_string r' = None \<and> cookie_len r' = cookie_len r"
proof -
  obtain r1 where r1: "q_method r1 = m" "q_close r1 = closes" "q_uri r1 = uri_of (doc_root_len e) path r" "content_len r1 = 0" "q_state r1 = PARSE_DONE"
      "cookie_len r1 = cookie_len r"
      "parse_bytes e (render_request m path closes hs @ rest) (int (length (render_request m path closes hs @ rest))) r =
        rbind (analyze_req e r1) (\<lambda>r. if q_type r = REQ_INVALID then Inl AssertFail else Inr (0, rest_of rest (int (length rest)), r))"
    using post_sock_read_run [OF _ assms(2-4), of m closes rest] assms(1) by auto
  have u: "cstr (q_uri r1) = doc_of e r @ path" "terminated (q_uri r1)"
    using uri_of_split [OF _ assms(2), of r] assms(2,4) r1(3)
    by (auto simp: at_start_def parsing_def plain_path_def no_nul_def cstr_append)
  let ?r2 = "r1\<lparr>q_type := REQ_INVALID, q_app := None, query_string := None\<rparr>"
  have "find_char (CHR ''?'') (doc_of e r @ path) = None" using static(1) by (simp add: find_char_None)
  with u have "cut_query r1 = Inr ?r2" by (simp add: cut_query_def search_terminated)
  moreover have "pick_type e ?r2 = Inr (?r2\<lparr>q_type := REQ_STATIC\<rparr>)"
    using u static(2) r1(1,4) assms(1) by (auto simp: pick_type_def search_terminated)
  ultimately show ?thesis using r1 u(1) by (simp add: post_sock_read_def analyze_req_def)
qed

lemma find_char_first: "c \<notin> set s \<Longrightarrow> find_char c (s @ c # t) = Some (length s)"
  by (induction s) auto

lemma find_str_php: "find_str ''.php'' [] = None"
  by simp

text \<open>With a query, the path is looked up in the table of applications. One that is not there ends
  the process.\<close>

lemma post_sock_read_query:
  assumes "m \<in> {HTTP_GET, HTTP_HEAD, HTTP_POST}" "plain_path (doc_root_len e) (p @ CHR ''?'' # q)" "\<forall>h\<in>set hs. plain_header h" "at_start e r"
    and dyn: "CHR ''?'' \<notin> set (doc_of e r @ p)" "find_str ''.php'' (doc_of e r @ p) = None"
  shows "case find_uapp (u_apps e) p of
      Some (i, REQ_FASTCGI) \<Rightarrow>
        \<exists>r' k. post_sock_read e (render_request m (p @ CHR ''?'' # q) closes hs @ rest)
            (int (length (render_request m (p @ CHR ''?'' # q) closes hs @ rest))) r = Inr (Fcgi_Process r' (rest_of rest (int (length rest)))) \<and>
          q_method r' = m \<and> q_app r' = Some i \<and> cstr (q_uri r') = doc_of e r @ p \<and> query_string r' = Some k \<and> cstr (drop k (q_uri r')) = q
    | None \<Rightarrow> post_sock_read e (render_request m (p @ CHR ''?'' # q) closes hs @ rest)
            (int (length (render_request m (p @ CHR ''?'' # q) closes hs @ rest))) r = Inl AssertFail
    | _ \<Rightarrow> True"
proof -
  let ?d = "doc_of e r" and ?path = "p @ CHR ''?'' # q"
  obtain r1 where r1: "q_method r1 = m" "q_uri r1 = uri_of (doc_root_len e) ?path r" "content_len r1 = 0" "q_state r1 = PARSE_DONE"
      "parse_bytes e (render_request m ?path closes hs @ rest) (int (length (render_request m ?path closes hs @ rest))) r =
        rbind (analyze_req e r1) (\<lambda>r. if q_type r = REQ_INVALID then Inl AssertFail else Inr (0, rest_of rest (int (length rest)), r))"
    using post_sock_read_run [OF assms(1-4), of closes rest] by blast
  have nn: "no_nul ?d" "no_nul p" "no_nul q" using assms(2,4) by (auto simp: plain_path_def no_nul_def at_start_def)
  define tail where "tail = drop (Suc (doc_root_len e + length ?path)) (q_uri r)"
  have uri: "q_uri r1 = (?d @ p) @ CHR ''?'' # q @ NUL # tail"
    using uri_of_split [OF _ assms(2), of r] assms(4) r1(2) by (simp add: tail_def at_start_def parsing_def)
  then have u: "cstr (q_uri r1) = (?d @ p) @ CHR ''?'' # q" "terminated (q_uri r1)"
    using nn by (simp_all add: cstr_append)
  have root: "length ?d = doc_root_len e" using assms(4) by (auto simp: at_start_def parsing_def ureq_ok_def)
  let ?k = "length (?d @ p)"
  let ?r2 = "r1\<lparr>q_type := REQ_INVALID, q_app := None, query_string := Some (?k + 1), q_uri := (q_uri r1)[?k := NUL]\<rparr>"
  have u2: "q_uri ?r2 = (?d @ p) @ NUL # q @ NUL # tail" by (simp add: uri list_update_append)
  then have c2: "cstr (q_uri ?r2) = ?d @ p" "terminated (q_uri ?r2)" "drop (doc_root_len e) (q_uri ?r2) = p @ NUL # q @ NUL # tail"
      "cstr (drop (?k + 1) (q_uri ?r2)) = q"
    using nn root by (simp_all add: cstr_append)
  have sq: "cut_query r1 = Inr ?r2"
    using find_char_first [OF dyn(1), of q] by (simp add: cut_query_def search_terminated [OF u(2)] u(1))
  have app: "find_uapp as (p @ NUL # s) = find_uapp as p" for as s
    using nn(2) by (induction as) (auto simp: strcmp_eq_def)
  have "pick_type e ?r2 = Inr (set_app (find_uapp (u_apps e) p) ?r2)"
    unfolding pick_type_def search_terminated [OF c2(2)] c2(1) c2(3) rbind.simps dyn(2) app using r1(3) by simp
  with sq c2(1,4) r1(1,4,5) show ?thesis
    by (auto simp: post_sock_read_def analyze_req_def set_app_def split: option.split req_type.split)
qed

text \<open>A new connection and a connection whose reply has been sent are at the start of a request.\<close>

lemma socket_setup_at_start:
  assumes "length (q_tmp r) = MAX_TMP_LEN" "length (q_cookie r) = MAX_COOKIE_LEN" "length (q_uri r) = MAX_URI_LEN"
    "doc_root_len e = length (cstr doc)" "doc_root_len e < MAX_URI_LEN"
  shows "\<exists>r'. socket_setup_req doc r = Inr r' \<and> at_start e r' \<and> doc_of e r' = cstr doc"
proof (cases "cstr doc = []")
  case True
  with assms show ?thesis
    by (auto simp: socket_setup_req_def at_start_def parsing_def phase_ok_def ureq_ok_def Let_def)
next
  case False
  have "take (length (cstr doc)) (strncpy_bytes doc MAX_URI_LEN) = cstr doc" "length (strncpy_bytes doc MAX_URI_LEN) = MAX_URI_LEN"
    using assms(4,5) by (simp_all add: strncpy_bytes_def)
  with False assms show ?thesis
    by (auto simp: socket_setup_req_def at_start_def parsing_def phase_ok_def ureq_ok_def Let_def strncpy_def blit_def)
qed

lemma reset_at_start:
  assumes "ureq_ok e r" "q_state r = PARSE_DONE" "no_nul (doc_of e r)"
  shows "at_start e (reset_req r)"
  using assms by (auto simp: reset_req_def at_start_def parsing_def phase_ok_def ureq_ok_def)

section \<open>An example\<close>

definition demo_penv :: parse_env where
  "demo_penv = \<lparr>doc_root_len = 0, u_apps = [(''cgi'', REQ_FASTCGI)], u_strptime = \<lambda>f s tm. (Some [], tm),
     u_mktime = \<lambda>_. 1, u_timezone = 0, u_tm0 = []\<rparr>"

definition demo_ureq :: ureq where
  "demo_ureq = \<lparr>q_type = REQ_INVALID, q_app = None, q_state = PARSE_METHOD, skip_lws = False, q_method = HTTP_NONE,
     q_close = False, query_string = None, cookie_len = 0, content_len = 0, client_id = 0, call_id = 0,
     range_start = 0, range_end = 0, range_request = False, tmp_len = 0, q_tmp = zeros 64, q_cookie = zeros 102,
     q_uri = zeros 140, ifmodsince = 0\<rparr>"

lemma demo_at_start: "at_start demo_penv demo_ureq"
  by (simp add: at_start_def demo_penv_def demo_ureq_def parsing_def phase_ok_def ureq_ok_def)

lemma demo_first_piece:
  "\<exists>r. parse_bytes demo_penv ''GET /in'' 7 demo_ureq = Inr (0, None, r) \<and> q_state r = PARSE_URI"
proof -
  have "case parse_bytes demo_penv ''GET /in'' 7 demo_ureq of Inl _ \<Rightarrow> False
      | Inr (rc, rest, r) \<Rightarrow> rc = 0 \<and> rest = None \<and> q_state r = PARSE_URI"
    by code_simp
  then show ?thesis by (auto split: sum.splits)
qed

lemma demo_bad_request:
  "\<exists>rest r. parse_bytes demo_penv ''GET / HTTP/9 '' 13 demo_ureq = Inr (-1, rest, r)"
proof -
  have "case parse_bytes demo_penv ''GET / HTTP/9 '' 13 demo_ureq of Inl _ \<Rightarrow> False | Inr (rc, rest, r) \<Rightarrow> rc = -1"
    by code_simp
  then show ?thesis by (auto split: sum.splits)
qed

lemma demo_client: "\<exists>r. socket_setup_req [] demo_ureq = Inr r \<and> client_request demo_penv [] r \<and> r = demo_ureq"
proof -
  have "socket_setup_req [] demo_ureq = Inr demo_ureq"
    by (simp add: socket_setup_req_def demo_ureq_def list_update_same_conv [of 0] flip: replicate_Suc)
  moreover from this have "client_request demo_penv [] demo_ureq"
    by (rule client_request.new_conn [rotated 3]) (simp_all add: demo_ureq_def demo_penv_def)
  ultimately show ?thesis by blast
qed

end
