(* ===== verification/Flash_Match.thy ===== *)
theory Flash_Match
  imports Prelude
begin

text \<open>
  The file-name matcher of \<open>flash_server/match.c\<close>, which decides what a CGI program is: shell
  patterns with \<^verbatim>\<open>?\<close>, \<^verbatim>\<open>*\<close> and alternatives separated by \<^verbatim>\<open>|\<close>. Pattern and string are
  lists of characters without NUL.
\<close>

text \<open>The pattern behind the next bar, \<open>strchr (pattern, '|')\<close> and the increment of the outer loop.\<close>

definition next_alternative :: "string \<Rightarrow> string option" where
  "next_alternative p = (case dropWhile (\<lambda>c. c \<noteq> CHR ''|'') p of [] \<Rightarrow> None | _ # p' \<Rightarrow> Some p')"

lemma next_alternative_shorter: "next_alternative p = Some p' \<Longrightarrow> length p' < length p"
  using length_dropWhile_le [of "\<lambda>c. c \<noteq> CHR ''|''" p] by (auto simp: next_alternative_def split: list.splits)

text \<open>The inner loop at a place of the pattern and a place of the string; \<open>str\<close> is the argument of
  the call, from which the next alternative starts again.\<close>

function match_at :: "string \<Rightarrow> string \<Rightarrow> string \<Rightarrow> bool" where
  "match_at p s str =
     (case p of
        [] \<Rightarrow> True
      | c # p1 \<Rightarrow>
          if c = CHR ''?'' \<and> s \<noteq> [] then match_at p1 (tl s) str
          else if c = CHR ''*'' then
            list_ex (\<lambda>i. match_at p1 (drop i s) (drop i s)) (rev [0..<Suc (length s)])
            \<or> (case next_alternative p1 of None \<Rightarrow> False | Some p2 \<Rightarrow> match_at p2 str str)
          else if c = CHR ''|'' then True
          else if s = [] \<or> hd s \<noteq> c then
            (case next_alternative p of None \<Rightarrow> False | Some p2 \<Rightarrow> match_at p2 str str)
          else match_at p1 (tl s) str)"
  by pat_completeness auto
termination
  by (relation "measure (\<lambda>(p, s, str). length p)") (auto dest: next_alternative_shorter)

declare match_at.simps [simp del]

definition match :: "string \<Rightarrow> string \<Rightarrow> bool" where
  "match p str = match_at p str str"

section \<open>What it matches\<close>

text \<open>The strings that a pattern without alternatives stands for.\<close>

fun glob :: "string \<Rightarrow> string \<Rightarrow> bool" where
  "glob [] u = (u = [])"
| "glob (c # p) u =
     (if c = CHR ''*'' then \<exists>i\<le>length u. glob p (drop i u)
      else u \<noteq> [] \<and> (c = CHR ''?'' \<or> hd u = c) \<and> glob p (tl u))"

lemma no_alternative: "CHR ''|'' \<notin> set p \<Longrightarrow> next_alternative p = None"
proof -
  assume "CHR ''|'' \<notin> set p"
  then have "dropWhile (\<lambda>c. c \<noteq> CHR ''|'') p = []" by (auto simp: dropWhile_eq_Nil_conv)
  then show ?thesis by (simp only: next_alternative_def list.case)
qed

lemma glob_star_prefix:
  "(\<exists>i\<le>length s. \<exists>n. glob p (take n (drop i s))) \<longleftrightarrow> (\<exists>n. glob (CHR ''*'' # p) (take n s))"
proof
  assume "\<exists>i\<le>length s. \<exists>n. glob p (take n (drop i s))"
  then obtain i n where i: "i \<le> length s" "glob p (take n (drop i s))" by blast
  have "drop i (take (i + n) s) = take n (drop i s)" by (simp add: take_drop add.commute)
  then have "glob (CHR ''*'' # p) (take (i + n) s)" using i by (auto intro!: exI [of _ i])
  then show "\<exists>n. glob (CHR ''*'' # p) (take n s)" by blast
next
  assume "\<exists>n. glob (CHR ''*'' # p) (take n s)"
  then obtain n i where i: "i \<le> length (take n s)" "glob p (drop i (take n s))" by auto
  then have "glob p (take (n - i) (drop i s))" by (simp add: drop_take)
  with i(1) show "\<exists>i\<le>length s. \<exists>n. glob p (take n (drop i s))" by auto
qed

text \<open>A pattern without alternatives is matched against the beginning of the string: some prefix of
  it is what the pattern stands for.\<close>

lemma match_at_glob:
  "CHR ''|'' \<notin> set p \<Longrightarrow> match_at p s str \<longleftrightarrow> (\<exists>n. glob p (take n s))"
proof (induction p arbitrary: s str)
  case Nil
  show ?case by (subst match_at.simps) (auto intro: exI [of _ 0])
next
  case (Cons c p)
  then have no: "next_alternative p = None" "next_alternative (c # p) = None" "CHR ''|'' \<notin> set p" "c \<noteq> CHR ''|''"
    by (auto simp: no_alternative)
  have step: "(\<exists>n. glob (c # p) (take n s)) \<longleftrightarrow> s \<noteq> [] \<and> (c = CHR ''?'' \<or> hd s = c) \<and> (\<exists>n. glob p (take n (tl s)))"
    if "c \<noteq> CHR ''*''"
  proof (cases s)
    case (Cons x xs)
    have "(\<exists>n. glob (c # p) (take n (x # xs))) \<longleftrightarrow> (\<exists>n. glob (c # p) (take (Suc n) (x # xs)))"
      using that by (metis glob.simps(2) not0_implies_Suc take0)
    then show ?thesis using that Cons by simp
  qed (use that in simp)
  show ?case
  proof (cases "c = CHR ''*''")
    case True
    have "match_at (c # p) s str \<longleftrightarrow> (\<exists>i\<le>length s. match_at p (drop i s) (drop i s))"
      using True no by (subst match_at.simps) (simp add: list_ex_iff less_Suc_eq_le Bex_def del: upt_Suc)
    then show ?thesis using Cons.IH no(3) glob_star_prefix [of s p] True by simp
  next
    case False
    then have "match_at (c # p) s str \<longleftrightarrow> s \<noteq> [] \<and> (c = CHR ''?'' \<or> hd s = c) \<and> match_at p (tl s) str"
      using no by (subst match_at.simps) auto
    then show ?thesis using step [OF False] Cons.IH [OF no(3)] by simp
  qed
qed

lemma match_glob: "CHR ''|'' \<notin> set p \<Longrightarrow> match p str \<longleftrightarrow> (\<exists>u. prefix u str \<and> glob p u)"
  unfolding match_def match_at_glob by (metis append_take_drop_id prefixI prefixE append_eq_conv_conj)

text \<open>Alternatives behind a star are tried against the rest of the string too: neither alternative
  of this pattern describes the string, and it matches.\<close>

lemma match_star_alternative:
  "match ''a*b|c'' ''axc'' \<and> \<not> (\<exists>u. prefix u ''axc'' \<and> glob ''a*b'' u) \<and> \<not> (\<exists>u. prefix u ''axc'' \<and> glob ''c'' u)"
proof -
  have "match ''a*b|c'' ''axc''" by code_simp
  moreover have "\<not> match ''a*b'' ''axc''" "\<not> match ''c'' ''axc''" by code_simp+
  ultimately show ?thesis by (simp add: match_glob)
qed

end
