(* ===== verification/Flash_Timer.thy ===== *)
theory Flash_Timer
  imports Prelude
begin

text \<open>
  The connection timers of \<open>flash_server/timer.c\<close>: a connection carries its expiration time, and
  an array of 512 counters, one per second modulo 512, tells \<open>CheckTimers\<close> whether a second
  can have an expired timer, so that most checks do not look at the connections at all. The
  functions that run on expiry are \<open>IdleTimeout\<close> of \<open>loop.c\<close> and the two of \<open>cgi.c\<close>; of
  \<open>DoneWithConnection\<close> the part that concerns timers, descriptor and table is modelled.
\<close>

abbreviation (input) MAXTIMERHOP :: nat where "MAXTIMERHOP \<equiv> 512"

datatype TimerFunc = Idle_Timeout | CGI_Timeout | CGI_Timeout2

record httpd_conn =
  hc_fd :: int
  hc_free :: bool             \<comment> \<open>its bit in \<open>freeConnBits\<close>\<close>
  hc_expirationTime :: int
  hc_expireFunc :: TimerFunc

record timers =
  numActiveTimers :: "int list"
  lastTimerCheckTime :: int
  allConnects :: "httpd_conn option list"
  tv_sec :: int               \<comment> \<open>\<open>globalTimeOfDay.tv_sec\<close>\<close>

text \<open>\<open>t & (MAXTIMERHOP - 1)\<close>\<close>

definition slot :: "int \<Rightarrow> nat" where
  "slot t = nat (t mod int MAXTIMERHOP)"

definition bump :: "int \<Rightarrow> int \<Rightarrow> timers \<Rightarrow> timers" where
  "bump t k s = s\<lparr>numActiveTimers := (numActiveTimers s)[slot t := numActiveTimers s ! slot t + k]\<rparr>"

definition conn_of :: "timers \<Rightarrow> nat \<Rightarrow> httpd_conn option" where
  "conn_of s i = (if i < length (allConnects s) then allConnects s ! i else None)"

text \<open>The operations on the connection in place \<open>i\<close> of the table.\<close>

definition ClearTimer :: "nat \<Rightarrow> timers \<Rightarrow> timers res" where
  "ClearTimer i s =
     (case conn_of s i of
        None \<Rightarrow> Inl NullDeref
      | Some c \<Rightarrow>
          let s1 = (if hc_expirationTime c \<noteq> 0 then bump (hc_expirationTime c) (- 1) s else s) in
          Inr (s1\<lparr>allConnects := (allConnects s1)[i := Some (c\<lparr>hc_expirationTime := 0\<rparr>)]\<rparr>))"

definition SetTimer :: "nat \<Rightarrow> int \<Rightarrow> TimerFunc \<Rightarrow> timers \<Rightarrow> timers res" where
  "SetTimer i numSecs expireFunc s =
     (case conn_of s i of
        None \<Rightarrow> Inl NullDeref
      | Some c \<Rightarrow>
          if numSecs < 1 \<or> int MAXTIMERHOP \<le> numSecs then Inl AssertFail
          else
            let expTime = hc_expirationTime c; newTime = tv_sec s + numSecs in
            if expTime = newTime then Inr s
            else
              let s1 = (if expTime \<noteq> 0 then bump expTime (- 1) s else s);
                  s2 = s1\<lparr>allConnects := (allConnects s1)[i := Some (c\<lparr>hc_expirationTime := newTime,
                           hc_expireFunc := expireFunc\<rparr>)]\<rparr> in
              Inr (bump newTime 1 s2))"

definition InitTimer :: "nat \<Rightarrow> timers \<Rightarrow> timers res" where
  "InitTimer i s =
     (case conn_of s i of
        None \<Rightarrow> Inl NullDeref
      | Some c \<Rightarrow> Inr (s\<lparr>allConnects := (allConnects s)[i := Some (c\<lparr>hc_expirationTime := 0\<rparr>)]\<rparr>))"

abbreviation (input) IDLEC_TIMELIMIT :: int where "IDLEC_TIMELIMIT \<equiv> 500"
abbreviation (input) CGI_TIMELIMIT :: int where "CGI_TIMELIMIT \<equiv> 500"

text \<open>\<open>DoneWithConnection\<close>: the connection is closed, its place becomes free and its timer is cleared;
  a persistent one that need not be closed waits for the next request.\<close>

definition DoneWithConnection :: "bool \<Rightarrow> nat \<Rightarrow> bool \<Rightarrow> timers \<Rightarrow> timers res" where
  "DoneWithConnection persistent i forceClose s =
     (case conn_of s i of
        None \<Rightarrow> Inl NullDeref
      | Some c \<Rightarrow>
          if hc_fd c = -1 then Inr s
          else if persistent \<and> \<not> forceClose then SetTimer i IDLEC_TIMELIMIT Idle_Timeout s
          else ClearTimer i (s\<lparr>allConnects := (allConnects s)[i := Some (c\<lparr>hc_fd := -1, hc_free := True\<rparr>)]\<rparr>))"

text \<open>The functions that run on expiry, on connection \<open>i\<close>. \<open>clock i\<close> is the time that
  \<open>gettimeofday\<close> returns in \<open>IdleTimeout\<close>, \<open>kills i\<close> whether \<open>kill\<close> succeeds.\<close>

definition IdleTimeout :: "(nat \<Rightarrow> int) \<Rightarrow> nat \<Rightarrow> timers \<Rightarrow> timers res" where
  "IdleTimeout clock i s =
     (case conn_of s i of
        None \<Rightarrow> Inl NullDeref
      | Some c \<Rightarrow> if hc_free c then Inr s else DoneWithConnection False i True (s\<lparr>tv_sec := clock i\<rparr>))"

definition CGITimeout2 :: "(nat \<Rightarrow> bool) \<Rightarrow> nat \<Rightarrow> timers \<Rightarrow> timers res" where
  "CGITimeout2 kills i s = (if kills i then Inr s else DoneWithConnection False i True s)"

definition CGITimeout :: "(nat \<Rightarrow> bool) \<Rightarrow> nat \<Rightarrow> timers \<Rightarrow> timers res" where
  "CGITimeout kills i s = (if kills i then SetTimer i 5 CGI_Timeout2 s else DoneWithConnection False i True s)"

definition run_expiry :: "(nat \<Rightarrow> int) \<Rightarrow> (nat \<Rightarrow> bool) \<Rightarrow> TimerFunc \<Rightarrow> nat \<Rightarrow> timers \<Rightarrow> timers res" where
  "run_expiry clock kills f i s =
     (case f of Idle_Timeout \<Rightarrow> IdleTimeout clock i s | CGI_Timeout \<Rightarrow> CGITimeout kills i s | CGI_Timeout2 \<Rightarrow> CGITimeout2 kills i s)"

text \<open>The loop over the connections; the result lists the connections whose function ran. An
  empty place ends the table.\<close>

fun scan_conns :: "(nat \<Rightarrow> int) \<Rightarrow> (nat \<Rightarrow> bool) \<Rightarrow> nat list \<Rightarrow> timers \<Rightarrow> (nat list \<times> timers) res" where
  "scan_conns clock kills [] s = Inr ([], s)"
| "scan_conns clock kills (i # is) s =
     (case conn_of s i of
        None \<Rightarrow> Inr ([], s)
      | Some c \<Rightarrow>
          if hc_expirationTime c \<noteq> 0 \<and> hc_expirationTime c \<le> tv_sec s
          then rbind (run_expiry clock kills (hc_expireFunc c) i s) (\<lambda>s1.
               rbind (scan_conns clock kills is s1) (\<lambda>(rs, s2). Inr (i # rs, s2)))
          else scan_conns clock kills is s)"

text \<open>The loop over the seconds since the last check.\<close>

function check_from :: "(nat \<Rightarrow> int) \<Rightarrow> (nat \<Rightarrow> bool) \<Rightarrow> int \<Rightarrow> timers \<Rightarrow> (nat list \<times> timers) res" where
  "check_from clock kills i s =
     (if i \<le> tv_sec s then
        (if numActiveTimers s ! slot i = 0 then check_from clock kills (i + 1) s
         else scan_conns clock kills [0..<length (allConnects s)] s)
      else Inr ([], s))"
  by pat_completeness auto
termination by (relation "measure (\<lambda>(clock, kills, i, s). nat (tv_sec s + 1 - i))") auto

declare check_from.simps [simp del]

definition CheckTimers :: "(nat \<Rightarrow> int) \<Rightarrow> (nat \<Rightarrow> bool) \<Rightarrow> timers \<Rightarrow> (nat list \<times> timers) res" where
  "CheckTimers clock kills s =
     (if lastTimerCheckTime s = tv_sec s then Inr ([], s)
      else check_from clock kills (lastTimerCheckTime s) (s\<lparr>lastTimerCheckTime := tv_sec s\<rparr>))"

section \<open>The counters\<close>

definition active :: "timers \<Rightarrow> nat \<Rightarrow> nat set" where
  "active s k = {i. \<exists>c. conn_of s i = Some c \<and> hc_expirationTime c \<noteq> 0 \<and> slot (hc_expirationTime c) = k}"

definition timers_inv :: "timers \<Rightarrow> bool" where
  "timers_inv s \<longleftrightarrow> length (numActiveTimers s) = MAXTIMERHOP
     \<and> (\<forall>k<MAXTIMERHOP. numActiveTimers s ! k = int (card (active s k)))"

lemma slot_less [simp]: "slot t < MAXTIMERHOP"
  by (simp add: slot_def nat_less_iff)

lemma finite_active [simp]: "finite (active s k)"
proof (rule finite_subset)
  show "active s k \<subseteq> {..<length (allConnects s)}" by (auto simp: active_def conn_of_def split: if_splits)
qed simp

lemma conn_of_upd:
  "conn_of (s\<lparr>allConnects := (allConnects s)[i := x]\<rparr>) j = (if j = i \<and> i < length (allConnects s) then x else conn_of s j)"
  by (auto simp: conn_of_def)

lemma bump_simps [simp]:
  "allConnects (bump t k s) = allConnects s" "tv_sec (bump t k s) = tv_sec s" "conn_of (bump t k s) i = conn_of s i"
  "numActiveTimers (bump t k s) = (numActiveTimers s)[slot t := numActiveTimers s ! slot t + k]"
  "active (bump t k s) = active s"
  by (simp_all add: bump_def conn_of_def active_def fun_eq_iff)

text \<open>Giving a connection another expiration time moves it from one counter to another.\<close>

lemma active_upd:
  assumes "conn_of s i = Some c"
  shows "active (s\<lparr>allConnects := (allConnects s)[i := Some c']\<rparr>) k =
    (if hc_expirationTime c' \<noteq> 0 \<and> slot (hc_expirationTime c') = k then insert i (active s k) else active s k - {i})"
proof -
  have "i < length (allConnects s)" using assms by (auto simp: conn_of_def split: if_splits)
  then show ?thesis by (auto simp: active_def conn_of_upd split: if_splits)
qed

lemma active_mem: "conn_of s i = Some c \<Longrightarrow> i \<in> active s k \<longleftrightarrow> hc_expirationTime c \<noteq> 0 \<and> slot (hc_expirationTime c) = k"
  by (auto simp: active_def)

lemma ClearTimer_inv:
  assumes inv: "timers_inv s" and r: "ClearTimer i s = Inr s'"
  shows "timers_inv s'"
proof -
  obtain c where c: "conn_of s i = Some c" using r by (auto simp: ClearTimer_def split: option.splits)
  let ?e = "hc_expirationTime c" and ?c = "c\<lparr>hc_expirationTime := 0\<rparr>"
  define s1 where "s1 = (if ?e \<noteq> 0 then bump ?e (- 1) s else s)"
  have s': "s' = s1\<lparr>allConnects := (allConnects s1)[i := Some ?c]\<rparr>" using r c by (simp add: ClearTimer_def s1_def Let_def)
  have c1: "conn_of s1 i = Some c" "active s1 = active s" using c by (simp_all add: s1_def)
  have a: "active s' k = active s k - {i}" for k using active_upd [OF c1(1), of ?c k] by (simp add: s' c1(2))
  have n: "numActiveTimers s' = (if ?e \<noteq> 0 then (numActiveTimers s)[slot ?e := numActiveTimers s ! slot ?e - 1] else numActiveTimers s)"
    by (simp add: s' s1_def)
  show ?thesis
    unfolding timers_inv_def
  proof (intro conjI allI impI)
    show "length (numActiveTimers s') = MAXTIMERHOP" using inv by (simp add: n timers_inv_def)
    fix k :: nat assume k: "k < MAXTIMERHOP"
    have cs: "numActiveTimers s ! k = int (card (active s k))" using inv k by (simp add: timers_inv_def)
    show "numActiveTimers s' ! k = int (card (active s' k))"
    proof (cases "i \<in> active s k")
      case True
      then have "?e \<noteq> 0" "slot ?e = k" using active_mem [OF c] by auto
      moreover have "int (card (active s k - {i})) = int (card (active s k)) - 1"
        using card_Suc_Diff1 [OF finite_active True] by linarith
      moreover have "k < length (numActiveTimers s)" using inv k by (simp add: timers_inv_def)
      ultimately show ?thesis using cs by (simp add: n a)
    next
      case False
      then have "\<not> (?e \<noteq> 0 \<and> slot ?e = k)" using active_mem [OF c] by auto
      then show ?thesis using cs False by (auto simp: n a)
    qed
  qed
qed

text \<open>\<open>SetTimer\<close> is a \<open>ClearTimer\<close> followed by the entry of the new time.\<close>

lemma SetTimer_Clear:
  assumes "SetTimer i n f s = Inr s'" and "conn_of s i = Some c" and "hc_expirationTime c \<noteq> tv_sec s + n"
  shows "\<exists>s1. ClearTimer i s = Inr s1 \<and> s' = bump (tv_sec s + n) 1 (s1\<lparr>allConnects := (allConnects s1)[i :=
      Some (c\<lparr>hc_expirationTime := tv_sec s + n, hc_expireFunc := f\<rparr>)]\<rparr>) \<and> 0 < n"
  using assms by (auto simp: SetTimer_def ClearTimer_def Let_def bump_def split: if_splits)

lemma SetTimer_inv:
  assumes inv: "timers_inv s" and r: "SetTimer i n f s = Inr s'" and now: "0 \<le> tv_sec s"
  shows "timers_inv s'"
proof -
  obtain c where c: "conn_of s i = Some c" using r by (auto simp: SetTimer_def split: option.splits)
  show ?thesis
  proof (cases "hc_expirationTime c = tv_sec s + n")
    case True
    then show ?thesis using r c inv by (auto simp: SetTimer_def Let_def split: if_splits)
  next
    case False
    let ?t = "tv_sec s + n" and ?c = "c\<lparr>hc_expirationTime := tv_sec s + n, hc_expireFunc := f\<rparr>"
    from SetTimer_Clear [OF r c False] obtain s1 where s1: "ClearTimer i s = Inr s1" "0 < n"
      and s': "s' = bump ?t 1 (s1\<lparr>allConnects := (allConnects s1)[i := Some ?c]\<rparr>)" by blast
    have i1: "timers_inv s1" using ClearTimer_inv [OF inv s1(1)] .
    have "i < length (allConnects s)" using c by (auto simp: conn_of_def split: if_splits)
    then have c1: "conn_of s1 i = Some (c\<lparr>hc_expirationTime := 0\<rparr>)"
      using s1(1) c by (auto simp: ClearTimer_def Let_def conn_of_def split: if_splits)
    have ni: "i \<notin> active s1 k" for k using active_mem [OF c1] by simp
    have a: "active s' k = (if slot ?t = k then insert i (active s1 k) else active s1 k)" for k
      unfolding s' bump_simps(5) using active_upd [OF c1, of ?c k] ni s1(2) now by simp
    show ?thesis
      using i1 ni unfolding timers_inv_def a by (auto simp: s' nth_list_update)
  qed
qed

section \<open>The effect of the operations\<close>

text \<open>What the operations on connection \<open>i\<close> leave alone.\<close>

definition others_kept :: "nat \<Rightarrow> timers \<Rightarrow> timers \<Rightarrow> bool" where
  "others_kept i s s' \<longleftrightarrow> (\<forall>j. j \<noteq> i \<longrightarrow> conn_of s' j = conn_of s j) \<and> length (allConnects s') = length (allConnects s)
     \<and> lastTimerCheckTime s' = lastTimerCheckTime s"

lemma conn_of_bound: "conn_of s i = Some c \<Longrightarrow> i < length (allConnects s)"
  by (auto simp: conn_of_def split: if_splits)

lemma ClearTimer_effect:
  assumes "conn_of s i = Some c"
  obtains s' where "ClearTimer i s = Inr s'" "conn_of s' i = Some (c\<lparr>hc_expirationTime := 0\<rparr>)" "others_kept i s s'"
    "tv_sec s' = tv_sec s"
proof -
  let ?s = "(if hc_expirationTime c \<noteq> 0 then bump (hc_expirationTime c) (- 1) s else s)\<lparr>allConnects :=
      (allConnects s)[i := Some (c\<lparr>hc_expirationTime := 0\<rparr>)]\<rparr>"
  show ?thesis
    using conn_of_bound [OF assms] assms
    by (intro that [of ?s]) (auto simp: ClearTimer_def others_kept_def conn_of_def bump_def)
qed

lemma SetTimer_effect:
  assumes "conn_of s i = Some c" and "1 \<le> n" "n < 512"
  obtains s' c' where "SetTimer i n f s = Inr s'" "conn_of s' i = Some c'" "hc_expirationTime c' = tv_sec s + n"
    "hc_fd c' = hc_fd c" "hc_free c' = hc_free c" "others_kept i s s'" "tv_sec s' = tv_sec s"
proof (cases "hc_expirationTime c = tv_sec s + n")
  case True
  then show ?thesis using assms that [of s c] by (simp add: SetTimer_def others_kept_def)
next
  case False
  let ?c = "c\<lparr>hc_expirationTime := tv_sec s + n, hc_expireFunc := f\<rparr>"
  let ?s = "bump (tv_sec s + n) 1 ((if hc_expirationTime c \<noteq> 0 then bump (hc_expirationTime c) (- 1) s else s)
      \<lparr>allConnects := (allConnects s)[i := Some ?c]\<rparr>)"
  show ?thesis
    using conn_of_bound [OF assms(1)] assms False
    by (intro that [of ?s ?c]) (auto simp: SetTimer_def others_kept_def conn_of_def bump_def Let_def)
qed

lemma timers_inv_conn:
  assumes "timers_inv s" and "conn_of s i = Some c" and "hc_expirationTime c' = hc_expirationTime c"
  shows "timers_inv (s\<lparr>allConnects := (allConnects s)[i := Some c']\<rparr>)"
proof -
  have "active (s\<lparr>allConnects := (allConnects s)[i := Some c']\<rparr>) = active s"
    using conn_of_bound [OF assms(2)] assms(2,3) by (auto simp: active_def conn_of_upd fun_eq_iff)
  then show ?thesis using assms(1) by (simp add: timers_inv_def)
qed

lemma timers_inv_time: "timers_inv (s\<lparr>tv_sec := t\<rparr>) = timers_inv s" "timers_inv (s\<lparr>lastTimerCheckTime := t\<rparr>) = timers_inv s"
  by (simp_all add: timers_inv_def active_def conn_of_def)

lemma DoneWithConnection_close:
  assumes inv: "timers_inv s" and c: "conn_of s i = Some c" "hc_fd c \<noteq> -1"
  obtains s' where "DoneWithConnection p i True s = Inr s'" "timers_inv s'" "others_kept i s s'" "tv_sec s' = tv_sec s"
    "conn_of s' i = Some (c\<lparr>hc_fd := -1, hc_free := True, hc_expirationTime := 0\<rparr>)"
proof -
  let ?c = "c\<lparr>hc_fd := -1, hc_free := True\<rparr>"
  let ?s = "s\<lparr>allConnects := (allConnects s)[i := Some ?c]\<rparr>"
  have ci: "conn_of ?s i = Some ?c" using conn_of_bound [OF c(1)] by (simp add: conn_of_upd)
  have ti: "timers_inv ?s" using timers_inv_conn [OF inv c(1), of ?c] by simp
  obtain s' where s': "ClearTimer i ?s = Inr s'" "conn_of s' i = Some (?c\<lparr>hc_expirationTime := 0\<rparr>)" "others_kept i ?s s'"
    "tv_sec s' = tv_sec ?s" using ClearTimer_effect [OF ci] .
  have "others_kept i s s'" using s'(3) by (auto simp: others_kept_def conn_of_upd)
  moreover have "DoneWithConnection p i True s = Inr s'" using c s'(1) by (simp add: DoneWithConnection_def)
  ultimately show ?thesis using that [of s'] s'(2,4) ClearTimer_inv [OF ti s'(1)] by simp
qed

section \<open>Reachable states\<close>

text \<open>\<open>main\<close> sets the time of the last check; no connection is allocated yet.\<close>

definition timers_init :: "nat \<Rightarrow> int \<Rightarrow> timers" where
  "timers_init maxConnects now = \<lparr>numActiveTimers = replicate MAXTIMERHOP 0, lastTimerCheckTime = now,
     allConnects = replicate maxConnects None, tv_sec = now\<rparr>"

text \<open>
  The steps of the server: connections are allocated behind those there are, accepted into a
  free place, timed and given up; the time goes on (it does not go back), and the timers are
  checked. In a check the clock is read for one connection after the other.
\<close>

definition clock_ok :: "(nat \<Rightarrow> int) \<Rightarrow> timers \<Rightarrow> bool" where
  "clock_ok clock s \<longleftrightarrow> mono clock \<and> tv_sec s \<le> clock 0"

inductive timer_step :: "timers \<Rightarrow> timers \<Rightarrow> bool" where
  alloc: "n < length (allConnects s) \<Longrightarrow> \<forall>j<n. conn_of s j \<noteq> None \<Longrightarrow> conn_of s n = None \<Longrightarrow>
    hc_free c \<Longrightarrow> hc_expirationTime c = 0 \<Longrightarrow> timer_step s (s\<lparr>allConnects := (allConnects s)[n := Some c]\<rparr>)"
| accepts: "conn_of s i = Some c \<Longrightarrow> hc_free c \<Longrightarrow> 0 \<le> d \<Longrightarrow>
    timer_step s (s\<lparr>allConnects := (allConnects s)[i := Some (c\<lparr>hc_fd := d, hc_free := False\<rparr>)]\<rparr>)"
| times: "conn_of s i = Some c \<Longrightarrow> \<not> hc_free c \<Longrightarrow> SetTimer i n f s = Inr s' \<Longrightarrow> timer_step s s'"
| gives_up: "conn_of s i = Some c \<Longrightarrow> \<not> hc_free c \<Longrightarrow> DoneWithConnection p i force s = Inr s' \<Longrightarrow> timer_step s s'"
| tick: "tv_sec s \<le> t \<Longrightarrow> timer_step s (s\<lparr>tv_sec := t\<rparr>)"
| check: "clock_ok clock s \<Longrightarrow> CheckTimers clock kills s = Inr (rs, s') \<Longrightarrow> timer_step s s'"

inductive timer_reach :: "nat \<Rightarrow> int \<Rightarrow> timers \<Rightarrow> bool" for maxConnects now where
  init: "0 \<le> now \<Longrightarrow> timer_reach maxConnects now (timers_init maxConnects now)"
| step: "timer_reach maxConnects now s \<Longrightarrow> timer_step s s' \<Longrightarrow> timer_reach maxConnects now s'"

text \<open>
  A connection in a free place has no timer. A timer that is set has not been passed over by an
  earlier check, but for those left behind by \<open>CGITimeout2\<close> when it has killed the program.
\<close>

definition timer_ok :: "int \<Rightarrow> httpd_conn \<Rightarrow> bool" where
  "timer_ok l c \<longleftrightarrow> (if hc_free c then hc_expirationTime c = 0 else hc_fd c \<noteq> -1)
     \<and> (hc_expirationTime c = 0 \<or> l \<le> hc_expirationTime c \<or> hc_expireFunc c = CGI_Timeout2)"

definition clock_inv :: "int \<Rightarrow> timers \<Rightarrow> bool" where
  "clock_inv l s \<longleftrightarrow> timers_inv s \<and> 0 \<le> l \<and> l \<le> tv_sec s
     \<and> (\<forall>i c. conn_of s i = Some c \<longrightarrow> timer_ok l c)
     \<and> (\<forall>i j. j < i \<and> conn_of s i \<noteq> None \<longrightarrow> conn_of s j \<noteq> None)"

lemma timers_init_inv: "0 \<le> now \<Longrightarrow> clock_inv now (timers_init m now)"
proof -
  assume "0 \<le> now"
  moreover have n: "conn_of (timers_init m now) i = None" for i by (simp add: conn_of_def timers_init_def)
  moreover have "active (timers_init m now) k = {}" for k using n by (simp add: active_def)
  ultimately show ?thesis by (simp add: clock_inv_def timers_inv_def) (simp add: timers_init_def)
qed

text \<open>An operation on one connection that keeps it in order keeps the invariant.\<close>

lemma clock_inv_one:
  assumes "clock_inv l s" and "timers_inv s'" and "others_kept i s s'" and "tv_sec s \<le> tv_sec s'"
    and "conn_of s i \<noteq> None" and "conn_of s' i = Some c'" and "timer_ok l c'"
  shows "clock_inv l s'"
proof -
  have o: "conn_of s' j = (if j = i then Some c' else conn_of s j)" for j using assms(3,6) by (auto simp: others_kept_def)
  show ?thesis using assms(1,2,4,5,7) unfolding clock_inv_def o by (auto simp: order_trans)
qed

section \<open>No expired timer is missed\<close>

text \<open>A function that runs on an expired timer of a well-formed table.\<close>

lemma run_expiry_ok:
  assumes inv: "clock_inv l s" and c: "conn_of s i = Some c" "hc_expirationTime c \<noteq> 0" and t: "tv_sec s \<le> clock i"
  shows "\<exists>s' c'. run_expiry clock kills (hc_expireFunc c) i s = Inr s' \<and> clock_inv l s' \<and> others_kept i s s'
    \<and> tv_sec s \<le> tv_sec s' \<and> tv_sec s' \<le> clock i \<and> conn_of s' i = Some c'
    \<and> (hc_expirationTime c' = 0 \<or> tv_sec s < hc_expirationTime c' \<or> hc_expireFunc c' = CGI_Timeout2)"
proof -
  have ti: "timers_inv s" and l: "0 \<le> l" "l \<le> tv_sec s"
    using inv by (auto simp: clock_inv_def)
  have fd: "hc_fd c \<noteq> -1" "\<not> hc_free c" "timer_ok l c"
    using inv c by (auto simp: clock_inv_def timer_ok_def split: if_splits)
  have closed: ?thesis
    if r: "run_expiry clock kills (hc_expireFunc c) i s = DoneWithConnection False i True (s\<lparr>tv_sec := u\<rparr>)"
      and u: "tv_sec s \<le> u" "u \<le> clock i" for u
  proof -
    have co: "conn_of (s\<lparr>tv_sec := u\<rparr>) = conn_of s" by (simp add: conn_of_def fun_eq_iff)
    with c(1) have cu: "conn_of (s\<lparr>tv_sec := u\<rparr>) i = Some c" by simp
    have "timers_inv (s\<lparr>tv_sec := u\<rparr>)" using ti by (simp add: timers_inv_time)
    from DoneWithConnection_close [OF this cu fd(1), of False] obtain s' where
      s': "DoneWithConnection False i True (s\<lparr>tv_sec := u\<rparr>) = Inr s'" "timers_inv s'" "others_kept i (s\<lparr>tv_sec := u\<rparr>) s'"
      "tv_sec s' = u" "conn_of s' i = Some (c\<lparr>hc_fd := -1, hc_free := True, hc_expirationTime := 0\<rparr>)" by auto
    have k: "others_kept i s s'" using s'(3) by (simp add: others_kept_def co)
    have "clock_inv l s'"
      by (rule clock_inv_one [OF inv s'(2) k _ _ s'(5)]) (use u(1) s'(4) c(1) in \<open>auto simp: timer_ok_def\<close>)
    then show ?thesis using r s' k u by auto
  qed
  have same: "s\<lparr>tv_sec := tv_sec s\<rparr> = s" by simp
  show ?thesis
  proof (cases "hc_expireFunc c")
    case Idle_Timeout
    then show ?thesis using closed [of "clock i"] t c fd(2) by (simp add: run_expiry_def IdleTimeout_def)
  next
    case CGI_Timeout
    show ?thesis
    proof (cases "kills i")
      case True
      have five: "(1::int) \<le> 5" "(5::int) < 512" by simp_all
      obtain s' c' where s': "SetTimer i 5 CGI_Timeout2 s = Inr s'" "conn_of s' i = Some c'"
        "hc_expirationTime c' = tv_sec s + 5" "hc_fd c' = hc_fd c" "hc_free c' = hc_free c" "others_kept i s s'" "tv_sec s' = tv_sec s"
        using SetTimer_effect [OF c(1) five] .
      have "timers_inv s'" using SetTimer_inv [OF ti s'(1)] l by simp
      then have "clock_inv l s'"
        by (rule clock_inv_one [OF inv _ s'(6) _ _ s'(2)]) (use s' c(1) fd l in \<open>auto simp: timer_ok_def\<close>)
      then show ?thesis using CGI_Timeout True s' t by (auto simp: run_expiry_def CGITimeout_def)
    next
      case False
      then show ?thesis using closed [of "tv_sec s"] CGI_Timeout t by (simp add: run_expiry_def CGITimeout_def)
    qed
  next
    case CGI_Timeout2
    show ?thesis
    proof (cases "kills i")
      case True
      then show ?thesis using CGI_Timeout2 inv c t by (auto simp: run_expiry_def CGITimeout2_def others_kept_def)
    next
      case False
      then show ?thesis using closed [of "tv_sec s"] CGI_Timeout2 t by (simp add: run_expiry_def CGITimeout2_def)
    qed
  qed
qed

definition expired :: "timers \<Rightarrow> nat \<Rightarrow> bool" where
  "expired s i = (case conn_of s i of None \<Rightarrow> False
     | Some c \<Rightarrow> hc_expirationTime c \<noteq> 0 \<and> hc_expirationTime c \<le> tv_sec s)"

text \<open>A timer that a check at \<open>t\<close> has dealt with: none, one for later, or the one that
  \<open>CGITimeout2\<close> leaves behind.\<close>

definition served :: "int \<Rightarrow> httpd_conn \<Rightarrow> bool" where
  "served t c \<longleftrightarrow> hc_expirationTime c = 0 \<or> t < hc_expirationTime c \<or> hc_expireFunc c = CGI_Timeout2"

text \<open>The loop over the connections from place \<open>k\<close> on: it runs those whose time has come by the
  second of the check, no other whose time has not come by its end, and each at most once.\<close>

lemma scan_conns_runs:
  assumes "clock_inv l s" and "mono clock" and "tv_sec s \<le> clock k" and "k \<le> n"
  shows "\<exists>rs s'. scan_conns clock kills [k..<n] s = Inr (rs, s') \<and> clock_inv l s' \<and> tv_sec s \<le> tv_sec s'
    \<and> lastTimerCheckTime s' = lastTimerCheckTime s \<and> distinct rs \<and> set rs \<subseteq> {k..<n}
    \<and> (\<forall>i. k \<le> i \<and> i < n \<and> expired s i \<longrightarrow> i \<in> set rs)
    \<and> (\<forall>i\<in>set rs. \<exists>c. conn_of s i = Some c \<and> hc_expirationTime c \<noteq> 0 \<and> hc_expirationTime c \<le> tv_sec s')
    \<and> (\<forall>i. i \<notin> set rs \<longrightarrow> conn_of s' i = conn_of s i)
    \<and> (\<forall>i\<in>set rs. \<exists>c. conn_of s' i = Some c \<and> served (tv_sec s) c)"
  (is "\<exists>rs s'. ?R k s rs s'")
  using assms
proof (induction "n - k" arbitrary: k s)
  case 0
  then show ?case by simp
next
  case (Suc d)
  then have k: "k < n" "[k..<n] = k # [Suc k..<n]" "d = n - Suc k" "Suc k \<le> n" by (simp_all add: upt_conv_Cons)
  have up: "clock k \<le> clock (Suc k)" using Suc.prems(2) by (simp add: monoD)
  show ?case
  proof (cases "conn_of s k")
    case None
    then have "conn_of s i = None" if "k \<le> i" for i
      using that Suc.prems(1) unfolding clock_inv_def by (cases "i = k") (blast, metis order_le_imp_less_or_eq)
    then have "\<not> expired s i" if "k \<le> i" for i using that by (simp add: expired_def)
    then show ?thesis using None k(2) Suc.prems(1) by auto
  next
    case (Some c)
    show ?thesis
    proof (cases "expired s k")
      case False
      then have r: "scan_conns clock kills [k..<n] s = scan_conns clock kills [Suc k..<n] s"
        using Some k(2) by (auto simp: expired_def)
      have "tv_sec s \<le> clock (Suc k)" using Suc.prems(3) up by simp
      from Suc.hyps(1) [OF k(3) Suc.prems(1,2) this k(4)] obtain rs s' where "?R (Suc k) s rs s'" by blast
      moreover have "i \<in> set rs" if "k \<le> i \<and> i < n \<and> expired s i" for i
        using calculation that False by (cases "i = k") auto
      moreover have "set rs \<subseteq> {k..<n}" using calculation(1) by auto
      ultimately have "?R k s rs s'" unfolding r by blast
      then show ?thesis by blast
    next
      case True
      then have e: "hc_expirationTime c \<noteq> 0" "hc_expirationTime c \<le> tv_sec s" using Some by (auto simp: expired_def)
      obtain s1 c' where s1: "run_expiry clock kills (hc_expireFunc c) k s = Inr s1" "clock_inv l s1" "others_kept k s s1"
        "tv_sec s \<le> tv_sec s1" "tv_sec s1 \<le> clock k" "conn_of s1 k = Some c'" "served (tv_sec s) c'"
        using run_expiry_ok [where kills = kills and clock = clock, OF Suc.prems(1) Some e(1) Suc.prems(3)] by (auto simp: served_def)
      have "tv_sec s1 \<le> clock (Suc k)" using s1(5) up by simp
      from Suc.hyps(1) [OF k(3) s1(2) Suc.prems(2) this k(4)] obtain rs s' where I: "?R (Suc k) s1 rs s'" by blast
      have o: "conn_of s1 i = conn_of s i" if "i \<noteq> k" for i using s1(3) that by (auto simp: others_kept_def)
      have x: "expired s1 i" if "expired s i" "i \<noteq> k" for i
        using that o [OF that(2)] s1(4) by (auto simp: expired_def split: option.splits)
      have sv: "served (tv_sec s) c" if "served (tv_sec s1) c" for c using that s1(4) by (auto simp: served_def)
      have nk: "k \<notin> set rs" using I by auto
      have "?R k s (k # rs) s'"
      proof (intro conjI ballI allI impI)
        show "scan_conns clock kills [k..<n] s = Inr (k # rs, s')" using I Some e s1(1) by (simp add: k(2))
        show "clock_inv l s'" "tv_sec s \<le> tv_sec s'" "lastTimerCheckTime s' = lastTimerCheckTime s"
          using I s1(3,4) by (auto simp: others_kept_def)
        show "distinct (k # rs)" "set (k # rs) \<subseteq> {k..<n}" using I nk k(1) by auto
      next
        fix i assume "k \<le> i \<and> i < n \<and> expired s i"
        then show "i \<in> set (k # rs)" using I x by (cases "i = k") auto
      next
        fix i assume i: "i \<in> set (k # rs)"
        show "\<exists>c. conn_of s i = Some c \<and> hc_expirationTime c \<noteq> 0 \<and> hc_expirationTime c \<le> tv_sec s'"
        proof (cases "i = k")
          case True
          then show ?thesis using Some e I s1(4) by auto
        next
          case False
          then show ?thesis using I i o [OF False] by (metis set_ConsD)
        qed
        show "\<exists>c. conn_of s' i = Some c \<and> served (tv_sec s) c"
        proof (cases "i = k")
          case True
          then show ?thesis using I nk s1(6,7) by auto
        next
          case False
          then show ?thesis using I i sv by auto
        qed
      next
        fix i assume "i \<notin> set (k # rs)"
        then show "conn_of s' i = conn_of s i" using I o by auto
      qed
      then show ?thesis by blast
    qed
  qed
qed

text \<open>The loop over the seconds stops at the first counter that is not zero, if there is one.\<close>

lemma check_from_cases:
  "check_from clock kills i s = scan_conns clock kills [0..<length (allConnects s)] s
   \<or> (check_from clock kills i s = Inr ([], s) \<and> (\<forall>e. i \<le> e \<and> e \<le> tv_sec s \<longrightarrow> numActiveTimers s ! slot e = 0))"
proof (induction clock kills i s rule: check_from.induct)
  case (1 clock kills i s)
  show ?case
  proof (cases "i \<le> tv_sec s \<and> numActiveTimers s ! slot i = 0")
    case True
    then have "check_from clock kills i s = check_from clock kills (i + 1) s" by (subst check_from.simps) simp
    moreover have "(\<forall>e. i \<le> e \<and> e \<le> tv_sec s \<longrightarrow> numActiveTimers s ! slot e = 0)"
      if "\<forall>e. i + 1 \<le> e \<and> e \<le> tv_sec s \<longrightarrow> numActiveTimers s ! slot e = 0"
      using that True by (metis order_le_less zless_imp_add1_zle)
    ultimately show ?thesis using 1 True by auto
  next
    case False
    then show ?thesis by (subst (1 2) check_from.simps) auto
  qed
qed

lemma timers_inv_active:
  assumes "timers_inv s" "conn_of s i = Some c" "hc_expirationTime c \<noteq> 0"
  shows "numActiveTimers s ! slot (hc_expirationTime c) \<noteq> 0"
proof -
  have "i \<in> active s (slot (hc_expirationTime c))" using active_mem [OF assms(2)] assms(3) by simp
  then have "card (active s (slot (hc_expirationTime c))) \<noteq> 0" by (auto simp: card_eq_0_iff)
  then show ?thesis using assms(1) by (simp add: timers_inv_def)
qed

text \<open>What a check does: it runs every timer whose time has come since the last check, no timer
  whose time has not come, and leaves none behind but those of \<open>CGITimeout2\<close>.\<close>

definition checked :: "timers \<Rightarrow> nat list \<Rightarrow> timers \<Rightarrow> bool" where
  "checked s rs s' \<longleftrightarrow> distinct rs \<and> tv_sec s \<le> tv_sec s' \<and> lastTimerCheckTime s' = tv_sec s
     \<and> (\<forall>i c. conn_of s i = Some c \<and> hc_expirationTime c \<noteq> 0 \<and> lastTimerCheckTime s \<le> hc_expirationTime c
          \<and> hc_expirationTime c \<le> tv_sec s \<longrightarrow> i \<in> set rs)
     \<and> (\<forall>i\<in>set rs. \<exists>c. conn_of s i = Some c \<and> hc_expirationTime c \<noteq> 0 \<and> hc_expirationTime c \<le> tv_sec s')
     \<and> (\<forall>i. i \<notin> set rs \<longrightarrow> conn_of s' i = conn_of s i)
     \<and> (\<forall>i c. conn_of s' i = Some c \<longrightarrow> served (tv_sec s) c)"

lemma CheckTimers_ok:
  assumes inv: "clock_inv (lastTimerCheckTime s) s" and clk: "clock_ok clock s" and new: "lastTimerCheckTime s \<noteq> tv_sec s"
  shows "\<exists>rs s'. CheckTimers clock kills s = Inr (rs, s') \<and> checked s rs s' \<and> clock_inv (lastTimerCheckTime s') s'"
proof -
  let ?s = "s\<lparr>lastTimerCheckTime := tv_sec s\<rparr>" and ?l = "lastTimerCheckTime s"
  have co: "conn_of ?s = conn_of s" by (simp add: conn_of_def fun_eq_iff)
  have ck: "CheckTimers clock kills s = check_from clock kills ?l ?s" using new by (simp add: CheckTimers_def)
  have ti: "timers_inv s" using inv by (simp add: clock_inv_def)
  have ok: "timer_ok ?l c" if "conn_of s i = Some c" for i c using inv that by (auto simp: clock_inv_def)
  from check_from_cases [of clock kills ?l ?s] show ?thesis
  proof (elim disjE conjE)
    assume r: "check_from clock kills ?l ?s = scan_conns clock kills [0..<length (allConnects ?s)] ?s"
    have i1: "clock_inv ?l ?s" using inv by (auto simp: clock_inv_def co timers_inv_time)
    from scan_conns_runs [OF i1, of clock 0 "length (allConnects ?s)" kills] clk obtain rs s' where
      r': "check_from clock kills ?l ?s = Inr (rs, s')" "clock_inv ?l s'" "tv_sec s \<le> tv_sec s'"
        "lastTimerCheckTime s' = tv_sec s" "distinct rs"
      and run: "\<And>i. i < length (allConnects s) \<Longrightarrow> expired ?s i \<Longrightarrow> i \<in> set rs"
      and due: "\<forall>i\<in>set rs. \<exists>c. conn_of s i = Some c \<and> hc_expirationTime c \<noteq> 0 \<and> hc_expirationTime c \<le> tv_sec s'"
      and kept: "\<forall>i. i \<notin> set rs \<longrightarrow> conn_of s' i = conn_of s i"
      and svd: "\<forall>i\<in>set rs. \<exists>c. conn_of s' i = Some c \<and> served (tv_sec s) c"
      unfolding r co by (auto simp: clock_ok_def)
    have run': "i \<in> set rs" if "conn_of s i = Some c" "hc_expirationTime c \<noteq> 0" "hc_expirationTime c \<le> tv_sec s" for i c
      using run [of i] conn_of_bound [OF that(1)] that by (simp add: expired_def co)
    have sv: "served (tv_sec s) c" if "conn_of s' i = Some c" for i c
    proof (cases "i \<in> set rs")
      case True
      then show ?thesis using svd that by auto
    next
      case False
      then have "conn_of s i = Some c" using kept that by simp
      then show ?thesis using run' False by (force simp: served_def)
    qed
    have "timer_ok (tv_sec s) c" if "conn_of s' i = Some c" for i c
      using r'(2) that sv [OF that] by (fastforce simp: clock_inv_def timer_ok_def served_def)
    then have "clock_inv (tv_sec s) s'" using r'(2,3) inv by (auto simp: clock_inv_def)
    moreover have "checked s rs s'" using r'(3-5) run' due kept sv by (auto simp: checked_def)
    ultimately show ?thesis using ck r'(1,4) by auto
  next
    assume r: "check_from clock kills ?l ?s = Inr ([], ?s)"
      and z: "\<forall>e. ?l \<le> e \<and> e \<le> tv_sec ?s \<longrightarrow> numActiveTimers ?s ! slot e = 0"
    have late: "tv_sec s < hc_expirationTime c" if "conn_of s i = Some c" "hc_expirationTime c \<noteq> 0" "?l \<le> hc_expirationTime c" for i c
    proof (rule ccontr)
      assume "\<not> tv_sec s < hc_expirationTime c"
      then have "numActiveTimers s ! slot (hc_expirationTime c) = 0" using z that(3) by simp
      then show False using timers_inv_active [OF ti that(1,2)] by simp
    qed
    have sv: "served (tv_sec s) c" if "conn_of s i = Some c" for i c
      using ok [OF that] late [OF that] by (auto simp: timer_ok_def served_def)
    have "timer_ok (tv_sec s) c" if "conn_of s i = Some c" for i c
      using ok [OF that] sv [OF that] by (auto simp: timer_ok_def served_def)
    then have "clock_inv (tv_sec s) ?s" using inv by (auto simp: clock_inv_def co timers_inv_time)
    moreover have "checked s [] ?s" using late sv by (fastforce simp: checked_def co)
    ultimately show ?thesis using ck r by auto
  qed
qed

section \<open>The invariant of the server\<close>

lemma timer_step_inv:
  assumes "timer_step s s'" and "clock_inv (lastTimerCheckTime s) s"
  shows "clock_inv (lastTimerCheckTime s') s'"
  using assms
proof (induction rule: timer_step.induct)
  case (alloc n s c)
  let ?s = "s\<lparr>allConnects := (allConnects s)[n := Some c]\<rparr>"
  have o: "conn_of ?s j = (if j = n then Some c else conn_of s j)" for j using alloc(1) by (simp add: conn_of_upd)
  have "active ?s = active s" using alloc(3,5) by (auto simp: active_def o fun_eq_iff)
  then have "timers_inv ?s" using alloc(6) by (simp add: clock_inv_def timers_inv_def)
  moreover have "conn_of ?s j \<noteq> None" if "j < i" "conn_of ?s i \<noteq> None" for i j
    using that alloc(2,6) unfolding o clock_inv_def by (auto split: if_splits)
  moreover have "timer_ok (lastTimerCheckTime s) x" if "conn_of ?s i = Some x" for i x
    using that alloc(4-6) unfolding o by (auto simp: timer_ok_def clock_inv_def split: if_splits)
  moreover have "0 \<le> lastTimerCheckTime s" "lastTimerCheckTime s \<le> tv_sec s" using alloc(6) by (auto simp: clock_inv_def)
  ultimately show ?case unfolding clock_inv_def by auto
next
  case (accepts s i c d)
  let ?c = "c\<lparr>hc_fd := d, hc_free := False\<rparr>"
  have i: "i < length (allConnects s)" using conn_of_bound [OF accepts(1)] .
  have "timers_inv (s\<lparr>allConnects := (allConnects s)[i := Some ?c]\<rparr>)"
    using accepts(4) by (intro timers_inv_conn [OF _ accepts(1)]) (auto simp: clock_inv_def)
  moreover have "timer_ok (lastTimerCheckTime s) ?c"
    using accepts(1-4) unfolding clock_inv_def by (auto simp: timer_ok_def)
  ultimately have "clock_inv (lastTimerCheckTime s) (s\<lparr>allConnects := (allConnects s)[i := Some ?c]\<rparr>)"
    using accepts(1) i by (intro clock_inv_one [OF accepts(4), of _ i ?c]) (auto simp: others_kept_def conn_of_upd)
  then show ?case by simp
next
  case (times s i c n f s')
  have n: "1 \<le> n" "n < 512" using times(1,3) by (auto simp: SetTimer_def split: if_splits)
  have ti: "timers_inv s'" using SetTimer_inv [OF _ times(3)] times(4) by (simp add: clock_inv_def)
  from SetTimer_effect [OF times(1) n, of f] times(3) obtain c' where
    c': "conn_of s' i = Some c'" "hc_expirationTime c' = tv_sec s + n" "hc_fd c' = hc_fd c" "hc_free c' = hc_free c"
    "others_kept i s s'" "tv_sec s' = tv_sec s" by (metis Inr_inject)
  have "timer_ok (lastTimerCheckTime s) c'"
    using times(1,2,4) c'(2-4) n by (auto simp: timer_ok_def clock_inv_def)
  then show ?case using clock_inv_one [OF times(4) ti c'(5) _ _ c'(1)] times(1) c'(5,6) by (simp add: others_kept_def)
next
  case (gives_up s i c p force s')
  have ti: "timers_inv s" using gives_up(4) by (simp add: clock_inv_def)
  show ?case
  proof (cases "p \<and> \<not> force")
    case True
    have fd: "hc_fd c \<noteq> -1" using gives_up(1,2,4) by (auto simp: clock_inv_def timer_ok_def)
    then have st: "SetTimer i IDLEC_TIMELIMIT Idle_Timeout s = Inr s'" using gives_up(1,3) True by (simp add: DoneWithConnection_def)
    have n: "(1::int) \<le> 500" "(500::int) < 512" by simp_all
    from SetTimer_effect [OF gives_up(1) n, of Idle_Timeout] st obtain c' where
      c': "conn_of s' i = Some c'" "hc_expirationTime c' = tv_sec s + 500" "hc_fd c' = hc_fd c" "hc_free c' = hc_free c"
      "others_kept i s s'" "tv_sec s' = tv_sec s" by (metis Inr_inject)
    have "timers_inv s'" using SetTimer_inv [OF ti st] gives_up(4) by (simp add: clock_inv_def)
    moreover have "timer_ok (lastTimerCheckTime s) c'"
      using gives_up(2,4) c'(2-4) fd by (auto simp: timer_ok_def clock_inv_def)
    ultimately show ?thesis using clock_inv_one [OF gives_up(4) _ c'(5) _ _ c'(1)] gives_up(1) c'(5,6) by (simp add: others_kept_def)
  next
    case False
    have fd: "hc_fd c \<noteq> -1" using gives_up(1,2,4) by (auto simp: clock_inv_def timer_ok_def)
    have "DoneWithConnection p i force s = DoneWithConnection p i True s"
      using False gives_up(1) by (auto simp: DoneWithConnection_def)
    with DoneWithConnection_close [OF ti gives_up(1) fd, of p] gives_up(3) obtain
      "timers_inv s'" "others_kept i s s'" "tv_sec s' = tv_sec s"
      "conn_of s' i = Some (c\<lparr>hc_fd := -1, hc_free := True, hc_expirationTime := 0\<rparr>)" by (metis Inr_inject)
    then show ?thesis using clock_inv_one [OF gives_up(4), of s' i] gives_up(1) by (simp add: others_kept_def timer_ok_def)
  qed
next
  case (tick s t)
  have "conn_of (s\<lparr>tv_sec := t\<rparr>) = conn_of s" by (simp add: conn_of_def fun_eq_iff)
  with tick show ?case by (auto simp: clock_inv_def timers_inv_time)
next
  case (check clock s kills rs s')
  show ?case
  proof (cases "lastTimerCheckTime s = tv_sec s")
    case True
    then show ?thesis using check by (simp add: CheckTimers_def)
  next
    case False
    from CheckTimers_ok [OF check(3,1) False, of kills] check(2) show ?thesis by auto
  qed
qed

lemma timer_reach_inv: "timer_reach m now s \<Longrightarrow> clock_inv (lastTimerCheckTime s) s"
proof (induction rule: timer_reach.induct)
  case init
  then show ?case using timers_init_inv [of now m] by (simp add: timers_init_def)
next
  case (step s s')
  then show ?case using timer_step_inv by blast
qed

section \<open>An example run\<close>

text \<open>A connection is allocated and accepted at second 100 and timed for three seconds.\<close>

lemma demo_timed:
  "\<exists>s c. timer_reach 2 100 s \<and> conn_of s 0 = Some c \<and> hc_expirationTime c = 103 \<and> hc_expireFunc c = Idle_Timeout
    \<and> tv_sec s = 104 \<and> lastTimerCheckTime s = 100"
proof -
  let ?s0 = "timers_init 2 100"
  let ?c0 = "\<lparr>hc_fd = 0, hc_free = True, hc_expirationTime = 0, hc_expireFunc = Idle_Timeout\<rparr>"
  let ?s1 = "?s0\<lparr>allConnects := (allConnects ?s0)[0 := Some ?c0]\<rparr>"
  let ?c1 = "?c0\<lparr>hc_fd := 7, hc_free := False\<rparr>"
  let ?s2 = "?s1\<lparr>allConnects := (allConnects ?s1)[0 := Some ?c1]\<rparr>"
  have 1: "timer_step ?s0 ?s1" by (rule alloc) (simp_all add: timers_init_def conn_of_def)
  have 2: "timer_step ?s1 ?s2" by (rule accepts) (simp_all add: timers_init_def conn_of_def)
  have c2: "conn_of ?s2 0 = Some ?c1" by (simp add: timers_init_def conn_of_def)
  obtain s3 where s3: "SetTimer 0 3 Idle_Timeout ?s2 = Inr s3"
    "conn_of s3 0 = Some (?c1\<lparr>hc_expirationTime := 103\<rparr>)" "tv_sec s3 = 100" "lastTimerCheckTime s3 = 100"
    by (simp add: SetTimer_def conn_of_def timers_init_def bump_def Let_def)
  have 3: "timer_step ?s2 s3" by (rule times [OF c2 _ s3(1)]) simp
  have 4: "timer_step s3 (s3\<lparr>tv_sec := 104\<rparr>)" by (rule tick) (simp add: s3(3))
  have "timer_reach 2 100 (s3\<lparr>tv_sec := 104\<rparr>)"
    by (rule timer_reach.step [OF timer_reach.step [OF timer_reach.step [OF timer_reach.step [OF timer_reach.init 1] 2] 3] 4]) simp
  then show ?thesis using s3(2,4) by (intro exI [of _ "s3\<lparr>tv_sec := 104\<rparr>"]) (auto simp: conn_of_def)
qed

end
