(* ===== verification/Hash_Chain.thy ===== *)
theory Hash_Chain
  imports Linked_List
begin

text \<open>
  Chains of hash tables in which the backward link of an entry points to the pointer that leads to it:
  the head of a chain or the forward link of another entry. The caches of flash are built from
  them. \<open>hash_chains\<close> is what taking entries out and putting them in front needs of the store.
\<close>

datatype ('b, 'n) link = HeadOf 'b | NextOf 'n

section \<open>One chain\<close>

fun hashed :: "('n \<Rightarrow> 'n option) \<Rightarrow> ('n \<Rightarrow> ('b, 'n) link option) \<Rightarrow> ('b, 'n) link \<Rightarrow> 'n option \<Rightarrow> 'n list \<Rightarrow> bool" where
  "hashed nx pv l p [] = (p = None)"
| "hashed nx pv l p (x # xs) = (p = Some x \<and> pv x = Some l \<and> hashed nx pv (NextOf x) (nx x) xs)"

text \<open>The first entry, and the pointer that leads to the entry behind \<open>xs\<close>.\<close>

definition first :: "'n list \<Rightarrow> 'n option" where
  "first xs = (if xs = [] then None else Some (hd xs))"

lemma first_simps [simp]: "first [] = None" "first (x # xs) = Some x"
  by (simp_all add: first_def)

definition link_after :: "('b, 'n) link \<Rightarrow> 'n list \<Rightarrow> ('b, 'n) link" where
  "link_after l xs = (if xs = [] then l else NextOf (last xs))"

lemma hashed_cong:
  "(\<And>x. x \<in> set xs \<Longrightarrow> nx' x = nx x) \<Longrightarrow> (\<And>x. x \<in> set xs \<Longrightarrow> pv' x = pv x) \<Longrightarrow>
   hashed nx' pv' l p xs = hashed nx pv l p xs"
  by (induction xs arbitrary: l p) auto

lemma hashed_nx [simp]: "x \<notin> set xs \<Longrightarrow> hashed (nx(x := v)) pv l p xs = hashed nx pv l p xs"
  by (rule hashed_cong) auto

lemma hashed_pv [simp]: "x \<notin> set xs \<Longrightarrow> hashed nx (pv(x := v)) l p xs = hashed nx pv l p xs"
  by (rule hashed_cong) auto

lemma hashed_first: "hashed nx pv l p xs \<Longrightarrow> p = first xs"
  by (cases xs) (auto simp: first_def)

text \<open>Only the backward link of the first entry depends on where the chain hangs.\<close>

lemma hashed_relink:
  assumes "hashed nx pv l p ys" and "distinct ys"
  shows "hashed nx (if ys = [] then pv else pv(hd ys := Some l')) l' p ys"
  using assms by (cases ys) auto

text \<open>An entry is taken out.\<close>

lemma hashed_unlink:
  assumes "hashed nx pv l p (xs @ x # ys)" and "distinct (xs @ x # ys)"
  shows "pv x = Some (link_after l xs)" and "nx x = first ys"
    and "hashed (if xs = [] then nx else nx(last xs := nx x)) (if ys = [] then pv else pv(hd ys := pv x)) l
           (if xs = [] then nx x else p) (xs @ ys)"
  using assms
proof (induction xs arbitrary: l p)
  case Nil
  { case 1 then show ?case by (simp add: link_after_def) }
  { case 2 then show ?case by (auto dest: hashed_first) }
  { case 3 then show ?case using hashed_relink [of nx pv "NextOf x" "nx x" ys l] by (cases "ys = []") (simp_all add: fun_upd_def) }
next
  case (Cons a xs)
  { case 1 then show ?case using Cons.IH(1) [of "NextOf a" "nx a"] by (auto simp: link_after_def) }
  { case 2 then show ?case using Cons.IH(2) [of "NextOf a" "nx a"] by auto }
  { case 3
    then have h: "hashed nx pv (NextOf a) (nx a) (xs @ x # ys)" "distinct (xs @ x # ys)" and a: "p = Some a" "pv a = Some l"
      and n: "a \<noteq> x" "a \<notin> set xs" "a \<notin> set ys" by auto
    have d: "ys \<noteq> [] \<Longrightarrow> hd ys \<noteq> a" "xs \<noteq> [] \<Longrightarrow> last xs \<noteq> a" using n by auto
    from Cons.IH(3) [OF h] show ?case using a n d
      by (cases "xs = []"; cases "ys = []") (simp_all add: fun_upd_def [symmetric]) }
qed

text \<open>An entry is put in front.\<close>

lemma hashed_push:
  assumes "hashed nx pv l p xs" and "x \<notin> set xs" and "distinct xs"
  shows "hashed (nx(x := p)) ((if xs = [] then pv else pv(hd xs := Some (NextOf x)))(x := Some l)) l (Some x) (x # xs)"
  using hashed_relink [OF assms(1,3), of "NextOf x"] assms(2) by simp

text \<open>The entries of a chain are determined by its links.\<close>

lemma hashed_unique: "hashed nx pv l p xs \<Longrightarrow> hashed nx pv l' p ys \<Longrightarrow> xs = ys"
proof (induction xs arbitrary: l l' p ys)
  case Nil
  then show ?case by (cases ys) auto
next
  case (Cons x xs)
  then show ?case by (cases ys) auto
qed

section \<open>A table of chains\<close>

text \<open>The chains are disjoint, and their entries are allocated.\<close>

definition resident :: "('b \<Rightarrow> 'n list) \<Rightarrow> 'n set" where
  "resident cs = (\<Union>B. set (cs B))"

definition chains ::
  "('n \<Rightarrow> 'n option) \<Rightarrow> ('n \<Rightarrow> ('b, 'n) link option) \<Rightarrow> ('b \<Rightarrow> 'n option) \<Rightarrow> ('n \<Rightarrow> bool) \<Rightarrow> ('b \<Rightarrow> 'n list) \<Rightarrow> bool" where
  "chains nx pv ht al cs \<longleftrightarrow> (\<forall>B. hashed nx pv (HeadOf B) (ht B) (cs B)) \<and> (\<forall>B. distinct (cs B))
     \<and> (\<forall>B B'. B \<noteq> B' \<longrightarrow> set (cs B) \<inter> set (cs B') = {}) \<and> (\<forall>p\<in>resident cs. al p)"

lemma residentI: "p \<in> set (cs B) \<Longrightarrow> p \<in> resident cs"
  by (auto simp: resident_def)

lemma chains_ht: "chains nx pv ht al cs \<Longrightarrow> ht B = first (cs B)"
  unfolding chains_def by (metis hashed_first)

lemma chains_alive: "chains nx pv ht al cs \<Longrightarrow> p \<in> set (cs B) \<Longrightarrow> al p"
  unfolding chains_def by (meson residentI)

lemma chains_resident:
  assumes "chains nx pv ht al cs"
  shows "p \<in> set (cs B) \<Longrightarrow> resident (cs(B := remove1 p (cs B))) = resident cs - {p}"
    and "resident (cs(B := p # cs B)) = insert p (resident cs)"
proof -
  assume p: "p \<in> set (cs B)"
  have d: "distinct (cs B)" and o: "\<And>C. C \<noteq> B \<Longrightarrow> p \<notin> set (cs C)" using assms p unfolding chains_def by blast+
  then show "resident (cs(B := remove1 p (cs B))) = resident cs - {p}"
    by (auto simp: resident_def split: if_splits)
next
  show "resident (cs(B := p # cs B)) = insert p (resident cs)" by (auto simp: resident_def split: if_splits)
qed

text \<open>Entries that are in no chain do not matter.\<close>

lemma chains_cong:
  assumes "\<And>p. p \<in> resident cs \<Longrightarrow> nx' p = nx p \<and> pv' p = pv p \<and> al' p = al p"
  shows "chains nx' pv' ht al' cs = chains nx pv ht al cs"
proof -
  have "hashed nx' pv' l q (cs B) = hashed nx pv l q (cs B)" for B l q
    by (rule hashed_cong) (use assms residentI in \<open>metis+\<close>)
  then show ?thesis using assms by (simp add: chains_def)
qed

lemma chains_links:
  assumes b: "chains nx pv ht al cs" and c: "cs B = as @ p # bs"
  shows "pv p = Some (link_after (HeadOf B) as)" "nx p = first bs"
    "as \<noteq> [] \<Longrightarrow> al (last as) \<and> last as \<noteq> p" "bs \<noteq> [] \<Longrightarrow> al (hd bs) \<and> hd bs \<noteq> p" "al p"
    "as \<noteq> [] \<Longrightarrow> bs \<noteq> [] \<Longrightarrow> last as \<noteq> hd bs"
proof -
  have h: "hashed nx pv (HeadOf B) (ht B) (as @ p # bs)" and d: "distinct (as @ p # bs)"
    using b c by (metis chains_def)+
  show "pv p = Some (link_after (HeadOf B) as)" "nx p = first bs" using hashed_unlink [OF h d] by auto
  have "q \<in> set (cs B) \<Longrightarrow> al q" for q using chains_alive [OF b] .
  then show "as \<noteq> [] \<Longrightarrow> al (last as) \<and> last as \<noteq> p" "bs \<noteq> [] \<Longrightarrow> al (hd bs) \<and> hd bs \<noteq> p" "al p"
    using d c by auto
  show "as \<noteq> [] \<Longrightarrow> bs \<noteq> [] \<Longrightarrow> last as \<noteq> hd bs"
    using d by (metis disjoint_iff distinct_append hd_in_set last_in_set set_subset_Cons subsetD)
qed

lemma chains_unlink:
  assumes b: "chains nx pv ht al cs" and c: "cs B = as @ p # bs"
  shows "chains (if as = [] then nx else nx(last as := nx p)) (if bs = [] then pv else pv(hd bs := pv p))
    (if as = [] then ht(B := nx p) else ht) al (cs(B := as @ bs))"
proof -
  let ?nx = "if as = [] then nx else nx(last as := nx p)" let ?pv = "if bs = [] then pv else pv(hd bs := pv p)"
  let ?ht = "if as = [] then ht(B := nx p) else ht" let ?c = "cs(B := as @ bs)"
  have h: "hashed nx pv (HeadOf C) (ht C) (cs C)" and o: "C \<noteq> D \<Longrightarrow> set (cs C) \<inter> set (cs D) = {}" for C D
    using b unfolding chains_def by blast+
  have d: "distinct (as @ p # bs)" using b c by (metis chains_def)
  have "hashed ?nx ?pv (HeadOf C) (?ht C) (?c C)" for C
  proof (cases "C = B")
    case True
    then show ?thesis using hashed_unlink(3) [OF h [of B, unfolded c] d] by (cases "as = []"; cases "bs = []") simp_all
  next
    case False
    have "as \<noteq> [] \<Longrightarrow> last as \<in> set (cs B)" "bs \<noteq> [] \<Longrightarrow> hd bs \<in> set (cs B)" using c by simp_all
    then have n: "as \<noteq> [] \<Longrightarrow> last as \<notin> set (cs C)" "bs \<noteq> [] \<Longrightarrow> hd bs \<notin> set (cs C)" using o [OF False] by blast+
    have "hashed ?nx ?pv (HeadOf C) (ht C) (cs C) = hashed nx pv (HeadOf C) (ht C) (cs C)"
      by (rule hashed_cong) (use n in auto)
    moreover have "?ht C = ht C" "?c C = cs C" using False by simp_all
    ultimately show ?thesis using h [of C] by presburger
  qed
  moreover have "resident ?c \<subseteq> resident cs" using c by (auto simp: resident_def split: if_splits)
  moreover have sub: "set (?c C) \<subseteq> set (cs C)" for C using c by auto
  have "set (?c C) \<inter> set (?c D) = {}" if "C \<noteq> D" for C D using o [OF that] sub [of C] sub [of D] by blast
  moreover have "\<forall>q\<in>resident cs. al q" using b by (simp add: chains_def)
  moreover have "distinct (?c C)" for C using b d by (cases "C = B") (simp_all add: chains_def)
  ultimately show ?thesis unfolding chains_def by (simp only: subset_iff) blast
qed

lemma chains_push:
  assumes b: "chains nx pv ht al cs" and p: "al p" "p \<notin> resident cs"
  shows "chains (nx(p := ht B)) ((if cs B = [] then pv else pv(hd (cs B) := Some (NextOf p)))(p := Some (HeadOf B)))
    (ht(B := Some p)) al (cs(B := p # cs B))"
proof -
  let ?nx = "nx(p := ht B)" let ?pv = "(if cs B = [] then pv else pv(hd (cs B) := Some (NextOf p)))(p := Some (HeadOf B))"
  have h: "\<And>C. hashed nx pv (HeadOf C) (ht C) (cs C)" and d: "\<And>C. distinct (cs C)"
    and o: "\<And>C D. C \<noteq> D \<Longrightarrow> set (cs C) \<inter> set (cs D) = {}" using b unfolding chains_def by blast+
  have n: "p \<notin> set (cs C)" for C using p(2) residentI by metis
  have "hashed ?nx ?pv (HeadOf C) ((ht(B := Some p)) C) ((cs(B := p # cs B)) C)" for C
  proof (cases "C = B")
    case True
    then show ?thesis using hashed_push [OF h [of B] n d] by simp
  next
    case False
    then have "cs B \<noteq> [] \<Longrightarrow> hd (cs B) \<notin> set (cs C)" using o [of C B] by (meson disjoint_iff hd_in_set)
    then have "hashed ?nx ?pv (HeadOf C) (ht C) (cs C) = hashed nx pv (HeadOf C) (ht C) (cs C)"
      by (intro hashed_cong) (use n in auto)
    then show ?thesis using h [of C] False by simp
  qed
  moreover have "resident (cs(B := p # cs B)) \<subseteq> insert p (resident cs)" by (auto simp: resident_def split: if_splits)
  moreover have "set ((cs(B := p # cs B)) C) \<inter> set ((cs(B := p # cs B)) D) = {}" if "C \<noteq> D" for C D
    using o [OF that] n [of C] n [of D] that by auto
  moreover have "distinct ((cs(B := p # cs B)) C)" for C using d n by auto
  moreover have "\<forall>q\<in>resident cs. al q" using b by (simp add: chains_def)
  ultimately show ?thesis unfolding chains_def using p(1) by (simp only: subset_iff insert_iff) blast
qed

section \<open>Chains in a store\<close>

locale hash_chains =
  fixes nx :: "'s \<Rightarrow> 'n \<Rightarrow> 'n option" and pv :: "'s \<Rightarrow> 'n \<Rightarrow> ('b, 'n) link option" and ht :: "'s \<Rightarrow> 'b \<Rightarrow> 'n option"
    and set_nx :: "'n \<Rightarrow> 'n option \<Rightarrow> 's \<Rightarrow> 's" and set_pv :: "'n \<Rightarrow> ('b, 'n) link option \<Rightarrow> 's \<Rightarrow> 's"
    and set_top :: "'b \<Rightarrow> 'n option \<Rightarrow> 's \<Rightarrow> 's" and alive :: "'s \<Rightarrow> 'n \<Rightarrow> bool"
  assumes nx_set_nx: "alive s x \<Longrightarrow> nx (set_nx x p s) = (nx s)(x := p)" and pv_set_nx: "pv (set_nx x p s) = pv s"
    and top_set_nx: "ht (set_nx x p s) = ht s" and alive_set_nx: "alive (set_nx x p s) = alive s"
    and nx_set_pv: "nx (set_pv x l s) = nx s" and pv_set_pv: "alive s x \<Longrightarrow> pv (set_pv x l s) = (pv s)(x := l)"
    and top_set_pv: "ht (set_pv x l s) = ht s" and alive_set_pv: "alive (set_pv x l s) = alive s"
    and nx_set_top: "nx (set_top B p s) = nx s" and pv_set_top: "pv (set_top B p s) = pv s"
    and top_set_top: "ht (set_top B p s) = (ht s)(B := p)" and alive_set_top: "alive (set_top B p s) = alive s"
begin

lemmas store_simps = nx_set_nx pv_set_nx top_set_nx alive_set_nx nx_set_pv pv_set_pv top_set_pv alive_set_pv
  nx_set_top pv_set_top top_set_top alive_set_top

definition rep :: "'s \<Rightarrow> ('b \<Rightarrow> 'n list) \<Rightarrow> bool" where
  "rep s cs \<longleftrightarrow> chains (nx s) (pv s) (ht s) (alive s) cs"

text \<open>An entry taken out, and one put in front.\<close>

definition unlinked :: "'n \<Rightarrow> 's \<Rightarrow> 's" where
  "unlinked p s =
     (let s1 = (case pv s p of Some (HeadOf B) \<Rightarrow> set_top B (nx s p) s | Some (NextOf q) \<Rightarrow> set_nx q (nx s p) s | None \<Rightarrow> s) in
      case nx s p of None \<Rightarrow> s1 | Some n \<Rightarrow> set_pv n (pv s p) s1)"

definition pushed :: "'n \<Rightarrow> 'b \<Rightarrow> 's \<Rightarrow> 's" where
  "pushed p B s =
     (let s1 = (case ht s B of None \<Rightarrow> s | Some q \<Rightarrow> set_pv q (Some (NextOf p)) s) in
      set_top B (Some p) (set_pv p (Some (HeadOf B)) (set_nx p (ht s B) s1)))"

lemma unlinked_alive: "alive (unlinked p s) = alive s"
  by (simp add: unlinked_def Let_def store_simps split: option.splits link.splits)

lemma pushed_alive: "alive (pushed p B s) = alive s"
  by (simp add: pushed_def Let_def store_simps split: option.splits)

lemma unlinked_rep:
  assumes b: "rep s cs" and p: "p \<in> set (cs B)"
  shows "rep (unlinked p s) (cs(B := remove1 p (cs B)))"
proof -
  obtain as bs where c: "cs B = as @ p # bs" and np: "p \<notin> set as" using p by (auto dest: split_list_first)
  then have rm: "remove1 p (cs B) = as @ bs" by (simp add: remove1_append)
  note l = chains_links [OF b [unfolded rep_def] c]
  have "nx (unlinked p s) = (if as = [] then nx s else (nx s)(last as := nx s p))"
    "pv (unlinked p s) = (if bs = [] then pv s else (pv s)(hd bs := pv s p))"
    "ht (unlinked p s) = (if as = [] then (ht s)(B := nx s p) else ht s)"
    using l by (auto simp: unlinked_def Let_def link_after_def first_def store_simps)
  then show ?thesis using chains_unlink [OF b [unfolded rep_def] c] by (simp add: rep_def rm unlinked_alive)
qed

lemma pushed_rep:
  assumes b: "rep s cs" and p: "alive s p" "p \<notin> resident cs"
  shows "rep (pushed p B s) (cs(B := p # cs B))"
proof -
  have f: "ht s B = first (cs B)" using chains_ht [OF b [unfolded rep_def]] .
  have a: "cs B \<noteq> [] \<Longrightarrow> alive s (hd (cs B))" using chains_alive [OF b [unfolded rep_def], of "hd (cs B)" B] by simp
  have "nx (pushed p B s) = (nx s)(p := ht s B)" "ht (pushed p B s) = (ht s)(B := Some p)"
    "pv (pushed p B s) = (if cs B = [] then pv s else (pv s)(hd (cs B) := Some (NextOf p)))(p := Some (HeadOf B))"
    using f a p(1) by (auto simp: pushed_def first_def store_simps)
  then show ?thesis using chains_push [OF b [unfolded rep_def] p] by (simp add: rep_def pushed_alive)
qed

end

end
