(* ===== verification/Flash_Hotname.thy ===== *)
theory Flash_Hotname
  imports Hash_Chain "HOL-Library.Word"
begin

text \<open>
  The cache of translated file names of \<open>flash_server/hotname.c\<close>: a hash table of entries for plain
  names and one for CGI programs, chained through the entries, and a list of the entries that no
  connection refers to, most recently released first. A pointer to an entry is a number, the
  allocated entries are the domain of \<open>hnes\<close>. The field \<open>hne_prev\<close> of an entry points to the
  pointer that points to it: the head of a bin or the field \<open>hne_next\<close> of another entry. Reference
  counts, statistics and times are unbounded numbers here: the first are at most the number of
  connections, and a time is a \<open>long\<close>.
\<close>

unbundle bit_operations_syntax

section \<open>Data\<close>

datatype bin = NameBin nat | CgiBin nat      \<comment> \<open>a place of \<open>hotNames\<close>, of \<open>hotCGIs\<close>\<close>

type_synonym hne_link = "(bin, nat) link"     \<comment> \<open>\<open>&hb_head\<close> of a bin, \<open>&hne_next\<close> of an entry\<close>

datatype HotNameTypes = HNT_FILE | HNT_REDIRECT | HNT_LS

record HotNameEntry =
  hne_refCount :: int
  hne_encoded :: "string option"
  hne_time :: int
  hne_next :: "nat option"
  hne_prev :: "hne_link option"
  hne_stripped :: "string option"
  hne_expanded :: "string option"
  hne_maxEncoded :: int
  hne_maxStripped :: int
  hne_maxExpanded :: int
  hne_type :: HotNameTypes
  hne_modTime :: int
  hne_nextMRU :: "nat option"
  hne_prevMRU :: "nat option"

record HotBin =
  hb_head :: "nat option"
  hb_time :: int

record hotnames =
  hnes :: "nat \<Rightarrow> HotNameEntry option"
  hot_bins :: "bin \<Rightarrow> HotBin"
  numTotalHNEs :: int
  headMRU :: "nat option"
  tailMRU :: "nat option"
  cs_numHotNameChecks :: int
  cs_numHotNameHits :: int
  cs_numHotNameWalks :: int
  scrambledNumbers :: "32 word list"         \<comment> \<open>256 random numbers, set at the start\<close>
  hn_now :: int                              \<comment> \<open>\<open>globalTimeOfDay.tv_sec\<close>\<close>

abbreviation (input) NAMECACHELIFETIME :: int where "NAMECACHELIFETIME \<equiv> 600"

section \<open>Access to entries\<close>

definition hne_at :: "nat \<Rightarrow> hotnames \<Rightarrow> HotNameEntry res" where
  "hne_at p s = (case hnes s p of None \<Rightarrow> Inl UseAfterFree | Some e \<Rightarrow> Inr e)"

definition upd_hne :: "nat \<Rightarrow> (HotNameEntry \<Rightarrow> HotNameEntry) \<Rightarrow> hotnames \<Rightarrow> hotnames" where
  "upd_hne p f s = s\<lparr>hnes := (hnes s)(p := map_option f (hnes s p))\<rparr>"

definition put_hne :: "nat \<Rightarrow> (HotNameEntry \<Rightarrow> HotNameEntry) \<Rightarrow> hotnames \<Rightarrow> hotnames res" where
  "put_hne p f s = (if hnes s p = None then Inl UseAfterFree else Inr (upd_hne p f s))"

definition set_head :: "bin \<Rightarrow> nat option \<Rightarrow> hotnames \<Rightarrow> hotnames" where
  "set_head B v s = s\<lparr>hot_bins := (hot_bins s)(B := (hot_bins s B)\<lparr>hb_head := v\<rparr>)\<rparr>"

definition set_time :: "bin \<Rightarrow> int \<Rightarrow> hotnames \<Rightarrow> hotnames" where
  "set_time B v s = s\<lparr>hot_bins := (hot_bins s)(B := (hot_bins s B)\<lparr>hb_time := v\<rparr>)\<rparr>"

text \<open>\<open>*link = v\<close>\<close>

fun put_link :: "hne_link option \<Rightarrow> nat option \<Rightarrow> hotnames \<Rightarrow> hotnames res" where
  "put_link None v s = Inl NullDeref"
| "put_link (Some (HeadOf B)) v s = Inr (set_head B v s)"
| "put_link (Some (NextOf p)) v s = put_hne p (\<lambda>e. e\<lparr>hne_next := v\<rparr>) s"

text \<open>\<open>if (p) p->... = ...\<close>\<close>

fun put_if :: "nat option \<Rightarrow> (HotNameEntry \<Rightarrow> HotNameEntry) \<Rightarrow> hotnames \<Rightarrow> hotnames res" where
  "put_if None f s = Inr s"
| "put_if (Some p) f s = put_hne p f s"

section \<open>Operations\<close>

subsection \<open>The list of unreferenced entries\<close>

definition RemoveFromMRU :: "nat \<Rightarrow> hotnames \<Rightarrow> hotnames res" where
  "RemoveFromMRU h s =
     rbind (hne_at h s) (\<lambda>e.
     if hne_refCount e \<noteq> 0 then Inl AssertFail
     else
       rbind (case hne_prevMRU e of
                Some p \<Rightarrow> put_hne p (\<lambda>f. f\<lparr>hne_nextMRU := hne_nextMRU e\<rparr>) s
              | None \<Rightarrow> Inr (s\<lparr>headMRU := hne_nextMRU e\<rparr>)) (\<lambda>s1.
       rbind (hne_at h s1) (\<lambda>e1.
       case hne_nextMRU e1 of
         Some n \<Rightarrow> put_hne n (\<lambda>f. f\<lparr>hne_prevMRU := hne_prevMRU e1\<rparr>) s1
       | None \<Rightarrow> Inr (s1\<lparr>tailMRU := hne_prevMRU e1\<rparr>))))"

definition AddToMRU :: "nat \<Rightarrow> hotnames \<Rightarrow> hotnames res" where
  "AddToMRU h s =
     rbind (hne_at h s) (\<lambda>e.
     if hne_refCount e \<noteq> 0 then Inl AssertFail
     else
       rbind (put_hne h (\<lambda>f. f\<lparr>hne_nextMRU := headMRU s, hne_prevMRU := None\<rparr>) s) (\<lambda>s1.
       rbind (case headMRU s1 of
                Some q \<Rightarrow> put_hne q (\<lambda>f. f\<lparr>hne_prevMRU := Some h\<rparr>) s1
              | None \<Rightarrow> Inr (s1\<lparr>tailMRU := Some h\<rparr>)) (\<lambda>s2.
       Inr (s2\<lparr>headMRU := Some h\<rparr>))))"

subsection \<open>Hashing\<close>

text \<open>The sums are those of 32-bit registers, and \<open>>>\<close> is the arithmetic shift.\<close>

fun string_hash :: "32 word list \<Rightarrow> 32 word \<Rightarrow> 32 word \<Rightarrow> string \<Rightarrow> 32 word" where
  "string_hash tab j val [] = val"
| "string_hash tab j val (c # cs) =
     string_hash tab (j + 163) (val + tab ! unat ((j + of_char c) AND 0xFF)) cs"

definition GenericStringHash :: "32 word list \<Rightarrow> string \<Rightarrow> 32 word" where
  "GenericStringHash tab str = string_hash tab 0 0 str"

definition HotNameHash :: "hotnames \<Rightarrow> string \<Rightarrow> nat" where
  "HotNameHash s encoded =
     (let val = GenericStringHash (scrambledNumbers s) encoded;
          val1 = val + (signed_drop_bit 10 val + signed_drop_bit 20 val) in
      unat (val1 AND 1023))"

subsection \<open>Removal\<close>

text \<open>The entry is unlinked and freed; its successor is the result.\<close>

definition RemoveHotNameEntry :: "nat \<Rightarrow> hotnames \<Rightarrow> (nat option \<times> hotnames) res" where
  "RemoveHotNameEntry temp s =
     (let s0 = s\<lparr>numTotalHNEs := numTotalHNEs s - 1\<rparr> in
      rbind (hne_at temp s0) (\<lambda>del.
      rbind (put_link (hne_prev del) (hne_next del) s0) (\<lambda>s1.
      rbind (put_if (hne_next del) (\<lambda>f. f\<lparr>hne_prev := hne_prev del\<rparr>) s1) (\<lambda>s2.
      Inr (hne_next del, s2\<lparr>hnes := (hnes s2)(temp := None)\<rparr>)))))"

text \<open>The walk along a bin; \<open>None\<close> is a walk that does not end.\<close>

partial_function (option) remove_old :: "nat option \<Rightarrow> hotnames \<Rightarrow> hotnames res option" where
  "remove_old entry s =
     (case entry of
        None \<Rightarrow> Some (Inr s)
      | Some p \<Rightarrow>
          (case hne_at p s of
             Inl u \<Rightarrow> Some (Inl u)
           | Inr e \<Rightarrow>
               if hne_refCount e = 0 \<and> hn_now s - hne_time e > NAMECACHELIFETIME
               then (case rbind (RemoveFromMRU p s) (RemoveHotNameEntry p) of
                       Inl u \<Rightarrow> Some (Inl u)
                     | Inr (n, s1) \<Rightarrow> remove_old n s1)
               else remove_old (hne_next e) s))"

definition RemoveOldEntriesInBin :: "nat \<Rightarrow> hotnames \<Rightarrow> hotnames res option" where
  "RemoveOldEntriesInBin b s =
     map_option (\<lambda>r. rbind r (\<lambda>s1. Inr (set_time (NameBin b) (hn_now s1) s1)))
       (remove_old (hb_head (hot_bins s (NameBin b))) s)"

subsection \<open>Lookup of a name\<close>

definition add_walks :: "int \<Rightarrow> hotnames \<Rightarrow> hotnames" where
  "add_walks n s = s\<lparr>cs_numHotNameWalks := cs_numHotNameWalks s + n\<rparr>"

text \<open>The entry goes to the front of its bin.\<close>

definition move_to_front :: "nat \<Rightarrow> bin \<Rightarrow> hotnames \<Rightarrow> hotnames res" where
  "move_to_front p B s =
     (if hb_head (hot_bins s B) = Some p then Inr s
      else
        rbind (hne_at p s) (\<lambda>e.
        rbind (put_if (hne_next e) (\<lambda>f. f\<lparr>hne_prev := hne_prev e\<rparr>) s) (\<lambda>s1.
        rbind (hne_at p s1) (\<lambda>e1.
        rbind (put_link (hne_prev e1) (hne_next e1) s1) (\<lambda>s2.
        rbind (put_if (hb_head (hot_bins s2 B)) (\<lambda>f. f\<lparr>hne_prev := Some (NextOf p)\<rparr>) s2) (\<lambda>s3.
        rbind (put_hne p (\<lambda>f. f\<lparr>hne_next := hb_head (hot_bins s3 B), hne_prev := Some (HeadOf B)\<rparr>) s3) (\<lambda>s4.
        Inr (set_head B (Some p) s4))))))))"

text \<open>What happens to the entry whose name matches.\<close>

definition use_entry :: "nat \<Rightarrow> HotNameEntry \<Rightarrow> bin \<Rightarrow> int \<Rightarrow> hotnames \<Rightarrow> (nat option \<times> hotnames) res" where
  "use_entry p e B numWalked s =
     (if hn_now s - hne_time e > NAMECACHELIFETIME then
        (if hne_refCount e = 0
         then rbind (rbind (RemoveFromMRU p s) (RemoveHotNameEntry p)) (\<lambda>(n, s1). Inr (None, add_walks numWalked s1))
         else Inr (None, add_walks numWalked s))
      else
        rbind (if hne_refCount e = 0 then RemoveFromMRU p s else Inr s) (\<lambda>s1.
        rbind (put_hne p (\<lambda>f. f\<lparr>hne_refCount := hne_refCount f + 1\<rparr>) s1) (\<lambda>s2.
        rbind (move_to_front p B s2) (\<lambda>s3.
        Inr (Some p, add_walks numWalked (s3\<lparr>cs_numHotNameHits := cs_numHotNameHits s3 + 1\<rparr>))))))"

partial_function (option) find_entry ::
  "string \<Rightarrow> bin \<Rightarrow> nat option \<Rightarrow> int \<Rightarrow> hotnames \<Rightarrow> (nat option \<times> hotnames) res option" where
  "find_entry matchName B entry numWalked s =
     (case entry of
        None \<Rightarrow> Some (Inr (None, add_walks numWalked s))
      | Some p \<Rightarrow>
          (case hne_at p s of
             Inl u \<Rightarrow> Some (Inl u)
           | Inr e \<Rightarrow>
               (case hne_encoded e of
                  None \<Rightarrow> Some (Inl NullDeref)
                | Some name \<Rightarrow>
                    if matchName \<noteq> name then find_entry matchName B (hne_next e) (numWalked + 1) s
                    else Some (use_entry p e B (numWalked + 1) s))))"

definition FindMatchInHotNameCache :: "string \<Rightarrow> hotnames \<Rightarrow> (nat option \<times> hotnames) res option" where
  "FindMatchInHotNameCache matchName s =
     (let s0 = s\<lparr>cs_numHotNameChecks := cs_numHotNameChecks s + 1\<rparr>;
          b = HotNameHash s0 matchName; B = NameBin b in
      if hb_head (hot_bins s0 B) = None then Some (Inr (None, s0))
      else
        Option.bind (if hn_now s0 - hb_time (hot_bins s0 B) > NAMECACHELIFETIME
                     then RemoveOldEntriesInBin b s0 else Some (Inr s0)) (\<lambda>r.
        case r of Inl u \<Rightarrow> Some (Inl u)
        | Inr s1 \<Rightarrow> find_entry matchName B (hb_head (hot_bins s1 B)) 0 s1))"

subsection \<open>New entries\<close>

text \<open>What \<open>EnterIntoHotNameCache\<close> and \<open>EnterIntoHotCGICache\<close> do once they know the bin.\<close>

definition enter_bin :: "nat \<Rightarrow> bin \<Rightarrow> hotnames \<Rightarrow> hotnames res" where
  "enter_bin temp B s =
     rbind (put_if (hb_head (hot_bins s B)) (\<lambda>f. f\<lparr>hne_prev := Some (NextOf temp)\<rparr>) s) (\<lambda>s1.
     rbind (put_hne temp (\<lambda>f. f\<lparr>hne_next := hb_head (hot_bins s1 B), hne_prev := Some (HeadOf B)\<rparr>) s1) (\<lambda>s2.
     let s3 = set_head B (Some temp) s2 in
     rbind (put_hne temp (\<lambda>f. f\<lparr>hne_time := hn_now s3\<rparr>) s3) (\<lambda>s4.
     Inr (if hb_time (hot_bins s4 B) = 0 then set_time B (hn_now s4) s4 else s4))))"

definition EnterIntoHotNameCache :: "nat \<Rightarrow> hotnames \<Rightarrow> hotnames res" where
  "EnterIntoHotNameCache temp s =
     rbind (put_hne temp (\<lambda>f. f\<lparr>hne_refCount := 1\<rparr>) s) (\<lambda>s0.
     let s1 = s0\<lparr>numTotalHNEs := numTotalHNEs s0 + 1\<rparr> in
     rbind (hne_at temp s1) (\<lambda>e.
     case hne_encoded e of None \<Rightarrow> Inl NullDeref
     | Some name \<Rightarrow> enter_bin temp (NameBin (HotNameHash s1 name)) s1))"

text \<open>A \<open>char\<close> is signed; \<open>bin\<close> is an \<open>int\<close> whose low eight bits count.\<close>

definition char_val :: "char \<Rightarrow> 32 word" where
  "char_val c = signed_take_bit 7 (of_char c)"

definition cgi_hash_step :: "32 word \<Rightarrow> char \<Rightarrow> 32 word" where
  "cgi_hash_step h c = push_bit 1 h + (char_val c - char_val CHR ''A'')"

definition EnterIntoHotCGICache :: "nat \<Rightarrow> hotnames \<Rightarrow> hotnames res" where
  "EnterIntoHotCGICache temp s =
     rbind (put_hne temp (\<lambda>f. f\<lparr>hne_refCount := 1\<rparr>) s) (\<lambda>s0.
     let s1 = s0\<lparr>numTotalHNEs := numTotalHNEs s0 + 1\<rparr> in
     rbind (hne_at temp s1) (\<lambda>e.
     case hne_stripped e of None \<Rightarrow> Inl NullDeref
     | Some name \<Rightarrow> enter_bin temp (CgiBin (unat (foldl cgi_hash_step 0 name AND 255))) s1))"

definition zero_hne :: HotNameEntry where
  "zero_hne = \<lparr>hne_refCount = 0, hne_encoded = None, hne_time = 0, hne_next = None, hne_prev = None,
     hne_stripped = None, hne_expanded = None, hne_maxEncoded = 0, hne_maxStripped = 0, hne_maxExpanded = 0,
     hne_type = HNT_FILE, hne_modTime = 0, hne_nextMRU = None, hne_prevMRU = None\<rparr>"

text \<open>\<open>mem\<close> is what \<open>calloc\<close> returns. It runs after the removal, so that it may return the
  entry that was just freed.\<close>

definition GetEmptyHNE :: "int \<Rightarrow> (hotnames \<Rightarrow> nat option) \<Rightarrow> hotnames \<Rightarrow> (nat option \<times> hotnames) res" where
  "GetEmptyHNE maxNameCacheSize mem s =
     rbind (if headMRU s \<noteq> None \<and> numTotalHNEs s \<ge> maxNameCacheSize then
              (case tailMRU s of
                 None \<Rightarrow> Inl AssertFail
               | Some t \<Rightarrow> rbind (rbind (RemoveFromMRU t s) (RemoveHotNameEntry t)) (\<lambda>(n, s1). Inr s1))
            else Inr s) (\<lambda>s1.
     case mem s1 of
       None \<Rightarrow> Inr (None, s1)
     | Some p \<Rightarrow> Inr (Some p, s1\<lparr>hnes := (hnes s1)(p := Some zero_hne)\<rparr>))"

definition ReleaseHNE :: "nat \<Rightarrow> hotnames \<Rightarrow> hotnames res" where
  "ReleaseHNE entry s =
     rbind (put_hne entry (\<lambda>f. f\<lparr>hne_refCount := hne_refCount f - 1\<rparr>) s) (\<lambda>s1.
     rbind (hne_at entry s1) (\<lambda>e.
     if hne_refCount e = 0 then
       (if hn_now s1 - hne_time e > NAMECACHELIFETIME
        then rbind (RemoveHotNameEntry entry s1) (\<lambda>(n, s2). Inr s2)
        else AddToMRU entry s1)
     else Inr s1))"

end
