(* ===== verification/Flash_Hotname_Correct.thy ===== *)
theory Flash_Hotname_Correct
  imports Flash_Hotname
begin

text \<open>
  The pointers of the name cache of flash: what the chains of the bins and the list of unreferenced
  entries represent, and that linking and unlinking do on them what they should.
\<close>

section \<open>Fields of entries\<close>

definition h_next :: "hotnames \<Rightarrow> nat \<Rightarrow> nat option" where "h_next s p = hne_next (the (hnes s p))"
definition h_prev :: "hotnames \<Rightarrow> nat \<Rightarrow> hne_link option" where "h_prev s p = hne_prev (the (hnes s p))"
definition m_next :: "hotnames \<Rightarrow> nat \<Rightarrow> nat option" where "m_next s p = hne_nextMRU (the (hnes s p))"
definition m_prev :: "hotnames \<Rightarrow> nat \<Rightarrow> nat option" where "m_prev s p = hne_prevMRU (the (hnes s p))"

lemmas h_defs = h_next_def h_prev_def m_next_def m_prev_def

definition alive :: "hotnames \<Rightarrow> nat \<Rightarrow> bool" where "alive s p \<longleftrightarrow> hnes s p \<noteq> None"

text \<open>What an entry says apart from its links.\<close>

definition bare :: "HotNameEntry \<Rightarrow> HotNameEntry" where
  "bare e = e\<lparr>hne_next := None, hne_prev := None, hne_nextMRU := None, hne_prevMRU := None\<rparr>"

definition info_of :: "hotnames \<Rightarrow> nat \<Rightarrow> HotNameEntry option" where
  "info_of s p = map_option bare (hnes s p)"

definition refs :: "hotnames \<Rightarrow> nat \<Rightarrow> int" where "refs s p = hne_refCount (the (info_of s p))"

abbreviation set_hnext :: "nat \<Rightarrow> nat option \<Rightarrow> hotnames \<Rightarrow> hotnames" where
  "set_hnext p v \<equiv> upd_hne p (\<lambda>e. e\<lparr>hne_next := v\<rparr>)"
abbreviation set_hprev :: "nat \<Rightarrow> hne_link option \<Rightarrow> hotnames \<Rightarrow> hotnames" where
  "set_hprev p v \<equiv> upd_hne p (\<lambda>e. e\<lparr>hne_prev := v\<rparr>)"
abbreviation set_mnext :: "nat \<Rightarrow> nat option \<Rightarrow> hotnames \<Rightarrow> hotnames" where
  "set_mnext p v \<equiv> upd_hne p (\<lambda>e. e\<lparr>hne_nextMRU := v\<rparr>)"
abbreviation set_mprev :: "nat \<Rightarrow> nat option \<Rightarrow> hotnames \<Rightarrow> hotnames" where
  "set_mprev p v \<equiv> upd_hne p (\<lambda>e. e\<lparr>hne_prevMRU := v\<rparr>)"

lemma upd_hne_frame [simp]:
  "hot_bins (upd_hne p f s) = hot_bins s" "numTotalHNEs (upd_hne p f s) = numTotalHNEs s" "headMRU (upd_hne p f s) = headMRU s"
  "tailMRU (upd_hne p f s) = tailMRU s" "hn_now (upd_hne p f s) = hn_now s" "scrambledNumbers (upd_hne p f s) = scrambledNumbers s"
  "alive (upd_hne p f s) = alive s" "(hnes (upd_hne p f s) q = None) = (hnes s q = None)"
  by (auto simp: upd_hne_def alive_def fun_eq_iff)

lemma hnes_upd: "hnes (upd_hne p f s) q = (if q = p then map_option f (hnes s p) else hnes s q)"
  by (simp add: upd_hne_def)

lemma link_fields [simp]:
  "alive s p \<Longrightarrow> h_next (set_hnext p v s) = (h_next s)(p := v)" "h_prev (set_hnext p v s) = h_prev s"
  "m_next (set_hnext p v s) = m_next s" "m_prev (set_hnext p v s) = m_prev s"
  "alive s p \<Longrightarrow> h_prev (set_hprev p l s) = (h_prev s)(p := l)" "h_next (set_hprev p l s) = h_next s"
  "m_next (set_hprev p l s) = m_next s" "m_prev (set_hprev p l s) = m_prev s"
  "alive s p \<Longrightarrow> m_next (set_mnext p v s) = (m_next s)(p := v)" "m_prev (set_mnext p v s) = m_prev s"
  "h_next (set_mnext p v s) = h_next s" "h_prev (set_mnext p v s) = h_prev s"
  "alive s p \<Longrightarrow> m_prev (set_mprev p v s) = (m_prev s)(p := v)" "m_next (set_mprev p v s) = m_next s"
  "h_next (set_mprev p v s) = h_next s" "h_prev (set_mprev p v s) = h_prev s"
  "info_of (set_hnext p v s) = info_of s" "info_of (set_hprev p l s) = info_of s"
  "info_of (set_mnext p v s) = info_of s" "info_of (set_mprev p v s) = info_of s"
  by (cases "hnes s p"; auto simp: h_defs alive_def info_of_def fun_eq_iff hnes_upd bare_def)+

section \<open>The list of unreferenced entries\<close>

definition mru :: "hotnames \<Rightarrow> nat list \<Rightarrow> bool" where
  "mru s ms \<longleftrightarrow> distinct ms \<and> (\<forall>p\<in>set ms. alive s p) \<and> linked Some (m_next s) (m_prev s) ms
     \<and> headMRU s = fst (ends ms) \<and> tailMRU s = snd (ends ms)
     \<and> (ms \<noteq> [] \<longrightarrow> m_prev s (hd ms) = None \<and> m_next s (last ms) = None)"

text \<open>Two states that differ in that list only.\<close>

definition same_bins :: "hotnames \<Rightarrow> hotnames \<Rightarrow> bool" where
  "same_bins s s' \<longleftrightarrow> info_of s' = info_of s \<and> h_next s' = h_next s \<and> h_prev s' = h_prev s \<and> hot_bins s' = hot_bins s
     \<and> numTotalHNEs s' = numTotalHNEs s \<and> hn_now s' = hn_now s \<and> scrambledNumbers s' = scrambledNumbers s"

lemma info_of_alive: "info_of s' = info_of s \<Longrightarrow> alive s' = alive s"
proof -
  assume "info_of s' = info_of s"
  then have "(info_of s' p = None) = (info_of s p = None)" for p by simp
  then show ?thesis by (auto simp: alive_def info_of_def fun_eq_iff)
qed

lemma head_frame [simp]:
  "h_next (s\<lparr>headMRU := v\<rparr>) = h_next s" "h_prev (s\<lparr>headMRU := v\<rparr>) = h_prev s" "m_next (s\<lparr>headMRU := v\<rparr>) = m_next s"
  "m_prev (s\<lparr>headMRU := v\<rparr>) = m_prev s" "info_of (s\<lparr>headMRU := v\<rparr>) = info_of s" "alive (s\<lparr>headMRU := v\<rparr>) = alive s"
  "h_next (s\<lparr>tailMRU := v\<rparr>) = h_next s" "h_prev (s\<lparr>tailMRU := v\<rparr>) = h_prev s" "m_next (s\<lparr>tailMRU := v\<rparr>) = m_next s"
  "m_prev (s\<lparr>tailMRU := v\<rparr>) = m_prev s" "info_of (s\<lparr>tailMRU := v\<rparr>) = info_of s" "alive (s\<lparr>tailMRU := v\<rparr>) = alive s"
  by (simp_all add: h_defs info_of_def alive_def fun_eq_iff)

lemma alive_info: "alive s p \<longleftrightarrow> info_of s p \<noteq> None"
  by (simp add: alive_def info_of_def)

lemma hne_at_alive: "alive s p \<Longrightarrow> hne_at p s = Inr (the (hnes s p))"
  by (auto simp: hne_at_def alive_def)

lemma put_hne_alive: "alive s p \<Longrightarrow> put_hne p f s = Inr (upd_hne p f s)"
  by (simp add: put_hne_def alive_def)

lemma refs_field: "alive s p \<Longrightarrow> hne_refCount (the (hnes s p)) = refs s p"
  by (auto simp: refs_def info_of_def alive_def bare_def)

lemma info_fields:
  "alive s p \<Longrightarrow> hne_time (the (hnes s p)) = hne_time (the (info_of s p))"
  "alive s p \<Longrightarrow> hne_encoded (the (hnes s p)) = hne_encoded (the (info_of s p))"
  "alive s p \<Longrightarrow> hne_stripped (the (hnes s p)) = hne_stripped (the (info_of s p))"
  by (auto simp: info_of_def alive_def bare_def)

lemma hne_fields:
  "hne_next (the (hnes s p)) = h_next s p" "hne_prev (the (hnes s p)) = h_prev s p"
  "hne_nextMRU (the (hnes s p)) = m_next s p" "hne_prevMRU (the (hnes s p)) = m_prev s p"
  by (simp_all add: h_defs)

lemmas hne_simps = hne_at_alive put_hne_alive refs_field hne_fields

lemma mru_dll: "mru s ms \<longleftrightarrow> dll (m_next s) (m_prev s) (headMRU s) (tailMRU s) (alive s) ms"
  by (simp add: mru_def dll_def)

lemma RemoveFromMRU_ok:
  assumes m: "mru s ms" and p: "p \<in> set ms" and r: "refs s p = 0"
  shows "\<exists>s'. RemoveFromMRU p s = Inr s' \<and> mru s' (remove1 p ms) \<and> same_bins s s'"
proof -
  obtain as bs where ms: "ms = as @ p # bs" and np: "p \<notin> set as" using p by (auto dest: split_list_first)
  then have rm: "remove1 p ms = as @ bs" by (simp add: remove1_append)
  note d = m [unfolded ms mru_dll] and l = dll_links [OF m [unfolded ms mru_dll]]
  let ?s1 = "if as = [] then s\<lparr>headMRU := m_next s p\<rparr> else set_mnext (last as) (m_next s p) s"
  let ?s2 = "if bs = [] then ?s1\<lparr>tailMRU := m_prev s p\<rparr> else set_mprev (hd bs) (m_prev s p) ?s1"
  have "RemoveFromMRU p s = Inr ?s2" using l r by (auto simp: RemoveFromMRU_def hne_simps)
  moreover have "mru ?s2 (as @ bs)"
    using dll_remove [OF d] l by (cases "as = []"; cases "bs = []") (simp_all add: mru_dll del: append_Nil append_Nil2)
  moreover have "same_bins s ?s2" by (simp add: same_bins_def)
  ultimately show ?thesis using rm by auto
qed

lemma AddToMRU_ok:
  assumes m: "mru s ms" and p: "p \<notin> set ms" "alive s p" and r: "refs s p = 0"
  shows "\<exists>s'. AddToMRU p s = Inr s' \<and> mru s' (p # ms) \<and> same_bins s s'"
proof -
  have up: "upd_hne p (\<lambda>f. f\<lparr>hne_nextMRU := v, hne_prevMRU := w\<rparr>) s = set_mprev p w (set_mnext p v s)" for v w
    by (cases "hnes s p") (simp_all add: upd_hne_def)
  let ?s1 = "set_mprev p None (set_mnext p (headMRU s) s)"
  let ?s2 = "if ms = [] then ?s1\<lparr>tailMRU := Some p\<rparr> else set_mprev (hd ms) (Some p) ?s1"
  let ?s3 = "?s2\<lparr>headMRU := Some p\<rparr>"
  have h: "headMRU s = first ms" "ms \<noteq> [] \<Longrightarrow> alive s (hd ms) \<and> hd ms \<noteq> p"
    using m p by (auto simp: mru_def ends_def first_def)
  have "AddToMRU p s = Inr ?s3" using p h r by (auto simp: AddToMRU_def hne_simps up first_def)
  moreover have "mru ?s3 (p # ms)"
    using dll_push [OF m [unfolded mru_dll] p(2,1)] h p by (cases "ms = []") (simp_all add: mru_dll fun_upd_twist [of p "hd ms"])
  moreover have "same_bins s ?s3" by (simp add: same_bins_def)
  ultimately show ?thesis by blast
qed

section \<open>The bins\<close>

definition bins_rep :: "hotnames \<Rightarrow> (bin \<Rightarrow> nat list) \<Rightarrow> bool" where
  "bins_rep s cs \<longleftrightarrow> (\<forall>B. hashed (h_next s) (h_prev s) (HeadOf B) (hb_head (hot_bins s B)) (cs B)) \<and> (\<forall>B. distinct (cs B))
     \<and> (\<forall>B B'. B \<noteq> B' \<longrightarrow> set (cs B) \<inter> set (cs B') = {}) \<and> (\<forall>p\<in>resident cs. alive s p)"

lemma bins_chains: "bins_rep s cs \<longleftrightarrow> chains (h_next s) (h_prev s) (\<lambda>B. hb_head (hot_bins s B)) (alive s) cs"
  by (simp add: bins_rep_def chains_def)

lemma bins_head: "bins_rep s cs \<Longrightarrow> hb_head (hot_bins s B) = first (cs B)"
  unfolding bins_chains by (rule chains_ht)

lemma bins_alive: "bins_rep s cs \<Longrightarrow> p \<in> set (cs B) \<Longrightarrow> alive s p"
  unfolding bins_chains by (rule chains_alive)

lemmas bins_resident = chains_resident [OF iffD1 [OF bins_chains]]
lemmas chain_links = chains_links [OF iffD1 [OF bins_chains]]

text \<open>Two states that differ in the chains only.\<close>

definition same_mru :: "hotnames \<Rightarrow> hotnames \<Rightarrow> bool" where
  "same_mru s s' \<longleftrightarrow> info_of s' = info_of s \<and> m_next s' = m_next s \<and> m_prev s' = m_prev s \<and> headMRU s' = headMRU s
     \<and> tailMRU s' = tailMRU s \<and> numTotalHNEs s' = numTotalHNEs s \<and> hn_now s' = hn_now s
     \<and> scrambledNumbers s' = scrambledNumbers s"

lemma mru_same: "same_mru s s' \<Longrightarrow> mru s' ms = mru s ms"
  using info_of_alive [of s' s] by (simp add: same_mru_def mru_def)

lemma bins_same: "same_bins s s' \<Longrightarrow> bins_rep s' cs = bins_rep s cs"
  using info_of_alive [of s' s] by (simp add: same_bins_def bins_rep_def)

lemma set_head_frame [simp]:
  "h_next (set_head B v s) = h_next s" "h_prev (set_head B v s) = h_prev s" "m_next (set_head B v s) = m_next s"
  "m_prev (set_head B v s) = m_prev s" "info_of (set_head B v s) = info_of s" "alive (set_head B v s) = alive s"
  "headMRU (set_head B v s) = headMRU s" "tailMRU (set_head B v s) = tailMRU s" "numTotalHNEs (set_head B v s) = numTotalHNEs s"
  "hn_now (set_head B v s) = hn_now s" "scrambledNumbers (set_head B v s) = scrambledNumbers s" "hnes (set_head B v s) = hnes s"
  "hb_head (hot_bins (set_head B v s) C) = (if C = B then v else hb_head (hot_bins s C))"
  by (auto simp: set_head_def h_defs info_of_def alive_def fun_eq_iff)

subsection \<open>Taking an entry out\<close>

interpretation hb: hash_chains h_next h_prev "\<lambda>s B. hb_head (hot_bins s B)" "\<lambda>p v. set_hnext p v" "\<lambda>p l. set_hprev p l" set_head alive
  by unfold_locales (simp_all add: fun_eq_iff)

abbreviation unlinked :: "nat \<Rightarrow> hotnames \<Rightarrow> hotnames" where "unlinked \<equiv> hb.unlinked"
abbreviation pushed :: "nat \<Rightarrow> bin \<Rightarrow> hotnames \<Rightarrow> hotnames" where "pushed \<equiv> hb.pushed"

lemmas bin_changes = hb.unlinked_def hb.pushed_def

lemma bins_hb: "hb.rep = bins_rep"
  by (simp add: fun_eq_iff hb.rep_def bins_chains)

lemmas unlinked_bins = hb.unlinked_rep [unfolded bins_hb]
lemmas pushed_bins = hb.pushed_rep [unfolded bins_hb]

lemma unlinked_same: "same_mru s (unlinked p s)"
  by (auto simp: same_mru_def bin_changes Let_def split: option.splits link.splits)

lemma pushed_same: "same_mru s (pushed p B s)"
  by (auto simp: same_mru_def bin_changes Let_def split: option.splits)

text \<open>Entries that are in no bin and not in the list do not matter.\<close>

lemma bins_upd_outside:
  assumes "p \<notin> resident cs"
  shows "bins_rep (s\<lparr>hnes := (hnes s)(p := v)\<rparr>) cs = bins_rep s cs"
proof -
  have "q \<in> resident cs \<Longrightarrow> q \<noteq> p" for q using assms by blast
  then show ?thesis unfolding bins_chains by (auto simp: h_defs alive_def intro!: chains_cong)
qed

lemma mru_upd_outside:
  assumes "p \<notin> set ms"
  shows "mru (s\<lparr>hnes := (hnes s)(p := v)\<rparr>) ms = mru s ms"
proof -
  let ?s = "s\<lparr>hnes := (hnes s)(p := v)\<rparr>"
  have "linked Some (m_next ?s) (m_prev ?s) ms = linked Some (m_next s) (m_prev s) ms"
    by (rule linked_cong) (use notin_butlast [OF assms] notin_tl [OF assms] in \<open>auto simp: h_defs\<close>)
  moreover have "q \<in> set ms \<Longrightarrow> alive ?s q = alive s q \<and> m_next ?s q = m_next s q \<and> m_prev ?s q = m_prev s q" for q
    using assms by (auto simp: alive_def h_defs)
  ultimately show ?thesis unfolding mru_def by (cases "ms = []") auto
qed

lemma total_frame [simp]:
  "h_next (s\<lparr>numTotalHNEs := n\<rparr>) = h_next s" "h_prev (s\<lparr>numTotalHNEs := n\<rparr>) = h_prev s"
  "alive (s\<lparr>numTotalHNEs := n\<rparr>) = alive s" "info_of (s\<lparr>numTotalHNEs := n\<rparr>) = info_of s"
  "m_next (s\<lparr>numTotalHNEs := n\<rparr>) = m_next s" "m_prev (s\<lparr>numTotalHNEs := n\<rparr>) = m_prev s"
  by (simp_all add: h_defs alive_def info_of_def fun_eq_iff)

lemma total_rep [simp]:
  "bins_rep (s\<lparr>numTotalHNEs := n\<rparr>) cs = bins_rep s cs" "mru (s\<lparr>numTotalHNEs := n\<rparr>) ms = mru s ms"
  by (simp_all add: bins_rep_def mru_def)

lemma unlinked_total: "unlinked p (s\<lparr>numTotalHNEs := n\<rparr>) = (unlinked p s)\<lparr>numTotalHNEs := n\<rparr>"
  by (auto simp: hb.unlinked_def Let_def set_head_def upd_hne_def split: option.splits link.splits)

text \<open>Both orders of the two writes.\<close>

lemma unlink_forward:
  assumes "bins_rep s cs" and "cs B = as @ p # bs"
  shows "rbind (put_link (h_prev s p) (h_next s p) s) (put_if (h_next s p) (\<lambda>f. f\<lparr>hne_prev := h_prev s p\<rparr>)) = Inr (unlinked p s)"
  using chain_links [OF assms] by (cases "as = []"; cases "bs = []") (simp_all add: hb.unlinked_def link_after_def first_def put_hne_alive)

lemma unlink_backward:
  assumes "bins_rep s cs" and "cs B = as @ p # bs"
  shows "rbind (put_if (h_next s p) (\<lambda>f. f\<lparr>hne_prev := h_prev s p\<rparr>) s) (put_link (h_prev s p) (h_next s p)) = Inr (unlinked p s)"
proof -
  note l = chain_links [OF assms]
  have "last as \<noteq> hd bs" if "as \<noteq> []" "bs \<noteq> []"
    using assms that by (metis (no_types, lifting) bins_rep_def disjoint_iff distinct_append hd_in_set last_in_set set_subset_Cons subsetD)
  then show ?thesis using l
    by (cases "as = []"; cases "bs = []")
      (simp_all add: hb.unlinked_def link_after_def first_def put_hne_alive,
       simp_all add: upd_hne_def set_head_def fun_upd_twist)
qed

lemma RemoveHotNameEntry_ok:
  assumes b: "bins_rep s cs" and c: "p \<in> set (cs B)"
  shows "\<exists>s'. RemoveHotNameEntry p s = Inr (h_next s p, s') \<and> bins_rep s' (cs(B := remove1 p (cs B)))
    \<and> info_of s' = (info_of s)(p := None) \<and> numTotalHNEs s' = numTotalHNEs s - 1 \<and> hn_now s' = hn_now s
    \<and> scrambledNumbers s' = scrambledNumbers s \<and> (\<forall>ms. mru s ms \<and> p \<notin> set ms \<longrightarrow> mru s' ms)"
proof -
  obtain as bs where ab: "cs B = as @ p # bs" using c by (auto dest: split_list)
  let ?z = "s\<lparr>numTotalHNEs := numTotalHNEs s - 1\<rparr>" let ?u = "unlinked p ?z" let ?s = "?u\<lparr>hnes := (hnes ?u)(p := None)\<rparr>"
  have b0: "bins_rep ?z cs" using b by simp
  have "RemoveHotNameEntry p s = Inr (h_next s p, ?s)"
    using unlink_forward [OF b0 ab] chain_links(5) [OF b0 ab]
    by (simp add: RemoveHotNameEntry_def Let_def hne_simps rbind_eq_Inr) blast
  moreover have "bins_rep ?s (cs(B := remove1 p (cs B)))"
  proof -
    have "p \<notin> resident (cs(B := remove1 p (cs B)))"
      using b c unfolding bins_rep_def resident_def by (auto split: if_splits) blast
    then show ?thesis using unlinked_bins [OF b0 c] by (simp add: bins_upd_outside)
  qed
  moreover have "mru ?s ms" if "mru s ms" "p \<notin> set ms" for ms
    using mru_upd_outside [OF that(2), of ?u None] mru_same [OF unlinked_same [of ?z p]] that by simp
  moreover have "info_of ?s = (info_of s)(p := None)"
    using unlinked_same [of ?z p] by (auto simp: same_mru_def info_of_def fun_eq_iff)
  ultimately show ?thesis using unlinked_same [of ?z p] by (auto simp: same_mru_def)
qed

subsection \<open>Putting an entry in front\<close>

lemma upd_two_links:
  "upd_hne p (\<lambda>f. f\<lparr>hne_next := v, hne_prev := l\<rparr>) s = set_hprev p l (set_hnext p v s)"
  by (cases "hnes s p") (simp_all add: upd_hne_def)

lemma push_writes:
  assumes b: "bins_rep s cs" and p: "alive s p"
  shows "rbind (put_if (hb_head (hot_bins s B)) (\<lambda>f. f\<lparr>hne_prev := Some (NextOf p)\<rparr>) s) (\<lambda>s1.
      rbind (put_hne p (\<lambda>f. f\<lparr>hne_next := hb_head (hot_bins s1 B), hne_prev := Some (HeadOf B)\<rparr>) s1) (\<lambda>s2. Inr (set_head B (Some p) s2)))
    = Inr (pushed p B s)"
proof -
  have "hb_head (hot_bins s B) = first (cs B)" using bins_head [OF b] .
  moreover have "cs B \<noteq> [] \<Longrightarrow> alive s (hd (cs B))" using bins_alive [OF b, of "hd (cs B)" B] by simp
  ultimately show ?thesis using p by (cases "cs B = []") (simp_all add: hb.pushed_def first_def put_hne_alive upd_two_links)
qed

lemma move_to_front_ok:
  assumes b: "bins_rep s cs" and p: "p \<in> set (cs B)"
  shows "\<exists>s'. move_to_front p B s = Inr s' \<and> bins_rep s' (cs(B := p # remove1 p (cs B))) \<and> same_mru s s'"
proof (cases "hd (cs B) = p")
  case True
  then have e: "p # remove1 p (cs B) = cs B" using p by (cases "cs B") auto
  have "hb_head (hot_bins s B) = first (cs B)" using bins_head [OF b] .
  then have "move_to_front p B s = Inr s" using True p by (auto simp: move_to_front_def first_def)
  then show ?thesis using b by (simp add: e same_mru_def)
next
  case False
  obtain as bs where ab: "cs B = as @ p # bs" using p by (auto dest: split_list)
  let ?u = "unlinked p s"
  have f: "hb_head (hot_bins s B) = first (cs B)" using bins_head [OF b] .
  then have nf: "hb_head (hot_bins s B) \<noteq> Some p" using False p by (auto simp: first_def)
  note l = chain_links [OF b ab]
  have a: "alive ?u p" using unlinked_same [of s p] info_of_alive [of ?u s] l(5) by (simp add: same_mru_def)
  have bu: "bins_rep ?u (cs(B := remove1 p (cs B)))" using unlinked_bins [OF b p] .
  have "move_to_front p B s = rbind (rbind (put_if (h_next s p) (\<lambda>f. f\<lparr>hne_prev := h_prev s p\<rparr>) s) (put_link (h_prev s p) (h_next s p)))
    (\<lambda>s2. rbind (put_if (hb_head (hot_bins s2 B)) (\<lambda>f. f\<lparr>hne_prev := Some (NextOf p)\<rparr>) s2) (\<lambda>s3.
      rbind (put_hne p (\<lambda>f. f\<lparr>hne_next := hb_head (hot_bins s3 B), hne_prev := Some (HeadOf B)\<rparr>) s3) (\<lambda>s4. Inr (set_head B (Some p) s4))))"
    using nf l by (cases "bs = []") (simp_all add: move_to_front_def hne_simps first_def)
  also have "\<dots> = Inr (pushed p B ?u)" unfolding unlink_backward [OF b ab] using push_writes [OF bu a] by simp
  finally have e: "move_to_front p B s = Inr (pushed p B ?u)" .
  have "p \<notin> resident (cs(B := remove1 p (cs B)))" using bins_resident(1) [OF b p] by simp
  then have "bins_rep (pushed p B ?u) (cs(B := p # remove1 p (cs B)))" using pushed_bins [OF bu a, of B] by simp
  moreover have "same_mru s (pushed p B ?u)" using unlinked_same [of s p] pushed_same [of ?u p B] by (simp add: same_mru_def)
  ultimately show ?thesis using e by blast
qed

end
