(* ===== verification/Flash_Hotname_Run.thy ===== *)
theory Flash_Hotname_Run
  imports Flash_Hotname_Correct "HOL-Library.Multiset"
begin

text \<open>
  The name cache of flash in use. The connections hold references to entries; \<open>H\<close> is the multiset
  of the references held, and \<open>N\<close> the set of the entries that were handed out by \<open>GetEmptyHNE\<close> and
  are not in the cache yet. Every operation keeps the invariant, ends and never reaches freed
  memory.
\<close>

section \<open>The invariant\<close>

abbreviation hne :: "hotnames \<Rightarrow> nat \<Rightarrow> HotNameEntry" where
  "hne s p \<equiv> the (info_of s p)"

fun in_home :: "hotnames \<Rightarrow> bin \<Rightarrow> nat \<Rightarrow> bool" where
  "in_home s (NameBin b) p = (\<exists>u. hne_encoded (hne s p) = Some u \<and> HotNameHash s u = b)"
| "in_home s (CgiBin b) p = (\<exists>u. hne_stripped (hne s p) = Some u \<and> unat (foldl cgi_hash_step 0 u AND 255) = b)"

text \<open>Entries for the same name are in the order of their age, the newest first.\<close>

definition newer :: "hotnames \<Rightarrow> nat \<Rightarrow> nat \<Rightarrow> bool" where
  "newer s p q \<longleftrightarrow> (hne_encoded (hne s p) = hne_encoded (hne s q) \<longrightarrow> hne_time (hne s q) \<le> hne_time (hne s p))"

definition contents :: "hotnames \<Rightarrow> nat multiset \<Rightarrow> (bin \<Rightarrow> nat list) \<Rightarrow> bool" where
  "contents s H cs \<longleftrightarrow> finite (resident cs) \<and> set_mset H \<subseteq> resident cs
     \<and> (\<forall>p\<in>resident cs. hne_refCount (hne s p) = int (count H p) \<and> hne_time (hne s p) \<le> hn_now s)
     \<and> (\<forall>B. \<forall>p\<in>set (cs B). in_home s B p) \<and> (\<forall>b. sorted_wrt (newer s) (cs (NameBin b)))"

definition hot_inv :: "hotnames \<Rightarrow> nat multiset \<Rightarrow> nat set \<Rightarrow> (bin \<Rightarrow> nat list) \<Rightarrow> nat list \<Rightarrow> bool" where
  "hot_inv s H N cs ms \<longleftrightarrow> bins_rep s cs \<and> mru s ms \<and> contents s H cs \<and> set ms = resident cs - set_mset H
     \<and> numTotalHNEs s = int (card (resident cs)) \<and> {p. alive s p} = resident cs \<union> N \<and> resident cs \<inter> N = {}"

lemma hash_scrambled: "scrambledNumbers s' = scrambledNumbers s \<Longrightarrow> HotNameHash s' = HotNameHash s"
  by (simp add: HotNameHash_def fun_eq_iff)

lemma in_home_cong:
  assumes "info_of s' p = info_of s p" and "scrambledNumbers s' = scrambledNumbers s"
  shows "in_home s' B p = in_home s B p"
  by (cases B) (simp_all add: assms hash_scrambled [OF assms(2)])

lemma contents_cong:
  assumes i: "\<And>p. p \<in> resident cs \<Longrightarrow> info_of s' p = info_of s p" and "hn_now s' = hn_now s" and sc: "scrambledNumbers s' = scrambledNumbers s"
  shows "contents s' H cs = contents s H cs"
proof -
  have "newer s' p q = newer s p q" if "p \<in> set (cs B)" "q \<in> set (cs B)" for p q B
    using i [OF residentI [of _ cs B]] that by (simp add: newer_def)
  then have "sorted_wrt (newer s') (cs B) = sorted_wrt (newer s) (cs B)" for B
    by (intro iffI) (erule sorted_wrt_mono_rel [rotated], simp)+
  moreover have "p \<in> set (cs B) \<Longrightarrow> in_home s' B p = in_home s B p" for p B using i residentI in_home_cong [OF _ sc] by metis
  ultimately show ?thesis using assms by (simp add: contents_def)
qed

lemma contents_remove:
  assumes c: "contents s H cs" and b: "bins_rep s cs" and p: "p \<in> set (cs B)" "p \<notin># H"
  shows "contents s H (cs(B := remove1 p (cs B)))"
proof -
  let ?c = "cs(B := remove1 p (cs B))"
  have r: "resident ?c = resident cs - {p}" using bins_resident(1) [OF b p(1)] .
  have "sorted_wrt (newer s) (remove1 p xs)" if "sorted_wrt (newer s) xs" for xs
    using that by (induction xs) (auto dest: set_remove1_subset [THEN subsetD])
  then have "sorted_wrt (newer s) (?c (NameBin b))" for b using c by (auto simp: contents_def)
  moreover have "q \<in> set (?c C) \<Longrightarrow> q \<in> set (cs C)" for q C by (auto split: if_splits dest: set_remove1_subset [THEN subsetD])
  ultimately show ?thesis using c p(2) unfolding contents_def r by blast
qed

section \<open>Removal\<close>

text \<open>An entry without references is removed; it may or may not have been on the list.\<close>

lemma free_entry:
  assumes b: "bins_rep s cs" and m: "mru s ms" and c: "contents s H cs" and ms: "set ms = resident cs - set_mset H - {p}"
    and t: "numTotalHNEs s = int (card (resident cs))" and al: "{q. alive s q} = resident cs \<union> N" "resident cs \<inter> N = {}"
    and p: "p \<in> set (cs B)" "p \<notin># H"
  shows "\<exists>s'. RemoveHotNameEntry p s = Inr (h_next s p, s')
    \<and> hot_inv s' H N (cs(B := remove1 p (cs B))) ms \<and> info_of s' = (info_of s)(p := None)
    \<and> hn_now s' = hn_now s \<and> scrambledNumbers s' = scrambledNumbers s"
proof -
  obtain s2 where s2: "RemoveHotNameEntry p s = Inr (h_next s p, s2)" "bins_rep s2 (cs(B := remove1 p (cs B)))"
    "info_of s2 = (info_of s)(p := None)" "numTotalHNEs s2 = numTotalHNEs s - 1" "hn_now s2 = hn_now s"
    "scrambledNumbers s2 = scrambledNumbers s" "\<forall>ms. mru s ms \<and> p \<notin> set ms \<longrightarrow> mru s2 ms"
    using RemoveHotNameEntry_ok [OF b p(1)] by blast
  let ?c = "cs(B := remove1 p (cs B))"
  have pr: "p \<in> resident cs" using residentI [of p cs, OF p(1)] .
  have r: "resident ?c = resident cs - {p}" using bins_resident(1) [OF b p(1)] .
  have "contents s2 H ?c"
    using contents_remove [OF c b p] contents_cong [of ?c s2 s H] s2(3,5,6) r by simp
  moreover have "mru s2 ms" using s2(7) m ms by simp
  moreover have "set ms = resident ?c - set_mset H" using ms r by auto
  moreover have "numTotalHNEs s2 = int (card (resident ?c))"
  proof -
    have "card (resident cs) = Suc (card (resident cs - {p}))" using c pr card_Suc_Diff1 [of "resident cs" p] by (simp only: contents_def)
    then show ?thesis using t s2(4) r by simp
  qed
  moreover have "{q. alive s2 q} = resident ?c \<union> N"
  proof -
    have "alive s2 q \<longleftrightarrow> q \<noteq> p \<and> alive s q" for q
      using s2(3) by (simp add: alive_info)
    then show ?thesis using al r pr by blast
  qed
  moreover have "resident ?c \<inter> N = {}" using al r by auto
  ultimately have "hot_inv s2 H N ?c ms" using s2(2) by (simp add: hot_inv_def)
  then show ?thesis using s2 by simp
qed

lemma drop_entry:
  assumes inv: "hot_inv s H N cs ms" and p: "p \<in> set ms" "p \<in> set (cs B)"
  shows "\<exists>s'. rbind (RemoveFromMRU p s) (RemoveHotNameEntry p) = Inr (h_next s p, s')
    \<and> hot_inv s' H N (cs(B := remove1 p (cs B))) (remove1 p ms) \<and> info_of s' = (info_of s)(p := None)
    \<and> hn_now s' = hn_now s \<and> scrambledNumbers s' = scrambledNumbers s"
proof -
  have b: "bins_rep s cs" and m: "mru s ms" and c: "contents s H cs" and ms: "set ms = resident cs - set_mset H"
    using inv by (auto simp: hot_inv_def)
  have pr: "p \<in> resident cs" "p \<notin># H" using p(1) ms by auto
  then have "refs s p = 0" using c by (simp add: contents_def refs_def count_eq_zero_iff)
  then obtain s1 where s1: "RemoveFromMRU p s = Inr s1" "mru s1 (remove1 p ms)" "same_bins s s1"
    using RemoveFromMRU_ok [OF m p(1)] by blast
  note sb = s1(3) [unfolded same_bins_def]
  have d: "distinct ms" using m by (simp add: mru_def)
  have "\<exists>s'. RemoveHotNameEntry p s1 = Inr (h_next s1 p, s')
    \<and> hot_inv s' H N (cs(B := remove1 p (cs B))) (remove1 p ms) \<and> info_of s' = (info_of s1)(p := None)
    \<and> hn_now s' = hn_now s1 \<and> scrambledNumbers s' = scrambledNumbers s1"
  proof (rule free_entry)
    show "bins_rep s1 cs" using bins_same [OF s1(3)] b by simp
    show "contents s1 H cs" using c sb contents_cong [of cs s1 s H] by simp
    show "set (remove1 p ms) = resident cs - set_mset H - {p}" using d ms by simp
    show "{q. alive s1 q} = resident cs \<union> N" using inv sb info_of_alive [of s1 s] by (simp add: hot_inv_def)
  qed (use s1 sb inv p pr in \<open>auto simp: hot_inv_def\<close>)
  then show ?thesis using s1(1) sb by auto
qed

text \<open>What is left is as it was, up to the reference counts.\<close>

definition unref :: "HotNameEntry \<Rightarrow> HotNameEntry" where
  "unref e = e\<lparr>hne_refCount := 0\<rparr>"

definition kept :: "hotnames \<Rightarrow> hotnames \<Rightarrow> bool" where
  "kept s s' \<longleftrightarrow> (\<forall>p. alive s' p \<longrightarrow> alive s p \<and> unref (hne s' p) = unref (hne s p)) \<and> hn_now s' = hn_now s
     \<and> scrambledNumbers s' = scrambledNumbers s"

lemma kept_trans: "kept s t \<Longrightarrow> kept t u \<Longrightarrow> kept s u"
  unfolding kept_def by metis

lemma unref_fields:
  assumes "unref e = unref f"
  shows "hne_time e = hne_time f" "hne_encoded e = hne_encoded f" "hne_stripped e = hne_stripped f" "hne_expanded e = hne_expanded f"
  using arg_cong [OF assms, of hne_time] arg_cong [OF assms, of hne_encoded] arg_cong [OF assms, of hne_stripped]
    arg_cong [OF assms, of hne_expanded] by (simp_all add: unref_def)

lemma hot_inv_alive: "hot_inv s H N cs ms \<Longrightarrow> p \<in> set (cs B) \<Longrightarrow> alive s p"
  by (auto simp: hot_inv_def dest: bins_alive)

text \<open>Old enough to go.\<close>

definition outdated :: "hotnames \<Rightarrow> nat \<Rightarrow> bool" where
  "outdated s p \<longleftrightarrow> hn_now s - hne_time (hne s p) > NAMECACHELIFETIME"

lemma outdated_kept: "kept s s' \<Longrightarrow> alive s' p \<Longrightarrow> outdated s' p = outdated s p"
  unfolding outdated_def kept_def by (metis unref_fields(1))

lemma hot_inv_refs: "hot_inv s H N cs ms \<Longrightarrow> p \<in> set (cs B) \<Longrightarrow> refs s p = int (count H p)"
  by (auto simp: hot_inv_def contents_def refs_def dest: residentI)

lemma remove_old_ok:
  assumes "hot_inv s H N cs ms" and "cs B = xs @ ys"
  shows "\<exists>s' ms'. remove_old (first ys) s = Some (Inr s') \<and> kept s s'
    \<and> hot_inv s' H N (cs(B := xs @ filter (\<lambda>p. p \<in># H \<or> \<not> outdated s p) ys)) ms'"
  using assms
proof (induction ys arbitrary: s cs ms xs)
  case Nil
  have "cs(B := xs) = cs" using Nil.prems(2) by (simp add: fun_eq_iff)
  then show ?case using Nil.prems by (auto simp: first_def remove_old.simps [of None] kept_def)
next
  case (Cons p ys)
  have b: "bins_rep s cs" and pB: "p \<in> set (cs B)" using Cons.prems by (auto simp: hot_inv_def)
  have a: "alive s p" using hot_inv_alive [OF Cons.prems(1) pB] .
  have nx: "h_next s p = first ys" using chain_links(2) [OF b Cons.prems(2)] .
  have d: "distinct (xs @ p # ys)" using b Cons.prems(2) by (metis bins_rep_def)
  note r = hot_inv_refs [OF Cons.prems(1) pB]
  show ?case
  proof (cases "p \<notin># H \<and> outdated s p")
    case True
    then have "p \<in> set ms" using Cons.prems(1) residentI [of p cs B, OF pB] by (simp add: hot_inv_def)
    from drop_entry [OF Cons.prems(1) this pB]
    obtain s1 where s1: "rbind (RemoveFromMRU p s) (RemoveHotNameEntry p) = Inr (h_next s p, s1)"
      "hot_inv s1 H N (cs(B := remove1 p (cs B))) (remove1 p ms)" "info_of s1 = (info_of s)(p := None)"
      "hn_now s1 = hn_now s" "scrambledNumbers s1 = scrambledNumbers s" by blast
    have k: "kept s s1" using s1 by (auto simp: kept_def alive_info)
    have c: "cs(B := remove1 p (cs B)) = cs(B := xs @ ys)" using Cons.prems(2) d by (simp add: remove1_append)
    obtain s' ms' where s': "remove_old (first ys) s1 = Some (Inr s')" "kept s1 s'"
      "hot_inv s' H N (cs(B := xs @ filter (\<lambda>p. p \<in># H \<or> \<not> outdated s1 p) ys)) ms'"
      using Cons.IH [OF s1(2) [unfolded c], of xs] unfolding fun_upd_upd by fastforce
    have "filter (\<lambda>p. p \<in># H \<or> \<not> outdated s1 p) ys = filter (\<lambda>p. p \<in># H \<or> \<not> outdated s p) ys"
      using s1(3,4) d by (intro filter_cong) (auto simp: outdated_def)
    moreover have "remove_old (first (p # ys)) s = remove_old (first ys) s1"
      using True a r nx s1(1) by (simp add: remove_old.simps [of "Some p"] hne_at_alive refs_field info_fields outdated_def not_in_iff)
    moreover have "filter (\<lambda>p. p \<in># H \<or> \<not> outdated s p) (p # ys) = filter (\<lambda>p. p \<in># H \<or> \<not> outdated s p) ys" using True by simp
    ultimately show ?thesis using s' kept_trans [OF k s'(2)] by metis
  next
    case False
    obtain s' ms' where s': "remove_old (first ys) s = Some (Inr s')" "kept s s'"
      "hot_inv s' H N (cs(B := (xs @ [p]) @ filter (\<lambda>p. p \<in># H \<or> \<not> outdated s p) ys)) ms'"
      using Cons.IH [OF Cons.prems(1), of "xs @ [p]"] Cons.prems(2) by (metis append.assoc append_Cons append_Nil)
    have "remove_old (first (p # ys)) s = remove_old (first ys) s"
      using False a r nx by (auto simp: remove_old.simps [of "Some p"] hne_at_alive refs_field info_fields outdated_def count_eq_zero_iff hne_fields)
    moreover have "xs @ filter (\<lambda>p. p \<in># H \<or> \<not> outdated s p) (p # ys) = (xs @ [p]) @ filter (\<lambda>p. p \<in># H \<or> \<not> outdated s p) ys"
      using False by simp
    ultimately show ?thesis using s' by metis
  qed
qed

lemma set_time_frame [simp]:
  "h_next (set_time B v s) = h_next s" "h_prev (set_time B v s) = h_prev s" "m_next (set_time B v s) = m_next s"
  "m_prev (set_time B v s) = m_prev s" "info_of (set_time B v s) = info_of s" "alive (set_time B v s) = alive s"
  "headMRU (set_time B v s) = headMRU s" "tailMRU (set_time B v s) = tailMRU s" "numTotalHNEs (set_time B v s) = numTotalHNEs s"
  "hn_now (set_time B v s) = hn_now s" "scrambledNumbers (set_time B v s) = scrambledNumbers s" "hnes (set_time B v s) = hnes s"
  "hb_head (hot_bins (set_time B v s) C) = hb_head (hot_bins s C)"
  by (auto simp: set_time_def h_defs info_of_def alive_def fun_eq_iff)

text \<open>States that differ in times of bins and in the statistics only.\<close>

definition same_cache :: "hotnames \<Rightarrow> hotnames \<Rightarrow> bool" where
  "same_cache s s' \<longleftrightarrow> hnes s' = hnes s \<and> (\<forall>B. hb_head (hot_bins s' B) = hb_head (hot_bins s B)) \<and> headMRU s' = headMRU s
     \<and> tailMRU s' = tailMRU s \<and> numTotalHNEs s' = numTotalHNEs s \<and> hn_now s' = hn_now s \<and> scrambledNumbers s' = scrambledNumbers s"

lemma same_cache_inv:
  assumes "same_cache s s'"
  shows "hot_inv s' H N cs ms = hot_inv s H N cs ms" "kept s s'" "alive s' = alive s"
proof -
  have f: "h_next s' = h_next s" "h_prev s' = h_prev s" "m_next s' = m_next s" "m_prev s' = m_prev s" "info_of s' = info_of s" "alive s' = alive s"
    using assms by (auto simp: same_cache_def h_defs info_of_def alive_def fun_eq_iff)
  show "kept s s'" "alive s' = alive s" using assms f by (auto simp: kept_def same_cache_def)
  have "contents s' H cs = contents s H cs" using assms f by (intro contents_cong) (auto simp: same_cache_def)
  then show "hot_inv s' H N cs ms = hot_inv s H N cs ms"
    using assms f by (simp add: hot_inv_def bins_rep_def mru_def same_cache_def)
qed

lemma RemoveOldEntriesInBin_ok:
  assumes "hot_inv s H N cs ms"
  shows "\<exists>s' ms'. RemoveOldEntriesInBin b s = Some (Inr s') \<and> kept s s'
    \<and> hot_inv s' H N (cs(NameBin b := filter (\<lambda>p. p \<in># H \<or> \<not> outdated s p) (cs (NameBin b)))) ms'"
proof -
  have "hb_head (hot_bins s (NameBin b)) = first (cs (NameBin b))" using assms bins_head by (auto simp: hot_inv_def)
  moreover obtain s1 ms1 where s1: "remove_old (first (cs (NameBin b))) s = Some (Inr s1)" "kept s s1"
    "hot_inv s1 H N (cs(NameBin b := filter (\<lambda>p. p \<in># H \<or> \<not> outdated s p) (cs (NameBin b)))) ms1"
    using remove_old_ok [OF assms, of "NameBin b" "[]"] by auto
  moreover have "same_cache s1 (set_time (NameBin b) (hn_now s1) s1)" by (simp add: same_cache_def)
  ultimately show ?thesis using same_cache_inv kept_trans by (auto simp: RemoveOldEntriesInBin_def)
qed

section \<open>Lookup\<close>

abbreviation named :: "hotnames \<Rightarrow> string \<Rightarrow> nat \<Rightarrow> bool" where
  "named s u p \<equiv> hne_encoded (hne s p) = Some u"

lemma named_kept: "kept s s' \<Longrightarrow> alive s' p \<Longrightarrow> named s' u p = named s u p"
  unfolding kept_def by (metis unref_fields(2))

text \<open>An entry gets one more reference.\<close>

abbreviation add_ref :: "nat \<Rightarrow> int \<Rightarrow> hotnames \<Rightarrow> hotnames" where
  "add_ref p k \<equiv> upd_hne p (\<lambda>f. f\<lparr>hne_refCount := hne_refCount f + k\<rparr>)"

lemma add_ref_frame [simp]:
  "h_next (add_ref p k s) = h_next s" "h_prev (add_ref p k s) = h_prev s" "m_next (add_ref p k s) = m_next s" "m_prev (add_ref p k s) = m_prev s"
  by (cases "hnes s p"; auto simp: h_defs fun_eq_iff hnes_upd)+

lemma add_ref_info: "info_of (add_ref p k s) q = (if q = p then map_option (\<lambda>e. e\<lparr>hne_refCount := hne_refCount e + k\<rparr>) (info_of s p) else info_of s q)"
  by (cases "hnes s p") (auto simp: info_of_def hnes_upd bare_def)

lemma add_ref_kept: "kept s (add_ref p k s)"
  by (auto simp: kept_def add_ref_info alive_info unref_def split: if_splits)

lemma add_ref_rep [simp]: "bins_rep (add_ref p k s) cs = bins_rep s cs" "mru (add_ref p k s) ms = mru s ms"
  by (simp_all add: bins_rep_def mru_def)

lemma contents_kept:
  assumes k: "kept s s'" and c: "contents s H cs" and a: "\<forall>p\<in>resident cs. alive s' p"
    and H: "\<forall>p\<in>resident cs. hne_refCount (hne s' p) = int (count H' p)" "set_mset H' \<subseteq> resident cs"
  shows "contents s' H' cs"
proof -
  have f: "hne_time (hne s' p) = hne_time (hne s p)" "hne_encoded (hne s' p) = hne_encoded (hne s p)"
    "hne_stripped (hne s' p) = hne_stripped (hne s p)" if "p \<in> resident cs" for p
    using k a that unref_fields [of "hne s' p" "hne s p"] by (auto simp: kept_def)
  have "sorted_wrt (newer s') (cs B)" if "sorted_wrt (newer s) (cs B)" for B
    using that by (rule sorted_wrt_mono_rel [rotated]) (use f residentI [of _ cs B] in \<open>simp add: newer_def\<close>)
  moreover have "in_home s' B p" if "in_home s B p" "p \<in> set (cs B)" for p B
    using that f [OF residentI [of p cs B]] k hash_scrambled [of s' s] by (cases B) (auto simp: kept_def)
  ultimately show ?thesis using c H f k by (auto simp: contents_def kept_def)
qed

lemma take_ref:
  assumes inv: "hot_inv s H N cs ms" and pB: "p \<in> set (cs B)"
  shows "\<exists>s'. rbind (if hne_refCount (the (hnes s p)) = 0 then RemoveFromMRU p s else Inr s) (put_hne p (\<lambda>f. f\<lparr>hne_refCount := hne_refCount f + 1\<rparr>)) = Inr s'
    \<and> kept s s' \<and> hot_inv s' (add_mset p H) N cs (remove1 p ms)"
proof -
  have b: "bins_rep s cs" and m: "mru s ms" and co: "contents s H cs" and ms: "set ms = resident cs - set_mset H"
    using inv by (auto simp: hot_inv_def)
  have a: "alive s p" and pr: "p \<in> resident cs" using bins_alive [OF b pB] residentI [of p cs, OF pB] .
  note r = hot_inv_refs [OF inv pB]
  have d: "distinct ms" using m by (simp add: mru_def)
  obtain s1 where s1: "(if hne_refCount (the (hnes s p)) = 0 then RemoveFromMRU p s else Inr s) = Inr s1" "mru s1 (remove1 p ms)" "same_bins s s1"
  proof (cases "p \<in># H")
    case True
    then have "p \<notin> set ms" "refs s p \<noteq> 0" using ms r by auto
    then show ?thesis using that [of s] m a by (simp add: refs_field remove1_idem same_bins_def)
  next
    case False
    then have "p \<in> set ms" "refs s p = 0" using ms r pr by (auto simp: not_in_iff)
    then show ?thesis using RemoveFromMRU_ok [OF m] that a by (auto simp: refs_field)
  qed
  note sb = s1(3) [unfolded same_bins_def]
  let ?t = "add_ref p 1 s1"
  have a1: "alive s1 = alive s" using sb info_of_alive [of s1 s] by simp
  have k: "kept s ?t" using sb by (auto simp: kept_def add_ref_info alive_info unref_def split: if_splits)
  have "contents ?t (add_mset p H) cs"
  proof (rule contents_kept [OF k co])
    show "\<forall>q\<in>resident cs. alive ?t q" using b a1 by (simp add: bins_rep_def)
    show "\<forall>q\<in>resident cs. hne_refCount (hne ?t q) = int (count (add_mset p H) q)"
      using co a sb by (auto simp: contents_def add_ref_info alive_info)
    show "set_mset (add_mset p H) \<subseteq> resident cs" using co pr by (simp add: contents_def)
  qed
  moreover have "set (remove1 p ms) = resident cs - set_mset (add_mset p H)" using ms d by auto
  ultimately have "hot_inv ?t (add_mset p H) N cs (remove1 p ms)"
    using s1(2) bins_same [OF s1(3)] b sb inv a1 by (simp add: hot_inv_def)
  then show ?thesis using s1(1) a a1 k by (simp add: put_hne_alive)
qed

text \<open>Moving the first entry of its name to the front of the bin.\<close>

lemma move_inv:
  assumes inv: "hot_inv s H N cs ms" and c: "cs B = xs @ p # ys" and first: "\<forall>q\<in>set xs. hne_encoded (hne s q) \<noteq> hne_encoded (hne s p)"
  shows "\<exists>s'. move_to_front p B s = Inr s' \<and> kept s s' \<and> hot_inv s' H N (cs(B := p # remove1 p (cs B))) ms"
proof -
  let ?c = "cs(B := p # remove1 p (cs B))"
  have b: "bins_rep s cs" and pB: "p \<in> set (cs B)" and co: "contents s H cs" using inv c by (auto simp: hot_inv_def)
  have d: "distinct (xs @ p # ys)" using b c unfolding bins_rep_def by metis
  obtain s' where s': "move_to_front p B s = Inr s'" "bins_rep s' ?c" "same_mru s s'" using move_to_front_ok [OF b pB] by blast
  note sm = s'(3) [unfolded same_mru_def]
  have k: "kept s s'" using sm by (auto simp: kept_def alive_info)
  have rc: "remove1 p (cs B) = xs @ ys" using c d by (simp add: remove1_append)
  have sc: "set (?c C) = set (cs C)" for C using c rc by auto
  then have rs: "resident ?c = resident cs" by (simp only: resident_def)
  have "sorted_wrt (newer s) (?c (NameBin e))" for e
  proof (cases "NameBin e = B")
    case True
    then have "sorted_wrt (newer s) (xs @ p # ys)" using co c by (metis contents_def)
    then have "sorted_wrt (newer s) (p # xs @ ys)" using first by (auto simp: sorted_wrt_append newer_def)
    then show ?thesis using True rc by simp
  next
    case False
    then show ?thesis using co by (simp add: contents_def)
  qed
  then have "contents s H ?c" using co unfolding contents_def rs sc by blast
  then have "contents s' H ?c" using sm contents_cong [of ?c s' s H] by simp
  moreover have "mru s' ms" using mru_same [OF s'(3)] inv by (simp add: hot_inv_def)
  ultimately have "hot_inv s' H N ?c ms" using s'(2) inv sm info_of_alive [of s' s] by (simp add: hot_inv_def rs)
  then show ?thesis using s'(1) k by blast
qed

lemma use_fresh:
  assumes inv: "hot_inv s H N cs ms" and c: "cs (NameBin b) = xs @ p # ys" and first: "\<forall>q\<in>set xs. \<not> named s u q"
    and p: "named s u p" "\<not> outdated s p"
  shows "\<exists>s' cs' ms'. use_entry p (the (hnes s p)) (NameBin b) n s = Inr (Some p, s') \<and> kept s s' \<and> hot_inv s' (add_mset p H) N cs' ms'"
proof -
  have pB: "p \<in> set (cs (NameBin b))" using c by simp
  obtain s2 where s2: "rbind (if hne_refCount (the (hnes s p)) = 0 then RemoveFromMRU p s else Inr s) (put_hne p (\<lambda>f. f\<lparr>hne_refCount := hne_refCount f + 1\<rparr>)) = Inr s2"
    "kept s s2" "hot_inv s2 (add_mset p H) N cs (remove1 p ms)" using take_ref [OF inv pB] by blast
  have "\<forall>q\<in>set xs. hne_encoded (hne s2 q) \<noteq> hne_encoded (hne s2 p)"
  proof
    fix q assume "q \<in> set xs"
    then have "alive s2 q" "alive s2 p" using hot_inv_alive [OF s2(3), of _ "NameBin b"] c by auto
    then show "hne_encoded (hne s2 q) \<noteq> hne_encoded (hne s2 p)"
      using named_kept [OF s2(2)] p(1) first \<open>q \<in> set xs\<close> by metis
  qed
  from move_inv [OF s2(3) c this]
  obtain s3 cs' where s3: "move_to_front p (NameBin b) s2 = Inr s3" "kept s2 s3" "hot_inv s3 (add_mset p H) N cs' (remove1 p ms)" by blast
  let ?s = "add_walks n (s3\<lparr>cs_numHotNameHits := cs_numHotNameHits s3 + 1\<rparr>)"
  have "use_entry p (the (hnes s p)) (NameBin b) n s =
      rbind (rbind (if hne_refCount (the (hnes s p)) = 0 then RemoveFromMRU p s else Inr s) (put_hne p (\<lambda>f. f\<lparr>hne_refCount := hne_refCount f + 1\<rparr>)))
        (\<lambda>s2. rbind (move_to_front p (NameBin b) s2) (\<lambda>s3. Inr (Some p, add_walks n (s3\<lparr>cs_numHotNameHits := cs_numHotNameHits s3 + 1\<rparr>))))"
    using p(2) hot_inv_alive [OF inv pB] by (simp add: use_entry_def outdated_def info_fields rbind_assoc)
  then have e: "use_entry p (the (hnes s p)) (NameBin b) n s = Inr (Some p, ?s)" unfolding s2(1) using s3(1) by simp
  have "same_cache s3 ?s" by (simp add: same_cache_def add_walks_def)
  then have "hot_inv ?s (add_mset p H) N cs' (remove1 p ms)" "kept s ?s"
    using s3(3) same_cache_inv(1,2) kept_trans [OF kept_trans [OF s2(2) s3(2)]] by simp_all
  then show ?thesis using e by blast
qed

lemma use_outdated:
  assumes inv: "hot_inv s H N cs ms" and p: "p \<in> set (cs B)" "outdated s p"
  shows "\<exists>s' cs' ms'. use_entry p (the (hnes s p)) B n s = Inr (None, s') \<and> kept s s' \<and> hot_inv s' H N cs' ms'"
proof -
  have a: "alive s p" using hot_inv_alive [OF inv p(1)] .
  have w: "same_cache s1 (add_walks n s1)" for s1 by (simp add: same_cache_def add_walks_def)
  show ?thesis
  proof (cases "p \<in># H")
    case True
    then have "use_entry p (the (hnes s p)) B n s = Inr (None, add_walks n s)"
      using hot_inv_refs [OF inv p(1)] p(2) a by (simp add: use_entry_def outdated_def info_fields refs_field count_eq_zero_iff)
    then show ?thesis using same_cache_inv(1,2) [OF w [of s]] inv by metis
  next
    case False
    then have "p \<in> set ms" using inv residentI [of p cs B, OF p(1)] by (simp add: hot_inv_def)
    from drop_entry [OF inv this p(1)]
    obtain s1 where s1: "rbind (RemoveFromMRU p s) (RemoveHotNameEntry p) = Inr (h_next s p, s1)"
      "hot_inv s1 H N (cs(B := remove1 p (cs B))) (remove1 p ms)" "info_of s1 = (info_of s)(p := None)"
      "hn_now s1 = hn_now s" "scrambledNumbers s1 = scrambledNumbers s" by blast
    then have "kept s s1" by (auto simp: kept_def alive_info)
    moreover have "use_entry p (the (hnes s p)) B n s = Inr (None, add_walks n s1)"
      using hot_inv_refs [OF inv p(1)] p(2) a False s1(1) by (simp add: use_entry_def outdated_def info_fields refs_field count_eq_zero_iff)
    ultimately show ?thesis using same_cache_inv(1,2) [OF w [of s1]] s1(2) kept_trans by metis
  qed
qed

text \<open>What a lookup of \<open>u\<close> returns: an entry for \<open>u\<close> that is not outdated, if the bin has one.\<close>

definition lookup_result :: "hotnames \<Rightarrow> string \<Rightarrow> nat list \<Rightarrow> nat option \<Rightarrow> bool" where
  "lookup_result s u xs r \<longleftrightarrow> (case r of None \<Rightarrow> \<forall>q\<in>set xs. named s u q \<longrightarrow> outdated s q | Some p \<Rightarrow> p \<in> set xs \<and> named s u p \<and> \<not> outdated s p)"

definition held :: "nat option \<Rightarrow> nat multiset \<Rightarrow> nat multiset" where
  "held r H = (case r of None \<Rightarrow> H | Some p \<Rightarrow> add_mset p H)"

lemma held_simps [simp]: "held None H = H" "held (Some p) H = add_mset p H"
  by (simp_all add: held_def)

lemma find_entry_ok:
  assumes "hot_inv s H N cs ms" and "cs (NameBin b) = xs @ ys" and "\<forall>q\<in>set xs. \<not> named s u q"
  shows "\<exists>r s' cs' ms'. find_entry u (NameBin b) (first ys) n s = Some (Inr (r, s')) \<and> kept s s' \<and> hot_inv s' (held r H) N cs' ms'
    \<and> lookup_result s u ys r"
  using assms(2,3)
proof (induction ys arbitrary: xs n)
  case Nil
  have w: "same_cache s (add_walks n s)" by (simp add: same_cache_def add_walks_def)
  then have "find_entry u (NameBin b) (first []) n s = Some (Inr (None, add_walks n s)) \<and> kept s (add_walks n s) \<and> hot_inv (add_walks n s) (held None H) N cs ms"
    using assms(1) same_cache_inv(1,2) [OF w] by (simp add: find_entry.simps [of _ _ None])
  moreover have "lookup_result s u [] None" by (simp add: lookup_result_def)
  ultimately show ?case by blast
next
  case (Cons p ys)
  have b: "bins_rep s cs" and pB: "p \<in> set (cs (NameBin b))" and co: "contents s H cs" using assms(1) Cons.prems by (auto simp: hot_inv_def)
  have a: "alive s p" using bins_alive [OF b pB] .
  obtain v where v: "hne_encoded (hne s p) = Some v" using co pB by (fastforce simp: contents_def)
  have st: "find_entry u (NameBin b) (first (p # ys)) n s =
      (if u \<noteq> v then find_entry u (NameBin b) (first ys) (n + 1) s else Some (use_entry p (the (hnes s p)) (NameBin b) (n + 1) s))"
    using a v chain_links(2) [OF b Cons.prems(1)] by (simp add: find_entry.simps [of _ _ "Some p"] hne_at_alive info_fields hne_fields)
  show ?case
  proof (cases "u = v")
    case False
    then show ?thesis using Cons.IH [of "xs @ [p]" "n + 1"] Cons.prems v st by (fastforce simp: lookup_result_def split: option.splits)
  next
    case True
    show ?thesis
    proof (cases "outdated s p")
      case True
      have "sorted_wrt (newer s) (xs @ p # ys)" using co Cons.prems(1) by (metis contents_def)
      then have "\<forall>q\<in>set ys. newer s p q" by (simp add: sorted_wrt_append)
      then have "lookup_result s u (p # ys) None"
        using True v \<open>u = v\<close> by (auto simp: lookup_result_def newer_def outdated_def)
      then show ?thesis using use_outdated [OF assms(1) pB True, of "n + 1"] st \<open>u = v\<close> by (metis held_simps(1))
    next
      case False
      then have "lookup_result s u (p # ys) (Some p)" using v \<open>u = v\<close> by (simp add: lookup_result_def)
      then show ?thesis using use_fresh [OF assms(1) Cons.prems, of "n + 1"] v False st \<open>u = v\<close> by (metis held_simps(2))
    qed
  qed
qed

lemma FindMatchInHotNameCache_ok:
  assumes inv: "hot_inv s H N cs ms"
  shows "\<exists>r s' cs' ms'. FindMatchInHotNameCache u s = Some (Inr (r, s')) \<and> kept s s' \<and> hot_inv s' (held r H) N cs' ms'
    \<and> lookup_result s u (cs (NameBin (HotNameHash s u))) r"
proof -
  let ?z = "s\<lparr>cs_numHotNameChecks := cs_numHotNameChecks s + 1\<rparr>" let ?b = "HotNameHash s u" let ?B = "NameBin ?b"
  have z: "same_cache s ?z" by (simp add: same_cache_def)
  have iz: "hot_inv ?z H N cs ms" "kept s ?z" using same_cache_inv(1,2) [OF z] inv by simp_all
  have hz: "HotNameHash ?z = HotNameHash s" by (rule hash_scrambled) simp
  have hd: "hb_head (hot_bins ?z ?B) = first (cs ?B)" using iz bins_head unfolding hot_inv_def by blast
  show ?thesis
  proof (cases "cs ?B = []")
    case True
    then have "FindMatchInHotNameCache u s = Some (Inr (None, ?z))" using hd by (simp add: FindMatchInHotNameCache_def Let_def hz)
    moreover have "lookup_result s u (cs ?B) None" using True by (simp add: lookup_result_def)
    ultimately show ?thesis using iz by (metis held_simps(1))
  next
    case False
    obtain s1 cs1 ms1 where s1: "(if hn_now ?z - hb_time (hot_bins ?z ?B) > NAMECACHELIFETIME then RemoveOldEntriesInBin ?b ?z else Some (Inr ?z)) = Some (Inr s1)"
      "kept ?z s1" "hot_inv s1 H N cs1 ms1" "\<forall>q\<in>set (cs ?B). q \<notin> set (cs1 ?B) \<longrightarrow> outdated s q" "set (cs1 ?B) \<subseteq> set (cs ?B)"
    proof (cases "hn_now ?z - hb_time (hot_bins ?z ?B) > NAMECACHELIFETIME")
      case True
      have oz: "outdated ?z = outdated s" by (simp add: outdated_def info_of_def fun_eq_iff)
      obtain s1 ms1 where "RemoveOldEntriesInBin ?b ?z = Some (Inr s1)" "kept ?z s1"
        "hot_inv s1 H N (cs(?B := filter (\<lambda>p. p \<in># H \<or> \<not> outdated s p) (cs ?B))) ms1"
        using RemoveOldEntriesInBin_ok [OF iz(1), of ?b] unfolding oz by blast
      then show ?thesis using True by (intro that) auto
    next
      case False
      then show ?thesis using iz by (intro that [of ?z cs ms]) (auto simp: kept_def)
    qed
    have k: "kept s s1" using kept_trans [OF iz(2) s1(2)] .
    have h1: "hb_head (hot_bins s1 ?B) = first (cs1 ?B)" using s1(3) bins_head unfolding hot_inv_def by blast
    obtain r s' cs' ms' where f: "find_entry u ?B (first (cs1 ?B)) 0 s1 = Some (Inr (r, s'))" "kept s1 s'" "hot_inv s' (held r H) N cs' ms'"
      "lookup_result s1 u (cs1 ?B) r" using find_entry_ok [OF s1(3), of ?b "[]" "cs1 ?B" u 0] by auto
    have "FindMatchInHotNameCache u s = Some (Inr (r, s'))"
      using False hd h1 f(1) unfolding FindMatchInHotNameCache_def Let_def hz s1(1) by (simp add: first_def)
    moreover have "lookup_result s u (cs ?B) r"
    proof -
      have e: "named s1 u q = named s u q \<and> outdated s1 q = outdated s q" if "q \<in> set (cs1 ?B)" for q
        using named_kept [OF k] outdated_kept [OF k] hot_inv_alive [OF s1(3) that] by blast
      show ?thesis using f(4) s1(4,5) e by (auto simp: lookup_result_def split: option.splits)
    qed
    ultimately show ?thesis using f(3) kept_trans [OF k f(2)] by blast
  qed
qed

section \<open>New entries\<close>

text \<open>A write to an entry that is not in the cache.\<close>

lemma new_entry_inv:
  assumes inv: "hot_inv s H N cs ms" and p: "p \<notin> resident cs"
  shows "hot_inv (s\<lparr>hnes := (hnes s)(p := Some e)\<rparr>) H (insert p N) cs ms"
    and "hot_inv (s\<lparr>hnes := (hnes s)(p := None)\<rparr>) H (N - {p}) cs ms"
proof -
  have i: "info_of (s\<lparr>hnes := (hnes s)(p := v)\<rparr>) = (info_of s)(p := map_option bare v)" for v
    by (auto simp: info_of_def fun_eq_iff)
  have "contents (s\<lparr>hnes := (hnes s)(p := v)\<rparr>) H cs = contents s H cs" for v
    by (rule contents_cong) (use p i in auto)
  then have c: "contents (s\<lparr>hnes := (hnes s)(p := v)\<rparr>) H cs" for v using inv by (simp add: hot_inv_def)
  have "p \<notin> set ms" using inv p by (auto simp: hot_inv_def)
  then have m: "mru (s\<lparr>hnes := (hnes s)(p := v)\<rparr>) ms" "bins_rep (s\<lparr>hnes := (hnes s)(p := v)\<rparr>) cs" for v
    using inv bins_upd_outside [OF p] mru_upd_outside by (simp_all add: hot_inv_def)
  have "{q. alive (s\<lparr>hnes := (hnes s)(p := Some e)\<rparr>) q} = insert p {q. alive s q}"
    "{q. alive (s\<lparr>hnes := (hnes s)(p := None)\<rparr>) q} = {q. alive s q} - {p}" by (auto simp: alive_info i)
  then show "hot_inv (s\<lparr>hnes := (hnes s)(p := Some e)\<rparr>) H (insert p N) cs ms"
    "hot_inv (s\<lparr>hnes := (hnes s)(p := None)\<rparr>) H (N - {p}) cs ms"
    using inv p c m by (auto simp: hot_inv_def)
qed

text \<open>\<open>temp\<close> was handed out and is not in the cache; \<open>B\<close> is the bin where it belongs.\<close>

lemma enter_bin_ok:
  assumes inv: "hot_inv s H N cs ms" and p: "p \<in> N" and home: "in_home s B p" and r: "hne_refCount (hne s p) = 1"
  shows "\<exists>s' cs' ms'. enter_bin p B (s\<lparr>numTotalHNEs := numTotalHNEs s + 1\<rparr>) = Inr s' \<and> hot_inv s' (add_mset p H) (N - {p}) cs' ms'
    \<and> info_of s' = (info_of s)(p := Some ((hne s p)\<lparr>hne_time := hn_now s\<rparr>)) \<and> hn_now s' = hn_now s
    \<and> scrambledNumbers s' = scrambledNumbers s \<and> p \<in> set (cs' B)"
proof -
  let ?z = "s\<lparr>numTotalHNEs := numTotalHNEs s + 1\<rparr>" let ?c = "cs(B := p # cs B)"
  have a: "alive s p" and pr: "p \<notin> resident cs" and b: "bins_rep s cs" and m: "mru s ms" and co: "contents s H cs"
    using inv p by (auto simp: hot_inv_def)
  have az: "alive ?z p" and bz: "bins_rep ?z cs" using a b by simp_all
  let ?p = "pushed p B ?z" let ?t = "upd_hne p (\<lambda>f. f\<lparr>hne_time := hn_now ?p\<rparr>) ?p"
  let ?s = "if hb_time (hot_bins ?t B) = 0 then set_time B (hn_now ?t) ?t else ?t"
  note ps = pushed_same [of ?z p B]
  have ap: "alive ?p p" using ps a info_of_alive [of ?p ?z] by (simp add: same_mru_def)
  have e: "enter_bin p B ?z = Inr ?s"
  proof -
    have "enter_bin p B ?z = rbind (Inr ?p) (\<lambda>s3. rbind (put_hne p (\<lambda>f. f\<lparr>hne_time := hn_now s3\<rparr>) s3) (\<lambda>s4.
        Inr (if hb_time (hot_bins s4 B) = 0 then set_time B (hn_now s4) s4 else s4)))"
      unfolding push_writes [OF bz az, of B, symmetric] enter_bin_def Let_def
      by (cases "put_if (hb_head (hot_bins ?z B)) (\<lambda>f. f\<lparr>hne_prev := Some (NextOf p)\<rparr>) ?z") (simp_all add: rbind_assoc)
    then show ?thesis using ap by (simp add: put_hne_alive)
  qed
  have fr: "h_next ?t = h_next ?p" "h_prev ?t = h_prev ?p" "m_next ?t = m_next ?p" "m_prev ?t = m_prev ?p"
    by (cases "hnes ?p p"; auto simp: h_defs fun_eq_iff hnes_upd)+
  have i: "info_of ?t = (info_of s)(p := Some ((hne s p)\<lparr>hne_time := hn_now s\<rparr>))"
  proof -
    have "info_of ?t = (info_of ?p)(p := map_option (\<lambda>e. e\<lparr>hne_time := hn_now s\<rparr>) (info_of ?p p))"
      using ps by (cases "hnes ?p p") (auto simp: info_of_def fun_eq_iff hnes_upd bare_def same_mru_def)
    then show ?thesis using ps a by (auto simp: same_mru_def alive_info)
  qed
  have n: "hn_now ?t = hn_now s" "scrambledNumbers ?t = scrambledNumbers s" "numTotalHNEs ?t = numTotalHNEs s + 1" using ps by (simp_all add: same_mru_def)
  have rc: "resident ?c = insert p (resident cs)" using bins_resident(2) [OF b] .
  have bt: "bins_rep ?t ?c" using pushed_bins [OF bz az pr, of B] by (simp add: bins_rep_def fr)
  have "mru ?p ms" using mru_same [OF ps] m by simp
  then have mt: "mru ?t ms" by (simp add: mru_def fr)
  have ct: "contents ?t (add_mset p H) ?c"
  proof -
    have pc: "p \<notin> set (cs C)" for C using pr residentI [of p cs C] by blast
    have o: "info_of ?t q = info_of s q" if "q \<noteq> p" for q using that i by simp
    have "in_home ?t C q" if "q \<in> set (?c C)" for C q
    proof (cases "q = p")
      case True
      then have "C = B" using that pc by (auto split: if_splits)
      then show ?thesis using True home i hash_scrambled [OF n(2)] by (cases B) simp_all
    next
      case False
      then have "q \<in> set (cs C)" using that by (auto split: if_splits)
      then show ?thesis using co in_home_cong [OF o [OF False] n(2)] by (simp add: contents_def)
    qed
    moreover have "sorted_wrt (newer ?t) (?c (NameBin d))" for d
    proof -
      have nw: "newer ?t x y = newer s x y" if "x \<in> set (cs (NameBin d))" "y \<in> set (cs (NameBin d))" for x y
      proof -
        have xy: "x \<noteq> p" "y \<noteq> p" using pc that by blast+
        show ?thesis unfolding newer_def o [OF xy(1)] o [OF xy(2)] by (rule refl)
      qed
      have "sorted_wrt (newer s) (cs (NameBin d))" using co by (simp add: contents_def)
      then have "sorted_wrt (newer ?t) (cs (NameBin d))" by (rule sorted_wrt_mono_rel [rotated]) (simp add: nw)
      moreover have "newer ?t p q" if "q \<in> set (cs (NameBin d))" for q
      proof -
        have "q \<noteq> p" "hne_time (hne s q) \<le> hn_now s" using pc that co residentI [of q cs, OF that] by (auto simp: contents_def)
        then show ?thesis using i by (simp add: newer_def)
      qed
      ultimately show ?thesis by auto
    qed
    moreover have "hne_refCount (hne ?t q) = int (count (add_mset p H) q) \<and> hne_time (hne ?t q) \<le> hn_now ?t" if "q \<in> resident ?c" for q
    proof (cases "q = p")
      case True
      have "p \<notin># H" using co pr by (auto simp: contents_def)
      then show ?thesis using True i r n(1) by (simp add: not_in_iff)
    next
      case False
      then show ?thesis using that co o [OF False] n(1) by (simp add: contents_def rc)
    qed
    ultimately show ?thesis using co unfolding contents_def rc by (simp add: subset_insertI2)
  qed
  have "alive ?t q = alive s q" for q unfolding alive_info i using a by (simp add: alive_info)
  then have "{q. alive ?t q} = resident ?c \<union> (N - {p})" using inv p unfolding hot_inv_def rc by blast
  moreover have "set ms = resident ?c - set_mset (add_mset p H)" using inv pr by (auto simp: hot_inv_def rc)
  moreover have "numTotalHNEs ?t = int (card (resident ?c))" using inv pr co n(3) by (simp add: hot_inv_def contents_def rc)
  moreover have "resident ?c \<inter> (N - {p}) = {}" using inv by (auto simp: hot_inv_def rc)
  ultimately have "hot_inv ?t (add_mset p H) (N - {p}) ?c ms" using bt mt ct by (simp add: hot_inv_def)
  moreover have "same_cache ?t ?s" by (simp add: same_cache_def)
  ultimately have "hot_inv ?s (add_mset p H) (N - {p}) ?c ms" using same_cache_inv(1) by blast
  moreover have "info_of ?s = info_of ?t" "hn_now ?s = hn_now s" "scrambledNumbers ?s = scrambledNumbers s" "p \<in> set (?c B)" using n by simp_all
  ultimately show ?thesis using e i by metis
qed

lemma set_ref_one:
  assumes inv: "hot_inv s H N cs ms" and p: "p \<in> N"
  obtains e where "put_hne p (\<lambda>f. f\<lparr>hne_refCount := 1\<rparr>) s = Inr (s\<lparr>hnes := (hnes s)(p := Some e)\<rparr>)"
    "hot_inv (s\<lparr>hnes := (hnes s)(p := Some e)\<rparr>) H N cs ms" "bare e = (hne s p)\<lparr>hne_refCount := 1\<rparr>"
proof -
  have a: "alive s p" and n: "p \<notin> resident cs" using inv p by (auto simp: hot_inv_def)
  obtain e where e: "hnes s p = Some e" using a by (auto simp: alive_def)
  have "insert p N = N" using p by auto
  then show ?thesis using new_entry_inv(1) [OF inv n, of "e\<lparr>hne_refCount := 1\<rparr>"] a e
    by (intro that [of "e\<lparr>hne_refCount := 1\<rparr>"]) (auto simp: put_hne_alive upd_hne_def info_of_def bare_def)
qed

text \<open>The state after an entry went into the cache.\<close>

definition entered :: "hotnames \<Rightarrow> nat \<Rightarrow> hotnames \<Rightarrow> bool" where
  "entered s p s' \<longleftrightarrow> info_of s' = (info_of s)(p := Some ((hne s p)\<lparr>hne_refCount := 1, hne_time := hn_now s\<rparr>))
     \<and> hn_now s' = hn_now s \<and> scrambledNumbers s' = scrambledNumbers s"

lemma EnterIntoHotNameCache_ok:
  assumes inv: "hot_inv s H N cs ms" and p: "p \<in> N" and u: "hne_encoded (hne s p) = Some u"
  shows "\<exists>s' cs' ms'. EnterIntoHotNameCache p s = Inr s' \<and> hot_inv s' (add_mset p H) (N - {p}) cs' ms' \<and> entered s p s'
    \<and> p \<in> set (cs' (NameBin (HotNameHash s u)))"
proof -
  obtain e where e: "put_hne p (\<lambda>f. f\<lparr>hne_refCount := 1\<rparr>) s = Inr (s\<lparr>hnes := (hnes s)(p := Some e)\<rparr>)"
    "hot_inv (s\<lparr>hnes := (hnes s)(p := Some e)\<rparr>) H N cs ms" "bare e = (hne s p)\<lparr>hne_refCount := 1\<rparr>"
    using set_ref_one [OF inv p] .
  let ?t = "s\<lparr>hnes := (hnes s)(p := Some e)\<rparr>" let ?B = "NameBin (HotNameHash s u)"
  have i: "info_of ?t = (info_of s)(p := Some (bare e))" by (auto simp: info_of_def fun_eq_iff)
  have h: "HotNameHash ?t = HotNameHash s" "HotNameHash (?t\<lparr>numTotalHNEs := n\<rparr>) = HotNameHash s" for n by (rule hash_scrambled, simp)+
  have en: "hne_encoded e = Some u" using u arg_cong [OF e(3), of hne_encoded] by (simp add: bare_def)
  have "in_home ?t ?B p" "hne_refCount (hne ?t p) = 1" using i e(3) u h by simp_all
  from enter_bin_ok [OF e(2) p this]
  obtain s' cs' ms' where s': "enter_bin p ?B (?t\<lparr>numTotalHNEs := numTotalHNEs ?t + 1\<rparr>) = Inr s'" "hot_inv s' (add_mset p H) (N - {p}) cs' ms'"
    "info_of s' = (info_of ?t)(p := Some ((hne ?t p)\<lparr>hne_time := hn_now ?t\<rparr>))" "hn_now s' = hn_now ?t"
    "scrambledNumbers s' = scrambledNumbers ?t" "p \<in> set (cs' ?B)" by blast
  have "EnterIntoHotNameCache p s = Inr s'"
    using e(1) s'(1) en h(2) by (simp add: EnterIntoHotNameCache_def hne_at_def)
  moreover have "entered s p s'" using s'(3-5) e(3) by (simp add: entered_def i)
  ultimately show ?thesis using s'(2,6) by blast
qed

lemma EnterIntoHotCGICache_ok:
  assumes inv: "hot_inv s H N cs ms" and p: "p \<in> N" and u: "hne_stripped (hne s p) = Some u"
  shows "\<exists>s' cs' ms'. EnterIntoHotCGICache p s = Inr s' \<and> hot_inv s' (add_mset p H) (N - {p}) cs' ms' \<and> entered s p s'
    \<and> p \<in> set (cs' (CgiBin (unat (foldl cgi_hash_step 0 u AND 255))))"
proof -
  obtain e where e: "put_hne p (\<lambda>f. f\<lparr>hne_refCount := 1\<rparr>) s = Inr (s\<lparr>hnes := (hnes s)(p := Some e)\<rparr>)"
    "hot_inv (s\<lparr>hnes := (hnes s)(p := Some e)\<rparr>) H N cs ms" "bare e = (hne s p)\<lparr>hne_refCount := 1\<rparr>"
    using set_ref_one [OF inv p] .
  let ?t = "s\<lparr>hnes := (hnes s)(p := Some e)\<rparr>" let ?B = "CgiBin (unat (foldl cgi_hash_step 0 u AND 255))"
  have i: "info_of ?t = (info_of s)(p := Some (bare e))" by (auto simp: info_of_def fun_eq_iff)
  have en: "hne_stripped e = Some u" using u arg_cong [OF e(3), of hne_stripped] by (simp add: bare_def)
  have "in_home ?t ?B p" "hne_refCount (hne ?t p) = 1" using i e(3) u by simp_all
  from enter_bin_ok [OF e(2) p this]
  obtain s' cs' ms' where s': "enter_bin p ?B (?t\<lparr>numTotalHNEs := numTotalHNEs ?t + 1\<rparr>) = Inr s'" "hot_inv s' (add_mset p H) (N - {p}) cs' ms'"
    "info_of s' = (info_of ?t)(p := Some ((hne ?t p)\<lparr>hne_time := hn_now ?t\<rparr>))" "hn_now s' = hn_now ?t"
    "scrambledNumbers s' = scrambledNumbers ?t" "p \<in> set (cs' ?B)" by blast
  have "EnterIntoHotCGICache p s = Inr s'"
    using e(1) s'(1) en by (simp add: EnterIntoHotCGICache_def hne_at_def)
  moreover have "entered s p s'" using s'(3-5) e(3) by (simp add: entered_def i)
  ultimately show ?thesis using s'(2,6) by blast
qed

text \<open>Which entry goes: the one that was released longest ago.\<close>

lemma GetEmptyHNE_ok:
  assumes inv: "hot_inv s H N cs ms" and mem: "\<And>t f. mem t = Some f \<Longrightarrow> \<not> alive t f"
  shows "\<exists>r t s' cs' ms'. GetEmptyHNE mx mem s = Inr (r, s') \<and> hot_inv s' H (N \<union> set_option r) cs' ms' \<and> N \<inter> set_option r = {}
    \<and> kept s t \<and> r = mem t \<and> info_of s' = (case r of None \<Rightarrow> info_of t | Some f \<Rightarrow> (info_of t)(f := Some zero_hne))
    \<and> hn_now s' = hn_now s \<and> scrambledNumbers s' = scrambledNumbers s
    \<and> (if ms \<noteq> [] \<and> numTotalHNEs s \<ge> mx then ms' = butlast ms \<and> resident cs' = resident cs - {last ms} else ms' = ms \<and> cs' = cs)"
proof -
  have m: "mru s ms" and b: "bins_rep s cs" using inv by (auto simp: hot_inv_def)
  have hd: "headMRU s \<noteq> None \<longleftrightarrow> ms \<noteq> []" "ms \<noteq> [] \<Longrightarrow> tailMRU s = Some (last ms)" "distinct ms" using m by (auto simp: mru_def ends_def)
  let ?ev = "ms \<noteq> [] \<and> numTotalHNEs s \<ge> mx"
  obtain t cs1 ms1 where t: "(if headMRU s \<noteq> None \<and> numTotalHNEs s \<ge> mx then
              (case tailMRU s of None \<Rightarrow> Inl AssertFail
               | Some t \<Rightarrow> rbind (rbind (RemoveFromMRU t s) (RemoveHotNameEntry t)) (\<lambda>(n, s1). Inr s1)) else Inr s) = Inr t"
    "hot_inv t H N cs1 ms1" "kept s t" "if ?ev then ms1 = butlast ms \<and> resident cs1 = resident cs - {last ms} else ms1 = ms \<and> cs1 = cs"
  proof (cases ?ev)
    case True
    then have l: "last ms \<in> set ms" by simp
    then obtain B where B: "last ms \<in> set (cs B)" using inv by (auto simp: hot_inv_def resident_def)
    obtain t where "rbind (RemoveFromMRU (last ms) s) (RemoveHotNameEntry (last ms)) = Inr (h_next s (last ms), t)"
      "hot_inv t H N (cs(B := remove1 (last ms) (cs B))) (remove1 (last ms) ms)" "info_of t = (info_of s)(last ms := None)"
      "hn_now t = hn_now s" "scrambledNumbers t = scrambledNumbers s" using drop_entry [OF inv l B] by blast
    moreover have "remove1 (last ms) ms = butlast ms" using True hd(3)
      by (metis append_butlast_last_id last_notin_butlast remove1.simps(2) remove1_append append_Nil2)
    ultimately show ?thesis using True hd(1,2) bins_resident(1) [OF b B]
      by (intro that [of t "cs(B := remove1 (last ms) (cs B))" "butlast ms"]) (auto simp: kept_def alive_info)
  next
    case False
    then show ?thesis using hd inv by (intro that [of s cs ms]) (auto simp: kept_def)
  qed
  show ?thesis
  proof (cases "mem t")
    case None
    then have "GetEmptyHNE mx mem s = Inr (None, t)" using t(1) by (simp only: GetEmptyHNE_def rbind.simps option.case)
    then show ?thesis using t None by (intro exI [of _ None] exI [of _ t] exI [of _ cs1] exI [of _ ms1]) (auto simp: kept_def)
  next
    case (Some f)
    let ?s = "t\<lparr>hnes := (hnes t)(f := Some zero_hne)\<rparr>"
    have e: "GetEmptyHNE mx mem s = Inr (Some f, ?s)" using t(1) Some by (simp only: GetEmptyHNE_def rbind.simps option.case)
    have "f \<notin> resident cs1" "f \<notin> N" using mem [OF Some] t(2) by (auto simp: hot_inv_def)
    moreover have "info_of ?s = (info_of t)(f := Some zero_hne)" by (auto simp: info_of_def fun_eq_iff bare_def zero_hne_def)
    ultimately show ?thesis using e t Some new_entry_inv(1) [OF t(2)]
      by (intro exI [of _ "Some f"] exI [of _ t] exI [of _ ?s] exI [of _ cs1] exI [of _ ms1]) (auto simp: kept_def)
  qed
qed

section \<open>Release\<close>

lemma ReleaseHNE_ok:
  assumes inv: "hot_inv s H N cs ms" and p: "p \<in># H"
  shows "\<exists>s' cs' ms'. ReleaseHNE p s = Inr s' \<and> kept s s' \<and> hot_inv s' (H - {#p#}) N cs' ms'"
proof -
  have b: "bins_rep s cs" and m: "mru s ms" and c: "contents s H cs" and ms: "set ms = resident cs - set_mset H"
    using inv by (auto simp: hot_inv_def)
  have pr: "p \<in> resident cs" using c p by (auto simp: contents_def)
  then obtain B where pB: "p \<in> set (cs B)" by (auto simp: resident_def)
  have a: "alive s p" using bins_alive [OF b pB] .
  define t where "t = add_ref p (-1) s" let ?H = "H - {#p#}"
  have i: "info_of t q = (if q = p then map_option (\<lambda>e. e\<lparr>hne_refCount := hne_refCount e - 1\<rparr>) (info_of s p) else info_of s q)" for q
    using add_ref_info [of p "-1" s q] by (simp add: t_def)
  have k: "kept s t" and tr: "bins_rep t cs" "mru t ms" "alive t = alive s" "numTotalHNEs t = numTotalHNEs s" "hn_now t = hn_now s"
    "scrambledNumbers t = scrambledNumbers s" using b m add_ref_kept [of s p "-1"] add_ref_rep [of p "-1" s] by (simp_all add: t_def)
  have rt: "hne_refCount (hne t q) = int (count ?H q)" if "q \<in> resident cs" for q
    using c that p a by (auto simp: contents_def i alive_info of_nat_diff Suc_leI)
  have ct: "contents t ?H cs"
    by (rule contents_kept [OF k c]) (use b rt c tr in \<open>auto simp: bins_rep_def contents_def dest: in_diffD\<close>)
  have R: "ReleaseHNE p s = (if count ?H p = 0 then
       (if outdated s p then rbind (RemoveHotNameEntry p t) (\<lambda>(n, s2). Inr s2) else AddToMRU p t) else Inr t)"
  proof -
    have e: "put_hne p (\<lambda>f. f\<lparr>hne_refCount := hne_refCount f - 1\<rparr>) s = Inr t" using a by (simp add: put_hne_alive t_def)
    have "hne_refCount (the (hnes t p)) = int (count ?H p)" "hne_time (the (hnes t p)) = hne_time (hne s p)"
      using rt [OF pr] a refs_field [of t p] info_fields(1) [of t p] tr(3) by (auto simp: refs_def i alive_info)
    then show ?thesis unfolding ReleaseHNE_def e rbind.simps using a tr(3,5) by (simp add: hne_at_alive outdated_def)
  qed
  show ?thesis
  proof (cases "count ?H p = 0")
    case False
    then have "set_mset ?H = set_mset H" using p by (metis count_eq_zero_iff insert_DiffM insert_absorb set_mset_add_mset_insert)
    then have "hot_inv t ?H N cs ms" using inv ct tr by (simp add: hot_inv_def)
    then show ?thesis using R False k by auto
  next
    case True
    have sH: "set_mset ?H = set_mset H - {p}"
    proof -
      have "q \<in># ?H \<longleftrightarrow> q \<in># H \<and> q \<noteq> p" for q
        using True by (cases "q = p") (simp_all add: count_greater_zero_iff [symmetric] del: count_greater_zero_iff)
      then show ?thesis by blast
    qed
    have nm: "p \<notin> set ms" "p \<notin># ?H" unfolding sH ms using p by blast+
    show ?thesis
    proof (cases "outdated s p")
      case True
      have "\<exists>s'. RemoveHotNameEntry p t = Inr (h_next t p, s') \<and> hot_inv s' ?H N (cs(B := remove1 p (cs B))) ms \<and> info_of s' = (info_of t)(p := None)
        \<and> hn_now s' = hn_now t \<and> scrambledNumbers s' = scrambledNumbers t"
        by (rule free_entry) (use tr ct ms sH inv pB nm p in \<open>auto simp: hot_inv_def\<close>)
      then obtain s' where s': "RemoveHotNameEntry p t = Inr (h_next t p, s')" "hot_inv s' ?H N (cs(B := remove1 p (cs B))) ms"
        "info_of s' = (info_of t)(p := None)" "hn_now s' = hn_now t" "scrambledNumbers s' = scrambledNumbers t" by blast
      then have k': "kept t s'" by (auto simp: kept_def alive_info)
      then show ?thesis using R \<open>count ?H p = 0\<close> True s' kept_trans [OF k k'] by auto
    next
      case False
      have "refs t p = 0" using rt [OF pr] True by (simp add: refs_def)
      then obtain s' where s': "AddToMRU p t = Inr s'" "mru s' (p # ms)" "same_bins t s'"
        using AddToMRU_ok [of t ms p] tr nm(1) a by auto
      note sb = s'(3) [unfolded same_bins_def]
      have k': "kept t s'" using sb by (auto simp: kept_def alive_info)
      have "hot_inv s' ?H N cs (p # ms)"
        using s'(2) bins_same [OF s'(3)] tr sb info_of_alive [of s' t] inv sH ms pr ct contents_cong [of cs s' t ?H]
        by (auto simp: hot_inv_def)
      then show ?thesis using R \<open>count ?H p = 0\<close> False s'(1) kept_trans [OF k k'] by auto
    qed
  qed
qed

end
