(* ===== verification/Flash_Hotcgi.thy ===== *)
theory Flash_Hotcgi
  imports Flash_Hotname_Run C_Library
begin

text \<open>
  The lookup of CGI programs in \<open>flash_server/hotname.c\<close>: the requested name is walked from
  component to component, the bin of what was walked so far is searched for an entry that is a
  prefix of the name, and what follows is copied to the path information and the query of the
  request.
\<close>

section \<open>Data and operations\<close>

text \<open>The fields of \<open>CGIInfo\<close> (\<open>cgi.h\<close>) that the lookup writes; the buffers are arrays.\<close>

record CGIInfo =
  cgi_pathInfo :: string
  cgi_query :: string
  cgi_maxPathInfo :: int
  cgi_maxQuery :: int

text \<open>\<open>realloc_str\<close> of \<open>libhttpd.c\<close>; \<open>alloc n\<close> are the bytes that \<open>malloc\<close> or the grown part of
  \<open>realloc\<close> return. The result is whether it succeeded, the buffer and its size, which changes also
  when the memory is not there.\<close>

definition realloc_str :: "(nat \<Rightarrow> string option) \<Rightarrow> string \<Rightarrow> int \<Rightarrow> int \<Rightarrow> bool \<times> string \<times> int" where
  "realloc_str alloc buf maxsize sz =
     (if maxsize = 0 then
        let m = max 30 sz in
        (case alloc (nat (m + 1)) of None \<Rightarrow> (False, buf, m) | Some mem \<Rightarrow> (True, mem[0 := NUL], m))
      else if sz > maxsize then
        let m = max (maxsize * 2) (sz * 5 div 4) in
        (case alloc (nat (m + 1)) of None \<Rightarrow> (False, buf, m) | Some mem \<Rightarrow> (True, buf @ drop (length buf) mem, m))
      else (True, buf, maxsize))"

text \<open>The search of a bin: the first entry that is a prefix of the name decides.\<close>

partial_function (option) test_entry :: "string \<Rightarrow> nat option \<Rightarrow> hotnames \<Rightarrow> nat option res option" where
  "test_entry matchName entry s =
     (case entry of
        None \<Rightarrow> Some (Inr None)
      | Some p \<Rightarrow>
          (case hne_at p s of
             Inl u \<Rightarrow> Some (Inl u)
           | Inr e \<Rightarrow>
               (case hne_stripped e of
                  None \<Rightarrow> Some (Inl NullDeref)
                | Some stripped \<Rightarrow>
                    if strncmp_eq stripped matchName (length stripped)
                    then Some (Inr (if hn_now s - hne_time e > NAMECACHELIFETIME then None else Some p))
                    else test_entry matchName (hne_next e) s)))"

text \<open>The removal of old entries works on \<open>hotNames\<close> also here.\<close>

definition TestForCGIMatch :: "nat \<Rightarrow> string \<Rightarrow> hotnames \<Rightarrow> (nat option \<times> hotnames) res option" where
  "TestForCGIMatch b matchName s =
     (if hb_head (hot_bins s (CgiBin b)) = None then Some (Inr (None, s))
      else
        Option.bind (if hn_now s - hb_time (hot_bins s (CgiBin b)) > NAMECACHELIFETIME
                     then RemoveOldEntriesInBin b s else Some (Inr s)) (\<lambda>r.
        case r of Inl u \<Rightarrow> Some (Inl u)
        | Inr s1 \<Rightarrow>
            map_option (\<lambda>q. rbind q (\<lambda>p. Inr (p, s1))) (test_entry matchName (hb_head (hot_bins s1 (CgiBin b))) s1)))"

text \<open>The walk: \<open>rest\<close> is the name from \<open>nameWalker\<close> on. A \<open>continue\<close> ends the loop when it has
  reached the end of the name.\<close>

fun cgi_walk :: "string \<Rightarrow> 32 word \<Rightarrow> string \<Rightarrow> hotnames \<Rightarrow> ((nat \<times> string) option \<times> hotnames) res option" where
  "cgi_walk matchName hashBin [] s =
     Option.bind (TestForCGIMatch (unat (hashBin AND 255)) matchName s) (\<lambda>r.
       Some (rbind r (\<lambda>(entry, s1). Inr (map_option (\<lambda>p. (p, [])) entry, s1))))"
| "cgi_walk matchName hashBin (tempChar # rest) s =
     (if tempChar \<noteq> CHR ''/'' \<and> tempChar \<noteq> CHR ''?'' then
        (if rest = [] then Some (Inr (None, s)) else cgi_walk matchName (cgi_hash_step hashBin tempChar) rest s)
      else
        Option.bind (TestForCGIMatch (unat (hashBin AND 255)) matchName s) (\<lambda>r.
        case r of Inl u \<Rightarrow> Some (Inl u)
        | Inr (Some p, s1) \<Rightarrow> Some (Inr (Some (p, tempChar # rest), s1))
        | Inr (None, s1) \<Rightarrow>
            if tempChar \<noteq> CHR ''/'' then Some (Inr (None, s1))
            else if rest = [] then Some (Inr (None, s1))
            else cgi_walk matchName (cgi_hash_step hashBin tempChar) rest s1))"

text \<open>What follows the program in the name: path information and query, if there are any.\<close>

definition split_rest :: "string \<Rightarrow> string option \<times> string option" where
  "split_rest rest =
     (case rest of
        [] \<Rightarrow> (None, None)
      | c # r \<Rightarrow>
          if c = CHR ''?'' then (None, Some r)
          else
            let x = takeWhile (\<lambda>c. c \<noteq> CHR ''?'') r in
            (Some x, if length x < length r then Some (drop (Suc (length x)) r) else None))"

text \<open>The name after a match: the character at \<open>nameWalker\<close> and the question mark are overwritten.\<close>

definition cut_name :: "string \<Rightarrow> string \<Rightarrow> string" where
  "cut_name matchName rest =
     (let n = length matchName - length rest in
      if rest = [] then matchName
      else if hd rest = CHR ''?'' then matchName[n := NUL]
      else
        let x = takeWhile (\<lambda>c. c \<noteq> CHR ''?'') (tl rest); q = Suc n + length x in
        (if q < length matchName then matchName[q := NUL] else matchName)[n := NUL])"

text \<open>Copying one of the two strings; \<open>None\<close> for the buffer when memory is short.\<close>

definition copy_part :: "(nat \<Rightarrow> string option) \<Rightarrow> string option \<Rightarrow> string \<Rightarrow> int \<Rightarrow> (bool \<times> string \<times> int) res" where
  "copy_part alloc part buf maxsize =
     (case part of
        None \<Rightarrow> Inr (True, buf, maxsize)
      | Some x \<Rightarrow>
          let (ok, buf1, max1) = (if maxsize < int (length x) then realloc_str alloc buf maxsize (int (length x)) else (True, buf, maxsize)) in
          if \<not> ok then Inr (False, buf1, max1)
          else rbind (strcpy buf1 x) (\<lambda>buf2. Inr (True, buf2, max1)))"

definition FindMatchInHotCGICache ::
  "(nat \<Rightarrow> string option) \<Rightarrow> CGIInfo \<Rightarrow> string \<Rightarrow> hotnames \<Rightarrow> (nat option \<times> CGIInfo \<times> string \<times> hotnames) res option" where
  "FindMatchInHotCGICache alloc cg matchName s =
     Option.bind (cgi_walk matchName 0 matchName s) (\<lambda>r. Some (
     rbind r (\<lambda>(found, s1).
     case found of
       None \<Rightarrow> Inr (None, cg, matchName, s1)
     | Some (p, rest) \<Rightarrow>
         let (extraInfo, query) = split_rest rest; name1 = cut_name matchName rest in
         if cgi_pathInfo cg = [] then Inl BufferOverflow
         else
           rbind (copy_part alloc extraInfo ((cgi_pathInfo cg)[0 := NUL]) (cgi_maxPathInfo cg)) (\<lambda>(ok, buf, mx).
           let cg1 = cg\<lparr>cgi_pathInfo := buf, cgi_maxPathInfo := mx\<rparr> in
           if \<not> ok then Inr (None, cg1, name1, s1)
           else
             rbind (copy_part alloc query (cgi_query cg1) (cgi_maxQuery cg1)) (\<lambda>(ok, buf, mx).
             let cg2 = cg1\<lparr>cgi_query := buf, cgi_maxQuery := mx\<rparr> in
             if \<not> ok then Inr (None, cg2, name1, s1)
             else
               rbind (hne_at p s1) (\<lambda>e.
               rbind (if hne_refCount e = 0 then RemoveFromMRU p s1 else Inr s1) (\<lambda>s2.
               rbind (put_hne p (\<lambda>f. f\<lparr>hne_refCount := hne_refCount f + 1\<rparr>) s2) (\<lambda>s3.
               Inr (Some p, cg2, name1, s3)))))))))"

section \<open>A bare program name is never found\<close>

text \<open>Only the bins of what precedes a slash or a question mark are searched.\<close>

lemma cgi_walk_missed:
  assumes "\<forall>i<length rest. rest ! i = CHR ''/'' \<or> rest ! i = CHR ''?'' \<longrightarrow>
      hb_head (hot_bins s (CgiBin (unat (foldl cgi_hash_step h (take i rest) AND 255)))) = None" and "rest \<noteq> []"
  shows "cgi_walk name h rest s = Some (Inr (None, s))"
  using assms
proof (induction rest arbitrary: h)
  case (Cons c rest)
  have IH: "cgi_walk name (cgi_hash_step h c) rest s = Some (Inr (None, s))" if "rest \<noteq> []"
  proof (rule Cons.IH [OF _ that], intro allI impI)
    fix i
    assume "i < length rest" "rest ! i = CHR ''/'' \<or> rest ! i = CHR ''?''"
    then show "hb_head (hot_bins s (CgiBin (unat (foldl cgi_hash_step (cgi_hash_step h c) (take i rest) AND 255)))) = None"
      using Cons.prems(1) [rule_format, of "Suc i"] by simp
  qed
  have "TestForCGIMatch (unat (h AND 255)) name s = Some (Inr (None, s))" if "c = CHR ''/'' \<or> c = CHR ''?''"
    using Cons.prems(1) [rule_format, of 0] that by (simp add: TestForCGIMatch_def)
  then show ?case using IH by auto
qed simp

lemma FindMatchInHotCGICache_missed:
  assumes "\<forall>i<length name. name ! i = CHR ''/'' \<or> name ! i = CHR ''?'' \<longrightarrow>
      hb_head (hot_bins s (CgiBin (unat (foldl cgi_hash_step 0 (take i name) AND 255)))) = None" and "name \<noteq> []"
  shows "FindMatchInHotCGICache alloc cg name s = Some (Inr (None, cg, name, s))"
  using cgi_walk_missed [OF assms, of name] by (simp add: FindMatchInHotCGICache_def)

section \<open>The search of a bin\<close>

lemma strncmp_prefix: "no_nul a \<Longrightarrow> strncmp_eq a b (length a) \<longleftrightarrow> prefix a (cstr b)"
proof -
  assume a: "no_nul a"
  have "take (length a) (cstr b @ [NUL]) = a \<longleftrightarrow> prefix a (cstr b)"
  proof
    assume t: "take (length a) (cstr b @ [NUL]) = a"
    have "length a \<le> length (cstr b)"
    proof (rule ccontr)
      assume "\<not> length a \<le> length (cstr b)"
      then have "NUL \<in> set a" using t by (metis in_set_conv_decomp linorder_not_le take_all length_append_singleton not_less_eq_eq nat_le_linear Suc_leI)
      then show False using a by (simp add: no_nul_def)
    qed
    then show "prefix a (cstr b)" using t by (metis take_append take_is_prefix diff_is_0_eq take0 append_Nil2)
  qed (auto simp: prefix_def)
  then show ?thesis using a by (auto simp: strncmp_eq_def)
qed

text \<open>An entry that is a prefix of the name and not outdated.\<close>

definition cgi_match :: "hotnames \<Rightarrow> string \<Rightarrow> nat \<Rightarrow> bool" where
  "cgi_match s name p \<longleftrightarrow> (\<exists>u. hne_stripped (hne s p) = Some u \<and> strncmp_eq u name (length u))"

definition cgi_hit :: "hotnames \<Rightarrow> string \<Rightarrow> nat \<Rightarrow> bool" where
  "cgi_hit s name p \<longleftrightarrow> cgi_match s name p \<and> \<not> outdated s p"

lemma cgi_kept:
  assumes "kept s s'" and "alive s' p"
  shows "cgi_match s' name p = cgi_match s name p" "cgi_hit s' name p = cgi_hit s name p"
proof -
  have "hne_stripped (hne s' p) = hne_stripped (hne s p)" using assms unref_fields(3) [of "hne s' p" "hne s p"] by (simp add: kept_def)
  then show "cgi_match s' name p = cgi_match s name p" by (simp add: cgi_match_def)
  then show "cgi_hit s' name p = cgi_hit s name p" using outdated_kept [OF assms] by (simp add: cgi_hit_def)
qed

text \<open>A search of \<open>ys\<close> finds an entry that matches, if all that match are up to date.\<close>

definition search_ok :: "hotnames \<Rightarrow> string \<Rightarrow> nat list \<Rightarrow> nat option \<Rightarrow> bool" where
  "search_ok s name ys r \<longleftrightarrow> (\<forall>p. r = Some p \<longrightarrow> p \<in> set ys \<and> cgi_hit s name p)
     \<and> ((\<forall>p\<in>set ys. cgi_match s name p \<longrightarrow> \<not> outdated s p) \<longrightarrow> r = None \<longrightarrow> (\<forall>p\<in>set ys. \<not> cgi_match s name p))"

lemma search_kept:
  assumes "kept s s'" and "\<forall>p\<in>set ys. alive s' p"
  shows "search_ok s' name ys r = search_ok s name ys r"
proof -
  have "cgi_match s' name p = cgi_match s name p \<and> cgi_hit s' name p = cgi_hit s name p \<and> outdated s' p = outdated s p" if "p \<in> set ys" for p
    using cgi_kept [OF assms(1)] outdated_kept [OF assms(1)] assms(2) that by simp
  then show ?thesis unfolding search_ok_def by (cases r) auto
qed

lemma test_entry_ok:
  assumes inv: "hot_inv s H N cs ms" and c: "cs (CgiBin b) = xs @ ys"
  shows "\<exists>r. test_entry name (first ys) s = Some (Inr r) \<and> search_ok s name ys r"
  using c
proof (induction ys arbitrary: xs)
  case Nil
  then show ?case by (simp add: test_entry.simps [of _ None] search_ok_def)
next
  case (Cons p ys)
  have b: "bins_rep s cs" and pB: "p \<in> set (cs (CgiBin b))" and co: "contents s H cs" using inv Cons.prems by (auto simp: hot_inv_def)
  have a: "alive s p" using bins_alive [OF b pB] .
  obtain v where v: "hne_stripped (hne s p) = Some v" using co pB by (fastforce simp: contents_def)
  have "test_entry name (first (p # ys)) s = (if strncmp_eq v name (length v) then Some (Inr (if outdated s p then None else Some p))
      else test_entry name (first ys) s)"
    using a v chain_links(2) [OF b Cons.prems] by (simp add: test_entry.simps [of _ "Some p"] hne_at_alive info_fields hne_fields outdated_def)
  moreover have m: "cgi_match s name p = strncmp_eq v name (length v)" using v by (simp add: cgi_match_def)
  moreover obtain r where "test_entry name (first ys) s = Some (Inr r)" "search_ok s name ys r" using Cons.IH [of "xs @ [p]"] Cons.prems by auto
  ultimately show ?case by (cases "cgi_match s name p") (auto simp: search_ok_def cgi_hit_def)
qed

lemma TestForCGIMatch_ok:
  assumes inv: "hot_inv s H N cs ms"
  shows "\<exists>r s' cs' ms'. TestForCGIMatch b name s = Some (Inr (r, s')) \<and> kept s s' \<and> hot_inv s' H N cs' ms'
    \<and> (\<forall>d. cs' (CgiBin d) = cs (CgiBin d)) \<and> search_ok s name (cs (CgiBin b)) r"
proof (cases "hb_head (hot_bins s (CgiBin b)) = None")
  case True
  then have "TestForCGIMatch b name s = Some (Inr (None, s))" by (simp add: TestForCGIMatch_def)
  moreover have "first (cs (CgiBin b)) = None" using True bins_head [of s cs "CgiBin b"] inv by (simp add: hot_inv_def)
  then have "search_ok s name (cs (CgiBin b)) None" by (simp add: search_ok_def first_def split: if_splits)
  ultimately show ?thesis using inv by (auto simp: kept_def)
next
  case False
  obtain s1 cs1 ms1 where s1: "(if hn_now s - hb_time (hot_bins s (CgiBin b)) > NAMECACHELIFETIME then RemoveOldEntriesInBin b s else Some (Inr s)) = Some (Inr s1)"
    "kept s s1" "hot_inv s1 H N cs1 ms1" "\<forall>d. cs1 (CgiBin d) = cs (CgiBin d)"
  proof (cases "hn_now s - hb_time (hot_bins s (CgiBin b)) > NAMECACHELIFETIME")
    case True
    obtain s1 ms1 where "RemoveOldEntriesInBin b s = Some (Inr s1)" "kept s s1"
      "hot_inv s1 H N (cs(NameBin b := filter (\<lambda>p. p \<in># H \<or> \<not> outdated s p) (cs (NameBin b)))) ms1"
      using RemoveOldEntriesInBin_ok [OF inv, of b] by blast
    then show ?thesis using True by (intro that) auto
  next
    case False
    then show ?thesis using inv by (intro that [of s cs ms]) (auto simp: kept_def)
  qed
  have h: "hb_head (hot_bins s1 (CgiBin b)) = first (cs1 (CgiBin b))" using s1(3) bins_head unfolding hot_inv_def by blast
  obtain r where r: "test_entry name (first (cs1 (CgiBin b))) s1 = Some (Inr r)" "search_ok s1 name (cs1 (CgiBin b)) r"
    using test_entry_ok [OF s1(3), of b "[]" "cs1 (CgiBin b)" name] by auto
  have "TestForCGIMatch b name s = Some (Inr (r, s1))"
    using False h r(1) unfolding TestForCGIMatch_def s1(1) by auto
  moreover have "search_ok s name (cs (CgiBin b)) r"
    using r(2) search_kept [OF s1(2)] hot_inv_alive [OF s1(3), of _ "CgiBin b"] s1(4) by metis
  ultimately show ?thesis using s1(2-4) by blast
qed

section \<open>The walk\<close>

text \<open>Where the walk stops with a match: at a slash or a question mark, in the bin of what precedes it.\<close>

definition stops_at :: "string \<Rightarrow> string \<Rightarrow> bool" where
  "stops_at name rest \<longleftrightarrow> suffix rest name \<and> (case rest of [] \<Rightarrow> name = [] | c # r \<Rightarrow> c = CHR ''/'' \<or> c = CHR ''?'')"

definition walk_ok :: "hotnames \<Rightarrow> string \<Rightarrow> nat multiset \<Rightarrow> nat set \<Rightarrow> (bin \<Rightarrow> nat list) \<Rightarrow> (nat \<times> string) option \<Rightarrow> hotnames \<Rightarrow> bool" where
  "walk_ok s name H N cs r s' \<longleftrightarrow> kept s s' \<and> (\<exists>cs' ms. hot_inv s' H N cs' ms \<and> (\<forall>d. cs' (CgiBin d) = cs (CgiBin d))
     \<and> (\<forall>p rest. r = Some (p, rest) \<longrightarrow> stops_at name rest \<and> cgi_hit s' name p \<and> (\<exists>b. p \<in> set (cs (CgiBin b)))))"

lemma walk_ok_trans: "kept s s1 \<Longrightarrow> \<forall>d. cs1 (CgiBin d) = cs (CgiBin d) \<Longrightarrow> walk_ok s1 name H N cs1 r s' \<Longrightarrow> walk_ok s name H N cs r s'"
  by (auto simp: walk_ok_def dest: kept_trans)

lemma walk_ok_None: "hot_inv s H N cs ms \<Longrightarrow> walk_ok s name H N cs None s"
  by (auto simp: walk_ok_def kept_def)

lemma test_walk_ok:
  assumes inv: "hot_inv s H N cs ms"
  shows "\<exists>r s' cs' ms'. TestForCGIMatch b name s = Some (Inr (r, s')) \<and> kept s s' \<and> hot_inv s' H N cs' ms' \<and> (\<forall>d. cs' (CgiBin d) = cs (CgiBin d))
    \<and> (\<forall>p rest. r = Some p \<longrightarrow> stops_at name rest \<longrightarrow> walk_ok s name H N cs (Some (p, rest)) s')"
proof -
  obtain r s' cs' ms' where t: "TestForCGIMatch b name s = Some (Inr (r, s'))" "kept s s'" "hot_inv s' H N cs' ms'"
    "\<forall>d. cs' (CgiBin d) = cs (CgiBin d)" "search_ok s name (cs (CgiBin b)) r"
    using TestForCGIMatch_ok [OF inv] by blast
  have "walk_ok s name H N cs (Some (p, rest)) s'" if "r = Some p" "stops_at name rest" for p rest
  proof -
    have pb: "p \<in> set (cs' (CgiBin b))" "cgi_hit s name p" using t(4,5) that(1) by (simp_all add: search_ok_def)
    then have "cgi_hit s' name p" using cgi_kept(2) [OF t(2) hot_inv_alive [OF t(3) pb(1)]] by simp
    then show ?thesis using t(2,3) that(2) t(4) pb(1) unfolding walk_ok_def by (intro conjI exI [of _ cs'] exI [of _ ms']) auto
  qed
  then show ?thesis using t(1-4) by blast
qed

lemma cgi_walk_ok:
  assumes "hot_inv s H N cs ms" and "name = pre @ rest" and "rest = [] \<Longrightarrow> pre = []"
  shows "\<exists>r s'. cgi_walk name h rest s = Some (Inr (r, s')) \<and> walk_ok s name H N cs r s'"
  using assms
proof (induction rest arbitrary: s cs ms h pre)
  case Nil
  obtain r s' cs' ms' where t: "TestForCGIMatch (unat (h AND 255)) name s = Some (Inr (r, s'))" "kept s s'" "hot_inv s' H N cs' ms'" "\<forall>d. cs' (CgiBin d) = cs (CgiBin d)"
    "\<forall>p rest. r = Some p \<longrightarrow> stops_at name rest \<longrightarrow> walk_ok s name H N cs (Some (p, rest)) s'"
    using test_walk_ok [OF Nil.prems(1)] by blast
  have "stops_at name []" using Nil.prems by (simp add: stops_at_def)
  then show ?case using t walk_ok_trans [OF t(2,4) walk_ok_None [OF t(3)]] by (cases r) auto
next
  case (Cons c rest)
  have IH: "\<exists>r s'. cgi_walk name (cgi_hash_step h c) rest s1 = Some (Inr (r, s')) \<and> walk_ok s1 name H N cs1 r s'"
    if "hot_inv s1 H N cs1 ms1" "rest \<noteq> []" for s1 cs1 ms1
    using Cons.IH [OF that(1), of "pre @ [c]" "cgi_hash_step h c"] that(2) Cons.prems(2) by simp
  show ?case
  proof (cases "c \<noteq> CHR ''/'' \<and> c \<noteq> CHR ''?''")
    case True
    then show ?thesis using IH [OF Cons.prems(1)] walk_ok_None [OF Cons.prems(1)] by (cases "rest = []") simp_all
  next
    case False
    obtain r s1 cs1 ms1 where t: "TestForCGIMatch (unat (h AND 255)) name s = Some (Inr (r, s1))" "kept s s1" "hot_inv s1 H N cs1 ms1" "\<forall>d. cs1 (CgiBin d) = cs (CgiBin d)"
      "\<forall>p rest. r = Some p \<longrightarrow> stops_at name rest \<longrightarrow> walk_ok s name H N cs (Some (p, rest)) s1"
      using test_walk_ok [OF Cons.prems(1)] by blast
    have st: "stops_at name (c # rest)" using False Cons.prems(2) by (auto simp: stops_at_def suffix_def)
    show ?thesis
    proof (cases "r = None \<and> c = CHR ''/'' \<and> rest \<noteq> []")
      case True
      then have "cgi_walk name h (c # rest) s = cgi_walk name (cgi_hash_step h c) rest s1" using t(1) by simp
      then show ?thesis using IH [OF t(3)] True walk_ok_trans [OF t(2,4)] by metis
    next
      case F: False
      then have "cgi_walk name h (c # rest) s = Some (Inr (map_option (\<lambda>p. (p, c # rest)) r, s1))"
        using t(1) False by (cases r) auto
      then show ?thesis using t(5) st walk_ok_trans [OF t(2,4) walk_ok_None [OF t(3)]] by (cases r) auto
    qed
  qed
qed

text \<open>A program with a query is found, if its entry and all others that match are up to date.\<close>

lemma cgi_walk_found:
  assumes "hot_inv s H N cs ms" and "\<forall>b. \<forall>p\<in>set (cs (CgiBin b)). cgi_match s name p \<longrightarrow> \<not> outdated s p"
    and "p \<in> set (cs (CgiBin (unat (foldl cgi_hash_step h u AND 255))))" and "cgi_match s name p" and "CHR ''?'' \<notin> set u"
  shows "\<exists>f s'. cgi_walk name h (u @ CHR ''?'' # q) s = Some (Inr (Some f, s'))"
  using assms
proof (induction u arbitrary: s cs ms h)
  case Nil
  obtain r s' where "TestForCGIMatch (unat (h AND 255)) name s = Some (Inr (r, s'))" "search_ok s name (cs (CgiBin (unat (h AND 255)))) r"
    using TestForCGIMatch_ok [OF Nil.prems(1)] by blast
  moreover have "r \<noteq> None" using calculation(2) Nil.prems(2-4) by (auto simp: search_ok_def)
  ultimately show ?case by auto
next
  case (Cons c u)
  have q: "c \<noteq> CHR ''?''" "CHR ''?'' \<notin> set u" using Cons.prems(5) by auto
  show ?case
  proof (cases "c = CHR ''/''")
    case False
    then show ?thesis using Cons.IH [OF Cons.prems(1,2) _ Cons.prems(4) q(2), of "cgi_hash_step h c"] Cons.prems(3) q(1) by simp
  next
    case True
    obtain r s1 cs1 ms1 where t: "TestForCGIMatch (unat (h AND 255)) name s = Some (Inr (r, s1))" "kept s s1" "hot_inv s1 H N cs1 ms1"
      "\<forall>d. cs1 (CgiBin d) = cs (CgiBin d)" using TestForCGIMatch_ok [OF Cons.prems(1)] by blast
    have al: "alive s1 x" if "x \<in> set (cs (CgiBin b))" for x b using hot_inv_alive [OF t(3), of x "CgiBin b"] t(4) that by simp
    have "\<forall>b. \<forall>x\<in>set (cs1 (CgiBin b)). cgi_match s1 name x \<longrightarrow> \<not> outdated s1 x"
      using Cons.prems(2) t(4) al cgi_kept(1) [OF t(2)] outdated_kept [OF t(2)] by metis
    moreover have "cgi_match s1 name p" using Cons.prems(4) cgi_kept(1) [OF t(2) al [OF Cons.prems(3)]] by simp
    ultimately have "\<exists>f s'. cgi_walk name (cgi_hash_step h c) (u @ CHR ''?'' # q) s1 = Some (Inr (Some f, s'))"
      using Cons.IH [OF t(3)] Cons.prems(3) t(4) q(2) by simp
    then show ?thesis using True t(1) by (cases r) auto
  qed
qed

section \<open>The copies\<close>

definition buf_ok :: "string \<Rightarrow> int \<Rightarrow> bool" where
  "buf_ok buf mx \<longleftrightarrow> 0 \<le> mx \<and> int (length buf) = mx + 1"

definition alloc_ok :: "(nat \<Rightarrow> string option) \<Rightarrow> bool" where
  "alloc_ok alloc \<longleftrightarrow> (\<forall>n mem. alloc n = Some mem \<longrightarrow> length mem = n)"

lemma realloc_str_ok:
  assumes al: "alloc_ok alloc" and b: "buf_ok buf mx" and r: "realloc_str alloc buf mx sz = (True, buf', mx')" and sz: "0 \<le> sz"
  shows "buf_ok buf' mx'" "sz \<le> mx'"
proof -
  have l: "alloc n = Some mem \<Longrightarrow> length mem = n" for n mem using al by (simp add: alloc_ok_def)
  have m: "sz \<le> sz * 5 div 4" using sz by linarith
  show "buf_ok buf' mx'" "sz \<le> mx'" using r b m
    by (auto simp: realloc_str_def Let_def buf_ok_def max_def dest!: l split: if_splits option.splits)
qed

text \<open>The string is copied whole or not at all.\<close>

lemma copy_part_ok:
  assumes al: "alloc_ok alloc" and b: "buf_ok buf mx" and x: "\<forall>x. part = Some x \<longrightarrow> no_nul x"
  shows "\<exists>ok buf' mx'. copy_part alloc part buf mx = Inr (ok, buf', mx')
    \<and> (ok \<longrightarrow> buf_ok buf' mx' \<and> cstr buf' = (case part of None \<Rightarrow> cstr buf | Some x \<Rightarrow> x)) \<and> ((\<forall>n. alloc n \<noteq> None) \<longrightarrow> ok)"
proof (cases part)
  case None
  then show ?thesis using b by (auto simp: copy_part_def)
next
  case (Some x)
  obtain ok buf1 mx1 where r: "(if mx < int (length x) then realloc_str alloc buf mx (int (length x)) else (True, buf, mx)) = (ok, buf1, mx1)"
    using prod_cases3 by blast
  show ?thesis
  proof (cases ok)
    case False
    moreover have "(\<forall>n. alloc n \<noteq> None) \<Longrightarrow> ok" using r
      by (auto simp: realloc_str_def Let_def split: if_splits option.splits) (metis option.distinct(1))+
    ultimately show ?thesis using r Some by (auto simp: copy_part_def)
  next
    case True
    then have k: "buf_ok buf1 mx1" "int (length x) \<le> mx1" using r b realloc_str_ok [OF al b, of "int (length x)"] by (auto split: if_splits)
    have nx: "no_nul x" using x Some by simp
    have len: "length x < length buf1" using k by (simp add: buf_ok_def)
    have "copy_part alloc part buf mx = Inr (True, blit buf1 0 (x @ [NUL]), mx1)" using r Some True nx len by (simp add: copy_part_def strcpy_def)
    moreover have "cstr (blit buf1 0 (x @ [NUL])) = x" using nx len by (simp add: blit_def)
    moreover have "buf_ok (blit buf1 0 (x @ [NUL])) mx1" using k len by (simp add: buf_ok_def)
    ultimately show ?thesis using Some by auto
  qed
qed

lemma split_rest_no_nul:
  assumes "no_nul rest"
  shows "\<forall>x. fst (split_rest rest) = Some x \<longrightarrow> no_nul x" "\<forall>x. snd (split_rest rest) = Some x \<longrightarrow> no_nul x"
  using assms by (auto simp: split_rest_def Let_def no_nul_def split: list.splits if_splits dest: set_takeWhileD in_set_dropD)

section \<open>The whole lookup\<close>

text \<open>What the request gets: its path information and its query, and a reference to the entry.\<close>

definition cgi_result :: "CGIInfo \<Rightarrow> string \<Rightarrow> CGIInfo \<Rightarrow> bool" where
  "cgi_result cg rest cg' \<longleftrightarrow> buf_ok (cgi_pathInfo cg') (cgi_maxPathInfo cg') \<and> buf_ok (cgi_query cg') (cgi_maxQuery cg')
     \<and> cstr (cgi_pathInfo cg') = (case fst (split_rest rest) of None \<Rightarrow> [] | Some x \<Rightarrow> x)
     \<and> cstr (cgi_query cg') = (case snd (split_rest rest) of None \<Rightarrow> cstr (cgi_query cg) | Some q \<Rightarrow> q)"

lemma FindMatchInHotCGICache_ok:
  assumes inv: "hot_inv s H N cs ms" and al: "alloc_ok alloc" and nn: "no_nul name"
    and b: "buf_ok (cgi_pathInfo cg) (cgi_maxPathInfo cg)" "buf_ok (cgi_query cg) (cgi_maxQuery cg)"
  shows "\<exists>r cg' name' s' cs' ms'. FindMatchInHotCGICache alloc cg name s = Some (Inr (r, cg', name', s')) \<and> kept s s'
    \<and> hot_inv s' (held r H) N cs' ms'
    \<and> (\<forall>p. r = Some p \<longrightarrow> (\<exists>rest. stops_at name rest \<and> cgi_hit s name p \<and> cgi_result cg rest cg') \<and> (\<exists>b. p \<in> set (cs (CgiBin b))))
    \<and> ((\<forall>n. alloc n \<noteq> None) \<and> (\<exists>f s1. cgi_walk name 0 name s = Some (Inr (Some f, s1))) \<longrightarrow> r \<noteq> None)"
proof -
  obtain f s1 where w: "cgi_walk name 0 name s = Some (Inr (f, s1))" and ok: "walk_ok s name H N cs f s1"
    using cgi_walk_ok [OF inv, of name "[]" name 0] by auto
  then obtain cs1 ms1 where i1: "hot_inv s1 H N cs1 ms1" and k1: "kept s s1"
    and hit: "\<forall>p rest. f = Some (p, rest) \<longrightarrow> stops_at name rest \<and> cgi_hit s1 name p \<and> (\<exists>b. p \<in> set (cs (CgiBin b)))"
    and cc: "\<forall>d. cs1 (CgiBin d) = cs (CgiBin d)"
    by (auto simp: walk_ok_def)
  show ?thesis
  proof (cases f)
    case None
    then have "FindMatchInHotCGICache alloc cg name s = Some (Inr (None, cg, name, s1))" using w by (simp add: FindMatchInHotCGICache_def)
    then show ?thesis using i1 k1 w None by (intro exI [of _ None] exI [of _ cg] exI [of _ name] exI [of _ s1] exI [of _ cs1] exI [of _ ms1]) simp
  next
    case (Some pr)
    obtain p rest where pr: "pr = (p, rest)" by force
    obtain d where st: "stops_at name rest" "cgi_hit s1 name p" "p \<in> set (cs1 (CgiBin d))" using hit cc Some pr by fastforce
    have nr: "no_nul rest" using st(1) nn by (auto simp: stops_at_def suffix_def)
    obtain ex q where sp: "split_rest rest = (ex, q)" by force
    have pe: "cgi_pathInfo cg \<noteq> []" using b(1) by (auto simp: buf_ok_def)
    then have c0: "cstr ((cgi_pathInfo cg)[0 := NUL]) = []" by (cases "cgi_pathInfo cg") simp_all
    have b0: "buf_ok ((cgi_pathInfo cg)[0 := NUL]) (cgi_maxPathInfo cg)" using b(1) by (simp add: buf_ok_def)
    have nx: "\<forall>x. ex = Some x \<longrightarrow> no_nul x" "\<forall>x. q = Some x \<longrightarrow> no_nul x" using split_rest_no_nul [OF nr] sp by simp_all
    obtain ok1 buf1 mx1 where c1: "copy_part alloc ex ((cgi_pathInfo cg)[0 := NUL]) (cgi_maxPathInfo cg) = Inr (ok1, buf1, mx1)"
      "ok1 \<longrightarrow> buf_ok buf1 mx1 \<and> cstr buf1 = (case ex of None \<Rightarrow> [] | Some x \<Rightarrow> x)" "(\<forall>n. alloc n \<noteq> None) \<longrightarrow> ok1"
      using copy_part_ok [OF al b0 nx(1), unfolded c0] by blast
    obtain ok2 buf2 mx2 where c2: "copy_part alloc q (cgi_query cg) (cgi_maxQuery cg) = Inr (ok2, buf2, mx2)"
      "ok2 \<longrightarrow> buf_ok buf2 mx2 \<and> cstr buf2 = (case q of None \<Rightarrow> cstr (cgi_query cg) | Some x \<Rightarrow> x)" "(\<forall>n. alloc n \<noteq> None) \<longrightarrow> ok2"
      using copy_part_ok [OF al b(2) nx(2)] by blast
    let ?cg = "cg\<lparr>cgi_pathInfo := buf1, cgi_maxPathInfo := mx1\<rparr>" let ?n = "cut_name name rest"
    let ?cg2 = "?cg\<lparr>cgi_query := buf2, cgi_maxQuery := mx2\<rparr>"
    obtain s2 where s2: "rbind (if hne_refCount (the (hnes s1 p)) = 0 then RemoveFromMRU p s1 else Inr s1) (put_hne p (\<lambda>f. f\<lparr>hne_refCount := hne_refCount f + 1\<rparr>)) = Inr s2"
      "kept s1 s2" "hot_inv s2 (add_mset p H) N cs1 (remove1 p ms1)" using take_ref [OF i1 st(3)] by blast
    have a: "alive s1 p" using hot_inv_alive [OF i1 st(3)] .
    have e: "FindMatchInHotCGICache alloc cg name s = Some (Inr (if \<not> ok1 then (None, ?cg, ?n, s1)
        else if \<not> ok2 then (None, ?cg2, ?n, s1) else (Some p, ?cg2, ?n, s2)))"
      using w Some pr sp pe c1(1) c2(1) s2(1) a
      by (simp add: FindMatchInHotCGICache_def hne_at_alive rbind_assoc [symmetric])
    have h: "cgi_hit s name p" using st(2) cgi_kept(2) [OF k1 a] by simp
    show ?thesis
    proof (cases "ok1 \<and> ok2")
      case True
      then have "cgi_result cg rest ?cg2" using c1(2) c2(2) sp by (simp add: cgi_result_def)
      moreover have "FindMatchInHotCGICache alloc cg name s = Some (Inr (Some p, ?cg2, ?n, s2))" using e True by simp
      ultimately show ?thesis using s2(3) kept_trans [OF k1 s2(2)] st(1,3) cc h
        by (intro exI [of _ "Some p"] exI [of _ ?cg2] exI [of _ ?n] exI [of _ s2] exI [of _ cs1] exI [of _ "remove1 p ms1"]) auto
    next
      case False
      then obtain cg' where "FindMatchInHotCGICache alloc cg name s = Some (Inr (None, cg', ?n, s1))" using e by (cases ok1) auto
      then show ?thesis using i1 k1 False c1(3) c2(3)
        by (intro exI [of _ None] exI [of _ cg'] exI [of _ ?n] exI [of _ s1] exI [of _ cs1] exI [of _ ms1]) auto
    qed
  qed
qed

end
