(* ===== verification/Flash_Hot_Clients.thy ===== *)
theory Flash_Hot_Clients
  imports Flash_Hotcgi
begin

text \<open>
  The name caches of flash and their users (\<open>loop.c\<close>, \<open>cold.c\<close>, \<open>hotfile.c\<close>, \<open>cgi.c\<close>) as a step
  relation: connections look names up, release what they hold, and enter new names into one of
  the caches. A state is the cache with the references held and the entries handed out.
\<close>

definition hot_init :: "32 word list \<Rightarrow> int \<Rightarrow> hotnames" where
  "hot_init tab now = \<lparr>hnes = (\<lambda>_. None), hot_bins = (\<lambda>_. \<lparr>hb_head = None, hb_time = 0\<rparr>), numTotalHNEs = 0,
     headMRU = None, tailMRU = None, cs_numHotNameChecks = 0, cs_numHotNameHits = 0, cs_numHotNameWalks = 0,
     scrambledNumbers = tab, hn_now = now\<rparr>"

type_synonym hot_state = "hotnames \<times> nat multiset \<times> nat set"

text \<open>\<open>mx\<close> is \<open>maxNameCacheSize\<close>, \<open>mem\<close> and \<open>alloc\<close> are the allocator. \<open>fill\<close> is what \<open>cold.c\<close>
  writes to an entry before it is entered.\<close>

inductive hot_step :: "int \<Rightarrow> (hotnames \<Rightarrow> nat option) \<Rightarrow> (nat \<Rightarrow> string option) \<Rightarrow> hot_state \<Rightarrow> hot_state \<Rightarrow> bool"
  for mx mem alloc where
  tick: "hn_now s \<le> t \<Longrightarrow> hot_step mx mem alloc (s, H, N) (s\<lparr>hn_now := t\<rparr>, H, N)"
| find_name: "FindMatchInHotNameCache u s = Some (Inr (r, s')) \<Longrightarrow> hot_step mx mem alloc (s, H, N) (s', held r H, N)"
| find_cgi: "no_nul name \<Longrightarrow> buf_ok (cgi_pathInfo cg) (cgi_maxPathInfo cg) \<Longrightarrow> buf_ok (cgi_query cg) (cgi_maxQuery cg) \<Longrightarrow>
    FindMatchInHotCGICache alloc cg name s = Some (Inr (r, cg', name', s')) \<Longrightarrow> hot_step mx mem alloc (s, H, N) (s', held r H, N)"
| get: "GetEmptyHNE mx mem s = Inr (r, s') \<Longrightarrow> hot_step mx mem alloc (s, H, N) (s', H, N \<union> set_option r)"
| fill: "p \<in> N \<Longrightarrow> hnes s p = Some e \<Longrightarrow>
    e' = e\<lparr>hne_encoded := Some u, hne_stripped := Some v, hne_expanded := Some x, hne_maxEncoded := n1, hne_maxStripped := n2,
       hne_maxExpanded := n3, hne_type := ty, hne_modTime := mt\<rparr> \<Longrightarrow>
    hot_step mx mem alloc (s, H, N) (s\<lparr>hnes := (hnes s)(p := Some e')\<rparr>, H, N)"
| enter: "p \<in> N \<Longrightarrow> EnterIntoHotNameCache p s = Inr s' \<Longrightarrow> hot_step mx mem alloc (s, H, N) (s', add_mset p H, N - {p})"
| enter_cgi: "p \<in> N \<Longrightarrow> EnterIntoHotCGICache p s = Inr s' \<Longrightarrow> hot_step mx mem alloc (s, H, N) (s', add_mset p H, N - {p})"
| release: "p \<in># H \<Longrightarrow> ReleaseHNE p s = Inr s' \<Longrightarrow> hot_step mx mem alloc (s, H, N) (s', H - {#p#}, N)"

inductive_cases hot_stepE: "hot_step mx mem alloc c c'"

definition hot_reach :: "int \<Rightarrow> (hotnames \<Rightarrow> nat option) \<Rightarrow> (nat \<Rightarrow> string option) \<Rightarrow> 32 word list \<Rightarrow> int \<Rightarrow> hot_state \<Rightarrow> bool" where
  "hot_reach mx mem alloc tab now c \<longleftrightarrow> (hot_step mx mem alloc)\<^sup>*\<^sup>* (hot_init tab now, {#}, {}) c"

text \<open>What the allocator promises: memory that is not in use, of the size asked for.\<close>

definition mem_ok :: "(hotnames \<Rightarrow> nat option) \<Rightarrow> bool" where
  "mem_ok mem \<longleftrightarrow> (\<forall>s p. mem s = Some p \<longrightarrow> hnes s p = None)"

definition hot_ok :: "hot_state \<Rightarrow> bool" where
  "hot_ok c \<longleftrightarrow> (case c of (s, H, N) \<Rightarrow> \<exists>cs ms. hot_inv s H N cs ms)"

lemma hot_init_ok: "hot_ok (hot_init tab now, {#}, {})"
proof -
  have "hot_inv (hot_init tab now) {#} {} (\<lambda>_. []) []"
    by (auto simp: hot_inv_def hot_init_def bins_rep_def mru_def contents_def resident_def ends_def alive_def)
  then show ?thesis by (auto simp: hot_ok_def)
qed

lemma tick_inv:
  assumes inv: "hot_inv s H N cs ms" and t: "hn_now s \<le> t"
  shows "hot_inv (s\<lparr>hn_now := t\<rparr>) H N cs ms"
proof -
  let ?s = "s\<lparr>hn_now := t\<rparr>"
  have f: "h_next ?s = h_next s" "h_prev ?s = h_prev s" "m_next ?s = m_next s" "m_prev ?s = m_prev s" "info_of ?s = info_of s" "alive ?s = alive s"
    by (simp_all add: h_defs info_of_def alive_def fun_eq_iff)
  have "newer ?s = newer s" by (simp add: newer_def fun_eq_iff f)
  moreover have "in_home ?s B p = in_home s B p" for B p using f by (intro in_home_cong) simp_all
  ultimately have "contents ?s H cs" using inv t by (fastforce simp: hot_inv_def contents_def f)
  then show ?thesis using inv by (simp add: hot_inv_def bins_rep_def mru_def f)
qed

lemma EnterIntoHotNameCache_named:
  assumes "EnterIntoHotNameCache p s = Inr s'"
  obtains u where "hne_encoded (hne s p) = Some u"
  using assms that
  by (auto simp: EnterIntoHotNameCache_def put_hne_def hne_at_def upd_hne_def rbind_eq_Inr info_of_def bare_def Let_def split: if_splits option.splits)

lemma EnterIntoHotCGICache_named:
  assumes "EnterIntoHotCGICache p s = Inr s'"
  obtains u where "hne_stripped (hne s p) = Some u"
  using assms that
  by (auto simp: EnterIntoHotCGICache_def put_hne_def hne_at_def upd_hne_def rbind_eq_Inr info_of_def bare_def Let_def split: if_splits option.splits)

lemma hot_step_ok:
  assumes st: "hot_step mx mem alloc c c'" and ok: "hot_ok c" and m: "mem_ok mem" and al: "alloc_ok alloc"
  shows "hot_ok c'"
  using st ok
proof (induction rule: hot_step.induct)
  case (tick s t H N)
  then show ?case by (fastforce simp: hot_ok_def intro: tick_inv)
next
  case (find_name u s r s' H N)
  then show ?case using FindMatchInHotNameCache_ok [of s H N _ _ u] by (fastforce simp: hot_ok_def)
next
  case (find_cgi name cg s r cg' name' s' H N)
  then show ?case using FindMatchInHotCGICache_ok [of s H N _ _ alloc name cg] al by (fastforce simp: hot_ok_def)
next
  case (get s r s' H N)
  have "mem t = Some f \<Longrightarrow> \<not> alive t f" for t f using m by (simp add: mem_ok_def alive_def)
  then show ?case using GetEmptyHNE_ok [of s H N _ _ mem mx] get by (fastforce simp: hot_ok_def)
next
  case (fill p N s e e' u v x n1 n2 n3 ty mt H)
  then obtain cs ms where inv: "hot_inv s H N cs ms" by (auto simp: hot_ok_def)
  have "p \<notin> resident cs" "insert p N = N" using inv fill(1) by (auto simp: hot_inv_def)
  then show ?case using new_entry_inv(1) [OF inv, of p e'] by (auto simp: hot_ok_def)
next
  case (enter p N s s' H)
  then obtain cs ms where inv: "hot_inv s H N cs ms" by (auto simp: hot_ok_def)
  obtain u where u: "hne_encoded (hne s p) = Some u" using EnterIntoHotNameCache_named [OF enter(2)] .
  show ?case using EnterIntoHotNameCache_ok [OF inv enter(1) u] enter(2) by (auto simp: hot_ok_def)
next
  case (enter_cgi p N s s' H)
  then obtain cs ms where inv: "hot_inv s H N cs ms" by (auto simp: hot_ok_def)
  obtain u where u: "hne_stripped (hne s p) = Some u" using EnterIntoHotCGICache_named [OF enter_cgi(2)] .
  show ?case using EnterIntoHotCGICache_ok [OF inv enter_cgi(1) u] enter_cgi(2) by (auto simp: hot_ok_def)
next
  case (release p H s s' N)
  then show ?case using ReleaseHNE_ok [of s H N _ _ p] by (fastforce simp: hot_ok_def)
qed

lemma hot_reach_ok:
  assumes "hot_reach mx mem alloc tab now c" and "mem_ok mem" and "alloc_ok alloc"
  shows "hot_ok c"
  using assms(1) unfolding hot_reach_def
  by (induction rule: rtranclp_induct) (auto simp: hot_init_ok intro: hot_step_ok [OF _ _ assms(2,3)])

section \<open>What the users rely on\<close>

text \<open>The entries in the cache for names, and those that answer a lookup.\<close>

definition in_names :: "hotnames \<Rightarrow> nat \<Rightarrow> bool" where
  "in_names s p \<longleftrightarrow> (\<exists>cs b. bins_rep s cs \<and> p \<in> set (cs (NameBin b)))"

definition cached :: "hotnames \<Rightarrow> string \<Rightarrow> nat \<Rightarrow> bool" where
  "cached s u p \<longleftrightarrow> in_names s p \<and> (\<exists>e. hnes s p = Some e \<and> hne_encoded e = Some u \<and> hn_now s - hne_time e \<le> NAMECACHELIFETIME)"

text \<open>The chains are determined by the state.\<close>

lemma bins_rep_unique: "bins_rep s cs \<Longrightarrow> bins_rep s cs' \<Longrightarrow> cs = cs'"
  unfolding bins_rep_def by (meson ext hashed_unique)

lemma cached_iff:
  assumes inv: "hot_inv s H N cs ms"
  shows "cached s u p \<longleftrightarrow> p \<in> set (cs (NameBin (HotNameHash s u))) \<and> named s u p \<and> \<not> outdated s p"
proof -
  have b: "bins_rep s cs" and co: "contents s H cs" using inv by (auto simp: hot_inv_def)
  have i: "in_names s p \<longleftrightarrow> (\<exists>b. p \<in> set (cs (NameBin b)))" using b bins_rep_unique [OF b] unfolding in_names_def by blast
  have h: "b = HotNameHash s u" if "p \<in> set (cs (NameBin b))" "named s u p" for b
    using co that unfolding contents_def by (metis in_home.simps(1) option.inject)
  have f: "hnes s p = Some e \<Longrightarrow> hne_encoded e = hne_encoded (hne s p) \<and> hne_time e = hne_time (hne s p)" for e
    by (simp add: info_of_def bare_def)
  show ?thesis
  proof
    assume "cached s u p"
    then show "p \<in> set (cs (NameBin (HotNameHash s u))) \<and> named s u p \<and> \<not> outdated s p"
      using i h f by (auto simp: cached_def outdated_def)
  next
    assume r: "p \<in> set (cs (NameBin (HotNameHash s u))) \<and> named s u p \<and> \<not> outdated s p"
    then obtain e where "hnes s p = Some e" using bins_alive [OF b] by (auto simp: alive_def)
    then show "cached s u p" using r i f [of e] by (auto simp: cached_def outdated_def)
  qed
qed

lemma lookup_cached:
  assumes "hot_inv s H N cs ms"
  shows "\<exists>r s'. FindMatchInHotNameCache u s = Some (Inr (r, s')) \<and> (r = None \<longleftrightarrow> (\<forall>p. \<not> cached s u p)) \<and> (\<forall>p. r = Some p \<longrightarrow> cached s u p)"
proof -
  obtain r s' where f: "FindMatchInHotNameCache u s = Some (Inr (r, s'))" "lookup_result s u (cs (NameBin (HotNameHash s u))) r"
    using FindMatchInHotNameCache_ok [OF assms, of u] by blast
  then show ?thesis unfolding cached_iff [OF assms] by (cases r) (auto simp: lookup_result_def)
qed

lemma hot_reach_lookup:
  assumes "hot_reach mx mem alloc tab now (s, H, N)" and "mem_ok mem" and "alloc_ok alloc"
  shows "\<exists>r s'. FindMatchInHotNameCache u s = Some (Inr (r, s')) \<and> (r = None \<longleftrightarrow> (\<forall>p. \<not> cached s u p)) \<and> (\<forall>p. r = Some p \<longrightarrow> cached s u p)"
  using hot_reach_ok [OF assms] lookup_cached by (auto simp: hot_ok_def)

text \<open>What was entered is found as long as it is held and not too old.\<close>

definition works :: "int \<Rightarrow> (hotnames \<Rightarrow> nat option) \<Rightarrow> hot_state \<Rightarrow> bool" where
  "works mx mem c \<longleftrightarrow> (case c of (s, H, N) \<Rightarrow>
     (\<forall>p. p \<in># H \<longrightarrow> (\<exists>e s'. hnes s p = Some e \<and> hne_refCount e = int (count H p) \<and> ReleaseHNE p s = Inr s'))
     \<and> (\<forall>p e u. p \<in> N \<and> hnes s p = Some e \<and> hne_encoded e = Some u \<longrightarrow> (\<exists>s'. EnterIntoHotNameCache p s = Inr s' \<and> cached s' u p))
     \<and> (\<forall>p e u. p \<in> N \<and> hnes s p = Some e \<and> hne_stripped e = Some u \<longrightarrow> (\<exists>s'. EnterIntoHotCGICache p s = Inr s'))
     \<and> (\<exists>r s'. GetEmptyHNE mx mem s = Inr (r, s') \<and> (\<forall>p. p \<in># H \<or> p \<in> N \<longrightarrow> hnes s' p \<noteq> None \<and> r \<noteq> Some p)))"

lemma hot_inv_works:
  assumes inv: "hot_inv s H N cs ms" and m: "mem_ok mem"
  shows "works mx mem (s, H, N)"
proof -
  have "\<exists>e s'. hnes s p = Some e \<and> hne_refCount e = int (count H p) \<and> ReleaseHNE p s = Inr s'" if "p \<in># H" for p
  proof -
    have "p \<in> resident cs" using inv that by (auto simp: hot_inv_def contents_def)
    then obtain B where B: "p \<in> set (cs B)" by (auto simp: resident_def)
    obtain e where "hnes s p = Some e" using hot_inv_alive [OF inv B] by (auto simp: alive_def)
    then show ?thesis using hot_inv_refs [OF inv B] refs_field [of s p] ReleaseHNE_ok [OF inv that] by (auto simp: alive_def)
  qed
  moreover have "\<exists>s'. EnterIntoHotNameCache p s = Inr s' \<and> cached s' u p" if n: "p \<in> N" "hnes s p = Some e" "hne_encoded e = Some u" for p e u
  proof -
    have u: "hne_encoded (hne s p) = Some u" using n by (simp add: info_of_def bare_def)
    obtain s' cs' ms' where s': "EnterIntoHotNameCache p s = Inr s'" "hot_inv s' (add_mset p H) (N - {p}) cs' ms'" "entered s p s'"
      "p \<in> set (cs' (NameBin (HotNameHash s u)))" using EnterIntoHotNameCache_ok [OF inv n(1) u] by blast
    have "HotNameHash s' = HotNameHash s" using s'(3) hash_scrambled [of s' s] by (simp add: entered_def)
    then have "cached s' u p" using s' u cached_iff [OF s'(2)] by (simp add: entered_def outdated_def)
    then show ?thesis using s'(1) by blast
  qed
  moreover have "\<exists>s'. EnterIntoHotCGICache p s = Inr s'" if "p \<in> N" "hnes s p = Some e" "hne_stripped e = Some u" for p e u
    using EnterIntoHotCGICache_ok [OF inv that(1), of u] that by (auto simp: info_of_def bare_def)
  moreover have "\<exists>r s'. GetEmptyHNE mx mem s = Inr (r, s') \<and> (\<forall>p. p \<in># H \<or> p \<in> N \<longrightarrow> hnes s' p \<noteq> None \<and> r \<noteq> Some p)"
  proof -
    have "mem t = Some f \<Longrightarrow> \<not> alive t f" for t f using m by (simp add: mem_ok_def alive_def)
    then obtain r s' t cs' ms' where g: "GetEmptyHNE mx mem s = Inr (r, s')" "hot_inv s' H (N \<union> set_option r) cs' ms'" "N \<inter> set_option r = {}"
      using GetEmptyHNE_ok [OF inv, of mem mx] by blast
    have "set_mset H \<union> N \<subseteq> {p. alive s' p}" "set_mset H \<inter> set_option r = {}" using g(2) by (auto simp: hot_inv_def contents_def)
    then show ?thesis using g(1,3) by (fastforce simp: alive_def)
  qed
  ultimately show ?thesis by (auto simp: works_def)
qed

lemma hot_reach_works:
  assumes "hot_reach mx mem alloc tab now (s, H, N)" and "mem_ok mem" and "alloc_ok alloc"
  shows "works mx mem (s, H, N)"
  using hot_reach_ok [OF assms] hot_inv_works [OF _ assms(2)] by (auto simp: hot_ok_def)

section \<open>Programs\<close>

definition in_cgis :: "hotnames \<Rightarrow> nat \<Rightarrow> string \<Rightarrow> bool" where
  "in_cgis s p u \<longleftrightarrow> (\<exists>cs b e. bins_rep s cs \<and> p \<in> set (cs (CgiBin b)) \<and> hnes s p = Some e \<and> hne_stripped e = Some u)"

text \<open>Not older than the lifetime.\<close>

definition up_to_date :: "hotnames \<Rightarrow> nat \<Rightarrow> bool" where
  "up_to_date s p \<longleftrightarrow> (\<exists>e. hnes s p = Some e \<and> hn_now s - hne_time e \<le> NAMECACHELIFETIME)"

lemma up_to_date_iff: "alive s p \<Longrightarrow> up_to_date s p = (\<not> outdated s p)"
  using info_fields(1) [of s p] by (auto simp: up_to_date_def outdated_def alive_def)

lemma in_cgis_iff:
  assumes inv: "hot_inv s H N cs ms"
  shows "in_cgis s p u \<longleftrightarrow> p \<in> set (cs (CgiBin (unat (foldl cgi_hash_step 0 u AND 255)))) \<and> hne_stripped (hne s p) = Some u"
proof -
  have b: "bins_rep s cs" and co: "contents s H cs" using inv by (auto simp: hot_inv_def)
  have h: "p \<in> set (cs (CgiBin d)) \<Longrightarrow> hne_stripped (hne s p) = Some u \<Longrightarrow> d = unat (foldl cgi_hash_step 0 u AND 255)" for d
    using co unfolding contents_def by (metis in_home.simps(2) option.inject)
  have f: "hnes s p = Some e \<Longrightarrow> hne_stripped e = hne_stripped (hne s p)" for e by (simp add: info_of_def bare_def)
  have a: "p \<in> set (cs (CgiBin d)) \<Longrightarrow> \<exists>e. hnes s p = Some e" for d using bins_alive [OF b] by (auto simp: alive_def)
  show ?thesis unfolding in_cgis_def using b bins_rep_unique [OF b] h f a by metis
qed

lemma hot_reach_cgi:
  assumes reach: "hot_reach mx mem alloc tab now (s, H, N)" and m: "mem_ok mem" and al: "alloc_ok alloc" "\<forall>n. alloc n \<noteq> None"
    and b: "buf_ok (cgi_pathInfo cg) (cgi_maxPathInfo cg)" "buf_ok (cgi_query cg) (cgi_maxQuery cg)"
    and name: "no_nul u" "no_nul q" "CHR ''?'' \<notin> set u" and p: "in_cgis s p u"
    and ud: "\<forall>p' u'. in_cgis s p' u' \<and> prefix u' (u @ CHR ''?'' # q) \<longrightarrow> up_to_date s p'" and nn: "\<forall>p' u'. in_cgis s p' u' \<longrightarrow> no_nul u'"
  shows "\<exists>p' u' rest cg' name' s' e'. FindMatchInHotCGICache alloc cg (u @ CHR ''?'' # q) s = Some (Inr (Some p', cg', name', s'))
    \<and> in_cgis s p' u' \<and> prefix u' (u @ CHR ''?'' # q) \<and> stops_at (u @ CHR ''?'' # q) rest \<and> cgi_result cg rest cg'
    \<and> hnes s' p' = Some e' \<and> hne_refCount e' = int (count H p') + 1"
proof -
  let ?n = "u @ CHR ''?'' # q"
  obtain cs ms where inv: "hot_inv s H N cs ms" using hot_reach_ok [OF reach m al(1)] by (auto simp: hot_ok_def)
  have n: "no_nul ?n" using name by simp
  have cg: "in_cgis s x v" if "x \<in> set (cs (CgiBin d))" "hne_stripped (hne s x) = Some v" for x v d
    using inv that unfolding in_cgis_iff [OF inv] hot_inv_def contents_def by (metis in_home.simps(2) option.inject)
  have pre: "prefix v ?n" if "in_cgis s x v" "strncmp_eq v ?n (length v)" for x v
    using strncmp_prefix [of v ?n] nn that n by auto
  have "\<forall>d. \<forall>x\<in>set (cs (CgiBin d)). cgi_match s ?n x \<longrightarrow> \<not> outdated s x"
    using cg pre ud nn up_to_date_iff hot_inv_alive [OF inv] unfolding cgi_match_def by metis
  moreover have "p \<in> set (cs (CgiBin (unat (foldl cgi_hash_step 0 u AND 255))))" "hne_stripped (hne s p) = Some u" using p in_cgis_iff [OF inv] by simp_all
  moreover have "cgi_match s ?n p" using calculation(3) strncmp_prefix [OF name(1), of ?n] n by (simp add: cgi_match_def)
  ultimately have w: "\<exists>f s1. cgi_walk ?n 0 ?n s = Some (Inr (Some f, s1))" using cgi_walk_found [OF inv _ _ _ name(3), of ?n p 0 q] by simp
  obtain r cg' name' s' cs' ms' where f: "FindMatchInHotCGICache alloc cg ?n s = Some (Inr (r, cg', name', s'))" "hot_inv s' (held r H) N cs' ms'"
    "\<forall>p. r = Some p \<longrightarrow> (\<exists>rest. stops_at ?n rest \<and> cgi_hit s ?n p \<and> cgi_result cg rest cg') \<and> (\<exists>b. p \<in> set (cs (CgiBin b)))" "r \<noteq> None"
    using FindMatchInHotCGICache_ok [OF inv al(1) n b] w al(2) by blast
  then obtain p' rest d where r: "r = Some p'" "stops_at ?n rest" "cgi_hit s ?n p'" "cgi_result cg rest cg'" "p' \<in> set (cs (CgiBin d))" by blast
  obtain u' where u': "hne_stripped (hne s p') = Some u'" "strncmp_eq u' ?n (length u')" using r(3) by (auto simp: cgi_hit_def cgi_match_def)
  have i: "in_cgis s p' u'" using cg [OF r(5) u'(1)] .
  have "p' \<in> resident cs'" using f(2) r(1) by (auto simp: hot_inv_def contents_def)
  then obtain B where B: "p' \<in> set (cs' B)" by (auto simp: resident_def)
  obtain e' where "hnes s' p' = Some e'" using hot_inv_alive [OF f(2) B] by (auto simp: alive_def)
  then show ?thesis using f(1) r i pre [OF i u'(2)] hot_inv_refs [OF f(2) B] refs_field [of s' p'] by (fastforce simp: alive_def)
qed

section \<open>Example runs\<close>

definition demo_mem :: "hotnames \<Rightarrow> nat option" where
  "demo_mem s = (if hnes s 0 = None then Some 0 else None)"

definition demo_alloc :: "nat \<Rightarrow> string option" where
  "demo_alloc n = Some (zeros n)"

definition demo_tab :: "32 word list" where
  "demo_tab = replicate 256 0"

definition demo_cg :: CGIInfo where
  "demo_cg = \<lparr>cgi_pathInfo = zeros 31, cgi_query = zeros 31, cgi_maxPathInfo = 30, cgi_maxQuery = 30\<rparr>"

lemma demo_ok: "mem_ok demo_mem" "alloc_ok demo_alloc" "\<forall>n. demo_alloc n \<noteq> None"
  "buf_ok (cgi_pathInfo demo_cg) (cgi_maxPathInfo demo_cg)" "buf_ok (cgi_query demo_cg) (cgi_maxQuery demo_cg)"
  by (auto simp: mem_ok_def demo_mem_def alloc_ok_def demo_alloc_def demo_cg_def buf_ok_def)

text \<open>An entry for \<open>u\<close> is handed out and filled in.\<close>

definition demo_hot :: "string \<Rightarrow> hotnames" where
  "demo_hot u = (hot_init demo_tab 0)\<lparr>hnes := [0 \<mapsto> zero_hne\<lparr>hne_encoded := Some u, hne_stripped := Some u, hne_expanded := Some u\<rparr>]\<rparr>"

lemma demo_hot_reach: "hot_reach 1 demo_mem demo_alloc demo_tab 0 (demo_hot u, {#}, {0})"
proof -
  let ?i = "hot_init demo_tab 0" let ?g = "?i\<lparr>hnes := [0 \<mapsto> zero_hne]\<rparr>"
  have "GetEmptyHNE 1 demo_mem ?i = Inr (Some 0, ?g)" by (simp add: GetEmptyHNE_def demo_mem_def hot_init_def)
  from hot_step.get [OF this] have "hot_step 1 demo_mem demo_alloc (?i, {#}, {}) (?g, {#}, {0})" by fastforce
  moreover have "hot_step 1 demo_mem demo_alloc (?g, {#}, {0}) (?g\<lparr>hnes := (hnes ?g)(0 := Some (zero_hne\<lparr>hne_encoded := Some u, hne_stripped := Some u, hne_expanded := Some u\<rparr>))\<rparr>, {#}, {0})"
    by (rule hot_step.fill [where e = zero_hne and u = u and v = u and x = u and ?n1.0 = 0 and ?n2.0 = 0 and ?n3.0 = 0 and ty = HNT_FILE and mt = 0])
      (simp_all add: zero_hne_def)
  ultimately show ?thesis unfolding hot_reach_def demo_hot_def by (auto intro: rtranclp.rtrancl_into_rtrancl)
qed

lemma demo_name_run: "\<exists>s. hot_reach 1 demo_mem demo_alloc demo_tab 0 (s, {#0#}, {}) \<and> cached s u 0"
proof -
  obtain s where s: "EnterIntoHotNameCache 0 (demo_hot u) = Inr s" "cached s u 0"
    using hot_reach_works [OF demo_hot_reach demo_ok(1,2), of u] by (auto simp: works_def demo_hot_def)
  have "hot_step 1 demo_mem demo_alloc (demo_hot u, {#}, {0}) (s, {#0#}, {})" using hot_step.enter [OF _ s(1), of "{0}" 1 demo_mem demo_alloc "{#}"] by simp
  then show ?thesis using demo_hot_reach [of u] s(2) unfolding hot_reach_def by (auto intro: rtranclp.rtrancl_into_rtrancl)
qed

lemma demo_cgi_run:
  "\<exists>s. hot_reach 1 demo_mem demo_alloc demo_tab 0 (s, {#0#}, {}) \<and> in_cgis s 0 u \<and> up_to_date s 0 \<and> (\<forall>p v. in_cgis s p v \<longrightarrow> p = 0 \<and> v = u)"
proof -
  obtain cs ms where inv: "hot_inv (demo_hot u) {#} {0} cs ms" using hot_reach_ok [OF demo_hot_reach demo_ok(1,2), of u] by (auto simp: hot_ok_def)
  have h: "info_of (demo_hot u) = [0 \<mapsto> zero_hne\<lparr>hne_encoded := Some u, hne_stripped := Some u, hne_expanded := Some u\<rparr>]"
    by (auto simp: demo_hot_def info_of_def hot_init_def bare_def zero_hne_def)
  obtain s cs' ms' where s: "EnterIntoHotCGICache 0 (demo_hot u) = Inr s" "hot_inv s (add_mset 0 {#}) ({0} - {0}) cs' ms'" "entered (demo_hot u) 0 s"
    "0 \<in> set (cs' (CgiBin (unat (foldl cgi_hash_step 0 u AND 255))))" using EnterIntoHotCGICache_ok [OF inv, of 0 u] h by auto
  have i: "info_of s = [0 \<mapsto> zero_hne\<lparr>hne_encoded := Some u, hne_stripped := Some u, hne_expanded := Some u, hne_refCount := 1, hne_time := 0\<rparr>]" "hn_now s = 0"
    using s(3) h by (simp_all add: entered_def demo_hot_def hot_init_def)
  have st: "hot_step 1 demo_mem demo_alloc (demo_hot u, {#}, {0}) (s, {#0#}, {})" using hot_step.enter_cgi [OF _ s(1), of "{0}" 1 demo_mem demo_alloc "{#}"] by simp
  have "in_cgis s 0 u" using s(4) i in_cgis_iff [OF s(2)] by simp
  moreover have "up_to_date s 0" using i up_to_date_iff [of s 0] by (simp add: alive_info outdated_def)
  moreover have "p = 0 \<and> v = u" if "in_cgis s p v" for p v
  proof -
    have "alive s p" using that by (auto simp: in_cgis_def alive_def)
    then show ?thesis using that i in_cgis_iff [OF s(2)] by (auto simp: alive_info split: if_splits)
  qed
  moreover have "hot_reach 1 demo_mem demo_alloc demo_tab 0 (s, {#0#}, {})"
    using demo_hot_reach [of u] st unfolding hot_reach_def by (rule rtranclp.rtrancl_into_rtrancl)
  ultimately show ?thesis by blast
qed

end
