(* ===== verification/Flash_Datacache.thy ===== *)
theory Flash_Datacache
  imports Flash_Hotname "HOL-Library.Signed_Division"
begin

text \<open>
  The data cache of flash (\<open>flash_server/datacache.c\<close>): entries for files, found by a hash of the
  name; a file is mapped into memory in chunks of 64 KB, each with a count of the connections that
  work on it. Chunks that no connection works on are on a list, the most recently used first, and are
  unmapped from its end when the mapped chunks together exceed a limit.

  A pointer to an entry is a number, a pointer to a chunk an entry and an index into its array. The
  mapped memory of a chunk is the bytes it shows. \<open>exit\<close> is \<open>AssertFail\<close>. What \<open>open\<close>, \<open>mmap\<close> and
  \<open>stat\<close> answer is \<open>kernel\<close>; \<open>dc_closed\<close> and \<open>dc_unmapped\<close> record the calls of \<open>close\<close> and the
  lengths given to \<open>munmap\<close>. Sizes are those of an \<open>int\<close>, and the two sums that can leave its range
  are checked; counters, times and the sums of bytes (\<open>long\<close>) are unbounded. \<open>TryFreeChunk\<close> is never
  called with \<open>doDelay\<close>, nor \<open>DoChunkRead\<close> with a descriptor or a mapping to use.
\<close>

section \<open>Data\<close>

type_synonym rir_ptr = "nat \<times> int"

record ReadInfoRec =
  rir_numRefs :: int
  rir_data :: "string option"
  rir_prev :: "rir_ptr option"
  rir_next :: "rir_ptr option"
  rir_entry :: "nat option"
  rir_chunkNum :: int
  rir_isOnMRU :: bool

datatype cbin = Bin nat | Invalid            \<comment> \<open>a place of \<open>cacheBins\<close>, \<open>invalidEntriesHead\<close>\<close>

record CacheEntry =
  ce_filename :: "string option"
  ce_nextInHash :: "nat option"
  ce_prevInHash :: "(cbin, nat) link option"
  ce_size :: int
  ce_numRefs :: int
  ce_isInvalid :: bool
  ce_file_fd :: int
  ce_numChunks :: int
  ce_numChunksInMem :: int
  ce_dataChunks :: "ReadInfoRec list option"
  ce_lastValidation :: int
  ce_encodings :: "string option"
  ce_type :: "string option"
  ce_modTime :: int
  ce_respHeader :: "string option"
  ce_respHeaderLen :: int
  ce_respHeaderTime :: int
  ce_200Resp :: "string option"
  ce_200RespLen :: int

record datacache =
  ces :: "nat \<Rightarrow> CacheEntry option"
  cbins :: "cbin \<Rightarrow> nat option"
  freeChunkMRUHead :: "rir_ptr option"
  freeChunkMRUTail :: "rir_ptr option"
  bytesInAllChunks :: int
  bytesInFreeChunks :: int
  ps_numDataCacheEntries :: int
  cs_numDataCacheChecks :: int
  cs_numDataCacheHits :: int
  cs_numDataCacheWalks :: int
  systemPageSize :: int
  maxLRUCacheSizeBytes :: int
  dc_scrambled :: "32 word list"             \<comment> \<open>\<open>scrambledNumbers\<close>\<close>
  dc_now :: int                              \<comment> \<open>\<open>globalTimeOfDay.tv_sec\<close>\<close>
  dc_closed :: "int list"
  dc_unmapped :: "int list"

record kernel =
  k_open :: "string \<Rightarrow> int"
  k_errno :: "string \<Rightarrow> int"                   \<comment> \<open>\<open>errno\<close> after an \<open>open\<close> that fails\<close>
  k_mmap :: "int \<Rightarrow> int \<Rightarrow> int \<Rightarrow> string option" \<comment> \<open>descriptor, offset, length\<close>
  k_stat :: "string \<Rightarrow> int option"             \<comment> \<open>the time of the last modification\<close>
  k_size :: "string \<Rightarrow> int"                    \<comment> \<open>the size that \<open>stat\<close> tells\<close>

abbreviation (input) READBLOCKSIZE :: int where "READBLOCKSIZE \<equiv> 65536"
abbreviation (input) FILECACHEVALIDATETIME :: int where "FILECACHEVALIDATETIME \<equiv> 300"

section \<open>Access\<close>

definition ce_at :: "nat \<Rightarrow> datacache \<Rightarrow> CacheEntry res" where
  "ce_at p s = (case ces s p of None \<Rightarrow> Inl UseAfterFree | Some e \<Rightarrow> Inr e)"

definition upd_ce :: "nat \<Rightarrow> (CacheEntry \<Rightarrow> CacheEntry) \<Rightarrow> datacache \<Rightarrow> datacache" where
  "upd_ce p f s = s\<lparr>ces := (ces s)(p := map_option f (ces s p))\<rparr>"

definition put_ce :: "nat \<Rightarrow> (CacheEntry \<Rightarrow> CacheEntry) \<Rightarrow> datacache \<Rightarrow> datacache res" where
  "put_ce p f s = (if ces s p = None then Inl UseAfterFree else Inr (upd_ce p f s))"

fun rir_at :: "rir_ptr \<Rightarrow> datacache \<Rightarrow> ReadInfoRec res" where
  "rir_at (p, i) s =
     rbind (ce_at p s) (\<lambda>e.
       case ce_dataChunks e of
         None \<Rightarrow> Inl NullDeref
       | Some cs \<Rightarrow> if 0 \<le> i \<and> i < int (length cs) then Inr (cs ! nat i) else Inl OverRead)"

definition upd_rir :: "rir_ptr \<Rightarrow> (ReadInfoRec \<Rightarrow> ReadInfoRec) \<Rightarrow> datacache \<Rightarrow> datacache" where
  "upd_rir q f = upd_ce (fst q) (\<lambda>e. e\<lparr>ce_dataChunks := map_option (\<lambda>cs. cs[nat (snd q) := f (cs ! nat (snd q))]) (ce_dataChunks e)\<rparr>)"

definition put_rir :: "rir_ptr \<Rightarrow> (ReadInfoRec \<Rightarrow> ReadInfoRec) \<Rightarrow> datacache \<Rightarrow> datacache res" where
  "put_rir q f s = rbind (rir_at q s) (\<lambda>_. Inr (upd_rir q f s))"

definition set_cbin :: "cbin \<Rightarrow> nat option \<Rightarrow> datacache \<Rightarrow> datacache" where
  "set_cbin B v s = s\<lparr>cbins := (cbins s)(B := v)\<rparr>"

text \<open>\<open>*link = v\<close>, and \<open>if (p) p->ce_prevInHash = l\<close>\<close>

fun put_clink :: "(cbin, nat) link option \<Rightarrow> nat option \<Rightarrow> datacache \<Rightarrow> datacache res" where
  "put_clink None v s = Inl NullDeref"
| "put_clink (Some (HeadOf B)) v s = Inr (set_cbin B v s)"
| "put_clink (Some (NextOf p)) v s = put_ce p (\<lambda>e. e\<lparr>ce_nextInHash := v\<rparr>) s"

fun put_cprev :: "nat option \<Rightarrow> (cbin, nat) link option \<Rightarrow> datacache \<Rightarrow> datacache res" where
  "put_cprev None l s = Inr s"
| "put_cprev (Some p) l s = put_ce p (\<lambda>e. e\<lparr>ce_prevInHash := l\<rparr>) s"

text \<open>Sequencing where a loop may not end.\<close>

fun obind :: "'a res option \<Rightarrow> ('a \<Rightarrow> 'b res option) \<Rightarrow> 'b res option" where
  "obind None f = None"
| "obind (Some (Inl u)) f = Some (Inl u)"
| "obind (Some (Inr x)) f = f x"

section \<open>Chunks\<close>

definition GetRoundedChunkSize :: "int \<Rightarrow> CacheEntry \<Rightarrow> int \<Rightarrow> int" where
  "GetRoundedChunkSize pageSize ce chunk =
     (if chunk < ce_numChunks ce - 1 then READBLOCKSIZE
      else
        let size = (if chunk = 0 then ce_size ce else ce_size ce smod READBLOCKSIZE) + (pageSize - 1) in
        size - (size AND (pageSize - 1)))"

definition RemoveFromChunkLRUList :: "nat \<Rightarrow> int \<Rightarrow> datacache \<Rightarrow> datacache res" where
  "RemoveFromChunkLRUList ent chunk s =
     rbind (rir_at (ent, chunk) s) (\<lambda>rir.
     if \<not> rir_isOnMRU rir then Inr s
     else
       rbind (case rir_prev rir of
                Some p \<Rightarrow> put_rir p (\<lambda>x. x\<lparr>rir_next := rir_next rir\<rparr>) s
              | None \<Rightarrow> Inr (s\<lparr>freeChunkMRUHead := rir_next rir\<rparr>)) (\<lambda>s1.
       rbind (rir_at (ent, chunk) s1) (\<lambda>rir.
       rbind (case rir_next rir of
                Some n \<Rightarrow> put_rir n (\<lambda>x. x\<lparr>rir_prev := rir_prev rir\<rparr>) s1
              | None \<Rightarrow> Inr (s1\<lparr>freeChunkMRUTail := rir_prev rir\<rparr>)) (\<lambda>s2.
       rbind (ce_at ent s2) (\<lambda>e.
       put_rir (ent, chunk) (\<lambda>x. x\<lparr>rir_isOnMRU := False\<rparr>)
         (s2\<lparr>bytesInFreeChunks := bytesInFreeChunks s2 - GetRoundedChunkSize (systemPageSize s2) e chunk\<rparr>))))))"

definition TryFreeChunk :: "nat \<Rightarrow> int \<Rightarrow> datacache \<Rightarrow> datacache res" where
  "TryFreeChunk ent chunkNum s =
     rbind (rir_at (ent, chunkNum) s) (\<lambda>rir.
     if rir_numRefs rir \<noteq> 0 then Inl AssertFail
     else if rir_data rir = None then Inr s
     else
       rbind (put_rir (ent, chunkNum) (\<lambda>x. x\<lparr>rir_data := None\<rparr>) s) (\<lambda>s1.
       rbind (RemoveFromChunkLRUList ent chunkNum s1) (\<lambda>s2.
       rbind (ce_at ent s2) (\<lambda>e.
       let chunkSize = GetRoundedChunkSize (systemPageSize s2) e chunkNum in
       rbind (put_ce ent (\<lambda>e. e\<lparr>ce_numChunksInMem := ce_numChunksInMem e - 1\<rparr>)
                (s2\<lparr>dc_unmapped := chunkSize # dc_unmapped s2, bytesInAllChunks := bytesInAllChunks s2 - chunkSize\<rparr>)) (\<lambda>s3.
       if ce_numChunksInMem e - 1 < 0 then Inl AssertFail else Inr s3)))))"

section \<open>Entries\<close>

fun try_free_all :: "nat \<Rightarrow> int list \<Rightarrow> datacache \<Rightarrow> datacache res" where
  "try_free_all ent [] s = Inr s"
| "try_free_all ent (i # is) s = rbind (TryFreeChunk ent i s) (try_free_all ent is)"

definition unlink_ce :: "nat \<Rightarrow> datacache \<Rightarrow> datacache res" where
  "unlink_ce ent s =
     rbind (ce_at ent s) (\<lambda>e.
     rbind (put_cprev (ce_nextInHash e) (ce_prevInHash e) s) (\<lambda>s1.
     rbind (ce_at ent s1) (\<lambda>e1.
     put_clink (ce_prevInHash e1) (ce_nextInHash e1) s1)))"

definition close_fd :: "nat \<Rightarrow> datacache \<Rightarrow> datacache res" where
  "close_fd ent s =
     rbind (ce_at ent s) (\<lambda>e.
     if ce_file_fd e \<ge> 0 then put_ce ent (\<lambda>e. e\<lparr>ce_file_fd := - 1\<rparr>) (s\<lparr>dc_closed := ce_file_fd e # dc_closed s\<rparr>)
     else Inr s)"

text \<open>With the entry the memory it points to is freed: header, encodings, chunks, name.\<close>

definition KillEntry :: "nat \<Rightarrow> datacache \<Rightarrow> datacache res" where
  "KillEntry ent s =
     rbind (unlink_ce ent s) (\<lambda>s1.
     rbind (ce_at ent s1) (\<lambda>e.
     rbind (try_free_all ent [0..ce_numChunks e - 1] s1) (\<lambda>s2.
     rbind (close_fd ent s2) (\<lambda>s3.
     Inr (s3\<lparr>ps_numDataCacheEntries := ps_numDataCacheEntries s3 - 1, ces := (ces s3)(ent := None)\<rparr>)))))"

text \<open>One turn of the loop of \<open>ReduceCacheIfNeeded\<close>; \<open>None\<close> is a loop that does not end.\<close>

definition drop_chunk :: "rir_ptr \<Rightarrow> datacache \<Rightarrow> datacache res" where
  "drop_chunk q s =
     rbind (rir_at q s) (\<lambda>rir.
     case rir_entry rir of
       None \<Rightarrow> Inl NullDeref
     | Some victEnt \<Rightarrow>
         rbind (RemoveFromChunkLRUList victEnt (rir_chunkNum rir) s) (\<lambda>s1.
         rbind (rir_at q s1) (\<lambda>rir.
         rbind (TryFreeChunk victEnt (rir_chunkNum rir) s1) (\<lambda>s2.
         rbind (ce_at victEnt s2) (\<lambda>e.
         if ce_numChunksInMem e = 0 \<and> ce_numRefs e = 0 then KillEntry victEnt s2 else Inr s2)))))"

partial_function (option) reduce_loop :: "datacache \<Rightarrow> datacache res option" where
  "reduce_loop s =
     (if bytesInAllChunks s > maxLRUCacheSizeBytes s \<and> bytesInFreeChunks s > 0 then
        (case freeChunkMRUTail s of
           None \<Rightarrow> Some (Inl AssertFail)
         | Some rir \<Rightarrow> (case drop_chunk rir s of Inl u \<Rightarrow> Some (Inl u) | Inr s1 \<Rightarrow> reduce_loop s1))
      else Some (Inr s))"

definition ReduceCacheIfNeeded :: "datacache \<Rightarrow> datacache res option" where
  "ReduceCacheIfNeeded s = (if maxLRUCacheSizeBytes s = 0 then Some (Inr s) else reduce_loop s)"

text \<open>A chunk goes to the front of the list.\<close>

definition push_chunk :: "nat \<Rightarrow> int \<Rightarrow> datacache \<Rightarrow> datacache res" where
  "push_chunk ent chunk s =
     rbind (put_rir (ent, chunk) (\<lambda>x. x\<lparr>rir_chunkNum := chunk, rir_entry := Some ent, rir_isOnMRU := True, rir_prev := None,
              rir_next := freeChunkMRUHead s\<rparr>) s) (\<lambda>s1.
     rbind (case freeChunkMRUHead s1 of
              Some h \<Rightarrow> put_rir h (\<lambda>x. x\<lparr>rir_prev := Some (ent, chunk)\<rparr>) s1
            | None \<Rightarrow> Inr (s1\<lparr>freeChunkMRUTail := Some (ent, chunk)\<rparr>)) (\<lambda>s2.
     rbind (ce_at ent s2) (\<lambda>e.
     Inr (s2\<lparr>freeChunkMRUHead := Some (ent, chunk),
            bytesInFreeChunks := bytesInFreeChunks s2 + GetRoundedChunkSize (systemPageSize s2) e chunk\<rparr>))))"

definition AddToChunkLRUList :: "nat \<Rightarrow> int \<Rightarrow> datacache \<Rightarrow> datacache res option" where
  "AddToChunkLRUList ent chunk s =
     obind (Some (rir_at (ent, chunk) s)) (\<lambda>rir.
     if rir_isOnMRU rir then Some (Inr s) else obind (Some (push_chunk ent chunk s)) ReduceCacheIfNeeded)"

section \<open>Reading\<close>

text \<open>The result is true if the file cannot be opened or mapped.\<close>

definition DoChunkRead :: "kernel \<Rightarrow> nat \<Rightarrow> int \<Rightarrow> datacache \<Rightarrow> (bool \<times> datacache) res option" where
  "DoChunkRead K ent chunk s =
     obind (Some (ce_at ent s)) (\<lambda>e.
     obind (Some (int_chk (chunk * READBLOCKSIZE + READBLOCKSIZE))) (\<lambda>last.
     let chunkStart = chunk * READBLOCKSIZE; chunkSize = min last (ce_size e) - chunkStart in
     obind (Some (if ce_file_fd e < 0 then
                    (case ce_filename e of
                       None \<Rightarrow> Inl NullDeref
                     | Some name \<Rightarrow> put_ce ent (\<lambda>e. e\<lparr>ce_file_fd := k_open K name\<rparr>) s)
                  else Inr s)) (\<lambda>s1.
     obind (Some (ce_at ent s1)) (\<lambda>e.
     if ce_file_fd e < 0 then Some (Inr (True, s1))
     else
       (case k_mmap K (ce_file_fd e) chunkStart chunkSize of
          None \<Rightarrow> Some (Inr (True, s1))
        | Some res \<Rightarrow>
            obind (Some (put_rir (ent, chunk) (\<lambda>x. x\<lparr>rir_data := Some res\<rparr>) s1)) (\<lambda>s2.
            obind (Some (put_ce ent (\<lambda>e. e\<lparr>ce_numChunksInMem := ce_numChunksInMem e + 1\<rparr>)
              (s2\<lparr>bytesInAllChunks := bytesInAllChunks s2 + GetRoundedChunkSize (systemPageSize s2) e chunk\<rparr>))) (\<lambda>s3.
            obind (ReduceCacheIfNeeded s3) (\<lambda>s4. Some (Inr (False, s4))))))))))"

definition ReadChunkIfNeeded :: "kernel \<Rightarrow> nat \<Rightarrow> int \<Rightarrow> datacache \<Rightarrow> (bool \<times> datacache) res option" where
  "ReadChunkIfNeeded K ent position s =
     obind (Some (ce_at ent s)) (\<lambda>e.
     if ce_size e = 0 then Some (Inr (False, s))
     else
       let chunkNum = position sdiv READBLOCKSIZE in
       obind (Some (rir_at (ent, chunkNum) s)) (\<lambda>rir.
       if rir_data rir \<noteq> None then Some (Inr (False, s)) else DoChunkRead K ent chunkNum s))"

section \<open>Locks\<close>

definition IncChunkLock :: "nat \<Rightarrow> int \<Rightarrow> datacache \<Rightarrow> (bool \<times> datacache) res" where
  "IncChunkLock ent bytes s =
     (let chunk = bytes sdiv READBLOCKSIZE in
      rbind (ce_at ent s) (\<lambda>e.
      if ce_dataChunks e = None then Inl AssertFail
      else if chunk \<ge> ce_numChunks e then Inr (False, s)
      else
        rbind (rir_at (ent, chunk) s) (\<lambda>rir.
        rbind (if rir_numRefs rir = 0 then RemoveFromChunkLRUList ent chunk s else Inr s) (\<lambda>s1.
        rbind (put_rir (ent, chunk) (\<lambda>x. x\<lparr>rir_numRefs := rir_numRefs x + 1\<rparr>) s1) (\<lambda>s2.
        Inr (True, s2))))))"

text \<open>The descriptor is closed with the lock of the last chunk. (\<open>-1\<close> is the only negative value.)\<close>

definition DecChunkLock :: "nat \<Rightarrow> int \<Rightarrow> datacache \<Rightarrow> (bool \<times> datacache) res option" where
  "DecChunkLock ent bytes s =
     (let chunk = bytes sdiv READBLOCKSIZE in
      obind (Some (ce_at ent s)) (\<lambda>e.
      if ce_dataChunks e = None then Some (Inl AssertFail)
      else if chunk \<ge> ce_numChunks e then Some (Inr (False, s))
      else
        obind (Some (put_rir (ent, chunk) (\<lambda>x. x\<lparr>rir_numRefs := rir_numRefs x - 1\<rparr>) s)) (\<lambda>s1.
        obind (Some (rir_at (ent, chunk) s1)) (\<lambda>rir.
        obind (if rir_numRefs rir < 1 then (if rir_numRefs rir < 0 then Some (Inl AssertFail) else AddToChunkLRUList ent chunk s1)
               else Some (Inr s1)) (\<lambda>s2.
        obind (Some (ce_at ent s2)) (\<lambda>e.
        obind (Some (if chunk = ce_numChunks e - 1 then close_fd ent s2 else Inr s2)) (\<lambda>s3.
        Some (Inr (True, s3)))))))))"

section \<open>Data to send\<close>

partial_function (option) halve :: "int \<Rightarrow> int \<Rightarrow> int option" where
  "halve bytesLeft desiredSize = (if bytesLeft > desiredSize then halve (drop_bit 1 bytesLeft) desiredSize else Some bytesLeft)"

text \<open>The data, \<open>actualSize\<close> and \<open>startOffset\<close>, which is not set if the data is not there.\<close>

definition GetDataToSend ::
  "nat \<Rightarrow> int \<Rightarrow> int \<Rightarrow> int \<Rightarrow> datacache \<Rightarrow> (string option \<times> int \<times> int option) res option" where
  "GetDataToSend ent position desiredSize maxSize s =
     obind (Some (ce_at ent s)) (\<lambda>e.
     if ce_size e = 0 then Some (Inr (None, 0, Some 0))
     else
       let chunkNum = position sdiv READBLOCKSIZE; posMod = position smod READBLOCKSIZE;
           bytesLeft = (if chunkNum = ce_numChunks e - 1 then ce_size e - position else READBLOCKSIZE - posMod) in
       obind (Some (rir_at (ent, chunkNum) s)) (\<lambda>rir.
       case rir_data rir of
         None \<Rightarrow> Some (Inr (None, bytesLeft, None))
       | Some dat \<Rightarrow>
           map_option (\<lambda>n. Inr (Some dat, n, Some posMod))
             (if bytesLeft > maxSize then
                (if bytesLeft \<ge> desiredSize * 2 then Some desiredSize else halve bytesLeft desiredSize)
              else Some bytesLeft)))"

section \<open>The table of entries\<close>

definition HashFilename :: "datacache \<Rightarrow> string \<Rightarrow> nat" where
  "HashFilename s name =
     (let val = GenericStringHash (dc_scrambled s) name;
          val1 = val + (signed_drop_bit 10 val + signed_drop_bit 20 val) in
      unat (val1 AND 1023))"

definition zero_rir :: ReadInfoRec where
  "zero_rir = \<lparr>rir_numRefs = 0, rir_data = None, rir_prev = None, rir_next = None, rir_entry = None, rir_chunkNum = 0, rir_isOnMRU = False\<rparr>"

definition zero_ce :: CacheEntry where
  "zero_ce = \<lparr>ce_filename = None, ce_nextInHash = None, ce_prevInHash = None, ce_size = 0, ce_numRefs = 0, ce_isInvalid = False,
     ce_file_fd = 0, ce_numChunks = 0, ce_numChunksInMem = 0, ce_dataChunks = None, ce_lastValidation = 0, ce_encodings = None,
     ce_type = None, ce_modTime = 0, ce_respHeader = None, ce_respHeaderLen = 0, ce_respHeaderTime = 0,
     ce_200Resp = None, ce_200RespLen = 0\<rparr>"

text \<open>\<open>mem\<close> is what \<open>calloc\<close> returns.\<close>

definition GetEmptyCacheEntry :: "(datacache \<Rightarrow> nat option) \<Rightarrow> datacache \<Rightarrow> nat option \<times> datacache" where
  "GetEmptyCacheEntry mem s = (case mem s of None \<Rightarrow> (None, s) | Some p \<Rightarrow> (Some p, s\<lparr>ces := (ces s)(p := Some zero_ce)\<rparr>))"

text \<open>The entry goes to the front of a chain: its links, the backward link of the entry that was
  first, the head.\<close>

definition push_ce :: "nat \<Rightarrow> cbin \<Rightarrow> datacache \<Rightarrow> datacache res" where
  "push_ce ent B s =
     rbind (put_ce ent (\<lambda>e. e\<lparr>ce_prevInHash := Some (HeadOf B), ce_nextInHash := cbins s B\<rparr>) s) (\<lambda>s1.
     rbind (put_cprev (cbins s1 B) (Some (NextOf ent)) s1) (\<lambda>s2.
     Inr (set_cbin B (Some ent) s2)))"

text \<open>\<open>chunk_mem\<close> says whether there is memory for the chunks. The result is true if there is
  none.\<close>

definition AddEntryToDataCache :: "bool \<Rightarrow> nat \<Rightarrow> datacache \<Rightarrow> (bool \<times> datacache) res" where
  "AddEntryToDataCache chunk_mem ce s =
     rbind (put_ce ce (\<lambda>e. e\<lparr>ce_numRefs := 1\<rparr>) s) (\<lambda>s0.
     rbind (ce_at ce s0) (\<lambda>e.
     rbind (int_chk (ce_size e + READBLOCKSIZE - 1)) (\<lambda>n.
     let numChunks = (if n sdiv READBLOCKSIZE = 0 then 1 else n sdiv READBLOCKSIZE);
         chunks = (if chunk_mem \<and> 0 < numChunks then Some (replicate (nat numChunks) zero_rir) else None) in
     rbind (put_ce ce (\<lambda>e. e\<lparr>ce_numChunks := numChunks, ce_numChunksInMem := 0, ce_dataChunks := chunks\<rparr>) s0) (\<lambda>s1.
     if chunks = None then Inr (True, s1)
     else
       rbind (put_ce ce (\<lambda>e. e\<lparr>ce_lastValidation := dc_now s1\<rparr>) s1) (\<lambda>s2.
       case ce_filename e of
         None \<Rightarrow> Inl NullDeref
       | Some name \<Rightarrow>
           rbind (push_ce ce (Bin (HashFilename s2 name)) s2) (\<lambda>s3.
           Inr (False, s3\<lparr>ps_numDataCacheEntries := ps_numDataCacheEntries s3 + 1\<rparr>)))))))"

definition MakeEntryInvalid :: "nat \<Rightarrow> datacache \<Rightarrow> datacache res" where
  "MakeEntryInvalid ent s =
     rbind (ce_at ent s) (\<lambda>e.
     if ce_numRefs e = 0 then KillEntry ent s
     else
       rbind (unlink_ce ent s) (\<lambda>s1.
       rbind (push_ce ent Invalid s1) (\<lambda>s2.
       put_ce ent (\<lambda>e. e\<lparr>ce_isInvalid := True\<rparr>) s2)))"

definition add_cwalks :: "int \<Rightarrow> datacache \<Rightarrow> datacache" where
  "add_cwalks n s = s\<lparr>cs_numDataCacheWalks := cs_numDataCacheWalks s + n\<rparr>"

text \<open>What \<open>CheckCache\<close> does with the entry whose name matches.\<close>

definition use_ce :: "kernel \<Rightarrow> nat \<Rightarrow> string \<Rightarrow> cbin \<Rightarrow> int \<Rightarrow> datacache \<Rightarrow> (nat option \<times> datacache) res" where
  "use_ce K p name B numWalked s =
     rbind (ce_at p s) (\<lambda>e.
     if dc_now s - ce_lastValidation e > FILECACHEVALIDATETIME \<and> k_stat K name \<noteq> Some (ce_modTime e) then
       rbind (MakeEntryInvalid p s) (\<lambda>s1. Inr (None, add_cwalks numWalked s1))
     else
       rbind (if dc_now s - ce_lastValidation e > FILECACHEVALIDATETIME
              then put_ce p (\<lambda>e. e\<lparr>ce_lastValidation := dc_now s\<rparr>) s else Inr s) (\<lambda>s1.
       rbind (put_ce p (\<lambda>e. e\<lparr>ce_numRefs := ce_numRefs e + 1\<rparr>) s1) (\<lambda>s2.
       rbind (if cbins s2 B = Some p then Inr s2 else rbind (unlink_ce p s2) (push_ce p B)) (\<lambda>s3.
       Inr (Some p, add_cwalks numWalked (s3\<lparr>cs_numDataCacheHits := cs_numDataCacheHits s3 + 1\<rparr>))))))"

partial_function (option) find_ce ::
  "kernel \<Rightarrow> string \<Rightarrow> cbin \<Rightarrow> nat option \<Rightarrow> int \<Rightarrow> datacache \<Rightarrow> (nat option \<times> datacache) res option" where
  "find_ce K exName B walk numWalked s =
     (case walk of
        None \<Rightarrow> Some (Inr (None, add_cwalks numWalked s))
      | Some p \<Rightarrow>
          (case ce_at p s of
             Inl u \<Rightarrow> Some (Inl u)
           | Inr e \<Rightarrow>
               (case ce_filename e of
                  None \<Rightarrow> Some (Inl NullDeref)
                | Some name \<Rightarrow>
                    if name \<noteq> exName then find_ce K exName B (ce_nextInHash e) (numWalked + 1) s
                    else Some (use_ce K p name B (numWalked + 1) s))))"

definition CheckCache :: "kernel \<Rightarrow> string \<Rightarrow> datacache \<Rightarrow> (nat option \<times> datacache) res option" where
  "CheckCache K exName s =
     (let s0 = s\<lparr>cs_numDataCacheChecks := cs_numDataCacheChecks s + 1\<rparr>; B = Bin (HashFilename s0 exName) in
      find_ce K exName B (cbins s0 B) 0 s0)"

definition ReleaseCacheEntry :: "nat \<Rightarrow> datacache \<Rightarrow> datacache res" where
  "ReleaseCacheEntry ent s =
     rbind (put_ce ent (\<lambda>e. e\<lparr>ce_numRefs := ce_numRefs e - 1\<rparr>) s) (\<lambda>s1.
     rbind (ce_at ent s1) (\<lambda>e.
     if ce_numRefs e < 1 then
       rbind (close_fd ent s1) (\<lambda>s2. if ce_isInvalid e then KillEntry ent s2 else Inr s2)
     else Inr s1))"

end
