(* ===== verification/Flash_Date.thy ===== *)
theory Flash_Date
  imports Scan Http_Request "HOL-Library.List_Lexorder" "HOL-Library.Char_ord" "HOL-Library.Signed_Division"
begin

text \<open>
  HTTP dates in flash: \<open>MakeHTTPDate\<close> of \<open>libhttpd.c\<close> writes them, \<open>tdate_parse\<close> of
  \<open>tdate_parse.c\<close> reads them back, in seven formats given to \<open>sscanf\<close>. The names of days and months
  are looked up by binary search in tables that \<open>qsort\<close> orders at the first use.

  \<open>gmtime\<close> is the calendar of the C library: the years and months that precede a day are counted
  off one by one.
\<close>

section \<open>The calendar\<close>

record tm =
  tm_sec :: int
  tm_min :: int
  tm_hour :: int
  tm_mday :: int
  tm_mon :: int
  tm_year :: int
  tm_wday :: int

definition leap :: "int \<Rightarrow> bool" where
  "leap y \<longleftrightarrow> y mod 4 = 0 \<and> (y mod 100 \<noteq> 0 \<or> y mod 400 = 0)"

definition year_len :: "int \<Rightarrow> int" where
  "year_len y = (if leap y then 366 else 365)"

definition month_lens :: "int \<Rightarrow> int list" where
  "month_lens y = [31, if leap y then 29 else 28, 31, 30, 31, 30, 31, 31, 30, 31, 30, 31]"

function year_day :: "int \<Rightarrow> int \<Rightarrow> int \<times> int" where
  "year_day y d = (if d < year_len y then (y, d) else year_day (y + 1) (d - year_len y))"
  by pat_completeness auto
termination
  by (relation "measure (\<lambda>(y, d). nat d)") (auto simp: year_len_def split: if_splits)

declare year_day.simps [simp del]

fun month_day :: "int list \<Rightarrow> int \<Rightarrow> int \<Rightarrow> int \<times> int" where
  "month_day [] m d = (m, d)"
| "month_day (l # ls) m d = (if d < l then (m, d) else month_day ls (m + 1) (d - l))"

text \<open>For times from 1970 on.\<close>

definition gmtime :: "int \<Rightarrow> tm" where
  "gmtime t =
     (let days = t div 86400; s = t mod 86400; (y, d) = year_day 1970 days; (m, md) = month_day (month_lens y) 0 d in
      \<lparr>tm_sec = s mod 60, tm_min = s div 60 mod 60, tm_hour = s div 3600, tm_mday = md + 1,
       tm_mon = m, tm_year = y - 1900, tm_wday = (days + 4) mod 7\<rparr>)"

section \<open>Writing a date\<close>

definition monthNames :: "string list" where
  "monthNames = [''Jan'', ''Feb'', ''Mar'', ''Apr'', ''May'', ''Jun'', ''Jul'', ''Aug'', ''Sep'', ''Oct'', ''Nov'', ''Dec'']"

definition dayNames :: "string list" where
  "dayNames = [''Sun'', ''Mon'', ''Tue'', ''Wed'', ''Thu'', ''Fri'', ''Sat'']"

text \<open>\<open>%.2d\<close> of a number that is not negative.\<close>

definition show2 :: "int \<Rightarrow> string" where
  "show2 i = (let s = show_int i in replicate (2 - length s) (CHR ''0'') @ s)"

definition MakeHTTPDate :: "int \<Rightarrow> string" where
  "MakeHTTPDate unixTime =
     (let gmt = gmtime unixTime in
      dayNames ! nat (tm_wday gmt) @ '', '' @ show2 (tm_mday gmt) @ '' '' @ monthNames ! nat (tm_mon gmt) @ '' '' @
      show_int (tm_year gmt + 1900) @ '' '' @ show2 (tm_hour gmt) @ '':'' @ show2 (tm_min gmt) @ '':'' @ show2 (tm_sec gmt) @ '' GMT'')"

section \<open>Scanning\<close>

datatype item = Int_Conv | Alpha_Conv | Lit char | Ws
datatype arg = Int_Arg int | Str_Arg string

definition isalpha :: "char \<Rightarrow> bool" where
  "isalpha c \<longleftrightarrow> of_char c \<in> {65..90::nat} \<or> of_char c \<in> {97..122::nat}"

text \<open>\<open>sscanf\<close> on a string: the values of the conversions up to the first that fails. \<open>%[a-zA-Z]\<close>
  goes to an array of 500 bytes.\<close>

fun sscanf :: "item list \<Rightarrow> string \<Rightarrow> arg list res" where
  "sscanf [] s = Inr []"
| "sscanf (Ws # fmt) s = sscanf fmt (scan_ws s)"
| "sscanf (Lit c # fmt) s = (case s of [] \<Rightarrow> Inr [] | x # s \<Rightarrow> if x = c then sscanf fmt s else Inr [])"
| "sscanf (Int_Conv # fmt) s =
     (case scan_int s of
        None \<Rightarrow> Inr []
      | Some (i, s) \<Rightarrow> if int_range i then rbind (sscanf fmt s) (\<lambda>as. Inr (Int_Arg i # as)) else Inl IntOverflow)"
| "sscanf (Alpha_Conv # fmt) s =
     (let w = takeWhile isalpha s in
      if w = [] then Inr []
      else if 500 \<le> length w then Inl BufferOverflow
      else rbind (sscanf fmt (dropWhile isalpha s)) (\<lambda>as. Inr (Str_Arg w # as)))"

section \<open>Tables\<close>

type_synonym strlong = "string \<times> int"

definition strlong_sort :: "strlong list \<Rightarrow> strlong list" where
  "strlong_sort tab = sort_key fst tab"

text \<open>The binary search. \<open>h\<close> may become -1.\<close>

function strlong_search :: "string \<Rightarrow> strlong list \<Rightarrow> int \<Rightarrow> int \<Rightarrow> int option res" where
  "strlong_search str tab l h =
     (let i = (h + l) sdiv 2 in
      if i < 0 \<or> int (length tab) \<le> i then Inl OverRead
      else
        let s = fst (tab ! nat i) in
        if str < s then (if i - 1 < l then Inr None else strlong_search str tab l (i - 1))
        else if s < str then (if h < i + 1 then Inr None else strlong_search str tab (i + 1) h)
        else Inr (Some (snd (tab ! nat i))))"
  by pat_completeness auto
termination
  by (relation "measure (\<lambda>(str, tab, l, h). nat (h - l + 1))") (auto simp: signed_divide_int_def sgn_if Let_def split: if_splits)

declare strlong_search.simps [simp del]

definition pound_case :: "string \<Rightarrow> string" where
  "pound_case s = map tolower s"

definition wday_tab :: "strlong list" where
  "wday_tab = [(''sun'', 0), (''sunday'', 0), (''mon'', 1), (''monday'', 1), (''tue'', 2), (''tuesday'', 2), (''wed'', 3),
     (''wednesday'', 3), (''thu'', 4), (''thursday'', 4), (''fri'', 5), (''friday'', 5), (''sat'', 6), (''saturday'', 6)]"

definition mon_tab :: "strlong list" where
  "mon_tab = [(''jan'', 0), (''january'', 0), (''feb'', 1), (''february'', 1), (''mar'', 2), (''march'', 2), (''apr'', 3),
     (''april'', 3), (''may'', 4), (''jun'', 5), (''june'', 5), (''jul'', 6), (''july'', 6), (''aug'', 7), (''august'', 7),
     (''sep'', 8), (''september'', 8), (''oct'', 9), (''october'', 9), (''nov'', 10), (''november'', 10), (''dec'', 11),
     (''december'', 11)]"

definition scan_wday :: "string \<Rightarrow> int option res" where
  "scan_wday str_wday = strlong_search (pound_case str_wday) (strlong_sort wday_tab) 0 (int (length wday_tab) - 1)"

definition scan_mon :: "string \<Rightarrow> int option res" where
  "scan_mon str_mon = strlong_search (pound_case str_mon) (strlong_sort mon_tab) 0 (int (length mon_tab) - 1)"

section \<open>Reading a date\<close>

definition is_leap :: "int \<Rightarrow> bool" where
  "is_leap year = (if year mod 400 \<noteq> 0 then if year mod 100 \<noteq> 0 then year mod 4 = 0 else False else True)"

definition monthtab :: "int list" where
  "monthtab = [0, 31, 59, 90, 120, 151, 181, 212, 243, 273, 304, 334]"

text \<open>The years are computed in \<open>int\<close>, the rest in \<open>time_t\<close>.\<close>

definition tm_to_time :: "tm \<Rightarrow> int res" where
  "tm_to_time tmP =
     rbind (int_chk (tm_year tmP - 70)) (\<lambda>y.
     rbind (int_chk (y * 365)) (\<lambda>t.
     rbind (int_chk (tm_year tmP - 68)) (\<lambda>y.
     rbind (int_chk (tm_mday tmP - 1)) (\<lambda>d.
       if tm_mon tmP < 0 \<or> 12 \<le> tm_mon tmP then Inl OverRead
       else
         let t = t + y sdiv 4 + monthtab ! nat (tm_mon tmP) + (if 2 \<le> tm_mon tmP \<and> is_leap (tm_year tmP) then 1 else 0) + d
         in Inr (((t * 24 + tm_hour tmP) * 60 + tm_min tmP) * 60 + tm_sec tmP)))))"

text \<open>The formats, and where each puts its values: the name of the day if it has one, day, name of
  the month, year, hour, minute, second.\<close>

type_synonym fields = "string option \<times> int \<times> string \<times> int \<times> int \<times> int \<times> int"

abbreviation (input) GMT :: "item list" where "GMT \<equiv> [Ws, Lit (CHR ''G''), Lit (CHR ''M''), Lit (CHR ''T'')]"
abbreviation (input) Dash :: item where "Dash \<equiv> Lit (CHR ''-'')"
abbreviation (input) Colon :: item where "Colon \<equiv> Lit (CHR '':'')"
abbreviation (input) Clock :: "item list" where "Clock \<equiv> [Int_Conv, Colon, Int_Conv, Colon, Int_Conv]"

fun day_first :: "arg list \<Rightarrow> fields option" where
  "day_first [Int_Arg d, Str_Arg m, Int_Arg y, Int_Arg h, Int_Arg mi, Int_Arg s] = Some (None, d, m, y, h, mi, s)"
| "day_first _ = None"

fun clock_first :: "arg list \<Rightarrow> fields option" where
  "clock_first [Int_Arg h, Int_Arg mi, Int_Arg s, Int_Arg d, Str_Arg m, Int_Arg y] = Some (None, d, m, y, h, mi, s)"
| "clock_first _ = None"

fun wday_first :: "arg list \<Rightarrow> fields option" where
  "wday_first [Str_Arg w, Int_Arg d, Str_Arg m, Int_Arg y, Int_Arg h, Int_Arg mi, Int_Arg s] = Some (Some w, d, m, y, h, mi, s)"
| "wday_first _ = None"

fun wday_month :: "arg list \<Rightarrow> fields option" where
  "wday_month [Str_Arg w, Str_Arg m, Int_Arg d, Int_Arg h, Int_Arg mi, Int_Arg s, Int_Arg y] = Some (Some w, d, m, y, h, mi, s)"
| "wday_month _ = None"

definition formats :: "(item list \<times> (arg list \<Rightarrow> fields option)) list" where
  "formats =
     [([Int_Conv, Dash, Alpha_Conv, Dash, Int_Conv, Ws] @ Clock @ GMT, day_first),
      ([Int_Conv, Ws, Alpha_Conv, Ws, Int_Conv, Ws] @ Clock @ GMT, day_first),
      (Clock @ GMT @ [Ws, Int_Conv, Dash, Alpha_Conv, Dash, Int_Conv], clock_first),
      (Clock @ GMT @ [Ws, Int_Conv, Ws, Alpha_Conv, Ws, Int_Conv], clock_first),
      ([Alpha_Conv, Lit (CHR '',''), Ws, Int_Conv, Dash, Alpha_Conv, Dash, Int_Conv, Ws] @ Clock @ GMT, wday_first),
      ([Alpha_Conv, Lit (CHR '',''), Ws, Int_Conv, Ws, Alpha_Conv, Ws, Int_Conv, Ws] @ Clock @ GMT, wday_first),
      ([Alpha_Conv, Ws, Alpha_Conv, Ws, Int_Conv, Ws] @ Clock @ GMT @ [Ws, Int_Conv], wday_month)]"

text \<open>The names, in the order of the conditions: the month is looked at only if the day is known.\<close>

definition name_fields :: "fields \<Rightarrow> tm option res" where
  "name_fields f =
     (case f of (w, d, m, y, h, mi, s) \<Rightarrow>
        rbind (case w of None \<Rightarrow> Inr (Some 0) | Some w \<Rightarrow> scan_wday w) (\<lambda>wd.
          case wd of
            None \<Rightarrow> Inr None
          | Some wd \<Rightarrow> rbind (scan_mon m) (\<lambda>mon.
              Inr (map_option (\<lambda>mon. \<lparr>tm_sec = s, tm_min = mi, tm_hour = h, tm_mday = d, tm_mon = mon, tm_year = y, tm_wday = wd\<rparr>) mon))))"

fun try_formats :: "(item list \<times> (arg list \<Rightarrow> fields option)) list \<Rightarrow> string \<Rightarrow> tm option res" where
  "try_formats [] cp = Inr None"
| "try_formats ((fmt, put) # fs) cp =
     rbind (sscanf fmt cp) (\<lambda>as.
       case put as of
         None \<Rightarrow> try_formats fs cp
       | Some f \<Rightarrow> rbind (name_fields f) (\<lambda>tm. if tm = None then try_formats fs cp else Inr tm))"

definition century :: "int \<Rightarrow> int" where
  "century y = (if 1900 < y then y - 1900 else if y < 70 then y + 100 else y)"

definition tdate_parse :: "string \<Rightarrow> int res" where
  "tdate_parse str =
     rbind (try_formats formats (dropWhile (\<lambda>c. c = CHR '' '' \<or> c = CHR 0x09) (cstr str))) (\<lambda>tm.
       case tm of
         None \<Rightarrow> Inr (- 1)
       | Some tm \<Rightarrow> tm_to_time (tm\<lparr>tm_year := century (tm_year tm)\<rparr>))"

end
