(* ===== verification/Flash_Hotfile.thy ===== *)
theory Flash_Hotfile
  imports Flash_Datacache Flash_Date
begin

text \<open>
  How flash sends a file (\<open>flash_server/hotfile.c\<close>): each time a connection can be written, the header
  and a part of a chunk of the file go out, and the lock of the connection moves to the chunk where it
  is then; if the chunk is not in memory, a helper is asked to read it first. What \<open>writev\<close> answers
  is an argument, and what it took is appended to \<open>hc_out\<close>. Timers and the loop that waits for descriptors
  are left out, and so is the part that is not compiled on Linux (\<open>SKIP_MINCORE\<close>).
\<close>

datatype http_method = METHOD_GET | METHOD_HEAD | METHOD_POST | METHOD_ERROR

record file_conn =
  hc_cacheEnt :: nat
  hc_bytesSent :: int
  hc_sndbuf :: int
  hc_method :: http_method
  hc_mimeFlag :: bool
  hc_numChunkLocks :: int
  hc_status :: int
  hc_hne :: "nat option"
  hc_ifModifiedSince :: int
  hc_out :: string

text \<open>What a write leads to: the chunk is read first, nothing was taken, more is to come, the
  connection is done (and closed by force).\<close>

datatype wstep = Read_First | Nothing_Taken | More | Done bool

abbreviation (input) DATESTARTOFF :: nat where "DATESTARTOFF \<equiv> 22"
abbreviation (input) DATESTRLEN :: nat where "DATESTRLEN \<equiv> 27"

text \<open>\<open>y = 2 ^ k\<close> in the loop.\<close>

function pow2_loop :: "nat \<Rightarrow> int \<Rightarrow> int" where
  "pow2_loop k x = (if 2 ^ k \<le> x then pow2_loop (Suc k) x else drop_bit 1 (2 ^ k))"
  by pat_completeness auto
termination
proof (relation "measure (\<lambda>(k, x). nat x - k)")
  fix k :: nat and x :: int
  assume "2 ^ k \<le> x"
  then have "2 ^ k \<le> nat x" by (simp add: le_nat_iff)
  then have "k < nat x" using less_exp [of k] by linarith
  then show "((Suc k, x), (k, x)) \<in> measure (\<lambda>(k, x). nat x - k)" by simp
qed simp

declare pow2_loop.simps [simp del]

definition PowerOf2LessThanEqual :: "int \<Rightarrow> int" where
  "PowerOf2LessThanEqual x = (if x AND (x - 1) = 0 then x else pow2_loop 0 x)"

text \<open>What \<open>DoneWithConnection\<close> of \<open>loop.c\<close> does with the cache.\<close>

definition DoneWithConnection_cache :: "file_conn \<Rightarrow> datacache \<Rightarrow> datacache res option" where
  "DoneWithConnection_cache c s =
     obind (if hc_numChunkLocks c \<noteq> 0 then
              obind (DecChunkLock (hc_cacheEnt c) (hc_bytesSent c) s) (\<lambda>(unlocked, s1).
                if hc_numChunkLocks c - of_bool unlocked \<noteq> 0 then Some (Inl AssertFail) else Some (Inr s1))
            else Some (Inr s)) (\<lambda>s1. Some (ReleaseCacheEntry (hc_cacheEnt c) s1))"

text \<open>The header, with the current date filled in.\<close>

definition header_out :: "nat \<Rightarrow> datacache \<Rightarrow> (string \<times> datacache) res" where
  "header_out ent s =
     rbind (ce_at ent s) (\<lambda>e.
     case ce_respHeader e of
       None \<Rightarrow> Inl NullDeref
     | Some buf \<Rightarrow>
         if ce_respHeaderTime e \<noteq> dc_now s \<and> length buf < DATESTARTOFF + DATESTRLEN then Inl BufferOverflow
         else if int (length buf) < ce_respHeaderLen e then Inl OverRead
         else
           let buf1 = (if ce_respHeaderTime e \<noteq> dc_now s then blit buf DATESTARTOFF (take DATESTRLEN (MakeHTTPDate (dc_now s))) else buf) in
           rbind (put_ce ent (\<lambda>e. e\<lparr>ce_respHeader := Some buf1, ce_respHeaderTime := dc_now s\<rparr>) s) (\<lambda>s1.
           Inr (take (nat (ce_respHeaderLen e)) buf1, s1)))"

fun data_out :: "string option \<Rightarrow> int option \<Rightarrow> int \<Rightarrow> string res" where
  "data_out (Some dat) (Some off) n =
     (if 0 \<le> off \<and> off + n \<le> int (length dat) then Inr (take (nat n) (drop (nat off) dat)) else Inl OverRead)"
| "data_out _ _ _ = Inl NullDeref"

definition finish :: "bool \<Rightarrow> file_conn \<Rightarrow> datacache \<Rightarrow> (wstep \<times> file_conn \<times> datacache) res option" where
  "finish force c s = obind (DoneWithConnection_cache c s) (\<lambda>s1. Some (Inr (Done force, c, s1)))"

text \<open>After \<open>writev\<close>: \<open>sz\<close> bytes of the file were taken.\<close>

definition move_on :: "int \<Rightarrow> int \<Rightarrow> file_conn \<Rightarrow> datacache \<Rightarrow> (wstep \<times> file_conn \<times> datacache) res option" where
  "move_on fsize sz c s =
     (if hc_numChunkLocks c = 0 then Some (Inl AssertFail)
      else
        obind (Some (IncChunkLock (hc_cacheEnt c) (hc_bytesSent c + sz) s)) (\<lambda>(locked, s1).
        obind (DecChunkLock (hc_cacheEnt c) (hc_bytesSent c) s1) (\<lambda>(unlocked, s2).
        let c1 = c\<lparr>hc_numChunkLocks := hc_numChunkLocks c + of_bool locked - of_bool unlocked, hc_bytesSent := hc_bytesSent c + sz\<rparr> in
        if hc_bytesSent c1 \<ge> fsize then finish False c1 s2 else Some (Inr (More, c1, s2)))))"

text \<open>After a helper has read the chunk, it is mapped.\<close>

definition ResumeAfterFileReading :: "kernel \<Rightarrow> file_conn \<Rightarrow> datacache \<Rightarrow> (wstep \<times> file_conn \<times> datacache) res option" where
  "ResumeAfterFileReading K c s =
     obind (ReadChunkIfNeeded K (hc_cacheEnt c) (hc_bytesSent c) s) (\<lambda>(err, s1).
     if err then finish True c s1 else Some (Inr (More, c, s1)))"

text \<open>The size of the send buffer, the size of the header taken off if it is sent along.\<close>

definition set_sndbuf :: "int \<Rightarrow> CacheEntry \<Rightarrow> file_conn \<Rightarrow> file_conn" where
  "set_sndbuf sendBufSizeBytes e c =
     (if sendBufSizeBytes \<noteq> 0 \<and> hc_sndbuf c < ce_size e \<and> hc_sndbuf c \<noteq> sendBufSizeBytes then c\<lparr>hc_sndbuf := sendBufSizeBytes\<rparr> else c)"

definition max_buf :: "CacheEntry \<Rightarrow> file_conn \<Rightarrow> int" where
  "max_buf e c =
     (if hc_bytesSent c = 0 \<and> hc_mimeFlag c \<and> ce_respHeaderLen e \<noteq> 0 then hc_sndbuf c - ce_respHeaderLen e else hc_sndbuf c)"

text \<open>From the answer of \<open>writev\<close> on; \<open>hdr\<close> and \<open>body\<close> were given to it.\<close>

definition after_write :: "bool \<Rightarrow> int \<Rightarrow> string \<Rightarrow> string \<Rightarrow> CacheEntry \<Rightarrow> file_conn \<Rightarrow> datacache \<Rightarrow> (wstep \<times> file_conn \<times> datacache) res option" where
  "after_write testing written hdr body e c s =
     (let c1 = c\<lparr>hc_out := hc_out c @ take (nat written) (hdr @ body)\<rparr>;
          sz = (if hc_bytesSent c = 0 \<and> ce_respHeaderLen e \<noteq> 0 \<and> written > 0 then written - ce_respHeaderLen e else written) in
      if written \<le> 0 \<and> testing then Some (Inr (Nothing_Taken, c1, s))
      else if hc_method c = METHOD_HEAD then finish False c1 s
      else if sz < 0 then finish True c1 s
      else move_on (ce_size e) sz c1 s)"

definition write_out ::
  "bool \<Rightarrow> (string \<Rightarrow> int) \<Rightarrow> string option \<Rightarrow> int \<Rightarrow> int option \<Rightarrow> CacheEntry \<Rightarrow> file_conn \<Rightarrow> datacache \<Rightarrow> (wstep \<times> file_conn \<times> datacache) res option" where
  "write_out testing writev dataToSend bytesToSend startOffset e c s =
     obind (Some (if hc_bytesSent c = 0 \<and> ce_respHeaderLen e \<noteq> 0 then header_out (hc_cacheEnt c) s else Inr ([], s))) (\<lambda>(hdr, s1).
     obind (Some (if hc_method c = METHOD_GET \<and> bytesToSend \<noteq> 0 then data_out dataToSend startOffset bytesToSend else Inr [])) (\<lambda>body.
     after_write testing (writev (hdr @ body)) hdr body e c s1))"

definition DoSingleWriteBackend ::
  "int \<Rightarrow> bool \<Rightarrow> (string \<Rightarrow> int) \<Rightarrow> file_conn \<Rightarrow> datacache \<Rightarrow> (wstep \<times> file_conn \<times> datacache) res option" where
  "DoSingleWriteBackend sendBufSizeBytes testing writev c s =
     obind (Some (ce_at (hc_cacheEnt c) s)) (\<lambda>e.
     let c = set_sndbuf sendBufSizeBytes e c; maxBufSize = max_buf e c in
     obind (GetDataToSend (hc_cacheEnt c) (hc_bytesSent c) (PowerOf2LessThanEqual maxBufSize) maxBufSize s) (\<lambda>(dataToSend, bytesToSend, startOffset).
     if bytesToSend \<noteq> 0 \<and> dataToSend = None then Some (Inr (Read_First, c, s))
     else if bytesToSend = 0 \<and> ce_size e \<noteq> 0 then finish True c s
     else write_out testing writev dataToSend bytesToSend startOffset e c s))"

end
