(* ===== verification/Flash_Coldfile.thy ===== *)
theory Flash_Coldfile
  imports Flash_Hotfile Flash_Hotcgi
begin

text \<open>
  How flash opens a file: \<open>RegularFileStuff\<close> of \<open>flash_server/hotfile.c\<close> looks it up in the data cache,
  and \<open>ColdFileStuff\<close> of \<open>cold.c\<close> makes a new entry, with the type and the encodings that follow from the
  name (\<open>FigureMime\<close>) and the header of the response (\<open>CalcRespHeader\<close> of \<open>datacache.c\<close>).

  \<open>sprintf\<close> of a text into an array that is too small is \<open>BufferOverflow\<close>. What the allocations of
  memory return is an argument. Of an error the status of the page is told that \<open>HttpdSendErr\<close> sends.
\<close>

section \<open>Type and encodings\<close>

definition enc_tab :: "(string \<times> string) list" where
  "enc_tab = [(''Z'', ''x-compress''), (''gz'', ''x-gzip''), (''uu'', ''x-uuencode'')]"

definition typ_tab :: "(string \<times> string) list" where
  "typ_tab = [(''html'', ''text/html''), (''htm'', ''text/html''), (''rtx'', ''text/richtext''),
     (''etx'', ''text/x-setext''), (''tsv'', ''text/tab-separated-values''), (''gif'', ''image/gif''),
     (''jpg'', ''image/jpeg''), (''jpeg'', ''image/jpeg''), (''jpe'', ''image/jpeg''), (''jfif'', ''image/jpeg''),
     (''tif'', ''image/tiff''), (''tiff'', ''image/tiff''), (''pbm'', ''image/x-portable-bitmap''),
     (''pgm'', ''image/x-portable-graymap''), (''ppm'', ''image/x-portable-pixmap''),
     (''pnm'', ''image/x-portable-anymap''), (''xbm'', ''image/x-xbitmap''), (''xpm'', ''image/x-xpixmap''),
     (''xwd'', ''image/x-xwindowdump''), (''ief'', ''image/ief''), (''au'', ''audio/basic''),
     (''snd'', ''audio/basic''), (''aif'', ''audio/x-aiff''), (''aiff'', ''audio/x-aiff''),
     (''aifc'', ''audio/x-aiff''), (''ra'', ''audio/x-pn-realaudio''), (''ram'', ''audio/x-pn-realaudio''),
     (''wav'', ''audio/x-wav''), (''mpeg'', ''video/mpeg''), (''mpg'', ''video/mpeg''), (''mpe'', ''video/mpeg''),
     (''qt'', ''video/quicktime''), (''mov'', ''video/quicktime''), (''avi'', ''video/x-msvideo''),
     (''movie'', ''video/x-sgi-movie''), (''mv'', ''video/x-sgi-movie''), (''vx'', ''video/x-rad-screenplay''),
     (''a'', ''application/octet-stream''), (''bin'', ''application/octet-stream''),
     (''exe'', ''application/octet-stream''), (''dump'', ''application/octet-stream''),
     (''o'', ''application/octet-stream''), (''class'', ''application/java''), (''ai'', ''application/postscript''),
     (''eps'', ''application/postscript''), (''ps'', ''application/postscript''),
     (''dir'', ''application/x-director''), (''dxr'', ''application/x-director''),
     (''fgd'', ''application/x-director''), (''dvi'', ''application/x-dvi''), (''gtar'', ''application/x-gtar''),
     (''hdf'', ''application/x-hdf''), (''hqx'', ''application/mac-binhex40''),
     (''iv'', ''application/x-inventor''), (''latex'', ''application/x-latex''),
     (''man'', ''application/x-troff-man''), (''me'', ''application/x-troff-me''), (''mif'', ''application/x-mif''),
     (''ms'', ''application/x-troff-ms''), (''oda'', ''application/oda''), (''pdf'', ''application/pdf''),
     (''rtf'', ''application/rtf''), (''bcpio'', ''application/x-bcpio''), (''cpio'', ''application/x-cpio''),
     (''sv4cpio'', ''application/x-sv4cpio''), (''sv4crc'', ''application/x-sv4crc''),
     (''sh'', ''application/x-shar''), (''shar'', ''application/x-shar''), (''sit'', ''application/x-stuffit''),
     (''tar'', ''application/x-tar''), (''tex'', ''application/x-tex''), (''texi'', ''application/x-texinfo''),
     (''texinfo'', ''application/x-texinfo''), (''tr'', ''application/x-troff''),
     (''roff'', ''application/x-troff''), (''man'', ''application/x-troff-man''),
     (''me'', ''application/x-troff-me''), (''ms'', ''application/x-troff-ms''),
     (''zip'', ''application/x-zip-compressed''), (''tsp'', ''application/dsptype''),
     (''wsrc'', ''application/x-wais-source''), (''ustar'', ''application/x-ustar''),
     (''cdf'', ''application/x-netcdf''), (''nc'', ''application/x-netcdf''), (''wrl'', ''x-world/x-vrml''),
     (''mime'', ''message/rfc822'')]"

definition strcat :: "string \<Rightarrow> string \<Rightarrow> string res" where
  "strcat dst src = strncat dst src (length src)"

text \<open>The last dot before \<open>j\<close>, the first character left out.\<close>

fun last_dot :: "string \<Rightarrow> nat \<Rightarrow> nat option" where
  "last_dot s 0 = None"
| "last_dot s (Suc i) = (if i = 0 then None else if s ! i = CHR ''.'' then Some i else last_dot s i)"

definition same_ext :: "string \<Rightarrow> string \<Rightarrow> bool" where
  "same_ext x ext \<longleftrightarrow> length x = length ext \<and> map tolower ext = map tolower x"

text \<open>\<open>None\<close> is the result \<open>NULL\<close>.\<close>

fun add_encodings ::
  "(nat \<Rightarrow> string option) \<Rightarrow> (string \<times> string) list \<Rightarrow> string \<Rightarrow> string \<Rightarrow> int \<Rightarrow> bool \<Rightarrow> (string \<times> int \<times> bool) option res" where
  "add_encodings alloc [] ext encodings maxencodings got_enc = Inr (Some (encodings, maxencodings, got_enc))"
| "add_encodings alloc ((x, val) # tab) ext encodings maxencodings got_enc =
     (if same_ext x ext then
        case realloc_str alloc encodings maxencodings (int (length val) + 1) of
          (ok, encodings, maxencodings) \<Rightarrow>
            if \<not> ok then Inr None
            else
              rbind (if cstr encodings \<noteq> [] then strcat encodings '';'' else Inr encodings) (\<lambda>encodings.
              rbind (strcat encodings val) (\<lambda>encodings.
              add_encodings alloc tab ext encodings maxencodings True))
      else add_encodings alloc tab ext encodings maxencodings got_enc)"

lemma last_dot_less: "last_dot s j = Some i \<Longrightarrow> i < j"
  by (induction j) (auto split: if_splits)

function mime_loop :: "(nat \<Rightarrow> string option) \<Rightarrow> string \<Rightarrow> nat \<Rightarrow> string \<Rightarrow> int \<Rightarrow> (string \<times> string) option res" where
  "mime_loop alloc expanded j encodings maxencodings =
     (case last_dot expanded j of
        None \<Rightarrow> Inr (Some (encodings, ''text/plain''))
      | Some i \<Rightarrow>
          let ext = take (j - i - 1) (drop (i + 1) expanded) in
          (case add_encodings alloc enc_tab ext encodings maxencodings False of
             Inl u \<Rightarrow> Inl u
           | Inr None \<Rightarrow> Inr None
           | Inr (Some (encodings, maxencodings, got_enc)) \<Rightarrow>
               if got_enc then mime_loop alloc expanded i encodings maxencodings
               else Inr (Some (encodings, case find (\<lambda>(x, _). same_ext x ext) typ_tab of None \<Rightarrow> ''text/plain'' | Some (_, val) \<Rightarrow> val))))"
  by pat_completeness auto
termination
  by (relation "measure (\<lambda>(_, _, j, _). j)") (auto dest: last_dot_less)

declare mime_loop.simps [simp del]

definition FigureMime :: "(nat \<Rightarrow> string option) \<Rightarrow> string \<Rightarrow> (string \<times> string) option res" where
  "FigureMime alloc expanded =
     (case realloc_str alloc [] 0 0 of
        (ok, encodings, maxencodings) \<Rightarrow>
          if \<not> ok then Inr None else mime_loop alloc expanded (length expanded) encodings maxencodings)"

section \<open>Headers\<close>

abbreviation (input) MAXMIMESIZE :: nat where "MAXMIMESIZE \<equiv> 256"
abbreviation (input) SERVER_SOFTWARE :: string where "SERVER_SOFTWARE \<equiv> ''Flash v0.1a Sep 14 99''"
abbreviation (input) ok200title :: string where "ok200title \<equiv> ''OK''"
abbreviation (input) err304title :: string where "err304title \<equiv> ''Not Modified''"

definition mime_text :: "int \<Rightarrow> string \<Rightarrow> string \<Rightarrow> string \<Rightarrow> string \<Rightarrow> string \<Rightarrow> string \<Rightarrow> int \<Rightarrow> string \<Rightarrow> string" where
  "mime_text code title date pad encodings extraheads type len modified =
     ''HTTP/1.0 '' @ show_int code @ '' '' @ title @ [LF] @ ''Date: '' @ date @ [LF] @
     ''Server: '' @ SERVER_SOFTWARE @ pad @ (if encodings = [] then [] else LF # ''Content-Encoding: '' @ encodings) @
     (if extraheads = [] then [] else LF # extraheads) @ [LF] @
     ''Content-Type: '' @ type @ (if 0 \<le> len then LF # ''Content-Length: '' @ show_int len else []) @ [LF] @
     ''Last-Modified: '' @ modified @ [LF, LF]"

text \<open>The loop that pads a header to a multiple of 32 bytes.\<close>

partial_function (option) header_loop :: "(string \<Rightarrow> string) \<Rightarrow> bool \<Rightarrow> string \<Rightarrow> string \<Rightarrow> (string \<times> int) res option" where
  "header_loop txt doPadding padBuf space =
     (let t = txt padBuf; n = length t in
      if length space \<le> n then Some (Inl BufferOverflow)
      else if MAXMIMESIZE \<le> n then Some (Inl AssertFail)
      else if doPadding \<and> n mod 32 \<noteq> 0 then header_loop txt doPadding (replicate (32 - n mod 32) (CHR '' '')) (blit space 0 (t @ [NUL]))
      else Some (Inr (blit space 0 (t @ [NUL]), int n)))"

text \<open>The result is true if there is no memory.\<close>

definition CalcRespHeader :: "(nat \<Rightarrow> string option) \<Rightarrow> nat \<Rightarrow> int \<Rightarrow> string \<Rightarrow> datacache \<Rightarrow> (bool \<times> datacache) res option" where
  "CalcRespHeader alloc ce code title s =
     obind (Some (ce_at ce s)) (\<lambda>e.
     case (case ce_respHeader e of Some b \<Rightarrow> Some b | None \<Rightarrow> alloc MAXMIMESIZE) of
       None \<Rightarrow> Some (Inr (True, s))
     | Some space \<Rightarrow>
         (case (ce_encodings e, ce_type e) of
            (Some encodings, Some type) \<Rightarrow>
              obind (header_loop (\<lambda>pad. mime_text code title (MakeHTTPDate (dc_now s)) pad (cstr encodings) [] type (ce_size e) (MakeHTTPDate (ce_modTime e)))
                       (ce_size e > 3000) [] space) (\<lambda>(space, n).
              obind (Some (put_ce ce (\<lambda>e. e\<lparr>ce_respHeader := Some space, ce_respHeaderLen := n\<rparr>) s)) (\<lambda>s1.
              Some (Inr (False, s1))))
          | _ \<Rightarrow> Some (Inl NullDeref)))"

text \<open>The text that \<open>SendMime\<close> of \<open>libhttpd.c\<close> writes; \<open>time\<close> is the time of the system.\<close>

definition SendMime :: "int \<Rightarrow> int \<Rightarrow> string \<Rightarrow> string \<Rightarrow> string \<Rightarrow> string \<Rightarrow> int \<Rightarrow> int \<Rightarrow> int \<Rightarrow> file_conn \<Rightarrow> file_conn res" where
  "SendMime now code title encodings extraheads type len modified time c =
     (if hc_mimeFlag c then
        let t = mime_text code title (MakeHTTPDate now) [] encodings extraheads type len (MakeHTTPDate (if modified = 0 then time else modified)) in
        if 1000 \<le> length t then Inl BufferOverflow else Inr (c\<lparr>hc_status := code, hc_out := hc_out c @ t\<rparr>)
      else Inr (c\<lparr>hc_status := code\<rparr>))"

section \<open>Opening a file\<close>

text \<open>What the allocations in \<open>ColdFileStuff\<close> return: the entry, the bytes of arrays, whether there is
  memory for the text of the log, the name and the chunks.\<close>

record cold_mem =
  m_entry :: "datacache \<Rightarrow> nat option"
  m_alloc :: "nat \<Rightarrow> string option"
  m_200Resp :: bool
  m_filename :: bool
  m_chunks :: bool

datatype cold_result = Cold_Ok nat | Cold_Err "int option"   \<comment> \<open>with the page that is sent\<close>

abbreviation (input) ENOENT :: int where "ENOENT \<equiv> 2"
abbreviation (input) EACCES :: int where "EACCES \<equiv> 13"

definition open_error :: "int \<Rightarrow> int" where
  "open_error errno = (if errno = ENOENT then 404 else if errno = EACCES then 403 else 500)"

text \<open>The part from \<open>FigureMime\<close> on; \<open>ce\<close> is the entry, \<open>Cold_Err\<close> leaves it to the next call.\<close>

definition fill_entry :: "cold_mem \<Rightarrow> bool \<Rightarrow> nat \<Rightarrow> string \<Rightarrow> int \<Rightarrow> datacache \<Rightarrow> (cold_result \<times> nat option \<times> datacache) res option" where
  "fill_entry M accessLoggingEnabled ce expanded fileSize s =
     obind (Some (FigureMime (m_alloc M) expanded)) (\<lambda>r.
     obind (Some (put_ce ce (\<lambda>e. case r of None \<Rightarrow> e\<lparr>ce_encodings := None\<rparr> | Some (enc, type) \<Rightarrow> e\<lparr>ce_encodings := Some enc, ce_type := Some type\<rparr>) s)) (\<lambda>s1.
     obind (CalcRespHeader (m_alloc M) ce 200 ok200title s1) (\<lambda>(err, s2).
     if err then Some (Inr (Cold_Err None, Some ce, s2))
     else
       obind (Some (if \<not> accessLoggingEnabled then Inr s2
                    else let t = CHR 0x22 # '' 200 '' @ show_int (signed_take_bit 31 fileSize) @ [LF] in
                      if m_200Resp M then put_ce ce (\<lambda>e. e\<lparr>ce_200Resp := Some t, ce_200RespLen := int (length t)\<rparr>) s2
                      else put_ce ce (\<lambda>e. e\<lparr>ce_200Resp := None\<rparr>) s2)) (\<lambda>s3.
       obind (Some (put_ce ce (\<lambda>e. e\<lparr>ce_filename := if m_filename M then Some expanded else None\<rparr>) s3)) (\<lambda>s4.
       if \<not> m_filename M then Some (Inr (Cold_Err (Some 500), Some ce, s4))
       else
         obind (Some (AddEntryToDataCache (m_chunks M) ce s4)) (\<lambda>(err, s5).
         if err then
           obind (Some (ce_at ce s5)) (\<lambda>e. Some (Inr (Cold_Err None, Some ce, s5\<lparr>dc_closed := ce_file_fd e # dc_closed s5\<rparr>)))
         else Some (Inr (Cold_Ok ce, None, s5))))))))"

definition ColdFileStuff ::
  "kernel \<Rightarrow> cold_mem \<Rightarrow> bool \<Rightarrow> string \<Rightarrow> int \<Rightarrow> int \<Rightarrow> nat option \<Rightarrow> datacache \<Rightarrow> (cold_result \<times> nat option \<times> datacache) res option" where
  "ColdFileStuff K M accessLoggingEnabled expanded fileSize modTime cold s =
     (case (case cold of Some p \<Rightarrow> (Some p, s) | None \<Rightarrow> GetEmptyCacheEntry (m_entry M) s) of
        (None, s0) \<Rightarrow> Some (Inr (Cold_Err (Some 500), None, s0))
      | (Some ce, s0) \<Rightarrow>
          obind (Some (put_ce ce (\<lambda>e. e\<lparr>ce_file_fd := k_open K expanded\<rparr>) s0)) (\<lambda>s1.
          if k_open K expanded < 0 then Some (Inr (Cold_Err (Some (open_error (k_errno K expanded))), Some ce, s1))
          else if modTime = 0 \<and> k_stat K expanded = None then Some (Inr (Cold_Err (Some 500), Some ce, s1))
          else
            let fileSize = (if modTime = 0 then k_size K expanded else fileSize);
                modTime = (if modTime = 0 then the (k_stat K expanded) else modTime) in
            obind (Some (put_ce ce (\<lambda>e. e\<lparr>ce_size := signed_take_bit 31 fileSize, ce_modTime := modTime\<rparr>) s1))
              (fill_entry M accessLoggingEnabled ce expanded fileSize)))"

datatype SRCode = SR_READY | SR_DONOTHING | SR_CGI | SR_ERROR | SR_NOMEM

text \<open>The first part of \<open>RegularFileStuff\<close>: the entry of the file, and a lock on its first chunk.\<close>

definition open_file ::
  "kernel \<Rightarrow> cold_mem \<Rightarrow> bool \<Rightarrow> string \<Rightarrow> int \<Rightarrow> int \<Rightarrow> file_conn \<Rightarrow> nat option \<Rightarrow> datacache \<Rightarrow> (cold_result \<times> file_conn \<times> nat option \<times> datacache) res option" where
  "open_file K M accessLoggingEnabled expanded fileSize modTime c cold s =
     obind (CheckCache K expanded s) (\<lambda>(r, s1).
     obind (case r of
              Some p \<Rightarrow> Some (Inr (Cold_Ok p, cold, s1))
            | None \<Rightarrow> ColdFileStuff K M accessLoggingEnabled expanded fileSize modTime cold s1) (\<lambda>(r, cold1, s2).
     case r of
       Cold_Err _ \<Rightarrow> Some (Inr (r, c, cold1, s2))
     | Cold_Ok p \<Rightarrow>
         obind (Some (IncChunkLock p 0 s2)) (\<lambda>(locked, s3).
         Some (Inr (r, c\<lparr>hc_cacheEnt := p, hc_status := 200, hc_numChunkLocks := hc_numChunkLocks c + of_bool locked\<rparr>, cold1, s3)))))"

text \<open>The name caches \<open>h\<close> are a state of their own.\<close>

definition RegularFileStuff ::
  "kernel \<Rightarrow> cold_mem \<Rightarrow> bool \<Rightarrow> nat \<Rightarrow> bool \<Rightarrow> int \<Rightarrow> int \<Rightarrow> file_conn \<Rightarrow> hotnames \<Rightarrow> nat option \<Rightarrow> datacache \<Rightarrow>
   (SRCode \<times> file_conn \<times> hotnames \<times> nat option \<times> datacache) res option" where
  "RegularFileStuff K M accessLoggingEnabled hotName addToHNE fileSize modTime c h cold s =
     obind (Some (hne_at hotName h)) (\<lambda>e.
     case hne_expanded e of
       None \<Rightarrow> Some (Inl NullDeref)
     | Some expanded \<Rightarrow>
         obind (open_file K M accessLoggingEnabled expanded fileSize modTime c cold s) (\<lambda>(r, c, cold, s).
         case r of
           Cold_Err _ \<Rightarrow> Some (Inr (SR_ERROR, c, h, cold, s))
         | Cold_Ok p \<Rightarrow>
             obind (Some (if addToHNE then EnterIntoHotNameCache hotName h else Inr h)) (\<lambda>h.
             let c = (if addToHNE then c\<lparr>hc_hne := Some hotName\<rparr> else c) in
             obind (Some (ce_at p s)) (\<lambda>e.
             if hc_ifModifiedSince c \<noteq> - 1 \<and> hc_ifModifiedSince c = ce_modTime e then
               (case (ce_encodings e, ce_type e) of
                  (Some enc, Some type) \<Rightarrow>
                    obind (Some (SendMime (dc_now s) 304 err304title (cstr enc) [] type (- 1) (ce_modTime e) (dc_now s) c)) (\<lambda>c.
                    Some (Inr (SR_DONOTHING, c, h, cold, s)))
                | _ \<Rightarrow> Some (Inl NullDeref))
             else Some (Inr (SR_READY, c, h, cold, s))))))"

end
