(* ===== verification/Flash_Datacache_Correct.thy ===== *)
theory Flash_Datacache_Correct
  imports Flash_Datacache "HOL-Library.Multiset"
begin

text \<open>
  The data cache of flash: what its pointers represent (\<open>Hash_Chain\<close> for the table of entries,
  \<open>Linked_List\<close> for the list of chunks that nobody works on), and the invariant with the references
  and the locks that the connections hold, which every operation keeps.
\<close>

section \<open>Fields\<close>

type_synonym heap = "nat \<Rightarrow> CacheEntry option"

definition calive :: "heap \<Rightarrow> nat \<Rightarrow> bool" where "calive h p \<longleftrightarrow> h p \<noteq> None"
definition c_next :: "heap \<Rightarrow> nat \<Rightarrow> nat option" where "c_next h p = ce_nextInHash (the (h p))"
definition c_prev :: "heap \<Rightarrow> nat \<Rightarrow> (cbin, nat) link option" where "c_prev h p = ce_prevInHash (the (h p))"

text \<open>An entry without its links and its chunks.\<close>

definition cmeta :: "heap \<Rightarrow> nat \<Rightarrow> CacheEntry" where
  "cmeta h p = (the (h p))\<lparr>ce_nextInHash := None, ce_prevInHash := None, ce_dataChunks := None\<rparr>"

text \<open>Chunks, and chunks without their links.\<close>

definition nchunks :: "heap \<Rightarrow> nat \<Rightarrow> nat option" where
  "nchunks h p = Option.bind (h p) (\<lambda>e. map_option length (ce_dataChunks e))"

definition valid :: "heap \<Rightarrow> rir_ptr \<Rightarrow> bool" where
  "valid h q \<longleftrightarrow> (\<exists>n. nchunks h (fst q) = Some n \<and> 0 \<le> snd q \<and> snd q < int n)"

definition rir :: "heap \<Rightarrow> rir_ptr \<Rightarrow> ReadInfoRec" where
  "rir h q = (if valid h q then the (ce_dataChunks (the (h (fst q)))) ! nat (snd q) else zero_rir)"

definition r_next :: "heap \<Rightarrow> rir_ptr \<Rightarrow> rir_ptr option" where "r_next h q = rir_next (rir h q)"
definition r_prev :: "heap \<Rightarrow> rir_ptr \<Rightarrow> rir_ptr option" where "r_prev h q = rir_prev (rir h q)"

definition rinfo :: "heap \<Rightarrow> rir_ptr \<Rightarrow> ReadInfoRec" where
  "rinfo h q = (rir h q)\<lparr>rir_prev := None, rir_next := None\<rparr>"

lemmas rir_defs = r_next_def r_prev_def rinfo_def

lemma ce_at_alive: "calive (ces s) p \<Longrightarrow> ce_at p s = Inr (the (ces s p))"
  by (auto simp: ce_at_def calive_def)

lemma put_ce_alive: "calive (ces s) p \<Longrightarrow> put_ce p f s = Inr (upd_ce p f s)"
  by (simp add: put_ce_def calive_def)

lemma valid_alive: "valid (ces s) q \<Longrightarrow> calive (ces s) (fst q)"
  by (auto simp: valid_def nchunks_def calive_def split: bind_splits)

lemma rir_at_valid: "valid (ces s) q \<Longrightarrow> rir_at q s = Inr (rir (ces s) q)"
  by (cases q) (auto simp: valid_def nchunks_def rir_def ce_at_def split: bind_splits option.splits)

lemma put_rir_valid: "valid (ces s) q \<Longrightarrow> put_rir q f s = Inr (upd_rir q f s)"
  by (simp add: put_rir_def rir_at_valid)

text \<open>The fields of an entry and a chunk, from what is left of them.\<close>

lemma ce_fields:
  "ce_nextInHash (the (ces s p)) = c_next (ces s) p" "ce_prevInHash (the (ces s p)) = c_prev (ces s) p"
  "ce_size (the (ces s p)) = ce_size (cmeta (ces s) p)" "ce_numRefs (the (ces s p)) = ce_numRefs (cmeta (ces s) p)"
  "ce_isInvalid (the (ces s p)) = ce_isInvalid (cmeta (ces s) p)" "ce_file_fd (the (ces s p)) = ce_file_fd (cmeta (ces s) p)"
  "ce_numChunks (the (ces s p)) = ce_numChunks (cmeta (ces s) p)" "ce_numChunksInMem (the (ces s p)) = ce_numChunksInMem (cmeta (ces s) p)"
  "ce_filename (the (ces s p)) = ce_filename (cmeta (ces s) p)" "ce_lastValidation (the (ces s p)) = ce_lastValidation (cmeta (ces s) p)"
  "ce_modTime (the (ces s p)) = ce_modTime (cmeta (ces s) p)" "ce_respHeader (the (ces s p)) = ce_respHeader (cmeta (ces s) p)"
  "ce_respHeaderLen (the (ces s p)) = ce_respHeaderLen (cmeta (ces s) p)" "ce_respHeaderTime (the (ces s p)) = ce_respHeaderTime (cmeta (ces s) p)"
  by (simp_all add: cmeta_def c_next_def c_prev_def)

lemma rir_fields:
  "rir_next (rir (ces s) q) = r_next (ces s) q" "rir_prev (rir (ces s) q) = r_prev (ces s) q" "rir_numRefs (rir (ces s) q) = rir_numRefs (rinfo (ces s) q)"
  "rir_data (rir (ces s) q) = rir_data (rinfo (ces s) q)" "rir_entry (rir (ces s) q) = rir_entry (rinfo (ces s) q)"
  "rir_chunkNum (rir (ces s) q) = rir_chunkNum (rinfo (ces s) q)" "rir_isOnMRU (rir (ces s) q) = rir_isOnMRU (rinfo (ces s) q)"
  by (simp_all add: rir_defs)

lemma rounded_meta: "GetRoundedChunkSize z (the (ces s p)) i = GetRoundedChunkSize z (cmeta (ces s) p) i"
  by (simp add: GetRoundedChunkSize_def cmeta_def)

lemmas dc_access = ce_at_alive put_ce_alive rir_at_valid put_rir_valid ce_fields rir_fields rounded_meta

section \<open>Updates\<close>

text \<open>The globals; \<open>same_globals\<close> leaves out what the operations on a list or a table change.\<close>

lemma upd_ce_frame [simp]:
  "cbins (upd_ce p f s) = cbins s" "freeChunkMRUHead (upd_ce p f s) = freeChunkMRUHead s" "freeChunkMRUTail (upd_ce p f s) = freeChunkMRUTail s"
  "bytesInAllChunks (upd_ce p f s) = bytesInAllChunks s" "bytesInFreeChunks (upd_ce p f s) = bytesInFreeChunks s"
  "systemPageSize (upd_ce p f s) = systemPageSize s" "maxLRUCacheSizeBytes (upd_ce p f s) = maxLRUCacheSizeBytes s"
  "dc_scrambled (upd_ce p f s) = dc_scrambled s" "dc_now (upd_ce p f s) = dc_now s" "calive (ces (upd_ce p f s)) = calive (ces s)"
  "ps_numDataCacheEntries (upd_ce p f s) = ps_numDataCacheEntries s"
  by (auto simp: upd_ce_def calive_def fun_eq_iff)

lemma upd_rir_frame [simp]:
  "cbins (upd_rir p f s) = cbins s" "freeChunkMRUHead (upd_rir p f s) = freeChunkMRUHead s" "freeChunkMRUTail (upd_rir p f s) = freeChunkMRUTail s"
  "bytesInAllChunks (upd_rir p f s) = bytesInAllChunks s" "bytesInFreeChunks (upd_rir p f s) = bytesInFreeChunks s"
  "systemPageSize (upd_rir p f s) = systemPageSize s" "maxLRUCacheSizeBytes (upd_rir p f s) = maxLRUCacheSizeBytes s"
  "dc_scrambled (upd_rir p f s) = dc_scrambled s" "dc_now (upd_rir p f s) = dc_now s" "calive (ces (upd_rir p f s)) = calive (ces s)"
  "ps_numDataCacheEntries (upd_rir p f s) = ps_numDataCacheEntries s"
  by (simp_all add: upd_rir_def)

lemma upd_rir_chunks [simp]: "nchunks (ces (upd_rir q f s)) = nchunks (ces s)" "valid (ces (upd_rir q f s)) = valid (ces s)"
proof -
  show n: "nchunks (ces (upd_rir q f s)) = nchunks (ces s)"
    by (auto simp: nchunks_def upd_rir_def upd_ce_def fun_eq_iff option.map_comp comp_def split: bind_splits)
  show "valid (ces (upd_rir q f s)) = valid (ces s)" by (simp add: fun_eq_iff valid_def n)
qed

lemma upd_rir_entry [simp]:
  "c_next (ces (upd_rir q f s)) = c_next (ces s)" "c_prev (ces (upd_rir q f s)) = c_prev (ces s)"
  "cmeta (ces (upd_rir q f s)) = cmeta (ces s)"
  by (cases "ces s (fst q)"; auto simp: fun_eq_iff c_next_def c_prev_def cmeta_def upd_rir_def upd_ce_def)+

lemma rir_upd: "valid (ces s) q \<Longrightarrow> rir (ces (upd_rir q f s)) = (rir (ces s))(q := f (rir (ces s) q))"
proof -
  assume v: "valid (ces s) q"
  then obtain e cs where e: "ces s (fst q) = Some e" "ce_dataChunks e = Some cs" "0 \<le> snd q" "snd q < int (length cs)"
    by (auto simp: valid_def nchunks_def split: bind_splits)
  then have u: "ces (upd_rir q f s) = (ces s)(fst q \<mapsto> e\<lparr>ce_dataChunks := Some (cs[nat (snd q) := f (cs ! nat (snd q))])\<rparr>)"
    by (simp add: upd_rir_def upd_ce_def)
  note uv = upd_rir_chunks(2) [of q f s, unfolded u]
  show ?thesis
  proof
    fix q'
    show "rir (ces (upd_rir q f s)) q' = ((rir (ces s))(q := f (rir (ces s) q))) q'"
    proof (cases "fst q' = fst q \<and> valid (ces s) q'")
      case True
      then have "0 \<le> snd q'" "snd q' < int (length cs)" using e by (auto simp: valid_def nchunks_def)
      then show ?thesis using True v e by (auto simp: rir_def u uv nth_list_update prod_eq_iff nat_eq_iff2)
    next
      case False
      then show ?thesis using v by (auto simp: rir_def u uv)
    qed
  qed
qed

lemma upd_rir_links [simp]:
  assumes "valid (ces s) q"
  shows "r_next (ces (upd_rir q (\<lambda>x. x\<lparr>rir_next := v\<rparr>) s)) = (r_next (ces s))(q := v)" "r_prev (ces (upd_rir q (\<lambda>x. x\<lparr>rir_next := v\<rparr>) s)) = r_prev (ces s)"
    "r_prev (ces (upd_rir q (\<lambda>x. x\<lparr>rir_prev := v\<rparr>) s)) = (r_prev (ces s))(q := v)" "r_next (ces (upd_rir q (\<lambda>x. x\<lparr>rir_prev := v\<rparr>) s)) = r_next (ces s)"
    "rinfo (ces (upd_rir q (\<lambda>x. x\<lparr>rir_next := v\<rparr>) s)) = rinfo (ces s)" "rinfo (ces (upd_rir q (\<lambda>x. x\<lparr>rir_prev := v\<rparr>) s)) = rinfo (ces s)"
  by (auto simp: rir_defs rir_upd [OF assms] fun_eq_iff)

lemma upd_rir_info:
  assumes "valid (ces s) q" and "\<And>x. rir_next (f x) = rir_next x" and "\<And>x. rir_prev (f x) = rir_prev x"
    and "\<And>x. (f x)\<lparr>rir_prev := None, rir_next := None\<rparr> = f (x\<lparr>rir_prev := None, rir_next := None\<rparr>)"
  shows "r_next (ces (upd_rir q f s)) = r_next (ces s)" "r_prev (ces (upd_rir q f s)) = r_prev (ces s)"
    "rinfo (ces (upd_rir q f s)) = (rinfo (ces s))(q := f (rinfo (ces s) q))"
  using assms by (auto simp: rir_defs rir_upd fun_eq_iff)

lemmas rir_change [simp] = upd_rir_info [where f = "\<lambda>x. x\<lparr>rir_isOnMRU := b\<rparr>" for b, simplified]
  upd_rir_info [where f = "\<lambda>x. x\<lparr>rir_data := b\<rparr>" for b, simplified]
  upd_rir_info [where f = "\<lambda>x. x\<lparr>rir_numRefs := rir_numRefs x + 1\<rparr>", simplified]
  upd_rir_info [where f = "\<lambda>x. x\<lparr>rir_numRefs := rir_numRefs x - 1\<rparr>", simplified]

text \<open>An update of an entry that keeps its links and chunks, and updates of its links.\<close>

lemma upd_ce_keep:
  assumes "\<And>e. ce_dataChunks (f e) = ce_dataChunks e"
  shows "nchunks (ces (upd_ce p f s)) = nchunks (ces s)" "valid (ces (upd_ce p f s)) = valid (ces s)" "rir (ces (upd_ce p f s)) = rir (ces s)"
    "r_next (ces (upd_ce p f s)) = r_next (ces s)" "r_prev (ces (upd_ce p f s)) = r_prev (ces s)" "rinfo (ces (upd_ce p f s)) = rinfo (ces s)"
proof -
  show n: "nchunks (ces (upd_ce p f s)) = nchunks (ces s)"
    using assms by (auto simp: nchunks_def upd_ce_def fun_eq_iff split: bind_splits)
  show v: "valid (ces (upd_ce p f s)) = valid (ces s)" by (simp add: fun_eq_iff valid_def n)
  have "ce_dataChunks (the (ces (upd_ce p f s) x)) = ce_dataChunks (the (ces s x))" if "calive (ces s) x" for x
    using assms that by (auto simp: upd_ce_def calive_def)
  then show r: "rir (ces (upd_ce p f s)) = rir (ces s)" by (simp add: fun_eq_iff rir_def v valid_alive)
  show "r_next (ces (upd_ce p f s)) = r_next (ces s)" "r_prev (ces (upd_ce p f s)) = r_prev (ces s)" "rinfo (ces (upd_ce p f s)) = rinfo (ces s)"
    by (simp_all add: fun_eq_iff rir_defs r)
qed

lemma upd_ce_meta:
  assumes "calive (ces s) p" and "\<And>e. ce_nextInHash (f e) = ce_nextInHash e" and "\<And>e. ce_prevInHash (f e) = ce_prevInHash e"
    and "\<And>e. (f e)\<lparr>ce_nextInHash := None, ce_prevInHash := None, ce_dataChunks := None\<rparr> =
           f (e\<lparr>ce_nextInHash := None, ce_prevInHash := None, ce_dataChunks := None\<rparr>)"
  shows "cmeta (ces (upd_ce p f s)) = (cmeta (ces s))(p := f (cmeta (ces s) p))"
    "c_next (ces (upd_ce p f s)) = c_next (ces s)" "c_prev (ces (upd_ce p f s)) = c_prev (ces s)"
  using assms by (auto simp: cmeta_def c_next_def c_prev_def calive_def upd_ce_def fun_eq_iff)

abbreviation set_cnext :: "nat \<Rightarrow> nat option \<Rightarrow> datacache \<Rightarrow> datacache" where
  "set_cnext p v \<equiv> upd_ce p (\<lambda>e. e\<lparr>ce_nextInHash := v\<rparr>)"
abbreviation set_cprev :: "nat \<Rightarrow> (cbin, nat) link option \<Rightarrow> datacache \<Rightarrow> datacache" where
  "set_cprev p v \<equiv> upd_ce p (\<lambda>e. e\<lparr>ce_prevInHash := v\<rparr>)"

lemma upd_links [simp]:
  "calive (ces s) p \<Longrightarrow> c_next (ces (set_cnext p v s)) = (c_next (ces s))(p := v)" "c_prev (ces (set_cnext p v s)) = c_prev (ces s)"
  "calive (ces s) p \<Longrightarrow> c_prev (ces (set_cprev p l s)) = (c_prev (ces s))(p := l)" "c_next (ces (set_cprev p l s)) = c_next (ces s)"
  "cmeta (ces (set_cnext p v s)) = cmeta (ces s)" "cmeta (ces (set_cprev p l s)) = cmeta (ces s)"
  by (cases "ces s p"; auto simp: c_next_def c_prev_def cmeta_def calive_def upd_ce_def fun_eq_iff)+

lemmas dc_upd [simp] = upd_ce_keep [where f = "\<lambda>e. e\<lparr>ce_nextInHash := v\<rparr>" for v, simplified]
  upd_ce_keep [where f = "\<lambda>e. e\<lparr>ce_prevInHash := v\<rparr>" for v, simplified]
  upd_ce_keep [where f = "\<lambda>e. e\<lparr>ce_numRefs := g e\<rparr>" for g, simplified]
  upd_ce_meta [where f = "\<lambda>e. e\<lparr>ce_numRefs := ce_numRefs e + 1\<rparr>", simplified] upd_ce_meta [where f = "\<lambda>e. e\<lparr>ce_numRefs := ce_numRefs e - 1\<rparr>", simplified]
  upd_ce_keep [where f = "\<lambda>e. e\<lparr>ce_numChunksInMem := g e\<rparr>" for g, simplified]
  upd_ce_meta [where f = "\<lambda>e. e\<lparr>ce_numChunksInMem := ce_numChunksInMem e + 1\<rparr>", simplified]
  upd_ce_meta [where f = "\<lambda>e. e\<lparr>ce_numChunksInMem := ce_numChunksInMem e - 1\<rparr>", simplified]
  upd_ce_keep [where f = "\<lambda>e. e\<lparr>ce_file_fd := g\<rparr>" for g, simplified] upd_ce_meta [where f = "\<lambda>e. e\<lparr>ce_file_fd := g\<rparr>" for g, simplified]
  upd_ce_keep [where f = "\<lambda>e. e\<lparr>ce_lastValidation := g\<rparr>" for g, simplified] upd_ce_meta [where f = "\<lambda>e. e\<lparr>ce_lastValidation := g\<rparr>" for g, simplified]
  upd_ce_keep [where f = "\<lambda>e. e\<lparr>ce_isInvalid := g\<rparr>" for g, simplified] upd_ce_meta [where f = "\<lambda>e. e\<lparr>ce_isInvalid := g\<rparr>" for g, simplified]

section \<open>The list of chunks\<close>

definition csize :: "datacache \<Rightarrow> rir_ptr \<Rightarrow> int" where
  "csize s q = GetRoundedChunkSize (systemPageSize s) (cmeta (ces s) (fst q)) (snd q)"

definition chunk_list :: "datacache \<Rightarrow> rir_ptr list \<Rightarrow> bool" where
  "chunk_list s ms \<longleftrightarrow> dll (r_next (ces s)) (r_prev (ces s)) (freeChunkMRUHead s) (freeChunkMRUTail s) (valid (ces s)) ms"

definition same_conf :: "datacache \<Rightarrow> datacache \<Rightarrow> bool" where
  "same_conf s s' \<longleftrightarrow> systemPageSize s' = systemPageSize s \<and> maxLRUCacheSizeBytes s' = maxLRUCacheSizeBytes s
     \<and> dc_scrambled s' = dc_scrambled s \<and> dc_now s' = dc_now s \<and> ps_numDataCacheEntries s' = ps_numDataCacheEntries s"

text \<open>States that differ in the chunks only.\<close>

definition same_table :: "datacache \<Rightarrow> datacache \<Rightarrow> bool" where
  "same_table s s' \<longleftrightarrow> calive (ces s') = calive (ces s) \<and> cmeta (ces s') = cmeta (ces s) \<and> nchunks (ces s') = nchunks (ces s)
     \<and> c_next (ces s') = c_next (ces s) \<and> c_prev (ces s') = c_prev (ces s) \<and> cbins s' = cbins s \<and> same_conf s s'"

lemma same_valid: "nchunks (ces s') = nchunks (ces s) \<Longrightarrow> valid (ces s') = valid (ces s)"
  by (simp add: fun_eq_iff valid_def)

lemma RemoveFromChunkLRUList_off:
  "valid (ces s) (p, i) \<Longrightarrow> \<not> rir_isOnMRU (rinfo (ces s) (p, i)) \<Longrightarrow> RemoveFromChunkLRUList p i s = Inr s"
  by (simp add: RemoveFromChunkLRUList_def dc_access del: rir_at.simps)

lemma RemoveFromChunkLRUList_on:
  assumes m: "chunk_list s ms" and q: "(p, i) \<in> set ms" and r: "rir_isOnMRU (rinfo (ces s) (p, i))"
  shows "\<exists>s'. RemoveFromChunkLRUList p i s = Inr s' \<and> chunk_list s' (remove1 (p, i) ms) \<and> same_table s s'
    \<and> rinfo (ces s') = (rinfo (ces s))((p, i) := (rinfo (ces s) (p, i))\<lparr>rir_isOnMRU := False\<rparr>)
    \<and> bytesInFreeChunks s' = bytesInFreeChunks s - csize s (p, i) \<and> bytesInAllChunks s' = bytesInAllChunks s"
proof -
  let ?q = "(p, i)"
  obtain as bs where ms: "ms = as @ ?q # bs" and np: "?q \<notin> set as" using q by (meson split_list_first)
  then have rm: "remove1 ?q ms = as @ bs" by (simp add: remove1_append)
  note d = m [unfolded ms chunk_list_def] and l = dll_links [OF m [unfolded ms chunk_list_def]]
  let ?s1 = "if as = [] then s\<lparr>freeChunkMRUHead := r_next (ces s) ?q\<rparr> else upd_rir (last as) (\<lambda>x. x\<lparr>rir_next := r_next (ces s) ?q\<rparr>) s"
  let ?s2 = "if bs = [] then ?s1\<lparr>freeChunkMRUTail := r_prev (ces s) ?q\<rparr> else upd_rir (hd bs) (\<lambda>x. x\<lparr>rir_prev := r_prev (ces s) ?q\<rparr>) ?s1"
  let ?s3 = "upd_rir ?q (\<lambda>x. x\<lparr>rir_isOnMRU := False\<rparr>) (?s2\<lparr>bytesInFreeChunks := bytesInFreeChunks s - csize s ?q\<rparr>)"
  have a: "calive (ces s) p" and ne: "as \<noteq> [] \<Longrightarrow> ?q \<noteq> last as" "bs \<noteq> [] \<Longrightarrow> ?q \<noteq> hd bs" using valid_alive [OF l(3)] l(4,5) by auto
  have e: "RemoveFromChunkLRUList p i s = Inr ?s3"
    using l r a ne by (cases "as = []"; cases "bs = []") (simp_all add: RemoveFromChunkLRUList_def dc_access csize_def del: rir_at.simps)
  have i2: "rinfo (ces ?s2) = rinfo (ces s)" using l by (cases "as = []"; cases "bs = []") simp_all
  have "chunk_list ?s2 (as @ bs)"
    using dll_remove [OF d] l by (cases "as = []"; cases "bs = []") (simp_all add: chunk_list_def rir_fields del: append_Nil append_Nil2)
  then have "chunk_list ?s3 (as @ bs)" using l by (auto simp: chunk_list_def rir_fields)
  moreover have "rinfo (ces ?s3) = (rinfo (ces s))(?q := (rinfo (ces s) ?q)\<lparr>rir_isOnMRU := False\<rparr>)"
    using l i2 by (auto simp: rinfo_def fun_eq_iff)
  moreover have "same_table s ?s3" using l by (auto simp: same_table_def same_conf_def)
  ultimately show ?thesis using e rm by auto
qed

lemma push_chunk_ok:
  assumes m: "chunk_list s ms" and q: "(p, i) \<notin> set ms" "valid (ces s) (p, i)"
  shows "\<exists>s'. push_chunk p i s = Inr s' \<and> chunk_list s' ((p, i) # ms) \<and> same_table s s'
    \<and> rinfo (ces s') = (rinfo (ces s))((p, i) := (rinfo (ces s) (p, i))\<lparr>rir_isOnMRU := True, rir_entry := Some p, rir_chunkNum := i\<rparr>)
    \<and> bytesInFreeChunks s' = bytesInFreeChunks s + csize s (p, i) \<and> bytesInAllChunks s' = bytesInAllChunks s"
proof -
  let ?q = "(p, i)"
  define s1 where "s1 = upd_rir ?q (\<lambda>x. x\<lparr>rir_chunkNum := i, rir_entry := Some p, rir_isOnMRU := True, rir_prev := None,
    rir_next := freeChunkMRUHead s\<rparr>) s"
  have f: "r_next (ces s1) = (r_next (ces s))(?q := freeChunkMRUHead s)" "r_prev (ces s1) = (r_prev (ces s))(?q := None)"
    "rinfo (ces s1) = (rinfo (ces s))(?q := (rinfo (ces s) ?q)\<lparr>rir_isOnMRU := True, rir_entry := Some p, rir_chunkNum := i\<rparr>)"
    "valid (ces s1) = valid (ces s)" "same_table s s1" "freeChunkMRUHead s1 = freeChunkMRUHead s" "freeChunkMRUTail s1 = freeChunkMRUTail s"
    "bytesInFreeChunks s1 = bytesInFreeChunks s" "bytesInAllChunks s1 = bytesInAllChunks s"
    using q(2) by (auto simp: s1_def rir_defs rir_upd fun_eq_iff same_table_def same_conf_def)
  let ?s2 = "if ms = [] then s1\<lparr>freeChunkMRUTail := Some ?q\<rparr> else upd_rir (hd ms) (\<lambda>x. x\<lparr>rir_prev := Some ?q\<rparr>) s1"
  let ?s3 = "?s2\<lparr>freeChunkMRUHead := Some ?q, bytesInFreeChunks := bytesInFreeChunks s + csize s ?q\<rparr>"
  have h: "freeChunkMRUHead s = (if ms = [] then None else Some (hd ms))" "ms \<noteq> [] \<Longrightarrow> valid (ces s) (hd ms) \<and> hd ms \<noteq> ?q"
    using m q(1) by (auto simp: chunk_list_def dll_def ends_def) (metis hd_in_set)
  have a: "calive (ces s) p" using valid_alive [OF q(2)] by simp
  have c: "systemPageSize s1 = systemPageSize s" "cmeta (ces s1) = cmeta (ces s)" "calive (ces s1) = calive (ces s)"
    using f(5) by (auto simp: same_table_def same_conf_def)
  have e: "push_chunk p i s = Inr ?s3"
    unfolding push_chunk_def put_rir_valid [OF q(2)] s1_def [symmetric]
    using h a c f by (cases "ms = []") (simp_all add: dc_access csize_def)
  have "chunk_list ?s3 (?q # ms)"
    using dll_push [OF m [unfolded chunk_list_def] q(2,1)] h f fun_upd_twist [of "hd ms" ?q "r_prev (ces s)"]
    by (cases "ms = []") (simp_all add: chunk_list_def)
  moreover have "rinfo (ces ?s3) = rinfo (ces s1)" "same_table s ?s3" using h f by (auto simp: same_table_def same_conf_def)
  ultimately show ?thesis using e f by auto
qed

section \<open>The table of entries\<close>

definition table :: "datacache \<Rightarrow> (cbin \<Rightarrow> nat list) \<Rightarrow> bool" where
  "table s cs \<longleftrightarrow> chains (c_next (ces s)) (c_prev (ces s)) (cbins s) (calive (ces s)) cs"

lemma set_cbin_frame [simp]:
  "ces (set_cbin B v s) = ces s" "cbins (set_cbin B v s) = (cbins s)(B := v)" "freeChunkMRUHead (set_cbin B v s) = freeChunkMRUHead s"
  "freeChunkMRUTail (set_cbin B v s) = freeChunkMRUTail s" "bytesInAllChunks (set_cbin B v s) = bytesInAllChunks s"
  "bytesInFreeChunks (set_cbin B v s) = bytesInFreeChunks s" "same_conf s' (set_cbin B v s) = same_conf s' s"
  by (simp_all add: set_cbin_def same_conf_def)

interpretation dct: hash_chains "\<lambda>s. c_next (ces s)" "\<lambda>s. c_prev (ces s)" cbins "\<lambda>p v. set_cnext p v" "\<lambda>p v. set_cprev p v" set_cbin "\<lambda>s. calive (ces s)"
  by unfold_locales simp_all

lemma table_dct: "dct.rep = table"
  by (simp add: fun_eq_iff dct.rep_def table_def)

lemmas table_unlinked = dct.unlinked_rep [unfolded table_dct]
lemmas table_pushed = dct.pushed_rep [unfolded table_dct]

text \<open>States that differ in the table only.\<close>

definition same_chunks :: "datacache \<Rightarrow> datacache \<Rightarrow> bool" where
  "same_chunks s s' \<longleftrightarrow> calive (ces s') = calive (ces s) \<and> cmeta (ces s') = cmeta (ces s) \<and> nchunks (ces s') = nchunks (ces s)
     \<and> r_next (ces s') = r_next (ces s) \<and> r_prev (ces s') = r_prev (ces s) \<and> rinfo (ces s') = rinfo (ces s)
     \<and> freeChunkMRUHead s' = freeChunkMRUHead s \<and> freeChunkMRUTail s' = freeChunkMRUTail s
     \<and> bytesInAllChunks s' = bytesInAllChunks s \<and> bytesInFreeChunks s' = bytesInFreeChunks s \<and> same_conf s s'"

lemma same_conf_upd [simp]: "same_conf s' (upd_ce p f s) = same_conf s' s" "same_conf s' (upd_rir q g s) = same_conf s' s" "same_conf s s"
  by (simp_all add: same_conf_def)

lemma unlinked_chunks: "same_chunks s (dct.unlinked p s)"
  by (auto simp: same_chunks_def dct.unlinked_def Let_def split: option.splits link.splits)

lemma pushed_chunks: "same_chunks s (dct.pushed p B s)"
  by (auto simp: same_chunks_def dct.pushed_def Let_def split: option.splits)

lemma unlink_ce_ok:
  assumes t: "table s cs" and p: "p \<in> set (cs B)"
  shows "unlink_ce p s = Inr (dct.unlinked p s)"
proof -
  obtain as bs where ab: "cs B = as @ p # bs" using p by (auto dest: split_list)
  note l = chains_links [OF t [unfolded table_def] ab]
  show ?thesis using l by (cases "as = []"; cases "bs = []")
    (simp_all add: unlink_ce_def dct.unlinked_def link_after_def first_def dc_access,
     simp_all add: upd_ce_def set_cbin_def fun_upd_twist)
qed

lemma push_ce_ok:
  assumes t: "table s cs" and p: "calive (ces s) p" "p \<notin> resident cs"
  shows "push_ce p B s = Inr (dct.pushed p B s)"
proof -
  have h: "cbins s B = first (cs B)" "cs B \<noteq> [] \<Longrightarrow> calive (ces s) (hd (cs B))"
    using chains_ht [OF t [unfolded table_def]] chains_alive [OF t [unfolded table_def], of "hd (cs B)" B] by simp_all
  have ne: "cs B \<noteq> [] \<Longrightarrow> hd (cs B) \<noteq> p" using p(2) residentI [of "hd (cs B)" cs B] by auto
  have u: "upd_ce p (\<lambda>e. e\<lparr>ce_prevInHash := l, ce_nextInHash := v\<rparr>) s = set_cprev p l (set_cnext p v s)" for l v
  proof -
    have "map_option (\<lambda>e. e\<lparr>ce_prevInHash := l, ce_nextInHash := v\<rparr>) x = map_option (\<lambda>e. e\<lparr>ce_prevInHash := l\<rparr>) (map_option (\<lambda>e. e\<lparr>ce_nextInHash := v\<rparr>) x)"
      for x :: "CacheEntry option"
    proof (cases x)
      case (Some e)
      then show ?thesis by (cases e) simp
    qed simp
    then show ?thesis by (simp add: upd_ce_def)
  qed
  show ?thesis using h p ne by (cases "cs B = []")
    (simp_all add: push_ce_def dct.pushed_def first_def dc_access u, simp_all add: upd_ce_def set_cbin_def fun_upd_twist)
qed

end
