(* ===== verification/Flash_Datacache_Inv.thy ===== *)
theory Flash_Datacache_Inv
  imports Flash_Datacache_Correct Flash_Date
begin

text \<open>
  The invariant of the data cache of flash, and that freeing chunks and entries keeps it. \<open>files\<close> is
  what the files contain; \<open>R\<close> is the multiset of the references to entries that are held, \<open>L\<close> the
  multiset of the locks on chunks. Within an operation \<open>X\<close> is the chunks that are neither locked nor on
  the list, \<open>N\<close> the entries that are not in the table.
\<close>

declare split_paired_All [simp del] split_paired_Ex [simp del]

section \<open>The invariant\<close>

definition mapped :: "datacache \<Rightarrow> rir_ptr set" where
  "mapped s = {q. valid (ces s) q \<and> rir_data (rinfo (ces s) q) \<noteq> None}"

definition in_mem :: "datacache \<Rightarrow> nat \<Rightarrow> int set" where
  "in_mem s p = {i. (p, i) \<in> mapped s}"

text \<open>The bytes of a chunk.\<close>

definition chunk_bytes :: "string \<Rightarrow> int \<Rightarrow> string" where
  "chunk_bytes f i = take 65536 (drop (65536 * nat i) f)"

definition fname :: "datacache \<Rightarrow> nat \<Rightarrow> string" where
  "fname s p = the (ce_filename (cmeta (ces s) p))"

definition file_entry :: "(string \<Rightarrow> string) \<Rightarrow> CacheEntry \<Rightarrow> bool" where
  "file_entry files e \<longleftrightarrow> ce_filename e \<noteq> None \<and> ce_size e = int (length (files (the (ce_filename e)))) \<and> 0 < ce_size e
     \<and> ce_size e \<le> 2147418112 \<and> ce_numChunks e = (ce_size e + 65535) div 65536"

lemma file_entry_upd [simp]:
  "file_entry files (e\<lparr>ce_numRefs := n\<rparr>) = file_entry files e" "file_entry files (e\<lparr>ce_numChunksInMem := n\<rparr>) = file_entry files e"
  "file_entry files (e\<lparr>ce_file_fd := n\<rparr>) = file_entry files e" "file_entry files (e\<lparr>ce_lastValidation := n\<rparr>) = file_entry files e"
  "file_entry files (e\<lparr>ce_isInvalid := b\<rparr>) = file_entry files e" "file_entry files (e\<lparr>ce_nextInHash := l\<rparr>) = file_entry files e"
  "file_entry files (e\<lparr>ce_prevInHash := k\<rparr>) = file_entry files e" "file_entry files (e\<lparr>ce_dataChunks := c\<rparr>) = file_entry files e"
  by (simp_all add: file_entry_def)

lemma file_entry_chunks: "file_entry files e \<Longrightarrow> 0 < ce_numChunks e"
proof -
  assume "file_entry files e"
  then have "0 < ce_size e" "ce_numChunks e = (ce_size e + 65535) div 65536" unfolding file_entry_def by blast+
  then show ?thesis by (simp add: pos_imp_zdiv_pos_iff)
qed

definition entry_ok :: "(string \<Rightarrow> string) \<Rightarrow> datacache \<Rightarrow> nat multiset \<Rightarrow> nat \<Rightarrow> bool" where
  "entry_ok files s R p \<longleftrightarrow> (let e = cmeta (ces s) p in
     file_entry files e \<and> nchunks (ces s) p = Some (nat (ce_numChunks e))
     \<and> ce_numRefs e = int (count R p) \<and> ce_numChunksInMem e = int (card (in_mem s p)))"

definition chunk_ok :: "(string \<Rightarrow> string) \<Rightarrow> datacache \<Rightarrow> rir_ptr multiset \<Rightarrow> rir_ptr set \<Rightarrow> rir_ptr list \<Rightarrow> rir_ptr \<Rightarrow> bool" where
  "chunk_ok files s L X ms q \<longleftrightarrow> (let r = rinfo (ces s) q in
     rir_numRefs r = int (count L q) \<and> (rir_isOnMRU r \<longleftrightarrow> q \<in> set ms)
     \<and> (q \<in> set ms \<longrightarrow> rir_entry r = Some (fst q) \<and> rir_chunkNum r = snd q \<and> rir_data r \<noteq> None \<and> q \<notin># L \<and> q \<notin> X)
     \<and> (rir_data r \<noteq> None \<longrightarrow> q \<in> set ms \<or> q \<in># L \<or> q \<in> X) \<and> (\<forall>d. rir_data r = Some d \<longrightarrow> d = chunk_bytes (files (fname s (fst q))) (snd q)))"

fun chome :: "datacache \<Rightarrow> cbin \<Rightarrow> nat \<Rightarrow> bool" where
  "chome s (Bin b) p = (HashFilename s (fname s p) = b \<and> \<not> ce_isInvalid (cmeta (ces s) p))"
| "chome s Invalid p = ce_isInvalid (cmeta (ces s) p)"

definition cache_inv ::
  "(string \<Rightarrow> string) \<Rightarrow> datacache \<Rightarrow> nat multiset \<Rightarrow> rir_ptr multiset \<Rightarrow> rir_ptr set \<Rightarrow> nat set \<Rightarrow> (cbin \<Rightarrow> nat list) \<Rightarrow> rir_ptr list \<Rightarrow> bool" where
  "cache_inv files s R L X N cs ms \<longleftrightarrow>
     table s cs \<and> chunk_list s ms \<and> finite (resident cs) \<and> finite X \<and> {p. calive (ces s) p} = resident cs \<union> N \<and> resident cs \<inter> N = {}
     \<and> (\<forall>p\<in>resident cs \<union> N. entry_ok files s R p) \<and> (\<forall>q. valid (ces s) q \<longrightarrow> chunk_ok files s L X ms q)
     \<and> (\<forall>q\<in>#L. fst q \<in># R \<and> valid (ces s) q) \<and> set_mset R \<subseteq> resident cs \<and> (\<forall>B. \<forall>p\<in>set (cs B). chome s B p)
     \<and> bytesInFreeChunks s = sum_list (map (csize s) ms) \<and> bytesInAllChunks s = sum (csize s) (mapped s)
     \<and> finite N \<and> ps_numDataCacheEntries s = int (card (resident cs \<union> N))"

lemma mapped_finite: "cache_inv files s R L X N cs ms \<Longrightarrow> finite (mapped s)"
proof (rule finite_subset)
  assume i: "cache_inv files s R L X N cs ms"
  show "mapped s \<subseteq> set ms \<union> set_mset L \<union> X"
    using i unfolding cache_inv_def mapped_def chunk_ok_def Let_def by blast
  show "finite (set ms \<union> set_mset L \<union> X)" using i by (simp add: cache_inv_def)
qed

lemma inv_home: "cache_inv files s R L X N cs ms \<Longrightarrow> p \<in> set (cs B) \<Longrightarrow> chome s B p"
  by (simp add: cache_inv_def)

lemma in_mem_finite: "finite (mapped s) \<Longrightarrow> finite (in_mem s p)"
  unfolding in_mem_def by (rule finite_vimageI [of "mapped s" "Pair p", unfolded vimage_def]) (auto simp: inj_on_def)

text \<open>What stays the same of an entry: of the header all but the date, which is that of the time
  recorded with it, unless this is 0.\<close>

definition blank :: "string \<Rightarrow> string" where
  "blank x = map (\<lambda>i. if 22 \<le> i \<and> i < 49 then NUL else x ! i) [0..<length x]"

definition dated :: "string \<Rightarrow> int \<Rightarrow> bool" where
  "dated x t \<longleftrightarrow> t = 0 \<or> take 27 (drop 22 x) = take 27 (MakeHTTPDate t)"

definition stamp :: "string option \<Rightarrow> int \<Rightarrow> string option \<times> int" where
  "stamp h t = (case h of None \<Rightarrow> (None, t) | Some x \<Rightarrow> if dated x t then (Some (blank x), 0) else (Some x, t))"

lemma blank_blank [simp]: "blank (blank b) = blank b"
  by (simp add: blank_def)

lemma stamp_stamp [simp]: "stamp (fst (stamp h t)) (snd (stamp h t)) = stamp h t"
  by (cases h) (simp_all add: stamp_def dated_def)

lemma stamp_eq: "stamp (Some x) t = stamp h u \<Longrightarrow> \<exists>y. h = Some y \<and> blank x = blank y \<and> dated x t = dated y u"
  by (cases h) (auto simp: stamp_def dated_def split: if_splits)

definition core :: "CacheEntry \<Rightarrow> CacheEntry" where
  "core e = e\<lparr>ce_numRefs := 0, ce_numChunksInMem := 0, ce_file_fd := 0, ce_lastValidation := 0, ce_isInvalid := False,
     ce_respHeader := fst (stamp (ce_respHeader e) (ce_respHeaderTime e)), ce_respHeaderTime := snd (stamp (ce_respHeader e) (ce_respHeaderTime e))\<rparr>"

definition dkept :: "datacache \<Rightarrow> datacache \<Rightarrow> bool" where
  "dkept s s' \<longleftrightarrow> (\<forall>p. calive (ces s') p \<longrightarrow> calive (ces s) p \<and> core (cmeta (ces s') p) = core (cmeta (ces s) p))
     \<and> systemPageSize s' = systemPageSize s \<and> maxLRUCacheSizeBytes s' = maxLRUCacheSizeBytes s
     \<and> dc_scrambled s' = dc_scrambled s \<and> dc_now s' = dc_now s"

lemma dkept_trans: "dkept s t \<Longrightarrow> dkept t u \<Longrightarrow> dkept s u"
  unfolding dkept_def by metis

lemma dkept_refl [simp]: "dkept s s"
  by (simp add: dkept_def)

lemma core_fields:
  assumes "core e = core f"
  shows "ce_filename e = ce_filename f" "ce_size e = ce_size f" "ce_numChunks e = ce_numChunks f" "ce_modTime e = ce_modTime f"
    "ce_respHeaderLen e = ce_respHeaderLen f" "file_entry files e = file_entry files f" "GetRoundedChunkSize z e i = GetRoundedChunkSize z f i"
proof -
  show f: "ce_filename e = ce_filename f" "ce_size e = ce_size f" "ce_numChunks e = ce_numChunks f" "ce_modTime e = ce_modTime f"
    "ce_respHeaderLen e = ce_respHeaderLen f"
    using arg_cong [OF assms, of ce_filename] arg_cong [OF assms, of ce_size] arg_cong [OF assms, of ce_numChunks]
      arg_cong [OF assms, of ce_modTime] arg_cong [OF assms, of ce_respHeaderLen] by (simp_all add: core_def)
  show "file_entry files e = file_entry files f" "GetRoundedChunkSize z e i = GetRoundedChunkSize z f i"
    by (simp_all add: f file_entry_def GetRoundedChunkSize_def)
qed

section \<open>Freeing a chunk\<close>

lemma TryFreeChunk_effect:
  assumes m: "chunk_list s ms" and v: "valid (ces s) q" and r: "rir_numRefs (rinfo (ces s) q) = 0" "rir_data (rinfo (ces s) q) \<noteq> None"
    and on: "rir_isOnMRU (rinfo (ces s) q) \<longleftrightarrow> q \<in> set ms" and n: "1 \<le> ce_numChunksInMem (cmeta (ces s) (fst q))"
  shows "\<exists>s'. TryFreeChunk (fst q) (snd q) s = Inr s' \<and> chunk_list s' (remove1 q ms) \<and> calive (ces s') = calive (ces s)
    \<and> cmeta (ces s') = (cmeta (ces s))(fst q := (cmeta (ces s) (fst q))\<lparr>ce_numChunksInMem := ce_numChunksInMem (cmeta (ces s) (fst q)) - 1\<rparr>)
    \<and> nchunks (ces s') = nchunks (ces s) \<and> c_next (ces s') = c_next (ces s) \<and> c_prev (ces s') = c_prev (ces s) \<and> cbins s' = cbins s
    \<and> same_conf s s' \<and> rinfo (ces s') = (rinfo (ces s))(q := (rinfo (ces s) q)\<lparr>rir_data := None, rir_isOnMRU := False\<rparr>)
    \<and> bytesInFreeChunks s' = bytesInFreeChunks s - (if q \<in> set ms then csize s q else 0) \<and> bytesInAllChunks s' = bytesInAllChunks s - csize s q"
proof -
  let ?p = "fst q" let ?i = "snd q"
  let ?s1 = "upd_rir q (\<lambda>x. x\<lparr>rir_data := None\<rparr>) s"
  have a: "calive (ces s) ?p" using valid_alive [OF v] .
  have m1: "chunk_list ?s1 ms" using m v by (simp add: chunk_list_def)
  obtain s2 where s2: "RemoveFromChunkLRUList ?p ?i ?s1 = Inr s2" "chunk_list s2 (remove1 q ms)" "same_table s s2"
    "rinfo (ces s2) = (rinfo (ces s))(q := (rinfo (ces s) q)\<lparr>rir_data := None, rir_isOnMRU := False\<rparr>)"
    "bytesInFreeChunks s2 = bytesInFreeChunks s - (if q \<in> set ms then csize s q else 0)" "bytesInAllChunks s2 = bytesInAllChunks s"
  proof (cases "q \<in> set ms")
    case True
    then obtain s2 where "RemoveFromChunkLRUList ?p ?i ?s1 = Inr s2" "chunk_list s2 (remove1 q ms)" "same_table ?s1 s2"
      "rinfo (ces s2) = (rinfo (ces ?s1))(q := (rinfo (ces ?s1) q)\<lparr>rir_isOnMRU := False\<rparr>)"
      "bytesInFreeChunks s2 = bytesInFreeChunks ?s1 - csize ?s1 q" "bytesInAllChunks s2 = bytesInAllChunks ?s1"
      using RemoveFromChunkLRUList_on [OF m1, of ?p ?i] on v by auto
    moreover have "csize ?s1 = csize s" by (simp add: csize_def fun_eq_iff)
    ultimately show ?thesis using that True v by (simp add: same_table_def same_conf_def)
  next
    case False
    then have "\<not> rir_isOnMRU (rinfo (ces ?s1) q)" using on v by simp
    then have "RemoveFromChunkLRUList ?p ?i ?s1 = Inr ?s1" using RemoveFromChunkLRUList_off [of ?s1 ?p ?i] v by simp
    moreover have "(rinfo (ces s) q)\<lparr>rir_data := None, rir_isOnMRU := False\<rparr> = (rinfo (ces s) q)\<lparr>rir_data := None\<rparr>"
      using on False by (cases "rinfo (ces s) q") simp
    ultimately show ?thesis using that [of ?s1] False m1 v by (simp add: same_table_def same_conf_def remove1_idem)
  qed
  have t: "calive (ces s2) = calive (ces s)" "cmeta (ces s2) = cmeta (ces s)" "nchunks (ces s2) = nchunks (ces s)" "systemPageSize s2 = systemPageSize s"
    using s2(3) by (auto simp: same_table_def same_conf_def)
  let ?z = "s2\<lparr>dc_unmapped := csize s q # dc_unmapped s2, bytesInAllChunks := bytesInAllChunks s - csize s q\<rparr>"
  let ?s3 = "upd_ce ?p (\<lambda>e. e\<lparr>ce_numChunksInMem := ce_numChunksInMem e - 1\<rparr>) ?z"
  have "TryFreeChunk ?p ?i s = Inr ?s3"
    unfolding TryFreeChunk_def prod.collapse
    using r v a s2(1,6) t n by (auto simp: dc_access csize_def Let_def simp del: rir_at.simps)
  moreover have "chunk_list ?s3 (remove1 q ms)" using s2(2) by (simp add: chunk_list_def)
  ultimately show ?thesis using s2 t a by (auto simp: same_table_def same_conf_def)
qed

lemma inv_chunk_list_distinct: "cache_inv files s R L X N cs ms \<Longrightarrow> distinct ms"
  by (simp add: cache_inv_def chunk_list_def dll_def)

lemma inv_on_list:
  assumes "cache_inv files s R L X N cs ms" and "q \<in> set ms"
  shows "valid (ces s) q" "q \<notin># L" "q \<in> mapped s" "rir_isOnMRU (rinfo (ces s) q)" "rir_entry (rinfo (ces s) q) = Some (fst q)"
    "rir_chunkNum (rinfo (ces s) q) = snd q"
proof -
  show v: "valid (ces s) q" using assms by (auto simp: cache_inv_def chunk_list_def dll_def)
  then have "chunk_ok files s L X ms q" using assms(1) by (simp add: cache_inv_def)
  then show "q \<notin># L" "q \<in> mapped s" "rir_isOnMRU (rinfo (ces s) q)" "rir_entry (rinfo (ces s) q) = Some (fst q)" "rir_chunkNum (rinfo (ces s) q) = snd q"
    using assms(2) v by (auto simp: chunk_ok_def Let_def mapped_def)
qed

lemma valid_entry:
  assumes "cache_inv files s R L X N cs ms" and "valid (ces s) q"
  shows "fst q \<in> resident cs \<union> N" "entry_ok files s R (fst q)" "0 \<le> snd q" "snd q < ce_numChunks (cmeta (ces s) (fst q))"
proof -
  show r: "fst q \<in> resident cs \<union> N" using assms valid_alive [OF assms(2)] by (auto simp: cache_inv_def)
  then show e: "entry_ok files s R (fst q)" using assms(1) by (auto simp: cache_inv_def)
  show "0 \<le> snd q" "snd q < ce_numChunks (cmeta (ces s) (fst q))" using e assms(2) file_entry_chunks [of files "cmeta (ces s) (fst q)"] by (auto simp: entry_ok_def Let_def valid_def)
qed

lemma hash_same: "dc_scrambled s' = dc_scrambled s \<Longrightarrow> HashFilename s' = HashFilename s"
  by (simp add: HashFilename_def fun_eq_iff)

lemma TryFreeChunk_mapped:
  assumes inv: "cache_inv files s R L X N cs ms" and v: "q \<in> mapped s" and l: "q \<notin># L"
  shows "\<exists>s'. TryFreeChunk (fst q) (snd q) s = Inr s' \<and> cache_inv files s' R L (X - {q}) N cs (remove1 q ms) \<and> dkept s s'
    \<and> mapped s' = mapped s - {q} \<and> nchunks (ces s') = nchunks (ces s) \<and> rinfo (ces s') = (rinfo (ces s))(q := rinfo (ces s') q)"
proof -
  note i = inv [unfolded cache_inv_def] and fin = mapped_finite [OF inv] and d = inv_chunk_list_distinct [OF inv]
  have va: "valid (ces s) q" "rir_data (rinfo (ces s) q) \<noteq> None" using v by (auto simp: mapped_def)
  have k: "chunk_ok files s L X ms q" using inv va by (simp add: cache_inv_def)
  have f: "snd q \<in> in_mem s (fst q)" "finite (in_mem s (fst q))" using v in_mem_finite [OF fin] by (auto simp: in_mem_def)
  note en = valid_entry(2) [OF inv va(1)]
  have n: "1 \<le> ce_numChunksInMem (cmeta (ces s) (fst q))" using en f card_gt_0_iff [of "in_mem s (fst q)"] by (auto simp: entry_ok_def Let_def)
  obtain s' where s': "TryFreeChunk (fst q) (snd q) s = Inr s'" "chunk_list s' (remove1 q ms)" "calive (ces s') = calive (ces s)"
    "cmeta (ces s') = (cmeta (ces s))(fst q := (cmeta (ces s) (fst q))\<lparr>ce_numChunksInMem := ce_numChunksInMem (cmeta (ces s) (fst q)) - 1\<rparr>)"
    "nchunks (ces s') = nchunks (ces s)" "c_next (ces s') = c_next (ces s)" "c_prev (ces s') = c_prev (ces s)" "cbins s' = cbins s" "same_conf s s'"
    "rinfo (ces s') = (rinfo (ces s))(q := (rinfo (ces s) q)\<lparr>rir_data := None, rir_isOnMRU := False\<rparr>)"
    "bytesInFreeChunks s' = bytesInFreeChunks s - (if q \<in> set ms then csize s q else 0)" "bytesInAllChunks s' = bytesInAllChunks s - csize s q"
    using TryFreeChunk_effect [OF _ va(1) _ va(2) _ n, of ms] i k l by (auto simp: chunk_ok_def Let_def count_eq_zero_iff)
  have sv: "valid (ces s') = valid (ces s)" using same_valid [OF s'(5)] .
  have mp: "mapped s' = mapped s - {q}" using s'(10) sv by (auto simp: mapped_def)
  have cz: "csize s' = csize s" and fn: "fname s' = fname s" using s'(4,9) by (auto simp: csize_def fname_def fun_eq_iff same_conf_def GetRoundedChunkSize_def)
  have im: "in_mem s' p = (if p = fst q then in_mem s p - {snd q} else in_mem s p)" for p by (auto simp: in_mem_def mp prod_eq_iff)
  have "entry_ok files s' R p" if "p \<in> resident cs \<union> N" for p
  proof -
    have o: "entry_ok files s R p" using that i by blast
    have "card (in_mem s (fst q) - {snd q}) = card (in_mem s (fst q)) - 1" "1 \<le> card (in_mem s (fst q))"
      using f by (simp_all add: Suc_le_eq card_gt_0_iff) (auto)
    then show ?thesis using o s'(4,5) im fn by (cases "p = fst q") (simp_all add: entry_ok_def Let_def of_nat_diff)
  qed
  moreover have "chunk_ok files s' L (X - {q}) (remove1 q ms) x" if "valid (ces s') x" for x
  proof -
    have "chunk_ok files s L X ms x" using i that by (simp add: sv)
    then show ?thesis using d l by (cases "x = q") (auto simp: chunk_ok_def Let_def s'(10) fn)
  qed
  moreover have "\<forall>B. \<forall>p\<in>set (cs B). chome s' B p"
  proof (intro allI ballI)
    fix B p assume "p \<in> set (cs B)"
    then have "chome s B p" using i by blast
    then show "chome s' B p" using s'(4,9) hash_same [of s' s] by (cases B) (auto simp: fn same_conf_def)
  qed
  moreover have "bytesInFreeChunks s' = sum_list (map (csize s') (remove1 q ms))"
    using i s'(11) sum_list_map_remove1 [of q ms "csize s"] by (simp add: cz remove1_idem)
  moreover have "bytesInAllChunks s' = sum (csize s') (mapped s')"
    using i s'(12) sum.remove [OF fin v, of "csize s"] by (simp add: cz mp)
  moreover have "table s' cs" using i s'(3,6,7,8) by (simp add: table_def)
  ultimately have "cache_inv files s' R L (X - {q}) N cs (remove1 q ms)"
    using i s'(2,3,9) sv by (simp add: cache_inv_def same_conf_def)
  moreover have "dkept s s'" using s'(3,4,9) by (auto simp: dkept_def same_conf_def core_def)
  ultimately show ?thesis using s'(1,5,10) mp by auto
qed

lemma TryFreeChunk_ok:
  assumes inv: "cache_inv files s R L X N cs ms" and v: "valid (ces s) q" and l: "q \<notin># L"
  shows "\<exists>s'. TryFreeChunk (fst q) (snd q) s = Inr s' \<and> cache_inv files s' R L (X - {q}) N cs (remove1 q ms) \<and> dkept s s'
    \<and> mapped s' = mapped s - {q} \<and> nchunks (ces s') = nchunks (ces s) \<and> (\<forall>x. x \<noteq> q \<longrightarrow> rinfo (ces s') x = rinfo (ces s) x)"
proof (cases "q \<in> mapped s")
  case True
  then show ?thesis using TryFreeChunk_mapped [OF inv True l] by (metis fun_upd_apply)
next
  case False
  have k: "chunk_ok files s L X ms q" using inv v by (simp add: cache_inv_def)
  have d: "rir_data (rinfo (ces s) q) = None" and m: "q \<notin> set ms" using False v inv_on_list(3) [OF inv, of q] by (auto simp: mapped_def)
  have "TryFreeChunk (fst q) (snd q) s = Inr s"
    using k d l v by (simp add: TryFreeChunk_def dc_access chunk_ok_def Let_def count_eq_zero_iff del: rir_at.simps)
  moreover have "chunk_ok files s L (X - {q}) ms x" if "valid (ces s) x" for x
  proof -
    have "chunk_ok files s L X ms x" using inv that by (simp add: cache_inv_def)
    then show ?thesis using d m by (cases "x = q") (auto simp: chunk_ok_def Let_def)
  qed
  then have "cache_inv files s R L (X - {q}) N cs (remove1 q ms)" using inv m by (simp add: cache_inv_def remove1_idem)
  ultimately show ?thesis using False by auto
qed

lemma try_free_all_ok:
  assumes "cache_inv files s R L X N cs ms" and "\<forall>i\<in>set is. valid (ces s) (p, i) \<and> (p, i) \<notin># L"
  shows "\<exists>s'. try_free_all p is s = Inr s' \<and> cache_inv files s' R L (X - {p} \<times> set is) N cs (filter (\<lambda>q. q \<notin> {p} \<times> set is) ms) \<and> dkept s s'
    \<and> mapped s' = mapped s - {p} \<times> set is \<and> nchunks (ces s') = nchunks (ces s) \<and> (\<forall>x. fst x \<noteq> p \<longrightarrow> rinfo (ces s') x = rinfo (ces s) x)"
  using assms
proof (induction "is" arbitrary: s X ms)
  case Nil
  then show ?case by simp
next
  case (Cons i "is")
  obtain s1 where s1: "TryFreeChunk p i s = Inr s1" "cache_inv files s1 R L (X - {(p, i)}) N cs (remove1 (p, i) ms)" "dkept s s1"
    "mapped s1 = mapped s - {(p, i)}" "nchunks (ces s1) = nchunks (ces s)" "\<forall>x. x \<noteq> (p, i) \<longrightarrow> rinfo (ces s1) x = rinfo (ces s) x"
    using TryFreeChunk_ok [OF Cons.prems(1), of "(p, i)"] Cons.prems(2) by auto
  have r: "remove1 (p, i) ms = filter (\<lambda>q. q \<noteq> (p, i)) ms"
    using distinct_remove1_removeAll [OF inv_chunk_list_distinct [OF Cons.prems(1)]] by (simp add: removeAll_filter_not_eq)
      (metis (mono_tags, lifting) filter_cong)
  have "\<forall>j\<in>set is. valid (ces s1) (p, j) \<and> (p, j) \<notin># L" using Cons.prems(2) same_valid [OF s1(5)] by simp
  from Cons.IH [OF s1(2) this] obtain s2 where s2: "try_free_all p is s1 = Inr s2"
    "cache_inv files s2 R L (X - {(p, i)} - {p} \<times> set is) N cs (filter (\<lambda>q. q \<notin> {p} \<times> set is) (remove1 (p, i) ms))" "dkept s1 s2"
    "mapped s2 = mapped s1 - {p} \<times> set is" "nchunks (ces s2) = nchunks (ces s1)" "\<forall>x. fst x \<noteq> p \<longrightarrow> rinfo (ces s2) x = rinfo (ces s1) x" by blast
  have e: "X - {(p, i)} - {p} \<times> set is = X - {p} \<times> set (i # is)" "mapped s - {(p, i)} - {p} \<times> set is = mapped s - {p} \<times> set (i # is)"
    "filter (\<lambda>q. q \<notin> {p} \<times> set is) (remove1 (p, i) ms) = filter (\<lambda>q. q \<notin> {p} \<times> set (i # is)) ms"
    by (auto simp: r intro!: filter_cong)
  have "rinfo (ces s2) x = rinfo (ces s) x" if "fst x \<noteq> p" for x using s1(6) s2(6) that by (metis fst_conv)
  then show ?case using s1(1,4,5) s2 dkept_trans [OF s1(3) s2(3)] e by simp
qed

section \<open>Freeing an entry\<close>

text \<open>States that differ in descriptors, times and statistics only.\<close>

definition noise :: "CacheEntry \<Rightarrow> CacheEntry" where
  "noise e = e\<lparr>ce_file_fd := 0, ce_lastValidation := 0,
     ce_respHeader := fst (stamp (ce_respHeader e) (ce_respHeaderTime e)), ce_respHeaderTime := snd (stamp (ce_respHeader e) (ce_respHeaderTime e))\<rparr>"

definition same_struct :: "datacache \<Rightarrow> datacache \<Rightarrow> bool" where
  "same_struct s s' \<longleftrightarrow> calive (ces s') = calive (ces s) \<and> (\<forall>p. noise (cmeta (ces s') p) = noise (cmeta (ces s) p)) \<and> nchunks (ces s') = nchunks (ces s)
     \<and> c_next (ces s') = c_next (ces s) \<and> c_prev (ces s') = c_prev (ces s) \<and> cbins s' = cbins s
     \<and> r_next (ces s') = r_next (ces s) \<and> r_prev (ces s') = r_prev (ces s) \<and> rinfo (ces s') = rinfo (ces s)
     \<and> freeChunkMRUHead s' = freeChunkMRUHead s \<and> freeChunkMRUTail s' = freeChunkMRUTail s
     \<and> bytesInAllChunks s' = bytesInAllChunks s \<and> bytesInFreeChunks s' = bytesInFreeChunks s
     \<and> systemPageSize s' = systemPageSize s \<and> maxLRUCacheSizeBytes s' = maxLRUCacheSizeBytes s
     \<and> dc_scrambled s' = dc_scrambled s \<and> ps_numDataCacheEntries s' = ps_numDataCacheEntries s"

lemma noise_core: "noise e = noise f \<Longrightarrow> core e = core f"
proof -
  have c: "core e = core (noise e)" for e by (cases e) (simp add: core_def noise_def)
  show "noise e = noise f \<Longrightarrow> core e = core f" by (metis c)
qed

lemma noise_fields:
  assumes "noise e = noise f"
  shows "ce_numRefs e = ce_numRefs f" "ce_numChunksInMem e = ce_numChunksInMem f" "ce_isInvalid e = ce_isInvalid f"
  using arg_cong [OF assms, of ce_numRefs] arg_cong [OF assms, of ce_numChunksInMem] arg_cong [OF assms, of ce_isInvalid] by (simp_all add: noise_def)

lemma inv_same_struct:
  assumes "same_struct s s'"
  shows "cache_inv files s' R L X N cs ms = cache_inv files s R L X N cs ms"
proof -
  note a = assms [unfolded same_struct_def]
  have n: "noise (cmeta (ces s') p) = noise (cmeta (ces s) p)" for p using a by blast
  note f = noise_fields [OF n] core_fields [OF noise_core [OF n]]
  have v: "valid (ces s') = valid (ces s)" using a same_valid by blast
  have g: "csize s' = csize s" "fname s' = fname s" "mapped s' = mapped s" using a f v by (auto simp: csize_def fname_def mapped_def)
  then have i: "in_mem s' = in_mem s" by (simp add: in_mem_def fun_eq_iff)
  have e: "entry_ok files s' R p = entry_ok files s R p" for p using a by (simp add: entry_ok_def Let_def f i)
  have c: "chunk_ok files s' L X ms q = chunk_ok files s L X ms q" for q using a g by (simp add: chunk_ok_def)
  have h: "chome s' B p = chome s B p" for B p using a g hash_same [of s' s] by (cases B) (simp_all add: f)
  show ?thesis using a by (simp add: cache_inv_def table_def chunk_list_def v e c h g)
qed

lemma same_struct_kept: "same_struct s s' \<Longrightarrow> dc_now s' = dc_now s \<Longrightarrow> dkept s s'"
  by (auto simp: same_struct_def dkept_def intro: noise_core)

lemma close_fd_ok:
  assumes "calive (ces s) p"
  shows "\<exists>s'. close_fd p s = Inr s' \<and> same_struct s s' \<and> dc_now s' = dc_now s"
  using assms by (auto simp: close_fd_def dc_access same_struct_def noise_def calive_def)

text \<open>The entry is out of the table and has no chunks in memory.\<close>

lemma free_ce:
  assumes inv: "cache_inv files s R L {} {p} cs ms" and r: "p \<notin># R" and m: "\<forall>q\<in>mapped s. fst q \<noteq> p"
    and s': "s' = s\<lparr>ps_numDataCacheEntries := ps_numDataCacheEntries s - 1, ces := (ces s)(p := None)\<rparr>"
  shows "cache_inv files s' R L {} {} cs ms" "dkept s s'" "\<forall>x. fst x \<noteq> p \<longrightarrow> rinfo (ces s') x = rinfo (ces s) x"
proof -
  note i = inv [unfolded cache_inv_def]
  have pr: "p \<notin> resident cs" and ap: "calive (ces s) p" using i by auto
  have o: "calive (ces s') x = (x \<noteq> p \<and> calive (ces s) x)" "x \<noteq> p \<Longrightarrow> cmeta (ces s') x = cmeta (ces s) x" "x \<noteq> p \<Longrightarrow> nchunks (ces s') x = nchunks (ces s) x"
    "x \<noteq> p \<Longrightarrow> c_next (ces s') x = c_next (ces s) x" "x \<noteq> p \<Longrightarrow> c_prev (ces s') x = c_prev (ces s) x" for x
    by (simp_all add: s' calive_def cmeta_def nchunks_def c_next_def c_prev_def)
  have v: "valid (ces s') q = (fst q \<noteq> p \<and> valid (ces s) q)" for q
    by (simp add: valid_def s' nchunks_def)
  have ri: "fst q \<noteq> p \<Longrightarrow> rir (ces s') q = rir (ces s) q" for q using v by (auto simp: rir_def s')
  then show rf: "\<forall>x. fst x \<noteq> p \<longrightarrow> rinfo (ces s') x = rinfo (ces s) x" by (simp add: rinfo_def)
  show "dkept s s'" by (auto simp: dkept_def o) (simp_all add: s')
  have mm: "fst q \<noteq> p" if "q \<in> set ms" for q using inv_on_list(3) [OF inv that] m by blast
  have "q \<in> mapped s' \<longleftrightarrow> q \<in> mapped s" for q using m rf v [of q] by (cases "fst q = p") (auto simp: mapped_def)
  then have mp: "mapped s' = mapped s" by blast
  have im: "in_mem s' = in_mem s" by (simp add: in_mem_def mp fun_eq_iff)
  have cz: "fst q \<noteq> p \<Longrightarrow> csize s' q = csize s q" and fn: "x \<noteq> p \<Longrightarrow> fname s' x = fname s x" for q x
    using o by (simp_all add: csize_def fname_def) (simp add: s')
  have rp: "x \<in> resident cs \<Longrightarrow> x \<noteq> p" for x using pr by blast
  have "table s' cs" using i rp o unfolding table_def by (subst chains_cong [of _ _ "c_next (ces s)" _ "c_prev (ces s)" _ "calive (ces s)"]) (auto simp: s')
  moreover have "chunk_list s' ms"
    using i mm v ri unfolding chunk_list_def
    by (subst dll_cong [of _ _ "r_next (ces s)" _ "r_prev (ces s)" _ "valid (ces s)"]) (auto simp: r_next_def r_prev_def, simp_all add: s')
  moreover have "{x. calive (ces s') x} = resident cs" using i o(1) pr by auto
  moreover have "entry_ok files s' R x" if "x \<in> resident cs" for x
    using i that rp o by (simp add: entry_ok_def Let_def im)
  moreover have "chunk_ok files s' L {} ms q" if "valid (ces s') q" for q
  proof -
    have "chunk_ok files s L {} ms q" "fst q \<noteq> p" using i that v by auto
    then show ?thesis using rf fn by (simp add: chunk_ok_def)
  qed
  moreover have "\<forall>q\<in>#L. fst q \<in># R \<and> valid (ces s') q" using i r v by auto
  moreover have "chome s' B x" if "x \<in> set (cs B)" for x B
  proof -
    have "chome s B x" "x \<noteq> p" using i that rp residentI [of x cs B] by auto
    then show ?thesis using o fn hash_same [of s' s] by (cases B) (simp_all add: s')
  qed
  moreover have "sum_list (map (csize s') ms) = sum_list (map (csize s) ms)" using mm cz by (metis (mono_tags, lifting) map_eq_conv)
  moreover have "sum (csize s') (mapped s') = sum (csize s) (mapped s)" unfolding mp by (rule sum.cong) (use m cz in auto)
  moreover have "card (resident cs \<union> {p}) = Suc (card (resident cs))" using i pr by simp
  ultimately show "cache_inv files s' R L {} {} cs ms" using i unfolding cache_inv_def by (simp add: s')
qed

lemma unlink_inv:
  assumes inv: "cache_inv files s R L X N cs ms" and p: "p \<in> set (cs B)" and r: "p \<notin># R"
  shows "cache_inv files (dct.unlinked p s) R L X (insert p N) (cs(B := remove1 p (cs B))) ms"
proof -
  note i = inv [unfolded cache_inv_def]
  let ?u = "dct.unlinked p s" let ?c = "cs(B := remove1 p (cs B))"
  have t: "table s cs" using i by blast
  note sc = unlinked_chunks [of s p, unfolded same_chunks_def]
  have rc: "resident ?c = resident cs - {p}" using chains_resident(1) [OF t [unfolded table_def] p] .
  have pr: "p \<in> resident cs" using residentI [of p cs B] p by simp
  have v: "valid (ces ?u) = valid (ces s)" using sc same_valid by blast
  have g: "csize ?u = csize s" "fname ?u = fname s" "mapped ?u = mapped s" using sc v by (auto simp: csize_def fname_def mapped_def same_conf_def)
  have im: "in_mem ?u = in_mem s" by (simp add: in_mem_def g fun_eq_iff)
  have e: "entry_ok files ?u R x = entry_ok files s R x" "chunk_ok files ?u L X ms q = chunk_ok files s L X ms q"
    "chome ?u C x = chome s C x" for x q C
    using sc g im hash_same [of ?u s] by (simp_all add: entry_ok_def chunk_ok_def same_conf_def) (cases C; simp)
  have rn: "resident ?c \<union> insert p N = resident cs \<union> N" "resident ?c \<inter> insert p N = {}" using rc pr i by auto
  show ?thesis unfolding cache_inv_def rn e g v
    using i table_unlinked [OF t p] sc r rn rc
    by (auto simp: chunk_list_def v same_conf_def dest: set_remove1_subset [THEN subsetD])
qed

lemma KillEntry_ok:
  assumes inv: "cache_inv files s R L {} {} cs ms" and p: "p \<in> set (cs B)" and r: "p \<notin># R"
  shows "\<exists>s'. KillEntry p s = Inr s' \<and> cache_inv files s' R L {} {} (cs(B := remove1 p (cs B))) (filter (\<lambda>q. fst q \<noteq> p) ms) \<and> dkept s s'
    \<and> (\<forall>x. fst x \<noteq> p \<longrightarrow> rinfo (ces s') x = rinfo (ces s) x)"
proof -
  note i = inv [unfolded cache_inv_def]
  let ?u = "dct.unlinked p s" let ?c = "cs(B := remove1 p (cs B))"
  note iu = unlink_inv [OF inv p r] and sc = unlinked_chunks [of s p, unfolded same_chunks_def]
  have en: "entry_ok files ?u R p" and ap: "calive (ces ?u) p" using iu unfolding cache_inv_def by blast+
  let ?is = "[0..ce_numChunks (cmeta (ces ?u) p) - 1]"
  have va: "valid (ces ?u) (p, j) \<longleftrightarrow> j \<in> set ?is" for j
    using en file_entry_chunks [of files "cmeta (ces ?u) p"] by (auto simp: valid_def entry_ok_def Let_def)
  have nl: "(p, j) \<notin># L" for j using i r by (metis fst_conv)
  from try_free_all_ok [OF iu, of ?is p] va nl obtain s2 where s2: "try_free_all p ?is ?u = Inr s2"
    "cache_inv files s2 R L ({} - {p} \<times> set ?is) {p} ?c (filter (\<lambda>q. q \<notin> {p} \<times> set ?is) ms)" "dkept ?u s2"
    "mapped s2 = mapped ?u - {p} \<times> set ?is" "nchunks (ces s2) = nchunks (ces ?u)" "\<forall>x. fst x \<noteq> p \<longrightarrow> rinfo (ces s2) x = rinfo (ces ?u) x"
    by fastforce
  have f: "filter (\<lambda>q. q \<notin> {p} \<times> set ?is) ms = filter (\<lambda>q. fst q \<noteq> p) ms"
  proof (rule filter_cong [OF refl])
    fix q assume "q \<in> set ms"
    then have "valid (ces ?u) q" using inv_on_list(1) [OF iu] by blast
    then show "(q \<notin> {p} \<times> set ?is) = (fst q \<noteq> p)" using va [of "snd q"] by (cases q) auto
  qed
  have "calive (ces s2) p" using s2(2) by (auto simp: cache_inv_def)
  then obtain s3 where s3: "close_fd p s2 = Inr s3" "same_struct s2 s3" "dc_now s3 = dc_now s2" using close_fd_ok by blast
  have i3: "cache_inv files s3 R L {} {p} ?c (filter (\<lambda>q. fst q \<noteq> p) ms)" using s2(2) inv_same_struct [OF s3(2)] by (simp only: f empty_Diff)
  have "q \<in> mapped s3 \<Longrightarrow> q \<in> mapped s2" for q using s3(2) same_valid [of s3 s2] by (auto simp: same_struct_def mapped_def)
  then have "\<forall>q\<in>mapped s3. fst q \<noteq> p" using s2(4) va unfolding mapped_def by fastforce
  note fr = free_ce [OF i3 r this refl]
  let ?s = "s3\<lparr>ps_numDataCacheEntries := ps_numDataCacheEntries s3 - 1, ces := (ces s3)(p := None)\<rparr>"
  have "KillEntry p s = Inr ?s"
    using unlink_ce_ok [of s cs p B] i p ap s2(1) s3(1) by (simp add: KillEntry_def dc_access)
  moreover have "dkept s ?u" using sc by (simp add: dkept_def same_conf_def)
  then have "dkept s ?s" using dkept_trans [OF _ s2(3)] dkept_trans [OF _ same_struct_kept [OF s3(2,3)]] dkept_trans [OF _ fr(2)] by blast
  moreover have "rinfo (ces ?s) x = rinfo (ces s) x" if "fst x \<noteq> p" for x
    using fr(3) s2(6) s3(2) sc that by (simp add: same_struct_def)
  ultimately show ?thesis using fr(1) by blast
qed

end
