(* ===== verification/Flash_Datacache_Run.thy ===== *)
theory Flash_Datacache_Run
  imports Flash_Datacache_Inv
begin

text \<open>
  The operations of the data cache of flash keep its invariant and end without a fault: the
  reduction of the cache, locks, reading of chunks, the lookup and the release of entries.
\<close>

section \<open>Reducing the cache\<close>

lemma remove_inv:
  assumes inv: "cache_inv files s R L X N cs ms" and q: "q \<in> set ms"
  shows "\<exists>s'. RemoveFromChunkLRUList (fst q) (snd q) s = Inr s' \<and> cache_inv files s' R L (insert q X) N cs (remove1 q ms) \<and> same_table s s'
    \<and> mapped s' = mapped s \<and> rinfo (ces s') = (rinfo (ces s))(q := (rinfo (ces s) q)\<lparr>rir_isOnMRU := False\<rparr>)"
proof -
  note i = inv [unfolded cache_inv_def] and o = inv_on_list [OF inv q] and d = inv_chunk_list_distinct [OF inv]
  obtain s' where s': "RemoveFromChunkLRUList (fst q) (snd q) s = Inr s'" "chunk_list s' (remove1 q ms)" "same_table s s'"
    "rinfo (ces s') = (rinfo (ces s))(q := (rinfo (ces s) q)\<lparr>rir_isOnMRU := False\<rparr>)"
    "bytesInFreeChunks s' = bytesInFreeChunks s - csize s q" "bytesInAllChunks s' = bytesInAllChunks s"
    using RemoveFromChunkLRUList_on [of s ms "fst q" "snd q"] i q o(4) by auto
  note st = s'(3) [unfolded same_table_def]
  have v: "valid (ces s') = valid (ces s)" using st same_valid by blast
  have mp: "mapped s' = mapped s" using v s'(4) by (auto simp: mapped_def)
  have g: "csize s' = csize s" "fname s' = fname s" "in_mem s' = in_mem s" using st mp by (auto simp: csize_def fname_def same_conf_def in_mem_def)
  have e: "entry_ok files s' R x = entry_ok files s R x" "chome s' B x = chome s B x" for x B
    using st g hash_same [of s' s] by (simp_all add: entry_ok_def same_conf_def) (cases B; simp)
  have c: "chunk_ok files s' L (insert q X) (remove1 q ms) x" if "valid (ces s) x" for x
  proof -
    have "chunk_ok files s L X ms x" using i that by blast
    then show ?thesis using d by (cases "x = q") (auto simp: chunk_ok_def Let_def s'(4) g)
  qed
  have "bytesInFreeChunks s' = sum_list (map (csize s) (remove1 q ms))" using i s'(5) sum_list_map_remove1 [OF q, of "csize s"] by simp
  then have "cache_inv files s' R L (insert q X) N cs (remove1 q ms)"
    unfolding cache_inv_def e g v mp using i s'(2,6) st c by (simp add: table_def same_conf_def)
  then show ?thesis using s' mp by blast
qed

lemma same_table_kept: "same_table s s' \<Longrightarrow> dkept s s'"
  by (simp add: same_table_def dkept_def same_conf_def)

lemma drop_chunk_ok:
  assumes inv: "cache_inv files s R L {} {} cs ms" and q: "q \<in> set ms"
  shows "\<exists>s' cs' ms'. drop_chunk q s = Inr s' \<and> cache_inv files s' R L {} {} cs' ms' \<and> dkept s s' \<and> length ms' < length ms
    \<and> (\<forall>x\<in>#L. rinfo (ces s') x = rinfo (ces s) x) \<and> set (cs' Invalid) \<subseteq> set (cs Invalid)"
proof -
  note o = inv_on_list [OF inv q] and d = inv_chunk_list_distinct [OF inv]
  obtain s1 where s1: "RemoveFromChunkLRUList (fst q) (snd q) s = Inr s1" "cache_inv files s1 R L {q} {} cs (remove1 q ms)" "same_table s s1"
    "mapped s1 = mapped s" "rinfo (ces s1) = (rinfo (ces s))(q := (rinfo (ces s) q)\<lparr>rir_isOnMRU := False\<rparr>)" using remove_inv [OF inv q] by blast
  have v1: "valid (ces s1) q" using o(1) same_valid [of s1 s] s1(3) by (simp add: same_table_def)
  obtain s2 where s2: "TryFreeChunk (fst q) (snd q) s1 = Inr s2" "cache_inv files s2 R L {} {} cs (remove1 q ms)" "dkept s1 s2"
    "\<forall>x. x \<noteq> q \<longrightarrow> rinfo (ces s2) x = rinfo (ces s1) x"
    using TryFreeChunk_ok [OF s1(2) v1 o(2)] d by (auto simp: remove1_idem)
  have k: "dkept s s2" using dkept_trans [OF same_table_kept [OF s1(3)] s2(3)] .
  have len: "length (remove1 q ms) < length ms" using q length_pos_if_in_set [OF q] by (simp add: length_remove1)
  have rl: "\<forall>x\<in>#L. rinfo (ces s2) x = rinfo (ces s) x" using s2(4) s1(5) o(2) by auto
  have ap: "calive (ces s2) (fst q)" "fst q \<in> resident cs"
  proof -
    show "fst q \<in> resident cs" using valid_entry(1) [OF inv o(1)] by simp
    then show "calive (ces s2) (fst q)" using s2(2) by (auto simp: cache_inv_def)
  qed
  have en: "entry_ok files s2 R (fst q)" using s2(2) ap(2) by (auto simp: cache_inv_def)
  have dr: "drop_chunk q s = (if ce_numChunksInMem (cmeta (ces s2) (fst q)) = 0 \<and> ce_numRefs (cmeta (ces s2) (fst q)) = 0 then KillEntry (fst q) s2 else Inr s2)"
    using o v1 s1(1,5) s2(1) ap(1) by (simp add: drop_chunk_def dc_access)
  show ?thesis
  proof (cases "ce_numChunksInMem (cmeta (ces s2) (fst q)) = 0 \<and> ce_numRefs (cmeta (ces s2) (fst q)) = 0")
    case True
    then have pr: "fst q \<notin># R" using en by (simp add: entry_ok_def Let_def count_eq_zero_iff)
    obtain B where B: "fst q \<in> set (cs B)" using ap(2) by (auto simp: resident_def)
    from KillEntry_ok [OF s2(2) B pr] obtain s3 where s3: "KillEntry (fst q) s2 = Inr s3"
      "cache_inv files s3 R L {} {} (cs(B := remove1 (fst q) (cs B))) (filter (\<lambda>x. fst x \<noteq> fst q) (remove1 q ms))" "dkept s2 s3"
      "\<forall>x. fst x \<noteq> fst q \<longrightarrow> rinfo (ces s3) x = rinfo (ces s2) x" by blast
    have "\<forall>x\<in>#L. rinfo (ces s3) x = rinfo (ces s) x" using rl s3(4) inv pr unfolding cache_inv_def by metis
    moreover have "length (filter (\<lambda>x. fst x \<noteq> fst q) (remove1 q ms)) < length ms" using len length_filter_le [of "\<lambda>x. fst x \<noteq> fst q" "remove1 q ms"] by linarith
    moreover have "set ((cs(B := remove1 (fst q) (cs B))) Invalid) \<subseteq> set (cs Invalid)" by (auto dest: set_remove1_subset [THEN subsetD])
    moreover have "drop_chunk q s = Inr s3" using dr True s3(1) by simp
    ultimately show ?thesis using s3(2) dkept_trans [OF k s3(3)] by blast
  next
    case False
    then show ?thesis using dr s2(2) k len rl by auto
  qed
qed

text \<open>The limit holds, or there is nothing to free.\<close>

definition within_limit :: "datacache \<Rightarrow> bool" where
  "within_limit s \<longleftrightarrow> maxLRUCacheSizeBytes s = 0 \<or> bytesInAllChunks s \<le> maxLRUCacheSizeBytes s \<or> bytesInFreeChunks s \<le> 0"

lemma reduce_loop_ok:
  assumes "cache_inv files s R L {} {} cs ms"
  shows "\<exists>s' cs' ms'. reduce_loop s = Some (Inr s') \<and> cache_inv files s' R L {} {} cs' ms' \<and> dkept s s'
    \<and> (\<forall>x\<in>#L. rinfo (ces s') x = rinfo (ces s) x) \<and> set (cs' Invalid) \<subseteq> set (cs Invalid) \<and> (bytesInAllChunks s' \<le> maxLRUCacheSizeBytes s' \<or> bytesInFreeChunks s' \<le> 0)"
  using assms
proof (induction "length ms" arbitrary: s cs ms rule: less_induct)
  case less
  show ?case
  proof (cases "bytesInAllChunks s > maxLRUCacheSizeBytes s \<and> bytesInFreeChunks s > 0")
    case True
    have "ms \<noteq> []" using True less.prems by (auto simp: cache_inv_def)
    then have t: "freeChunkMRUTail s = Some (last ms)" "last ms \<in> set ms"
      using less.prems by (auto simp: cache_inv_def chunk_list_def dll_def ends_def)
    obtain s1 cs1 ms1 where s1: "drop_chunk (last ms) s = Inr s1" "cache_inv files s1 R L {} {} cs1 ms1" "dkept s s1" "length ms1 < length ms"
      "\<forall>x\<in>#L. rinfo (ces s1) x = rinfo (ces s) x" "set (cs1 Invalid) \<subseteq> set (cs Invalid)" using drop_chunk_ok [OF less.prems t(2)] by blast
    from less.hyps [OF s1(4,2)] obtain s2 cs2 ms2 where s2: "reduce_loop s1 = Some (Inr s2)" "cache_inv files s2 R L {} {} cs2 ms2" "dkept s1 s2"
      "\<forall>x\<in>#L. rinfo (ces s2) x = rinfo (ces s1) x" "set (cs2 Invalid) \<subseteq> set (cs1 Invalid)" "bytesInAllChunks s2 \<le> maxLRUCacheSizeBytes s2 \<or> bytesInFreeChunks s2 \<le> 0" by blast
    have "reduce_loop s = Some (Inr s2)" by (subst reduce_loop.simps) (simp add: True t s1(1) s2(1))
    moreover have "\<forall>x\<in>#L. rinfo (ces s2) x = rinfo (ces s) x" "set (cs2 Invalid) \<subseteq> set (cs Invalid)" using s1(5,6) s2(4,5) by auto
    ultimately show ?thesis using s2(2,6) dkept_trans [OF s1(3) s2(3)] by blast
  next
    case False
    then have "reduce_loop s = Some (Inr s)" by (subst reduce_loop.simps) auto
    then show ?thesis using less.prems False by fastforce
  qed
qed

lemma ReduceCacheIfNeeded_ok:
  assumes "cache_inv files s R L {} {} cs ms"
  shows "\<exists>s' cs' ms'. ReduceCacheIfNeeded s = Some (Inr s') \<and> cache_inv files s' R L {} {} cs' ms' \<and> dkept s s'
    \<and> (\<forall>x\<in>#L. rinfo (ces s') x = rinfo (ces s) x) \<and> set (cs' Invalid) \<subseteq> set (cs Invalid) \<and> within_limit s'"
proof (cases "maxLRUCacheSizeBytes s = 0")
  case True
  then show ?thesis using assms by (auto simp: ReduceCacheIfNeeded_def within_limit_def)
next
  case False
  then show ?thesis using reduce_loop_ok [OF assms] by (auto simp: ReduceCacheIfNeeded_def within_limit_def)
qed

section \<open>Locks\<close>

lemma sdiv_block: "0 \<le> n \<Longrightarrow> n sdiv 65536 = n div (65536::int)" "0 \<le> n \<Longrightarrow> n smod 65536 = n mod (65536::int)"
  by (simp_all add: signed_divide_int_def signed_modulo_int_def sgn_if)

text \<open>The count of a chunk changes together with the multiset of locks.\<close>

lemma count_inv:
  assumes inv: "cache_inv files s R L X N cs ms" and v: "valid (ces s) q" and m: "q \<notin> set ms"
    and s': "same_table s s'" "chunk_list s' ms" "bytesInFreeChunks s' = bytesInFreeChunks s" "bytesInAllChunks s' = bytesInAllChunks s"
    and ri: "rinfo (ces s') = (rinfo (ces s))(q := (rinfo (ces s) q)\<lparr>rir_numRefs := int (count L' q)\<rparr>)"
    and L: "\<And>x. x \<noteq> q \<Longrightarrow> count L' x = count L x" and r: "fst q \<in># R" and X: "finite X'" "\<And>x. x \<noteq> q \<Longrightarrow> (x \<in> X') = (x \<in> X)"
    and d: "q \<in> mapped s \<Longrightarrow> q \<in># L' \<or> q \<in> X'"
  shows "cache_inv files s' R L' X' N cs ms"
proof -
  note i = inv [unfolded cache_inv_def] and st = s'(1) [unfolded same_table_def]
  have va: "valid (ces s') = valid (ces s)" using st same_valid by blast
  have mp: "mapped s' = mapped s" using va ri by (auto simp: mapped_def)
  have g: "csize s' = csize s" "fname s' = fname s" "in_mem s' = in_mem s" using st mp by (auto simp: csize_def fname_def same_conf_def in_mem_def)
  have e: "entry_ok files s' R x = entry_ok files s R x" "chome s' B x = chome s B x" for x B
    using st g hash_same [of s' s] by (simp_all add: entry_ok_def same_conf_def) (cases B; simp)
  have c: "chunk_ok files s' L' X' ms x" if "valid (ces s) x" for x
  proof -
    have k: "chunk_ok files s L X ms x" using i that by blast
    have L2: "(x \<in># L') = (x \<in># L)" if "x \<noteq> q" using L [OF that] by (metis count_greater_zero_iff)
    show ?thesis
    proof (cases "x = q")
      case True
      then show ?thesis using k d m v by (auto simp: chunk_ok_def Let_def ri g mapped_def)
    next
      case False
      then show ?thesis using k L [OF False] L2 [OF False] X(2) [OF False] by (simp add: chunk_ok_def Let_def ri g)
    qed
  qed
  have "\<forall>x\<in>#L'. fst x \<in># R \<and> valid (ces s) x" using i L r v by (metis count_greater_zero_iff)
  then show ?thesis unfolding cache_inv_def e g va mp using i s' st c X(1) by (simp add: table_def same_conf_def)
qed

lemma IncChunkLock_ok:
  assumes inv: "cache_inv files s R L {} {} cs ms" and p: "p \<in># R" and b: "0 \<le> bytes" and q: "q = (p, bytes div 65536)"
  shows "if valid (ces s) q
    then \<exists>s' ms'. IncChunkLock p bytes s = Inr (True, s') \<and> cache_inv files s' R (add_mset q L) {} {} cs ms' \<and> same_table s s'
      \<and> (\<forall>x. rir_data (rinfo (ces s') x) = rir_data (rinfo (ces s) x)) \<and> bytesInAllChunks s' = bytesInAllChunks s
      \<and> (\<exists>d. bytesInFreeChunks s' = bytesInFreeChunks s - d \<and> (d = 0 \<or> d = csize s q))
    else IncChunkLock p bytes s = Inr (False, s)"
proof -
  note i = inv [unfolded cache_inv_def]
  have pr: "p \<in> resident cs" and ap: "calive (ces s) p" and en: "entry_ok files s R p" using i p by auto
  have f: "ce_dataChunks (the (ces s p)) \<noteq> None" "valid (ces s) q \<longleftrightarrow> bytes div 65536 < ce_numChunks (cmeta (ces s) p)"
    using en b file_entry_chunks [of files "cmeta (ces s) p"] by (auto simp: entry_ok_def Let_def nchunks_def valid_def q split: bind_splits)
  show ?thesis
  proof (cases "valid (ces s) q")
    case False
    then show ?thesis using f ap b by (simp add: IncChunkLock_def Let_def dc_access sdiv_block)
  next
    case True
    then have k: "chunk_ok files s L {} ms q" using i by blast
    obtain s1 ms1 X where s1: "(if rir_numRefs (rinfo (ces s) q) = 0 then RemoveFromChunkLRUList p (snd q) s else Inr s) = Inr s1"
      "cache_inv files s1 R L X {} cs ms1" "X \<subseteq> {q}" "q \<notin> set ms1" "same_table s s1" "rinfo (ces s1) = (rinfo (ces s))(q := rinfo (ces s1) q)"
      "rir_data (rinfo (ces s1) q) = rir_data (rinfo (ces s) q)" "bytesInAllChunks s1 = bytesInAllChunks s"
      "\<exists>d. bytesInFreeChunks s1 = bytesInFreeChunks s - d \<and> (d = 0 \<or> d = csize s q)"
    proof (cases "q \<in> set ms")
      case on: True
      then have z: "rir_numRefs (rinfo (ces s) q) = 0" using k by (simp add: chunk_ok_def Let_def count_eq_zero_iff)
      obtain s1 where r: "RemoveFromChunkLRUList p (snd q) s = Inr s1" "cache_inv files s1 R L {q} {} cs (remove1 q ms)" "same_table s s1"
        "mapped s1 = mapped s" "rinfo (ces s1) = (rinfo (ces s))(q := (rinfo (ces s) q)\<lparr>rir_isOnMRU := False\<rparr>)"
        using remove_inv [OF inv on] q by auto
      have "q \<notin> set (remove1 q ms)" using inv_chunk_list_distinct [OF inv] by simp
      moreover have "csize s1 = csize s" using r(3) by (auto simp: csize_def same_table_def same_conf_def)
      then have "bytesInAllChunks s1 = bytesInAllChunks s" "bytesInFreeChunks s1 = bytesInFreeChunks s - csize s q"
        using r(2,4) i sum_list_map_remove1 [OF on, of "csize s"] by (simp_all add: cache_inv_def)
      ultimately show ?thesis using that [OF _ r(2)] z r by auto
    next
      case False
      have "\<not> rir_isOnMRU (rinfo (ces s) (p, snd q))" using k False by (simp add: chunk_ok_def Let_def q)
      then have "RemoveFromChunkLRUList p (snd q) s = Inr s" using RemoveFromChunkLRUList_off [of s p "snd q"] True by (simp add: q)
      then show ?thesis using that [OF _ inv] False by (auto simp: same_table_def same_conf_def)
    qed
    let ?s = "upd_rir q (\<lambda>x. x\<lparr>rir_numRefs := rir_numRefs x + 1\<rparr>) s1"
    have v1: "valid (ces s1) q" using True s1(5) same_valid [of s1 s] by (simp add: same_table_def)
    have k1: "chunk_ok files s1 L X ms1 q" using s1(2) v1 by (simp add: cache_inv_def)
    have "cache_inv files ?s R (add_mset q L) {} {} cs ms1"
    proof (rule count_inv [OF s1(2) v1 s1(4)])
      show "same_table s1 ?s" by (simp add: same_table_def)
      show "chunk_list ?s ms1" using s1(2) v1 by (simp add: cache_inv_def chunk_list_def)
      show "rinfo (ces ?s) = (rinfo (ces s1))(q := (rinfo (ces s1) q)\<lparr>rir_numRefs := int (count (add_mset q L) q)\<rparr>)"
      proof -
        have "int (count (add_mset q L) q) = rir_numRefs (rinfo (ces s1) q) + 1" using k1 by (simp add: chunk_ok_def Let_def)
        then show ?thesis using v1 by (simp del: count_add_mset)
      qed
    qed (use p q s1(3) in auto)
    moreover have "IncChunkLock p bytes s = Inr (True, ?s)"
    proof -
      have sq: "snd q = bytes div 65536" by (simp add: q)
      show ?thesis using f True ap b s1(1) v1 unfolding q sq
        by (cases "rir_numRefs (rinfo (ces s) (p, bytes div 65536)) = 0") (simp_all add: IncChunkLock_def Let_def dc_access sdiv_block q del: rir_at.simps)
    qed
    moreover have "rir_data (rinfo (ces ?s) x) = rir_data (rinfo (ces s) x)" for x using s1(6,7) v1 by (cases "x = q") (simp_all, metis fun_upd_other)
    moreover have "same_table s ?s" using s1(5) by (simp add: same_table_def)
    ultimately show ?thesis using True s1(8,9) by auto
  qed
qed

lemma push_inv:
  assumes inv: "cache_inv files s R L {q} {} cs ms" and d: "q \<in> mapped s" and l: "q \<notin># L"
  shows "\<exists>s'. push_chunk (fst q) (snd q) s = Inr s' \<and> cache_inv files s' R L {} {} cs (q # ms) \<and> same_table s s'
    \<and> (\<forall>x. x \<noteq> q \<longrightarrow> rinfo (ces s') x = rinfo (ces s) x) \<and> \<not> rir_isOnMRU (rinfo (ces s) q)"
proof -
  note i = inv [unfolded cache_inv_def]
  have v: "valid (ces s) q" using d by (simp add: mapped_def)
  have k: "chunk_ok files s L {q} ms q" using i v by blast
  then have m: "q \<notin> set ms" by (auto simp: chunk_ok_def Let_def)
  obtain s' where s': "push_chunk (fst q) (snd q) s = Inr s'" "chunk_list s' (q # ms)" "same_table s s'"
    "rinfo (ces s') = (rinfo (ces s))(q := (rinfo (ces s) q)\<lparr>rir_isOnMRU := True, rir_entry := Some (fst q), rir_chunkNum := snd q\<rparr>)"
    "bytesInFreeChunks s' = bytesInFreeChunks s + csize s q" "bytesInAllChunks s' = bytesInAllChunks s"
    using push_chunk_ok [of s ms "fst q" "snd q"] i m v by auto
  note st = s'(3) [unfolded same_table_def]
  have va: "valid (ces s') = valid (ces s)" using st same_valid by blast
  have mp: "mapped s' = mapped s" using va s'(4) by (auto simp: mapped_def)
  have g: "csize s' = csize s" "fname s' = fname s" "in_mem s' = in_mem s" using st mp by (auto simp: csize_def fname_def same_conf_def in_mem_def)
  have e: "entry_ok files s' R x = entry_ok files s R x" "chome s' B x = chome s B x" for x B
    using st g hash_same [of s' s] by (simp_all add: entry_ok_def same_conf_def) (cases B; simp)
  have c: "chunk_ok files s' L {} (q # ms) x" if "valid (ces s) x" for x
  proof -
    have "chunk_ok files s L {q} ms x" using i that by blast
    then show ?thesis using l d by (cases "x = q") (auto simp: chunk_ok_def Let_def s'(4) g mapped_def)
  qed
  have "cache_inv files s' R L {} {} cs (q # ms)"
    unfolding cache_inv_def e g va mp using i s'(2,5,6) st c by (simp add: table_def same_conf_def)
  then show ?thesis using s' k m by (auto simp: chunk_ok_def Let_def)
qed

lemma DecChunkLock_ok:
  assumes inv: "cache_inv files s R L {} {} cs ms" and b: "0 \<le> bytes" and q: "q = (p, bytes div 65536)" "q \<in># L" and d: "q \<in> mapped s"
  shows "\<exists>s' cs' ms'. DecChunkLock p bytes s = Some (Inr (True, s')) \<and> cache_inv files s' R (L - {#q#}) {} {} cs' ms' \<and> dkept s s'
    \<and> set (cs' Invalid) \<subseteq> set (cs Invalid) \<and> (\<forall>x\<in>#L - {#q#}. rir_data (rinfo (ces s') x) = rir_data (rinfo (ces s) x))
    \<and> (within_limit s \<longrightarrow> within_limit s')"
proof -
  note i = inv [unfolded cache_inv_def]
  have p: "p \<in># R" and v: "valid (ces s) q" using i q by auto
  have pr: "p \<in> resident cs" and ap: "calive (ces s) p" and en: "entry_ok files s R p" using i p by auto
  have f: "ce_dataChunks (the (ces s p)) \<noteq> None" "bytes div 65536 < ce_numChunks (cmeta (ces s) p)"
    using en v file_entry_chunks [of files "cmeta (ces s) p"] by (auto simp: entry_ok_def Let_def nchunks_def valid_def q split: bind_splits)
  have k: "chunk_ok files s L {} ms q" using i v by blast
  then have m: "q \<notin> set ms" using q(2) by (auto simp: chunk_ok_def Let_def)
  let ?L = "L - {#q#}" let ?s1 = "upd_rir q (\<lambda>x. x\<lparr>rir_numRefs := rir_numRefs x - 1\<rparr>) s" let ?X = "if q \<in># ?L then {} else {q}"
  have c: "int (count ?L q) = rir_numRefs (rinfo (ces s) q) - 1"
    using k q(2) by (simp add: chunk_ok_def Let_def of_nat_diff Suc_le_eq)
  have i1: "cache_inv files ?s1 R ?L ?X {} cs ms"
  proof (rule count_inv [OF inv v m])
    show "same_table s ?s1" by (simp add: same_table_def)
    show "chunk_list ?s1 ms" using i v by (simp add: chunk_list_def)
    show "rinfo (ces ?s1) = (rinfo (ces s))(q := (rinfo (ces s) q)\<lparr>rir_numRefs := int (count ?L q)\<rparr>)" using v unfolding c by simp
  qed (use p q in auto)
  have m1: "mapped ?s1 = mapped s" using v by (auto simp: mapped_def)
  have r1: "rir_numRefs (rinfo (ces ?s1) q) = int (count ?L q)" "rir_isOnMRU (rinfo (ces ?s1) q) = rir_isOnMRU (rinfo (ces s) q)" using v c by simp_all
  have d1: "rir_data (rinfo (ces ?s1) x) = rir_data (rinfo (ces s) x)" for x using v by simp
  obtain s2 cs2 ms2 where s2: "(if rir_numRefs (rinfo (ces ?s1) q) < 1 then (if rir_numRefs (rinfo (ces ?s1) q) < 0 then Some (Inl AssertFail)
      else AddToChunkLRUList p (snd q) ?s1) else Some (Inr ?s1)) = Some (Inr s2)"
    "cache_inv files s2 R ?L {} {} cs2 ms2" "dkept s s2" "set (cs2 Invalid) \<subseteq> set (cs Invalid)"
    "\<forall>x\<in>#?L. rir_data (rinfo (ces s2) x) = rir_data (rinfo (ces s) x)" "within_limit s \<longrightarrow> within_limit s2"
  proof (cases "q \<in># ?L")
    case True
    then have "1 \<le> rir_numRefs (rinfo (ces ?s1) q)" unfolding r1(1) by (simp add: Suc_le_eq del: count_diff)
    moreover have "dkept s ?s1" by (simp add: dkept_def)
    moreover have "within_limit s \<longrightarrow> within_limit ?s1" by (simp add: within_limit_def)
    ultimately show ?thesis using that [OF _ i1 [unfolded if_P [OF True]]] d1 by simp
  next
    case False
    then have z: "rir_numRefs (rinfo (ces ?s1) q) = 0" unfolding r1(1) by (simp only: not_in_iff)
    have dm: "q \<in> mapped ?s1" using d m1 by simp
    obtain s2 where s2: "push_chunk p (snd q) ?s1 = Inr s2" "cache_inv files s2 R ?L {} {} cs (q # ms)" "same_table ?s1 s2"
      "\<forall>x. x \<noteq> q \<longrightarrow> rinfo (ces s2) x = rinfo (ces ?s1) x" "\<not> rir_isOnMRU (rinfo (ces ?s1) q)"
      using push_inv [OF i1 [unfolded if_not_P [OF False]] dm False] q(1) by auto
    obtain s3 cs3 ms3 where s3: "ReduceCacheIfNeeded s2 = Some (Inr s3)" "cache_inv files s3 R ?L {} {} cs3 ms3" "dkept s2 s3"
      "\<forall>x\<in>#?L. rinfo (ces s3) x = rinfo (ces s2) x" "set (cs3 Invalid) \<subseteq> set (cs Invalid)" "within_limit s3"
      using ReduceCacheIfNeeded_ok [OF s2(2)] by blast
    have "AddToChunkLRUList p (snd q) ?s1 = Some (Inr s3)"
      using s2(1,5) s3(1) v q(1) by (simp add: AddToChunkLRUList_def dc_access del: rir_at.simps)
    moreover have "rir_data (rinfo (ces s3) x) = rir_data (rinfo (ces s) x)" if "x \<in># ?L" for x
      using s3(4) s2(4) d1 that False by metis
    moreover have "dkept s ?s1" by (simp add: dkept_def)
    then have "dkept s s3" using same_table_kept [OF s2(3)] s3(3) dkept_trans by blast
    ultimately show ?thesis using that [OF _ s3(2)] z s3(5,6) by simp
  qed
  have a2: "calive (ces s2) p" using s2(2) p by (auto simp: cache_inv_def)
  obtain s3 where s3: "(if bytes div 65536 = ce_numChunks (cmeta (ces s2) p) - 1 then close_fd p s2 else Inr s2) = Inr s3" "same_struct s2 s3" "dc_now s3 = dc_now s2"
  proof (cases "bytes div 65536 = ce_numChunks (cmeta (ces s2) p) - 1")
    case True
    then show ?thesis using that close_fd_ok [OF a2] by auto
  next
    case False
    then show ?thesis using that [of s2] by (simp add: same_struct_def)
  qed
  have "DecChunkLock p bytes s = Some (Inr (True, s3))"
  proof -
    have n: "(ce_dataChunks (the (ces s p)) = None) = False" "(ce_numChunks (cmeta (ces s) p) \<le> bytes div 65536) = False" using f by auto
    have "put_rir (p, bytes div 65536) (\<lambda>x. x\<lparr>rir_numRefs := rir_numRefs x - 1\<rparr>) s = Inr ?s1" "rir_at (p, bytes div 65536) ?s1 = Inr (rir (ces ?s1) q)"
      using put_rir_valid [OF v] rir_at_valid [of ?s1 q] v by (simp_all add: q(1) del: rir_at.simps)
    then show ?thesis
      by (simp only: DecChunkLock_def Let_def sdiv_block(1) [OF b] ce_at_alive [OF ap] obind.simps ce_fields n if_False rir_fields
          s2(1) [unfolded q(1) snd_conv] ce_at_alive [OF a2] s3(1) q(1))
  qed
  moreover have "cache_inv files s3 R ?L {} {} cs2 ms2" using s2(2) inv_same_struct [OF s3(2)] by simp
  moreover have "dkept s s3" using dkept_trans [OF s2(3) same_struct_kept [OF s3(2,3)]] .
  moreover have "within_limit s3 = within_limit s2" using s3(2) by (simp add: within_limit_def same_struct_def)
  moreover have "rinfo (ces s3) = rinfo (ces s2)" using s3(2) by (simp add: same_struct_def)
  ultimately show ?thesis using s2(4-6) by auto
qed

section \<open>Reading\<close>

text \<open>The descriptor of the entry, or the one its name is opened with, shows the file.\<close>

definition maps_file :: "kernel \<Rightarrow> (string \<Rightarrow> string) \<Rightarrow> datacache \<Rightarrow> nat \<Rightarrow> bool" where
  "maps_file K files s p \<longleftrightarrow> (\<forall>off len d. k_mmap K (if ce_file_fd (cmeta (ces s) p) < 0 then k_open K (fname s p) else ce_file_fd (cmeta (ces s) p)) off len = Some d
     \<longrightarrow> d = take (nat len) (drop (nat off) (files (fname s p))))"

lemma file_entry_chunk:
  assumes e: "file_entry files e" and i: "0 \<le> i" "i < ce_numChunks e"
  shows "i * 65536 < ce_size e" "int_range (i * 65536 + 65536)"
    "take (nat (min (i * 65536 + 65536) (ce_size e) - i * 65536)) (drop (nat (i * 65536)) (files (the (ce_filename e)))) = chunk_bytes (files (the (ce_filename e))) i"
proof -
  have z: "ce_size e = int (length (files (the (ce_filename e))))" "0 < ce_size e" "ce_size e \<le> 2147418112" "ce_numChunks e = (ce_size e + 65535) div 65536"
    using e unfolding file_entry_def by blast+
  show s: "i * 65536 < ce_size e" using i z(4) by linarith
  then show "int_range (i * 65536 + 65536)" using z(3) i by (simp add: int_range_def)
  have n: "nat (i * 65536) = 65536 * nat i" using i by simp
  show "take (nat (min (i * 65536 + 65536) (ce_size e) - i * 65536)) (drop (nat (i * 65536)) (files (the (ce_filename e)))) = chunk_bytes (files (the (ce_filename e))) i"
  proof (cases "i * 65536 + 65536 \<le> ce_size e")
    case True
    then show ?thesis by (simp add: chunk_bytes_def n)
  next
    case False
    then have "length (drop (65536 * nat i) (files (the (ce_filename e)))) \<le> 65536" "nat (ce_size e - i * 65536) = length (drop (65536 * nat i) (files (the (ce_filename e))))"
      using z(1) s i by auto
    then show ?thesis using False by (simp add: chunk_bytes_def n min_def)
  qed
qed

lemma data_inv:
  assumes inv: "cache_inv files s R L {} {} cs ms" and v: "valid (ces s) q" and l: "q \<in># L" and m: "q \<notin> mapped s"
    and d: "res = chunk_bytes (files (fname s (fst q))) (snd q)"
    and s': "s' = upd_ce (fst q) (\<lambda>e. e\<lparr>ce_numChunksInMem := ce_numChunksInMem e + 1\<rparr>)
      ((upd_rir q (\<lambda>x. x\<lparr>rir_data := Some res\<rparr>) s)\<lparr>bytesInAllChunks := bytesInAllChunks s + csize s q\<rparr>)"
  shows "cache_inv files s' R L {} {} cs ms" "mapped s' = insert q (mapped s)" "dkept s s'"
proof -
  note i = inv [unfolded cache_inv_def] and fin = mapped_finite [OF inv]
  have a: "calive (ces s) (fst q)" using valid_alive [OF v] .
  have f: "rinfo (ces s') = (rinfo (ces s))(q := (rinfo (ces s) q)\<lparr>rir_data := Some res\<rparr>)" "valid (ces s') = valid (ces s)" "nchunks (ces s') = nchunks (ces s)"
    "cmeta (ces s') = (cmeta (ces s))(fst q := (cmeta (ces s) (fst q))\<lparr>ce_numChunksInMem := ce_numChunksInMem (cmeta (ces s) (fst q)) + 1\<rparr>)"
    "r_next (ces s') = r_next (ces s)" "r_prev (ces s') = r_prev (ces s)" "c_next (ces s') = c_next (ces s)" "c_prev (ces s') = c_prev (ces s)"
    "calive (ces s') = calive (ces s)" "same_conf s s'" "cbins s' = cbins s" "freeChunkMRUHead s' = freeChunkMRUHead s" "freeChunkMRUTail s' = freeChunkMRUTail s"
    "bytesInFreeChunks s' = bytesInFreeChunks s" "bytesInAllChunks s' = bytesInAllChunks s + csize s q"
    unfolding s' using v a by (simp_all, simp add: same_conf_def)
  show mp: "mapped s' = insert q (mapped s)" using v f by (auto simp: mapped_def)
  show "dkept s s'" using f(4,9,10) by (auto simp: dkept_def same_conf_def core_def)
  have g: "csize s' = csize s" "fname s' = fname s" using f(4,10) by (auto simp: csize_def fname_def fun_eq_iff same_conf_def GetRoundedChunkSize_def)
  have im: "in_mem s' p = (if p = fst q then insert (snd q) (in_mem s p) else in_mem s p)" for p by (auto simp: in_mem_def mp prod_eq_iff)
  have ni: "snd q \<notin> in_mem s (fst q)" "finite (in_mem s (fst q))" using m in_mem_finite [OF fin] by (auto simp: in_mem_def)
  have e: "entry_ok files s' R p" if "p \<in> resident cs \<union> {}" for p
  proof -
    have "entry_ok files s R p" using that i by blast
    then show ?thesis using f(3,4) im ni by (cases "p = fst q") (simp_all add: entry_ok_def Let_def)
  qed
  have c: "chunk_ok files s' L {} ms x" if "valid (ces s) x" for x
  proof -
    have "chunk_ok files s L {} ms x" using i that by blast
    then show ?thesis using l d by (cases "x = q") (auto simp: chunk_ok_def Let_def f(1) g)
  qed
  have h: "chome s' B p = chome s B p" for B p using f(4,10) g hash_same [of s' s] by (cases B) (simp_all add: same_conf_def)
  have "sum (csize s) (insert q (mapped s)) = sum (csize s) (mapped s) + csize s q" using fin m by simp
  then show "cache_inv files s' R L {} {} cs ms"
    unfolding cache_inv_def h g mp f(2) using i e c f by (simp add: table_def chunk_list_def same_conf_def)
qed

lemma ReadChunkIfNeeded_ok:
  assumes inv: "cache_inv files s R L {} {} cs ms" and b: "0 \<le> pos" and q: "q = (p, pos div 65536)" "q \<in># L" and K: "maps_file K files s p"
  shows "\<exists>err s' cs' ms'. ReadChunkIfNeeded K p pos s = Some (Inr (err, s')) \<and> cache_inv files s' R L {} {} cs' ms' \<and> dkept s s'
    \<and> set (cs' Invalid) \<subseteq> set (cs Invalid) \<and> (\<not> err \<longrightarrow> q \<in> mapped s') \<and> (\<forall>x\<in>#L. x \<in> mapped s \<longrightarrow> x \<in> mapped s')
    \<and> (within_limit s \<longrightarrow> within_limit s')"
proof -
  note i = inv [unfolded cache_inv_def]
  have p: "p \<in># R" and v: "valid (ces s) q" using i q by auto
  have pr: "p \<in> resident cs" and ap: "calive (ces s) p" and en: "entry_ok files s R p" using i p by auto
  have fe: "file_entry files (cmeta (ces s) p)" and nz: "ce_size (cmeta (ces s) p) \<noteq> 0" using en by (auto simp: entry_ok_def Let_def file_entry_def)
  have sq: "0 \<le> snd q" "snd q < ce_numChunks (cmeta (ces s) p)" using valid_entry(3,4) [OF inv v] q(1) by simp_all
  note fc = file_entry_chunk [OF fe sq]
  have r: "ReadChunkIfNeeded K p pos s = (if q \<in> mapped s then Some (Inr (False, s)) else DoChunkRead K p (snd q) s)"
    using ap nz v by (simp add: ReadChunkIfNeeded_def Let_def sdiv_block [OF b] dc_access q(1) mapped_def del: rir_at.simps)
  show ?thesis
  proof (cases "q \<in> mapped s")
    case True
    then show ?thesis using r inv by auto
  next
    case False
    let ?fd = "if ce_file_fd (cmeta (ces s) p) < 0 then k_open K (fname s p) else ce_file_fd (cmeta (ces s) p)"
    define s1 where "s1 = (if ce_file_fd (cmeta (ces s) p) < 0 then upd_ce p (\<lambda>e. e\<lparr>ce_file_fd := k_open K (fname s p)\<rparr>) s else s)"
    have f1: "same_struct s s1" "dc_now s1 = dc_now s" "ce_file_fd (cmeta (ces s1) p) = ?fd" using ap by (auto simp: s1_def same_struct_def noise_def)
    have i1: "cache_inv files s1 R L {} {} cs ms" using inv inv_same_struct [OF f1(1)] by simp
    have v1: "valid (ces s1) q" and m1: "q \<notin> mapped s1" and w1: "within_limit s1 = within_limit s" and k1: "dkept s s1" and mm: "mapped s1 = mapped s"
      using v False f1 same_valid [of s1 s] same_struct_kept [OF f1(1,2)] by (auto simp: same_struct_def mapped_def within_limit_def)
    have a1: "calive (ces s1) p" and n1: "fname s1 p = fname s p" "cmeta (ces s1) p = (cmeta (ces s) p)\<lparr>ce_file_fd := ?fd\<rparr>"
      using ap by (auto simp: s1_def fname_def)
    have open_ok: "(if ce_file_fd (cmeta (ces s) p) < 0 then (case ce_filename (cmeta (ces s) p) of None \<Rightarrow> Inl NullDeref
        | Some name \<Rightarrow> put_ce p (\<lambda>e. e\<lparr>ce_file_fd := k_open K name\<rparr>) s) else Inr s) = Inr s1"
      using fe ap by (auto simp: s1_def ce_fields put_ce_alive fname_def file_entry_def)
    let ?z = "min (snd q * 65536 + 65536) (ce_size (cmeta (ces s) p)) - snd q * 65536"
    have D: "DoChunkRead K p (snd q) s = (if ?fd < 0 then Some (Inr (True, s1)) else
       (case k_mmap K ?fd (snd q * 65536) ?z of
          None \<Rightarrow> Some (Inr (True, s1))
        | Some res \<Rightarrow> obind (ReduceCacheIfNeeded (upd_ce p (\<lambda>e. e\<lparr>ce_numChunksInMem := ce_numChunksInMem e + 1\<rparr>)
            ((upd_rir q (\<lambda>x. x\<lparr>rir_data := Some res\<rparr>) s1)\<lparr>bytesInAllChunks := bytesInAllChunks s1 + csize s1 q\<rparr>))) (\<lambda>s4. Some (Inr (False, s4)))))"
    proof -
      have ic: "int_chk (snd q * 65536 + 65536) = Inr (snd q * 65536 + 65536)" using fc by (simp add: int_chk_def)
      have pr: "put_rir (p, snd q) f s1 = Inr (upd_rir q f s1)" for f using put_rir_valid [OF v1, of f] q(1) by simp
      have ps: "csize s1 q = GetRoundedChunkSize (systemPageSize s1) (cmeta (ces s1) p) (snd q)" using q(1) by (simp add: csize_def)
      show ?thesis
        unfolding DoChunkRead_def ce_at_alive [OF ap] obind.simps ic Let_def ce_fields open_ok ce_at_alive [OF a1] f1(3) pr ps rounded_meta
        using a1 by (simp add: put_ce_alive split: option.split)
    qed
    show ?thesis
    proof (cases "?fd < 0 \<or> k_mmap K ?fd (snd q * 65536) ?z = None")
      case True
      then have "DoChunkRead K p (snd q) s = Some (Inr (True, s1))" using D by auto
      then show ?thesis using r False i1 k1 w1 mm by auto
    next
      case ok: False
      then obtain res where res: "k_mmap K ?fd (snd q * 65536) ?z = Some res" "\<not> ?fd < 0" by auto
      have "res = take (nat ?z) (drop (nat (snd q * 65536)) (files (fname s p)))" using K res(1) unfolding maps_file_def by blast
      also have "\<dots> = chunk_bytes (files (fname s p)) (snd q)" using fc(3) by (simp add: fname_def)
      finally have rs: "res = chunk_bytes (files (fname s1 (fst q))) (snd q)" using n1 q(1) by simp
      let ?s3 = "upd_ce (fst q) (\<lambda>e. e\<lparr>ce_numChunksInMem := ce_numChunksInMem e + 1\<rparr>)
            ((upd_rir q (\<lambda>x. x\<lparr>rir_data := Some res\<rparr>) s1)\<lparr>bytesInAllChunks := bytesInAllChunks s1 + csize s1 q\<rparr>)"
      note dat = data_inv [OF i1 v1 q(2) m1 rs refl]
      obtain s4 cs4 ms4 where s4: "ReduceCacheIfNeeded ?s3 = Some (Inr s4)" "cache_inv files s4 R L {} {} cs4 ms4" "dkept ?s3 s4"
        "\<forall>x\<in>#L. rinfo (ces s4) x = rinfo (ces ?s3) x" "set (cs4 Invalid) \<subseteq> set (cs Invalid)" "within_limit s4"
        using ReduceCacheIfNeeded_ok [OF dat(1)] by blast
      have "x \<in> mapped s4" if "x \<in># L" "x \<in> mapped ?s3" for x
        using s4(2,4) that unfolding cache_inv_def mapped_def by auto
      then have mp: "q \<in> mapped s4" "\<forall>x\<in>#L. x \<in> mapped s \<longrightarrow> x \<in> mapped s4" using dat(2) q(2) mm by auto
      have "ReadChunkIfNeeded K p pos s = Some (Inr (False, s4))" using r False D res s4(1) q(1) by simp
      then show ?thesis using s4(2,5,6) mp dkept_trans [OF k1 dkept_trans [OF dat(3) s4(3)]] by auto
    qed
  qed
qed

end
