(* ===== verification/Flash_Datacache_Table.thy ===== *)
theory Flash_Datacache_Table
  imports Flash_Datacache_Run
begin

text \<open>
  The data cache of flash, continued: entries are looked up, taken out of the table when their file
  has changed, added and released.
\<close>

section \<open>Sizes\<close>

definition page_ok :: "datacache \<Rightarrow> bool" where
  "page_ok s \<longleftrightarrow> (\<exists>k. systemPageSize s = 2 ^ k)"

text \<open>Sizes are rounded up to whole pages.\<close>

lemma rounded_size:
  assumes "0 \<le> z"
  shows "(z + (2 ^ k - 1)) - ((z + (2 ^ k - 1)) AND (2 ^ k - 1)) = (z + (2 ^ k - 1)) div 2 ^ k * (2 ^ k :: int)"
proof -
  have "(z + (2 ^ k - 1)) AND (2 ^ k - 1) = (z + (2 ^ k - 1)) mod (2 ^ k :: int)"
    using take_bit_eq_mask [of k "z + (2 ^ k - 1) :: int"] by (simp add: take_bit_eq_mod mask_eq_exp_minus_1)
  then show ?thesis using div_mult_mod_eq [of "z + (2 ^ k - 1)" "2 ^ k :: int"] by linarith
qed

lemma GetRoundedChunkSize_nonneg:
  assumes "0 \<le> ce_size e"
  shows "0 \<le> GetRoundedChunkSize (2 ^ k) e i"
proof -
  have "0 \<le> (z + (2 ^ k - 1)) div 2 ^ k * (2 ^ k :: int)" if "0 \<le> z" for z :: int
  proof -
    have "1 \<le> (2 :: int) ^ k" by simp
    then show ?thesis using that by (simp add: pos_imp_zdiv_nonneg_iff)
  qed
  then show ?thesis using assms by (simp add: GetRoundedChunkSize_def Let_def rounded_size signed_modulo_int_def sgn_if)
qed

lemma csize_nonneg:
  assumes inv: "cache_inv files s R L X N cs ms" and "page_ok s" and v: "valid (ces s) q"
  shows "0 \<le> csize s q"
proof -
  have "file_entry files (cmeta (ces s) (fst q))" using valid_entry(2) [OF inv v] by (simp add: entry_ok_def Let_def)
  then have "0 \<le> ce_size (cmeta (ces s) (fst q))" by (auto simp: file_entry_def)
  then show ?thesis using assms(2) GetRoundedChunkSize_nonneg by (auto simp: page_ok_def csize_def)
qed

lemma core_csize: "dkept s s' \<Longrightarrow> valid (ces s') q \<Longrightarrow> csize s' q = csize s q"
proof -
  assume k: "dkept s s'" and v: "valid (ces s') q"
  have "core (cmeta (ces s') (fst q)) = core (cmeta (ces s) (fst q))" using k valid_alive [OF v] by (simp add: dkept_def)
  from core_fields(7) [OF this] show ?thesis using k by (simp add: csize_def dkept_def)
qed

text \<open>Fewer chunks keep the limit.\<close>

lemma within_limit_shrink:
  assumes inv: "cache_inv files s R L X N cs ms" and inv': "cache_inv files s' R' L' X' N' cs' ms'" and k: "dkept s s'" and pg: "page_ok s"
    and m: "mapped s' \<subseteq> mapped s" and l: "set ms' \<subseteq> set ms"
  shows "within_limit s \<longrightarrow> within_limit s'"
proof -
  have v: "q \<in> mapped s' \<Longrightarrow> valid (ces s') q" "q \<in> mapped s \<Longrightarrow> valid (ces s) q" for q by (simp_all add: mapped_def)
  have "sum (csize s') (mapped s') = sum (csize s) (mapped s')" by (rule sum.cong) (use core_csize [OF k] v in auto)
  also have "\<dots> \<le> sum (csize s) (mapped s)" using mapped_finite [OF inv] m csize_nonneg [OF inv pg] v by (intro sum_mono2) auto
  finally have a: "bytesInAllChunks s' \<le> bytesInAllChunks s" using inv inv' by (simp add: cache_inv_def)
  have w: "q \<in> set ms' \<Longrightarrow> valid (ces s') q" "q \<in> set ms \<Longrightarrow> valid (ces s) q" for q using inv_on_list(1) [OF inv'] inv_on_list(1) [OF inv] by auto
  have d: "distinct ms" "distinct ms'" using inv_chunk_list_distinct [OF inv] inv_chunk_list_distinct [OF inv'] by auto
  have "sum (csize s') (set ms') = sum (csize s) (set ms')" by (rule sum.cong) (use core_csize [OF k] w in auto)
  also have "\<dots> \<le> sum (csize s) (set ms)" using l csize_nonneg [OF inv pg] w by (intro sum_mono2) auto
  finally have "bytesInFreeChunks s' \<le> bytesInFreeChunks s" using inv inv' d by (simp add: cache_inv_def sum_list_distinct_conv_sum_set)
  with a k show ?thesis by (auto simp: within_limit_def dkept_def)
qed

text \<open>What is kept of the entries and chunks that are left.\<close>

lemma mapped_sub:
  assumes inv: "cache_inv files s R L X N cs ms" and inv': "cache_inv files s' R' L' X' N' cs' ms'" and k: "dkept s s'"
    and r: "\<And>x. calive (ces s') (fst x) \<Longrightarrow> rir_data (rinfo (ces s') x) = rir_data (rinfo (ces s) x)"
  shows "mapped s' \<subseteq> mapped s"
proof
  fix q assume q: "q \<in> mapped s'"
  then have v: "valid (ces s') q" by (simp add: mapped_def)
  have a: "calive (ces s') (fst q)" using valid_alive [OF v] .
  then have c: "calive (ces s) (fst q)" "core (cmeta (ces s') (fst q)) = core (cmeta (ces s) (fst q))" using k by (simp_all add: dkept_def)
  have "entry_ok files s R (fst q)" using inv c(1) unfolding cache_inv_def by blast
  then have "valid (ces s) q" using valid_entry(3,4) [OF inv' v] core_fields(3) [OF c(2)] by (simp add: entry_ok_def Let_def valid_def)
  then show "q \<in> mapped s" using q r [OF a] by (simp add: mapped_def)
qed

section \<open>Moving an entry\<close>

lemma refs_inv:
  assumes inv: "cache_inv files s R L X N cs ms" and p: "p \<in> resident cs" and c: "\<And>x. x \<noteq> p \<Longrightarrow> count R' x = count R x"
    and l: "\<forall>q\<in>#L. fst q \<in># R'" and s': "s' = upd_ce p (\<lambda>e. e\<lparr>ce_numRefs := int (count R' p)\<rparr>) s"
  shows "cache_inv files s' R' L X N cs ms" "dkept s s'" "rinfo (ces s') = rinfo (ces s)" "within_limit s' = within_limit s"
    "cmeta (ces s') = (cmeta (ces s))(p := (cmeta (ces s) p)\<lparr>ce_numRefs := int (count R' p)\<rparr>)" "same_conf s s'" "cbins s' = cbins s"
proof -
  note i = inv [unfolded cache_inv_def]
  have a: "calive (ces s) p" using i p by blast
  have f: "rinfo (ces s') = rinfo (ces s)" "valid (ces s') = valid (ces s)" "nchunks (ces s') = nchunks (ces s)" "r_next (ces s') = r_next (ces s)"
    "r_prev (ces s') = r_prev (ces s)" "c_next (ces s') = c_next (ces s)" "c_prev (ces s') = c_prev (ces s)" "calive (ces s') = calive (ces s)"
    "cmeta (ces s') = (cmeta (ces s))(p := (cmeta (ces s) p)\<lparr>ce_numRefs := int (count R' p)\<rparr>)"
    "freeChunkMRUHead s' = freeChunkMRUHead s" "freeChunkMRUTail s' = freeChunkMRUTail s" "bytesInFreeChunks s' = bytesInFreeChunks s"
    "bytesInAllChunks s' = bytesInAllChunks s" "maxLRUCacheSizeBytes s' = maxLRUCacheSizeBytes s"
    unfolding s' using a upd_ce_meta [of s p "\<lambda>e. e\<lparr>ce_numRefs := int (count R' p)\<rparr>"] by simp_all
  show "rinfo (ces s') = rinfo (ces s)" "cmeta (ces s') = (cmeta (ces s))(p := (cmeta (ces s) p)\<lparr>ce_numRefs := int (count R' p)\<rparr>)"
    "within_limit s' = within_limit s" using f by (simp_all add: within_limit_def)
  show cf: "same_conf s s'" "cbins s' = cbins s" by (simp_all add: s')
  show "dkept s s'" using f cf by (auto simp: dkept_def core_def same_conf_def)
  have g: "csize s' = csize s" "fname s' = fname s" "mapped s' = mapped s" using f cf
    by (auto simp: csize_def fname_def mapped_def fun_eq_iff same_conf_def GetRoundedChunkSize_def)
  have im: "in_mem s' = in_mem s" by (simp add: in_mem_def g fun_eq_iff)
  have e: "entry_ok files s' R' x" if "x \<in> resident cs \<union> N" for x
  proof -
    have "entry_ok files s R x" using i that by blast
    then show ?thesis using f c im by (cases "x = p") (simp_all add: entry_ok_def Let_def)
  qed
  have h: "chome s' B x = chome s B x" for B x using f cf g hash_same [of s' s] by (cases B) (simp_all add: same_conf_def)
  have k: "chunk_ok files s' L X ms q = chunk_ok files s L X ms q" for q using f g by (simp add: chunk_ok_def)
  have "set_mset R' \<subseteq> resident cs" using i p c by (metis count_greater_zero_iff subsetD subsetI)
  then show "cache_inv files s' R' L X N cs ms"
    unfolding cache_inv_def h k g f(2) using i e f cf l by (simp add: table_def chunk_list_def same_conf_def)
qed

lemma table_inv:
  assumes inv: "cache_inv files s R L X N cs ms" and s: "same_chunks s s'" and t: "table s' cs'" "resident cs' = resident cs"
    and h: "\<And>B x. x \<in> set (cs' B) \<Longrightarrow> chome s B x"
  shows "cache_inv files s' R L X N cs' ms" "dkept s s'"
proof -
  note i = inv [unfolded cache_inv_def] and sc = s [unfolded same_chunks_def]
  have v: "valid (ces s') = valid (ces s)" using sc same_valid by blast
  have g: "csize s' = csize s" "fname s' = fname s" "mapped s' = mapped s" using sc v by (auto simp: csize_def fname_def mapped_def same_conf_def)
  have im: "in_mem s' = in_mem s" by (simp add: in_mem_def g fun_eq_iff)
  have e: "entry_ok files s' R x = entry_ok files s R x" "chunk_ok files s' L X ms q = chunk_ok files s L X ms q" "chome s' C x = chome s C x" for x q C
    using sc g im hash_same [of s' s] by (simp_all add: entry_ok_def chunk_ok_def same_conf_def) (cases C; simp)
  show "cache_inv files s' R L X N cs' ms"
    unfolding cache_inv_def e g v t(2) using i t(1) sc h by (simp add: chunk_list_def v same_conf_def)
  show "dkept s s'" using sc by (simp add: dkept_def same_conf_def)
qed

lemma same_chunks_trans: "same_chunks s t \<Longrightarrow> same_chunks t u \<Longrightarrow> same_chunks s u"
  by (simp add: same_chunks_def same_conf_def)

lemma move_ce:
  assumes t: "table s cs" and p: "p \<in> set (cs B)"
  defines "c \<equiv> cs(B := remove1 p (cs B))"
  shows "\<exists>s'. rbind (unlink_ce p s) (push_ce p C) = Inr s' \<and> same_chunks s s' \<and> table s' (c(C := p # c C)) \<and> resident (c(C := p # c C)) = resident cs"
proof -
  let ?u = "dct.unlinked p s"
  note ch = t [unfolded table_def]
  have tu: "table ?u c" using table_unlinked [OF t p] by (simp add: c_def)
  have rc: "resident c = resident cs - {p}" using chains_resident(1) [OF ch p] by (simp add: c_def)
  have a: "calive (ces ?u) p" using chains_alive [OF ch p] unlinked_chunks [of s p] by (simp add: same_chunks_def)
  have np: "p \<notin> resident c" using rc by simp
  have "rbind (unlink_ce p s) (push_ce p C) = Inr (dct.pushed p C ?u)" using unlink_ce_ok [OF t p] push_ce_ok [OF tu a np] by simp
  moreover have "same_chunks s (dct.pushed p C ?u)" using same_chunks_trans [OF unlinked_chunks pushed_chunks] .
  moreover have "table (dct.pushed p C ?u) (c(C := p # c C))" using table_pushed [OF tu a np] .
  moreover have "resident (c(C := p # c C)) = resident cs"
    using chains_resident(2) [OF tu [unfolded table_def], of C p] rc p residentI [of p cs B] by auto
  ultimately show ?thesis by blast
qed

section \<open>Lookup\<close>

text \<open>What every operation promises: the invariant for the references and locks it leaves, the data of
  locked chunks stays, and so does the limit.\<close>

definition keeps ::
  "(string \<Rightarrow> string) \<Rightarrow> datacache \<Rightarrow> rir_ptr multiset \<Rightarrow> datacache \<Rightarrow> nat multiset \<Rightarrow> rir_ptr multiset \<Rightarrow> (cbin \<Rightarrow> nat list) \<Rightarrow> bool" where
  "keeps files s L s' R' L' cs' \<longleftrightarrow> (\<exists>ms'. cache_inv files s' R' L' {} {} cs' ms') \<and> dkept s s'
     \<and> (\<forall>x. x \<in># L \<and> x \<in># L' \<and> x \<in> mapped s \<longrightarrow> x \<in> mapped s') \<and> (within_limit s \<longrightarrow> within_limit s')"

lemma keeps_inv: "keeps files s L s' R' L' cs' \<Longrightarrow> \<exists>ms'. cache_inv files s' R' L' {} {} cs' ms'"
  by (simp add: keeps_def)

lemma keeps_struct:
  assumes "cache_inv files s R L {} {} cs ms" and "same_struct s s'" and "dc_now s' = dc_now s"
  shows "keeps files s L s' R L cs"
proof -
  have "mapped s' = mapped s" "within_limit s' = within_limit s"
    using assms(2) same_valid [of s' s] by (auto simp: same_struct_def mapped_def within_limit_def)
  then show ?thesis using assms inv_same_struct [OF assms(2)] same_struct_kept [OF assms(2,3)] by (auto simp: keeps_def)
qed

lemma KillEntry_keeps:
  assumes inv: "cache_inv files s R L {} {} cs ms" and pg: "page_ok s" and p: "p \<in> set (cs B)" and r: "p \<notin># R"
  shows "\<exists>s'. KillEntry p s = Inr s' \<and> keeps files s L s' R L (cs(B := remove1 p (cs B)))"
proof -
  obtain s' where s': "KillEntry p s = Inr s'" "cache_inv files s' R L {} {} (cs(B := remove1 p (cs B))) (filter (\<lambda>q. fst q \<noteq> p) ms)" "dkept s s'"
    "\<forall>x. fst x \<noteq> p \<longrightarrow> rinfo (ces s') x = rinfo (ces s) x" using KillEntry_ok [OF inv p r] by blast
  have "table s cs" using inv by (simp add: cache_inv_def)
  then have "resident (cs(B := remove1 p (cs B))) = resident cs - {p}" using chains_resident(1) [of _ _ _ _ cs p B] p by (simp add: table_def)
  then have d: "\<not> calive (ces s') p" using s'(2) unfolding cache_inv_def by blast
  then have "rir_data (rinfo (ces s') x) = rir_data (rinfo (ces s) x)" if "calive (ces s') (fst x)" for x using s'(4) that by (cases "fst x = p") auto
  then have m: "mapped s' \<subseteq> mapped s" by (rule mapped_sub [OF inv s'(2,3)])
  have "x \<in> mapped s'" if "x \<in># L" "x \<in> mapped s" for x
  proof -
    have "valid (ces s') x" using s'(2) that(1) unfolding cache_inv_def by blast
    moreover have "fst x \<noteq> p" using inv r that(1) unfolding cache_inv_def by blast
    ultimately show ?thesis using s'(4) that(2) by (simp add: mapped_def)
  qed
  then show ?thesis using s'(1-3) within_limit_shrink [OF inv s'(2,3) pg m] by (auto simp: keeps_def)
qed

lemma MakeEntryInvalid_ok:
  assumes inv: "cache_inv files s R L {} {} cs ms" and pg: "page_ok s" and p: "p \<in> set (cs (Bin b))" and iv: "set (cs Invalid) \<subseteq> set_mset R"
  shows "\<exists>s' cs'. MakeEntryInvalid p s = Inr s' \<and> keeps files s L s' R L cs' \<and> set (cs' Invalid) \<subseteq> set_mset R"
proof -
  note i = inv [unfolded cache_inv_def]
  have pr: "p \<in> resident cs" using residentI [of p cs "Bin b"] p by simp
  then have ap: "calive (ces s) p" and en: "entry_ok files s R p" using i by auto
  show ?thesis
  proof (cases "p \<in># R")
    case False
    then have "MakeEntryInvalid p s = KillEntry p s" using ap en by (simp add: MakeEntryInvalid_def dc_access entry_ok_def Let_def not_in_iff)
    then show ?thesis using KillEntry_keeps [OF inv pg p False] iv by (metis fun_upd_other cbin.distinct(1))
  next
    case True
    let ?c = "cs(Bin b := remove1 p (cs (Bin b)))" let ?c' = "?c(Invalid := p # ?c Invalid)"
    have t: "table s cs" using i by blast
    obtain s1 where s1: "rbind (unlink_ce p s) (push_ce p Invalid) = Inr s1" "same_chunks s s1" "table s1 ?c'" "resident ?c' = resident cs"
      using move_ce [OF t p, of Invalid] by blast
    define s2 where "s2 = upd_ce p (\<lambda>e. e\<lparr>ce_isInvalid := True\<rparr>) s1"
    note sc = s1(2) [unfolded same_chunks_def]
    have a1: "calive (ces s1) p" using ap sc by simp
    have f: "rinfo (ces s2) = rinfo (ces s)" "valid (ces s2) = valid (ces s)" "nchunks (ces s2) = nchunks (ces s)" "r_next (ces s2) = r_next (ces s)"
      "r_prev (ces s2) = r_prev (ces s)" "c_next (ces s2) = c_next (ces s1)" "c_prev (ces s2) = c_prev (ces s1)" "calive (ces s2) = calive (ces s)"
      "cmeta (ces s2) = (cmeta (ces s))(p := (cmeta (ces s) p)\<lparr>ce_isInvalid := True\<rparr>)" "same_conf s s2" "cbins s2 = cbins s1"
      "freeChunkMRUHead s2 = freeChunkMRUHead s" "freeChunkMRUTail s2 = freeChunkMRUTail s" "bytesInFreeChunks s2 = bytesInFreeChunks s"
      "bytesInAllChunks s2 = bytesInAllChunks s"
      unfolding s2_def using a1 sc same_valid [of s1 s] by simp_all
    have g: "csize s2 = csize s" "fname s2 = fname s" "mapped s2 = mapped s" using f
      by (auto simp: csize_def fname_def mapped_def fun_eq_iff same_conf_def GetRoundedChunkSize_def)
    have im: "in_mem s2 = in_mem s" by (simp add: in_mem_def g fun_eq_iff)
    have e: "entry_ok files s2 R x = entry_ok files s R x" "chunk_ok files s2 L X ms q = chunk_ok files s L X ms q" for x q X
      using f g im by (simp_all add: entry_ok_def chunk_ok_def Let_def)
    have h: "chome s2 B x" if "x \<in> set (?c' B)" for B x
    proof -
      have d: "distinct (cs (Bin b))" "\<And>B. B \<noteq> Bin b \<Longrightarrow> p \<notin> set (cs B)" using t p unfolding table_def chains_def by blast+
      have "x = p \<and> B = Invalid \<or> x \<noteq> p \<and> x \<in> set (cs B)" using that d by (cases B) (auto split: if_splits)
      then have "x = p \<and> B = Invalid \<or> x \<noteq> p \<and> chome s B x" using i by blast
      then show ?thesis using f g hash_same [of s2 s] by (cases B) (auto simp: same_conf_def)
    qed
    have "cache_inv files s2 R L {} {} ?c' ms"
      unfolding cache_inv_def e g f(2) s1(4) using i f s1(3) sc h by (simp add: table_def chunk_list_def same_conf_def)
    moreover have "dkept s s2" using f by (auto simp: dkept_def core_def same_conf_def)
    moreover have "within_limit s2 = within_limit s" using f by (simp add: within_limit_def same_conf_def)
    ultimately have "keeps files s L s2 R L ?c'" using g by (auto simp: keeps_def)
    moreover have "MakeEntryInvalid p s = Inr s2"
    proof -
      have "MakeEntryInvalid p s = rbind (rbind (unlink_ce p s) (push_ce p Invalid)) (put_ce p (\<lambda>e. e\<lparr>ce_isInvalid := True\<rparr>))"
        using True ap en by (simp add: MakeEntryInvalid_def dc_access entry_ok_def Let_def rbind_assoc count_eq_zero_iff)
      then show ?thesis using s1(1) a1 by (simp add: s2_def put_ce_alive)
    qed
    moreover have "set (?c' Invalid) \<subseteq> set_mset R" using iv True by simp
    ultimately show ?thesis by blast
  qed
qed

lemma keeps_trans:
  assumes "keeps files s L t R1 L1 c1" and "keeps files t L1 u R2 L2 c2" and "\<And>x. x \<in># L \<Longrightarrow> x \<in># L2 \<Longrightarrow> x \<in># L1"
  shows "keeps files s L u R2 L2 c2"
  using assms dkept_trans unfolding keeps_def by blast

lemma stats_same [simp]:
  "same_struct s (s\<lparr>cs_numDataCacheChecks := a\<rparr>)" "same_struct s (s\<lparr>cs_numDataCacheHits := a\<rparr>)" "same_struct s (add_cwalks n s)"
  "dc_now (add_cwalks n s) = dc_now s"
  by (simp_all add: same_struct_def add_cwalks_def)

lemma fname_kept: "dkept s s' \<Longrightarrow> calive (ces s') p \<Longrightarrow> fname s' p = fname s p"
  unfolding dkept_def fname_def by (metis core_fields(1))

definition held_ce :: "nat option \<Rightarrow> nat multiset \<Rightarrow> nat multiset" where
  "held_ce r R = (case r of None \<Rightarrow> R | Some p \<Rightarrow> add_mset p R)"

text \<open>An entry that has to be validated, and is not.\<close>

definition stale :: "kernel \<Rightarrow> datacache \<Rightarrow> nat \<Rightarrow> bool" where
  "stale K s p \<longleftrightarrow> dc_now s - ce_lastValidation (cmeta (ces s) p) > FILECACHEVALIDATETIME \<and> k_stat K (fname s p) \<noteq> Some (ce_modTime (cmeta (ces s) p))"

lemma use_ce_ok:
  assumes inv: "cache_inv files s R L {} {} cs ms" and pg: "page_ok s" and p: "p \<in> set (cs (Bin b))" and iv: "set (cs Invalid) \<subseteq> set_mset R"
  shows "\<exists>s' cs'. use_ce K p (fname s p) (Bin b) n s = Inr (if stale K s p then None else Some p, s')
    \<and> keeps files s L s' (held_ce (if stale K s p then None else Some p) R) L cs' \<and> set (cs' Invalid) \<subseteq> set_mset R"
proof -
  note i = inv [unfolded cache_inv_def]
  have pr: "p \<in> resident cs" using residentI [of p cs "Bin b"] p by simp
  then have ap: "calive (ces s) p" and en: "entry_ok files s R p" using i by auto
  show ?thesis
  proof (cases "stale K s p")
    case True
    obtain s1 cs1 where s1: "MakeEntryInvalid p s = Inr s1" "keeps files s L s1 R L cs1" "set (cs1 Invalid) \<subseteq> set_mset R"
      using MakeEntryInvalid_ok [OF inv pg p iv] by blast
    obtain ms1 where "cache_inv files s1 R L {} {} cs1 ms1" using keeps_inv [OF s1(2)] by blast
    then have "keeps files s1 L (add_cwalks n s1) R L cs1" by (rule keeps_struct) simp_all
    then have "keeps files s L (add_cwalks n s1) R L cs1" using keeps_trans [OF s1(2)] by blast
    then show ?thesis using True s1(1,3) ap by (auto simp: use_ce_def dc_access stale_def held_ce_def)
  next
    case False
    define s1 where "s1 = (if dc_now s - ce_lastValidation (cmeta (ces s) p) > 300 then upd_ce p (\<lambda>e. e\<lparr>ce_lastValidation := dc_now s\<rparr>) s else s)"
    have st1: "same_struct s s1" "dc_now s1 = dc_now s" using ap by (auto simp: s1_def same_struct_def noise_def)
    have i1: "cache_inv files s1 R L {} {} cs ms" using inv inv_same_struct [OF st1(1)] by simp
    have a1: "calive (ces s1) p" and e1: "entry_ok files s1 R p" using i1 pr by (auto simp: cache_inv_def)
    let ?R = "add_mset p R" let ?s2 = "upd_ce p (\<lambda>e. e\<lparr>ce_numRefs := int (count ?R p)\<rparr>) s1"
    have u2: "put_ce p (\<lambda>e. e\<lparr>ce_numRefs := ce_numRefs e + 1\<rparr>) s1 = Inr ?s2"
    proof -
      have "ce_numRefs (the (ces s1 p)) + 1 = int (count ?R p)" using e1 by (simp add: ce_fields entry_ok_def Let_def)
      then show ?thesis using a1 by (auto simp: put_ce_alive upd_ce_def calive_def simp del: count_add_mset)
    qed
    have l2: "\<forall>q\<in>#L. fst q \<in># ?R" using i by auto
    have r2: "cache_inv files ?s2 ?R L {} {} cs ms" "dkept s1 ?s2" "rinfo (ces ?s2) = rinfo (ces s1)" "within_limit ?s2 = within_limit s1"
      by (rule refs_inv [OF i1 pr _ l2 refl], simp)+
    have k2: "keeps files s L ?s2 ?R L cs"
    proof -
      have "valid (ces ?s2) = valid (ces s1)" by simp
      then have "mapped ?s2 = mapped s1" using r2(3) by (simp only: mapped_def)
      then have "keeps files s1 L ?s2 ?R L cs" using r2 by (auto simp: keeps_def)
      then show ?thesis using keeps_trans [OF keeps_struct [OF inv st1]] by blast
    qed
    have t2: "table ?s2 cs" using r2(1) by (simp add: cache_inv_def)
    obtain s3 cs3 where s3: "(if cbins ?s2 (Bin b) = Some p then Inr ?s2 else rbind (unlink_ce p ?s2) (push_ce p (Bin b))) = Inr s3"
      "keeps files ?s2 L s3 ?R L cs3" "set (cs3 Invalid) = set (cs Invalid)"
    proof (cases "cbins ?s2 (Bin b) = Some p")
      case True
      then show ?thesis using that [of ?s2 cs] r2(1) by (auto simp: keeps_def)
    next
      case nf: False
      let ?c = "cs(Bin b := remove1 p (cs (Bin b)))" let ?c' = "?c(Bin b := p # ?c (Bin b))"
      obtain s3 where m: "rbind (unlink_ce p ?s2) (push_ce p (Bin b)) = Inr s3" "same_chunks ?s2 s3" "table s3 ?c'" "resident ?c' = resident cs"
        using move_ce [OF t2 p, of "Bin b"] by blast
      have h: "chome ?s2 B x" if x: "x \<in> set (?c' B)" for B x
      proof -
        have "x \<in> set (cs B)" using x p by (cases "B = Bin b") (auto dest: set_remove1_subset [THEN subsetD])
        then show ?thesis by (rule inv_home [OF r2(1)])
      qed
      note tb = table_inv [OF r2(1) m(2,3,4) h]
      have "mapped s3 = mapped ?s2" "within_limit s3 = within_limit ?s2"
        using m(2) same_valid [of s3 ?s2] by (auto simp: same_chunks_def mapped_def within_limit_def same_conf_def)
      then have "keeps files ?s2 L s3 ?R L ?c'" using tb by (auto simp: keeps_def)
      then show ?thesis using that [of s3 ?c'] nf m(1) by simp
    qed
    let ?s4 = "add_cwalks n (s3\<lparr>cs_numDataCacheHits := cs_numDataCacheHits s3 + 1\<rparr>)"
    obtain ms3 where i3: "cache_inv files s3 ?R L {} {} cs3 ms3" using keeps_inv [OF s3(2)] by blast
    have "same_struct s3 ?s4" "dc_now ?s4 = dc_now s3" by (simp_all add: same_struct_def add_cwalks_def)
    then have "keeps files s3 L ?s4 ?R L cs3" by (rule keeps_struct [OF i3])
    then have "keeps files s L ?s4 ?R L cs3" using keeps_trans [OF keeps_trans [OF k2 s3(2)]] by blast
    moreover have "use_ce K p (fname s p) (Bin b) n s = Inr (Some p, ?s4)"
    proof -
      have v: "(if dc_now s - ce_lastValidation (the (ces s p)) > 300 then put_ce p (\<lambda>e. e\<lparr>ce_lastValidation := dc_now s\<rparr>) s else Inr s) = Inr s1"
        using ap by (simp add: s1_def dc_access)
      have f: "(dc_now s - ce_lastValidation (the (ces s p)) > 300 \<and> k_stat K (fname s p) \<noteq> Some (ce_modTime (the (ces s p)))) = False"
        using False unfolding stale_def ce_fields by blast
      show ?thesis by (simp only: use_ce_def ce_at_alive [OF ap] rbind.simps f if_False v u2 s3(1))
    qed
    ultimately show ?thesis using False s3(3) iv by (auto simp: held_ce_def)
  qed
qed

text \<open>The walk stops at the first entry with the name, if there is one.\<close>

definition match_in :: "datacache \<Rightarrow> string \<Rightarrow> nat list \<Rightarrow> nat option" where
  "match_in s u ps = find (\<lambda>p. fname s p = u) ps"

lemma find_ce_ok:
  assumes inv: "cache_inv files s R L {} {} cs ms" and c: "cs (Bin b) = xs @ ys"
  shows "find_ce K u (Bin b) (first ys) n s = (case match_in s u ys of
      None \<Rightarrow> Some (Inr (None, add_cwalks (n + int (length ys)) s))
    | Some p \<Rightarrow> Some (use_ce K p u (Bin b) (n + int (length (takeWhile (\<lambda>x. x \<noteq> p) ys)) + 1) s))"
  using c
proof (induction ys arbitrary: xs n)
  case Nil
  then show ?case by (simp add: find_ce.simps [of _ _ _ None] match_in_def)
next
  case (Cons p ys)
  have t: "table s cs" and en: "p \<in> resident cs \<Longrightarrow> entry_ok files s R p" using inv by (auto simp: cache_inv_def)
  note l = chains_links [OF t [unfolded table_def] Cons.prems]
  have "p \<in> resident cs" using residentI [of p cs "Bin b"] Cons.prems by simp
  then have nm: "ce_filename (cmeta (ces s) p) = Some (fname s p)" using en by (auto simp: entry_ok_def Let_def file_entry_def fname_def)
  have d: "p \<notin> set ys" using t Cons.prems by (auto simp: table_def chains_def) (metis distinct_append distinct.simps(2))
  have step: "find_ce K u (Bin b) (Some p) n s = (if fname s p \<noteq> u then find_ce K u (Bin b) (first ys) (n + 1) s else Some (use_ce K p u (Bin b) (n + 1) s))"
    using l nm by (subst find_ce.simps) (simp add: dc_access)
  show ?case
  proof (cases "fname s p = u")
    case True
    then show ?thesis using step by (simp add: match_in_def)
  next
    case False
    have "match_in s u ys = Some q \<Longrightarrow> q \<noteq> p" for q using d by (auto simp: match_in_def find_Some_iff)
    then show ?thesis using False step Cons.IH [of "xs @ [p]" "n + 1"] Cons.prems
      by (cases "match_in s u ys") (simp_all add: match_in_def ac_simps)
  qed
qed

lemma CheckCache_ok:
  assumes inv: "cache_inv files s R L {} {} cs ms" and pg: "page_ok s" and iv: "set (cs Invalid) \<subseteq> set_mset R"
  shows "\<exists>r s' cs'. CheckCache K u s = Some (Inr (r, s')) \<and> keeps files s L s' (held_ce r R) L cs' \<and> set (cs' Invalid) \<subseteq> set_mset R
    \<and> r = (case match_in s u (cs (Bin (HashFilename s u))) of None \<Rightarrow> None | Some p \<Rightarrow> if stale K s p then None else Some p)"
proof -
  let ?s0 = "s\<lparr>cs_numDataCacheChecks := cs_numDataCacheChecks s + 1\<rparr>" let ?b = "HashFilename s u"
  have i0: "cache_inv files ?s0 R L {} {} cs ms" using inv inv_same_struct [OF stats_same(1)] by blast
  have p0: "page_ok ?s0" using pg by (simp add: page_ok_def)
  have n0: "fname ?s0 = fname s" "stale K ?s0 = stale K s" "HashFilename ?s0 u = ?b" by (auto simp: fname_def stale_def HashFilename_def fun_eq_iff)
  have k0: "keeps files s L ?s0 R L cs" by (rule keeps_struct [OF inv stats_same(1)]) simp
  have t: "table ?s0 cs" using i0 by (simp add: cache_inv_def)
  have h: "cbins ?s0 (Bin ?b) = first (cs (Bin ?b))" using chains_ht [OF t [unfolded table_def]] .
  have c: "CheckCache K u s = find_ce K u (Bin ?b) (first (cs (Bin ?b))) 0 ?s0"
    unfolding CheckCache_def Let_def n0(3) h ..
  have m: "match_in ?s0 u ps = match_in s u ps" for ps by (simp add: match_in_def n0)
  note f = find_ce_ok [OF i0, of ?b "[]" "cs (Bin ?b)" K u 0, simplified]
  show ?thesis
  proof (cases "match_in s u (cs (Bin ?b))")
    case None
    let ?t = "add_cwalks (int (length (cs (Bin ?b)))) ?s0"
    have "keeps files ?s0 L ?t R L cs" by (rule keeps_struct [OF i0]) simp_all
    then have "keeps files s L ?t R L cs" using keeps_trans [OF k0] by blast
    then show ?thesis using c f None m iv by (auto simp: held_ce_def)
  next
    case (Some p)
    then have p: "p \<in> set (cs (Bin ?b))" "fname s p = u" by (auto simp: match_in_def find_Some_iff)
    let ?n = "int (length (takeWhile (\<lambda>x. x \<noteq> p) (cs (Bin ?b)))) + 1"
    obtain s1 cs1 where s1: "use_ce K p u (Bin ?b) ?n ?s0 = Inr (if stale K s p then None else Some p, s1)"
      "keeps files ?s0 L s1 (held_ce (if stale K s p then None else Some p) R) L cs1" "set (cs1 Invalid) \<subseteq> set_mset R"
      using use_ce_ok [OF i0 p0 p(1) iv, of K ?n] p(2) n0 by auto
    have "keeps files s L s1 (held_ce (if stale K s p then None else Some p) R) L cs1" using keeps_trans [OF k0 s1(2)] by blast
    then show ?thesis using c f Some m s1(1,3) by auto
  qed
qed

section \<open>Release\<close>

lemma ReleaseCacheEntry_ok:
  assumes inv: "cache_inv files s R L {} {} cs ms" and pg: "page_ok s" and iv: "set (cs Invalid) \<subseteq> set_mset R" and p: "p \<in># R"
    and l: "\<forall>q\<in>#L. fst q \<in># R - {#p#}"
  shows "\<exists>s' cs'. ReleaseCacheEntry p s = Inr s' \<and> keeps files s L s' (R - {#p#}) L cs' \<and> set (cs' Invalid) \<subseteq> set_mset (R - {#p#})"
proof -
  note i = inv [unfolded cache_inv_def]
  let ?R = "R - {#p#}" let ?s1 = "upd_ce p (\<lambda>e. e\<lparr>ce_numRefs := int (count ?R p)\<rparr>) s"
  have pr: "p \<in> resident cs" using i p by blast
  then have ap: "calive (ces s) p" and en: "entry_ok files s R p" using i by auto
  have c: "ce_numRefs (cmeta (ces s) p) - 1 = int (count ?R p)" using en p by (simp add: entry_ok_def Let_def of_nat_diff Suc_le_eq)
  have u: "put_ce p (\<lambda>e. e\<lparr>ce_numRefs := ce_numRefs e - 1\<rparr>) s = Inr ?s1"
    using ap c by (auto simp: put_ce_alive upd_ce_def calive_def cmeta_def simp del: count_diff)
  have r: "cache_inv files ?s1 ?R L {} {} cs ms" "dkept s ?s1" "rinfo (ces ?s1) = rinfo (ces s)" "within_limit ?s1 = within_limit s"
    "cmeta (ces ?s1) = (cmeta (ces s))(p := (cmeta (ces s) p)\<lparr>ce_numRefs := int (count ?R p)\<rparr>)" "same_conf s ?s1"
    by (rule refs_inv [OF inv pr _ l refl], simp)+
  have "mapped ?s1 = mapped s" using upd_ce_keep(2) [of "\<lambda>e. e\<lparr>ce_numRefs := int (count ?R p)\<rparr>" p s] unfolding mapped_def r(3) by simp
  then have k1: "keeps files s L ?s1 ?R L cs" using r by (auto simp: keeps_def)
  have a1: "calive (ces ?s1) p" using ap by simp
  have rel: "ReleaseCacheEntry p s = (if int (count ?R p) < 1 then rbind (close_fd p ?s1) (\<lambda>s2. if ce_isInvalid (cmeta (ces s) p) then KillEntry p s2 else Inr s2) else Inr ?s1)"
    unfolding ReleaseCacheEntry_def u rbind.simps ce_at_alive [OF a1] ce_fields r(5) by simp
  have sub: "q \<in># ?R" if "q \<in># R" "q \<noteq> p" for q using that by (metis count_diff count_greater_zero_iff diff_zero in_diff_count count_single)
  show ?thesis
  proof (cases "p \<in># ?R")
    case True
    then have "1 \<le> int (count ?R p)" by (simp add: Suc_le_eq del: count_diff)
    moreover have "set (cs Invalid) \<subseteq> set_mset ?R" using iv sub True by blast
    ultimately show ?thesis using rel k1 by auto
  next
    case False
    then have z: "int (count ?R p) = 0" by (simp only: not_in_iff)
    obtain s2 where s2: "close_fd p ?s1 = Inr s2" "same_struct ?s1 s2" "dc_now s2 = dc_now ?s1" using close_fd_ok [OF a1] by blast
    have k2: "keeps files s L s2 ?R L cs" using keeps_trans [OF k1 keeps_struct [OF r(1) s2(2,3)]] by blast
    have i2: "cache_inv files s2 ?R L {} {} cs ms" using r(1) inv_same_struct [OF s2(2)] by simp
    obtain B where B: "p \<in> set (cs B)" using pr by (auto simp: resident_def)
    have hm: "chome s B p" using inv_home [OF inv B] .
    have dj: "p \<notin> set (cs C)" if "C \<noteq> B" for C using i B that unfolding table_def chains_def by blast
    show ?thesis
    proof (cases "ce_isInvalid (cmeta (ces s) p)")
      case True
      then have BI: "B = Invalid" using hm by (cases B) auto
      have p2: "page_ok s2" using pg k2 by (simp add: page_ok_def keeps_def dkept_def)
      obtain s3 where s3: "KillEntry p s2 = Inr s3" "keeps files s2 L s3 ?R L (cs(B := remove1 p (cs B)))" using KillEntry_keeps [OF i2 p2 B False] by blast
      have "set (remove1 p (cs Invalid)) = set (cs Invalid) - {p}" using i unfolding table_def chains_def by (simp add: set_remove1_eq)
      then have "set ((cs(B := remove1 p (cs B))) Invalid) \<subseteq> set_mset ?R" using iv sub BI by auto
      moreover have "keeps files s L s3 ?R L (cs(B := remove1 p (cs B)))" using keeps_trans [OF k2 s3(2)] by blast
      moreover have "ReleaseCacheEntry p s = Inr s3" using rel z s2(1) True s3(1) by auto
      ultimately show ?thesis by blast
    next
      case v: False
      then have "B \<noteq> Invalid" using hm by (cases B) auto
      then have "set (cs Invalid) \<subseteq> set_mset ?R" using iv sub dj [of Invalid] by auto
      then show ?thesis using rel z s2(1) v k2 by auto
    qed
  qed
qed

section \<open>New entries\<close>

text \<open>The entry that is added.\<close>

definition added :: "CacheEntry \<Rightarrow> int \<Rightarrow> CacheEntry" where
  "added e now = (let n = (ce_size e + 65535) div 65536 in
     e\<lparr>ce_numRefs := 1, ce_numChunks := n, ce_numChunksInMem := 0, ce_dataChunks := Some (replicate (nat n) zero_rir), ce_lastValidation := now\<rparr>)"

lemma new_entry:
  assumes inv: "cache_inv files s R L {} {} cs ms" and p: "\<not> calive (ces s) p" and fe: "file_entry files (added e (dc_now s))"
    and s': "s' = s\<lparr>ces := (ces s)(p \<mapsto> added e (dc_now s))\<rparr>"
  shows "table s' cs" "chunk_list s' ms" "calive (ces s') x \<longleftrightarrow> x = p \<or> calive (ces s) x" "entry_ok files s' (add_mset p R) p"
    "x \<in> resident cs \<Longrightarrow> entry_ok files s' (add_mset p R) x" "valid (ces s') q \<Longrightarrow> chunk_ok files s' L {} ms q" "q \<in># L \<Longrightarrow> valid (ces s') q"
    "mapped s' = mapped s" "x \<in> resident cs \<Longrightarrow> fname s' x = fname s x" "x \<in> resident cs \<Longrightarrow> cmeta (ces s') x = cmeta (ces s) x"
    "q \<in> mapped s \<Longrightarrow> csize s' q = csize s q" "q \<in> set ms \<Longrightarrow> csize s' q = csize s q"
proof -
  note i = inv [unfolded cache_inv_def]
  let ?e = "added e (dc_now s)"
  have np: "p \<notin> resident cs" using i p by blast
  have o: "x \<noteq> p \<Longrightarrow> cmeta (ces s') x = cmeta (ces s) x" "x \<noteq> p \<Longrightarrow> nchunks (ces s') x = nchunks (ces s) x"
    "x \<noteq> p \<Longrightarrow> c_next (ces s') x = c_next (ces s) x" "x \<noteq> p \<Longrightarrow> c_prev (ces s') x = c_prev (ces s) x" "x \<noteq> p \<Longrightarrow> fname s' x = fname s x" for x
    by (simp_all add: s' cmeta_def nchunks_def c_next_def c_prev_def fname_def)
  have n: "nchunks (ces s') p = Some (nat (ce_numChunks ?e))" "cmeta (ces s') p = ?e\<lparr>ce_nextInHash := None, ce_prevInHash := None, ce_dataChunks := None\<rparr>"
    by (simp_all add: s' nchunks_def cmeta_def added_def Let_def)
  have va: "fst q \<noteq> p \<Longrightarrow> valid (ces s') q = valid (ces s) q" for q using o by (simp add: valid_def)
  have vs: "valid (ces s) q \<Longrightarrow> fst q \<noteq> p" for q using valid_alive [of s q] p by auto
  have ri: "fst q \<noteq> p \<Longrightarrow> rir (ces s') q = rir (ces s) q" for q using va by (simp add: rir_def s')
  have rp: "rinfo (ces s') q = zero_rir" if "fst q = p" for q
    using that by (auto simp: rinfo_def rir_def s' added_def Let_def zero_rir_def valid_def nchunks_def nth_replicate)
  have rf: "fst q \<noteq> p \<Longrightarrow> rinfo (ces s') q = rinfo (ces s) q" for q using ri by (simp add: rinfo_def)
  show al: "calive (ces s') x \<longleftrightarrow> x = p \<or> calive (ces s) x" for x by (simp add: s' calive_def)
  have rs: "x \<in> resident cs \<Longrightarrow> x \<noteq> p" for x using np by blast
  show fn: "x \<in> resident cs \<Longrightarrow> fname s' x = fname s x" "x \<in> resident cs \<Longrightarrow> cmeta (ces s') x = cmeta (ces s) x" for x using rs o by auto
  have "q \<in> mapped s' \<longleftrightarrow> q \<in> mapped s" for q
    using rp [of q] rf [of q] va [of q] vs [of q] by (cases "fst q = p") (auto simp: mapped_def zero_rir_def)
  then show mp: "mapped s' = mapped s" by blast
  have im: "in_mem s' = in_mem s" by (simp add: in_mem_def mp fun_eq_iff)
  have mm: "q \<in> mapped s \<Longrightarrow> fst q \<noteq> p" "q \<in> set ms \<Longrightarrow> fst q \<noteq> p" for q using vs inv_on_list(1) [OF inv] by (auto simp: mapped_def)
  show "q \<in> mapped s \<Longrightarrow> csize s' q = csize s q" "q \<in> set ms \<Longrightarrow> csize s' q = csize s q" using mm o(1) by (simp_all add: csize_def, simp_all add: s')
  show "table s' cs" using i rs o al unfolding table_def
    by (subst chains_cong [of _ _ "c_next (ces s)" _ "c_prev (ces s)" _ "calive (ces s)"]) (auto simp: s')
  show "chunk_list s' ms" using i mm(2) va ri unfolding chunk_list_def
    by (subst dll_cong [of _ _ "r_next (ces s)" _ "r_prev (ces s)" _ "valid (ces s)"]) (auto simp: r_next_def r_prev_def, simp_all add: s')
  have "in_mem s p = {}" using mm(1) by (force simp: in_mem_def)
  moreover have "count R p = 0" using i np by (meson not_in_iff subsetD)
  moreover have "file_entry files (cmeta (ces s') p)" using fe by (simp add: n)
  ultimately show "entry_ok files s' (add_mset p R) p" using n by (simp add: entry_ok_def Let_def im added_def)
  show "x \<in> resident cs \<Longrightarrow> entry_ok files s' (add_mset p R) x"
  proof -
    assume x: "x \<in> resident cs"
    then have "entry_ok files s R x" using i by blast
    then show ?thesis using rs [OF x] o im by (simp add: entry_ok_def Let_def)
  qed
  have lp: "fst q \<noteq> p" if "q \<in># L" for q using i that np by blast
  show "q \<in># L \<Longrightarrow> valid (ces s') q" using i lp va by blast
  show "valid (ces s') q \<Longrightarrow> chunk_ok files s' L {} ms q"
  proof (cases "fst q = p")
    case True
    have "q \<notin># L" "q \<notin> set ms" using lp mm(2) True by blast+
    then show ?thesis using rp [OF True] by (simp add: chunk_ok_def Let_def zero_rir_def not_in_iff)
  next
    case False
    assume "valid (ces s') q"
    then have "chunk_ok files s L {} ms q" using i va [OF False] by blast
    then show ?thesis using rf [OF False] o(5) [OF False] by (simp add: chunk_ok_def)
  qed
qed

lemma AddEntryToDataCache_ok:
  assumes inv: "cache_inv files s R L {} {} cs ms" and p: "\<not> calive (ces s) p" and fe: "file_entry files (added e (dc_now s))" and ni: "\<not> ce_isInvalid e"
  shows "\<exists>s' cs'. AddEntryToDataCache True p (s\<lparr>ces := (ces s)(p \<mapsto> e)\<rparr>) = Inr (False, s') \<and> cache_inv files s' (add_mset p R) L {} {} cs' ms
    \<and> cs' Invalid = cs Invalid \<and> mapped s' = mapped s \<and> within_limit s' = within_limit s \<and> page_ok s' = page_ok s \<and> dc_now s' = dc_now s
    \<and> (\<forall>x. x \<noteq> p \<longrightarrow> calive (ces s') x = calive (ces s) x \<and> (calive (ces s) x \<longrightarrow> cmeta (ces s') x = cmeta (ces s) x))
    \<and> fname s' p = the (ce_filename e) \<and> core (cmeta (ces s') p) = core ((added e (dc_now s))\<lparr>ce_nextInHash := None, ce_prevInHash := None, ce_dataChunks := None\<rparr>)"
proof -
  note i = inv [unfolded cache_inv_def]
  define t where "t = s\<lparr>ces := (ces s)(p \<mapsto> added e (dc_now s))\<rparr>"
  note t = new_entry [OF inv p fe t_def]
  have np: "p \<notin> resident cs" using i p by blast
  have nm: "ce_filename e \<noteq> None" and z: "0 < ce_size e" "ce_size e \<le> 2147418112" using fe by (auto simp: file_entry_def added_def Let_def)
  let ?b = "HashFilename s (the (ce_filename e))" let ?c = "cs(Bin ?b := p # cs (Bin ?b))"
  have ap: "calive (ces t) p" using t(3) by simp
  define u where "u = dct.pushed p (Bin ?b) t"
  have pu: "push_ce p (Bin ?b) t = Inr u" using push_ce_ok [OF t(1) ap np] by (simp add: u_def)
  have tu: "table u ?c" using table_pushed [OF t(1) ap np] by (simp add: u_def)
  have sc: "same_chunks t u" using pushed_chunks by (simp add: u_def)
  note scd = sc [unfolded same_chunks_def]
  let ?s = "u\<lparr>ps_numDataCacheEntries := ps_numDataCacheEntries u + 1\<rparr>"
  have add: "AddEntryToDataCache True p (s\<lparr>ces := (ces s)(p \<mapsto> e)\<rparr>) = Inr (False, ?s)"
  proof -
    let ?n = "(ce_size e + 65535) div 65536"
    have n: "0 < ?n" "(ce_size e + 65535) sdiv 65536 = ?n" "int_chk (ce_size e + 65536 - 1) = Inr (ce_size e + 65535)"
      using z sdiv_block(1) [of "ce_size e + 65535"] by (simp_all add: pos_imp_zdiv_pos_iff int_chk_def int_range_def)
    obtain name where nm: "ce_filename e = Some name" using nm by blast
    have te: "t = s\<lparr>ces := (ces s)(p \<mapsto> e\<lparr>ce_numRefs := 1, ce_numChunks := ?n, ce_numChunksInMem := 0, ce_dataChunks := Some (replicate (nat ?n) zero_rir), ce_lastValidation := dc_now s\<rparr>)\<rparr>"
      by (simp add: t_def added_def Let_def)
    have "HashFilename (s\<lparr>ces := h\<rparr>) = HashFilename s" for h by (simp add: fun_eq_iff HashFilename_def)
    then show ?thesis using n nm pu [unfolded te]
      by (simp add: AddEntryToDataCache_def put_ce_def upd_ce_def ce_at_def Let_def)
  qed
  have r: "resident ?c = insert p (resident cs)" using chains_resident(2) [OF t(1) [unfolded table_def], of "Bin ?b" p] .
  have v: "valid (ces u) = valid (ces t)" using scd same_valid by blast
  have g: "csize ?s = csize t" "fname ?s = fname t" "mapped ?s = mapped t" using scd v by (auto simp: csize_def fname_def mapped_def same_conf_def)
  have im: "in_mem ?s = in_mem t" by (simp add: in_mem_def g fun_eq_iff)
  have eo: "entry_ok files ?s R' x = entry_ok files t R' x" "chunk_ok files ?s L {} ms q = chunk_ok files t L {} ms q" for x q R'
    using scd g im by (simp_all add: entry_ok_def chunk_ok_def)
  have fp: "fname t p = the (ce_filename e)" "cmeta (ces t) p = (added e (dc_now s))\<lparr>ce_nextInHash := None, ce_prevInHash := None, ce_dataChunks := None\<rparr>"
    by (simp_all add: t_def fname_def cmeta_def added_def Let_def)
  have cf: "same_conf s t" "bytesInAllChunks t = bytesInAllChunks s" "bytesInFreeChunks t = bytesInFreeChunks s" "cbins t = cbins s"
    by (simp_all add: t_def same_conf_def)
  have h: "chome ?s B x" if "x \<in> set (?c B)" for B x
  proof -
    have hs: "HashFilename ?s = HashFilename s" by (rule hash_same) (use scd cf in \<open>simp add: same_conf_def\<close>)
    have "x = p \<and> B = Bin ?b \<or> x \<in> set (cs B)" using that by (auto split: if_splits)
    then show ?thesis
    proof
      assume "x = p \<and> B = Bin ?b"
      then show ?thesis using hs g fp scd ni by (simp add: added_def Let_def)
    next
      assume x: "x \<in> set (cs B)"
      have "x \<in> resident cs" using residentI [of x cs B] x by simp
      then show ?thesis using inv_home [OF inv x] hs g scd t(9,10) by (cases B) simp_all
    qed
  qed
  have "sum (csize t) (mapped t) = sum (csize s) (mapped s)" unfolding t(8) using t(11) by (rule sum.cong [OF refl])
  moreover have "sum_list (map (csize t) ms) = sum_list (map (csize s) ms)" using t(12) by (metis (mono_tags, lifting) map_eq_conv)
  moreover have "card (resident ?c) = Suc (card (resident cs))" using i np r by simp
  moreover have "{x. calive (ces ?s) x} = resident ?c" using scd t(3) i r by auto
  moreover have "set_mset (add_mset p R) \<subseteq> resident ?c" using i r by auto
  moreover have "finite (resident ?c)" using i r by simp
  moreover have "table ?s ?c" using tu by (simp add: table_def)
  moreover have "chunk_list ?s ms" using t(2) scd v by (simp add: chunk_list_def)
  moreover have "\<forall>x\<in>resident ?c \<union> {}. entry_ok files ?s (add_mset p R) x" unfolding eo r using t(4,5) by blast
  moreover have "\<forall>q. valid (ces ?s) q \<longrightarrow> chunk_ok files ?s L {} ms q" unfolding eo using t(6) v by simp
  moreover have "\<forall>q\<in>#L. fst q \<in># add_mset p R \<and> valid (ces ?s) q" using t(7) v i by auto
  moreover have "bytesInAllChunks ?s = bytesInAllChunks s" "bytesInFreeChunks ?s = bytesInFreeChunks s" "ps_numDataCacheEntries ?s = ps_numDataCacheEntries s + 1"
    using scd cf by (simp_all add: same_conf_def)
  ultimately have "cache_inv files ?s (add_mset p R) L {} {} ?c ms" using i h g unfolding cache_inv_def by simp
  moreover have "within_limit ?s = within_limit s" "page_ok ?s = page_ok s" "dc_now ?s = dc_now s" using scd cf by (simp_all add: within_limit_def page_ok_def same_conf_def)
  moreover have "\<forall>x. x \<noteq> p \<longrightarrow> calive (ces ?s) x = calive (ces s) x \<and> (calive (ces s) x \<longrightarrow> cmeta (ces ?s) x = cmeta (ces s) x)"
    using scd by (simp add: t_def calive_def cmeta_def)
  moreover have "fname ?s p = the (ce_filename e)" "core (cmeta (ces ?s) p) = core ((added e (dc_now s))\<lparr>ce_nextInHash := None, ce_prevInHash := None, ce_dataChunks := None\<rparr>)"
    using g fp scd by simp_all
  ultimately show ?thesis using add g t(8) by (metis fun_upd_other cbin.distinct(1))
qed

end
