(* ===== verification/Flash_Hotfile_Correct.thy ===== *)
theory Flash_Hotfile_Correct
  imports Flash_Hotfile Flash_Datacache_Table
begin

text \<open>
  Sending a file with flash: each write sends the next bytes of the file, the lock of the connection
  moves with it, and the invariant of the data cache is kept.
\<close>

declare split_paired_All [simp del] split_paired_Ex [simp del]

section \<open>Sizes\<close>

lemma pow2_loop_range:
  assumes "k = 0 \<or> 2 ^ (k - 1) \<le> x" and "1 \<le> x"
  shows "1 \<le> pow2_loop k x \<and> pow2_loop k x \<le> x"
  using assms
proof (induction k x rule: pow2_loop.induct)
  case (1 k x)
  show ?case
  proof (cases "2 ^ k \<le> x")
    case True
    then show ?thesis using 1 by (subst (1 2) pow2_loop.simps) simp
  next
    case False
    then obtain j where "k = Suc j" using 1 by (cases k) auto
    then show ?thesis using False 1 by (subst (1 2) pow2_loop.simps) (simp add: drop_bit_Suc)
  qed
qed

lemma PowerOf2_range:
  "1 \<le> x \<Longrightarrow> 1 \<le> PowerOf2LessThanEqual x \<and> PowerOf2LessThanEqual x \<le> x" "x \<le> 0 \<Longrightarrow> PowerOf2LessThanEqual x = 0"
proof -
  show "1 \<le> x \<Longrightarrow> 1 \<le> PowerOf2LessThanEqual x \<and> PowerOf2LessThanEqual x \<le> x"
    using pow2_loop_range [of 0 x] by (simp add: PowerOf2LessThanEqual_def)
  assume x: "x \<le> 0"
  have "x AND (x - 1) \<noteq> 0" if "x < 0"
  proof -
    have "x AND (x - 1) < 0" using that by simp
    then show ?thesis by linarith
  qed
  moreover have "pow2_loop 0 x = 0" using x by (subst pow2_loop.simps) simp
  ultimately show "PowerOf2LessThanEqual x = 0" using x by (cases "x = 0") (auto simp: PowerOf2LessThanEqual_def)
qed

section \<open>The data of a write\<close>

text \<open>What is left of the chunk from a position on.\<close>

definition left_in_chunk :: "int \<Rightarrow> int \<Rightarrow> int" where
  "left_in_chunk sz pos = min sz ((pos div 65536 + 1) * 65536) - pos"

lemma chunk_arith:
  fixes i n z r :: int
  assumes "n * 65536 + r = z + 65535" and "0 \<le> r" and "r < 65536"
  shows "i = n - 1 \<Longrightarrow> z \<le> (i + 1) * 65536" and "i < n \<Longrightarrow> i \<noteq> n - 1 \<Longrightarrow> (i + 1) * 65536 \<le> z"
proof -
  show "i = n - 1 \<Longrightarrow> z \<le> (i + 1) * 65536" using assms unfolding distrib_right left_diff_distrib by linarith
  show "i < n \<Longrightarrow> i \<noteq> n - 1 \<Longrightarrow> (i + 1) * 65536 \<le> z" using assms unfolding distrib_right by linarith
qed

lemma same_chunk:
  fixes a b :: int
  assumes "b div 65536 < (b + 65535) div 65536" and "a \<le> b" and "b \<le> (a div 65536 + 1) * 65536"
  shows "a div 65536 = b div 65536"
proof -
  have "b \<noteq> (a div 65536 + 1) * 65536"
  proof
    assume b: "b = (a div 65536 + 1) * 65536"
    have "(b + 65535) div 65536 = b div 65536" unfolding b by (subst div_mult_self3) simp_all
    then show False using assms(1) by simp
  qed
  then have "b < (a div 65536 + 1) * 65536" using assms(3) by simp
  then have "b div 65536 < a div 65536 + 1" by (simp add: div_less_iff_less_mult)
  moreover have "a div 65536 \<le> b div 65536" using assms(2) by (simp add: zdiv_mono1)
  ultimately show ?thesis by simp
qed

lemma last_chunk:
  assumes "file_entry files e" and "0 \<le> pos" and "pos < ce_size e"
  shows "pos div 65536 < ce_numChunks e" "(if pos div 65536 = ce_numChunks e - 1 then ce_size e - pos else 65536 - pos mod 65536) = left_in_chunk (ce_size e) pos"
    "0 < left_in_chunk (ce_size e) pos"
proof -
  have n: "ce_numChunks e = (ce_size e + 65535) div 65536" using assms(1) unfolding file_entry_def by blast
  show l: "pos div 65536 < ce_numChunks e" using n assms by linarith
  show "(if pos div 65536 = ce_numChunks e - 1 then ce_size e - pos else 65536 - pos mod 65536) = left_in_chunk (ce_size e) pos"
  proof -
    let ?i = "pos div 65536" let ?n = "ce_numChunks e"
    have r: "0 \<le> (ce_size e + 65535) mod 65536" "(ce_size e + 65535) mod 65536 < 65536" "?n * 65536 + (ce_size e + 65535) mod 65536 = ce_size e + 65535"
      "?i * 65536 + pos mod 65536 = pos" using n by simp_all
    show ?thesis
    proof (cases "?i = ?n - 1")
      case True
      then have "ce_size e \<le> (?i + 1) * 65536" using chunk_arith(1) [OF r(3,1,2)] by blast
      then show ?thesis using True by (simp add: left_in_chunk_def)
    next
      case False
      then have "(?i + 1) * 65536 \<le> ce_size e" using chunk_arith(2) [OF r(3,1,2) l] by blast
      then show ?thesis using False r(4) unfolding left_in_chunk_def distrib_right by (simp add: min_absorb2 minus_div_mult_eq_mod [symmetric])
    qed
  qed
  show "0 < left_in_chunk (ce_size e) pos" using assms by (simp add: left_in_chunk_def)
qed

lemma halve_once: "d < b \<Longrightarrow> b < 2 * d \<Longrightarrow> halve b d = Some (b div 2)"
proof -
  assume "d < b" "b < 2 * d"
  moreover from this have "\<not> d < b div 2" by linarith
  ultimately show ?thesis by (simp add: halve.simps [of b] halve.simps [of "b div 2"] drop_bit_Suc)
qed

lemma GetDataToSend_ok:
  assumes inv: "cache_inv files s R L {} {} cs ms" and p: "p \<in> resident cs" and pos: "0 \<le> pos" "pos < ce_size (cmeta (ces s) p)" and d: "0 \<le> d"
    and q: "q = (p, pos div 65536)"
  defines "n \<equiv> left_in_chunk (ce_size (cmeta (ces s) p)) pos"
  shows "if q \<in> mapped s
    then \<exists>k. GetDataToSend p pos d m s = Some (Inr (Some (chunk_bytes (files (fname s p)) (snd q)), k, Some (pos mod 65536))) \<and> 0 \<le> k \<and> k \<le> n
      \<and> (0 < d \<longrightarrow> 0 < k)
    else GetDataToSend p pos d m s = Some (Inr (None, n, None))"
proof -
  note i = inv [unfolded cache_inv_def]
  have ap: "calive (ces s) p" and en: "entry_ok files s R p" using i p by auto
  have fe: "file_entry files (cmeta (ces s) p)" and nc: "nchunks (ces s) p = Some (nat (ce_numChunks (cmeta (ces s) p)))" using en by (simp_all add: entry_ok_def Let_def)
  note l = last_chunk [OF fe pos]
  have v: "valid (ces s) q" using l(1) nc pos pos_imp_zdiv_nonneg_iff [of 65536 pos] by (simp add: valid_def q)
  have k: "chunk_ok files s L {} ms q" using i v by blast
  let ?k = "if n > m then (if n \<ge> d * 2 then Some d else halve n d) else Some n"
  have g: "GetDataToSend p pos d m s = (case rir_data (rinfo (ces s) q) of None \<Rightarrow> Some (Inr (None, n, None))
      | Some dat \<Rightarrow> map_option (\<lambda>k. Inr (Some dat, k, Some (pos mod 65536))) ?k)"
    using ap v pos unfolding GetDataToSend_def Let_def sdiv_block(1) [OF pos(1)] sdiv_block(2) [OF pos(1)] ce_at_alive [OF ap] obind.simps ce_fields l(2) n_def
    by (simp add: rir_at_valid rir_fields q del: rir_at.simps)
  have "\<exists>k. ?k = Some k \<and> 0 \<le> k \<and> k \<le> n \<and> (0 < d \<longrightarrow> 0 < k)"
  proof (cases "n > m \<and> n < d * 2 \<and> d < n")
    case True
    then show ?thesis using halve_once [of d n] by (auto simp: mult.commute)
  next
    case False
    then show ?thesis using l(3) d by (auto simp: n_def halve.simps [of _ d])
  qed
  then show ?thesis using g k v by (auto simp: mapped_def chunk_ok_def Let_def q)
qed

lemma data_out_ok:
  assumes f: "int (length f) = sz" and pos: "0 \<le> pos" "pos < sz" and k: "0 \<le> k" "k \<le> left_in_chunk sz pos"
  shows "data_out (Some (chunk_bytes f (pos div 65536))) (Some (pos mod 65536)) k = Inr (take (nat k) (drop (nat pos) f))"
proof -
  obtain P where P: "pos = int P" using pos(1) nonneg_int_cases by blast
  obtain k' where k': "k = int k'" using k(1) nonneg_int_cases by blast
  have e: "nat (pos div 65536) = P div 65536" "nat (pos mod 65536) = P mod 65536" by (simp_all add: P nat_div_distrib nat_mod_distrib)
  have "k \<le> (pos div 65536 + 1) * 65536 - pos" "k \<le> sz - pos" using k(2) by (auto simp: left_in_chunk_def)
  then have kk: "int k' \<le> (int (P div 65536) + 1) * 65536 - int P" "int k' \<le> int (length f) - int P" using f by (simp_all add: P k' zdiv_int)
  have m: "int (P div 65536) * 65536 + int (P mod 65536) = int P" by (metis div_mult_mod_eq of_nat_add of_nat_mult of_nat_numeral)
  have "int (P mod 65536) + int k' \<le> 65536" using kk(1) m unfolding distrib_right by linarith
  then have k2: "P mod 65536 + k' \<le> 65536" "P + k' \<le> length f" using kk(2) by simp_all
  have "P = 65536 * (P div 65536) + P mod 65536" by simp
  then have "P mod 65536 + k' \<le> length f - 65536 * (P div 65536)" using k2(2) by linarith
  then have "P mod 65536 + k' \<le> length (chunk_bytes f (pos div 65536))" using k2(1) by (simp add: chunk_bytes_def e)
  moreover have "take k' (drop (P mod 65536) (chunk_bytes f (pos div 65536))) = take k' (drop P f)"
    using k2(1) div_mult_mod_eq [of P 65536] by (simp add: chunk_bytes_def e drop_take min_def add.commute mult.commute)
  moreover have "pos mod 65536 = int (P mod 65536)" by (simp add: P zmod_int)
  ultimately show ?thesis by (simp add: e k' del: of_nat_add) (simp add: P)
qed

section \<open>Moving the lock\<close>

lemma keeps_page: "keeps files s L s' R' L' cs' \<Longrightarrow> page_ok s' = page_ok s"
  by (simp add: keeps_def dkept_def page_ok_def)

lemma Inc_keeps:
  assumes inv: "cache_inv files s R L {} {} cs ms" and pg: "page_ok s" and p: "p \<in># R" and b: "0 \<le> bytes" and q: "q = (p, bytes div 65536)" and v: "valid (ces s) q"
  shows "\<exists>s'. IncChunkLock p bytes s = Inr (True, s') \<and> keeps files s L s' R (add_mset q L) cs \<and> mapped s' = mapped s"
proof -
  obtain s' ms' where s': "IncChunkLock p bytes s = Inr (True, s')" "cache_inv files s' R (add_mset q L) {} {} cs ms'" "same_table s s'"
    "\<forall>x. rir_data (rinfo (ces s') x) = rir_data (rinfo (ces s) x)" "bytesInAllChunks s' = bytesInAllChunks s"
    "\<exists>d. bytesInFreeChunks s' = bytesInFreeChunks s - d \<and> (d = 0 \<or> d = csize s q)"
    using IncChunkLock_ok [OF inv p b q] v by auto
  have "rir_data (rinfo (ces s') x) = rir_data (rinfo (ces s) x)" for x using s'(4) by blast
  then have "mapped s' = mapped s" using s'(3) same_valid [of s' s] by (simp add: mapped_def same_table_def)
  moreover have "within_limit s \<longrightarrow> within_limit s'"
    using s'(3,5,6) csize_nonneg [OF inv pg v] by (auto simp: within_limit_def same_table_def same_conf_def)
  ultimately show ?thesis using s'(1-3) same_table_kept by (auto simp: keeps_def)
qed

lemma Dec_keeps:
  assumes inv: "cache_inv files s R (add_mset q L) {} {} cs ms" and b: "0 \<le> bytes" and q: "q = (p, bytes div 65536)" and d: "q \<in> mapped s"
  shows "\<exists>s' cs'. DecChunkLock p bytes s = Some (Inr (True, s')) \<and> keeps files s (add_mset q L) s' R L cs' \<and> set (cs' Invalid) \<subseteq> set (cs Invalid)"
proof -
  obtain s' cs' ms' where s': "DecChunkLock p bytes s = Some (Inr (True, s'))" "cache_inv files s' R L {} {} cs' ms'" "dkept s s'"
    "set (cs' Invalid) \<subseteq> set (cs Invalid)" "\<forall>x\<in>#L. rir_data (rinfo (ces s') x) = rir_data (rinfo (ces s) x)" "within_limit s \<longrightarrow> within_limit s'"
    using DecChunkLock_ok [OF inv b q _ d] by auto
  have "x \<in> mapped s'" if "x \<in># L" "x \<in> mapped s" for x
    using s'(2,5) that unfolding cache_inv_def mapped_def by auto
  then show ?thesis using s' by (auto simp: keeps_def)
qed

lemma Release_keeps:
  assumes "cache_inv files s (add_mset p R) L {} {} cs ms" and "page_ok s" and "set (cs Invalid) \<subseteq> set_mset (add_mset p R)" and "\<forall>q\<in>#L. fst q \<in># R"
  shows "\<exists>s' cs'. ReleaseCacheEntry p s = Inr s' \<and> keeps files s L s' R L cs' \<and> set (cs' Invalid) \<subseteq> set_mset R"
  using ReleaseCacheEntry_ok [OF assms(1,2,3), of p] assms(4) by auto

text \<open>A connection gives up its lock and its entry.\<close>

lemma DoneWithConnection_cache_ok:
  assumes inv: "cache_inv files s (add_mset (hc_cacheEnt c) R) (if hc_numChunkLocks c = 0 then L else add_mset q L) {} {} cs ms" and pg: "page_ok s"
    and iv: "set (cs Invalid) \<subseteq> set_mset (add_mset (hc_cacheEnt c) R)" and l: "\<forall>q\<in>#L. fst q \<in># R"
    and c: "hc_numChunkLocks c = 0 \<or> hc_numChunkLocks c = 1 \<and> q = (hc_cacheEnt c, hc_bytesSent c div 65536) \<and> q \<in> mapped s" and b: "0 \<le> hc_bytesSent c"
  shows "\<exists>s' cs'. DoneWithConnection_cache c s = Some (Inr s') \<and> keeps files s L s' R L cs' \<and> set (cs' Invalid) \<subseteq> set_mset R"
proof (cases "hc_numChunkLocks c = 0")
  case True
  then show ?thesis using Release_keeps [OF inv [unfolded if_P [OF True]] pg iv l] by (auto simp: DoneWithConnection_cache_def)
next
  case False
  obtain s1 cs1 where s1: "DecChunkLock (hc_cacheEnt c) (hc_bytesSent c) s = Some (Inr (True, s1))"
    "keeps files s (add_mset q L) s1 (add_mset (hc_cacheEnt c) R) L cs1" "set (cs1 Invalid) \<subseteq> set (cs Invalid)"
    using Dec_keeps [OF inv [unfolded if_not_P [OF False]] b] c False by blast
  obtain ms1 where i1: "cache_inv files s1 (add_mset (hc_cacheEnt c) R) L {} {} cs1 ms1" using keeps_inv [OF s1(2)] by blast
  have "set (cs1 Invalid) \<subseteq> set_mset (add_mset (hc_cacheEnt c) R)" using s1(3) iv by blast
  then obtain s2 cs2 where s2: "ReleaseCacheEntry (hc_cacheEnt c) s1 = Inr s2" "keeps files s1 L s2 R L cs2" "set (cs2 Invalid) \<subseteq> set_mset R"
    using Release_keeps [OF i1] keeps_page [OF s1(2)] pg l by blast
  have "keeps files s L s1 (add_mset (hc_cacheEnt c) R) L cs1" using s1(2) by (auto simp: keeps_def)
  then have "keeps files s L s2 R L cs2" using keeps_trans s2(2) by blast
  then show ?thesis using s1(1) s2(1,3) c False by (auto simp: DoneWithConnection_cache_def)
qed

text \<open>The result of a write: the connection goes on, with its lock where it is now, or has given up
  lock and entry.\<close>

definition wresult ::
  "(string \<Rightarrow> string) \<Rightarrow> datacache \<Rightarrow> nat \<Rightarrow> rir_ptr \<Rightarrow> nat multiset \<Rightarrow> rir_ptr multiset \<Rightarrow> wstep \<Rightarrow> file_conn \<Rightarrow> datacache \<Rightarrow> bool" where
  "wresult files s p q R L st c' s' \<longleftrightarrow>
     (case st of
        Done _ \<Rightarrow> \<exists>cs'. keeps files s (add_mset q L) s' R L cs' \<and> set (cs' Invalid) \<subseteq> set_mset R
      | _ \<Rightarrow> \<exists>cs'. keeps files s (add_mset q L) s' (add_mset p R) (add_mset (p, hc_bytesSent c' div 65536) L) cs' \<and> set (cs' Invalid) \<subseteq> set_mset (add_mset p R)
          \<and> hc_cacheEnt c' = p \<and> hc_numChunkLocks c' = 1 \<and> 0 \<le> hc_bytesSent c' \<and> hc_bytesSent c' < ce_size (cmeta (ces s) p))"

lemma finish_ok:
  assumes inv: "cache_inv files s (add_mset (hc_cacheEnt c) R) (if hc_numChunkLocks c = 0 then L else add_mset q L) {} {} cs ms" and "page_ok s"
    and "set (cs Invalid) \<subseteq> set_mset (add_mset (hc_cacheEnt c) R)" and "\<forall>q\<in>#L. fst q \<in># R"
    and "hc_numChunkLocks c = 0 \<or> hc_numChunkLocks c = 1 \<and> q = (hc_cacheEnt c, hc_bytesSent c div 65536) \<and> q \<in> mapped s" and "0 \<le> hc_bytesSent c"
  shows "\<exists>s'. finish force c s = Some (Inr (Done force, c, s')) \<and> (\<exists>cs'. keeps files s L s' R L cs' \<and> set (cs' Invalid) \<subseteq> set_mset R)"
  using DoneWithConnection_cache_ok [OF assms] by (auto simp: finish_def)

lemma keeps_more: "keeps files s L s' R L cs \<Longrightarrow> keeps files s (add_mset q L) s' R L cs"
  by (auto simp: keeps_def)

lemma move_on_ok:
  assumes inv: "cache_inv files s (add_mset p R) (add_mset q L) {} {} cs ms" and pg: "page_ok s" and iv: "set (cs Invalid) \<subseteq> set_mset (add_mset p R)"
    and l: "\<forall>q\<in>#L. fst q \<in># R" and c: "hc_cacheEnt c = p" "hc_numChunkLocks c = 1" "0 \<le> hc_bytesSent c" "hc_bytesSent c < ce_size (cmeta (ces s) p)"
    and q: "q = (p, hc_bytesSent c div 65536)" "q \<in> mapped s" and sz: "0 \<le> sz" "sz \<le> left_in_chunk (ce_size (cmeta (ces s) p)) (hc_bytesSent c)"
  shows "\<exists>st c' s'. move_on (ce_size (cmeta (ces s) p)) sz c s = Some (Inr (st, c', s')) \<and> wresult files s p q R L st c' s'
    \<and> hc_bytesSent c' = hc_bytesSent c + sz \<and> hc_out c' = hc_out c \<and> hc_method c' = hc_method c \<and> (st = More \<or> st = Done False \<and> hc_bytesSent c' = ce_size (cmeta (ces s) p))"
proof -
  note i = inv [unfolded cache_inv_def]
  have pr: "p \<in> resident cs" and en: "entry_ok files s (add_mset p R) p" using i by auto
  have fe: "file_entry files (cmeta (ces s) p)" and nc: "nchunks (ces s) p = Some (nat (ce_numChunks (cmeta (ces s) p)))" using en by (simp_all add: entry_ok_def Let_def)
  let ?z = "ce_size (cmeta (ces s) p)" let ?b = "hc_bytesSent c + sz" let ?q = "(p, ?b div 65536)"
  have b0: "0 \<le> ?b" "?b \<le> ?z" "?b \<le> (hc_bytesSent c div 65536 + 1) * 65536" using c(3) sz by (auto simp: left_in_chunk_def)
  have va: "valid (ces s) ?q \<longleftrightarrow> ?b div 65536 < ce_numChunks (cmeta (ces s) p)"
    using nc b0(1) file_entry_chunks [OF fe] pos_imp_zdiv_nonneg_iff [of 65536 ?b] by (auto simp: valid_def)
  have loc: "hc_numChunkLocks c \<noteq> 0" using c(2) by simp
  show ?thesis
  proof (cases "valid (ces s) ?q")
    case True
    obtain s1 where s1: "IncChunkLock p ?b s = Inr (True, s1)" "keeps files s (add_mset q L) s1 (add_mset p R) (add_mset ?q (add_mset q L)) cs" "mapped s1 = mapped s"
      using Inc_keeps [OF inv pg _ b0(1) refl True] by auto
    obtain ms1 where i1: "cache_inv files s1 (add_mset p R) (add_mset q (add_mset ?q L)) {} {} cs ms1" using keeps_inv [OF s1(2)] by (auto simp: add_mset_commute)
    obtain s2 cs2 where s2: "DecChunkLock p (hc_bytesSent c) s1 = Some (Inr (True, s2))"
      "keeps files s1 (add_mset q (add_mset ?q L)) s2 (add_mset p R) (add_mset ?q L) cs2" "set (cs2 Invalid) \<subseteq> set (cs Invalid)"
      using Dec_keeps [OF i1 c(3) q(1)] q(2) s1(3) by auto
    have k2: "keeps files s (add_mset q L) s2 (add_mset p R) (add_mset ?q L) cs2"
      using keeps_trans [OF s1(2) s2(2) [unfolded add_mset_commute [of q]]] by simp
    obtain ms2 where i2: "cache_inv files s2 (add_mset p R) (add_mset ?q L) {} {} cs2 ms2" using keeps_inv [OF k2] by blast
    let ?c = "c\<lparr>hc_numChunkLocks := hc_numChunkLocks c + 1 - 1, hc_bytesSent := ?b\<rparr>"
    have iv2: "set (cs2 Invalid) \<subseteq> set_mset (add_mset p R)" using s2(3) iv by blast
    show ?thesis
    proof (cases "?z \<le> ?b")
      case False
      then have "move_on ?z sz c s = Some (Inr (More, ?c, s2))" using s1(1) s2(1) loc c(1) by (simp add: move_on_def)
      moreover have "wresult files s p q R L More ?c s2" using k2 iv2 c b0 False by (auto simp: wresult_def)
      ultimately show ?thesis by auto
    next
      case fin: True
      then have bz: "?b = ?z" using b0(2) by simp
      have "?q = q"
      proof -
        have "ce_numChunks (cmeta (ces s) p) = (?z + 65535) div 65536" using fe by (simp add: file_entry_def)
        then have "?b div 65536 < (?b + 65535) div 65536" using True va bz by simp
        then have "hc_bytesSent c div 65536 = ?b div 65536" by (rule same_chunk [OF _ _ b0(3)]) (use sz in simp_all)
        then show ?thesis by (simp add: q(1))
      qed
      moreover have "q \<in> mapped s2"
      proof -
        have "q \<in># add_mset ?q L" using calculation by simp
        then show ?thesis using s2(2) s1(3) q(2) by (auto simp: keeps_def)
      qed
      ultimately have m: "?q \<in> mapped s2" by simp
      obtain s3 cs3 where s3: "finish False ?c s2 = Some (Inr (Done False, ?c, s3))" "keeps files s2 L s3 R L cs3" "set (cs3 Invalid) \<subseteq> set_mset R"
        using finish_ok [of files s2 ?c R L ?q cs2 ms2 False] i2 keeps_page [OF k2] pg iv2 l c b0 m by auto
      have "keeps files s (add_mset q L) s3 R L cs3" using keeps_trans [OF k2 keeps_more [OF s3(2)]] by auto
      moreover have "move_on ?z sz c s = Some (Inr (Done False, ?c, s3))" using s1(1) s2(1) s3(1) loc c(1) fin by (simp add: move_on_def)
      ultimately show ?thesis using s3(3) bz by (auto simp: wresult_def)
    qed
  next
    case False
    have bz: "?b = ?z" using last_chunk(1) [OF fe b0(1)] va False b0(2) by force
    have "IncChunkLock p ?b s = Inr (False, s)" using IncChunkLock_ok [OF inv _ b0(1) refl, of p] False by auto
    moreover obtain s2 cs2 where s2: "DecChunkLock p (hc_bytesSent c) s = Some (Inr (True, s2))"
      "keeps files s (add_mset q L) s2 (add_mset p R) L cs2" "set (cs2 Invalid) \<subseteq> set (cs Invalid)"
      using Dec_keeps [OF inv c(3) q] by auto
    obtain ms2 where i2: "cache_inv files s2 (add_mset p R) L {} {} cs2 ms2" using keeps_inv [OF s2(2)] by blast
    let ?c = "c\<lparr>hc_numChunkLocks := hc_numChunkLocks c + 0 - 1, hc_bytesSent := ?b\<rparr>"
    have iv2: "set (cs2 Invalid) \<subseteq> set_mset (add_mset p R)" using s2(3) iv by blast
    obtain s3 cs3 where s3: "finish False ?c s2 = Some (Inr (Done False, ?c, s3))" "keeps files s2 L s3 R L cs3" "set (cs3 Invalid) \<subseteq> set_mset R"
      using finish_ok [of files s2 ?c R L q cs2 ms2 False] i2 keeps_page [OF s2(2)] pg iv2 l c b0 by auto
    have "keeps files s (add_mset q L) s3 R L cs3" using keeps_trans [OF s2(2) s3(2)] by auto
    moreover have "move_on ?z sz c s = Some (Inr (Done False, ?c, s3))" using calculation(1) s2(1) s3(1) loc c(1) bz by (simp add: move_on_def)
    ultimately show ?thesis using s3(3) bz by (auto simp: wresult_def)
  qed
qed

end
