(* ===== verification/Flash_Date_Correct.thy ===== *)
theory Flash_Date_Correct
  imports Flash_Date
begin

text \<open>
  What the dates of flash mean: the binary search is a lookup in its table; a date that
  \<open>MakeHTTPDate\<close> writes has a constant length and is read back by \<open>tdate_parse\<close>, up to the way
  \<open>tm_to_time\<close> counts the leap days.
\<close>

section \<open>Binary search\<close>

lemma strlong_search_lookup:
  assumes "sorted (map fst tab)" "distinct (map fst tab)" "0 \<le> l" "l \<le> h" "h < int (length tab)"
    and "\<forall>i<length tab. fst (tab ! i) = str \<longrightarrow> l \<le> int i \<and> int i \<le> h"
  shows "strlong_search str tab l h = Inr (map_of tab str)"
  using assms
proof (induction str tab l h rule: strlong_search.induct)
  case (1 str tab l h)
  define i where "i = (h + l) sdiv 2"
  have i: "i = (h + l) div 2" using "1.prems"(3,4) by (simp add: i_def signed_divide_int_def sgn_if)
  then have range: "0 \<le> i" "l \<le> i" "i \<le> h" "i < int (length tab)" using "1.prems"(3-5) by linarith+
  have mono: "fst (tab ! j) \<le> fst (tab ! k)" if "j \<le> k" "k < length tab" for j k
    using sorted_nth_mono [OF "1.prems"(1), of j k] that by simp
  have unfold: "strlong_search str tab l h =
      (if str < fst (tab ! nat i) then (if i - 1 < l then Inr None else strlong_search str tab l (i - 1))
       else if fst (tab ! nat i) < str then (if h < i + 1 then Inr None else strlong_search str tab (i + 1) h)
       else Inr (Some (snd (tab ! nat i))))"
    using range by (subst strlong_search.simps) (simp add: i_def [symmetric] Let_def)
  have none: "map_of tab str = None" if "\<forall>j<length tab. fst (tab ! j) \<noteq> str"
    using that by (force simp: map_of_eq_None_iff in_set_conv_nth)
  show ?case
  proof (cases rule: linorder_cases [of str "fst (tab ! nat i)"])
    case less
    have out: "int j < i" if "j < length tab" "fst (tab ! j) = str" for j
    proof (rule ccontr)
      assume "\<not> int j < i"
      then have "nat i \<le> j" by simp
      from mono [OF this that(1)] that(2) less show False by simp
    qed
    show ?thesis
    proof (cases "i - 1 < l")
      case True
      then have "\<forall>j<length tab. fst (tab ! j) \<noteq> str" using out "1.prems"(6) by fastforce
      with less True unfold none show ?thesis by simp
    next
      case False
      have "strlong_search str tab l (i - 1) = Inr (map_of tab str)"
        by (rule "1.IH"(1)) (use False less range out "1.prems" in \<open>auto simp: i_def [symmetric]\<close>)
      with less False unfold show ?thesis by simp
    qed
  next
    case equal
    have "nat i < length tab" using range by simp
    then have "map_of tab (fst (tab ! nat i)) = Some (snd (tab ! nat i))"
      using "1.prems"(2) by (intro map_of_is_SomeI) auto
    with equal unfold show ?thesis by simp
  next
    case greater
    have out: "i + 1 \<le> int j" if "j < length tab" "fst (tab ! j) = str" for j
    proof (rule ccontr)
      assume "\<not> i + 1 \<le> int j"
      then have "j \<le> nat i" by simp
      with range have "fst (tab ! j) \<le> fst (tab ! nat i)" by (intro mono) auto
      with that(2) greater show False by simp
    qed
    show ?thesis
    proof (cases "h < i + 1")
      case True
      then have "\<forall>j<length tab. fst (tab ! j) \<noteq> str" using out "1.prems"(6) by fastforce
      with greater True unfold none show ?thesis by auto
    next
      case False
      have "strlong_search str tab (i + 1) h = Inr (map_of tab str)"
        by (rule "1.IH"(2)) (use False greater range out "1.prems" in \<open>auto simp: i_def [symmetric]\<close>)
      with greater False unfold show ?thesis by auto
    qed
  qed
qed

lemma strlong_search_sorted:
  assumes "distinct (map fst tab)" "tab \<noteq> []"
  shows "strlong_search str (strlong_sort tab) 0 (int (length tab) - 1) = Inr (map_of tab str)"
proof -
  have d: "distinct (map fst (strlong_sort tab))" "set (strlong_sort tab) = set tab" "length (strlong_sort tab) = length tab"
    using assms(1) by (simp_all add: strlong_sort_def distinct_map inj_on_def)
  have "map_of (strlong_sort tab) = map_of tab"
    using d assms(1) by (intro map_of_eqI) (auto simp: dom_map_of_conv_image_fst)
  moreover have "sorted (map fst (strlong_sort tab))" by (simp add: strlong_sort_def)
  moreover have "strlong_search str (strlong_sort tab) 0 (int (length tab) - 1) = Inr (map_of (strlong_sort tab) str)"
    using assms(2) d by (intro strlong_search_lookup) (auto simp: strlong_sort_def)
  ultimately show ?thesis by simp
qed

lemma scan_names:
  "scan_wday w = Inr (map_of wday_tab (map tolower w))" "scan_mon m = Inr (map_of mon_tab (map tolower m))"
  unfolding scan_wday_def scan_mon_def pound_case_def
  by (rule strlong_search_sorted; simp add: wday_tab_def mon_tab_def)+

section \<open>The calendar\<close>

text \<open>Days before a year, from 1970 to 2099.\<close>

definition days_before :: "int \<Rightarrow> int" where
  "days_before y = (y - 1970) * 365 + (y - 1969) div 4"

lemma leap_range:
  assumes "1970 \<le> y" "y < 2100"
  shows "leap y \<longleftrightarrow> y mod 4 = 0"
proof -
  have "y = 2000" if "y mod 100 = 0" using that assms by presburger
  then show ?thesis by (auto simp: leap_def)
qed

lemma days_before_Suc:
  assumes "1970 \<le> y" "y < 2100"
  shows "days_before (y + 1) = days_before y + year_len y"
proof -
  have "(y + 1 - 1969) div 4 = (y - 1969) div 4 + (if y mod 4 = 0 then 1 else 0)" by presburger
  then show ?thesis using leap_range [OF assms] by (simp add: days_before_def year_len_def)
qed

lemma year_day_split:
  assumes "1970 \<le> y" "y < 2100" "0 \<le> d" "days_before y + d < days_before 2100" "year_day y d = (y', r)"
  shows "1970 \<le> y' \<and> y' < 2100 \<and> 0 \<le> r \<and> r < year_len y' \<and> days_before y + d = days_before y' + r"
  using assms
proof (induction y d rule: year_day.induct)
  case (1 y d)
  show ?case
  proof (cases "d < year_len y")
    case True
    with "1.prems" show ?thesis by (simp add: year_day.simps [of y d])
  next
    case False
    note s = days_before_Suc [OF "1.prems"(1,2)]
    have "y + 1 < 2100"
    proof (rule ccontr)
      assume "\<not> y + 1 < 2100"
      then have "y + 1 = 2100" using "1.prems"(2) by simp
      then have "days_before 2100 = days_before y + year_len y" using s by simp
      with "1.prems"(4) False show False by simp
    qed
    moreover have "year_day (y + 1) (d - year_len y) = (y', r)" using "1.prems"(5) False by (simp add: year_day.simps [of y d])
    ultimately show ?thesis using "1.IH" [OF False] "1.prems" False s by simp
  qed
qed

lemma month_day_split:
  assumes "0 \<le> d" "d < year_len y" "month_day (month_lens y) 0 d = (m, md)"
  shows "0 \<le> m \<and> m < 12 \<and> 0 \<le> md \<and> md < 31 \<and> d = monthtab ! nat m + (if 2 \<le> m \<and> leap y then 1 else 0) + md"
  using assms by (cases "leap y") (auto simp: month_lens_def year_len_def monthtab_def split: if_splits)

text \<open>The date of a day, and what \<open>tm_to_time\<close> makes of it.\<close>

definition leap_error :: "int \<Rightarrow> int" where
  "leap_error t = (let g = gmtime t in
     if (tm_year g + 1900) mod 4 = 0 \<and> \<not> (tm_year g = 100 \<and> 2 \<le> tm_mon g) then 86400 else 0)"

lemma gmtime_fields:
  assumes "0 \<le> t" "t < 4102444800"
  shows "70 \<le> tm_year (gmtime t)" "tm_year (gmtime t) < 200" "0 \<le> tm_mon (gmtime t)" "tm_mon (gmtime t) < 12"
    "1 \<le> tm_mday (gmtime t)" "tm_mday (gmtime t) \<le> 31" "0 \<le> tm_hour (gmtime t)" "tm_hour (gmtime t) < 24"
    "0 \<le> tm_min (gmtime t)" "tm_min (gmtime t) < 60" "0 \<le> tm_sec (gmtime t)" "tm_sec (gmtime t) < 60"
    "0 \<le> tm_wday (gmtime t)" "tm_wday (gmtime t) < 7"
    and "tm_to_time (gmtime t) = Inr (t + leap_error t)"
proof -
  obtain y d where y: "year_day 1970 (t div 86400) = (y, d)" by fastforce
  have bound: "days_before 2100 = 47482" "days_before 1970 = 0" by (simp_all add: days_before_def)
  have "t div 86400 < 47482" using assms by linarith
  then have yd: "1970 \<le> y" "y < 2100" "0 \<le> d" "d < year_len y" "t div 86400 = days_before y + d"
    using year_day_split [OF _ _ _ _ y] assms(1) bound by simp_all
  obtain m md where m: "month_day (month_lens y) 0 d = (m, md)" by fastforce
  note md = month_day_split [OF yd(3,4) m]
  have g: "gmtime t = \<lparr>tm_sec = t mod 86400 mod 60, tm_min = t mod 86400 div 60 mod 60, tm_hour = t mod 86400 div 3600, tm_mday = md + 1,
       tm_mon = m, tm_year = y - 1900, tm_wday = (t div 86400 + 4) mod 7\<rparr>"
    by (simp add: gmtime_def y m Let_def)
  show "70 \<le> tm_year (gmtime t)" "tm_year (gmtime t) < 200" "0 \<le> tm_mon (gmtime t)" "tm_mon (gmtime t) < 12"
    "1 \<le> tm_mday (gmtime t)" "tm_mday (gmtime t) \<le> 31" "0 \<le> tm_wday (gmtime t)" "tm_wday (gmtime t) < 7"
    using yd md by (simp_all add: g)
  show clock: "0 \<le> tm_hour (gmtime t)" "tm_hour (gmtime t) < 24" "0 \<le> tm_min (gmtime t)" "tm_min (gmtime t) < 60"
    "0 \<le> tm_sec (gmtime t)" "tm_sec (gmtime t) < 60"
    by (simp_all add: g)
  have leaps: "(y - 1968) div 4 = (y - 1969) div 4 + (if y mod 4 = 0 then 1 else 0)" by presburger
  have is_leap: "is_leap (y - 1900) \<longleftrightarrow> y mod 4 = 0 \<and> y \<noteq> 2000"
  proof -
    have "(y - 1900) mod 400 \<noteq> 0" using yd(1,2) by (simp add: mod_pos_pos_trivial)
    moreover have "(y - 1900) mod 100 = 0 \<longleftrightarrow> y = 2000" using yd(1,2) by presburger
    moreover have "(y - 1900) mod 4 = 0 \<longleftrightarrow> y mod 4 = 0" by presburger
    ultimately show ?thesis by (auto simp: is_leap_def)
  qed
  have secs: "((days * 24 + s div 3600) * 60 + s div 60 mod 60) * 60 + s mod 60 = days * 86400 + s" for days s :: int
  proof -
    have "s div 3600 = s div 60 div 60" by (simp add: zdiv_zmult2_eq [symmetric])
    moreover have "60 * (s div 60) + s mod 60 = s" "60 * (s div 60 div 60) + s div 60 mod 60 = s div 60" by simp_all
    ultimately show ?thesis by (simp add: algebra_simps)
  qed
  have "tm_to_time (gmtime t) = Inr (((y - 1970) * 365 + (y - 1968) div 4 + monthtab ! nat m + (if 2 \<le> m \<and> is_leap (y - 1900) then 1 else 0) + md) * 86400
      + t mod 86400)"
    using yd(1,2) md secs by (simp add: tm_to_time_def g int_chk_def int_range_def signed_divide_int_def sgn_if Let_def)
  also have "((y - 1970) * 365 + (y - 1968) div 4 + monthtab ! nat m + (if 2 \<le> m \<and> is_leap (y - 1900) then 1 else 0) + md) =
      t div 86400 + (if y mod 4 = 0 \<and> \<not> (y = 2000 \<and> 2 \<le> m) then 1 else 0)"
  proof (cases "y mod 4 = 0")
    case True
    then have "leap y" using leap_range [OF yd(1,2)] by simp
    with True md yd(5) leaps show ?thesis unfolding is_leap days_before_def by (cases "2 \<le> m"; cases "y = 2000") simp_all
  next
    case False
    then have "\<not> leap y" using leap_range [OF yd(1,2)] by simp
    with False md yd(5) leaps show ?thesis unfolding is_leap days_before_def by simp
  qed
  also have "(t div 86400 + (if y mod 4 = 0 \<and> \<not> (y = 2000 \<and> 2 \<le> m) then 1 else 0)) * 86400 + t mod 86400 = t + leap_error t"
  proof -
    have f: "tm_year (gmtime t) + 1900 = y" "tm_year (gmtime t) = 100 \<longleftrightarrow> y = 2000" "tm_mon (gmtime t) = m"
      unfolding g tm.simps by simp_all
    have "leap_error t = (if y mod 4 = 0 \<and> \<not> (y = 2000 \<and> 2 \<le> m) then 86400 else 0)"
      unfolding leap_error_def Let_def by (simp only: f)
    then have "leap_error t = (if y mod 4 = 0 \<and> \<not> (y = 2000 \<and> 2 \<le> m) then 1 else 0) * 86400" by (simp only: if_distrib [of "\<lambda>x. x * 86400"] mult_1 mult_zero_left)
    moreover have "D * 86400 + R = u \<Longrightarrow> e = k * 86400 \<Longrightarrow> (D + k) * 86400 + R = u + e" for D R u e k :: int
      by simp
    ultimately show ?thesis using div_mult_mod_eq [of t 86400] by blast
  qed
  finally show "tm_to_time (gmtime t) = Inr (t + leap_error t)" .
qed

section \<open>Writing and reading\<close>

lemma show2_digits:
  assumes "0 \<le> i" "i < 100"
  shows "show2 i = [char_of (48 + nat i div 10), char_of (48 + nat i mod 10)]"
proof (cases "i < 10")
  case True
  have "show_nat (nat i) = [char_of (48 + nat i)]" using True by (subst show_nat.simps) simp
  moreover have "char_of (48 :: nat) = CHR ''0''" by code_simp
  ultimately show ?thesis using True assms by (simp add: show2_def show_int_def)
next
  case False
  then have "nat i div 10 < 10" "\<not> nat i < 10" using assms by simp_all
  then have "show_nat (nat i) = [char_of (48 + nat i div 10), char_of (48 + nat i mod 10)]"
    by (subst show_nat.simps, subst show_nat.simps) simp
  then show ?thesis using assms by (simp add: show2_def show_int_def)
qed

lemma isdigit_char: "k < 10 \<Longrightarrow> isdigit (char_of (48 + k :: nat))" "k < 10 \<Longrightarrow> digit_val (char_of (48 + k :: nat)) = k"
  by (simp_all add: isdigit_def digit_val_def of_char_of)

lemma scan_digits_run:
  assumes "isdigit c" "\<forall>x\<in>set s. isdigit x" "t = [] \<or> \<not> isdigit (hd t)"
  shows "scan_int (c # s @ t) = Some (int (foldl (\<lambda>n c. 10 * n + digit_val c) 0 (c # s)), t)"
proof -
  have "dropWhile isdigit (s @ t) = t" using assms(2,3) by (cases t) (auto simp: dropWhile_append)
  moreover have "read_nat ((c # s) @ t) = foldl (\<lambda>n c. 10 * n + digit_val c) 0 (c # s)"
    using assms by (intro read_nat_append) auto
  ultimately show ?thesis using assms(1) by (simp add: scan_int_def scan_ws_def scan_digits_def)
qed

lemma scan_int_show2:
  assumes "0 \<le> i" "i < 100" "\<not> isdigit c"
  shows "scan_int (show2 i @ c # t) = Some (i, c # t)"
proof -
  have d: "nat i div 10 < 10" "nat i mod 10 < 10" "10 * (nat i div 10) + nat i mod 10 = nat i" using assms by simp_all
  show ?thesis
    using scan_digits_run [of "char_of (48 + nat i div 10)" "[char_of (48 + nat i mod 10)]" "c # t"] assms d
    by (simp add: show2_digits isdigit_char)
qed

lemma sscanf_Int:
  assumes "scan_int s = Some (i, t)" "int_range i"
  shows "sscanf (Int_Conv # fmt) s = rbind (sscanf fmt t) (\<lambda>as. Inr (Int_Arg i # as))"
  using assms by simp

lemma sscanf_Alpha:
  assumes "\<forall>x\<in>set w. isalpha x" "w \<noteq> []" "length w < 500" "\<not> isalpha c"
  shows "sscanf (Alpha_Conv # fmt) (w @ c # t) = rbind (sscanf fmt (c # t)) (\<lambda>as. Inr (Str_Arg w # as))"
proof -
  have "takeWhile isalpha (w @ c # t) = w" "dropWhile isalpha (w @ c # t) = c # t"
    using assms(1,4) by (auto simp: takeWhile_append2 dropWhile_append2)
  with assms(2,3) show ?thesis by (simp add: Let_def)
qed

text \<open>The text of a date, from its parts.\<close>

definition date_text :: "string \<Rightarrow> int \<Rightarrow> string \<Rightarrow> int \<Rightarrow> int \<Rightarrow> int \<Rightarrow> int \<Rightarrow> string" where
  "date_text w d m y h mi s = w @ CHR '','' # CHR '' '' # show2 d @ CHR '' '' # m @ CHR '' '' # show_int y @ CHR '' '' #
     show2 h @ CHR '':'' # show2 mi @ CHR '':'' # show2 s @ '' GMT''"

lemma not_digits [simp]: "\<not> isdigit (CHR '' '')" "\<not> isdigit (CHR '':'')" "\<not> isalpha (CHR '' '')" "\<not> isalpha (CHR '','')"
  by (simp_all add: isdigit_def isalpha_def)

lemma scan_int_alpha: "isalpha c \<Longrightarrow> scan_int (c # s) = None"
proof -
  assume "isalpha c"
  then have "\<not> isspace c" "c \<noteq> CHR ''-''" "c \<noteq> CHR ''+''" "\<not> isdigit c"
    by (auto simp: isalpha_def isspace_def isdigit_def)
  then show ?thesis by (simp add: scan_int_def scan_ws_def scan_digits_def)
qed

lemma scan_ws_show2: "0 \<le> i \<Longrightarrow> i < 100 \<Longrightarrow> scan_ws (show2 i @ t) = show2 i @ t"
  by (simp add: show2_digits scan_ws_def isdigit_char digit_not_space)

lemma scan_ws_alpha: "\<forall>x\<in>set w. isalpha x \<Longrightarrow> w \<noteq> [] \<Longrightarrow> scan_ws (w @ t) = w @ t"
  by (cases w) (auto simp: scan_ws_def isalpha_def isspace_def)

lemma scan_ws_show_int: "0 \<le> i \<Longrightarrow> scan_ws (show_int i @ t) = show_int i @ t"
proof -
  assume "0 \<le> i"
  obtain c s where "show_nat (nat i) = c # s" "isdigit c" by (rule show_nat_Cons)
  with \<open>0 \<le> i\<close> show ?thesis by (simp add: scan_ws_def show_int_def)
qed

lemma scan_ws_GMT: "scan_ws ''GMT'' = ''GMT''"
  by (simp add: scan_ws_def isspace_def)

lemma scan_ws_blank [simp]: "scan_ws (CHR '' '' # s) = scan_ws s"
  by (simp add: scan_ws_def isspace_def)

lemma date_text_parse:
  assumes w: "\<forall>x\<in>set w. isalpha x" "w \<noteq> []" "length w < 500" and m: "\<forall>x\<in>set m. isalpha x" "m \<noteq> []" "length m < 500"
    and n: "0 \<le> d" "d < 100" "0 \<le> y" "y \<le> INT_MAX" "0 \<le> h" "h < 100" "0 \<le> mi" "mi < 100" "0 \<le> s" "s < 100"
    and wd: "scan_wday w = Inr (Some wd)" and mon: "scan_mon m = Inr (Some mo)"
  shows "try_formats formats (date_text w d m y h mi s) =
    Inr (Some \<lparr>tm_sec = s, tm_min = mi, tm_hour = h, tm_mday = d, tm_mon = mo, tm_year = y, tm_wday = wd\<rparr>)"
proof -
  obtain c w' where wc: "w = c # w'" "isalpha c" using w(1,2) by (cases w) auto
  have start: "sscanf (Int_Conv # fmt) (date_text w d m y h mi s) = Inr []" for fmt
    using wc by (simp add: date_text_def scan_int_alpha)
  have ir: "int_range d" "int_range y" "int_range h" "int_range mi" "int_range s" using n by (simp_all add: int_range_def)
  have dash: "sscanf ([Alpha_Conv, Lit (CHR '',''), Ws, Int_Conv, Dash] @ fmt) (date_text w d m y h mi s) = Inr [Str_Arg w, Int_Arg d]" for fmt
    using w n ir unfolding date_text_def append_Cons
    by (subst sscanf_Alpha) (simp_all add: scan_ws_show2 scan_int_show2)
  have full: "sscanf ([Alpha_Conv, Lit (CHR '',''), Ws, Int_Conv, Ws, Alpha_Conv, Ws, Int_Conv, Ws] @ Clock @ GMT) (date_text w d m y h mi s) =
      Inr [Str_Arg w, Int_Arg d, Str_Arg m, Int_Arg y, Int_Arg h, Int_Arg mi, Int_Arg s]"
    using w m n ir unfolding date_text_def append_Cons append_Nil
    by (subst sscanf_Alpha)
      (simp_all add: scan_ws_show2 scan_int_show2 scan_ws_alpha scan_ws_show_int scan_int_show scan_ws_GMT sscanf_Alpha del: sscanf.simps(5))
  show ?thesis
    using start dash full wd mon
    by (simp add: formats_def name_fields_def del: sscanf.simps)
qed

text \<open>The names of the tables, as the parser reads them.\<close>

lemma month_names:
  assumes "0 \<le> m" "m < 12"
  shows "scan_mon (monthNames ! nat m) = Inr (Some m)" "\<forall>x\<in>set (monthNames ! nat m). isalpha x" "length (monthNames ! nat m) = 3"
proof -
  have "\<forall>k\<in>set [0..<12]. map_of mon_tab (map tolower (monthNames ! k)) = Some (int k) \<and>
      list_all isalpha (monthNames ! k) \<and> length (monthNames ! k) = 3"
    by code_simp
  then have "map_of mon_tab (map tolower (monthNames ! nat m)) = Some (int (nat m)) \<and>
      list_all isalpha (monthNames ! nat m) \<and> length (monthNames ! nat m) = 3"
    using assms by (simp only: set_upt) (force simp: nat_less_iff)
  with assms show "scan_mon (monthNames ! nat m) = Inr (Some m)" "\<forall>x\<in>set (monthNames ! nat m). isalpha x" "length (monthNames ! nat m) = 3"
    by (simp_all add: scan_names list_all_iff)
qed

lemma day_names:
  assumes "0 \<le> d" "d < 7"
  shows "scan_wday (dayNames ! nat d) = Inr (Some d)" "\<forall>x\<in>set (dayNames ! nat d). isalpha x" "length (dayNames ! nat d) = 3"
proof -
  have "\<forall>k\<in>set [0..<7]. map_of wday_tab (map tolower (dayNames ! k)) = Some (int k) \<and>
      list_all isalpha (dayNames ! k) \<and> length (dayNames ! k) = 3"
    by code_simp
  then have "map_of wday_tab (map tolower (dayNames ! nat d)) = Some (int (nat d)) \<and>
      list_all isalpha (dayNames ! nat d) \<and> length (dayNames ! nat d) = 3"
    using assms by (simp only: set_upt) (force simp: nat_less_iff)
  with assms show "scan_wday (dayNames ! nat d) = Inr (Some d)" "\<forall>x\<in>set (dayNames ! nat d). isalpha x" "length (dayNames ! nat d) = 3"
    by (simp_all add: scan_names list_all_iff)
qed

lemma MakeHTTPDate_text:
  "MakeHTTPDate t = (let g = gmtime t in date_text (dayNames ! nat (tm_wday g)) (tm_mday g) (monthNames ! nat (tm_mon g))
     (tm_year g + 1900) (tm_hour g) (tm_min g) (tm_sec g))"
  by (simp add: MakeHTTPDate_def date_text_def Let_def)

lemma no_nul_alpha: "\<forall>x\<in>set w. isalpha x \<Longrightarrow> no_nul w"
  by (auto simp: no_nul_def isalpha_def NUL_def)

lemma no_nul_show2: "0 \<le> i \<Longrightarrow> i < 100 \<Longrightarrow> no_nul (show2 i)"
  by (simp add: show2_digits isdigit_char)

lemma date_round_trip:
  assumes "0 \<le> t" "t < 4102444800"
  shows "tdate_parse (MakeHTTPDate t) = Inr (t + leap_error t)"
proof -
  define g where "g = gmtime t"
  note f = gmtime_fields [OF assms, folded g_def]
  define w where "w = dayNames ! nat (tm_wday g)"
  define m where "m = monthNames ! nat (tm_mon g)"
  note wn = day_names [OF f(13,14), folded w_def] and mn = month_names [OF f(3,4), folded m_def]
  let ?s = "date_text w (tm_mday g) m (tm_year g + 1900) (tm_hour g) (tm_min g) (tm_sec g)"
  have s: "MakeHTTPDate t = ?s" by (simp add: MakeHTTPDate_text g_def w_def m_def Let_def)
  obtain c w' where wc: "w = c # w'" using wn(3) by (cases w) auto
  have "no_nul ?s"
    using wn(2) mn(2) f by (simp add: date_text_def no_nul_alpha no_nul_show2)
  moreover have "isalpha c" using wn(2) wc by simp
  then have "c \<noteq> CHR '' ''" "c \<noteq> CHR 0x09" by (auto simp: isalpha_def)
  ultimately have start: "dropWhile (\<lambda>c. c = CHR '' '' \<or> c = CHR 0x09) (cstr ?s) = ?s"
    using wc by (simp add: date_text_def)
  have "try_formats formats ?s = Inr (Some (g\<lparr>tm_year := tm_year g + 1900\<rparr>))"
    using wn mn f by (subst date_text_parse [where wd = "tm_wday g" and mo = "tm_mon g"]) auto
  moreover have "g\<lparr>tm_year := century (tm_year g + 1900)\<rparr> = g"
    using f(1) by (simp add: century_def)
  ultimately show ?thesis using f(15) by (simp add: tdate_parse_def s start)
qed

lemma date_length:
  assumes "0 \<le> t" "t < 4102444800"
  shows "length (MakeHTTPDate t) = 29"
proof -
  define g where "g = gmtime t"
  note f = gmtime_fields [OF assms, folded g_def]
  have "length (show_nat n) = 4" if "1000 \<le> n" "n < 10000" for n
    using that by (subst show_nat.simps, subst show_nat.simps, subst show_nat.simps, subst show_nat.simps) (simp, linarith)
  then have "length (show_int (tm_year g + 1900)) = 4" using f(1,2) by (simp add: show_int_def)
  with day_names(3) [OF f(13,14)] month_names(3) [OF f(3,4)] f show ?thesis
    by (simp add: MakeHTTPDate_text date_text_def Let_def show2_digits flip: g_def)
qed

end
