(* ===== verification/Flash_Hotfile_Write.thy ===== *)
theory Flash_Hotfile_Write
  imports Flash_Hotfile_Correct Flash_Date_Correct
begin

text \<open>
  A write of flash on a connection that a file is sent to: what goes out is the header of the entry,
  with the date of the moment, and the next bytes of the file.
\<close>

declare split_paired_All [simp del] split_paired_Ex [simp del]

section \<open>Headers\<close>

definition header_ok :: "CacheEntry \<Rightarrow> bool" where
  "header_ok e \<longleftrightarrow> (\<exists>x. ce_respHeader e = Some x \<and> length x = 256 \<and> dated x (ce_respHeaderTime e)) \<and> 49 \<le> ce_respHeaderLen e \<and> ce_respHeaderLen e \<le> 256"

text \<open>The header of an entry at a time.\<close>

definition header_of :: "CacheEntry \<Rightarrow> int \<Rightarrow> string \<Rightarrow> bool" where
  "header_of e now h \<longleftrightarrow> (\<exists>x. ce_respHeader e = Some x \<and> blank h = take (length h) (blank x)) \<and> length h = nat (ce_respHeaderLen e)
     \<and> take 27 (drop 22 h) = take 27 (MakeHTTPDate now) \<and> 0 < now \<and> now < 4102444800"

definition time_ok :: "datacache \<Rightarrow> bool" where
  "time_ok s \<longleftrightarrow> 0 < dc_now s \<and> dc_now s < 4102444800"

lemma blank_length [simp]: "length (blank x) = length x"
  by (simp add: blank_def)

lemma blank_take: "blank (take n x) = take n (blank x)"
  by (rule nth_equalityI) (simp_all add: blank_def)

lemma blank_blit: "length d = 27 \<Longrightarrow> 49 \<le> length x \<Longrightarrow> blank (blit x 22 d) = blank x"
  by (rule nth_equalityI) (auto simp: blank_def blit_def nth_append min_def)

lemma core_header:
  assumes "core e = core f"
  shows "header_ok e = header_ok f" "header_of e now h = header_of f now h"
proof -
  have "fst (stamp (ce_respHeader e) (ce_respHeaderTime e)) = fst (stamp (ce_respHeader f) (ce_respHeaderTime f))"
    "snd (stamp (ce_respHeader e) (ce_respHeaderTime e)) = snd (stamp (ce_respHeader f) (ce_respHeaderTime f))"
    using arg_cong [OF assms, of ce_respHeader] arg_cong [OF assms, of ce_respHeaderTime] by (simp_all add: core_def)
  then have s: "stamp (ce_respHeader e) (ce_respHeaderTime e) = stamp (ce_respHeader f) (ce_respHeaderTime f)" by (simp add: prod_eq_iff)
  have l: "ce_respHeaderLen e = ce_respHeaderLen f" using core_fields(5) [OF assms] .
  show "header_ok e = header_ok f"
    using stamp_eq [of _ "ce_respHeaderTime e" "ce_respHeader f"] stamp_eq [of _ "ce_respHeaderTime f" "ce_respHeader e"] s l
    unfolding header_ok_def by (metis blank_length)
  show "header_of e now h = header_of f now h"
    using stamp_eq [of _ "ce_respHeaderTime e" "ce_respHeader f"] stamp_eq [of _ "ce_respHeaderTime f" "ce_respHeader e"] s l
    unfolding header_of_def by metis
qed

lemmas header_upd [simp] =
  upd_ce_keep [where f = "\<lambda>e. e\<lparr>ce_respHeader := g, ce_respHeaderTime := t\<rparr>" for g t, simplified]
  upd_ce_meta [where f = "\<lambda>e. e\<lparr>ce_respHeader := g, ce_respHeaderTime := t\<rparr>" for g t, simplified]

lemma header_out_ok:
  assumes a: "calive (ces s) p" and k: "header_ok (cmeta (ces s) p)" and t: "time_ok s"
  shows "\<exists>h s'. header_out p s = Inr (h, s') \<and> same_struct s s' \<and> dc_now s' = dc_now s \<and> header_of (cmeta (ces s) p) (dc_now s) h"
proof -
  let ?e = "cmeta (ces s) p" let ?d = "take 27 (MakeHTTPDate (dc_now s))"
  obtain x where x: "ce_respHeader ?e = Some x" "length x = 256" "dated x (ce_respHeaderTime ?e)" and n: "49 \<le> ce_respHeaderLen ?e" "ce_respHeaderLen ?e \<le> 256"
    using k unfolding header_ok_def by blast
  define y where "y = (if ce_respHeaderTime ?e \<noteq> dc_now s then blit x 22 ?d else x)"
  let ?s = "upd_ce p (\<lambda>e. e\<lparr>ce_respHeader := Some y, ce_respHeaderTime := dc_now s\<rparr>) s"
  have d: "length ?d = 27" using date_length [of "dc_now s"] t by (simp add: time_ok_def)
  have b: "blank y = blank x" "length y = 256" using x(2) d by (simp_all add: y_def blank_blit)
  have f: "take 27 (drop 22 y) = ?d"
    using x(2,3) d t by (auto simp: y_def dated_def time_ok_def blit_def)
  then have "stamp (Some y) (dc_now s) = stamp (Some x) (ce_respHeaderTime ?e)" using x(3) b by (simp add: stamp_def dated_def)
  then have "noise (cmeta (ces ?s) q) = noise (cmeta (ces s) q)" for q using a x(1) by (simp add: noise_def)
  then have "same_struct s ?s" using a by (simp add: same_struct_def)
  moreover have "header_out p s = Inr (take (nat (ce_respHeaderLen ?e)) y, ?s)"
    using a x(1,2) n by (simp add: header_out_def dc_access y_def Let_def)
  moreover have "header_of ?e (dc_now s) (take (nat (ce_respHeaderLen ?e)) y)"
    using x(1) b n f t by (auto simp: header_of_def blank_take drop_take time_ok_def)
  ultimately show ?thesis by force
qed

section \<open>A write\<close>

text \<open>What a client was sent of a file: a header, possibly more than once, and the file up to where
  the connection is. A connection that is closed by force may stop within.\<close>

definition sent_file :: "CacheEntry \<Rightarrow> string \<Rightarrow> file_conn \<Rightarrow> bool" where
  "sent_file e f c \<longleftrightarrow> (\<exists>hs. hc_out c = concat hs @ take (nat (hc_bytesSent c)) f \<and> (\<forall>h\<in>set hs. \<exists>now. header_of e now h)
     \<and> (0 < hc_bytesSent c \<longrightarrow> hs \<noteq> []))"

definition sent_some :: "CacheEntry \<Rightarrow> string \<Rightarrow> string \<Rightarrow> bool" where
  "sent_some e f out \<longleftrightarrow> (\<exists>hs. prefix out (concat hs @ f) \<and> (\<forall>h\<in>set hs. \<exists>now. header_of e now h))"

lemma sent_file_some: "sent_file e f c \<Longrightarrow> sent_some e f (hc_out c)"
  unfolding sent_file_def sent_some_def by (metis append_take_drop_id append.assoc prefixI)

lemma sent_header:
  assumes "sent_file e f c" and "hc_bytesSent c = 0" and "header_of e now h"
  shows "sent_file e f (c\<lparr>hc_out := hc_out c @ h @ take k f, hc_bytesSent := int k\<rparr>)" "sent_some e f (hc_out c @ take n (h @ take k f))"
proof -
  obtain hs where hs: "hc_out c = concat hs" "\<forall>h\<in>set hs. \<exists>now. header_of e now h" using assms(1,2) by (auto simp: sent_file_def)
  then have "hc_out c @ h @ take k f = concat (hs @ [h]) @ take k f" "\<forall>x\<in>set (hs @ [h]). \<exists>now. header_of e now x" using assms(3) by auto
  then show "sent_file e f (c\<lparr>hc_out := hc_out c @ h @ take k f, hc_bytesSent := int k\<rparr>)" unfolding sent_file_def by (intro exI [of _ "hs @ [h]"]) simp
  have "prefix (take n (h @ take k f)) (h @ f)"
    by (metis append.assoc append_take_drop_id prefix_def)
  then have "prefix (hc_out c @ take n (h @ take k f)) (concat (hs @ [h]) @ f)" using hs(1) by simp
  moreover have "\<forall>x\<in>set (hs @ [h]). \<exists>now. header_of e now x" using hs(2) assms(3) by auto
  ultimately show "sent_some e f (hc_out c @ take n (h @ take k f))" unfolding sent_some_def by blast
qed

lemma sent_more:
  assumes "sent_file e f c" and "0 < hc_bytesSent c" and "hc_bytesSent c \<le> int (length f)"
  shows "sent_file e f (c\<lparr>hc_out := hc_out c @ take k (drop (nat (hc_bytesSent c)) f), hc_bytesSent := hc_bytesSent c + int k\<rparr>)"
proof -
  have "nat (hc_bytesSent c + int k) = nat (hc_bytesSent c) + k" using assms(2) by simp
  then show ?thesis using assms by (auto simp: sent_file_def take_add)
qed

lemma sent_cong: "hc_out c = hc_out d \<Longrightarrow> hc_bytesSent c = hc_bytesSent d \<Longrightarrow> sent_file e f c = sent_file e f d"
  by (simp add: sent_file_def)

text \<open>What \<open>writev\<close> takes of the header and a part of the file.\<close>

lemma sent_write:
  assumes s: "sent_file e f c" and b: "0 \<le> hc_bytesSent c" "hc_bytesSent c < int (length f)"
    and h: "if hc_bytesSent c = 0 then header_of e now h else h = []" and w: "w \<le> int (length (h @ take k (drop (nat (hc_bytesSent c)) f)))"
    and sz: "sz = (if hc_bytesSent c = 0 \<and> 0 < w then w - int (length h) else w)"
    and d: "hc_out d = hc_out c @ take (nat w) (h @ take k (drop (nat (hc_bytesSent c)) f))" "hc_bytesSent d = hc_bytesSent c + sz"
  shows "0 \<le> sz \<Longrightarrow> sent_file e f d" "sent_some e f (hc_out d)"
proof -
  let ?t = "take k (drop (nat (hc_bytesSent c)) f)"
  show "sent_some e f (hc_out d)"
  proof (cases "hc_bytesSent c = 0")
    case True
    then show ?thesis using sent_header(2) [OF s True] h d by auto
  next
    case False
    have "sent_file e f (c\<lparr>hc_out := hc_out c @ take (min (nat w) k) (drop (nat (hc_bytesSent c)) f), hc_bytesSent := hc_bytesSent c + int (min (nat w) k)\<rparr>)"
      using sent_more [OF s] False b by simp
    from sent_file_some [OF this] show ?thesis using d(1) h False by simp
  qed
  assume nn: "0 \<le> sz"
  show "sent_file e f d"
  proof (cases "hc_bytesSent c = 0 \<and> 0 < w")
    case True
    define m where "m = nat w - length h"
    have m: "nat w = length h + m" "sz = int m" "m \<le> k" "m \<le> length f" using True sz nn w by (auto simp: m_def)
    then have "take (nat w) (h @ ?t) = h @ take m f" using True by (simp add: min_def)
    then show ?thesis using sent_header(1) [OF s, of now h m] True h m d sent_cong [of d "c\<lparr>hc_out := hc_out c @ h @ take m f, hc_bytesSent := int m\<rparr>"] by simp
  next
    case f: False
    show ?thesis
    proof (cases "w \<le> 0")
      case True
      then have "sz = 0" using sz nn f by auto
      then show ?thesis using s d True sent_cong [of d c] by simp
    next
      case False
      then have pos: "0 < hc_bytesSent c" "h = []" using f b h by auto
      then have "take (nat w) (h @ ?t) = take (nat w) (drop (nat (hc_bytesSent c)) f)" using w by (auto simp: min_def split: if_splits)
      then show ?thesis
        using sent_more [OF s pos(1), of "nat w"] b pos d sz False
          sent_cong [of d "c\<lparr>hc_out := hc_out c @ take (nat w) (drop (nat (hc_bytesSent c)) f), hc_bytesSent := hc_bytesSent c + int (nat w)\<rparr>"] by simp
    qed
  qed
qed

lemma keeps_refl: "cache_inv files s R L {} {} cs ms \<Longrightarrow> keeps files s L s R L cs"
  by (auto simp: keeps_def)

lemma wresult_trans:
  assumes k: "keeps files s (add_mset q L) s1 (add_mset p R) (add_mset q L) cs" and w: "wresult files s1 p q R L st c' s'"
    and z: "ce_size (cmeta (ces s1) p) = ce_size (cmeta (ces s) p)"
  shows "wresult files s p q R L st c' s'"
proof -
  have "keeps files s (add_mset q L) s' R' L' cs'" if "keeps files s1 (add_mset q L) s' R' L' cs'" for R' L' cs'
    using keeps_trans [OF k that] by blast
  then show ?thesis using w unfolding wresult_def z by (cases st) (simp; blast)+
qed

lemma finish_wresult:
  assumes inv: "cache_inv files s (add_mset p R) (add_mset q L) {} {} cs ms" and pg: "page_ok s" and iv: "set (cs Invalid) \<subseteq> set_mset (add_mset p R)"
    and l: "\<forall>q\<in>#L. fst q \<in># R" and x: "hc_cacheEnt x = p" "hc_numChunkLocks x = 1" "0 \<le> hc_bytesSent x" "q = (p, hc_bytesSent x div 65536)" and qm: "q \<in> mapped s"
  shows "\<exists>s'. finish force x s = Some (Inr (Done force, x, s')) \<and> wresult files s p q R L (Done force) x s'"
proof -
  obtain s' cs' where s': "finish force x s = Some (Inr (Done force, x, s'))" "keeps files s L s' R L cs'" "set (cs' Invalid) \<subseteq> set_mset R"
    using finish_ok [of files s x R L q cs ms force] inv pg iv l x qm by auto
  then show ?thesis using keeps_more [OF s'(2), of q] by (auto simp: wresult_def)
qed

text \<open>What a write promises about the bytes sent.\<close>

definition sent_step :: "CacheEntry \<Rightarrow> string \<Rightarrow> wstep \<Rightarrow> file_conn \<Rightarrow> bool" where
  "sent_step e f st c \<longleftrightarrow> (hc_method c = METHOD_GET \<longrightarrow> sent_some e f (hc_out c) \<and> (st \<noteq> Done True \<longrightarrow> sent_file e f c)
     \<and> (st = Done False \<longrightarrow> hc_bytesSent c = ce_size e))"

lemma after_write_ok:
  assumes inv: "cache_inv files s (add_mset p R) (add_mset q L) {} {} cs ms" and pg: "page_ok s" and iv: "set (cs Invalid) \<subseteq> set_mset (add_mset p R)"
    and l: "\<forall>q\<in>#L. fst q \<in># R" and c: "hc_cacheEnt c = p" "hc_numChunkLocks c = 1" "0 \<le> hc_bytesSent c" "hc_bytesSent c < ce_size (cmeta (ces s) p)"
    and q: "q = (p, hc_bytesSent c div 65536)" "q \<in> mapped s"
    and e: "ce_size e = ce_size (cmeta (ces s) p)" "ce_respHeaderLen e \<noteq> 0" "int (length f) = ce_size e"
    and h: "if hc_bytesSent c = 0 then header_of e now h \<and> int (length h) = ce_respHeaderLen e else h = []"
    and k: "0 \<le> k" "k \<le> left_in_chunk (ce_size e) (hc_bytesSent c)" and b: "body = (if hc_method c = METHOD_GET then take (nat k) (drop (nat (hc_bytesSent c)) f) else [])"
    and w: "w \<le> int (length (h @ body))" and se: "hc_method c = METHOD_GET \<longrightarrow> sent_file e f c"
  shows "\<exists>st c' s'. after_write testing w h body e c s = Some (Inr (st, c', s')) \<and> wresult files s p q R L st c' s' \<and> hc_method c' = hc_method c
    \<and> sent_step e f st c' \<and> st \<noteq> Read_First"
proof -
  define c1 where "c1 = c\<lparr>hc_out := hc_out c @ take (nat w) (h @ body)\<rparr>"
  define z where "z = (if hc_bytesSent c = 0 \<and> 0 < w then w - int (length h) else w)"
  have z': "(if hc_bytesSent c = 0 \<and> ce_respHeaderLen e \<noteq> 0 \<and> 0 < w then w - ce_respHeaderLen e else w) = z" using h e(2) by (auto simp: z_def)
  have c1: "hc_cacheEnt c1 = p" "hc_numChunkLocks c1 = 1" "hc_bytesSent c1 = hc_bytesSent c" "hc_method c1 = hc_method c"
    "hc_out c1 = hc_out c @ take (nat w) (h @ body)" using c by (simp_all add: c1_def)
  have A: "after_write testing w h body e c s = (if w \<le> 0 \<and> testing then Some (Inr (Nothing_Taken, c1, s))
      else if hc_method c = METHOD_HEAD then finish False c1 s else if z < 0 then finish True c1 s else move_on (ce_size e) z c1 s)"
    unfolding after_write_def Let_def z' by (simp add: c1_def)
  have some: "sent_some e f (hc_out d)" and whole: "0 \<le> z \<Longrightarrow> hc_bytesSent d = hc_bytesSent c + z \<Longrightarrow> sent_file e f d"
    if "hc_method c = METHOD_GET" "hc_out d = hc_out c1" for d
  proof -
    note * = sent_write [of e f c now h w "nat k" z] 
    have hh: "if hc_bytesSent c = 0 then header_of e now h else h = []" using h by (auto split: if_splits)
    have s: "sent_file e f c" "hc_bytesSent c < int (length f)" "body = take (nat k) (drop (nat (hc_bytesSent c)) f)" using se that b c(4) e by auto
    show "sent_some e f (hc_out d)" using *(2) [of "d\<lparr>hc_bytesSent := hc_bytesSent c + z\<rparr>"] s hh c w z_def that c1 by simp
    show "0 \<le> z \<Longrightarrow> hc_bytesSent d = hc_bytesSent c + z \<Longrightarrow> sent_file e f d" using *(1) [of d] s hh c w z_def that c1 by simp
  qed
  have fin: "\<exists>s'. finish force c1 s = Some (Inr (Done force, c1, s')) \<and> wresult files s p q R L (Done force) c1 s'" for force
    using finish_wresult [OF inv pg iv l, of c1 force] c1 c(3) q by simp
  consider "w \<le> 0 \<and> testing" | "\<not> (w \<le> 0 \<and> testing)" "hc_method c = METHOD_HEAD \<or> z < 0" | "\<not> (w \<le> 0 \<and> testing)" "hc_method c \<noteq> METHOD_HEAD" "0 \<le> z" by linarith
  then show ?thesis
  proof cases
    case 1
    then have "c1 = c" by (simp add: c1_def)
    moreover have "wresult files s p q R L Nothing_Taken c s" using keeps_refl [OF inv] iv c q by (auto simp: wresult_def)
    ultimately show ?thesis using A 1 se sent_file_some [of e f c] by (auto simp: sent_step_def)
  next
    case 2
    then obtain force where F: "after_write testing w h body e c s = finish force c1 s" "force \<or> hc_method c = METHOD_HEAD" using A by (cases "hc_method c = METHOD_HEAD") auto
    then show ?thesis using fin [of force] some [of c1] c1 by (auto simp: sent_step_def)
  next
    case 3
    have zl: "z \<le> left_in_chunk (ce_size (cmeta (ces s) p)) (hc_bytesSent c)"
    proof -
      have "int (length body) \<le> k" using b k(1) by (auto simp: min_def)
      moreover have "z \<le> int (length body) \<or> z \<le> 0" using w h by (auto simp: z_def split: if_splits)
      moreover have "0 < left_in_chunk (ce_size e) (hc_bytesSent c)" using c e by (simp add: left_in_chunk_def)
      ultimately show ?thesis using k(2) e(1) by auto
    qed
    obtain st c' s' where m: "move_on (ce_size e) z c1 s = Some (Inr (st, c', s'))" "wresult files s p q R L st c' s'" "hc_bytesSent c' = hc_bytesSent c + z"
      "hc_out c' = hc_out c1" "hc_method c' = hc_method c" "st = More \<or> st = Done False \<and> hc_bytesSent c' = ce_size e"
      using move_on_ok [OF inv pg iv l, of c1 z] c1 c q 3(3) zl e(1) by auto
    have "sent_step e f st c'" using some [of c'] whole [of c'] m(3-6) 3(3) by (auto simp: sent_step_def)
    moreover have "after_write testing w h body e c s = Some (Inr (st, c', s'))" using A 3 m(1) by simp
    ultimately show ?thesis using m(2,5,6) by blast
  qed
qed

lemma DoSingleWriteBackend_ok:
  assumes inv: "cache_inv files s (add_mset p R) (add_mset q L) {} {} cs ms" and pg: "page_ok s" and iv: "set (cs Invalid) \<subseteq> set_mset (add_mset p R)"
    and l: "\<forall>q\<in>#L. fst q \<in># R" and c: "hc_cacheEnt c = p" "hc_numChunkLocks c = 1" "0 \<le> hc_bytesSent c" "hc_bytesSent c < ce_size (cmeta (ces s) p)"
    and q: "q = (p, hc_bytesSent c div 65536)" and hd: "header_ok (cmeta (ces s) p)" and t: "time_ok s" and w: "\<forall>x. writev x \<le> int (length x)"
    and se: "hc_method c = METHOD_GET \<longrightarrow> sent_file (cmeta (ces s) p) (files (fname s p)) c"
  shows "\<exists>st c' s'. DoSingleWriteBackend sb testing writev c s = Some (Inr (st, c', s')) \<and> wresult files s p q R L st c' s' \<and> hc_method c' = hc_method c
    \<and> sent_step (cmeta (ces s) p) (files (fname s p)) st c' \<and> (st = Read_First \<longleftrightarrow> q \<notin> mapped s)"
proof -
  let ?e = "cmeta (ces s) p" let ?f = "files (fname s p)" let ?b = "hc_bytesSent c" let ?n = "left_in_chunk (ce_size ?e) ?b"
  note i = inv [unfolded cache_inv_def]
  have pr: "p \<in> resident cs" and ap: "calive (ces s) p" and en: "entry_ok files s (add_mset p R) p" using i by auto
  have fe: "file_entry files ?e" using en by (simp add: entry_ok_def Let_def)
  then have sz: "ce_size ?e = int (length ?f)" "0 < ce_size ?e" by (auto simp: file_entry_def fname_def)
  let ?d = "the (ces s p)"
  define c0 where "c0 = set_sndbuf sb ?d c"
  have c0: "hc_cacheEnt c0 = p" "hc_numChunkLocks c0 = 1" "hc_bytesSent c0 = ?b" "hc_method c0 = hc_method c" "hc_out c0 = hc_out c" using c by (simp_all add: c0_def set_sndbuf_def)
  define m where "m = max_buf ?d c0"
  have d: "0 \<le> PowerOf2LessThanEqual m" using PowerOf2_range [of m] by linarith
  have hl: "ce_respHeaderLen ?e \<noteq> 0" using hd by (auto simp: header_ok_def)
  note g = GetDataToSend_ok [OF inv pr c(3,4) d q, of m]
  have D: "DoSingleWriteBackend sb testing writev c s = obind (GetDataToSend p ?b (PowerOf2LessThanEqual m) m s) (\<lambda>(dat, n, off).
     if n \<noteq> 0 \<and> dat = None then Some (Inr (Read_First, c0, s)) else if n = 0 \<and> ce_size ?e \<noteq> 0 then finish True c0 s else write_out testing writev dat n off ?d c0 s)"
    unfolding DoSingleWriteBackend_def c(1) ce_at_alive [OF ap] obind.simps Let_def c0_def [symmetric] m_def [symmetric] c0(1,3) ce_fields ..
  show ?thesis
  proof (cases "q \<in> mapped s")
    case False
    have "0 < ?n" using last_chunk(3) [OF fe c(3,4)] .
    then have "DoSingleWriteBackend sb testing writev c s = Some (Inr (Read_First, c0, s))" using False g D by simp
    moreover have "wresult files s p q R L Read_First c0 s" using keeps_refl [OF inv] iv c c0 q by (auto simp: wresult_def)
    ultimately show ?thesis using False se c0 sent_cong [of c0 c] sent_file_some [of ?e ?f c] by (auto simp: sent_step_def)
  next
    case qm: True
    then obtain k where k: "GetDataToSend p ?b (PowerOf2LessThanEqual m) m s = Some (Inr (Some (chunk_bytes ?f (snd q)), k, Some (?b mod 65536)))" "0 \<le> k" "k \<le> ?n"
      using g by auto
    show ?thesis
    proof (cases "k = 0")
      case True
      then have "DoSingleWriteBackend sb testing writev c s = finish True c0 s" using D k(1) sz(2) by simp
      then show ?thesis using finish_wresult [OF inv pg iv l c0(1,2)] c0 c(3) q qm se sent_file_some [of ?e ?f c] by (fastforce simp: sent_step_def)
    next
      case False
      obtain h s1 where h: "(if ?b = 0 \<and> ce_respHeaderLen ?d \<noteq> 0 then header_out p s else Inr ([], s)) = Inr (h, s1)" "same_struct s s1" "dc_now s1 = dc_now s"
        "if ?b = 0 then header_of ?e (dc_now s) h else h = []"
        using header_out_ok [OF ap hd t] hl by (cases "?b = 0") (auto simp: same_struct_def ce_fields)
      let ?body = "if hc_method c = METHOD_GET then take (nat k) (drop (nat ?b) ?f) else []"
      have b: "(if hc_method c = METHOD_GET \<and> k \<noteq> 0 then data_out (Some (chunk_bytes ?f (snd q))) (Some (?b mod 65536)) k else Inr []) = Inr ?body"
        using data_out_ok [of ?f "ce_size ?e" ?b k] sz c k False q by simp
      have W: "DoSingleWriteBackend sb testing writev c s = after_write testing (writev (h @ ?body)) h ?body ?d c0 s1"
      proof -
        have "write_out testing writev (Some (chunk_bytes ?f (snd q))) k (Some (?b mod 65536)) ?d c0 s = after_write testing (writev (h @ ?body)) h ?body ?d c0 s1"
          unfolding write_out_def c0 h(1) obind.simps prod.case b ..
        then show ?thesis using D k(1) False by (simp only: obind.simps prod.case) simp
      qed
      have k1: "keeps files s (add_mset q L) s1 (add_mset p R) (add_mset q L) cs" using keeps_struct [OF inv h(2,3)] .
      have i1: "cache_inv files s1 (add_mset p R) (add_mset q L) {} {} cs ms" using inv inv_same_struct [OF h(2)] by simp
      have z1: "ce_size (cmeta (ces s1) p) = ce_size ?e" using h(2) core_fields(2) [OF noise_core] unfolding same_struct_def by blast
      have hh: "if ?b = 0 then header_of ?e (dc_now s) h \<and> int (length h) = ce_respHeaderLen ?e else h = []" using h(4) hd by (auto simp: header_of_def header_ok_def)
      have qm1: "q \<in> mapped s1" using k1 qm by (auto simp: keeps_def)
      have hd': "header_of ?d = header_of ?e" "ce_size ?d = ce_size ?e" "ce_respHeaderLen ?d = ce_respHeaderLen ?e"
        by (simp_all add: fun_eq_iff header_of_def ce_fields)
      have sd: "sent_file ?d = sent_file ?e" "sent_step ?d = sent_step ?e" by (simp_all add: fun_eq_iff sent_file_def sent_step_def sent_some_def hd')
      obtain st c' s' where r: "after_write testing (writev (h @ ?body)) h ?body ?d c0 s1 = Some (Inr (st, c', s'))" "wresult files s1 p q R L st c' s'"
        "hc_method c' = hc_method c0" "sent_step ?d ?f st c'" "st \<noteq> Read_First"
      proof -
        have pg1: "page_ok s1" using keeps_page [OF k1] pg by simp
        have x: "0 \<le> hc_bytesSent c0" "hc_bytesSent c0 < ce_size (cmeta (ces s1) p)" "q = (p, hc_bytesSent c0 div 65536)" using c0(3) c(3,4) z1 q by simp_all
        have y: "ce_size ?d = ce_size (cmeta (ces s1) p)" "ce_respHeaderLen ?d \<noteq> 0" "int (length ?f) = ce_size ?d" using z1 hd' hl sz by simp_all
        have hh0: "if hc_bytesSent c0 = 0 then header_of ?d (dc_now s) h \<and> int (length h) = ce_respHeaderLen ?d else h = []" using hh unfolding hd' c0(3) .
        have kk: "k \<le> left_in_chunk (ce_size ?d) (hc_bytesSent c0)" using k(3) by (simp add: hd' c0(3))
        have bb: "?body = (if hc_method c0 = METHOD_GET then take (nat k) (drop (nat (hc_bytesSent c0)) ?f) else [])" by (simp only: c0)
        have ww: "writev (h @ ?body) \<le> int (length (h @ ?body))" using w by blast
        have ss: "hc_method c0 = METHOD_GET \<longrightarrow> sent_file ?d ?f c0" using se sent_cong [of c0 c] c0 unfolding sd by simp
        show thesis using after_write_ok [OF i1 pg1 iv l c0(1,2) x qm1 y hh0 k(2) kk bb ww ss] that by blast
      qed
      show ?thesis using W r wresult_trans [OF k1 r(2) z1] qm c0(4) sd by auto
    qed
  qed
qed

end
