(* ===== verification/Flash_Coldfile_Correct.thy ===== *)
theory Flash_Coldfile_Correct
  imports Flash_Coldfile Flash_Hotfile_Write
begin

text \<open>
  Opening a file with flash: the header that is made for it fits into its array if the type and the
  encodings are not too long, is padded as intended, and the entry that is made keeps the invariant
  of the data cache.
\<close>

declare split_paired_All [simp del] split_paired_Ex [simp del]

section \<open>The header\<close>

lemma obind_Inr: "obind x f = Some (Inr y) \<longleftrightarrow> (\<exists>z. x = Some (Inr z) \<and> f z = Some (Inr y))"
  by (cases "(x, f)" rule: obind.cases) auto

text \<open>The length of a text after padding.\<close>

definition padded :: "bool \<Rightarrow> nat \<Rightarrow> nat" where
  "padded pads m = (if pads then (m + 31) div 32 * 32 else m)"

lemma padded_step: "m mod 32 \<noteq> 0 \<Longrightarrow> padded True m = m + (32 - m mod 32)" "m mod 32 = 0 \<Longrightarrow> padded True m = m" "padded True m mod 32 = 0" "m \<le> padded pads m"
proof -
  have d: "m = 32 * (m div 32) + m mod 32" by simp
  show "m mod 32 \<noteq> 0 \<Longrightarrow> padded True m = m + (32 - m mod 32)"
  proof -
    assume "m mod 32 \<noteq> 0"
    then have "(m + 31) div 32 = m div 32 + 1" using d mod_less_divisor [of 32 m] by linarith
    then have "padded True m = 32 * (m div 32) + 32" by (simp add: padded_def)
    then show ?thesis using d mod_less_divisor [of 32 m] by linarith
  qed
  show "m mod 32 = 0 \<Longrightarrow> padded True m = m" using d by (auto simp: padded_def)
  show "padded True m mod 32 = 0" "m \<le> padded pads m" using d by (auto simp: padded_def)
qed

lemma take_blit_nul: "length t < length sp \<Longrightarrow> take (length t) (blit sp 0 (t @ [NUL])) = t"
  by (simp add: blit_def)

lemma header_loop_eq:
  assumes t: "\<And>pad. length (tx pad) = m + length pad" and sp: "length sp = 256"
  shows "if 256 \<le> padded pads m then header_loop tx pads [] sp = Some (Inl BufferOverflow)
    else \<exists>b. header_loop tx pads [] sp = Some (Inr (b, int (padded pads m))) \<and> length b = 256
      \<and> take (padded pads m) b = tx (replicate (padded pads m - m) (CHR '' ''))"
proof (cases "256 \<le> m \<or> \<not> pads \<or> m mod 32 = 0")
  case True
  then have e: "padded pads m = m \<or> 256 \<le> m \<and> 256 \<le> padded pads m" using padded_step(2,4) [of m] by (auto simp: padded_def)
  have "header_loop tx pads [] sp = (if 256 \<le> m then Some (Inl BufferOverflow) else Some (Inr (blit sp 0 (tx [] @ [NUL]), int m)))"
    using True by (subst header_loop.simps) (auto simp: Let_def t sp)
  then show ?thesis using e take_blit_nul [of "tx []" sp] t [of "[]"] sp by auto
next
  case False
  let ?pad = "replicate (32 - m mod 32) (CHR '' '')" let ?b = "blit sp 0 (tx [] @ [NUL])"
  have e: "padded pads m = m + (32 - m mod 32)" "padded pads m mod 32 = 0" "length (tx ?pad) = padded pads m" using False padded_step(1,3) [of m] t by simp_all
  have lb: "length ?b = 256" using sp t [of "[]"] False by simp
  have "header_loop tx pads [] sp = header_loop tx pads ?pad ?b" using False by (subst header_loop.simps) (simp add: Let_def t sp)
  also have "\<dots> = (if 256 \<le> padded pads m then Some (Inl BufferOverflow) else Some (Inr (blit ?b 0 (tx ?pad @ [NUL]), int (padded pads m))))"
    using e lb by (subst header_loop.simps) (simp add: Let_def)
  finally have h: "header_loop tx pads [] sp = \<dots>" .
  have "length (blit ?b 0 (tx ?pad @ [NUL])) = 256" if "\<not> 256 \<le> padded pads m" using lb e that by (subst length_blit) simp_all
  moreover have "padded pads m - m = 32 - m mod 32" using e by simp
  ultimately show ?thesis using h e lb take_blit_nul [of "tx ?pad" ?b] by simp
qed

text \<open>The text of a header, and that it fits.\<close>

definition resp_text :: "CacheEntry \<Rightarrow> int \<Rightarrow> string" where
  "resp_text e now = (let tx = (\<lambda>pad. mime_text 200 ok200title (MakeHTTPDate now) pad (cstr (the (ce_encodings e))) [] (the (ce_type e)) (ce_size e) (MakeHTTPDate (ce_modTime e)))
     in tx (replicate (padded (ce_size e > 3000) (length (tx [])) - length (tx [])) (CHR '' '')))"

definition mime_fits :: "string \<Rightarrow> string \<Rightarrow> bool" where
  "mime_fits enc type \<longleftrightarrow> length type + (if enc = [] then 0 else 19 + length enc) \<le> 53"

lemma mime_text_length:
  "length (mime_text code title date pad enc [] type len modified) = length (mime_text code title date [] enc [] type len modified) + length pad"
  by (simp add: mime_text_def)

lemma mime_text_bounds:
  assumes "length date = 29" "length modified = 29" "int_range len"
  shows "49 \<le> length (mime_text 200 ok200title date [] enc [] type len modified)"
    "mime_fits enc type \<Longrightarrow> length (mime_text 200 ok200title date [] enc [] type len modified) \<le> 224"
proof -
  have c: "show_int 200 = ''200''" by code_simp
  show "49 \<le> length (mime_text 200 ok200title date [] enc [] type len modified)"
    "mime_fits enc type \<Longrightarrow> length (mime_text 200 ok200title date [] enc [] type len modified) \<le> 224"
    using assms length_show_int_le [of len] by (auto simp: mime_text_def mime_fits_def c)
qed

lemma CalcRespHeader_eq:
  assumes a: "ces s p = Some e" "ce_encodings e = Some enc" "ce_type e = Some type" "ce_respHeader e = None" and al: "alloc 256 = Some sp" "length sp = 256"
  shows "if 256 \<le> length (resp_text e (dc_now s)) then CalcRespHeader alloc p 200 ok200title s = Some (Inl BufferOverflow)
    else \<exists>b. CalcRespHeader alloc p 200 ok200title s = Some (Inr (False, upd_ce p (\<lambda>x. x\<lparr>ce_respHeader := Some b, ce_respHeaderLen := int (length (resp_text e (dc_now s)))\<rparr>) s))
      \<and> length b = 256 \<and> take (length (resp_text e (dc_now s))) b = resp_text e (dc_now s)"
proof -
  define tx where "tx = (\<lambda>pad. mime_text 200 ok200title (MakeHTTPDate (dc_now s)) pad (cstr enc) [] type (ce_size e) (MakeHTTPDate (ce_modTime e)))"
  let ?m = "length (tx [])" let ?n = "padded (ce_size e > 3000) ?m"
  have t: "length (tx pad) = ?m + length pad" for pad using mime_text_length [of _ _ _ pad] by (simp add: tx_def)
  have r: "resp_text e (dc_now s) = tx (replicate (?n - ?m) (CHR '' ''))" using a by (simp add: resp_text_def tx_def Let_def)
  then have n: "length (resp_text e (dc_now s)) = ?n" using t [of "replicate (?n - ?m) (CHR '' '')"] padded_step(4) [of ?m "ce_size e > 3000"] by simp
  have c: "CalcRespHeader alloc p 200 ok200title s = obind (header_loop tx (ce_size e > 3000) [] sp) (\<lambda>(b, n).
      Some (Inr (False, upd_ce p (\<lambda>e. e\<lparr>ce_respHeader := Some b, ce_respHeaderLen := n\<rparr>) s)))"
    using a al by (simp add: CalcRespHeader_def ce_at_def put_ce_def flip: tx_def)
  show ?thesis
  proof (cases "256 \<le> ?n")
    case True
    then show ?thesis using header_loop_eq [of tx ?m sp "ce_size e > 3000", OF t al(2)] c n by simp
  next
    case False
    then obtain b where b: "header_loop tx (ce_size e > 3000) [] sp = Some (Inr (b, int ?n))" "length b = 256" "take ?n b = tx (replicate (?n - ?m) (CHR '' ''))"
      using header_loop_eq [of tx ?m sp "ce_size e > 3000", OF t al(2)] by auto
    have "CalcRespHeader alloc p 200 ok200title s = Some (Inr (False, upd_ce p (\<lambda>e. e\<lparr>ce_respHeader := Some b, ce_respHeaderLen := int ?n\<rparr>) s))"
      using c b(1) by simp
    moreover have "take ?n b = resp_text e (dc_now s)" using b(3) r by simp
    ultimately show ?thesis using False b(2) n by auto
  qed
qed

lemma resp_text_bounds:
  assumes "0 \<le> now" "now < 4102444800" "0 \<le> ce_modTime e" "ce_modTime e < 4102444800" "int_range (ce_size e)"
  shows "49 \<le> length (resp_text e now)" "mime_fits (cstr (the (ce_encodings e))) (the (ce_type e)) \<Longrightarrow> length (resp_text e now) < 256"
    "3000 < ce_size e \<Longrightarrow> length (resp_text e now) mod 32 = 0"
proof -
  define tx where "tx = (\<lambda>pad. mime_text 200 ok200title (MakeHTTPDate now) pad (cstr (the (ce_encodings e))) [] (the (ce_type e)) (ce_size e) (MakeHTTPDate (ce_modTime e)))"
  let ?n = "padded (ce_size e > 3000) (length (tx []))"
  have "resp_text e now = tx (replicate (?n - length (tx [])) (CHR '' ''))" by (simp add: resp_text_def tx_def Let_def)
  moreover have "length (tx (replicate (?n - length (tx [])) (CHR '' ''))) = length (tx []) + length (replicate (?n - length (tx [])) (CHR '' ''))"
    unfolding tx_def by (rule mime_text_length)
  ultimately have l: "length (resp_text e now) = ?n" using padded_step(4) [of "length (tx [])" "ce_size e > 3000"] by simp
  note mime_text_bounds [OF date_length [OF assms(1,2)] date_length [OF assms(3,4)] assms(5), of "cstr (the (ce_encodings e))" "the (ce_type e)"]
  then have b: "49 \<le> length (tx [])" "mime_fits (cstr (the (ce_encodings e))) (the (ce_type e)) \<Longrightarrow> length (tx []) \<le> 224" by (simp_all add: tx_def)
  show "49 \<le> length (resp_text e now)" using l b(1) padded_step(4) [of "length (tx [])" "ce_size e > 3000"] by linarith
  show "3000 < ce_size e \<Longrightarrow> length (resp_text e now) mod 32 = 0" using l padded_step(3) by simp
  assume "mime_fits (cstr (the (ce_encodings e))) (the (ce_type e))"
  from b(2) [OF this] have "?n \<le> 224" by (auto simp: padded_def)
  then show "length (resp_text e now) < 256" using l by simp
qed

text \<open>At another time only the date is different.\<close>

lemma date_end: "0 \<le> t \<Longrightarrow> t < 4102444800 \<Longrightarrow> MakeHTTPDate t = take 27 (MakeHTTPDate t) @ ''MT''"
proof -
  assume "0 \<le> t" "t < 4102444800"
  then have l: "length (MakeHTTPDate t) = 29" by (rule date_length)
  obtain xs where xs: "MakeHTTPDate t = xs @ '' GMT''" by (simp add: MakeHTTPDate_def Let_def)
  then have "drop 27 (MakeHTTPDate t) = ''MT''" using l by simp
  then show ?thesis by (metis append_take_drop_id)
qed

lemma resp_text_split: "\<exists>pre post. length pre = 22 \<and> (\<forall>t. 0 \<le> t \<and> t < 4102444800 \<longrightarrow> resp_text e t = pre @ take 27 (MakeHTTPDate t) @ post)"
proof -
  let ?pre = "''HTTP/1.0 '' @ show_int 200 @ '' '' @ ok200title @ [LF] @ ''Date: ''"
  let ?post = "\<lambda>pad. LF # ''Server: '' @ SERVER_SOFTWARE @ pad @ (if cstr (the (ce_encodings e)) = [] then [] else LF # ''Content-Encoding: '' @ cstr (the (ce_encodings e))) @ [LF] @
     ''Content-Type: '' @ the (ce_type e) @ (if 0 \<le> ce_size e then LF # ''Content-Length: '' @ show_int (ce_size e) else []) @ [LF] @
     ''Last-Modified: '' @ MakeHTTPDate (ce_modTime e) @ [LF, LF]"
  let ?n = "51 + length (?post [])"
  let ?pad = "replicate (padded (ce_size e > 3000) ?n - ?n) (CHR '' '')"
  have c: "show_int 200 = ''200''" by code_simp
  have m: "mime_text 200 ok200title d pad (cstr (the (ce_encodings e))) [] (the (ce_type e)) (ce_size e) (MakeHTTPDate (ce_modTime e)) = ?pre @ d @ ?post pad" for d pad
    by (simp add: mime_text_def)
  have "resp_text e t = ?pre @ take 27 (MakeHTTPDate t) @ (''MT'' @ ?post ?pad)" if t: "0 \<le> t \<and> t < 4102444800" for t
  proof -
    have "length (?pre @ MakeHTTPDate t @ ?post []) = ?n" using date_length [of t] t by (simp add: c)
    then have "resp_text e t = ?pre @ MakeHTTPDate t @ ?post ?pad" unfolding resp_text_def Let_def m by (simp only:)
    then show ?thesis using date_end [of t] t by (metis append.assoc)
  qed
  moreover have "length ?pre = 22" by (simp add: c)
  ultimately show ?thesis by blast
qed

lemma blank_eqI: "blank x = blank y \<Longrightarrow> take 27 (drop 22 x) = take 27 (drop 22 y) \<Longrightarrow> x = y"
proof (rule nth_equalityI)
  assume b: "blank x = blank y" and d: "take 27 (drop 22 x) = take 27 (drop 22 y)"
  show l: "length x = length y" using arg_cong [OF b, of length] by simp
  fix i assume i: "i < length x"
  show "x ! i = y ! i"
  proof (cases "22 \<le> i \<and> i < 49")
    case True
    then have "take 27 (drop 22 x) ! (i - 22) = take 27 (drop 22 y) ! (i - 22)" "i - 22 < 27" using d by simp_all linarith
    then show ?thesis using True i l by simp
  next
    case False
    then show ?thesis using arg_cong [OF b, of "\<lambda>z. z ! i"] i l by (auto simp: blank_def)
  qed
qed

lemma blank_resp_text:
  assumes "0 \<le> t" "t < 4102444800" "0 \<le> t'" "t' < 4102444800"
  shows "blank (resp_text e t) = blank (resp_text e t')" "take 27 (drop 22 (resp_text e t)) = take 27 (MakeHTTPDate t)" "length (resp_text e t) = length (resp_text e t')"
proof -
  obtain pre post where r: "length pre = 22" "\<And>t. 0 \<le> t \<and> t < 4102444800 \<Longrightarrow> resp_text e t = pre @ take 27 (MakeHTTPDate t) @ post" using resp_text_split by blast
  have l: "length (MakeHTTPDate t) = 29" "length (MakeHTTPDate t') = 29" using date_length assms by auto
  have "resp_text e t = blit (resp_text e t') 22 (take 27 (MakeHTTPDate t))" using r assms l by (simp add: blit_def)
  then show "blank (resp_text e t) = blank (resp_text e t')" using r assms l by (simp add: blank_blit)
  show "take 27 (drop 22 (resp_text e t)) = take 27 (MakeHTTPDate t)" "length (resp_text e t) = length (resp_text e t')" using r assms l by simp_all
qed

text \<open>An entry with its header.\<close>

definition headed :: "CacheEntry \<Rightarrow> bool" where
  "headed e \<longleftrightarrow> header_ok e \<and> (\<exists>x t. ce_respHeader e = Some x \<and> 0 \<le> t \<and> t < 4102444800 \<and> ce_respHeaderLen e = int (length (resp_text e t))
     \<and> take (length (resp_text e t)) (blank x) = blank (resp_text e t))"

lemma headed_text:
  assumes "headed e" and "header_of e now h"
  shows "h = resp_text e now"
proof (rule blank_eqI)
  obtain x t where x: "ce_respHeader e = Some x" "0 \<le> t" "t < 4102444800" "ce_respHeaderLen e = int (length (resp_text e t))" "take (length (resp_text e t)) (blank x) = blank (resp_text e t)"
    using assms(1) by (auto simp: headed_def)
  have h: "blank h = take (length h) (blank x)" "length h = length (resp_text e t)" "take 27 (drop 22 h) = take 27 (MakeHTTPDate now)" "0 < now" "now < 4102444800"
    using assms(2) x by (auto simp: header_of_def)
  note b = blank_resp_text [of now t e]
  show "blank h = blank (resp_text e now)" "take 27 (drop 22 h) = take 27 (drop 22 (resp_text e now))" using h x b by simp_all
qed

section \<open>A new entry\<close>

abbreviation with_ce :: "datacache \<Rightarrow> nat \<Rightarrow> CacheEntry \<Rightarrow> datacache" where
  "with_ce s p e \<equiv> s\<lparr>ces := (ces s)(p \<mapsto> e)\<rparr>"

lemma new_ce:
  "ce_at p (with_ce s p e) = Inr e" "put_ce p f (with_ce s p e) = Inr (with_ce s p (f e))" "upd_ce p f (with_ce s p e) = with_ce s p (f e)"
  by (simp_all add: ce_at_def put_ce_def upd_ce_def)

lemma resp_text_cong:
  "ce_encodings e = ce_encodings d \<Longrightarrow> ce_type e = ce_type d \<Longrightarrow> ce_size e = ce_size d \<Longrightarrow> ce_modTime e = ce_modTime d \<Longrightarrow> resp_text e = resp_text d"
  by (simp add: resp_text_def fun_eq_iff)

lemma core_headed:
  assumes "core e = core f"
  shows "headed e = headed f"
proof -
  have "ce_encodings e = ce_encodings f" "ce_type e = ce_type f"
    using arg_cong [OF assms, of ce_encodings] arg_cong [OF assms, of ce_type] by (simp_all add: core_def)
  then have t: "resp_text e = resp_text f" using core_fields [OF assms] by (intro resp_text_cong) auto
  have "fst (stamp (ce_respHeader e) (ce_respHeaderTime e)) = fst (stamp (ce_respHeader f) (ce_respHeaderTime f))"
    "snd (stamp (ce_respHeader e) (ce_respHeaderTime e)) = snd (stamp (ce_respHeader f) (ce_respHeaderTime f))"
    using arg_cong [OF assms, of ce_respHeader] arg_cong [OF assms, of ce_respHeaderTime] by (simp_all add: core_def)
  then have s: "stamp (ce_respHeader e) (ce_respHeaderTime e) = stamp (ce_respHeader f) (ce_respHeaderTime f)" by (simp add: prod_eq_iff)
  show ?thesis
    using stamp_eq [of _ "ce_respHeaderTime e" "ce_respHeader f"] stamp_eq [of _ "ce_respHeaderTime f" "ce_respHeader e"] s core_fields(5) [OF assms]
    unfolding headed_def core_header(1) [OF assms] t by metis
qed

text \<open>An entry with its name, its type and its header.\<close>

definition filled :: "cold_mem \<Rightarrow> string \<Rightarrow> int \<Rightarrow> CacheEntry \<Rightarrow> CacheEntry \<Rightarrow> bool" where
  "filled M u now e e' \<longleftrightarrow> ce_filename e' = Some u \<and> ce_size e' = ce_size e \<and> ce_modTime e' = ce_modTime e \<and> ce_isInvalid e' = ce_isInvalid e
     \<and> ce_respHeaderTime e' = ce_respHeaderTime e \<and> FigureMime (m_alloc M) u = Inr (Some (the (ce_encodings e'), the (ce_type e')))
     \<and> (\<exists>b. ce_respHeader e' = Some b \<and> length b = 256 \<and> take (length (resp_text e' now)) b = resp_text e' now)
     \<and> ce_respHeaderLen e' = int (length (resp_text e' now)) \<and> length (resp_text e' now) < 256"

lemma fill_entry_header:
  assumes e: "ce_respHeader e = None" and fm: "FigureMime (m_alloc M) u = Inr (Some (enc, type))" and al: "m_alloc M 256 = Some sp" "length sp = 256"
  defines "d \<equiv> e\<lparr>ce_encodings := Some enc, ce_type := Some type\<rparr>"
  shows "if 256 \<le> length (resp_text d (dc_now s)) then fill_entry M log p u z (with_ce s p e) = Some (Inl BufferOverflow)
    else \<exists>e'. filled M u (dc_now s) e e' \<and> (\<not> m_filename M \<longrightarrow> (\<exists>s4. fill_entry M log p u z (with_ce s p e) = Some (Inr (Cold_Err (Some 500), Some p, s4))))
      \<and> (m_filename M \<longrightarrow> fill_entry M log p u z (with_ce s p e) =
      obind (Some (AddEntryToDataCache (m_chunks M) p (with_ce s p e'))) (\<lambda>(err, s5).
         if err then obind (Some (ce_at p s5)) (\<lambda>e. Some (Inr (Cold_Err None, Some p, s5\<lparr>dc_closed := ce_file_fd e # dc_closed s5\<rparr>)))
         else Some (Inr (Cold_Ok p, None, s5))))"
proof -
  let ?s = "with_ce s p d" let ?n = "length (resp_text d (dc_now s))"
  have dn: "dc_now ?s = dc_now s" by simp
  have d: "ces ?s p = Some d" "ce_encodings d = Some enc" "ce_type d = Some type" "ce_respHeader d = None" using e by (simp_all add: d_def)
  note c = CalcRespHeader_eq [where s = ?s and p = p and alloc = "m_alloc M", OF d al, unfolded dn]
  have f: "fill_entry M log p u z (with_ce s p e) = obind (CalcRespHeader (m_alloc M) p 200 ok200title ?s) (\<lambda>(err, s2).
     if err then Some (Inr (Cold_Err None, Some p, s2))
     else
       obind (Some (if \<not> log then Inr s2
                    else let t = CHR 0x22 # '' 200 '' @ show_int (signed_take_bit 31 z) @ [LF] in
                      if m_200Resp M then put_ce p (\<lambda>e. e\<lparr>ce_200Resp := Some t, ce_200RespLen := int (length t)\<rparr>) s2
                      else put_ce p (\<lambda>e. e\<lparr>ce_200Resp := None\<rparr>) s2)) (\<lambda>s3.
       obind (Some (put_ce p (\<lambda>e. e\<lparr>ce_filename := if m_filename M then Some u else None\<rparr>) s3)) (\<lambda>s4.
       if \<not> m_filename M then Some (Inr (Cold_Err (Some 500), Some p, s4))
       else
         obind (Some (AddEntryToDataCache (m_chunks M) p s4)) (\<lambda>(err, s5).
         if err then
           obind (Some (ce_at p s5)) (\<lambda>e. Some (Inr (Cold_Err None, Some p, s5\<lparr>dc_closed := ce_file_fd e # dc_closed s5\<rparr>)))
         else Some (Inr (Cold_Ok p, None, s5))))))"
    unfolding fill_entry_def fm obind.simps new_ce option.case prod.case d_def ..
  show ?thesis
  proof (cases "256 \<le> ?n")
    case True
    then show ?thesis using c f by simp
  next
    case False
    then obtain b where b: "CalcRespHeader (m_alloc M) p 200 ok200title ?s = Some (Inr (False, with_ce s p (d\<lparr>ce_respHeader := Some b, ce_respHeaderLen := int ?n\<rparr>)))"
      "length b = 256" "take ?n b = resp_text d (dc_now s)" using c by (auto simp: new_ce)
    define g where "g = (\<lambda>e :: CacheEntry. if \<not> log then e else if m_200Resp M then
        e\<lparr>ce_200Resp := Some (CHR 0x22 # '' 200 '' @ show_int (signed_take_bit 31 z) @ [LF]), ce_200RespLen := int (length (CHR 0x22 # '' 200 '' @ show_int (signed_take_bit 31 z) @ [LF]))\<rparr>
        else e\<lparr>ce_200Resp := None\<rparr>)"
    define e' where "e' = (g (d\<lparr>ce_respHeader := Some b, ce_respHeaderLen := int ?n\<rparr>))\<lparr>ce_filename := Some u\<rparr>"
    have t: "resp_text e' = resp_text d" by (rule resp_text_cong) (simp_all add: e'_def g_def)
    have "filled M u (dc_now s) e e'" unfolding filled_def t using fm b(2,3) False by (simp add: e'_def g_def d_def)
    moreover have "fill_entry M log p u z (with_ce s p e) =
      obind (Some (AddEntryToDataCache (m_chunks M) p (with_ce s p e'))) (\<lambda>(err, s5).
         if err then obind (Some (ce_at p s5)) (\<lambda>e. Some (Inr (Cold_Err None, Some p, s5\<lparr>dc_closed := ce_file_fd e # dc_closed s5\<rparr>)))
         else Some (Inr (Cold_Ok p, None, s5)))" if "m_filename M"
      unfolding f b(1) obind.simps prod.case using that by (simp add: e'_def g_def new_ce Let_def)
    moreover have "\<exists>s4. fill_entry M log p u z (with_ce s p e) = Some (Inr (Cold_Err (Some 500), Some p, s4))" if "\<not> m_filename M"
      unfolding f b(1) obind.simps prod.case using that by (simp add: new_ce Let_def)
    ultimately show ?thesis using False by auto
  qed
qed

text \<open>What the system tells of a file is true of it.\<close>

definition tells :: "kernel \<Rightarrow> string \<Rightarrow> int \<Rightarrow> int \<Rightarrow> int \<Rightarrow> int \<Rightarrow> bool" where
  "tells K u fileSize modTime z mt \<longleftrightarrow> (if modTime = 0 then k_stat K u = Some mt \<and> k_size K u = z else fileSize = z \<and> modTime = mt)
     \<and> 0 \<le> mt \<and> mt < 4102444800 \<and> 0 < z \<and> z \<le> 2147418112"

abbreviation cold_ce :: "int \<Rightarrow> int \<Rightarrow> int \<Rightarrow> CacheEntry" where
  "cold_ce fd z mt \<equiv> zero_ce\<lparr>ce_file_fd := fd, ce_size := z, ce_modTime := mt\<rparr>"

lemma ColdFileStuff_fill:
  assumes t: "tells K u fileSize modTime z mt" and m: "m_entry M s = Some p" and o: "0 \<le> k_open K u"
  shows "ColdFileStuff K M log u fileSize modTime None s = fill_entry M log p u z (with_ce s p (cold_ce (k_open K u) z mt))"
proof -
  have "signed_take_bit 31 z = z" using t by (intro signed_take_bit_int_eq_self) (auto simp: tells_def)
  then show ?thesis using t m o by (auto simp: ColdFileStuff_def GetEmptyCacheEntry_def new_ce tells_def)
qed

text \<open>What is known of a cache that has an entry more.\<close>

definition gained :: "(string \<Rightarrow> string) \<Rightarrow> datacache \<Rightarrow> nat multiset \<Rightarrow> rir_ptr multiset \<Rightarrow> (cbin \<Rightarrow> nat list) \<Rightarrow> nat \<Rightarrow> string \<Rightarrow> datacache \<Rightarrow> bool" where
  "gained files s R L cs p u s' \<longleftrightarrow> (\<exists>cs' ms'. cache_inv files s' (add_mset p R) L {} {} cs' ms' \<and> cs' Invalid = cs Invalid) \<and> mapped s' = mapped s
     \<and> within_limit s' = within_limit s \<and> page_ok s' = page_ok s \<and> dc_now s' = dc_now s
     \<and> (\<forall>x. x \<noteq> p \<longrightarrow> calive (ces s') x = calive (ces s) x \<and> (calive (ces s) x \<longrightarrow> cmeta (ces s') x = cmeta (ces s) x))
     \<and> fname s' p = u \<and> headed (cmeta (ces s') p) \<and> \<not> calive (ces s) p"

lemma add_filled:
  assumes inv: "cache_inv files s R L {} {} cs ms" and p: "\<not> calive (ces s) p" and t: "time_ok s" and e: "filled M u (dc_now s) (cold_ce fd z mt) e'"
    and z: "z = int (length (files u))" "0 < z" "z \<le> 2147418112" "0 \<le> mt" "mt < 4102444800"
  shows "\<exists>s'. AddEntryToDataCache True p (with_ce s p e') = Inr (False, s') \<and> gained files s R L cs p u s'"
proof -
  note f = e [unfolded filled_def]
  have e': "ce_filename e' = Some u" "ce_size e' = z" "ce_modTime e' = mt" "\<not> ce_isInvalid e'" "ce_respHeaderTime e' = 0" using f by (simp_all add: zero_ce_def)
  have fe: "file_entry files (added e' (dc_now s))" using e' z by (simp add: file_entry_def added_def Let_def)
  obtain s' cs' where s': "AddEntryToDataCache True p (with_ce s p e') = Inr (False, s')" "cache_inv files s' (add_mset p R) L {} {} cs' ms"
    "cs' Invalid = cs Invalid" "mapped s' = mapped s" "within_limit s' = within_limit s" "page_ok s' = page_ok s" "dc_now s' = dc_now s"
    "\<forall>x. x \<noteq> p \<longrightarrow> calive (ces s') x = calive (ces s) x \<and> (calive (ces s) x \<longrightarrow> cmeta (ces s') x = cmeta (ces s) x)"
    "fname s' p = the (ce_filename e')" "core (cmeta (ces s') p) = core ((added e' (dc_now s))\<lparr>ce_nextInHash := None, ce_prevInHash := None, ce_dataChunks := None\<rparr>)"
    using AddEntryToDataCache_ok [OF inv p fe e'(4)] by auto
  have n: "49 \<le> length (resp_text e' (dc_now s))" using resp_text_bounds(1) [of "dc_now s" e'] t z e' by (simp add: time_ok_def int_range_def)
  let ?e = "(added e' (dc_now s))\<lparr>ce_nextInHash := None, ce_prevInHash := None, ce_dataChunks := None\<rparr>"
  obtain b where b: "ce_respHeader e' = Some b" "length b = 256" "take (length (resp_text e' (dc_now s))) b = resp_text e' (dc_now s)" using f by blast
  have "resp_text ?e = resp_text e'" by (rule resp_text_cong) (simp_all add: added_def Let_def)
  moreover have "header_ok ?e" using f e'(5) n by (auto simp: header_ok_def added_def Let_def dated_def)
  ultimately have "headed ?e" unfolding headed_def
    using b f t by (auto simp: added_def Let_def time_ok_def simp flip: blank_take intro!: exI [of _ "dc_now s"])
  then have "headed (cmeta (ces s') p)" using core_headed [OF s'(10)] by simp
  then show ?thesis using s' e'(1) p by (auto simp: gained_def)
qed

lemma ColdFileStuff_Cold_Ok:
  assumes r: "ColdFileStuff K M log u fileSize modTime None s = Some (Inr (Cold_Ok r, cold, s'))" and inv: "cache_inv files s R L {} {} cs ms" and t: "time_ok s"
    and k: "tells K u fileSize modTime (int (length (files u))) mt" and mem: "\<forall>s p. m_entry M s = Some p \<longrightarrow> \<not> calive (ces s) p" "alloc_ok (m_alloc M)"
  shows "cold = None \<and> gained files s R L cs r u s'"
proof -
  let ?z = "int (length (files u))"
  have z: "0 < ?z" "?z \<le> 2147418112" "0 \<le> mt" "mt < 4102444800" using k by (auto simp: tells_def)
  obtain p where p: "m_entry M s = Some p" using r by (cases "m_entry M s") (auto simp: ColdFileStuff_def GetEmptyCacheEntry_def)
  have o: "0 \<le> k_open K u" using r p by (cases "k_open K u < 0") (auto simp: ColdFileStuff_def GetEmptyCacheEntry_def new_ce)
  let ?e = "cold_ce (k_open K u) ?z mt"
  have c: "fill_entry M log p u ?z (with_ce s p ?e) = Some (Inr (Cold_Ok r, cold, s'))" using r ColdFileStuff_fill [OF k p o, of log] by simp
  obtain enc type sp where m: "FigureMime (m_alloc M) u = Inr (Some (enc, type))" "m_alloc M 256 = Some sp"
    using c by (auto simp: fill_entry_def obind_Inr new_ce CalcRespHeader_def zero_ce_def split: option.splits if_splits)
  have sp: "length sp = 256" using mem(2) m(2) by (simp add: alloc_ok_def)
  have e: "ce_respHeader ?e = None" by (simp add: zero_ce_def)
  note fh = fill_entry_header [where s = s and p = p and u = u and z = ?z and log = log, OF e m sp]
  have "\<not> 256 \<le> length (resp_text (?e\<lparr>ce_encodings := Some enc, ce_type := Some type\<rparr>) (dc_now s))" using fh c by auto
  then obtain e' where e': "filled M u (dc_now s) ?e e'" "m_filename M" "fill_entry M log p u ?z (with_ce s p ?e) =
      obind (Some (AddEntryToDataCache (m_chunks M) p (with_ce s p e'))) (\<lambda>(err, s5).
         if err then obind (Some (ce_at p s5)) (\<lambda>e. Some (Inr (Cold_Err None, Some p, s5\<lparr>dc_closed := ce_file_fd e # dc_closed s5\<rparr>)))
         else Some (Inr (Cold_Ok p, None, s5)))" using fh c by (cases "m_filename M") auto
  have "AddEntryToDataCache (m_chunks M) p (with_ce s p e') = Inr (False, s') \<and> r = p \<and> cold = None"
    using c e'(3) by (auto simp: obind_Inr split: if_splits)
  moreover from this have "m_chunks M" by (cases "m_chunks M") (auto simp: AddEntryToDataCache_def new_ce rbind_eq_Inr Let_def)
  moreover have "\<not> calive (ces s) p" using mem(1) p by blast
  ultimately show ?thesis using add_filled [OF inv _ t e'(1) refl z, of p] by auto
qed

lemma ColdFileStuff_works:
  assumes inv: "cache_inv files s R L {} {} cs ms" and t: "time_ok s" and k: "tells K u fileSize modTime (int (length (files u))) mt" and p: "m_entry M s = Some p" "\<not> calive (ces s) p"
    and o: "0 \<le> k_open K u" and m: "FigureMime (m_alloc M) u = Inr (Some (enc, type))" "mime_fits (cstr enc) type" "m_alloc M 256 = Some sp" "length sp = 256" "m_filename M" "m_chunks M"
  shows "\<exists>s'. ColdFileStuff K M log u fileSize modTime None s = Some (Inr (Cold_Ok p, None, s'))"
proof -
  let ?z = "int (length (files u))" let ?e = "cold_ce (k_open K u) ?z mt" let ?d = "?e\<lparr>ce_encodings := Some enc, ce_type := Some type\<rparr>"
  have z: "0 < ?z" "?z \<le> 2147418112" "0 \<le> mt" "mt < 4102444800" using k by (auto simp: tells_def)
  have "length (resp_text ?d (dc_now s)) < 256" using resp_text_bounds(2) [of "dc_now s" ?d] t z m(2) by (simp add: time_ok_def int_range_def)
  moreover have e: "ce_respHeader ?e = None" by (simp add: zero_ce_def)
  ultimately obtain e' where e': "filled M u (dc_now s) ?e e'" "fill_entry M log p u ?z (with_ce s p ?e) =
      obind (Some (AddEntryToDataCache (m_chunks M) p (with_ce s p e'))) (\<lambda>(err, s5).
         if err then obind (Some (ce_at p s5)) (\<lambda>e. Some (Inr (Cold_Err None, Some p, s5\<lparr>dc_closed := ce_file_fd e # dc_closed s5\<rparr>)))
         else Some (Inr (Cold_Ok p, None, s5)))"
    using fill_entry_header [where s = s and p = p and u = u and z = ?z and log = log, OF e m(1,3,4)] m(5) by auto
  then show ?thesis using ColdFileStuff_fill [OF k p(1) o, of log] add_filled [OF inv p(2) t e'(1) refl z] m(6) by auto
qed

end
