(* ===== verification/Flash_File_Clients.thy ===== *)
theory Flash_File_Clients
  imports Flash_Coldfile_Correct
begin

text \<open>
  Flash and the connections it sends files to, as a step relation. A state is the data cache with the
  multiset of the connections, each with the name of its file. A step opens a file for a new
  connection, maps the chunk a connection needs, or writes to a connection, which is gone when the
  write ends it; the time passes. Left out are the steps of a connection that ends before its chunk
  was ever mapped (a page that was not modified, an empty file, a file that cannot be mapped).
\<close>

declare split_paired_All [simp del] split_paired_Ex [simp del]

section \<open>Steps\<close>

definition cache_init :: "int \<Rightarrow> int \<Rightarrow> 32 word list \<Rightarrow> int \<Rightarrow> datacache" where
  "cache_init pageSize maxBytes tab now = \<lparr>ces = (\<lambda>_. None), cbins = (\<lambda>_. None), freeChunkMRUHead = None, freeChunkMRUTail = None,
     bytesInAllChunks = 0, bytesInFreeChunks = 0, ps_numDataCacheEntries = 0, cs_numDataCacheChecks = 0, cs_numDataCacheHits = 0, cs_numDataCacheWalks = 0,
     systemPageSize = pageSize, maxLRUCacheSizeBytes = maxBytes, dc_scrambled = tab, dc_now = now, dc_closed = [], dc_unmapped = []\<rparr>"

type_synonym file_state = "datacache \<times> (string \<times> file_conn) multiset"

definition fresh_conn :: "file_conn \<Rightarrow> bool" where
  "fresh_conn c \<longleftrightarrow> hc_bytesSent c = 0 \<and> hc_numChunkLocks c = 0 \<and> hc_out c = []"

text \<open>Memory that is not in use, of the size asked for.\<close>

definition cold_mem_ok :: "cold_mem \<Rightarrow> bool" where
  "cold_mem_ok M \<longleftrightarrow> (\<forall>s p. m_entry M s = Some p \<longrightarrow> ces s p = None) \<and> alloc_ok (m_alloc M)"

inductive file_step :: "(string \<Rightarrow> string) \<Rightarrow> file_state \<Rightarrow> file_state \<Rightarrow> bool"
  for files where
  tick: "dc_now s \<le> t \<Longrightarrow> t < 4102444800 \<Longrightarrow> file_step files (s, C) (s\<lparr>dc_now := t\<rparr>, C)"
| opens: "fresh_conn c \<Longrightarrow> cold_mem_ok M \<Longrightarrow> tells K u fileSize modTime (int (length (files u))) mt \<Longrightarrow>
    open_file K M log u fileSize modTime c None s = Some (Inr (Cold_Ok p, c', None, s')) \<Longrightarrow> file_step files (s, C) (s', add_mset (u, c') C)"
| reads: "(u, c) \<in># C \<Longrightarrow> maps_file K files s (hc_cacheEnt c) \<Longrightarrow> ResumeAfterFileReading K c s = Some (Inr (More, c', s')) \<Longrightarrow>
    file_step files (s, C) (s', add_mset (u, c') (C - {#(u, c)#}))"
| writes: "(u, c) \<in># C \<Longrightarrow> \<forall>x. writev x \<le> int (length x) \<Longrightarrow> DoSingleWriteBackend sb testing writev c s = Some (Inr (st, c', s')) \<Longrightarrow>
    file_step files (s, C) (s', case st of Done _ \<Rightarrow> C - {#(u, c)#} | _ \<Rightarrow> add_mset (u, c') (C - {#(u, c)#}))"

definition file_reach :: "(string \<Rightarrow> string) \<Rightarrow> nat \<Rightarrow> int \<Rightarrow> 32 word list \<Rightarrow> int \<Rightarrow> file_state \<Rightarrow> bool" where
  "file_reach files k maxBytes tab now st \<longleftrightarrow> 0 < now \<and> now < 4102444800 \<and> (file_step files)\<^sup>*\<^sup>* (cache_init (2 ^ k) maxBytes tab now, {#}) st"

section \<open>Invariant\<close>

abbreviation ent :: "string \<times> file_conn \<Rightarrow> nat" where "ent x \<equiv> hc_cacheEnt (snd x)"
abbreviation lock :: "string \<times> file_conn \<Rightarrow> rir_ptr" where "lock x \<equiv> (ent x, hc_bytesSent (snd x) div 65536)"

definition conn_ok :: "(string \<Rightarrow> string) \<Rightarrow> datacache \<Rightarrow> string \<times> file_conn \<Rightarrow> bool" where
  "conn_ok files s x \<longleftrightarrow> (let e = cmeta (ces s) (ent x); c = snd x in
     fname s (ent x) = fst x \<and> hc_numChunkLocks c = 1 \<and> 0 \<le> hc_bytesSent c \<and> hc_bytesSent c < ce_size e
     \<and> (hc_method c = METHOD_GET \<longrightarrow> sent_file e (files (fst x)) c))"

definition cache_ok :: "(string \<Rightarrow> string) \<Rightarrow> datacache \<Rightarrow> nat multiset \<Rightarrow> rir_ptr multiset \<Rightarrow> bool" where
  "cache_ok files s R L \<longleftrightarrow> (\<exists>cs ms. cache_inv files s R L {} {} cs ms \<and> set (cs Invalid) \<subseteq> set_mset R) \<and> page_ok s \<and> time_ok s \<and> within_limit s
     \<and> (\<forall>p. calive (ces s) p \<longrightarrow> headed (cmeta (ces s) p))"

definition clients_ok :: "(string \<Rightarrow> string) \<Rightarrow> file_state \<Rightarrow> bool" where
  "clients_ok files st \<longleftrightarrow> (case st of (s, C) \<Rightarrow> cache_ok files s (image_mset ent C) (image_mset lock C) \<and> (\<forall>x\<in>#C. conn_ok files s x))"

lemma sent_file_core: "core e = core f \<Longrightarrow> sent_file e = sent_file f"
  by (simp add: fun_eq_iff sent_file_def core_header(2) [of e f])

lemma conn_ok_kept:
  assumes "dkept s s'" and "calive (ces s') (ent x)" and "conn_ok files s x"
  shows "conn_ok files s' x"
proof -
  have "core (cmeta (ces s') (ent x)) = core (cmeta (ces s) (ent x))" using assms(1,2) by (simp add: dkept_def)
  note f = core_fields [OF this] sent_file_core [OF this]
  show ?thesis using assms(3) f fname_kept [OF assms(1,2)] by (simp add: conn_ok_def Let_def)
qed

lemma cache_ok_keeps:
  assumes "cache_ok files s R L" and k: "keeps files s L s' R' L' cs'" and "set (cs' Invalid) \<subseteq> set_mset R'"
  shows "cache_ok files s' R' L'"
proof -
  have d: "dkept s s'" using k by (simp add: keeps_def)
  have "headed (cmeta (ces s') p)" if "calive (ces s') p" for p
    using assms(1) d that core_headed unfolding cache_ok_def dkept_def by blast
  then show ?thesis using assms keeps_page [OF k] keeps_inv [OF k] d by (auto simp: cache_ok_def keeps_def time_ok_def dkept_def)
qed

lemma held_alive: "cache_ok files s R L \<Longrightarrow> p \<in># R \<Longrightarrow> calive (ces s) p"
  unfolding cache_ok_def cache_inv_def by blast

lemma clients_keep:
  assumes ok: "cache_ok files s R L" and k: "keeps files s L s' (image_mset ent C') (image_mset lock C') cs'" and iv: "set (cs' Invalid) \<subseteq> ent ` set_mset C'"
    and c: "\<forall>x\<in>#C'. conn_ok files s x"
  shows "clients_ok files (s', C')"
proof -
  have o: "cache_ok files s' (image_mset ent C') (image_mset lock C')" using cache_ok_keeps [OF ok k] iv by simp
  have "conn_ok files s' x" if "x \<in># C'" for x
    using conn_ok_kept [of s s' x files] k c that held_alive [OF o, of "ent x"] by (auto simp: keeps_def)
  then show ?thesis using o by (simp add: clients_ok_def)
qed

lemma cache_init_ok:
  assumes "0 < now" and "now < 4102444800"
  shows "clients_ok files (cache_init (2 ^ k) maxBytes tab now, {#})"
proof -
  let ?s = "cache_init (2 ^ k) maxBytes tab now"
  have a: "\<not> calive (ces ?s) p" "\<not> valid (ces ?s) q" for p q by (simp_all add: cache_init_def calive_def valid_def nchunks_def)
  then have m: "mapped ?s = {}" by (simp add: mapped_def)
  have "cache_inv files ?s {#} {#} {} {} (\<lambda>_. []) []"
    unfolding cache_inv_def m using a by (auto simp: table_def chunk_list_def chains_def dll_def ends_def resident_def cache_init_def calive_def)
  then show ?thesis using assms a
    by (auto simp: clients_ok_def cache_ok_def page_ok_def time_ok_def within_limit_def cache_init_def)
qed

section \<open>Steps keep the invariant\<close>

lemma tick_ok:
  assumes "clients_ok files (s, C)" and "dc_now s \<le> t" and "t < 4102444800"
  shows "clients_ok files (s\<lparr>dc_now := t\<rparr>, C)"
proof -
  let ?s = "s\<lparr>dc_now := t\<rparr>"
  have "same_struct s ?s" by (simp add: same_struct_def)
  note i = inv_same_struct [OF this]
  have "conn_ok files ?s x = conn_ok files s x" for x by (simp add: conn_ok_def fname_def)
  moreover have "cache_ok files ?s R L" if "cache_ok files s R L" for R L
    using that assms(2,3) unfolding cache_ok_def i by (auto simp: page_ok_def time_ok_def within_limit_def)
  ultimately show ?thesis using assms(1) by (simp add: clients_ok_def)
qed

text \<open>A new connection gets a lock on the first chunk.\<close>

lemma first_lock:
  assumes ok: "cache_ok files s (add_mset p (image_mset ent C)) (image_mset lock C)" and c: "\<forall>x\<in>#C. conn_ok files s x" and f: "fresh_conn c" "fname s p = u"
  shows "\<exists>s'. IncChunkLock p 0 s = Inr (True, s') \<and> clients_ok files (s', add_mset (u, c\<lparr>hc_cacheEnt := p, hc_status := 200, hc_numChunkLocks := 1\<rparr>) C)"
proof -
  let ?c = "c\<lparr>hc_cacheEnt := p, hc_status := 200, hc_numChunkLocks := 1\<rparr>"
  obtain cs ms where inv: "cache_inv files s (add_mset p (image_mset ent C)) (image_mset lock C) {} {} cs ms" and iv: "set (cs Invalid) \<subseteq> insert p (ent ` set_mset C)"
    using ok by (auto simp: cache_ok_def)
  have pg: "page_ok s" using ok by (simp add: cache_ok_def)
  have "entry_ok files s (add_mset p (image_mset ent C)) p" using inv by (auto simp: cache_inv_def)
  then have e: "file_entry files (cmeta (ces s) p)" "nchunks (ces s) p = Some (nat (ce_numChunks (cmeta (ces s) p)))" by (simp_all add: entry_ok_def Let_def)
  have v: "valid (ces s) (p, 0 div 65536)" using e file_entry_chunks [OF e(1)] by (simp add: valid_def)
  obtain s' where s': "IncChunkLock p 0 s = Inr (True, s')" "keeps files s (image_mset lock C) s' (add_mset p (image_mset ent C)) (add_mset (p, 0) (image_mset lock C)) cs"
    using Inc_keeps [OF inv pg _ _ refl v] by auto
  have "sent_file d x ?c" for d x unfolding sent_file_def using f(1) by (intro exI [of _ "[]"]) (simp add: fresh_conn_def)
  then have "conn_ok files s (u, ?c)" using f e(1) by (auto simp: conn_ok_def fresh_conn_def file_entry_def)
  then have "clients_ok files (s', add_mset (u, ?c) C)"
    using clients_keep [OF ok, of s' "add_mset (u, ?c) C" cs] s'(2) iv c f(1) by (simp add: fresh_conn_def)
  then show ?thesis using s'(1) by blast
qed

lemma CheckCache_clients:
  assumes "clients_ok files (s, C)"
  shows "\<exists>r s'. CheckCache K u s = Some (Inr (r, s')) \<and> cache_ok files s' (held_ce r (image_mset ent C)) (image_mset lock C) \<and> (\<forall>x\<in>#C. conn_ok files s' x)
    \<and> (\<forall>p. r = Some p \<longrightarrow> fname s' p = u)"
proof -
  have ok: "cache_ok files s (image_mset ent C) (image_mset lock C)" "\<forall>x\<in>#C. conn_ok files s x" using assms by (simp_all add: clients_ok_def)
  obtain cs ms where inv: "cache_inv files s (image_mset ent C) (image_mset lock C) {} {} cs ms" "set (cs Invalid) \<subseteq> set_mset (image_mset ent C)" and pg: "page_ok s"
    using ok(1) unfolding cache_ok_def by blast
  obtain r s' cs' where s': "CheckCache K u s = Some (Inr (r, s'))" "keeps files s (image_mset lock C) s' (held_ce r (image_mset ent C)) (image_mset lock C) cs'"
    "set (cs' Invalid) \<subseteq> set_mset (image_mset ent C)"
    "r = (case match_in s u (cs (Bin (HashFilename s u))) of None \<Rightarrow> None | Some p \<Rightarrow> if stale K s p then None else Some p)"
    using CheckCache_ok [OF inv(1) pg inv(2)] by blast
  have "set (cs' Invalid) \<subseteq> set_mset (held_ce r (image_mset ent C))" using s'(3) by (auto simp: held_ce_def split: option.split)
  then have o: "cache_ok files s' (held_ce r (image_mset ent C)) (image_mset lock C)" using cache_ok_keeps [OF ok(1) s'(2)] by blast
  have d: "dkept s s'" using s'(2) by (simp add: keeps_def)
  have "conn_ok files s' x" if "x \<in># C" for x
  proof -
    have "ent x \<in># held_ce r (image_mset ent C)" using that by (auto simp: held_ce_def split: option.split)
    then show ?thesis using conn_ok_kept [OF d held_alive [OF o]] ok(2) that by blast
  qed
  moreover have "fname s' p = u" if "r = Some p" for p
  proof -
    have "match_in s u (cs (Bin (HashFilename s u))) = Some p" using s'(4) that by (auto split: option.splits if_splits)
    then have "fname s p = u" by (auto simp: match_in_def find_Some_iff)
    moreover have "calive (ces s') p" using held_alive [OF o] that by (simp add: held_ce_def)
    ultimately show ?thesis using fname_kept [OF d] by simp
  qed
  ultimately show ?thesis using s'(1) o by blast
qed

lemma gained_ok:
  assumes ok: "cache_ok files s R L" and g: "\<And>cs ms. cache_inv files s R L {} {} cs ms \<Longrightarrow> gained files s R L cs p u s'"
    and c: "\<forall>x\<in>#C. conn_ok files s x" "image_mset ent C = R"
  shows "cache_ok files s' (add_mset p R) L" "\<forall>x\<in>#C. conn_ok files s' x" "fname s' p = u"
proof -
  obtain cs ms where inv: "cache_inv files s R L {} {} cs ms" "set (cs Invalid) \<subseteq> set_mset R" using ok by (auto simp: cache_ok_def)
  note h = g [OF inv(1), unfolded gained_def]
  show "fname s' p = u" using h by blast
  have "headed (cmeta (ces s') x)" if "calive (ces s') x" for x using h ok that unfolding cache_ok_def by (cases "x = p") auto
  moreover have "\<exists>cs ms. cache_inv files s' (add_mset p R) L {} {} cs ms \<and> set (cs Invalid) \<subseteq> set_mset (add_mset p R)" using h inv(2) by (metis set_mset_add_mset_insert subset_insertI2)
  ultimately show "cache_ok files s' (add_mset p R) L" using h ok by (simp add: cache_ok_def time_ok_def)
  have "conn_ok files s' x" if x: "x \<in># C" for x
  proof -
    have a: "calive (ces s) (ent x)" using held_alive [OF ok] x c(2) by auto
    then have "ent x \<noteq> p" using h by blast
    then have "cmeta (ces s') (ent x) = cmeta (ces s) (ent x)" using h a by blast
    then show ?thesis using c(1) x by (simp add: conn_ok_def fname_def)
  qed
  then show "\<forall>x\<in>#C. conn_ok files s' x" by blast
qed

lemma open_file_clients:
  assumes ok: "clients_ok files (s, C)" and c: "fresh_conn c" and M: "cold_mem_ok M" and k: "tells K u fileSize modTime (int (length (files u))) mt"
    and r: "open_file K M log u fileSize modTime c None s = Some (Inr (Cold_Ok p, c', cold, s'))"
  shows "clients_ok files (s', add_mset (u, c') C)" "cold = None" "hc_method c' = hc_method c"
proof -
  obtain r1 s1 where s1: "CheckCache K u s = Some (Inr (r1, s1))" "cache_ok files s1 (held_ce r1 (image_mset ent C)) (image_mset lock C)" "\<forall>x\<in>#C. conn_ok files s1 x"
    "\<forall>p. r1 = Some p \<longrightarrow> fname s1 p = u" using CheckCache_clients [OF ok] by blast
  have mem: "\<forall>s p. m_entry M s = Some p \<longrightarrow> \<not> calive (ces s) p" "alloc_ok (m_alloc M)" using M by (auto simp: cold_mem_ok_def calive_def)
  obtain cold1 s2 where s2: "(case r1 of Some p \<Rightarrow> Some (Inr (Cold_Ok p, None, s1)) | None \<Rightarrow> ColdFileStuff K M log u fileSize modTime None s1) = Some (Inr (Cold_Ok p, cold1, s2))"
    "cold1 = cold" "obind (Some (IncChunkLock p 0 s2)) (\<lambda>(locked, s3). Some (Inr (Cold_Ok p, c\<lparr>hc_cacheEnt := p, hc_status := 200, hc_numChunkLocks := hc_numChunkLocks c + of_bool locked\<rparr>, cold1, s3)))
      = Some (Inr (Cold_Ok p, c', cold, s'))"
    using r s1(1) unfolding open_file_def by (auto simp: obind_Inr split: cold_result.splits)
  have "cache_ok files s2 (add_mset p (image_mset ent C)) (image_mset lock C) \<and> (\<forall>x\<in>#C. conn_ok files s2 x) \<and> fname s2 p = u \<and> cold1 = None"
  proof (cases r1)
    case (Some q)
    then show ?thesis using s1 s2(1) by (auto simp: held_ce_def)
  next
    case None
    have g: "cold1 = None \<and> gained files s1 (image_mset ent C) (image_mset lock C) cs p u s2" if "cache_inv files s1 (image_mset ent C) (image_mset lock C) {} {} cs ms" for cs ms
      using ColdFileStuff_Cold_Ok [OF _ that _ k mem, of log p cold1 s2] s2(1) s1(2) None by (auto simp: cache_ok_def)
    have o: "cache_ok files s1 (image_mset ent C) (image_mset lock C)" using s1(2) None by (simp add: held_ce_def)
    then obtain cs ms where "cache_inv files s1 (image_mset ent C) (image_mset lock C) {} {} cs ms" by (auto simp: cache_ok_def)
    then show ?thesis using gained_ok [OF o _ s1(3) refl] g by blast
  qed
  then obtain s3 where s3: "IncChunkLock p 0 s2 = Inr (True, s3)" "clients_ok files (s3, add_mset (u, c\<lparr>hc_cacheEnt := p, hc_status := 200, hc_numChunkLocks := 1\<rparr>) C)" "cold1 = None"
    using first_lock [of files s2 p C c u] c by auto
  then have "c' = c\<lparr>hc_cacheEnt := p, hc_status := 200, hc_numChunkLocks := 1\<rparr>" "s' = s3" using s2(3) c by (auto simp: fresh_conn_def)
  then show "clients_ok files (s', add_mset (u, c') C)" "cold = None" "hc_method c' = hc_method c" using s3 s2(2) by simp_all
qed

lemma split_conn:
  assumes "clients_ok files (s, C)" and "(u, c) \<in># C"
  obtains C0 cs ms where "C = add_mset (u, c) C0" "cache_inv files s (add_mset (hc_cacheEnt c) (image_mset ent C0)) (add_mset (hc_cacheEnt c, hc_bytesSent c div 65536) (image_mset lock C0)) {} {} cs ms"
    "set (cs Invalid) \<subseteq> set_mset (add_mset (hc_cacheEnt c) (image_mset ent C0))" "conn_ok files s (u, c)" "\<forall>x\<in>#C0. conn_ok files s x" "\<forall>q\<in>#image_mset lock C0. fst q \<in># image_mset ent C0"
proof -
  obtain C0 where C0: "C = add_mset (u, c) C0" using assms(2) by (metis multi_member_split)
  then show ?thesis using that assms(1) by (auto simp: clients_ok_def cache_ok_def)
qed

lemma clients_parts: "clients_ok files (s, C) \<Longrightarrow> cache_ok files s (image_mset ent C) (image_mset lock C)" "clients_ok files (s, C) \<Longrightarrow> x \<in># C \<Longrightarrow> conn_ok files s x"
  "clients_ok files (s, C) \<Longrightarrow> page_ok s" "clients_ok files (s, C) \<Longrightarrow> time_ok s"
  by (simp_all add: clients_ok_def cache_ok_def)

lemma ReadChunk_clients:
  assumes ok: "clients_ok files (s, C)" and c: "(u, c) \<in># C" and K: "maps_file K files s (hc_cacheEnt c)"
  shows "\<exists>err s'. ReadChunkIfNeeded K (hc_cacheEnt c) (hc_bytesSent c) s = Some (Inr (err, s')) \<and> clients_ok files (s', C) \<and> (\<not> err \<longrightarrow> lock (u, c) \<in> mapped s')"
proof -
  obtain C0 cs ms where i: "C = add_mset (u, c) C0"
    "cache_inv files s (add_mset (hc_cacheEnt c) (image_mset ent C0)) (add_mset (hc_cacheEnt c, hc_bytesSent c div 65536) (image_mset lock C0)) {} {} cs ms"
    "set (cs Invalid) \<subseteq> set_mset (add_mset (hc_cacheEnt c) (image_mset ent C0))" by (rule split_conn [OF ok c])
  have b: "0 \<le> hc_bytesSent c" using clients_parts(2) [OF ok c] by (simp add: conn_ok_def Let_def)
  have iC: "cache_inv files s (image_mset ent C) (image_mset lock C) {} {} cs ms" "set (cs Invalid) \<subseteq> ent ` set_mset C" using i by simp_all
  have q: "(hc_cacheEnt c, hc_bytesSent c div 65536) \<in># image_mset lock C" using i(1) by simp
  obtain err s' cs' ms' where r: "ReadChunkIfNeeded K (hc_cacheEnt c) (hc_bytesSent c) s = Some (Inr (err, s'))" "cache_inv files s' (image_mset ent C) (image_mset lock C) {} {} cs' ms'"
    "dkept s s'" "set (cs' Invalid) \<subseteq> set (cs Invalid)" "\<not> err \<longrightarrow> (hc_cacheEnt c, hc_bytesSent c div 65536) \<in> mapped s'"
    "\<forall>x\<in>#image_mset lock C. x \<in> mapped s \<longrightarrow> x \<in> mapped s'" "within_limit s \<longrightarrow> within_limit s'"
    using ReadChunkIfNeeded_ok [OF iC(1) b refl q K] by blast
  have "keeps files s (image_mset lock C) s' (image_mset ent C) (image_mset lock C) cs'" using r unfolding keeps_def by blast
  moreover have "set (cs' Invalid) \<subseteq> ent ` set_mset C" using r(4) iC(2) by blast
  ultimately have "clients_ok files (s', C)" using clients_keep [OF clients_parts(1) [OF ok]] clients_parts(2) [OF ok] by blast
  then show ?thesis using r(1,5) by auto
qed

lemma write_clients:
  assumes ok: "clients_ok files (s, C)" and c: "(u, c) \<in># C" and w: "\<forall>x. writev x \<le> int (length x)"
  shows "\<exists>st c' s'. DoSingleWriteBackend sb testing writev c s = Some (Inr (st, c', s')) \<and> clients_ok files (s', case st of Done _ \<Rightarrow> C - {#(u, c)#} | _ \<Rightarrow> add_mset (u, c') (C - {#(u, c)#}))
    \<and> hc_method c' = hc_method c \<and> sent_step (cmeta (ces s) (hc_cacheEnt c)) (files u) st c' \<and> (st = Read_First \<longleftrightarrow> lock (u, c) \<notin> mapped s)"
proof -
  let ?p = "hc_cacheEnt c" let ?q = "(?p, hc_bytesSent c div 65536)"
  obtain C0 cs ms where i: "C = add_mset (u, c) C0" "cache_inv files s (add_mset ?p (image_mset ent C0)) (add_mset ?q (image_mset lock C0)) {} {} cs ms"
    "set (cs Invalid) \<subseteq> set_mset (add_mset ?p (image_mset ent C0))" "conn_ok files s (u, c)" "\<forall>x\<in>#C0. conn_ok files s x" "\<forall>q\<in>#image_mset lock C0. fst q \<in># image_mset ent C0"
    by (rule split_conn [OF ok c])
  have co: "hc_numChunkLocks c = 1" "0 \<le> hc_bytesSent c" "hc_bytesSent c < ce_size (cmeta (ces s) ?p)" "fname s ?p = u"
    "hc_method c = METHOD_GET \<longrightarrow> sent_file (cmeta (ces s) ?p) (files (fname s ?p)) c" using i(4) by (auto simp: conn_ok_def Let_def)
  have hd: "header_ok (cmeta (ces s) ?p)" using clients_parts(1) [OF ok] held_alive [OF clients_parts(1) [OF ok], of ?p] i(1) by (auto simp: cache_ok_def headed_def)
  obtain st c' s' where r: "DoSingleWriteBackend sb testing writev c s = Some (Inr (st, c', s'))" "wresult files s ?p ?q (image_mset ent C0) (image_mset lock C0) st c' s'"
    "hc_method c' = hc_method c" "sent_step (cmeta (ces s) ?p) (files u) st c'" "st = Read_First \<longleftrightarrow> ?q \<notin> mapped s"
    using DoSingleWriteBackend_ok [OF i(2) clients_parts(3) [OF ok] i(3,6) refl co(1-3) refl hd clients_parts(4) [OF ok] w co(5)] co(4) by blast
  have ok': "cache_ok files s (add_mset ?p (image_mset ent C0)) (add_mset ?q (image_mset lock C0))" using clients_parts(1) [OF ok] i(1) by simp
  have "clients_ok files (s', case st of Done _ \<Rightarrow> C0 | _ \<Rightarrow> add_mset (u, c') C0)"
  proof (cases "\<exists>b. st = Done b")
    case True
    then obtain cs' where "keeps files s (add_mset ?q (image_mset lock C0)) s' (image_mset ent C0) (image_mset lock C0) cs'" "set (cs' Invalid) \<subseteq> ent ` set_mset C0"
      using r(2) by (auto simp: wresult_def)
    then show ?thesis using True clients_keep [OF ok'] i(5) by auto
  next
    case False
    then obtain cs' where k: "keeps files s (add_mset ?q (image_mset lock C0)) s' (add_mset ?p (image_mset ent C0)) (add_mset (?p, hc_bytesSent c' div 65536) (image_mset lock C0)) cs'"
      "set (cs' Invalid) \<subseteq> set_mset (add_mset ?p (image_mset ent C0))" "hc_cacheEnt c' = ?p" "hc_numChunkLocks c' = 1" "0 \<le> hc_bytesSent c'" "hc_bytesSent c' < ce_size (cmeta (ces s) ?p)"
      using r(2) by (cases st) (auto simp: wresult_def)
    have "conn_ok files s (u, c')" using k co(4) r(4) False by (cases st) (auto simp: conn_ok_def Let_def sent_step_def)
    then have "clients_ok files (s', add_mset (u, c') C0)" using clients_keep [OF ok', of s' "add_mset (u, c') C0" cs'] k i(5) by simp
    then show ?thesis using False by (cases st) auto
  qed
  moreover have "C - {#(u, c)#} = C0" using i(1) by simp
  ultimately show ?thesis using r(1,3-5) by auto
qed

lemma file_step_ok: "file_step files a b \<Longrightarrow> clients_ok files a \<Longrightarrow> clients_ok files b"
proof (induction rule: file_step.induct)
  case (tick s t C)
  then show ?case by (rule tick_ok [rotated])
next
  case (opens c M K u fileSize modTime mt log s p c' s' C)
  then show ?case using open_file_clients(1) by blast
next
  case (reads u c C K s c' s')
  obtain err s1 where r: "ReadChunkIfNeeded K (hc_cacheEnt c) (hc_bytesSent c) s = Some (Inr (err, s1))" "clients_ok files (s1, C)"
    using ReadChunk_clients [OF reads.prems reads.hyps(1,2)] by blast
  then have "c' = c \<and> s' = s1"
    using reads.hyps(3) by (auto simp: ResumeAfterFileReading_def finish_def obind_Inr split: if_splits)
  then show ?case using r(2) reads.hyps(1) by simp
next
  case (writes u c C writev sb testing s st c' s')
  then show ?case using write_clients [OF writes.prems writes.hyps(1,2), of sb testing] by auto
qed

lemma file_reach_ok: "file_reach files k maxBytes tab now st \<Longrightarrow> clients_ok files st"
proof -
  assume "file_reach files k maxBytes tab now st"
  then have n: "0 < now" "now < 4102444800" and r: "(file_step files)\<^sup>*\<^sup>* (cache_init (2 ^ k) maxBytes tab now, {#}) st" by (simp_all add: file_reach_def)
  from r show ?thesis by (induction rule: rtranclp_induct) (use cache_init_ok [OF n] file_step_ok in blast)+
qed

section \<open>What is sent\<close>

text \<open>The headers a connection was sent, each with the date of its second, and the file behind them.\<close>

lemma headers_text:
  assumes "headed e" and "\<forall>h\<in>set hs. \<exists>now. header_of e now h"
  shows "\<exists>ts. hs = map (resp_text e) ts"
proof -
  have "\<forall>h\<in>set hs. \<exists>t. h = resp_text e t" using assms headed_text by blast
  then obtain g where "\<forall>h\<in>set hs. h = resp_text e (g h)" by metis
  then have "map (\<lambda>h. resp_text e (g h)) hs = map (\<lambda>h. h) hs" by (intro map_cong) auto
  then have "hs = map (resp_text e) (map g hs)" by (simp add: comp_def)
  then show ?thesis by blast
qed

definition delivered :: "CacheEntry \<Rightarrow> string \<Rightarrow> wstep \<Rightarrow> file_conn \<Rightarrow> bool" where
  "delivered e f st c \<longleftrightarrow> (\<exists>ts. case st of
       Done True \<Rightarrow> prefix (hc_out c) (concat (map (resp_text e) ts) @ f)
     | Done False \<Rightarrow> ts \<noteq> [] \<and> hc_out c = concat (map (resp_text e) ts) @ f
     | _ \<Rightarrow> hc_out c = concat (map (resp_text e) ts) @ take (nat (hc_bytesSent c)) f \<and> (0 < hc_bytesSent c \<longrightarrow> ts \<noteq> []))"

lemma sent_step_delivered:
  assumes s: "sent_step e f st c" and g: "hc_method c = METHOD_GET" and h: "headed e" and e: "ce_size e = int (length f)" "f \<noteq> []"
  shows "delivered e f st c"
proof (cases "st = Done True")
  case True
  obtain hs where hs: "prefix (hc_out c) (concat hs @ f)" "\<forall>h\<in>set hs. \<exists>now. header_of e now h"
    using s g by (auto simp: sent_step_def sent_some_def)
  then show ?thesis using headers_text [OF h hs(2)] True by (auto simp: delivered_def)
next
  case False
  then obtain hs where hs: "hc_out c = concat hs @ take (nat (hc_bytesSent c)) f" "\<forall>h\<in>set hs. \<exists>now. header_of e now h" "0 < hc_bytesSent c \<longrightarrow> hs \<noteq> []"
    using s g by (auto simp: sent_step_def sent_file_def)
  obtain ts where "hs = map (resp_text e) ts" using headers_text [OF h hs(2)] by blast
  moreover have "hc_bytesSent c = int (length f)" if "st = Done False" using s g e that by (simp add: sent_step_def)
  ultimately show ?thesis using hs False e(2) unfolding delivered_def
    by (intro exI [of _ ts]) (auto split: wstep.split bool.split)
qed

lemma write_delivered:
  assumes ok: "clients_ok files (s, C)" and c: "(u, c) \<in># C" and w: "\<forall>x. writev x \<le> int (length x)" and g: "hc_method c = METHOD_GET"
    and r: "DoSingleWriteBackend sb testing writev c s = Some (Inr (st, c', s'))"
  shows "ce_filename (cmeta (ces s) (hc_cacheEnt c)) = Some u" "ce_size (cmeta (ces s) (hc_cacheEnt c)) = int (length (files u))"
    "delivered (cmeta (ces s) (hc_cacheEnt c)) (files u) st c'"
proof -
  let ?e = "cmeta (ces s) (hc_cacheEnt c)"
  have a: "calive (ces s) (hc_cacheEnt c)" using held_alive [OF clients_parts(1) [OF ok], of "hc_cacheEnt c"] c by force
  have h: "headed ?e" using clients_parts(1) [OF ok] a by (simp add: cache_ok_def)
  obtain cs ms where inv: "cache_inv files s (image_mset ent C) (image_mset lock C) {} {} cs ms" using clients_parts(1) [OF ok] by (auto simp: cache_ok_def)
  have "hc_cacheEnt c \<in># image_mset ent C" using c by force
  then have "entry_ok files s (image_mset ent C) (hc_cacheEnt c)" using inv by (auto simp: cache_inv_def)
  then have fe: "file_entry files ?e" by (simp add: entry_ok_def Let_def)
  have fn: "fname s (hc_cacheEnt c) = u" using clients_parts(2) [OF ok c] by (simp add: conn_ok_def Let_def)
  then show n: "ce_filename ?e = Some u" using fe by (auto simp: file_entry_def fname_def)
  then show z: "ce_size ?e = int (length (files u))" using fe by (simp add: file_entry_def)
  have ne: "files u \<noteq> []" using fe n by (auto simp: file_entry_def)
  obtain m: "hc_method c' = hc_method c" and st: "sent_step ?e (files u) st c'"
    using write_clients [OF ok c w, of sb testing] r by auto
  show "delivered ?e (files u) st c'" using sent_step_delivered [OF st _ h z ne] m g by simp
qed

section \<open>A file that can be opened\<close>

lemma open_file_works:
  assumes ok: "clients_ok files (s, C)" and c: "fresh_conn c" and M: "cold_mem_ok M" and k: "tells K u fileSize modTime (int (length (files u))) mt"
    and ch: "CheckCache K u s = Some (Inr (None, s1))" and p: "m_entry M s1 = Some p" and o: "0 \<le> k_open K u"
    and m: "FigureMime (m_alloc M) u = Inr (Some (enc, type))" "mime_fits (cstr enc) type" "m_alloc M 256 = Some sp" "m_filename M" "m_chunks M"
  shows "\<exists>c' s'. open_file K M log u fileSize modTime c None s = Some (Inr (Cold_Ok p, c', None, s')) \<and> c' = c\<lparr>hc_cacheEnt := p, hc_status := 200, hc_numChunkLocks := 1\<rparr>"
proof -
  have s1: "cache_ok files s1 (image_mset ent C) (image_mset lock C)" "\<forall>x\<in>#C. conn_ok files s1 x"
    using CheckCache_clients [OF ok, of K u] ch by (auto simp: held_ce_def)
  have mem: "\<forall>s p. m_entry M s = Some p \<longrightarrow> \<not> calive (ces s) p" "alloc_ok (m_alloc M)" using M by (auto simp: cold_mem_ok_def calive_def)
  have np: "\<not> calive (ces s1) p" using mem(1) p by blast
  have sp: "length sp = 256" using mem(2) m(3) by (simp add: alloc_ok_def)
  have t: "time_ok s1" using s1(1) by (simp add: cache_ok_def)
  obtain cs ms where inv: "cache_inv files s1 (image_mset ent C) (image_mset lock C) {} {} cs ms" using s1(1) by (auto simp: cache_ok_def)
  obtain s2 where s2: "ColdFileStuff K M log u fileSize modTime None s1 = Some (Inr (Cold_Ok p, None, s2))"
    using ColdFileStuff_works [OF inv t k p np o m(1,2,3) sp m(4,5)] by blast
  have g: "gained files s1 (image_mset ent C) (image_mset lock C) cs p u s2" if "cache_inv files s1 (image_mset ent C) (image_mset lock C) {} {} cs ms" for cs ms
    using ColdFileStuff_Cold_Ok [OF s2 that t k mem] by blast
  have "cache_ok files s2 (add_mset p (image_mset ent C)) (image_mset lock C)" "\<forall>x\<in>#C. conn_ok files s2 x" "fname s2 p = u"
    using gained_ok [OF s1(1) _ s1(2) refl] g by blast+
  then obtain s3 where "IncChunkLock p 0 s2 = Inr (True, s3)"
    using first_lock [of files s2 p C c u] c by blast
  then show ?thesis using ch s2 c by (simp add: open_file_def fresh_conn_def)
qed

section \<open>An example run\<close>

definition demo_kernel :: kernel where
  "demo_kernel = \<lparr>k_open = (\<lambda>_. 9), k_errno = (\<lambda>_. 0), k_mmap = (\<lambda>_ off len. Some (take (nat len) (drop (nat off) ''hello''))),
     k_stat = (\<lambda>_. Some 1000), k_size = (\<lambda>_. 5)\<rparr>"

definition demo_cold :: cold_mem where
  "demo_cold = \<lparr>m_entry = (\<lambda>s. if ces s 0 = None then Some 0 else None), m_alloc = (\<lambda>n. Some (zeros n)),
     m_200Resp = True, m_filename = True, m_chunks = True\<rparr>"

definition demo_get :: file_conn where
  "demo_get = \<lparr>hc_cacheEnt = 0, hc_bytesSent = 0, hc_sndbuf = 8192, hc_method = METHOD_GET, hc_mimeFlag = True,
     hc_numChunkLocks = 0, hc_status = 0, hc_hne = None, hc_ifModifiedSince = - 1, hc_out = []\<rparr>"

lemma demo_file_run:
  "\<exists>s c. file_reach (\<lambda>_. ''hello'') 12 0 [] 2000 (s, {#(''readme'', c)#}) \<and> hc_method c = METHOD_GET \<and> hc_out c = []
    \<and> maps_file demo_kernel (\<lambda>_. ''hello'') s (hc_cacheEnt c)"
proof -
  let ?f = "\<lambda>_ :: string. ''hello''"
  let ?s = "cache_init (2 ^ 12) 0 [] 2000"
  have ok: "clients_ok ?f (?s, {#})" by (rule cache_init_ok) simp_all
  have c: "fresh_conn demo_get" by (simp add: fresh_conn_def demo_get_def)
  have M: "cold_mem_ok demo_cold" by (simp add: cold_mem_ok_def demo_cold_def alloc_ok_def)
  have k: "tells demo_kernel ''readme'' 0 0 (int (length (?f ''readme''))) 1000" by (simp add: tells_def demo_kernel_def)
  obtain s1 where s1: "CheckCache demo_kernel ''readme'' ?s = Some (Inr (None, s1))" "ces s1 0 = None"
    by (simp add: CheckCache_def find_ce.simps cache_init_def add_cwalks_def Let_def)
  have p: "m_entry demo_cold s1 = Some 0" "0 \<le> k_open demo_kernel ''readme''" "m_alloc demo_cold 256 = Some (zeros 256)"
    "m_filename demo_cold" "m_chunks demo_cold" using s1(2) by (simp_all add: demo_cold_def demo_kernel_def)
  obtain enc where m: "FigureMime (m_alloc demo_cold) ''readme'' = Inr (Some (enc, ''text/plain''))" "cstr enc = []"
    by (simp add: FigureMime_def realloc_str_def demo_cold_def mime_loop.simps eval_nat_numeral)
  have fits: "mime_fits (cstr enc) ''text/plain''" using m(2) by (simp add: mime_fits_def)
  obtain c' s' where r: "open_file demo_kernel demo_cold True ''readme'' 0 0 demo_get None ?s = Some (Inr (Cold_Ok 0, c', None, s'))"
    "c' = demo_get\<lparr>hc_cacheEnt := 0, hc_status := 200, hc_numChunkLocks := 1\<rparr>"
    using open_file_works [OF ok c M k s1(1) p(1,2) m(1) fits p(3-5), of True] by blast
  have "file_step ?f (?s, {#}) (s', add_mset (''readme'', c') {#})" by (rule opens [OF c M k r(1)])
  then have "file_reach ?f 12 0 [] 2000 (s', {#(''readme'', c')#})" by (simp add: file_reach_def r_into_rtranclp)
  moreover have "maps_file demo_kernel ?f s' x" for x by (simp add: maps_file_def demo_kernel_def)
  ultimately show ?thesis using r(2) by (intro exI [of _ s'] exI [of _ c']) (simp add: demo_get_def)
qed

end
