(* ===== verification/Spec2Isabelle.thy ===== *)
theory Spec2Isabelle
  imports Examples Userver_Queue Userver_Bitmap Userver_Q Userver_Lru Userver_Request Flash_Match Flash_Timer Flash_Hot_Clients Flash_File_Clients
begin

text \<open>
  Three web servers and the programs around them.

  The repository compares three designs of a small HTTP server, in C, with one another and with two
  bundled servers (flash and the userver). This development models the three servers, their
  FastCGI server with its plugins, and several modules of the bundled servers, and proves what
  they promise to a client and to each other.

  \<^bold>\<open>The program.\<close>
  \<^item> \<open>src/web_server\<close> (single process, event driven): \<open>ed_server.c\<close> has \<open>main\<close>, the event loop and
    the callbacks, \<open>ed_epoll_event.c\<close> the table of connections behind epoll, \<open>ed_http.c\<close> the parser
    and the responses, which are written in stages, one per writable event; \<open>common.c\<close> has the
    server socket, headers and error pages.
  \<^item> \<open>src/amped_server\<close> (the same with helper processes): static files go through a helper
    (\<open>reader_slave.c\<close>), which copies them to shared memory; the server keeps a table of helpers.
  \<^item> \<open>src/mt_server\<close> (threads): the main thread puts accepted connections into a bounded buffer
    (\<open>sbuf.c\<close>), threads take them out and answer with blocking calls (\<open>csapp.c\<close> for reading lines).
  \<^item> \<open>fastcgi_server.c\<close> (the same file in all three directories): reads a table of applications,
    accepts requests from the servers, queues them per application, and a pool of threads runs the
    plugins (\<open>hello.c\<close>, \<open>sumnumbers.c\<close>, \<open>generate_text.c\<close>) with standard output redirected.

  \<^bold>\<open>Method.\<close> A C function is a HOL function of the same name on the state it reads and writes. What
  the operating system answers is data: \<open>env\<close> (files, plugins, which system calls succeed), \<open>world\<close>
  (what was sent and closed, the interest set, open streams), the lists of descriptors and bytes in
  \<open>epoll_event\<close> and \<open>read_result\<close>. Undefined behaviour of C and failed assertions are values of
  \<open>ub\<close>, and a function that can have them returns \<open>ub + 'a\<close>; fixed-size arrays are lists of that
  length. Where two of the servers have the same code there is one definition on extensible
  records.

  \<^bold>\<open>Theories, in the order of their imports.\<close>
  \<^item> \<open>Prelude\<close>, \<open>C_Library\<close>, \<open>World\<close>: results and faults; strings in arrays (\<open>strncpy\<close>, \<open>strcmp\<close>,
    \<open>atoi\<close>, \<open>%d\<close>); files, streams (\<open>fread\<close>, \<open>feof\<close>), sockets and epoll.
  \<^item> \<open>Http_Request\<close>: \<open>process_http_request\<close>; \<open>regexec\<close> of the C library on its regular expression, as
    a POSIX specification and as a matcher, with their equivalence. \<open>Http_Response\<close>: headers, error pages, file types, CGI
    and FastCGI requests.
  \<^item> \<open>Ed_Epoll\<close>, \<open>Sped\<close>, \<open>Server_Socket\<close>, \<open>Sped_Main\<close>: the single-process server, from \<open>main\<close> to
    the callbacks. \<open>Sped_Correct\<close> has the invariant of the connection table and that every event
    keeps it, \<open>Chunk_Copy\<close> a locale for loops that copy a file in chunks, interpreted on the loops
    of the servers, \<open>Sped_Serve\<close> the run of a whole request.
  \<^item> \<open>Bounded_Fifo\<close>: the contract of a bounded queue as a locale. \<open>Fastcgi_Queue\<close> and \<open>Sbuf\<close>
    interpret it on their implementations. \<open>Userver_Queue\<close>: \<open>queue.c\<close> of the userver against a list
    with room for a number of elements.
  \<^item> \<open>Scan\<close>, \<open>Fastcgi_Server\<close>, \<open>Fastcgi_Correct\<close>, \<open>Plugins\<close>, \<open>Fastcgi_Threads\<close>: configuration,
    requests, plugins, and the thread pool as a step relation (mutex, condition variable, every
    interleaving, spurious wake-ups as a relation of their own), with mutual exclusion and no lost
    wake-up. A call of a plugin flushes, redirects and gives back the standard output that all
    threads share; its steps are interleaved in a second step function.
  \<^item> \<open>Rio\<close>, \<open>Mt_Server\<close>, \<open>Mt_Correct\<close>, \<open>Sbuf_Threads\<close>: buffered reading over any segmentation of
    the input, a connection thread, and the main thread and the connection threads over the shared
    buffer as a step relation.
  \<^item> \<open>Amped\<close>, \<open>Reader_Slave\<close>, \<open>Amped_Correct\<close>, \<open>Amped_Serve\<close>: the helper table and its counter, a
    helper process, and a file served through one.
  \<^item> \<open>Linked_List\<close>: doubly linked lists in array entries, with a locale for their link fields that
    \<open>Userver_Q\<close> and \<open>Userver_Lru\<close> interpret. \<open>Userver_Bitmap\<close>, \<open>Userver_Q\<close>, \<open>Userver_Info\<close>,
    \<open>Userver_Lru\<close>: \<open>bitmap.c\<close>, \<open>q.c\<close>, \<open>info.c\<close> and \<open>state.c\<close>, \<open>lru.c\<close> and \<open>close_idle_conns.c\<close> of
    \<open>src/userver-0.9.0\<close>. \<open>Flash_Match\<close>, \<open>Flash_Timer\<close>: \<open>match.c\<close> of \<open>src/flash_server\<close>, and \<open>timer.c\<close>
    with the functions that run on expiry and the connection table as a step relation.
  \<^item> \<open>Userver_Parse\<close>: the request parser of the userver (\<open>parse.c\<close>), one definition per state.
    \<open>Userver_Parse_Correct\<close>: its invariant and faults; \<open>Userver_Parse_Split\<close>: requests that arrive
    in pieces. \<open>Userver_Read\<close>: the client branch of \<open>post_sock_read\<close>, with the set-up and the reset
    of a request and what \<open>setup_http\<close> does to its URI; \<open>Userver_Request\<close>: whole requests.
  \<^item> \<open>Flash_Hotname\<close>: the name caches of flash (\<open>hotname.c\<close>), hash tables with a list of the entries
    that nobody refers to. \<open>Flash_Hotname_Correct\<close>: what the pointers represent, and linking and
    unlinking. \<open>Flash_Hotname_Run\<close>: the invariant with the references held, kept by every operation.
    \<open>Flash_Hotcgi\<close>: the lookup of programs. \<open>Flash_Hot_Clients\<close>: the users of the caches as a step
    relation.
  \<^item> \<open>Flash_Date\<close>, \<open>Flash_Date_Correct\<close>: the dates of flash (\<open>tdate_parse.c\<close> and \<open>MakeHTTPDate\<close>), with
    \<open>sscanf\<close>, and that they are read back.
  \<^item> \<open>Hash_Chain\<close>: hash tables whose chains run through the entries. \<open>Flash_Datacache\<close>: the cache of
    file contents of flash (\<open>datacache.c\<close>): entries, their chunks, the list of chunks that can be
    unmapped. \<open>Flash_Datacache_Correct\<close>: the list of chunks; \<open>Flash_Datacache_Inv\<close>: the invariant with
    the references and locks that are held; \<open>Flash_Datacache_Run\<close>, \<open>Flash_Datacache_Table\<close>: every
    operation keeps it.
  \<^item> \<open>Flash_Hotfile\<close>, \<open>Flash_Hotfile_Correct\<close>, \<open>Flash_Hotfile_Write\<close>: sending a file from the cache
    (\<open>hotfile.c\<close>), one write at a time. \<open>Flash_Coldfile\<close>, \<open>Flash_Coldfile_Correct\<close>: entering a file
    into the cache (\<open>cold.c\<close>, \<open>CalcRespHeader\<close>) and its response header. \<open>Flash_File_Clients\<close>: the
    cache and the connections that get files as a step relation.
  \<^item> \<open>Examples\<close>: concrete environments and states. This theory: the properties.

  \<^bold>\<open>What is shown.\<close> From \<open>main\<close> on the single-process server has no fault but two, whatever
  arrives; requests for pages, programs and FastCGI applications are answered with exactly the
  right bytes and leave nothing open, in each of the servers, and the servers agree with each
  other; the threaded server has one fault and one way of not ending. The counter of helpers is
  exact. The queues and buffers are first-in first-out, also between threads, and the pools neither
  interfere nor get stuck. The configuration is read back as it was written. The modules of the bundled servers implement
  lists, maps and sets. The request parser of the userver stays within its arrays whatever
  arrives, resumes a request that comes in pieces, and reads back what a client wrote; a malformed
  request ends the server. The name caches of flash find what they hold
  and never touch freed memory; its timers run on time; its dates are read back; its cache of
  file contents keeps its accounts and its limit, and a client that gets a file gets a header with
  the date and the bytes of the file. The section on where the code does not do what it means to, and
  the last property, show faults on concrete kinds of input.

  \<^bold>\<open>Assumptions about the outside.\<close> Clocks do not go back. A document root of the userver leaves
  room in the URI. What a plugin prints goes to its connection as long as no other call has
  redirected standard output; the step function for several calls shows what happens otherwise. In
  the multi-process server a path is read through a pointer to the array of a function that has
  returned: what is found there is a parameter, and no property says that it is the path.
  \<open>pipe\<close> in \<open>run_cgi_file\<close> is taken to succeed, as the code does.

  \<^bold>\<open>Loops.\<close> Loops over input, files and tables are total functions, by structural recursion or with
  a measure. \<open>skip_headers\<close> (\<open>read_request_headers\<close> of the threaded server) may run forever and is
  a \<open>partial_function\<close>: \<open>None\<close> is a call that does not return; so are the walks along the chains of
  \<open>hotname.c\<close> and \<open>datacache.c\<close>, the loop that unmaps chunks and the one that pads a header, for which
  it is shown that they end. The endless loops of the servers are
  functions of the list of results of \<open>epoll_wait\<close>, or reachability of a step relation; no
  definition takes fuel.

  \<^bold>\<open>Not modelled.\<close> Statistics, tracing and messages to the terminal; signal masks; the wrappers of
  \<open>csapp.c\<close> that the servers do not call; \<open>read_master.c\<close>, \<open>read_slave.c\<close> and \<open>basic.c\<close>, which no
  target builds. Of \<open>send\<close> on a non-blocking socket the model has the case that everything is
  taken, as the code ignores its result. Of the two bundled servers only the modules named above:
  they are there for comparison, and most of the rest is event loops for several kernels,
  statistics and option parsing. Of sending files in flash, the steps of a connection that ends
  before its first chunk is mapped are not part of the step relation: there the cache is left
  with a chunk on its list that is freed later (see the findings). Of \<open>parse.c\<close> the code under \<open>UMEMREDUCTION\<close>, which the build
  does not define, is left out.
\<close>

section \<open>The single-process server\<close>

text \<open>
  C1. From \<open>main\<close> on, whatever the kernel reports and whatever clients send, every state of the
  single-process server satisfies the invariant of the client table, and handling the next
  batch of events ends in such a state again or in one of two memory faults (a page name that
  overflows its array, an array read past its end); a null callback is never called, no stream
  pointer is null where it is used and the table is never left.
\<close>

theorem sped_server_safe:
  assumes "sped_main E su argv mem efd ev_mem ep0 w = Inr (Serving ep1 w1)"
    and "boot w" and "e_errno E \<noteq> 0" and "sped_reach E ep1 w1 ep w'" and "kernel_events w' evs"
  shows "sped_inv ep w' \<and> safe_outcome (ed_epoll_dispatch_events E evs ep w')"
  using assms by (rule sped_main_reach)

theorem sped_server_safe_witness:
  "\<exists>ep w. sped_main demo_env demo_startup [''server'', ''8080''] (Some (\<lambda>_. zero_client)) 3 True zero_ep boot_world =
      Inr (Serving ep w) \<and> sped_inv ep w
    \<and> safe_outcome (ed_epoll_dispatch_events demo_env
        [\<lparr>ev_fd = 4, ev_events = {EPOLLIN}, ev_accepts = [5, 6], ev_read = None\<rparr>] ep w)"
proof -
  obtain ep w where m: "sped_main demo_env demo_startup [''server'', ''8080''] (Some (\<lambda>_. zero_client)) 3 True zero_ep boot_world =
      Inr (Serving ep w)" and i: "w_interest w 4 \<noteq> None"
    using demo_main by blast
  have "kernel_events w [\<lparr>ev_fd = 4, ev_events = {EPOLLIN}, ev_accepts = [5, 6], ev_read = None\<rparr>]"
    using i by (simp add: kernel_events_def)
  from sped_server_safe [OF m _ _ sped_reach.start this] m show ?thesis by auto
qed

text \<open>
  C2. A connection that was just accepted and on which a request for a static page arrives gets
  the header and exactly the bytes of the file, in as many writable events as the file has
  chunks, plus three; then it is closed, its table entry is cleared, and no stream is left open.
\<close>

theorem sped_answers_request:
  assumes "accepted d (ep, w)" and "request_bytes p hdrs" and "e_regex_ok E" and "e_epoll_ok E EPOLL_CTL_MOD d"
    and "static_page (page_of p)" and "e_files E (www_path (page_of p)) = Some f" and "readable_file f"
    and "get_file_type (page_of p @ [NUL]) = Inr ty"
  shows "\<exists>s' ep' w'. ed_epoll_dispatch_events E [in_event d (request_text p hdrs)] ep w = Inr s'
    \<and> iter_res (length (f_data f) div READ_CHUNK_SIZE + 3) (out_step E d) s' = Inr (ep', w')
    \<and> w_sent w' d = w_sent w d @ http_header E ty (int (length (f_data f))) 200 ''OK'' @ f_data f
    \<and> (\<forall>d'. d' \<noteq> d \<longrightarrow> ed_clients ep' d' = ed_clients ep d' \<and> w_sent w' d' = w_sent w d')
    \<and> callback (ed_clients ep' d) = None \<and> fds_used ep' = fds_used ep - 1 \<and> w_streams w' = w_streams w
    \<and> w_closed w' = d # w_closed w \<and> w_interest w' d = None"
  using assms by (rule request_answered)

theorem sped_answers_request_witness:
  "\<exists>s' ep' w'. ed_epoll_dispatch_events demo_env [in_event 5 (request_text ''/a.html'' [CR, LF])] new_ep demo_world = Inr s'
    \<and> iter_res 3 (out_step demo_env 5) s' = Inr (ep', w')
    \<and> w_sent w' 5 = http_header demo_env ''text/html'' 5 200 ''OK'' @ ''hello''
    \<and> w_closed w' = [5]"
  using sped_answers_request [OF new_accepted demo_request_bytes, of demo_env "text_file ''hello''" "''text/html''"]
    demo_type by (simp add: page_of_def del: ed_epoll_dispatch_events.simps) blast

text \<open>
  C3. A CGI page: the program named before the question mark runs with the text behind it as
  its query, and the client gets exactly what the program writes.
\<close>

theorem sped_serves_cgi:
  assumes "fresh d p s" and "strncmp_eq p ''/cgi-bin/'' 9" and "req_ok (req_of (fst s) d)"
    and "split_query (www_path p) = (c, q)" and "e_files E c = Some g"
    and "e_exec E (cgi_argv c) (cgi_envp q) = Some f" and "f_bad f = None"
  shows "\<exists>s'. iter_res (length (f_data f) div READ_CHUNK_SIZE + 3) (out_step E d) s = Inr s'
    \<and> w_sent (snd s') d = w_sent (snd s) d @ f_data f \<and> conn_done d 0 s s'"
  using assms by (rule cgi_page_served)

theorem sped_serves_cgi_witness:
  "\<exists>s'. iter_res 3 (out_step demo_env 5) (demo_ep ''/cgi-bin/x?q'', demo_world) = Inr s'
    \<and> w_sent (snd s') 5 = ''out'' \<and> conn_done 5 0 (demo_ep ''/cgi-bin/x?q'', demo_world) s'"
  using sped_serves_cgi [OF demo_fresh, of "''/cgi-bin/x?q''" "''www/cgi-bin/x''" "''q''" demo_env "text_file ''#!''" "text_file ''out''"]
  by (simp add: demo_req_ok demo_query)

text \<open>C4. A static page that does not exist is answered with the 404 text and the end of the connection.\<close>

theorem sped_missing_page:
  assumes "fresh d p s" and "static_page p" and "e_files E (www_path p) = None"
  shows "\<exists>s'. out_step E d s = Inr s' \<and> w_sent (snd s') d = w_sent (snd s) d @ error_text E 404
    \<and> conn_done d 0 s s'"
  using assms by (rule missing_page_404)

theorem sped_missing_page_witness:
  "\<exists>s'. out_step demo_env 5 (demo_ep ''/b.html'', demo_world) = Inr s'
    \<and> w_sent (snd s') 5 = error_text demo_env 404 \<and> conn_done 5 0 (demo_ep ''/b.html'', demo_world) s'"
  using sped_missing_page [OF demo_fresh, of "''/b.html''" demo_env] by simp

section \<open>The multi-process server\<close>

text \<open>
  C5. A file through the helper of the multi-process server, from the request in the helper's hands
  on: the helper copies the file the request names into a shared segment and replies, and after the two
  events that follow the client has exactly the bytes of the file, the connection is closed, the
  shared segment is removed, the helper is free again and the counter is one less. (The
  request is printed from an array of a function that has returned, so the path in it is not
  claimed to be the page's.)
\<close>

theorem amped_serves_page:
  assumes "a_conn d h i p STATUS_MAP_REQUESTED (ep, k, w)" and "a_bound d i key (int (length (f_data f))) (ep, k, w)"
    and "a_clear d (ep, k, w)" and "k_req k h = [helper_request key (int (length (f_data f))) q @ [NUL]]"
    and "e_files E q = Some f" and "f_bad f = None" and "f_data f \<noteq> []" and "int (length (f_data f)) \<le> INT_MAX"
    and "0 \<le> key" and "key \<le> INT_MAX" and "k_shm k key = None"
    and "\<forall>c\<in>set q. \<not> isspace c" and "no_nul q" and "q \<noteq> []" and "shm_rm_ok A key"
  shows "\<exists>ep' k' w'. amped_delivery E A d h (ep, k, w) = Inr (ep', k', w')
    \<and> w_sent w' d = w_sent w d @ f_data f \<and> w_closed w' = d # w_closed w \<and> w_streams w' = w_streams w
    \<and> k_shm k' = k_shm k \<and> hi_client (helper_info ep' ! i) = None \<and> helpers_inuse ep' = helpers_inuse ep - 1"
  using assms by (rule amped_page_delivered)

theorem amped_serves_page_witness:
  "\<exists>ep' k' w'. amped_delivery demo_env demo_aenv 5 7 (demo_asked, demo_asked_ipc, demo_world) = Inr (ep', k', w')
    \<and> w_sent w' 5 = ''hello'' \<and> w_closed w' = [5]"
  using amped_serves_page [OF demo_asked_ok(1), of 1 "text_file ''hello''" demo_asked_ipc "''www/a.html''" demo_env demo_aenv]
    demo_asked_ok(2-5) by (auto simp: demo_aenv_def isspace_def)

text \<open>
  C6. The counter of helpers in use is the number of helpers that work for a client, in every
  state the server reaches from \<open>main\<close> (which starts all of them), whatever events arrive.
\<close>

theorem amped_counter_exact:
  assumes "amped_main E su argv sss mem efd ev_mem (Some hs) ep0 w = Inr (Some (ep1, w1))"
    and "length hs = N_HELPER_PROCS" and "N_HELPER_PROCS \<le> length sss"
    and "amped_handle_epoll_events E A batches ep1 k w1 = Inr (ep, k', w')"
  shows "length (helper_info ep) = N_HELPER_PROCS \<and> helpers_inuse ep = int (card (busy (helper_info ep)))"
  using amped_handle_ok [OF amped_main_helpers [OF assms(1-3)] assms(4)] by (simp add: helpers_ok_def)

theorem amped_counter_exact_witness:
  "\<exists>ep w. amped_main demo_env demo_startup [''server'', ''8080''] demo_start (Some (\<lambda>_. demo_aclient [] STATUS_REQUEST_START)) 3 True
      (Some (replicate 128 \<lparr>hi_fd = 0, hi_client = None\<rparr>)) (demo_amped [] STATUS_REQUEST_START None) boot_world =
      Inr (Some (ep, w)) \<and> helpers_inuse ep = int (card (busy (helper_info ep)))"
proof -
  obtain ep w where m: "amped_main demo_env demo_startup [''server'', ''8080''] demo_start
      (Some (\<lambda>_. demo_aclient [] STATUS_REQUEST_START)) 3 True (Some (replicate 128 \<lparr>hi_fd = 0, hi_client = None\<rparr>))
      (demo_amped [] STATUS_REQUEST_START None) boot_world = Inr (Some (ep, w))"
    using demo_amped_main by blast
  have "helpers_inuse ep = int (card (busy (helper_info ep)))"
    using amped_counter_exact [OF m, of demo_aenv "[]" demo_ipc ep demo_ipc w] by (simp add: demo_start_def)
  with m show ?thesis by blast
qed



section \<open>The threaded server\<close>

text \<open>
  C8. A thread of the threaded server answers a request for a static page, however the network
  cuts it into segments, with the header and exactly the bytes of the file, and closes the
  connection.
\<close>

theorem mt_answers_request:
  assumes "length junk = RIO_BUFSIZE" and "good_input inp"
    and "incoming inp = request_line p @ [LF] @ lines_text ls @ [CR, LF] @ rest"
    and "page_name p" and "header_lines ls" and "e_regex_ok E" and "w_send_rets w = []"
    and "static_page (page_of p)" and "e_files E (www_path (page_of p)) = Some f" and "readable_file f"
    and "get_file_type (page_of p @ [NUL]) = Inr ty"
  shows "conn_handler_once E junk req0 d inp w =
    Some (Inr (sys_close d (w\<lparr>w_sent := (w_sent w)(d := w_sent w d
      @ http_header E ty (int (length (f_data f))) 200 ''OK'' @ f_data f)\<rparr>)))"
  using assms by (rule mt_serves_static)

theorem mt_answers_request_witness:
  "conn_handler_once demo_env (zeros 8192) zero_request 5 demo_input demo_world =
    Some (Inr (sys_close 5 (demo_world\<lparr>w_sent := (w_sent demo_world)(5 :=
      http_header demo_env ''text/html'' 5 200 ''OK'' @ ''hello'')\<rparr>)))"
  using mt_answers_request [of "zeros 8192" demo_input "''/a.html''" "[''Host: x'' @ [CR]]" "[]" demo_env demo_world
      "text_file ''hello''" "''text/html''" zero_request 5] demo_page_name demo_header_lines demo_type
  by (simp del: append_Cons)

text \<open>C9. For a static page the single-process and the threaded server send the same bytes.\<close>

theorem servers_agree:
  assumes "fresh d p (ep, w)" and "terminated (page r)" and "cstr (page r) = p" and "w_send_rets w' = []"
    and "static_page p" and "e_files E (www_path p) = Some f" and "readable_file f"
  shows "\<exists>s1 w1 resp. iter_res (length (f_data f) div READ_CHUNK_SIZE + 3) (out_step E d) (ep, w) = Inr s1
    \<and> mt_write_http_response E d' r w' = Inr (0, w1)
    \<and> w_sent (snd s1) d = w_sent w d @ resp \<and> w_sent w1 d' = w_sent w' d' @ resp"
  using assms by (rule same_static_response)

theorem servers_agree_witness:
  "\<exists>s1 w1 resp. iter_res 3 (out_step demo_env 5) (demo_ep ''/a.html'', demo_world) = Inr s1
    \<and> mt_write_http_response demo_env 6 (demo_req ''/a.html'') demo_world = Inr (0, w1)
    \<and> w_sent (snd s1) 5 = resp \<and> w_sent w1 6 = resp"
  using servers_agree [OF demo_fresh, of "''/a.html''" "demo_req ''/a.html''" demo_world demo_env "text_file ''hello''" 6]
  by simp



text \<open>
  C11. \<open>rio_readlineb\<close> returns the first line of the bytes that were sent (cut at \<open>maxlen\<close>,
  which the array must have room for), followed by a NUL, and leaves the rest: how the bytes were cut into segments does
  not matter, nor do interrupted system calls.
\<close>

theorem readlineb_first_line:
  assumes "rio_inv rp" and "good_input inp" and "rio_bytes rp inp \<noteq> []" and "maxlen \<le> cap" and "0 < cap"
  shows "\<exists>rp' inp'. rio_readlineb rp inp cap maxlen = Inr
      (int (line_rc 1 (line_of (maxlen - 1) (rio_bytes rp inp))),
       Some (line_of (maxlen - 1) (rio_bytes rp inp) @ [NUL]), rp', inp')
    \<and> rio_inv rp' \<and> good_input inp'
    \<and> rio_bytes rp' inp' = drop (length (line_of (maxlen - 1) (rio_bytes rp inp))) (rio_bytes rp inp)"
  using assms by (rule rio_readlineb_line)

theorem readlineb_first_line_witness:
  "\<exists>rp' inp'. rio_readlineb (rio_readinitb 5 (zeros 8192)) [Data ''a'', Eintr, Data [LF], Data ''b''] 3 3 =
      Inr (2, Some [CHR ''a'', LF, NUL], rp', inp') \<and> rio_bytes rp' inp' = ''b''"
  using readlineb_first_line [of "rio_readinitb 5 (zeros 8192)" "[Data ''a'', Eintr, Data [LF], Data ''b'']" 3 3]
  by (auto simp: good_input_def line_rc_def numeral_2_eq_2)

text \<open>
  C12. A client that closes its connection after a header line, without the empty line that ends
  the headers, keeps its thread in \<open>read_request_headers\<close> for ever: no answer is written.
\<close>

theorem mt_thread_lost:
  assumes "length junk = RIO_BUFSIZE" and "good_input inp"
    and "incoming inp = request_line p @ [LF] @ l @ [LF]" and "page_name p"
    and "LF \<notin> set l" and "length l + 2 \<le> MAXLINE" and "no_nul l" and "l \<noteq> [CR]" and "e_regex_ok E"
  shows "handle_request E junk req0 d inp w = None"
  using assms by (rule handle_request_stuck)

theorem mt_thread_lost_witness:
  "handle_request demo_env (zeros 8192) zero_request 5
     [Data (request_line ''/a.html'' @ [LF]), Data (''Host: x'' @ [CR, LF])] demo_world = None"
  by (rule mt_thread_lost [of _ _ "''/a.html''" "''Host: x'' @ [CR]"])
    (simp_all add: good_input_def request_line_def demo_page_name)

text \<open>
  C13. The buffer between the main thread and the connection threads: any sequence of insertions
  and removals, as many as an \<open>int\<close> can count, takes out exactly what was put in, in order,
  and never holds more than its size.
\<close>

theorem sbuf_fifo:
  assumes "0 < n" and "int (length ops) \<le> INT_MAX"
    and "q_exec sbuf_insert sbuf_remove ops (sbuf_init n) = (acc, got, sp)"
  shows "acc = got @ sb_contents sp \<and> length (sb_contents sp) \<le> n"
proof -
  have q: "sb_quiet (sbuf_init n)" "sb_contents (sbuf_init n) = []" using sbuf_init_quiet [OF assms(1)] by auto
  have "sb_young (length ops) (sbuf_init n)" using assms(2) by (simp add: sb_young_def sbuf_init_def)
  then have "q_exec sbuf_put sbuf_get ops (sbuf_init n) = (acc, got, sp)"
    using sbuf_exec [OF q(1)] assms(3) by simp
  from conn_buffer.fifo [OF q(1) this] q(2) conn_buffer.bound [of sp] show ?thesis
    by (simp add: sbuf_init_def)
qed

theorem sbuf_fifo_witness:
  "\<exists>sp. q_exec sbuf_insert sbuf_remove [Put 5, Put 6, Get, Put 7] (sbuf_init 2) = ([5, 6, 7], [5], sp)
    \<and> [5, 6, 7] = [5] @ sb_contents sp \<and> length (sb_contents sp) \<le> 2"
proof -
  obtain sp where e: "q_exec sbuf_insert sbuf_remove [Put 5, Put 6, Get, Put 7] (sbuf_init 2) = ([5, 6, 7], [5], sp)"
    by (simp add: sbuf_insert_def sbuf_remove_def sb_store_def sb_load_def sbuf_init_def)
  with sbuf_fifo [OF _ _ e] show ?thesis by simp
qed

text \<open>
  C14. The same buffer from \<open>main\<close> on, under all interleavings of the main thread and the
  connection threads, one step per semaphore operation or access: the connections taken out are a
  prefix of those put in, in order; only descriptors of accepted connections are put in; at most
  one thread is between \<open>P (mutex)\<close> and \<open>V (mutex)\<close>; no store finds the buffer full and no load
  finds it empty.
\<close>

theorem sbuf_threads_safe:
  assumes "mt_main su argv init_ok w = Inr (Mt_serving d s0 w')" and "(mt_step NTHREADS)\<^sup>*\<^sup>* s0 s"
  shows "m_put s = m_taken s @ sb_contents (m_sb s) \<and> (\<forall>x\<in>set (m_put s). 0 \<le> x)
    \<and> i_locked (m_main s) + cnt NTHREADS r_locked (m_thr s) \<le> 1
    \<and> (\<forall>x. m_main s = I_store x \<longrightarrow> sb_len (m_sb s) < sb_n (m_sb s))
    \<and> (\<forall>i<NTHREADS. m_thr s i = R_load \<longrightarrow> 0 < sb_len (m_sb s))"
proof -
  have r: "mt_reach NTHREADS SBUFSIZE s" using assms mt_main_serving mt_reach_steps by blast
  then have inv: "mt_inv NTHREADS s" by (rule mt_reach_inv) simp
  then show ?thesis using mt_access_safe [OF inv] mt_reach_accepted [OF r] by (auto simp: mt_inv_def mt_accepted_def)
qed

theorem sbuf_threads_safe_witness:
  "\<exists>d w s. mt_main demo_startup [''server'', ''8080''] True boot_world = Inr (Mt_serving d (mt_init 65535) w)
    \<and> (mt_step 64)\<^sup>*\<^sup>* (mt_init 65535) s \<and> m_put s = [9] \<and> m_put s = m_taken s @ sb_contents (m_sb s)
    \<and> i_locked (m_main s) + cnt 64 r_locked (m_thr s) \<le> 1"
proof -
  obtain d w where m: "mt_main demo_startup [''server'', ''8080''] True boot_world = Inr (Mt_serving d (mt_init 65535) w)"
    using demo_mt_main by blast
  obtain s where s: "(mt_step 64)\<^sup>*\<^sup>* (mt_init 65535) s" "m_put s = [9]" using demo_mt by blast
  from sbuf_threads_safe [OF m s(1)] m s show ?thesis by blast
qed

section \<open>The FastCGI server\<close>

text \<open>
  C15. A request for a configured application whose queue is empty, in the text the web servers
  print, is queued; the next thread of that application takes it, the connection gets exactly what
  the plugin prints for the query, whatever part of it the library still buffers when the plugin
  returns, and its descriptor is closed. This holds while no other call has redirected standard
  output, which is given back afterwards unless \<open>dup\<close> failed, and gets nothing of the reply.
\<close>

theorem fastcgi_serves_request:
  assumes "fcgi_inv s" and "0 \<le> fc_fd c" and "fc_lock_ok c" and "fc_in c = [fcgi_request command query]"
    and "no_nul command" and "length command < APP_NAME_LEN" and "length query \<le> APP_NAME_LEN"
    and "i < length (apps s)" and "cstr (app_name (apps s ! i)) = command"
    and "\<forall>j<i. cstr (app_name (apps s ! j)) \<noteq> command" and "queued (apps s ! i) = []"
    and "plug (query @ zeros (APP_NAME_LEN - length query)) = Inr out" and "stdout_fd s = Terminal"
  shows "\<exists>s1 s2. accept_request E c s w = Inr (s1, w) \<and> queued (apps s1 ! i) = [fc_fd c]
    \<and> run_app_once plug i bkp n s1 w = Some (Inr (s2, close_socket bkp (close_socket (fc_fd c)
        (w\<lparr>w_sent := (w_sent w)(fc_fd c := w_sent w (fc_fd c) @ out)\<rparr>))))
    \<and> queued (apps s2 ! i) = [] \<and> stdout_fd s2 = (if bkp < 0 then Conn (fc_fd c) else Terminal)
    \<and> stdout_buf s2 = [] \<and> terminal s2 = terminal s @ stdout_buf s"
  using fastcgi_request_served [where plug = plug, OF assms] unfolding stdout_after_def .

theorem fastcgi_serves_request_witness:
  "\<exists>s1 s2. accept_request demo_env (demo_conn ''sumnumbers'' ''x'') demo_fcgi demo_world = Inr (s1, demo_world)
    \<and> queued (apps s1 ! 0) = [5]
    \<and> run_app_once (\<lambda>_. Inr ''out'') 0 7 1 s1 demo_world =
        Some (Inr (s2, close_socket 7 (close_socket 5 (demo_world\<lparr>w_sent := (w_sent demo_world)(5 := ''out'')\<rparr>))))
    \<and> stdout_fd s2 = Terminal"
  using fastcgi_serves_request [of demo_fcgi "demo_conn ''sumnumbers'' ''x''" "''sumnumbers''" "''x''" 0
      "\<lambda>_. Inr ''out''" "''out''" demo_env demo_world 7 1] by auto

text \<open>
  C16. The sum of two numbers, end to end: the request that the web servers send for the
  application \<open>sumnumbers\<close> is answered with the sum, for all numbers whose sum fits an \<open>int\<close>,
  while no other call has redirected standard output.
\<close>

theorem fastcgi_computes_sum:
  assumes "fcgi_inv s" and "0 \<le> fc_fd c" and "fc_lock_ok c"
    and "fc_in c = [fcgi_request ''sumnumbers'' (sum_query a b)]"
    and "int_range a" and "int_range b" and "int_range (a + b)"
    and "i < length (apps s)" and "cstr (app_name (apps s ! i)) = ''sumnumbers''"
    and "\<forall>j<i. cstr (app_name (apps s ! j)) \<noteq> ''sumnumbers''" and "queued (apps s ! i) = []"
    and "stdout_fd s = Terminal"
  shows "\<exists>s1 s2 w2. accept_request E c s w = Inr (s1, w) \<and> run_app_once sumnumbers i bkp n s1 w = Some (Inr (s2, w2))
    \<and> w_sent w2 (fc_fd c) = w_sent w (fc_fd c) @ ''HTTP/1.0 200 OK'' @ CRLF @ ''Content-type: text/html'' @ CRLF @ CRLF
        @ ''<h2>Number1: '' @ show_int a @ '', Number2: '' @ show_int b @ '', Sum: '' @ show_int (a + b) @ ''</h2>'' @ CRLF
    \<and> w_closed w2 = bkp # fc_fd c # w_closed w"
proof -
  have l: "length (sum_query a b) \<le> 33" using assms(5,6) by (rule sum_query_length)
  have p: "no_nul ''sumnumbers''" "length ''sumnumbers'' < APP_NAME_LEN" "length (sum_query a b) \<le> APP_NAME_LEN"
    using l by simp_all
  from l have "length (sum_query a b) < APP_NAME_LEN" by simp
  from fastcgi_request_served [where plug = sumnumbers, OF assms(1-4) p assms(8-11) sumnumbers_query [OF assms(5-7) this] assms(12), of E w bkp n]
  show ?thesis by (auto simp: close_socket_def)
qed

theorem fastcgi_computes_sum_witness:
  "\<exists>s1 s2 w2. accept_request demo_env (demo_conn ''sumnumbers'' (sum_query 2 3)) demo_fcgi demo_world = Inr (s1, demo_world)
    \<and> run_app_once sumnumbers 0 7 0 s1 demo_world = Some (Inr (s2, w2)) \<and> w_closed w2 = [7, 5]"
  using fastcgi_computes_sum [of demo_fcgi "demo_conn ''sumnumbers'' (sum_query 2 3)" 2 3 0 demo_env demo_world 7 0]
  by (auto simp: int_range_def)

text \<open>
  C17. What becomes of a connection the FastCGI server accepts, for whatever it sends: a name of more
  than 256 bytes overflows its array. Otherwise the name is routed to the first application of
  that name or, when there is none, to the application of the request before; the connection
  gets a 404 when there is neither, a 500 when the lock fails or the 64 places of that queue are
  taken, and else it waits there behind the requests before it, with the rest of its bytes. All queues
  stay well-formed.
\<close>

theorem fastcgi_accept_outcome:
  assumes "fcgi_inv s" and "0 \<le> fc_fd c" and "conn_name c = (name, rest)"
  shows "if 256 < length name then accept_request E c s w = Inl BufferOverflow
    else \<exists>s' w'. accept_request E c s w = Inr (s', w') \<and> routed s (cstr name) (app_index s')
      \<and> accept_effect E c rest s w s' w' \<and> fcgi_inv s'"
  using accept_request_read [OF assms(2,3), of E s w] accept_request_total [OF assms, of E w] by simp

theorem fastcgi_accept_outcome_witness:
  "\<exists>s' w'. accept_request demo_env (demo_conn ''nosuch'' []) demo_fcgi demo_world = Inr (s', w') \<and> fcgi_inv s'
    \<and> routed demo_fcgi ''nosuch'' (app_index s')
    \<and> accept_effect demo_env (demo_conn ''nosuch'' []) [''  0''] demo_fcgi demo_world s' w'"
proof -
  have "show_int3 (int (length [])) = ''  0''" by code_simp
  then have "conn_name (demo_conn ''nosuch'' []) = (''nosuch'', [''  0''])"
    using conn_name_request [of "demo_conn ''nosuch'' []" "''nosuch''" "[]"] by simp
  from fastcgi_accept_outcome [OF _ _ this, of demo_fcgi demo_env demo_world] show ?thesis by auto
qed

text \<open>
  C18. The request queue of an application: any sequence of insertions and removals takes out
  exactly what was put in, in order; the ring never holds more than its 64 places, and an
  insertion is refused exactly when they are all taken.
\<close>

theorem request_queue_fifo:
  assumes "queue_inv a" and "q_exec put_request get_request ops a = (acc, got, a')"
  shows "queued a @ acc = got @ queued a' \<and> length (queued a') \<le> MAX_REQUESTS
    \<and> (put_request x a' = None) = (length (queued a') = MAX_REQUESTS)"
proof -
  from request_queue.fifo [OF assms] have i: "queue_inv a'" and e: "queued a @ acc = got @ queued a'" by auto
  from request_queue.put_cases [OF i, of x] request_queue.bound [OF i] queue_len_full [OF i]
  have "(put_request x a' = None) = (length (queued a') = MAX_REQUESTS)"
    by (auto simp: put_request_def)
  with e request_queue.bound [OF i] show ?thesis by blast
qed

theorem request_queue_fifo_witness:
  "\<exists>acc got a'. q_exec put_request get_request [Put 5, Get, Put 6] (new_app 1 ''hello'') = (acc, got, a')
    \<and> acc = got @ queued a' \<and> length (queued a') \<le> 64"
proof -
  obtain acc got a' where e: "q_exec put_request get_request [Put 5, Get, Put 6] (new_app 1 ''hello'') = (acc, got, a')"
    by (metis prod_cases3)
  from request_queue_fifo [OF queue_inv_new_app(1) this] e show ?thesis by simp
qed

text \<open>
  C19. The accepting thread and a pool of worker threads around the mutex of a queue, in every
  interleaving with spurious wake-ups: at most one thread is in a critical section, and the
  requests taken are a prefix of those put in, in order.
\<close>

theorem pool_exclusive:
  assumes "pool_reach n a s" and "queue_inv a" and "queued a = []" and "0 < n"
  shows "p_put s = p_taken s @ queued (p_app s)
    \<and> (\<forall>i<n. w_crit (p_work s i) \<longrightarrow> \<not> a_crit (p_acc s) \<and> (\<forall>j<n. w_crit (p_work s j) \<longrightarrow> j = i))"
proof -
  note inv = pool_reach_inv [OF assms]
  then show ?thesis using pool_mutex [OF inv] by (auto simp: pool_inv_def)
qed

theorem pool_exclusive_witness:
  "\<exists>s. pool_reach 2 (new_app 2 ''sumnumbers'') s \<and> queued (p_app s) = [9] \<and> p_put s = p_taken s @ [9]"
proof -
  obtain s where s: "pool_reach 2 (new_app 2 ''sumnumbers'') s" "queued (p_app s) = [9]" using demo_pool by blast
  from pool_exclusive [OF s(1)] s show ?thesis by auto
qed

text \<open>
  C20. A queued request is not forgotten: from every reachable state in which the queue is not
  empty the threads can take its oldest request by their own steps, without a spurious wake-up: the
  signal is not lost, and there is no deadlock.
\<close>

theorem pool_never_stuck:
  assumes "pool_reach n a s" and "queue_inv a" and "queued a = []" and "0 < n" and "queued (p_app s) = d # ds"
  shows "\<exists>s'. (pool_step n)\<^sup>*\<^sup>* s s' \<and> p_taken s' = p_taken s @ [d]"
  using pool_progress [OF pool_reach_inv [OF assms(1-4)] assms(4,5)] .

theorem pool_never_stuck_witness:
  "\<exists>s s'. pool_reach 2 (new_app 2 ''sumnumbers'') s \<and> (pool_step 2)\<^sup>*\<^sup>* s s' \<and> p_taken s' = p_taken s @ [9]"
proof -
  obtain s where s: "pool_reach 2 (new_app 2 ''sumnumbers'') s" "queued (p_app s) = [9]" using demo_pool by blast
  from pool_never_stuck [OF s(1) _ _ _ s(2)] s show ?thesis by auto
qed

text \<open>
  C21. A configuration file written in its format, with numbers an \<open>int\<close> can hold, is read back: its
  entries, in order, with empty queues.
\<close>

theorem config_read_back:
  assumes "list_all app_entry cfg" and "\<forall>(tc, name)\<in>set cfg. mok tc" and "mok (int (length cfg))"
    and "int (length cfg) \<le> INT_MAX" and "e_files E ''fastcgi.config'' = Some f" and "f_data f = config_text cfg"
  shows "read_fastcgi_config E mok w = Inr (0, map (\<lambda>(tc, name). new_app tc name) cfg, w)"
  using assms by (rule config_round_trip)

theorem config_read_back_witness:
  "read_fastcgi_config demo_env (\<lambda>_. True) demo_world =
     Inr (0, [new_app 2 ''sumnumbers'', new_app 1 ''hello''], demo_world)"
  using config_read_back [of demo_config "\<lambda>_. True" demo_env "text_file (config_text demo_config)" demo_world]
  by (simp add: demo_config_def app_entry_def isspace_def)

section \<open>The FastCGI client\<close>

text \<open>
  C22. The FastCGI client of the web servers: when the connection is made and the request is
  taken, the client of the web server gets exactly what the FastCGI server replied, the request
  is finished and the socket is closed.
\<close>

theorem fastcgi_client_forwards:
  assumes "terminated (drop off (page (req_of ep f)))" and "length (page (req_of ep f)) - off \<le> 1011"
    and "split_query (drop off (page (req_of ep f))) = (command, query_str)" and "0 \<le> e_socket E"
    and "e_connect E (inet_addr addr) (nat (atoi port))"
    and "e_fcgi_send E (fcgi_request command query_str) = int (length (fcgi_request command query_str))"
    and "\<forall>c\<in>set (e_fcgi_reply E (fcgi_request command query_str)). c \<noteq> [] \<and> length c \<le> READ_CHUNK_SIZE"
    and "w_send_rets w = []"
  shows "\<exists>ep'. write_http_fastcgi_response E addr port f off d ep w =
      Inr (0, ep', w\<lparr>w_sent := (w_sent w)(d := w_sent w d @ concat (e_fcgi_reply E (fcgi_request command query_str)))\<rparr>)
    \<and> status (req_of ep' d) = STATUS_REQUEST_FINISH"
  using assms by (rule fastcgi_forwarded)

theorem fastcgi_client_forwards_witness:
  "\<exists>ep'. write_http_fastcgi_response demo_env ''127.0.0.1'' serv_port 5 13 5 (demo_ep ''/fastcgi-bin/hello?x'') demo_world =
      Inr (0, ep', demo_world\<lparr>w_sent := (w_sent demo_world)(5 := ''ok'')\<rparr>)
    \<and> status (req_of ep' 5) = STATUS_REQUEST_FINISH"
  using fastcgi_client_forwards [of 13 "demo_ep ''/fastcgi-bin/hello?x''" 5 "''hello''" "''x''" demo_env "''127.0.0.1''" serv_port
      demo_world 5] demo_fastcgi by simp

section \<open>Shared parts\<close>

text \<open>
  The matcher of the model for the request line finds exactly what the regular expression of the source
  matches by the rules of POSIX, and its second group, the page, is the longest possible one.
\<close>

theorem request_regex_posix:
  "regexec_request h = Some (m, p) \<longleftrightarrow> posix_match h m p"
  by (rule regexec_request_posix)

text \<open>
  Starting the server socket leaks no descriptor: the result is a listening socket that was
  not open before and is the only new one, or a failure after which the same descriptors are
  open as before.
\<close>

theorem server_socket_no_leak:
  assumes "start_server_socket su port w = Inr (rc, freed, w')"
    and "\<forall>d. w_interest w d \<noteq> None \<longrightarrow> d \<in> w_open w"
  shows "(0 \<le> rc \<and> freed \<and> rc \<notin> w_open w \<and> same_but_log (w\<lparr>w_open := insert rc (w_open w)\<rparr>) w')
    \<or> (rc = - 1 \<and> same_but_log w w')"
  using assms by (rule start_server_socket_effect)

theorem server_socket_no_leak_witness:
  "\<exists>rc freed w'. start_server_socket (demo_startup\<lparr>su_listen_ok := False\<rparr>) 8080 boot_world = Inr (rc, freed, w')
    \<and> rc = - 1 \<and> same_but_log boot_world w'"
proof -
  obtain freed w' where e: "start_server_socket (demo_startup\<lparr>su_listen_ok := False\<rparr>) 8080 boot_world = Inr (- 1, freed, w')"
    by (simp add: start_server_socket_def demo_startup_def demo_port sys_socket_def)
  from server_socket_no_leak [OF e] e show ?thesis by simp
qed

text \<open>
  Plugin calls that run one after the other deliver every output to its own connection, and
  standard output is where it was.
\<close>

theorem sequential_outputs:
  assumes "distinct is" and "\<forall>i\<in>set is. o_pc s i = P_dup" and "inj_on conn (set is)"
  shows "o_stdout (pout_run conn txt (concat (map (\<lambda>i. [i, i, i, i]) is)) s) = o_stdout s
    \<and> (\<forall>i\<in>set is. o_got (pout_run conn txt (concat (map (\<lambda>i. [i, i, i, i]) is)) s) (Conn (conn i)) =
        o_got s (Conn (conn i)) @ txt i)
    \<and> (\<forall>c. c \<notin> (\<lambda>i. Conn (conn i)) ` set is \<longrightarrow>
        o_got (pout_run conn txt (concat (map (\<lambda>i. [i, i, i, i]) is)) s) c = o_got s c)"
  using assms by (rule pout_sequential)

theorem sequential_outputs_witness:
  "o_got (pout_run int (\<lambda>i. show_nat i) [0, 0, 0, 0, 1, 1, 1, 1] pout_init) (Conn 1) = show_nat 1"
  using sequential_outputs [of "[0, 1]" pout_init int "\<lambda>i. show_nat i"] by (simp add: pout_init_def)

section \<open>The request parser of the userver\<close>

text \<open>
  C23. Every request of a client connection of the userver is well-formed between two reads, from the
  set-up of the connection on, through every sequence of reads with arbitrary bytes and over any
  number of requests on the connection: the lengths stay within the arrays and the strings that
  are read later are terminated, when the document root leaves room in the 140 bytes of the URI
  (the option is accepted up to 199). The index name that \<open>setup_http\<close> appends overflows the URI
  exactly when a directory is asked for by 130 bytes or more; there the connection's requests end.
\<close>

theorem userver_request_wellformed:
  assumes "client_request e doc r" and "doc_root_len e < MAX_URI_LEN"
  shows "parsing e r \<and> q_state r \<noteq> PARSE_DONE
    \<and> (\<forall>mem n r' rest. n \<le> int (length mem) \<and> post_sock_read e mem n r = Inr (Setup_Http r' rest) \<longrightarrow>
        terminated (q_uri r') \<and> (add_index (doc_root_len e) r' = Inl BufferOverflow \<longleftrightarrow>
          wants_index (doc_root_len e) (q_uri r') \<and> 130 \<le> length (cstr (q_uri r'))))"
  using client_request_ok [OF assms] add_index_overflow [OF assms] by blast

theorem userver_request_wellformed_witness:
  "\<exists>r. socket_setup_req [] demo_ureq = Inr r \<and> parsing demo_penv r \<and> q_state r \<noteq> PARSE_DONE"
proof -
  obtain r where r: "socket_setup_req [] demo_ureq = Inr r" "client_request demo_penv [] r" using demo_client by blast
  have "doc_root_len demo_penv < 140" by (simp add: demo_penv_def)
  from userver_request_wellformed [OF r(2) this] r(1) show ?thesis by blast
qed

text \<open>
  C24. Whatever bytes arrive, the parser of the userver never writes outside an array of the request
  and returns; a fault can only come from the value of a \<open>Range\<close>, \<open>Client-Id\<close> or \<open>Content-Length\<close>
  header, or be the assertion that a dynamic request has an application. As before, the document root
  leaves room in the URI.
\<close>

theorem userver_parse_safe:
  assumes "client_request e doc r" and "doc_root_len e < MAX_URI_LEN" and "n \<le> int (length mem)"
  shows "case parse_bytes e mem n r of
      Inl x \<Rightarrow> x \<noteq> BufferOverflow \<and>
        ((\<exists>mem' n' r'. reads e (mem, n, r) (mem', n', r') \<and> hazard (q_state r')) \<or>
         x = AssertFail \<and> (\<exists>mem' n' r'. parse_loop e mem n r = Inr (Go mem' n' r') \<and> q_state r' = PARSE_DONE \<and> dynamic r'))
    | Inr (rc, rest, r') \<Rightarrow> rc = 0 \<and> (if q_state r' = PARSE_DONE then q_type r' \<noteq> REQ_INVALID else parsing e r') \<or>
        rc = -1 \<and> q_type r' = REQ_INVALID"
  using parse_bytes_cases [OF assms(3)] client_request_ok [OF assms(1,2)] by blast

theorem userver_parse_safe_witness:
  "\<exists>r. socket_setup_req [] demo_ureq = Inr r \<and>
    (case parse_bytes demo_penv (replicate 200 (CHR ''a'')) 200 r of
      Inl x \<Rightarrow> x \<noteq> BufferOverflow | Inr (rc, rest, r') \<Rightarrow> rc = 0 \<or> rc = -1)"
proof -
  obtain r where r: "socket_setup_req [] demo_ureq = Inr r" "client_request demo_penv [] r" using demo_client by blast
  have "doc_root_len demo_penv < 140" by (simp add: demo_penv_def)
  from userver_parse_safe [OF r(2) this, of 200 "replicate 200 (CHR ''a'')"] r(1) show ?thesis
    by (auto split: sum.splits prod.splits)
qed

text \<open>
  C25. A request in pieces: when the parser has used up a piece and asks for more, parsing the next
  piece gives what parsing both at once gives, and what the buffer holds after the piece makes no
  difference. Excepted are an end inside the value of a \<open>Range\<close> or \<open>Client-Id\<close> header, and a URI
  whose next piece begins with a slash.
\<close>

theorem userver_parse_pieces:
  assumes "parse_bytes e xs (int (length xs)) r = Inr (0, None, r')" and "q_state r' \<noteq> PARSE_DONE"
    and "q_state r' \<notin> {PARSE_RANGE_REQUEST, PARSE_CLIENT_ID}"
    and "q_state r' = PARSE_URI \<and> \<not> skip_lws r' \<longrightarrow> take 1 ys \<noteq> ''/''" and "ys \<noteq> []"
  shows "parse_bytes e (xs @ ys) (int (length (xs @ ys))) r = parse_bytes e ys (int (length ys)) r'
    \<and> parse_bytes e (xs @ js) (int (length xs)) r = Inr (0, None, r')"
  using parse_bytes_pieces [OF assms(1,2) _ assms(5)] assms(3,4) by (simp add: resumable_def)

theorem userver_parse_pieces_witness:
  "\<exists>r. parse_bytes demo_penv ''GET /in'' 7 demo_ureq = Inr (0, None, r) \<and>
    parse_bytes demo_penv (''GET /in'' @ ''dex.html HTTP/1.0'') 24 demo_ureq = parse_bytes demo_penv ''dex.html HTTP/1.0'' 17 r"
proof -
  obtain r where r: "parse_bytes demo_penv ''GET /in'' (int (length ''GET /in'')) demo_ureq = Inr (0, None, r)" "q_state r = PARSE_URI"
    using demo_first_piece by auto
  from userver_parse_pieces [OF r(1), of "''dex.html HTTP/1.0''"] r show ?thesis by auto
qed

text \<open>
  C26. A request for a file, with any headers but those the parser interprets, is read back: its
  method, its path behind the document root, and its version; what follows it stays in the buffer,
  and the server goes on to set up the file.
\<close>

theorem userver_reads_request:
  assumes "m \<in> {HTTP_GET, HTTP_HEAD}" and "plain_path (doc_root_len e) path" and "\<forall>h\<in>set hs. plain_header h" and "at_start e r"
    and "CHR ''?'' \<notin> set (take (doc_root_len e) (q_uri r) @ path)" and "find_str ''.php'' (take (doc_root_len e) (q_uri r) @ path) = None"
  shows "\<exists>r'. post_sock_read e (render_request m path closes hs @ rest) (int (length (render_request m path closes hs @ rest))) r =
      Inr (Setup_Http r' (rest_of rest (int (length rest)))) \<and>
    q_method r' = m \<and> q_close r' = closes \<and> cstr (q_uri r') = take (doc_root_len e) (q_uri r) @ path \<and> query_string r' = None
    \<and> cookie_len r' = cookie_len r"
  using assms by (rule post_sock_read_static)

theorem userver_reads_request_witness:
  "\<exists>r'. post_sock_read demo_penv (''GET /a.html HTTP/1.0'' @ [CR, LF] @ ''Host: h'' @ [CR, LF, CR, LF]) 33 demo_ureq = Inr (Setup_Http r' None)
    \<and> q_method r' = HTTP_GET \<and> q_close r' \<and> cstr (q_uri r') = ''a.html''"
proof -
  have "plain_path 0 ''a.html''" "plain_header (''Host'', '' h'')"
    by (simp_all add: plain_path_def plain_header_def isspace_def eol_def header_names_def tolower_def)
  then show ?thesis
    using userver_reads_request [of HTTP_GET demo_penv "''a.html''" "[(''Host'', '' h'')]" demo_ureq True "[]"] demo_at_start
    by (auto simp: demo_penv_def demo_ureq_def render_request_def render_header_def version_name_def rest_of_def)
qed

text \<open>
  C27. A request with a query goes to the application whose name is the path, with the query behind
  it; when no application has this name, the process ends on an assertion.
\<close>

theorem userver_query_dispatch:
  assumes "m \<in> {HTTP_GET, HTTP_HEAD, HTTP_POST}" and "plain_path (doc_root_len e) (p @ CHR ''?'' # q)" and "\<forall>h\<in>set hs. plain_header h"
    and "at_start e r" and "CHR ''?'' \<notin> set (take (doc_root_len e) (q_uri r) @ p)"
    and "find_str ''.php'' (take (doc_root_len e) (q_uri r) @ p) = None"
  shows "case find_uapp (u_apps e) p of
      Some (i, REQ_FASTCGI) \<Rightarrow>
        \<exists>r' k. post_sock_read e (render_request m (p @ CHR ''?'' # q) closes hs @ rest)
            (int (length (render_request m (p @ CHR ''?'' # q) closes hs @ rest))) r = Inr (Fcgi_Process r' (rest_of rest (int (length rest)))) \<and>
          q_method r' = m \<and> q_app r' = Some i \<and> cstr (q_uri r') = take (doc_root_len e) (q_uri r) @ p \<and> query_string r' = Some k \<and>
          cstr (drop k (q_uri r')) = q
    | None \<Rightarrow> post_sock_read e (render_request m (p @ CHR ''?'' # q) closes hs @ rest)
            (int (length (render_request m (p @ CHR ''?'' # q) closes hs @ rest))) r = Inl AssertFail
    | _ \<Rightarrow> True"
  using assms by (rule post_sock_read_query)

theorem userver_query_dispatch_witness:
  "(\<exists>r' k. post_sock_read demo_penv (render_request HTTP_GET ''cgi?x=1'' True []) (int (length (render_request HTTP_GET ''cgi?x=1'' True []))) demo_ureq =
      Inr (Fcgi_Process r' None) \<and> query_string r' = Some k \<and> cstr (drop k (q_uri r')) = ''x=1'')
   \<and> post_sock_read demo_penv (render_request HTTP_GET ''who?x=1'' True []) (int (length (render_request HTTP_GET ''who?x=1'' True []))) demo_ureq =
      Inl AssertFail"
proof -
  have "plain_path 0 ''cgi?x=1''" "plain_path 0 ''who?x=1''"
    by (simp_all add: plain_path_def isspace_def)
  then show ?thesis
    using userver_query_dispatch [of HTTP_GET demo_penv "''cgi''" "''x=1''" "[]" demo_ureq True "[]"]
      userver_query_dispatch [of HTTP_GET demo_penv "''who''" "''x=1''" "[]" demo_ureq True "[]"] demo_at_start
    by (auto simp: demo_penv_def demo_ureq_def rest_of_def strcmp_eq_def)
qed

text \<open>
  C28. With a document root shorter than the URI array, a request that does not parse is not
  answered with status 400 as the code means to: its type is still the invalid one, and the
  switch over the types that follows ends the process.
\<close>

theorem userver_bad_request:
  assumes "client_request e doc r" and "doc_root_len e < MAX_URI_LEN" and "n \<le> int (length mem)"
    and "parse_bytes e mem n r = Inr (rc, rest, r')" and "rc < 0"
  shows "post_sock_read e mem n r = Inl AssertFail"
  using client_request_ok [OF assms(1,2)] bad_request_aborts [OF assms(3) _ _ assms(4)] assms(5) by auto

theorem userver_bad_request_witness:
  "\<exists>r. socket_setup_req [] demo_ureq = Inr r \<and> post_sock_read demo_penv ''GET / HTTP/9 '' 13 r = Inl AssertFail"
proof -
  obtain r where r: "socket_setup_req [] demo_ureq = Inr r" "client_request demo_penv [] r" "r = demo_ureq"
    using demo_client by blast
  obtain rest r' where "parse_bytes demo_penv ''GET / HTTP/9 '' 13 r = Inr (-1, rest, r')" using demo_bad_request r(3) by blast
  from userver_bad_request [OF r(2) _ _ this] r(1) show ?thesis by (auto simp: demo_penv_def)
qed

section \<open>Where the code does not do what it means to\<close>

text \<open>
  A page name longer than 1024 characters in a request line overflows the array it is
  copied into: the length of the match is not checked.
\<close>

theorem long_page_overflows:
  assumes "plain_headers hdrs" and "no_nul p" and "no_nul hdrs" and "MAX_LINE < length p" and "e_regex_ok E"
    and "length (page req) = MAX_LINE" and "0 < n"
  shows "process_http_request E (request_text p hdrs @ zeros n) req = Inl BufferOverflow"
proof -
  have "no_nul (request_text p hdrs)" using assms(2,3) by (simp add: request_text_def)
  then have "cstr (request_text p hdrs @ zeros n) = request_text p hdrs" by simp
  with assms show ?thesis
    by (simp add: process_http_request_def regexec_request_text store_page_overflow)
qed

theorem long_page_overflows_witness:
  "process_http_request demo_env (request_text (replicate 1025 (CHR ''a'')) [] @ zeros 3000) zero_request = Inl BufferOverflow"
  using long_page_overflows [of "[]" "replicate 1025 (CHR ''a'')" demo_env zero_request 3000]
  by (simp add: plain_headers_def no_nul_def)

text \<open>
  A request for an unknown application is queued for the application of the request before
  it: the index is not reset between requests.
\<close>

theorem unknown_app_misrouted:
  assumes "0 \<le> fc_fd c" and "fc_lock_ok c" and "fc_in c = [fcgi_request command query]"
    and "no_nul command" and "length command < APP_NAME_LEN"
    and "\<forall>a\<in>set (apps s). cstr (app_name a) \<noteq> command"
    and "app_index s = int i" and "put_request (fc_fd c) (apps s ! i) = Some a"
  shows "accept_request E c s w = Inr (s\<lparr>apps := (apps s)[i := a],
      conn_in := (conn_in s)(fc_fd c := [show_int3 (int (length query)) @ query])\<rparr>, w)"
  using unknown_app(2) [OF assms] .

theorem unknown_app_misrouted_witness:
  "\<exists>a. put_request 5 (new_app 2 ''sumnumbers'') = Some a
    \<and> accept_request demo_env (demo_conn ''nosuch'' ''q'') (demo_fcgi\<lparr>app_index := 0\<rparr>) demo_world =
      Inr (demo_fcgi\<lparr>app_index := 0, apps := [a], conn_in := (conn_in demo_fcgi)(5 := [''  1q''])\<rparr>, demo_world)"
proof -
  obtain a where a: "put_request 5 (new_app 2 ''sumnumbers'') = Some a" by (simp add: put_request_def new_app_def Let_def)
  have n: "show_int3 1 = ''  1''" by (simp add: show_int3_def show_int_def show_nat.simps char_of_def bit_0 replicate_numeral_2)
  show ?thesis
    using unknown_app_misrouted [of "demo_conn ''nosuch'' ''q''" "''nosuch''" "''q''" "demo_fcgi\<lparr>app_index := 0\<rparr>" 0 a demo_env demo_world] a n
    by simp
qed

text \<open>
  Two plugin calls at once can mix: with this schedule the connection of the first thread
  gets nothing, the connection of the second gets the output of the first, the output of the
  second goes to the terminal, and standard output stays on the first connection.
\<close>

theorem stdout_race:
  assumes "conn 0 \<noteq> conn 1"
  shows "\<exists>s. s = pout_run conn txt [0, 0, 1, 1, 0, 0, 1, 1] pout_init
    \<and> o_pc s 0 = P_done \<and> o_pc s 1 = P_done \<and> o_got s (Conn (conn 0)) = []
    \<and> o_got s (Conn (conn 1)) = txt 0 \<and> o_got s Terminal = txt 1 \<and> o_stdout s = Conn (conn 0)"
  using pout_race [OF assms, of "txt"] by (simp add: Let_def)

theorem stdout_race_witness:
  "\<exists>s. s = pout_run int show_nat [0, 0, 1, 1, 0, 0, 1, 1] pout_init
    \<and> o_got s (Conn 0) = [] \<and> o_got s (Conn 1) = show_nat 0 \<and> o_stdout s = Conn 0"
  using stdout_race [of int show_nat] by simp

text \<open>
  In the multi-process server the output of a CGI program that has more than one chunk is
  cut: after the first 1024 bytes the connection stays in a state that no event leaves, the
  program's pipe stays open and nothing more is sent.
\<close>

theorem amped_cgi_truncated:
  assumes "a_cgi d STATUS_CGI_PROC_RUNNING (ep, k, w)"
    and "fp (req_of ep d) = Some st" and "s_bad st = None" and "\<not> s_eof st" and "\<not> s_err st"
    and "READ_CHUNK_SIZE \<le> length (s_rest st)"
  shows "\<exists>ep' w'. iter_res (Suc n) (a_out E A d) (ep, k, w) = Inr (ep', k, w')
    \<and> w_sent w' d = w_sent w d @ take READ_CHUNK_SIZE (s_rest st)
    \<and> w_closed w' = w_closed w \<and> w_streams w' = w_streams w"
  using assms by (rule amped_cgi_cut)

theorem amped_cgi_truncated_witness:
  "\<exists>ep' w'. iter_res 100 (a_out demo_env demo_aenv 5) (demo_acgi, demo_ipc, demo_world) = Inr (ep', demo_ipc, w')
    \<and> w_sent w' 5 = replicate 1024 (CHR ''a'') \<and> w_closed w' = []"
  using amped_cgi_truncated [of 5 demo_acgi demo_ipc demo_world "open_stream (text_file (replicate 2000 (CHR ''a'')))" 99
      demo_env demo_aenv] demo_acgi_ok
  by (auto simp: open_stream_def)

text \<open>
  The lookup of a program of flash searches only the bins of what precedes a slash or a question
  mark: the loop ends at the end of the name without looking. If these bins are empty, nothing is
  found, also when the cache has an entry for exactly this name.
\<close>

theorem flash_cgi_missed:
  assumes "\<forall>i<length name. name ! i = CHR ''/'' \<or> name ! i = CHR ''?'' \<longrightarrow>
      hb_head (hot_bins s (CgiBin (unat (foldl cgi_hash_step 0 (take i name) AND 255)))) = None" and "name \<noteq> []"
  shows "FindMatchInHotCGICache alloc cg name s = Some (Inr (None, cg, name, s))"
  using assms by (rule FindMatchInHotCGICache_missed)

theorem flash_cgi_missed_witness:
  "\<exists>s. in_cgis s 0 ''cgi'' \<and> up_to_date s 0 \<and> FindMatchInHotCGICache demo_alloc demo_cg ''cgi'' s = Some (Inr (None, demo_cg, ''cgi'', s))"
proof -
  obtain s where s: "in_cgis s 0 ''cgi''" "up_to_date s 0" using demo_cgi_run by blast
  have "FindMatchInHotCGICache demo_alloc demo_cg ''cgi'' s = Some (Inr (None, demo_cg, ''cgi'', s))"
    by (rule flash_cgi_missed) (auto simp: less_Suc_eq)
  then show ?thesis using s by blast
qed

section \<open>Modules of the two bundled servers\<close>

text \<open>
  C29. The queue of the userver: from \<open>alloc_queue\<close> on, every sequence of insertions at either end,
  removals and tests returns what the same calls on a list of the given capacity return (a
  full queue refuses with -1, an empty one gives -1) and leaves the same contents; no assertion
  of the code fails and no access is outside the array.
\<close>

theorem userver_queue_order:
  assumes "alloc_queue mem maxsize = Inr (Some q0)" and "\<forall>n d. mem n = Some d \<longrightarrow> length d = n"
    and "maxsize < SIZE_MAX1"
  shows "\<exists>q. uq_exec ops q0 = Inr (fst (list_exec maxsize ops []), q)
    \<and> uq_contents q = snd (list_exec maxsize ops []) \<and> length (uq_contents q) \<le> maxsize"
proof -
  have q0: "uq_inv q0" "uq_contents q0 = []" "uq_cap q0 = maxsize"
    using alloc_queue_inv [OF assms(1)] assms(2,3) by auto
  from uq_exec_refines [OF q0(1), of ops] obtain q where
    "uq_exec ops q0 = Inr (fst (list_exec maxsize ops []), q)" "uq_inv q"
    "uq_contents q = snd (list_exec maxsize ops [])" "uq_cap q = maxsize"
    unfolding q0(2,3) by blast
  then show ?thesis using uq_bound [of q] length_uq_contents [of q] by (intro exI [of _ q]) (simp del: length_uq_contents)
qed

theorem userver_queue_order_witness:
  "\<exists>q0 q. alloc_queue (\<lambda>n. Some (replicate n 0)) 2 = Inr (Some q0)
    \<and> uq_exec [QPut 5, QPush 6, QPut 7, QIsFull, QGet, QSize] q0 = Inr ([0, 0, - 1, 1, 6, 1], q) \<and> uq_contents q = [5]"
proof -
  obtain q0 where a: "alloc_queue (\<lambda>n. Some (replicate n 0)) 2 = Inr (Some q0)"
    by (simp add: alloc_queue_def SIZE_MAX1_def)
  have "2 < SIZE_MAX1" by (simp add: SIZE_MAX1_def)
  from userver_queue_order [OF a _ this, of "[QPut 5, QPush 6, QPut 7, QIsFull, QGet, QSize]"] a
  show ?thesis by (auto simp: numeral_2_eq_2)
qed

text \<open>
  C30. The bitmap from which the userver takes the FastCGI request numbers: the search takes the
  lowest free place and no other, \<open>-1\<close> means that there is none, and a place that is cleared is
  free again; the count of free places is exact and no assertion fails.
\<close>

theorem userver_bitmap_allocates:
  assumes "bm_inv b" and "i < bm_size b"
  shows "((bm_free b = {} \<and> bitmap_find_and_set b = Inr (- 1, b)) \<or>
     (\<exists>b'. bm_free b \<noteq> {} \<and> bitmap_find_and_set b = Inr (int (Min (bm_free b)), b') \<and> bm_inv b'
        \<and> bm_free b' = bm_free b - {Min (bm_free b)}))
   \<and> (\<exists>b'. bitmap_clear b (int i) = Inr b' \<and> bm_inv b' \<and> bm_free b' = insert i (bm_free b))
   \<and> bitmap_is_set b (int i) = Inr (i \<notin> bm_free b)"
  using bitmap_find_and_set_ok [OF assms(1)] bitmap_clear_ok [OF assms] bitmap_is_set_ok [OF assms] assms(2)
  by (auto simp: bm_free_def)

theorem userver_bitmap_allocates_witness:
  "\<exists>b b'. alloc_bitmap (\<lambda>n. Some (replicate n 0)) 40 = Inr (Some b) \<and> bitmap_find_and_set b = Inr (0, b')
    \<and> bm_inv b' \<and> bm_free b' = {..<40} - {0}"
proof -
  obtain b where b: "alloc_bitmap (\<lambda>n. Some (replicate n 0)) 40 = Inr (Some b)" "bm_inv b" "bm_free b = {..<40}" "bm_size b = 40"
    using alloc_bitmap_ok [of 40 "\<lambda>n. Some (replicate n 0)" "replicate (ROUND_UP 40 32 div 32) 0"] by auto
  have "Min {..<40::nat} = 0" by (rule Min_eqI) auto
  with userver_bitmap_allocates [OF b(2), of 3] b show ?thesis by fastforce
qed

text \<open>
  The file-name matcher of flash on a pattern without alternatives: it matches a string exactly
  when the pattern, read as a shell pattern, describes some beginning of it.
\<close>

theorem flash_match_prefix:
  assumes "CHR ''|'' \<notin> set p"
  shows "match p str \<longleftrightarrow> (\<exists>u. prefix u str \<and> glob p u)"
  using assms by (rule match_glob)

theorem flash_match_prefix_witness:
  "match ''*.cgi'' ''run.cgix'' \<and> (\<exists>u. prefix u ''run.cgix'' \<and> glob ''*.cgi'' u)"
proof -
  have "match ''*.cgi'' ''run.cgix''" by code_simp
  with flash_match_prefix [of "''*.cgi''" "''run.cgix''"] show ?thesis by simp
qed

text \<open>
  C31. The connection timers of flash, from \<open>main\<close> on: a check at a new second ends and runs the
  expiry function of every connection whose time has come, once, and of none whose time has not come
  when the check ends (\<open>IdleTimeout\<close> reads the clock); afterwards no timer that had run out is left. The exception
  is a timer of \<open>CGITimeout2\<close>, which stays set when the program was killed; it has run
  once by then. The counters by which a check avoids looking at the connections lose no timer.
\<close>

theorem flash_timers_exact:
  assumes "timer_reach maxConnects start s" and "clock_ok clock s" and "lastTimerCheckTime s \<noteq> tv_sec s"
  shows "\<exists>rs s'. CheckTimers clock kills s = Inr (rs, s') \<and> distinct rs
    \<and> (\<forall>i c. conn_of s i = Some c \<and> hc_expirationTime c \<noteq> 0 \<and> hc_expirationTime c \<le> tv_sec s \<longrightarrow>
        i \<in> set rs \<or> hc_expireFunc c = CGI_Timeout2 \<and> hc_expirationTime c < lastTimerCheckTime s)
    \<and> (\<forall>i\<in>set rs. \<exists>c. conn_of s i = Some c \<and> hc_expirationTime c \<noteq> 0 \<and> hc_expirationTime c \<le> tv_sec s')
    \<and> (\<forall>i. i \<notin> set rs \<longrightarrow> conn_of s' i = conn_of s i)
    \<and> (\<forall>i c. conn_of s' i = Some c \<and> hc_expirationTime c \<noteq> 0 \<longrightarrow>
        tv_sec s < hc_expirationTime c \<or> hc_expireFunc c = CGI_Timeout2)"
proof -
  note inv = timer_reach_inv [OF assms(1)]
  from CheckTimers_ok [OF inv assms(2,3), of kills] obtain rs s' where
    r: "CheckTimers clock kills s = Inr (rs, s')" "checked s rs s'" by blast
  have "hc_expireFunc c = CGI_Timeout2" if "conn_of s i = Some c" "hc_expirationTime c \<noteq> 0"
    "\<not> lastTimerCheckTime s \<le> hc_expirationTime c" for i c
    using inv that by (auto simp: clock_inv_def timer_ok_def)
  then show ?thesis using r unfolding checked_def served_def
    by (intro exI [of _ rs] exI [of _ s']) (meson not_le)
qed

theorem flash_timers_exact_witness:
  "\<exists>s rs s'. timer_reach 2 100 s \<and> CheckTimers (\<lambda>_. 104) (\<lambda>_. True) s = Inr (rs, s') \<and> 0 \<in> set rs"
proof -
  obtain s c where s: "timer_reach 2 100 s" "conn_of s 0 = Some c" "hc_expirationTime c = 103"
    "hc_expireFunc c = Idle_Timeout" "tv_sec s = 104" "lastTimerCheckTime s = 100" using demo_timed by blast
  have "clock_ok (\<lambda>_. 104) s" using s(5) by (simp add: clock_ok_def mono_def)
  from flash_timers_exact [OF s(1) this, of "\<lambda>_. True"] s(5,6) obtain rs s' where
    "CheckTimers (\<lambda>_. 104) (\<lambda>_. True) s = Inr (rs, s')" "0 \<in> set rs"
    using s(2-4) by fastforce
  with s(1) show ?thesis by blast
qed

text \<open>
  C32. The name cache of flash and its users, in every reachable state: every lookup ends without a
  fault; an entry that connections hold is allocated, its count is the number of references to it,
  and each of them can be released; an entry that was handed out and given a name can be entered,
  and is cached then; a new entry can be had, and getting it frees none that is in use.
\<close>

theorem flash_names_safe:
  assumes "hot_reach mx mem alloc tab now (s, H, N)" and "mem_ok mem" and "alloc_ok alloc"
  shows "(\<forall>u. \<exists>r s'. FindMatchInHotNameCache u s = Some (Inr (r, s')))
    \<and> (\<forall>p. p \<in># H \<longrightarrow> (\<exists>e s'. hnes s p = Some e \<and> hne_refCount e = int (count H p) \<and> ReleaseHNE p s = Inr s'))
    \<and> (\<forall>p e u. p \<in> N \<and> hnes s p = Some e \<and> hne_encoded e = Some u \<longrightarrow> (\<exists>s'. EnterIntoHotNameCache p s = Inr s' \<and> cached s' u p))
    \<and> (\<forall>p e u. p \<in> N \<and> hnes s p = Some e \<and> hne_stripped e = Some u \<longrightarrow> (\<exists>s'. EnterIntoHotCGICache p s = Inr s'))
    \<and> (\<exists>r s'. GetEmptyHNE mx mem s = Inr (r, s') \<and> (\<forall>p. p \<in># H \<or> p \<in> N \<longrightarrow> hnes s' p \<noteq> None \<and> r \<noteq> Some p))"
  using hot_reach_works [OF assms] hot_reach_lookup [OF assms] by (auto simp: works_def) blast

theorem flash_names_safe_witness:
  "\<exists>s s'. hot_reach 1 demo_mem demo_alloc demo_tab 0 (s, {#0#}, {}) \<and> ReleaseHNE 0 s = Inr s'"
proof -
  obtain s where "hot_reach 1 demo_mem demo_alloc demo_tab 0 (s, {#0#}, {})" using demo_name_run by blast
  from this flash_names_safe [OF this demo_ok(1,2)] show ?thesis by auto
qed

text \<open>
  C33. A lookup in the name cache of flash finds an entry exactly when the cache has one for this
  name that is at most 600 seconds old, and finds such an entry, in every reachable state.
\<close>

theorem flash_names_lookup:
  assumes "hot_reach mx mem alloc tab now (s, H, N)" and "mem_ok mem" and "alloc_ok alloc"
  shows "\<exists>r s'. FindMatchInHotNameCache u s = Some (Inr (r, s')) \<and> (r = None \<longleftrightarrow> (\<forall>p. \<not> cached s u p)) \<and> (\<forall>p. r = Some p \<longrightarrow> cached s u p)"
  using assms by (rule hot_reach_lookup)

theorem flash_names_lookup_witness:
  "\<exists>s p s'. FindMatchInHotNameCache ''/a.html'' s = Some (Inr (Some p, s')) \<and> cached s ''/a.html'' p"
proof -
  obtain s where s: "hot_reach 1 demo_mem demo_alloc demo_tab 0 (s, {#0#}, {})" "cached s ''/a.html'' 0" using demo_name_run by blast
  show ?thesis using flash_names_lookup [OF s(1) demo_ok(1,2), of "''/a.html''"] s(2) by auto
qed

text \<open>
  C34. A request for a program with a query: when the cache of programs has an entry for it, and no
  entry that is a prefix of the request is older than 600 seconds, the lookup ends without a
  fault, finds an entry that is a prefix of the request, gives the request a reference to it, and
  copies what follows the slash or question mark where it stopped to path information and query.
\<close>

theorem flash_cgi_lookup:
  assumes "hot_reach mx mem alloc tab now (s, H, N)" and "mem_ok mem" and "alloc_ok alloc" and "\<forall>n. alloc n \<noteq> None"
    and "buf_ok (cgi_pathInfo cg) (cgi_maxPathInfo cg)" and "buf_ok (cgi_query cg) (cgi_maxQuery cg)"
    and "no_nul u" and "no_nul q" and "CHR ''?'' \<notin> set u" and "in_cgis s p u"
    and "\<forall>p' u'. in_cgis s p' u' \<and> prefix u' (u @ CHR ''?'' # q) \<longrightarrow> up_to_date s p'" and "\<forall>p' u'. in_cgis s p' u' \<longrightarrow> no_nul u'"
  shows "\<exists>p' u' rest cg' name' s' e'. FindMatchInHotCGICache alloc cg (u @ CHR ''?'' # q) s = Some (Inr (Some p', cg', name', s'))
    \<and> in_cgis s p' u' \<and> prefix u' (u @ CHR ''?'' # q) \<and> stops_at (u @ CHR ''?'' # q) rest \<and> cgi_result cg rest cg'
    \<and> hnes s' p' = Some e' \<and> hne_refCount e' = int (count H p') + 1"
  using assms by (rule hot_reach_cgi)

theorem flash_cgi_lookup_witness:
  "\<exists>s cg' name' s' e'. FindMatchInHotCGICache demo_alloc demo_cg ''cgi?x'' s = Some (Inr (Some 0, cg', name', s'))
    \<and> cstr (cgi_query cg') = ''x'' \<and> hnes s' 0 = Some e' \<and> hne_refCount e' = 2"
proof -
  obtain s where s: "hot_reach 1 demo_mem demo_alloc demo_tab 0 (s, {#0#}, {})" "in_cgis s 0 ''cgi''" "up_to_date s 0"
    "\<forall>p v. in_cgis s p v \<longrightarrow> p = 0 \<and> v = ''cgi''" using demo_cgi_run by blast
  have "\<forall>p u. in_cgis s p u \<and> prefix u (''cgi'' @ CHR ''?'' # ''x'') \<longrightarrow> up_to_date s p" "\<forall>p u. in_cgis s p u \<longrightarrow> no_nul u" using s(3,4) by fastforce+
  from flash_cgi_lookup [OF s(1) demo_ok(1-5) _ _ _ s(2) this]
  obtain p' u' rest cg' name' s' e' where f: "FindMatchInHotCGICache demo_alloc demo_cg ''cgi?x'' s = Some (Inr (Some p', cg', name', s'))"
    "in_cgis s p' u'" "stops_at ''cgi?x'' rest" "cgi_result demo_cg rest cg'" "hnes s' p' = Some e'" "hne_refCount e' = int (count {#0#} p') + 1" by auto
  have "p' = 0" using s(4) f(2) by blast
  moreover have "rest = ''?x''" using f(3) by (auto simp: stops_at_def suffix_Cons split: list.splits)
  ultimately have "FindMatchInHotCGICache demo_alloc demo_cg ''cgi?x'' s = Some (Inr (Some 0, cg', name', s'))" "cstr (cgi_query cg') = ''x''"
    "hnes s' 0 = Some e'" "hne_refCount e' = 2" using f by (auto simp: cgi_result_def split_rest_def)
  then show ?thesis by blast
qed

text \<open>
  C35. The dates of flash: a date that \<open>MakeHTTPDate\<close> writes, from 1970 to 2099, has 29 characters (the
  length that the padding of the headers relies on), and \<open>tdate_parse\<close> reads it as the time it was
  written for, except in leap years, where it is read one day late; of the leap year 2000 only
  January and February are.
\<close>

theorem flash_date_roundtrip:
  assumes "0 \<le> t" and "t < 4102444800"
  shows "length (MakeHTTPDate t) = 29
    \<and> tdate_parse (MakeHTTPDate t) =
        Inr (t + (if (tm_year (gmtime t) + 1900) mod 4 = 0 \<and> \<not> (tm_year (gmtime t) = 100 \<and> 2 \<le> tm_mon (gmtime t)) then 86400 else 0))"
  using date_length [OF assms] date_round_trip [OF assms] by (simp add: leap_error_def Let_def)

theorem flash_date_roundtrip_witness:
  "tdate_parse (MakeHTTPDate 1000000000) = Inr 1000000000 \<and> tdate_parse (MakeHTTPDate 1078000000) = Inr 1078086400"
proof -
  have "tm_year (gmtime 1000000000) = 101" "tm_year (gmtime 1078000000) = 104" by code_simp+
  then show ?thesis using flash_date_roundtrip [of 1000000000] flash_date_roundtrip [of 1078000000] by simp
qed





text \<open>
  C38. The descriptor queue of the userver: from \<open>q_init\<close> on, every sequence of insertions,
  deletions, changes that are put off and calls of \<open>q_sync\<close> does to the linked list what it does
  to a list of distinct descriptors. It fails exactly where the list says so: a descriptor that is
  there is added, one that is not there is deleted, the nodes or the entries of \<open>todo\<close> are used
  up, or the descriptor is out of range, by one past the end of \<open>fd_array\<close> in the
  case the assertions admit.
\<close>

theorem userver_q_sync:
  assumes "q_init mem m s0 = Inr s" and "length mem = m" and "q_front s0 = None" and "q_rear s0 = None"
  shows "case list_fdq_exec m cs ([], []) of
      Inl e \<Rightarrow> fdq_exec cs s = Inl e
    | Inr (xs, todo) \<Rightarrow> \<exists>s'. fdq_exec cs s = Inr s' \<and> q_holds s' xs \<and> q_todo s' = todo \<and> distinct xs"
proof -
  have "q_abs m [] s []" using q_init_ok [OF assms] by (simp add: q_abs_def)
  from fdq_exec_refines [OF this, of cs] show ?thesis
    using q_holds_distinct by (cases "fdq_exec cs s"; cases "list_fdq_exec m cs ([], [])") (auto simp: q_abs_def)
qed

theorem userver_q_sync_witness:
  "\<exists>s s'. q_init (replicate 4 \<lparr>n_fd = 9, n_next = None, n_prev = None\<rparr>) 4 demo_fdq = Inr s
    \<and> fdq_exec [To_add 1, To_add 3, To_delete 1, To_add 2, Sync Q_ADD_TO_FRONT, Add_rear 0] s = Inr s'
    \<and> q_holds s' [2, 3, 0]"
proof -
  let ?mem = "replicate 4 \<lparr>n_fd = 9, n_next = None, n_prev = None\<rparr>"
  obtain s where i: "q_init ?mem 4 demo_fdq = Inr s" by (simp add: q_init_def)
  from userver_q_sync [OF i, of "[To_add 1, To_add 3, To_delete 1, To_add 2, Sync Q_ADD_TO_FRONT, Add_rear 0]"]
  have "\<exists>s'. fdq_exec [To_add 1, To_add 3, To_delete 1, To_add 2, Sync Q_ADD_TO_FRONT, Add_rear 0] s = Inr s'
    \<and> q_holds s' [2, 3, 0]"
    by (auto simp: demo_fdq_def list_later_def list_apply_def list_add_def list_delete_def)
  with i show ?thesis by blast
qed

text \<open>
  C39. The connection table of the userver is a map from descriptors to entries: \<open>info_ptr\<close> finds
  what \<open>info_add\<close> has entered, \<open>info_delete\<close> removes it and frees its entry, other descriptors
  keep theirs, and the free list stays intact.
\<close>

theorem userver_info_map:
  assumes "info_inv s (i # fs)" and "sd_valid s sd" and "info_lookup s sd = None"
  shows "\<exists>s1 s2. info_add sd s = Inr (int i, s1) \<and> info_inv s1 fs \<and> info_lookup s1 = (info_lookup s)(sd \<mapsto> i)
    \<and> info_ptr sd s1 = Inr (Some i)
    \<and> info_delete sd s1 = Inr s2 \<and> info_inv s2 (i # fs) \<and> info_lookup s2 = info_lookup s"
proof -
  obtain s1 where s1: "info_add sd s = Inr (int i, s1)" "info_inv s1 fs" "info_lookup s1 = (info_lookup s)(sd \<mapsto> i)"
    using info_add_ok [OF assms] by blast
  then have l: "info_lookup s1 sd = Some i" by simp
  then have "sd_valid s1 sd" by (auto simp: info_lookup_def split: if_splits)
  with info_ptr_ok [OF s1(2)] l have "info_ptr sd s1 = Inr (Some i)" by simp
  moreover obtain s2 where "info_delete sd s1 = Inr s2" "info_inv s2 (i # fs)" "info_lookup s2 = (info_lookup s1)(sd := None)"
    using info_delete_ok [OF s1(2) l] by blast
  moreover have "(info_lookup s1)(sd := None) = info_lookup s" using s1(3) assms(3) by auto
  ultimately show ?thesis using s1 by metis
qed

theorem userver_info_map_witness:
  "\<exists>s s1. info_init demo_infos 9 2 = Inr s \<and> info_add 7 s = Inr (0, s1) \<and> info_ptr 7 s1 = Inr (Some 0)"
proof -
  obtain s where s: "info_init demo_infos 9 2 = Inr s" "info_inv s [0..<3]" "\<forall>sd. info_lookup s sd = None" "max_fds s = 9"
    using demo_info_table by blast
  then have "info_inv s (0 # [1, 2])" "sd_valid s 7" by (simp_all add: sd_valid_def upt_rec numeral_2_eq_2)
  from userver_info_map [OF this] s(1,3) show ?thesis by auto
qed



end
